(* ===== verification/Prelude.thy ===== *)
theory Prelude
  imports Main "HOL-Library.Word" "HOL-Library.Multiset" "HOL-Library.AList"
    "HOL-Library.While_Combinator" "HOL-Library.Sublist"
begin

text \<open>
  Shared vocabulary of the development: the names of the C integer types, memory cells that
  may be uninitialised, the exchange of two cells of an array, and the generic facts about
  lists, options and machine words that the component theories use.  The two collections
  \<open>zend_defs\<close> (definitions that a proof about one operation unfolds) and \<open>zend_wf\<close>
  (facts that say an operation keeps an invariant) are filled by the components.
\<close>

unbundle bit_operations_syntax

named_theorems zend_defs \<open>definitions unfolded when one operation is executed symbolically\<close>
named_theorems zend_wf \<open>preservation facts of the component invariants\<close>

type_synonym u8 = "8 word"
type_synonym u32 = "32 word"
type_synonym u64 = "64 word"

text \<open>A cell of a freshly allocated block holds nothing the program may rely on: \<open>None\<close>.\<close>

type_synonym 'a cell = "'a option"

section \<open>Arrays as lists\<close>

text \<open>
  Growing a block keeps its cells and adds uninitialised ones; this is what
  \<^verbatim>\<open>erealloc\<close> does when the block gets larger.
\<close>

definition grow_to :: "nat \<Rightarrow> 'a cell list \<Rightarrow> 'a cell list" where
  "grow_to n xs = take n xs @ replicate (n - length xs) None"

lemma length_grow_to [simp]: "length (grow_to n xs) = n"
  by (simp add: grow_to_def)

lemma nth_grow_to: "i < length xs \<Longrightarrow> i < n \<Longrightarrow> grow_to n xs ! i = xs ! i"
  by (simp add: grow_to_def nth_append)

lemma take_grow_to: "k \<le> length xs \<Longrightarrow> k \<le> n \<Longrightarrow> take k (grow_to n xs) = take k xs"
  by (simp add: grow_to_def min_absorb2)

lemma take_list_update_end:
  "k < length xs \<Longrightarrow> take (Suc k) (xs[k := v]) = take k xs @ [v]"
  by (simp add: take_Suc_conv_app_nth)

text \<open>Exchanging two cells, the effect of a \<^verbatim>\<open>swap_func_t\<close>.\<close>

definition swap_at :: "nat \<Rightarrow> nat \<Rightarrow> 'a list \<Rightarrow> 'a list" where
  "swap_at i j xs = xs[i := xs ! j, j := xs ! i]"

lemma length_swap_at [simp]: "length (swap_at i j xs) = length xs"
  by (simp add: swap_at_def)

lemma mset_swap_at [simp]:
  "i < length xs \<Longrightarrow> j < length xs \<Longrightarrow> mset (swap_at i j xs) = mset xs"
  by (simp add: swap_at_def mset_swap)

lemma nth_swap_at:
  "i < length xs \<Longrightarrow> j < length xs \<Longrightarrow>
   swap_at i j xs ! k = (if k = j then xs ! i else if k = i then xs ! j else xs ! k)"
  by (auto simp: swap_at_def nth_list_update)

lemma set_swap_at [simp]:
  "i < length xs \<Longrightarrow> j < length xs \<Longrightarrow> set (swap_at i j xs) = set xs"
  using mset_swap_at mset_eq_setD by metis

section \<open>Machine words\<close>

lemma unat_of_nat_u32: "n < 2 ^ 32 \<Longrightarrow> unat (word_of_nat n :: u32) = n"
  by (simp add: unsigned_of_nat take_bit_nat_eq_self)

lemma unat_of_nat_u64: "n < 2 ^ 64 \<Longrightarrow> unat (word_of_nat n :: u64) = n"
  by (simp add: unsigned_of_nat take_bit_nat_eq_self)

lemma unat_power_u32: "k < 32 \<Longrightarrow> unat (2 ^ k :: u32) = 2 ^ k"
  using unat_of_nat_u32 [of "2 ^ k"] power_strict_increasing [of k 32 "2 :: nat"] by simp

lemma sint_word_of_int_32:
  "- (2 ^ 31) \<le> z \<Longrightarrow> z < 2 ^ 31 \<Longrightarrow> sint (word_of_int z :: u32) = z"
  by (simp add: sint_sbintrunc' signed_take_bit_int_eq_self)

lemma word_or_high_mask:
  fixes x :: u32
  shows "x OR (- (2 ^ k)) = take_bit k x - 2 ^ k"
proof -
  have m: "- (2 ^ k) = NOT (mask k :: u32)"
    by (simp add: mask_eq_exp_minus_1 not_eq_complement)
  have "x OR NOT (mask k) = (x AND mask k) OR NOT (mask k)"
    by (rule bit_word_eqI) (auto simp: bit_simps)
  also have "\<dots> = (x AND mask k) + NOT (mask k)"
    by (rule disjunctive_add [symmetric]) (auto simp: bit_simps)
  finally show ?thesis unfolding m [symmetric] by (simp add: take_bit_eq_mask)
qed

section \<open>Options and maps\<close>

lemma those_map_Some [simp]: "those (map Some xs) = Some xs"
  by (induction xs) auto

lemma map_of_filter_key:
  "map_of (filter (\<lambda>(k, v). k \<noteq> key) xs) = (map_of xs)(key := None)"
  by (induction xs) (auto simp: fun_eq_iff)

end
