(* ===== verification/Zend_Stack.thy ===== *)
theory Zend_Stack
  imports Prelude
begin

text \<open>
  The generic stack \<^verbatim>\<open>zend_stack\<close> (\<^verbatim>\<open>Zend/zend_stack.c\<close>) and the pointer stack
  \<^verbatim>\<open>zend_ptr_stack\<close> (\<^verbatim>\<open>Zend/zend_ptr_stack.c\<close>, \<^verbatim>\<open>.h\<close>).  Both keep a block of
  \<open>max\<close> cells of which the first \<open>top\<close> are in use; both implement the last-in first-out
  contract stated once by the locale \<open>lifo\<close>.  Reading or writing outside the block is
  undefined behaviour in C, and so is the overflow of an \<^verbatim>\<open>int\<close>; the model returns \<open>None\<close> there,
  and the theorems show that it does not happen while the invariant holds and there is room below
  \<^verbatim>\<open>INT_MAX\<close>.
\<close>

section \<open>The contract of a stack\<close>

text \<open>
  \<open>contents\<close> lists the elements from the bottom to the top.  \<open>push\<close> may refuse
  (\<open>None\<close>) only outside the invariant, or when there is no room: \<open>room s n\<close> says that \<open>n\<close>
  more elements can be pushed.
\<close>

locale lifo =
  fixes inv :: "'s \<Rightarrow> bool"
    and room :: "'s \<Rightarrow> nat \<Rightarrow> bool"
    and contents :: "'s \<Rightarrow> 'a list"
    and push :: "'s \<Rightarrow> 'a \<Rightarrow> 's option"
    and pop :: "'s \<Rightarrow> ('a \<times> 's) option"
  assumes push_ok: "inv s \<Longrightarrow> room s (Suc n) \<Longrightarrow>
      \<exists>s'. push s x = Some s' \<and> inv s' \<and> contents s' = contents s @ [x] \<and> room s' n"
    and pop_ok: "inv s \<Longrightarrow> contents s \<noteq> [] \<Longrightarrow>
      \<exists>s'. pop s = Some (last (contents s), s') \<and> inv s' \<and> contents s' = butlast (contents s)"
begin

primrec push_all :: "'s \<Rightarrow> 'a list \<Rightarrow> 's option" where
  "push_all s [] = Some s"
| "push_all s (x # xs) = Option.bind (push s x) (\<lambda>s'. push_all s' xs)"

primrec pop_n :: "nat \<Rightarrow> 's \<Rightarrow> ('a list \<times> 's) option" where
  "pop_n 0 s = Some ([], s)"
| "pop_n (Suc n) s =
     Option.bind (pop s) (\<lambda>(x, s'). Option.bind (pop_n n s') (\<lambda>(xs, s''). Some (x # xs, s'')))"

lemma push_all_ok:
  "inv s \<Longrightarrow> room s (length xs) \<Longrightarrow> \<exists>s'. push_all s xs = Some s' \<and> inv s' \<and> contents s' = contents s @ xs"
proof (induction xs arbitrary: s)
  case Nil
  then show ?case by simp
next
  case (Cons x xs)
  have "room s (Suc (length xs))" using Cons.prems(2) by simp
  from push_ok [OF Cons.prems(1) this, of x] obtain s1 where
    "push s x = Some s1" "inv s1" "contents s1 = contents s @ [x]" "room s1 (length xs)" by blast
  with Cons.IH [of s1] show ?case by auto
qed

lemma pop_n_ok:
  "inv s \<Longrightarrow> contents s = ys @ xs \<Longrightarrow>
   \<exists>s'. pop_n (length xs) s = Some (rev xs, s') \<and> inv s' \<and> contents s' = ys"
proof (induction xs arbitrary: s rule: rev_induct)
  case Nil
  then show ?case by simp
next
  case (snoc x xs)
  then have "contents s \<noteq> []" and "last (contents s) = x" and "butlast (contents s) = ys @ xs"
    by (simp_all add: butlast_append)
  with pop_ok [OF snoc.prems(1)] obtain s1 where
    s1: "pop s = Some (x, s1)" "inv s1" "contents s1 = ys @ xs" by auto
  from snoc.IH [OF s1(2,3)] s1(1) show ?case by auto
qed

text \<open>What was pushed comes back in reverse order, and what was below is untouched.\<close>

lemma push_pop_roundtrip:
  assumes "inv s" "room s (length xs)"
  shows "\<exists>s1 s2. push_all s xs = Some s1 \<and> pop_n (length xs) s1 = Some (rev xs, s2)
    \<and> inv s2 \<and> contents s2 = contents s"
  using push_all_ok [OF assms] pop_n_ok by metis

end

section \<open>The type int\<close>

text \<open>The result of an operation on \<^verbatim>\<open>int\<close>, which is undefined when it leaves the range of the type.\<close>

definition INT_MAX :: int where
  "INT_MAX = 2 ^ 31 - 1"

definition INT_MIN :: int where
  "INT_MIN = - (2 ^ 31)"

definition c_int :: "int \<Rightarrow> int option" where
  "c_int i = (if INT_MIN \<le> i \<and> i \<le> INT_MAX then Some i else None)"

lemma c_int_Some: "INT_MIN \<le> i \<Longrightarrow> i \<le> INT_MAX \<Longrightarrow> c_int i = Some i"
  by (simp add: c_int_def)

lemma c_int_nonneg: "0 \<le> i \<Longrightarrow> i \<le> INT_MAX \<Longrightarrow> c_int i = Some i"
  by (simp add: c_int_def INT_MIN_def)

section \<open>zend\_stack\<close>

record 'a zend_stack =
  stk_size :: int
  stk_top :: int
  stk_max :: int
  stk_elements :: "'a cell list option"

definition STACK_BLOCK_SIZE :: int where
  "STACK_BLOCK_SIZE = 16"

definition stk_block :: "'a zend_stack \<Rightarrow> 'a cell list" where
  "stk_block s = (case stk_elements s of None \<Rightarrow> [] | Some xs \<Rightarrow> xs)"

text \<open>\<^verbatim>\<open>ZEND_STACK_ELEMENT\<close>: a cell of the block, or nothing outside it.  The offset \<^verbatim>\<open>size * n\<close> is computed in
  \<^verbatim>\<open>int\<close>.\<close>

definition stack_cell :: "'a zend_stack \<Rightarrow> int \<Rightarrow> nat option" where
  "stack_cell s n =
     Option.bind (c_int (stk_size s * n)) (\<lambda>_. if 0 \<le> n \<and> nat n < length (stk_block s) then Some (nat n) else None)"

definition ZEND_STACK_ELEMENT :: "'a zend_stack \<Rightarrow> int \<Rightarrow> 'a option" where
  "ZEND_STACK_ELEMENT s n = Option.bind (stack_cell s n) (\<lambda>k. stk_block s ! k)"

definition zend_stack_init :: "int \<Rightarrow> 'a zend_stack" where
  "zend_stack_init sz = \<lparr>stk_size = sz, stk_top = 0, stk_max = 0, stk_elements = None\<rparr>"

text \<open>The block gets more cells when it is full.\<close>

definition stack_grow :: "'a zend_stack \<Rightarrow> 'a zend_stack option" where
  "stack_grow s =
     (if stk_max s \<le> stk_top s
      then Option.bind (c_int (stk_max s + STACK_BLOCK_SIZE)) (\<lambda>mx.
        Some (s\<lparr>stk_max := mx, stk_elements := Some (grow_to (nat mx) (stk_block s))\<rparr>))
      else Some s)"

definition zend_stack_push :: "'a zend_stack \<Rightarrow> 'a \<Rightarrow> (int \<times> 'a zend_stack) option" where
  "zend_stack_push s0 x =
     Option.bind (stack_grow s0) (\<lambda>s.
     Option.bind (stack_cell s (stk_top s)) (\<lambda>k.
     Option.bind (c_int (stk_top s + 1)) (\<lambda>t.
       Some (stk_top s, s\<lparr>stk_elements := Some ((stk_block s)[k := Some x]), stk_top := t\<rparr>))))"

definition zend_stack_top :: "'a zend_stack \<Rightarrow> 'a option" where
  "zend_stack_top s = (if 0 < stk_top s then ZEND_STACK_ELEMENT s (stk_top s - 1) else None)"

definition zend_stack_del_top :: "'a zend_stack \<Rightarrow> 'a zend_stack option" where
  "zend_stack_del_top s = Option.bind (c_int (stk_top s - 1)) (\<lambda>t. Some (s\<lparr>stk_top := t\<rparr>))"

text \<open>\<^verbatim>\<open>FAILURE\<close> is \<open>-1\<close>.\<close>

definition zend_stack_int_top :: "int zend_stack \<Rightarrow> int" where
  "zend_stack_int_top s = (case zend_stack_top s of Some e \<Rightarrow> e | None \<Rightarrow> -1)"

definition zend_stack_is_empty :: "'a zend_stack \<Rightarrow> bool" where
  "zend_stack_is_empty s \<longleftrightarrow> stk_top s = 0"

definition zend_stack_destroy :: "'a zend_stack \<Rightarrow> 'a zend_stack" where
  "zend_stack_destroy s = (case stk_elements s of Some _ \<Rightarrow> s\<lparr>stk_elements := None\<rparr> | None \<Rightarrow> s)"

definition zend_stack_base :: "'a zend_stack \<Rightarrow> 'a cell list option" where
  "zend_stack_base s = stk_elements s"

definition zend_stack_count :: "'a zend_stack \<Rightarrow> int" where
  "zend_stack_count s = stk_top s"

datatype zend_stack_apply_direction = ZEND_STACK_APPLY_TOPDOWN | ZEND_STACK_APPLY_BOTTOMUP

text \<open>
  The callback is a state transformer that also says whether to stop.  \<open>apply_at\<close> is the
  body of both loops: it visits the given indices in order and breaks when the callback
  returns a non-zero value.
\<close>

fun apply_at :: "(int \<Rightarrow> 'a option) \<Rightarrow> ('a \<Rightarrow> 'st \<Rightarrow> int \<times> 'st) \<Rightarrow> int list \<Rightarrow> 'st \<Rightarrow> 'st option" where
  "apply_at el f [] st = Some st"
| "apply_at el f (i # is) st =
     (case el i of None \<Rightarrow> None
      | Some x \<Rightarrow> (case f x st of (r, st') \<Rightarrow> if r \<noteq> 0 then Some st' else apply_at el f is st'))"

definition zend_stack_apply ::
  "'a zend_stack \<Rightarrow> zend_stack_apply_direction \<Rightarrow> ('a \<Rightarrow> 'st \<Rightarrow> int \<times> 'st) \<Rightarrow> 'st \<Rightarrow> 'st option" where
  "zend_stack_apply s type apply_function st =
     (case type of
        ZEND_STACK_APPLY_TOPDOWN \<Rightarrow>
          apply_at (ZEND_STACK_ELEMENT s) apply_function (rev [0 .. stk_top s - 1]) st
      | ZEND_STACK_APPLY_BOTTOMUP \<Rightarrow>
          apply_at (ZEND_STACK_ELEMENT s) apply_function [0 .. stk_top s - 1] st)"

definition zend_stack_apply_with_argument ::
  "'a zend_stack \<Rightarrow> zend_stack_apply_direction \<Rightarrow> ('a \<Rightarrow> 'arg \<Rightarrow> 'st \<Rightarrow> int \<times> 'st) \<Rightarrow> 'arg \<Rightarrow> 'st \<Rightarrow> 'st option" where
  "zend_stack_apply_with_argument s type apply_function arg st =
     (case type of
        ZEND_STACK_APPLY_TOPDOWN \<Rightarrow>
          apply_at (ZEND_STACK_ELEMENT s) (\<lambda>x. apply_function x arg) (rev [0 .. stk_top s - 1]) st
      | ZEND_STACK_APPLY_BOTTOMUP \<Rightarrow>
          apply_at (ZEND_STACK_ELEMENT s) (\<lambda>x. apply_function x arg) [0 .. stk_top s - 1] st)"

text \<open>\<open>func = None\<close> is the null callback.\<close>

definition zend_stack_clean ::
  "'a zend_stack \<Rightarrow> ('a \<Rightarrow> 'st \<Rightarrow> 'st) option \<Rightarrow> bool \<Rightarrow> 'st \<Rightarrow> ('st \<times> 'a zend_stack) option" where
  "zend_stack_clean s func free_elements st =
     (case (case func of None \<Rightarrow> Some st
            | Some f \<Rightarrow> apply_at (ZEND_STACK_ELEMENT s) (\<lambda>x st. (0, f x st)) [0 .. stk_top s - 1] st) of
        None \<Rightarrow> None
      | Some st' \<Rightarrow>
          Some (st', if free_elements then s\<lparr>stk_elements := None, stk_top := 0, stk_max := 0\<rparr> else s))"

subsection \<open>Invariant and behaviour\<close>

definition stack_inv :: "'a zend_stack \<Rightarrow> bool" where
  "stack_inv s \<longleftrightarrow> 0 < stk_size s \<and> 0 \<le> stk_top s \<and> stk_top s \<le> stk_max s \<and> stk_max s \<le> INT_MAX
     \<and> stk_size s * (stk_top s - 1) \<le> INT_MAX \<and> length (stk_block s) = nat (stk_max s)
     \<and> (\<forall>i < nat (stk_top s). stk_block s ! i \<noteq> None)"

text \<open>Room for \<open>n\<close> more elements: neither the offsets nor the sizes of the block leave the range of \<^verbatim>\<open>int\<close>.\<close>

definition stack_room :: "'a zend_stack \<Rightarrow> nat \<Rightarrow> bool" where
  "stack_room s n \<longleftrightarrow> stk_size s * (stk_top s + int n) \<le> INT_MAX \<and> stk_top s + int n + STACK_BLOCK_SIZE \<le> INT_MAX"

definition stack_contents :: "'a zend_stack \<Rightarrow> 'a list" where
  "stack_contents s = map the (take (nat (stk_top s)) (stk_block s))"

lemmas stack_defs = stack_inv_def stack_contents_def stk_block_def STACK_BLOCK_SIZE_def

lemma length_stack_contents: "stack_inv s \<Longrightarrow> length (stack_contents s) = nat (stk_top s)"
  by (auto simp: stack_inv_def stack_contents_def)

lemma stack_inv_init: "0 < sz \<Longrightarrow> stack_inv (zend_stack_init sz)" "stack_contents (zend_stack_init sz) = []"
  by (simp_all add: stack_defs zend_stack_init_def INT_MAX_def)

lemma stack_cell_Some:
  assumes "stack_inv s" "0 \<le> n" "n < stk_max s" "stk_size s * n \<le> INT_MAX"
  shows "stack_cell s n = Some (nat n)"
proof -
  have "0 \<le> stk_size s * n" using assms by (simp add: stack_inv_def)
  then show ?thesis using assms by (simp add: stack_cell_def stack_inv_def c_int_nonneg)
qed

lemma stack_element_contents:
  assumes "stack_inv s" "i < nat (stk_top s)"
  shows "ZEND_STACK_ELEMENT s (int i) = Some (stack_contents s ! i)"
proof -
  have "stk_size s * int i \<le> stk_size s * (stk_top s - 1)" by (rule mult_left_mono) (use assms in \<open>auto simp: stack_inv_def\<close>)
  then have "stack_cell s (int i) = Some i" using stack_cell_Some [of s "int i"] assms by (simp add: stack_inv_def)
  then show ?thesis using assms by (auto simp: ZEND_STACK_ELEMENT_def stack_inv_def stack_contents_def)
qed

lemma stack_grow_ok:
  assumes inv: "stack_inv s" and room: "stack_room s (Suc n)"
  obtains g where "stack_grow s = Some g" "stack_inv g" "stk_top g = stk_top s" "stk_size g = stk_size s" "stk_top g < stk_max g"
    "take (nat (stk_top s)) (stk_block g) = take (nat (stk_top s)) (stk_block s)"
proof (cases "stk_max s \<le> stk_top s")
  case True
  let ?g = "s\<lparr>stk_max := stk_max s + STACK_BLOCK_SIZE, stk_elements := Some (grow_to (nat (stk_max s + STACK_BLOCK_SIZE)) (stk_block s))\<rparr>"
  have m: "stk_max s = stk_top s" "0 \<le> stk_max s" "stk_max s + STACK_BLOCK_SIZE \<le> INT_MAX" "length (stk_block s) = nat (stk_max s)"
    using True inv room by (auto simp: stack_inv_def stack_room_def)
  then have c: "c_int (stk_max s + STACK_BLOCK_SIZE) = Some (stk_max s + STACK_BLOCK_SIZE)"
    by (intro c_int_nonneg) (auto simp: STACK_BLOCK_SIZE_def)
  have run: "stack_grow s = Some ?g" using True c by (simp add: stack_grow_def)
  have blk: "stk_block ?g = grow_to (nat (stk_max s + STACK_BLOCK_SIZE)) (stk_block s)" by (simp add: stk_block_def)
  have "stack_inv ?g" unfolding stack_inv_def blk
    using inv m by (auto simp: stack_inv_def nth_grow_to STACK_BLOCK_SIZE_def)
  moreover have "take (nat (stk_top s)) (stk_block ?g) = take (nat (stk_top s)) (stk_block s)"
    unfolding blk using m by (simp add: take_grow_to STACK_BLOCK_SIZE_def)
  ultimately show ?thesis using that [OF run] m by (simp add: STACK_BLOCK_SIZE_def)
next
  case False
  then show ?thesis using that [of s] inv by (simp add: stack_grow_def)
qed

lemma stack_push_ok:
  assumes inv: "stack_inv s" and room: "stack_room s (Suc n)"
  shows "\<exists>s'. zend_stack_push s x = Some (stk_top s, s') \<and> stack_inv s'
    \<and> stack_contents s' = stack_contents s @ [x] \<and> stack_room s' n"
proof -
  obtain g where g: "stack_grow s = Some g" "stack_inv g" "stk_top g = stk_top s" "stk_size g = stk_size s" "stk_top g < stk_max g"
    "take (nat (stk_top s)) (stk_block g) = take (nat (stk_top s)) (stk_block s)" using stack_grow_ok [OF inv room] .
  note gi = g(2) [unfolded stack_inv_def]
  have pos: "0 \<le> stk_top s" "0 < stk_size s" using inv by (simp_all add: stack_inv_def)
  let ?k = "nat (stk_top s)"
  let ?s' = "g\<lparr>stk_elements := Some ((stk_block g)[?k := Some x]), stk_top := stk_top s + 1\<rparr>"
  have k: "?k < length (stk_block g)" using gi g(3,5) by simp
  have "stk_size s * stk_top s \<le> stk_size s * (stk_top s + int (Suc n))" by (rule mult_left_mono) (use pos in auto)
  then have off: "stk_size s * stk_top s \<le> INT_MAX" using room by (simp add: stack_room_def)
  have cell: "stack_cell g (stk_top g) = Some ?k" using stack_cell_Some [OF g(2), of "stk_top g"] gi g(3-5) off by simp
  have "c_int (stk_top s + 1) = Some (stk_top s + 1)" using gi g(3,5) by (intro c_int_nonneg) auto
  then have push: "zend_stack_push s x = Some (stk_top s, ?s')" using cell by (simp add: zend_stack_push_def g(1,3))
  have suc: "nat (stk_top s + 1) = Suc ?k" using pos by simp
  have blk: "stk_block ?s' = (stk_block g)[?k := Some x]" by (simp add: stk_block_def)
  have "\<forall>i < Suc ?k. ((stk_block g)[?k := Some x]) ! i \<noteq> None"
    using gi k g(3) by (auto simp: nth_list_update less_Suc_eq)
  then have "stack_inv ?s'" using gi g(3-5) off suc by (simp add: stack_inv_def blk)
  moreover have "stack_contents ?s' = stack_contents s @ [x]"
    using k g(6) suc by (simp add: stack_contents_def blk take_list_update_end)
  moreover have "stack_room ?s' n" using room g(4) by (simp add: stack_room_def algebra_simps)
  ultimately show ?thesis using push by blast
qed

lemma stack_del_top_ok:
  assumes inv: "stack_inv s" and ne: "stack_contents s \<noteq> []"
  shows "zend_stack_top s = Some (last (stack_contents s))"
    and "\<exists>s'. zend_stack_del_top s = Some s' \<and> stack_inv s' \<and> stack_contents s' = butlast (stack_contents s)"
proof -
  from inv have len: "length (stack_contents s) = nat (stk_top s)"
    by (rule length_stack_contents)
  with ne have pos: "0 < stk_top s" by (cases "stk_top s \<le> 0") auto
  then have "ZEND_STACK_ELEMENT s (int (nat (stk_top s) - 1)) = Some (stack_contents s ! (nat (stk_top s) - 1))"
    by (intro stack_element_contents inv) simp
  moreover have "int (nat (stk_top s) - 1) = stk_top s - 1" using pos by simp
  ultimately show "zend_stack_top s = Some (last (stack_contents s))"
    using pos ne len by (simp add: zend_stack_top_def last_conv_nth)
  let ?s' = "s\<lparr>stk_top := stk_top s - 1\<rparr>"
  have "zend_stack_del_top s = Some ?s'" using pos inv by (simp add: zend_stack_del_top_def c_int_nonneg stack_inv_def)
  moreover have "stack_inv ?s'"
    using inv pos by (auto simp: stack_inv_def stk_block_def algebra_simps)
  moreover have "nat (stk_top s - 1) = nat (stk_top s) - 1" by simp
  then have "stack_contents ?s' = butlast (stack_contents s)"
    using butlast_take [of "nat (stk_top s)" "stk_block s"] inv
    by (auto simp: stack_contents_def stack_inv_def stk_block_def simp flip: map_butlast)
  ultimately show "\<exists>s'. zend_stack_del_top s = Some s' \<and> stack_inv s' \<and> stack_contents s' = butlast (stack_contents s)" by blast
qed

definition stack_push :: "'a zend_stack \<Rightarrow> 'a \<Rightarrow> 'a zend_stack option" where
  "stack_push s x = map_option snd (zend_stack_push s x)"

definition stack_pop :: "'a zend_stack \<Rightarrow> ('a \<times> 'a zend_stack) option" where
  "stack_pop s = Option.bind (zend_stack_top s) (\<lambda>x. Option.bind (zend_stack_del_top s) (\<lambda>s'. Some (x, s')))"

interpretation zs: lifo stack_inv stack_room stack_contents stack_push stack_pop
proof
  fix s :: "'a zend_stack" and x n
  assume "stack_inv s" "stack_room s (Suc n)"
  from stack_push_ok [OF this, of x]
  show "\<exists>s'. stack_push s x = Some s' \<and> stack_inv s' \<and> stack_contents s' = stack_contents s @ [x] \<and> stack_room s' n"
    by (auto simp: stack_push_def)
next
  fix s :: "'a zend_stack"
  assume "stack_inv s" "stack_contents s \<noteq> []"
  from stack_del_top_ok [OF this]
  show "\<exists>s'. stack_pop s = Some (last (stack_contents s), s') \<and> stack_inv s'
      \<and> stack_contents s' = butlast (stack_contents s)"
    by (auto simp: stack_pop_def)
qed

subsection \<open>Traversal\<close>

text \<open>What the callback sees: the elements of a list in order, up to and including the first
  one on which it asks to stop.\<close>

fun apply_list :: "('a \<Rightarrow> 'st \<Rightarrow> int \<times> 'st) \<Rightarrow> 'a list \<Rightarrow> 'st \<Rightarrow> 'st" where
  "apply_list f [] st = st"
| "apply_list f (x # xs) st = (case f x st of (r, st') \<Rightarrow> if r \<noteq> 0 then st' else apply_list f xs st')"

lemma apply_at_map:
  "(\<And>i. i \<in> set is \<Longrightarrow> el i = Some (g i)) \<Longrightarrow> apply_at el f is st = Some (apply_list f (map g is) st)"
  by (induction "is" arbitrary: st) (auto split: prod.splits)

lemma upto_zero_map: "0 \<le> n \<Longrightarrow> [0 .. n - 1] = map int [0 ..< nat n]"
  by (rule nth_equalityI) auto

lemma stack_indices_contents:
  assumes inv: "stack_inv s"
  shows "map (\<lambda>i. stack_contents s ! nat i) [0 .. stk_top s - 1] = stack_contents s"
    and "\<And>i. i \<in> set [0 .. stk_top s - 1] \<Longrightarrow> ZEND_STACK_ELEMENT s i = Some (stack_contents s ! nat i)"
proof -
  have pos: "0 \<le> stk_top s" using inv by (simp add: stack_inv_def)
  have "map (\<lambda>i. stack_contents s ! nat i) [0 .. stk_top s - 1]
      = map (\<lambda>i. stack_contents s ! i) [0 ..< nat (stk_top s)]"
    by (simp add: upto_zero_map [OF pos] comp_def)
  also have "\<dots> = stack_contents s"
    using length_stack_contents [OF inv] map_nth [of "stack_contents s"] by simp
  finally show "map (\<lambda>i. stack_contents s ! nat i) [0 .. stk_top s - 1] = stack_contents s" .
  fix i assume "i \<in> set [0 .. stk_top s - 1]"
  then show "ZEND_STACK_ELEMENT s i = Some (stack_contents s ! nat i)"
    using stack_element_contents [OF inv, of "nat i"] by simp
qed

lemma stack_apply_contents:
  assumes inv: "stack_inv s"
  shows "zend_stack_apply s ZEND_STACK_APPLY_BOTTOMUP f st = Some (apply_list f (stack_contents s) st)"
    and "zend_stack_apply s ZEND_STACK_APPLY_TOPDOWN f st = Some (apply_list f (rev (stack_contents s)) st)"
proof -
  note idx = stack_indices_contents [OF inv]
  have "apply_at (ZEND_STACK_ELEMENT s) f [0 .. stk_top s - 1] st
      = Some (apply_list f (map (\<lambda>i. stack_contents s ! nat i) [0 .. stk_top s - 1]) st)"
    by (rule apply_at_map) (simp add: idx(2))
  then show "zend_stack_apply s ZEND_STACK_APPLY_BOTTOMUP f st = Some (apply_list f (stack_contents s) st)"
    by (simp add: zend_stack_apply_def idx(1))
  have "apply_at (ZEND_STACK_ELEMENT s) f (rev [0 .. stk_top s - 1]) st
      = Some (apply_list f (map (\<lambda>i. stack_contents s ! nat i) (rev [0 .. stk_top s - 1])) st)"
    by (rule apply_at_map) (simp add: idx(2))
  then show "zend_stack_apply s ZEND_STACK_APPLY_TOPDOWN f st = Some (apply_list f (rev (stack_contents s)) st)"
    by (simp add: zend_stack_apply_def idx(1) flip: rev_map)
qed

lemma apply_list_continue: "apply_list (\<lambda>x st. (0, f x st)) xs st = fold f xs st"
  by (induction xs arbitrary: st) auto

section \<open>zend\_ptr\_stack\<close>

text \<open>\<open>ps_top_element\<close> is the pointer \<^verbatim>\<open>top_element\<close> as an offset from \<^verbatim>\<open>elements\<close>.\<close>

record 'a zend_ptr_stack =
  ps_top :: int
  ps_max :: int
  ps_elements :: "'a cell list"
  ps_top_element :: int
  ps_persistent :: bool

definition PTR_STACK_BLOCK_SIZE :: int where
  "PTR_STACK_BLOCK_SIZE = 64"

definition zend_ptr_stack_init_ex :: "bool \<Rightarrow> 'a zend_ptr_stack" where
  "zend_ptr_stack_init_ex persistent =
     \<lparr>ps_top = 0, ps_max = 0, ps_elements = [], ps_top_element = 0, ps_persistent = persistent\<rparr>"

definition zend_ptr_stack_init :: "'a zend_ptr_stack" where
  "zend_ptr_stack_init = zend_ptr_stack_init_ex False"

text \<open>The loop of \<^verbatim>\<open>ZEND_PTR_STACK_RESIZE_IF_NEEDED\<close>, entered when \<open>need > max\<close>.\<close>

function ptr_stack_new_max :: "int \<Rightarrow> int \<Rightarrow> int option" where
  "ptr_stack_new_max need mx =
     (if need > mx
      then if c_int (mx + PTR_STACK_BLOCK_SIZE) = None then None else ptr_stack_new_max need (mx + PTR_STACK_BLOCK_SIZE)
      else Some mx)"
  by pat_completeness auto
termination
  by (relation "measure (\<lambda>(need, mx). nat (need - mx))") (auto simp: PTR_STACK_BLOCK_SIZE_def)

declare ptr_stack_new_max.simps [simp del]

definition ZEND_PTR_STACK_RESIZE_IF_NEEDED :: "'a zend_ptr_stack \<Rightarrow> int \<Rightarrow> 'a zend_ptr_stack option" where
  "ZEND_PTR_STACK_RESIZE_IF_NEEDED s cnt =
     Option.bind (c_int (ps_top s + cnt)) (\<lambda>need.
       if need > ps_max s
       then Option.bind (ptr_stack_new_max need (ps_max s)) (\<lambda>mx.
         Some (s\<lparr>ps_max := mx, ps_elements := grow_to (nat mx) (ps_elements s), ps_top_element := ps_top s\<rparr>))
       else Some s)"

text \<open>\<^verbatim>\<open>stack->top += n\<close>.\<close>

definition ptr_top_add :: "int \<Rightarrow> 'a zend_ptr_stack \<Rightarrow> 'a zend_ptr_stack option" where
  "ptr_top_add n s = Option.bind (c_int (ps_top s + n)) (\<lambda>t. Some (s\<lparr>ps_top := t\<rparr>))"

text \<open>\<^verbatim>\<open>*(stack->top_element++) = ptr\<close> and \<^verbatim>\<open>*(--stack->top_element)\<close>.\<close>

definition ptr_store_inc :: "'a zend_ptr_stack \<Rightarrow> 'a \<Rightarrow> 'a zend_ptr_stack option" where
  "ptr_store_inc s x =
     (let n = ps_top_element s
      in if 0 \<le> n \<and> nat n < length (ps_elements s)
         then Some (s\<lparr>ps_elements := (ps_elements s)[nat n := Some x], ps_top_element := n + 1\<rparr>)
         else None)"

definition ptr_dec_load :: "'a zend_ptr_stack \<Rightarrow> ('a \<times> 'a zend_ptr_stack) option" where
  "ptr_dec_load s =
     (let n = ps_top_element s - 1
      in if 0 \<le> n \<and> nat n < length (ps_elements s)
         then map_option (\<lambda>x. (x, s\<lparr>ps_top_element := n\<rparr>)) (ps_elements s ! nat n)
         else None)"

definition zend_ptr_stack_push :: "'a zend_ptr_stack \<Rightarrow> 'a \<Rightarrow> 'a zend_ptr_stack option" where
  "zend_ptr_stack_push s ptr =
     Option.bind (ZEND_PTR_STACK_RESIZE_IF_NEEDED s 1) (\<lambda>s. Option.bind (ptr_top_add 1 s) (\<lambda>s. ptr_store_inc s ptr))"

definition zend_ptr_stack_pop :: "'a zend_ptr_stack \<Rightarrow> ('a \<times> 'a zend_ptr_stack) option" where
  "zend_ptr_stack_pop s = Option.bind (ptr_top_add (-1) s) ptr_dec_load"

definition zend_ptr_stack_top :: "'a zend_ptr_stack \<Rightarrow> 'a option" where
  "zend_ptr_stack_top s =
     (let n = ps_top s - 1
      in if 0 \<le> n \<and> nat n < length (ps_elements s) then ps_elements s ! nat n else None)"

primrec ptr_push_loop :: "'a list \<Rightarrow> 'a zend_ptr_stack \<Rightarrow> 'a zend_ptr_stack option" where
  "ptr_push_loop [] s = Some s"
| "ptr_push_loop (x # xs) s =
     Option.bind (ptr_top_add 1 s) (\<lambda>s. Option.bind (ptr_store_inc s x) (ptr_push_loop xs))"

text \<open>The variable arguments of the call are the list \<open>args\<close>; \<open>count\<close> is its length.\<close>

definition zend_ptr_stack_n_push :: "'a zend_ptr_stack \<Rightarrow> 'a list \<Rightarrow> 'a zend_ptr_stack option" where
  "zend_ptr_stack_n_push s args =
     Option.bind (ZEND_PTR_STACK_RESIZE_IF_NEEDED s (int (length args))) (ptr_push_loop args)"

primrec zend_ptr_stack_n_pop :: "nat \<Rightarrow> 'a zend_ptr_stack \<Rightarrow> ('a list \<times> 'a zend_ptr_stack) option" where
  "zend_ptr_stack_n_pop 0 s = Some ([], s)"
| "zend_ptr_stack_n_pop (Suc cnt) s =
     Option.bind (ptr_dec_load s) (\<lambda>(x, s').
       Option.bind (ptr_top_add (-1) s') (\<lambda>s'.
         Option.bind (zend_ptr_stack_n_pop cnt s') (\<lambda>(xs, s''). Some (x # xs, s''))))"

text \<open>The unrolled pushes and pops of the header: one resize, then \<open>top\<close> moves by 3 or 2.\<close>

definition zend_ptr_stack_3_push :: "'a zend_ptr_stack \<Rightarrow> 'a \<Rightarrow> 'a \<Rightarrow> 'a \<Rightarrow> 'a zend_ptr_stack option" where
  "zend_ptr_stack_3_push s a b c =
     Option.bind (ZEND_PTR_STACK_RESIZE_IF_NEEDED s 3) (\<lambda>s.
     Option.bind (ptr_top_add 3 s) (\<lambda>s.
     Option.bind (ptr_store_inc s a) (\<lambda>s. Option.bind (ptr_store_inc s b) (\<lambda>s. ptr_store_inc s c))))"

definition zend_ptr_stack_2_push :: "'a zend_ptr_stack \<Rightarrow> 'a \<Rightarrow> 'a \<Rightarrow> 'a zend_ptr_stack option" where
  "zend_ptr_stack_2_push s a b =
     Option.bind (ZEND_PTR_STACK_RESIZE_IF_NEEDED s 2) (\<lambda>s.
     Option.bind (ptr_top_add 2 s) (\<lambda>s. Option.bind (ptr_store_inc s a) (\<lambda>s. ptr_store_inc s b)))"

definition zend_ptr_stack_3_pop :: "'a zend_ptr_stack \<Rightarrow> (('a \<times> 'a \<times> 'a) \<times> 'a zend_ptr_stack) option" where
  "zend_ptr_stack_3_pop s =
     Option.bind (ptr_dec_load s) (\<lambda>(a, s).
     Option.bind (ptr_dec_load s) (\<lambda>(b, s).
     Option.bind (ptr_dec_load s) (\<lambda>(c, s). Option.bind (ptr_top_add (-3) s) (\<lambda>s. Some ((a, b, c), s)))))"

definition zend_ptr_stack_2_pop :: "'a zend_ptr_stack \<Rightarrow> (('a \<times> 'a) \<times> 'a zend_ptr_stack) option" where
  "zend_ptr_stack_2_pop s =
     Option.bind (ptr_dec_load s) (\<lambda>(a, s).
     Option.bind (ptr_dec_load s) (\<lambda>(b, s). Option.bind (ptr_top_add (-2) s) (\<lambda>s. Some ((a, b), s))))"

definition ps_element :: "'a zend_ptr_stack \<Rightarrow> int \<Rightarrow> 'a option" where
  "ps_element s i = (if 0 \<le> i \<and> nat i < length (ps_elements s) then ps_elements s ! nat i else None)"

definition zend_ptr_stack_apply :: "'a zend_ptr_stack \<Rightarrow> ('a \<Rightarrow> 'st \<Rightarrow> 'st) \<Rightarrow> 'st \<Rightarrow> 'st option" where
  "zend_ptr_stack_apply s func st =
     apply_at (ps_element s) (\<lambda>x st. (0, func x st)) (rev [0 .. ps_top s - 1]) st"

definition zend_ptr_stack_reverse_apply :: "'a zend_ptr_stack \<Rightarrow> ('a \<Rightarrow> 'st \<Rightarrow> 'st) \<Rightarrow> 'st \<Rightarrow> 'st option" where
  "zend_ptr_stack_reverse_apply s func st =
     apply_at (ps_element s) (\<lambda>x st. (0, func x st)) [0 .. ps_top s - 1] st"

text \<open>\<open>free_elements\<close> releases every element with \<open>pefree\<close>, which the model passes in as
  the state transformer \<open>free\<close>.\<close>

definition zend_ptr_stack_clean ::
  "'a zend_ptr_stack \<Rightarrow> ('a \<Rightarrow> 'st \<Rightarrow> 'st) \<Rightarrow> ('a \<Rightarrow> 'st \<Rightarrow> 'st) \<Rightarrow> bool \<Rightarrow> 'st \<Rightarrow> ('st \<times> 'a zend_ptr_stack) option" where
  "zend_ptr_stack_clean s func free free_elements st =
     Option.bind (zend_ptr_stack_apply s func st) (\<lambda>st1.
     Option.bind (if free_elements then zend_ptr_stack_apply s free st1 else Some st1) (\<lambda>st2.
       Some (st2, s\<lparr>ps_top := 0, ps_top_element := 0\<rparr>)))"

definition zend_ptr_stack_num_elements :: "'a zend_ptr_stack \<Rightarrow> int" where
  "zend_ptr_stack_num_elements s = ps_top s"

subsection \<open>Invariant and behaviour\<close>

definition ptr_stack_inv :: "'a zend_ptr_stack \<Rightarrow> bool" where
  "ptr_stack_inv s \<longleftrightarrow> 0 \<le> ps_top s \<and> ps_top s \<le> ps_max s \<and> ps_max s \<le> INT_MAX \<and> ps_top_element s = ps_top s
     \<and> length (ps_elements s) = nat (ps_max s)
     \<and> (\<forall>i < nat (ps_top s). ps_elements s ! i \<noteq> None)"

definition ptr_stack_room :: "'a zend_ptr_stack \<Rightarrow> nat \<Rightarrow> bool" where
  "ptr_stack_room s n \<longleftrightarrow> ps_top s + int n + PTR_STACK_BLOCK_SIZE \<le> INT_MAX"

definition ptr_stack_contents :: "'a zend_ptr_stack \<Rightarrow> 'a list" where
  "ptr_stack_contents s = map the (take (nat (ps_top s)) (ps_elements s))"

lemma ptr_stack_new_max_ok:
  "need + PTR_STACK_BLOCK_SIZE \<le> INT_MAX \<Longrightarrow> 0 \<le> mx \<Longrightarrow> mx \<le> INT_MAX
    \<Longrightarrow> \<exists>m. ptr_stack_new_max need mx = Some m \<and> mx \<le> m \<and> need \<le> m \<and> m \<le> INT_MAX"
proof (induction need mx rule: ptr_stack_new_max.induct)
  case (1 need mx)
  show ?case
  proof (cases "need > mx")
    case True
    then have c: "c_int (mx + PTR_STACK_BLOCK_SIZE) = Some (mx + PTR_STACK_BLOCK_SIZE)" "mx + PTR_STACK_BLOCK_SIZE \<le> INT_MAX" "0 \<le> mx + PTR_STACK_BLOCK_SIZE"
      using 1(2,3) by (auto intro!: c_int_nonneg simp: PTR_STACK_BLOCK_SIZE_def)
    then obtain m where "ptr_stack_new_max need (mx + PTR_STACK_BLOCK_SIZE) = Some m" "mx + PTR_STACK_BLOCK_SIZE \<le> m" "need \<le> m" "m \<le> INT_MAX"
      using 1(1) True 1(2) by auto
    then show ?thesis using True c(1) by (subst ptr_stack_new_max.simps) (auto simp: PTR_STACK_BLOCK_SIZE_def)
  next
    case False
    then show ?thesis using 1(4) by (subst ptr_stack_new_max.simps) auto
  qed
qed

lemma ptr_stack_resize:
  assumes inv: "ptr_stack_inv s" and room: "ptr_stack_room s n"
  obtains s' where "ZEND_PTR_STACK_RESIZE_IF_NEEDED s (int n) = Some s'" "ptr_stack_inv s'" "ptr_stack_contents s' = ptr_stack_contents s"
    "ps_top s' = ps_top s" "ps_top s' + int n \<le> ps_max s'"
proof -
  have i: "0 \<le> ps_top s" "0 \<le> ps_max s" "ps_max s \<le> INT_MAX" using inv by (auto simp: ptr_stack_inv_def)
  have c: "c_int (ps_top s + int n) = Some (ps_top s + int n)"
    using i room by (intro c_int_nonneg) (auto simp: ptr_stack_room_def PTR_STACK_BLOCK_SIZE_def)
  obtain m where m: "ptr_stack_new_max (ps_top s + int n) (ps_max s) = Some m" "ps_max s \<le> m" "ps_top s + int n \<le> m" "m \<le> INT_MAX"
    using ptr_stack_new_max_ok [of "ps_top s + int n" "ps_max s"] i room unfolding ptr_stack_room_def by blast
  show ?thesis
  proof (cases "ps_top s + int n > ps_max s")
    case True
    let ?s = "s\<lparr>ps_max := m, ps_elements := grow_to (nat m) (ps_elements s), ps_top_element := ps_top s\<rparr>"
    have "ptr_stack_inv ?s" "ptr_stack_contents ?s = ptr_stack_contents s"
      using inv m by (auto simp: ptr_stack_inv_def ptr_stack_contents_def nth_grow_to take_grow_to)
    then show ?thesis using that [of ?s] True c m by (simp add: ZEND_PTR_STACK_RESIZE_IF_NEEDED_def)
  next
    case False
    then show ?thesis using that [of s] inv c by (simp add: ZEND_PTR_STACK_RESIZE_IF_NEEDED_def)
  qed
qed

lemma ptr_top_add_ok: "0 \<le> ps_top s + n \<Longrightarrow> ps_top s + n \<le> INT_MAX \<Longrightarrow> ptr_top_add n s = Some (s\<lparr>ps_top := ps_top s + n\<rparr>)"
  by (simp add: ptr_top_add_def c_int_nonneg)

text \<open>One store moves \<open>top\<close> and \<open>top_element\<close> together.\<close>

lemma ptr_stack_store:
  assumes inv: "ptr_stack_inv s" and room: "ps_top s < ps_max s"
  shows "\<exists>s'. Option.bind (ptr_top_add 1 s) (\<lambda>s. ptr_store_inc s x) = Some s' \<and> ptr_stack_inv s'
    \<and> ptr_stack_contents s' = ptr_stack_contents s @ [x] \<and> ps_max s' = ps_max s \<and> ps_top s' = ps_top s + 1"
proof -
  let ?k = "nat (ps_top s)"
  let ?s' = "s\<lparr>ps_top := ps_top s + 1, ps_elements := (ps_elements s)[?k := Some x],
      ps_top_element := ps_top s + 1\<rparr>"
  from inv room have k: "?k < length (ps_elements s)" and suc: "nat (ps_top s + 1) = Suc ?k"
    by (auto simp: ptr_stack_inv_def)
  have "ptr_top_add 1 s = Some (s\<lparr>ps_top := ps_top s + 1\<rparr>)" using inv room by (intro ptr_top_add_ok) (auto simp: ptr_stack_inv_def)
  then have "Option.bind (ptr_top_add 1 s) (\<lambda>s. ptr_store_inc s x) = Some ?s'"
    using inv k by (simp add: ptr_store_inc_def ptr_stack_inv_def Let_def)
  moreover have "ptr_stack_inv ?s'"
    using inv room suc k by (auto simp: ptr_stack_inv_def nth_list_update less_Suc_eq)
  moreover have "ptr_stack_contents ?s' = ptr_stack_contents s @ [x]"
    using k suc by (simp add: ptr_stack_contents_def take_list_update_end)
  ultimately show ?thesis by auto
qed

lemma ptr_stack_load:
  assumes inv: "ptr_stack_inv s" and ne: "ptr_stack_contents s \<noteq> []"
  shows "\<exists>s'. ptr_dec_load s = Some (last (ptr_stack_contents s), s')
    \<and> s' = s\<lparr>ps_top_element := ps_top s - 1\<rparr>
    \<and> ptr_stack_inv (s'\<lparr>ps_top := ps_top s' - 1\<rparr>)
    \<and> ptr_stack_contents (s'\<lparr>ps_top := ps_top s' - 1\<rparr>) = butlast (ptr_stack_contents s)"
proof -
  have pos: "0 < ps_top s"
    using ne by (cases "ps_top s \<le> 0") (auto simp: ptr_stack_contents_def)
  let ?k = "nat (ps_top s) - 1"
  have k: "?k < length (ps_elements s)" "?k < nat (ps_top s)" "nat (ps_top s - 1) = ?k"
    and le: "nat (ps_top s) \<le> length (ps_elements s)"
    using inv pos by (auto simp: ptr_stack_inv_def)
  from inv k obtain y where y: "ps_elements s ! ?k = Some y" by (auto simp: ptr_stack_inv_def)
  have "last (ptr_stack_contents s) = y"
    using ne le k y by (simp add: ptr_stack_contents_def last_map last_conv_nth)
  then have "ptr_dec_load s = Some (last (ptr_stack_contents s), s\<lparr>ps_top_element := ps_top s - 1\<rparr>)"
    using inv pos k y by (auto simp: ptr_dec_load_def ptr_stack_inv_def Let_def)
  moreover have "take (nat (ps_top s - 1)) (ps_elements s) = butlast (take (nat (ps_top s)) (ps_elements s))"
    using butlast_take [OF le] k by simp
  ultimately show ?thesis
    using inv pos by (auto simp: ptr_stack_inv_def ptr_stack_contents_def simp flip: map_butlast)
qed

lemma ptr_stack_top_dec:
  assumes "ptr_stack_inv s" "ptr_stack_contents s \<noteq> []"
  shows "ps_top s' = ps_top s \<Longrightarrow> ptr_top_add (-1) s' = Some (s'\<lparr>ps_top := ps_top s' - 1\<rparr>)"
proof -
  assume e: "ps_top s' = ps_top s"
  have "0 < ps_top s" using assms(2) by (cases "ps_top s \<le> 0") (auto simp: ptr_stack_contents_def)
  then show ?thesis using assms(1) ptr_top_add_ok [of s' "-1"] e by (simp add: ptr_stack_inv_def)
qed

interpretation zps: lifo ptr_stack_inv ptr_stack_room ptr_stack_contents zend_ptr_stack_push zend_ptr_stack_pop
proof
  fix s :: "'a zend_ptr_stack" and x n
  assume inv: "ptr_stack_inv s" and room: "ptr_stack_room s (Suc n)"
  then have "ptr_stack_room s 1" by (simp add: ptr_stack_room_def)
  obtain r where "ZEND_PTR_STACK_RESIZE_IF_NEEDED s (int 1) = Some r" and r: "ptr_stack_inv r"
    "ptr_stack_contents r = ptr_stack_contents s" "ps_top r = ps_top s" "ps_top r + int 1 \<le> ps_max r"
    using ptr_stack_resize [OF inv \<open>ptr_stack_room s 1\<close>] .
  then have r0: "ZEND_PTR_STACK_RESIZE_IF_NEEDED s 1 = Some r" "ps_top r < ps_max r" by simp_all
  from ptr_stack_store [OF r(1) r0(2), of x] r r0(1) room
  show "\<exists>s'. zend_ptr_stack_push s x = Some s' \<and> ptr_stack_inv s'
      \<and> ptr_stack_contents s' = ptr_stack_contents s @ [x] \<and> ptr_stack_room s' n"
    by (auto simp: zend_ptr_stack_push_def ptr_stack_room_def algebra_simps)
next
  fix s :: "'a zend_ptr_stack"
  assume inv: "ptr_stack_inv s" "ptr_stack_contents s \<noteq> []"
  from ptr_stack_load [OF inv] inv(1)
  have "ptr_dec_load (s\<lparr>ps_top := ps_top s - 1\<rparr>)
      = Some (last (ptr_stack_contents s), s\<lparr>ps_top := ps_top s - 1, ps_top_element := ps_top s - 1\<rparr>)"
    by (auto simp: ptr_dec_load_def Let_def ptr_stack_inv_def split: if_splits)
  with ptr_stack_load [OF inv] ptr_stack_top_dec [OF inv, of s]
  show "\<exists>s'. zend_ptr_stack_pop s = Some (last (ptr_stack_contents s), s') \<and> ptr_stack_inv s'
      \<and> ptr_stack_contents s' = butlast (ptr_stack_contents s)"
    by (auto simp: zend_ptr_stack_pop_def ptr_stack_inv_def ptr_stack_contents_def)
qed

lemma ptr_push_loop_ok:
  "ptr_stack_inv s \<Longrightarrow> ps_top s + int (length xs) \<le> ps_max s \<Longrightarrow>
   \<exists>s'. ptr_push_loop xs s = Some s' \<and> ptr_stack_inv s' \<and> ptr_stack_contents s' = ptr_stack_contents s @ xs"
proof (induction xs arbitrary: s)
  case Nil
  then show ?case by simp
next
  case (Cons x xs)
  from Cons.prems have "ps_top s < ps_max s" by simp
  from ptr_stack_store [OF Cons.prems(1) this, of x] obtain s0 s1 where s1:
    "ptr_top_add 1 s = Some s0" "ptr_store_inc s0 x = Some s1" "ptr_stack_inv s1"
    "ptr_stack_contents s1 = ptr_stack_contents s @ [x]" "ps_max s1 = ps_max s" "ps_top s1 = ps_top s + 1"
    by (auto simp: bind_eq_Some_conv)
  with Cons.IH [of s1] Cons.prems show ?case by auto
qed

lemma zend_ptr_stack_n_push_ok:
  assumes "ptr_stack_inv s" "ptr_stack_room s (length xs)"
  shows "\<exists>s'. zend_ptr_stack_n_push s xs = Some s' \<and> ptr_stack_inv s'
    \<and> ptr_stack_contents s' = ptr_stack_contents s @ xs"
proof -
  from ptr_stack_resize [OF assms] obtain r where r: "ZEND_PTR_STACK_RESIZE_IF_NEEDED s (int (length xs)) = Some r" "ptr_stack_inv r"
    "ptr_stack_contents r = ptr_stack_contents s" "ps_top r + int (length xs) \<le> ps_max r" by metis
  from ptr_push_loop_ok [OF r(2,4)] r(1,3) show ?thesis by (simp add: zend_ptr_stack_n_push_def)
qed

lemma zend_ptr_stack_n_pop_ok:
  "ptr_stack_inv s \<Longrightarrow> ptr_stack_contents s = ys @ xs \<Longrightarrow>
   \<exists>s'. zend_ptr_stack_n_pop (length xs) s = Some (rev xs, s') \<and> ptr_stack_inv s' \<and> ptr_stack_contents s' = ys"
proof (induction xs arbitrary: s rule: rev_induct)
  case Nil
  then show ?case by simp
next
  case (snoc x xs)
  then have ne: "ptr_stack_contents s \<noteq> []" and l: "last (ptr_stack_contents s) = x"
    and b: "butlast (ptr_stack_contents s) = ys @ xs"
    by (simp_all add: butlast_append)
  from ptr_stack_load [OF snoc.prems(1) ne] obtain s1 where s1: "ptr_dec_load s = Some (x, s1)" "ps_top s1 = ps_top s"
    "ptr_stack_inv (s1\<lparr>ps_top := ps_top s1 - 1\<rparr>)" "ptr_stack_contents (s1\<lparr>ps_top := ps_top s1 - 1\<rparr>) = ys @ xs"
    using l b by auto
  obtain s2 where "zend_ptr_stack_n_pop (length xs) (s1\<lparr>ps_top := ps_top s1 - 1\<rparr>) = Some (rev xs, s2)" "ptr_stack_inv s2" "ptr_stack_contents s2 = ys"
    using snoc.IH [OF s1(3,4)] by blast
  then show ?case using s1(1) ptr_stack_top_dec [OF snoc.prems(1) ne s1(2)] by simp
qed

end
