(* ===== verification/Zend_Types.thy ===== *)
theory Zend_Types
  imports Prelude
begin

text \<open>
  The engine's data (\<^verbatim>\<open>Zend/zend_types.h\<close>, \<^verbatim>\<open>Zend/zend_string.h\<close>): strings, values, the
  bucket of a hash table, and the string hash.  A \<^verbatim>\<open>zend_string\<close> is immutable once it is
  shared, so the model is its address together with its content; two pointers are equal when
  the records are equal, and then the contents are too.  The cached hash \<^verbatim>\<open>ZSTR_H\<close> is the
  value of \<^verbatim>\<open>zend_inline_hash_func\<close> on the content: the cache holds \<open>0\<close> until it is
  computed, and \<open>zend_hash_not_zero\<close> shows that the hash itself is never \<open>0\<close>.
\<close>

record zend_string =
  zs_addr :: nat
  zs_val :: string
  zs_interned :: bool

abbreviation ZSTR_VAL :: "zend_string \<Rightarrow> string" where
  "ZSTR_VAL s \<equiv> zs_val s"

abbreviation ZSTR_LEN :: "zend_string \<Rightarrow> nat" where
  "ZSTR_LEN s \<equiv> length (zs_val s)"

text \<open>
  The type tag and payload of a \<^verbatim>\<open>zval\<close>.  Arrays, objects, resources, references and constant
  expressions are addresses of counted structures; \<open>IS_INDIRECT\<close> is the address of another
  \<^verbatim>\<open>zval\<close> (a compiled variable or a declared property); doubles are their bit pattern.
\<close>

datatype zval =
    IS_UNDEF
  | IS_NULL
  | IS_FALSE
  | IS_TRUE
  | IS_LONG u64
  | IS_DOUBLE u64
  | IS_STRING zend_string
  | IS_ARRAY nat
  | IS_OBJECT nat
  | IS_RESOURCE nat
  | IS_REFERENCE nat
  | IS_CONSTANT_AST nat
  | IS_INDIRECT nat
  | IS_PTR nat

definition ZEND_LONG_MAX :: u64 where
  "ZEND_LONG_MAX = 0x7FFFFFFFFFFFFFFF"

definition ZEND_LONG_MIN :: u64 where
  "ZEND_LONG_MIN = 0x8000000000000000"

lemma sint_ZEND_LONG_MIN: "sint ZEND_LONG_MIN = - (2 ^ 63)"
  by (simp add: ZEND_LONG_MIN_def)

lemma sint_ZEND_LONG_MAX: "sint ZEND_LONG_MAX = 2 ^ 63 - 1"
  by (simp add: ZEND_LONG_MAX_def)

section \<open>The string hash\<close>

text \<open>
  \<^verbatim>\<open>zend_inline_hash_func\<close>, the variant compiled on x86: eight bytes per round as two
  Horner steps over four bytes each, then the remainder.  A \<^verbatim>\<open>char\<close> is signed there, so a byte
  is sign extended before it is added.
\<close>

definition schar :: "char \<Rightarrow> u64" where
  "schar c = scast (of_char c :: u8)"

definition hash4 :: "u64 \<Rightarrow> char \<Rightarrow> char \<Rightarrow> char \<Rightarrow> char \<Rightarrow> u64" where
  "hash4 hash c0 c1 c2 c3 =
     hash * (33 * 33 * 33 * 33) + schar c0 * (33 * 33 * 33) + schar c1 * (33 * 33) + schar c2 * 33 + schar c3"

fun hash_rounds :: "u64 \<Rightarrow> string \<Rightarrow> u64 \<times> string" where
  "hash_rounds hash (c0 # c1 # c2 # c3 # c4 # c5 # c6 # c7 # str) =
     hash_rounds (hash4 (hash4 hash c0 c1 c2 c3) c4 c5 c6 c7) str"
| "hash_rounds hash str = (hash, str)"

definition hash_four :: "u64 \<times> string \<Rightarrow> u64 \<times> string" where
  "hash_four = (\<lambda>(hash, str). case str of
       c0 # c1 # c2 # c3 # rest \<Rightarrow> (hash4 hash c0 c1 c2 c3, rest)
     | _ \<Rightarrow> (hash, str))"

definition hash_rest :: "u64 \<times> string \<Rightarrow> u64" where
  "hash_rest = (\<lambda>(hash, str). case str of
       [c0, c1, c2] \<Rightarrow> hash * (33 * 33 * 33) + schar c0 * (33 * 33) + schar c1 * 33 + schar c2
     | [c0, c1] \<Rightarrow> hash * (33 * 33) + schar c0 * 33 + schar c1
     | [c0] \<Rightarrow> hash * 33 + schar c0
     | _ \<Rightarrow> hash)"

definition zend_inline_hash_func :: "string \<Rightarrow> u64" where
  "zend_inline_hash_func str = hash_rest (hash_four (hash_rounds 5381 str)) OR 0x8000000000000000"

abbreviation ZSTR_H :: "zend_string \<Rightarrow> u64" where
  "ZSTR_H s \<equiv> zend_inline_hash_func (zs_val s)"

text \<open>
  The portable variant: one shift and two additions per byte, eight bytes per round.  In the switch on the
  remaining length each label falls through to the next one, so label \<open>n\<close> takes \<open>n\<close> bytes.
\<close>

definition hash_step :: "u64 \<Rightarrow> char \<Rightarrow> u64" where
  "hash_step hash c = (push_bit 5 hash + hash) + schar c"

fun hash_unrolled :: "u64 \<Rightarrow> string \<Rightarrow> u64 \<times> string" where
  "hash_unrolled hash (c0 # c1 # c2 # c3 # c4 # c5 # c6 # c7 # str) =
     hash_unrolled (hash_step (hash_step (hash_step (hash_step (hash_step (hash_step (hash_step (hash_step hash
       c0) c1) c2) c3) c4) c5) c6) c7) str"
| "hash_unrolled hash str = (hash, str)"

fun hash_switch :: "nat \<Rightarrow> u64 \<Rightarrow> string \<Rightarrow> u64" where
  "hash_switch (Suc n) hash (c # str) = hash_switch n (hash_step hash c) str"
| "hash_switch n hash str = hash"

definition zend_inline_hash_func_portable :: "string \<Rightarrow> u64" where
  "zend_inline_hash_func_portable str =
     (case hash_unrolled 5381 str of (hash, rest) \<Rightarrow> hash_switch (length rest) hash rest) OR 0x8000000000000000"

lemma hash_switch_foldl: "hash_switch (length str) h str = foldl hash_step h str"
  by (induction str arbitrary: h) simp_all

lemma hash_unrolled_foldl: "hash_unrolled h str = (h', rest) \<Longrightarrow> foldl hash_step h str = foldl hash_step h' rest"
  by (induction h str rule: hash_unrolled.induct) auto

lemma hash_portable_foldl: "zend_inline_hash_func_portable str = foldl hash_step 5381 str OR 0x8000000000000000"
proof -
  obtain h rest where r: "hash_unrolled 5381 str = (h, rest)" by fastforce
  show ?thesis by (simp add: zend_inline_hash_func_portable_def r hash_switch_foldl hash_unrolled_foldl [OF r])
qed

lemma hash_step_eq: "hash_step h c = h * 33 + schar c"
  by (simp add: hash_step_def push_bit_eq_mult algebra_simps)

lemma hash4_steps: "hash4 h c0 c1 c2 c3 = foldl hash_step h [c0, c1, c2, c3]"
  by (simp add: hash4_def hash_step_eq algebra_simps)

lemma hash_rounds_foldl:
  "hash_rounds h str = (h', rest) \<Longrightarrow> length rest < 8 \<and> foldl hash_step h str = foldl hash_step h' rest"
proof (induction h str rule: hash_rounds.induct)
  case (1 hash c0 c1 c2 c3 c4 c5 c6 c7 str)
  then show ?case by (simp add: hash4_steps)
qed auto

lemma hash_rest_four_foldl:
  "length rest < 8 \<Longrightarrow> hash_rest (hash_four (h, rest)) = foldl hash_step h rest"
  by (auto simp: hash_four_def hash_rest_def hash4_steps hash_step_eq algebra_simps
      split: list.splits)

lemma zend_inline_hash_func_eq: "zend_inline_hash_func str = zend_inline_hash_func_portable str"
proof -
  obtain h rest where r: "hash_rounds 5381 str = (h, rest)" by fastforce
  from hash_rounds_foldl [OF r] hash_rest_four_foldl [of rest h]
  show ?thesis by (simp add: zend_inline_hash_func_def hash_portable_foldl r)
qed

lemma bit_top_ulong: "bit (0x8000000000000000 :: u64) 63"
  by (simp add: bit_word_iff_drop_bit_and [symmetric] bit_iff_odd)

lemma zend_hash_not_zero: "zend_inline_hash_func str \<noteq> 0"
proof
  assume "zend_inline_hash_func str = 0"
  then have "bit (zend_inline_hash_func str) 63 = False" by simp
  then show False using bit_top_ulong by (simp add: zend_inline_hash_func_def bit_or_iff)
qed

section \<open>Buckets\<close>

text \<open>
  A bucket is the value with its spare word \<^verbatim>\<open>u2.next\<close> (the collision chain), the hash or integer
  key \<^verbatim>\<open>h\<close>, and the string key, \<open>None\<close> for an integer key.  \<^verbatim>\<open>ZVAL_COPY_VALUE\<close> copies the value and its
  type but not \<^verbatim>\<open>u2\<close>; the model keeps the two apart.
\<close>

record bucket =
  b_val :: zval
  b_next :: u32
  b_h :: u64
  b_key :: "zend_string option"

definition HT_INVALID_IDX :: u32 where
  "HT_INVALID_IDX = 0xFFFFFFFF"

abbreviation live :: "bucket \<Rightarrow> bool" where
  "live b \<equiv> b_val b \<noteq> IS_UNDEF"

text \<open>The key as the language sees it: an integer or the bytes of a string.\<close>

datatype hkey = IntKey u64 | StrKey string

definition bucket_key :: "bucket \<Rightarrow> hkey" where
  "bucket_key b = (case b_key b of None \<Rightarrow> IntKey (b_h b) | Some k \<Rightarrow> StrKey (zs_val k))"

text \<open>\<^verbatim>\<open>zend_string_equal_content\<close> and \<^verbatim>\<open>zend_string_equals_cstr\<close>.\<close>

definition zend_string_equal_content :: "zend_string \<Rightarrow> zend_string \<Rightarrow> bool" where
  "zend_string_equal_content s1 s2 \<longleftrightarrow> ZSTR_LEN s1 = ZSTR_LEN s2 \<and> ZSTR_VAL s1 = ZSTR_VAL s2"

definition zend_string_equals_cstr :: "zend_string \<Rightarrow> string \<Rightarrow> bool" where
  "zend_string_equals_cstr s1 s2 \<longleftrightarrow> ZSTR_LEN s1 = length s2 \<and> ZSTR_VAL s1 = s2"

lemma zend_string_equal_simps [simp]:
  "zend_string_equal_content s1 s2 \<longleftrightarrow> zs_val s1 = zs_val s2"
  "zend_string_equals_cstr s1 str \<longleftrightarrow> zs_val s1 = str"
  by (auto simp: zend_string_equal_content_def zend_string_equals_cstr_def)

end
