(* ===== verification/Hash_Table.thy ===== *)
theory Hash_Table
  imports Zend_Types
begin

text \<open>
  The layout of \<^verbatim>\<open>HashTable\<close> (\<^verbatim>\<open>Zend/zend_types.h\<close>), table sizes and allocation, and the search of a
  collision chain (\<^verbatim>\<open>Zend/zend_hash.c\<close>).  The record has one field per field of the C
  structure; the union \<^verbatim>\<open>arHash\<close>/\<^verbatim>\<open>arData\<close>/\<^verbatim>\<open>arPacked\<close> is three lists of which the flags say
  which are in use, and the flag bits are Booleans.  \<open>arData\<close> and \<open>arPacked\<close> are the whole
  allocated blocks (\<open>nTableSize\<close> cells); \<open>arHash\<close> is the index part that precedes them and is
  addressed with negative 32-bit offsets.  Counters are natural numbers: the invariant bounds
  them by \<open>HT_MAX_SIZE\<close>, far below where a 32-bit counter would wrap, and the one computation
  whose wrap-around matters, the mask, is done on 32-bit words.
\<close>

section \<open>Results\<close>

text \<open>
  An operation that ends in \<^verbatim>\<open>zend_error_noreturn\<close> does not return a value, and neither does a
  chain walk that never meets the end mark or an access through a null pointer.
\<close>

datatype zend_failure = Memory_Overflow | Diverges | Null_Deref | Out_Of_Bounds

type_synonym 'a res = "zend_failure + 'a"

definition res_bind :: "'a res \<Rightarrow> ('a \<Rightarrow> 'b res) \<Rightarrow> 'b res" where
  "res_bind m f = (case m of Inl e \<Rightarrow> Inl e | Inr x \<Rightarrow> f x)"

lemma res_bind_simps [simp]:
  "res_bind (Inr x) f = f x"
  "res_bind (Inl e) f = Inl e"
  by (simp_all add: res_bind_def)

lemma res_bind_Inr: "res_bind m f = Inr y \<longleftrightarrow> (\<exists>x. m = Inr x \<and> f x = Inr y)"
  by (cases m) auto

section \<open>The structure\<close>

record hashtable =
  ht_addr :: nat
  ht_packed :: bool
  ht_uninit :: bool
  ht_static_keys :: bool
  ht_empty_ind :: bool
  nTableMask :: u32
  arHash :: "u32 list"
  arData :: "bucket list"
  arPacked :: "zval list"
  nNumUsed :: nat
  nNumOfElements :: nat
  nTableSize :: nat
  nInternalPointer :: nat
  nNextFreeElement :: u64
  pDestructor :: bool

definition HT_MIN_MASK :: u32 where
  "HT_MIN_MASK = - 2"

definition HT_MIN_SIZE :: nat where
  "HT_MIN_SIZE = 8"

definition HT_MAX_SIZE :: nat where
  "HT_MAX_SIZE = 0x40000000"

definition HT_SIZE_TO_MASK :: "nat \<Rightarrow> u32" where
  "HT_SIZE_TO_MASK n = - (of_nat n + of_nat n)"

abbreviation HT_IS_PACKED :: "hashtable \<Rightarrow> bool" where
  "HT_IS_PACKED ht \<equiv> ht_packed ht"

definition HT_IS_WITHOUT_HOLES :: "hashtable \<Rightarrow> bool" where
  "HT_IS_WITHOUT_HOLES ht \<longleftrightarrow> nNumUsed ht = nNumOfElements ht"

definition HT_HAS_STATIC_KEYS_ONLY :: "hashtable \<Rightarrow> bool" where
  "HT_HAS_STATIC_KEYS_ONLY ht \<longleftrightarrow> ht_packed ht \<or> ht_static_keys ht"

text \<open>What fresh memory holds is of no consequence; a value no operation ever stores.\<close>

definition poison_zval :: zval where
  "poison_zval = IS_PTR 0xDEADBEEF"

definition poison_bucket :: bucket where
  "poison_bucket = \<lparr>b_val = poison_zval, b_next = 0, b_h = 0, b_key = None\<rparr>"

text \<open>\<^verbatim>\<open>memcpy\<close> of the first \<open>k\<close> cells into a fresh block of \<open>n\<close> cells.\<close>

definition copy_block :: "nat \<Rightarrow> nat \<Rightarrow> 'a \<Rightarrow> 'a list \<Rightarrow> 'a list" where
  "copy_block n k x xs = take k xs @ replicate (n - k) x"

lemma length_copy_block: "k \<le> length xs \<Longrightarrow> k \<le> n \<Longrightarrow> length (copy_block n k p xs) = n"
  by (simp add: copy_block_def)

lemma nth_copy_block: "i < k \<Longrightarrow> k \<le> length xs \<Longrightarrow> copy_block n k p xs ! i = xs ! i"
  by (simp add: copy_block_def nth_append)

lemma take_copy_block: "k \<le> length xs \<Longrightarrow> take k (copy_block n k p xs) = take k xs"
  by (simp add: copy_block_def)

section \<open>Index computation\<close>

text \<open>\<^verbatim>\<open>nIndex = h | ht->nTableMask\<close>, truncated to 32 bits.\<close>

definition hash_index :: "u32 \<Rightarrow> u64 \<Rightarrow> u32" where
  "hash_index tmask h = ucast h OR tmask"

text \<open>\<^verbatim>\<open>HT_HASH_EX(data, idx)\<close> reads the 32-bit word at the signed offset \<open>idx\<close> before the data.\<close>

definition hash_slot :: "nat \<Rightarrow> u32 \<Rightarrow> nat" where
  "hash_slot len idx = nat (int len + sint idx)"

definition HT_HASH :: "hashtable \<Rightarrow> u32 \<Rightarrow> u32" where
  "HT_HASH ht idx = arHash ht ! hash_slot (length (arHash ht)) idx"

definition HT_HASH_SET :: "hashtable \<Rightarrow> u32 \<Rightarrow> u32 \<Rightarrow> hashtable" where
  "HT_HASH_SET ht idx v = ht\<lparr>arHash := (arHash ht)[hash_slot (length (arHash ht)) idx := v]\<rparr>"

definition HT_HASH_RESET :: "hashtable \<Rightarrow> hashtable" where
  "HT_HASH_RESET ht = ht\<lparr>arHash := replicate (unat (- nTableMask ht)) HT_INVALID_IDX\<rparr>"

definition HT_HASH_RESET_PACKED :: "hashtable \<Rightarrow> hashtable" where
  "HT_HASH_RESET_PACKED ht = ht\<lparr>arHash := [HT_INVALID_IDX, HT_INVALID_IDX]\<rparr>"

section \<open>Sizes\<close>

text \<open>
  The portable variant of \<^verbatim>\<open>zend_hash_check_size\<close> (bit smearing) on the 32-bit argument, with
  the clamp below and the fatal error above.
\<close>

definition smear :: "u32 \<Rightarrow> u32" where
  "smear n0 =
     (let n1 = n0 OR drop_bit 1 n0; n2 = n1 OR drop_bit 2 n1; n3 = n2 OR drop_bit 4 n2;
          n4 = n3 OR drop_bit 8 n3
      in n4 OR drop_bit 16 n4)"

definition zend_hash_check_size :: "u32 \<Rightarrow> nat res" where
  "zend_hash_check_size nSize =
     (if unat nSize \<le> HT_MIN_SIZE then Inr HT_MIN_SIZE
      else if unat nSize > HT_MAX_SIZE then Inl Memory_Overflow
      else Inr (unat (smear (nSize - 1) + 1)))"

section \<open>Initialisation\<close>

definition zend_hash_init_int :: "nat \<Rightarrow> u32 \<Rightarrow> bool \<Rightarrow> hashtable res" where
  "zend_hash_init_int addr nSize dtor =
     res_bind (zend_hash_check_size nSize) (\<lambda>n. Inr
       \<lparr>ht_addr = addr, ht_packed = False, ht_uninit = True, ht_static_keys = False, ht_empty_ind = False,
        nTableMask = HT_MIN_MASK, arHash = [HT_INVALID_IDX, HT_INVALID_IDX], arData = [], arPacked = [],
        nNumUsed = 0, nNumOfElements = 0, nTableSize = n, nInternalPointer = 0,
        nNextFreeElement = ZEND_LONG_MIN, pDestructor = dtor\<rparr>)"

text \<open>\<^verbatim>\<open>_zend_hash_init\<close>, \<^verbatim>\<open>_zend_new_array_0\<close>, \<^verbatim>\<open>_zend_new_array\<close>.\<close>

definition zend_hash_init :: "nat \<Rightarrow> u32 \<Rightarrow> bool \<Rightarrow> hashtable res" where
  "zend_hash_init addr nSize dtor = zend_hash_init_int addr nSize dtor"

definition zend_new_array_0 :: "nat \<Rightarrow> hashtable res" where
  "zend_new_array_0 addr = zend_hash_init_int addr (of_nat HT_MIN_SIZE) True"

definition zend_new_array :: "nat \<Rightarrow> u32 \<Rightarrow> hashtable res" where
  "zend_new_array addr nSize = zend_hash_init_int addr nSize True"

definition zend_hash_real_init_packed_ex :: "hashtable \<Rightarrow> hashtable" where
  "zend_hash_real_init_packed_ex ht =
     HT_HASH_RESET_PACKED
       (ht\<lparr>arPacked := replicate (nTableSize ht) poison_zval, arData := [],
           ht_packed := True, ht_static_keys := True, ht_uninit := False, ht_empty_ind := False\<rparr>)"

definition zend_hash_real_init_mixed_ex :: "hashtable \<Rightarrow> hashtable" where
  "zend_hash_real_init_mixed_ex ht =
     HT_HASH_RESET
       (ht\<lparr>nTableMask := HT_SIZE_TO_MASK (nTableSize ht),
           arData := replicate (nTableSize ht) poison_bucket, arPacked := [],
           ht_packed := False, ht_static_keys := True, ht_uninit := False, ht_empty_ind := False\<rparr>)"

definition zend_hash_real_init :: "hashtable \<Rightarrow> bool \<Rightarrow> hashtable" where
  "zend_hash_real_init ht packed =
     (if packed then zend_hash_real_init_packed_ex ht else zend_hash_real_init_mixed_ex ht)"

definition zend_new_pair :: "nat \<Rightarrow> zval \<Rightarrow> zval \<Rightarrow> hashtable res" where
  "zend_new_pair addr val1 val2 =
     res_bind (zend_hash_init_int addr (of_nat HT_MIN_SIZE) True) (\<lambda>ht.
       let ht = zend_hash_real_init_packed_ex (ht\<lparr>nNumUsed := 2, nNumOfElements := 2, nNextFreeElement := 2\<rparr>)
       in Inr (ht\<lparr>arPacked := (arPacked ht)[0 := val1, 1 := val2]\<rparr>))"

definition zend_hash_packed_grow :: "hashtable \<Rightarrow> hashtable res" where
  "zend_hash_packed_grow ht =
     (if nTableSize ht \<ge> HT_MAX_SIZE then Inl Memory_Overflow
      else let newTableSize = nTableSize ht * 2
           in Inr (ht\<lparr>arPacked := copy_block newTableSize (nNumUsed ht) poison_zval (arPacked ht),
                      nTableSize := newTableSize\<rparr>))"

section \<open>Walking a collision chain\<close>

text \<open>
  The loop \<^verbatim>\<open>while (idx != HT_INVALID_IDX) { if (match) return p; idx = Z_NEXT(p->val); }\<close>.
  The result is the index where it stops (\<open>HT_INVALID_IDX\<close> when no bucket matches), or
  \<open>None\<close> if it never stops.
\<close>

definition chain_search :: "(bucket \<Rightarrow> bool) \<Rightarrow> bucket list \<Rightarrow> u32 \<Rightarrow> u32 option" where
  "chain_search match D idx0 =
     while_option (\<lambda>idx. idx \<noteq> HT_INVALID_IDX \<and> \<not> match (D ! unat idx)) (\<lambda>idx. b_next (D ! unat idx)) idx0"

definition to_bucket :: "u32 option \<Rightarrow> nat option res" where
  "to_bucket r = (case r of None \<Rightarrow> Inl Diverges
     | Some idx \<Rightarrow> Inr (if idx = HT_INVALID_IDX then None else Some (unat idx)))"

text \<open>
  The three matching conditions.  For a string the code first compares pointers and then hash
  and content.
\<close>

definition match_key :: "zend_string \<Rightarrow> bucket \<Rightarrow> bool" where
  "match_key key p \<longleftrightarrow> b_key p = Some key \<or>
     (b_h p = ZSTR_H key \<and> (case b_key p of None \<Rightarrow> False | Some k \<Rightarrow> zend_string_equal_content k key))"

definition match_str :: "string \<Rightarrow> u64 \<Rightarrow> bucket \<Rightarrow> bool" where
  "match_str str h p \<longleftrightarrow>
     b_h p = h \<and> (case b_key p of None \<Rightarrow> False | Some k \<Rightarrow> zend_string_equals_cstr k str)"

definition match_index :: "u64 \<Rightarrow> bucket \<Rightarrow> bool" where
  "match_index h p \<longleftrightarrow> b_h p = h \<and> b_key p = None"

definition zend_hash_find_bucket :: "hashtable \<Rightarrow> zend_string \<Rightarrow> nat option res" where
  "zend_hash_find_bucket ht key =
     to_bucket (chain_search (match_key key) (arData ht) (HT_HASH ht (hash_index (nTableMask ht) (ZSTR_H key))))"

definition zend_hash_str_find_bucket :: "hashtable \<Rightarrow> string \<Rightarrow> u64 \<Rightarrow> nat option res" where
  "zend_hash_str_find_bucket ht str h =
     to_bucket (chain_search (match_str str h) (arData ht) (HT_HASH ht (hash_index (nTableMask ht) h)))"

definition zend_hash_index_find_bucket :: "hashtable \<Rightarrow> u64 \<Rightarrow> nat option res" where
  "zend_hash_index_find_bucket ht h =
     to_bucket (chain_search (match_index h) (arData ht) (HT_HASH ht (hash_index (nTableMask ht) h)))"

text \<open>
  A pointer into the table (or, through \<open>IS_INDIRECT\<close>, to a slot outside it) is a location.
\<close>

datatype loc = LData nat | LPacked nat | LInd nat

definition zend_hash_find :: "hashtable \<Rightarrow> zend_string \<Rightarrow> loc option res" where
  "zend_hash_find ht key = res_bind (zend_hash_find_bucket ht key) (\<lambda>p. Inr (map_option LData p))"

definition zend_hash_find_known_hash :: "hashtable \<Rightarrow> zend_string \<Rightarrow> loc option res" where
  "zend_hash_find_known_hash ht key = res_bind (zend_hash_find_bucket ht key) (\<lambda>p. Inr (map_option LData p))"

definition zend_hash_str_find :: "hashtable \<Rightarrow> string \<Rightarrow> loc option res" where
  "zend_hash_str_find ht str =
     (let h = zend_inline_hash_func str
      in res_bind (zend_hash_str_find_bucket ht str h) (\<lambda>p. Inr (map_option LData p)))"

definition zend_hash_index_find :: "hashtable \<Rightarrow> u64 \<Rightarrow> loc option res" where
  "zend_hash_index_find ht h =
     (if HT_IS_PACKED ht
      then (if unat h < nNumUsed ht \<and> arPacked ht ! unat h \<noteq> IS_UNDEF
            then Inr (Some (LPacked (unat h))) else Inr None)
      else res_bind (zend_hash_index_find_bucket ht h) (\<lambda>p. Inr (map_option LData p)))"

definition zend_hash_index_find_map :: "hashtable \<Rightarrow> u64 \<Rightarrow> loc option res" where
  "zend_hash_index_find_map ht h = res_bind (zend_hash_index_find_bucket ht h) (\<lambda>p. Inr (map_option LData p))"

section \<open>Facts about sizes and slots\<close>

text \<open>The slot of a hash is its low bits: the mask and the signed offset amount to a remainder.\<close>

lemma hash_slot_eq:
  assumes "k \<le> 31"
  shows "hash_slot (2 ^ k) (hash_index (- (2 ^ k)) h) = unat h mod 2 ^ k"
proof -
  let ?z = "int (unat h mod 2 ^ k) - 2 ^ k"
  have "hash_index (- (2 ^ k)) h = take_bit k (ucast h) - 2 ^ k"
    by (simp add: hash_index_def word_or_high_mask)
  also have "take_bit k (ucast h :: u32) = word_of_nat (unat h mod 2 ^ k)"
  proof -
    have "unat (take_bit k (ucast h :: u32)) = take_bit k (take_bit 32 (unat h))"
      by (simp add: unsigned_take_bit_eq unsigned_ucast_eq)
    also have "\<dots> = take_bit k (unat h)" using assms by (simp add: min_absorb1)
    finally have "unat (take_bit k (ucast h :: u32)) = unat h mod 2 ^ k" by (simp add: take_bit_eq_mod)
    then show ?thesis by (simp flip: \<open>unat (take_bit k (ucast h :: u32)) = unat h mod 2 ^ k\<close>)
  qed
  also have "word_of_nat (unat h mod 2 ^ k) - 2 ^ k = (word_of_int ?z :: u32)"
    by simp
  finally have eq: "hash_index (- (2 ^ k)) h = word_of_int ?z" .
  have p: "(2::int) ^ k \<le> 2 ^ 31" using assms by (intro power_increasing) auto
  have "?z < 0" "- (2 ^ 31) \<le> ?z" using p by (auto simp: )
  then have "sint (hash_index (- (2 ^ k)) h) = ?z"
    unfolding eq by (intro sint_word_of_int_32) linarith+
  then show ?thesis by (simp add: hash_slot_def)
qed


lemma smear_layer:
  fixes a x :: u32
  assumes a: "\<And>i. bit a i \<longleftrightarrow> (\<exists>j. i \<le> j \<and> j < i + n \<and> bit x j)"
  shows "bit (a OR drop_bit n a) i \<longleftrightarrow> (\<exists>j. i \<le> j \<and> j < i + (n + n) \<and> bit x j)"
    (is "_ \<longleftrightarrow> ?R")
proof
  assume "bit (a OR drop_bit n a) i"
  then have "bit a i \<or> bit a (n + i)" by (simp add: bit_or_iff bit_drop_bit_eq)
  then obtain j where "i \<le> j \<and> j < i + n \<or> n + i \<le> j \<and> j < n + i + n" "bit x j"
    unfolding a by blast
  then show ?R by (intro exI [of _ j]) auto
next
  assume ?R
  then obtain j where j: "i \<le> j" "j < i + (n + n)" "bit x j" by blast
  show "bit (a OR drop_bit n a) i"
  proof (cases "j < i + n")
    case True
    with j show ?thesis by (auto simp: bit_or_iff a)
  next
    case False
    with j have "bit a (n + i)" by (auto simp: a intro!: exI [of _ j])
    then show ?thesis by (simp add: bit_or_iff bit_drop_bit_eq)
  qed
qed

lemma smear_bit: "bit (smear x) i \<longleftrightarrow> (\<exists>j \<ge> i. bit x j)"
proof -
  define n1 where "n1 = x OR drop_bit 1 x"
  define n2 where "n2 = n1 OR drop_bit 2 n1"
  define n3 where "n3 = n2 OR drop_bit 4 n2"
  define n4 where "n4 = n3 OR drop_bit 8 n3"
  have 0: "bit x i \<longleftrightarrow> (\<exists>j. i \<le> j \<and> j < i + 1 \<and> bit x j)" for i
    by (auto simp: less_Suc_eq_le dest: antisym)
  have 1: "bit n1 i \<longleftrightarrow> (\<exists>j. i \<le> j \<and> j < i + 2 \<and> bit x j)" for i
    unfolding n1_def using smear_layer [of x 1 x, OF 0] by (simp add: numeral_2_eq_2)
  have 2: "bit n2 i \<longleftrightarrow> (\<exists>j. i \<le> j \<and> j < i + 4 \<and> bit x j)" for i
    unfolding n2_def using smear_layer [of n1 2 x, OF 1, of i] by simp
  have 3: "bit n3 i \<longleftrightarrow> (\<exists>j. i \<le> j \<and> j < i + 8 \<and> bit x j)" for i
    unfolding n3_def using smear_layer [of n2 4 x, OF 2, of i] by simp
  have 4: "bit n4 i \<longleftrightarrow> (\<exists>j. i \<le> j \<and> j < i + 16 \<and> bit x j)" for i
    unfolding n4_def using smear_layer [of n3 8 x, OF 3, of i] by simp
  have "bit (smear x) i \<longleftrightarrow> (\<exists>j. i \<le> j \<and> j < i + 32 \<and> bit x j)"
    using smear_layer [of n4 16 x, OF 4, of i]
    by (simp add: smear_def Let_def n4_def n3_def n2_def n1_def)
  moreover have "j < 32" if "bit x j" for j using bit_imp_le_length [OF that] by simp
  ultimately show ?thesis by (metis trans_less_add2)
qed

lemma smear_mask:
  assumes "unat x < 2 ^ k" "2 ^ k \<le> 2 * unat x" "k \<le> 32"
  shows "smear x = mask k"
proof (rule bit_word_eqI)
  fix i assume i: "i < LENGTH(32)"
  have "0 < k" using assms(1,2) by (cases k) auto
  then obtain m where m: "k = Suc m" by (cases k) auto
  have "2 ^ m \<le> unat x" "unat x < 2 * 2 ^ m" using assms m by auto
  then have "unat x div 2 ^ m = 1" by (simp add: div_nat_eqI)
  then have "bit (unat x) m" by (simp add: bit_iff_odd)
  then have top: "bit x m" by (simp add: bit_unsigned_iff)
  have "j < k" if "bit x j" for j
  proof (rule ccontr)
    assume "\<not> j < k"
    then have "unat x < 2 ^ j" using assms(1) by (meson linorder_not_le order_less_le_trans one_le_numeral power_increasing)
    then have "\<not> bit (unat x) j" by (simp add: bit_iff_odd)
    with that show False by (simp add: bit_unsigned_iff)
  qed
  with top m show "bit (smear x) i = bit (mask k :: u32) i"
    using i by (auto simp: smear_bit bit_mask_iff less_Suc_eq_le intro: le_trans)
qed

lemma check_size_ok:
  assumes "zend_hash_check_size nSize = Inr n"
  shows "\<exists>k. n = 2 ^ k \<and> 3 \<le> k \<and> k \<le> 30" "unat nSize \<le> n" "n = HT_MIN_SIZE \<or> n < 2 * unat nSize"
proof -
  have "(\<exists>k. n = 2 ^ k \<and> 3 \<le> k \<and> k \<le> 30) \<and> unat nSize \<le> n \<and> (n = HT_MIN_SIZE \<or> n < 2 * unat nSize)"
  proof (cases "unat nSize \<le> HT_MIN_SIZE")
    case True
    with assms have "n = 2 ^ 3" by (simp add: zend_hash_check_size_def HT_MIN_SIZE_def)
    moreover have "(3::nat) \<le> 30" by simp
    ultimately show ?thesis using True by (auto simp: HT_MIN_SIZE_def intro!: exI [of _ 3])
  next
    case False
    with assms have le: "unat nSize \<le> 2 ^ 30" and n: "n = unat (smear (nSize - 1) + 1)"
      by (auto simp: zend_hash_check_size_def HT_MAX_SIZE_def split: if_splits)
    let ?m = "unat nSize - 1"
    have m: "unat (nSize - 1) = ?m"
    proof -
      have "nSize \<noteq> 0" using False by (auto simp: HT_MIN_SIZE_def)
      then show ?thesis by (simp add: unat_minus_one)
    qed
    obtain k where k: "2 ^ k \<le> ?m" "?m < 2 ^ Suc k"
    proof -
      have "2 \<le> (2::nat)" "1 \<le> ?m" using False by (auto simp: HT_MIN_SIZE_def)
      from ex_power_ivl1 [OF this] that show thesis by auto
    qed
    have "3 \<le> k"
    proof (rule ccontr)
      assume "\<not> 3 \<le> k"
      then have "(2::nat) ^ Suc k \<le> 2 ^ 3" by (intro power_increasing) auto
      with k False show False by (simp add: HT_MIN_SIZE_def)
    qed
    have "k < 30"
    proof -
      have "(2::nat) ^ k < 2 ^ 30" using k le False by (simp add: HT_MIN_SIZE_def)
      then show ?thesis by (rule power_less_imp_less_exp [rotated]) simp
    qed
    have "smear (nSize - 1) = mask (Suc k)"
      using k \<open>k < 30\<close> by (intro smear_mask) (auto simp: m)
    then have "n = unat (2 ^ Suc k :: u32)" using n by (simp add: mask_eq_exp_minus_1)
    also have "\<dots> = 2 ^ Suc k"
      using \<open>k < 30\<close> by (intro unat_power_u32) simp
    finally have "n = 2 ^ Suc k" .
    with k \<open>3 \<le> k\<close> \<open>k < 30\<close> False show ?thesis
      by (auto simp: HT_MIN_SIZE_def intro!: exI [of _ "Suc k"])
  qed
  then show "\<exists>k. n = 2 ^ k \<and> 3 \<le> k \<and> k \<le> 30" "unat nSize \<le> n" "n = HT_MIN_SIZE \<or> n < 2 * unat nSize"
    by blast+
qed

lemma check_size_error: "zend_hash_check_size nSize = Inl e \<longleftrightarrow> e = Memory_Overflow \<and> HT_MAX_SIZE < unat nSize"
  by (auto simp: zend_hash_check_size_def HT_MIN_SIZE_def HT_MAX_SIZE_def)

end
