(* ===== verification/Hash_Chains.thy ===== *)
theory Hash_Chains
  imports Hash_Table
begin

text \<open>
  Collision chains as lists.  \<open>linked D x is\<close> says that following the chain from \<open>x\<close> in the
  bucket array \<open>D\<close> visits exactly the indices \<open>is\<close>; \<open>chain_of D n f s\<close> is the list of the live
  buckets among the first \<open>n\<close> whose slot is \<open>s\<close>, newest first.  The lemmas reduce the loops of the
  code to searches in these lists and say how insertion and removal change them.
\<close>

fun linked :: "bucket list \<Rightarrow> u32 \<Rightarrow> nat list \<Rightarrow> bool" where
  "linked D x [] \<longleftrightarrow> x = HT_INVALID_IDX"
| "linked D x (i # is) \<longleftrightarrow> x = of_nat i \<and> i < length D \<and> linked D (b_next (D ! i)) is"

definition small :: "bucket list \<Rightarrow> bool" where
  "small D \<longleftrightarrow> length D \<le> HT_MAX_SIZE"

lemma small_index:
  assumes "small D" "i < length D"
  shows "unat (of_nat i :: u32) = i" "(of_nat i :: u32) \<noteq> HT_INVALID_IDX"
proof -
  have i: "i < 2 ^ 30" using assms by (simp add: small_def HT_MAX_SIZE_def)
  then show u: "unat (of_nat i :: u32) = i" by (intro unat_of_nat_u32) simp
  have "unat HT_INVALID_IDX = 2 ^ 32 - 1" by (simp add: HT_INVALID_IDX_def)
  with i u show "(of_nat i :: u32) \<noteq> HT_INVALID_IDX" by auto
qed

section \<open>Searching\<close>

text \<open>The first element of a list that satisfies a predicate is \<open>List.find\<close>.\<close>

lemma chain_search_linked:
  assumes "small D"
  shows "linked D x is \<Longrightarrow>
    chain_search match D x =
      Some (case List.find (\<lambda>i. match (D ! i)) is of None \<Rightarrow> HT_INVALID_IDX | Some i \<Rightarrow> of_nat i)"
proof (induction "is" arbitrary: x)
  case Nil
  then show ?case by (simp add: chain_search_def while_option_unfold)
next
  case (Cons i "is")
  then have x: "x = of_nat i" "i < length D" "linked D (b_next (D ! i)) is" by auto
  note i = small_index [OF assms x(2)]
  from Cons.IH [OF x(3)] show ?case
    unfolding chain_search_def x(1)
    by (subst while_option_unfold) (simp add: i)
qed

lemma to_bucket_linked:
  assumes "small D" "linked D x is"
  shows "to_bucket (chain_search match D x) = Inr (List.find (\<lambda>i. match (D ! i)) is)"
proof -
  have "i < length D" if "List.find (\<lambda>i. match (D ! i)) is = Some i" for i
  proof -
    from that have "i \<in> set is" by (metis find_Some_iff nth_mem)
    moreover have "linked D x is \<Longrightarrow> i \<in> set is \<Longrightarrow> i < length D" for x
      by (induction "is" arbitrary: x) auto
    ultimately show ?thesis using assms(2) by blast
  qed
  with small_index [OF assms(1)] show ?thesis
    by (auto simp: to_bucket_def chain_search_linked [OF assms] split: option.splits)
qed

text \<open>
  The deletion loops also remember the previous bucket.
\<close>

definition chain_search_prev ::
  "(bucket \<Rightarrow> bool) \<Rightarrow> bucket list \<Rightarrow> u32 \<Rightarrow> (nat option \<times> u32) option" where
  "chain_search_prev match D idx0 =
     while_option (\<lambda>(prev, idx). idx \<noteq> HT_INVALID_IDX \<and> \<not> match (D ! unat idx))
       (\<lambda>(prev, idx). (Some (unat idx), b_next (D ! unat idx))) (None, idx0)"

lemma chain_search_prev_gen:
  assumes "small D"
  shows "linked D x (as @ bs) \<Longrightarrow> (\<forall>a \<in> set as. \<not> match (D ! a)) \<Longrightarrow>
    (case bs of [] \<Rightarrow> True | i # _ \<Rightarrow> match (D ! i)) \<Longrightarrow>
    while_option (\<lambda>(prev, idx). idx \<noteq> HT_INVALID_IDX \<and> \<not> match (D ! unat idx))
       (\<lambda>(prev, idx). (Some (unat idx), b_next (D ! unat idx))) (p, x)
    = Some (if as = [] then p else Some (last as),
            case bs of [] \<Rightarrow> HT_INVALID_IDX | i # _ \<Rightarrow> of_nat i)"
proof (induction as arbitrary: x p)
  case Nil
  then show ?case
    using small_index [OF assms]
    by (subst while_option_unfold) (auto split: list.splits)
next
  case (Cons a as)
  then have x: "x = of_nat a" "a < length D" "linked D (b_next (D ! a)) (as @ bs)" by auto
  note i = small_index [OF assms x(2)]
  from Cons.IH [OF x(3), of "Some a"] Cons.prems show ?case
    unfolding x(1) by (subst while_option_unfold) (auto simp: i)
qed

lemma chain_search_prev_hit:
  assumes "small D" "linked D x (as @ i # bs)" "\<forall>a \<in> set as. \<not> match (D ! a)" "match (D ! i)"
  shows "chain_search_prev match D x = Some (if as = [] then None else Some (last as), of_nat i)"
  using chain_search_prev_gen [OF assms(1), of x as "i # bs" match None] assms(2-)
  by (simp add: chain_search_prev_def)

lemma chain_search_prev_miss:
  assumes "small D" "linked D x is" "\<forall>a \<in> set is. \<not> match (D ! a)"
  shows "\<exists>p. chain_search_prev match D x = Some (p, HT_INVALID_IDX)"
  using chain_search_prev_gen [OF assms(1), of x "is" "[]" match None] assms(2-)
  by (auto simp: chain_search_prev_def)

section \<open>Frame and surgery\<close>

lemma linked_bounded: "linked D x is \<Longrightarrow> i \<in> set is \<Longrightarrow> i < length D"
  by (induction "is" arbitrary: x) auto

lemma linked_cong:
  "(\<And>i. i \<in> set is \<Longrightarrow> b_next (D' ! i) = b_next (D ! i)) \<Longrightarrow> length D' = length D \<Longrightarrow>
   linked D' x is = linked D x is"
  by (induction "is" arbitrary: x) auto

lemma linked_unlink_head: "linked D x (i # is) \<Longrightarrow> linked D (b_next (D ! i)) is"
  by simp

text \<open>Bypassing \<open>i\<close>: its predecessor \<open>p\<close> takes over its link.\<close>

lemma linked_bypass:
  "linked D x (as @ p # i # bs) \<Longrightarrow> distinct (as @ p # i # bs) \<Longrightarrow>
   linked (D[p := (D ! p)\<lparr>b_next := b_next (D ! i)\<rparr>]) x (as @ p # bs)"
proof (induction as arbitrary: x)
  case Nil
  then have "linked (D[p := (D ! p)\<lparr>b_next := b_next (D ! i)\<rparr>]) (b_next (D ! i)) bs
      = linked D (b_next (D ! i)) bs"
    by (intro linked_cong) (auto simp: nth_list_update)
  with Nil show ?case by auto
next
  case (Cons a as)
  then show ?case by (auto simp: nth_list_update)
qed

section \<open>The chain of a slot\<close>

definition chain_of :: "bucket list \<Rightarrow> nat \<Rightarrow> (u64 \<Rightarrow> nat) \<Rightarrow> nat \<Rightarrow> nat list" where
  "chain_of D n f s = rev (filter (\<lambda>i. live (D ! i) \<and> f (b_h (D ! i)) = s) [0 ..< n])"

lemma set_chain_of: "i \<in> set (chain_of D n f s) \<longleftrightarrow> i < n \<and> live (D ! i) \<and> f (b_h (D ! i)) = s"
  by (auto simp: chain_of_def)

lemma distinct_chain_of [simp]: "distinct (chain_of D n f s)"
  by (simp add: chain_of_def)

lemma chain_of_0 [simp]: "chain_of D 0 f s = []"
  by (simp add: chain_of_def)

lemma chain_of_Suc:
  "chain_of D (Suc n) f s = (if live (D ! n) \<and> f (b_h (D ! n)) = s then [n] else []) @ chain_of D n f s"
  by (simp add: chain_of_def)

lemma chain_of_cong:
  "(\<And>i. i < n \<Longrightarrow> live (D ! i) = live (D' ! i) \<and> (live (D ! i) \<longrightarrow> f (b_h (D ! i)) = f (b_h (D' ! i)))) \<Longrightarrow>
   chain_of D n f s = chain_of D' n f s"
  unfolding chain_of_def by (intro arg_cong [where f = rev] filter_cong) auto

text \<open>A bucket that dies leaves its chain; a shorter used part loses only dead buckets.\<close>

lemma chain_of_remove:
  assumes "m \<le> n"
    and "\<And>j. j < n \<Longrightarrow> j \<noteq> i \<Longrightarrow> b_val (D' ! j) = b_val (D ! j) \<and> b_h (D' ! j) = b_h (D ! j)"
    and "\<not> live (D' ! i)"
    and "\<And>j. m \<le> j \<Longrightarrow> j < n \<Longrightarrow> \<not> live (D' ! j)"
  shows "chain_of D' m f s = filter (\<lambda>j. j \<noteq> i) (chain_of D n f s)"
proof -
  have "filter (\<lambda>j. live (D' ! j) \<and> f (b_h (D' ! j)) = s) [m ..< n] = []"
    using assms(4) by (auto simp: filter_empty_conv)
  then have "filter (\<lambda>j. live (D' ! j) \<and> f (b_h (D' ! j)) = s) [0 ..< m]
      = filter (\<lambda>j. live (D' ! j) \<and> f (b_h (D' ! j)) = s) [0 ..< n]"
    using upt_add_eq_append [of 0 m "n - m"] assms(1) by simp
  also have "\<dots> = filter (\<lambda>j. (live (D ! j) \<and> f (b_h (D ! j)) = s) \<and> j \<noteq> i) [0 ..< n]"
  proof (intro filter_cong refl)
    fix j assume "j \<in> set [0 ..< n]"
    then show "(live (D' ! j) \<and> f (b_h (D' ! j)) = s) \<longleftrightarrow> (live (D ! j) \<and> f (b_h (D ! j)) = s) \<and> j \<noteq> i"
      using assms(2) [of j] assms(3) by (cases "j = i") auto
  qed
  finally show ?thesis unfolding chain_of_def
    by (simp add: rev_filter conj_commute cong: conj_cong)
qed

end
