(* ===== verification/Hash_Globals.thy ===== *)
theory Hash_Globals
  imports Hash_Chains
begin

text \<open>
  The executor globals a hash table operation reads and writes: the list of active foreach
  iterators (\<^verbatim>\<open>EG(ht_iterators)\<close>), the per-table iterator counters, the slots that \<open>IS_INDIRECT\<close>
  values point to, the references (\<^verbatim>\<open>zend_reference\<close>: a count and a value), and a trace of the calls that leave the component (destructors and reference
  counts).  A table is identified by its address.  A destructor is recorded in the trace; the
  model covers destructors that do not re-enter the table they are called for.
\<close>

datatype iter_ht = IT_NULL | IT_POISONED | IT_HT nat

record ht_iterator =
  it_ht :: iter_ht
  it_pos :: nat
  it_next_copy :: nat

datatype event = Dtor zval | Key_addref zend_string | Key_release zend_string | Val_addref zval

record exec_globals =
  ht_iterators :: "ht_iterator list"
  ht_iterators_used :: nat
  iterators_count :: "nat \<Rightarrow> u8"
  indirect :: "nat \<Rightarrow> zval"
  refs :: "nat \<Rightarrow> nat \<times> zval"
  next_address :: nat
  events :: "event list"

definition emit :: "event \<Rightarrow> exec_globals \<Rightarrow> exec_globals" where
  "emit e eg = eg\<lparr>events := events eg @ [e]\<rparr>"

section \<open>Strings and values\<close>

text \<open>\<^verbatim>\<open>zend_string_addref\<close>, \<^verbatim>\<open>zend_string_release\<close>: interned strings are not counted.\<close>

definition zend_string_addref :: "zend_string \<Rightarrow> exec_globals \<Rightarrow> exec_globals" where
  "zend_string_addref s eg = (if zs_interned s then eg else emit (Key_addref s) eg)"

definition zend_string_release :: "zend_string \<Rightarrow> exec_globals \<Rightarrow> exec_globals" where
  "zend_string_release s eg = (if zs_interned s then eg else emit (Key_release s) eg)"

definition zend_string_init :: "string \<Rightarrow> exec_globals \<Rightarrow> zend_string \<times> exec_globals" where
  "zend_string_init str eg =
     (\<lparr>zs_addr = next_address eg, zs_val = str, zs_interned = False\<rparr>,
      eg\<lparr>next_address := next_address eg + 1\<rparr>)"

text \<open>\<^verbatim>\<open>if (ht->pDestructor) ht->pDestructor(zv)\<close>, and \<^verbatim>\<open>i_zval_ptr_dtor\<close>, which ignores \<open>IS_UNDEF\<close>.\<close>

definition call_dtor :: "hashtable \<Rightarrow> zval \<Rightarrow> exec_globals \<Rightarrow> exec_globals" where
  "call_dtor ht zv eg = (if pDestructor ht then emit (Dtor zv) eg else eg)"

definition i_zval_ptr_dtor :: "zval \<Rightarrow> exec_globals \<Rightarrow> exec_globals" where
  "i_zval_ptr_dtor zv eg = (if zv = IS_UNDEF then eg else emit (Dtor zv) eg)"

section \<open>Iterator counters\<close>

definition HT_ITERATORS_OVERFLOW :: "exec_globals \<Rightarrow> nat \<Rightarrow> bool" where
  "HT_ITERATORS_OVERFLOW eg a \<longleftrightarrow> iterators_count eg a = 0xff"

definition HT_HAS_ITERATORS :: "exec_globals \<Rightarrow> hashtable \<Rightarrow> bool" where
  "HT_HAS_ITERATORS eg ht \<longleftrightarrow> iterators_count eg (ht_addr ht) \<noteq> 0"

definition HT_INC_ITERATORS_COUNT :: "nat \<Rightarrow> exec_globals \<Rightarrow> exec_globals" where
  "HT_INC_ITERATORS_COUNT a eg = eg\<lparr>iterators_count := (iterators_count eg)(a := iterators_count eg a + 1)\<rparr>"

definition HT_DEC_ITERATORS_COUNT :: "nat \<Rightarrow> exec_globals \<Rightarrow> exec_globals" where
  "HT_DEC_ITERATORS_COUNT a eg = eg\<lparr>iterators_count := (iterators_count eg)(a := iterators_count eg a - 1)\<rparr>"

definition inc_unless_overflow :: "nat \<Rightarrow> exec_globals \<Rightarrow> exec_globals" where
  "inc_unless_overflow a eg = (if \<not> HT_ITERATORS_OVERFLOW eg a then HT_INC_ITERATORS_COUNT a eg else eg)"

text \<open>
  \<^verbatim>\<open>if (iter->ht && iter->ht != HT_POISONED_PTR && !HT_ITERATORS_OVERFLOW(iter->ht)) HT_DEC_ITERATORS_COUNT(iter->ht)\<close>
\<close>

definition dec_unless_overflow :: "iter_ht \<Rightarrow> exec_globals \<Rightarrow> exec_globals" where
  "dec_unless_overflow h eg = (case h of
       IT_HT a \<Rightarrow> (if \<not> HT_ITERATORS_OVERFLOW eg a then HT_DEC_ITERATORS_COUNT a eg else eg)
     | _ \<Rightarrow> eg)"

section \<open>Positions of iterators\<close>

text \<open>The loop over the first \<^verbatim>\<open>ht_iterators_used\<close> iterators that applies \<open>f\<close> to those on \<open>ht\<close>.\<close>

definition for_iterators :: "nat \<Rightarrow> (ht_iterator \<Rightarrow> ht_iterator) \<Rightarrow> exec_globals \<Rightarrow> exec_globals" where
  "for_iterators a f eg =
     eg\<lparr>ht_iterators := map (\<lambda>(i, it). if i < ht_iterators_used eg \<and> it_ht it = IT_HT a then f it else it)
        (enumerate 0 (ht_iterators eg))\<rparr>"

definition zend_hash_iterators_remove' :: "hashtable \<Rightarrow> exec_globals \<Rightarrow> exec_globals" where
  "zend_hash_iterators_remove' ht eg = for_iterators (ht_addr ht) (\<lambda>it. it\<lparr>it_ht := IT_POISONED\<rparr>) eg"

definition zend_hash_iterators_remove :: "hashtable \<Rightarrow> exec_globals \<Rightarrow> exec_globals" where
  "zend_hash_iterators_remove ht eg = (if HT_HAS_ITERATORS eg ht then zend_hash_iterators_remove' ht eg else eg)"

definition zend_hash_iterators_lower_pos :: "exec_globals \<Rightarrow> hashtable \<Rightarrow> nat \<Rightarrow> nat" where
  "zend_hash_iterators_lower_pos eg ht start =
     foldl (\<lambda>res it. if it_ht it = IT_HT (ht_addr ht) \<and> it_pos it \<ge> start \<and> it_pos it < res then it_pos it else res)
       (nNumUsed ht) (take (ht_iterators_used eg) (ht_iterators eg))"

definition zend_hash_iterators_update' :: "hashtable \<Rightarrow> nat \<Rightarrow> nat \<Rightarrow> exec_globals \<Rightarrow> exec_globals" where
  "zend_hash_iterators_update' ht from to eg =
     for_iterators (ht_addr ht) (\<lambda>it. if it_pos it = from then it\<lparr>it_pos := to\<rparr> else it) eg"

definition zend_hash_iterators_update :: "hashtable \<Rightarrow> nat \<Rightarrow> nat \<Rightarrow> exec_globals \<Rightarrow> exec_globals" where
  "zend_hash_iterators_update ht from to eg =
     (if HT_HAS_ITERATORS eg ht then zend_hash_iterators_update' ht from to eg else eg)"

definition zend_hash_iterators_advance :: "hashtable \<Rightarrow> nat \<Rightarrow> exec_globals \<Rightarrow> exec_globals" where
  "zend_hash_iterators_advance ht step eg = for_iterators (ht_addr ht) (\<lambda>it. it\<lparr>it_pos := it_pos it + step\<rparr>) eg"

definition zend_hash_iterators_clamp_max :: "hashtable \<Rightarrow> nat \<Rightarrow> exec_globals \<Rightarrow> exec_globals" where
  "zend_hash_iterators_clamp_max ht m eg =
     (if HT_HAS_ITERATORS eg ht
      then for_iterators (ht_addr ht) (\<lambda>it. it\<lparr>it_pos := min (it_pos it) m\<rparr>) eg else eg)"

section \<open>Creating and deleting iterators\<close>

text \<open>The first free slot, or eight new slots at the end (\<^verbatim>\<open>memset\<close> clears seven of them).\<close>

definition null_iterator :: ht_iterator where
  "null_iterator = \<lparr>it_ht = IT_NULL, it_pos = 0, it_next_copy = 0\<rparr>"

fun first_free :: "nat \<Rightarrow> ht_iterator list \<Rightarrow> nat option" where
  "first_free i [] = None"
| "first_free i (it # its) = (if it_ht it = IT_NULL then Some i else first_free (Suc i) its)"

definition zend_hash_iterator_add :: "hashtable \<Rightarrow> nat \<Rightarrow> exec_globals \<Rightarrow> nat \<times> exec_globals" where
  "zend_hash_iterator_add ht pos eg0 =
     (let eg = inc_unless_overflow (ht_addr ht) eg0
      in case first_free 0 (ht_iterators eg) of
           Some idx \<Rightarrow>
             (idx, eg\<lparr>ht_iterators :=
                        (ht_iterators eg)[idx := \<lparr>it_ht = IT_HT (ht_addr ht), it_pos = pos, it_next_copy = idx\<rparr>],
                      ht_iterators_used :=
                        (if idx + 1 > ht_iterators_used eg then idx + 1 else ht_iterators_used eg)\<rparr>)
         | None \<Rightarrow>
             (let idx = length (ht_iterators eg)
              in (idx, eg\<lparr>ht_iterators := ht_iterators eg
                            @ \<lparr>it_ht = IT_HT (ht_addr ht), it_pos = pos, it_next_copy = idx\<rparr> # replicate 7 null_iterator,
                          ht_iterators_used := idx + 1\<rparr>)))"

text \<open>Dropping trailing free slots from the used part.\<close>

fun iterators_trim :: "ht_iterator list \<Rightarrow> nat \<Rightarrow> nat" where
  "iterators_trim its 0 = 0"
| "iterators_trim its (Suc i) = (if it_ht (its ! i) = IT_NULL then iterators_trim its i else Suc i)"

definition iterators_shrink :: "nat \<Rightarrow> exec_globals \<Rightarrow> exec_globals" where
  "iterators_shrink idx eg =
     (if Suc idx = ht_iterators_used eg
      then eg\<lparr>ht_iterators_used := iterators_trim (ht_iterators eg) idx\<rparr> else eg)"

definition iterator_clear :: "nat \<Rightarrow> exec_globals \<Rightarrow> exec_globals" where
  "iterator_clear idx eg0 =
     (let eg = dec_unless_overflow (it_ht (ht_iterators eg0 ! idx)) eg0
      in eg\<lparr>ht_iterators := (ht_iterators eg)[idx := (ht_iterators eg ! idx)\<lparr>it_ht := IT_NULL\<rparr>]\<rparr>)"

definition set_next_copy :: "nat \<Rightarrow> nat \<Rightarrow> exec_globals \<Rightarrow> exec_globals" where
  "set_next_copy idx n eg =
     eg\<lparr>ht_iterators := (ht_iterators eg)[idx := (ht_iterators eg ! idx)\<lparr>it_next_copy := n\<rparr>]\<rparr>"

text \<open>
  \<^verbatim>\<open>zend_hash_remove_iterator_copies\<close> walks the ring of copies; each one is first made its own
  ring, so that the \<^verbatim>\<open>zend_hash_iterator_del\<close> it calls does not come back here.
\<close>

definition zend_hash_remove_iterator_copies :: "nat \<Rightarrow> exec_globals \<Rightarrow> exec_globals res" where
  "zend_hash_remove_iterator_copies idx eg0 =
     (case while_option (\<lambda>(next, eg). next \<noteq> idx)
        (\<lambda>(cur, eg). (it_next_copy (ht_iterators eg ! cur),
            iterators_shrink cur (iterator_clear cur (set_next_copy cur cur eg))))
        (it_next_copy (ht_iterators eg0 ! idx), eg0)
      of None \<Rightarrow> Inl Diverges | Some (_, eg) \<Rightarrow> Inr (set_next_copy idx idx eg))"

definition zend_hash_iterator_del :: "nat \<Rightarrow> exec_globals \<Rightarrow> exec_globals res" where
  "zend_hash_iterator_del idx eg0 =
     (let eg = iterator_clear idx eg0
      in res_bind (if it_next_copy (ht_iterators eg ! idx) \<noteq> idx
                   then zend_hash_remove_iterator_copies idx eg else Inr eg)
           (\<lambda>eg. Inr (iterators_shrink idx eg)))"

end
