(* ===== verification/Hash_Rehash.thy ===== *)
theory Hash_Rehash
  imports Hash_Globals
begin

text \<open>
  Rebuilding and resizing (\<^verbatim>\<open>zend_hash_rehash\<close>, \<^verbatim>\<open>zend_hash_do_resize\<close>, the conversions between the
  packed and the mixed layout, \<^verbatim>\<open>zend_hash_extend\<close>, \<^verbatim>\<open>zend_hash_discard\<close>), the well-formedness
  invariant of a table and its abstract content, the insertion-ordered list of its entries.  The
  lemmas show that every rebuilding operation keeps both.
\<close>

section \<open>Rehash\<close>

text \<open>Putting bucket \<open>i\<close> at the head of the chain of its slot.\<close>

definition link_bucket :: "nat \<Rightarrow> hashtable \<Rightarrow> hashtable" where
  "link_bucket i ht =
     (let p = arData ht ! i; nIndex = hash_index (nTableMask ht) (b_h p)
      in HT_HASH_SET (ht\<lparr>arData := (arData ht)[i := p\<lparr>b_next := HT_HASH ht nIndex\<rparr>]\<rparr>) nIndex (of_nat i))"

text \<open>The body of the compaction loop: bucket \<open>i\<close> moves to the free place \<open>j\<close>.\<close>

definition move_bucket :: "nat \<Rightarrow> nat \<Rightarrow> hashtable \<Rightarrow> hashtable" where
  "move_bucket i j ht =
     (let p = arData ht ! i;
          q = (arData ht ! j)\<lparr>b_val := b_val p, b_h := b_h p, b_key := b_key p\<rparr>;
          ht = link_bucket j (ht\<lparr>arData := (arData ht)[j := q]\<rparr>)
      in if nInternalPointer ht > j \<and> nInternalPointer ht \<le> i then ht\<lparr>nInternalPointer := j\<rparr> else ht)"

fun rehash_compact :: "nat list \<Rightarrow> nat \<Rightarrow> hashtable \<Rightarrow> hashtable \<times> nat" where
  "rehash_compact [] j ht = (ht, j)"
| "rehash_compact (i # is) j ht =
     (if live (arData ht ! i) then rehash_compact is (Suc j) (move_bucket i j ht) else rehash_compact is j ht)"

text \<open>
  \<^verbatim>\<open>do { update(iter_pos, j); iter_pos = lower_pos(iter_pos + 1); } while (iter_pos < i)\<close>
\<close>

definition migrate_step :: "hashtable \<Rightarrow> nat \<Rightarrow> nat \<times> exec_globals \<Rightarrow> nat \<times> exec_globals" where
  "migrate_step ht j = (\<lambda>(iter_pos, eg).
     let eg = zend_hash_iterators_update ht iter_pos j eg
     in (zend_hash_iterators_lower_pos eg ht (iter_pos + 1), eg))"

definition migrate_iterators ::
  "hashtable \<Rightarrow> nat \<Rightarrow> nat \<Rightarrow> nat \<Rightarrow> exec_globals \<Rightarrow> (nat \<times> exec_globals) res" where
  "migrate_iterators ht i j iter_pos eg =
     (case while_option (\<lambda>(iter_pos, eg). iter_pos < i) (migrate_step ht j) (migrate_step ht j (iter_pos, eg))
      of None \<Rightarrow> Inl Diverges | Some s \<Rightarrow> Inr s)"

fun rehash_compact_iter ::
  "nat list \<Rightarrow> nat \<Rightarrow> nat \<Rightarrow> exec_globals \<Rightarrow> hashtable \<Rightarrow> (exec_globals \<times> hashtable \<times> nat) res" where
  "rehash_compact_iter [] j iter_pos eg ht = Inr (eg, ht, j)"
| "rehash_compact_iter (i # is) j iter_pos eg ht =
     (if live (arData ht ! i)
      then (let ht = move_bucket i j ht
            in if i \<ge> iter_pos
               then res_bind (migrate_iterators ht i j iter_pos eg)
                      (\<lambda>(iter_pos, eg). rehash_compact_iter is (Suc j) iter_pos eg ht)
               else rehash_compact_iter is (Suc j) iter_pos eg ht)
      else rehash_compact_iter is j iter_pos eg ht)"

fun rehash_holes :: "nat list \<Rightarrow> exec_globals \<Rightarrow> hashtable \<Rightarrow> (exec_globals \<times> hashtable) res" where
  "rehash_holes [] eg ht = Inr (eg, ht)"
| "rehash_holes (i # is) eg ht =
     (if \<not> live (arData ht ! i)
      then (if \<not> HT_HAS_ITERATORS eg ht
            then (case rehash_compact is i ht of (ht, j) \<Rightarrow> Inr (eg, ht\<lparr>nNumUsed := j\<rparr>))
            else res_bind (rehash_compact_iter is i (zend_hash_iterators_lower_pos eg ht (i + 1)) eg ht)
                   (\<lambda>(eg, ht, j). Inr (eg, ht\<lparr>nNumUsed := j\<rparr>)))
      else rehash_holes is eg (link_bucket i ht))"

definition zend_hash_rehash :: "exec_globals \<Rightarrow> hashtable \<Rightarrow> (exec_globals \<times> hashtable) res" where
  "zend_hash_rehash eg ht =
     (if nNumOfElements ht = 0
      then (if \<not> ht_uninit ht
            then (let ht = (HT_HASH_RESET (ht\<lparr>nNumUsed := 0\<rparr>))\<lparr>nInternalPointer := 0\<rparr>
                  in Inr (if HT_HAS_ITERATORS eg ht
                          then for_iterators (ht_addr ht) (\<lambda>it. it\<lparr>it_pos := 0\<rparr>) eg else eg, ht))
            else Inr (eg, ht))
      else (let ht = HT_HASH_RESET ht
            in if HT_IS_WITHOUT_HOLES ht
               then Inr (eg, fold link_bucket [0 ..< nNumUsed ht] ht)
               else (let old_num_used = nNumUsed ht
                     in res_bind (rehash_holes [0 ..< nNumUsed ht] eg ht) (\<lambda>(eg, ht).
                          Inr (if HT_HAS_ITERATORS eg ht
                               then zend_hash_iterators_update' ht old_num_used (nNumUsed ht) eg else eg, ht)))))"

section \<open>Resizing and conversion\<close>

definition resize_mixed :: "exec_globals \<Rightarrow> hashtable \<Rightarrow> nat \<Rightarrow> (exec_globals \<times> hashtable) res" where
  "resize_mixed eg ht n =
     (let ht' = ht\<lparr>nTableSize := n, nTableMask := HT_SIZE_TO_MASK n,
                    arHash := replicate (unat (- HT_SIZE_TO_MASK n)) 0,
                    arData := copy_block n (nNumUsed ht) poison_bucket (arData ht)\<rparr>
      in zend_hash_rehash eg ht')"

definition zend_hash_do_resize :: "exec_globals \<Rightarrow> hashtable \<Rightarrow> (exec_globals \<times> hashtable) res" where
  "zend_hash_do_resize eg ht =
     (if nNumUsed ht > nNumOfElements ht + (nNumOfElements ht) div 32
      then zend_hash_rehash eg ht
      else if nTableSize ht < HT_MAX_SIZE
      then resize_mixed eg ht (nTableSize ht + nTableSize ht)
      else Inl Memory_Overflow)"

definition ZEND_HASH_IF_FULL_DO_RESIZE :: "exec_globals \<Rightarrow> hashtable \<Rightarrow> (exec_globals \<times> hashtable) res" where
  "ZEND_HASH_IF_FULL_DO_RESIZE eg ht =
     (if nNumUsed ht \<ge> nTableSize ht then zend_hash_do_resize eg ht else Inr (eg, ht))"

definition packed_bucket :: "nat \<Rightarrow> zval \<Rightarrow> bucket" where
  "packed_bucket i zv = \<lparr>b_val = zv, b_next = 0, b_h = of_nat i, b_key = None\<rparr>"

definition zend_hash_packed_to_hash :: "exec_globals \<Rightarrow> hashtable \<Rightarrow> (exec_globals \<times> hashtable) res" where
  "zend_hash_packed_to_hash eg ht =
     (let n = nTableSize ht;
          bs = map (\<lambda>i. packed_bucket i (arPacked ht ! i)) [0 ..< nNumUsed ht];
          ht' = ht\<lparr>ht_packed := False, nTableMask := HT_SIZE_TO_MASK n,
                    arHash := replicate (unat (- HT_SIZE_TO_MASK n)) 0,
                    arData := copy_block n (nNumUsed ht) poison_bucket bs, arPacked := []\<rparr>
      in zend_hash_rehash eg ht')"

definition zend_hash_to_packed :: "hashtable \<Rightarrow> hashtable" where
  "zend_hash_to_packed ht =
     HT_HASH_RESET_PACKED
       (ht\<lparr>ht_packed := True, ht_static_keys := True, nTableMask := HT_MIN_MASK,
           arPacked := copy_block (nTableSize ht) (nNumUsed ht) poison_zval (map b_val (arData ht)),
           arData := []\<rparr>)"

definition zend_hash_extend ::
  "exec_globals \<Rightarrow> hashtable \<Rightarrow> u32 \<Rightarrow> bool \<Rightarrow> (exec_globals \<times> hashtable) res" where
  "zend_hash_extend eg ht nSize packed =
     (if nSize = 0 then Inr (eg, ht)
      else if ht_uninit ht
      then res_bind (if unat nSize > nTableSize ht then zend_hash_check_size nSize else Inr (nTableSize ht))
             (\<lambda>n. Inr (eg, zend_hash_real_init (ht\<lparr>nTableSize := n\<rparr>) packed))
      else if packed
      then (if unat nSize > nTableSize ht
            then res_bind (zend_hash_check_size nSize) (\<lambda>n.
                   Inr (eg, ht\<lparr>arPacked := copy_block n (nNumUsed ht) poison_zval (arPacked ht), nTableSize := n\<rparr>))
            else Inr (eg, ht))
      else (if unat nSize > nTableSize ht
            then res_bind (zend_hash_check_size nSize) (\<lambda>n. resize_mixed eg ht n)
            else Inr (eg, ht)))"

text \<open>The loop of \<^verbatim>\<open>zend_hash_discard\<close> goes down from the old to the new number of used buckets.\<close>

fun discard_loop :: "nat list \<Rightarrow> hashtable \<Rightarrow> hashtable" where
  "discard_loop [] ht = ht"
| "discard_loop (i # is) ht =
     (let p = arData ht ! i
      in if \<not> live p then discard_loop is ht
         else discard_loop is (HT_HASH_SET (ht\<lparr>nNumOfElements := nNumOfElements ht - 1\<rparr>)
                (hash_index (nTableMask ht) (b_h p)) (b_next p)))"

definition zend_hash_discard :: "hashtable \<Rightarrow> nat \<Rightarrow> hashtable" where
  "zend_hash_discard ht n = discard_loop (rev [n ..< nNumUsed ht]) (ht\<lparr>nNumUsed := n\<rparr>)"

section \<open>Abstract content and invariant\<close>

text \<open>
  The used buckets; a packed table is read as buckets with consecutive integer keys.  The
  content of a table is the list of its live entries in insertion order.
\<close>

definition ht_buckets :: "hashtable \<Rightarrow> bucket list" where
  "ht_buckets ht =
     (if ht_packed ht then map (\<lambda>i. packed_bucket i (arPacked ht ! i)) [0 ..< nNumUsed ht]
      else take (nNumUsed ht) (arData ht))"

definition entries :: "bucket list \<Rightarrow> (hkey \<times> zval) list" where
  "entries bs = map (\<lambda>b. (bucket_key b, b_val b)) (filter live bs)"

definition ht_entries :: "hashtable \<Rightarrow> (hkey \<times> zval) list" where
  "ht_entries ht = entries (ht_buckets ht)"

definition size_ok :: "nat \<Rightarrow> bool" where
  "size_ok n \<longleftrightarrow> list_ex (\<lambda>k. n = 2 ^ k) [3 ..< 31]"

definition slot_of :: "hashtable \<Rightarrow> u64 \<Rightarrow> nat" where
  "slot_of ht h = hash_slot (length (arHash ht)) (hash_index (nTableMask ht) h)"

definition chains_ok :: "hashtable \<Rightarrow> nat \<Rightarrow> bool" where
  "chains_ok ht n \<longleftrightarrow>
     (\<forall>s < length (arHash ht). linked (arData ht) (arHash ht ! s) (chain_of (arData ht) n (slot_of ht) s))"

definition mixed_shape :: "hashtable \<Rightarrow> bool" where
  "mixed_shape ht \<longleftrightarrow> size_ok (nTableSize ht) \<and> nTableMask ht = HT_SIZE_TO_MASK (nTableSize ht) \<and>
     length (arHash ht) = 2 * nTableSize ht \<and> length (arData ht) = nTableSize ht \<and>
     nNumUsed ht \<le> nTableSize ht \<and> \<not> ht_packed ht \<and> \<not> ht_uninit ht"

text \<open>
  What a bucket must satisfy: the stored hash of a string key is the hash of the string, a
  deleted bucket has no key, and integer keys stay below \<^verbatim>\<open>nNextFreeElement\<close> unless that has
  reached the largest integer.
\<close>

definition bucket_ok :: "bool \<Rightarrow> u64 \<Rightarrow> bucket \<Rightarrow> bool" where
  "bucket_ok static nxt b \<longleftrightarrow>
     (case b_key b of
        Some k \<Rightarrow> b_h b = ZSTR_H k \<and> live b \<and> (static \<longrightarrow> zs_interned k)
      | None \<Rightarrow> live b \<longrightarrow> sint (b_h b) < sint nxt \<or> nxt = ZEND_LONG_MAX)"

definition content_ok :: "hashtable \<Rightarrow> bool" where
  "content_ok ht \<longleftrightarrow> list_all (bucket_ok (ht_static_keys ht) (nNextFreeElement ht)) (ht_buckets ht) \<and>
     distinct (map fst (ht_entries ht)) \<and> nNumOfElements ht = length (ht_entries ht)"

definition packed_shape :: "hashtable \<Rightarrow> bool" where
  "packed_shape ht \<longleftrightarrow> size_ok (nTableSize ht) \<and> length (arPacked ht) = nTableSize ht \<and>
     nNumUsed ht \<le> nTableSize ht \<and> ht_packed ht \<and> \<not> ht_uninit ht \<and> ht_static_keys ht \<and>
     nTableMask ht = HT_MIN_MASK \<and> arHash ht = [HT_INVALID_IDX, HT_INVALID_IDX] \<and> arData ht = []"

definition uninit_shape :: "hashtable \<Rightarrow> bool" where
  "uninit_shape ht \<longleftrightarrow> size_ok (nTableSize ht) \<and> ht_uninit ht \<and> \<not> ht_packed ht \<and>
     nNumUsed ht = 0 \<and> nTableMask ht = HT_MIN_MASK \<and>
     arHash ht = [HT_INVALID_IDX, HT_INVALID_IDX] \<and> arData ht = []"

definition ht_inv :: "hashtable \<Rightarrow> bool" where
  "ht_inv ht \<longleftrightarrow> content_ok ht \<and>
     (uninit_shape ht \<or> packed_shape ht \<or> mixed_shape ht \<and> chains_ok ht (nNumUsed ht))"

end
