(* ===== verification/Hash_Inv.thy ===== *)
theory Hash_Inv
  imports Hash_Rehash
begin

text \<open>
  The invariant under rebuilding: linking a bucket extends the chains, compaction keeps the
  content, and \<^verbatim>\<open>zend_hash_rehash\<close> always returns a well-formed table without holes.  The
  lemmas about growing and converting tables rest on that.
\<close>

section \<open>Sizes and slots\<close>

lemma size_ok_iff: "size_ok n \<longleftrightarrow> (\<exists>k. n = 2 ^ k \<and> 3 \<le> k \<and> k \<le> 30)"
proof -
  have "k < 31 \<longleftrightarrow> k \<le> 30" for k :: nat by arith
  then show ?thesis unfolding size_ok_def list_ex_iff set_upt atLeastLessThan_iff Bex_def by auto
qed

lemma size_ok_bounds: "size_ok n \<Longrightarrow> 8 \<le> n" "size_ok n \<Longrightarrow> n \<le> HT_MAX_SIZE"
proof -
  show "8 \<le> n" if s: "size_ok n"
  proof -
    from s obtain k where k: "n = 2 ^ k" "3 \<le> k" by (auto simp: size_ok_iff)
    have "(2::nat) ^ 3 \<le> 2 ^ k" using k(2) by (intro power_increasing) auto
    then show ?thesis using k by simp
  qed
  show "n \<le> HT_MAX_SIZE" if s: "size_ok n"
  proof -
    from s obtain k where k: "n = 2 ^ k" "k \<le> 30" by (auto simp: size_ok_iff)
    have "(2::nat) ^ k \<le> 2 ^ 30" using k(2) by (intro power_increasing) auto
    then show ?thesis using k by (simp add: HT_MAX_SIZE_def)
  qed
qed

lemma size_ok_double: "size_ok n \<Longrightarrow> n < HT_MAX_SIZE \<Longrightarrow> size_ok (n + n)"
proof -
  assume "size_ok n" "n < HT_MAX_SIZE"
  then obtain k where k: "n = 2 ^ k" "3 \<le> k" by (auto simp: size_ok_iff)
  then have "(2::nat) ^ k < 2 ^ 30" using \<open>n < HT_MAX_SIZE\<close> by (simp add: HT_MAX_SIZE_def)
  then have "k < 30" by (rule power_less_imp_less_exp [rotated]) simp
  with k show ?thesis unfolding size_ok_iff by (intro exI [of _ "Suc k"]) auto
qed

lemma check_size_size_ok: "zend_hash_check_size nSize = Inr n \<Longrightarrow> size_ok n"
  using check_size_ok(1) by (auto simp: size_ok_iff)

lemma HT_SIZE_TO_MASK_power: "HT_SIZE_TO_MASK (2 ^ k) = - (2 ^ Suc k)"
  by (simp add: HT_SIZE_TO_MASK_def)

lemma mask_size: "size_ok n \<Longrightarrow> unat (- HT_SIZE_TO_MASK n) = 2 * n"
proof -
  assume "size_ok n"
  then obtain k where k: "n = 2 ^ k" "k \<le> 30" by (auto simp: size_ok_iff)
  have "unat (2 ^ Suc k :: u32) = 2 ^ Suc k" using k by (intro unat_power_u32) simp
  with k show ?thesis by (simp add: HT_SIZE_TO_MASK_def)
qed

lemma slot_of_mixed:
  assumes "size_ok n" "nTableMask ht = HT_SIZE_TO_MASK n" "length (arHash ht) = 2 * n"
  shows "slot_of ht h = unat h mod (2 * n)"
proof -
  from assms(1) obtain k where k: "n = 2 ^ k" "k \<le> 30" by (auto simp: size_ok_iff)
  with assms hash_slot_eq [of "Suc k" h] show ?thesis
    by (simp add: slot_of_def HT_SIZE_TO_MASK_def)
qed

lemma slot_of_less:
  "size_ok n \<Longrightarrow> nTableMask ht = HT_SIZE_TO_MASK n \<Longrightarrow> length (arHash ht) = 2 * n \<Longrightarrow>
   slot_of ht h < length (arHash ht)"
  using size_ok_bounds(1) [of n] by (simp add: slot_of_mixed)

lemma slot_of_min:
  "nTableMask ht = HT_MIN_MASK \<Longrightarrow> length (arHash ht) = 2 \<Longrightarrow> slot_of ht h < 2"
  using hash_slot_eq [of 1 h] by (simp add: slot_of_def HT_MIN_MASK_def)

text \<open>Fields that slots and chains do not depend on.\<close>

lemma slot_of_fields [simp]:
  "slot_of (ht\<lparr>arData := D\<rparr>) = slot_of ht" "slot_of (ht\<lparr>nNumUsed := n\<rparr>) = slot_of ht"
  "slot_of (ht\<lparr>nNumOfElements := n\<rparr>) = slot_of ht" "slot_of (ht\<lparr>nInternalPointer := n\<rparr>) = slot_of ht"
  "slot_of (ht\<lparr>nNextFreeElement := x\<rparr>) = slot_of ht" "slot_of (ht\<lparr>ht_static_keys := b\<rparr>) = slot_of ht"
  "slot_of (ht\<lparr>ht_empty_ind := b\<rparr>) = slot_of ht" "slot_of (ht\<lparr>arHash := (arHash ht)[s := v]\<rparr>) = slot_of ht"
  by (simp_all add: slot_of_def fun_eq_iff)

lemma chains_ok_fields [simp]:
  "chains_ok (ht\<lparr>nNumUsed := n\<rparr>) = chains_ok ht" "chains_ok (ht\<lparr>nNumOfElements := n\<rparr>) = chains_ok ht"
  "chains_ok (ht\<lparr>nInternalPointer := n\<rparr>) = chains_ok ht" "chains_ok (ht\<lparr>nNextFreeElement := x\<rparr>) = chains_ok ht"
  "chains_ok (ht\<lparr>ht_static_keys := b\<rparr>) = chains_ok ht" "chains_ok (ht\<lparr>ht_empty_ind := b\<rparr>) = chains_ok ht"
  by (simp_all add: chains_ok_def fun_eq_iff)

section \<open>Linking a bucket\<close>

text \<open>The part of a bucket that is content, as opposed to chaining.\<close>

definition core :: "bucket \<Rightarrow> bucket" where
  "core b = b\<lparr>b_next := 0\<rparr>"

lemma core_simps [simp]:
  "b_val (core b) = b_val b" "b_h (core b) = b_h b" "b_key (core b) = b_key b"
  "core (b\<lparr>b_next := x\<rparr>) = core b" "bucket_key (core b) = bucket_key b"
  "bucket_ok st nx (core b) = bucket_ok st nx b"
  by (simp_all add: core_def bucket_key_def bucket_ok_def split: option.splits)

lemma core_eq_iff: "core b = core c \<longleftrightarrow> b_val b = b_val c \<and> b_h b = b_h c \<and> b_key b = b_key c"
  by (cases b; cases c) (simp add: core_def)

lemma filter_live_core: "map core (filter live bs) = filter live (map core bs)"
  by (induction bs) auto

lemma entries_core: "map core bs = map core cs \<Longrightarrow> entries bs = entries cs"
proof -
  have e: "entries bs = entries (map core bs)" for bs
    by (simp add: entries_def filter_map comp_def)
  assume "map core bs = map core cs"
  then show ?thesis using e [of bs] e [of cs] by simp
qed

lemma list_all_ok_core:
  "map core bs = map core cs \<Longrightarrow> list_all (bucket_ok st nx) bs = list_all (bucket_ok st nx) cs"
proof -
  have e: "list_all (bucket_ok st nx) bs = list_all (bucket_ok st nx) (map core bs)" for bs
    by (induction bs) auto
  assume "map core bs = map core cs"
  then show ?thesis using e [of bs] e [of cs] by simp
qed

lemma entries_filter_live [simp]: "entries (filter live bs) = entries bs"
  by (simp add: entries_def)

lemma entries_append: "entries (as @ bs) = entries as @ entries bs"
  by (simp add: entries_def)

text \<open>What relinking and compaction may change of a table.\<close>

definition rebuilt :: "hashtable \<Rightarrow> hashtable \<Rightarrow> bool" where
  "rebuilt ht ht' \<longleftrightarrow>
     ht' = ht\<lparr>arHash := arHash ht', arData := arData ht', nInternalPointer := nInternalPointer ht',
              nNumUsed := nNumUsed ht'\<rparr> \<and>
     length (arHash ht') = length (arHash ht) \<and> length (arData ht') = length (arData ht)"

lemma rebuilt_refl [simp]: "rebuilt ht ht"
  by (simp add: rebuilt_def)

lemma rebuilt_trans: "rebuilt a b \<Longrightarrow> rebuilt b c \<Longrightarrow> rebuilt a c"
  by (cases a; cases b; cases c) (simp add: rebuilt_def)

lemma rebuilt_frame:
  assumes "rebuilt ht ht'"
  shows "length (arHash ht') = length (arHash ht)" "length (arData ht') = length (arData ht)"
    "nTableMask ht' = nTableMask ht" "nTableSize ht' = nTableSize ht"
    "ht_addr ht' = ht_addr ht" "ht_packed ht' = ht_packed ht" "ht_uninit ht' = ht_uninit ht"
    "ht_static_keys ht' = ht_static_keys ht" "ht_empty_ind ht' = ht_empty_ind ht"
    "arPacked ht' = arPacked ht" "nNumOfElements ht' = nNumOfElements ht"
    "nNextFreeElement ht' = nNextFreeElement ht" "pDestructor ht' = pDestructor ht"
    "slot_of ht' = slot_of ht"
  using assms by (cases ht; cases ht'; simp add: rebuilt_def slot_of_def fun_eq_iff)+

lemma link_bucket_frame:
  "rebuilt ht (link_bucket i ht)"
  "nNumUsed (link_bucket i ht) = nNumUsed ht"
  "nInternalPointer (link_bucket i ht) = nInternalPointer ht"
  by (cases ht; simp add: rebuilt_def link_bucket_def Let_def HT_HASH_SET_def)+

lemma link_bucket_data:
  "arData (link_bucket i ht)
   = (arData ht)[i := (arData ht ! i)\<lparr>b_next := arHash ht ! slot_of ht (b_h (arData ht ! i))\<rparr>]"
  "arHash (link_bucket i ht) = (arHash ht)[slot_of ht (b_h (arData ht ! i)) := of_nat i]"
  by (simp_all add: link_bucket_def Let_def HT_HASH_SET_def HT_HASH_def slot_of_def)

lemma core_link_bucket: "map core (arData (link_bucket i ht)) = map core (arData ht)"
proof (rule nth_equalityI)
  fix k assume "k < length (map core (arData (link_bucket i ht)))"
  then show "map core (arData (link_bucket i ht)) ! k = map core (arData ht) ! k"
    by (cases "k = i") (auto simp: link_bucket_data)
qed (simp add: link_bucket_data)

lemma link_bucket_nth:
  "core (arData (link_bucket i ht) ! k) = core (arData ht ! k)"
proof (cases "i < length (arData ht)")
  case True
  then show ?thesis by (cases "k = i") (auto simp: link_bucket_data)
qed (simp add: link_bucket_data list_update_beyond)

lemma link_bucket_chains:
  assumes ok: "chains_ok ht i" and i: "i < length (arData ht)" and l: "live (arData ht ! i)"
    and s: "slot_of ht (b_h (arData ht ! i)) < length (arHash ht)"
  shows "chains_ok (link_bucket i ht) (Suc i)"
proof -
  let ?h = "b_h (arData ht ! i)" and ?D = "arData (link_bucket i ht)"
  have sl: "slot_of (link_bucket i ht) = slot_of ht"
    by (rule rebuilt_frame(14) [OF link_bucket_frame(1)])
  have D: "b_val (?D ! k) = b_val (arData ht ! k)" "b_h (?D ! k) = b_h (arData ht ! k)" for k
    using link_bucket_nth [of i ht k] by (auto simp: core_eq_iff)
  have c: "chain_of ?D i (slot_of ht) t = chain_of (arData ht) i (slot_of ht) t" for t
    by (rule chain_of_cong) (simp add: D)
  have old: "linked ?D (arHash ht ! t) (chain_of (arData ht) i (slot_of ht) t)" if "t < length (arHash ht)" for t
  proof -
    have "linked ?D (arHash ht ! t) (chain_of (arData ht) i (slot_of ht) t)
        = linked (arData ht) (arHash ht ! t) (chain_of (arData ht) i (slot_of ht) t)"
      by (rule linked_cong) (auto simp: link_bucket_data set_chain_of)
    with ok that show ?thesis by (simp add: chains_ok_def)
  qed
  show ?thesis unfolding chains_ok_def sl
  proof (intro allI impI)
    fix t assume "t < length (arHash (link_bucket i ht))"
    then have t: "t < length (arHash ht)" by (simp add: link_bucket_data)
    show "linked ?D (arHash (link_bucket i ht) ! t) (chain_of ?D (Suc i) (slot_of ht) t)"
    proof (cases "slot_of ht ?h = t")
      case True
      have "b_next (?D ! i) = arHash ht ! t" using i True by (simp add: link_bucket_data)
      with old [OF t] i l s t True show ?thesis
        by (simp add: chain_of_Suc D c link_bucket_data(2)) (simp add: link_bucket_data(1))
    next
      case False
      with old [OF t] show ?thesis by (simp add: chain_of_Suc D c link_bucket_data(2))
    qed
  qed
qed

lemma chains_ok_Suc_dead: "chains_ok ht i \<Longrightarrow> \<not> live (arData ht ! i) \<Longrightarrow> chains_ok ht (Suc i)"
  by (simp add: chains_ok_def chain_of_Suc)

lemma chains_ok_reset: "arHash ht = replicate n HT_INVALID_IDX \<Longrightarrow> chains_ok ht 0"
  by (auto simp: chains_ok_def)

section \<open>Rehash without holes\<close>

text \<open>The facts about sizes that the slot of every hash needs.\<close>

definition slots_ok :: "hashtable \<Rightarrow> bool" where
  "slots_ok ht \<longleftrightarrow> (\<forall>h. slot_of ht h < length (arHash ht))"

lemma slots_ok_mixed: "mixed_shape ht \<Longrightarrow> slots_ok ht"
  using slot_of_less by (auto simp: slots_ok_def mixed_shape_def)

lemma slots_ok_rebuilt: "rebuilt ht ht' \<Longrightarrow> slots_ok ht' = slots_ok ht"
  by (simp add: slots_ok_def rebuilt_frame)

lemma live_core_nth: "map core as = map core bs \<Longrightarrow> k < length bs \<Longrightarrow> live (as ! k) = live (bs ! k)"
  by (metis core_simps(1) length_map nth_map)

lemma fold_link_ok:
  assumes "chains_ok ht 0" "slots_ok ht"
  shows "n \<le> length (arData ht) \<Longrightarrow> \<forall>k < n. live (arData ht ! k) \<Longrightarrow>
    chains_ok (fold link_bucket [0 ..< n] ht) n \<and> rebuilt ht (fold link_bucket [0 ..< n] ht) \<and>
    map core (arData (fold link_bucket [0 ..< n] ht)) = map core (arData ht) \<and>
    nNumUsed (fold link_bucket [0 ..< n] ht) = nNumUsed ht \<and>
    nInternalPointer (fold link_bucket [0 ..< n] ht) = nInternalPointer ht"
proof (induction n)
  case 0
  with assms show ?case by simp
next
  case (Suc n)
  let ?t = "fold link_bucket [0 ..< n] ht"
  from Suc have IH: "chains_ok ?t n" "rebuilt ht ?t" "map core (arData ?t) = map core (arData ht)"
      "nNumUsed ?t = nNumUsed ht" "nInternalPointer ?t = nInternalPointer ht"
    by auto
  have "live (arData ?t ! n)" using live_core_nth [OF IH(3)] Suc.prems by simp
  moreover have "slots_ok ?t" using IH(2) assms(2) slots_ok_rebuilt by blast
  ultimately have "chains_ok (link_bucket n ?t) (Suc n)"
    using IH(1,2) Suc.prems by (intro link_bucket_chains) (auto simp: slots_ok_def rebuilt_frame)
  with IH rebuilt_trans [OF IH(2) link_bucket_frame(1)] show ?case
    by (simp add: core_link_bucket link_bucket_frame)
qed

section \<open>Compaction\<close>

lemma move_bucket_frame:
  "rebuilt ht (move_bucket i j ht)" "nNumUsed (move_bucket i j ht) = nNumUsed ht"
proof -
  let ?q = "(arData ht ! j)\<lparr>b_val := b_val (arData ht ! i), b_h := b_h (arData ht ! i), b_key := b_key (arData ht ! i)\<rparr>"
  let ?t = "ht\<lparr>arData := (arData ht)[j := ?q]\<rparr>"
  have "rebuilt ht ?t" by (cases ht) (simp add: rebuilt_def)
  moreover have "rebuilt ?t (link_bucket j ?t)" by (rule link_bucket_frame)
  moreover have "rebuilt (link_bucket j ?t) (move_bucket i j ht)"
    by (simp add: move_bucket_def Let_def rebuilt_def)
  ultimately show "rebuilt ht (move_bucket i j ht)" by (blast intro: rebuilt_trans)
  show "nNumUsed (move_bucket i j ht) = nNumUsed ht"
    by (simp add: move_bucket_def Let_def link_bucket_frame)
qed

lemma move_bucket_ok:
  assumes "chains_ok ht j" "slots_ok ht" "j < i" "i < length (arData ht)" "live (arData ht ! i)"
  shows "chains_ok (move_bucket i j ht) (Suc j)"
    "map core (arData (move_bucket i j ht)) = (map core (arData ht))[j := core (arData ht ! i)]"
proof -
  let ?q = "(arData ht ! j)\<lparr>b_val := b_val (arData ht ! i), b_h := b_h (arData ht ! i), b_key := b_key (arData ht ! i)\<rparr>"
  let ?t = "ht\<lparr>arData := (arData ht)[j := ?q]\<rparr>"
  have sl: "slot_of ?t = slot_of ht" by (simp add: slot_of_def fun_eq_iff)
  have "chain_of (arData ?t) j (slot_of ht) s = chain_of (arData ht) j (slot_of ht) s" for s
    by (rule chain_of_cong) simp
  moreover have "linked (arData ?t) x (chain_of (arData ht) j (slot_of ht) s)
      = linked (arData ht) x (chain_of (arData ht) j (slot_of ht) s)" for x s
    by (rule linked_cong) (auto simp: set_chain_of)
  ultimately have "chains_ok ?t j" using assms(1) by (simp add: chains_ok_def sl)
  then have c: "chains_ok (link_bucket j ?t) (Suc j)"
    using assms by (intro link_bucket_chains) (auto simp: sl slots_ok_def)
  have m: "arData (move_bucket i j ht) = arData (link_bucket j ?t)"
    "arHash (move_bucket i j ht) = arHash (link_bucket j ?t)"
    "slot_of (move_bucket i j ht) = slot_of (link_bucket j ?t)"
    by (simp_all add: move_bucket_def Let_def slot_of_def fun_eq_iff)
  show "chains_ok (move_bucket i j ht) (Suc j)" using c by (simp add: chains_ok_def m)
  have "core ?q = core (arData ht ! i)" by (simp add: core_eq_iff)
  then show "map core (arData (move_bucket i j ht)) = (map core (arData ht))[j := core (arData ht ! i)]"
    by (simp add: m core_link_bucket map_update)
qed

lemma map_core_take: "map core as = map core bs \<Longrightarrow> map core (take k as) = map core (take k bs)"
  by (metis take_map)

lemma rehash_compact_ok:
  assumes "chains_ok ht j" "slots_ok ht" "j < i" "n \<le> length (arData ht)"
    "rehash_compact [i ..< n] j ht = (ht', j')"
  shows "chains_ok ht' j'" "rebuilt ht ht'" "nNumUsed ht' = nNumUsed ht"
    "map core (take j' (arData ht')) = map core (take j (arData ht) @ filter live (map ((!) (arData ht)) [i ..< n]))"
    "j' \<le> max j n" 
proof -
  have "chains_ok ht' j' \<and> rebuilt ht ht' \<and> nNumUsed ht' = nNumUsed ht \<and>
    map core (take j' (arData ht')) = map core (take j (arData ht) @ filter live (map ((!) (arData ht)) [i ..< n])) \<and>
    j' \<le> max j n"
    using assms
  proof (induction "n - i" arbitrary: i j ht)
    case 0
    then show ?case by auto
  next
    case (Suc d)
    then have up: "[i ..< n] = i # [Suc i ..< n]" and d: "d = n - Suc i" by (auto simp: upt_conv_Cons)
    show ?case
    proof (cases "live (arData ht ! i)")
      case False
      then have "rehash_compact [Suc i ..< n] j ht = (ht', j')" using Suc.prems(5) up by simp
      from Suc.hyps(1) [OF d Suc.prems(1,2) less_SucI [OF Suc.prems(3)] Suc.prems(4) this] False up
      show ?thesis by simp
    next
      case True
      let ?m = "move_bucket i j ht"
      have i: "i < length (arData ht)" using Suc.hyps(2) Suc.prems(4) by simp
      note m = move_bucket_ok [OF Suc.prems(1-3) i True] and f = move_bucket_frame(1) [of ht i j] move_bucket_frame(2) [of i j ht]
      have r: "rehash_compact [Suc i ..< n] (Suc j) ?m = (ht', j')" using Suc.prems(5) up True by simp
      have s: "slots_ok ?m" using slots_ok_rebuilt [OF f(1)] Suc.prems(2) by simp
      have l: "n \<le> length (arData ?m)" using Suc.prems(4) f(1) by (simp add: rebuilt_frame)
      have IH: "chains_ok ht' j' \<and> rebuilt ?m ht' \<and> nNumUsed ht' = nNumUsed ?m \<and>
        map core (take j' (arData ht')) =
          map core (take (Suc j) (arData ?m) @ filter live (map ((!) (arData ?m)) [Suc i ..< n])) \<and>
        j' \<le> max (Suc j) n"
        using Suc.hyps(1) [OF d m(1) s _ l r] Suc.prems(3) by simp
      have t: "map core (take (Suc j) (arData ?m)) = map core (take j (arData ht)) @ [core (arData ht ! i)]"
        using m(2) Suc.prems(3) i
        by (simp add: take_map [symmetric] take_list_update_end)
      have "map core (map ((!) (arData ?m)) [Suc i ..< n]) = map core (map ((!) (arData ht)) [Suc i ..< n])"
      proof -
        have "core (arData ?m ! k) = core (arData ht ! k)" if "k \<in> set [Suc i ..< n]" for k
        proof -
          have "k < length (arData ht)" "k \<noteq> j" using that Suc.prems by auto
          then show ?thesis
            using arg_cong [OF m(2), of "\<lambda>xs. xs ! k"] rebuilt_frame(2) [OF f(1)] by simp
        qed
        then show ?thesis by simp
      qed
      then have "map core (filter live (map ((!) (arData ?m)) [Suc i ..< n]))
          = map core (filter live (map ((!) (arData ht)) [Suc i ..< n]))"
        by (simp only: filter_live_core)
      moreover have "rebuilt ht ht'" using IH f(1) rebuilt_trans by blast
      moreover have "j' \<le> max j n" using IH Suc.prems(3) Suc.hyps(2) by simp
      ultimately show ?thesis using IH t f(2) up True by simp
    qed
  qed
  then show "chains_ok ht' j'" "rebuilt ht ht'" "nNumUsed ht' = nNumUsed ht"
    "map core (take j' (arData ht')) = map core (take j (arData ht) @ filter live (map ((!) (arData ht)) [i ..< n]))"
    "j' \<le> max j n"
    by auto
qed

section \<open>Iterators during compaction\<close>

lemma lower_pos_bound: "min start (nNumUsed ht) \<le> zend_hash_iterators_lower_pos eg ht start"
proof -
  have "min start r \<le> foldl (\<lambda>res it. if it_ht it = a \<and> it_pos it \<ge> start \<and> it_pos it < res then it_pos it else res) r its"
    for r a its
  proof (induction its arbitrary: r)
    case (Cons it its)
    show ?case using Cons.IH [of "if it_ht it = a \<and> it_pos it \<ge> start \<and> it_pos it < r then it_pos it else r"]
      by (auto simp: min_def split: if_splits)
  qed simp
  then show ?thesis by (simp add: zend_hash_iterators_lower_pos_def)
qed

lemma migrate_iterators_returns:
  assumes "i \<le> nNumUsed ht"
  shows "\<exists>s. migrate_iterators ht i j iter_pos eg = Inr s"
proof -
  let ?b = "\<lambda>(iter_pos :: nat, eg :: exec_globals). iter_pos < i"
  have "\<exists>t. while_option ?b (migrate_step ht j) s = Some t" for s
  proof (rule measure_while_option_Some [where P = "\<lambda>_. True" and f = "\<lambda>(p, _). i - p", THEN exE])
    fix s :: "nat \<times> exec_globals" assume b: "?b s"
    obtain p eg where s: "s = (p, eg)" by fastforce
    obtain p' eg' where s': "migrate_step ht j s = (p', eg')" by fastforce
    note s' [unfolded s]
    then have "p' = zend_hash_iterators_lower_pos eg' ht (p + 1)" by (auto simp: migrate_step_def Let_def)
    then have "min (p + 1) (nNumUsed ht) \<le> p'" using lower_pos_bound by simp
    with b assms show "True \<and> (case migrate_step ht j s of (p, _) \<Rightarrow> i - p) < (case s of (p, _) \<Rightarrow> i - p)"
      by (auto simp: s \<open>migrate_step ht j (p, eg) = (p', eg')\<close>)
  qed auto
  then show ?thesis by (metis (no_types, lifting) migrate_iterators_def option.simps(5))
qed

lemma rehash_compact_iter_eq:
  "\<forall>i \<in> set is. i \<le> nNumUsed ht \<Longrightarrow>
   \<exists>eg'. rehash_compact_iter is j p eg ht =
     Inr (eg', fst (rehash_compact is j ht), snd (rehash_compact is j ht))"
proof (induction "is" arbitrary: j p eg ht)
  case (Cons i "is")
  let ?m = "move_bucket i j ht"
  have m: "nNumUsed ?m = nNumUsed ht" by (rule move_bucket_frame)
  obtain p' eg' where mig: "migrate_iterators ?m i j p eg = Inr (p', eg')"
    using migrate_iterators_returns [of i ?m j p eg] Cons.prems m by auto
  show ?case
    using Cons.IH [of ?m "Suc j" p' eg'] Cons.IH [of ?m "Suc j" p eg] Cons.IH [of ht j p eg] Cons.prems
    by (auto simp: Let_def mig m)
qed simp

section \<open>Rehash\<close>

lemma take_split_nth: "i \<le> n \<Longrightarrow> n \<le> length xs \<Longrightarrow> take n xs = take i xs @ map ((!) xs) [i ..< n]"
proof (induction n)
  case (Suc n)
  then show ?case by (cases "i = Suc n") (auto simp: take_Suc_conv_app_nth)
qed simp

lemma filter_live_take: "\<forall>k < i. live (xs ! k) \<Longrightarrow> filter live (take i xs) = take i xs"
  by (auto simp: filter_id_conv in_set_conv_nth)

lemma rehash_holes_ok:
  assumes "chains_ok ht i" "slots_ok ht" "i \<le> n" "n \<le> length (arData ht)" "n = nNumUsed ht"
    "\<forall>k < i. live (arData ht ! k)"
  shows "\<exists>eg' ht'. rehash_holes [i ..< n] eg ht = Inr (eg', ht') \<and> chains_ok ht' (nNumUsed ht') \<and>
    rebuilt ht ht' \<and> nNumUsed ht' \<le> n \<and>
    map core (take (nNumUsed ht') (arData ht')) = map core (filter live (take n (arData ht)))"
  using assms
proof (induction "n - i" arbitrary: i eg ht)
  case 0
  then show ?case by (simp add: filter_live_take)
next
  case (Suc d)
  then have up: "[i ..< n] = i # [Suc i ..< n]" and d: "d = n - Suc i" and i: "i < n" by (auto simp: upt_conv_Cons)
  show ?case
  proof (cases "live (arData ht ! i)")
    case False
    obtain ht' j where r: "rehash_compact [Suc i ..< n] i ht = (ht', j)" by fastforce
    note c = rehash_compact_ok [OF Suc.prems(1,2) lessI Suc.prems(4) r]
    let ?t = "ht'\<lparr>nNumUsed := j\<rparr>"
    obtain eg1 where "rehash_compact_iter [Suc i ..< n] i (zend_hash_iterators_lower_pos eg ht (i + 1)) eg ht
        = Inr (eg1, ht', j)"
      using rehash_compact_iter_eq [of "[Suc i ..< n]" ht i "zend_hash_iterators_lower_pos eg ht (i + 1)" eg]
        r Suc.prems(5) by auto
    then have "\<exists>eg'. rehash_holes [i ..< n] eg ht = Inr (eg', ?t)"
      using False r up by simp
    moreover have "rebuilt ht ?t" using c(2) by (cases ht; cases ht') (simp add: rebuilt_def)
    moreover have "chains_ok ?t j" using c(1) by simp
    moreover have "map core (take j (arData ht')) = map core (filter live (take n (arData ht)))"
      using c(4) False i Suc.prems(3,4,6) up
      by (simp add: take_split_nth [of i n] filter_live_take)
    moreover have "j \<le> n" using c(5) i by simp
    ultimately show ?thesis by auto
  next
    case True
    let ?l = "link_bucket i ht"
    have "chains_ok ?l (Suc i)"
      using True Suc.prems i by (intro link_bucket_chains) (auto simp: slots_ok_def)
    moreover have rb: "rebuilt ht ?l" by (rule link_bucket_frame)
    moreover have "\<forall>k < Suc i. live (arData ?l ! k)"
      using True Suc.prems(4,6) i live_core_nth [OF core_link_bucket [of i ht]] by (auto simp: less_Suc_eq)
    moreover have "slots_ok ?l" using Suc.prems(2) slots_ok_rebuilt [OF rb] by simp
    ultimately obtain eg' ht' where IH: "rehash_holes [Suc i ..< n] eg ?l = Inr (eg', ht')"
      "chains_ok ht' (nNumUsed ht')" "rebuilt ?l ht'" "nNumUsed ht' \<le> n"
      "map core (take (nNumUsed ht') (arData ht')) = map core (filter live (take n (arData ?l)))"
      using Suc.hyps(1) [OF d, of ?l eg] Suc.prems(4,5) i link_bucket_frame(2) [of i ht] rebuilt_frame(2) [OF rb] by auto
    have "map core (filter live (take n (arData ?l))) = map core (filter live (take n (arData ht)))"
      by (simp only: filter_live_core map_core_take [OF core_link_bucket])
    with IH rebuilt_trans [OF rb IH(3)] True up show ?thesis by auto
  qed
qed

lemma HT_HASH_RESET_rebuilt:
  "length (arHash ht) = unat (- nTableMask ht) \<Longrightarrow> rebuilt ht (HT_HASH_RESET ht)"
  by (cases ht) (simp add: rebuilt_def HT_HASH_RESET_def)

lemma HT_HASH_RESET_fields [simp]:
  "arData (HT_HASH_RESET ht) = arData ht" "nNumUsed (HT_HASH_RESET ht) = nNumUsed ht"
  "nNumOfElements (HT_HASH_RESET ht) = nNumOfElements ht"
  "chains_ok (HT_HASH_RESET ht) 0"
  by (simp_all add: HT_HASH_RESET_def chains_ok_def)

lemma filter_full: "length (filter P xs) = length xs \<Longrightarrow> filter P xs = xs"
proof (induction xs)
  case (Cons x xs)
  then show ?case using length_filter_le [of P xs] by (cases "P x") auto
qed simp

lemma without_holes_live: "filter live bs = bs \<Longrightarrow> k < length bs \<Longrightarrow> live (bs ! k)"
  by (auto simp: filter_id_conv)

lemma length_entries: "length (entries bs) = length (filter live bs)"
  by (simp add: entries_def)

lemma content_ok_from_core:
  assumes "content_ok ht" "map core (ht_buckets ht') = map core (filter live (ht_buckets ht))"
    "ht_static_keys ht' = ht_static_keys ht" "nNextFreeElement ht' = nNextFreeElement ht"
    "nNumOfElements ht' = nNumOfElements ht"
  shows "content_ok ht'" "ht_entries ht' = ht_entries ht" "length (ht_buckets ht') = nNumOfElements ht'"
proof -
  show e: "ht_entries ht' = ht_entries ht"
    using entries_core [OF assms(2)] by (simp add: ht_entries_def)
  have "list_all (bucket_ok st nx) (ht_buckets ht') = list_all (bucket_ok st nx) (filter live (ht_buckets ht))" for st nx
    by (rule list_all_ok_core [OF assms(2)])
  then show "content_ok ht'" using assms(1,3-5) e by (auto simp: content_ok_def list_all_iff)
  show "length (ht_buckets ht') = nNumOfElements ht'"
    using arg_cong [OF assms(2), of length] assms(1,5)
    by (simp add: content_ok_def ht_entries_def length_entries)
qed

text \<open>
  Rehash rebuilds every chain, keeps the content and leaves no holes.  It needs only the shape
  of the table: the old chains are never read.
\<close>

lemma rehash_result:
  assumes sh: "mixed_shape ht" and co: "content_ok ht"
  shows "\<exists>eg' ht'. zend_hash_rehash eg ht = Inr (eg', ht') \<and> rebuilt ht ht' \<and>
    chains_ok ht' (nNumUsed ht') \<and> nNumUsed ht' \<le> nNumUsed ht \<and>
    map core (take (nNumUsed ht') (arData ht')) = map core (filter live (take (nNumUsed ht) (arData ht)))"
proof -
  let ?bs = "take (nNumUsed ht) (arData ht)"
  have bs: "ht_buckets ht = ?bs" using sh by (simp add: ht_buckets_def mixed_shape_def)
  have n: "nNumUsed ht \<le> length (arData ht)" using sh by (simp add: mixed_shape_def)
  have ne: "nNumOfElements ht = length (filter live ?bs)"
    using co by (simp add: content_ok_def ht_entries_def bs length_entries)
  let ?r = "HT_HASH_RESET ht"
  have rb: "rebuilt ht ?r"
    using sh mask_size [of "nTableSize ht"] by (intro HT_HASH_RESET_rebuilt) (simp add: mixed_shape_def)
  have sl: "slots_ok ?r" using slots_ok_rebuilt [OF rb] slots_ok_mixed [OF sh] by simp
  show ?thesis
  proof (cases "nNumOfElements ht = 0")
    case True
    let ?t = "(HT_HASH_RESET (ht\<lparr>nNumUsed := 0\<rparr>))\<lparr>nInternalPointer := 0\<rparr>"
    have "\<exists>eg'. zend_hash_rehash eg ht = Inr (eg', ?t)"
      using True sh by (simp add: zend_hash_rehash_def mixed_shape_def Let_def)
    moreover have "rebuilt ht ?t" using rb by (cases ht) (simp add: rebuilt_def HT_HASH_RESET_def)
    moreover have "chains_ok ?t 0" by (simp add: chains_ok_def HT_HASH_RESET_def)
    moreover have "filter live ?bs = []" using True ne by simp
    ultimately show ?thesis by auto
  next
    case False
    show ?thesis
    proof (cases "nNumUsed ht = nNumOfElements ht")
      case True
      have fl: "filter live ?bs = ?bs"
        using ne True n by (intro filter_full) simp
      have "\<forall>k < nNumUsed ht. live (arData ht ! k)"
      proof (intro allI impI)
        fix k assume "k < nNumUsed ht"
        then show "live (arData ht ! k)"
          using without_holes_live [OF fl, of k] n by simp
      qed
      then obtain t where t: "t = fold link_bucket [0 ..< nNumUsed ht] ?r"
        and f: "chains_ok t (nNumUsed t)" "rebuilt ?r t" "map core (arData t) = map core (arData ht)"
          "nNumUsed t = nNumUsed ht"
        using fold_link_ok [of ?r "nNumUsed ht"] sl n by auto
      have "zend_hash_rehash eg ht = Inr (eg, t)"
        using False True by (simp add: zend_hash_rehash_def HT_IS_WITHOUT_HOLES_def Let_def t)
      moreover have "map core (take (nNumUsed t) (arData t)) = map core (filter live ?bs)"
        unfolding fl f(4) by (rule map_core_take [OF f(3)])
      ultimately show ?thesis using f(1,4) rebuilt_trans [OF rb f(2)] by auto
    next
      case holes: False
      obtain eg' ht' where "rehash_holes [0 ..< nNumUsed ht] eg ?r = Inr (eg', ht')"
        "chains_ok ht' (nNumUsed ht')" "rebuilt ?r ht'" "nNumUsed ht' \<le> nNumUsed ht"
        "map core (take (nNumUsed ht') (arData ht')) = map core (filter live ?bs)"
        using rehash_holes_ok [OF HT_HASH_RESET_fields(4) sl le0 _ HT_HASH_RESET_fields(2) [symmetric],
            unfolded HT_HASH_RESET_fields(1), OF n] by blast
      moreover from this have "\<exists>eg1. zend_hash_rehash eg ht = Inr (eg1, ht')"
        using False holes by (simp add: zend_hash_rehash_def HT_IS_WITHOUT_HOLES_def Let_def)
      ultimately show ?thesis using rebuilt_trans [OF rb] by blast
    qed
  qed
qed

lemma rehash_ok:
  assumes sh: "mixed_shape ht" and co: "content_ok ht"
  obtains eg' ht' where "zend_hash_rehash eg ht = Inr (eg', ht')" "rebuilt ht ht'" "ht_inv ht'"
    "mixed_shape ht'" "chains_ok ht' (nNumUsed ht')" "ht_entries ht' = ht_entries ht" "nNumUsed ht' = nNumOfElements ht"
proof -
  obtain eg' ht' where r: "zend_hash_rehash eg ht = Inr (eg', ht')" "rebuilt ht ht'"
    "chains_ok ht' (nNumUsed ht')" "nNumUsed ht' \<le> nNumUsed ht"
    "map core (take (nNumUsed ht') (arData ht')) = map core (filter live (take (nNumUsed ht) (arData ht)))"
    using rehash_result [OF assms] by blast
  note f = rebuilt_frame [OF r(2)]
  have m: "mixed_shape ht'" using sh f r(4) by (simp add: mixed_shape_def)
  have b: "ht_buckets ht = take (nNumUsed ht) (arData ht)" "ht_buckets ht' = take (nNumUsed ht') (arData ht')"
    using sh m by (simp_all add: ht_buckets_def mixed_shape_def)
  note c = content_ok_from_core [OF co _ f(8,12,11), unfolded b, OF r(5)]
  have "nNumUsed ht' = nNumOfElements ht" using c(3) m f(11) by (simp add: mixed_shape_def)
  with that r m c show thesis by (simp add: ht_inv_def)
qed

end
