(* ===== verification/Hash_Resize.thy ===== *)
theory Hash_Resize
  imports Hash_Inv
begin

text \<open>
  Growing, converting, creating, extending and truncating tables: each operation keeps the
  invariant and the content (or truncates it), and fails only at the size limit.
\<close>

section \<open>Resizing\<close>

lemma ht_inv_mixedD:
  assumes "ht_inv ht" "\<not> ht_packed ht" "\<not> ht_uninit ht"
  shows "mixed_shape ht" "chains_ok ht (nNumUsed ht)" "content_ok ht"
  using assms by (auto simp: ht_inv_def packed_shape_def uninit_shape_def)

lemma ht_inv_packedD: "ht_inv ht \<Longrightarrow> ht_packed ht \<Longrightarrow> packed_shape ht \<and> content_ok ht"
  by (auto simp: ht_inv_def mixed_shape_def uninit_shape_def)

lemma ht_inv_uninitD: "ht_inv ht \<Longrightarrow> ht_uninit ht \<Longrightarrow> uninit_shape ht \<and> content_ok ht"
  by (auto simp: ht_inv_def mixed_shape_def packed_shape_def)

lemma ht_inv_mixedI: "mixed_shape ht \<Longrightarrow> chains_ok ht (nNumUsed ht) \<Longrightarrow> content_ok ht \<Longrightarrow> ht_inv ht"
  by (simp add: ht_inv_def)

lemma ht_inv_content: "ht_inv ht \<Longrightarrow> content_ok ht"
  by (simp add: ht_inv_def)

lemma ht_inv_size_ok: "ht_inv ht \<Longrightarrow> size_ok (nTableSize ht)"
  by (auto simp: ht_inv_def mixed_shape_def packed_shape_def uninit_shape_def)

lemma content_ok_buckets:
  "content_ok ht \<Longrightarrow> ht_buckets ht' = ht_buckets ht \<Longrightarrow> ht_static_keys ht' = ht_static_keys ht \<Longrightarrow>
   nNextFreeElement ht' = nNextFreeElement ht \<Longrightarrow> nNumOfElements ht' = nNumOfElements ht \<Longrightarrow> content_ok ht'"
  by (simp add: content_ok_def ht_entries_def)

lemma num_elements_le: "content_ok ht \<Longrightarrow> nNumOfElements ht \<le> length (ht_buckets ht)"
  by (simp add: content_ok_def ht_entries_def length_entries)

lemma length_ht_buckets: "mixed_shape ht \<Longrightarrow> length (ht_buckets ht) = nNumUsed ht"
  by (simp add: ht_buckets_def mixed_shape_def)

text \<open>The outcome of an operation that rebuilds the table: a mixed table with the same content.\<close>

definition rebuilds :: "hashtable \<Rightarrow> nat \<Rightarrow> hashtable \<Rightarrow> bool" where
  "rebuilds ht n ht' \<longleftrightarrow> ht_inv ht' \<and> mixed_shape ht' \<and> chains_ok ht' (nNumUsed ht') \<and>
     ht_entries ht' = ht_entries ht \<and> nTableSize ht' = n \<and> nNumUsed ht' = nNumOfElements ht \<and>
     nNumOfElements ht' = nNumOfElements ht \<and> nNextFreeElement ht' = nNextFreeElement ht \<and>
     ht_addr ht' = ht_addr ht \<and> ht_static_keys ht' = ht_static_keys ht \<and> ht_empty_ind ht' = ht_empty_ind ht \<and>
     pDestructor ht' = pDestructor ht"

lemma rehash_rebuilds:
  assumes "mixed_shape ht" "content_ok ht"
  shows "\<exists>eg' ht'. zend_hash_rehash eg ht = Inr (eg', ht') \<and> rebuilds ht (nTableSize ht) ht'"
proof -
  obtain eg' ht' where r: "zend_hash_rehash eg ht = Inr (eg', ht')" "rebuilt ht ht'" "ht_inv ht'"
    "mixed_shape ht'" "chains_ok ht' (nNumUsed ht')" "ht_entries ht' = ht_entries ht" "nNumUsed ht' = nNumOfElements ht"
    using rehash_ok [OF assms] .
  then show ?thesis using rebuilt_frame [OF r(2)] by (simp add: rebuilds_def)
qed

lemma rebuilds_transfer:
  "rebuilds ht1 n ht' \<Longrightarrow> ht_entries ht1 = ht_entries ht \<Longrightarrow> nNumOfElements ht1 = nNumOfElements ht \<Longrightarrow>
   nNextFreeElement ht1 = nNextFreeElement ht \<Longrightarrow> ht_addr ht1 = ht_addr ht \<Longrightarrow>
   ht_static_keys ht1 = ht_static_keys ht \<Longrightarrow> ht_empty_ind ht1 = ht_empty_ind ht \<Longrightarrow>
   pDestructor ht1 = pDestructor ht \<Longrightarrow> rebuilds ht n ht'"
  by (auto simp: rebuilds_def)

lemma resize_mixed_ok:
  assumes "mixed_shape ht" "content_ok ht" "size_ok n" "nTableSize ht \<le> n"
  shows "\<exists>eg' ht'. resize_mixed eg ht n = Inr (eg', ht') \<and> rebuilds ht n ht'"
proof -
  let ?t = "ht\<lparr>nTableSize := n, nTableMask := HT_SIZE_TO_MASK n, arHash := replicate (unat (- HT_SIZE_TO_MASK n)) 0,
               arData := copy_block n (nNumUsed ht) poison_bucket (arData ht)\<rparr>"
  have l: "nNumUsed ht \<le> length (arData ht)" "nNumUsed ht \<le> n" using assms by (auto simp: mixed_shape_def)
  have "mixed_shape ?t"
    using assms l mask_size [OF assms(3)] by (simp add: mixed_shape_def length_copy_block)
  moreover have b: "ht_buckets ?t = ht_buckets ht"
    using assms(1) l by (simp add: ht_buckets_def mixed_shape_def take_copy_block)
  moreover have "content_ok ?t" using assms(2) b by (intro content_ok_buckets [OF assms(2)]) simp_all
  ultimately obtain eg' ht' where "zend_hash_rehash eg ?t = Inr (eg', ht')" "rebuilds ?t n ht'"
    using rehash_rebuilds [of ?t eg] by auto
  then show ?thesis using b
    by (auto simp: resize_mixed_def Let_def ht_entries_def elim!: rebuilds_transfer)
qed

lemma do_resize_ok:
  assumes "mixed_shape ht" "content_ok ht" "nNumUsed ht = nTableSize ht"
    "nTableSize ht < HT_MAX_SIZE \<or> nNumOfElements ht + nNumOfElements ht div 32 < nNumUsed ht"
  shows "\<exists>eg' ht' n. zend_hash_do_resize eg ht = Inr (eg', ht') \<and> rebuilds ht n ht' \<and> nNumUsed ht' < nTableSize ht' \<and>
    n \<le> max (nTableSize ht) (4 * nNumOfElements ht)"
proof (cases "nNumUsed ht > nNumOfElements ht + nNumOfElements ht div 32")
  case True
  with rehash_rebuilds [OF assms(1,2), of eg] assms(3) show ?thesis
    by (auto simp: zend_hash_do_resize_def rebuilds_def)
next
  case False
  have n: "nNumOfElements ht \<le> nTableSize ht"
    using num_elements_le [OF assms(2)] length_ht_buckets [OF assms(1)] assms(3) by simp
  have s: "size_ok (nTableSize ht)" using assms(1) by (simp add: mixed_shape_def)
  then have "size_ok (nTableSize ht + nTableSize ht)" using size_ok_double assms(4) False by auto
  from resize_mixed_ok [OF assms(1,2) this, of eg] obtain eg' ht' where
    "resize_mixed eg ht (nTableSize ht + nTableSize ht) = Inr (eg', ht')" "rebuilds ht (nTableSize ht + nTableSize ht) ht'"
    by auto
  moreover from this have "nNumUsed ht' < nTableSize ht'"
    using n size_ok_bounds(1) [OF s] by (simp add: rebuilds_def)
  moreover have "nTableSize ht + nTableSize ht \<le> 4 * nNumOfElements ht" using False assms(3) by linarith
  ultimately show ?thesis using False assms(4) by (auto simp: zend_hash_do_resize_def)
qed

lemma do_resize_overflow:
  "zend_hash_do_resize eg ht = Inl Memory_Overflow"
  if "HT_MAX_SIZE \<le> nTableSize ht" "nNumUsed ht \<le> nNumOfElements ht + nNumOfElements ht div 32"
  using that by (simp add: zend_hash_do_resize_def)

text \<open>Room for one more bucket: the table is not at its size limit or has enough holes.\<close>

definition has_room :: "hashtable \<Rightarrow> bool" where
  "has_room ht \<longleftrightarrow> nNumUsed ht < nTableSize ht \<or> nTableSize ht < HT_MAX_SIZE \<or>
     nNumOfElements ht + nNumOfElements ht div 32 < nNumUsed ht"

text \<open>
  A bound for the size of a table: conversion to the mixed layout may double the size once, and
  otherwise a table grows only when it is at least half full.
\<close>

definition table_cap :: "hashtable \<Rightarrow> nat" where
  "table_cap ht = (if ht_packed ht \<or> ht_uninit ht then 2 * nTableSize ht else nTableSize ht)"

text \<open>A table that is about to receive a bucket.\<close>

definition ready :: "hashtable \<Rightarrow> hashtable \<Rightarrow> bool" where
  "ready ht ht' \<longleftrightarrow> mixed_shape ht' \<and> chains_ok ht' (nNumUsed ht') \<and> content_ok ht' \<and>
     ht_entries ht' = ht_entries ht \<and> nNumUsed ht' < nTableSize ht' \<and>
     nNextFreeElement ht' = nNextFreeElement ht \<and> ht_addr ht' = ht_addr ht \<and> pDestructor ht' = pDestructor ht \<and>
     nTableSize ht' \<le> max (table_cap ht) (8 * length (ht_entries ht))"

lemma rebuilds_ready:
  "rebuilds ht n ht' \<Longrightarrow> nNumUsed ht' < nTableSize ht' \<Longrightarrow>
   n \<le> max (table_cap ht) (8 * length (ht_entries ht)) \<Longrightarrow> ready ht ht'"
  by (auto simp: rebuilds_def ready_def ht_inv_content)

lemma if_full_do_resize_ok:
  assumes "mixed_shape ht" "chains_ok ht (nNumUsed ht)" "content_ok ht" "has_room ht"
  shows "\<exists>eg' ht'. ZEND_HASH_IF_FULL_DO_RESIZE eg ht = Inr (eg', ht') \<and> ready ht ht'"
proof (cases "nNumUsed ht < nTableSize ht")
  case True
  with assms show ?thesis by (auto simp: ZEND_HASH_IF_FULL_DO_RESIZE_def ready_def table_cap_def)
next
  case False
  then have "nNumUsed ht = nTableSize ht" using assms(1) by (simp add: mixed_shape_def)
  with do_resize_ok [OF assms(1,3), of eg] assms(4) obtain eg' ht' n where
    r: "zend_hash_do_resize eg ht = Inr (eg', ht')" "rebuilds ht n ht'" "nNumUsed ht' < nTableSize ht'"
      "n \<le> max (nTableSize ht) (4 * nNumOfElements ht)"
    by (auto simp: has_room_def)
  have "n \<le> max (table_cap ht) (8 * length (ht_entries ht))"
    using r(4) assms(3) by (auto simp: table_cap_def content_ok_def)
  with r False rebuilds_ready show ?thesis by (auto simp: ZEND_HASH_IF_FULL_DO_RESIZE_def)
qed

section \<open>Conversions\<close>

text \<open>The conversion is also called just after the size field has been doubled.\<close>

lemma packed_to_hash_ok:
  assumes "ht_packed ht" "\<not> ht_uninit ht" "content_ok ht" "size_ok (nTableSize ht)" "nNumUsed ht \<le> nTableSize ht"
  shows "\<exists>eg' ht'. zend_hash_packed_to_hash eg ht = Inr (eg', ht') \<and> rebuilds ht (nTableSize ht) ht'"
proof -
  let ?bs = "map (\<lambda>i. packed_bucket i (arPacked ht ! i)) [0 ..< nNumUsed ht]"
  let ?t = "ht\<lparr>ht_packed := False, nTableMask := HT_SIZE_TO_MASK (nTableSize ht),
               arHash := replicate (unat (- HT_SIZE_TO_MASK (nTableSize ht))) 0,
               arData := copy_block (nTableSize ht) (nNumUsed ht) poison_bucket ?bs, arPacked := []\<rparr>"
  have "mixed_shape ?t"
    using assms mask_size [OF assms(4)] by (simp add: mixed_shape_def length_copy_block)
  moreover have b: "ht_buckets ?t = ht_buckets ht"
    using assms(1) by (simp add: ht_buckets_def take_copy_block)
  moreover have "content_ok ?t" using b by (intro content_ok_buckets [OF assms(3)]) simp_all
  ultimately obtain eg' ht' where "zend_hash_rehash eg ?t = Inr (eg', ht')" "rebuilds ?t (nTableSize ht) ht'"
    using rehash_rebuilds [of ?t eg] by auto
  then show ?thesis using b
    by (auto simp: zend_hash_packed_to_hash_def Let_def ht_entries_def elim!: rebuilds_transfer)
qed

lemma nth_ht_buckets:
  "mixed_shape ht \<Longrightarrow> i < nNumUsed ht \<Longrightarrow> ht_buckets ht ! i = arData ht ! i"
  "ht_packed ht \<Longrightarrow> i < nNumUsed ht \<Longrightarrow> ht_buckets ht ! i = packed_bucket i (arPacked ht ! i)"
  by (auto simp: ht_buckets_def mixed_shape_def)

text \<open>Buckets with the same values and keys, where a dead bucket has no key.\<close>

lemma to_packed_ok:
  assumes "ht_inv ht" "mixed_shape ht"
    and keys: "\<forall>i < nNumUsed ht. live (arData ht ! i) \<longrightarrow> bucket_key (arData ht ! i) = IntKey (of_nat i)"
  shows "ht_inv (zend_hash_to_packed ht)" "ht_entries (zend_hash_to_packed ht) = ht_entries ht"
proof -
  let ?t = "zend_hash_to_packed ht"
  have l: "nNumUsed ht \<le> length (arData ht)" "nNumUsed ht \<le> nTableSize ht"
    using assms(2) by (auto simp: mixed_shape_def)
  have bt: "ht_buckets ?t = map (\<lambda>i. packed_bucket i (b_val (arData ht ! i))) [0 ..< nNumUsed ht]"
    using l by (auto simp: ht_buckets_def zend_hash_to_packed_def HT_HASH_RESET_PACKED_def nth_copy_block)
  have bh: "ht_buckets ht = map ((!) (arData ht)) [0 ..< nNumUsed ht]"
    using assms(2) l take_split_nth [of 0 "nNumUsed ht" "arData ht"] by (simp add: ht_buckets_def mixed_shape_def)
  have k: "bucket_key (arData ht ! i) = bucket_key (packed_bucket i (b_val (arData ht ! i)))"
    if "i < nNumUsed ht" "live (arData ht ! i)" for i
    using keys that by (simp add: packed_bucket_def bucket_key_def)
  have "filter (\<lambda>i. live (packed_bucket i (b_val (arData ht ! i)))) [0 ..< nNumUsed ht]
      = filter (\<lambda>i. live (arData ht ! i)) [0 ..< nNumUsed ht]"
    by (intro filter_cong) (auto simp: packed_bucket_def)
  then show e: "ht_entries ?t = ht_entries ht"
    using k by (auto simp: ht_entries_def bt bh entries_def filter_map comp_def packed_bucket_def bucket_key_def)
  have "bucket_ok True (nNextFreeElement ht) (packed_bucket i (b_val (arData ht ! i)))" if i: "i < nNumUsed ht" for i
  proof (cases "live (arData ht ! i)")
    case True
    have "bucket_ok (ht_static_keys ht) (nNextFreeElement ht) (arData ht ! i)"
      using ht_inv_content [OF assms(1)] i by (simp add: content_ok_def bh list_all_iff)
    moreover have "b_key (arData ht ! i) = None" "b_h (arData ht ! i) = of_nat i"
      using keys i True by (auto simp: bucket_key_def split: option.splits)
    ultimately show ?thesis using True by (simp add: bucket_ok_def packed_bucket_def)
  qed (simp add: bucket_ok_def packed_bucket_def)
  then have "list_all (bucket_ok True (nNextFreeElement ht)) (ht_buckets ?t)"
    by (simp add: bt list_all_iff)
  moreover have "ht_static_keys ?t" "nNextFreeElement ?t = nNextFreeElement ht" "nNumOfElements ?t = nNumOfElements ht"
    by (simp_all add: zend_hash_to_packed_def HT_HASH_RESET_PACKED_def)
  ultimately have "content_ok ?t"
    using ht_inv_content [OF assms(1)] e by (simp add: content_ok_def)
  moreover have "packed_shape ?t"
    using assms(2) l by (simp add: packed_shape_def mixed_shape_def zend_hash_to_packed_def HT_HASH_RESET_PACKED_def length_copy_block)
  ultimately show "ht_inv ?t" by (simp add: ht_inv_def)
qed

lemma packed_grow_ok:
  assumes "ht_inv ht" "ht_packed ht" "nTableSize ht < HT_MAX_SIZE"
  shows "\<exists>ht'. zend_hash_packed_grow ht = Inr ht' \<and> ht_inv ht' \<and> ht_buckets ht' = ht_buckets ht \<and>
    ht' = ht\<lparr>arPacked := arPacked ht', nTableSize := 2 * nTableSize ht\<rparr>"
proof -
  let ?t = "ht\<lparr>arPacked := copy_block (nTableSize ht * 2) (nNumUsed ht) poison_zval (arPacked ht), nTableSize := nTableSize ht * 2\<rparr>"
  from ht_inv_packedD [OF assms(1,2)] have p: "packed_shape ht" and c: "content_ok ht" by auto
  have l: "nNumUsed ht \<le> length (arPacked ht)" "nNumUsed ht \<le> nTableSize ht * 2" using p by (auto simp: packed_shape_def)
  have b: "ht_buckets ?t = ht_buckets ht" using l assms(2) by (simp add: ht_buckets_def nth_copy_block)
  have "size_ok (nTableSize ht * 2)" using size_ok_double [of "nTableSize ht"] p assms(3) by (simp add: packed_shape_def mult_2_right)
  then have "packed_shape ?t" using p l by (simp add: packed_shape_def length_copy_block)
  moreover have "content_ok ?t" using b by (intro content_ok_buckets [OF c]) simp_all
  ultimately have "ht_inv ?t" by (simp add: ht_inv_def)
  with b assms(3) show ?thesis by (auto simp: zend_hash_packed_grow_def Let_def mult.commute)
qed

section \<open>Initialisation\<close>

lemma zend_hash_init_int_ok:
  assumes "zend_hash_init_int addr nSize dtor = Inr ht"
  shows "ht_inv ht" "ht_entries ht = []" "ht_uninit ht" "unat nSize \<le> nTableSize ht"
proof -
  obtain n where n: "zend_hash_check_size nSize = Inr n" and ht: "ht =
       \<lparr>ht_addr = addr, ht_packed = False, ht_uninit = True, ht_static_keys = False, ht_empty_ind = False,
        nTableMask = HT_MIN_MASK, arHash = [HT_INVALID_IDX, HT_INVALID_IDX], arData = [], arPacked = [],
        nNumUsed = 0, nNumOfElements = 0, nTableSize = n, nInternalPointer = 0,
        nNextFreeElement = ZEND_LONG_MIN, pDestructor = dtor\<rparr>"
    using assms by (auto simp: zend_hash_init_int_def res_bind_Inr)
  show "ht_inv ht" "ht_entries ht = []" "ht_uninit ht" "unat nSize \<le> nTableSize ht"
    using check_size_size_ok [OF n] check_size_ok(2) [OF n]
    by (simp_all add: ht ht_inv_def uninit_shape_def content_ok_def ht_entries_def ht_buckets_def entries_def)
qed

lemma uninit_entries: "ht_inv ht \<Longrightarrow> ht_uninit ht \<Longrightarrow> ht_entries ht = [] \<and> ht_buckets ht = [] \<and> nNumOfElements ht = 0 \<and> nNumUsed ht = 0"
  by (drule (1) ht_inv_uninitD) (auto simp: uninit_shape_def ht_entries_def ht_buckets_def entries_def content_ok_def)

lemma real_init_mixed_ok:
  assumes "ht_inv ht" "ht_uninit ht"
  shows "ready ht (zend_hash_real_init_mixed_ex ht)"
proof -
  let ?t = "zend_hash_real_init_mixed_ex ht"
  from ht_inv_uninitD [OF assms] have u: "uninit_shape ht" and c: "content_ok ht" by auto
  note e = uninit_entries [OF assms]
  have s: "size_ok (nTableSize ht)" using u by (simp add: uninit_shape_def)
  have f: "nNumUsed ?t = 0" "nNumOfElements ?t = 0" "\<not> ht_packed ?t"
    using e u by (simp_all add: zend_hash_real_init_mixed_ex_def HT_HASH_RESET_def)
  have "mixed_shape ?t"
    using s u mask_size [OF s] by (simp add: mixed_shape_def uninit_shape_def zend_hash_real_init_mixed_ex_def HT_HASH_RESET_def)
  moreover have "content_ok ?t" "ht_entries ?t = []"
    using f by (simp_all add: content_ok_def ht_entries_def ht_buckets_def entries_def)
  moreover have "chains_ok ?t 0" by (simp add: chains_ok_def zend_hash_real_init_mixed_ex_def HT_HASH_RESET_def)
  moreover have "0 < nTableSize ?t"
    using size_ok_bounds(1) [OF s] by (simp add: zend_hash_real_init_mixed_ex_def HT_HASH_RESET_def)
  moreover have "nTableSize ?t \<le> table_cap ht"
    by (simp add: zend_hash_real_init_mixed_ex_def HT_HASH_RESET_def table_cap_def)
  ultimately show ?thesis using f e
    by (simp add: ready_def) (simp add: zend_hash_real_init_mixed_ex_def HT_HASH_RESET_def)
qed

lemma real_init_packed_ok:
  assumes "ht_inv ht" "ht_uninit ht"
  shows "ht_inv (zend_hash_real_init_packed_ex ht)" "ht_entries (zend_hash_real_init_packed_ex ht) = []"
proof -
  from ht_inv_uninitD [OF assms] have u: "uninit_shape ht" by auto
  note e = uninit_entries [OF assms]
  show "ht_entries (zend_hash_real_init_packed_ex ht) = []" "ht_inv (zend_hash_real_init_packed_ex ht)"
    using e u by (simp_all add: ht_inv_def packed_shape_def content_ok_def ht_entries_def ht_buckets_def entries_def
      zend_hash_real_init_packed_ex_def HT_HASH_RESET_PACKED_def uninit_shape_def)
qed

section \<open>Extending and discarding\<close>

lemma rebuilds_inv: "rebuilds ht n ht' \<Longrightarrow> ht_inv ht' \<and> ht_entries ht' = ht_entries ht"
  by (simp add: rebuilds_def)

lemma uninit_resize_inv:
  "ht_inv ht \<Longrightarrow> ht_uninit ht \<Longrightarrow> size_ok n \<Longrightarrow> ht_inv (ht\<lparr>nTableSize := n\<rparr>)"
  by (drule (1) ht_inv_uninitD)
    (auto simp: ht_inv_def uninit_shape_def content_ok_def ht_entries_def ht_buckets_def)

lemma real_init_ok:
  assumes "ht_inv ht" "ht_uninit ht"
  shows "ht_inv (zend_hash_real_init ht packed) \<and> ht_entries (zend_hash_real_init ht packed) = []"
  using real_init_packed_ok [OF assms] real_init_mixed_ok [OF assms] uninit_entries [OF assms]
  by (auto simp: zend_hash_real_init_def ready_def ht_inv_def)

lemma extend_ok:
  assumes inv: "ht_inv ht" and size: "unat nSize \<le> HT_MAX_SIZE"
    and lay: "ht_uninit ht \<or> packed = ht_packed ht"
  shows "\<exists>eg' ht'. zend_hash_extend eg ht nSize packed = Inr (eg', ht') \<and> ht_inv ht' \<and>
    ht_entries ht' = ht_entries ht \<and> unat nSize \<le> nTableSize ht'"
proof (cases "unat nSize > nTableSize ht")
  case False
  have z: "unat nSize = 0" if "nSize = 0" using that by simp
  show ?thesis
  proof (cases "nSize = 0 \<or> \<not> ht_uninit ht")
    case True
    with False inv show ?thesis by (auto simp: zend_hash_extend_def)
  next
    case u: False
    have "zend_hash_extend eg ht nSize packed = Inr (eg, zend_hash_real_init ht packed)"
      using u False by (simp add: zend_hash_extend_def)
    moreover have "nTableSize (zend_hash_real_init ht packed) = nTableSize ht"
      by (simp add: zend_hash_real_init_def zend_hash_real_init_packed_ex_def zend_hash_real_init_mixed_ex_def
          HT_HASH_RESET_def HT_HASH_RESET_PACKED_def)
    ultimately show ?thesis using real_init_ok [OF inv, of packed] uninit_entries [OF inv] u False by auto
  qed
next
  case True
  then have z: "nSize \<noteq> 0" by auto
  obtain n where n: "zend_hash_check_size nSize = Inr n"
    using size check_size_error [of nSize] by (cases "zend_hash_check_size nSize") auto
  note so = check_size_size_ok [OF n] and le = check_size_ok(2) [OF n]
  show ?thesis
  proof (cases "ht_uninit ht")
    case u: True
    let ?t = "zend_hash_real_init (ht\<lparr>nTableSize := n\<rparr>) packed"
    have "zend_hash_extend eg ht nSize packed = Inr (eg, ?t)"
      using u True z n by (simp add: zend_hash_extend_def)
    moreover have "nTableSize ?t = n"
      by (simp add: zend_hash_real_init_def zend_hash_real_init_packed_ex_def zend_hash_real_init_mixed_ex_def
          HT_HASH_RESET_def HT_HASH_RESET_PACKED_def)
    ultimately show ?thesis
      using real_init_ok [OF uninit_resize_inv [OF inv u so], of packed] uninit_entries [OF inv u] u le by auto
  next
    case u: False
    show ?thesis
    proof (cases packed)
      case p: True
      let ?t = "ht\<lparr>arPacked := copy_block n (nNumUsed ht) poison_zval (arPacked ht), nTableSize := n\<rparr>"
      from ht_inv_packedD [OF inv] lay u p have s: "packed_shape ht" and c: "content_ok ht" by auto
      have l: "nNumUsed ht \<le> length (arPacked ht)" "nNumUsed ht \<le> n"
        using s True le by (auto simp: packed_shape_def)
      have b: "ht_buckets ?t = ht_buckets ht" using l s by (simp add: ht_buckets_def nth_copy_block packed_shape_def)
      have "packed_shape ?t" using s l so by (simp add: packed_shape_def length_copy_block)
      moreover have "content_ok ?t" using b by (intro content_ok_buckets [OF c]) simp_all
      ultimately have "ht_inv ?t" by (simp add: ht_inv_def)
      with b p u z n True le show ?thesis by (simp add: zend_hash_extend_def ht_entries_def)
    next
      case p: False
      with lay u ht_inv_mixedD [OF inv] have "mixed_shape ht" "content_ok ht" by auto
      from resize_mixed_ok [OF this so, of eg] True le obtain eg' ht' where
        "resize_mixed eg ht n = Inr (eg', ht')" "rebuilds ht n ht'" by auto
      with p u z n True le show ?thesis by (auto simp: zend_hash_extend_def rebuilds_def)
    qed
  qed
qed

lemma extend_overflow:
  "HT_MAX_SIZE < unat nSize \<Longrightarrow> nTableSize ht < unat nSize \<Longrightarrow> zend_hash_extend eg ht nSize packed = Inl Memory_Overflow"
  using check_size_error [of nSize Memory_Overflow] by (auto simp: zend_hash_extend_def)

lemma slot_of_cong: "length (arHash a) = length (arHash b) \<Longrightarrow> nTableMask a = nTableMask b \<Longrightarrow> slot_of a = slot_of b"
  by (simp add: slot_of_def fun_eq_iff)

lemma chains_ok_cong:
  "arHash a = arHash b \<Longrightarrow> arData a = arData b \<Longrightarrow> nTableMask a = nTableMask b \<Longrightarrow> chains_ok a n = chains_ok b n"
  using slot_of_cong [of a b] by (simp add: chains_ok_def)

lemma unlink_last:
  assumes "chains_ok ht (Suc i)" "live (arData ht ! i)" "slots_ok ht"
  shows "chains_ok (HT_HASH_SET ht (hash_index (nTableMask ht) (b_h (arData ht ! i))) (b_next (arData ht ! i))) i"
proof -
  let ?s = "slot_of ht (b_h (arData ht ! i))"
  let ?t = "HT_HASH_SET ht (hash_index (nTableMask ht) (b_h (arData ht ! i))) (b_next (arData ht ! i))"
  have t: "?t = ht\<lparr>arHash := (arHash ht)[?s := b_next (arData ht ! i)]\<rparr>"
    by (simp add: HT_HASH_SET_def slot_of_def)
  have s: "?s < length (arHash ht)" using assms(3) by (simp add: slots_ok_def)
  have "linked (arData ht) (arHash ?t ! x) (chain_of (arData ht) i (slot_of ht) x)" if x: "x < length (arHash ht)" for x
    using assms(1,2) x s by (auto simp: chains_ok_def chain_of_Suc t nth_list_update)
  then show ?thesis unfolding chains_ok_def by (simp add: t)
qed

lemma discard_loop_ok:
  assumes "chains_ok ht m" "slots_ok ht" "n \<le> m" "m \<le> length (arData ht)"
    "nNumOfElements ht = length (filter live (take m (arData ht)))"
  shows "\<exists>H. discard_loop (rev [n ..< m]) ht =
      ht\<lparr>arHash := H, nNumOfElements := length (filter live (take n (arData ht)))\<rparr> \<and>
      length H = length (arHash ht) \<and> chains_ok (ht\<lparr>arHash := H\<rparr>) n"
  using assms
proof (induction "m - n" arbitrary: m ht)
  case 0
  then show ?case by (intro exI [of _ "arHash ht"]) simp
next
  case (Suc d)
  then obtain i where i: "m = Suc i" "n \<le> i" "d = i - n" by (cases m) auto
  then have up: "rev [n ..< m] = i # rev [n ..< i]" by simp
  have tk: "take m (arData ht) = take i (arData ht) @ [arData ht ! i]"
    using Suc.prems(4) i(1) by (simp add: take_Suc_conv_app_nth)
  show ?case
  proof (cases "live (arData ht ! i)")
    case False
    have "chains_ok ht i" using Suc.prems(1) False i(1) by (simp add: chains_ok_def chain_of_Suc)
    from Suc.hyps(1) [OF i(3) this Suc.prems(2) i(2)] Suc.prems(4,5) tk False i(1) up show ?thesis by simp
  next
    case True
    let ?v = "b_next (arData ht ! i)" and ?x = "hash_index (nTableMask ht) (b_h (arData ht ! i))"
    let ?t = "HT_HASH_SET (ht\<lparr>nNumOfElements := nNumOfElements ht - 1\<rparr>) ?x ?v"
    have t: "?t = (HT_HASH_SET ht ?x ?v)\<lparr>nNumOfElements := nNumOfElements ht - 1\<rparr>" by (simp add: HT_HASH_SET_def)
    have "chains_ok ?t i" unfolding t using unlink_last Suc.prems(1,2) True i(1) by simp
    moreover have "slots_ok ?t" using Suc.prems(2) by (simp add: slots_ok_def HT_HASH_SET_def slot_of_def)
    moreover have "nNumOfElements ?t = length (filter live (take i (arData ?t)))"
      using Suc.prems(5) True tk by (simp add: HT_HASH_SET_def)
    ultimately obtain H where H: "discard_loop (rev [n ..< i]) ?t =
        ?t\<lparr>arHash := H, nNumOfElements := length (filter live (take n (arData ?t)))\<rparr>"
      "length H = length (arHash ?t)" "chains_ok (?t\<lparr>arHash := H\<rparr>) n"
      using Suc.hyps(1) [OF i(3), of ?t] i(1,2) Suc.prems(4) by (auto simp: HT_HASH_SET_def)
    have "chains_ok (ht\<lparr>arHash := H\<rparr>) n"
      using H(3) chains_ok_cong [of "ht\<lparr>arHash := H\<rparr>" "?t\<lparr>arHash := H\<rparr>" n] by (simp add: HT_HASH_SET_def)
    then show ?thesis using H(1,2) True up
      by (intro exI [of _ H]) (simp add: Let_def HT_HASH_SET_def)
  qed
qed

lemma entries_take_sub: "set (entries (take n bs)) \<subseteq> set (entries bs)"
  using set_take_subset [of n bs] by (auto simp: entries_def)

lemma distinct_entries_take: "distinct (map fst (entries bs)) \<Longrightarrow> distinct (map fst (entries (take n bs)))"
  by (metis append_take_drop_id distinct_append entries_append map_append)

lemma discard_ok:
  assumes inv: "ht_inv ht" and sh: "mixed_shape ht" and n: "n \<le> nNumUsed ht"
  shows "ht_inv (zend_hash_discard ht n)" "ht_entries (zend_hash_discard ht n) = entries (take n (ht_buckets ht))"
proof -
  have c: "content_ok ht" "chains_ok ht (nNumUsed ht)"
    using ht_inv_mixedD [OF inv] sh by (auto simp: mixed_shape_def)
  have b: "ht_buckets ht = take (nNumUsed ht) (arData ht)" using sh by (simp add: ht_buckets_def mixed_shape_def)
  have l: "nNumUsed ht \<le> length (arData ht)" using sh by (simp add: mixed_shape_def)
  let ?t = "ht\<lparr>nNumUsed := n\<rparr>"
  have e: "nNumOfElements ht = length (filter live (take (nNumUsed ht) (arData ht)))"
    using c(1) by (simp add: content_ok_def ht_entries_def b length_entries)
  obtain H where H: "zend_hash_discard ht n =
      ?t\<lparr>arHash := H, nNumOfElements := length (filter live (take n (arData ht)))\<rparr>"
    "length H = length (arHash ht)" "chains_ok (?t\<lparr>arHash := H\<rparr>) n"
    using discard_loop_ok [of ?t "nNumUsed ht" n] c(2) slots_ok_mixed [OF sh] n l e
    by (auto simp: zend_hash_discard_def slots_ok_def)
  have bt: "ht_buckets (zend_hash_discard ht n) = take n (ht_buckets ht)"
    using sh n by (simp add: H(1) ht_buckets_def mixed_shape_def)
  show et: "ht_entries (zend_hash_discard ht n) = entries (take n (ht_buckets ht))"
    by (simp add: ht_entries_def bt)
  have "mixed_shape (zend_hash_discard ht n)" using sh n H(1,2) by (simp add: mixed_shape_def)
  moreover have "chains_ok (zend_hash_discard ht n) n"
    using H(3) chains_ok_cong [of "zend_hash_discard ht n" "?t\<lparr>arHash := H\<rparr>" n] by (simp add: H(1))
  moreover have "list_all (bucket_ok (ht_static_keys ht) (nNextFreeElement ht)) (take n (ht_buckets ht))"
    using c(1) set_take_subset [of n "ht_buckets ht"] by (auto simp: content_ok_def list_all_iff)
  then have "content_ok (zend_hash_discard ht n)"
    using c(1) distinct_entries_take [of "ht_buckets ht" n] n
    by (simp add: content_ok_def et bt) (simp add: H(1) ht_entries_def length_entries b min_absorb1)
  ultimately show "ht_inv (zend_hash_discard ht n)" using H(1) by (simp add: ht_inv_def)
qed

end
