(* ===== verification/Hash_Find.thy ===== *)
theory Hash_Find
  imports Hash_Resize
begin

text \<open>
  Lookup.  On a well-formed table every search returns, and it returns the value that the
  association list of the entries has for the key, whatever the layout of the table.
\<close>

section \<open>Lookup\<close>

text \<open>The number of buckets that the chains cover: none while the table is packed.\<close>

definition data_used :: "hashtable \<Rightarrow> nat" where
  "data_used ht = (if ht_packed ht then 0 else nNumUsed ht)"

lemma ht_inv_search:
  assumes "ht_inv ht"
  shows "chains_ok ht (data_used ht)" "slots_ok ht" "small (arData ht)" "data_used ht \<le> length (arData ht)"
proof -
  consider "uninit_shape ht" | "packed_shape ht" | "mixed_shape ht" "chains_ok ht (nNumUsed ht)"
    using assms by (auto simp: ht_inv_def)
  then have "chains_ok ht (data_used ht) \<and> slots_ok ht \<and> small (arData ht) \<and> data_used ht \<le> length (arData ht)"
  proof cases
    case 1
    moreover from this have "slots_ok ht" using slot_of_min [of ht] by (simp add: uninit_shape_def slots_ok_def numeral_2_eq_2)
    ultimately show ?thesis
      by (auto simp: uninit_shape_def chains_ok_def small_def data_used_def less_Suc_eq)
  next
    case 2
    moreover from this have "slots_ok ht" using slot_of_min [of ht] by (simp add: packed_shape_def slots_ok_def numeral_2_eq_2)
    ultimately show ?thesis
      by (auto simp: packed_shape_def chains_ok_def small_def data_used_def less_Suc_eq)
  next
    case 3
    then show ?thesis using slots_ok_mixed [of ht] size_ok_bounds(2) [of "nTableSize ht"]
      by (auto simp: mixed_shape_def data_used_def small_def)
  qed
  then show "chains_ok ht (data_used ht)" "slots_ok ht" "small (arData ht)" "data_used ht \<le> length (arData ht)"
    by auto
qed

text \<open>A chain walk finds a bucket exactly when a live bucket matches, provided matching fixes the hash.\<close>

definition hit :: "(bucket \<Rightarrow> bool) \<Rightarrow> hashtable \<Rightarrow> nat option \<Rightarrow> bool" where
  "hit P ht r \<longleftrightarrow> (case r of
       None \<Rightarrow> \<forall>i < data_used ht. live (arData ht ! i) \<longrightarrow> \<not> P (arData ht ! i)
     | Some i \<Rightarrow> i < data_used ht \<and> live (arData ht ! i) \<and> P (arData ht ! i))"

lemma chain_walk:
  assumes inv: "ht_inv ht"
    and m: "\<And>i. i < data_used ht \<Longrightarrow> live (arData ht ! i) \<Longrightarrow> P (arData ht ! i) \<Longrightarrow> b_h (arData ht ! i) = h"
  shows "\<exists>r. to_bucket (chain_search P (arData ht) (HT_HASH ht (hash_index (nTableMask ht) h))) = Inr r \<and> hit P ht r"
proof -
  let ?c = "chain_of (arData ht) (data_used ht) (slot_of ht) (slot_of ht h)"
  note s = ht_inv_search [OF inv]
  have "linked (arData ht) (arHash ht ! slot_of ht h) ?c" using s(1,2) by (simp add: chains_ok_def slots_ok_def)
  then have "to_bucket (chain_search P (arData ht) (HT_HASH ht (hash_index (nTableMask ht) h)))
      = Inr (List.find (\<lambda>i. P (arData ht ! i)) ?c)"
    using to_bucket_linked [OF s(3)] by (simp add: HT_HASH_def slot_of_def)
  moreover have "hit P ht (List.find (\<lambda>i. P (arData ht ! i)) ?c)"
  proof (cases "List.find (\<lambda>i. P (arData ht ! i)) ?c")
    case None
    then have "\<forall>i \<in> set ?c. \<not> P (arData ht ! i)" by (simp add: find_None_iff)
    then show ?thesis using m None by (auto simp: hit_def set_chain_of)
  next
    case (Some i)
    then have "i \<in> set ?c" "P (arData ht ! i)" by (auto simp: find_Some_iff)
    then show ?thesis using Some by (simp add: hit_def set_chain_of)
  qed
  ultimately show ?thesis by blast
qed

lemma data_bucket_ok:
  assumes "ht_inv ht" "i < data_used ht"
  shows "bucket_ok (ht_static_keys ht) (nNextFreeElement ht) (arData ht ! i)"
proof -
  have "\<not> ht_packed ht" "i < nNumUsed ht" using assms(2) by (auto simp: data_used_def split: if_splits)
  then have "arData ht ! i \<in> set (ht_buckets ht)"
    using assms ht_inv_search(4) [OF assms(1)] by (auto simp: ht_buckets_def data_used_def in_set_conv_nth intro!: exI [of _ i])
  then show ?thesis using ht_inv_content [OF assms(1)] by (simp add: content_ok_def list_all_iff)
qed

text \<open>The three matching conditions say that the key is the one looked for.\<close>

lemma match_is_key:
  assumes "bucket_ok st nx b" "live b"
  shows "match_key key b \<longleftrightarrow> bucket_key b = StrKey (zs_val key)"
    "match_str str (zend_inline_hash_func str) b \<longleftrightarrow> bucket_key b = StrKey str"
    "match_index h b \<longleftrightarrow> bucket_key b = IntKey h"
  using assms by (auto simp: match_key_def match_str_def match_index_def bucket_key_def bucket_ok_def split: option.splits)

lemma hit_cong:
  "ht_inv ht \<Longrightarrow> (\<And>b. bucket_ok (ht_static_keys ht) (nNextFreeElement ht) b \<Longrightarrow> live b \<Longrightarrow> P b = Q b) \<Longrightarrow>
   hit P ht r = hit Q ht r"
  using data_bucket_ok by (auto simp: hit_def split: option.splits)

abbreviation hit_key :: "hkey \<Rightarrow> hashtable \<Rightarrow> nat option \<Rightarrow> bool" where
  "hit_key k \<equiv> hit (\<lambda>b. bucket_key b = k)"

lemma find_bucket_ok:
  assumes "ht_inv ht"
  shows "\<exists>r. zend_hash_find_bucket ht key = Inr r \<and> hit_key (StrKey (zs_val key)) ht r"
    "\<exists>r. zend_hash_str_find_bucket ht str (zend_inline_hash_func str) = Inr r \<and> hit_key (StrKey str) ht r"
    "\<exists>r. zend_hash_index_find_bucket ht h = Inr r \<and> hit_key (IntKey h) ht r"
proof -
  have 1: "\<exists>r. zend_hash_find_bucket ht key = Inr r \<and> hit (match_key key) ht r"
    unfolding zend_hash_find_bucket_def
  proof (rule chain_walk [OF assms])
    fix i assume i: "i < data_used ht" "live (arData ht ! i)" "match_key key (arData ht ! i)"
    with data_bucket_ok [OF assms i(1)] show "b_h (arData ht ! i) = ZSTR_H key"
      by (auto simp: match_key_def bucket_ok_def split: option.splits)
  qed
  have 2: "\<exists>r. zend_hash_str_find_bucket ht str (zend_inline_hash_func str) = Inr r \<and>
      hit (match_str str (zend_inline_hash_func str)) ht r"
    unfolding zend_hash_str_find_bucket_def by (rule chain_walk [OF assms]) (simp add: match_str_def)
  have 3: "\<exists>r. zend_hash_index_find_bucket ht h = Inr r \<and> hit (match_index h) ht r"
    unfolding zend_hash_index_find_bucket_def by (rule chain_walk [OF assms]) (simp add: match_index_def)
  show "\<exists>r. zend_hash_find_bucket ht key = Inr r \<and> hit_key (StrKey (zs_val key)) ht r"
    using 1 hit_cong [OF assms, of "match_key key" "\<lambda>b. bucket_key b = StrKey (zs_val key)"] match_is_key by auto
  show "\<exists>r. zend_hash_str_find_bucket ht str (zend_inline_hash_func str) = Inr r \<and> hit_key (StrKey str) ht r"
    using 2 hit_cong [OF assms, of "match_str str (zend_inline_hash_func str)" "\<lambda>b. bucket_key b = StrKey str"]
      match_is_key by auto
  show "\<exists>r. zend_hash_index_find_bucket ht h = Inr r \<and> hit_key (IntKey h) ht r"
    using 3 hit_cong [OF assms, of "match_index h" "\<lambda>b. bucket_key b = IntKey h"] match_is_key by auto
qed

section \<open>Entries as an association list\<close>

lemma map_of_entries:
  assumes "distinct (map fst (entries bs))" "i < length bs" "live (bs ! i)"
  shows "map_of (entries bs) (bucket_key (bs ! i)) = Some (b_val (bs ! i))"
  using assms by (intro map_of_is_SomeI) (auto simp: entries_def)

lemma map_of_entries_None:
  "map_of (entries bs) k = None \<longleftrightarrow> (\<forall>i < length bs. live (bs ! i) \<longrightarrow> bucket_key (bs ! i) \<noteq> k)"
  by (auto simp: map_of_eq_None_iff entries_def image_image) (metis (mono_tags, lifting) in_set_conv_nth)+

lemma update_append_mid: "k \<notin> fst ` set as \<Longrightarrow> AList.update k v (as @ (k, w) # cs) = as @ (k, v) # cs"
  by (induction as) auto

lemma update_new: "k \<notin> fst ` set as \<Longrightarrow> AList.update k v as = as @ [(k, v)]"
  by (induction as) auto

lemma delete_append_mid:
  "k \<notin> fst ` set as \<Longrightarrow> k \<notin> fst ` set cs \<Longrightarrow> AList.delete k (as @ (k, w) # cs) = as @ cs"
proof -
  assume k: "k \<notin> fst ` set as" "k \<notin> fst ` set cs"
  have "AList.delete k as = as" "AList.delete k cs = cs" using k by simp_all
  then show ?thesis by (simp add: AList.delete_eq)
qed

lemma entries_split:
  assumes "i < length bs" "live (bs ! i)"
  shows "entries bs = entries (take i bs) @ (bucket_key (bs ! i), b_val (bs ! i)) # entries (drop (Suc i) bs)"
proof -
  have "entries (take i bs @ bs ! i # drop (Suc i) bs)
      = entries (take i bs) @ (bucket_key (bs ! i), b_val (bs ! i)) # entries (drop (Suc i) bs)"
    using assms(2) by (simp add: entries_def)
  then show ?thesis using id_take_nth_drop [OF assms(1)] by simp
qed

lemma entries_update:
  assumes "distinct (map fst (entries bs))" "i < length bs" "live (bs ! i)" "live b"
    "bucket_key b = bucket_key (bs ! i)"
  shows "entries (bs[i := b]) = AList.update (bucket_key b) (b_val b) (entries bs)"
proof -
  have "bucket_key (bs ! i) \<notin> fst ` set (entries (take i bs))"
    using assms(1) entries_split [OF assms(2,3)] by auto
  moreover have "entries (bs[i := b]) = entries (take i bs) @ (bucket_key b, b_val b) # entries (drop (Suc i) bs)"
    using assms entries_split [of i "bs[i := b]"] by simp
  ultimately show ?thesis using assms entries_split [OF assms(2,3)] by (simp add: update_append_mid)
qed

lemma entries_kill:
  assumes "distinct (map fst (entries bs))" "i < length bs" "live (bs ! i)" "\<not> live b"
  shows "entries (bs[i := b]) = AList.delete (bucket_key (bs ! i)) (entries bs)"
proof -
  have "bucket_key (bs ! i) \<notin> fst ` set (entries (take i bs))" "bucket_key (bs ! i) \<notin> fst ` set (entries (drop (Suc i) bs))"
    using assms(1) entries_split [OF assms(2,3)] by auto
  moreover have "entries (bs[i := b]) = entries (take i bs) @ entries (drop (Suc i) bs)"
    using assms by (simp add: upd_conv_take_nth_drop entries_append) (simp add: entries_def)
  ultimately show ?thesis using entries_split [OF assms(2,3)] by (simp add: delete_append_mid)
qed

lemma entries_snoc: "live b \<Longrightarrow> entries (bs @ [b]) = entries bs @ [(bucket_key b, b_val b)]"
  by (simp add: entries_def)

section \<open>Lookup refines the association list\<close>

lemma hit_key_entries:
  assumes "ht_inv ht" "\<not> ht_packed ht" "hit_key k ht r"
  shows "map_of (ht_entries ht) k = map_option (\<lambda>i. b_val (arData ht ! i)) r"
proof -
  let ?bs = "ht_buckets ht"
  have l: "data_used ht = length ?bs" "\<And>i. i < length ?bs \<Longrightarrow> ?bs ! i = arData ht ! i"
    using assms(2) ht_inv_search(4) [OF assms(1)] by (auto simp: data_used_def ht_buckets_def)
  have d: "distinct (map fst (entries ?bs))"
    using ht_inv_content [OF assms(1)] by (simp add: content_ok_def ht_entries_def)
  show ?thesis
  proof (cases r)
    case None
    with assms(3) l show ?thesis by (auto simp: hit_def ht_entries_def map_of_entries_None)
  next
    case (Some i)
    with assms(3) l have "i < length ?bs" "live (?bs ! i)" "bucket_key (?bs ! i) = k" by (auto simp: hit_def)
    with map_of_entries [OF d this(1,2)] l Some show ?thesis by (simp add: ht_entries_def)
  qed
qed

lemma packed_entries:
  assumes "ht_packed ht"
  shows "map_of (ht_entries ht) (StrKey s) = None"
proof -
  have "bucket_key (ht_buckets ht ! i) \<noteq> StrKey s" if "i < length (ht_buckets ht)" for i
    using that assms by (simp add: ht_buckets_def packed_bucket_def bucket_key_def)
  then show ?thesis by (simp add: ht_entries_def map_of_entries_None)
qed

lemma unat_of_nat_used: "ht_inv ht \<Longrightarrow> i < nNumUsed ht \<Longrightarrow> unat (of_nat i :: u64) = i"
proof -
  assume a: "ht_inv ht" "i < nNumUsed ht"
  have "nNumUsed ht \<le> nTableSize ht" using a(1)
    by (auto simp: ht_inv_def uninit_shape_def packed_shape_def mixed_shape_def)
  then have "i < 2 ^ 64" using a(2) size_ok_bounds(2) [OF ht_inv_size_ok [OF a(1)]] by (simp add: HT_MAX_SIZE_def)
  then show ?thesis by (rule unat_of_nat_u64)
qed

lemma packed_index_entries:
  assumes "ht_inv ht" "ht_packed ht"
  shows "map_of (ht_entries ht) (IntKey h) =
    (if unat h < nNumUsed ht \<and> arPacked ht ! unat h \<noteq> IS_UNDEF then Some (arPacked ht ! unat h) else None)"
proof -
  let ?bs = "ht_buckets ht"
  have nth: "?bs ! i = packed_bucket i (arPacked ht ! i)" "length ?bs = nNumUsed ht" if "i < nNumUsed ht" for i
    using that assms(2) by (auto simp: ht_buckets_def)
  have len: "length ?bs = nNumUsed ht" using assms(2) by (simp add: ht_buckets_def)
  have d: "distinct (map fst (entries ?bs))"
    using ht_inv_content [OF assms(1)] by (simp add: content_ok_def ht_entries_def)
  show ?thesis
  proof (cases "unat h < nNumUsed ht \<and> arPacked ht ! unat h \<noteq> IS_UNDEF")
    case True
    then have "map_of (entries ?bs) (bucket_key (?bs ! unat h)) = Some (b_val (?bs ! unat h))"
      using map_of_entries [OF d, of "unat h"] len nth(1) [of "unat h"] by (simp add: packed_bucket_def)
    then show ?thesis using True nth by (simp add: ht_entries_def packed_bucket_def bucket_key_def)
  next
    case False
    have "bucket_key (?bs ! i) \<noteq> IntKey h" if i: "i < length ?bs" "live (?bs ! i)" for i
    proof
      assume "bucket_key (?bs ! i) = IntKey h"
      then have "h = of_nat i" using i len nth by (simp add: packed_bucket_def bucket_key_def)
      then have "unat h = i" using unat_of_nat_used [OF assms(1)] i len by simp
      with False i len nth show False by (simp add: packed_bucket_def)
    qed
    then show ?thesis using False by (auto simp: ht_entries_def map_of_entries_None)
  qed
qed

text \<open>The value at a location.\<close>

definition loc_val :: "exec_globals \<Rightarrow> hashtable \<Rightarrow> loc \<Rightarrow> zval" where
  "loc_val eg ht l = (case l of LData i \<Rightarrow> b_val (arData ht ! i) | LPacked i \<Rightarrow> arPacked ht ! i
     | LInd a \<Rightarrow> indirect eg a)"

lemma hit_packed: "ht_packed ht \<Longrightarrow> hit P ht r \<Longrightarrow> r = None"
  by (auto simp: hit_def data_used_def split: option.splits)

lemma zend_hash_find_ok:
  assumes "ht_inv ht"
  shows "\<exists>r. zend_hash_find ht key = Inr r \<and> map_option (loc_val eg ht) r = map_of (ht_entries ht) (StrKey (zs_val key))"
    "\<exists>r. zend_hash_str_find ht str = Inr r \<and> map_option (loc_val eg ht) r = map_of (ht_entries ht) (StrKey str)"
    "\<exists>r. zend_hash_index_find ht h = Inr r \<and> map_option (loc_val eg ht) r = map_of (ht_entries ht) (IntKey h)"
proof -
  have str: "map_option (loc_val eg ht) (map_option LData r) = map_of (ht_entries ht) (StrKey s)"
    if "hit_key (StrKey s) ht r" for r s
    using hit_key_entries [OF assms _ that] hit_packed [OF _ that] packed_entries [of ht s]
    by (cases "ht_packed ht") (auto simp: option.map_comp comp_def loc_val_def)
  show "\<exists>r. zend_hash_find ht key = Inr r \<and> map_option (loc_val eg ht) r = map_of (ht_entries ht) (StrKey (zs_val key))"
    using find_bucket_ok(1) [OF assms, of key] str by (auto simp: zend_hash_find_def)
  show "\<exists>r. zend_hash_str_find ht str = Inr r \<and> map_option (loc_val eg ht) r = map_of (ht_entries ht) (StrKey str)"
    using find_bucket_ok(2) [OF assms, of str] str by (auto simp: zend_hash_str_find_def Let_def)
  show "\<exists>r. zend_hash_index_find ht h = Inr r \<and> map_option (loc_val eg ht) r = map_of (ht_entries ht) (IntKey h)"
  proof (cases "ht_packed ht")
    case True
    then show ?thesis using packed_index_entries [OF assms True, of h] by (auto simp: zend_hash_index_find_def loc_val_def)
  next
    case False
    obtain r where r: "zend_hash_index_find_bucket ht h = Inr r" "hit_key (IntKey h) ht r"
      using find_bucket_ok(3) [OF assms, of h] by blast
    from hit_key_entries [OF assms False r(2)] r False show ?thesis
      by (auto simp: zend_hash_index_find_def option.map_comp comp_def loc_val_def)
  qed
qed

end
