(* ===== verification/Hash_Update.thy ===== *)
theory Hash_Update
  imports Hash_Find
begin

text \<open>
  Insertion and update: \<^verbatim>\<open>_zend_hash_add_or_update_i\<close>, \<^verbatim>\<open>_zend_hash_str_add_or_update_i\<close>,
  \<^verbatim>\<open>_zend_hash_index_add_or_update_i\<close> and the functions of the API that call them with fixed flags.
  An operation returns the location of the value (\<open>None\<close> for \<^verbatim>\<open>NULL\<close>), the globals and the table.
\<close>

section \<open>Flags and stores\<close>

record hash_flag =
  HASH_UPDATE :: bool
  HASH_ADD :: bool
  HASH_UPDATE_INDIRECT :: bool
  HASH_ADD_NEW :: bool
  HASH_ADD_NEXT :: bool
  HASH_LOOKUP :: bool

definition no_flag :: hash_flag where
  "no_flag = \<lparr>HASH_UPDATE = False, HASH_ADD = False, HASH_UPDATE_INDIRECT = False, HASH_ADD_NEW = False,
              HASH_ADD_NEXT = False, HASH_LOOKUP = False\<rparr>"

type_synonym hash_result = "(loc option \<times> exec_globals \<times> hashtable) res"

definition store :: "loc \<Rightarrow> zval \<Rightarrow> exec_globals \<Rightarrow> hashtable \<Rightarrow> exec_globals \<times> hashtable" where
  "store l v eg ht = (case l of
       LData i \<Rightarrow> (eg, ht\<lparr>arData := (arData ht)[i := (arData ht ! i)\<lparr>b_val := v\<rparr>]\<rparr>)
     | LPacked i \<Rightarrow> (eg, ht\<lparr>arPacked := (arPacked ht)[i := v]\<rparr>)
     | LInd a \<Rightarrow> (eg\<lparr>indirect := (indirect eg)(a := v)\<rparr>, ht))"

text \<open>Destroy the old value, copy the new one, return the place.\<close>

definition replace_value :: "loc \<Rightarrow> zval \<Rightarrow> exec_globals \<Rightarrow> hashtable \<Rightarrow> hash_result" where
  "replace_value l v eg ht =
     (case store l v (call_dtor ht (loc_val eg ht l) eg) ht of (eg, ht) \<Rightarrow> Inr (Some l, eg, ht))"

text \<open>What the string variants do when the key is found in bucket \<open>i\<close>.\<close>

definition update_found :: "exec_globals \<Rightarrow> hashtable \<Rightarrow> nat \<Rightarrow> zval \<Rightarrow> hash_flag \<Rightarrow> hash_result" where
  "update_found eg ht i pData flag =
     (if HASH_LOOKUP flag then Inr (Some (LData i), eg, ht)
      else if HASH_ADD flag
      then (if \<not> HASH_UPDATE_INDIRECT flag then Inr (None, eg, ht)
            else case b_val (arData ht ! i) of
                   IS_INDIRECT a \<Rightarrow> (if indirect eg a \<noteq> IS_UNDEF then Inr (None, eg, ht)
                                     else replace_value (LInd a) pData eg ht)
                 | _ \<Rightarrow> Inr (None, eg, ht))
      else (case b_val (arData ht ! i) of
              IS_INDIRECT a \<Rightarrow> replace_value (if HASH_UPDATE_INDIRECT flag then LInd a else LData i) pData eg ht
            | _ \<Rightarrow> replace_value (LData i) pData eg ht))"

text \<open>Taking the next bucket and putting it at the head of its chain.\<close>

definition append_bucket :: "zval \<Rightarrow> u64 \<Rightarrow> zend_string option \<Rightarrow> hashtable \<Rightarrow> hashtable" where
  "append_bucket v h key ht =
     (let idx = nNumUsed ht;
          ht = ht\<lparr>nNumUsed := idx + 1, nNumOfElements := nNumOfElements ht + 1\<rparr>
      in link_bucket idx
           (ht\<lparr>arData := (arData ht)[idx := (arData ht ! idx)\<lparr>b_val := v, b_h := h, b_key := key\<rparr>]\<rparr>))"

definition new_value :: "zval \<Rightarrow> hash_flag \<Rightarrow> zval" where
  "new_value pData flag = (if HASH_LOOKUP flag then IS_NULL else pData)"

section \<open>String keys\<close>

definition add_to_hash :: "exec_globals \<Rightarrow> hashtable \<Rightarrow> zend_string \<Rightarrow> zval \<Rightarrow> hash_flag \<Rightarrow> hash_result" where
  "add_to_hash eg ht key pData flag =
     (let ht' = (if \<not> zs_interned key then ht\<lparr>ht_static_keys := False\<rparr> else ht)
      in Inr (Some (LData (nNumUsed ht)), zend_string_addref key eg,
              append_bucket (new_value pData flag) (ZSTR_H key) (Some key) ht'))"

definition zend_hash_add_or_update_i ::
  "exec_globals \<Rightarrow> hashtable \<Rightarrow> zend_string \<Rightarrow> zval \<Rightarrow> hash_flag \<Rightarrow> hash_result" where
  "zend_hash_add_or_update_i eg ht key pData flag =
     (if ht_uninit ht then add_to_hash eg (zend_hash_real_init_mixed_ex ht) key pData flag
      else if ht_packed ht
      then res_bind (zend_hash_packed_to_hash eg ht) (\<lambda>(eg, ht).
             res_bind (ZEND_HASH_IF_FULL_DO_RESIZE eg ht) (\<lambda>(eg, ht). add_to_hash eg ht key pData flag))
      else res_bind (if \<not> HASH_ADD_NEW flag then zend_hash_find_bucket ht key else Inr None) (\<lambda>p.
             case p of
               Some i \<Rightarrow> update_found eg ht i pData flag
             | None \<Rightarrow> res_bind (ZEND_HASH_IF_FULL_DO_RESIZE eg ht) (\<lambda>(eg, ht). add_to_hash eg ht key pData flag)))"

text \<open>The variant that makes the key from bytes; the key is always a new, counted string.\<close>

definition str_add_to_hash :: "exec_globals \<Rightarrow> hashtable \<Rightarrow> string \<Rightarrow> u64 \<Rightarrow> zval \<Rightarrow> hash_flag \<Rightarrow> hash_result" where
  "str_add_to_hash eg ht str h pData flag =
     (case zend_string_init str eg of (key, eg) \<Rightarrow>
        Inr (Some (LData (nNumUsed ht)), eg,
             append_bucket (new_value pData flag) h (Some key) (ht\<lparr>ht_static_keys := False\<rparr>)))"

definition zend_hash_str_add_or_update_i ::
  "exec_globals \<Rightarrow> hashtable \<Rightarrow> string \<Rightarrow> u64 \<Rightarrow> zval \<Rightarrow> hash_flag \<Rightarrow> hash_result" where
  "zend_hash_str_add_or_update_i eg ht str h pData flag =
     (if ht_uninit ht then str_add_to_hash eg (zend_hash_real_init_mixed_ex ht) str h pData flag
      else if ht_packed ht
      then res_bind (zend_hash_packed_to_hash eg ht) (\<lambda>(eg, ht).
             res_bind (ZEND_HASH_IF_FULL_DO_RESIZE eg ht) (\<lambda>(eg, ht). str_add_to_hash eg ht str h pData flag))
      else res_bind (if \<not> HASH_ADD_NEW flag then zend_hash_str_find_bucket ht str h else Inr None) (\<lambda>p.
             case p of
               Some i \<Rightarrow> update_found eg ht i pData flag
             | None \<Rightarrow> res_bind (ZEND_HASH_IF_FULL_DO_RESIZE eg ht) (\<lambda>(eg, ht). str_add_to_hash eg ht str h pData flag)))"

definition zend_hash_add :: "exec_globals \<Rightarrow> hashtable \<Rightarrow> zend_string \<Rightarrow> zval \<Rightarrow> hash_result" where
  "zend_hash_add eg ht key pData = zend_hash_add_or_update_i eg ht key pData (no_flag\<lparr>HASH_ADD := True\<rparr>)"

definition zend_hash_update :: "exec_globals \<Rightarrow> hashtable \<Rightarrow> zend_string \<Rightarrow> zval \<Rightarrow> hash_result" where
  "zend_hash_update eg ht key pData = zend_hash_add_or_update_i eg ht key pData (no_flag\<lparr>HASH_UPDATE := True\<rparr>)"

definition zend_hash_update_ind :: "exec_globals \<Rightarrow> hashtable \<Rightarrow> zend_string \<Rightarrow> zval \<Rightarrow> hash_result" where
  "zend_hash_update_ind eg ht key pData =
     zend_hash_add_or_update_i eg ht key pData (no_flag\<lparr>HASH_UPDATE := True, HASH_UPDATE_INDIRECT := True\<rparr>)"

definition zend_hash_add_new :: "exec_globals \<Rightarrow> hashtable \<Rightarrow> zend_string \<Rightarrow> zval \<Rightarrow> hash_result" where
  "zend_hash_add_new eg ht key pData = zend_hash_add_or_update_i eg ht key pData (no_flag\<lparr>HASH_ADD_NEW := True\<rparr>)"

definition zend_hash_lookup :: "exec_globals \<Rightarrow> hashtable \<Rightarrow> zend_string \<Rightarrow> hash_result" where
  "zend_hash_lookup eg ht key = zend_hash_add_or_update_i eg ht key IS_NULL (no_flag\<lparr>HASH_LOOKUP := True\<rparr>)"

definition zend_hash_add_or_update :: "exec_globals \<Rightarrow> hashtable \<Rightarrow> zend_string \<Rightarrow> zval \<Rightarrow> hash_flag \<Rightarrow> hash_result" where
  "zend_hash_add_or_update eg ht key pData flag =
     (if flag = no_flag\<lparr>HASH_ADD := True\<rparr> then zend_hash_add eg ht key pData
      else if flag = no_flag\<lparr>HASH_ADD_NEW := True\<rparr> then zend_hash_add_new eg ht key pData
      else if flag = no_flag\<lparr>HASH_UPDATE := True\<rparr> then zend_hash_update eg ht key pData
      else zend_hash_update_ind eg ht key pData)"

definition zend_hash_str_update :: "exec_globals \<Rightarrow> hashtable \<Rightarrow> string \<Rightarrow> zval \<Rightarrow> hash_result" where
  "zend_hash_str_update eg ht str pData =
     zend_hash_str_add_or_update_i eg ht str (zend_inline_hash_func str) pData (no_flag\<lparr>HASH_UPDATE := True\<rparr>)"

definition zend_hash_str_update_ind :: "exec_globals \<Rightarrow> hashtable \<Rightarrow> string \<Rightarrow> zval \<Rightarrow> hash_result" where
  "zend_hash_str_update_ind eg ht str pData =
     zend_hash_str_add_or_update_i eg ht str (zend_inline_hash_func str) pData
       (no_flag\<lparr>HASH_UPDATE := True, HASH_UPDATE_INDIRECT := True\<rparr>)"

definition zend_hash_str_add :: "exec_globals \<Rightarrow> hashtable \<Rightarrow> string \<Rightarrow> zval \<Rightarrow> hash_result" where
  "zend_hash_str_add eg ht str pData =
     zend_hash_str_add_or_update_i eg ht str (zend_inline_hash_func str) pData (no_flag\<lparr>HASH_ADD := True\<rparr>)"

definition zend_hash_str_add_new :: "exec_globals \<Rightarrow> hashtable \<Rightarrow> string \<Rightarrow> zval \<Rightarrow> hash_result" where
  "zend_hash_str_add_new eg ht str pData =
     zend_hash_str_add_or_update_i eg ht str (zend_inline_hash_func str) pData (no_flag\<lparr>HASH_ADD_NEW := True\<rparr>)"

definition zend_hash_str_lookup :: "exec_globals \<Rightarrow> hashtable \<Rightarrow> string \<Rightarrow> hash_result" where
  "zend_hash_str_lookup eg ht str =
     zend_hash_str_add_or_update_i eg ht str (zend_inline_hash_func str) IS_NULL (no_flag\<lparr>HASH_LOOKUP := True\<rparr>)"

definition zend_hash_str_add_or_update :: "exec_globals \<Rightarrow> hashtable \<Rightarrow> string \<Rightarrow> zval \<Rightarrow> hash_flag \<Rightarrow> hash_result" where
  "zend_hash_str_add_or_update eg ht str pData flag =
     (if flag = no_flag\<lparr>HASH_ADD := True\<rparr> then zend_hash_str_add eg ht str pData
      else if flag = no_flag\<lparr>HASH_ADD_NEW := True\<rparr> then zend_hash_str_add_new eg ht str pData
      else if flag = no_flag\<lparr>HASH_UPDATE := True\<rparr> then zend_hash_str_update eg ht str pData
      else zend_hash_str_update_ind eg ht str pData)"

section \<open>Integer keys\<close>

text \<open>The label \<^verbatim>\<open>add_to_packed\<close>, with the incremental initialisation of the cells that are skipped.\<close>

definition add_to_packed :: "exec_globals \<Rightarrow> hashtable \<Rightarrow> u64 \<Rightarrow> zval \<Rightarrow> hash_flag \<Rightarrow> hash_result" where
  "add_to_packed eg ht h pData flag =
     (let n = unat h;
          cells = (if \<not> (HASH_ADD_NEW flag \<and> HASH_ADD_NEXT flag) \<and> n > nNumUsed ht
                   then take (nNumUsed ht) (arPacked ht) @ replicate (n - nNumUsed ht) IS_UNDEF @ drop n (arPacked ht)
                   else arPacked ht)
      in Inr (Some (LPacked n), eg,
              ht\<lparr>arPacked := cells[n := new_value pData flag], nNumUsed := n + 1, nNextFreeElement := of_nat (n + 1),
                 nNumOfElements := nNumOfElements ht + 1\<rparr>))"

definition replace_index :: "exec_globals \<Rightarrow> hashtable \<Rightarrow> loc \<Rightarrow> zval \<Rightarrow> hash_flag \<Rightarrow> hash_result" where
  "replace_index eg ht l pData flag =
     (if HASH_LOOKUP flag then Inr (Some l, eg, ht)
      else if HASH_ADD flag then Inr (None, eg, ht)
      else replace_value l pData eg ht)"

text \<open>The end of the function: a bucket with an integer key, and the next free index.\<close>

definition next_free_after :: "u64 \<Rightarrow> u64 \<Rightarrow> u64" where
  "next_free_after h nxt =
     (if sint h \<ge> sint nxt then (if sint h < sint ZEND_LONG_MAX then h + 1 else ZEND_LONG_MAX) else nxt)"

definition index_add_to_hash :: "exec_globals \<Rightarrow> hashtable \<Rightarrow> u64 \<Rightarrow> zval \<Rightarrow> hash_flag \<Rightarrow> hash_result" where
  "index_add_to_hash eg ht h pData flag =
     Inr (Some (LData (nNumUsed ht)), eg,
          append_bucket (new_value pData flag) h None
            (ht\<lparr>nNextFreeElement := next_free_after h (nNextFreeElement ht)\<rparr>))"

definition zend_hash_index_add_or_update_i ::
  "exec_globals \<Rightarrow> hashtable \<Rightarrow> u64 \<Rightarrow> zval \<Rightarrow> hash_flag \<Rightarrow> hash_result" where
  "zend_hash_index_add_or_update_i eg ht h0 pData flag =
     (let h = (if HASH_ADD_NEXT flag \<and> h0 = ZEND_LONG_MIN then 0 else h0);
          convert_to_hash = (\<lambda>ht. res_bind (zend_hash_packed_to_hash eg ht) (\<lambda>(eg, ht). index_add_to_hash eg ht h pData flag))
      in if ht_packed ht
         then (if \<not> (HASH_ADD_NEW flag \<and> HASH_ADD_NEXT flag) \<and> unat h < nNumUsed ht
               then (if HASH_ADD_NEW flag then convert_to_hash ht
                     else if arPacked ht ! unat h \<noteq> IS_UNDEF then replace_index eg ht (LPacked (unat h)) pData flag
                     else convert_to_hash ht)
               else if unat h < nTableSize ht then add_to_packed eg ht h pData flag
               else if unat (drop_bit 1 h) < nTableSize ht \<and> nTableSize ht div 2 < nNumOfElements ht
               then res_bind (zend_hash_packed_grow ht) (\<lambda>ht. add_to_packed eg ht h pData flag)
               else convert_to_hash (if nNumUsed ht \<ge> nTableSize ht then ht\<lparr>nTableSize := nTableSize ht + nTableSize ht\<rparr> else ht))
         else if ht_uninit ht
         then (if unat h < nTableSize ht then add_to_packed eg (zend_hash_real_init_packed_ex ht) h pData flag
               else index_add_to_hash eg (zend_hash_real_init_mixed_ex ht) h pData flag)
         else res_bind (if \<not> HASH_ADD_NEW flag then zend_hash_index_find_bucket ht h else Inr None) (\<lambda>p.
                case p of
                  Some i \<Rightarrow> replace_index eg ht (LData i) pData flag
                | None \<Rightarrow> res_bind (ZEND_HASH_IF_FULL_DO_RESIZE eg ht) (\<lambda>(eg, ht). index_add_to_hash eg ht h pData flag)))"

definition zend_hash_index_add :: "exec_globals \<Rightarrow> hashtable \<Rightarrow> u64 \<Rightarrow> zval \<Rightarrow> hash_result" where
  "zend_hash_index_add eg ht h pData = zend_hash_index_add_or_update_i eg ht h pData (no_flag\<lparr>HASH_ADD := True\<rparr>)"

definition zend_hash_index_add_new :: "exec_globals \<Rightarrow> hashtable \<Rightarrow> u64 \<Rightarrow> zval \<Rightarrow> hash_result" where
  "zend_hash_index_add_new eg ht h pData =
     zend_hash_index_add_or_update_i eg ht h pData (no_flag\<lparr>HASH_ADD := True, HASH_ADD_NEW := True\<rparr>)"

definition zend_hash_index_update :: "exec_globals \<Rightarrow> hashtable \<Rightarrow> u64 \<Rightarrow> zval \<Rightarrow> hash_result" where
  "zend_hash_index_update eg ht h pData = zend_hash_index_add_or_update_i eg ht h pData (no_flag\<lparr>HASH_UPDATE := True\<rparr>)"

definition zend_hash_next_index_insert :: "exec_globals \<Rightarrow> hashtable \<Rightarrow> zval \<Rightarrow> hash_result" where
  "zend_hash_next_index_insert eg ht pData =
     zend_hash_index_add_or_update_i eg ht (nNextFreeElement ht) pData (no_flag\<lparr>HASH_ADD := True, HASH_ADD_NEXT := True\<rparr>)"

definition zend_hash_next_index_insert_new :: "exec_globals \<Rightarrow> hashtable \<Rightarrow> zval \<Rightarrow> hash_result" where
  "zend_hash_next_index_insert_new eg ht pData =
     zend_hash_index_add_or_update_i eg ht (nNextFreeElement ht) pData
       (no_flag\<lparr>HASH_ADD := True, HASH_ADD_NEW := True, HASH_ADD_NEXT := True\<rparr>)"

definition zend_hash_index_lookup :: "exec_globals \<Rightarrow> hashtable \<Rightarrow> u64 \<Rightarrow> hash_result" where
  "zend_hash_index_lookup eg ht h = zend_hash_index_add_or_update_i eg ht h IS_NULL (no_flag\<lparr>HASH_LOOKUP := True\<rparr>)"

definition zend_hash_index_add_or_update :: "exec_globals \<Rightarrow> hashtable \<Rightarrow> u64 \<Rightarrow> zval \<Rightarrow> hash_flag \<Rightarrow> hash_result" where
  "zend_hash_index_add_or_update eg ht h pData flag =
     (if flag = no_flag\<lparr>HASH_ADD := True\<rparr> then zend_hash_index_add eg ht h pData
      else if flag = no_flag\<lparr>HASH_ADD := True, HASH_ADD_NEW := True\<rparr> then zend_hash_index_add_new eg ht h pData
      else if flag = no_flag\<lparr>HASH_ADD := True, HASH_ADD_NEXT := True\<rparr> then zend_hash_next_index_insert eg ht pData
      else if flag = no_flag\<lparr>HASH_ADD := True, HASH_ADD_NEW := True, HASH_ADD_NEXT := True\<rparr>
      then zend_hash_next_index_insert_new eg ht pData
      else zend_hash_index_update eg ht h pData)"

text \<open>Inserting \<^verbatim>\<open>NULL\<close>.\<close>

definition zend_hash_index_add_empty_element :: "exec_globals \<Rightarrow> hashtable \<Rightarrow> u64 \<Rightarrow> hash_result" where
  "zend_hash_index_add_empty_element eg ht h = zend_hash_index_add eg ht h IS_NULL"

definition zend_hash_add_empty_element :: "exec_globals \<Rightarrow> hashtable \<Rightarrow> zend_string \<Rightarrow> hash_result" where
  "zend_hash_add_empty_element eg ht key = zend_hash_add eg ht key IS_NULL"

definition zend_hash_str_add_empty_element :: "exec_globals \<Rightarrow> hashtable \<Rightarrow> string \<Rightarrow> hash_result" where
  "zend_hash_str_add_empty_element eg ht str = zend_hash_str_add eg ht str IS_NULL"

end
