(* ===== verification/Hash_Insert.thy ===== *)
theory Hash_Insert
  imports Hash_Update
begin

text \<open>
  Insertion refines the association list: on a well-formed table below the size limit an update
  returns the place of the new value in a well-formed table whose entries are those of
  \<open>AList.update\<close> (in place for a key that exists, at the end for a new one), an addition fails without
  effect on an existing key, and appending uses an index that no entry has.
\<close>

section \<open>Appending a bucket\<close>

lemma ht_buckets_fields [simp]:
  "ht_buckets (ht\<lparr>ht_static_keys := b\<rparr>) = ht_buckets ht" "ht_buckets (ht\<lparr>nNextFreeElement := x\<rparr>) = ht_buckets ht"
  "ht_buckets (ht\<lparr>nNumOfElements := n\<rparr>) = ht_buckets ht" "ht_buckets (ht\<lparr>nInternalPointer := n\<rparr>) = ht_buckets ht"
  "ht_buckets (ht\<lparr>ht_empty_ind := b\<rparr>) = ht_buckets ht"
  by (simp_all add: ht_buckets_def)

lemma ht_entries_fields [simp]:
  "ht_entries (ht\<lparr>ht_static_keys := b\<rparr>) = ht_entries ht" "ht_entries (ht\<lparr>nNextFreeElement := x\<rparr>) = ht_entries ht"
  "ht_entries (ht\<lparr>nNumOfElements := n\<rparr>) = ht_entries ht" "ht_entries (ht\<lparr>nInternalPointer := n\<rparr>) = ht_entries ht"
  "ht_entries (ht\<lparr>ht_empty_ind := b\<rparr>) = ht_entries ht"
  by (simp_all add: ht_entries_def)

lemma bucket_ok_weaken: "bucket_ok st nx b \<Longrightarrow> bucket_ok False nx b"
  by (simp add: bucket_ok_def split: option.splits)

lemma content_ok_weaken_static: "content_ok ht \<Longrightarrow> content_ok (ht\<lparr>ht_static_keys := False\<rparr>)"
  by (auto simp: content_ok_def list_all_iff intro: bucket_ok_weaken)

lemma key_in_entries: "i < length bs \<Longrightarrow> live (bs ! i) \<Longrightarrow> bucket_key (bs ! i) \<in> fst ` set (entries bs)"
  by (auto simp: entries_def image_image)

lemma sint_inc: "sint (h :: u64) < sint ZEND_LONG_MAX \<Longrightarrow> sint (h + 1) = sint h + 1"
proof -
  assume "sint h < sint ZEND_LONG_MAX"
  then have "sint h < 2 ^ 63 - 1" by (simp add: sint_ZEND_LONG_MAX)
  moreover have "- (2 ^ 63) \<le> sint h" using sint_ge [of h] by simp
  moreover have "h + 1 = word_of_int (sint h + 1)" by simp
  ultimately show ?thesis
    by (simp only: sint_sbintrunc' signed_take_bit_int_eq_self) (simp add: signed_take_bit_int_eq_self)
qed

lemma next_free_after_mono:
  "sint nxt \<le> sint (next_free_after h nxt)" "sint h < sint (next_free_after h nxt) \<or> next_free_after h nxt = ZEND_LONG_MAX"
proof -
  have top: "sint x \<le> sint ZEND_LONG_MAX" for x :: u64
    using sint_lt [of x] by (simp add: sint_ZEND_LONG_MAX)
  show "sint nxt \<le> sint (next_free_after h nxt)" using sint_inc [of h] top by (simp add: next_free_after_def)
  show "sint h < sint (next_free_after h nxt) \<or> next_free_after h nxt = ZEND_LONG_MAX"
    using sint_inc [of h] by (auto simp: next_free_after_def)
qed

lemma bucket_ok_mono_next:
  "bucket_ok st nx b \<Longrightarrow> sint nx \<le> sint ny \<Longrightarrow> nx = ZEND_LONG_MAX \<longrightarrow> ny = ZEND_LONG_MAX \<Longrightarrow> bucket_ok st ny b"
  by (auto simp: bucket_ok_def split: option.splits)

lemma next_free_after_max: "next_free_after h ZEND_LONG_MAX = ZEND_LONG_MAX"
proof -
  have "sint h \<le> sint ZEND_LONG_MAX" using sint_lt [of h] by (simp add: sint_ZEND_LONG_MAX)
  then show ?thesis by (auto simp: next_free_after_def)
qed

lemma content_ok_next_free:
  "content_ok ht \<Longrightarrow> content_ok (ht\<lparr>nNextFreeElement := next_free_after h (nNextFreeElement ht)\<rparr>)"
  by (auto simp: content_ok_def list_all_iff next_free_after_max
      intro: bucket_ok_mono_next [OF _ next_free_after_mono(1)])

lemma append_bucket_ok:
  assumes sh: "mixed_shape ht" and ch: "chains_ok ht (nNumUsed ht)" and co: "content_ok ht"
    and room: "nNumUsed ht < nTableSize ht" and v: "v \<noteq> IS_UNDEF"
    and ok: "bucket_ok (ht_static_keys ht) (nNextFreeElement ht) \<lparr>b_val = v, b_next = 0, b_h = h, b_key = key\<rparr>"
    and new: "bucket_key \<lparr>b_val = v, b_next = 0, b_h = h, b_key = key\<rparr> \<notin> fst ` set (ht_entries ht)"
  shows "ht_inv (append_bucket v h key ht)"
    "ht_entries (append_bucket v h key ht) =
       ht_entries ht @ [(bucket_key \<lparr>b_val = v, b_next = 0, b_h = h, b_key = key\<rparr>, v)]"
    "b_val (arData (append_bucket v h key ht) ! nNumUsed ht) = v"
    "table_cap (append_bucket v h key ht) = nTableSize ht"
    "mixed_shape (append_bucket v h key ht)"
proof -
  let ?n = "nNumUsed ht" and ?b = "\<lparr>b_val = v, b_next = 0, b_h = h, b_key = key\<rparr>"
  let ?q = "(arData ht ! ?n)\<lparr>b_val := v, b_h := h, b_key := key\<rparr>"
  let ?t = "ht\<lparr>nNumUsed := ?n + 1, nNumOfElements := nNumOfElements ht + 1, arData := (arData ht)[?n := ?q]\<rparr>"
  let ?a = "append_bucket v h key ht"
  have a: "?a = link_bucket ?n ?t" by (simp add: append_bucket_def Let_def)
  have n: "?n < length (arData ht)" using sh room by (simp add: mixed_shape_def)
  have q: "core ?q = core ?b" by (simp add: core_eq_iff)
  have sl: "slots_ok ?t" using slots_ok_mixed [OF sh] by (simp add: slots_ok_def slot_of_def)
  have "chain_of (arData ?t) ?n (slot_of ht) s = chain_of (arData ht) ?n (slot_of ht) s" for s
    by (rule chain_of_cong) simp
  moreover have "linked (arData ?t) x (chain_of (arData ht) ?n (slot_of ht) s)
      = linked (arData ht) x (chain_of (arData ht) ?n (slot_of ht) s)" for x s
    by (rule linked_cong) (auto simp: set_chain_of)
  moreover have "slot_of ?t = slot_of ht" by (rule slot_of_cong) simp_all
  ultimately have "chains_ok ?t ?n" using ch by (simp add: chains_ok_def)
  then have c: "chains_ok ?a (Suc ?n)"
    using n v sl unfolding a by (intro link_bucket_chains) (auto simp: slots_ok_def)
  note rf = rebuilt_frame [OF link_bucket_frame(1) [of ?t ?n], folded a]
  have used: "nNumUsed ?a = Suc ?n" unfolding a by (simp add: link_bucket_frame)
  show sh': "mixed_shape ?a" using sh room rf used by (simp add: mixed_shape_def)
  then show "table_cap ?a = nTableSize ht" using rf(4) by (simp add: table_cap_def mixed_shape_def)
  have core_a: "map core (arData ?a) = (map core (arData ht))[?n := core ?b]"
    unfolding a core_link_bucket by (simp add: map_update q)
  have b: "map core (ht_buckets ?a) = map core (ht_buckets ht @ [?b])"
    using sh sh' n used
    by (simp add: ht_buckets_def mixed_shape_def take_map [symmetric] core_a take_list_update_end)
  have e: "ht_entries ?a = entries (ht_buckets ht @ [?b])"
    unfolding ht_entries_def by (rule entries_core [OF b])
  then show e': "ht_entries ?a = ht_entries ht @ [(bucket_key ?b, v)]"
    using v by (simp add: entries_snoc ht_entries_def)
  have "list_all (bucket_ok (ht_static_keys ht) (nNextFreeElement ht)) (ht_buckets ?a)"
    unfolding list_all_ok_core [OF b] using co ok by (simp add: content_ok_def)
  then have "content_ok ?a" using co new rf e' by (simp add: content_ok_def)
  with sh' c used show "ht_inv ?a" by (simp add: ht_inv_def)
  have "core (arData ?a ! ?n) = core ?b" using core_a n rf(2)
    by (metis length_list_update length_map nth_list_update_eq nth_map)
  then show "b_val (arData ?a ! ?n) = v" by (simp add: core_eq_iff)
qed

section \<open>Replacing a value\<close>

lemma store_data_ok:
  assumes inv: "ht_inv ht" and i: "i < data_used ht" "live (arData ht ! i)" and v: "v \<noteq> IS_UNDEF"
  shows "ht_inv (snd (store (LData i) v eg ht))"
    "ht_entries (snd (store (LData i) v eg ht)) = AList.update (bucket_key (arData ht ! i)) v (ht_entries ht)"
proof -
  let ?b = "(arData ht ! i)\<lparr>b_val := v\<rparr>"
  let ?t = "ht\<lparr>arData := (arData ht)[i := ?b]\<rparr>"
  have m: "\<not> ht_packed ht" "i < nNumUsed ht" using i(1) by (auto simp: data_used_def split: if_splits)
  then have nu: "\<not> ht_uninit ht" using inv ht_inv_uninitD [OF inv] by (auto simp: uninit_shape_def)
  note mm = ht_inv_mixedD [OF inv m(1) nu]
  have l: "i < length (arData ht)" using m(2) mm(1) by (simp add: mixed_shape_def)
  have bt: "ht_buckets ?t = (ht_buckets ht)[i := ?b]" using m by (simp add: ht_buckets_def take_update_swap)
  have bi: "ht_buckets ht ! i = arData ht ! i" "i < length (ht_buckets ht)"
    using m l mm(1) by (auto simp: ht_buckets_def mixed_shape_def)
  have k: "bucket_key ?b = bucket_key (arData ht ! i)" by (simp add: bucket_key_def split: option.splits)
  have d: "distinct (map fst (entries (ht_buckets ht)))" using mm(3) by (simp add: content_ok_def ht_entries_def)
  have e: "ht_entries ?t = AList.update (bucket_key (arData ht ! i)) v (ht_entries ht)"
    using entries_update [OF d bi(2), of ?b] i(2) v k bi(1) by (simp add: ht_entries_def bt)
  have "bucket_ok (ht_static_keys ht) (nNextFreeElement ht) (arData ht ! i)" by (rule data_bucket_ok [OF inv i(1)])
  then have "bucket_ok (ht_static_keys ht) (nNextFreeElement ht) ?b"
    using i(2) v by (auto simp: bucket_ok_def split: option.splits)
  then have "list_all (bucket_ok (ht_static_keys ht) (nNextFreeElement ht)) (ht_buckets ?t)"
    using mm(3) set_update_subset_insert [of "ht_buckets ht" i ?b] by (auto simp: bt content_ok_def list_all_iff)
  moreover have "map fst (ht_entries ?t) = map fst (ht_entries ht)"
  proof -
    have "bucket_key (arData ht ! i) \<in> fst ` set (ht_entries ht)"
      using bi i(2) key_in_entries [OF bi(2)] by (simp add: ht_entries_def)
    then show ?thesis unfolding e by (simp add: update_keys)
  qed
  moreover from this have "length (ht_entries ?t) = length (ht_entries ht)" by (metis length_map)
  ultimately have co: "content_ok ?t" using mm(3) by (simp add: content_ok_def)
  have "chain_of (arData ?t) n (slot_of ht) s = chain_of (arData ht) n (slot_of ht) s" for n s
    using i(2) v l by (intro chain_of_cong) (auto simp: nth_list_update)
  moreover have "linked (arData ?t) x is = linked (arData ht) x is" for x "is"
    using l by (intro linked_cong) (auto simp: nth_list_update)
  ultimately have "chains_ok ?t (nNumUsed ht)" using mm(2) by (simp add: chains_ok_def)
  moreover have "mixed_shape ?t" using mm(1) by (simp add: mixed_shape_def)
  ultimately have "ht_inv ?t" using co by (simp add: ht_inv_def)
  with e show "ht_inv (snd (store (LData i) v eg ht))"
    "ht_entries (snd (store (LData i) v eg ht)) = AList.update (bucket_key (arData ht ! i)) v (ht_entries ht)"
    by (simp_all add: store_def)
qed

lemma store_packed_ok:
  assumes inv: "ht_inv ht" and p: "ht_packed ht" and i: "i < nNumUsed ht" "arPacked ht ! i \<noteq> IS_UNDEF" and v: "v \<noteq> IS_UNDEF"
  shows "ht_inv (snd (store (LPacked i) v eg ht))"
    "ht_entries (snd (store (LPacked i) v eg ht)) = AList.update (IntKey (of_nat i)) v (ht_entries ht)"
proof -
  let ?t = "ht\<lparr>arPacked := (arPacked ht)[i := v]\<rparr>"
  from ht_inv_packedD [OF inv p] have s: "packed_shape ht" and c: "content_ok ht" by auto
  have l: "i < length (arPacked ht)" using s i by (simp add: packed_shape_def)
  have bt: "ht_buckets ?t = (ht_buckets ht)[i := packed_bucket i v]"
    using p i l by (intro nth_equalityI) (auto simp: ht_buckets_def nth_list_update)
  have bi: "ht_buckets ht ! i = packed_bucket i (arPacked ht ! i)" "i < length (ht_buckets ht)"
    using p i by (auto simp: ht_buckets_def)
  have d: "distinct (map fst (entries (ht_buckets ht)))" using c by (simp add: content_ok_def ht_entries_def)
  have e: "ht_entries ?t = AList.update (IntKey (of_nat i)) v (ht_entries ht)"
    using entries_update [OF d bi(2), of "packed_bucket i v"] i(2) v bi(1)
    by (simp add: ht_entries_def bt packed_bucket_def bucket_key_def)
  have "bucket_ok (ht_static_keys ht) (nNextFreeElement ht) (packed_bucket i (arPacked ht ! i))"
    using c bi by (metis content_ok_def list_all_length)
  then have "bucket_ok (ht_static_keys ht) (nNextFreeElement ht) (packed_bucket i v)"
    using i(2) v by (simp add: bucket_ok_def packed_bucket_def)
  then have "list_all (bucket_ok (ht_static_keys ht) (nNextFreeElement ht)) (ht_buckets ?t)"
    using c set_update_subset_insert [of "ht_buckets ht" i "packed_bucket i v"] by (auto simp: bt content_ok_def list_all_iff)
  moreover have "map fst (ht_entries ?t) = map fst (ht_entries ht)"
  proof -
    have "IntKey (of_nat i) \<in> fst ` set (ht_entries ht)"
      using key_in_entries [OF bi(2)] bi(1) i(2) by (simp add: ht_entries_def packed_bucket_def bucket_key_def)
    then show ?thesis unfolding e by (simp add: update_keys)
  qed
  moreover from this have "length (ht_entries ?t) = length (ht_entries ht)" by (metis length_map)
  ultimately have "content_ok ?t" using c by (simp add: content_ok_def)
  moreover have "packed_shape ?t" using s by (simp add: packed_shape_def)
  ultimately have "ht_inv ?t" by (simp add: ht_inv_def)
  with e show "ht_inv (snd (store (LPacked i) v eg ht))"
    "ht_entries (snd (store (LPacked i) v eg ht)) = AList.update (IntKey (of_nat i)) v (ht_entries ht)"
    by (simp_all add: store_def)
qed

section \<open>String keys\<close>

lemma StrKey_bucket: "bucket_key \<lparr>b_val = v, b_next = 0, b_h = h, b_key = Some key\<rparr> = StrKey (zs_val key)"
  "bucket_key \<lparr>b_val = v, b_next = 0, b_h = h, b_key = None\<rparr> = IntKey h"
  by (simp_all add: bucket_key_def)

lemma notin_keys: "map_of es k = None \<Longrightarrow> k \<notin> fst ` set es"
  by (simp add: map_of_eq_None_iff)

lemma ready_size: "ready ht0 ht \<Longrightarrow> nTableSize ht \<le> max (table_cap ht0) (8 + 8 * length (ht_entries ht0))"
  by (auto simp: ready_def)

text \<open>The result of an insertion: a new entry at the end, whose value is at the returned place.\<close>

definition inserts :: "hashtable \<Rightarrow> hkey \<Rightarrow> zval \<Rightarrow> hash_result \<Rightarrow> bool" where
  "inserts ht k v r \<longleftrightarrow> (\<exists>l eg' ht'. r = Inr (Some l, eg', ht') \<and> ht_inv ht' \<and>
     ht_entries ht' = ht_entries ht @ [(k, v)] \<and> loc_val eg' ht' l = v \<and>
     table_cap ht' \<le> max (table_cap ht) (8 * length (ht_entries ht')))"

lemma add_to_hash_ok:
  assumes r: "ready ht0 ht" and v: "new_value pData flag \<noteq> IS_UNDEF"
    and new: "map_of (ht_entries ht0) (StrKey (zs_val key)) = None"
  shows "inserts ht0 (StrKey (zs_val key)) (new_value pData flag) (add_to_hash eg ht key pData flag)"
proof -
  let ?t = "if \<not> zs_interned key then ht\<lparr>ht_static_keys := False\<rparr> else ht"
  have e: "ht_entries ?t = ht_entries ht0" "nNumUsed ?t = nNumUsed ht"
    using r by (simp_all add: ready_def)
  have "mixed_shape ?t" "chains_ok ?t (nNumUsed ?t)" "content_ok ?t" "nNumUsed ?t < nTableSize ?t"
    using r content_ok_weaken_static [of ht] by (auto simp: ready_def mixed_shape_def)
  moreover have "bucket_ok (ht_static_keys ?t) (nNextFreeElement ?t)
      \<lparr>b_val = new_value pData flag, b_next = 0, b_h = ZSTR_H key, b_key = Some key\<rparr>"
    using v by (simp add: bucket_ok_def)
  moreover have "bucket_key \<lparr>b_val = new_value pData flag, b_next = 0, b_h = ZSTR_H key, b_key = Some key\<rparr>
      \<notin> fst ` set (ht_entries ?t)"
    using notin_keys [OF new] e by (simp add: StrKey_bucket)
  ultimately show ?thesis
    using append_bucket_ok(1-4) [of ?t "new_value pData flag" "ZSTR_H key" "Some key"] v e ready_size [OF r]
    unfolding inserts_def add_to_hash_def Let_def
    by (intro exI conjI) (auto simp: StrKey_bucket loc_val_def)
qed

lemma str_add_to_hash_ok:
  assumes r: "ready ht0 ht" and v: "new_value pData flag \<noteq> IS_UNDEF"
    and new: "map_of (ht_entries ht0) (StrKey str) = None"
  shows "inserts ht0 (StrKey str) (new_value pData flag)
    (str_add_to_hash eg ht str (zend_inline_hash_func str) pData flag)"
proof -
  let ?t = "ht\<lparr>ht_static_keys := False\<rparr>" and ?h = "zend_inline_hash_func str"
  let ?k = "fst (zend_string_init str eg)"
  have k: "zs_val ?k = str" by (simp add: zend_string_init_def)
  have e: "ht_entries ?t = ht_entries ht0" "nNumUsed ?t = nNumUsed ht"
    using r by (simp_all add: ready_def)
  have "mixed_shape ?t" "chains_ok ?t (nNumUsed ?t)" "content_ok ?t" "nNumUsed ?t < nTableSize ?t"
    using r content_ok_weaken_static [of ht] by (auto simp: ready_def mixed_shape_def)
  moreover have "bucket_ok (ht_static_keys ?t) (nNextFreeElement ?t)
      \<lparr>b_val = new_value pData flag, b_next = 0, b_h = ?h, b_key = Some ?k\<rparr>"
    using v k by (simp add: bucket_ok_def)
  moreover have "bucket_key \<lparr>b_val = new_value pData flag, b_next = 0, b_h = ?h, b_key = Some ?k\<rparr>
      \<notin> fst ` set (ht_entries ?t)"
    using notin_keys [OF new] e k by (simp add: StrKey_bucket)
  ultimately show ?thesis
    using append_bucket_ok(1-4) [of ?t "new_value pData flag" ?h "Some ?k"] v e k ready_size [OF r]
    unfolding inserts_def str_add_to_hash_def
    by (cases "zend_string_init str eg") (simp add: StrKey_bucket loc_val_def)
qed

lemma inserts_ready:
  "inserts ht1 k v r \<Longrightarrow> ht_entries ht1 = ht_entries ht \<Longrightarrow>
   table_cap ht1 \<le> max (table_cap ht) (8 * length (ht_entries ht)) \<Longrightarrow> inserts ht k v r"
  by (auto simp: inserts_def le_max_iff_disj)

text \<open>Converting a packed table and making room.\<close>

lemma packed_ready:
  assumes inv: "ht_inv ht" and p: "ht_packed ht" and room: "has_room ht"
  shows "\<exists>eg' ht'. res_bind (zend_hash_packed_to_hash eg ht) (\<lambda>(eg, ht).
      res_bind (ZEND_HASH_IF_FULL_DO_RESIZE eg ht) (\<lambda>(eg, ht). f eg ht)) = f eg' ht' \<and> ready ht ht'"
proof -
  from ht_inv_packedD [OF inv p] have s: "packed_shape ht" and c: "content_ok ht" by auto
  obtain eg1 ht1 where 1: "zend_hash_packed_to_hash eg ht = Inr (eg1, ht1)" "rebuilds ht (nTableSize ht) ht1"
    using packed_to_hash_ok [OF p _ c, of eg] s by (auto simp: packed_shape_def)
  have le: "nNumOfElements ht \<le> nNumUsed ht" "nNumUsed ht \<le> nTableSize ht"
    using num_elements_le [OF c] s p by (auto simp: ht_buckets_def packed_shape_def)
  have "has_room ht1" using 1(2) room le by (auto simp: has_room_def rebuilds_def)
  then obtain eg2 ht2 where 2: "ZEND_HASH_IF_FULL_DO_RESIZE eg1 ht1 = Inr (eg2, ht2)" "ready ht1 ht2"
    using if_full_do_resize_ok [of ht1 eg1] 1(2) by (auto simp: rebuilds_def ht_inv_content)
  have "table_cap ht1 \<le> table_cap ht" "ht_entries ht1 = ht_entries ht" using 1(2) p by (auto simp: table_cap_def rebuilds_def mixed_shape_def)
  then have "ready ht ht2" using 2(2) 1(2) by (auto simp: ready_def rebuilds_def le_max_iff_disj)
  with 1 2 show ?thesis by auto
qed

lemma full_ready:
  assumes inv: "ht_inv ht" and p: "\<not> ht_packed ht" "\<not> ht_uninit ht" and room: "has_room ht"
  shows "\<exists>eg' ht'. res_bind (ZEND_HASH_IF_FULL_DO_RESIZE eg ht) (\<lambda>(eg, ht). f eg ht) = f eg' ht' \<and> ready ht ht'"
proof -
  obtain eg' ht' where "ZEND_HASH_IF_FULL_DO_RESIZE eg ht = Inr (eg', ht')" "ready ht ht'"
    using if_full_do_resize_ok [OF ht_inv_mixedD [OF inv p] room, of eg] by blast
  then show ?thesis by (intro exI [of _ eg'] exI [of _ ht']) simp
qed

lemma add_or_update_new:
  assumes inv: "ht_inv ht" and room: "has_room ht" and v: "new_value pData flag \<noteq> IS_UNDEF"
    and new: "map_of (ht_entries ht) (StrKey (zs_val key)) = None"
  shows "inserts ht (StrKey (zs_val key)) (new_value pData flag) (zend_hash_add_or_update_i eg ht key pData flag)"
proof (cases "ht_uninit ht")
  case True
  then show ?thesis
    using add_to_hash_ok [OF real_init_mixed_ok [OF inv True] v new] by (simp add: zend_hash_add_or_update_i_def)
next
  case u: False
  show ?thesis
  proof (cases "ht_packed ht")
    case True
    with packed_ready [OF inv True room, of eg "\<lambda>eg ht. add_to_hash eg ht key pData flag"]
    show ?thesis using add_to_hash_ok [OF _ v new] u by (auto simp: zend_hash_add_or_update_i_def)
  next
    case p: False
    obtain r where r: "zend_hash_find_bucket ht key = Inr r" "hit_key (StrKey (zs_val key)) ht r"
      using find_bucket_ok(1) [OF inv, of key] by blast
    then have "r = None" using hit_key_entries [OF inv p r(2)] new by simp
    moreover obtain eg' ht' where
      "res_bind (ZEND_HASH_IF_FULL_DO_RESIZE eg ht) (\<lambda>(eg, ht). add_to_hash eg ht key pData flag)
        = add_to_hash eg' ht' key pData flag" "ready ht ht'"
      using full_ready [OF inv p u room, of eg "\<lambda>eg ht. add_to_hash eg ht key pData flag"] by blast
    ultimately show ?thesis using add_to_hash_ok [OF _ v new] r(1) u p
      by (simp add: zend_hash_add_or_update_i_def)
  qed
qed

lemma str_add_or_update_new:
  assumes inv: "ht_inv ht" and room: "has_room ht" and v: "new_value pData flag \<noteq> IS_UNDEF"
    and new: "map_of (ht_entries ht) (StrKey str) = None"
  shows "inserts ht (StrKey str) (new_value pData flag)
    (zend_hash_str_add_or_update_i eg ht str (zend_inline_hash_func str) pData flag)"
proof (cases "ht_uninit ht")
  case True
  then show ?thesis
    using str_add_to_hash_ok [OF real_init_mixed_ok [OF inv True] v new] by (simp add: zend_hash_str_add_or_update_i_def)
next
  case u: False
  let ?f = "\<lambda>eg ht. str_add_to_hash eg ht str (zend_inline_hash_func str) pData flag"
  show ?thesis
  proof (cases "ht_packed ht")
    case True
    with packed_ready [OF inv True room, of eg ?f]
    show ?thesis using str_add_to_hash_ok [OF _ v new] u by (auto simp: zend_hash_str_add_or_update_i_def)
  next
    case p: False
    obtain r where r: "zend_hash_str_find_bucket ht str (zend_inline_hash_func str) = Inr r" "hit_key (StrKey str) ht r"
      using find_bucket_ok(2) [OF inv, of str] by blast
    then have "r = None" using hit_key_entries [OF inv p r(2)] new by simp
    moreover obtain eg' ht' where
      "res_bind (ZEND_HASH_IF_FULL_DO_RESIZE eg ht) (\<lambda>(eg, ht). ?f eg ht) = ?f eg' ht'" "ready ht ht'"
      using full_ready [OF inv p u room, of eg ?f] by blast
    ultimately show ?thesis using str_add_to_hash_ok [OF _ v new] r(1) u p
      by (simp add: zend_hash_str_add_or_update_i_def)
  qed
qed

text \<open>A string key that is present is in a bucket of a mixed table, and the search finds it.\<close>

lemma present_mixed:
  assumes inv: "ht_inv ht" and w: "map_of (ht_entries ht) (StrKey s) = Some w"
  shows "\<not> ht_packed ht" "\<not> ht_uninit ht"
  using packed_entries [of ht s] uninit_entries [OF inv] w by auto

lemma found_bucket:
  assumes inv: "ht_inv ht" and p: "\<not> ht_packed ht" and w: "map_of (ht_entries ht) k = Some w" and r: "hit_key k ht r"
  obtains i where "r = Some i" "i < data_used ht" "live (arData ht ! i)" "bucket_key (arData ht ! i) = k"
    "b_val (arData ht ! i) = w"
proof (cases r)
  case None
  then show thesis using hit_key_entries [OF inv p r] w by simp
next
  case (Some i)
  then show thesis using hit_key_entries [OF inv p r] w r by (intro that [of i]) (simp_all add: hit_def)
qed

lemma add_or_update_found:
  assumes inv: "ht_inv ht" and w: "map_of (ht_entries ht) (StrKey (zs_val key)) = Some w" and f: "\<not> HASH_ADD_NEW flag"
  obtains i where "zend_hash_add_or_update_i eg ht key pData flag = update_found eg ht i pData flag"
    "i < data_used ht" "live (arData ht ! i)" "bucket_key (arData ht ! i) = StrKey (zs_val key)" "b_val (arData ht ! i) = w"
proof -
  note m = present_mixed [OF inv w]
  obtain r where r: "zend_hash_find_bucket ht key = Inr r" "hit_key (StrKey (zs_val key)) ht r"
    using find_bucket_ok(1) [OF inv, of key] by blast
  from found_bucket [OF inv m(1) w r(2)] obtain i where i: "r = Some i" "i < data_used ht" "live (arData ht ! i)"
    "bucket_key (arData ht ! i) = StrKey (zs_val key)" "b_val (arData ht ! i) = w" .
  show thesis by (rule that [OF _ i(2-)]) (simp add: zend_hash_add_or_update_i_def m r(1) i(1) f)
qed

lemma str_add_or_update_found:
  assumes inv: "ht_inv ht" and w: "map_of (ht_entries ht) (StrKey str) = Some w" and f: "\<not> HASH_ADD_NEW flag"
  obtains i where "zend_hash_str_add_or_update_i eg ht str (zend_inline_hash_func str) pData flag = update_found eg ht i pData flag"
    "i < data_used ht" "live (arData ht ! i)" "bucket_key (arData ht ! i) = StrKey str" "b_val (arData ht ! i) = w"
proof -
  note m = present_mixed [OF inv w]
  obtain r where r: "zend_hash_str_find_bucket ht str (zend_inline_hash_func str) = Inr r" "hit_key (StrKey str) ht r"
    using find_bucket_ok(2) [OF inv, of str] by blast
  from found_bucket [OF inv m(1) w r(2)] obtain i where i: "r = Some i" "i < data_used ht" "live (arData ht ! i)"
    "bucket_key (arData ht ! i) = StrKey str" "b_val (arData ht ! i) = w" .
  show thesis by (rule that [OF _ i(2-)]) (simp add: zend_hash_str_add_or_update_i_def m r(1) i(1) f)
qed

text \<open>The result of overwriting: the entry keeps its place, the old value is destroyed.\<close>

definition updates :: "exec_globals \<Rightarrow> hashtable \<Rightarrow> hkey \<Rightarrow> zval \<Rightarrow> hash_result \<Rightarrow> bool" where
  "updates eg ht k v r \<longleftrightarrow> (\<exists>l eg' ht'. r = Inr (Some l, eg', ht') \<and> ht_inv ht' \<and>
     ht_entries ht' = AList.update k v (ht_entries ht) \<and> loc_val eg' ht' l = v \<and>
     table_cap ht' \<le> max (table_cap ht) (8 * length (ht_entries ht')) \<and>
     (case map_of (ht_entries ht) k of None \<Rightarrow> True | Some w \<Rightarrow> eg' = call_dtor ht w eg))"

lemma data_used_length: "ht_inv ht \<Longrightarrow> i < data_used ht \<Longrightarrow> i < length (arData ht)"
  using ht_inv_search(4) by fastforce

lemma replace_data_ok:
  assumes inv: "ht_inv ht" and i: "i < data_used ht" "live (arData ht ! i)" "bucket_key (arData ht ! i) = k"
    "b_val (arData ht ! i) = w" and w: "map_of (ht_entries ht) k = Some w" and v: "v \<noteq> IS_UNDEF"
  shows "updates eg ht k v (replace_value (LData i) v eg ht)"
  using store_data_ok [OF inv i(1,2) v, of "call_dtor ht w eg"] i w data_used_length [OF inv i(1)]
  by (simp add: updates_def replace_value_def store_def loc_val_def table_cap_def)

lemma inserts_updates:
  "inserts ht k v r \<Longrightarrow> map_of (ht_entries ht) k = None \<Longrightarrow> updates eg ht k v r"
  by (auto simp: inserts_def updates_def update_new notin_keys)

lemma update_found_plain:
  assumes "\<not> HASH_LOOKUP flag" "\<not> HASH_ADD flag" "\<not> HASH_UPDATE_INDIRECT flag"
  shows "update_found eg ht i v flag = replace_value (LData i) v eg ht"
  using assms by (simp add: update_found_def split: zval.splits)

lemma zend_hash_update_ok:
  assumes inv: "ht_inv ht" and room: "has_room ht" and v: "v \<noteq> IS_UNDEF"
  shows "updates eg ht (StrKey (zs_val key)) v (zend_hash_update eg ht key v)"
proof (cases "map_of (ht_entries ht) (StrKey (zs_val key))")
  case None
  then show ?thesis
    using inserts_updates [OF add_or_update_new [OF inv room _ None, of v "no_flag\<lparr>HASH_UPDATE := True\<rparr>" eg] None] v
    by (simp add: zend_hash_update_def new_value_def no_flag_def)
next
  case (Some w)
  obtain i where i: "zend_hash_add_or_update_i eg ht key v (no_flag\<lparr>HASH_UPDATE := True\<rparr>)
      = update_found eg ht i v (no_flag\<lparr>HASH_UPDATE := True\<rparr>)"
    "i < data_used ht" "live (arData ht ! i)" "bucket_key (arData ht ! i) = StrKey (zs_val key)" "b_val (arData ht ! i) = w"
    using add_or_update_found [OF inv Some, of "no_flag\<lparr>HASH_UPDATE := True\<rparr>" eg v] by (auto simp: no_flag_def)
  then show ?thesis using replace_data_ok [OF inv i(2-5) Some v, of eg]
    by (simp add: zend_hash_update_def update_found_plain no_flag_def)
qed

lemma zend_hash_str_update_ok:
  assumes inv: "ht_inv ht" and room: "has_room ht" and v: "v \<noteq> IS_UNDEF"
  shows "updates eg ht (StrKey str) v (zend_hash_str_update eg ht str v)"
proof (cases "map_of (ht_entries ht) (StrKey str)")
  case None
  then show ?thesis
    using inserts_updates [OF str_add_or_update_new [OF inv room _ None, of v "no_flag\<lparr>HASH_UPDATE := True\<rparr>" eg] None] v
    by (simp add: zend_hash_str_update_def new_value_def no_flag_def)
next
  case (Some w)
  obtain i where i: "zend_hash_str_add_or_update_i eg ht str (zend_inline_hash_func str) v (no_flag\<lparr>HASH_UPDATE := True\<rparr>)
      = update_found eg ht i v (no_flag\<lparr>HASH_UPDATE := True\<rparr>)"
    "i < data_used ht" "live (arData ht ! i)" "bucket_key (arData ht ! i) = StrKey str" "b_val (arData ht ! i) = w"
    using str_add_or_update_found [OF inv Some, of "no_flag\<lparr>HASH_UPDATE := True\<rparr>" eg v] by (auto simp: no_flag_def)
  then show ?thesis using replace_data_ok [OF inv i(2-5) Some v, of eg]
    by (simp add: zend_hash_str_update_def update_found_plain no_flag_def)
qed

text \<open>Adding fails on an existing key and leaves everything as it was.\<close>

lemma zend_hash_add_ok:
  assumes inv: "ht_inv ht" and room: "has_room ht" and v: "v \<noteq> IS_UNDEF"
  shows "case map_of (ht_entries ht) (StrKey (zs_val key)) of
      None \<Rightarrow> inserts ht (StrKey (zs_val key)) v (zend_hash_add eg ht key v)
    | Some w \<Rightarrow> zend_hash_add eg ht key v = Inr (None, eg, ht)"
proof (cases "map_of (ht_entries ht) (StrKey (zs_val key))")
  case None
  then show ?thesis using add_or_update_new [OF inv room _ None, of v "no_flag\<lparr>HASH_ADD := True\<rparr>" eg] v
    by (simp add: zend_hash_add_def new_value_def no_flag_def)
next
  case (Some w)
  show ?thesis
    by (rule add_or_update_found [OF inv Some, of "no_flag\<lparr>HASH_ADD := True\<rparr>" eg v])
      (auto simp: no_flag_def zend_hash_add_def update_found_def Some)
qed

text \<open>Lookup for writing creates a null entry when there is none.\<close>

lemma zend_hash_lookup_ok:
  assumes inv: "ht_inv ht" and room: "has_room ht"
  shows "case map_of (ht_entries ht) (StrKey (zs_val key)) of
      None \<Rightarrow> inserts ht (StrKey (zs_val key)) IS_NULL (zend_hash_lookup eg ht key)
    | Some w \<Rightarrow> (\<exists>l. zend_hash_lookup eg ht key = Inr (Some l, eg, ht) \<and> loc_val eg ht l = w)"
proof (cases "map_of (ht_entries ht) (StrKey (zs_val key))")
  case None
  then show ?thesis using add_or_update_new [OF inv room _ None, of IS_NULL "no_flag\<lparr>HASH_LOOKUP := True\<rparr>" eg]
    by (simp add: zend_hash_lookup_def new_value_def no_flag_def)
next
  case (Some w)
  show ?thesis
    by (rule add_or_update_found [OF inv Some, of "no_flag\<lparr>HASH_LOOKUP := True\<rparr>" eg IS_NULL])
      (auto simp: no_flag_def zend_hash_lookup_def update_found_def Some loc_val_def)
qed

text \<open>Updating through an indirect slot writes the slot and leaves the table alone.\<close>

lemma zend_hash_update_ind_indirect:
  assumes inv: "ht_inv ht" and w: "map_of (ht_entries ht) (StrKey (zs_val key)) = Some (IS_INDIRECT a)"
  shows "zend_hash_update_ind eg ht key v =
    Inr (Some (LInd a), (call_dtor ht (indirect eg a) eg)\<lparr>indirect := (indirect eg)(a := v)\<rparr>, ht)"
  by (rule add_or_update_found [OF inv w, of "no_flag\<lparr>HASH_UPDATE := True, HASH_UPDATE_INDIRECT := True\<rparr>" eg v])
    (auto simp: no_flag_def zend_hash_update_ind_def update_found_def replace_value_def store_def loc_val_def
      call_dtor_def emit_def)

section \<open>Integer keys\<close>

lemma sint_of_nat_small: "n < 2 ^ 63 \<Longrightarrow> sint (of_nat n :: u64) = int n"
proof -
  assume "n < 2 ^ 63"
  then have "int n < 2 ^ 63" by (simp add: nat_less_iff)
  then have "sint (word_of_int (int n) :: u64) = int n"
    by (simp only: sint_sbintrunc') (simp add: signed_take_bit_int_eq_self)
  then show ?thesis by simp
qed

lemma index_add_to_hash_ok:
  assumes r: "ready ht0 ht" and v: "new_value pData flag \<noteq> IS_UNDEF" and new: "map_of (ht_entries ht0) (IntKey h) = None"
  shows "inserts ht0 (IntKey h) (new_value pData flag) (index_add_to_hash eg ht h pData flag)"
proof -
  let ?t = "ht\<lparr>nNextFreeElement := next_free_after h (nNextFreeElement ht)\<rparr>"
  have e: "ht_entries ?t = ht_entries ht0" "nNumUsed ?t = nNumUsed ht" using r by (simp_all add: ready_def)
  have "mixed_shape ?t" "chains_ok ?t (nNumUsed ?t)" "content_ok ?t" "nNumUsed ?t < nTableSize ?t"
    using r content_ok_next_free [of ht] by (auto simp: ready_def mixed_shape_def)
  moreover have "bucket_ok (ht_static_keys ?t) (nNextFreeElement ?t)
      \<lparr>b_val = new_value pData flag, b_next = 0, b_h = h, b_key = None\<rparr>"
    using next_free_after_mono(2) [of h "nNextFreeElement ht"] by (auto simp: bucket_ok_def)
  moreover have "bucket_key \<lparr>b_val = new_value pData flag, b_next = 0, b_h = h, b_key = None\<rparr> \<notin> fst ` set (ht_entries ?t)"
    using notin_keys [OF new] e by (simp add: StrKey_bucket)
  ultimately show ?thesis
    using append_bucket_ok(1-4) [of ?t "new_value pData flag" h None] v e ready_size [OF r]
    unfolding inserts_def index_add_to_hash_def
    by (intro exI conjI) (auto simp: StrKey_bucket loc_val_def)
qed

lemma add_to_packed_ok:
  assumes inv: "ht_inv ht" and p: "ht_packed ht" and h: "nNumUsed ht \<le> unat h" "unat h < nTableSize ht"
    and v: "new_value pData flag \<noteq> IS_UNDEF"
    and f: "HASH_ADD_NEW flag \<and> HASH_ADD_NEXT flag \<Longrightarrow> unat h = nNumUsed ht"
  shows "inserts ht (IntKey h) (new_value pData flag) (add_to_packed eg ht h pData flag)"
proof -
  let ?n = "unat h" and ?u = "nNumUsed ht" and ?v = "new_value pData flag"
  from ht_inv_packedD [OF inv p] have s: "packed_shape ht" and c: "content_ok ht" by auto
  define cells where "cells = (if \<not> (HASH_ADD_NEW flag \<and> HASH_ADD_NEXT flag) \<and> ?n > ?u
    then take ?u (arPacked ht) @ replicate (?n - ?u) IS_UNDEF @ drop ?n (arPacked ht) else arPacked ht)"
  let ?t = "ht\<lparr>arPacked := cells[?n := ?v], nNumUsed := ?n + 1, nNextFreeElement := of_nat (?n + 1),
                 nNumOfElements := nNumOfElements ht + 1\<rparr>"
  have r: "add_to_packed eg ht h pData flag = Inr (Some (LPacked ?n), eg, ?t)"
    by (simp add: add_to_packed_def Let_def cells_def)
  have l: "length (arPacked ht) = nTableSize ht" "?u \<le> nTableSize ht" using s by (auto simp: packed_shape_def)
  have lc: "length cells = nTableSize ht" using l h by (auto simp: cells_def)
  have nth: "cells[?n := ?v] ! i = (if i < ?u then arPacked ht ! i else if i = ?n then ?v else IS_UNDEF)" if "i \<le> ?n" for i
  proof (cases "i = ?n")
    case True
    then show ?thesis using lc h by simp
  next
    case False
    show ?thesis
    proof (cases "?n = ?u")
      case True
      then show ?thesis using that False by (simp add: cells_def)
    next
      case far: False
      then have "cells = take ?u (arPacked ht) @ replicate (?n - ?u) IS_UNDEF @ drop ?n (arPacked ht)"
        using f h(1) by (auto simp: cells_def)
      moreover have "i - ?u < ?n - ?u" if "\<not> i < ?u" using that \<open>i \<le> ?n\<close> False far h by linarith
      ultimately show ?thesis using that False l far h by (cases "i < ?u") (simp_all add: nth_append)
    qed
  qed
  have b: "ht_buckets ?t = ht_buckets ht @ map (\<lambda>i. packed_bucket i IS_UNDEF) [?u ..< ?n] @ [packed_bucket ?n ?v]"
  proof -
    have "[0 ..< ?n + 1] = [0 ..< ?u] @ [?u ..< ?n] @ [?n]" using h upt_add_eq_append [of 0 ?u "?n - ?u"] by simp
    moreover have "ht_buckets ?t = map (\<lambda>i. packed_bucket i (cells[?n := ?v] ! i)) [0 ..< ?n + 1]"
      using p by (simp add: ht_buckets_def)
    moreover have "\<dots> = map (\<lambda>i. packed_bucket i (if i < ?u then arPacked ht ! i else if i = ?n then ?v else IS_UNDEF)) [0 ..< ?n + 1]"
      by (rule map_cong [OF refl], subst nth) auto
    ultimately show ?thesis using p h by (simp add: ht_buckets_def)
  qed
  have "entries (map (\<lambda>i. packed_bucket i IS_UNDEF) [?u ..< ?n]) = []"
    by (simp add: entries_def filter_map packed_bucket_def comp_def)
  moreover have "entries [packed_bucket ?n ?v] = [(IntKey h, ?v)]"
    using v by (simp add: entries_def packed_bucket_def bucket_key_def)
  ultimately have e: "ht_entries ?t = ht_entries ht @ [(IntKey h, ?v)]"
    unfolding ht_entries_def b entries_append by simp
  have small: "i < 2 ^ 63" if "i \<le> ?n + 1" for i
    using that h(2) size_ok_bounds(2) [OF ht_inv_size_ok [OF inv]] by (simp add: HT_MAX_SIZE_def)
  have ok: "bucket_ok True (of_nat (?n + 1)) (packed_bucket i w)" if "i \<le> ?n" for i w
  proof -
    have "sint (of_nat i :: u64) = int i" "sint (of_nat (?n + 1) :: u64) = int (?n + 1)"
      using that small [of i] small [of "?n + 1"] by (intro sint_of_nat_small; simp)+
    then have "sint (of_nat i :: u64) < sint (of_nat (?n + 1) :: u64)" using that by linarith
    then show ?thesis by (simp add: bucket_ok_def packed_bucket_def)
  qed
  have "list_all (bucket_ok True (of_nat (?n + 1))) (ht_buckets ?t)"
    using p ok by (auto simp: ht_buckets_def list_all_iff)
  moreover have "IntKey h \<notin> fst ` set (ht_entries ht)"
    using packed_index_entries [OF inv p, of h] h(1) by (intro notin_keys) simp
  ultimately have "content_ok ?t" using c e s by (simp add: content_ok_def packed_shape_def)
  moreover have "packed_shape ?t" using s lc h by (simp add: packed_shape_def)
  ultimately have "ht_inv ?t" by (simp add: ht_inv_def)
  moreover have "loc_val eg ?t (LPacked ?n) = ?v" using lc h by (simp add: loc_val_def)
  moreover have "table_cap ?t \<le> max (table_cap ht) (8 * length (ht_entries ?t))" by (auto simp: table_cap_def)
  ultimately show ?thesis using e r unfolding inserts_def by blast
qed

lemma convert_ready:
  assumes "ht_packed ht" "\<not> ht_uninit ht" "content_ok ht" "size_ok (nTableSize ht)" "nNumUsed ht \<le> nTableSize ht"
    "nNumOfElements ht < nTableSize ht"
  shows "\<exists>eg' ht'. res_bind (zend_hash_packed_to_hash eg ht) (\<lambda>(eg, ht). f eg ht) = f eg' ht' \<and> ready ht ht' \<and>
    nTableSize ht' = nTableSize ht"
proof -
  obtain eg' ht' where r: "zend_hash_packed_to_hash eg ht = Inr (eg', ht')" "rebuilds ht (nTableSize ht) ht'"
    using packed_to_hash_ok [OF assms(1-5)] by blast
  moreover have "ready ht ht'" using r(2) assms(1,6) by (intro rebuilds_ready) (auto simp: rebuilds_def table_cap_def)
  moreover have "nTableSize ht' = nTableSize ht" using r(2) by (simp add: rebuilds_def)
  ultimately show ?thesis by (intro exI [of _ eg'] exI [of _ ht']) simp
qed

lemma hole_not_full:
  assumes "content_ok ht" "ht_packed ht" "i < nNumUsed ht" "arPacked ht ! i = IS_UNDEF"
  shows "nNumOfElements ht < nNumUsed ht"
proof -
  have "i < length (ht_buckets ht)" "\<not> live (ht_buckets ht ! i)"
    using assms by (simp_all add: ht_buckets_def packed_bucket_def)
  then have "length (filter live (ht_buckets ht)) < length (ht_buckets ht)" by (intro length_filter_less [OF nth_mem])
  then show ?thesis using assms by (simp add: content_ok_def ht_entries_def length_entries ht_buckets_def)
qed

definition effective_index :: "hash_flag \<Rightarrow> u64 \<Rightarrow> u64" where
  "effective_index flag h = (if HASH_ADD_NEXT flag \<and> h = ZEND_LONG_MIN then 0 else h)"

lemma real_init_packed_inserts:
  assumes inv: "ht_inv ht" and u: "ht_uninit ht" and h: "unat h < nTableSize ht" and v: "new_value pData flag \<noteq> IS_UNDEF"
    and f: "HASH_ADD_NEW flag \<and> HASH_ADD_NEXT flag \<Longrightarrow> unat h = nNumUsed ht"
  shows "inserts ht (IntKey h) (new_value pData flag) (add_to_packed eg (zend_hash_real_init_packed_ex ht) h pData flag)"
proof -
  let ?t = "zend_hash_real_init_packed_ex ht"
  have t: "ht_packed ?t" "nNumUsed ?t = nNumUsed ht" "nTableSize ?t = nTableSize ht" "table_cap ?t = table_cap ht"
    using u by (simp_all add: zend_hash_real_init_packed_ex_def HT_HASH_RESET_PACKED_def table_cap_def)
  have "nNumUsed ?t \<le> unat h" using uninit_entries [OF inv u] t by simp
  then show ?thesis
    using add_to_packed_ok [OF real_init_packed_ok(1) [OF inv u] t(1) _ _ v, of h] h f t
      real_init_packed_ok(2) [OF inv u] uninit_entries [OF inv u] inserts_ready [of ?t _ _ _ ht] by auto
qed

lemma index_packed_new:
  assumes inv: "ht_inv ht" and p: "ht_packed ht" and size: "nTableSize ht < HT_MAX_SIZE"
    and v: "new_value pData flag \<noteq> IS_UNDEF" and h: "h = effective_index flag h0"
    and new: "map_of (ht_entries ht) (IntKey h) = None"
    and f: "HASH_ADD_NEW flag \<and> HASH_ADD_NEXT flag \<Longrightarrow> unat h = nNumUsed ht"
  shows "inserts ht (IntKey h) (new_value pData flag) (zend_hash_index_add_or_update_i eg ht h0 pData flag)"
proof -
  let ?f = "\<lambda>eg ht. index_add_to_hash eg ht h pData flag"
  have h': "(if HASH_ADD_NEXT flag \<and> h0 = ZEND_LONG_MIN then 0 else h0) = h" by (simp add: h effective_index_def)
  from ht_inv_packedD [OF inv p] have s: "packed_shape ht" and c: "content_ok ht" by auto
  have sz: "size_ok (nTableSize ht)" "\<not> ht_uninit ht" "nNumUsed ht \<le> nTableSize ht" using s by (auto simp: packed_shape_def)
  have hole: "arPacked ht ! unat h = IS_UNDEF" if "unat h < nNumUsed ht"
    using new packed_index_entries [OF inv p, of h] that by (simp split: if_splits)
  consider (convert) "\<not> (HASH_ADD_NEW flag \<and> HASH_ADD_NEXT flag)" "unat h < nNumUsed ht"
    | (fits) "nNumUsed ht \<le> unat h" "unat h < nTableSize ht"
    | (grow) "nTableSize ht \<le> unat h" "unat (drop_bit 1 h) < nTableSize ht" "nTableSize ht div 2 < nNumOfElements ht"
    | (far) "nTableSize ht \<le> unat h" "\<not> (unat (drop_bit 1 h) < nTableSize ht \<and> nTableSize ht div 2 < nNumOfElements ht)"
    using f sz(3) by linarith
  then show ?thesis
  proof cases
    case convert
    have "nNumOfElements ht < nTableSize ht" using hole_not_full [OF c p convert(2) hole [OF convert(2)]] sz(3) by simp
    then obtain eg' ht' where "res_bind (zend_hash_packed_to_hash eg ht) (\<lambda>(eg, ht). ?f eg ht) = ?f eg' ht'" "ready ht ht'"
      using convert_ready [OF p sz(2) c sz(1,3), of eg ?f] by blast
    then show ?thesis using index_add_to_hash_ok [OF _ v new] convert p hole
      by (simp add: zend_hash_index_add_or_update_i_def Let_def h')
  next
    case fits
    then show ?thesis using add_to_packed_ok [OF inv p fits v] f p
      by (simp add: zend_hash_index_add_or_update_i_def Let_def h')
  next
    case grow
    obtain ht' where g: "zend_hash_packed_grow ht = Inr ht'" "ht_inv ht'" "ht_buckets ht' = ht_buckets ht"
      "ht' = ht\<lparr>arPacked := arPacked ht', nTableSize := 2 * nTableSize ht\<rparr>"
      using packed_grow_ok [OF inv p size] by blast
    have g4: "ht_packed ht'" "nNumUsed ht' = nNumUsed ht" "nTableSize ht' = 2 * nTableSize ht"
      by (subst g(4), simp add: p)+
    have "unat h < nTableSize ht'" using grow(2) g4(3) by (simp add: drop_bit_eq_div unat_div_distrib)
    moreover have "nNumUsed ht' \<le> unat h" using sz(3) grow(1) g4(2) by simp
    ultimately have "inserts ht' (IntKey h) (new_value pData flag) (add_to_packed eg ht' h pData flag)"
      using add_to_packed_ok [OF g(2) g4(1) _ _ v] f g4(2) by simp
    then have "inserts ht (IntKey h) (new_value pData flag) (add_to_packed eg ht' h pData flag)"
    proof (rule inserts_ready)
      show "table_cap ht' \<le> max (table_cap ht) (8 * length (ht_entries ht))"
        using grow(3) c g4(1,3) by (auto simp: table_cap_def content_ok_def le_max_iff_disj)
    qed (simp add: ht_entries_def g(3))
    then show ?thesis using grow g(1) p sz(3)
      by (simp add: zend_hash_index_add_or_update_i_def Let_def h')
  next
    case far
    define t where "t = (if nNumUsed ht \<ge> nTableSize ht then ht\<lparr>nTableSize := nTableSize ht + nTableSize ht\<rparr> else ht)"
    have b: "ht_buckets t = ht_buckets ht" by (simp add: ht_buckets_def t_def)
    have tp: "ht_packed t" "\<not> ht_uninit t" using p sz(2) by (simp_all add: t_def)
    have ct: "content_ok t" using b by (intro content_ok_buckets [OF c]) (simp_all add: t_def)
    have st: "size_ok (nTableSize t)" using sz(1) size size_ok_double by (simp add: t_def)
    have "nNumOfElements ht \<le> nNumUsed ht" using num_elements_le [OF c] p by (simp add: ht_buckets_def)
    then have "nNumUsed t \<le> nTableSize t" "nNumOfElements t < nTableSize t"
      using sz(3) size_ok_bounds(1) [OF sz(1)] by (auto simp: t_def)
    then obtain eg' ht' where
      "res_bind (zend_hash_packed_to_hash eg t) (\<lambda>(eg, ht). ?f eg ht) = ?f eg' ht'" "ready t ht'" "nTableSize ht' = nTableSize t"
      using convert_ready [OF tp ct st, of eg ?f] by blast
    moreover from this have "ready ht ht'"
      using b p by (auto simp: ready_def ht_entries_def t_def table_cap_def split: if_splits)
    moreover have "zend_hash_index_add_or_update_i eg ht h0 pData flag
        = res_bind (zend_hash_packed_to_hash eg t) (\<lambda>(eg, ht). ?f eg ht)"
      using far p sz(3) by (auto simp: zend_hash_index_add_or_update_i_def Let_def h' t_def)
    ultimately show ?thesis using index_add_to_hash_ok [OF _ v new] by simp
  qed
qed

lemma index_add_or_update_new:
  assumes inv: "ht_inv ht" and size: "nTableSize ht < HT_MAX_SIZE"
    and v: "new_value pData flag \<noteq> IS_UNDEF" and h: "h = effective_index flag h0"
    and new: "map_of (ht_entries ht) (IntKey h) = None"
    and f: "HASH_ADD_NEW flag \<and> HASH_ADD_NEXT flag \<Longrightarrow> ht_packed ht \<or> ht_uninit ht \<Longrightarrow> unat h = nNumUsed ht"
  shows "inserts ht (IntKey h) (new_value pData flag) (zend_hash_index_add_or_update_i eg ht h0 pData flag)"
proof (cases "ht_packed ht")
  case True
  then show ?thesis using index_packed_new [OF inv True size v h new] f by blast
next
  case p: False
  have h': "(if HASH_ADD_NEXT flag \<and> h0 = ZEND_LONG_MIN then 0 else h0) = h" by (simp add: h effective_index_def)
  show ?thesis
  proof (cases "ht_uninit ht")
    case u: True
    then show ?thesis
      using real_init_packed_inserts [OF inv u _ v, of h] f index_add_to_hash_ok [OF real_init_mixed_ok [OF inv u] v new] p
      by (simp add: zend_hash_index_add_or_update_i_def Let_def h')
  next
    case u: False
    let ?f = "\<lambda>eg ht. index_add_to_hash eg ht h pData flag"
    obtain r where r: "zend_hash_index_find_bucket ht h = Inr r" "hit_key (IntKey h) ht r"
      using find_bucket_ok(3) [OF inv, of h] by blast
    then have "r = None" using hit_key_entries [OF inv p r(2)] new by simp
    moreover obtain eg' ht' where
      "res_bind (ZEND_HASH_IF_FULL_DO_RESIZE eg ht) (\<lambda>(eg, ht). ?f eg ht) = ?f eg' ht'" "ready ht ht'"
      using full_ready [OF inv p u, of eg ?f] size by (auto simp: has_room_def)
    ultimately show ?thesis using index_add_to_hash_ok [OF _ v new] r(1) u p
      by (simp add: zend_hash_index_add_or_update_i_def Let_def h')
  qed
qed

lemma index_add_or_update_found:
  assumes inv: "ht_inv ht" and w: "map_of (ht_entries ht) (IntKey h) = Some w" and h: "h = effective_index flag h0"
    and f: "\<not> HASH_ADD_NEW flag"
  obtains l where "zend_hash_index_add_or_update_i eg ht h0 pData flag = replace_index eg ht l pData flag"
    "loc_val eg ht l = w" "\<And>v. v \<noteq> IS_UNDEF \<Longrightarrow> updates eg ht (IntKey h) v (replace_value l v eg ht)"
proof -
  have h': "(if HASH_ADD_NEXT flag \<and> h0 = ZEND_LONG_MIN then 0 else h0) = h" by (simp add: h effective_index_def)
  have u: "\<not> ht_uninit ht" using uninit_entries [OF inv] w by auto
  show thesis
  proof (cases "ht_packed ht")
    case p: True
    with packed_index_entries [OF inv p, of h] w have i: "unat h < nNumUsed ht" "arPacked ht ! unat h \<noteq> IS_UNDEF"
      "arPacked ht ! unat h = w" by (auto split: if_splits)
    have l: "unat h < length (arPacked ht)" using ht_inv_packedD [OF inv p] i(1) by (auto simp: packed_shape_def)
    show thesis
    proof (rule that [of "LPacked (unat h)"])
      show "zend_hash_index_add_or_update_i eg ht h0 pData flag = replace_index eg ht (LPacked (unat h)) pData flag"
        using p i f by (simp add: zend_hash_index_add_or_update_i_def Let_def h')
      fix v :: zval assume "v \<noteq> IS_UNDEF"
      from store_packed_ok [OF inv p i(1,2) this, of "call_dtor ht w eg"] i(3) w l
      show "updates eg ht (IntKey h) v (replace_value (LPacked (unat h)) v eg ht)"
        by (simp add: updates_def replace_value_def store_def loc_val_def table_cap_def)
    qed (simp add: loc_val_def i)
  next
    case p: False
    obtain r where r: "zend_hash_index_find_bucket ht h = Inr r" "hit_key (IntKey h) ht r"
      using find_bucket_ok(3) [OF inv, of h] by blast
    from found_bucket [OF inv p w r(2)] obtain i where i: "r = Some i" "i < data_used ht" "live (arData ht ! i)"
      "bucket_key (arData ht ! i) = IntKey h" "b_val (arData ht ! i) = w" .
    show thesis
    proof (rule that [of "LData i"])
      show "zend_hash_index_add_or_update_i eg ht h0 pData flag = replace_index eg ht (LData i) pData flag"
        using p u f r(1) i(1) by (simp add: zend_hash_index_add_or_update_i_def Let_def h')
      show "updates eg ht (IntKey h) v (replace_value (LData i) v eg ht)" if "v \<noteq> IS_UNDEF" for v
        by (rule replace_data_ok [OF inv i(2-5) w that])
    qed (simp add: loc_val_def i)
  qed
qed

lemma zend_hash_index_update_ok:
  assumes inv: "ht_inv ht" and size: "nTableSize ht < HT_MAX_SIZE" and v: "v \<noteq> IS_UNDEF"
  shows "updates eg ht (IntKey h) v (zend_hash_index_update eg ht h v)"
proof (cases "map_of (ht_entries ht) (IntKey h)")
  case None
  have "inserts ht (IntKey h) v (zend_hash_index_update eg ht h v)"
    using index_add_or_update_new [OF inv size, of v "no_flag\<lparr>HASH_UPDATE := True\<rparr>" h h eg] v None
    by (simp add: zend_hash_index_update_def new_value_def no_flag_def effective_index_def)
  then show ?thesis using inserts_updates None by blast
next
  case (Some w)
  then show ?thesis
    by (rule index_add_or_update_found [OF inv, of h w "no_flag\<lparr>HASH_UPDATE := True\<rparr>" h eg v])
      (auto simp: zend_hash_index_update_def no_flag_def effective_index_def replace_index_def v)
qed

lemma zend_hash_index_add_ok:
  assumes inv: "ht_inv ht" and size: "nTableSize ht < HT_MAX_SIZE" and v: "v \<noteq> IS_UNDEF"
  shows "case map_of (ht_entries ht) (IntKey h) of
      None \<Rightarrow> inserts ht (IntKey h) v (zend_hash_index_add eg ht h v)
    | Some w \<Rightarrow> zend_hash_index_add eg ht h v = Inr (None, eg, ht)"
proof (cases "map_of (ht_entries ht) (IntKey h)")
  case None
  then show ?thesis
    using index_add_or_update_new [OF inv size, of v "no_flag\<lparr>HASH_ADD := True\<rparr>" h h eg] v
    by (simp add: zend_hash_index_add_def new_value_def no_flag_def effective_index_def)
next
  case (Some w)
  then show ?thesis
    by - (rule index_add_or_update_found [OF inv Some, of "no_flag\<lparr>HASH_ADD := True\<rparr>" h eg v],
      auto simp: zend_hash_index_add_def no_flag_def effective_index_def replace_index_def)
qed

text \<open>
  The next index is free unless the counter is stuck at the largest integer, so appending
  never overwrites.
\<close>

definition next_index :: "hashtable \<Rightarrow> u64" where
  "next_index ht = (if nNextFreeElement ht = ZEND_LONG_MIN then 0 else nNextFreeElement ht)"

lemma next_index_free:
  assumes inv: "ht_inv ht" and m: "nNextFreeElement ht \<noteq> ZEND_LONG_MAX"
  shows "map_of (ht_entries ht) (IntKey (next_index ht)) = None"
proof -
  have "bucket_key b \<noteq> IntKey (next_index ht)" if b: "b \<in> set (ht_buckets ht)" "live b" for b
  proof
    assume k: "bucket_key b = IntKey (next_index ht)"
    then have kn: "b_key b = None" "b_h b = next_index ht" by (auto simp: bucket_key_def split: option.splits)
    have "bucket_ok (ht_static_keys ht) (nNextFreeElement ht) b"
      using ht_inv_content [OF inv] b(1) by (simp add: content_ok_def list_all_iff)
    then have "sint (next_index ht) < sint (nNextFreeElement ht)" using kn b(2) m by (simp add: bucket_ok_def)
    then show False by (auto simp: next_index_def sint_ZEND_LONG_MIN split: if_splits)
  qed
  then show ?thesis by (auto simp: ht_entries_def map_of_entries_None)
qed

lemma zend_hash_next_index_insert_ok:
  assumes inv: "ht_inv ht" and size: "nTableSize ht < HT_MAX_SIZE" and v: "v \<noteq> IS_UNDEF"
    and m: "nNextFreeElement ht \<noteq> ZEND_LONG_MAX"
  shows "inserts ht (IntKey (next_index ht)) v (zend_hash_next_index_insert eg ht v)"
  using index_add_or_update_new [OF inv size, of v "no_flag\<lparr>HASH_ADD := True, HASH_ADD_NEXT := True\<rparr>"
      "next_index ht" "nNextFreeElement ht" eg] v next_index_free [OF inv m]
  by (simp add: zend_hash_next_index_insert_def new_value_def no_flag_def effective_index_def next_index_def)

text \<open>The \<^verbatim>\<open>_new\<close> variant does not clear skipped cells: it needs the next index to be the end of the used part.\<close>

lemma zend_hash_next_index_insert_new_ok:
  assumes inv: "ht_inv ht" and size: "nTableSize ht < HT_MAX_SIZE" and v: "v \<noteq> IS_UNDEF"
    and m: "nNextFreeElement ht \<noteq> ZEND_LONG_MAX"
    and e: "ht_packed ht \<or> ht_uninit ht \<Longrightarrow> unat (next_index ht) = nNumUsed ht"
  shows "inserts ht (IntKey (next_index ht)) v (zend_hash_next_index_insert_new eg ht v)"
  using index_add_or_update_new [OF inv size, of v "no_flag\<lparr>HASH_ADD := True, HASH_ADD_NEW := True, HASH_ADD_NEXT := True\<rparr>"
      "next_index ht" "nNextFreeElement ht" eg] v next_index_free [OF inv m] e
  by (simp add: zend_hash_next_index_insert_new_def new_value_def no_flag_def effective_index_def next_index_def)

lemma zend_hash_index_lookup_ok:
  assumes inv: "ht_inv ht" and size: "nTableSize ht < HT_MAX_SIZE"
  shows "case map_of (ht_entries ht) (IntKey h) of
      None \<Rightarrow> inserts ht (IntKey h) IS_NULL (zend_hash_index_lookup eg ht h)
    | Some w \<Rightarrow> (\<exists>l. zend_hash_index_lookup eg ht h = Inr (Some l, eg, ht) \<and> loc_val eg ht l = w)"
proof (cases "map_of (ht_entries ht) (IntKey h)")
  case None
  then show ?thesis
    using index_add_or_update_new [OF inv size, of IS_NULL "no_flag\<lparr>HASH_LOOKUP := True\<rparr>" h h eg]
    by (simp add: zend_hash_index_lookup_def new_value_def no_flag_def effective_index_def)
next
  case (Some w)
  then show ?thesis
    by - (rule index_add_or_update_found [OF inv Some, of "no_flag\<lparr>HASH_LOOKUP := True\<rparr>" h eg IS_NULL],
      auto simp: zend_hash_index_lookup_def no_flag_def effective_index_def replace_index_def)
qed

end
