(* ===== verification/Hash_Delete.thy ===== *)
theory Hash_Delete
  imports Hash_Insert
begin

text \<open>
  Deletion (\<^verbatim>\<open>zend_hash_del\<close> and its relatives).  A deleted bucket stays in place as a hole; when it
  is the last used one the used part shrinks to the last live bucket.
\<close>

section \<open>Operations\<close>

text \<open>\<^verbatim>\<open>do { nNumUsed--; } while (nNumUsed > 0 && cell[nNumUsed-1] is undefined)\<close>\<close>

fun trim_used :: "(nat \<Rightarrow> bool) \<Rightarrow> nat \<Rightarrow> nat" where
  "trim_used dead 0 = 0"
| "trim_used dead (Suc n) = (if dead n then trim_used dead n else Suc n)"

definition shrink_used :: "(nat \<Rightarrow> bool) \<Rightarrow> nat \<Rightarrow> exec_globals \<Rightarrow> hashtable \<Rightarrow> exec_globals \<times> hashtable" where
  "shrink_used dead idx eg ht =
     (if nNumUsed ht \<noteq> 0 \<and> nNumUsed ht - 1 = idx
      then (let n = trim_used dead (nNumUsed ht - 1);
                ht = ht\<lparr>nNumUsed := n, nInternalPointer := min (nInternalPointer ht) n\<rparr>
            in (zend_hash_iterators_clamp_max ht n eg, ht))
      else (eg, ht))"

definition zend_hash_packed_del_val' :: "exec_globals \<Rightarrow> hashtable \<Rightarrow> nat \<Rightarrow> exec_globals \<times> hashtable" where
  "zend_hash_packed_del_val' eg ht idx =
     (let zv = arPacked ht ! idx;
          (eg, ht) = shrink_used (\<lambda>i. arPacked ht ! i = IS_UNDEF) idx eg (ht\<lparr>nNumOfElements := nNumOfElements ht - 1\<rparr>);
          ht = ht\<lparr>arPacked := (arPacked ht)[idx := IS_UNDEF]\<rparr>
      in (call_dtor ht zv eg, ht))"

definition zend_hash_del_el_ex ::
  "exec_globals \<Rightarrow> hashtable \<Rightarrow> nat \<Rightarrow> nat option \<Rightarrow> exec_globals \<times> hashtable" where
  "zend_hash_del_el_ex eg ht idx prev =
     (let p = arData ht ! idx;
          ht = (case prev of
                  Some q \<Rightarrow> ht\<lparr>arData := (arData ht)[q := (arData ht ! q)\<lparr>b_next := b_next p\<rparr>]\<rparr>
                | None \<Rightarrow> HT_HASH_SET ht (hash_index (nTableMask ht) (b_h p)) (b_next p));
          (eg, ht) = shrink_used (\<lambda>i. \<not> live (arData ht ! i)) idx eg (ht\<lparr>nNumOfElements := nNumOfElements ht - 1\<rparr>);
          ht = ht\<lparr>arData := (arData ht)[idx := (arData ht ! idx)\<lparr>b_val := IS_UNDEF\<rparr>]\<rparr>
      in (call_dtor ht (b_val p) eg, ht))"

definition release_key :: "exec_globals \<Rightarrow> hashtable \<Rightarrow> nat \<Rightarrow> exec_globals \<times> hashtable" where
  "release_key eg ht idx = (case b_key (arData ht ! idx) of
       Some k \<Rightarrow> (zend_string_release k eg, ht\<lparr>arData := (arData ht)[idx := (arData ht ! idx)\<lparr>b_key := None\<rparr>]\<rparr>)
     | None \<Rightarrow> (eg, ht))"

text \<open>
  \<^verbatim>\<open>_zend_hash_del_el\<close> walks the chain up to the bucket itself to find its predecessor.
\<close>

definition find_prev :: "hashtable \<Rightarrow> nat \<Rightarrow> nat option res" where
  "find_prev ht idx =
     (let i = HT_HASH ht (hash_index (nTableMask ht) (b_h (arData ht ! idx)))
      in if i \<noteq> of_nat idx
         then (case while_option (\<lambda>i. b_next (arData ht ! unat i) \<noteq> of_nat idx) (\<lambda>i. b_next (arData ht ! unat i)) i
               of None \<Rightarrow> Inl Diverges | Some i \<Rightarrow> Inr (Some (unat i)))
         else Inr None)"

definition zend_hash_del_el :: "exec_globals \<Rightarrow> hashtable \<Rightarrow> nat \<Rightarrow> (exec_globals \<times> hashtable) res" where
  "zend_hash_del_el eg ht idx =
     res_bind (find_prev ht idx) (\<lambda>prev.
       case release_key eg ht idx of (eg, ht) \<Rightarrow> Inr (zend_hash_del_el_ex eg ht idx prev))"

definition zend_hash_packed_del_val :: "exec_globals \<Rightarrow> hashtable \<Rightarrow> nat \<Rightarrow> exec_globals \<times> hashtable" where
  "zend_hash_packed_del_val eg ht idx = zend_hash_packed_del_val' eg ht idx"

definition zend_hash_del_bucket :: "exec_globals \<Rightarrow> hashtable \<Rightarrow> nat \<Rightarrow> (exec_globals \<times> hashtable) res" where
  "zend_hash_del_bucket eg ht idx = zend_hash_del_el eg ht idx"

text \<open>
  The loop that the functions by key share: walk the chain with the predecessor, and on a match
  run \<open>act\<close>.  The Boolean result is \<^verbatim>\<open>SUCCESS\<close>.
\<close>

type_synonym del_result = "(bool \<times> exec_globals \<times> hashtable) res"

definition del_walk ::
  "(bucket \<Rightarrow> bool) \<Rightarrow> u64 \<Rightarrow> (nat \<Rightarrow> nat option \<Rightarrow> bool \<times> exec_globals \<times> hashtable) \<Rightarrow> exec_globals \<Rightarrow> hashtable \<Rightarrow> del_result" where
  "del_walk match h act eg ht =
     (case chain_search_prev match (arData ht) (HT_HASH ht (hash_index (nTableMask ht) h)) of
        None \<Rightarrow> Inl Diverges
      | Some (prev, idx) \<Rightarrow> if idx = HT_INVALID_IDX then Inr (False, eg, ht) else Inr (act (unat idx) prev))"

definition del_keyed :: "exec_globals \<Rightarrow> hashtable \<Rightarrow> nat \<Rightarrow> nat option \<Rightarrow> bool \<times> exec_globals \<times> hashtable" where
  "del_keyed eg ht idx prev = (case release_key eg ht idx of (eg, ht) \<Rightarrow> (True, zend_hash_del_el_ex eg ht idx prev))"

definition zend_hash_del :: "exec_globals \<Rightarrow> hashtable \<Rightarrow> zend_string \<Rightarrow> del_result" where
  "zend_hash_del eg ht key = del_walk (match_key key) (ZSTR_H key) (del_keyed eg ht) eg ht"

definition zend_hash_str_del :: "exec_globals \<Rightarrow> hashtable \<Rightarrow> string \<Rightarrow> del_result" where
  "zend_hash_str_del eg ht str =
     (let h = zend_inline_hash_func str in del_walk (match_str str h) h (del_keyed eg ht) eg ht)"

text \<open>
  The variants for symbol tables clear the slot behind an indirect value and leave the bucket.
\<close>

definition del_ind :: "exec_globals \<Rightarrow> hashtable \<Rightarrow> nat \<Rightarrow> nat option \<Rightarrow> bool \<times> exec_globals \<times> hashtable" where
  "del_ind eg ht idx prev = (case b_val (arData ht ! idx) of
       IS_INDIRECT a \<Rightarrow>
         (if indirect eg a = IS_UNDEF then (False, eg, ht)
          else (True, call_dtor ht (indirect eg a) (eg\<lparr>indirect := (indirect eg)(a := IS_UNDEF)\<rparr>),
                ht\<lparr>ht_empty_ind := True\<rparr>))
     | _ \<Rightarrow> del_keyed eg ht idx prev)"

definition zend_hash_del_ind :: "exec_globals \<Rightarrow> hashtable \<Rightarrow> zend_string \<Rightarrow> del_result" where
  "zend_hash_del_ind eg ht key = del_walk (match_key key) (ZSTR_H key) (del_ind eg ht) eg ht"

definition str_del_ind :: "exec_globals \<Rightarrow> hashtable \<Rightarrow> nat \<Rightarrow> nat option \<Rightarrow> bool \<times> exec_globals \<times> hashtable" where
  "str_del_ind eg ht idx prev = (case b_val (arData ht ! idx) of
       IS_INDIRECT a \<Rightarrow>
         (if indirect eg a = IS_UNDEF then (False, eg, ht)
          else (True, (call_dtor ht (indirect eg a) eg)\<lparr>indirect := (indirect eg)(a := IS_UNDEF)\<rparr>,
                ht\<lparr>ht_empty_ind := True\<rparr>))
     | _ \<Rightarrow> del_keyed eg ht idx prev)"

definition zend_hash_str_del_ind :: "exec_globals \<Rightarrow> hashtable \<Rightarrow> string \<Rightarrow> del_result" where
  "zend_hash_str_del_ind eg ht str =
     (let h = zend_inline_hash_func str in del_walk (match_str str h) h (str_del_ind eg ht) eg ht)"

definition zend_hash_index_del :: "exec_globals \<Rightarrow> hashtable \<Rightarrow> u64 \<Rightarrow> del_result" where
  "zend_hash_index_del eg ht h =
     (if ht_packed ht
      then (if unat h < nNumUsed ht \<and> arPacked ht ! unat h \<noteq> IS_UNDEF
            then Inr (True, zend_hash_packed_del_val' eg ht (unat h)) else Inr (False, eg, ht))
      else del_walk (match_index h) h (\<lambda>idx prev. (True, zend_hash_del_el_ex eg ht idx prev)) eg ht)"

section \<open>Shrinking the used part\<close>

lemma trim_used_le: "trim_used dead n \<le> n"
  by (induction n) auto

lemma trim_used_dead: "trim_used dead n \<le> i \<Longrightarrow> i < n \<Longrightarrow> dead i"
  by (induction n) (auto split: if_splits simp: less_Suc_eq)

lemma trim_used_live: "0 < trim_used dead n \<Longrightarrow> \<not> dead (trim_used dead n - 1)"
  by (induction n) (auto split: if_splits)

lemma shrink_used_frame:
  assumes "shrink_used dead idx eg ht = (eg', ht')" "idx < nNumUsed ht"
  shows "\<exists>n p. ht' = ht\<lparr>nNumUsed := n, nInternalPointer := p\<rparr> \<and> n \<le> nNumUsed ht \<and>
    (\<forall>i. n \<le> i \<and> i < nNumUsed ht \<longrightarrow> i = idx \<or> dead i)"
proof (cases "nNumUsed ht - 1 = idx")
  case True
  let ?n = "trim_used dead (nNumUsed ht - 1)"
  have "i = idx \<or> dead i" if "?n \<le> i" "i < nNumUsed ht" for i
    using that True trim_used_dead [of dead "nNumUsed ht - 1" i] by (cases "i = idx") auto
  moreover have "?n \<le> nNumUsed ht" using trim_used_le [of dead "nNumUsed ht - 1"] by simp
  moreover have "ht' = ht\<lparr>nNumUsed := ?n, nInternalPointer := min (nInternalPointer ht) ?n\<rparr>"
    using assms True by (auto simp: shrink_used_def Let_def)
  ultimately show ?thesis by blast
next
  case False
  then show ?thesis using assms by (intro exI [of _ "nNumUsed ht"] exI [of _ "nInternalPointer ht"]) (auto simp: shrink_used_def)
qed

section \<open>Removing a bucket\<close>

lemma entries_dead_tail:
  assumes "n \<le> u" "u \<le> length D" "\<And>j. n \<le> j \<Longrightarrow> j < u \<Longrightarrow> \<not> live (D ! j)"
  shows "entries (take n D) = entries (take u D)"
proof -
  have "entries (map ((!) D) [n ..< u]) = []" using assms(3) by (auto simp: entries_def filter_empty_conv)
  then show ?thesis using take_split_nth [OF assms(1,2)] by (simp add: entries_append)
qed

lemma kill_bucket_ok:
  assumes inv: "ht_inv ht" and sh: "mixed_shape ht" and idx: "idx < nNumUsed ht" "live (arData ht ! idx)"
    and D: "length D' = length (arData ht)" "\<And>j. j \<noteq> idx \<Longrightarrow> core (D' ! j) = core (arData ht ! j)"
      "\<not> live (D' ! idx)" "b_key (D' ! idx) = None"
    and H: "length H' = length (arHash ht)"
      "\<And>s. s < length H' \<Longrightarrow> linked D' (H' ! s) (filter (\<lambda>j. j \<noteq> idx) (chain_of (arData ht) (nNumUsed ht) (slot_of ht) s))"
    and n: "n \<le> nNumUsed ht" "\<And>j. n \<le> j \<Longrightarrow> j < nNumUsed ht \<Longrightarrow> j = idx \<or> \<not> live (arData ht ! j)"
    and ht': "ht' = ht\<lparr>arHash := H', nNumOfElements := nNumOfElements ht - 1, nNumUsed := n, nInternalPointer := p, arData := D'\<rparr>"
  shows "ht_inv ht'" "ht_entries ht' = AList.delete (bucket_key (arData ht ! idx)) (ht_entries ht)"
proof -
  let ?u = "nNumUsed ht" and ?D = "arData ht"
  have co: "content_ok ht" using inv by (rule ht_inv_content)
  have u: "?u \<le> length ?D" using sh by (simp add: mixed_shape_def)
  have bs: "ht_buckets ht = take ?u ?D" "ht_buckets ht' = take n D'"
    using sh by (auto simp: ht_buckets_def mixed_shape_def ht')
  have dead: "\<not> live (D' ! j)" if "n \<le> j" "j < ?u" for j
    using n(2) [OF that] D(2) [of j] D(3) by (cases "j = idx") (auto simp: core_eq_iff)
  have co': "map core (take ?u D') = map core ((take ?u ?D)[idx := D' ! idx])"
    using D(1,2) u idx(1) by (intro nth_equalityI) (auto simp: nth_list_update)
  have dk: "distinct (map fst (entries (take ?u ?D)))" using co by (simp add: content_ok_def ht_entries_def bs)
  have "ht_entries ht' = entries (take ?u D')"
    unfolding ht_entries_def bs using entries_dead_tail [OF n(1), of D'] u D(1) dead by simp
  also have "\<dots> = entries ((take ?u ?D)[idx := D' ! idx])" by (rule entries_core [OF co'])
  also have "\<dots> = AList.delete (bucket_key (?D ! idx)) (entries (take ?u ?D))"
    using entries_kill [OF dk, of idx "D' ! idx"] idx u D(3) by simp
  finally show e: "ht_entries ht' = AList.delete (bucket_key (?D ! idx)) (ht_entries ht)"
    by (simp add: ht_entries_def bs)
  have "map_of (ht_entries ht) (bucket_key (?D ! idx)) \<noteq> None"
    using map_of_entries [OF dk, of idx] idx u by (simp add: ht_entries_def bs)
  then have "length (ht_entries ht') = length (ht_entries ht) - 1"
  proof -
    have "entries (take ?u ?D) = entries (take idx (take ?u ?D)) @ (bucket_key (?D ! idx), b_val (?D ! idx)) # entries (drop (Suc idx) (take ?u ?D))"
      using entries_split [of idx "take ?u ?D"] idx u by simp
    moreover have "ht_entries ht' = entries (take idx (take ?u ?D)) @ entries (drop (Suc idx) (take ?u ?D))"
    proof -
      have "entries ((take ?u ?D)[idx := D' ! idx]) = entries (take idx (take ?u ?D)) @ entries (drop (Suc idx) (take ?u ?D))"
        using idx u D(3) by (simp add: upd_conv_take_nth_drop entries_append) (simp add: entries_def)
      then show ?thesis using \<open>ht_entries ht' = entries (take ?u D')\<close> entries_core [OF co'] by simp
    qed
    ultimately show ?thesis by (simp add: ht_entries_def bs)
  qed
  moreover have "bucket_ok (ht_static_keys ht) (nNextFreeElement ht) (D' ! j)" if "j < n" for j
  proof (cases "j = idx")
    case False
    have "bucket_ok (ht_static_keys ht) (nNextFreeElement ht) (?D ! j)"
      using data_bucket_ok [OF inv, of j] sh that n(1) by (simp add: data_used_def mixed_shape_def)
    then show ?thesis using D(2) [OF False] by (metis core_simps(6))
  qed (use D(3,4) in \<open>simp add: bucket_ok_def\<close>)
  then have "list_all (bucket_ok (ht_static_keys ht) (nNextFreeElement ht)) (ht_buckets ht')"
    using u n(1) D(1) by (auto simp: bs list_all_length)
  moreover have "distinct (map fst (ht_entries ht'))"
    using co e by (simp add: content_ok_def distinct_delete)
  ultimately have "content_ok ht'" using co by (simp add: content_ok_def) (simp add: ht')
  moreover have "mixed_shape ht'" using sh n(1) D(1) H(1) by (simp add: mixed_shape_def ht')
  moreover have "chains_ok ht' (nNumUsed ht')"
  proof -
    have sl: "slot_of ht' = slot_of ht" using H(1) by (intro slot_of_cong) (simp_all add: ht')
    have "chain_of D' n (slot_of ht) s = filter (\<lambda>j. j \<noteq> idx) (chain_of ?D ?u (slot_of ht) s)" for s
      using n(1) D(2) D(3) dead by (intro chain_of_remove) (auto simp: core_eq_iff)
    then show ?thesis using H(2) unfolding chains_ok_def sl by (simp add: ht')
  qed
  ultimately show "ht_inv ht'" by (simp add: ht_inv_def)
qed

section \<open>Unlinking\<close>

text \<open>Killing a bucket does not change any link.\<close>

definition kill :: "nat \<Rightarrow> bucket list \<Rightarrow> bucket list" where
  "kill idx D = D[idx := (D ! idx)\<lparr>b_key := None, b_val := IS_UNDEF\<rparr>]"

lemma linked_kill [simp]: "linked (kill idx D) x is = linked D x is"
proof (cases "idx < length D")
  case True
  then show ?thesis by (intro linked_cong) (auto simp: kill_def nth_list_update)
qed (simp add: kill_def list_update_beyond)

lemma filter_neq_notin: "idx \<notin> set is \<Longrightarrow> filter (\<lambda>j. j \<noteq> idx) is = is"
  by (induction "is") auto

lemma unlink_head:
  assumes "chains_ok ht n" "chain_of (arData ht) n (slot_of ht) s0 = idx # bs" "s0 < length (arHash ht)" "s < length (arHash ht)"
  shows "linked (kill idx (arData ht)) ((arHash ht)[s0 := b_next (arData ht ! idx)] ! s)
    (filter (\<lambda>j. j \<noteq> idx) (chain_of (arData ht) n (slot_of ht) s))"
proof (cases "s = s0")
  case True
  have "linked (arData ht) (arHash ht ! s0) (idx # bs)" using assms by (auto simp: chains_ok_def)
  moreover have "idx \<notin> set bs" using distinct_chain_of [of "arData ht" n "slot_of ht" s0] assms(2) by simp
  ultimately show ?thesis using True assms by (simp add: filter_neq_notin)
next
  case False
  have "idx \<notin> set (chain_of (arData ht) n (slot_of ht) s)"
    using assms(2) False set_chain_of [of idx "arData ht" n "slot_of ht" s0] by (auto simp: set_chain_of)
  then show ?thesis using False assms by (simp add: filter_neq_notin chains_ok_def)
qed

lemma unlink_inner:
  assumes "chains_ok ht n" "chain_of (arData ht) n (slot_of ht) s0 = as @ q # idx # bs" "s < length (arHash ht)"
    "s0 < length (arHash ht)"
  shows "linked (kill idx ((arData ht)[q := (arData ht ! q)\<lparr>b_next := b_next (arData ht ! idx)\<rparr>])) (arHash ht ! s)
    (filter (\<lambda>j. j \<noteq> idx) (chain_of (arData ht) n (slot_of ht) s))"
proof (cases "s = s0")
  case True
  have l: "linked (arData ht) (arHash ht ! s0) (as @ q # idx # bs)" using assms by (auto simp: chains_ok_def)
  have d: "distinct (as @ q # idx # bs)" using distinct_chain_of [of "arData ht" n "slot_of ht" s0] assms(2) by simp
  from linked_bypass [OF l d] d True assms(2) show ?thesis by (simp add: filter_neq_notin)
next
  case False
  have "idx \<notin> set (chain_of (arData ht) n (slot_of ht) s)" "q \<notin> set (chain_of (arData ht) n (slot_of ht) s)"
    using assms(2) False set_chain_of [of idx "arData ht" n "slot_of ht" s0]
      set_chain_of [of q "arData ht" n "slot_of ht" s0] by (auto simp: set_chain_of)
  moreover from this have "linked ((arData ht)[q := (arData ht ! q)\<lparr>b_next := b_next (arData ht ! idx)\<rparr>]) (arHash ht ! s)
      (chain_of (arData ht) n (slot_of ht) s) = linked (arData ht) (arHash ht ! s) (chain_of (arData ht) n (slot_of ht) s)"
    by (intro linked_cong) (auto, metis nth_list_update_neq)
  ultimately show ?thesis using assms by (simp add: filter_neq_notin chains_ok_def)
qed

text \<open>
  Deleting bucket \<open>idx\<close> given its predecessor in its chain.
\<close>

definition is_prev :: "hashtable \<Rightarrow> nat \<Rightarrow> nat option \<Rightarrow> bool" where
  "is_prev ht idx prev \<longleftrightarrow> (\<exists>as bs. chain_of (arData ht) (nNumUsed ht) (slot_of ht) (slot_of ht (b_h (arData ht ! idx))) = as @ idx # bs \<and>
     prev = (if as = [] then None else Some (last as)))"

lemma del_keyed_ok:
  assumes inv: "ht_inv ht" and sh: "mixed_shape ht" and pr: "is_prev ht idx prev"
    and r: "del_keyed eg ht idx prev = (ok, eg', ht')"
  shows "ok" "ht_inv ht'" "ht_entries ht' = AList.delete (bucket_key (arData ht ! idx)) (ht_entries ht)"
    "mixed_shape ht'" "pDestructor ht' = pDestructor ht"
proof -
  let ?D = "arData ht" and ?s = "slot_of ht (b_h (arData ht ! idx))" and ?p = "arData ht ! idx"
  have ch: "chains_ok ht (nNumUsed ht)" using ht_inv_mixedD [OF inv] sh by (simp add: mixed_shape_def)
  have s: "?s < length (arHash ht)" using slots_ok_mixed [OF sh] by (simp add: slots_ok_def)
  obtain as bs where c: "chain_of ?D (nNumUsed ht) (slot_of ht) ?s = as @ idx # bs"
    and prev: "prev = (if as = [] then None else Some (last as))" using pr by (auto simp: is_prev_def)
  have "idx \<in> set (chain_of ?D (nNumUsed ht) (slot_of ht) ?s)" using c by simp
  then have idx: "idx < nNumUsed ht" "live ?p" by (simp_all add: set_chain_of)
  have il: "idx < length ?D" using idx sh by (simp add: mixed_shape_def)
  obtain eg1 ht1 where rk: "release_key eg ht idx = (eg1, ht1)" by fastforce
  have ht1: "ht1 = ht\<lparr>arData := ?D[idx := ?p\<lparr>b_key := None\<rparr>]\<rparr>"
  proof (cases "b_key ?p")
    case None
    then have "?p\<lparr>b_key := None\<rparr> = ?p" by (cases ?p) simp
    moreover have "ht1 = ht" using None rk by (simp add: release_key_def)
    ultimately show ?thesis by simp
  qed (use rk in \<open>simp add: release_key_def\<close>)
  define H where "H = (if as = [] then (arHash ht)[?s := b_next ?p] else arHash ht)"
  define D where "D = (if as = [] then ?D else ?D[last as := (?D ! last as)\<lparr>b_next := b_next ?p\<rparr>])"
  have ne: "last as \<noteq> idx" if "as \<noteq> []"
    using distinct_chain_of [of ?D "nNumUsed ht" "slot_of ht" ?s] c that by (auto dest: last_in_set)
  define ht2 where "ht2 = (case prev of
        Some q \<Rightarrow> ht1\<lparr>arData := (arData ht1)[q := (arData ht1 ! q)\<lparr>b_next := b_next (arData ht1 ! idx)\<rparr>]\<rparr>
      | None \<Rightarrow> HT_HASH_SET ht1 (hash_index (nTableMask ht1) (b_h (arData ht1 ! idx))) (b_next (arData ht1 ! idx)))"
  have ht2: "ht2 = ht\<lparr>arHash := H, arData := D[idx := ?p\<lparr>b_key := None\<rparr>]\<rparr>"
  proof (cases "as = []")
    case True
    then show ?thesis using il by (simp add: ht2_def prev ht1 H_def D_def HT_HASH_SET_def slot_of_def)
  next
    case False
    then show ?thesis using il ne [OF False] by (simp add: ht2_def prev ht1 H_def D_def list_update_swap)
  qed
  obtain eg3 ht3 where sh3: "shrink_used (\<lambda>i. \<not> live (arData ht2 ! i)) idx eg1 (ht2\<lparr>nNumOfElements := nNumOfElements ht2 - 1\<rparr>) = (eg3, ht3)"
    by fastforce
  obtain n p where n: "ht3 = ht2\<lparr>nNumOfElements := nNumOfElements ht2 - 1, nNumUsed := n, nInternalPointer := p\<rparr>" "n \<le> nNumUsed ht"
    "\<forall>i. n \<le> i \<and> i < nNumUsed ht \<longrightarrow> i = idx \<or> \<not> live (arData ht2 ! i)"
    using shrink_used_frame [OF sh3] idx by (auto simp: ht2)
  have ht': "ok \<and> ht' = ht3\<lparr>arData := (arData ht3)[idx := (arData ht3 ! idx)\<lparr>b_val := IS_UNDEF\<rparr>]\<rparr>"
    using r sh3 by (simp add: del_keyed_def rk zend_hash_del_el_ex_def Let_def flip: ht2_def)
  then show "ok" by simp
  have lD: "length D = length ?D" by (simp add: D_def)
  have pi: "D ! idx = ?p" using ne by (simp add: D_def)
  have eq: "ht' = ht\<lparr>arHash := H, nNumOfElements := nNumOfElements ht - 1, nNumUsed := n, nInternalPointer := p, arData := kill idx D\<rparr>"
    using ht' il lD by (simp add: n(1) ht2 kill_def pi)
  have coreD: "core (D ! j) = core (?D ! j)" for j
    by (cases "last as < length ?D"; cases "j = last as") (auto simp: D_def list_update_beyond)
  have H_ok: "linked (kill idx D) (H ! s') (filter (\<lambda>j. j \<noteq> idx) (chain_of ?D (nNumUsed ht) (slot_of ht) s'))"
    if "s' < length H" for s'
  proof (cases "as = []")
    case True
    with unlink_head [OF ch _ s, of idx bs s'] that c show ?thesis by (simp add: H_def D_def)
  next
    case False
    then obtain as' where "as = as' @ [last as]" by (metis append_butlast_last_id)
    then have "chain_of ?D (nNumUsed ht) (slot_of ht) ?s = as' @ last as # idx # bs" using c by (metis append.assoc append_Cons append_Nil)
    from unlink_inner [OF ch this _ s, of s'] that False show ?thesis by (simp add: H_def D_def)
  qed
  have k: "core (kill idx D ! j) = core (?D ! j)" if "j \<noteq> idx" for j using that coreD by (simp add: kill_def)
  have live2: "live (arData ht2 ! j) = live (?D ! j)" if "j \<noteq> idx" for j
    using that coreD [of j] by (simp add: ht2 core_eq_iff)
  have kl: "length (kill idx D) = length ?D" "\<not> live (kill idx D ! idx)" "b_key (kill idx D ! idx) = None"
    using lD il by (simp_all add: kill_def)
  have lH: "length H = length (arHash ht)" by (simp add: H_def)
  have tail: "j = idx \<or> \<not> live (?D ! j)" if "n \<le> j" "j < nNumUsed ht" for j using n(3) live2 [of j] that by blast
  note final = kill_bucket_ok [OF inv sh idx kl(1) k kl(2,3) lH H_ok n(2) tail eq]
  show "ht_inv ht'" "ht_entries ht' = AList.delete (bucket_key ?p) (ht_entries ht)" by (rule final; assumption)+
  show "mixed_shape ht'" using sh n(2) lD by (simp add: eq mixed_shape_def kill_def H_def)
  show "pDestructor ht' = pDestructor ht" by (simp add: eq)
qed

section \<open>Deletion by key\<close>

lemma del_walk_ok:
  assumes inv: "ht_inv ht"
    and m: "\<And>b. bucket_ok (ht_static_keys ht) (nNextFreeElement ht) b \<Longrightarrow> live b \<Longrightarrow> P b \<Longrightarrow> b_h b = h"
  shows "(\<exists>idx prev. del_walk P h act eg ht = Inr (act idx prev) \<and> mixed_shape ht \<and> idx < data_used ht \<and>
      live (arData ht ! idx) \<and> P (arData ht ! idx) \<and> is_prev ht idx prev) \<or>
    (del_walk P h act eg ht = Inr (False, eg, ht) \<and> hit P ht None)"
proof -
  let ?c = "chain_of (arData ht) (data_used ht) (slot_of ht) (slot_of ht h)"
  note s = ht_inv_search [OF inv]
  have x: "HT_HASH ht (hash_index (nTableMask ht) h) = arHash ht ! slot_of ht h" by (simp add: HT_HASH_def slot_of_def)
  have l: "linked (arData ht) (arHash ht ! slot_of ht h) ?c" using s(1,2) by (simp add: chains_ok_def slots_ok_def)
  have hash: "b_h (arData ht ! i) = h" if "i < data_used ht" "live (arData ht ! i)" "P (arData ht ! i)" for i
    using m data_bucket_ok [OF inv] that by blast
  show ?thesis
  proof (cases "\<exists>i \<in> set ?c. P (arData ht ! i)")
    case False
    then obtain p where "chain_search_prev P (arData ht) (arHash ht ! slot_of ht h) = Some (p, HT_INVALID_IDX)"
      using chain_search_prev_miss [OF s(3) l] by blast
    moreover have "hit P ht None" using False hash by (auto simp: hit_def set_chain_of)
    ultimately show ?thesis by (simp add: del_walk_def x)
  next
    case True
    then obtain as i bs where c: "?c = as @ i # bs" and i: "P (arData ht ! i)" "\<forall>a \<in> set as. \<not> P (arData ht ! a)"
      using split_list_first_prop [of ?c "\<lambda>i. P (arData ht ! i)"] by blast
    have "i \<in> set ?c" using c by simp
    then have il: "i < data_used ht" "live (arData ht ! i)" by (simp_all add: set_chain_of)
    have "chain_search_prev P (arData ht) (arHash ht ! slot_of ht h) = Some (if as = [] then None else Some (last as), of_nat i)"
      using chain_search_prev_hit [OF s(3), of _ as i bs] l c i by simp
    then have "del_walk P h act eg ht = Inr (act i (if as = [] then None else Some (last as)))"
      using small_index [OF s(3), of i] data_used_length [OF inv il(1)] by (simp add: del_walk_def x)
    moreover have np: "\<not> ht_packed ht" "i < nNumUsed ht" using il(1) by (auto simp: data_used_def split: if_splits)
    moreover from np have "\<not> ht_uninit ht" using uninit_entries [OF inv] by auto
    moreover have "is_prev ht i (if as = [] then None else Some (last as))"
      using c hash [OF il i(1)] np(1) by (auto simp: is_prev_def data_used_def)
    ultimately show ?thesis using il i(1) ht_inv_mixedD(1) [OF inv] by blast
  qed
qed

lemma delete_absent: "map_of es k = None \<Longrightarrow> AList.delete k es = es"
  by (induction es) (auto split: if_splits)

text \<open>The result of a deletion: whether the key was there, and the table without it.\<close>

definition deletes :: "hashtable \<Rightarrow> hkey \<Rightarrow> del_result \<Rightarrow> bool" where
  "deletes ht k r \<longleftrightarrow> (\<exists>eg' ht'. r = Inr (map_of (ht_entries ht) k \<noteq> None, eg', ht') \<and> ht_inv ht' \<and>
     ht_entries ht' = AList.delete k (ht_entries ht))"

lemma del_keyed_deletes:
  assumes inv: "ht_inv ht" and sh: "mixed_shape ht" and i: "idx < data_used ht" "live (arData ht ! idx)" and pr: "is_prev ht idx prev"
  shows "deletes ht (bucket_key (arData ht ! idx)) (Inr (del_keyed eg ht idx prev))"
proof -
  obtain ok eg' ht' where r: "del_keyed eg ht idx prev = (ok, eg', ht')" by (cases "del_keyed eg ht idx prev") auto
  have "hit_key (bucket_key (arData ht ! idx)) ht (Some idx)" using i by (simp add: hit_def)
  then have "map_of (ht_entries ht) (bucket_key (arData ht ! idx)) \<noteq> None"
    using hit_key_entries [OF inv, of "bucket_key (arData ht ! idx)" "Some idx"] sh by (auto simp: mixed_shape_def)
  with del_keyed_ok [OF inv sh pr r] r show ?thesis by (auto simp: deletes_def)
qed

lemma absent_deletes:
  assumes inv: "ht_inv ht" and np: "\<not> ht_packed ht \<or> (\<exists>s. k = StrKey s)" and h: "hit_key k ht None"
  shows "deletes ht k (Inr (False, eg, ht))"
proof -
  have "map_of (ht_entries ht) k = None"
    using np hit_key_entries [OF inv _ h] packed_entries [of ht] by (cases "ht_packed ht") auto
  then show ?thesis using inv by (simp add: deletes_def delete_absent)
qed

lemma walk_deletes:
  assumes inv: "ht_inv ht" and np: "\<not> ht_packed ht \<or> (\<exists>s. k = StrKey s)"
    and P: "\<And>b. bucket_ok (ht_static_keys ht) (nNextFreeElement ht) b \<Longrightarrow> live b \<Longrightarrow> P b \<longleftrightarrow> bucket_key b = k"
    and m: "\<And>b. bucket_ok (ht_static_keys ht) (nNextFreeElement ht) b \<Longrightarrow> live b \<Longrightarrow> P b \<Longrightarrow> b_h b = h"
    and act: "\<And>idx prev. idx < data_used ht \<Longrightarrow> live (arData ht ! idx) \<Longrightarrow> P (arData ht ! idx) \<Longrightarrow>
      act idx prev = del_keyed eg ht idx prev"
  shows "deletes ht k (del_walk P h act eg ht)"
proof -
  consider idx prev where "del_walk P h act eg ht = Inr (act idx prev)" "mixed_shape ht" "idx < data_used ht"
      "live (arData ht ! idx)" "P (arData ht ! idx)" "is_prev ht idx prev"
    | "del_walk P h act eg ht = Inr (False, eg, ht)" "hit P ht None"
    using del_walk_ok [OF inv, of P h act eg] m by metis
  then show ?thesis
  proof cases
    case 1
    have "bucket_key (arData ht ! idx) = k" using P data_bucket_ok [OF inv 1(3)] 1(4,5) by blast
    with del_keyed_deletes [OF inv 1(2-4,6), of eg] act [OF 1(3-5), of prev] 1(1) show ?thesis by simp
  next
    case 2
    have "hit_key k ht None" using 2(2) hit_cong [OF inv, of P "\<lambda>b. bucket_key b = k"] P by blast
    with absent_deletes [OF inv np] 2(1) show ?thesis by simp
  qed
qed

lemma match_key_hash: "bucket_ok st nx b \<Longrightarrow> match_key key b \<Longrightarrow> b_h b = ZSTR_H key"
  by (auto simp: match_key_def bucket_ok_def split: option.splits)

lemma zend_hash_del_ok:
  assumes inv: "ht_inv ht"
  shows "deletes ht (StrKey (zs_val key)) (zend_hash_del eg ht key)"
  unfolding zend_hash_del_def
  by (rule walk_deletes [OF inv _ match_is_key(1)]) (auto intro: match_key_hash)

lemma zend_hash_str_del_ok:
  assumes inv: "ht_inv ht"
  shows "deletes ht (StrKey str) (zend_hash_str_del eg ht str)"
  unfolding zend_hash_str_del_def Let_def
  by (rule walk_deletes [OF inv _ match_is_key(2)]) (auto simp: match_str_def)

section \<open>Packed tables\<close>

lemma packed_del_val_ok:
  assumes inv: "ht_inv ht" and p: "ht_packed ht" and i: "i < nNumUsed ht" "arPacked ht ! i \<noteq> IS_UNDEF"
    and r: "zend_hash_packed_del_val' eg ht i = (eg', ht')"
  shows "ht_inv ht'" "ht_entries ht' = AList.delete (IntKey (of_nat i)) (ht_entries ht)" "ht_packed ht'"
    "pDestructor ht' = pDestructor ht"
proof -
  from ht_inv_packedD [OF inv p] have s: "packed_shape ht" and c: "content_ok ht" by auto
  let ?u = "nNumUsed ht" and ?A = "arPacked ht"
  obtain eg1 ht1 where sh: "shrink_used (\<lambda>i. ?A ! i = IS_UNDEF) i eg (ht\<lparr>nNumOfElements := nNumOfElements ht - 1\<rparr>) = (eg1, ht1)"
    by fastforce
  obtain n q where n: "ht1 = ht\<lparr>nNumOfElements := nNumOfElements ht - 1, nNumUsed := n, nInternalPointer := q\<rparr>" "n \<le> ?u"
    "\<forall>j. n \<le> j \<and> j < ?u \<longrightarrow> j = i \<or> ?A ! j = IS_UNDEF"
    using shrink_used_frame [OF sh] i by auto
  have ht': "ht' = ht\<lparr>nNumOfElements := nNumOfElements ht - 1, nNumUsed := n, nInternalPointer := q, arPacked := ?A[i := IS_UNDEF]\<rparr>"
    using r sh by (simp add: zend_hash_packed_del_val'_def Let_def n(1))
  then show "ht_packed ht'" "pDestructor ht' = pDestructor ht" using p by simp_all
  have l: "i < length ?A" "length ?A = nTableSize ht" "?u \<le> nTableSize ht" using s i by (auto simp: packed_shape_def)
  have bh: "ht_buckets ht = map (\<lambda>j. packed_bucket j (?A ! j)) [0 ..< ?u]" using p by (simp add: ht_buckets_def)
  have bh': "ht_buckets ht' = map (\<lambda>j. packed_bucket j (?A[i := IS_UNDEF] ! j)) [0 ..< n]"
    using p by (simp add: ht_buckets_def ht')
  let ?B = "map (\<lambda>j. packed_bucket j (?A[i := IS_UNDEF] ! j)) [0 ..< ?u]"
  have B: "?B = (ht_buckets ht)[i := packed_bucket i IS_UNDEF]"
    using i l by (intro nth_equalityI) (auto simp: bh nth_list_update)
  have tk: "ht_buckets ht' = take n ?B" using n(2) by (simp add: bh' take_map)
  have "entries (take n ?B) = entries (take ?u ?B)"
    using n(3) l i by (intro entries_dead_tail [OF n(2)]) (auto simp: packed_bucket_def nth_list_update)
  then have e1: "ht_entries ht' = entries ((ht_buckets ht)[i := packed_bucket i IS_UNDEF])"
    by (simp add: ht_entries_def tk flip: B)
  have d: "distinct (map fst (entries (ht_buckets ht)))" using c by (simp add: content_ok_def ht_entries_def)
  have bi: "i < length (ht_buckets ht)" "ht_buckets ht ! i = packed_bucket i (?A ! i)" using i by (simp_all add: bh)
  have li: "live (ht_buckets ht ! i)" "\<not> live (packed_bucket i IS_UNDEF)" using i bi by (simp_all add: packed_bucket_def)
  show e: "ht_entries ht' = AList.delete (IntKey (of_nat i)) (ht_entries ht)"
    using entries_kill [OF d bi(1) li] e1 bi(2) by (simp add: ht_entries_def packed_bucket_def bucket_key_def)
  have "length (ht_entries ht') = length (ht_entries ht) - 1"
    using e1 entries_split [OF bi(1) li(1)] li(2) bi(1)
    by (simp add: ht_entries_def upd_conv_take_nth_drop entries_append) (simp add: entries_def)
  moreover have "bucket_ok (ht_static_keys ht) (nNextFreeElement ht) (packed_bucket j (?A[i := IS_UNDEF] ! j))" if "j < n" for j
  proof (cases "j = i")
    case False
    have "bucket_ok (ht_static_keys ht) (nNextFreeElement ht) (packed_bucket j (?A ! j))"
      using c that n(2) by (simp add: content_ok_def bh list_all_iff)
    then show ?thesis using False by simp
  qed (use l in \<open>simp add: bucket_ok_def packed_bucket_def\<close>)
  then have "list_all (bucket_ok (ht_static_keys ht) (nNextFreeElement ht)) (ht_buckets ht')"
    by (simp add: bh' list_all_iff)
  moreover have "distinct (map fst (ht_entries ht'))" using c e by (simp add: content_ok_def distinct_delete)
  ultimately have "content_ok ht'" using c by (simp add: content_ok_def) (simp add: ht')
  moreover have "packed_shape ht'" using s n(2) by (simp add: packed_shape_def ht')
  ultimately show "ht_inv ht'" by (simp add: ht_inv_def)
qed

lemma zend_hash_index_del_ok:
  assumes inv: "ht_inv ht"
  shows "deletes ht (IntKey h) (zend_hash_index_del eg ht h)"
proof (cases "ht_packed ht")
  case p: True
  note m = packed_index_entries [OF inv p, of h]
  show ?thesis
  proof (cases "unat h < nNumUsed ht \<and> arPacked ht ! unat h \<noteq> IS_UNDEF")
    case True
    obtain eg' ht' where r: "zend_hash_packed_del_val' eg ht (unat h) = (eg', ht')" by fastforce
    from packed_del_val_ok [OF inv p _ _ r] True m show ?thesis
      by (simp add: deletes_def zend_hash_index_del_def p r)
  next
    case False
    then have "map_of (ht_entries ht) (IntKey h) = None" using m by auto
    then show ?thesis using False inv by (auto simp: deletes_def zend_hash_index_del_def p delete_absent)
  qed
next
  case p: False
  have "(\<lambda>idx prev. (True, zend_hash_del_el_ex eg ht idx prev)) idx prev = del_keyed eg ht idx prev"
    if "match_index h (arData ht ! idx)" for idx prev
    using that by (simp add: match_index_def del_keyed_def release_key_def)
  then have "deletes ht (IntKey h) (del_walk (match_index h) h (\<lambda>idx prev. (True, zend_hash_del_el_ex eg ht idx prev)) eg ht)"
    using p by (intro walk_deletes [OF inv _ match_is_key(3)]) (auto simp: match_index_def)
  then show ?thesis using p by (simp add: zend_hash_index_del_def)
qed

section \<open>Deletion of a given bucket\<close>

lemma find_prev_walk:
  assumes "small D" "linked D x (as @ q # idx # bs)" "distinct (as @ q # idx # bs)"
  shows "while_option (\<lambda>i. b_next (D ! unat i) \<noteq> of_nat idx) (\<lambda>i. b_next (D ! unat i)) x = Some (of_nat q)"
  using assms(2,3)
proof (induction as arbitrary: x)
  case Nil
  then show ?case using small_index(1) [OF assms(1)] by (subst while_option_unfold) auto
next
  case (Cons a as)
  then have x: "x = of_nat a" "a < length D" "linked D (b_next (D ! a)) (as @ q # idx # bs)" by auto
  obtain b where b: "b_next (D ! a) = of_nat b" "b < length D" "b \<noteq> idx" using x(3) Cons.prems(2) by (cases as) auto
  have "idx < length D" using linked_bounded [OF Cons.prems(1), of idx] by simp
  then have "b_next (D ! a) \<noteq> of_nat idx" using b small_index(1) [OF assms(1)] by metis
  then show ?case using Cons.IH [OF x(3)] Cons.prems(2) small_index(1) [OF assms(1) x(2)]
    by (subst while_option_unfold) (simp add: x(1))
qed

lemma find_prev_ok:
  assumes inv: "ht_inv ht" and sh: "mixed_shape ht" and i: "idx < nNumUsed ht" "live (arData ht ! idx)"
  shows "\<exists>prev. find_prev ht idx = Inr prev \<and> is_prev ht idx prev"
proof -
  let ?s = "slot_of ht (b_h (arData ht ! idx))"
  let ?c = "chain_of (arData ht) (nNumUsed ht) (slot_of ht) ?s"
  note se = ht_inv_search [OF inv]
  have du: "data_used ht = nNumUsed ht" using sh by (simp add: data_used_def mixed_shape_def)
  have l: "linked (arData ht) (arHash ht ! ?s) ?c" using se(1,2) du by (simp add: chains_ok_def slots_ok_def)
  have "idx \<in> set ?c" using i by (simp add: set_chain_of)
  then obtain as bs where c: "?c = as @ idx # bs" by (meson split_list)
  have x: "HT_HASH ht (hash_index (nTableMask ht) (b_h (arData ht ! idx))) = arHash ht ! ?s" by (simp add: HT_HASH_def slot_of_def)
  show ?thesis
  proof (cases "as = []")
    case True
    with l c have "arHash ht ! ?s = of_nat idx" by simp
    with True c show ?thesis by (auto simp: find_prev_def x is_prev_def)
  next
    case False
    then obtain as' q where as: "as = as' @ [q]" by (metis append_butlast_last_id)
    have l': "linked (arData ht) (arHash ht ! ?s) (as' @ q # idx # bs)" using l c as by simp
    have d: "distinct (as' @ q # idx # bs)" using distinct_chain_of [of "arData ht" "nNumUsed ht" "slot_of ht" ?s] c as by simp
    obtain b where b: "arHash ht ! ?s = of_nat b" "b < length (arData ht)" "b \<noteq> idx" using l' d by (cases as') auto
    have il: "idx < length (arData ht)" using i sh by (simp add: mixed_shape_def)
    have "arHash ht ! ?s \<noteq> of_nat idx" using b il small_index(1) [OF se(3)] by metis
    moreover have "q < length (arData ht)" using linked_bounded [OF l', of q] by simp
    ultimately have "find_prev ht idx = Inr (Some q)"
      using find_prev_walk [OF se(3) l' d] small_index(1) [OF se(3), of q] by (simp add: find_prev_def x)
    moreover have "is_prev ht idx (Some q)"
      unfolding is_prev_def using c as by (intro exI [of _ as] exI [of _ bs]) simp
    ultimately show ?thesis by blast
  qed
qed

lemma zend_hash_del_el_ok:
  assumes inv: "ht_inv ht" and sh: "mixed_shape ht" and i: "idx < nNumUsed ht" "live (arData ht ! idx)"
  shows "\<exists>eg' ht'. zend_hash_del_el eg ht idx = Inr (eg', ht') \<and> ht_inv ht' \<and> mixed_shape ht' \<and>
    ht_entries ht' = AList.delete (bucket_key (arData ht ! idx)) (ht_entries ht) \<and> pDestructor ht' = pDestructor ht"
proof -
  obtain prev where p: "find_prev ht idx = Inr prev" "is_prev ht idx prev" using find_prev_ok [OF assms] by blast
  obtain ok eg' ht' where r: "del_keyed eg ht idx prev = (ok, eg', ht')" by (cases "del_keyed eg ht idx prev") auto
  have "zend_hash_del_el eg ht idx = Inr (eg', ht')"
    using r p(1) by (cases "release_key eg ht idx") (simp add: zend_hash_del_el_def del_keyed_def)
  with del_keyed_ok [OF inv sh p(2) r] show ?thesis by blast
qed

end
