(* ===== verification/Hash_Map.thy ===== *)
theory Hash_Map
  imports Hash_Delete
begin

text \<open>
  The hash table as an ordered map: the contract that callers rely on as a locale, lemmas that hold
  for every implementation of it, and the proof that \<^verbatim>\<open>zend_hash_str_find\<close>, \<^verbatim>\<open>zend_hash_index_find\<close>,
  \<^verbatim>\<open>zend_hash_str_update\<close>, \<^verbatim>\<open>zend_hash_index_update\<close>, \<^verbatim>\<open>zend_hash_str_del\<close> and \<^verbatim>\<open>zend_hash_index_del\<close> keep it.
\<close>

section \<open>The contract\<close>

text \<open>
  Operations may fail for lack of room; \<open>cap\<close> bounds the memory a state occupies, and a state below
  the limit \<open>M\<close> has room for every operation.
\<close>

datatype ('k, 'v) map_op = Put 'k 'v | Unset 'k

fun spec_op :: "('k, 'v) map_op \<Rightarrow> ('k \<times> 'v) list \<Rightarrow> ('k \<times> 'v) list" where
  "spec_op (Put k v) xs = AList.update k v xs"
| "spec_op (Unset k) xs = AList.delete k xs"

definition spec_run :: "('k, 'v) map_op list \<Rightarrow> ('k \<times> 'v) list \<Rightarrow> ('k \<times> 'v) list" where
  "spec_run ops xs = fold spec_op ops xs"

fun run_op :: "('s \<Rightarrow> 'k \<Rightarrow> 'v \<Rightarrow> 's option) \<Rightarrow> ('s \<Rightarrow> 'k \<Rightarrow> 's option) \<Rightarrow> ('k, 'v) map_op \<Rightarrow> 's \<Rightarrow> 's option" where
  "run_op put unset (Put k v) s = put s k v"
| "run_op put unset (Unset k) s = unset s k"

fun run_ops :: "('s \<Rightarrow> 'k \<Rightarrow> 'v \<Rightarrow> 's option) \<Rightarrow> ('s \<Rightarrow> 'k \<Rightarrow> 's option) \<Rightarrow> ('k, 'v) map_op list \<Rightarrow> 's \<Rightarrow> 's option" where
  "run_ops put unset [] s = Some s"
| "run_ops put unset (op # ops) s = (case run_op put unset op s of None \<Rightarrow> None | Some s' \<Rightarrow> run_ops put unset ops s')"

fun op_ok :: "('v \<Rightarrow> bool) \<Rightarrow> ('k, 'v) map_op \<Rightarrow> bool" where
  "op_ok valid (Put k v) = valid v"
| "op_ok valid (Unset k) = True"

locale ordered_map =
  fixes ok :: "'s \<Rightarrow> bool" and abs :: "'s \<Rightarrow> ('k \<times> 'v) list" and cap :: "'s \<Rightarrow> nat" and M :: nat and valid :: "'v \<Rightarrow> bool"
    and get :: "'s \<Rightarrow> 'k \<Rightarrow> 'v option option" and put :: "'s \<Rightarrow> 'k \<Rightarrow> 'v \<Rightarrow> 's option" and unset :: "'s \<Rightarrow> 'k \<Rightarrow> 's option"
  assumes distinct_abs: "ok s \<Longrightarrow> distinct (map fst (abs s))"
    and get_abs: "ok s \<Longrightarrow> get s k = Some (map_of (abs s) k)"
    and put_abs: "ok s \<Longrightarrow> cap s < M \<Longrightarrow> valid v \<Longrightarrow>
      \<exists>s'. put s k v = Some s' \<and> ok s' \<and> abs s' = AList.update k v (abs s) \<and> cap s' \<le> max (cap s) (8 * length (abs s'))"
    and unset_abs: "ok s \<Longrightarrow> \<exists>s'. unset s k = Some s' \<and> ok s' \<and> abs s' = AList.delete k (abs s) \<and> cap s' \<le> cap s"
begin

lemma get_put:
  assumes "ok s" "cap s < M" "valid v" "put s k v = Some s'"
  shows "get s' j = (if j = k then Some (Some v) else get s j)"
  using put_abs [OF assms(1-3), of k] assms(4) get_abs [OF assms(1)] get_abs [of s'] by (auto simp: update_conv')

lemma get_unset:
  assumes "ok s" "unset s k = Some s'"
  shows "get s' j = (if j = k then Some None else get s j)"
  using unset_abs [OF assms(1), of k] assms(2) get_abs [OF assms(1)] get_abs [of s'] by (auto simp: delete_conv')

lemma put_keeps_order:
  assumes "ok s" "cap s < M" "valid v" "put s k v = Some s'" "k \<in> fst ` set (abs s)"
  shows "map fst (abs s') = map fst (abs s)"
  using put_abs [OF assms(1-3), of k] assms(4,5) by (auto simp: update_keys)

lemma put_appends:
  assumes "ok s" "cap s < M" "valid v" "put s k v = Some s'" "k \<notin> fst ` set (abs s)"
  shows "abs s' = abs s @ [(k, v)]"
  using put_abs [OF assms(1-3), of k] assms(4,5) update_new [of k "abs s" v] by auto

lemma length_spec_op: "length (spec_op op xs) \<le> Suc (length xs)"
proof (cases op)
  case (Put k v)
  have "length (AList.update k v xs) \<le> Suc (length xs)" by (induction xs) auto
  then show ?thesis using Put by simp
qed (simp add: length_delete_le le_SucI)

lemma run_op_ok:
  assumes "ok s" "cap s < M" "op_ok valid op"
  obtains s' where "run_op put unset op s = Some s'" "ok s'" "abs s' = spec_op op (abs s)" "cap s' \<le> max (cap s) (8 * length (abs s'))"
proof (cases op)
  case (Put k v)
  then show ?thesis using put_abs [OF assms(1,2), of v k] assms(3) that by auto
next
  case (Unset k)
  then show ?thesis using unset_abs [OF assms(1), of k] that by force
qed

theorem run_ops_ok:
  assumes "ok s" "cap s < M" "8 * (length (abs s) + length ops) < M" "list_all (op_ok valid) ops"
  shows "\<exists>s'. run_ops put unset ops s = Some s' \<and> ok s' \<and> abs s' = spec_run ops (abs s)"
  using assms
proof (induction ops arbitrary: s)
  case (Cons op ops)
  obtain s' where s': "run_op put unset op s = Some s'" "ok s'" "abs s' = spec_op op (abs s)"
    "cap s' \<le> max (cap s) (8 * length (abs s'))"
    using run_op_ok [OF Cons.prems(1,2)] Cons.prems(4) by auto
  have l: "length (abs s') \<le> Suc (length (abs s))" unfolding s'(3) by (rule length_spec_op)
  then have "cap s' < M" "8 * (length (abs s') + length ops) < M" using s'(4) Cons.prems(2,3) by auto
  then show ?case using Cons.IH [OF s'(2)] Cons.prems(4) s' by (simp add: spec_run_def)
qed (simp add: spec_run_def)

end

section \<open>The hash table keeps the contract\<close>

text \<open>A table together with the globals its operations read and write; keys are given as bytes or as integers.\<close>

type_synonym table = "exec_globals \<times> hashtable"

definition table_get :: "table \<Rightarrow> hkey \<Rightarrow> zval option option" where
  "table_get = (\<lambda>(eg, ht) k.
     case (case k of StrKey s \<Rightarrow> zend_hash_str_find ht s | IntKey h \<Rightarrow> zend_hash_index_find ht h) of
       Inl _ \<Rightarrow> None | Inr r \<Rightarrow> Some (map_option (loc_val eg ht) r))"

definition table_put :: "table \<Rightarrow> hkey \<Rightarrow> zval \<Rightarrow> table option" where
  "table_put = (\<lambda>(eg, ht) k v.
     case (case k of StrKey s \<Rightarrow> zend_hash_str_update eg ht s v | IntKey h \<Rightarrow> zend_hash_index_update eg ht h v) of
       Inr (Some _, eg, ht) \<Rightarrow> Some (eg, ht) | _ \<Rightarrow> None)"

definition table_unset :: "table \<Rightarrow> hkey \<Rightarrow> table option" where
  "table_unset = (\<lambda>(eg, ht) k.
     case (case k of StrKey s \<Rightarrow> zend_hash_str_del eg ht s | IntKey h \<Rightarrow> zend_hash_index_del eg ht h) of
       Inr (_, eg, ht) \<Rightarrow> Some (eg, ht) | _ \<Rightarrow> None)"

text \<open>Deleting does not change the size or the layout.\<close>

definition same_layout :: "hashtable \<Rightarrow> hashtable \<Rightarrow> bool" where
  "same_layout ht ht' \<longleftrightarrow> nTableSize ht' = nTableSize ht \<and> ht_packed ht' = ht_packed ht \<and> ht_uninit ht' = ht_uninit ht"

lemma same_layout_refl [simp]: "same_layout ht ht"
  by (simp add: same_layout_def)

lemma same_layout_cap: "same_layout ht ht' \<Longrightarrow> table_cap ht' = table_cap ht"
  by (simp add: same_layout_def table_cap_def)

lemma shrink_used_layout: "shrink_used dead idx eg ht = (eg', ht') \<Longrightarrow> same_layout ht ht'"
  by (auto simp: shrink_used_def same_layout_def Let_def split: if_splits)

lemma packed_del_layout: "zend_hash_packed_del_val' eg ht idx = (eg', ht') \<Longrightarrow> same_layout ht ht'"
  by (auto simp: zend_hash_packed_del_val'_def Let_def shrink_used_def same_layout_def split: if_splits)

lemma del_el_ex_layout: "zend_hash_del_el_ex eg ht idx prev = (eg', ht') \<Longrightarrow> same_layout ht ht'"
  by (auto simp: zend_hash_del_el_ex_def Let_def shrink_used_def same_layout_def HT_HASH_SET_def split: if_splits option.splits)

lemma del_keyed_layout: "del_keyed eg ht idx prev = (ok, eg', ht') \<Longrightarrow> same_layout ht ht'"
  using del_el_ex_layout by (fastforce simp: del_keyed_def release_key_def same_layout_def split: option.splits prod.splits)

lemma del_walk_layout:
  assumes "\<And>idx prev ok eg' ht'. act idx prev = (ok, eg', ht') \<Longrightarrow> same_layout ht ht'"
    "del_walk P h act eg ht = Inr (ok, eg', ht')"
  shows "same_layout ht ht'"
  using assms by (auto simp: del_walk_def split: option.splits if_splits prod.splits)

lemma table_unset_layout:
  assumes "table_unset (eg, ht) k = Some (eg', ht')"
  shows "same_layout ht ht'"
proof (cases k)
  case (StrKey s)
  then obtain b where "zend_hash_str_del eg ht s = Inr (b, eg', ht')" using assms by (auto simp: table_unset_def split: sum.splits)
  then show ?thesis unfolding zend_hash_str_del_def Let_def using del_walk_layout del_keyed_layout by blast
next
  case (IntKey h)
  then obtain b where r: "zend_hash_index_del eg ht h = Inr (b, eg', ht')" using assms by (auto simp: table_unset_def split: sum.splits)
  show ?thesis
  proof (cases "ht_packed ht")
    case True
    then show ?thesis using r packed_del_layout [of eg ht "unat h" eg' ht'] by (auto simp: zend_hash_index_del_def split: if_splits)
  next
    case False
    then have "del_walk (match_index h) h (\<lambda>idx prev. (True, zend_hash_del_el_ex eg ht idx prev)) eg ht = Inr (b, eg', ht')"
      using r by (simp add: zend_hash_index_del_def)
    then show ?thesis by (rule del_walk_layout [rotated]) (auto dest: del_el_ex_layout)
  qed
qed

lemma cap_room: "table_cap ht < HT_MAX_SIZE \<Longrightarrow> nTableSize ht < HT_MAX_SIZE \<and> has_room ht"
  by (auto simp: table_cap_def has_room_def split: if_splits)

lemma table_get_ok: "ht_inv (snd t) \<Longrightarrow> table_get t k = Some (map_of (ht_entries (snd t)) k)"
proof (cases k)
  case (StrKey s)
  assume "ht_inv (snd t)"
  from zend_hash_find_ok(2) [OF this, of s "fst t"] show ?thesis using StrKey by (auto simp: table_get_def case_prod_beta)
next
  case (IntKey h)
  assume "ht_inv (snd t)"
  from zend_hash_find_ok(3) [OF this, of h "fst t"] show ?thesis using IntKey by (auto simp: table_get_def case_prod_beta)
qed

lemma table_put_ok:
  assumes "ht_inv (snd t)" "table_cap (snd t) < HT_MAX_SIZE" "v \<noteq> IS_UNDEF"
  shows "\<exists>t'. table_put t k v = Some t' \<and> ht_inv (snd t') \<and> ht_entries (snd t') = AList.update k v (ht_entries (snd t)) \<and>
    table_cap (snd t') \<le> max (table_cap (snd t)) (8 * length (ht_entries (snd t')))"
proof (cases k)
  case (StrKey s)
  then show ?thesis using zend_hash_str_update_ok [OF assms(1) _ assms(3), of "fst t" s] cap_room [OF assms(2)]
    by (cases t) (auto simp: table_put_def updates_def)
next
  case (IntKey h)
  then show ?thesis using zend_hash_index_update_ok [OF assms(1) _ assms(3), of "fst t" h] cap_room [OF assms(2)]
    by (cases t) (auto simp: table_put_def updates_def)
qed

lemma table_unset_ok:
  assumes "ht_inv (snd t)"
  shows "\<exists>t'. table_unset t k = Some t' \<and> ht_inv (snd t') \<and> ht_entries (snd t') = AList.delete k (ht_entries (snd t)) \<and>
    table_cap (snd t') \<le> table_cap (snd t)"
proof -
  obtain eg ht where t: "t = (eg, ht)" by (cases t)
  have "\<exists>eg' ht'. table_unset (eg, ht) k = Some (eg', ht') \<and> ht_inv ht' \<and> ht_entries ht' = AList.delete k (ht_entries ht)"
  proof (cases k)
    case (StrKey s)
    from zend_hash_str_del_ok [of ht s eg] assms show ?thesis unfolding t StrKey by (auto simp: table_unset_def deletes_def)
  next
    case (IntKey h)
    from zend_hash_index_del_ok [of ht h eg] assms show ?thesis unfolding t IntKey by (auto simp: table_unset_def deletes_def)
  qed
  then obtain eg' ht' where r: "table_unset (eg, ht) k = Some (eg', ht')" "ht_inv ht'" "ht_entries ht' = AList.delete k (ht_entries ht)"
    by blast
  moreover have "table_cap ht' = table_cap ht" using same_layout_cap [OF table_unset_layout [OF r(1)]] .
  ultimately show ?thesis using t by auto
qed

interpretation hash_map: ordered_map "\<lambda>t. ht_inv (snd t)" "\<lambda>t. ht_entries (snd t)" "\<lambda>t. table_cap (snd t)" HT_MAX_SIZE
  "\<lambda>v. v \<noteq> IS_UNDEF" table_get table_put table_unset
  by unfold_locales (use table_get_ok table_put_ok table_unset_ok ht_inv_content in \<open>auto simp: content_ok_def\<close>)


end
