(* ===== verification/Hash_Traverse.thy ===== *)
theory Hash_Traverse
  imports Hash_Insert
begin

text \<open>
  Positions and traversal: the internal pointer, external positions (\<^verbatim>\<open>HashPosition\<close>) and foreach
  iterators.  The theorems say that positions skip holes and that walking a table from the start
  yields its entries in order.
\<close>

section \<open>Cells\<close>

definition cell_val :: "hashtable \<Rightarrow> nat \<Rightarrow> zval" where
  "cell_val ht i = (if ht_packed ht then arPacked ht ! i else b_val (arData ht ! i))"

function get_valid_pos :: "hashtable \<Rightarrow> nat \<Rightarrow> nat" where
  "get_valid_pos ht pos =
     (if pos < nNumUsed ht \<and> cell_val ht pos = IS_UNDEF then get_valid_pos ht (Suc pos) else pos)"
  by pat_completeness auto
termination by (relation "measure (\<lambda>(ht, pos). nNumUsed ht - pos)") auto

declare get_valid_pos.simps [simp del]

definition zend_hash_get_current_pos :: "hashtable \<Rightarrow> nat" where
  "zend_hash_get_current_pos ht = get_valid_pos ht (nInternalPointer ht)"

definition zend_hash_get_current_pos_ex :: "hashtable \<Rightarrow> nat \<Rightarrow> nat" where
  "zend_hash_get_current_pos_ex ht pos = get_valid_pos ht pos"

definition zend_hash_internal_pointer_reset_ex :: "hashtable \<Rightarrow> nat" where
  "zend_hash_internal_pointer_reset_ex ht = get_valid_pos ht 0"

fun last_used :: "hashtable \<Rightarrow> nat \<Rightarrow> nat" where
  "last_used ht 0 = nNumUsed ht"
| "last_used ht (Suc idx) = (if cell_val ht idx \<noteq> IS_UNDEF then idx else last_used ht idx)"

definition zend_hash_internal_pointer_end_ex :: "hashtable \<Rightarrow> nat" where
  "zend_hash_internal_pointer_end_ex ht = last_used ht (nNumUsed ht)"

function forward_loop :: "hashtable \<Rightarrow> nat \<Rightarrow> nat" where
  "forward_loop ht idx =
     (if idx \<ge> nNumUsed ht then nNumUsed ht
      else if cell_val ht idx \<noteq> IS_UNDEF then idx else forward_loop ht (Suc idx))"
  by pat_completeness auto
termination by (relation "measure (\<lambda>(ht, pos). nNumUsed ht - pos)") auto

declare forward_loop.simps [simp del]

text \<open>The result is the new position and \<^verbatim>\<open>SUCCESS\<close>.\<close>

definition zend_hash_move_forward_ex :: "hashtable \<Rightarrow> nat \<Rightarrow> nat \<times> bool" where
  "zend_hash_move_forward_ex ht pos =
     (let idx = get_valid_pos ht pos
      in if idx < nNumUsed ht then (forward_loop ht (Suc idx), True) else (pos, False))"

definition zend_hash_move_backwards_ex :: "hashtable \<Rightarrow> nat \<Rightarrow> nat \<times> bool" where
  "zend_hash_move_backwards_ex ht pos = (if pos < nNumUsed ht then (last_used ht pos, True) else (pos, False))"

datatype zend_hash_key_type = HASH_KEY_IS_STRING | HASH_KEY_IS_LONG | HASH_KEY_NON_EXISTENT

text \<open>The type, the string written to \<^verbatim>\<open>*str_index\<close> and the number written to \<^verbatim>\<open>*num_index\<close>.\<close>

definition zend_hash_get_current_key_ex ::
  "hashtable \<Rightarrow> nat \<Rightarrow> zend_hash_key_type \<times> zend_string option \<times> u64 option" where
  "zend_hash_get_current_key_ex ht pos =
     (let idx = get_valid_pos ht pos
      in if idx < nNumUsed ht
         then (if ht_packed ht then (HASH_KEY_IS_LONG, None, Some (of_nat idx))
               else case b_key (arData ht ! idx) of
                      Some key \<Rightarrow> (HASH_KEY_IS_STRING, Some key, None)
                    | None \<Rightarrow> (HASH_KEY_IS_LONG, None, Some (b_h (arData ht ! idx))))
         else (HASH_KEY_NON_EXISTENT, None, None))"

definition zend_hash_get_current_key_zval_ex :: "hashtable \<Rightarrow> nat \<Rightarrow> zval" where
  "zend_hash_get_current_key_zval_ex ht pos =
     (let idx = get_valid_pos ht pos
      in if idx \<ge> nNumUsed ht then IS_NULL
         else if ht_packed ht then IS_LONG (of_nat idx)
         else case b_key (arData ht ! idx) of
                Some key \<Rightarrow> IS_STRING key
              | None \<Rightarrow> IS_LONG (b_h (arData ht ! idx)))"

definition zend_hash_get_current_key_type_ex :: "hashtable \<Rightarrow> nat \<Rightarrow> zend_hash_key_type" where
  "zend_hash_get_current_key_type_ex ht pos =
     (let idx = get_valid_pos ht pos
      in if idx < nNumUsed ht
         then (if ht_packed ht then HASH_KEY_IS_LONG
               else case b_key (arData ht ! idx) of Some key \<Rightarrow> HASH_KEY_IS_STRING | None \<Rightarrow> HASH_KEY_IS_LONG)
         else HASH_KEY_NON_EXISTENT)"

definition zend_hash_get_current_data_ex :: "hashtable \<Rightarrow> nat \<Rightarrow> loc option" where
  "zend_hash_get_current_data_ex ht pos =
     (let idx = get_valid_pos ht pos
      in if idx < nNumUsed ht then (if ht_packed ht then Some (LPacked idx) else Some (LData idx)) else None)"

section \<open>Counting\<close>

text \<open>\<^verbatim>\<open>zend_array_recalc_elements\<close> discounts indirect entries whose slot is empty.\<close>

definition empty_indirect :: "exec_globals \<Rightarrow> zval \<Rightarrow> bool" where
  "empty_indirect eg v = (case v of IS_INDIRECT a \<Rightarrow> indirect eg a = IS_UNDEF | _ \<Rightarrow> False)"

definition zend_array_recalc_elements :: "exec_globals \<Rightarrow> hashtable \<Rightarrow> nat" where
  "zend_array_recalc_elements eg ht =
     foldl (\<lambda>num p. if live p \<and> empty_indirect eg (b_val p) then num - 1 else num)
       (nNumOfElements ht) (take (nNumUsed ht) (arData ht))"

text \<open>\<open>is_symtable\<close> is the comparison with the address of the global symbol table.\<close>

definition zend_array_count :: "exec_globals \<Rightarrow> bool \<Rightarrow> hashtable \<Rightarrow> nat \<times> hashtable" where
  "zend_array_count eg is_symtable ht =
     (if ht_empty_ind ht
      then (let num = zend_array_recalc_elements eg ht
            in (num, if nNumOfElements ht = num then ht\<lparr>ht_empty_ind := False\<rparr> else ht))
      else if is_symtable then (zend_array_recalc_elements eg ht, ht)
      else (nNumOfElements ht, ht))"

section \<open>Iterators of a table\<close>

text \<open>Searching the copies of an iterator for the table that is being iterated now.\<close>

definition iterator_find_copy :: "nat \<Rightarrow> hashtable \<Rightarrow> exec_globals \<Rightarrow> nat option" where
  "iterator_find_copy idx ht eg =
     while_option (\<lambda>next. next \<noteq> idx \<and> it_ht (ht_iterators eg ! next) \<noteq> IT_HT (ht_addr ht))
       (\<lambda>next. it_next_copy (ht_iterators eg ! next)) (it_next_copy (ht_iterators eg ! idx))"

definition zend_hash_iterator_find_copy_pos :: "nat \<Rightarrow> hashtable \<Rightarrow> exec_globals \<Rightarrow> (bool \<times> exec_globals) res" where
  "zend_hash_iterator_find_copy_pos idx ht eg =
     (if it_next_copy (ht_iterators eg ! idx) \<noteq> idx
      then (case iterator_find_copy idx ht eg of
              None \<Rightarrow> Inl Diverges
            | Some next \<Rightarrow>
                (if next \<noteq> idx
                 then (let copy = ht_iterators eg ! next;
                           eg = inc_unless_overflow (ht_addr ht) (dec_unless_overflow (it_ht (ht_iterators eg ! idx)) eg);
                           eg = eg\<lparr>ht_iterators := (ht_iterators eg)[idx :=
                                  (ht_iterators eg ! idx)\<lparr>it_ht := it_ht copy, it_pos := it_pos copy\<rparr>]\<rparr>
                       in res_bind (zend_hash_remove_iterator_copies idx eg) (\<lambda>eg. Inr (True, eg)))
                 else res_bind (zend_hash_remove_iterator_copies idx eg) (\<lambda>eg. Inr (False, eg))))
      else Inr (False, eg))"

definition zend_hash_iterator_pos :: "nat \<Rightarrow> hashtable \<Rightarrow> exec_globals \<Rightarrow> (nat \<times> exec_globals) res" where
  "zend_hash_iterator_pos idx ht eg =
     (if it_ht (ht_iterators eg ! idx) \<noteq> IT_HT (ht_addr ht)
      then res_bind (zend_hash_iterator_find_copy_pos idx ht eg) (\<lambda>(found, eg).
             if \<not> found
             then (let eg = inc_unless_overflow (ht_addr ht) (dec_unless_overflow (it_ht (ht_iterators eg ! idx)) eg);
                       pos = get_valid_pos ht (nInternalPointer ht)
                   in Inr (pos, eg\<lparr>ht_iterators := (ht_iterators eg)[idx :=
                             (ht_iterators eg ! idx)\<lparr>it_ht := IT_HT (ht_addr ht), it_pos := pos\<rparr>]\<rparr>))
             else Inr (it_pos (ht_iterators eg ! idx), eg))
      else Inr (it_pos (ht_iterators eg ! idx), eg))"

section \<open>Positions and entries\<close>

lemma cell_val_bucket: "ht_inv ht \<Longrightarrow> i < nNumUsed ht \<Longrightarrow>
   i < length (ht_buckets ht) \<and> b_val (ht_buckets ht ! i) = cell_val ht i"
  using ht_inv_search(4) [of ht]
  by (auto simp: cell_val_def ht_buckets_def packed_bucket_def data_used_def split: if_splits)

lemma length_buckets: "ht_inv ht \<Longrightarrow> length (ht_buckets ht) = nNumUsed ht"
  using ht_inv_search(4) [of ht] by (auto simp: ht_buckets_def data_used_def split: if_splits)

lemma get_valid_pos_spec:
  "pos \<le> get_valid_pos ht pos"
  "pos \<le> i \<Longrightarrow> i < get_valid_pos ht pos \<Longrightarrow> i < nNumUsed ht \<and> cell_val ht i = IS_UNDEF"
  "get_valid_pos ht pos < nNumUsed ht \<Longrightarrow> cell_val ht (get_valid_pos ht pos) \<noteq> IS_UNDEF"
  "pos \<le> nNumUsed ht \<Longrightarrow> get_valid_pos ht pos \<le> nNumUsed ht"
proof -
  have "pos \<le> get_valid_pos ht pos \<and>
    (\<forall>i. pos \<le> i \<and> i < get_valid_pos ht pos \<longrightarrow> i < nNumUsed ht \<and> cell_val ht i = IS_UNDEF) \<and>
    (get_valid_pos ht pos < nNumUsed ht \<longrightarrow> cell_val ht (get_valid_pos ht pos) \<noteq> IS_UNDEF) \<and>
    (pos \<le> nNumUsed ht \<longrightarrow> get_valid_pos ht pos \<le> nNumUsed ht)"
  proof (induction ht pos rule: get_valid_pos.induct)
    case (1 ht pos)
    show ?case
    proof (cases "pos < nNumUsed ht \<and> cell_val ht pos = IS_UNDEF")
      case True
      with 1 have IH: "Suc pos \<le> get_valid_pos ht (Suc pos)"
        "\<forall>i. Suc pos \<le> i \<and> i < get_valid_pos ht (Suc pos) \<longrightarrow> i < nNumUsed ht \<and> cell_val ht i = IS_UNDEF"
        "get_valid_pos ht (Suc pos) < nNumUsed ht \<longrightarrow> cell_val ht (get_valid_pos ht (Suc pos)) \<noteq> IS_UNDEF"
        "Suc pos \<le> nNumUsed ht \<longrightarrow> get_valid_pos ht (Suc pos) \<le> nNumUsed ht" by auto
      moreover have "get_valid_pos ht pos = get_valid_pos ht (Suc pos)" using True by (subst get_valid_pos.simps) auto
      ultimately show ?thesis using True by (auto simp: Suc_le_eq) (metis le_neq_implies_less)+
    next
      case False
      then have "get_valid_pos ht pos = pos" by (subst get_valid_pos.simps) auto
      then show ?thesis using False by auto
    qed
  qed
  then show "pos \<le> get_valid_pos ht pos"
    "pos \<le> i \<Longrightarrow> i < get_valid_pos ht pos \<Longrightarrow> i < nNumUsed ht \<and> cell_val ht i = IS_UNDEF"
    "get_valid_pos ht pos < nNumUsed ht \<Longrightarrow> cell_val ht (get_valid_pos ht pos) \<noteq> IS_UNDEF"
    "pos \<le> nNumUsed ht \<Longrightarrow> get_valid_pos ht pos \<le> nNumUsed ht" by blast+
qed

lemma forward_loop_eq: "idx \<le> nNumUsed ht \<Longrightarrow> forward_loop ht idx = get_valid_pos ht idx"
proof (induction ht idx rule: forward_loop.induct)
  case (1 ht idx)
  then show ?case by (subst forward_loop.simps, subst get_valid_pos.simps) auto
qed

text \<open>The entries from a position on; a walk takes the current one and moves forward.\<close>

definition entries_from :: "hashtable \<Rightarrow> nat \<Rightarrow> (hkey \<times> zval) list" where
  "entries_from ht pos = entries (drop pos (ht_buckets ht))"

function walk :: "hashtable \<Rightarrow> nat \<Rightarrow> (zval \<times> loc option) list" where
  "walk ht pos =
     (case zend_hash_get_current_data_ex ht pos of
        None \<Rightarrow> []
      | Some l \<Rightarrow> (zend_hash_get_current_key_zval_ex ht pos, Some l) # walk ht (fst (zend_hash_move_forward_ex ht pos)))"
  by pat_completeness auto
termination
proof (relation "measure (\<lambda>(ht, pos). nNumUsed ht - pos)")
  fix ht pos l assume "zend_hash_get_current_data_ex ht pos = Some l"
  then have u: "get_valid_pos ht pos < nNumUsed ht" by (auto simp: zend_hash_get_current_data_ex_def Let_def split: if_splits)
  then have "fst (zend_hash_move_forward_ex ht pos) = get_valid_pos ht (Suc (get_valid_pos ht pos))"
    by (simp add: zend_hash_move_forward_ex_def Let_def forward_loop_eq)
  moreover have "Suc (get_valid_pos ht pos) \<le> get_valid_pos ht (Suc (get_valid_pos ht pos))" by (rule get_valid_pos_spec)
  moreover have "pos \<le> get_valid_pos ht pos" by (rule get_valid_pos_spec)
  ultimately show "((ht, fst (zend_hash_move_forward_ex ht pos)), ht, pos) \<in> measure (\<lambda>(ht, pos). nNumUsed ht - pos)"
    using u by simp
qed simp

declare walk.simps [simp del]

definition key_zval :: "zval \<Rightarrow> hkey" where
  "key_zval z = (case z of IS_LONG n \<Rightarrow> IntKey n | IS_STRING s \<Rightarrow> StrKey (zs_val s) | _ \<Rightarrow> IntKey 0)"

lemma entries_from_step:
  assumes inv: "ht_inv ht" and pos: "pos < nNumUsed ht"
  shows "entries_from ht pos = (if cell_val ht pos = IS_UNDEF then [] else [(bucket_key (ht_buckets ht ! pos), cell_val ht pos)])
    @ entries_from ht (Suc pos)"
proof -
  have l: "pos < length (ht_buckets ht)" "b_val (ht_buckets ht ! pos) = cell_val ht pos"
    using cell_val_bucket [OF inv pos] by auto
  have "drop pos (ht_buckets ht) = ht_buckets ht ! pos # drop (Suc pos) (ht_buckets ht)"
    by (rule Cons_nth_drop_Suc [OF l(1), symmetric])
  then show ?thesis using l(2) by (simp add: entries_from_def entries_def)
qed

lemma entries_from_valid: "ht_inv ht \<Longrightarrow> entries_from ht pos = entries_from ht (get_valid_pos ht pos)"
proof (induction ht pos rule: get_valid_pos.induct)
  case (1 ht pos)
  show ?case
  proof (cases "pos < nNumUsed ht \<and> cell_val ht pos = IS_UNDEF")
    case True
    have "get_valid_pos ht pos = get_valid_pos ht (Suc pos)" using True by (subst get_valid_pos.simps) auto
    then show ?thesis using 1 True entries_from_step [of ht pos] by simp
  next
    case False
    then have "get_valid_pos ht pos = pos" by (subst get_valid_pos.simps) auto
    then show ?thesis by simp
  qed
qed

lemma bucket_key_zval:
  "ht_inv ht \<Longrightarrow> get_valid_pos ht pos < nNumUsed ht \<Longrightarrow>
   key_zval (zend_hash_get_current_key_zval_ex ht pos) = bucket_key (ht_buckets ht ! get_valid_pos ht pos)"
  using length_buckets [of ht]
  by (auto simp: zend_hash_get_current_key_zval_ex_def Let_def key_zval_def bucket_key_def ht_buckets_def packed_bucket_def
      split: option.splits)

lemma walk_entries:
  "ht_inv ht \<Longrightarrow> map (\<lambda>(k, l). (key_zval k, loc_val eg ht (the l))) (walk ht pos) = entries_from ht pos"
proof (induction ht pos rule: walk.induct)
  case (1 ht pos)
  let ?i = "get_valid_pos ht pos"
  show ?case
  proof (cases "?i < nNumUsed ht")
    case False
    then have "length (ht_buckets ht) \<le> ?i" using length_buckets [OF 1(2)] by simp
    then have "entries_from ht ?i = []" by (simp add: entries_from_def entries_def)
    moreover have "walk ht pos = []" using False by (subst walk.simps) (simp add: zend_hash_get_current_data_ex_def Let_def)
    ultimately show ?thesis using entries_from_valid [OF 1(2), of pos] by simp
  next
    case True
    obtain l where l: "zend_hash_get_current_data_ex ht pos = Some l" "loc_val eg ht l = cell_val ht ?i"
      using True by (cases "ht_packed ht") (auto simp: zend_hash_get_current_data_ex_def Let_def loc_val_def cell_val_def)
    have fwd: "fst (zend_hash_move_forward_ex ht pos) = get_valid_pos ht (Suc ?i)"
      using True by (simp add: zend_hash_move_forward_ex_def Let_def forward_loop_eq)
    have "walk ht pos = (zend_hash_get_current_key_zval_ex ht pos, Some l) # walk ht (get_valid_pos ht (Suc ?i))"
      by (subst walk.simps) (simp add: l fwd)
    moreover have "entries_from ht pos = (bucket_key (ht_buckets ht ! ?i), cell_val ht ?i) # entries_from ht (Suc ?i)"
      using entries_from_valid [OF 1(2), of pos] entries_from_step [OF 1(2) True] get_valid_pos_spec(3) [OF True] by simp
    ultimately show ?thesis
      using 1(1) [OF l(1) 1(2)] entries_from_valid [OF 1(2), of "Suc ?i"] bucket_key_zval [OF 1(2) True] l(2) fwd by simp
  qed
qed

lemma walk_table:
  "ht_inv ht \<Longrightarrow> map (\<lambda>(k, l). (key_zval k, loc_val eg ht (the l))) (walk ht (zend_hash_internal_pointer_reset_ex ht)) = ht_entries ht"
  using walk_entries [of ht eg] entries_from_valid [of ht 0]
  by (simp add: zend_hash_internal_pointer_reset_ex_def entries_from_def ht_entries_def)

text \<open>Moving backwards undoes moving forward between two live positions.\<close>

lemma last_used_below: "i < idx \<Longrightarrow> cell_val ht i \<noteq> IS_UNDEF \<Longrightarrow> (\<And>j. i < j \<Longrightarrow> j < idx \<Longrightarrow> cell_val ht j = IS_UNDEF) \<Longrightarrow>
   last_used ht idx = i"
proof (induction idx)
  case (Suc idx)
  then show ?case by (cases "i = idx") auto
qed simp

lemma backwards_forward:
  assumes "pos < nNumUsed ht" "cell_val ht pos \<noteq> IS_UNDEF" "zend_hash_move_forward_ex ht pos = (next, True)" "next < nNumUsed ht"
  shows "zend_hash_move_backwards_ex ht next = (pos, True)"
proof -
  have p: "get_valid_pos ht pos = pos" using assms by (subst get_valid_pos.simps) auto
  then have n: "next = get_valid_pos ht (Suc pos)"
    using assms by (auto simp: zend_hash_move_forward_ex_def Let_def forward_loop_eq)
  have "last_used ht next = pos"
    using n get_valid_pos_spec(1) [of "Suc pos" ht] get_valid_pos_spec(2) [of "Suc pos" _ ht] assms(2)
    by (intro last_used_below) auto
  then show ?thesis using assms(4) by (simp add: zend_hash_move_backwards_ex_def)
qed

text \<open>Counting leaves out the entries whose indirect slot is empty.\<close>

lemma recalc_fold:
  "length (filter (\<lambda>p. live p \<and> empty_indirect eg (b_val p)) bs) \<le> n \<Longrightarrow>
   foldl (\<lambda>num p. if live p \<and> empty_indirect eg (b_val p) then num - 1 else num) n bs
   = n - length (filter (\<lambda>p. live p \<and> empty_indirect eg (b_val p)) bs)"
proof (induction bs arbitrary: n)
  case (Cons b bs)
  then show ?case by auto
qed simp

lemma recalc_elements_ok:
  assumes inv: "ht_inv ht" and np: "\<not> ht_packed ht"
  shows "zend_array_recalc_elements eg ht = length (filter (\<lambda>(k, v). \<not> empty_indirect eg v) (ht_entries ht))"
proof -
  let ?bs = "take (nNumUsed ht) (arData ht)"
  have b: "ht_buckets ht = ?bs" using np by (simp add: ht_buckets_def)
  have n: "nNumOfElements ht = length (filter live ?bs)"
    using ht_inv_content [OF inv] by (simp add: content_ok_def ht_entries_def b length_entries)
  have "length (filter live bs) = length (filter (\<lambda>p. live p \<and> empty_indirect eg (b_val p)) bs)
      + length (filter (\<lambda>p. live p \<and> \<not> empty_indirect eg (b_val p)) bs)" for bs
    by (induction bs) auto
  note sp = this [of ?bs]
  have "length (filter (\<lambda>(k, v). \<not> empty_indirect eg v) (entries ?bs)) = length (filter (\<lambda>p. live p \<and> \<not> empty_indirect eg (b_val p)) ?bs)"
    by (simp add: entries_def filter_map comp_def conj_commute)
  then show ?thesis using recalc_fold [of eg ?bs "nNumOfElements ht"] n sp
    by (simp add: zend_array_recalc_elements_def ht_entries_def b)
qed

end
