(* ===== verification/Hash_Bulk.thy ===== *)
theory Hash_Bulk
  imports Hash_Delete Hash_Traverse
begin

text \<open>
  Operations on whole tables: destruction, cleaning, the apply family, copying and merging
  (\<^verbatim>\<open>zend_hash_destroy\<close> to \<^verbatim>\<open>zend_hash_merge_ex\<close>), with the copy constructor \<^verbatim>\<open>zval_add_ref\<close> of
  \<^verbatim>\<open>zend_variables.c\<close>.
\<close>

section \<open>Destruction and cleaning\<close>

definition release_bucket_key :: "bucket \<Rightarrow> exec_globals \<Rightarrow> exec_globals" where
  "release_bucket_key p eg = (case b_key p of Some k \<Rightarrow> zend_string_release k eg | None \<Rightarrow> eg)"

text \<open>The four loops over the buckets of a mixed table that \<^verbatim>\<open>destroy\<close> and \<^verbatim>\<open>clean\<close> share.\<close>

definition destroy_buckets :: "hashtable \<Rightarrow> exec_globals \<Rightarrow> exec_globals" where
  "destroy_buckets ht eg =
     (let ps = take (nNumUsed ht) (arData ht)
      in if pDestructor ht
         then (if HT_HAS_STATIC_KEYS_ONLY ht
               then (if HT_IS_WITHOUT_HOLES ht
                     then fold (\<lambda>p. emit (Dtor (b_val p))) ps eg
                     else fold (\<lambda>p eg. if live p then emit (Dtor (b_val p)) eg else eg) ps eg)
               else if HT_IS_WITHOUT_HOLES ht
               then fold (\<lambda>p eg. release_bucket_key p (emit (Dtor (b_val p)) eg)) ps eg
               else fold (\<lambda>p eg. if live p then release_bucket_key p (emit (Dtor (b_val p)) eg) else eg) ps eg)
         else (if \<not> HT_HAS_STATIC_KEYS_ONLY ht then fold release_bucket_key ps eg else eg))"

definition destroy_packed :: "hashtable \<Rightarrow> exec_globals \<Rightarrow> exec_globals" where
  "destroy_packed ht eg =
     (let zs = take (nNumUsed ht) (arPacked ht)
      in if pDestructor ht
         then (if HT_IS_WITHOUT_HOLES ht
               then fold (\<lambda>zv. emit (Dtor zv)) zs eg
               else fold (\<lambda>zv eg. if zv \<noteq> IS_UNDEF then emit (Dtor zv) eg else eg) zs eg)
         else eg)"

text \<open>\<^verbatim>\<open>zend_hash_destroy\<close>: what is left afterwards is only the effect on the globals.\<close>

definition zend_hash_destroy :: "exec_globals \<Rightarrow> hashtable \<Rightarrow> exec_globals" where
  "zend_hash_destroy eg ht =
     (if nNumUsed ht \<noteq> 0
      then (if ht_packed ht then zend_hash_iterators_remove ht (destroy_packed ht eg)
            else zend_hash_iterators_remove ht (destroy_buckets ht eg))
      else eg)"

text \<open>
  \<^verbatim>\<open>zend_array_destroy\<close>: arrays of values with the default destructor; \<open>other_dtor\<close> says that the
  destructor is another one.
\<close>

definition zend_array_destroy :: "exec_globals \<Rightarrow> bool \<Rightarrow> hashtable \<Rightarrow> exec_globals" where
  "zend_array_destroy eg other_dtor ht =
     (let ps = take (nNumUsed ht) (arData ht)
      in zend_hash_iterators_remove ht
        (if nNumUsed ht \<noteq> 0
         then (if other_dtor then zend_hash_destroy eg ht
               else if ht_packed ht then fold i_zval_ptr_dtor (take (nNumUsed ht) (arPacked ht)) eg
               else if HT_HAS_STATIC_KEYS_ONLY ht then fold (\<lambda>p. i_zval_ptr_dtor (b_val p)) ps eg
               else if HT_IS_WITHOUT_HOLES ht
               then fold (\<lambda>p eg. release_bucket_key p (i_zval_ptr_dtor (b_val p) eg)) ps eg
               else fold (\<lambda>p eg. if live p then release_bucket_key p (i_zval_ptr_dtor (b_val p) eg) else eg) ps eg)
         else eg))"

definition reset_counters :: "hashtable \<Rightarrow> hashtable" where
  "reset_counters ht = ht\<lparr>nNumUsed := 0, nNumOfElements := 0, nNextFreeElement := ZEND_LONG_MIN, nInternalPointer := 0\<rparr>"

definition zend_hash_clean :: "exec_globals \<Rightarrow> hashtable \<Rightarrow> exec_globals \<times> hashtable" where
  "zend_hash_clean eg ht =
     (if nNumUsed ht \<noteq> 0
      then (if ht_packed ht
            then (if HT_HAS_STATIC_KEYS_ONLY ht then destroy_packed ht eg else eg, reset_counters ht)
            else (destroy_buckets ht eg, reset_counters (HT_HASH_RESET ht)))
      else (eg, reset_counters ht))"

definition zend_symtable_clean :: "exec_globals \<Rightarrow> hashtable \<Rightarrow> exec_globals \<times> hashtable" where
  "zend_symtable_clean eg ht =
     (let ps = take (nNumUsed ht) (arData ht)
      in if nNumUsed ht \<noteq> 0
         then (if HT_HAS_STATIC_KEYS_ONLY ht then fold (\<lambda>p. i_zval_ptr_dtor (b_val p)) ps eg
               else if HT_IS_WITHOUT_HOLES ht
               then fold (\<lambda>p eg. release_bucket_key p (i_zval_ptr_dtor (b_val p) eg)) ps eg
               else fold (\<lambda>p eg. if live p then release_bucket_key p (i_zval_ptr_dtor (b_val p) eg) else eg) ps eg,
               reset_counters (HT_HASH_RESET ht))
         else (eg, reset_counters ht))"

section \<open>Deleting and applying\<close>

definition del_cell :: "exec_globals \<Rightarrow> hashtable \<Rightarrow> nat \<Rightarrow> (exec_globals \<times> hashtable) res" where
  "del_cell eg ht idx = (if ht_packed ht then Inr (zend_hash_packed_del_val' eg ht idx) else zend_hash_del_el eg ht idx)"

text \<open>
  \<^verbatim>\<open>for (idx = 0; idx < ht->nNumUsed; idx++)\<close>: the list of indices is the one at the start; the bound is
  read again before each step, and it can only have become smaller.
\<close>

fun graceful_loop :: "nat list \<Rightarrow> exec_globals \<Rightarrow> hashtable \<Rightarrow> (exec_globals \<times> hashtable) res" where
  "graceful_loop [] eg ht = Inr (eg, ht)"
| "graceful_loop (idx # is) eg ht =
     (if \<not> idx < nNumUsed ht then Inr (eg, ht)
      else if cell_val ht idx = IS_UNDEF then graceful_loop is eg ht
      else res_bind (del_cell eg ht idx) (\<lambda>(eg, ht). graceful_loop is eg ht))"

definition zend_hash_graceful_destroy :: "exec_globals \<Rightarrow> hashtable \<Rightarrow> (exec_globals \<times> hashtable) res" where
  "zend_hash_graceful_destroy eg ht = graceful_loop [0 ..< nNumUsed ht] eg ht"

fun graceful_reverse_loop :: "nat list \<Rightarrow> exec_globals \<Rightarrow> hashtable \<Rightarrow> (exec_globals \<times> hashtable) res" where
  "graceful_reverse_loop [] eg ht = Inr (eg, ht)"
| "graceful_reverse_loop (idx # is) eg ht =
     (if cell_val ht idx = IS_UNDEF then graceful_reverse_loop is eg ht
      else res_bind (del_cell eg ht idx) (\<lambda>(eg, ht). graceful_reverse_loop is eg ht))"

definition zend_hash_graceful_reverse_destroy :: "exec_globals \<Rightarrow> hashtable \<Rightarrow> (exec_globals \<times> hashtable) res" where
  "zend_hash_graceful_reverse_destroy eg ht = graceful_reverse_loop (rev [0 ..< nNumUsed ht]) eg ht"

text \<open>
  The callback of the apply family gets the value (and the key), may change it in place, keeps a
  state of its own, and says whether to remove the element and whether to stop.
\<close>

type_synonym 's apply_func = "'s \<Rightarrow> u64 \<times> zend_string option \<Rightarrow> zval \<Rightarrow> 's \<times> zval \<times> bool \<times> bool"

definition cell_key :: "hashtable \<Rightarrow> nat \<Rightarrow> u64 \<times> zend_string option" where
  "cell_key ht i = (if ht_packed ht then (of_nat i, None) else (b_h (arData ht ! i), b_key (arData ht ! i)))"

definition cell_loc :: "hashtable \<Rightarrow> nat \<Rightarrow> loc" where
  "cell_loc ht i = (if ht_packed ht then LPacked i else LData i)"

definition apply_step ::
  "'s apply_func \<Rightarrow> nat \<Rightarrow> 's \<Rightarrow> exec_globals \<Rightarrow> hashtable \<Rightarrow> (bool \<times> 's \<times> exec_globals \<times> hashtable) res" where
  "apply_step f idx s eg ht =
     (case f s (cell_key ht idx) (cell_val ht idx) of (s, v, remove, stop) \<Rightarrow>
        (case store (cell_loc ht idx) v eg ht of (eg, ht) \<Rightarrow>
           res_bind (if remove then del_cell eg ht idx else Inr (eg, ht)) (\<lambda>(eg, ht). Inr (stop, s, eg, ht))))"

fun apply_loop :: "'s apply_func \<Rightarrow> nat list \<Rightarrow> 's \<Rightarrow> exec_globals \<Rightarrow> hashtable \<Rightarrow> ('s \<times> exec_globals \<times> hashtable) res" where
  "apply_loop f [] s eg ht = Inr (s, eg, ht)"
| "apply_loop f (idx # is) s eg ht =
     (if \<not> idx < nNumUsed ht then Inr (s, eg, ht)
      else if cell_val ht idx = IS_UNDEF then apply_loop f is s eg ht
      else res_bind (apply_step f idx s eg ht) (\<lambda>(stop, s, eg, ht).
             if stop then Inr (s, eg, ht) else apply_loop f is s eg ht))"

text \<open>\<^verbatim>\<open>zend_hash_apply\<close> and \<^verbatim>\<open>zend_hash_apply_with_argument\<close> do not pass the key.\<close>

definition zend_hash_apply ::
  "('s \<Rightarrow> zval \<Rightarrow> 's \<times> zval \<times> bool \<times> bool) \<Rightarrow> 's \<Rightarrow> exec_globals \<Rightarrow> hashtable \<Rightarrow> ('s \<times> exec_globals \<times> hashtable) res" where
  "zend_hash_apply f s eg ht = apply_loop (\<lambda>s k v. f s v) [0 ..< nNumUsed ht] s eg ht"

definition zend_hash_apply_with_argument ::
  "('s \<Rightarrow> zval \<Rightarrow> 'a \<Rightarrow> 's \<times> zval \<times> bool \<times> bool) \<Rightarrow> 'a \<Rightarrow> 's \<Rightarrow> exec_globals \<Rightarrow> hashtable \<Rightarrow> ('s \<times> exec_globals \<times> hashtable) res" where
  "zend_hash_apply_with_argument f argument s eg ht = apply_loop (\<lambda>s k v. f s v argument) [0 ..< nNumUsed ht] s eg ht"

definition zend_hash_apply_with_arguments ::
  "'s apply_func \<Rightarrow> 's \<Rightarrow> exec_globals \<Rightarrow> hashtable \<Rightarrow> ('s \<times> exec_globals \<times> hashtable) res" where
  "zend_hash_apply_with_arguments f s eg ht = apply_loop f [0 ..< nNumUsed ht] s eg ht"

fun reverse_apply_loop :: "'s apply_func \<Rightarrow> nat list \<Rightarrow> 's \<Rightarrow> exec_globals \<Rightarrow> hashtable \<Rightarrow> ('s \<times> exec_globals \<times> hashtable) res" where
  "reverse_apply_loop f [] s eg ht = Inr (s, eg, ht)"
| "reverse_apply_loop f (idx # is) s eg ht =
     (if cell_val ht idx = IS_UNDEF then reverse_apply_loop f is s eg ht
      else res_bind (apply_step f idx s eg ht) (\<lambda>(stop, s, eg, ht).
             if stop then Inr (s, eg, ht) else reverse_apply_loop f is s eg ht))"

definition zend_hash_reverse_apply ::
  "('s \<Rightarrow> zval \<Rightarrow> 's \<times> zval \<times> bool \<times> bool) \<Rightarrow> 's \<Rightarrow> exec_globals \<Rightarrow> hashtable \<Rightarrow> ('s \<times> exec_globals \<times> hashtable) res" where
  "zend_hash_reverse_apply f s eg ht = reverse_apply_loop (\<lambda>s k v. f s v) (rev [0 ..< nNumUsed ht]) s eg ht"

section \<open>Copying and merging\<close>

text \<open>Which values carry a reference count (arrays are the mutable ones).\<close>

definition Z_OPT_REFCOUNTED :: "zval \<Rightarrow> bool" where
  "Z_OPT_REFCOUNTED v = (case v of
       IS_STRING s \<Rightarrow> \<not> zs_interned s
     | IS_ARRAY _ \<Rightarrow> True | IS_OBJECT _ \<Rightarrow> True | IS_RESOURCE _ \<Rightarrow> True | IS_REFERENCE _ \<Rightarrow> True
     | IS_CONSTANT_AST _ \<Rightarrow> True
     | _ \<Rightarrow> False)"

text \<open>
  The copy constructor \<^verbatim>\<open>zval_add_ref\<close>, called on a value that has just been copied: a reference with a
  single owner gives way to a copy of its value, any other counted value gets one more owner.  The counts of
  references, which decide this, are kept in the globals, \<^verbatim>\<open>uint32_t\<close> as in the code; for other values the
  increment is an event.
\<close>

definition Z_ADDREF :: "zval \<Rightarrow> exec_globals \<Rightarrow> exec_globals" where
  "Z_ADDREF v eg =
     emit (Val_addref v)
       (case v of
          IS_REFERENCE r \<Rightarrow> eg\<lparr>refs := (refs eg)(r := ((fst (refs eg r) + 1) mod 2 ^ 32, snd (refs eg r)))\<rparr>
        | _ \<Rightarrow> eg)"

definition ZVAL_COPY :: "zval \<Rightarrow> exec_globals \<Rightarrow> zval \<times> exec_globals" where
  "ZVAL_COPY v eg = (v, if Z_OPT_REFCOUNTED v then Z_ADDREF v eg else eg)"

definition zval_add_ref :: "zval \<Rightarrow> exec_globals \<Rightarrow> zval \<times> exec_globals" where
  "zval_add_ref p eg =
     (if Z_OPT_REFCOUNTED p
      then (case p of
              IS_REFERENCE r \<Rightarrow> (if fst (refs eg r) = 1 then ZVAL_COPY (snd (refs eg r)) eg else (p, Z_ADDREF p eg))
            | _ \<Rightarrow> (p, Z_ADDREF p eg))
      else (p, eg))"

text \<open>
  A copy constructor works on the stored value, which it may replace, and on the globals; \<open>None\<close> is the null
  pointer.  \<^verbatim>\<open>Z_INDIRECT\<close> reads through an indirect value.
\<close>

type_synonym copy_ctor = "(zval \<Rightarrow> exec_globals \<Rightarrow> zval \<times> exec_globals) option"

definition copy_construct :: "copy_ctor \<Rightarrow> loc option \<times> exec_globals \<times> hashtable \<Rightarrow> exec_globals \<times> hashtable" where
  "copy_construct ctor = (\<lambda>(t, eg, ht). case (t, ctor) of
       (Some l, Some c) \<Rightarrow> (case c (loc_val eg ht l) eg of (v, eg) \<Rightarrow> store l v eg ht)
     | _ \<Rightarrow> (eg, ht))"

definition deref_ind :: "exec_globals \<Rightarrow> zval \<Rightarrow> zval" where
  "deref_ind eg v = (case v of IS_INDIRECT a \<Rightarrow> indirect eg a | _ \<Rightarrow> v)"

text \<open>A loop over the used cells of the source; each step may update the target.\<close>

definition for_cells :: "nat list \<Rightarrow> (nat \<Rightarrow> exec_globals \<Rightarrow> hashtable \<Rightarrow> (exec_globals \<times> hashtable) res) \<Rightarrow>
    exec_globals \<Rightarrow> hashtable \<Rightarrow> (exec_globals \<times> hashtable) res" where
  "for_cells is step eg target = foldl (\<lambda>r i. res_bind r (\<lambda>(eg, target). step i eg target)) (Inr (eg, target)) is"

definition copy_step :: "copy_ctor \<Rightarrow> hashtable \<Rightarrow> nat \<Rightarrow> exec_globals \<Rightarrow> hashtable \<Rightarrow> (exec_globals \<times> hashtable) res" where
  "copy_step ctor source idx eg target =
     (if ht_packed source
      then (if arPacked source ! idx = IS_UNDEF then Inr (eg, target)
            else res_bind (zend_hash_index_update eg target (of_nat idx) (arPacked source ! idx)) (\<lambda>r. Inr (copy_construct ctor r)))
      else (let p = arData source ! idx; data = deref_ind eg (b_val p)
            in if \<not> live p then Inr (eg, target)
               else if data = IS_UNDEF then Inr (eg, target)
               else res_bind (case b_key p of
                      Some key \<Rightarrow> zend_hash_update eg target key data
                    | None \<Rightarrow> zend_hash_index_update eg target (b_h p) data)
                    (\<lambda>r. Inr (copy_construct ctor r))))"

definition zend_hash_copy :: "exec_globals \<Rightarrow> hashtable \<Rightarrow> hashtable \<Rightarrow> copy_ctor \<Rightarrow> (exec_globals \<times> hashtable) res" where
  "zend_hash_copy eg target source ctor = for_cells [0 ..< nNumUsed source] (copy_step ctor source) eg target"

definition merge_step :: "copy_ctor \<Rightarrow> bool \<Rightarrow> hashtable \<Rightarrow> nat \<Rightarrow> exec_globals \<Rightarrow> hashtable \<Rightarrow> (exec_globals \<times> hashtable) res" where
  "merge_step ctor overwrite source idx eg target =
     (if ht_packed source
      then (if arPacked source ! idx = IS_UNDEF then Inr (eg, target)
            else res_bind (if overwrite then zend_hash_index_update eg target (of_nat idx) (arPacked source ! idx)
                           else zend_hash_index_add eg target (of_nat idx) (arPacked source ! idx))
                   (\<lambda>r. Inr (copy_construct ctor r)))
      else (let p = arData source ! idx; s = deref_ind eg (b_val p)
            in if s = IS_UNDEF then Inr (eg, target)
               else res_bind (case b_key p of
                      Some key \<Rightarrow> zend_hash_add_or_update_i eg target key s
                        (if overwrite then no_flag\<lparr>HASH_UPDATE := True, HASH_UPDATE_INDIRECT := True\<rparr>
                         else no_flag\<lparr>HASH_ADD := True, HASH_UPDATE_INDIRECT := True\<rparr>)
                    | None \<Rightarrow> (if overwrite then zend_hash_index_update eg target (b_h p) s
                               else zend_hash_index_add eg target (b_h p) s))
                    (\<lambda>r. Inr (copy_construct ctor r))))"

definition zend_hash_merge :: "exec_globals \<Rightarrow> hashtable \<Rightarrow> hashtable \<Rightarrow> copy_ctor \<Rightarrow> bool \<Rightarrow> (exec_globals \<times> hashtable) res" where
  "zend_hash_merge eg target source ctor overwrite =
     for_cells [0 ..< nNumUsed source] (merge_step ctor overwrite source) eg target"

text \<open>
  \<^verbatim>\<open>zend_hash_merge_ex\<close> asks a checker about each element of a mixed source; all its keys are strings.
\<close>

definition merge_ex_step :: "copy_ctor \<Rightarrow> (hashtable \<Rightarrow> zval \<Rightarrow> u64 \<times> zend_string option \<Rightarrow> bool) \<Rightarrow> hashtable \<Rightarrow>
    nat \<Rightarrow> exec_globals \<Rightarrow> hashtable \<Rightarrow> (exec_globals \<times> hashtable) res" where
  "merge_ex_step ctor checker source idx eg target =
     (let p = arData source ! idx
      in if \<not> live p then Inr (eg, target)
         else if checker target (b_val p) (b_h p, b_key p)
         then (case b_key p of
                 Some key \<Rightarrow> res_bind (zend_hash_update eg target key (b_val p)) (\<lambda>r. Inr (copy_construct ctor r))
               | None \<Rightarrow> Inl Null_Deref)
         else Inr (eg, target))"

definition zend_hash_merge_ex :: "exec_globals \<Rightarrow> hashtable \<Rightarrow> hashtable \<Rightarrow> copy_ctor \<Rightarrow>
    (hashtable \<Rightarrow> zval \<Rightarrow> u64 \<times> zend_string option \<Rightarrow> bool) \<Rightarrow> (exec_globals \<times> hashtable) res" where
  "zend_hash_merge_ex eg target source ctor checker =
     for_cells [0 ..< nNumUsed source] (merge_ex_step ctor checker source) eg target"

end
