(* ===== verification/Hash_Dup.thy ===== *)
theory Hash_Dup
  imports Hash_Bulk
begin

text \<open>
  \<^verbatim>\<open>zend_array_dup\<close> and its helpers, \<^verbatim>\<open>zend_array_to_list\<close>, and the iterator function that separates an
  array.  Duplication resolves indirect values, drops the empty ones and unwraps references with
  a single owner; the copy of a table with holes is compact.  The references that are kept get one more
  owner, which is an entry of the log here: it does not make a count 1 that is read later.
\<close>

section \<open>Values\<close>

definition unwrap_ref :: "exec_globals \<Rightarrow> nat \<Rightarrow> zval \<Rightarrow> zval" where
  "unwrap_ref eg src v = (case v of
       IS_REFERENCE r \<Rightarrow> (if fst (refs eg r) = 1 \<and> snd (refs eg r) \<noteq> IS_ARRAY src then snd (refs eg r) else v)
     | _ \<Rightarrow> v)"

definition dup_refcounted :: "nat \<Rightarrow> zval \<Rightarrow> exec_globals \<Rightarrow> zval \<times> exec_globals" where
  "dup_refcounted src data eg =
     (if Z_OPT_REFCOUNTED data
      then (let data = unwrap_ref eg src data
            in if Z_OPT_REFCOUNTED data then (data, emit (Val_addref data) eg) else (data, eg))
      else (data, eg))"

text \<open>\<^verbatim>\<open>zend_array_dup_value\<close>: \<open>None\<close> when there is nothing to copy.\<close>

definition zend_array_dup_value :: "hashtable \<Rightarrow> zval \<Rightarrow> bool \<Rightarrow> bool \<Rightarrow> exec_globals \<Rightarrow> zval option \<times> exec_globals" where
  "zend_array_dup_value source data packed with_holes eg =
     (let ind = (\<not> packed \<and> (case data of IS_INDIRECT _ \<Rightarrow> True | _ \<Rightarrow> False));
          data = (if ind then deref_ind eg data else data)
      in if (with_holes \<or> ind) \<and> data = IS_UNDEF then (None, eg)
         else (case dup_refcounted (ht_addr source) data eg of (v, eg) \<Rightarrow> (Some v, eg)))"

text \<open>\<^verbatim>\<open>zend_array_dup_element\<close> for the mixed layout, writing bucket \<open>idx\<close> of the target.\<close>

definition zend_array_dup_element ::
  "hashtable \<Rightarrow> bucket \<Rightarrow> nat \<Rightarrow> bool \<Rightarrow> bool \<Rightarrow> exec_globals \<Rightarrow> hashtable \<Rightarrow> bool \<times> exec_globals \<times> hashtable" where
  "zend_array_dup_element source p idx static_keys with_holes eg target =
     (case zend_array_dup_value source (b_val p) False with_holes eg of
        (None, eg) \<Rightarrow> (False, eg, target)
      | (Some v, eg) \<Rightarrow>
          (let q = (arData target ! idx)\<lparr>b_val := v, b_h := b_h p, b_key := b_key p\<rparr>;
               eg = (if \<not> static_keys then (case b_key p of Some k \<Rightarrow> zend_string_addref k eg | None \<Rightarrow> eg) else eg)
           in (True, eg, link_bucket idx (target\<lparr>arData := (arData target)[idx := q]\<rparr>))))"

section \<open>Iterators\<close>

text \<open>Every iterator of the source gets a copy on the target, linked into its ring of copies.\<close>

definition dup_iterator :: "hashtable \<Rightarrow> hashtable \<Rightarrow> nat \<Rightarrow> exec_globals \<Rightarrow> exec_globals" where
  "dup_iterator source target i eg =
     (if it_ht (ht_iterators eg ! i) = IT_HT (ht_addr source)
      then (case zend_hash_iterator_add target (it_pos (ht_iterators eg ! i)) eg of (copy, eg) \<Rightarrow>
              set_next_copy i copy (set_next_copy copy (it_next_copy (ht_iterators eg ! i)) eg))
      else eg)"

definition zend_array_dup_ht_iterators :: "hashtable \<Rightarrow> hashtable \<Rightarrow> exec_globals \<Rightarrow> exec_globals" where
  "zend_array_dup_ht_iterators source target eg = fold (dup_iterator source target) [0 ..< ht_iterators_used eg] eg"

section \<open>Elements\<close>

fun dup_packed_loop :: "hashtable \<Rightarrow> bool \<Rightarrow> nat list \<Rightarrow> exec_globals \<Rightarrow> hashtable \<Rightarrow> exec_globals \<times> hashtable" where
  "dup_packed_loop source with_holes [] eg target = (eg, target)"
| "dup_packed_loop source with_holes (i # is) eg target =
     (case zend_array_dup_value source (arPacked source ! i) True with_holes eg of
        (None, eg) \<Rightarrow> dup_packed_loop source with_holes is eg
                       (if with_holes then target\<lparr>arPacked := (arPacked target)[i := IS_UNDEF]\<rparr> else target)
      | (Some v, eg) \<Rightarrow> dup_packed_loop source with_holes is eg (target\<lparr>arPacked := (arPacked target)[i := v]\<rparr>))"

definition zend_array_dup_packed_elements :: "hashtable \<Rightarrow> hashtable \<Rightarrow> bool \<Rightarrow> exec_globals \<Rightarrow> exec_globals \<times> hashtable" where
  "zend_array_dup_packed_elements source target with_holes eg =
     (case dup_packed_loop source with_holes [0 ..< nNumUsed source] eg target of (eg, target) \<Rightarrow>
        (if HT_HAS_ITERATORS eg source then zend_array_dup_ht_iterators source target eg else eg, target))"

text \<open>The compaction after the first element that is not copied, with and without iterators on the target.\<close>

definition dup_set_pointer :: "hashtable \<Rightarrow> nat \<Rightarrow> nat \<Rightarrow> hashtable \<Rightarrow> hashtable" where
  "dup_set_pointer source idx target_idx target =
     (if nInternalPointer source = idx then target\<lparr>nInternalPointer := target_idx\<rparr> else target)"

fun dup_compact :: "hashtable \<Rightarrow> bool \<Rightarrow> bool \<Rightarrow> nat list \<Rightarrow> nat \<Rightarrow> exec_globals \<Rightarrow> hashtable \<Rightarrow> exec_globals \<times> hashtable \<times> nat" where
  "dup_compact source static_keys with_holes [] j eg target = (eg, target, j)"
| "dup_compact source static_keys with_holes (i # is) j eg target =
     (case zend_array_dup_element source (arData source ! i) j static_keys with_holes eg target of
        (True, eg, target) \<Rightarrow> dup_compact source static_keys with_holes is (Suc j) eg (dup_set_pointer source i j target)
      | (False, eg, target) \<Rightarrow> dup_compact source static_keys with_holes is j eg target)"

fun dup_compact_iter :: "hashtable \<Rightarrow> bool \<Rightarrow> bool \<Rightarrow> nat list \<Rightarrow> nat \<Rightarrow> nat \<Rightarrow> exec_globals \<Rightarrow> hashtable \<Rightarrow>
    (exec_globals \<times> hashtable \<times> nat) res" where
  "dup_compact_iter source static_keys with_holes [] j iter_pos eg target = Inr (eg, target, j)"
| "dup_compact_iter source static_keys with_holes (i # is) j iter_pos eg target =
     (case zend_array_dup_element source (arData source ! i) j static_keys with_holes eg target of
        (True, eg, target) \<Rightarrow>
          (let target = dup_set_pointer source i j target
           in if i \<ge> iter_pos
              then res_bind (migrate_iterators target i j iter_pos eg) (\<lambda>(iter_pos, eg).
                     dup_compact_iter source static_keys with_holes is (Suc j) iter_pos eg target)
              else dup_compact_iter source static_keys with_holes is (Suc j) iter_pos eg target)
      | (False, eg, target) \<Rightarrow> dup_compact_iter source static_keys with_holes is j iter_pos eg target)"

fun dup_elements_loop :: "hashtable \<Rightarrow> bool \<Rightarrow> bool \<Rightarrow> nat list \<Rightarrow> nat \<Rightarrow> exec_globals \<Rightarrow> hashtable \<Rightarrow>
    (exec_globals \<times> hashtable \<times> nat) res" where
  "dup_elements_loop source static_keys with_holes [] idx eg target = Inr (eg, target, idx)"
| "dup_elements_loop source static_keys with_holes (i # is) idx eg target =
     (case zend_array_dup_element source (arData source ! i) i static_keys with_holes eg target of
        (True, eg, target) \<Rightarrow> dup_elements_loop source static_keys with_holes is (Suc i) eg target
      | (False, eg, target) \<Rightarrow>
          (if \<not> HT_HAS_ITERATORS eg target
           then Inr (dup_compact source static_keys with_holes is i eg target)
           else (let target = target\<lparr>nNumUsed := nNumUsed source\<rparr>
                 in dup_compact_iter source static_keys with_holes is i
                      (zend_hash_iterators_lower_pos eg target (Suc i)) eg target)))"

definition zend_array_dup_elements ::
  "hashtable \<Rightarrow> hashtable \<Rightarrow> bool \<Rightarrow> bool \<Rightarrow> exec_globals \<Rightarrow> (exec_globals \<times> hashtable \<times> nat) res" where
  "zend_array_dup_elements source target static_keys with_holes eg =
     (let eg = (if HT_HAS_ITERATORS eg source then zend_array_dup_ht_iterators source target eg else eg)
      in dup_elements_loop source static_keys with_holes [0 ..< nNumUsed source] 0 eg target)"

section \<open>Duplication\<close>

text \<open>
  The fields of the new table (at address \<open>addr\<close>) in the four cases; \<open>immutable\<close> is the flag
  \<^verbatim>\<open>IS_ARRAY_IMMUTABLE\<close> of the source.  \<^verbatim>\<open>memcpy\<close> copies the index part and the used cells.
\<close>

definition dup_empty :: "nat \<Rightarrow> hashtable \<Rightarrow> hashtable" where
  "dup_empty addr source =
     \<lparr>ht_addr = addr, ht_packed = False, ht_uninit = True, ht_static_keys = False, ht_empty_ind = False,
      nTableMask = HT_MIN_MASK, arHash = [HT_INVALID_IDX, HT_INVALID_IDX], arData = [], arPacked = [],
      nNumUsed = 0, nNumOfElements = 0, nTableSize = HT_MIN_SIZE, nInternalPointer = 0,
      nNextFreeElement = nNextFreeElement source, pDestructor = True\<rparr>"

definition dup_immutable :: "nat \<Rightarrow> hashtable \<Rightarrow> hashtable" where
  "dup_immutable addr source =
     source\<lparr>ht_addr := addr, pDestructor := True,
            arPacked := (if ht_packed source then copy_block (nTableSize source) (nNumUsed source) poison_zval (arPacked source) else []),
            arData := (if ht_packed source then [] else copy_block (nTableSize source) (nNumUsed source) poison_bucket (arData source))\<rparr>"

definition dup_pointer :: "hashtable \<Rightarrow> nat" where
  "dup_pointer source = (if nInternalPointer source < nNumUsed source then nInternalPointer source else 0)"

definition zend_array_dup :: "nat \<Rightarrow> bool \<Rightarrow> exec_globals \<Rightarrow> hashtable \<Rightarrow> (exec_globals \<times> hashtable) res" where
  "zend_array_dup addr immutable eg source =
     (if nNumOfElements source = 0 then Inr (eg, dup_empty addr source)
      else if immutable then Inr (eg, dup_immutable addr source)
      else if ht_packed source
      then (let target = source\<lparr>ht_addr := addr, pDestructor := True, nTableMask := HT_MIN_MASK,
                          arPacked := replicate (nTableSize source) poison_zval, arData := [],
                          arHash := [HT_INVALID_IDX, HT_INVALID_IDX], nInternalPointer := dup_pointer source\<rparr>
            in Inr (zend_array_dup_packed_elements source target (\<not> HT_IS_WITHOUT_HOLES target) eg))
      else (let target = HT_HASH_RESET (source\<lparr>ht_addr := addr, pDestructor := True, ht_empty_ind := False,
                          arData := replicate (nTableSize source) poison_bucket, arPacked := [],
                          nInternalPointer := dup_pointer source, nNumUsed := 0, nNumOfElements := 0\<rparr>)
            in res_bind (zend_array_dup_elements source target (HT_HAS_STATIC_KEYS_ONLY target)
                           (\<not> HT_IS_WITHOUT_HOLES source) eg)
                 (\<lambda>(eg, target, idx). Inr (eg, target\<lparr>nNumUsed := idx, nNumOfElements := idx\<rparr>))))"

text \<open>
  \<^verbatim>\<open>zend_hash_iterator_pos_ex\<close> separates a shared array before it moves the iterator to it.  \<open>refcount\<close> is
  the count of the array and \<open>addr\<close> the address of the copy; the result has the array that is used now.
\<close>

definition zend_hash_iterator_pos_ex ::
  "nat \<Rightarrow> hashtable \<Rightarrow> nat \<Rightarrow> nat \<Rightarrow> bool \<Rightarrow> exec_globals \<Rightarrow> (nat \<times> hashtable \<times> exec_globals) res" where
  "zend_hash_iterator_pos_ex idx ht refcount addr immutable eg =
     (if it_ht (ht_iterators eg ! idx) \<noteq> IT_HT (ht_addr ht)
      then res_bind (zend_hash_iterator_find_copy_pos idx ht eg) (\<lambda>(found, eg).
             if \<not> found
             then (let eg = (case it_ht (ht_iterators eg ! idx) of
                               IT_HT a \<Rightarrow> (if \<not> HT_ITERATORS_OVERFLOW eg (ht_addr ht) then HT_DEC_ITERATORS_COUNT a eg else eg)
                             | _ \<Rightarrow> eg)
                   in res_bind (if refcount > 1 then zend_array_dup addr immutable eg ht else Inr (eg, ht)) (\<lambda>(eg, ht).
                        let eg = inc_unless_overflow (ht_addr ht) eg; pos = get_valid_pos ht (nInternalPointer ht)
                        in Inr (pos, ht, eg\<lparr>ht_iterators := (ht_iterators eg)[idx :=
                                  (ht_iterators eg ! idx)\<lparr>it_ht := IT_HT (ht_addr ht), it_pos := pos\<rparr>]\<rparr>)))
             else Inr (it_pos (ht_iterators eg ! idx), ht, eg))
      else Inr (it_pos (ht_iterators eg ! idx), ht, eg))"

section \<open>Lists\<close>

text \<open>
  The macros \<^verbatim>\<open>ZEND_HASH_FILL_PACKED\<close>, \<^verbatim>\<open>ZEND_HASH_FILL_ADD\<close> and \<^verbatim>\<open>ZEND_HASH_FILL_END\<close>: values written to
  consecutive cells without a check for room.
\<close>

fun fill_packed :: "zval list \<Rightarrow> nat \<Rightarrow> hashtable \<Rightarrow> hashtable" where
  "fill_packed [] idx ht =
     ht\<lparr>nNumOfElements := nNumOfElements ht + (idx - nNumUsed ht), nNumUsed := idx,
        nNextFreeElement := of_nat idx, nInternalPointer := 0\<rparr>"
| "fill_packed (v # vs) idx ht = fill_packed vs (Suc idx) (ht\<lparr>arPacked := (arPacked ht)[idx := v]\<rparr>)"

definition list_value :: "zval \<Rightarrow> exec_globals \<Rightarrow> zval \<times> exec_globals" where
  "list_value v eg =
     (let v = (case v of IS_REFERENCE r \<Rightarrow> if fst (refs eg r) = 1 then snd (refs eg r) else v | _ \<Rightarrow> v)
      in (v, if Z_OPT_REFCOUNTED v then emit (Val_addref v) eg else eg))"

fun list_values :: "zval list \<Rightarrow> exec_globals \<Rightarrow> zval list \<times> exec_globals" where
  "list_values [] eg = ([], eg)"
| "list_values (v # vs) eg =
     (case list_value v eg of (v, eg) \<Rightarrow> case list_values vs eg of (vs, eg) \<Rightarrow> (v # vs, eg))"

definition zend_array_to_list :: "nat \<Rightarrow> exec_globals \<Rightarrow> hashtable \<Rightarrow> (exec_globals \<times> hashtable) res" where
  "zend_array_to_list addr eg source =
     res_bind (zend_new_array addr (of_nat (nNumOfElements source))) (\<lambda>result.
       (case list_values (map snd (ht_entries source)) eg of (vs, eg) \<Rightarrow>
          Inr (eg, fill_packed vs 0 (zend_hash_real_init_packed_ex result))))"

end
