(* ===== verification/Hash_Dup_Laws.thy ===== *)
theory Hash_Dup_Laws
  imports Hash_Dup
begin

text \<open>
  Correctness of \<^verbatim>\<open>zend_array_dup\<close>: whatever the layout of the source, with holes or without, with
  iterators or without, the copy is a well-formed table with the entries of the source, their
  values resolved.
\<close>

section \<open>Values\<close>

text \<open>Duplication reads slots and references but does not change them.\<close>

definition same_mem :: "exec_globals \<Rightarrow> exec_globals \<Rightarrow> bool" where
  "same_mem eg eg' \<longleftrightarrow> refs eg' = refs eg \<and> indirect eg' = indirect eg"

lemma same_mem_refl [simp]: "same_mem eg eg"
  by (simp add: same_mem_def)

lemma same_mem_trans: "same_mem a b \<Longrightarrow> same_mem b c \<Longrightarrow> same_mem a c"
  by (simp add: same_mem_def)

lemma same_mem_emit [simp]: "same_mem eg (emit e eg)" "same_mem eg (zend_string_addref k eg)"
  by (simp_all add: same_mem_def emit_def zend_string_addref_def)

lemma same_mem_for_iterators [simp]: "same_mem eg (for_iterators a f eg)"
  by (simp add: same_mem_def for_iterators_def)

lemma same_mem_iterators_update [simp]: "same_mem eg (zend_hash_iterators_update ht p q eg)"
  by (simp add: zend_hash_iterators_update_def zend_hash_iterators_update'_def)

lemma same_mem_dup_iterator [simp]: "same_mem eg (dup_iterator s t i eg)"
  by (auto simp: same_mem_def dup_iterator_def zend_hash_iterator_add_def inc_unless_overflow_def HT_INC_ITERATORS_COUNT_def
      set_next_copy_def Let_def split: option.splits)

lemma same_mem_fold: "(\<And>x eg. same_mem eg (f x eg)) \<Longrightarrow> same_mem eg (fold f xs eg)"
  by (induction xs arbitrary: eg) (auto intro: same_mem_trans)

lemma same_mem_dup_ht_iterators [simp]: "same_mem eg (zend_array_dup_ht_iterators s t eg)"
  by (simp add: zend_array_dup_ht_iterators_def same_mem_fold)

lemma same_mem_migrate:
  assumes "migrate_iterators ht i j p eg = Inr (p', eg')"
  shows "same_mem eg eg'"
proof -
  have st: "same_mem e (snd (migrate_step ht j (q, e)))" for q e by (simp add: migrate_step_def Let_def)
  obtain s where s: "while_option (\<lambda>(iter_pos, eg). iter_pos < i) (migrate_step ht j) (migrate_step ht j (p, eg)) = Some s" "s = (p', eg')"
    using assms by (auto simp: migrate_iterators_def split: option.splits)
  have "same_mem eg (snd s)"
    by (rule while_option_rule [OF _ s(1), where P = "\<lambda>s. same_mem eg (snd s)"]) (use st same_mem_trans surjective_pairing in metis)+
  then show ?thesis using s(2) by simp
qed

text \<open>
  What becomes of a value: the slot behind an indirect value is read, an empty slot is dropped, a
  reference with a single owner gives way to its value (unless that is the array itself).
\<close>

definition dup_val :: "exec_globals \<Rightarrow> nat \<Rightarrow> bool \<Rightarrow> zval \<Rightarrow> zval option" where
  "dup_val eg src packed v =
     (let v = (if packed then v else deref_ind eg v)
      in if v = IS_UNDEF then None else Some (if Z_OPT_REFCOUNTED v then unwrap_ref eg src v else v))"

lemma dup_val_mem: "same_mem eg eg' \<Longrightarrow> dup_val eg' = dup_val eg"
proof -
  assume m: "same_mem eg eg'"
  then have d: "deref_ind eg' = deref_ind eg" "unwrap_ref eg' = unwrap_ref eg"
    by (auto simp: deref_ind_def unwrap_ref_def same_mem_def intro!: ext split: zval.splits)
  show ?thesis unfolding dup_val_def [abs_def] d ..
qed

lemma dup_val_undef [simp]: "dup_val eg src packed IS_UNDEF = None"
  by (simp add: dup_val_def deref_ind_def)

lemma dup_value_eq:
  assumes "with_holes \<or> v \<noteq> IS_UNDEF"
  shows "\<exists>eg'. zend_array_dup_value source v packed with_holes eg = (dup_val eg (ht_addr source) packed v, eg') \<and> same_mem eg eg'"
  using assms by (auto simp: zend_array_dup_value_def dup_val_def dup_refcounted_def Let_def deref_ind_def split: zval.splits prod.splits)

text \<open>References never hold an undefined value.\<close>

definition refs_ok :: "exec_globals \<Rightarrow> bool" where
  "refs_ok eg \<longleftrightarrow> (\<forall>r. snd (refs eg r) \<noteq> IS_UNDEF)"

lemma refs_ok_mem: "same_mem eg eg' \<Longrightarrow> refs_ok eg' = refs_ok eg"
  by (simp add: refs_ok_def same_mem_def)

lemma dup_val_defined: "refs_ok eg \<Longrightarrow> dup_val eg src packed v = Some w \<Longrightarrow> w \<noteq> IS_UNDEF"
  by (auto simp: dup_val_def Let_def unwrap_ref_def refs_ok_def split: if_splits zval.splits)

definition dup_entries :: "exec_globals \<Rightarrow> hashtable \<Rightarrow> (hkey \<times> zval) list" where
  "dup_entries eg source =
     List.map_filter (\<lambda>(k, v). map_option (Pair k) (dup_val eg (ht_addr source) (ht_packed source) v)) (ht_entries source)"

section \<open>Mixed tables\<close>

definition dup_bucket :: "exec_globals \<Rightarrow> nat \<Rightarrow> bucket \<Rightarrow> bucket option" where
  "dup_bucket eg src p = map_option (\<lambda>w. \<lparr>b_val = w, b_next = 0, b_h = b_h p, b_key = b_key p\<rparr>) (dup_val eg src False (b_val p))"

lemma dup_bucket_mem: "same_mem eg eg' \<Longrightarrow> dup_bucket eg' = dup_bucket eg"
  by (intro ext) (simp add: dup_bucket_def dup_val_mem)

text \<open>The target while it is filled: \<open>j\<close> buckets are written and linked.\<close>

definition dup_inv :: "hashtable \<Rightarrow> nat \<Rightarrow> bucket list \<Rightarrow> bool" where
  "dup_inv t j bs \<longleftrightarrow> slots_ok t \<and> chains_ok t j \<and> length bs = j \<and> j \<le> length (arData t) \<and>
     map core (take j (arData t)) = map core bs"

lemma dup_inv_fields [simp]: "dup_inv (t\<lparr>nInternalPointer := x\<rparr>) = dup_inv t" "dup_inv (t\<lparr>nNumUsed := x\<rparr>) = dup_inv t"
  by (intro ext; simp add: dup_inv_def slots_ok_def)+

lemma dup_inv_step:
  assumes d: "dup_inv t j bs" and j: "j < length (arData t)" and q: "live q" "core q = core q0"
  shows "dup_inv (link_bucket j (t\<lparr>arData := (arData t)[j := q]\<rparr>)) (Suc j) (bs @ [q0])"
    "rebuilt t (link_bucket j (t\<lparr>arData := (arData t)[j := q]\<rparr>))"
    "nNumUsed (link_bucket j (t\<lparr>arData := (arData t)[j := q]\<rparr>)) = nNumUsed t"
proof -
  let ?t = "t\<lparr>arData := (arData t)[j := q]\<rparr>" and ?l = "link_bucket j (t\<lparr>arData := (arData t)[j := q]\<rparr>)"
  have sl: "slots_ok ?t" "slots_ok ?l"
    using d rebuilt_frame(14,1) [OF link_bucket_frame(1) [of ?t j]] by (simp_all add: dup_inv_def slots_ok_def)
  have "chains_ok ?t j"
  proof -
    have "chain_of (arData ?t) j (slot_of t) s = chain_of (arData t) j (slot_of t) s" for s by (rule chain_of_cong) simp
    moreover have "linked (arData ?t) x (chain_of (arData t) j (slot_of t) s) = linked (arData t) x (chain_of (arData t) j (slot_of t) s)" for x s
      by (rule linked_cong) (auto simp: set_chain_of)
    ultimately show ?thesis using d by (simp add: dup_inv_def chains_ok_def)
  qed
  then have ch: "chains_ok ?l (Suc j)" using j q sl(1) by (intro link_bucket_chains) (auto simp: slots_ok_def)
  have "map core (take (Suc j) (arData ?l)) = take (Suc j) (map core (arData ?t))" by (simp add: take_map core_link_bucket flip: take_map)
  also have "\<dots> = map core (bs @ [q0])" using d j q(2) by (simp add: dup_inv_def take_map take_Suc_conv_app_nth)
  finally show "dup_inv ?l (Suc j) (bs @ [q0])"
    using d j sl(2) ch by (simp add: dup_inv_def link_bucket_data)
  show "nNumUsed ?l = nNumUsed t" by (simp add: link_bucket_frame)
  have "rebuilt t ?t" by (simp add: rebuilt_def)
  then show "rebuilt t ?l" using rebuilt_trans link_bucket_frame(1) by blast
qed

lemma dup_element_ok:
  assumes d: "dup_inv t j bs" and j: "j < length (arData t)" and p: "with_holes \<or> live p" and r: "refs_ok eg"
  shows "\<exists>eg' t'. zend_array_dup_element source p j static_keys with_holes eg t = (dup_bucket eg (ht_addr source) p \<noteq> None, eg', t') \<and>
    same_mem eg eg' \<and> rebuilt t t' \<and> nNumUsed t' = nNumUsed t \<and>
    (case dup_bucket eg (ht_addr source) p of None \<Rightarrow> t' = t | Some q \<Rightarrow> dup_inv t' (Suc j) (bs @ [q]))"
proof -
  obtain eg1 where v: "zend_array_dup_value source (b_val p) False with_holes eg = (dup_val eg (ht_addr source) False (b_val p), eg1)"
    "same_mem eg eg1" using dup_value_eq p by metis
  show ?thesis
  proof (cases "dup_val eg (ht_addr source) False (b_val p)")
    case None
    then show ?thesis using v by (simp add: zend_array_dup_element_def dup_bucket_def)
  next
    case (Some w)
    let ?q = "(arData t ! j)\<lparr>b_val := w, b_h := b_h p, b_key := b_key p\<rparr>"
    have "live ?q" "core ?q = core \<lparr>b_val = w, b_next = 0, b_h = b_h p, b_key = b_key p\<rparr>"
      using dup_val_defined [OF r Some] by (simp_all add: core_eq_iff)
    note s = dup_inv_step [OF d j this]
    have "same_mem eg (if \<not> static_keys then (case b_key p of Some k \<Rightarrow> zend_string_addref k eg1 | None \<Rightarrow> eg1) else eg1)"
      using v(2) same_mem_emit(2) same_mem_trans by (auto split: option.splits)
    then show ?thesis using s v(1) Some by (simp add: zend_array_dup_element_def dup_bucket_def Let_def)
  qed
qed


lemma dup_set_pointer_ok: "rebuilt t (dup_set_pointer s i j t)" "nNumUsed (dup_set_pointer s i j t) = nNumUsed t"
  "dup_inv (dup_set_pointer s i j t) = dup_inv t" "arData (dup_set_pointer s i j t) = arData t"
  by (simp_all add: dup_set_pointer_def rebuilt_def)

abbreviation copied :: "exec_globals \<Rightarrow> hashtable \<Rightarrow> nat list \<Rightarrow> bucket list" where
  "copied eg source is \<equiv> List.map_filter (dup_bucket eg (ht_addr source)) (map ((!) (arData source)) is)"

text \<open>What the copying loops establish.\<close>

definition dup_result :: "exec_globals \<Rightarrow> hashtable \<Rightarrow> bucket list \<Rightarrow> exec_globals \<times> hashtable \<times> nat \<Rightarrow> bool" where
  "dup_result eg t bs r \<longleftrightarrow> (case r of (eg', t', j) \<Rightarrow> same_mem eg eg' \<and> rebuilt t t' \<and> dup_inv t' j bs)"

lemma dup_result_trans: "same_mem eg eg1 \<Longrightarrow> rebuilt t t1 \<Longrightarrow> dup_result eg1 t1 bs r \<Longrightarrow> dup_result eg t bs r"
  by (auto simp: dup_result_def intro: same_mem_trans rebuilt_trans)

lemma map_filter_Cons: "List.map_filter f (x # xs) = (case f x of None \<Rightarrow> [] | Some y \<Rightarrow> [y]) @ List.map_filter f xs"
  by (simp add: List.map_filter_def split: option.splits)

lemma dup_compact_ok:
  "dup_inv t j bs \<Longrightarrow> j + length is \<le> length (arData t) \<Longrightarrow> \<forall>i \<in> set is. with_holes \<or> live (arData source ! i) \<Longrightarrow> refs_ok eg \<Longrightarrow>
   dup_result eg t (bs @ copied eg source is) (dup_compact source static_keys with_holes is j eg t)"
proof (induction "is" arbitrary: j bs eg t)
  case Nil
  then show ?case by (simp add: dup_result_def List.map_filter_def)
next
  case (Cons i "is")
  let ?p = "arData source ! i"
  obtain eg1 t1 where e: "zend_array_dup_element source ?p j static_keys with_holes eg t = (dup_bucket eg (ht_addr source) ?p \<noteq> None, eg1, t1)"
    "same_mem eg eg1" "rebuilt t t1" "case dup_bucket eg (ht_addr source) ?p of None \<Rightarrow> t1 = t | Some q \<Rightarrow> dup_inv t1 (Suc j) (bs @ [q])"
    using dup_element_ok [OF Cons.prems(1) _ _ Cons.prems(4), of with_holes ?p source static_keys] Cons.prems(2,3) by force
  have r1: "refs_ok eg1" using e(2) Cons.prems(4) refs_ok_mem by simp
  have l: "length (arData t1) = length (arData t)" using rebuilt_frame(2) [OF e(3)] .
  have c: "copied eg1 source is = copied eg source is" using dup_bucket_mem [OF e(2)] by simp
  show ?case
  proof (cases "dup_bucket eg (ht_addr source) ?p")
    case None
    then have "dup_result eg1 t1 (bs @ copied eg source is) (dup_compact source static_keys with_holes is j eg1 t1)"
      using Cons.IH [of t1 j bs eg1] Cons.prems(1-3) e(4) r1 c by simp
    from dup_result_trans [OF e(2,3) this] show ?thesis using None e(1) by (simp add: map_filter_Cons)
  next
    case (Some q)
    let ?t = "dup_set_pointer source i j t1"
    have "dup_result eg1 ?t ((bs @ [q]) @ copied eg source is) (dup_compact source static_keys with_holes is (Suc j) eg1 ?t)"
      using Cons.IH [of ?t "Suc j" "bs @ [q]" eg1] Cons.prems(2,3) e(4) Some r1 l c by (simp add: dup_set_pointer_ok)
    from dup_result_trans [OF e(2) rebuilt_trans [OF e(3) dup_set_pointer_ok(1)] this] show ?thesis
      using Some e(1) by (simp add: map_filter_Cons)
  qed
qed

lemma dup_compact_iter_ok:
  "dup_inv t j bs \<Longrightarrow> j + length is \<le> length (arData t) \<Longrightarrow> \<forall>i \<in> set is. (with_holes \<or> live (arData source ! i)) \<and> i \<le> nNumUsed t \<Longrightarrow>
   refs_ok eg \<Longrightarrow> \<exists>r. dup_compact_iter source static_keys with_holes is j p eg t = Inr r \<and> dup_result eg t (bs @ copied eg source is) r"
proof (induction "is" arbitrary: j bs p eg t)
  case Nil
  then show ?case by (simp add: dup_result_def List.map_filter_def)
next
  case (Cons i "is")
  let ?p = "arData source ! i"
  obtain eg1 t1 where e: "zend_array_dup_element source ?p j static_keys with_holes eg t = (dup_bucket eg (ht_addr source) ?p \<noteq> None, eg1, t1)"
    "same_mem eg eg1" "rebuilt t t1" "case dup_bucket eg (ht_addr source) ?p of None \<Rightarrow> t1 = t | Some q \<Rightarrow> dup_inv t1 (Suc j) (bs @ [q])"
    "nNumUsed t1 = nNumUsed t"
    using dup_element_ok [OF Cons.prems(1) _ _ Cons.prems(4), of with_holes ?p source static_keys] Cons.prems(2,3) by force
  have r1: "refs_ok eg1" using e(2) Cons.prems(4) refs_ok_mem by simp
  have l: "length (arData t1) = length (arData t)" using rebuilt_frame(2) [OF e(3)] .
  show ?case
  proof (cases "dup_bucket eg (ht_addr source) ?p")
    case None
    then obtain r where "dup_compact_iter source static_keys with_holes is j p eg1 t1 = Inr r" "dup_result eg1 t1 (bs @ copied eg1 source is) r"
      using Cons.IH [of t1 j bs eg1 p] Cons.prems(1-3) e(4) r1 by auto
    with dup_result_trans [OF e(2,3)] show ?thesis using None e(1) dup_bucket_mem [OF e(2)] by (simp add: map_filter_Cons)
  next
    case (Some q)
    let ?t = "dup_set_pointer source i j t1"
    obtain p2 eg2 where m: "(if i \<ge> p then migrate_iterators ?t i j p eg1 else Inr (p, eg1)) = Inr (p2, eg2)"
      using migrate_iterators_returns [of i ?t j p eg1] Cons.prems(3) e(5) by (cases "p \<le> i") (auto simp: dup_set_pointer_ok)
    have sm: "same_mem eg1 eg2" using m same_mem_migrate by (auto split: if_splits)
    then have r2: "refs_ok eg2" using r1 refs_ok_mem by simp
    obtain r where r: "dup_compact_iter source static_keys with_holes is (Suc j) p2 eg2 ?t = Inr r"
      "dup_result eg2 ?t ((bs @ [q]) @ copied eg2 source is) r"
      using Cons.IH [of ?t "Suc j" "bs @ [q]" eg2 p2] Cons.prems(2,3) e(4,5) Some r2 l by (auto simp: dup_set_pointer_ok)
    have "same_mem eg eg2" using e(2) sm same_mem_trans by blast
    from dup_result_trans [OF this rebuilt_trans [OF e(3) dup_set_pointer_ok(1)] r(2)] show ?thesis
      using Some e(1) r(1) m dup_bucket_mem [OF \<open>same_mem eg eg2\<close>] by (cases r) (auto simp: map_filter_Cons Let_def split: if_splits)
  qed
qed

lemma dup_elements_loop_ok:
  "dup_inv t i bs \<Longrightarrow> i \<le> n \<Longrightarrow> n \<le> length (arData t) \<Longrightarrow> n = nNumUsed source \<Longrightarrow>
   \<forall>i \<in> set [i ..< n]. with_holes \<or> live (arData source ! i) \<Longrightarrow> refs_ok eg \<Longrightarrow>
   \<exists>r. dup_elements_loop source static_keys with_holes [i ..< n] i eg t = Inr r \<and> dup_result eg t (bs @ copied eg source [i ..< n]) r"
proof (induction "n - i" arbitrary: i bs eg t)
  case 0
  then show ?case by (simp add: dup_result_def List.map_filter_def)
next
  case (Suc m)
  then have i: "i < n" and m: "m = n - Suc i" by auto
  have u: "[i ..< n] = i # [Suc i ..< n]" using i by (simp add: upt_conv_Cons)
  let ?p = "arData source ! i"
  obtain eg1 t1 where e: "zend_array_dup_element source ?p i static_keys with_holes eg t = (dup_bucket eg (ht_addr source) ?p \<noteq> None, eg1, t1)"
    "same_mem eg eg1" "rebuilt t t1" "case dup_bucket eg (ht_addr source) ?p of None \<Rightarrow> t1 = t | Some q \<Rightarrow> dup_inv t1 (Suc i) (bs @ [q])"
    using dup_element_ok [OF Suc.prems(1) _ _ Suc.prems(6), of with_holes ?p source static_keys] Suc.prems(3,5) i by force
  have r1: "refs_ok eg1" using e(2) Suc.prems(6) refs_ok_mem by simp
  have l: "length (arData t1) = length (arData t)" using rebuilt_frame(2) [OF e(3)] .
  have c: "copied eg1 source is = copied eg source is" for "is" using dup_bucket_mem [OF e(2)] by simp
  show ?case
  proof (cases "dup_bucket eg (ht_addr source) ?p")
    case (Some q)
    then have "\<exists>r. dup_elements_loop source static_keys with_holes [Suc i ..< n] (Suc i) eg1 t1 = Inr r \<and>
        dup_result eg1 t1 ((bs @ [q]) @ copied eg1 source [Suc i ..< n]) r"
      using Suc.hyps(1) [OF m, of t1 "bs @ [q]" eg1] Suc.prems(3-5) e(4) r1 l i by simp
    then show ?thesis using dup_result_trans [OF e(2,3)] Some e(1) c by (auto simp: u map_filter_Cons)
  next
    case None
    then have t1: "t1 = t" using e(4) by simp
    have b: "i + length [Suc i ..< n] \<le> length (arData t)" using Suc.prems(3) i by simp
    show ?thesis
    proof (cases "HT_HAS_ITERATORS eg1 t1")
      case False
      have "dup_result eg1 t (bs @ copied eg1 source [Suc i ..< n]) (dup_compact source static_keys with_holes [Suc i ..< n] i eg1 t)"
        using dup_compact_ok [OF Suc.prems(1) b _ r1] Suc.prems(5) by auto
      then show ?thesis using dup_result_trans [OF e(2) rebuilt_refl, of t] None e(1) c t1 False by (simp add: u map_filter_Cons)
    next
      case True
      let ?t = "t\<lparr>nNumUsed := nNumUsed source\<rparr>"
      have d: "dup_inv ?t i bs" using Suc.prems(1) by simp
      have b': "i + length [Suc i ..< n] \<le> length (arData ?t)" using b by simp
      have q: "\<forall>k \<in> set [Suc i ..< n]. (with_holes \<or> live (arData source ! k)) \<and> k \<le> nNumUsed ?t" using Suc.prems(4,5) by auto
      obtain r where r: "dup_compact_iter source static_keys with_holes [Suc i ..< n] i (zend_hash_iterators_lower_pos eg1 ?t (Suc i)) eg1 ?t = Inr r"
        "dup_result eg1 ?t (bs @ copied eg1 source [Suc i ..< n]) r"
        using dup_compact_iter_ok [OF d b' q r1] by blast
      have "rebuilt t ?t" by (simp add: rebuilt_def)
      with dup_result_trans [OF e(2) this r(2)] r(1) show ?thesis using None e(1) c t1 True by (simp add: u map_filter_Cons Let_def)
    qed
  qed
qed


lemma mem_map_filter: "y \<in> set (List.map_filter f xs) \<longleftrightarrow> (\<exists>x \<in> set xs. f x = Some y)"
  by (induction xs) (auto simp: map_filter_Cons List.map_filter_def split: option.splits)

lemma dup_bucketD:
  assumes "dup_bucket eg src p = Some q" "refs_ok eg"
  shows "b_h q = b_h p" "b_key q = b_key p" "live q" "live p" "bucket_key q = bucket_key p"
  using assms dup_val_defined [OF assms(2)] by (auto simp: dup_bucket_def bucket_key_def split: option.splits)

lemma entries_dup:
  assumes "refs_ok eg" "\<not> ht_packed source"
  shows "map (\<lambda>b. (bucket_key b, b_val b)) (List.map_filter (dup_bucket eg (ht_addr source)) bs) =
    List.map_filter (\<lambda>(k, v). map_option (Pair k) (dup_val eg (ht_addr source) False v)) (entries bs)"
proof (induction bs)
  case (Cons p bs)
  show ?case
  proof (cases "live p")
    case True
    then show ?thesis using Cons.IH
      by (auto simp: entries_def map_filter_Cons dup_bucket_def bucket_key_def split: option.splits)
  next
    case False
    then show ?thesis using Cons.IH by (simp add: entries_def map_filter_Cons dup_bucket_def)
  qed
qed (simp add: entries_def List.map_filter_def)

lemma distinct_map_filter:
  "distinct (map g xs) \<Longrightarrow> (\<And>x y. x \<in> set xs \<Longrightarrow> f x = Some y \<Longrightarrow> h y = g x) \<Longrightarrow> distinct (map h (List.map_filter f xs))"
proof (induction xs)
  case (Cons x xs)
  have "h y \<notin> h ` set (List.map_filter f xs)" if "f x = Some y" for y
    using Cons.prems that by (force simp: mem_map_filter)
  then show ?case using Cons by (cases "f x") (auto simp: map_filter_Cons)
qed (simp add: List.map_filter_def)

lemma distinct_dup_entries:
  "distinct (map fst es) \<Longrightarrow> distinct (map fst (List.map_filter (\<lambda>(k, v). map_option (Pair k) (f v)) es))"
  by (rule distinct_map_filter) auto

lemma dup_finish:
  assumes src: "mixed_shape source" "content_ok source" and rf: "refs_ok eg"
    and t0: "mixed_shape t0" "ht_static_keys t0 = ht_static_keys source" "nNextFreeElement t0 = nNextFreeElement source"
    and r: "rebuilt t0 t" and d: "dup_inv t j (copied eg source [0 ..< nNumUsed source])"
  shows "ht_inv (t\<lparr>nNumUsed := j, nNumOfElements := j\<rparr>)" "ht_entries (t\<lparr>nNumUsed := j, nNumOfElements := j\<rparr>) = dup_entries eg source"
proof -
  let ?t = "t\<lparr>nNumUsed := j, nNumOfElements := j\<rparr>" and ?bs = "copied eg source [0 ..< nNumUsed source]"
  note f = rebuilt_frame [OF r]
  have np: "\<not> ht_packed source" "\<not> ht_packed t0" using src(1) t0(1) by (auto simp: mixed_shape_def)
  have sb: "map ((!) (arData source)) [0 ..< nNumUsed source] = ht_buckets source"
    using src(1) by (intro nth_equalityI) (auto simp: ht_buckets_def mixed_shape_def)
  have sh: "mixed_shape ?t" using t0(1) f d by (simp add: mixed_shape_def dup_inv_def)
  have b: "map core (ht_buckets ?t) = map core ?bs" using d sh by (simp add: dup_inv_def ht_buckets_def mixed_shape_def)
  have lv: "live q" if "q \<in> set ?bs" for q using that dup_bucketD(3) [OF _ rf] by (auto simp: mem_map_filter)
  have "ht_entries ?t = entries ?bs" unfolding ht_entries_def by (rule entries_core [OF b])
  also have "\<dots> = map (\<lambda>b. (bucket_key b, b_val b)) ?bs" using lv by (simp add: entries_def filter_True)
  also have "\<dots> = dup_entries eg source"
    using entries_dup [OF rf np(1), of "ht_buckets source"] np(1) by (simp add: dup_entries_def sb ht_entries_def)
  finally show e: "ht_entries ?t = dup_entries eg source" .
  have "list_all (bucket_ok (ht_static_keys source) (nNextFreeElement source)) ?bs"
  proof -
    have "bucket_ok (ht_static_keys source) (nNextFreeElement source) q" if "p \<in> set (ht_buckets source)" "dup_bucket eg (ht_addr source) p = Some q" for p q
    proof -
      have "bucket_ok (ht_static_keys source) (nNextFreeElement source) p" using that(1) src(2) by (simp add: content_ok_def list_all_iff)
      then show ?thesis using dup_bucketD [OF that(2) rf] by (simp add: bucket_ok_def split: option.splits)
    qed
    then show ?thesis unfolding sb by (auto simp: list_all_iff mem_map_filter)
  qed
  then have "list_all (bucket_ok (ht_static_keys source) (nNextFreeElement source)) (ht_buckets ?t)" using list_all_ok_core [OF b] by simp
  moreover have "distinct (map fst (ht_entries ?t))"
    unfolding e dup_entries_def using src(2) by (intro distinct_dup_entries) (simp add: content_ok_def)
  moreover have "length (ht_entries ?t) = j" using \<open>ht_entries ?t = entries ?bs\<close> d lv by (simp add: entries_def filter_True dup_inv_def)
  ultimately have "content_ok ?t" using f t0 by (simp add: content_ok_def)
  moreover have "chains_ok ?t j" using d by (simp add: dup_inv_def)
  ultimately show "ht_inv ?t" using sh by (simp add: ht_inv_def)
qed


lemma dup_mixed_ok:
  assumes src: "mixed_shape source" "content_ok source" and rf: "refs_ok eg" and n: "nNumOfElements source \<noteq> 0"
  shows "\<exists>eg' t. zend_array_dup addr False eg source = Inr (eg', t) \<and> ht_inv t \<and> ht_entries t = dup_entries eg source \<and>
    ht_addr t = addr \<and> nNextFreeElement t = nNextFreeElement source"
proof -
  have np: "\<not> ht_packed source" using src(1) by (simp add: mixed_shape_def)
  let ?t = "HT_HASH_RESET (source\<lparr>ht_addr := addr, pDestructor := True, ht_empty_ind := False,
                          arData := replicate (nTableSize source) poison_bucket, arPacked := [],
                          nInternalPointer := dup_pointer source, nNumUsed := 0, nNumOfElements := 0\<rparr>)"
  let ?wh = "\<not> HT_IS_WITHOUT_HOLES source" and ?st = "HT_HAS_STATIC_KEYS_ONLY ?t"
  define eg1 where "eg1 = (if HT_HAS_ITERATORS eg source then zend_array_dup_ht_iterators source ?t eg else eg)"
  have m1: "same_mem eg eg1" by (simp add: eg1_def)
  have t: "mixed_shape ?t" "ht_static_keys ?t = ht_static_keys source" "nNextFreeElement ?t = nNextFreeElement source"
    "arHash ?t = replicate (2 * nTableSize source) HT_INVALID_IDX" "length (arData ?t) = nTableSize source" "ht_addr ?t = addr"
    using src(1) mask_size [of "nTableSize source"] by (auto simp: mixed_shape_def HT_HASH_RESET_def)
  have d: "dup_inv ?t 0 []" using slots_ok_mixed [OF t(1)] chains_ok_reset [OF t(4)] by (simp add: dup_inv_def)
  have lv: "?wh \<or> live (arData source ! i)" if "i < nNumUsed source" for i
  proof (cases ?wh)
    case False
    then have "length (filter live (ht_buckets source)) = length (ht_buckets source)"
      using src length_ht_buckets [OF src(1)] by (simp add: content_ok_def ht_entries_def entries_def HT_IS_WITHOUT_HOLES_def)
    then have "\<forall>b \<in> set (ht_buckets source). live b" using length_filter_less [of _ "ht_buckets source" live] by fastforce
    then have "live (ht_buckets source ! i)" using that length_ht_buckets [OF src(1)] by simp
    then show ?thesis using that np by (simp add: ht_buckets_def)
  qed simp
  obtain r where r: "dup_elements_loop source ?st ?wh [0 ..< nNumUsed source] 0 eg1 ?t = Inr r"
    "dup_result eg1 ?t ([] @ copied eg1 source [0 ..< nNumUsed source]) r"
    using dup_elements_loop_ok [OF d, of "nNumUsed source" source ?wh eg1 ?st] t(5) lv refs_ok_mem [OF m1] rf src(1)
    by (auto simp: mixed_shape_def)
  obtain eg2 t2 j where r2: "r = (eg2, t2, j)" by (cases r) auto
  have "rebuilt ?t t2" "dup_inv t2 j (copied eg source [0 ..< nNumUsed source])"
    using r(2) dup_bucket_mem [OF m1] by (simp_all add: r2 dup_result_def)
  note fin = dup_finish [OF src rf t(1-3) this] and fr = rebuilt_frame [OF this(1)]
  have "zend_array_dup addr False eg source = Inr (eg2, t2\<lparr>nNumUsed := j, nNumOfElements := j\<rparr>)"
    using n np r(1) by (simp add: zend_array_dup_def Let_def zend_array_dup_elements_def r2 flip: eg1_def)
  then show ?thesis using fin fr(5,12) t(3,6) by simp
qed

section \<open>Packed tables\<close>

lemma dup_packed_loop_ok:
  assumes rf: "refs_ok eg"
  shows "i \<le> n \<Longrightarrow> n \<le> length (arPacked t) \<Longrightarrow> \<forall>k \<in> set [i ..< n]. with_holes \<or> arPacked source ! k \<noteq> IS_UNDEF \<Longrightarrow> same_mem eg eg1 \<Longrightarrow>
    \<exists>eg' A. dup_packed_loop source with_holes [i ..< n] eg1 t = (eg', t\<lparr>arPacked := A\<rparr>) \<and> length A = length (arPacked t) \<and>
      (\<forall>k. A ! k = (if i \<le> k \<and> k < n then (case dup_val eg (ht_addr source) True (arPacked source ! k) of None \<Rightarrow> IS_UNDEF | Some w \<Rightarrow> w)
                    else arPacked t ! k))"
proof (induction "n - i" arbitrary: i eg1 t)
  case 0
  then show ?case by (intro exI [of _ eg1] exI [of _ "arPacked t"]) auto
next
  case (Suc m)
  then have i: "i < n" and m: "m = n - Suc i" by auto
  have u: "[i ..< n] = i # [Suc i ..< n]" using i by (simp add: upt_conv_Cons)
  let ?v = "dup_val eg (ht_addr source) True (arPacked source ! i)"
  obtain eg2 where v: "zend_array_dup_value source (arPacked source ! i) True with_holes eg1 = (?v, eg2)" "same_mem eg1 eg2"
    using dup_value_eq [of with_holes "arPacked source ! i" source True eg1] Suc.prems(3) i dup_val_mem [OF Suc.prems(4)] by auto
  have m2: "same_mem eg eg2" using Suc.prems(4) v(2) same_mem_trans by blast
  define w where "w = (case ?v of None \<Rightarrow> IS_UNDEF | Some w \<Rightarrow> w)"
  let ?t = "t\<lparr>arPacked := (arPacked t)[i := w]\<rparr>"
  have h: "with_holes" if "?v = None"
    using that Suc.prems(3) i by (auto simp: dup_val_def Let_def split: if_splits)
  have step: "dup_packed_loop source with_holes [i ..< n] eg1 t = dup_packed_loop source with_holes [Suc i ..< n] eg2 ?t"
    using v(1) h by (cases ?v) (simp_all add: u w_def)
  obtain eg3 A where A: "dup_packed_loop source with_holes [Suc i ..< n] eg2 ?t = (eg3, ?t\<lparr>arPacked := A\<rparr>)" "length A = length (arPacked ?t)"
    "\<forall>k. A ! k = (if Suc i \<le> k \<and> k < n then (case dup_val eg (ht_addr source) True (arPacked source ! k) of None \<Rightarrow> IS_UNDEF | Some w \<Rightarrow> w)
                    else arPacked ?t ! k)"
    using Suc.hyps(1) [OF m, of ?t eg2] Suc.prems(2,3) i m2 by auto
  have "\<forall>k. A ! k = (if i \<le> k \<and> k < n then (case dup_val eg (ht_addr source) True (arPacked source ! k) of None \<Rightarrow> IS_UNDEF | Some w \<Rightarrow> w)
                    else arPacked t ! k)"
    using A(3) i Suc.prems(2) by (auto simp: w_def nth_list_update)
  moreover have "dup_packed_loop source with_holes [i ..< n] eg1 t = (eg3, t\<lparr>arPacked := A\<rparr>)" "length A = length (arPacked t)"
    using step A(1,2) by simp_all
  ultimately show ?case by blast
qed


lemma entries_dup_packed:
  assumes rf: "refs_ok eg"
  shows "entries (map (\<lambda>i. packed_bucket i (case dup_val eg src True (A ! i) of None \<Rightarrow> IS_UNDEF | Some w \<Rightarrow> w)) is) =
    List.map_filter (\<lambda>(k, v). map_option (Pair k) (dup_val eg src True v)) (entries (map (\<lambda>i. packed_bucket i (A ! i)) is))"
proof (induction "is")
  case (Cons i "is")
  show ?case
  proof (cases "A ! i = IS_UNDEF")
    case True
    then show ?thesis using Cons.IH by (simp add: entries_def packed_bucket_def)
  next
    case False
    then obtain w where w: "dup_val eg src True (A ! i) = Some w" by (simp add: dup_val_def Let_def)
    then show ?thesis using Cons.IH False dup_val_defined [OF rf w]
      by (simp add: entries_def packed_bucket_def bucket_key_def map_filter_Cons)
  qed
qed (simp add: entries_def List.map_filter_def)

lemma dup_packed_ok:
  assumes sh: "packed_shape source" and co: "content_ok source" and rf: "refs_ok eg" and n: "nNumOfElements source \<noteq> 0"
  shows "\<exists>eg' t. zend_array_dup addr False eg source = Inr (eg', t) \<and> ht_inv t \<and> ht_entries t = dup_entries eg source \<and>
    ht_addr t = addr \<and> nNextFreeElement t = nNextFreeElement source"
proof -
  have p: "ht_packed source" using sh by (simp add: packed_shape_def)
  let ?n = "nNumUsed source" and ?P = "arPacked source"
  let ?t = "source\<lparr>ht_addr := addr, pDestructor := True, nTableMask := HT_MIN_MASK,
                          arPacked := replicate (nTableSize source) poison_zval, arData := [],
                          arHash := [HT_INVALID_IDX, HT_INVALID_IDX], nInternalPointer := dup_pointer source\<rparr>"
  let ?wh = "\<not> HT_IS_WITHOUT_HOLES source"
  have bs: "ht_buckets source = map (\<lambda>i. packed_bucket i (?P ! i)) [0 ..< ?n]" using p by (simp add: ht_buckets_def)
  have lv: "?wh \<or> ?P ! i \<noteq> IS_UNDEF" if "i < ?n" for i
  proof (cases ?wh)
    case False
    then have "length (filter live (ht_buckets source)) = length (ht_buckets source)"
      using co by (simp add: content_ok_def ht_entries_def entries_def HT_IS_WITHOUT_HOLES_def bs)
    then have "\<forall>b \<in> set (ht_buckets source). live b" using length_filter_less [of _ "ht_buckets source" live] by fastforce
    then show ?thesis using that by (auto simp: bs packed_bucket_def)
  qed simp
  obtain eg1 A where A: "dup_packed_loop source ?wh [0 ..< ?n] eg ?t = (eg1, ?t\<lparr>arPacked := A\<rparr>)" "length A = nTableSize source"
    "\<And>k. k < ?n \<Longrightarrow> A ! k = (case dup_val eg (ht_addr source) True (?P ! k) of None \<Rightarrow> IS_UNDEF | Some w \<Rightarrow> w)"
    using dup_packed_loop_ok [OF rf, of 0 ?n ?t ?wh source eg] lv sh by (auto simp: packed_shape_def)
  let ?r = "?t\<lparr>arPacked := A\<rparr>"
  have br: "ht_buckets ?r = map (\<lambda>i. packed_bucket i (case dup_val eg (ht_addr source) True (?P ! i) of None \<Rightarrow> IS_UNDEF | Some w \<Rightarrow> w)) [0 ..< ?n]"
    using p A(3) by (simp add: ht_buckets_def)
  have e: "ht_entries ?r = dup_entries eg source"
    unfolding ht_entries_def br entries_dup_packed [OF rf] dup_entries_def bs using p by simp
  have "list_all (bucket_ok (ht_static_keys source) (nNextFreeElement source)) (ht_buckets ?r)"
  proof -
    have "bucket_ok (ht_static_keys source) (nNextFreeElement source) (packed_bucket i w)" if "i < ?n" "?P ! i \<noteq> IS_UNDEF" for i w
      using co that by (auto simp: content_ok_def bs list_all_iff bucket_ok_def packed_bucket_def)
    moreover have "bucket_ok (ht_static_keys source) (nNextFreeElement source) (packed_bucket i IS_UNDEF)" for i
      by (simp add: bucket_ok_def packed_bucket_def)
    ultimately show ?thesis unfolding br list_all_iff set_map ball_simps
      by (auto split: option.splits) (metis dup_val_undef option.distinct(1))
  qed
  moreover have "distinct (map fst (ht_entries ?r))"
    unfolding e dup_entries_def using co by (intro distinct_dup_entries) (simp add: content_ok_def)
  moreover have "length (dup_entries eg source) = length (ht_entries source)"
  proof -
    have "dup_val eg (ht_addr source) (ht_packed source) v \<noteq> None" if "(k, v) \<in> set (ht_entries source)" for k v
      using that p by (auto simp: dup_val_def Let_def ht_entries_def entries_def)
    moreover have "(\<And>k v. (k, v) \<in> set es \<Longrightarrow> g v \<noteq> None) \<Longrightarrow> length (List.map_filter (\<lambda>(k, v). map_option (Pair k) (g v)) es) = length es"
      for g :: "zval \<Rightarrow> zval option" and es :: "(hkey \<times> zval) list"
    proof (induction es)
      case (Cons e es)
      obtain k v where e: "e = (k, v)" by (cases e)
      then obtain w where "g v = Some w" using Cons.prems by fastforce
      moreover have "length (List.map_filter (\<lambda>(k, v). map_option (Pair k) (g v)) es) = length es"
        using Cons.prems by (intro Cons.IH) auto
      ultimately show ?case using e by (simp add: map_filter_Cons)
    qed (simp add: List.map_filter_def)
    ultimately show ?thesis unfolding dup_entries_def by blast
  qed
  ultimately have "content_ok ?r" using co e by (simp add: content_ok_def)
  moreover have "packed_shape ?r" using sh A(2) by (simp add: packed_shape_def)
  ultimately have "ht_inv ?r" by (simp add: ht_inv_def)
  moreover obtain eg2 where "zend_array_dup addr False eg source = Inr (eg2, ?r)"
    using n p A(1) by (simp add: zend_array_dup_def Let_def zend_array_dup_packed_elements_def HT_IS_WITHOUT_HOLES_def)
  ultimately show ?thesis using e by auto
qed

section \<open>Immutable and empty tables\<close>

lemma dup_immutable_ok:
  assumes inv: "ht_inv source" and n: "nNumOfElements source \<noteq> 0"
  shows "ht_inv (dup_immutable addr source)" "ht_entries (dup_immutable addr source) = ht_entries source"
proof -
  let ?t = "dup_immutable addr source"
  have nu: "\<not> ht_uninit source" using uninit_entries [OF inv] n by blast
  have l: "nNumUsed source \<le> nTableSize source" using inv size_ok_bounds(1) by (auto simp: ht_inv_def packed_shape_def mixed_shape_def uninit_shape_def)
  have b: "ht_buckets ?t = ht_buckets source"
    using inv l nu by (auto simp: ht_buckets_def dup_immutable_def take_copy_block ht_inv_def packed_shape_def mixed_shape_def uninit_shape_def copy_block_def nth_append)
  then show e: "ht_entries ?t = ht_entries source" by (simp add: ht_entries_def)
  have co: "content_ok ?t" using ht_inv_content [OF inv] by (simp add: content_ok_def b e) (simp add: dup_immutable_def)
  show "ht_inv ?t"
  proof (cases "ht_packed source")
    case True
    then have "packed_shape ?t" using ht_inv_packedD [OF inv True] by (simp add: packed_shape_def dup_immutable_def length_copy_block)
    with co show ?thesis by (simp add: ht_inv_def)
  next
    case False
    note m = ht_inv_mixedD [OF inv False nu]
    have sh: "mixed_shape ?t" using m(1) False by (simp add: mixed_shape_def dup_immutable_def length_copy_block)
    have "arData ?t ! i = arData source ! i" if "i < nNumUsed source" for i
      using arg_cong [OF b, of "\<lambda>l. l ! i"] that False by (simp add: ht_buckets_def) (simp add: dup_immutable_def)
    note cell = this
    have sl: "slot_of ?t = slot_of source" by (rule slot_of_cong) (simp_all add: dup_immutable_def)
    have c: "chain_of (arData ?t) (nNumUsed source) (slot_of source) s = chain_of (arData source) (nNumUsed source) (slot_of source) s" for s
      using cell by (intro chain_of_cong) simp
    have "linked (arData ?t) x (chain_of (arData source) (nNumUsed source) (slot_of source) s) =
        linked (arData source) x (chain_of (arData source) (nNumUsed source) (slot_of source) s)" for x s
      using cell m(1) sh by (intro linked_cong) (auto simp: set_chain_of mixed_shape_def dup_immutable_def length_copy_block)
    then have "chains_ok ?t (nNumUsed source)"
      using m(2) unfolding chains_ok_def sl c by (simp add: dup_immutable_def)
    with sh co show ?thesis by (simp add: ht_inv_def) (simp add: dup_immutable_def)
  qed
qed


lemma dup_empty_ok:
  "ht_inv (dup_empty addr source)" "ht_entries (dup_empty addr source) = []"
proof -
  have "size_ok HT_MIN_SIZE" by (simp add: size_ok_iff HT_MIN_SIZE_def) (rule exI [of _ 3], simp)
  then show "ht_inv (dup_empty addr source)" "ht_entries (dup_empty addr source) = []"
    by (simp_all add: dup_empty_def ht_inv_def uninit_shape_def content_ok_def ht_entries_def ht_buckets_def entries_def)
qed

text \<open>
  The copy has its own address and the entries of the source with their values resolved; the
  values of an immutable array are not counted and are taken as they are.
\<close>

lemma array_dup_ok:
  assumes inv: "ht_inv source" and rf: "refs_ok eg"
  shows "\<exists>eg' t. zend_array_dup addr immutable eg source = Inr (eg', t) \<and> ht_inv t \<and> ht_addr t = addr \<and>
    nNextFreeElement t = nNextFreeElement source \<and>
    ht_entries t = (if immutable then ht_entries source else dup_entries eg source)"
proof (cases "nNumOfElements source = 0")
  case True
  then have "ht_entries source = []" using ht_inv_content [OF inv] by (simp add: content_ok_def)
  then show ?thesis using True dup_empty_ok [of addr source]
    by (simp add: zend_array_dup_def dup_entries_def List.map_filter_def) (simp add: dup_empty_def)
next
  case False
  show ?thesis
  proof (cases immutable)
    case True
    then show ?thesis using False dup_immutable_ok [OF inv False, of addr]
      by (simp add: zend_array_dup_def) (simp add: dup_immutable_def)
  next
    case mut: False
    have nu: "\<not> ht_uninit source" using uninit_entries [OF inv] False by blast
    show ?thesis
    proof (cases "ht_packed source")
      case True
      then show ?thesis using dup_packed_ok [OF _ _ rf False, of addr] ht_inv_packedD [OF inv True] mut by auto
    next
      case np: False
      then show ?thesis using dup_mixed_ok [OF _ _ rf False, of addr] ht_inv_mixedD [OF inv np nu] mut by auto
    qed
  qed
qed


end
