(* ===== verification/Zend_Sort.thy ===== *)
theory Zend_Sort
  imports Prelude
begin

text \<open>
  The hybrid insertion sort and quick sort (\<^verbatim>\<open>Zend/zend_sort.c\<close>).  An array segment is the list of its
  elements; \<^verbatim>\<open>cmp\<close> is the comparison (only the sign \<open>> 0\<close> is ever used) and \<^verbatim>\<open>swp\<close> what the swap function
  leaves in the two places.
\<close>

section \<open>Small arrays\<close>

type_synonym 'a compare_func = "'a \<Rightarrow> 'a \<Rightarrow> int"
type_synonym 'a swap_func = "'a \<Rightarrow> 'a \<Rightarrow> 'a \<times> 'a"

definition swp_at :: "'a swap_func \<Rightarrow> nat \<Rightarrow> nat \<Rightarrow> 'a list \<Rightarrow> 'a list" where
  "swp_at swp i j xs = xs[i := fst (swp (xs ! i) (xs ! j)), j := snd (swp (xs ! i) (xs ! j))]"

definition gt :: "'a compare_func \<Rightarrow> 'a list \<Rightarrow> nat \<Rightarrow> nat \<Rightarrow> bool" where
  "gt cmp xs i j \<longleftrightarrow> cmp (xs ! i) (xs ! j) > 0"

text \<open>Nested conditional swaps: as long as a pair is out of order, swap it and go on with the next pair.\<close>

fun bubble :: "'a compare_func \<Rightarrow> 'a swap_func \<Rightarrow> (nat \<times> nat) list \<Rightarrow> 'a list \<Rightarrow> 'a list" where
  "bubble cmp swp [] xs = xs"
| "bubble cmp swp ((a, b) # ps) xs = (if gt cmp xs a b then bubble cmp swp ps (swp_at swp a b xs) else xs)"

definition zend_sort_2 :: "'a compare_func \<Rightarrow> 'a swap_func \<Rightarrow> nat \<Rightarrow> nat \<Rightarrow> 'a list \<Rightarrow> 'a list" where
  "zend_sort_2 cmp swp a b xs = bubble cmp swp [(a, b)] xs"

definition zend_sort_3 :: "'a compare_func \<Rightarrow> 'a swap_func \<Rightarrow> nat \<Rightarrow> nat \<Rightarrow> nat \<Rightarrow> 'a list \<Rightarrow> 'a list" where
  "zend_sort_3 cmp swp a b c xs =
     (if \<not> gt cmp xs a b
      then (if \<not> gt cmp xs b c then xs else bubble cmp swp [(a, b)] (swp_at swp b c xs))
      else if \<not> gt cmp xs c b then swp_at swp a c xs
      else bubble cmp swp [(b, c)] (swp_at swp a b xs))"

definition zend_sort_4 :: "'a compare_func \<Rightarrow> 'a swap_func \<Rightarrow> nat \<Rightarrow> nat \<Rightarrow> nat \<Rightarrow> nat \<Rightarrow> 'a list \<Rightarrow> 'a list" where
  "zend_sort_4 cmp swp a b c d xs = bubble cmp swp [(c, d), (b, c), (a, b)] (zend_sort_3 cmp swp a b c xs)"

definition zend_sort_5 :: "'a compare_func \<Rightarrow> 'a swap_func \<Rightarrow> nat \<Rightarrow> nat \<Rightarrow> nat \<Rightarrow> nat \<Rightarrow> nat \<Rightarrow> 'a list \<Rightarrow> 'a list" where
  "zend_sort_5 cmp swp a b c d e xs =
     bubble cmp swp [(d, e), (c, d), (b, c), (a, b)] (zend_sort_4 cmp swp a b c d xs)"

section \<open>Insertion sort\<close>

text \<open>\<^verbatim>\<open>while (j != start) { j -= siz; if (!(cmp(j, i) > 0)) { j += siz; break; } }\<close>\<close>

fun insert_pos :: "'a compare_func \<Rightarrow> 'a list \<Rightarrow> nat \<Rightarrow> nat \<Rightarrow> nat" where
  "insert_pos cmp xs i 0 = 0"
| "insert_pos cmp xs i (Suc j) = (if \<not> gt cmp xs j i then Suc j else insert_pos cmp xs i j)"

text \<open>\<^verbatim>\<open>for (k = i; k > j; k -= siz) swp(k, k - siz);\<close>\<close>

fun shift_down :: "'a swap_func \<Rightarrow> nat \<Rightarrow> nat \<Rightarrow> 'a list \<Rightarrow> 'a list" where
  "shift_down swp j 0 xs = xs"
| "shift_down swp j (Suc k) xs = (if Suc k > j then shift_down swp j k (swp_at swp (Suc k) k xs) else xs)"

definition insert_one :: "'a compare_func \<Rightarrow> 'a swap_func \<Rightarrow> nat \<Rightarrow> 'a list \<Rightarrow> 'a list" where
  "insert_one cmp swp i xs =
     (if \<not> gt cmp xs (i - 1) i then xs else shift_down swp (insert_pos cmp xs i (i - 1)) i xs)"

text \<open>The second loop looks at every other element; \<open>j\<close> is the position before \<^verbatim>\<open>j -= siz2\<close>.\<close>

function insert_pos2 :: "'a compare_func \<Rightarrow> 'a list \<Rightarrow> nat \<Rightarrow> nat \<Rightarrow> nat" where
  "insert_pos2 cmp xs i j0 =
     (let j = j0 - 2
      in if \<not> gt cmp xs j i
         then (if \<not> gt cmp xs (j + 1) i then j + 2 else j + 1)
         else if j = 0 then 0
         else if j = 1 then (if gt cmp xs i 0 then 1 else 0)
         else insert_pos2 cmp xs i j)"
  by pat_completeness auto
termination by (relation "measure (\<lambda>(cmp, xs, i, j). j)") auto

declare insert_pos2.simps [simp del]

definition insert_one2 :: "'a compare_func \<Rightarrow> 'a swap_func \<Rightarrow> nat \<Rightarrow> 'a list \<Rightarrow> 'a list" where
  "insert_one2 cmp swp i xs =
     (if \<not> gt cmp xs (i - 1) i then xs else shift_down swp (insert_pos2 cmp xs i (i - 1)) i xs)"

definition zend_insert_sort :: "'a compare_func \<Rightarrow> 'a swap_func \<Rightarrow> 'a list \<Rightarrow> 'a list" where
  "zend_insert_sort cmp swp xs =
     (let nmemb = length xs
      in if nmemb \<le> 1 then xs
         else if nmemb = 2 then zend_sort_2 cmp swp 0 1 xs
         else if nmemb = 3 then zend_sort_3 cmp swp 0 1 2 xs
         else if nmemb = 4 then zend_sort_4 cmp swp 0 1 2 3 xs
         else if nmemb = 5 then zend_sort_5 cmp swp 0 1 2 3 4 xs
         else fold (insert_one2 cmp swp) [6 ..< nmemb] (fold (insert_one cmp swp) [1 ..< 6] xs))"

section \<open>Quick sort\<close>

text \<open>
  The partition loop with the pivot at index \<open>1\<close>: \<open>part_up\<close> is the scan from the left, \<open>part_down\<close>
  the one from the right.  The guard \<open>i < j\<close> always holds when the loop is entered.
\<close>

function part_up :: "'a compare_func \<Rightarrow> 'a swap_func \<Rightarrow> 'a list \<Rightarrow> nat \<Rightarrow> nat \<Rightarrow> 'a list \<times> nat"
  and part_down :: "'a compare_func \<Rightarrow> 'a swap_func \<Rightarrow> 'a list \<Rightarrow> nat \<Rightarrow> nat \<Rightarrow> 'a list \<times> nat" where
  "part_up cmp swp xs i j =
     (if \<not> i < j then (xs, i)
      else if gt cmp xs 1 i then (if i + 1 = j then (xs, i + 1) else part_up cmp swp xs (i + 1) j)
      else if j - 1 = i then (xs, i)
      else part_down cmp swp xs i (j - 1))"
| "part_down cmp swp xs i j =
     (if \<not> i < j then (xs, i)
      else if gt cmp xs j 1 then (if j - 1 = i then (xs, i) else part_down cmp swp xs i (j - 1))
      else (let xs = swp_at swp i j xs
            in if i + 1 = j then (xs, i + 1) else part_up cmp swp xs (i + 1) j))"
  by pat_completeness auto
termination
  by (relation "measure (\<lambda>x. case x of Inl (cmp, swp, xs, i, j) \<Rightarrow> j - i | Inr (cmp, swp, xs, i, j) \<Rightarrow> j - i)") auto

declare part_up.simps [simp del] part_down.simps [simp del]

definition choose_pivot :: "'a compare_func \<Rightarrow> 'a swap_func \<Rightarrow> 'a list \<Rightarrow> 'a list" where
  "choose_pivot cmp swp xs =
     (let nmemb = length xs; offset = nmemb div 2;
          xs = (if nmemb div 1024 \<noteq> 0
                then (let delta = offset div 2 in zend_sort_5 cmp swp 0 delta offset (offset + delta) (nmemb - 1) xs)
                else zend_sort_3 cmp swp 0 offset (nmemb - 1) xs)
      in swp_at swp 1 offset xs)"

text \<open>One round: the segment with the pivot in its final place, and the index after it.\<close>

definition partition_round :: "'a compare_func \<Rightarrow> 'a swap_func \<Rightarrow> 'a list \<Rightarrow> 'a list \<times> nat" where
  "partition_round cmp swp xs =
     (case part_up cmp swp (choose_pivot cmp swp xs) 2 (length xs - 1) of (xs, i) \<Rightarrow> (swp_at swp 1 (i - 1) xs, i))"

lemma length_swp_at [simp]: "length (swp_at swp i j xs) = length xs"
  by (simp add: swp_at_def)

lemma length_bubble [simp]: "length (bubble cmp swp ps xs) = length xs"
  by (induction cmp swp ps xs rule: bubble.induct) auto

declare bubble.simps [simp del]

lemma length_sorts [simp]:
  "length (zend_sort_2 cmp swp a b xs) = length xs" "length (zend_sort_3 cmp swp a b c xs) = length xs"
  "length (zend_sort_4 cmp swp a b c d xs) = length xs" "length (zend_sort_5 cmp swp a b c d e xs) = length xs"
  by (simp_all add: zend_sort_2_def zend_sort_3_def zend_sort_4_def zend_sort_5_def)

lemma length_shift_down [simp]: "length (shift_down swp j k xs) = length xs"
  by (induction k arbitrary: xs) auto

lemma length_insert_one [simp]: "length (insert_one cmp swp i xs) = length xs" "length (insert_one2 cmp swp i xs) = length xs"
  by (simp_all add: insert_one_def insert_one2_def)

lemma length_fold: "(\<And>i xs. length (f i xs) = length xs) \<Longrightarrow> length (fold f is xs) = length xs"
  by (induction "is" arbitrary: xs) auto

lemma length_insert_sort [simp]: "length (zend_insert_sort cmp swp xs) = length xs"
  by (simp add: zend_insert_sort_def Let_def length_fold)

lemma part_bounds:
  "i < j \<Longrightarrow> part_up cmp swp xs i j = (ys, k) \<Longrightarrow> length ys = length xs \<and> i \<le> k \<and> k \<le> j"
  "i < j \<Longrightarrow> part_down cmp swp xs i j = (ys, k) \<Longrightarrow> length ys = length xs \<and> i \<le> k \<and> k \<le> j"
proof (induction cmp swp xs i j and cmp swp xs i j arbitrary: ys k and ys k rule: part_up_part_down.induct)
  case (1 cmp swp xs i j)
  consider "gt cmp xs 1 i" "i + 1 = j" | "gt cmp xs 1 i" "i + 1 \<noteq> j" | "\<not> gt cmp xs 1 i" "j - 1 = i" | "\<not> gt cmp xs 1 i" "j - 1 \<noteq> i"
    by blast
  then show ?case
  proof cases
    case 2
    then have "part_up cmp swp xs (i + 1) j = (ys, k)" using 1(3,4) by (simp add: part_up.simps [of cmp swp xs i j])
    with 1(1) [of ys k] 1(3) 2 show ?thesis by simp
  next
    case 4
    then have "part_down cmp swp xs i (j - 1) = (ys, k)" using 1(3,4) by (simp add: part_up.simps [of cmp swp xs i j])
    with 1(2) [of ys k] 1(3) 4 have "length ys = length xs \<and> i \<le> k \<and> k \<le> j - 1" by simp
    then show ?thesis by linarith
  qed (use 1(3,4) in \<open>simp_all add: part_up.simps [of cmp swp xs i j]\<close>)
next
  case (2 cmp swp xs i j)
  consider "gt cmp xs j 1" "j - 1 = i" | "gt cmp xs j 1" "j - 1 \<noteq> i" | "\<not> gt cmp xs j 1" "i + 1 = j" | "\<not> gt cmp xs j 1" "i + 1 \<noteq> j"
    by blast
  then show ?case
  proof cases
    case 2
    note c = this
    then have "part_down cmp swp xs i (j - 1) = (ys, k)" using "2.prems" by (simp add: part_down.simps [of cmp swp xs i j])
    with "2.IH"(1) [of ys k] "2.prems" c have "length ys = length xs \<and> i \<le> k \<and> k \<le> j - 1" by simp
    then show ?thesis by linarith
  next
    case 4
    then have "part_up cmp swp (swp_at swp i j xs) (i + 1) j = (ys, k)"
      using "2.prems" by (simp add: part_down.simps [of cmp swp xs i j] Let_def)
    with "2.IH"(2) [of "swp_at swp i j xs" ys k] "2.prems" 4 show ?thesis by simp
  qed (use "2.prems" in \<open>auto simp: part_down.simps [of cmp swp xs i j] Let_def\<close>)
qed

lemma partition_round_bounds:
  assumes "partition_round cmp swp xs = (ys, i)" "16 < length xs"
  shows "length ys = length xs" "2 \<le> i" "i \<le> length xs - 1"
proof -
  obtain zs where "part_up cmp swp (choose_pivot cmp swp xs) 2 (length xs - 1) = (zs, i)" "ys = swp_at swp 1 (i - 1) zs"
    using assms(1) by (auto simp: partition_round_def split: prod.splits)
  moreover have "length (choose_pivot cmp swp xs) = length xs" by (simp add: choose_pivot_def Let_def)
  ultimately show "length ys = length xs" "2 \<le> i" "i \<le> length xs - 1"
    using part_bounds(1) [of 2 "length xs - 1" cmp swp "choose_pivot cmp swp xs" zs i] assms(2) by auto
qed

lemma partition_round_shorter:
  "(ys, i) = partition_round cmp swp xs \<Longrightarrow> \<not> length xs \<le> 16 \<Longrightarrow>
   min (length ys) (i - 1) < length xs \<and> length ys - i < length xs"
  using partition_round_bounds [of cmp swp xs ys i] by auto

text \<open>
  The two parts are disjoint segments, so the order in which they are sorted does not matter; the
  code recurses into the shorter one and loops on the other.
\<close>

function zend_sort :: "'a compare_func \<Rightarrow> 'a swap_func \<Rightarrow> 'a list \<Rightarrow> 'a list" where
  "zend_sort cmp swp xs =
     (if length xs \<le> 16 then zend_insert_sort cmp swp xs
      else (case partition_round cmp swp xs of (ys, i) \<Rightarrow>
              zend_sort cmp swp (take (i - 1) ys) @ [ys ! (i - 1)] @ zend_sort cmp swp (drop i ys)))"
  by pat_completeness auto
termination
  by (relation "measure (\<lambda>(cmp, swp, xs). length xs)") (auto dest!: partition_round_shorter)

declare zend_sort.simps [simp del]


section \<open>Correctness\<close>

text \<open>What the sorting functions rely on: the comparison is a total preorder.\<close>

definition consistent :: "'a compare_func \<Rightarrow> bool" where
  "consistent cmp \<longleftrightarrow> (\<forall>x y. cmp x y > 0 \<longrightarrow> \<not> cmp y x > 0) \<and>
     (\<forall>x y z. \<not> cmp x y > 0 \<longrightarrow> \<not> cmp y z > 0 \<longrightarrow> \<not> cmp x z > 0)"

definition le :: "'a compare_func \<Rightarrow> 'a \<Rightarrow> 'a \<Rightarrow> bool" where
  "le cmp x y \<longleftrightarrow> \<not> cmp x y > 0"

lemma le_trans: "consistent cmp \<Longrightarrow> le cmp x y \<Longrightarrow> le cmp y z \<Longrightarrow> le cmp x z"
  unfolding consistent_def le_def by blast

lemma le_total: "consistent cmp \<Longrightarrow> \<not> le cmp x y \<Longrightarrow> le cmp y x"
  unfolding consistent_def le_def by blast

lemma le_refl: "consistent cmp \<Longrightarrow> le cmp x x"
  unfolding consistent_def le_def by blast

lemma gt_le: "gt cmp xs i j \<longleftrightarrow> \<not> le cmp (xs ! i) (xs ! j)"
  by (simp add: gt_def le_def)

text \<open>The exchange of two elements.\<close>

definition exch :: "'a swap_func" where
  "exch a b = (b, a)"

lemma swp_at_exch [simp]: "swp_at exch i j xs = swap_at i j xs"
  by (simp add: swp_at_def swap_at_def exch_def)

lemma bubble_mset: "\<forall>(a, b) \<in> set ps. a < length xs \<and> b < length xs \<Longrightarrow> mset (bubble cmp exch ps xs) = mset xs"
  by (induction cmp "exch :: 'a swap_func" ps xs rule: bubble.induct) (auto simp: bubble.simps)

lemma sorts_mset:
  "a < length xs \<Longrightarrow> b < length xs \<Longrightarrow> mset (zend_sort_2 cmp exch a b xs) = mset xs"
  "a < length xs \<Longrightarrow> b < length xs \<Longrightarrow> c < length xs \<Longrightarrow> mset (zend_sort_3 cmp exch a b c xs) = mset xs"
  "a < length xs \<Longrightarrow> b < length xs \<Longrightarrow> c < length xs \<Longrightarrow> d < length xs \<Longrightarrow> mset (zend_sort_4 cmp exch a b c d xs) = mset xs"
  "a < length xs \<Longrightarrow> b < length xs \<Longrightarrow> c < length xs \<Longrightarrow> d < length xs \<Longrightarrow> e < length xs \<Longrightarrow>
   mset (zend_sort_5 cmp exch a b c d e xs) = mset xs"
proof -
  show "a < length xs \<Longrightarrow> b < length xs \<Longrightarrow> mset (zend_sort_2 cmp exch a b xs) = mset xs"
    by (simp add: zend_sort_2_def bubble_mset)
  show 3: "a < length xs \<Longrightarrow> b < length xs \<Longrightarrow> c < length xs \<Longrightarrow> mset (zend_sort_3 cmp exch a b c xs) = mset xs"
    by (simp add: zend_sort_3_def bubble_mset)
  show 4: "a < length xs \<Longrightarrow> b < length xs \<Longrightarrow> c < length xs \<Longrightarrow> d < length xs \<Longrightarrow> mset (zend_sort_4 cmp exch a b c d xs) = mset xs"
    using 3 by (simp add: zend_sort_4_def bubble_mset)
  show "a < length xs \<Longrightarrow> b < length xs \<Longrightarrow> c < length xs \<Longrightarrow> d < length xs \<Longrightarrow> e < length xs \<Longrightarrow>
     mset (zend_sort_5 cmp exch a b c d e xs) = mset xs"
    using 4 by (simp add: zend_sort_5_def bubble_mset)
qed

text \<open>The small sorts put the elements at the given places in order.\<close>

lemma sort_2_order:
  assumes "consistent cmp" "a < length xs" "b < length xs"
  shows "le cmp (zend_sort_2 cmp exch a b xs ! a) (zend_sort_2 cmp exch a b xs ! b)"
  using assms le_total [OF assms(1)] by (auto simp: zend_sort_2_def bubble.simps gt_le nth_swap_at le_refl)

lemma sort_3_order:
  assumes c: "consistent cmp" and i: "a < b" "b < c" "c < length xs"
  shows "le cmp (zend_sort_3 cmp exch a b c xs ! a) (zend_sort_3 cmp exch a b c xs ! b) \<and>
    le cmp (zend_sort_3 cmp exch a b c xs ! b) (zend_sort_3 cmp exch a b c xs ! c)"
proof -
  let ?x = "xs ! a" and ?y = "xs ! b" and ?z = "xs ! c"
  note t = le_total [OF c] and tr = le_trans [OF c]
  show ?thesis
  proof (cases "le cmp ?x ?y")
    case xy: True
    show ?thesis
    proof (cases "le cmp ?y ?z")
      case True
      with xy show ?thesis by (simp add: zend_sort_3_def gt_le)
    next
      case yz: False
      then have zy: "le cmp ?z ?y" by (rule t)
      show ?thesis
      proof (cases "le cmp ?x ?z")
        case True
        with xy yz zy i show ?thesis by (simp add: zend_sort_3_def bubble.simps gt_le nth_swap_at)
      next
        case False
        with xy yz t [OF False] i show ?thesis by (simp add: zend_sort_3_def bubble.simps gt_le nth_swap_at)
      qed
    qed
  next
    case xy: False
    then have yx: "le cmp ?y ?x" by (rule t)
    show ?thesis
    proof (cases "le cmp ?z ?y")
      case True
      with xy yx i show ?thesis by (simp add: zend_sort_3_def gt_le nth_swap_at)
    next
      case zy: False
      then have yz: "le cmp ?y ?z" by (rule t)
      show ?thesis
      proof (cases "le cmp ?x ?z")
        case True
        with xy yx zy i show ?thesis by (simp add: zend_sort_3_def bubble.simps gt_le nth_swap_at)
      next
        case False
        with xy yz zy t [OF False] i show ?thesis by (simp add: zend_sort_3_def bubble.simps gt_le nth_swap_at)
      qed
    qed
  qed
qed

text \<open>Bubbling the element at place \<open>e\<close> down a chain of places whose elements are in order.\<close>

fun pairs :: "nat \<Rightarrow> nat list \<Rightarrow> (nat \<times> nat) list" where
  "pairs e [] = []"
| "pairs e (d # ds) = (d, e) # pairs d ds"

lemma bubble_chain:
  assumes c: "consistent cmp"
  shows "distinct (e # ds) \<Longrightarrow> \<forall>k \<in> set (e # ds). k < length xs \<Longrightarrow> sorted_wrt (\<lambda>i j. le cmp (xs ! j) (xs ! i)) ds \<Longrightarrow>
    ys = bubble cmp exch (pairs e ds) xs \<Longrightarrow>
    sorted_wrt (\<lambda>i j. le cmp (ys ! j) (ys ! i)) (e # ds) \<and> (\<forall>k. k \<notin> set (e # ds) \<longrightarrow> ys ! k = xs ! k) \<and>
    (\<forall>v. (\<forall>k \<in> set (e # ds). le cmp (xs ! k) v) \<longrightarrow> (\<forall>k \<in> set (e # ds). le cmp (ys ! k) v))"
proof (induction ds arbitrary: e xs)
  case Nil
  then show ?case by (simp add: bubble.simps)
next
  case (Cons d ds)
  show ?case
  proof (cases "gt cmp xs d e")
    case False
    then have de: "le cmp (xs ! d) (xs ! e)" and ys: "ys = xs" using Cons.prems(4) by (simp_all add: gt_le bubble.simps)
    have "le cmp (xs ! k) (xs ! e)" if "k \<in> set ds" for k
      using Cons.prems(3) that de le_trans [OF c] by auto
    then show ?thesis using Cons.prems de ys by simp
  next
    case True
    let ?zs = "swap_at d e xs"
    have ed: "le cmp (xs ! e) (xs ! d)" using True le_total [OF c] by (simp add: gt_le)
    have z: "?zs ! d = xs ! e" "?zs ! e = xs ! d" "\<And>k. k \<noteq> d \<Longrightarrow> k \<noteq> e \<Longrightarrow> ?zs ! k = xs ! k"
      using Cons.prems(1,2) by (auto simp: nth_swap_at)
    have zk: "?zs ! k = xs ! k" if "k \<in> set ds" for k
    proof -
      have "k \<noteq> d" "k \<noteq> e" using that Cons.prems(1) by auto
      then show ?thesis by (rule z(3))
    qed
    have srt: "sorted_wrt (\<lambda>i j. le cmp (?zs ! j) (?zs ! i)) ds"
    proof -
      have "sorted_wrt (\<lambda>i j. le cmp (xs ! j) (xs ! i)) ds" using Cons.prems(3) by simp
      then show ?thesis using zk by (simp add: sorted_wrt_iff_nth_less)
    qed
    have IH: "sorted_wrt (\<lambda>i j. le cmp (ys ! j) (ys ! i)) (d # ds)" "\<forall>k. k \<notin> set (d # ds) \<longrightarrow> ys ! k = ?zs ! k"
      "\<And>v. \<forall>k \<in> set (d # ds). le cmp (?zs ! k) v \<Longrightarrow> \<forall>k \<in> set (d # ds). le cmp (ys ! k) v"
      using Cons.IH [of d ?zs] Cons.prems True srt by (auto simp: bubble.simps)
    have e: "ys ! e = xs ! d" using IH(2) z(2) Cons.prems(1) by auto
    have "\<forall>k \<in> set (d # ds). le cmp (?zs ! k) (xs ! d)" using zk z(1) ed Cons.prems(3) by auto
    then have below: "\<forall>k \<in> set (d # ds). le cmp (ys ! k) (ys ! e)" using IH(3) e by auto
    show ?thesis
    proof (intro conjI allI impI)
      show "sorted_wrt (\<lambda>i j. le cmp (ys ! j) (ys ! i)) (e # d # ds)" using IH(1) below by simp
      show "ys ! k = xs ! k" if "k \<notin> set (e # d # ds)" for k using that IH(2) z(3) by auto
      fix v assume v: "\<forall>k \<in> set (e # d # ds). le cmp (xs ! k) v"
      have "\<forall>k \<in> set (d # ds). le cmp (?zs ! k) v" using v z(1) zk by auto
      from IH(3) [OF this] v e show "\<forall>k \<in> set (e # d # ds). le cmp (ys ! k) v" by auto
    qed
  qed
qed

lemma sort_4_order:
  assumes "consistent cmp" "a < b" "b < c" "c < d" "d < length xs"
  defines "ys \<equiv> zend_sort_4 cmp exch a b c d xs"
  shows "le cmp (ys ! a) (ys ! b) \<and> le cmp (ys ! b) (ys ! c) \<and> le cmp (ys ! c) (ys ! d)"
proof -
  let ?zs = "zend_sort_3 cmp exch a b c xs"
  have "le cmp (?zs ! a) (?zs ! b)" "le cmp (?zs ! b) (?zs ! c)" using sort_3_order [OF assms(1-3), of xs] assms by auto
  moreover from this have "le cmp (?zs ! a) (?zs ! c)" by (rule le_trans [OF assms(1)])
  ultimately have "sorted_wrt (\<lambda>i j. le cmp (?zs ! j) (?zs ! i)) [c, b, a]" by simp
  with bubble_chain [OF assms(1), of d "[c, b, a]" ?zs ys] assms show ?thesis by (simp add: zend_sort_4_def)
qed

lemma sort_5_order:
  assumes "consistent cmp" "a < b" "b < c" "c < d" "d < e" "e < length xs"
  defines "ys \<equiv> zend_sort_5 cmp exch a b c d e xs"
  shows "le cmp (ys ! a) (ys ! b) \<and> le cmp (ys ! b) (ys ! c) \<and> le cmp (ys ! c) (ys ! d) \<and> le cmp (ys ! d) (ys ! e)"
proof -
  let ?zs = "zend_sort_4 cmp exch a b c d xs"
  have "le cmp (?zs ! a) (?zs ! b)" "le cmp (?zs ! b) (?zs ! c)" "le cmp (?zs ! c) (?zs ! d)"
    using sort_4_order [OF assms(1-4), of xs] assms by auto
  moreover from this have "le cmp (?zs ! a) (?zs ! c)" "le cmp (?zs ! b) (?zs ! d)"
    by - (rule le_trans [OF assms(1)]; assumption)+
  moreover from this(2) calculation(1) have "le cmp (?zs ! a) (?zs ! d)" using le_trans [OF assms(1)] by blast
  ultimately have "sorted_wrt (\<lambda>i j. le cmp (?zs ! j) (?zs ! i)) [d, c, b, a]" by simp
  with bubble_chain [OF assms(1), of e "[d, c, b, a]" ?zs ys] assms show ?thesis by (simp add: zend_sort_5_def)
qed

section \<open>Insertion\<close>

lemma shift_down_eq:
  "j \<le> k \<Longrightarrow> k < length xs \<Longrightarrow>
   shift_down exch j k xs = take j xs @ xs ! k # drop j (take k xs) @ drop (Suc k) xs"
proof (induction k arbitrary: xs)
  case 0
  then show ?case by (cases xs) auto
next
  case (Suc k)
  show ?case
  proof (cases "j = Suc k")
    case True
    then show ?thesis using Suc.prems id_take_nth_drop [of "Suc k" xs] by simp
  next
    case False
    let ?ys = "swap_at (Suc k) k xs"
    have IH: "shift_down exch j k ?ys = take j ?ys @ ?ys ! k # drop j (take k ?ys) @ drop (Suc k) ?ys"
      using Suc.prems False by (intro Suc.IH) auto
    have 1: "?ys ! k = xs ! Suc k" "take k ?ys = take k xs" "take j ?ys = take j xs"
      using Suc.prems False by (auto simp: nth_swap_at swap_at_def)
    have 2: "drop (Suc k) ?ys = xs ! k # drop (Suc (Suc k)) xs"
      using Suc.prems by (simp add: swap_at_def drop_update_swap) (metis Cons_nth_drop_Suc Suc_lessD diff_self_eq_0 list_update_code(2))
    have 3: "drop j (take (Suc k) xs) = drop j (take k xs) @ [xs ! k]"
      using Suc.prems False by (simp add: take_Suc_conv_app_nth)
    have "shift_down exch j (Suc k) xs = shift_down exch j k ?ys" using Suc.prems False by simp
    also have "\<dots> = take j xs @ xs ! Suc k # drop j (take k xs) @ xs ! k # drop (Suc (Suc k)) xs"
      unfolding IH 1 2 by simp
    finally show ?thesis unfolding 3 by simp
  qed
qed

definition insertion_point :: "'a compare_func \<Rightarrow> 'a list \<Rightarrow> nat \<Rightarrow> nat \<Rightarrow> bool" where
  "insertion_point cmp xs i p \<longleftrightarrow> p \<le> i \<and> (\<forall>k < p. le cmp (xs ! k) (xs ! i)) \<and> (\<forall>k. p \<le> k \<and> k < i \<longrightarrow> le cmp (xs ! i) (xs ! k))"

lemma prefix_le:
  "sorted_wrt (le cmp) (take i xs) \<Longrightarrow> i \<le> length xs \<Longrightarrow> a < b \<Longrightarrow> b < i \<Longrightarrow> le cmp (xs ! a) (xs ! b)"
  using sorted_wrt_nth_less [of "le cmp" "take i xs" a b] by simp

lemma insert_pos_point:
  assumes c: "consistent cmp" and s: "sorted_wrt (le cmp) (take i xs)" and i: "i < length xs"
  shows "j \<le> i \<Longrightarrow> (\<forall>k. j \<le> k \<and> k < i \<longrightarrow> le cmp (xs ! i) (xs ! k)) \<Longrightarrow> insertion_point cmp xs i (insert_pos cmp xs i j)"
proof (induction j)
  case 0
  then show ?case by (simp add: insertion_point_def)
next
  case (Suc j)
  show ?case
  proof (cases "gt cmp xs j i")
    case True
    then have "le cmp (xs ! i) (xs ! j)" using le_total [OF c] by (simp add: gt_le)
    then have "\<forall>k. j \<le> k \<and> k < i \<longrightarrow> le cmp (xs ! i) (xs ! k)" using Suc.prems by (metis le_less Suc_leI)
    then show ?thesis using Suc True by simp
  next
    case False
    then have "le cmp (xs ! j) (xs ! i)" by (simp add: gt_le)
    then have "le cmp (xs ! k) (xs ! i)" if "k < Suc j" for k
      using that prefix_le [OF s, of k j] i Suc.prems(1) le_trans [OF c] by (cases "k = j") auto
    then show ?thesis using False Suc.prems by (simp add: insertion_point_def)
  qed
qed

lemma insert_pos2_point:
  assumes c: "consistent cmp" and s: "sorted_wrt (le cmp) (take i xs)" and i: "i < length xs"
  shows "2 \<le> j0 \<Longrightarrow> j0 < i \<Longrightarrow> (\<forall>k. j0 \<le> k \<and> k < i \<longrightarrow> le cmp (xs ! i) (xs ! k)) \<Longrightarrow>
    insertion_point cmp xs i (insert_pos2 cmp xs i j0)"
proof (induction j0 rule: less_induct)
  case (less j0)
  let ?j = "j0 - 2"
  have below: "le cmp (xs ! k) (xs ! i)" if "le cmp (xs ! j) (xs ! i)" "k \<le> j" "j < i" for j k
    using that prefix_le [OF s, of k j] i le_trans [OF c] by (cases "k = j") auto
  show ?case
  proof (cases "gt cmp xs ?j i")
    case False
    then have lj: "le cmp (xs ! ?j) (xs ! i)" by (simp add: gt_le)
    show ?thesis
    proof (cases "gt cmp xs (?j + 1) i")
      case t: True
      have "le cmp (xs ! i) (xs ! k)" if "?j + 1 \<le> k" "k < i" for k
        using that less.prems t le_total [OF c] by (cases "k = ?j + 1") (auto simp: gt_le)
      moreover have "le cmp (xs ! k) (xs ! i)" if "k < ?j + 1" for k using below [OF lj, of k] that less.prems by simp
      ultimately show ?thesis using False t less.prems
        by (subst insert_pos2.simps) (auto simp: insertion_point_def Let_def)
    next
      case f: False
      then have "le cmp (xs ! (?j + 1)) (xs ! i)" by (simp add: gt_le)
      then have "le cmp (xs ! k) (xs ! i)" if "k < j0" for k using below [of "?j + 1" k] that less.prems by simp
      then show ?thesis using False f less.prems
        by (subst insert_pos2.simps) (auto simp: insertion_point_def Let_def)
    qed
  next
    case True
    then have lj: "le cmp (xs ! i) (xs ! ?j)" using le_total [OF c] by (simp add: gt_le)
    have up: "\<forall>k. ?j \<le> k \<and> k < i \<longrightarrow> le cmp (xs ! i) (xs ! k)"
    proof (intro allI impI)
      fix k assume k: "?j \<le> k \<and> k < i"
      show "le cmp (xs ! i) (xs ! k)"
        using k lj prefix_le [OF s, of ?j k] i le_trans [OF c] by (cases "k = ?j") auto
    qed
    consider "?j = 0" | "?j = 1" | "2 \<le> ?j" by linarith
    then show ?thesis
    proof cases
      case 1
      then show ?thesis using True up less.prems by (subst insert_pos2.simps) (simp add: insertion_point_def Let_def)
    next
      case 2
      have z: "\<forall>k. 1 \<le> k \<and> k < i \<longrightarrow> le cmp (xs ! i) (xs ! k)" using up 2 by simp
      show ?thesis
      proof (cases "gt cmp xs i 0")
        case g: True
        then have "le cmp (xs ! 0) (xs ! i)" using le_total [OF c] by (simp add: gt_le)
        then show ?thesis using True g z 2 less.prems by (subst insert_pos2.simps) (simp add: insertion_point_def Let_def)
      next
        case g: False
        then have "le cmp (xs ! i) (xs ! 0)" by (simp add: gt_le)
        then have "\<forall>k. k < i \<longrightarrow> le cmp (xs ! i) (xs ! k)" using z by (metis One_nat_def Suc_leI neq0_conv)
        then show ?thesis using True g 2 less.prems by (subst insert_pos2.simps) (simp add: insertion_point_def Let_def)
      qed
    next
      case 3
      have "insertion_point cmp xs i (insert_pos2 cmp xs i ?j)"
        using 3 less.prems up by (intro less.IH) auto
      moreover have "insert_pos2 cmp xs i j0 = insert_pos2 cmp xs i ?j"
        using True 3 by (subst insert_pos2.simps) (auto simp: Let_def)
      ultimately show ?thesis by simp
    qed
  qed
qed

lemma insert_sorted:
  assumes s: "sorted_wrt (le cmp) (take i xs)" and i: "i < length xs" and p: "insertion_point cmp xs i p"
  shows "sorted_wrt (le cmp) (take (Suc i) (shift_down exch p i xs))" "mset (shift_down exch p i xs) = mset xs"
proof -
  have pi: "p \<le> i" using p by (simp add: insertion_point_def)
  note e = shift_down_eq [OF pi i]
  have t: "take (Suc i) (shift_down exch p i xs) = take p (take i xs) @ xs ! i # drop p (take i xs)"
    unfolding e using pi i by (simp add: min_absorb1 min_absorb2 Suc_diff_le)
  have "sorted_wrt (le cmp) (take p (take i xs) @ drop p (take i xs))" using s by (simp only: append_take_drop_id)
  then have "sorted_wrt (le cmp) (take p (take i xs))" "sorted_wrt (le cmp) (drop p (take i xs))"
    "\<forall>x \<in> set (take p (take i xs)). \<forall>y \<in> set (drop p (take i xs)). le cmp x y"
    unfolding sorted_wrt_append by blast+
  moreover have "\<forall>x \<in> set (take p (take i xs)). le cmp x (xs ! i)"
    using p i by (auto simp: insertion_point_def in_set_conv_nth)
  moreover have "\<forall>y \<in> set (drop p (take i xs)). le cmp (xs ! i) y"
    using p i by (auto simp: insertion_point_def in_set_conv_nth)
  ultimately show "sorted_wrt (le cmp) (take (Suc i) (shift_down exch p i xs))"
    unfolding t by (auto simp: sorted_wrt_append)
  have x: "take p (take i xs) @ drop p (take i xs) @ xs ! i # drop (Suc i) xs = xs"
    using id_take_nth_drop [OF i] append_take_drop_id [of p "take i xs"] by (metis append.assoc)
  have "mset (shift_down exch p i xs) = mset (take p (take i xs) @ drop p (take i xs) @ xs ! i # drop (Suc i) xs)"
    unfolding e using pi by (simp add: min_absorb1)
  also have "\<dots> = mset xs" by (rule arg_cong [OF x])
  finally show "mset (shift_down exch p i xs) = mset xs" .
qed

lemma insert_one_ok:
  assumes c: "consistent cmp" and s: "sorted_wrt (le cmp) (take i xs)" and i: "0 < i" "i < length xs"
  shows "sorted_wrt (le cmp) (take (Suc i) (insert_one cmp exch i xs))" "mset (insert_one cmp exch i xs) = mset xs"
    "3 \<le> i \<Longrightarrow> sorted_wrt (le cmp) (take (Suc i) (insert_one2 cmp exch i xs))" "3 \<le> i \<Longrightarrow> mset (insert_one2 cmp exch i xs) = mset xs"
proof -
  have keep: "sorted_wrt (le cmp) (take (Suc i) xs)" if "\<not> gt cmp xs (i - 1) i"
  proof -
    have l: "le cmp (xs ! (i - 1)) (xs ! i)" using that by (simp add: gt_le)
    have "le cmp (xs ! k) (xs ! i)" if "k < i" for k
    proof (cases "k = i - 1")
      case False
      then have "le cmp (xs ! k) (xs ! (i - 1))" using that i by (intro prefix_le [OF s]) auto
      then show ?thesis using l by (rule le_trans [OF c])
    qed (use l in simp)
    then show ?thesis using s i by (auto simp: take_Suc_conv_app_nth sorted_wrt_append in_set_conv_nth)
  qed
  have last: "\<forall>k. i - 1 \<le> k \<and> k < i \<longrightarrow> le cmp (xs ! i) (xs ! k)" if g: "gt cmp xs (i - 1) i"
  proof (intro allI impI)
    fix k assume "i - 1 \<le> k \<and> k < i"
    then have "k = i - 1" using i by linarith
    then show "le cmp (xs ! i) (xs ! k)" using g le_total [OF c] by (simp add: gt_le)
  qed
  note p1 = insert_pos_point [OF c s i(2), of "i - 1"] and p2 = insert_pos2_point [OF c s i(2), of "i - 1"]
  show "sorted_wrt (le cmp) (take (Suc i) (insert_one cmp exch i xs))" "mset (insert_one cmp exch i xs) = mset xs"
    using keep last p1 insert_sorted [OF s i(2)] by (auto simp: insert_one_def)
  show "sorted_wrt (le cmp) (take (Suc i) (insert_one2 cmp exch i xs))" "mset (insert_one2 cmp exch i xs) = mset xs" if "3 \<le> i"
    using keep last p2 insert_sorted [OF s i(2)] i that by (auto simp: insert_one2_def)
qed

lemma fold_insert:
  assumes f: "\<And>i xs. lo \<le> i \<Longrightarrow> i < length xs \<Longrightarrow> sorted_wrt (le cmp) (take i xs) \<Longrightarrow>
      sorted_wrt (le cmp) (take (Suc i) (f i xs)) \<and> mset (f i xs) = mset xs"
  shows "lo \<le> hi \<Longrightarrow> hi \<le> length xs \<Longrightarrow> sorted_wrt (le cmp) (take lo xs) \<Longrightarrow>
    sorted_wrt (le cmp) (take hi (fold f [lo ..< hi] xs)) \<and> mset (fold f [lo ..< hi] xs) = mset xs"
proof (induction hi)
  case (Suc hi)
  show ?case
  proof (cases "lo = Suc hi")
    case False
    with Suc have IH: "sorted_wrt (le cmp) (take hi (fold f [lo ..< hi] xs))" "mset (fold f [lo ..< hi] xs) = mset xs" by auto
    have "length (fold f [lo ..< hi] xs) = length xs" using IH(2) by (rule mset_eq_length)
    with f [of hi "fold f [lo ..< hi] xs"] IH Suc.prems False show ?thesis by simp
  qed (use Suc.prems in simp)
qed simp

lemma insert_sort_ok:
  assumes c: "consistent cmp"
  shows "sorted_wrt (le cmp) (zend_insert_sort cmp exch xs) \<and> mset (zend_insert_sort cmp exch xs) = mset xs"
proof -
  have ge2: "sorted_wrt (le cmp) ys" if "\<And>i. Suc i < length ys \<Longrightarrow> le cmp (ys ! i) (ys ! Suc i)" for ys
    using that sorted_wrt_iff_nth_Suc_transp [of "le cmp" ys] le_trans [OF c] by (auto simp: transp_def)
  consider "length xs \<le> 1" | "length xs = 2" | "length xs = 3" | "length xs = 4" | "length xs = 5" | "6 \<le> length xs" by linarith
  then show ?thesis
  proof cases
    case 1
    then have "sorted_wrt (le cmp) xs" by (intro ge2) auto
    then show ?thesis using 1 by (simp add: zend_insert_sort_def)
  next
    case 2
    have "sorted_wrt (le cmp) (zend_sort_2 cmp exch 0 1 xs)"
      using sort_2_order [OF c, of 0 xs 1] 2 by (intro ge2) (auto simp: less_Suc_eq numeral_2_eq_2)
    then show ?thesis using 2 sorts_mset(1) [of 0 xs 1] by (simp add: zend_insert_sort_def)
  next
    case 3
    have "sorted_wrt (le cmp) (zend_sort_3 cmp exch 0 1 2 xs)"
      using sort_3_order [OF c, of 0 1 2 xs] 3 by (intro ge2) (auto simp: less_Suc_eq eval_nat_numeral)
    then show ?thesis using 3 sorts_mset(2) [of 0 xs 1 2] by (simp add: zend_insert_sort_def)
  next
    case 4
    have "sorted_wrt (le cmp) (zend_sort_4 cmp exch 0 1 2 3 xs)"
      using sort_4_order [OF c, of 0 1 2 3 xs] 4 by (intro ge2) (auto simp: less_Suc_eq eval_nat_numeral)
    then show ?thesis using 4 sorts_mset(3) [of 0 xs 1 2 3] by (simp add: zend_insert_sort_def)
  next
    case 5
    have "sorted_wrt (le cmp) (zend_sort_5 cmp exch 0 1 2 3 4 xs)"
      using sort_5_order [OF c, of 0 1 2 3 4 xs] 5 by (intro ge2) (auto simp: less_Suc_eq eval_nat_numeral)
    then show ?thesis using 5 sorts_mset(4) [of 0 xs 1 2 3 4] by (simp add: zend_insert_sort_def)
  next
    case 6
    let ?a = "fold (insert_one cmp exch) [1 ..< 6] xs"
    have a: "sorted_wrt (le cmp) (take 6 ?a)" "mset ?a = mset xs"
    proof -
      have "sorted_wrt (le cmp) (take 1 xs)" by (cases xs) auto
      then show "sorted_wrt (le cmp) (take 6 ?a)" "mset ?a = mset xs"
        using fold_insert [of 1 cmp "insert_one cmp exch" 6 xs] insert_one_ok(1,2) [OF c] 6 by auto
    qed
    have "length ?a = length xs" using a(2) by (rule mset_eq_length)
    then have "sorted_wrt (le cmp) (take (length xs) (fold (insert_one2 cmp exch) [6 ..< length xs] ?a)) \<and>
        mset (fold (insert_one2 cmp exch) [6 ..< length xs] ?a) = mset ?a"
      using fold_insert [of 6 cmp "insert_one2 cmp exch" "length xs" ?a] insert_one_ok(3,4) [OF c] 6 a(1) by auto
    moreover have "length (fold (insert_one2 cmp exch) [6 ..< length xs] ?a) = length xs"
      using \<open>length ?a = length xs\<close> by (simp add: length_fold)
    moreover have "zend_insert_sort cmp exch xs = fold (insert_one2 cmp exch) [6 ..< length xs] ?a"
      using 6 by (simp add: zend_insert_sort_def Let_def)
    ultimately show ?thesis using a(2) by simp
  qed
qed


section \<open>Partition\<close>

definition split_at :: "'a compare_func \<Rightarrow> 'a list \<Rightarrow> nat \<Rightarrow> nat \<Rightarrow> bool" where
  "split_at cmp xs i j \<longleftrightarrow> (\<forall>k. 2 \<le> k \<and> k < i \<longrightarrow> le cmp (xs ! k) (xs ! 1)) \<and>
     (\<forall>k. j \<le> k \<and> k < length xs \<longrightarrow> le cmp (xs ! 1) (xs ! k))"

definition same_ends :: "'a list \<Rightarrow> 'a list \<Rightarrow> bool" where
  "same_ends xs ys \<longleftrightarrow> mset ys = mset xs \<and> ys ! 0 = xs ! 0 \<and> ys ! 1 = xs ! 1"

lemma same_ends_swap:
  "2 \<le> i \<Longrightarrow> 2 \<le> j \<Longrightarrow> i < length xs \<Longrightarrow> j < length xs \<Longrightarrow> same_ends (swap_at i j xs) ys \<Longrightarrow> same_ends xs ys"
  by (auto simp: same_ends_def nth_swap_at)

lemma split_at_left: "split_at cmp xs i j \<Longrightarrow> le cmp (xs ! i) (xs ! 1) \<Longrightarrow> split_at cmp xs (Suc i) j"
  by (auto simp: split_at_def less_Suc_eq)

lemma split_at_right: "split_at cmp xs i (Suc j) \<Longrightarrow> le cmp (xs ! 1) (xs ! j) \<Longrightarrow> split_at cmp xs i j"
  unfolding split_at_def by (metis Suc_leI le_eq_less_or_eq)

lemma split_at_swap:
  assumes "split_at cmp xs i (Suc j)" "le cmp (xs ! 1) (xs ! i)" "le cmp (xs ! j) (xs ! 1)" "2 \<le> i" "i < j" "j < length xs"
  shows "split_at cmp (swap_at i j xs) (Suc i) j"
  using assms unfolding split_at_def by (auto simp: nth_swap_at less_Suc_eq)

lemma part_ok:
  assumes c: "consistent cmp"
  shows "2 \<le> i \<Longrightarrow> i < j \<Longrightarrow> j < length xs \<Longrightarrow> split_at cmp xs i j \<Longrightarrow> part_up cmp exch xs i j = (ys, k) \<Longrightarrow>
      split_at cmp ys k k \<and> same_ends xs ys"
    "2 \<le> i \<Longrightarrow> i < j \<Longrightarrow> j < length xs \<Longrightarrow> split_at cmp xs i (Suc j) \<Longrightarrow> le cmp (xs ! 1) (xs ! i) \<Longrightarrow>
      part_down cmp exch xs i j = (ys, k) \<Longrightarrow> split_at cmp ys k k \<and> same_ends xs ys"
  using c
proof (induction cmp "exch :: 'a swap_func" xs i j and cmp "exch :: 'a swap_func" xs i j arbitrary: ys k and ys k
    rule: part_up_part_down.induct)
  case (1 cmp xs i j)
  consider "gt cmp xs 1 i" "i + 1 = j" | "gt cmp xs 1 i" "i + 1 \<noteq> j" | "\<not> gt cmp xs 1 i" "j - 1 = i" | "\<not> gt cmp xs 1 i" "j - 1 \<noteq> i"
    by blast
  then show ?case
  proof cases
    case up: 1
    then have l: "le cmp (xs ! i) (xs ! 1)" using le_total [OF "1.prems"(6)] by (simp add: gt_le)
    have "ys = xs" "k = Suc i" using "1.prems" up by (simp_all add: part_up.simps [of cmp exch xs i j])
    then show ?thesis using split_at_left [OF "1.prems"(4) l] up by (simp add: same_ends_def)
  next
    case up: 2
    then have l: "le cmp (xs ! i) (xs ! 1)" using le_total [OF "1.prems"(6)] by (simp add: gt_le)
    have "part_up cmp exch xs (i + 1) j = (ys, k)" using "1.prems" up by (simp add: part_up.simps [of cmp exch xs i j])
    with "1.hyps"(1) [of ys k] "1.prems" up split_at_left [OF "1.prems"(4) l] show ?thesis by simp
  next
    case up: 3
    then have l: "le cmp (xs ! 1) (xs ! i)" by (simp add: gt_le)
    have "ys = xs" "k = i" using "1.prems" up by (simp_all add: part_up.simps [of cmp exch xs i j])
    moreover have "j = Suc i" using "1.prems"(2) up by simp
    then have "split_at cmp xs i i" using split_at_right [of cmp xs i i] "1.prems"(4) l by blast
    ultimately show ?thesis by (simp add: same_ends_def)
  next
    case up: 4
    then have l: "le cmp (xs ! 1) (xs ! i)" by (simp add: gt_le)
    have "part_down cmp exch xs i (j - 1) = (ys, k)" using "1.prems" up by (simp add: part_up.simps [of cmp exch xs i j])
    moreover have "split_at cmp xs i (Suc (j - 1))" using "1.prems"(2,4) by simp
    moreover have "i < j - 1" "j - 1 < length xs" using "1.prems"(2,3) up by auto
    ultimately show ?thesis using "1.hyps"(2) [of ys k] "1.prems" up l by blast
  qed
next
  case (2 cmp xs i j)
  consider "gt cmp xs j 1" "j - 1 = i" | "gt cmp xs j 1" "j - 1 \<noteq> i" | "\<not> gt cmp xs j 1" "i + 1 = j" | "\<not> gt cmp xs j 1" "i + 1 \<noteq> j"
    by blast
  then show ?case
  proof cases
    case dn: 1
    then have l: "le cmp (xs ! 1) (xs ! j)" using le_total [OF "2.prems"(7)] by (simp add: gt_le)
    have "ys = xs" "k = i" using "2.prems" dn by (simp_all add: part_down.simps [of cmp exch xs i j])
    moreover have "split_at cmp xs i j" using split_at_right [OF "2.prems"(4) l] .
    moreover have "j = Suc i" using "2.prems"(2) dn by simp
    ultimately have "split_at cmp xs i i" "ys = xs" "k = i" using split_at_right [of cmp xs i i] "2.prems"(5) by blast+
    then show ?thesis by (simp add: same_ends_def)
  next
    case dn: 2
    then have l: "le cmp (xs ! 1) (xs ! j)" using le_total [OF "2.prems"(7)] by (simp add: gt_le)
    have "part_down cmp exch xs i (j - 1) = (ys, k)" using "2.prems" dn by (simp add: part_down.simps [of cmp exch xs i j])
    moreover have "split_at cmp xs i (Suc (j - 1))" using split_at_right [OF "2.prems"(4) l] "2.prems"(2) by simp
    moreover have "i < j - 1" "j - 1 < length xs" using "2.prems"(2,3) dn by auto
    ultimately show ?thesis using "2.hyps"(1) [of ys k] "2.prems" dn by blast
  next
    case dn: 3
    then have l: "le cmp (xs ! j) (xs ! 1)" by (simp add: gt_le)
    have "ys = swap_at i j xs" "k = Suc i" using "2.prems" dn by (auto simp: part_down.simps [of cmp exch xs i j] Let_def)
    moreover have "split_at cmp (swap_at i j xs) (Suc i) j" by (rule split_at_swap [OF "2.prems"(4,5) l "2.prems"(1-3)])
    moreover have "same_ends xs (swap_at i j xs)" using "2.prems" by (intro same_ends_swap [of i j xs]) (simp_all add: same_ends_def)
    ultimately show ?thesis using dn by simp
  next
    case dn: 4
    then have l: "le cmp (xs ! j) (xs ! 1)" by (simp add: gt_le)
    have "part_up cmp exch (swap_at i j xs) (i + 1) j = (ys, k)"
      using "2.prems" dn by (simp add: part_down.simps [of cmp exch xs i j] Let_def)
    moreover have "split_at cmp (swap_at i j xs) (i + 1) j" using split_at_swap [OF "2.prems"(4,5) l "2.prems"(1-3)] by simp
    moreover have "i + 1 < j" "2 \<le> i + 1" "j < length (swap_at i j xs)" using "2.prems"(1-3) dn by auto
    ultimately have "split_at cmp ys k k \<and> same_ends (swap_at i j xs) ys"
      using "2.hyps"(2) [of "swap_at i j xs" ys k] "2.prems" dn by simp
    moreover have "same_ends xs ys" using "2.prems" calculation by (intro same_ends_swap [of i j xs ys]) auto
    ultimately show ?thesis by blast
  qed
qed

lemma choose_pivot_ok:
  assumes c: "consistent cmp" and n: "16 < length xs"
  shows "mset (choose_pivot cmp exch xs) = mset xs" "le cmp (choose_pivot cmp exch xs ! 0) (choose_pivot cmp exch xs ! 1)"
    "le cmp (choose_pivot cmp exch xs ! 1) (choose_pivot cmp exch xs ! (length xs - 1))"
proof -
  let ?o = "length xs div 2" and ?n = "length xs"
  define ys where "ys = (if ?n div 1024 \<noteq> 0
      then (let delta = ?o div 2 in zend_sort_5 cmp exch 0 delta ?o (?o + delta) (?n - 1) xs) else zend_sort_3 cmp exch 0 ?o (?n - 1) xs)"
  have cp: "choose_pivot cmp exch xs = swap_at 1 ?o ys" by (simp add: choose_pivot_def ys_def Let_def)
  have i: "0 < ?o div 2" "?o div 2 < ?o" "?o < ?o + ?o div 2" "?o + ?o div 2 < ?n - 1" "?n - 1 < ?n" "0 < ?o" "?o < ?n - 1" "1 < ?o"
    using n by auto
  have ys: "mset ys = mset xs \<and> le cmp (ys ! 0) (ys ! ?o) \<and> le cmp (ys ! ?o) (ys ! (?n - 1))"
  proof (cases "?n div 1024 \<noteq> 0")
    case True
    then have "ys = zend_sort_5 cmp exch 0 (?o div 2) ?o (?o + ?o div 2) (?n - 1) xs" by (simp add: ys_def Let_def)
    moreover have "mset (zend_sort_5 cmp exch 0 (?o div 2) ?o (?o + ?o div 2) (?n - 1) xs) = mset xs"
      using i by (intro sorts_mset(4)) auto
    moreover note sort_5_order [OF c i(1-5)]
    ultimately show ?thesis using le_trans [OF c] by blast
  next
    case False
    then have "ys = zend_sort_3 cmp exch 0 ?o (?n - 1) xs" by (simp add: ys_def)
    moreover have "mset (zend_sort_3 cmp exch 0 ?o (?n - 1) xs) = mset xs" using i by (intro sorts_mset(2)) auto
    moreover note sort_3_order [OF c i(6,7,5)]
    ultimately show ?thesis by blast
  qed
  then have l: "length ys = length xs" using mset_eq_length by blast
  show "mset (choose_pivot cmp exch xs) = mset xs" using ys l i by (simp add: cp)
  show "le cmp (choose_pivot cmp exch xs ! 0) (choose_pivot cmp exch xs ! 1)"
    "le cmp (choose_pivot cmp exch xs ! 1) (choose_pivot cmp exch xs ! (length xs - 1))"
    using ys l i by (auto simp: cp nth_swap_at)
qed

lemma partition_round_ok:
  assumes c: "consistent cmp" and n: "16 < length xs" and r: "partition_round cmp exch xs = (ys, i)"
  shows "mset ys = mset xs" "\<forall>x \<in> set (take (i - 1) ys). le cmp x (ys ! (i - 1))" "\<forall>x \<in> set (drop i ys). le cmp (ys ! (i - 1)) x"
proof -
  let ?p = "choose_pivot cmp exch xs"
  note cp = choose_pivot_ok [OF c n]
  have lp: "length ?p = length xs" using mset_eq_length [OF cp(1)] .
  obtain zs where zs: "part_up cmp exch ?p 2 (length xs - 1) = (zs, i)" and ys: "ys = swap_at 1 (i - 1) zs"
    using r by (auto simp: partition_round_def split: prod.splits)
  have "le cmp (?p ! 1) (?p ! k)" if "length xs - 1 \<le> k" "k < length ?p" for k
  proof -
    have "k = length xs - 1" using that lp by linarith
    then show ?thesis using cp(3) by simp
  qed
  then have "split_at cmp ?p 2 (length xs - 1)" by (auto simp: split_at_def)
  then have sp: "split_at cmp zs i i" and se: "same_ends ?p zs"
    using part_ok(1) [OF c, of 2 "length xs - 1" ?p zs i] zs n lp by auto
  note b = partition_round_bounds [OF r n]
  have lz: "length zs = length xs" using se lp by (metis mset_eq_length same_ends_def)
  show "mset ys = mset xs" using se cp(1) b n lz by (simp add: ys same_ends_def)
  have z0: "le cmp (zs ! 0) (zs ! 1)" using se cp(2) by (simp add: same_ends_def)
  have yi: "ys ! (i - 1) = zs ! 1" using b n lz by (simp add: ys nth_swap_at)
  have "le cmp (ys ! k) (zs ! 1)" if "k < i - 1" for k
  proof -
    consider "k = 0" | "k = 1" | "2 \<le> k" by linarith
    then show ?thesis
    proof cases
      case 1
      then show ?thesis using z0 that b n lz by (simp add: ys nth_swap_at)
    next
      case 2
      then have "ys ! k = zs ! (i - 1)" using b n lz by (simp add: ys nth_swap_at)
      then show ?thesis using sp 2 that by (simp add: split_at_def)
    next
      case 3
      then have "ys ! k = zs ! k" using that b n lz by (simp add: ys nth_swap_at)
      then show ?thesis using sp 3 that by (simp add: split_at_def)
    qed
  qed
  then show "\<forall>x \<in> set (take (i - 1) ys). le cmp x (ys ! (i - 1))" using yi by (auto simp: in_set_conv_nth)
  have "le cmp (zs ! 1) (ys ! k)" if "i \<le> k" "k < length ys" for k
    using that sp b n lz by (simp add: ys nth_swap_at split_at_def)
  then show "\<forall>x \<in> set (drop i ys). le cmp (ys ! (i - 1)) x" using yi b(1) by (auto simp: in_set_conv_nth)
qed

lemma zend_sort_ok: "consistent cmp \<Longrightarrow> sorted_wrt (le cmp) (zend_sort cmp exch xs) \<and> mset (zend_sort cmp exch xs) = mset xs"
proof (induction cmp "exch :: 'a swap_func" xs rule: zend_sort.induct)
  case (1 cmp xs)
  show ?case
  proof (cases "length xs \<le> 16")
    case True
    then show ?thesis using insert_sort_ok [OF 1(3), of xs] by (simp add: zend_sort.simps [of cmp exch xs])
  next
    case False
    obtain ys i where r: "partition_round cmp exch xs = (ys, i)" by fastforce
    note p = partition_round_ok [OF 1(3) _ r] and b = partition_round_bounds [OF r]
    let ?l = "zend_sort cmp exch (take (i - 1) ys)" and ?h = "zend_sort cmp exch (drop i ys)" and ?m = "ys ! (i - 1)"
    have IH: "sorted_wrt (le cmp) ?l \<and> mset ?l = mset (take (i - 1) ys)" "sorted_wrt (le cmp) ?h \<and> mset ?h = mset (drop i ys)"
      using 1(1) [OF False r [symmetric] 1(3)] 1(2) [OF False r [symmetric] 1(3)] by auto
    have e: "zend_sort cmp exch xs = ?l @ [?m] @ ?h" using False by (simp add: zend_sort.simps [of cmp exch xs] r)
    have sl: "\<forall>x \<in> set ?l. le cmp x ?m" using IH(1) p(2) False by (metis mset_eq_setD not_le)
    have sh: "\<forall>x \<in> set ?h. le cmp ?m x" using IH(2) p(3) False by (metis mset_eq_setD not_le)
    have "sorted_wrt (le cmp) (?l @ [?m] @ ?h)"
      using IH sl sh le_trans [OF 1(3)] by (auto simp: sorted_wrt_append)
    moreover have "ys = take (i - 1) ys @ ?m # drop i ys" using id_take_nth_drop [of "i - 1" ys] b False by simp
    then have "mset ys = mset (take (i - 1) ys) + add_mset ?m (mset (drop i ys))" by (metis mset.simps(2) mset_append)
    then have "mset (?l @ [?m] @ ?h) = mset xs" using IH p(1) False by simp
    ultimately show ?thesis unfolding e by simp
  qed
qed

section \<open>The contract of a sorting function\<close>

text \<open>
  What a caller of a \<^verbatim>\<open>sort_func_t\<close> may rely on.  A comparison without ties leaves no choice: the
  result is the same for every function that keeps the contract, and so is the result of sorting
  a permutation of the input.
\<close>

locale sorter =
  fixes srt :: "'a compare_func \<Rightarrow> 'a list \<Rightarrow> 'a list"
  assumes srt_sorted: "consistent cmp \<Longrightarrow> sorted_wrt (le cmp) (srt cmp xs)"
    and srt_perm: "consistent cmp \<Longrightarrow> mset (srt cmp xs) = mset xs"
begin

lemma srt_set: "consistent cmp \<Longrightarrow> set (srt cmp xs) = set xs"
  using srt_perm mset_eq_setD by blast

lemma srt_length: "consistent cmp \<Longrightarrow> length (srt cmp xs) = length xs"
  using srt_perm mset_eq_length by blast

lemma srt_unique:
  assumes c: "consistent cmp" and ties: "\<And>x y. x \<in> set xs \<Longrightarrow> y \<in> set xs \<Longrightarrow> le cmp x y \<Longrightarrow> le cmp y x \<Longrightarrow> x = y"
    and s: "sorted_wrt (le cmp) ys" "mset ys = mset xs"
  shows "srt cmp xs = ys"
proof -
  have "sorted_wrt (le cmp) as \<Longrightarrow> sorted_wrt (le cmp) bs \<Longrightarrow> mset as = mset bs \<Longrightarrow> set as \<subseteq> set xs \<Longrightarrow> as = bs" for as bs
  proof (induction as arbitrary: bs)
    case (Cons a as)
    from Cons.prems(3) obtain b bs' where b: "bs = b # bs'" by (cases bs) auto
    have "a \<in> set bs" "b \<in> set (a # as)" using Cons.prems(3) b by (metis list.set_intros(1) mset_eq_setD)+
    then have "le cmp a b" "le cmp b a" using Cons.prems(1,2) b le_refl [OF c] by auto
    moreover have "b \<in> set xs" using \<open>b \<in> set (a # as)\<close> Cons.prems(4) by auto
    ultimately have "a = b" using ties Cons.prems(4) by auto
    with Cons b show ?case by auto
  qed simp
  from this [OF srt_sorted [OF c] s(1)] srt_perm [OF c, of xs] srt_set [OF c, of xs] s(2) show ?thesis by simp
qed

lemma srt_permutation:
  assumes "consistent cmp" "\<And>x y. x \<in> set xs \<Longrightarrow> y \<in> set xs \<Longrightarrow> le cmp x y \<Longrightarrow> le cmp y x \<Longrightarrow> x = y" "mset ys = mset xs"
  shows "srt cmp ys = srt cmp xs"
  using srt_unique [OF assms(1,2) srt_sorted [OF assms(1), of ys]] srt_perm [OF assms(1), of ys] assms(3) by simp

end

interpretation zs_sort: sorter "\<lambda>cmp. zend_sort cmp exch"
  by unfold_locales (use zend_sort_ok in blast)+

interpretation zs_insert: sorter "\<lambda>cmp. zend_insert_sort cmp exch"
  by unfold_locales (use insert_sort_ok in blast)+



section \<open>Sorting under a projection\<close>

text \<open>
  If the comparison and the swap only see the image under \<open>f\<close>, the sorting functions commute with
  \<open>f\<close>.  This covers swap functions that move a part of the element only.
\<close>

definition simulates :: "('a \<Rightarrow> 'b) \<Rightarrow> 'a compare_func \<Rightarrow> 'a swap_func \<Rightarrow> 'b compare_func \<Rightarrow> 'b swap_func \<Rightarrow> bool" where
  "simulates f cmp swp cmp' swp' \<longleftrightarrow> (\<forall>a b. cmp a b = cmp' (f a) (f b)) \<and>
     (\<forall>a b. f (fst (swp a b)) = fst (swp' (f a) (f b)) \<and> f (snd (swp a b)) = snd (swp' (f a) (f b)))"

lemma gt_map: "simulates f cmp swp cmp' swp' \<Longrightarrow> i < length xs \<Longrightarrow> j < length xs \<Longrightarrow> gt cmp' (map f xs) i j = gt cmp xs i j"
  by (simp add: simulates_def gt_def)

lemma swp_at_map:
  "simulates f cmp swp cmp' swp' \<Longrightarrow> i < length xs \<Longrightarrow> j < length xs \<Longrightarrow> swp_at swp' i j (map f xs) = map f (swp_at swp i j xs)"
  by (simp add: simulates_def swp_at_def map_update)

lemma bubble_map:
  "simulates f cmp swp cmp' swp' \<Longrightarrow> \<forall>(a, b) \<in> set ps. a < length xs \<and> b < length xs \<Longrightarrow>
   bubble cmp' swp' ps (map f xs) = map f (bubble cmp swp ps xs)"
  by (induction cmp swp ps xs rule: bubble.induct) (auto simp: bubble.simps gt_map swp_at_map)

lemma sorts_map:
  assumes s: "simulates f cmp swp cmp' swp'" and "a < length xs" "b < length xs"
  shows "zend_sort_2 cmp' swp' a b (map f xs) = map f (zend_sort_2 cmp swp a b xs)"
    "c < length xs \<Longrightarrow> zend_sort_3 cmp' swp' a b c (map f xs) = map f (zend_sort_3 cmp swp a b c xs)"
    "c < length xs \<Longrightarrow> d < length xs \<Longrightarrow> zend_sort_4 cmp' swp' a b c d (map f xs) = map f (zend_sort_4 cmp swp a b c d xs)"
    "c < length xs \<Longrightarrow> d < length xs \<Longrightarrow> e < length xs \<Longrightarrow> zend_sort_5 cmp' swp' a b c d e (map f xs) = map f (zend_sort_5 cmp swp a b c d e xs)"
  using assms by (simp_all add: zend_sort_2_def zend_sort_3_def zend_sort_4_def zend_sort_5_def gt_map [OF s]
      swp_at_map [OF s] bubble_map [OF s])

lemma insert_pos_map:
  "simulates f cmp swp cmp' swp' \<Longrightarrow> i < length xs \<Longrightarrow> j \<le> length xs \<Longrightarrow> insert_pos cmp' (map f xs) i j = insert_pos cmp xs i j"
  by (induction j) (auto simp: gt_map)

lemma insert_pos2_map:
  "simulates f cmp swp cmp' swp' \<Longrightarrow> i < length xs \<Longrightarrow> 2 \<le> j \<Longrightarrow> j < length xs \<Longrightarrow> insert_pos2 cmp' (map f xs) i j = insert_pos2 cmp xs i j"
proof (induction j rule: less_induct)
  case (less j)
  have g: "gt cmp' (map f xs) a b = gt cmp xs a b" if "a < length xs" "b < length xs" for a b
    using gt_map [OF less.prems(1) that] .
  have "insert_pos2 cmp' (map f xs) i (j - 2) = insert_pos2 cmp xs i (j - 2)" if "2 \<le> j - 2"
    using less that by simp
  moreover have "gt cmp' (map f xs) (j - 2) i = gt cmp xs (j - 2) i" "gt cmp' (map f xs) (j - 2 + 1) i = gt cmp xs (j - 2 + 1) i"
    "gt cmp' (map f xs) i 0 = gt cmp xs i 0" using less.prems by (auto intro!: g)
  ultimately show ?case by (subst (1 2) insert_pos2.simps) (simp add: Let_def)
qed

lemma shift_down_map:
  "simulates f cmp swp cmp' swp' \<Longrightarrow> k < length xs \<Longrightarrow> shift_down swp' j k (map f xs) = map f (shift_down swp j k xs)"
  by (induction k arbitrary: xs) (auto simp: swp_at_map)

lemma insert_one_map:
  assumes "simulates f cmp swp cmp' swp'" "i < length xs"
  shows "insert_one cmp' swp' i (map f xs) = map f (insert_one cmp swp i xs)"
    "3 \<le> i \<Longrightarrow> insert_one2 cmp' swp' i (map f xs) = map f (insert_one2 cmp swp i xs)"
  using assms by (simp_all add: insert_one_def insert_one2_def gt_map [OF assms(1)] insert_pos_map [OF assms(1)]
      insert_pos2_map [OF assms(1)] shift_down_map [OF assms(1)])

lemma fold_map:
  assumes "\<And>i xs. i \<in> set is \<Longrightarrow> length xs = n \<Longrightarrow> g i (map f xs) = map f (h i xs) \<and> length (h i xs) = n"
  shows "length xs = n \<Longrightarrow> fold g is (map f xs) = map f (fold h is xs)"
  using assms by (induction "is" arbitrary: xs) auto

lemma insert_sort_map:
  assumes s: "simulates f cmp swp cmp' swp'"
  shows "zend_insert_sort cmp' swp' (map f xs) = map f (zend_insert_sort cmp swp xs)"
proof -
  have 1: "fold (insert_one cmp' swp') [1 ..< 6] (map f xs) = map f (fold (insert_one cmp swp) [1 ..< 6] xs)" if "6 \<le> length xs"
    by (rule fold_map [of _ "length xs"]) (use that insert_one_map(1) [OF s] in auto)
  have 2: "fold (insert_one2 cmp' swp') [6 ..< length xs] (map f ys) = map f (fold (insert_one2 cmp swp) [6 ..< length xs] ys)"
    if "length ys = length xs" for ys
    by (rule fold_map [of _ "length xs"]) (use that insert_one_map(2) [OF s] in auto)
  consider "length xs \<le> 1" | "length xs = 2" | "length xs = 3" | "length xs = 4" | "length xs = 5" | "6 \<le> length xs" by linarith
  then show ?thesis
  proof cases
    case 6
    then have "length (fold (insert_one cmp swp) [1 ..< 6] xs) = length xs" by (simp add: length_fold)
    then show ?thesis using 6 1 2 by (simp add: zend_insert_sort_def Let_def)
  qed (simp_all add: zend_insert_sort_def Let_def sorts_map [OF s])
qed

lemma part_map:
  assumes "simulates f cmp swp cmp' swp'"
  shows "1 < i \<Longrightarrow> i < j \<Longrightarrow> j < length xs \<Longrightarrow> part_up cmp' swp' (map f xs) i j = map_prod (map f) (\<lambda>k. k) (part_up cmp swp xs i j)"
    "1 < i \<Longrightarrow> i < j \<Longrightarrow> j < length xs \<Longrightarrow> part_down cmp' swp' (map f xs) i j = map_prod (map f) (\<lambda>k. k) (part_down cmp swp xs i j)"
  using assms
proof (induction cmp swp xs i j and cmp swp xs i j rule: part_up_part_down.induct)
  case (1 cmp swp xs i j)
  note g = gt_map [OF "1.prems"(4)]
  show ?case using 1 g [of 1 xs i]
    by (subst part_up.simps, subst (2) part_up.simps) auto
next
  case (2 cmp swp xs i j)
  note g = gt_map [OF "2.prems"(4)]
  show ?case using 2 g [of j xs 1] swp_at_map [OF "2.prems"(4), of i xs j]
    by (subst part_down.simps, subst (2) part_down.simps) (auto simp: Let_def)
qed

lemma partition_round_map:
  assumes s: "simulates f cmp swp cmp' swp'" and n: "16 < length xs"
  shows "partition_round cmp' swp' (map f xs) = map_prod (map f) (\<lambda>k. k) (partition_round cmp swp xs)"
proof -
  let ?o = "length xs div 2" and ?p = "choose_pivot cmp swp xs"
  have cp: "choose_pivot cmp' swp' (map f xs) = map f ?p"
  proof -
    have i: "0 < length xs" "1 < length xs" "?o < length xs" "?o div 2 < length xs" "?o + ?o div 2 < length xs" "length xs - 1 < length xs"
      using n by auto
    show ?thesis unfolding choose_pivot_def Let_def length_map
      by (auto simp only: sorts_map(2) [OF s i(1,3,6)] sorts_map(4) [OF s i(1,4,3,5,6)] if_distrib [of "map f", symmetric]
          intro!: swp_at_map [OF s]) (use i in auto)
  qed
  have lp: "length ?p = length xs" by (simp add: choose_pivot_def Let_def)
  obtain zs i where z: "part_up cmp swp ?p 2 (length xs - 1) = (zs, i)" by fastforce
  have "part_up cmp' swp' (map f ?p) 2 (length xs - 1) = (map f zs, i)"
    using part_map(1) [OF s, of 2 "length xs - 1" ?p] z n lp by simp
  moreover have "length zs = length xs" "2 \<le> i" "i \<le> length xs - 1"
    using part_bounds(1) [of 2 "length xs - 1" cmp swp ?p zs i] z n lp by auto
  ultimately show ?thesis using n z by (simp add: partition_round_def cp swp_at_map [OF s])
qed

lemma zend_sort_map:
  "simulates f cmp swp cmp' swp' \<Longrightarrow> zend_sort cmp' swp' (map f xs) = map f (zend_sort cmp swp xs)"
proof (induction cmp swp xs rule: zend_sort.induct)
  case (1 cmp swp xs)
  show ?case
  proof (cases "length xs \<le> 16")
    case True
    then show ?thesis using insert_sort_map [OF 1(3)] by (simp add: zend_sort.simps)
  next
    case False
    obtain ys i where r: "partition_round cmp swp xs = (ys, i)" by fastforce
    have b: "length ys = length xs" "2 \<le> i" "i \<le> length xs - 1" using partition_round_bounds [OF r] False by auto
    have "partition_round cmp' swp' (map f xs) = (map f ys, i)" using partition_round_map [OF 1(3)] False r by simp
    then have "zend_sort cmp' swp' (map f xs) =
        zend_sort cmp' swp' (take (i - 1) (map f ys)) @ [map f ys ! (i - 1)] @ zend_sort cmp' swp' (drop i (map f ys))"
      using False by (simp add: zend_sort.simps [of cmp' swp' "map f xs"])
    also have "\<dots> = map f (zend_sort cmp swp (take (i - 1) ys) @ [ys ! (i - 1)] @ zend_sort cmp swp (drop i ys))"
      using 1(1) [OF False r [symmetric] 1(3)] 1(2) [OF False r [symmetric] 1(3)] b False by (simp add: take_map drop_map)
    finally show ?thesis using False by (simp add: zend_sort.simps [of cmp swp xs] r)
  qed
qed

section \<open>A reference: stable insertion\<close>

fun stable_insert :: "'a compare_func \<Rightarrow> 'a \<Rightarrow> 'a list \<Rightarrow> 'a list" where
  "stable_insert cmp x [] = [x]"
| "stable_insert cmp x (y # ys) = (if cmp x y > 0 then y # stable_insert cmp x ys else x # y # ys)"

definition stable_sort :: "'a compare_func \<Rightarrow> 'a list \<Rightarrow> 'a list" where
  "stable_sort cmp xs = foldr (stable_insert cmp) xs []"

lemma stable_insert_mset [simp]: "mset (stable_insert cmp x ys) = add_mset x (mset ys)"
  by (induction ys) auto

lemma stable_insert_set [simp]: "set (stable_insert cmp x ys) = insert x (set ys)"
  by (induction ys) auto

lemma stable_sort_mset: "mset (stable_sort cmp xs) = mset xs"
  by (induction xs) (auto simp: stable_sort_def)

lemma stable_insert_sorted:
  "consistent cmp \<Longrightarrow> sorted_wrt (le cmp) ys \<Longrightarrow> sorted_wrt (le cmp) (stable_insert cmp x ys)"
proof (induction ys)
  case (Cons y ys)
  show ?case
  proof (cases "cmp x y > 0")
    case True
    then have "le cmp y x" using le_total [OF Cons.prems(1), of x y] by (simp add: le_def)
    then show ?thesis using Cons True by simp
  next
    case False
    then have "le cmp x y" by (simp add: le_def)
    then show ?thesis using Cons.prems(2) False le_trans [OF Cons.prems(1)] by auto
  qed
qed simp

lemma stable_sort_sorted: "consistent cmp \<Longrightarrow> sorted_wrt (le cmp) (stable_sort cmp xs)"
  by (induction xs) (auto simp: stable_sort_def stable_insert_sorted)

lemma stable_insert_map:
  "(\<And>y. y \<in> set ys \<Longrightarrow> cmp x y > 0 \<longleftrightarrow> cmp' (f x) (f y) > 0) \<Longrightarrow> map f (stable_insert cmp x ys) = stable_insert cmp' (f x) (map f ys)"
  by (induction ys) auto


end
