(* ===== verification/Zend_Numeric.thy ===== *)
theory Zend_Numeric
  imports Hash_Table
begin

text \<open>
  Integers as array keys: the conversion of integers to decimal strings
  (\<^verbatim>\<open>Zend/zend_operators.h\<close>, \<^verbatim>\<open>Zend/zend_operators.c\<close>) and the test whether a string key stands for an
  integer (\<^verbatim>\<open>_zend_handle_numeric_str\<close> of \<^verbatim>\<open>Zend/zend_hash.h\<close> and \<^verbatim>\<open>_zend_handle_numeric_str_ex\<close> of
  \<^verbatim>\<open>Zend/zend_hash.c\<close>).  The test accepts exactly the strings that the conversion produces.
\<close>

section \<open>Printing integers\<close>

definition digit_char :: "u64 \<Rightarrow> char" where
  "digit_char d = char_of (unat d + 48)"

function zend_print_ulong_to_buf :: "string \<Rightarrow> u64 \<Rightarrow> string" where
  "zend_print_ulong_to_buf buf num =
     (let buf = digit_char (num mod 10) # buf; num = num div 10
      in if num > 0 then zend_print_ulong_to_buf buf num else buf)"
  by pat_completeness auto
termination
proof (relation "measure (\<lambda>(buf, num). unat num)")
  fix buf x :: string and num y :: u64
  assume "y = num div 10" "0 < y"
  then have "unat y = unat num div 10" "0 < unat y" by (auto simp: unat_div word_less_nat_alt)
  then show "((x, y), (buf, num)) \<in> measure (\<lambda>(buf, num). unat num)" by simp
qed simp

declare zend_print_ulong_to_buf.simps [simp del]

definition zend_print_long_to_buf :: "string \<Rightarrow> u64 \<Rightarrow> string" where
  "zend_print_long_to_buf buf num =
     (if sint num < 0 then CHR ''-'' # zend_print_ulong_to_buf buf (NOT num + 1) else zend_print_ulong_to_buf buf num)"

definition zend_long_to_str :: "u64 \<Rightarrow> string" where
  "zend_long_to_str num = (if num \<le> 9 then [digit_char num] else zend_print_long_to_buf [] num)"

section \<open>Recognising integer strings\<close>

definition MAX_LENGTH_OF_LONG :: nat where
  "MAX_LENGTH_OF_LONG = 20"

definition schar_int :: "char \<Rightarrow> int" where
  "schar_int c = (let n = of_char c in if n < 128 then n else n - 256)"

abbreviation is_digit :: "char \<Rightarrow> bool" where
  "is_digit c \<equiv> 48 \<le> schar_int c \<and> schar_int c \<le> 57"

definition digit_val :: "char \<Rightarrow> u64" where
  "digit_val c = word_of_int (schar_int c - 48)"

fun numeric_loop :: "bool \<Rightarrow> u64 \<Rightarrow> string \<Rightarrow> u64 option" where
  "numeric_loop neg idx [] =
     (if neg then (if idx - 1 > ZEND_LONG_MAX then None else Some (0 - idx))
      else if idx > ZEND_LONG_MAX then None else Some idx)"
| "numeric_loop neg idx (c # cs) = (if is_digit c then numeric_loop neg (idx * 10 + digit_val c) cs else None)"

text \<open>
  \<^verbatim>\<open>_zend_handle_numeric_str_ex\<close>: the strings are terminated by a zero byte, so the first read past the
  end is defined, the next one is not (\<open>Out_Of_Bounds\<close>).
\<close>

definition zend_handle_numeric_str_ex :: "string \<Rightarrow> u64 option res" where
  "zend_handle_numeric_str_ex key =
     (let neg = (key \<noteq> [] \<and> hd key = CHR ''-'');
          tmp = (if neg then tl key else key)
      in case tmp of
           [] \<Rightarrow> Inl Out_Of_Bounds
         | c # cs \<Rightarrow>
             if c = CHR ''0'' \<and> length key > 1 \<or> length tmp > MAX_LENGTH_OF_LONG - 1 then Inr None
             else Inr (numeric_loop neg (digit_val c) cs))"

text \<open>\<^verbatim>\<open>_zend_handle_numeric_str\<close>; the byte after the end is the terminating zero.\<close>

definition char_at :: "string \<Rightarrow> nat \<Rightarrow> int" where
  "char_at key i = (if i < length key then schar_int (key ! i) else 0)"

definition zend_handle_numeric_str :: "string \<Rightarrow> u64 option res" where
  "zend_handle_numeric_str key =
     (if char_at key 0 > 57 then Inr None
      else if char_at key 0 < 48
      then (if char_at key 0 \<noteq> 45 then Inr None
            else if char_at key 1 > 57 \<or> char_at key 1 < 48 then Inr None
            else zend_handle_numeric_str_ex key)
      else zend_handle_numeric_str_ex key)"

section \<open>The canonical decimal notation\<close>

text \<open>The reference: decimal digits without leading zeros, and a sign for negative numbers.\<close>

fun nat_str :: "nat \<Rightarrow> string" where
  "nat_str n = (if n < 10 then [char_of (n + 48)] else nat_str (n div 10) @ [char_of (n mod 10 + 48)])"

declare nat_str.simps [simp del]

definition int_str :: "int \<Rightarrow> string" where
  "int_str i = (if i < 0 then CHR ''-'' # nat_str (nat (- i)) else nat_str (nat i))"

definition digit :: "char \<Rightarrow> nat" where
  "digit c = nat (schar_int c - 48)"

definition digits_val :: "string \<Rightarrow> nat" where
  "digits_val ds = foldl (\<lambda>v c. v * 10 + digit c) 0 ds"

definition canonical :: "string \<Rightarrow> bool" where
  "canonical ds \<longleftrightarrow> ds \<noteq> [] \<and> (\<forall>c \<in> set ds. is_digit c) \<and> (hd ds = CHR ''0'' \<longrightarrow> length ds = 1)"

lemma schar_int_nat: "schar_int c = (if of_char c < (128 :: nat) then int (of_char c) else int (of_char c) - 256)"
proof -
  have "(of_char c :: int) = int (of_char c)" by (rule of_nat_of_char [symmetric])
  then show ?thesis unfolding schar_int_def Let_def by presburger
qed

lemma schar_int_char_of: "d < 10 \<Longrightarrow> schar_int (char_of (d + 48 :: nat)) = int d + 48"
  unfolding schar_int_nat by (simp only: of_char_of) simp

lemma char_of_48: "char_of (48 :: nat) = CHR ''0''"
  by code_simp

lemma char_of_digit: "is_digit c \<Longrightarrow> char_of (digit c + 48) = c"
proof -
  assume a: "is_digit c"
  have "(of_char c :: nat) < 256" by (metis of_char_of char_of_char mod_less_divisor zero_less_numeral)
  then have "schar_int c = int (of_char c)" using a unfolding schar_int_nat by presburger
  then have "digit c + 48 = of_char c" using a unfolding digit_def by linarith
  then show ?thesis by simp
qed

lemma digit_char_of [simp]: "d < 10 \<Longrightarrow> digit (char_of (d + 48)) = d"
  by (simp add: digit_def schar_int_char_of)

lemma zero_char: "is_digit c \<Longrightarrow> c = CHR ''0'' \<longleftrightarrow> digit c = 0"
  using char_of_digit [of c] char_of_48 by (auto simp: digit_def schar_int_nat)

lemma digits_val_snoc [simp]: "digits_val (ds @ [c]) = digits_val ds * 10 + digit c" "digits_val [] = 0"
  by (simp_all add: digits_val_def)

lemma is_digit_char_of: "d < 10 \<Longrightarrow> is_digit (char_of (d + 48 :: nat))"
  by (simp add: schar_int_char_of)

lemma nat_str_canonical: "canonical (nat_str n) \<and> digits_val (nat_str n) = n"
proof (induction n rule: nat_str.induct)
  case (1 n)
  show ?case
  proof (cases "n < 10")
    case True
    then have "nat_str n = [char_of (n + 48)]" by (simp add: nat_str.simps)
    then show ?thesis using True is_digit_char_of [of n] digits_val_snoc(1) [of "[]" "char_of (n + 48)"] by (simp add: canonical_def)
  next
    case False
    let ?d = "nat_str (n div 10)"
    have IH: "canonical ?d" "digits_val ?d = n div 10" using 1 False by auto
    have e: "nat_str n = ?d @ [char_of (n mod 10 + 48)]" using False by (subst nat_str.simps) simp
    have "hd ?d \<noteq> CHR ''0''"
    proof
      assume h: "hd ?d = CHR ''0''"
      then have "length ?d = 1" using IH(1) by (simp add: canonical_def)
      then have "?d = [CHR ''0'']" using h by (cases ?d) auto
      then show False using IH(2) False by (simp add: digits_val_def digit_def schar_int_def)
    qed
    then show ?thesis unfolding e using IH is_digit_char_of [of "n mod 10"] by (auto simp: canonical_def)
  qed
qed

lemma canonical_nat_str: "canonical ds \<Longrightarrow> nat_str (digits_val ds) = ds"
proof (induction ds rule: rev_induct)
  case (snoc c ds)
  have d: "is_digit c" "digit c < 10" using snoc.prems by (auto simp: canonical_def digit_def)
  show ?case
  proof (cases "ds = []")
    case True
    then show ?thesis using d char_of_digit [OF d(1)] digits_val_snoc(1) [of "[]" c] by (simp add: nat_str.simps [of "digit c"])
  next
    case False
    then have h: "hd ds \<noteq> CHR ''0''" and c: "canonical ds" using snoc.prems by (auto simp: canonical_def)
    have "digits_val ds \<noteq> 0"
    proof
      assume "digits_val ds = 0"
      then have "ds = nat_str 0" using snoc.IH [OF c] by simp
      then show False using h char_of_48 by (simp add: nat_str.simps)
    qed
    then show ?thesis using snoc.IH [OF c] d char_of_digit [OF d(1)]
      by (subst nat_str.simps) (simp add: add.commute)
  qed
qed (simp add: canonical_def)

lemma digits_val_bound: "(\<forall>c \<in> set ds. is_digit c) \<Longrightarrow> digits_val ds < 10 ^ length ds"
proof (induction ds rule: rev_induct)
  case (snoc c ds)
  then have "digits_val ds < 10 ^ length ds" "digit c < 10" by (auto simp: digit_def)
  then have "Suc (digits_val ds) * 10 \<le> 10 ^ length ds * 10" "digit c < 10" by (simp_all only: Suc_leI mult_le_mono1)
  then show ?case by simp
qed simp

lemma nat_str_length: "0 < n \<Longrightarrow> 10 ^ (length (nat_str n) - 1) \<le> n"
proof (induction n rule: nat_str.induct)
  case (1 n)
  show ?case
  proof (cases "n < 10")
    case False
    then have IH: "10 ^ (length (nat_str (n div 10)) - 1) \<le> n div 10" using 1 by simp
    have "nat_str (n div 10) \<noteq> []" using nat_str_canonical [of "n div 10"] by (auto simp: canonical_def)
    then have "(10::nat) ^ length (nat_str (n div 10)) = 10 * 10 ^ (length (nat_str (n div 10)) - 1)" by (cases "nat_str (n div 10)") auto
    also have "\<dots> \<le> 10 * (n div 10)" using IH by simp
    also have "\<dots> \<le> n" by simp
    finally show ?thesis using False by (subst nat_str.simps) simp
  qed (use 1 in \<open>simp add: nat_str.simps\<close>)
qed

section \<open>Printing\<close>

lemma print_ulong: "zend_print_ulong_to_buf buf num = nat_str (unat num) @ buf"
proof (induction buf num rule: zend_print_ulong_to_buf.induct)
  case (1 buf num)
  have u: "unat (num div 10) = unat num div 10" "unat (num mod 10) = unat num mod 10" by (simp_all add: unat_div unat_mod)
  have g: "num div 10 > 0 \<longleftrightarrow> \<not> unat num < 10" unfolding word_less_nat_alt u by simp arith
  show ?case
  proof (cases "num div 10 > 0")
    case True
    have "zend_print_ulong_to_buf buf num = nat_str (unat (num div 10)) @ digit_char (num mod 10) # buf"
      using True 1 by (simp add: zend_print_ulong_to_buf.simps [of buf num] Let_def)
    moreover have "nat_str (unat num) = nat_str (unat num div 10) @ [char_of (unat num mod 10 + 48)]"
      using True g by (simp add: nat_str.simps [of "unat num"])
    ultimately show ?thesis unfolding u digit_char_def by simp
  next
    case False
    then have "unat num mod 10 = unat num" using g by simp
    then show ?thesis using False g u
      by (simp add: zend_print_ulong_to_buf.simps [of buf num] nat_str.simps [of "unat num"] Let_def digit_char_def)
  qed
qed

lemma uint_sint_cases:
  fixes n :: u64
  shows "0 \<le> sint n \<Longrightarrow> uint n = sint n" "sint n < 0 \<Longrightarrow> uint (- n) = - sint n"
proof -
  have b: "- (2 ^ 63) \<le> sint n" "sint n < 2 ^ 63" using sint_ge [of n] sint_lt [of n] by simp_all
  show "uint n = sint n" if "0 \<le> sint n" using that b by (simp add: uint_sint take_bit_int_eq_self)
  have e: "- n = word_of_int (- sint n)" by simp
  show "uint (- n) = - sint n" if "sint n < 0"
    unfolding e uint_word_of_int_eq using that b by (simp only: take_bit_int_eq_self_iff) simp
qed

lemma unat_sint: "0 \<le> sint (n :: u64) \<Longrightarrow> unat n = nat (sint n)" "sint (n :: u64) < 0 \<Longrightarrow> unat (- n) = nat (- sint n)"
  using uint_sint_cases [of n] by (simp_all add: unat_eq_nat_uint)

lemma sint_small: "unat (n :: u64) < 2 ^ 63 \<Longrightarrow> sint n = int (unat n)"
proof -
  assume u: "unat n < 2 ^ 63"
  show ?thesis
  proof (cases "0 \<le> sint n")
    case True
    then show ?thesis using unat_sint(1) [of n] by simp
  next
    case False
    have "uint n = take_bit 64 (sint n)" by (simp add: uint_sint)
    also have "\<dots> = sint n + 2 ^ 64"
    proof -
      have "- (2 ^ 63) \<le> sint n" using sint_ge [of n] by simp
      then have "(sint n + 2 ^ 64) mod 2 ^ 64 = sint n + 2 ^ 64" using False by (intro mod_pos_pos_trivial) auto
      then show ?thesis by (simp add: take_bit_eq_mod)
    qed
    finally have "uint n = sint n + 2 ^ 64" .
    moreover have "uint n = int (unat n)" by simp
    moreover have "int (unat n) < 2 ^ 63" using u by (metis of_nat_less_numeral_power_cancel_iff)
    moreover have "- (2 ^ 63) \<le> sint n" using sint_ge [of n] by simp
    moreover have "(2 :: int) ^ 64 = 2 * 2 ^ 63" by simp
    ultimately have False by linarith
    then show ?thesis ..
  qed
qed

lemma zend_long_to_str_eq: "zend_long_to_str n = int_str (sint n)"
proof (cases "n \<le> 9")
  case True
  then have u: "unat n \<le> 9" by (simp add: word_le_nat_alt)
  then have s: "sint n = int (unat n)" by (intro sint_small) simp
  show ?thesis using True u s by (simp add: zend_long_to_str_def int_str_def digit_char_def nat_str.simps [of "unat n"])
next
  case False
  show ?thesis
  proof (cases "sint n < 0")
    case True
    have "NOT n + 1 = - n" by (simp add: minus_eq_not_plus_1)
    then show ?thesis using True False unat_sint(2) [of n]
      by (simp add: zend_long_to_str_def zend_print_long_to_buf_def int_str_def print_ulong)
  next
    case n: False
    then show ?thesis using False unat_sint(1) [of n]
      by (simp add: zend_long_to_str_def zend_print_long_to_buf_def int_str_def print_ulong)
  qed
qed

section \<open>Recognition\<close>

lemma digit_val_of_nat: "is_digit c \<Longrightarrow> digit_val c = of_nat (digit c)"
  by (simp add: digit_val_def digit_def)

definition numeric_end :: "bool \<Rightarrow> nat \<Rightarrow> u64 option" where
  "numeric_end neg v =
     (if neg then (if v \<le> 2 ^ 63 then Some (- of_nat v) else None) else if v < 2 ^ 63 then Some (of_nat v) else None)"

lemma numeric_loop_end:
  assumes "v < 2 ^ 64" "neg \<longrightarrow> v \<noteq> 0"
  shows "numeric_loop neg (of_nat v) [] = numeric_end neg v"
proof -
  have u: "unat (of_nat v :: u64) = v" using assms(1) by (simp add: unat_of_nat take_bit_nat_eq_self)
  have m: "unat (ZEND_LONG_MAX) = 2 ^ 63 - 1" by (simp add: ZEND_LONG_MAX_def)
  have a: "ZEND_LONG_MAX < (of_nat v :: u64) \<longleftrightarrow> \<not> v < 2 ^ 63" unfolding word_less_nat_alt u m by auto
  have b: "ZEND_LONG_MAX < (of_nat v - 1 :: u64) \<longleftrightarrow> \<not> v \<le> 2 ^ 63" if "neg"
  proof -
    have "(of_nat v - 1 :: u64) = of_nat (v - 1)" using assms(2) that by (simp add: of_nat_diff)
    moreover have "unat (of_nat (v - 1) :: u64) = v - 1" using assms(1) by (simp add: unat_of_nat take_bit_nat_eq_self)
    ultimately have "unat (of_nat v - 1 :: u64) = v - 1" by simp
    then show ?thesis unfolding word_less_nat_alt m using assms(2) that by auto
  qed
  show ?thesis using a b by (simp add: numeric_end_def)
qed

lemma numeric_loop_eq:
  assumes "v < 10 ^ k" "k + length cs \<le> 19" "neg \<longrightarrow> v \<noteq> 0"
  shows "numeric_loop neg (of_nat v) cs =
    (if \<forall>c \<in> set cs. is_digit c then numeric_end neg (foldl (\<lambda>v c. v * 10 + digit c) v cs) else None)"
  using assms
proof (induction cs arbitrary: v k)
  case Nil
  then have "v < 10 ^ 19" by (meson less_le_trans power_increasing_iff le_add1 order_trans one_less_numeral_iff semiring_norm(76))
  then show ?case using Nil numeric_loop_end [of v neg] by simp
next
  case (Cons c cs)
  show ?case
  proof (cases "is_digit c")
    case True
    have e: "of_nat v * 10 + digit_val c = (of_nat (v * 10 + digit c) :: u64)" using digit_val_of_nat [OF True] by simp
    have "digit c < 10" using True by (auto simp: digit_def)
    then have "v * 10 + digit c < Suc v * 10" by simp
    also have "\<dots> \<le> 10 ^ Suc k" using Cons.prems(1) by (simp add: Suc_le_eq del: mult_Suc)
    finally have "numeric_loop neg (of_nat (v * 10 + digit c)) cs =
        (if \<forall>c \<in> set cs. is_digit c then numeric_end neg (foldl (\<lambda>v c. v * 10 + digit c) (v * 10 + digit c) cs) else None)"
      using Cons.prems by (intro Cons.IH [of _ "Suc k"]) auto
    then show ?thesis using True unfolding numeric_loop.simps e by simp
  qed auto
qed

definition strip_sign :: "string \<Rightarrow> string" where
  "strip_sign key = (if key \<noteq> [] \<and> hd key = CHR ''-'' then tl key else key)"

lemma handle_numeric_ex:
  assumes "strip_sign key = c # cs" "is_digit c"
  shows "zend_handle_numeric_str_ex key = Inr
    (if canonical (c # cs) \<and> length cs < 19 \<and> (hd key = CHR ''-'' \<longrightarrow> c \<noteq> CHR ''0'')
     then numeric_end (hd key = CHR ''-'') (digits_val (c # cs)) else None)"
proof -
  define neg where "neg = (key \<noteq> [] \<and> hd key = CHR ''-'')"
  have kne: "key \<noteq> []" using assms(1) by (auto simp: strip_sign_def)
  then have n: "neg = (hd key = CHR ''-'')" by (simp add: neg_def)
  have lk: "length key = Suc (length cs) + (if neg then 1 else 0)" using assms(1) by (cases key) (auto simp: strip_sign_def neg_def)
  have d: "digit_val c = of_nat (digit c)" "digit c < 10 ^ 1" using digit_val_of_nat assms(2) by (auto simp: digit_def)
  have v: "foldl (\<lambda>v c. v * 10 + digit c) (digit c) cs = digits_val (c # cs)" by (simp add: digits_val_def)
  have ex: "zend_handle_numeric_str_ex key = (if c = CHR ''0'' \<and> length key > 1 \<or> length (c # cs) > 19
      then Inr None else Inr (numeric_loop neg (digit_val c) cs))"
    using assms(1) by (simp add: zend_handle_numeric_str_ex_def strip_sign_def neg_def [symmetric] MAX_LENGTH_OF_LONG_def Let_def split: if_splits)
  show ?thesis
  proof (cases "c = CHR ''0'' \<and> length key > 1 \<or> length (c # cs) > 19")
    case True
    then have "\<not> (canonical (c # cs) \<and> length cs < 19 \<and> (neg \<longrightarrow> c \<noteq> CHR ''0''))"
      unfolding lk by (auto simp: canonical_def split: if_splits)
    then show ?thesis unfolding ex n [symmetric] using True by (simp only: if_True if_False if_not_P)
  next
    case False
    then have "length cs < 19" "neg \<longrightarrow> digit c \<noteq> 0" "c = CHR ''0'' \<longrightarrow> cs = []"
      using zero_char [OF assms(2)] unfolding lk by (auto split: if_splits)
    moreover from this have "numeric_loop neg (digit_val c) cs =
      (if \<forall>c \<in> set cs. is_digit c then numeric_end neg (digits_val (c # cs)) else None)"
      unfolding d(1) v [symmetric] by (intro numeric_loop_eq [OF d(2)]) auto
    ultimately show ?thesis using False assms(2) zero_char [OF assms(2)]
      unfolding ex n [symmetric] by (auto simp: canonical_def)
  qed
qed

lemma char_at_strip:
  assumes "key \<noteq> []"
  shows "char_at key 0 = schar_int (hd key)"
  using assms by (cases key) (auto simp: char_at_def)

lemma minus_char: "schar_int c = 45 \<longleftrightarrow> c = CHR ''-''"
proof
  assume "schar_int c = 45"
  moreover have "(of_char c :: nat) < 256" by (metis of_char_of char_of_char mod_less_divisor zero_less_numeral)
  ultimately have "of_char c = (45 :: nat)" unfolding schar_int_nat by presburger
  then have "c = char_of (45 :: nat)" by (metis char_of_char)
  moreover have "char_of (45 :: nat) = CHR ''-''" by code_simp
  ultimately show "c = CHR ''-''" by simp
qed (simp add: schar_int_nat)

lemma handle_numeric_str_cases:
  "zend_handle_numeric_str key = (case strip_sign key of [] \<Rightarrow> Inr None
     | c # cs \<Rightarrow> if is_digit c then zend_handle_numeric_str_ex key else Inr None)"
proof (cases key)
  case Nil
  then show ?thesis by (simp add: zend_handle_numeric_str_def char_at_def strip_sign_def)
next
  case (Cons k ks)
  show ?thesis
  proof (cases "k = CHR ''-''")
    case True
    then show ?thesis using Cons
      by (cases ks) (auto simp: zend_handle_numeric_str_def char_at_def strip_sign_def schar_int_nat)
  next
    case False
    then show ?thesis using Cons minus_char [of k]
      by (auto simp: zend_handle_numeric_str_def char_at_def strip_sign_def)
  qed
qed

lemma sint_eq: "sint (x :: u64) = sint y \<Longrightarrow> x = y"
proof -
  assume "sint x = sint y"
  then have "(word_of_int (sint x) :: u64) = word_of_int (sint y)" by simp
  then show "x = y" by simp
qed

lemma numeric_end_Some:
  assumes "neg \<longrightarrow> v \<noteq> 0"
  shows "numeric_end neg v = Some n \<longleftrightarrow> sint n = (if neg then - int v else int v)"
proof -
  have b: "- (2 ^ 63) \<le> sint n" "sint n < 2 ^ 63" using sint_ge [of n] sint_lt [of n] by simp_all
  have s: "sint (word_of_int z :: u64) = z" if "- (2 ^ 63) \<le> z" "z < 2 ^ 63" for z
    using that by (simp add: sint_sbintrunc' signed_take_bit_int_eq_self)
  have i: "sint (of_nat v :: u64) = int v" if "v < 2 ^ 63"
  proof -
    have "int v < 2 ^ 63" using that by (metis of_nat_less_numeral_power_cancel_iff)
    then show ?thesis using s [of "int v"] by simp
  qed
  have j: "sint (- of_nat v :: u64) = - int v" if "v \<le> 2 ^ 63"
  proof -
    have "int v \<le> 2 ^ 63" using that by (metis of_nat_le_numeral_power_cancel_iff)
    then show ?thesis using s [of "- int v"] assms by simp
  qed
  have k: "v < 2 ^ 63" if "sint n = int v" using b(2) that by (metis of_nat_less_numeral_power_cancel_iff)
  have l: "v \<le> 2 ^ 63" if "sint n = - int v" using b(1) that by (metis neg_le_iff_le of_nat_le_numeral_power_cancel_iff)
  show ?thesis
  proof (cases neg)
    case True
    have "- of_nat v = n" if "sint n = - int v" using sint_eq [OF trans [OF j [OF l [OF that]] that [symmetric]]] .
    then show ?thesis using True j l by (auto simp: numeric_end_def)
  next
    case False
    have "of_nat v = n" if "sint n = int v" using sint_eq [OF trans [OF i [OF k [OF that]] that [symmetric]]] .
    then show ?thesis using False i k by (auto simp: numeric_end_def)
  qed
qed

lemma canonical_head: "canonical ds \<Longrightarrow> \<exists>c cs. ds = c # cs \<and> is_digit c \<and> c \<noteq> CHR ''-''"
proof (cases ds)
  case (Cons c cs)
  moreover assume "canonical ds"
  ultimately have "is_digit c" by (simp add: canonical_def)
  moreover from this have "c \<noteq> CHR ''-''" using minus_char [of c] by linarith
  ultimately show ?thesis using Cons by blast
qed (simp add: canonical_def)

lemma handle_numeric_iff: "zend_handle_numeric_str key = Inr (Some n) \<longleftrightarrow> key = zend_long_to_str n"
proof
  assume h: "zend_handle_numeric_str key = Inr (Some n)"
  then obtain c cs where s: "strip_sign key = c # cs" "is_digit c"
    by (auto simp: handle_numeric_str_cases split: list.splits if_splits)
  let ?neg = "hd key = CHR ''-''"
  have r: "canonical (c # cs)" "?neg \<longrightarrow> c \<noteq> CHR ''0''" "numeric_end ?neg (digits_val (c # cs)) = Some n"
    using h handle_numeric_ex [OF s] s by (auto simp: handle_numeric_str_cases split: if_splits)
  have str: "nat_str (digits_val (c # cs)) = c # cs" by (rule canonical_nat_str [OF r(1)])
  have nz: "?neg \<longrightarrow> digits_val (c # cs) \<noteq> 0"
  proof
    assume ?neg
    show "digits_val (c # cs) \<noteq> 0"
    proof
      assume "digits_val (c # cs) = 0"
      then have "nat_str 0 = c # cs" using str by simp
      then show False using r(2) \<open>?neg\<close> char_of_48 by (simp add: nat_str.simps [of 0])
    qed
  qed
  have sn: "sint n = (if ?neg then - int (digits_val (c # cs)) else int (digits_val (c # cs)))"
    using numeric_end_Some [OF nz] r(3) by blast
  show "key = zend_long_to_str n"
  proof (cases ?neg)
    case True
    then have "key = CHR ''-'' # c # cs" using s(1) by (cases key) (auto simp: strip_sign_def)
    then show ?thesis using True sn nz str by (simp add: zend_long_to_str_eq int_str_def)
  next
    case False
    then have "key = c # cs" using s(1) by (auto simp: strip_sign_def)
    then show ?thesis using False sn str by (simp add: zend_long_to_str_eq int_str_def)
  qed
next
  assume k: "key = zend_long_to_str n"
  let ?v = "nat \<bar>sint n\<bar>" and ?neg = "hd key = CHR ''-''"
  have can: "canonical (nat_str ?v)" "digits_val (nat_str ?v) = ?v" using nat_str_canonical [of ?v] by auto
  then obtain c cs where c: "nat_str ?v = c # cs" "is_digit c" "c \<noteq> CHR ''-''" using canonical_head by blast
  have neg: "?neg = (sint n < 0)" and st: "strip_sign key = c # cs"
    using c k by (auto simp: zend_long_to_str_eq int_str_def strip_sign_def)
  have nz: "?neg \<longrightarrow> ?v \<noteq> 0" unfolding neg by auto
  have "\<bar>sint n\<bar> \<le> 2 ^ 63" using sint_ge [of n] sint_lt [of n] by simp
  then have "?v < 10 ^ 19" by (simp add: nat_less_iff)
  moreover have "?v \<noteq> 0 \<Longrightarrow> 10 ^ length cs \<le> ?v" using nat_str_length [of ?v] c by simp
  moreover have "?v = 0 \<Longrightarrow> cs = []" using c by (auto simp: nat_str.simps [of 0])
  ultimately have len: "length cs < 19"
  proof (cases "?v = 0")
    case False
    then have "(10 :: nat) ^ length cs < 10 ^ 19"
      using le_less_trans [OF \<open>?v \<noteq> 0 \<Longrightarrow> 10 ^ length cs \<le> ?v\<close> \<open>?v < 10 ^ 19\<close>] by simp
    then show ?thesis by (rule power_less_imp_less_exp [rotated]) simp
  qed simp
  have "?neg \<longrightarrow> c \<noteq> CHR ''0''"
  proof
    assume ng: ?neg
    show "c \<noteq> CHR ''0''"
    proof
      assume z: "c = CHR ''0''"
      then have "cs = []" using can(1) c(1) by (simp add: canonical_def)
      then have "?v = 0" using can(2) c(1) z zero_char [OF c(2)] by (simp add: digits_val_def)
      then show False using nz ng by simp
    qed
  qed
  moreover have "numeric_end ?neg ?v = Some n" using numeric_end_Some [OF nz] neg by simp
  ultimately show "zend_handle_numeric_str key = Inr (Some n)"
    using handle_numeric_ex [OF st c(2)] st c can len by (simp add: handle_numeric_str_cases)
qed

lemma handle_numeric_returns: "\<exists>r. zend_handle_numeric_str key = Inr r"
proof (cases "strip_sign key")
  case (Cons c cs)
  then show ?thesis using handle_numeric_ex [OF Cons] unfolding handle_numeric_str_cases by auto
qed (simp add: handle_numeric_str_cases)

lemma zend_long_to_str_inj: "zend_long_to_str m = zend_long_to_str n \<Longrightarrow> m = n"
  using handle_numeric_iff [of "zend_long_to_str m" m] handle_numeric_iff [of "zend_long_to_str m" n] by simp

lemma zend_long_to_str_length: "length (zend_long_to_str n) \<le> MAX_LENGTH_OF_LONG"
proof -
  have "zend_handle_numeric_str (zend_long_to_str n) = Inr (Some n)" by (simp add: handle_numeric_iff)
  moreover from this obtain c cs where s: "strip_sign (zend_long_to_str n) = c # cs" "is_digit c"
    by (auto simp: handle_numeric_str_cases split: list.splits if_splits)
  ultimately have "length cs < 19" using handle_numeric_ex [OF s] by (auto simp: handle_numeric_str_cases split: if_splits)
  then have "length (strip_sign (zend_long_to_str n)) \<le> 19" using s by simp
  then show ?thesis by (auto simp: strip_sign_def MAX_LENGTH_OF_LONG_def split: if_splits)
qed


end
