(* ===== verification/Hash_Sort.thy ===== *)
theory Hash_Sort
  imports Hash_Traverse Hash_Dup Zend_Sort Zend_Numeric
begin

text \<open>
  Sorting and comparing tables (\<^verbatim>\<open>zend_hash_bucket_swap\<close> to \<^verbatim>\<open>zend_hash_compare\<close> of \<^verbatim>\<open>Zend/zend_hash.c\<close>, the inline
  functions \<^verbatim>\<open>zend_hash_sort\<close> and \<^verbatim>\<open>zend_array_sort\<close> of \<^verbatim>\<open>Zend/zend_hash.h\<close>).
\<close>

section \<open>Swap functions\<close>

text \<open>
  Assigning a \<^verbatim>\<open>zval\<close> copies its spare word too, so the value and \<^verbatim>\<open>Z_EXTRA\<close> (the same word as \<^verbatim>\<open>Z_NEXT\<close>)
  move together.
\<close>

definition zend_hash_bucket_swap :: "bucket swap_func" where
  "zend_hash_bucket_swap p q =
     (p\<lparr>b_val := b_val q, b_next := b_next q, b_h := b_h q, b_key := b_key q\<rparr>,
      q\<lparr>b_val := b_val p, b_next := b_next p, b_h := b_h p, b_key := b_key p\<rparr>)"

definition zend_hash_bucket_renum_swap :: "bucket swap_func" where
  "zend_hash_bucket_renum_swap p q =
     (p\<lparr>b_val := b_val q, b_next := b_next q\<rparr>, q\<lparr>b_val := b_val p, b_next := b_next p\<rparr>)"

definition zend_hash_bucket_packed_swap :: "bucket swap_func" where
  "zend_hash_bucket_packed_swap p q =
     (p\<lparr>b_val := b_val q, b_next := b_next q, b_h := b_h q\<rparr>,
      q\<lparr>b_val := b_val p, b_next := b_next p, b_h := b_h p\<rparr>)"

section \<open>Sorting\<close>

text \<open>
  A \<^verbatim>\<open>sort_func_t\<close> is one of the two functions of \<^verbatim>\<open>Zend/zend_sort.c\<close> or a function of the caller.
\<close>

datatype sort_func = ZEND_SORT | ZEND_INSERT_SORT
  | OTHER_SORT "bucket compare_func \<Rightarrow> bucket swap_func \<Rightarrow> bucket list \<Rightarrow> bucket list"

definition run_sort :: "sort_func \<Rightarrow> bucket compare_func \<Rightarrow> bucket swap_func \<Rightarrow> bucket list \<Rightarrow> bucket list" where
  "run_sort srt = (case srt of ZEND_SORT \<Rightarrow> zend_sort | ZEND_INSERT_SORT \<Rightarrow> zend_insert_sort | OTHER_SORT f \<Rightarrow> f)"

text \<open>Store the original order; with holes, close them first.\<close>

definition number_buckets :: "hashtable \<Rightarrow> hashtable" where
  "number_buckets ht =
     ht\<lparr>arData := map (\<lambda>i. (arData ht ! i)\<lparr>b_next := of_nat i\<rparr>) [0 ..< nNumUsed ht] @ drop (nNumUsed ht) (arData ht)\<rparr>"

fun close_holes :: "nat list \<Rightarrow> nat \<Rightarrow> bucket list \<Rightarrow> bucket list \<times> nat" where
  "close_holes [] i D = (D, i)"
| "close_holes (j # js) i D =
     (let p = D ! j
      in if \<not> live p then close_holes js i D
         else (let D = (if i \<noteq> j then D[i := p] else D)
               in close_holes js (Suc i) (D[i := (D ! i)\<lparr>b_next := of_nat i\<rparr>])))"

definition sort_prepare :: "hashtable \<Rightarrow> hashtable" where
  "sort_prepare ht =
     (if HT_IS_WITHOUT_HOLES ht then number_buckets ht
      else (case close_holes [0 ..< nNumUsed ht] 0 (arData ht) of (D, i) \<Rightarrow> ht\<lparr>arData := D, nNumUsed := i\<rparr>))"

text \<open>\<^verbatim>\<open>p->h = j; if (p->key) { zend_string_release(p->key); p->key = NULL; }\<close>\<close>

fun renumber_loop :: "nat list \<Rightarrow> exec_globals \<Rightarrow> bucket list \<Rightarrow> exec_globals \<times> bucket list" where
  "renumber_loop [] eg D = (eg, D)"
| "renumber_loop (j # js) eg D =
     renumber_loop js (case b_key (D ! j) of Some k \<Rightarrow> zend_string_release k eg | None \<Rightarrow> eg)
       (D[j := (D ! j)\<lparr>b_h := of_nat j, b_key := None\<rparr>])"

text \<open>The new packed block gets all cells of the old one, used or not.\<close>

definition renumbered_to_packed :: "hashtable \<Rightarrow> hashtable" where
  "renumbered_to_packed ht =
     HT_HASH_RESET_PACKED
       (ht\<lparr>ht_packed := True, ht_static_keys := True, nTableMask := HT_MIN_MASK,
           arPacked := map b_val (arData ht), arData := []\<rparr>)"

definition sort_finish :: "bool \<Rightarrow> exec_globals \<Rightarrow> hashtable \<Rightarrow> (exec_globals \<times> hashtable) res" where
  "sort_finish renumber eg ht =
     (if renumber
      then (case renumber_loop [0 ..< nNumUsed ht] eg (arData ht) of (eg, D) \<Rightarrow>
              Inr (eg, renumbered_to_packed (ht\<lparr>arData := D, nNextFreeElement := of_nat (nNumUsed ht)\<rparr>)))
      else zend_hash_rehash eg ht)"

definition zend_hash_sort_internal ::
  "sort_func \<Rightarrow> bucket compare_func \<Rightarrow> bool \<Rightarrow> exec_globals \<Rightarrow> hashtable \<Rightarrow> (exec_globals \<times> hashtable) res" where
  "zend_hash_sort_internal srt compar renumber eg ht =
     (if nNumOfElements ht \<le> 1 \<and> (\<not> renumber \<or> nNumOfElements ht = 0) then Inr (eg, ht)
      else if nNumOfElements ht \<le> 1 \<and> srt = ZEND_SORT \<and> ht_packed ht \<and> HT_IS_WITHOUT_HOLES ht
      then Inr (eg, ht\<lparr>nInternalPointer := 0, nNextFreeElement := 1\<rparr>)
      else res_bind (if ht_packed ht then zend_hash_packed_to_hash eg ht else Inr (eg, ht)) (\<lambda>(eg, ht).
        let ht = HT_HASH_RESET (sort_prepare ht);
            sorted = run_sort srt compar (if renumber then zend_hash_bucket_renum_swap else zend_hash_bucket_swap)
                       (take (nNumUsed ht) (arData ht));
            ht = ht\<lparr>arData := sorted @ drop (nNumUsed ht) (arData ht), nInternalPointer := 0\<rparr>
        in sort_finish renumber eg ht))"

definition zend_hash_sort_ex ::
  "sort_func \<Rightarrow> bucket compare_func \<Rightarrow> bool \<Rightarrow> exec_globals \<Rightarrow> hashtable \<Rightarrow> (exec_globals \<times> hashtable) res" where
  "zend_hash_sort_ex srt compar renumber eg ht = zend_hash_sort_internal srt compar renumber eg ht"

text \<open>
  \<^verbatim>\<open>zend_array_sort_ex\<close> takes a reference to the array for the time of the sort.  The array had one
  before, so the count does not drop to zero as long as the comparison does not release it.
\<close>

definition zend_array_sort_ex ::
  "sort_func \<Rightarrow> bucket compare_func \<Rightarrow> bool \<Rightarrow> exec_globals \<Rightarrow> hashtable \<Rightarrow> (exec_globals \<times> hashtable) res" where
  "zend_array_sort_ex srt compar renumber eg ht =
     res_bind (if ht_packed ht then zend_hash_packed_to_hash eg ht else Inr (eg, ht)) (\<lambda>(eg, ht).
       zend_hash_sort_internal srt compar renumber eg ht)"

definition zend_hash_sort :: "bucket compare_func \<Rightarrow> bool \<Rightarrow> exec_globals \<Rightarrow> hashtable \<Rightarrow> (exec_globals \<times> hashtable) res" where
  "zend_hash_sort compar renumber eg ht = zend_hash_sort_ex ZEND_SORT compar renumber eg ht"

definition zend_array_sort :: "bucket compare_func \<Rightarrow> bool \<Rightarrow> exec_globals \<Rightarrow> hashtable \<Rightarrow> (exec_globals \<times> hashtable) res" where
  "zend_array_sort compar renumber eg ht =
     (if nNumOfElements ht \<le> 1 then zend_hash_sort_ex ZEND_SORT compar renumber eg ht
      else zend_array_sort_ex ZEND_SORT compar renumber eg ht)"

text \<open>
  The stable comparison that the sort functions of the language wrap around every comparison
  (\<^verbatim>\<open>RETURN_STABLE_SORT\<close> and \<^verbatim>\<open>stable_sort_fallback\<close> of \<^verbatim>\<open>ext/standard/array.c\<close>).
\<close>

definition stable_sort_fallback :: "bucket \<Rightarrow> bucket \<Rightarrow> int" where
  "stable_sort_fallback a b = (if b_next a > b_next b then 1 else if b_next a < b_next b then -1 else 0)"

definition RETURN_STABLE_SORT :: "bucket compare_func \<Rightarrow> bucket compare_func" where
  "RETURN_STABLE_SORT cmp a b = (let result = cmp a b in if result \<noteq> 0 then result else stable_sort_fallback a b)"

section \<open>Comparison of tables\<close>

text \<open>\<^verbatim>\<open>memcmp\<close>: the difference of the first bytes that differ.\<close>

fun memcmp :: "string \<Rightarrow> string \<Rightarrow> int" where
  "memcmp (a # as) (b # bs) = (if a = b then memcmp as bs else of_char a - of_char b)"
| "memcmp _ _ = 0"

definition compare_order :: "'a :: linorder \<Rightarrow> 'a \<Rightarrow> int" where
  "compare_order a b = (if a > b then 1 else -1)"

text \<open>
  \<^verbatim>\<open>h1\<close>, \<^verbatim>\<open>key1\<close> against \<^verbatim>\<open>h2\<close>, \<^verbatim>\<open>key2\<close> in the ordered comparison; \<open>0\<close> goes on with the values.
\<close>

definition compare_keys :: "u64 \<times> zend_string option \<Rightarrow> u64 \<times> zend_string option \<Rightarrow> int" where
  "compare_keys = (\<lambda>(h1, key1) (h2, key2).
     case (key1, key2) of
       (None, None) \<Rightarrow> (if h1 \<noteq> h2 then compare_order h1 h2 else 0)
     | (Some k1, Some k2) \<Rightarrow>
         (if ZSTR_LEN k1 \<noteq> ZSTR_LEN k2 then compare_order (ZSTR_LEN k1) (ZSTR_LEN k2)
          else memcmp (ZSTR_VAL k1) (ZSTR_VAL k2))
     | (Some _, None) \<Rightarrow> 1
     | (None, Some _) \<Rightarrow> -1)"

text \<open>The next live cell of the second table; running past the end is an assertion of the code.\<close>

function next_live :: "hashtable \<Rightarrow> nat \<Rightarrow> nat res" where
  "next_live ht idx =
     (if idx \<ge> nNumUsed ht then Inl Out_Of_Bounds
      else if cell_val ht idx \<noteq> IS_UNDEF then Inr idx else next_live ht (idx + 1))"
  by pat_completeness auto
termination by (relation "measure (\<lambda>(ht, idx). nNumUsed ht - idx)") auto

declare next_live.simps [simp del]

definition compare_values :: "exec_globals \<Rightarrow> (zval \<Rightarrow> zval \<Rightarrow> int) \<Rightarrow> zval \<Rightarrow> zval \<Rightarrow> int" where
  "compare_values eg compar v1 v2 =
     (let v1 = deref_ind eg v1; v2 = deref_ind eg v2
      in if v1 = IS_UNDEF then (if v2 \<noteq> IS_UNDEF then -1 else 0)
         else if v2 = IS_UNDEF then 1 else compar v1 v2)"

fun compare_loop ::
  "exec_globals \<Rightarrow> hashtable \<Rightarrow> hashtable \<Rightarrow> (zval \<Rightarrow> zval \<Rightarrow> int) \<Rightarrow> bool \<Rightarrow> nat list \<Rightarrow> nat \<Rightarrow> int res" where
  "compare_loop eg ht1 ht2 compar ordered [] idx2 = Inr 0"
| "compare_loop eg ht1 ht2 compar ordered (idx1 # is) idx2 =
     (if cell_val ht1 idx1 = IS_UNDEF then compare_loop eg ht1 ht2 compar ordered is idx2
      else if ordered
      then res_bind (next_live ht2 idx2) (\<lambda>idx2.
             let result = compare_keys (cell_key ht1 idx1) (cell_key ht2 idx2)
             in if result \<noteq> 0 then Inr result
                else let result = compare_values eg compar (cell_val ht1 idx1) (cell_val ht2 idx2)
                     in if result \<noteq> 0 then Inr result
                        else compare_loop eg ht1 ht2 compar ordered is (idx2 + 1))
      else res_bind (case cell_key ht1 idx1 of
               (h1, None) \<Rightarrow> zend_hash_index_find ht2 h1
             | (h1, Some key1) \<Rightarrow> zend_hash_find ht2 key1) (\<lambda>pData2.
             case pData2 of
               None \<Rightarrow> Inr 1
             | Some l \<Rightarrow>
                 let result = compare_values eg compar (cell_val ht1 idx1) (loc_val eg ht2 l)
                 in if result \<noteq> 0 then Inr result
                    else compare_loop eg ht1 ht2 compar ordered is idx2))"

definition zend_hash_compare_impl ::
  "exec_globals \<Rightarrow> hashtable \<Rightarrow> hashtable \<Rightarrow> (zval \<Rightarrow> zval \<Rightarrow> int) \<Rightarrow> bool \<Rightarrow> int res" where
  "zend_hash_compare_impl eg ht1 ht2 compar ordered =
     (if nNumOfElements ht1 \<noteq> nNumOfElements ht2
      then Inr (compare_order (nNumOfElements ht1) (nNumOfElements ht2))
      else compare_loop eg ht1 ht2 compar ordered [0 ..< nNumUsed ht1] 0)"

text \<open>
  \<^verbatim>\<open>zend_hash_compare\<close>: \<open>overflowed\<close> is the result of the stack check and \<open>recursive\<close> the recursion mark
  of the first table; both raise an error and give \<^verbatim>\<open>ZEND_UNCOMPARABLE\<close>.
\<close>

definition ZEND_UNCOMPARABLE :: int where
  "ZEND_UNCOMPARABLE = 1"

definition zend_hash_compare ::
  "bool \<Rightarrow> bool \<Rightarrow> exec_globals \<Rightarrow> hashtable \<Rightarrow> hashtable \<Rightarrow> (zval \<Rightarrow> zval \<Rightarrow> int) \<Rightarrow> bool \<Rightarrow> (string option \<times> int) res" where
  "zend_hash_compare overflowed recursive eg ht1 ht2 compar ordered =
     (if ht_addr ht1 = ht_addr ht2 then Inr (None, 0)
      else if overflowed then Inr (Some ''Maximum call stack size reached during comparison'', ZEND_UNCOMPARABLE)
      else if recursive then Inr (Some ''Nesting level too deep - recursive dependency?'', ZEND_UNCOMPARABLE)
      else res_bind (zend_hash_compare_impl eg ht1 ht2 compar ordered) (\<lambda>r. Inr (None, r)))"


end
