(* ===== verification/Hash_Sort_Laws.thy ===== *)
theory Hash_Sort_Laws
  imports Hash_Sort Hash_Insert
begin

text \<open>
  Correctness of sorting a table: numbering and closing holes gives the live buckets with their
  rank; the sort functions order them, stably under the comparison that falls back to the rank;
  rehashing or renumbering the result gives a well-formed table with the expected entries.
\<close>

section \<open>Numbering and closing holes\<close>

definition numbered :: "nat \<Rightarrow> bucket list \<Rightarrow> bucket list" where
  "numbered i bs = map (\<lambda>(j, b). b\<lparr>b_next := of_nat j\<rparr>) (enumerate i bs)"

lemma numbered_simps [simp]: "numbered i [] = []" "numbered i (b # bs) = b\<lparr>b_next := of_nat i\<rparr> # numbered (Suc i) bs"
  by (simp_all add: numbered_def)

lemma length_numbered [simp]: "length (numbered i bs) = length bs"
  by (simp add: numbered_def)

lemma close_holes_ok:
  "close_holes [j ..< n] i D = (D', m) \<Longrightarrow> i \<le> j \<Longrightarrow> j \<le> n \<Longrightarrow> n \<le> length D \<Longrightarrow>
   length D' = length D \<and> m = i + length (filter live (drop j (take n D))) \<and>
   take m D' = take i D @ numbered i (filter live (drop j (take n D)))"
proof (induction "n - j" arbitrary: j i D)
  case 0
  then show ?case by auto
next
  case (Suc k)
  then have j: "j < n" by simp
  then have u: "[j ..< n] = j # [Suc j ..< n]" by (simp add: upt_conv_Cons)
  have d: "drop j (take n D) = D ! j # drop (Suc j) (take n D)"
    using j Suc.prems by (metis Cons_nth_drop_Suc length_take min_absorb2 nth_take)
  show ?case
  proof (cases "live (D ! j)")
    case False
    then have r: "close_holes [Suc j ..< n] i D = (D', m)" using Suc.prems(1) by (simp add: u)
    have "k = n - Suc j" using Suc.hyps(2) by simp
    from Suc.hyps(1) [OF this r] Suc.prems j show ?thesis unfolding d filter.simps if_not_P [OF False] by linarith
  next
    case True
    define E where "E = (if i \<noteq> j then D[i := D ! j] else D)"
    define F where "F = E[i := (E ! i)\<lparr>b_next := of_nat i\<rparr>]"
    have r: "close_holes [Suc j ..< n] (Suc i) F = (D', m)" using Suc.prems(1) True by (simp add: u E_def F_def Let_def)
    have i: "i < length D" using Suc.prems j by simp
    have Ei: "E ! i = D ! j" "length E = length D" using i by (auto simp: E_def)
    have F: "F ! i = (D ! j)\<lparr>b_next := of_nat i\<rparr>" "length F = length D" "take i F = take i D"
      "drop (Suc j) (take n F) = drop (Suc j) (take n D)"
      using Ei i Suc.prems j by (auto simp: F_def E_def drop_take)
    have "take (Suc i) F = take i D @ [(D ! j)\<lparr>b_next := of_nat i\<rparr>]" using F i by (simp add: take_Suc_conv_app_nth)
    moreover have "k = n - Suc j" using Suc.hyps(2) by simp
    ultimately have "length D' = length D" and m: "m = Suc i + length (filter live (drop (Suc j) (take n D)))"
      and t: "take m D' = take i D @ (D ! j)\<lparr>b_next := of_nat i\<rparr> # numbered (Suc i) (filter live (drop (Suc j) (take n D)))"
      using Suc.hyps(1) [OF _ r] Suc.prems j F by auto
    moreover have "filter live (drop j (take n D)) = D ! j # filter live (drop (Suc j) (take n D))" using True by (simp add: d)
    ultimately show ?thesis by simp
  qed
qed

lemma no_holes_live:
  assumes "mixed_shape ht" "content_ok ht" "HT_IS_WITHOUT_HOLES ht"
  shows "filter live (take (nNumUsed ht) (arData ht)) = take (nNumUsed ht) (arData ht)"
proof -
  have "length (filter live (take (nNumUsed ht) (arData ht))) = length (take (nNumUsed ht) (arData ht))"
    using assms by (auto simp: content_ok_def HT_IS_WITHOUT_HOLES_def ht_entries_def entries_def ht_buckets_def mixed_shape_def)
  then show ?thesis by (metis filter_id_conv length_filter_less less_irrefl)
qed

lemma numbered_nth: "map (\<lambda>i. (xs ! i)\<lparr>b_next := of_nat i\<rparr>) [0 ..< n] = numbered 0 (take n xs)" if "n \<le> length xs"
  using that by (intro nth_equalityI) (auto simp: numbered_def nth_enumerate_eq)

lemma sort_prepare_ok:
  assumes sh: "mixed_shape ht" and co: "content_ok ht"
  shows "\<exists>D. sort_prepare ht = ht\<lparr>arData := D, nNumUsed := nNumOfElements ht\<rparr> \<and> length D = length (arData ht) \<and>
    take (nNumOfElements ht) D = numbered 0 (filter live (ht_buckets ht))"
proof -
  have b: "ht_buckets ht = take (nNumUsed ht) (arData ht)" and n: "nNumUsed ht \<le> length (arData ht)"
    using sh by (auto simp: ht_buckets_def mixed_shape_def)
  have e: "nNumOfElements ht = length (filter live (take (nNumUsed ht) (arData ht)))"
    using co by (simp add: content_ok_def ht_entries_def entries_def b)
  show ?thesis
  proof (cases "HT_IS_WITHOUT_HOLES ht")
    case True
    note f = no_holes_live [OF sh co True]
    let ?D = "numbered 0 (take (nNumUsed ht) (arData ht)) @ drop (nNumUsed ht) (arData ht)"
    have u: "nNumUsed ht = nNumOfElements ht" using True by (simp add: HT_IS_WITHOUT_HOLES_def)
    have "sort_prepare ht = ht\<lparr>arData := ?D\<rparr>" using True numbered_nth [OF n] by (simp add: sort_prepare_def number_buckets_def)
    moreover have "ht\<lparr>arData := ?D\<rparr> = ht\<lparr>arData := ?D, nNumUsed := nNumOfElements ht\<rparr>" using u by (cases ht) simp
    ultimately show ?thesis using n u f by (intro exI [of _ ?D]) (simp add: b)
  next
    case False
    obtain D m where r: "close_holes [0 ..< nNumUsed ht] 0 (arData ht) = (D, m)" by fastforce
    then have D: "length D = length (arData ht)" "m = nNumOfElements ht"
      "take m D = numbered 0 (filter live (take (nNumUsed ht) (arData ht)))"
      using close_holes_ok [OF r] n e by auto
    have "sort_prepare ht = ht\<lparr>arData := D, nNumUsed := m\<rparr>" using False by (simp add: sort_prepare_def r)
    then show ?thesis using D by (intro exI [of _ D]) (simp add: b)
  qed
qed

section \<open>Sorting by key and value\<close>

lemma bucket_swap_exch: "zend_hash_bucket_swap = exch"
  by (intro ext) (simp add: zend_hash_bucket_swap_def exch_def)

definition builtin_sort :: "sort_func \<Rightarrow> bool" where
  "builtin_sort srt \<longleftrightarrow> srt = ZEND_SORT \<or> srt = ZEND_INSERT_SORT"

text \<open>The element as a comparison may see it.\<close>

abbreviation entry_of :: "bucket \<Rightarrow> hkey \<times> zval" where
  "entry_of b \<equiv> (bucket_key b, b_val b)"

lemma run_sort_ok:
  assumes "builtin_sort srt" "consistent cmp"
  shows "sorted_wrt (le cmp) (run_sort srt cmp exch bs)" "mset (run_sort srt cmp exch bs) = mset bs"
  using assms zend_sort_ok [OF assms(2), of bs] insert_sort_ok [OF assms(2), of bs]
  by (auto simp: builtin_sort_def run_sort_def)

lemma run_sort_unique:
  assumes "builtin_sort srt" "consistent cmp" "\<And>x y. x \<in> set bs \<Longrightarrow> y \<in> set bs \<Longrightarrow> le cmp x y \<Longrightarrow> le cmp y x \<Longrightarrow> x = y"
    "sorted_wrt (le cmp) cs" "mset cs = mset bs"
  shows "run_sort srt cmp exch bs = cs"
  using assms(1) zs_sort.srt_unique [OF assms(2-5)] zs_insert.srt_unique [OF assms(2-5)]
  by (auto simp: builtin_sort_def run_sort_def)


lemma bucket_key_next [simp]: "bucket_key (b\<lparr>b_next := x\<rparr>) = bucket_key b"
  by (cases "b_key b") (simp_all add: bucket_key_def)

section \<open>The stable comparison\<close>

text \<open>
  Elements with the rank they had before the sort, and the comparison that falls back to the
  rank.  A sorting function that keeps its contract then sorts stably.
\<close>

definition ticket_compare :: "'a compare_func \<Rightarrow> ('a \<times> u32) compare_func" where
  "ticket_compare c p q = (if c (fst p) (fst q) \<noteq> 0 then c (fst p) (fst q)
     else if snd p > snd q then 1 else if snd p < snd q then -1 else 0)"

definition tickets :: "nat \<Rightarrow> 'a list \<Rightarrow> ('a \<times> u32) list" where
  "tickets i xs = map (\<lambda>(j, x). (x, of_nat j)) (enumerate i xs)"

lemma tickets_simps [simp]: "tickets i [] = []" "tickets i (x # xs) = (x, of_nat i) # tickets (Suc i) xs"
  by (simp_all add: tickets_def)

definition antisym_compare :: "'a compare_func \<Rightarrow> bool" where
  "antisym_compare c \<longleftrightarrow> (\<forall>x y. c x y < 0 \<longleftrightarrow> c y x > 0)"

lemma ticket_le:
  "le (ticket_compare c) p q \<longleftrightarrow> c (fst p) (fst q) < 0 \<or> c (fst p) (fst q) = 0 \<and> snd p \<le> snd q"
  by (auto simp: le_def ticket_compare_def)

lemma ticket_consistent:
  assumes c: "consistent c" and a: "antisym_compare c"
  shows "consistent (ticket_compare c)"
proof -
  have z: "c x y = 0 \<longleftrightarrow> le c x y \<and> le c y x" for x y
    using a [unfolded antisym_compare_def] unfolding le_def by (metis linorder_less_linear order_less_asym')
  have n: "c x y < 0 \<longleftrightarrow> le c x y \<and> \<not> le c y x" for x y
    using a [unfolded antisym_compare_def] unfolding le_def by (metis order_less_asym')
  have t: "le (ticket_compare c) x y \<Longrightarrow> le (ticket_compare c) y w \<Longrightarrow> le (ticket_compare c) x w" for x y w
    unfolding ticket_le z n using le_trans [OF c] by (meson order_trans)
  have o: "le (ticket_compare c) x y \<or> le (ticket_compare c) y x" for x y
    unfolding ticket_le z n using le_total [OF c] by (meson linear)
  show ?thesis unfolding consistent_def using t o unfolding le_def by blast
qed

lemma of_nat_u32_less: "i < j \<Longrightarrow> j < 2 ^ 32 \<Longrightarrow> (of_nat i :: u32) < of_nat j"
  by (simp add: word_less_nat_alt unat_of_nat)

lemma tickets_nth: "p \<in> set (tickets i xs) \<Longrightarrow> \<exists>j < length xs. p = (xs ! j, of_nat (i + j))"
  by (fastforce simp: tickets_def in_set_conv_nth nth_enumerate_eq)

lemma tickets_distinct:
  assumes "p \<in> set (tickets i xs)" "q \<in> set (tickets i xs)" "snd p = snd q" "i + length xs < 2 ^ 32"
  shows "p = q"
proof -
  obtain j k where j: "p = (xs ! j, of_nat (i + j))" "j < length xs" and k: "q = (xs ! k, of_nat (i + k))" "k < length xs"
    using assms(1,2) tickets_nth by blast
  have e: "(of_nat (i + j) :: u32) = of_nat (i + k)" using assms(3) j k by simp
  have "j = k"
  proof (rule ccontr)
    assume "j \<noteq> k"
    then consider "i + j < i + k" | "i + k < i + j" by linarith
    then show False using e of_nat_u32_less [of "i + j" "i + k"] of_nat_u32_less [of "i + k" "i + j"] assms(4) j(2) k(2) by cases auto
  qed
  then show ?thesis using j k by simp
qed

lemma tickets_stable_sort:
  "i + length xs < 2 ^ 32 \<Longrightarrow> map fst (stable_sort (ticket_compare c) (tickets i xs)) = stable_sort c xs"
proof (induction xs arbitrary: i)
  case (Cons x xs)
  have "ticket_compare c (x, of_nat i) q > 0 \<longleftrightarrow> c (fst (x, of_nat i :: u32)) (fst q) > 0"
    if "q \<in> set (stable_sort (ticket_compare c) (tickets (Suc i) xs))" for q
  proof -
    have "q \<in> set (tickets (Suc i) xs)" using that stable_sort_mset [THEN mset_eq_setD] by metis
    then obtain j where j: "snd q = of_nat (Suc i + j)" "j < length xs" using tickets_nth by fastforce
    have "i < Suc i + j" "Suc i + j < 2 ^ 32" using j(2) Cons.prems by auto
    from of_nat_u32_less [OF this] have "of_nat i < snd q" by (simp only: j(1))
    then show ?thesis by (auto simp: ticket_compare_def)
  qed
  from stable_insert_map [of _ "ticket_compare c" _ c fst, OF this] show ?case
    using Cons.IH [of "Suc i"] Cons.prems by (simp add: stable_sort_def)
qed (simp add: stable_sort_def)

locale ticket_sorter = sorter srt for srt :: "('a \<times> u32) compare_func \<Rightarrow> ('a \<times> u32) list \<Rightarrow> ('a \<times> u32) list"
begin

lemma srt_tickets:
  assumes "consistent c" "antisym_compare c" "length xs < 2 ^ 32"
  shows "map fst (srt (ticket_compare c) (tickets 0 xs)) = stable_sort c xs"
proof -
  note cc = ticket_consistent [OF assms(1,2)]
  have "srt (ticket_compare c) (tickets 0 xs) = stable_sort (ticket_compare c) (tickets 0 xs)"
  proof (rule srt_unique [OF cc])
    fix p q assume pq: "p \<in> set (tickets 0 xs)" "q \<in> set (tickets 0 xs)" "le (ticket_compare c) p q" "le (ticket_compare c) q p"
    have "snd p = snd q"
      using pq(3,4) assms(2) unfolding ticket_le antisym_compare_def by (metis order.asym order_antisym order_less_irrefl)
    then show "p = q" using tickets_distinct [OF pq(1,2)] assms(3) by simp
  qed (simp_all add: stable_sort_sorted cc stable_sort_mset)
  then show ?thesis using tickets_stable_sort [of 0 xs c] assms(3) by simp
qed

end

interpretation zt_sort: ticket_sorter "\<lambda>cmp. zend_sort cmp exch"
  by unfold_locales

interpretation zt_insert: ticket_sorter "\<lambda>cmp. zend_insert_sort cmp exch"
  by unfold_locales

text \<open>
  The sort functions on buckets that carry their rank in the spare word, under a projection \<open>f\<close> to
  what the comparison sees and the swap moves.
\<close>

lemma consistent_image: "consistent c \<Longrightarrow> consistent (\<lambda>a b. c (f a) (f b))"
  unfolding consistent_def by blast

lemma stable_ticket:
  "RETURN_STABLE_SORT (\<lambda>a b. c (f a) (f b)) = (\<lambda>a b. ticket_compare c (f a, b_next a) (f b, b_next b))"
  by (intro ext) (simp add: RETURN_STABLE_SORT_def stable_sort_fallback_def ticket_compare_def Let_def)

lemma run_sort_stable:
  assumes srt: "builtin_sort srt" and c: "consistent c" "antisym_compare c" and n: "length bs < 2 ^ 32"
    and f: "\<And>b x. f (b\<lparr>b_next := x\<rparr>) = f b"
    and sw: "\<And>a b. f (fst (swp a b)) = f b \<and> b_next (fst (swp a b)) = b_next b \<and>
                   f (snd (swp a b)) = f a \<and> b_next (snd (swp a b)) = b_next a"
  shows "map f (run_sort srt (RETURN_STABLE_SORT (\<lambda>a b. c (f a) (f b))) swp (numbered 0 bs)) = stable_sort c (map f bs)"
proof -
  let ?g = "\<lambda>b. (f b, b_next b)" and ?c = "RETURN_STABLE_SORT (\<lambda>a b. c (f a) (f b))"
  have s: "simulates ?g ?c swp (ticket_compare c) exch"
    using sw by (auto simp: simulates_def stable_ticket exch_def)
  have t: "map ?g (numbered i bs) = tickets i (map f bs)" for i
    by (induction bs arbitrary: i) (auto simp: f)
  note z = zend_sort_map [OF s, of "numbered 0 bs"] insert_sort_map [OF s, of "numbered 0 bs"]
  have "map fst (map ?g (run_sort srt ?c swp (numbered 0 bs))) = stable_sort c (map f bs)"
    using srt zt_sort.srt_tickets [OF c, of "map f bs"] zt_insert.srt_tickets [OF c, of "map f bs"] n
    by (auto simp: builtin_sort_def run_sort_def simp flip: z t simp del: map_map)
  then show ?thesis by (simp add: comp_def)
qed


section \<open>Sorting a table\<close>

text \<open>The live buckets with their rank, as both variants sort them.\<close>

definition ranked :: "hashtable \<Rightarrow> bucket list" where
  "ranked ht = numbered 0 (filter live (ht_buckets ht))"

lemma core_numbered: "map core (numbered i bs) = map core bs"
  by (induction bs arbitrary: i) auto

lemma live_numbered: "(\<forall>b \<in> set bs. live b) \<Longrightarrow> b \<in> set (numbered i bs) \<Longrightarrow> live b"
  by (induction bs arbitrary: i) auto

lemma ranked_live: "b \<in> set (ranked ht) \<Longrightarrow> live b"
  unfolding ranked_def by (rule live_numbered [of "filter live (ht_buckets ht)"]) auto

lemma entries_live: "(\<And>b. b \<in> set bs \<Longrightarrow> live b) \<Longrightarrow> entries bs = map entry_of bs"
  by (auto simp: entries_def filter_True)

lemma entries_ranked: "entries (ranked ht) = ht_entries ht"
  unfolding ranked_def ht_entries_def using entries_core [OF core_numbered] by simp

lemma length_ranked: "length (ranked ht) = length (ht_entries ht)"
  by (simp add: ranked_def ht_entries_def entries_def)

lemma ranked_ok: "content_ok ht \<Longrightarrow> list_all (bucket_ok (ht_static_keys ht) (nNextFreeElement ht)) (ranked ht)"
  unfolding ranked_def list_all_ok_core [OF core_numbered] by (auto simp: content_ok_def list_all_iff)

definition sort_tail :: "sort_func \<Rightarrow> bucket compare_func \<Rightarrow> bool \<Rightarrow> exec_globals \<Rightarrow> hashtable \<Rightarrow> (exec_globals \<times> hashtable) res" where
  "sort_tail srt compar renumber eg ht =
     (let ht = HT_HASH_RESET (sort_prepare ht);
          sorted = run_sort srt compar (if renumber then zend_hash_bucket_renum_swap else zend_hash_bucket_swap)
                     (take (nNumUsed ht) (arData ht));
          ht = ht\<lparr>arData := sorted @ drop (nNumUsed ht) (arData ht), nInternalPointer := 0\<rparr>
      in sort_finish renumber eg ht)"

lemma length_zend_sort: "length (zend_sort cmp swp bs) = length bs"
proof (induction cmp swp bs rule: zend_sort.induct)
  case (1 cmp swp xs)
  show ?case
  proof (cases "length xs \<le> 16")
    case False
    obtain ys i where r: "partition_round cmp swp xs = (ys, i)" by fastforce
    have b: "length ys = length xs" "2 \<le> i" "i \<le> length xs - 1" using partition_round_bounds [OF r] False by auto
    then show ?thesis using 1(1,2) [OF False r [symmetric]] False by (simp add: zend_sort.simps [of cmp swp xs] r)
  qed (simp add: zend_sort.simps)
qed

lemma length_run_sort: "builtin_sort srt \<Longrightarrow> length (run_sort srt cmp swp bs) = length bs"
  by (auto simp: builtin_sort_def run_sort_def length_zend_sort)

lemma sort_tail_eq:
  assumes sh: "mixed_shape ht" and co: "content_ok ht" and srt: "builtin_sort srt"
  shows "\<exists>D. length D = nTableSize ht \<and>
    take (nNumOfElements ht) D = run_sort srt compar (if renumber then zend_hash_bucket_renum_swap else zend_hash_bucket_swap) (ranked ht) \<and>
    sort_tail srt compar renumber eg ht =
      sort_finish renumber eg (ht\<lparr>nNumUsed := nNumOfElements ht, arHash := replicate (2 * nTableSize ht) HT_INVALID_IDX,
        arData := D, nInternalPointer := 0\<rparr>)"
proof -
  let ?n = "nNumOfElements ht" and ?s = "if renumber then zend_hash_bucket_renum_swap else zend_hash_bucket_swap"
  obtain D where D: "sort_prepare ht = ht\<lparr>arData := D, nNumUsed := ?n\<rparr>" "length D = length (arData ht)" "take ?n D = ranked ht"
    using sort_prepare_ok [OF sh co] unfolding ranked_def by blast
  let ?D = "run_sort srt compar ?s (ranked ht) @ drop ?n D"
  have l: "length (ranked ht) = ?n" "length (arData ht) = nTableSize ht" "?n \<le> nTableSize ht"
    using co sh num_elements_le [OF co] length_ht_buckets [OF sh] by (auto simp: length_ranked content_ok_def mixed_shape_def)
  have m: "unat (- nTableMask ht) = 2 * nTableSize ht" using sh mask_size by (auto simp: mixed_shape_def)
  have "sort_tail srt compar renumber eg ht = sort_finish renumber eg (ht\<lparr>nNumUsed := ?n,
      arHash := replicate (2 * nTableSize ht) HT_INVALID_IDX, arData := ?D, nInternalPointer := 0\<rparr>)"
    by (simp add: sort_tail_def D(1) HT_HASH_RESET_def Let_def D(3) m)
  moreover have "take ?n ?D = run_sort srt compar ?s (ranked ht)" "length ?D = nTableSize ht"
    using l D(2) by (simp_all add: length_run_sort [OF srt])
  ultimately show ?thesis by blast
qed

lemma sort_keep_keys_ok:
  assumes sh: "mixed_shape ht" and co: "content_ok ht" and srt: "builtin_sort srt" and c: "consistent compar"
  shows "\<exists>eg' ht'. sort_tail srt compar False eg ht = Inr (eg', ht') \<and> ht_inv ht' \<and>
    ht_entries ht' = map entry_of (run_sort srt compar exch (ranked ht)) \<and> nNextFreeElement ht' = nNextFreeElement ht"
proof -
  let ?n = "nNumOfElements ht" and ?s = "run_sort srt compar exch (ranked ht)"
  obtain D where D: "length D = nTableSize ht" "take ?n D = ?s"
    and e: "sort_tail srt compar False eg ht = sort_finish False eg (ht\<lparr>nNumUsed := ?n,
        arHash := replicate (2 * nTableSize ht) HT_INVALID_IDX, arData := D, nInternalPointer := 0\<rparr>)"
    using sort_tail_eq [OF sh co srt, of compar False eg] by (auto simp: bucket_swap_exch)
  define t where "t = ht\<lparr>nNumUsed := ?n, arHash := replicate (2 * nTableSize ht) HT_INVALID_IDX, arData := D, nInternalPointer := 0\<rparr>"
  have tf: "ht_static_keys t = ht_static_keys ht" "nNextFreeElement t = nNextFreeElement ht" "nNumOfElements t = ?n" "nTableSize t = nTableSize ht"
    by (simp_all add: t_def)
  have p: "mset ?s = mset (ranked ht)" using run_sort_ok(2) [OF srt c] .
  then have st: "set ?s = set (ranked ht)" by (rule mset_eq_setD)
  have b: "ht_buckets t = ?s" using D sh by (simp add: ht_buckets_def mixed_shape_def t_def)
  have en: "ht_entries t = map entry_of ?s" unfolding ht_entries_def b using st ranked_live by (intro entries_live) auto
  have me: "mset (map fst (map entry_of ?s)) = mset (map fst (ht_entries ht))"
    using p entries_ranked [of ht] entries_live [of "ranked ht"] ranked_live by (metis mset_map)
  have "mixed_shape t" using sh D(1) num_elements_le [OF co] length_ht_buckets [OF sh] by (simp add: mixed_shape_def t_def)
  moreover have "content_ok t"
    using ranked_ok [OF co] st mset_eq_imp_distinct_iff [OF me] me [THEN mset_eq_length] co
    by (simp add: content_ok_def b en list_all_iff tf)
  ultimately obtain eg' ht' where "zend_hash_rehash eg t = Inr (eg', ht')" "rebuilds t (nTableSize ht) ht'"
    using rehash_rebuilds [of t eg] unfolding tf by blast
  then show ?thesis using en by (auto simp: e t_def [symmetric] sort_finish_def rebuilds_def tf)
qed

lemma renumber_loop_ok:
  "renumber_loop [j ..< n] eg D = (eg', D') \<Longrightarrow> j \<le> n \<Longrightarrow> n \<le> length D \<Longrightarrow>
   length D' = length D \<and> map b_val D' = map b_val D"
proof (induction "n - j" arbitrary: j eg D)
  case (Suc k)
  then have u: "[j ..< n] = j # [Suc j ..< n]" by (simp add: upt_conv_Cons)
  let ?D = "D[j := (D ! j)\<lparr>b_h := of_nat j, b_key := None\<rparr>]"
  have "map b_val ?D = map b_val D"
    by (cases "j < length D") (simp_all add: map_update list_update_same_conv list_update_beyond)
  then show ?case using Suc.hyps(1) [of "Suc j" _ ?D] Suc.hyps(2) Suc.prems by (auto simp: u)
qed auto

lemma renumber_ok:
  assumes sh: "mixed_shape ht" and D: "length D = nTableSize ht" "take (nNumOfElements ht) D = bs" "nNumOfElements ht \<le> nTableSize ht"
    and lv: "\<And>b. b \<in> set bs \<Longrightarrow> live b"
  shows "\<exists>eg' ht'. sort_finish True eg (ht\<lparr>nNumUsed := nNumOfElements ht, arHash := H, arData := D, nInternalPointer := 0\<rparr>) = Inr (eg', ht') \<and>
    ht_inv ht' \<and> ht_packed ht' \<and> nNextFreeElement ht' = of_nat (nNumOfElements ht) \<and>
    ht_entries ht' = zip (map (IntKey \<circ> of_nat) [0 ..< nNumOfElements ht]) (map b_val bs)"
proof -
  let ?n = "nNumOfElements ht"
  obtain eg' E where r: "renumber_loop [0 ..< ?n] eg D = (eg', E)" by fastforce
  then have E: "length E = nTableSize ht" "map b_val E = map b_val D" using renumber_loop_ok [OF r] D by auto
  let ?t = "renumbered_to_packed (ht\<lparr>nNumUsed := ?n, arHash := H, nInternalPointer := 0, arData := E, nNextFreeElement := of_nat ?n\<rparr>)"
  have sz: "size_ok (nTableSize ht)" and nb: "?n < 2 ^ 63"
    using sh size_ok_bounds(2) [of "nTableSize ht"] D(3) by (auto simp: mixed_shape_def HT_MAX_SIZE_def)
  have v: "arPacked ?t ! i = b_val (bs ! i)" "i < length bs" if "i < ?n" for i
    using that D E by (auto simp: renumbered_to_packed_def HT_HASH_RESET_PACKED_def)
  have bk: "ht_buckets ?t = map (\<lambda>i. packed_bucket i (b_val (bs ! i))) [0 ..< ?n]"
    using v by (simp add: ht_buckets_def) (simp add: renumbered_to_packed_def HT_HASH_RESET_PACKED_def)
  have l: "length bs = ?n" using D by auto
  have "filter live (ht_buckets ?t) = ht_buckets ?t"
    unfolding bk using l lv by (auto simp: filter_id_conv packed_bucket_def)
  then have en: "ht_entries ?t = zip (map (IntKey \<circ> of_nat) [0 ..< ?n]) (map b_val bs)"
    unfolding ht_entries_def entries_def using l by (intro nth_equalityI) (simp_all add: bk packed_bucket_def bucket_key_def)
  have f: "ht_static_keys ?t" "nNextFreeElement ?t = of_nat ?n" "nNumOfElements ?t = ?n" "ht_packed ?t"
    by (simp_all add: renumbered_to_packed_def HT_HASH_RESET_PACKED_def)
  have "packed_shape ?t" using sh D(3) E(1)
    by (simp add: packed_shape_def mixed_shape_def renumbered_to_packed_def HT_HASH_RESET_PACKED_def)
  moreover have "content_ok ?t"
  proof -
    have "bucket_ok True (of_nat ?n) (packed_bucket i w)" if "i < ?n" for i w
    proof -
      have "sint (of_nat i :: u64) = int i" "sint (of_nat ?n :: u64) = int ?n" using that nb sint_of_nat_small by auto
      then show ?thesis using that by (simp add: bucket_ok_def packed_bucket_def)
    qed
    then have "list_all (bucket_ok True (of_nat ?n)) (ht_buckets ?t)" unfolding bk by (simp add: list_all_iff)
    moreover have "inj_on (IntKey \<circ> of_nat) {0 ..< ?n}"
    proof (rule inj_onI)
      fix x y assume xy: "x \<in> {0 ..< ?n}" "y \<in> {0 ..< ?n}" and q: "(IntKey \<circ> of_nat) x = (IntKey \<circ> of_nat) y"
      have i: "int x = sint (of_nat x :: u64)" "int y = sint (of_nat y :: u64)"
        using nb xy sint_of_nat_small [of x] sint_of_nat_small [of y] by auto
      have "(of_nat x :: u64) = of_nat y" using q by (metis comp_apply hkey.inject(1))
      then have "int x = int y" unfolding i by (rule arg_cong)
      then show "x = y" by (simp only: of_nat_eq_iff)
    qed
    then have "distinct (map fst (ht_entries ?t))" unfolding en using l by (simp add: distinct_map)
    ultimately show ?thesis using l f(1) unfolding content_ok_def f en by simp
  qed
  ultimately have "ht_inv ?t" by (simp add: ht_inv_def)
  moreover have "sort_finish True eg (ht\<lparr>nNumUsed := ?n, arHash := H, arData := D, nInternalPointer := 0\<rparr>) = Inr (eg', ?t)"
    by (simp add: sort_finish_def r)
  ultimately show ?thesis using en f by blast
qed


lemma stable_sort_short: "length xs \<le> 1 \<Longrightarrow> stable_sort c xs = xs"
  by (cases xs) (auto simp: stable_sort_def)

lemma length_stable_sort [simp]: "length (stable_sort c xs) = length xs"
  using stable_sort_mset mset_eq_length by blast

text \<open>After the conversion of a packed table, if there is one.\<close>

lemma sort_internal_cases:
  assumes inv: "ht_inv ht" and n: "nNumOfElements ht \<noteq> 0"
  shows "\<exists>eg1 ht1. (if ht_packed ht then zend_hash_packed_to_hash eg ht else Inr (eg, ht)) = Inr (eg1, ht1) \<and>
    mixed_shape ht1 \<and> content_ok ht1 \<and> ht_inv ht1 \<and> ht_entries ht1 = ht_entries ht \<and> nNumOfElements ht1 = nNumOfElements ht \<and>
    nNextFreeElement ht1 = nNextFreeElement ht"
proof (cases "ht_packed ht")
  case True
  note p = ht_inv_packedD [OF inv True]
  then have "\<not> ht_uninit ht" "size_ok (nTableSize ht)" "nNumUsed ht \<le> nTableSize ht" by (auto simp: packed_shape_def)
  from packed_to_hash_ok [OF True this(1) _ this(2,3), of eg] p True show ?thesis
    by (auto simp: rebuilds_def ht_inv_content)
next
  case False
  have "\<not> ht_uninit ht" using uninit_entries [OF inv] n by blast
  with inv False have "mixed_shape ht" "content_ok ht" by (auto simp: ht_inv_def uninit_shape_def packed_shape_def)
  with inv False show ?thesis by auto
qed

lemma sort_internal_tail:
  "zend_hash_sort_internal srt compar renumber eg ht =
     (if nNumOfElements ht \<le> 1 \<and> (\<not> renumber \<or> nNumOfElements ht = 0) then Inr (eg, ht)
      else if nNumOfElements ht \<le> 1 \<and> srt = ZEND_SORT \<and> ht_packed ht \<and> HT_IS_WITHOUT_HOLES ht
      then Inr (eg, ht\<lparr>nInternalPointer := 0, nNextFreeElement := 1\<rparr>)
      else res_bind (if ht_packed ht then zend_hash_packed_to_hash eg ht else Inr (eg, ht)) (\<lambda>(eg, ht).
        sort_tail srt compar renumber eg ht))"
  unfolding zend_hash_sort_internal_def sort_tail_def by (rule refl)

text \<open>Keys move with their values: any consistent comparison gives a sorted permutation.\<close>

lemma sort_internal_ok:
  assumes inv: "ht_inv ht" and srt: "builtin_sort srt" and c: "consistent c"
  shows "\<exists>eg' ht'. zend_hash_sort_internal srt (\<lambda>a b. c (entry_of a) (entry_of b)) False eg ht = Inr (eg', ht') \<and> ht_inv ht' \<and>
    sorted_wrt (le c) (ht_entries ht') \<and> mset (ht_entries ht') = mset (ht_entries ht)"
proof (cases "nNumOfElements ht \<le> 1")
  case True
  then have "length (ht_entries ht) \<le> 1" using ht_inv_content [OF inv] by (simp add: content_ok_def)
  then have "sorted_wrt (le c) (ht_entries ht)" by (cases "ht_entries ht") auto
  then show ?thesis using True inv by (simp add: sort_internal_tail)
next
  case False
  let ?c = "\<lambda>a b. c (entry_of a) (entry_of b)"
  obtain eg1 ht1 where h: "(if ht_packed ht then zend_hash_packed_to_hash eg ht else Inr (eg, ht)) = Inr (eg1, ht1)"
    "mixed_shape ht1" "content_ok ht1" "ht_entries ht1 = ht_entries ht"
    using sort_internal_cases [OF inv, of eg] False by auto
  have cc: "consistent ?c" using c by (rule consistent_image)
  obtain eg' ht' where r: "sort_tail srt ?c False eg1 ht1 = Inr (eg', ht')" "ht_inv ht'"
    "ht_entries ht' = map entry_of (run_sort srt ?c exch (ranked ht1))"
    using sort_keep_keys_ok [OF h(2,3) srt cc, of eg1] by blast
  note s = run_sort_ok [OF srt cc, of "ranked ht1"]
  have "sorted_wrt (le c) (ht_entries ht')" using s(1) unfolding r(3) sorted_wrt_map le_def .
  moreover have "map entry_of (ranked ht1) = ht_entries ht" using entries_ranked [of ht1] h(4) entries_live [of "ranked ht1"] ranked_live by metis
  then have "mset (ht_entries ht') = mset (ht_entries ht)" using arg_cong [OF s(2), of "image_mset entry_of"] unfolding r(3) mset_map [symmetric] by simp
  ultimately show ?thesis using r False h(1) by (simp add: sort_internal_tail)
qed

lemma sort_internal_stable:
  assumes inv: "ht_inv ht" and srt: "builtin_sort srt" and c: "consistent c" "antisym_compare c"
  shows "\<exists>eg' ht'. zend_hash_sort_internal srt (RETURN_STABLE_SORT (\<lambda>a b. c (entry_of a) (entry_of b))) False eg ht = Inr (eg', ht') \<and>
    ht_inv ht' \<and> ht_entries ht' = stable_sort c (ht_entries ht) \<and> nNextFreeElement ht' = nNextFreeElement ht"
proof (cases "nNumOfElements ht \<le> 1")
  case True
  then have "length (ht_entries ht) \<le> 1" using ht_inv_content [OF inv] by (simp add: content_ok_def)
  then show ?thesis using True inv by (simp add: sort_internal_tail stable_sort_short)
next
  case False
  let ?c = "RETURN_STABLE_SORT (\<lambda>a b. c (entry_of a) (entry_of b))"
  obtain eg1 ht1 where h: "(if ht_packed ht then zend_hash_packed_to_hash eg ht else Inr (eg, ht)) = Inr (eg1, ht1)"
    "mixed_shape ht1" "content_ok ht1" "ht_entries ht1 = ht_entries ht" "nNextFreeElement ht1 = nNextFreeElement ht"
    using sort_internal_cases [OF inv, of eg] False by auto
  have cc: "consistent ?c" using ticket_consistent [OF c] stable_ticket [of c entry_of] consistent_image [of "ticket_compare c" "\<lambda>b. (entry_of b, b_next b)"] by simp
  have n: "length (filter live (ht_buckets ht1)) < 2 ^ 32"
    using length_filter_le [of live "ht_buckets ht1"] length_ht_buckets [OF h(2)] h(2) size_ok_bounds(2) [of "nTableSize ht1"]
    by (auto simp: mixed_shape_def HT_MAX_SIZE_def)
  obtain eg' ht' where r: "sort_tail srt ?c False eg1 ht1 = Inr (eg', ht')" "ht_inv ht'"
    "ht_entries ht' = map entry_of (run_sort srt ?c exch (ranked ht1))" "nNextFreeElement ht' = nNextFreeElement ht1"
    using sort_keep_keys_ok [OF h(2,3) srt cc, of eg1] by blast
  have "ht_entries ht' = stable_sort c (map entry_of (filter live (ht_buckets ht1)))"
    unfolding r(3) ranked_def by (rule run_sort_stable [OF srt c n]) (auto simp: exch_def)
  then have "ht_entries ht' = stable_sort c (ht_entries ht)" using h(4) by (simp add: ht_entries_def entries_def)
  then show ?thesis using r False h by (simp add: sort_internal_tail)
qed

text \<open>With new keys: the values are sorted, the keys become \<open>0, 1, \<dots>\<close>, and the table is a list.\<close>

lemma single_packed_entry:
  assumes inv: "ht_inv ht" and p: "ht_packed ht" "HT_IS_WITHOUT_HOLES ht" and n: "nNumOfElements ht = 1"
  shows "ht_inv (ht\<lparr>nInternalPointer := 0, nNextFreeElement := 1\<rparr>)" "ht_entries (ht\<lparr>nInternalPointer := 0, nNextFreeElement := 1\<rparr>) = ht_entries ht"
    "map fst (ht_entries ht) = [IntKey 0]"
proof -
  have u: "nNumUsed ht = 1" using p n by (simp add: HT_IS_WITHOUT_HOLES_def)
  have sh: "packed_shape ht" "content_ok ht" using ht_inv_packedD [OF inv p(1)] by auto
  have b: "ht_buckets ht = [packed_bucket 0 (arPacked ht ! 0)]" using p u by (simp add: ht_buckets_def)
  then have l: "live (packed_bucket 0 (arPacked ht ! 0))" using sh(2) n unfolding content_ok_def ht_entries_def entries_def b by (cases "live (packed_bucket 0 (arPacked ht ! 0))") simp_all
  let ?t = "ht\<lparr>nInternalPointer := 0, nNextFreeElement := 1\<rparr>"
  have b': "ht_buckets ?t = ht_buckets ht" by (simp add: ht_buckets_def)
  then show e: "ht_entries ?t = ht_entries ht" by (simp add: ht_entries_def)
  show "map fst (ht_entries ht) = [IntKey 0]" using l by (simp add: ht_entries_def entries_def b packed_bucket_def bucket_key_def)
  have "packed_shape ?t" using sh(1) by (simp add: packed_shape_def)
  moreover have "bucket_ok (ht_static_keys ht) 1 (packed_bucket 0 (arPacked ht ! 0))"
    by (simp add: bucket_ok_def packed_bucket_def)
  then have "content_ok ?t" using sh(2) unfolding content_ok_def e b' by (simp add: b)
  ultimately show "ht_inv ?t" by (simp add: ht_inv_def)
qed

lemma sort_internal_renumber:
  assumes inv: "ht_inv ht" and srt: "builtin_sort srt" and c: "consistent c" "antisym_compare c" and n: "nNumOfElements ht \<noteq> 0"
  shows "\<exists>eg' ht'. zend_hash_sort_internal srt (RETURN_STABLE_SORT (\<lambda>a b. c (b_val a) (b_val b))) True eg ht = Inr (eg', ht') \<and>
    ht_inv ht' \<and> ht_packed ht' \<and> nNextFreeElement ht' = of_nat (length (ht_entries ht)) \<and>
    ht_entries ht' = zip (map (IntKey \<circ> of_nat) [0 ..< length (ht_entries ht)]) (stable_sort c (map snd (ht_entries ht)))"
proof -
  let ?c = "RETURN_STABLE_SORT (\<lambda>a b. c (b_val a) (b_val b))"
  have ne: "nNumOfElements ht = length (ht_entries ht)" using ht_inv_content [OF inv] by (simp add: content_ok_def)
  show ?thesis
  proof (cases "nNumOfElements ht \<le> 1 \<and> srt = ZEND_SORT \<and> ht_packed ht \<and> HT_IS_WITHOUT_HOLES ht")
    case True
    with n have one: "nNumOfElements ht = 1" by simp
    note s = single_packed_entry [OF inv _ _ one]
    then have "map fst (ht_entries ht) = [IntKey 0]" using True by simp
    moreover have "stable_sort c (map snd (ht_entries ht)) = map snd (ht_entries ht)" using ne one by (intro stable_sort_short) simp
    ultimately have "zip (map (IntKey \<circ> of_nat) [0 ..< 1]) (stable_sort c (map snd (ht_entries ht))) = ht_entries ht"
      using zip_map_fst_snd [of "ht_entries ht"] by simp
    with s True n one show ?thesis by (simp add: sort_internal_tail flip: ne)
  next
    case False
    obtain eg1 ht1 where h: "(if ht_packed ht then zend_hash_packed_to_hash eg ht else Inr (eg, ht)) = Inr (eg1, ht1)"
      "mixed_shape ht1" "content_ok ht1" "ht_entries ht1 = ht_entries ht" "nNumOfElements ht1 = nNumOfElements ht"
      using sort_internal_cases [OF inv n, of eg] by auto
    let ?s = "run_sort srt ?c zend_hash_bucket_renum_swap (ranked ht1)"
    obtain D where D: "length D = nTableSize ht1" "take (nNumOfElements ht1) D = ?s"
      and e: "sort_tail srt ?c True eg1 ht1 = sort_finish True eg1 (ht1\<lparr>nNumUsed := nNumOfElements ht1,
        arHash := replicate (2 * nTableSize ht1) HT_INVALID_IDX, arData := D, nInternalPointer := 0\<rparr>)"
      using sort_tail_eq [OF h(2,3) srt, of ?c True eg1] by auto
    have le: "nNumOfElements ht1 \<le> nTableSize ht1"
      using num_elements_le [OF h(3)] length_ht_buckets [OF h(2)] h(2) by (simp add: mixed_shape_def)
    have bd: "length (filter live (ht_buckets ht1)) < 2 ^ 32"
      using length_filter_le [of live "ht_buckets ht1"] length_ht_buckets [OF h(2)] h(2) size_ok_bounds(2) [of "nTableSize ht1"]
      by (auto simp: mixed_shape_def HT_MAX_SIZE_def)
    have "map b_val ?s = stable_sort c (map b_val (filter live (ht_buckets ht1)))"
      unfolding ranked_def by (rule run_sort_stable [OF srt c bd]) (auto simp: zend_hash_bucket_renum_swap_def)
    also have mv: "map b_val (filter live (ht_buckets ht1)) = map snd (ht_entries ht)"
      using arg_cong [OF h(4), of "map snd"] by (simp add: ht_entries_def entries_def comp_def)
    finally have v: "map b_val ?s = stable_sort c (map snd (ht_entries ht))" .
    have lv: "live b" if "b \<in> set ?s" for b
    proof -
      have "b_val b \<in> set (map b_val ?s)" using that by simp
      also have "set (map b_val ?s) = set (map b_val (filter live (ht_buckets ht1)))"
        unfolding v mv using stable_sort_mset mset_eq_setD by metis
      finally show ?thesis by auto
    qed
    obtain eg' ht' where r: "sort_tail srt ?c True eg1 ht1 = Inr (eg', ht')" "ht_inv ht'" "ht_packed ht'"
      "nNextFreeElement ht' = of_nat (nNumOfElements ht1)" "ht_entries ht' = zip (map (IntKey \<circ> of_nat) [0 ..< nNumOfElements ht1]) (map b_val ?s)"
      using renumber_ok [OF h(2) D le lv, of eg1 "replicate (2 * nTableSize ht1) HT_INVALID_IDX"] unfolding e by blast
    have "zend_hash_sort_internal srt ?c True eg ht = Inr (eg', ht')"
      unfolding sort_internal_tail h(1) if_not_P [OF False] using n r(1) by simp
    then show ?thesis using r unfolding v h(5) ne by blast
  qed
qed


end
