(* ===== verification/Hash_Compare.thy ===== *)
theory Hash_Compare
  imports Hash_Sort Hash_Resize
begin

text \<open>
  Comparing two tables: the loops over the cells compute the comparison of the entry lists, and
  the assertion in the ordered loop (the second table has a next element) holds.
\<close>

section \<open>Comparing entry lists\<close>

text \<open>The reference: entries in order, keys before values; or every entry looked up in the other list.\<close>

definition key_order :: "hkey \<Rightarrow> hkey \<Rightarrow> int" where
  "key_order k1 k2 = (case (k1, k2) of
       (IntKey h1, IntKey h2) \<Rightarrow> (if h1 = h2 then 0 else compare_order h1 h2)
     | (StrKey s1, StrKey s2) \<Rightarrow> (if length s1 \<noteq> length s2 then compare_order (length s1) (length s2) else memcmp s1 s2)
     | (StrKey _, IntKey _) \<Rightarrow> 1
     | (IntKey _, StrKey _) \<Rightarrow> -1)"

fun ordered_compare :: "(zval \<Rightarrow> zval \<Rightarrow> int) \<Rightarrow> (hkey \<times> zval) list \<Rightarrow> (hkey \<times> zval) list \<Rightarrow> int" where
  "ordered_compare c ((k1, v1) # es) ((k2, v2) # fs) =
     (if key_order k1 k2 \<noteq> 0 then key_order k1 k2 else if c v1 v2 \<noteq> 0 then c v1 v2 else ordered_compare c es fs)"
| "ordered_compare c _ _ = 0"

fun unordered_compare :: "(zval \<Rightarrow> zval \<Rightarrow> int) \<Rightarrow> (hkey \<times> zval) list \<Rightarrow> (hkey \<times> zval) list \<Rightarrow> int" where
  "unordered_compare c [] fs = 0"
| "unordered_compare c ((k, v) # es) fs =
     (case map_of fs k of None \<Rightarrow> 1 | Some w \<Rightarrow> if c v w \<noteq> 0 then c v w else unordered_compare c es fs)"

lemma memcmp_eq_0: "length s = length t \<Longrightarrow> memcmp s t = 0 \<longleftrightarrow> s = t"
  by (induction s t rule: memcmp.induct) (auto simp: of_char_eq_iff)

lemma key_order_eq_0: "key_order k1 k2 = 0 \<longleftrightarrow> k1 = k2"
  by (cases k1; cases k2) (auto simp: key_order_def compare_order_def memcmp_eq_0)

lemma ordered_compare_0:
  "length es = length fs \<Longrightarrow> ordered_compare c es fs = 0 \<longleftrightarrow>
     map fst es = map fst fs \<and> list_all2 (\<lambda>v w. c v w = 0) (map snd es) (map snd fs)"
  by (induction es fs rule: list_induct2) (auto simp: key_order_eq_0 split: if_splits)

lemma unordered_compare_0:
  "unordered_compare c es fs = 0 \<longleftrightarrow> (\<forall>(k, v) \<in> set es. \<exists>w. map_of fs k = Some w \<and> c v w = 0)"
  by (induction c es fs rule: unordered_compare.induct) (auto split: option.splits)

section \<open>The loops\<close>

lemma cell_key_bucket:
  "ht_inv ht \<Longrightarrow> i < nNumUsed ht \<Longrightarrow> cell_key ht i = (b_h (ht_buckets ht ! i), b_key (ht_buckets ht ! i))"
  using length_buckets [of ht] by (auto simp: cell_key_def ht_buckets_def packed_bucket_def)

lemma compare_keys_order:
  "compare_keys (b_h p, b_key p) (b_h q, b_key q) = key_order (bucket_key p) (bucket_key q)"
  by (auto simp: compare_keys_def key_order_def bucket_key_def split: option.splits)

lemma next_live_ok:
  "ht_inv ht \<Longrightarrow> entries_from ht idx = e # es \<Longrightarrow>
   \<exists>j < nNumUsed ht. next_live ht idx = Inr j \<and> e = (bucket_key (ht_buckets ht ! j), cell_val ht j) \<and> entries_from ht (Suc j) = es"
proof (induction ht idx rule: next_live.induct)
  case (1 ht idx)
  have i: "idx < nNumUsed ht"
  proof (rule ccontr)
    assume "\<not> idx < nNumUsed ht"
    then have "entries_from ht idx = []" using length_buckets [OF 1(2)] by (simp add: entries_from_def entries_def)
    with 1(3) show False by simp
  qed
  show ?case
  proof (cases "cell_val ht idx = IS_UNDEF")
    case True
    then have "entries_from ht (idx + 1) = e # es" using entries_from_step [OF 1(2) i] 1(3) by simp
    with 1(1) 1(2) i True show ?thesis by (subst next_live.simps) auto
  next
    case False
    then show ?thesis using entries_from_step [OF 1(2) i] 1(3) i by (subst next_live.simps) auto
  qed
qed

lemma compare_loop_ordered:
  assumes "ht_inv ht1" "ht_inv ht2"
  shows "i \<le> nNumUsed ht1 \<Longrightarrow> length (entries_from ht1 i) = length (entries_from ht2 idx2) \<Longrightarrow>
    compare_loop eg ht1 ht2 compar True [i ..< nNumUsed ht1] idx2 =
      Inr (ordered_compare (compare_values eg compar) (entries_from ht1 i) (entries_from ht2 idx2))"
proof (induction "nNumUsed ht1 - i" arbitrary: i idx2)
  case 0
  then have "entries_from ht1 i = []" using length_buckets [OF assms(1)] by (simp add: entries_from_def entries_def)
  with 0 show ?case by simp
next
  case (Suc n)
  then have i: "i < nNumUsed ht1" by simp
  then have u: "[i ..< nNumUsed ht1] = i # [Suc i ..< nNumUsed ht1]" by (simp add: upt_conv_Cons)
  have n: "n = nNumUsed ht1 - Suc i" using Suc.hyps(2) by simp
  note st = entries_from_step [OF assms(1) i]
  show ?case
  proof (cases "cell_val ht1 i = IS_UNDEF")
    case True
    with Suc.hyps(1) [OF n] Suc.prems i st show ?thesis by (simp add: u)
  next
    case False
    with st Suc.prems(2) obtain e es where ee: "entries_from ht2 idx2 = e # es" by (cases "entries_from ht2 idx2") auto
    then obtain j where j: "j < nNumUsed ht2" "next_live ht2 idx2 = Inr j" "e = (bucket_key (ht_buckets ht2 ! j), cell_val ht2 j)"
      "entries_from ht2 (Suc j) = es" using next_live_ok [OF assms(2)] by blast
    have "length (entries_from ht1 (Suc i)) = length (entries_from ht2 (Suc j))" using st False Suc.prems(2) ee j(4) by simp
    from Suc.hyps(1) [OF n _ this] show ?thesis using False st j ee i
      by (simp add: u cell_key_bucket assms compare_keys_order Let_def)
  qed
qed

lemma compare_loop_unordered:
  assumes "ht_inv ht1" "ht_inv ht2"
  shows "i \<le> nNumUsed ht1 \<Longrightarrow>
    compare_loop eg ht1 ht2 compar False [i ..< nNumUsed ht1] idx2 =
      Inr (unordered_compare (compare_values eg compar) (entries_from ht1 i) (ht_entries ht2))"
proof (induction "nNumUsed ht1 - i" arbitrary: i)
  case 0
  then have "entries_from ht1 i = []" using length_buckets [OF assms(1)] by (simp add: entries_from_def entries_def)
  with 0 show ?case by simp
next
  case (Suc n)
  then have i: "i < nNumUsed ht1" by simp
  then have u: "[i ..< nNumUsed ht1] = i # [Suc i ..< nNumUsed ht1]" by (simp add: upt_conv_Cons)
  have n: "n = nNumUsed ht1 - Suc i" using Suc.hyps(2) by simp
  note st = entries_from_step [OF assms(1) i]
  let ?b = "ht_buckets ht1 ! i"
  obtain r where r: "(case b_key ?b of None \<Rightarrow> zend_hash_index_find ht2 (b_h ?b) | Some key1 \<Rightarrow> zend_hash_find ht2 key1) = Inr r"
      "map_option (loc_val eg ht2) r = map_of (ht_entries ht2) (bucket_key ?b)"
    using zend_hash_find_ok(1) [OF assms(2), of _ eg] zend_hash_find_ok(3) [OF assms(2), of "b_h ?b" eg]
    by (cases "b_key ?b") (fastforce simp: bucket_key_def)+
  show ?case
  proof (cases "cell_val ht1 i = IS_UNDEF")
    case True
    with Suc.hyps(1) [OF n] Suc.prems i st show ?thesis by (simp add: u)
  next
    case False
    with Suc.hyps(1) [OF n] i st r show ?thesis
      by (cases r) (auto simp: u cell_key_bucket assms Let_def r(2) [symmetric])
  qed
qed

lemma compare_impl_ok:
  assumes "ht_inv ht1" "ht_inv ht2"
  shows "zend_hash_compare_impl eg ht1 ht2 compar ordered = Inr
    (if length (ht_entries ht1) \<noteq> length (ht_entries ht2) then compare_order (length (ht_entries ht1)) (length (ht_entries ht2))
     else if ordered then ordered_compare (compare_values eg compar) (ht_entries ht1) (ht_entries ht2)
     else unordered_compare (compare_values eg compar) (ht_entries ht1) (ht_entries ht2))"
proof -
  have "nNumOfElements ht1 = length (ht_entries ht1)" "nNumOfElements ht2 = length (ht_entries ht2)"
    using ht_inv_content assms by (auto simp: content_ok_def)
  moreover have "entries_from ht 0 = ht_entries ht" for ht by (simp add: entries_from_def ht_entries_def)
  ultimately show ?thesis
    using compare_loop_ordered [OF assms, of 0 0 eg compar] compare_loop_unordered [OF assms, of 0 eg compar 0]
    by (auto simp: zend_hash_compare_impl_def)
qed


end
