(* ===== verification/Hash_Destroy.thy ===== *)
theory Hash_Destroy
  imports Hash_Bulk Hash_Insert
begin

text \<open>
  Destroying and cleaning a table: the variants of the loops (with or without holes, with or
  without counted keys, with or without a destructor) destroy each live value exactly once, in
  order, and release each counted key exactly once.
\<close>

section \<open>The trace of a destruction\<close>

text \<open>Each element in order: its value is destroyed, then its key released if it is counted.\<close>

definition bucket_events :: "bool \<Rightarrow> bucket \<Rightarrow> event list" where
  "bucket_events dtor p = (if dtor then [Dtor (b_val p)] else []) @
     (case b_key p of Some k \<Rightarrow> if zs_interned k then [] else [Key_release k] | None \<Rightarrow> [])"

definition destroy_events :: "bool \<Rightarrow> hashtable \<Rightarrow> event list" where
  "destroy_events dtor ht = concat (map (bucket_events dtor) (filter live (ht_buckets ht)))"

definition emits :: "event list \<Rightarrow> exec_globals \<Rightarrow> exec_globals" where
  "emits es eg = eg\<lparr>events := events eg @ es\<rparr>"

lemma emits_simps [simp]: "emits [] eg = eg" "emits es (emits fs eg) = emits (fs @ es) eg" "emit e eg = emits [e] eg"
  by (simp_all add: emits_def emit_def)

lemma fold_emits:
  assumes "\<And>p eg. p \<in> set ps \<Longrightarrow> f p eg = emits (if live p then g p else []) eg"
  shows "fold f ps eg = emits (concat (map g (filter live ps))) eg"
  using assms by (induction ps arbitrary: eg) auto

lemma fold_packed_cells:
  "length zs = n \<Longrightarrow> fold f zs eg = fold (\<lambda>p. f (b_val p)) (map (\<lambda>i. packed_bucket i (zs ! i)) [0 ..< n]) eg"
proof -
  assume n: "length zs = n"
  have "zs = map b_val (map (\<lambda>i. packed_bucket i (zs ! i)) [0 ..< n])"
    using n by (intro nth_equalityI) (auto simp: packed_bucket_def)
  then have "fold f zs eg = fold f (map b_val (map (\<lambda>i. packed_bucket i (zs ! i)) [0 ..< n])) eg" by simp
  then show ?thesis by (simp add: fold_map comp_def)
qed

lemma ht_buckets_packed:
  assumes "packed_shape ht"
  shows "ht_buckets ht = map (\<lambda>i. packed_bucket i (take (nNumUsed ht) (arPacked ht) ! i)) [0 ..< nNumUsed ht]"
    "length (take (nNumUsed ht) (arPacked ht)) = nNumUsed ht"
  using assms by (auto simp: ht_buckets_def packed_shape_def)

lemma no_holes_all_live:
  assumes inv: "ht_inv ht" and h: "HT_IS_WITHOUT_HOLES ht" and p: "p \<in> set (ht_buckets ht)"
  shows "live p"
proof -
  have "length (filter live (ht_buckets ht)) = length (ht_buckets ht)"
    using ht_inv_content [OF inv] h length_buckets [OF inv]
    by (simp add: content_ok_def HT_IS_WITHOUT_HOLES_def ht_entries_def entries_def)
  then have "filter live (ht_buckets ht) = ht_buckets ht" using length_filter_less [of _ "ht_buckets ht" live] by (auto simp: filter_id_conv)
  then show ?thesis using p by (simp add: filter_id_conv)
qed

lemma ht_bucket_ok: "ht_inv ht \<Longrightarrow> p \<in> set (ht_buckets ht) \<Longrightarrow> bucket_ok (ht_static_keys ht) (nNextFreeElement ht) p"
  using ht_inv_content [of ht] by (auto simp: content_ok_def list_all_iff)

lemma bucket_key_cases:
  assumes "ht_inv ht" "p \<in> set (ht_buckets ht)" "b_key p = Some k"
  shows "live p" "ht_static_keys ht \<Longrightarrow> zs_interned k"
  using ht_bucket_ok [OF assms(1,2)] assms(3) by (auto simp: bucket_ok_def)

definition key_events :: "bucket \<Rightarrow> event list" where
  "key_events p = (case b_key p of Some k \<Rightarrow> if zs_interned k then [] else [Key_release k] | None \<Rightarrow> [])"

lemma release_bucket_key_emits: "release_bucket_key p eg = emits (key_events p) eg"
  by (auto simp: release_bucket_key_def zend_string_release_def key_events_def split: option.splits)

lemma key_events_none:
  assumes "ht_inv ht" "p \<in> set (ht_buckets ht)" "ht_static_keys ht \<or> \<not> live p"
  shows "key_events p = []"
  using bucket_key_cases [OF assms(1,2)] assms(3) by (auto simp: key_events_def split: option.splits)

lemma bucket_events_eq: "bucket_events d p = (if d then [Dtor (b_val p)] else []) @ key_events p"
  by (simp add: bucket_events_def key_events_def)

lemma destroy_buckets_ok:
  assumes inv: "ht_inv ht" and np: "\<not> ht_packed ht"
  shows "destroy_buckets ht eg = emits (destroy_events (pDestructor ht) ht) eg"
proof -
  have b: "take (nNumUsed ht) (arData ht) = ht_buckets ht" using np by (simp add: ht_buckets_def)
  have st: "HT_HAS_STATIC_KEYS_ONLY ht = ht_static_keys ht" using np by (simp add: HT_HAS_STATIC_KEYS_ONLY_def)
  note ke = key_events_none [OF inv] and nh = no_holes_all_live [OF inv]
  have P: "fold f (ht_buckets ht) eg = emits (destroy_events d ht) eg"
    if "\<And>p eg. p \<in> set (ht_buckets ht) \<Longrightarrow> f p eg = emits (if live p then bucket_events d p else []) eg" for f d
    unfolding destroy_events_def using that by (rule fold_emits)
  note defs = destroy_buckets_def Let_def b st
  note eqs = bucket_events_eq release_bucket_key_emits ke
  show ?thesis
  proof (cases "pDestructor ht")
    case d: True
    show ?thesis
    proof (cases "HT_IS_WITHOUT_HOLES ht")
      case True
      show ?thesis unfolding defs if_P [OF d] if_P [OF True] 
        by (cases "ht_static_keys ht"; simp only: d if_True if_False; rule P; simp add: eqs nh [OF True])
    next
      case False
      show ?thesis unfolding defs if_P [OF d] if_not_P [OF False] 
        by (cases "ht_static_keys ht"; simp only: d if_True if_False; rule P; simp add: eqs)
    qed
  next
    case nd: False
    show ?thesis
    proof (cases "ht_static_keys ht")
      case True
      then have "destroy_events (pDestructor ht) ht = []" using nd by (auto simp: destroy_events_def eqs)
      then show ?thesis using nd True by (simp add: defs)
    next
      case False
      then show ?thesis unfolding defs if_not_P [OF nd] using nd by (simp only: not_False_eq_True if_True) (rule P, simp add: eqs)
    qed
  qed
qed

lemma destroy_packed_ok:
  assumes inv: "ht_inv ht" and p: "ht_packed ht"
  shows "destroy_packed ht eg = emits (destroy_events (pDestructor ht) ht) eg"
proof -
  have sh: "packed_shape ht" using ht_inv_packedD [OF inv p] by simp
  note b = ht_buckets_packed [OF sh] and ke = key_events_none [OF inv] and nh = no_holes_all_live [OF inv]
  have st: "ht_static_keys ht" using sh by (simp add: packed_shape_def)
  have P: "fold f (take (nNumUsed ht) (arPacked ht)) eg = emits (destroy_events d ht) eg"
    if "\<And>p eg. p \<in> set (ht_buckets ht) \<Longrightarrow> f (b_val p) eg = emits (if live p then bucket_events d p else []) eg" for f d
    unfolding destroy_events_def fold_packed_cells [OF b(2)] b(1) [symmetric] using that by (rule fold_emits)
  show ?thesis
  proof (cases "pDestructor ht")
    case True
    show ?thesis unfolding destroy_packed_def Let_def
      by (cases "HT_IS_WITHOUT_HOLES ht"; simp only: True if_True if_False; rule P; simp add: bucket_events_eq ke nh st)
  next
    case False
    then have "destroy_events (pDestructor ht) ht = []" using st by (auto simp: destroy_events_def bucket_events_eq ke)
    then show ?thesis using False by (simp add: destroy_packed_def)
  qed
qed

section \<open>Destroying and cleaning\<close>

lemma empty_table_events: "ht_inv ht \<Longrightarrow> nNumUsed ht = 0 \<Longrightarrow> destroy_events d ht = []"
  by (simp add: destroy_events_def ht_buckets_def)

lemma events_iterators_remove [simp]: "events (zend_hash_iterators_remove ht eg) = events eg"
  by (simp add: zend_hash_iterators_remove_def zend_hash_iterators_remove'_def for_iterators_def)

lemma events_emits [simp]: "events (emits es eg) = events eg @ es"
  by (simp add: emits_def)

lemma destroy_events_ok: "ht_inv ht \<Longrightarrow> events (zend_hash_destroy eg ht) = events eg @ destroy_events (pDestructor ht) ht"
  using destroy_packed_ok [of ht eg] destroy_buckets_ok [of ht eg] empty_table_events [of ht]
  by (simp add: zend_hash_destroy_def)

text \<open>The loops of \<^verbatim>\<open>zend_array_destroy\<close> and \<^verbatim>\<open>zend_symtable_clean\<close> skip holes in the destructor itself.\<close>

lemma value_dtor_buckets:
  assumes inv: "ht_inv ht" and np: "\<not> ht_packed ht"
  shows "(if HT_HAS_STATIC_KEYS_ONLY ht then fold (\<lambda>p. i_zval_ptr_dtor (b_val p)) (take (nNumUsed ht) (arData ht)) eg
      else if HT_IS_WITHOUT_HOLES ht
      then fold (\<lambda>p eg. release_bucket_key p (i_zval_ptr_dtor (b_val p) eg)) (take (nNumUsed ht) (arData ht)) eg
      else fold (\<lambda>p eg. if live p then release_bucket_key p (i_zval_ptr_dtor (b_val p) eg) else eg) (take (nNumUsed ht) (arData ht)) eg)
    = emits (destroy_events True ht) eg"
proof -
  have b: "take (nNumUsed ht) (arData ht) = ht_buckets ht" using np by (simp add: ht_buckets_def)
  have st: "HT_HAS_STATIC_KEYS_ONLY ht = ht_static_keys ht" using np by (simp add: HT_HAS_STATIC_KEYS_ONLY_def)
  note ke = key_events_none [OF inv]
  have P: "fold f (ht_buckets ht) eg = emits (destroy_events True ht) eg"
    if "\<And>p eg. p \<in> set (ht_buckets ht) \<Longrightarrow> f p eg = emits (if live p then bucket_events True p else []) eg" for f
    unfolding destroy_events_def using that by (rule fold_emits)
  show ?thesis unfolding b st
    by (cases "ht_static_keys ht"; cases "HT_IS_WITHOUT_HOLES ht"; simp only: if_True if_False; rule P;
        simp add: bucket_events_eq release_bucket_key_emits ke i_zval_ptr_dtor_def)
qed

lemma value_dtor_packed:
  assumes inv: "ht_inv ht" and p: "ht_packed ht"
  shows "fold i_zval_ptr_dtor (take (nNumUsed ht) (arPacked ht)) eg = emits (destroy_events True ht) eg"
proof -
  have sh: "packed_shape ht" using ht_inv_packedD [OF inv p] by simp
  note b = ht_buckets_packed [OF sh]
  have "ht_static_keys ht" using sh by (simp add: packed_shape_def)
  then show ?thesis unfolding destroy_events_def fold_packed_cells [OF b(2)] b(1) [symmetric]
    by (intro fold_emits) (simp add: bucket_events_eq key_events_none [OF inv] i_zval_ptr_dtor_def)
qed

lemma array_destroy_ok:
  assumes "ht_inv ht" "other_dtor \<or> pDestructor ht"
  shows "events (zend_array_destroy eg other_dtor ht) = events eg @ destroy_events (pDestructor ht) ht"
proof (cases "nNumUsed ht = 0")
  case True
  then show ?thesis using empty_table_events [OF assms(1)] by (simp add: zend_array_destroy_def)
next
  case False
  then show ?thesis unfolding zend_array_destroy_def Let_def events_iterators_remove
    using assms value_dtor_packed [OF assms(1), of eg] value_dtor_buckets [OF assms(1), of eg] destroy_events_ok [OF assms(1), of eg]
    by (cases other_dtor; cases "ht_packed ht") simp_all
qed

lemma reset_ok:
  assumes inv: "ht_inv ht"
  shows "ht_packed ht \<Longrightarrow> ht_inv (reset_counters ht)" "nNumUsed ht = 0 \<Longrightarrow> ht_inv (reset_counters ht)"
    "\<not> ht_packed ht \<Longrightarrow> nNumUsed ht \<noteq> 0 \<Longrightarrow> ht_inv (reset_counters (HT_HASH_RESET ht))"
    "ht_entries (reset_counters ht) = []" "ht_entries (reset_counters (HT_HASH_RESET ht)) = []"
proof -
  have c: "content_ok (reset_counters t)" for t
    by (simp add: content_ok_def reset_counters_def ht_buckets_def ht_entries_def entries_def)
  show "ht_entries (reset_counters ht) = []" "ht_entries (reset_counters (HT_HASH_RESET ht)) = []"
    by (simp_all add: reset_counters_def ht_buckets_def ht_entries_def entries_def)
  show "ht_inv (reset_counters ht)" if "ht_packed ht"
    using ht_inv_packedD [OF inv that] c by (auto simp: ht_inv_def packed_shape_def) (simp_all add: reset_counters_def)
  show "ht_inv (reset_counters ht)" if "nNumUsed ht = 0"
  proof -
    have "chains_ok ht 0 \<Longrightarrow> chains_ok (reset_counters ht) 0" by (simp add: reset_counters_def)
    then show ?thesis using inv that c
      unfolding ht_inv_def packed_shape_def mixed_shape_def uninit_shape_def by (auto simp: reset_counters_def)
  qed
  show "ht_inv (reset_counters (HT_HASH_RESET ht))" if "\<not> ht_packed ht" "nNumUsed ht \<noteq> 0"
  proof -
    have sh: "mixed_shape ht" using inv that by (auto simp: ht_inv_def packed_shape_def uninit_shape_def)
    then have m: "unat (- nTableMask ht) = 2 * nTableSize ht" using mask_size by (auto simp: mixed_shape_def)
    have "mixed_shape (reset_counters (HT_HASH_RESET ht))"
      using sh m by (simp add: mixed_shape_def reset_counters_def HT_HASH_RESET_def)
    moreover have "chains_ok (reset_counters (HT_HASH_RESET ht)) 0"
      by (simp add: chains_ok_def reset_counters_def HT_HASH_RESET_def)
    ultimately show ?thesis using c [of "HT_HASH_RESET ht"] by (simp add: ht_inv_def) (simp add: reset_counters_def)
  qed
qed

lemma clean_ok:
  assumes inv: "ht_inv ht"
  shows "\<exists>ht'. zend_hash_clean eg ht = (emits (destroy_events (pDestructor ht) ht) eg, ht') \<and> ht_inv ht' \<and> ht_entries ht' = [] \<and>
    nNextFreeElement ht' = ZEND_LONG_MIN \<and> nTableSize ht' = nTableSize ht"
proof (cases "nNumUsed ht = 0")
  case True
  then show ?thesis using reset_ok [OF inv] empty_table_events [OF inv]
    by (auto simp: zend_hash_clean_def) (simp_all add: reset_counters_def)
next
  case False
  then show ?thesis using reset_ok [OF inv] destroy_packed_ok [OF inv, of eg] destroy_buckets_ok [OF inv, of eg]
    by (auto simp: zend_hash_clean_def HT_HAS_STATIC_KEYS_ONLY_def) (simp_all add: reset_counters_def HT_HASH_RESET_def)
qed

lemma symtable_clean_ok:
  assumes inv: "ht_inv ht" and np: "\<not> ht_packed ht"
  shows "\<exists>ht'. zend_symtable_clean eg ht = (emits (destroy_events True ht) eg, ht') \<and> ht_inv ht' \<and> ht_entries ht' = []"
proof (cases "nNumUsed ht = 0")
  case True
  then show ?thesis using reset_ok [OF inv] empty_table_events [OF inv] by (auto simp: zend_symtable_clean_def)
next
  case False
  then show ?thesis using reset_ok [OF inv] np value_dtor_buckets [OF inv np, of eg] by (simp add: zend_symtable_clean_def)
qed


end
