(* ===== verification/Hash_Apply.thy ===== *)
theory Hash_Apply
  imports Hash_Bulk
begin

text \<open>
  The apply family and the graceful destruction: operations on one cell leave the others alone, so
  a run over the cells that deletes as it goes visits every element once, in order.
\<close>

section \<open>Cells\<close>

text \<open>The live cells of a range of positions, with their keys as the callbacks get them.\<close>

definition raw_key :: "u64 \<times> zend_string option \<Rightarrow> hkey" where
  "raw_key k = (case k of (h, None) \<Rightarrow> IntKey h | (h, Some s) \<Rightarrow> StrKey (ZSTR_VAL s))"

definition cells :: "hashtable \<Rightarrow> nat list \<Rightarrow> ((u64 \<times> zend_string option) \<times> zval) list" where
  "cells ht is = map (\<lambda>i. (cell_key ht i, cell_val ht i)) (filter (\<lambda>i. cell_val ht i \<noteq> IS_UNDEF) is)"

abbreviation cell_entries :: "((u64 \<times> zend_string option) \<times> zval) list \<Rightarrow> (hkey \<times> zval) list" where
  "cell_entries cs \<equiv> map (\<lambda>(k, v). (raw_key k, v)) cs"

lemma cells_simps [simp]:
  "cells ht [] = []" "cells ht (is @ js) = cells ht is @ cells ht js"
  "cells ht (i # is) = (if cell_val ht i = IS_UNDEF then [] else [(cell_key ht i, cell_val ht i)]) @ cells ht is"
  by (simp_all add: cells_def)

lemma cells_cong:
  "(\<And>i. i \<in> set is \<Longrightarrow> cell_val ht i = cell_val ht' i \<and> cell_key ht i = cell_key ht' i) \<Longrightarrow> cells ht is = cells ht' is"
  by (induction "is") auto

lemma raw_key_bucket:
  "ht_inv ht \<Longrightarrow> i < nNumUsed ht \<Longrightarrow> raw_key (cell_key ht i) = bucket_key (ht_buckets ht ! i)"
  using length_buckets [of ht]
  by (auto simp: raw_key_def cell_key_def bucket_key_def ht_buckets_def packed_bucket_def split: option.splits)

lemma ht_entries_cells:
  assumes inv: "ht_inv ht" and n: "nNumUsed ht = n"
  shows "ht_entries ht = cell_entries (cells ht [0 ..< n])"
proof -
  have b: "ht_buckets ht = map ((!) (ht_buckets ht)) [0 ..< n]" using length_buckets [OF inv] n by (metis map_nth)
  have "entries (map ((!) (ht_buckets ht)) is) = cell_entries (cells ht is)" if "\<forall>i \<in> set is. i < nNumUsed ht" for "is"
    using that cell_val_bucket [OF inv] raw_key_bucket [OF inv] by (induction "is") (auto simp: entries_def)
  from this [of "[0 ..< n]"] show ?thesis using n by (simp add: ht_entries_def flip: b)
qed

section \<open>Changing one cell\<close>

text \<open>What an operation on one cell leaves of the others.\<close>

definition only_cell :: "nat \<Rightarrow> hashtable \<Rightarrow> hashtable \<Rightarrow> bool" where
  "only_cell idx ht ht' \<longleftrightarrow> (\<forall>j. j \<noteq> idx \<longrightarrow> cell_val ht' j = cell_val ht j \<and> cell_key ht' j = cell_key ht j) \<and>
     nNumUsed ht' \<le> nNumUsed ht \<and> (\<forall>j. nNumUsed ht' \<le> j \<and> j < nNumUsed ht \<longrightarrow> j = idx \<or> cell_val ht j = IS_UNDEF) \<and>
     (nNumUsed ht' < nNumUsed ht \<longrightarrow> Suc idx = nNumUsed ht)"

lemma only_cell_trans:
  assumes "only_cell idx a b" "only_cell idx b c" "nNumUsed b = nNumUsed a"
  shows "only_cell idx a c"
  using assms unfolding only_cell_def by metis

lemma only_cell_store: "only_cell idx ht (snd (store (cell_loc ht idx) v eg ht))"
  by (auto simp: only_cell_def store_def cell_loc_def cell_val_def cell_key_def)

lemma shrink_used_last:
  "shrink_used dead idx eg ht = (eg', ht') \<Longrightarrow> idx < nNumUsed ht \<Longrightarrow> nNumUsed ht' < nNumUsed ht \<Longrightarrow> Suc idx = nNumUsed ht"
  by (auto simp: shrink_used_def Let_def split: if_splits)

lemma only_cell_packed_del:
  assumes "ht_packed ht" "idx < nNumUsed ht" "zend_hash_packed_del_val' eg ht idx = (eg', ht')"
  shows "only_cell idx ht ht'"
proof -
  obtain eg1 ht1 where s: "shrink_used (\<lambda>i. arPacked ht ! i = IS_UNDEF) idx eg (ht\<lparr>nNumOfElements := nNumOfElements ht - 1\<rparr>) = (eg1, ht1)"
    by fastforce
  then have ht': "ht' = ht1\<lparr>arPacked := (arPacked ht1)[idx := IS_UNDEF]\<rparr>"
    using assms(3) by (simp add: zend_hash_packed_del_val'_def Let_def)
  show ?thesis using shrink_used_frame [OF s] shrink_used_last [OF s] assms(1,2)
    by (auto simp: only_cell_def ht' cell_val_def cell_key_def)
qed

lemma only_cell_del_el_ex:
  assumes np: "\<not> ht_packed ht" and i: "idx < nNumUsed ht" and r: "zend_hash_del_el_ex eg ht idx prev = (eg', ht')"
  shows "only_cell idx ht ht'"
proof -
  define ht1 where "ht1 = (case prev of
        Some q \<Rightarrow> ht\<lparr>arData := (arData ht)[q := (arData ht ! q)\<lparr>b_next := b_next (arData ht ! idx)\<rparr>]\<rparr>
      | None \<Rightarrow> HT_HASH_SET ht (hash_index (nTableMask ht) (b_h (arData ht ! idx))) (b_next (arData ht ! idx)))"
  obtain eg2 ht2 where s: "shrink_used (\<lambda>i. \<not> live (arData ht1 ! i)) idx eg (ht1\<lparr>nNumOfElements := nNumOfElements ht1 - 1\<rparr>) = (eg2, ht2)"
    by fastforce
  have ht': "ht' = ht2\<lparr>arData := (arData ht2)[idx := (arData ht2 ! idx)\<lparr>b_val := IS_UNDEF\<rparr>]\<rparr>"
    using r s by (simp add: zend_hash_del_el_ex_def Let_def flip: ht1_def)
  have up: "b_val ((D[q := (D ! q)\<lparr>b_next := x\<rparr>]) ! j) = b_val (D ! j) \<and> b_h ((D[q := (D ! q)\<lparr>b_next := x\<rparr>]) ! j) = b_h (D ! j) \<and>
      b_key ((D[q := (D ! q)\<lparr>b_next := x\<rparr>]) ! j) = b_key (D ! j)" for D :: "bucket list" and q j x
    by (cases "q < length D"; cases "j = q") (auto simp: list_update_beyond)
  have 1: "nNumUsed ht1 = nNumUsed ht" "\<not> ht_packed ht1" "b_val (arData ht1 ! j) = b_val (arData ht ! j)"
    "b_h (arData ht1 ! j) = b_h (arData ht ! j)" "b_key (arData ht1 ! j) = b_key (arData ht ! j)" for j
    using np up by (auto simp: ht1_def HT_HASH_SET_def split: option.splits)
  show ?thesis using shrink_used_frame [OF s] shrink_used_last [OF s] i 1 np
    by (auto simp: only_cell_def ht' cell_val_def cell_key_def)
qed

lemma only_cell_release_key: "release_key eg ht idx = (eg', ht') \<Longrightarrow> only_cell idx ht ht' \<and> nNumUsed ht' = nNumUsed ht \<and> ht_packed ht' = ht_packed ht"
  by (auto simp: release_key_def only_cell_def cell_val_def cell_key_def split: option.splits)


lemma del_cell_ok:
  assumes inv: "ht_inv ht" and i: "idx < nNumUsed ht" "cell_val ht idx \<noteq> IS_UNDEF"
  shows "\<exists>eg' ht'. del_cell eg ht idx = Inr (eg', ht') \<and> ht_inv ht' \<and> only_cell idx ht ht' \<and>
    ht_entries ht' = AList.delete (raw_key (cell_key ht idx)) (ht_entries ht)"
proof (cases "ht_packed ht")
  case True
  obtain eg' ht' where r: "zend_hash_packed_del_val' eg ht idx = (eg', ht')" by fastforce
  have "arPacked ht ! idx \<noteq> IS_UNDEF" using i True by (simp add: cell_val_def)
  from packed_del_val_ok [OF inv True i(1) this r] only_cell_packed_del [OF True i(1) r] r True show ?thesis
    by (simp add: del_cell_def raw_key_def cell_key_def)
next
  case False
  have "\<not> ht_uninit ht" using uninit_entries [OF inv] i(1) by auto
  then have sh: "mixed_shape ht" using ht_inv_mixedD [OF inv False] by simp
  have l: "live (arData ht ! idx)" using i False by (simp add: cell_val_def)
  obtain eg' ht' where r: "zend_hash_del_el eg ht idx = Inr (eg', ht')" "ht_inv ht'"
    "ht_entries ht' = AList.delete (bucket_key (arData ht ! idx)) (ht_entries ht)"
    using zend_hash_del_el_ok [OF inv sh i(1) l, of eg] by blast
  obtain prev where p: "find_prev ht idx = Inr prev" using find_prev_ok [OF inv sh i(1) l] by blast
  obtain eg1 ht1 where rk: "release_key eg ht idx = (eg1, ht1)" by fastforce
  have k: "only_cell idx ht ht1" "nNumUsed ht1 = nNumUsed ht" "\<not> ht_packed ht1" using only_cell_release_key [OF rk] False by auto
  have "zend_hash_del_el_ex eg1 ht1 idx prev = (eg', ht')" using r(1) by (simp add: zend_hash_del_el_def p rk)
  then have "only_cell idx ht1 ht'" using only_cell_del_el_ex [OF k(3)] k(2) i(1) by simp
  then have "only_cell idx ht ht'" using only_cell_trans k by blast
  moreover have "raw_key (cell_key ht idx) = bucket_key (arData ht ! idx)"
    using False by (auto simp: raw_key_def cell_key_def bucket_key_def split: option.splits)
  ultimately show ?thesis using r False by (simp add: del_cell_def)
qed

lemma store_cell_ok:
  assumes inv: "ht_inv ht" and i: "idx < nNumUsed ht" "cell_val ht idx \<noteq> IS_UNDEF" and v: "v \<noteq> IS_UNDEF"
  shows "ht_inv (snd (store (cell_loc ht idx) v eg ht))"
    "ht_entries (snd (store (cell_loc ht idx) v eg ht)) = AList.update (raw_key (cell_key ht idx)) v (ht_entries ht)"
proof -
  let ?t = "snd (store (cell_loc ht idx) v eg ht)"
  have "ht_inv ?t \<and> ht_entries ?t = AList.update (raw_key (cell_key ht idx)) v (ht_entries ht)"
  proof (cases "ht_packed ht")
    case True
    then show ?thesis using store_packed_ok [OF inv True i(1) _ v, of eg] i
      by (simp add: cell_loc_def cell_val_def cell_key_def raw_key_def)
  next
    case False
    then have "raw_key (cell_key ht idx) = bucket_key (arData ht ! idx)"
      by (auto simp: raw_key_def cell_key_def bucket_key_def split: option.splits)
    then show ?thesis using store_data_ok [OF inv _ _ v, of idx eg] i False
      by (simp add: cell_loc_def cell_val_def data_used_def)
  qed
  then show "ht_inv ?t" "ht_entries ?t = AList.update (raw_key (cell_key ht idx)) v (ht_entries ht)" by auto
qed

lemma store_cell_frame:
  assumes inv: "ht_inv ht" and i: "idx < nNumUsed ht"
  shows "nNumUsed (snd (store (cell_loc ht idx) v eg ht)) = nNumUsed ht"
    "cell_key (snd (store (cell_loc ht idx) v eg ht)) idx = cell_key ht idx"
    "cell_val (snd (store (cell_loc ht idx) v eg ht)) idx = v"
proof -
  have l: "if ht_packed ht then idx < length (arPacked ht) else idx < length (arData ht)"
    using inv i by (auto simp: ht_inv_def packed_shape_def mixed_shape_def uninit_shape_def)
  then show "nNumUsed (snd (store (cell_loc ht idx) v eg ht)) = nNumUsed ht"
    "cell_key (snd (store (cell_loc ht idx) v eg ht)) idx = cell_key ht idx"
    "cell_val (snd (store (cell_loc ht idx) v eg ht)) idx = v"
    by (simp_all add: store_def cell_loc_def cell_key_def cell_val_def split: if_splits)
qed

lemma alist_middle:
  assumes "distinct (map fst (A @ (k, v) # B))"
  shows "AList.delete k (A @ (k, v) # B) = A @ B" "AList.update k w (A @ (k, v) # B) = A @ (k, w) # B"
  using assms by (induction A) (auto simp: delete_absent map_of_eq_None_iff)

lemma cell_middle:
  assumes inv: "ht_inv ht" and i: "idx < nNumUsed ht" "cell_val ht idx \<noteq> IS_UNDEF"
    and e: "ht_entries ht = A @ (raw_key (cell_key ht idx), cell_val ht idx) # B"
  shows "\<exists>eg' ht'. del_cell eg ht idx = Inr (eg', ht') \<and> ht_inv ht' \<and> only_cell idx ht ht' \<and> ht_entries ht' = A @ B"
    "v \<noteq> IS_UNDEF \<Longrightarrow> ht_entries (snd (store (cell_loc ht idx) v eg ht)) = A @ (raw_key (cell_key ht idx), v) # B"
proof -
  have d: "distinct (map fst (ht_entries ht))" using ht_inv_content [OF inv] by (simp add: content_ok_def)
  note m = alist_middle [OF d [unfolded e]]
  show "\<exists>eg' ht'. del_cell eg ht idx = Inr (eg', ht') \<and> ht_inv ht' \<and> only_cell idx ht ht' \<and> ht_entries ht' = A @ B"
    using del_cell_ok [OF inv i, of eg] unfolding e m .
  show "ht_entries (snd (store (cell_loc ht idx) v eg ht)) = A @ (raw_key (cell_key ht idx), v) # B" if "v \<noteq> IS_UNDEF"
    using store_cell_ok(2) [OF inv i that, of eg] unfolding e m .
qed

section \<open>Applying a function\<close>

text \<open>The reference: the callback runs over the elements in order until it asks to stop.\<close>

fun apply_cells :: "'s apply_func \<Rightarrow> 's \<Rightarrow> ((u64 \<times> zend_string option) \<times> zval) list \<Rightarrow> 's \<times> (hkey \<times> zval) list" where
  "apply_cells f s [] = (s, [])"
| "apply_cells f s ((k, v) # cs) =
     (case f s k v of (s, w, remove, stop) \<Rightarrow>
        (case (if stop then (s, cell_entries cs) else apply_cells f s cs) of (s, es) \<Rightarrow>
           (s, if remove then es else (raw_key k, w) # es)))"

definition keeps_values :: "'s apply_func \<Rightarrow> bool" where
  "keeps_values f \<longleftrightarrow> (\<forall>s k v. v \<noteq> IS_UNDEF \<longrightarrow> fst (snd (f s k v)) \<noteq> IS_UNDEF)"

lemma apply_step_ok:
  assumes inv: "ht_inv ht" and i: "idx < nNumUsed ht" "cell_val ht idx \<noteq> IS_UNDEF"
    and e: "ht_entries ht = A @ (raw_key (cell_key ht idx), cell_val ht idx) # B"
    and f: "f s (cell_key ht idx) (cell_val ht idx) = (s', w, remove, stop)" "w \<noteq> IS_UNDEF"
  shows "\<exists>eg' ht'. apply_step f idx s eg ht = Inr (stop, s', eg', ht') \<and> ht_inv ht' \<and> only_cell idx ht ht' \<and>
    ht_entries ht' = A @ (if remove then [] else [(raw_key (cell_key ht idx), w)]) @ B"
proof -
  obtain eg1 ht1 where st: "store (cell_loc ht idx) w eg ht = (eg1, ht1)" by fastforce
  then have 1: "ht_inv ht1" "ht_entries ht1 = A @ (raw_key (cell_key ht idx), w) # B" "only_cell idx ht ht1"
    using store_cell_ok(1) [OF inv i f(2), of eg] cell_middle(2) [OF inv i e f(2), of eg] only_cell_store [of idx ht w eg] by auto
  have fr: "nNumUsed ht1 = nNumUsed ht" "cell_key ht1 idx = cell_key ht idx"
    using store_cell_frame(1,2) [OF inv i(1), of w eg] by (simp_all add: st)
  show ?thesis
  proof (cases remove)
    case False
    then show ?thesis using 1 by (simp add: apply_step_def f(1) st)
  next
    case True
    have lv: "cell_val ht1 idx = w" using store_cell_frame(3) [OF inv i(1), of w eg] by (simp add: st)
    with fr 1(2) have "ht_entries ht1 = A @ (raw_key (cell_key ht1 idx), cell_val ht1 idx) # B" by simp
    from cell_middle(1) [OF 1(1) _ _ this, of eg1] obtain eg2 ht2 where d: "del_cell eg1 ht1 idx = Inr (eg2, ht2)"
      "ht_inv ht2" "only_cell idx ht1 ht2" "ht_entries ht2 = A @ B" using fr(1) i(1) lv f(2) by auto
    then show ?thesis using True only_cell_trans [OF 1(3) d(3) fr(1)] by (simp add: apply_step_def f(1) st)
  qed
qed


text \<open>
  The loop at position \<open>i\<close>: what it has passed is \<open>A\<close>, what is ahead are the live cells from \<open>i\<close> on.  The
  used part can only shrink when the last cell goes, and then the loop is done.
\<close>

lemma apply_loop_ok:
  assumes f: "keeps_values f"
  shows "ht_inv ht \<Longrightarrow> i \<le> n \<Longrightarrow> (i < n \<Longrightarrow> nNumUsed ht = n) \<Longrightarrow> ht_entries ht = A @ cell_entries (cells ht [i ..< n]) \<Longrightarrow>
    \<exists>eg' ht'. apply_loop f [i ..< n] s eg ht = Inr (fst (apply_cells f s (cells ht [i ..< n])), eg', ht') \<and> ht_inv ht' \<and>
      ht_entries ht' = A @ snd (apply_cells f s (cells ht [i ..< n]))"
proof (induction "n - i" arbitrary: i s eg ht A)
  case 0
  then show ?case by simp
next
  case (Suc m)
  then have i: "i < n" "nNumUsed ht = n" and m: "m = n - Suc i" by auto
  have u: "[i ..< n] = i # [Suc i ..< n]" using i by (simp add: upt_conv_Cons)
  show ?case
  proof (cases "cell_val ht i = IS_UNDEF")
    case True
    then show ?thesis using Suc.hyps(1) [OF m Suc.prems(1), of A s eg] Suc.prems(4) i by (simp add: u)
  next
    case False
    let ?B = "cell_entries (cells ht [Suc i ..< n])" and ?k = "cell_key ht i"
    obtain s' w remove stop where r: "f s ?k (cell_val ht i) = (s', w, remove, stop)" by (metis prod_cases4)
    then have w: "w \<noteq> IS_UNDEF" using f False unfolding keeps_values_def by (metis fst_conv snd_conv)
    have "ht_entries ht = A @ (raw_key ?k, cell_val ht i) # ?B" using Suc.prems(4) False by (simp add: u)
    from apply_step_ok [where f = f and s = s, OF Suc.prems(1) _ False this r w, of eg] i obtain eg' ht' where st:
      "apply_step f i s eg ht = Inr (stop, s', eg', ht')" "ht_inv ht'" "only_cell i ht ht'"
      "ht_entries ht' = A @ (if remove then [] else [(raw_key ?k, w)]) @ ?B" by auto
    have B: "cells ht' [Suc i ..< n] = cells ht [Suc i ..< n]" using st(3) by (intro cells_cong) (auto simp: only_cell_def)
    have n': "Suc i < n \<Longrightarrow> nNumUsed ht' = n" using st(3) i(2) unfolding only_cell_def by (metis le_neq_implies_less less_irrefl)
    show ?thesis
    proof (cases stop)
      case True
      then show ?thesis using st False i r by (auto simp: u)
    next
      case nostop: False
      let ?A = "A @ (if remove then [] else [(raw_key ?k, w)])"
      from Suc.hyps(1) [OF m st(2) _ n', of ?A s' eg'] i st(4) B
      obtain eg2 ht2 where "apply_loop f [Suc i ..< n] s' eg' ht' = Inr (fst (apply_cells f s' (cells ht [Suc i ..< n])), eg2, ht2)"
        "ht_inv ht2" "ht_entries ht2 = ?A @ snd (apply_cells f s' (cells ht [Suc i ..< n]))" by auto
      then show ?thesis using st(1) False i r nostop
        by (cases "apply_cells f s' (cells ht [Suc i ..< n])") (simp add: u)
    qed
  qed
qed

lemma apply_with_arguments_ok:
  assumes "ht_inv ht" "keeps_values f"
  shows "\<exists>eg' ht'. zend_hash_apply_with_arguments f s eg ht = Inr (fst (apply_cells f s (cells ht [0 ..< nNumUsed ht])), eg', ht') \<and>
    ht_inv ht' \<and> ht_entries ht' = snd (apply_cells f s (cells ht [0 ..< nNumUsed ht]))"
  using apply_loop_ok [OF assms(2,1), of 0 "nNumUsed ht" "[]" s eg] ht_entries_cells [OF assms(1) refl]
  by (simp add: zend_hash_apply_with_arguments_def)

text \<open>Without the key, the run is one over the values.\<close>

fun apply_entries :: "('s \<Rightarrow> zval \<Rightarrow> 's \<times> zval \<times> bool \<times> bool) \<Rightarrow> 's \<Rightarrow> (hkey \<times> zval) list \<Rightarrow> 's \<times> (hkey \<times> zval) list" where
  "apply_entries f s [] = (s, [])"
| "apply_entries f s ((k, v) # es) =
     (case f s v of (s, w, remove, stop) \<Rightarrow>
        (case (if stop then (s, es) else apply_entries f s es) of (s, es) \<Rightarrow> (s, if remove then es else (k, w) # es)))"

lemma apply_cells_entries: "apply_cells (\<lambda>s k v. f s v) s cs = apply_entries f s (cell_entries cs)"
  by (induction cs arbitrary: s) (auto split: prod.splits)

lemma apply_ok:
  assumes "ht_inv ht" "\<And>s v. v \<noteq> IS_UNDEF \<Longrightarrow> fst (snd (f s v)) \<noteq> IS_UNDEF"
  shows "\<exists>eg' ht'. zend_hash_apply f s eg ht = Inr (fst (apply_entries f s (ht_entries ht)), eg', ht') \<and>
    ht_inv ht' \<and> ht_entries ht' = snd (apply_entries f s (ht_entries ht))"
proof -
  have "keeps_values (\<lambda>s k v. f s v)" using assms(2) by (simp add: keeps_values_def)
  from apply_loop_ok [OF this assms(1), of 0 "nNumUsed ht" "[]" s eg] ht_entries_cells [OF assms(1) refl]
  show ?thesis by (simp add: zend_hash_apply_def apply_cells_entries)
qed

section \<open>Destroying element by element\<close>

lemma graceful_loop_ok:
  "ht_inv ht \<Longrightarrow> i \<le> n \<Longrightarrow> (i < n \<Longrightarrow> nNumUsed ht = n) \<Longrightarrow> ht_entries ht = cell_entries (cells ht [i ..< n]) \<Longrightarrow>
   \<exists>eg' ht'. graceful_loop [i ..< n] eg ht = Inr (eg', ht') \<and> ht_inv ht' \<and> ht_entries ht' = []"
proof (induction "n - i" arbitrary: i eg ht)
  case 0
  then show ?case by simp
next
  case (Suc m)
  then have i: "i < n" "nNumUsed ht = n" and m: "m = n - Suc i" by auto
  have u: "[i ..< n] = i # [Suc i ..< n]" using i by (simp add: upt_conv_Cons)
  show ?case
  proof (cases "cell_val ht i = IS_UNDEF")
    case True
    then show ?thesis using Suc.hyps(1) [OF m Suc.prems(1), of eg] Suc.prems(4) i by (simp add: u)
  next
    case False
    have "ht_entries ht = [] @ (raw_key (cell_key ht i), cell_val ht i) # cell_entries (cells ht [Suc i ..< n])"
      using Suc.prems(4) False by (simp add: u)
    from cell_middle(1) [OF Suc.prems(1) _ False this, of eg] i obtain eg' ht' where d:
      "del_cell eg ht i = Inr (eg', ht')" "ht_inv ht'" "only_cell i ht ht'" "ht_entries ht' = cell_entries (cells ht [Suc i ..< n])" by auto
    have B: "cells ht' [Suc i ..< n] = cells ht [Suc i ..< n]" using d(3) by (intro cells_cong) (auto simp: only_cell_def)
    have n': "Suc i < n \<Longrightarrow> nNumUsed ht' = n" using d(3) i(2) unfolding only_cell_def by (metis le_neq_implies_less less_irrefl)
    from Suc.hyps(1) [OF m d(2) _ n', of eg'] d B i False show ?thesis by (simp add: u)
  qed
qed

lemma graceful_reverse_loop_ok:
  "ht_inv ht \<Longrightarrow> (\<And>j. j < i \<Longrightarrow> cell_val ht j \<noteq> IS_UNDEF \<Longrightarrow> j < nNumUsed ht) \<Longrightarrow> ht_entries ht = cell_entries (cells ht [0 ..< i]) \<Longrightarrow>
   \<exists>eg' ht'. graceful_reverse_loop (rev [0 ..< i]) eg ht = Inr (eg', ht') \<and> ht_inv ht' \<and> ht_entries ht' = []"
proof (induction i arbitrary: eg ht)
  case 0
  then show ?case by simp
next
  case (Suc i)
  show ?case
  proof (cases "cell_val ht i = IS_UNDEF")
    case True
    then show ?thesis using Suc.IH [OF Suc.prems(1), of eg] Suc.prems(2,3) by (simp add: less_Suc_eq)
  next
    case False
    have e: "ht_entries ht = cell_entries (cells ht [0 ..< i]) @ (raw_key (cell_key ht i), cell_val ht i) # []"
      using Suc.prems(3) False by simp
    have il: "i < nNumUsed ht" using Suc.prems(2) False by simp
    from cell_middle(1) [OF Suc.prems(1) il False e, of eg] obtain eg' ht' where d:
      "del_cell eg ht i = Inr (eg', ht')" "ht_inv ht'" "only_cell i ht ht'" "ht_entries ht' = cell_entries (cells ht [0 ..< i])" by auto
    have "cells ht' [0 ..< i] = cells ht [0 ..< i]" using d(3) by (intro cells_cong) (auto simp: only_cell_def)
    moreover have "j < nNumUsed ht'" if "j < i" "cell_val ht' j \<noteq> IS_UNDEF" for j
      using d(3) that Suc.prems(2) [of j] unfolding only_cell_def by (metis less_SucI less_irrefl not_le)
    ultimately show ?thesis using Suc.IH [OF d(2), of eg'] d False by simp
  qed
qed

lemma graceful_destroy_ok:
  assumes "ht_inv ht"
  shows "\<exists>eg' ht'. zend_hash_graceful_destroy eg ht = Inr (eg', ht') \<and> ht_inv ht' \<and> ht_entries ht' = []"
    "\<exists>eg' ht'. zend_hash_graceful_reverse_destroy eg ht = Inr (eg', ht') \<and> ht_inv ht' \<and> ht_entries ht' = []"
  using graceful_loop_ok [OF assms, of 0 "nNumUsed ht" eg] graceful_reverse_loop_ok [OF assms, of "nNumUsed ht" eg]
    ht_entries_cells [OF assms refl]
  by (auto simp: zend_hash_graceful_destroy_def zend_hash_graceful_reverse_destroy_def)


end
