(* ===== verification/Hash_Symtable.thy ===== *)
theory Hash_Symtable
  imports Hash_Map Zend_Numeric Hash_Dup_Laws Hash_Apply
begin

text \<open>
  Symbol tables: the functions of zend_hash.h that treat strings of an integer as integer keys, that
  follow indirect values, that store pointers, that append without a search, the list test, and the
  conversions between symbol tables and property tables.
\<close>

section \<open>Looking through indirect values\<close>

text \<open>\<^verbatim>\<open>(zv && Z_TYPE_P(zv) == IS_INDIRECT) ? (slot is defined ? slot : NULL) : zv\<close>\<close>

definition resolve_ind :: "exec_globals \<Rightarrow> hashtable \<Rightarrow> loc option \<Rightarrow> loc option" where
  "resolve_ind eg ht zv = (case zv of
       None \<Rightarrow> None
     | Some l \<Rightarrow> (case loc_val eg ht l of
           IS_INDIRECT a \<Rightarrow> (if indirect eg a \<noteq> IS_UNDEF then Some (LInd a) else None)
         | _ \<Rightarrow> Some l))"

definition defined_ind :: "exec_globals \<Rightarrow> hashtable \<Rightarrow> loc option \<Rightarrow> bool" where
  "defined_ind eg ht zv = (case zv of
       None \<Rightarrow> False
     | Some l \<Rightarrow> (case loc_val eg ht l of IS_INDIRECT a \<Rightarrow> indirect eg a \<noteq> IS_UNDEF | _ \<Rightarrow> True))"

definition zend_hash_find_ex :: "hashtable \<Rightarrow> zend_string \<Rightarrow> bool \<Rightarrow> loc option res" where
  "zend_hash_find_ex ht key known_hash = (if known_hash then zend_hash_find_known_hash ht key else zend_hash_find ht key)"

definition zend_hash_exists :: "hashtable \<Rightarrow> zend_string \<Rightarrow> bool res" where
  "zend_hash_exists ht key = res_bind (zend_hash_find ht key) (\<lambda>zv. Inr (zv \<noteq> None))"

definition zend_hash_str_exists :: "hashtable \<Rightarrow> string \<Rightarrow> bool res" where
  "zend_hash_str_exists ht str = res_bind (zend_hash_str_find ht str) (\<lambda>zv. Inr (zv \<noteq> None))"

definition zend_hash_index_exists :: "hashtable \<Rightarrow> u64 \<Rightarrow> bool res" where
  "zend_hash_index_exists ht h = res_bind (zend_hash_index_find ht h) (\<lambda>zv. Inr (zv \<noteq> None))"

definition zend_hash_find_ind :: "exec_globals \<Rightarrow> hashtable \<Rightarrow> zend_string \<Rightarrow> loc option res" where
  "zend_hash_find_ind eg ht key = res_bind (zend_hash_find ht key) (\<lambda>zv. Inr (resolve_ind eg ht zv))"

definition zend_hash_find_ex_ind :: "exec_globals \<Rightarrow> hashtable \<Rightarrow> zend_string \<Rightarrow> bool \<Rightarrow> loc option res" where
  "zend_hash_find_ex_ind eg ht key known_hash = res_bind (zend_hash_find_ex ht key known_hash) (\<lambda>zv. Inr (resolve_ind eg ht zv))"

definition zend_hash_exists_ind :: "exec_globals \<Rightarrow> hashtable \<Rightarrow> zend_string \<Rightarrow> bool res" where
  "zend_hash_exists_ind eg ht key = res_bind (zend_hash_find ht key) (\<lambda>zv. Inr (defined_ind eg ht zv))"

definition zend_hash_str_find_ind :: "exec_globals \<Rightarrow> hashtable \<Rightarrow> string \<Rightarrow> loc option res" where
  "zend_hash_str_find_ind eg ht str = res_bind (zend_hash_str_find ht str) (\<lambda>zv. Inr (resolve_ind eg ht zv))"

definition zend_hash_str_exists_ind :: "exec_globals \<Rightarrow> hashtable \<Rightarrow> string \<Rightarrow> bool res" where
  "zend_hash_str_exists_ind eg ht str = res_bind (zend_hash_str_find ht str) (\<lambda>zv. Inr (defined_ind eg ht zv))"

section \<open>Symbol tables\<close>

text \<open>A key that is the decimal notation of an integer is that integer.\<close>

definition ZEND_HANDLE_NUMERIC_STR :: "string \<Rightarrow> (u64 \<Rightarrow> 'a res) \<Rightarrow> 'a res \<Rightarrow> 'a res" where
  "ZEND_HANDLE_NUMERIC_STR str by_index by_string =
     res_bind (zend_handle_numeric_str str) (\<lambda>r. case r of Some idx \<Rightarrow> by_index idx | None \<Rightarrow> by_string)"

definition ZEND_HANDLE_NUMERIC :: "zend_string \<Rightarrow> (u64 \<Rightarrow> 'a res) \<Rightarrow> 'a res \<Rightarrow> 'a res" where
  "ZEND_HANDLE_NUMERIC key = ZEND_HANDLE_NUMERIC_STR (ZSTR_VAL key)"

definition zend_symtable_add :: "exec_globals \<Rightarrow> hashtable \<Rightarrow> zend_string \<Rightarrow> zval \<Rightarrow> hash_result" where
  "zend_symtable_add eg ht key pData = ZEND_HANDLE_NUMERIC key (\<lambda>idx. zend_hash_index_add eg ht idx pData)
      (zend_hash_add eg ht key pData)"

definition zend_symtable_add_new :: "exec_globals \<Rightarrow> hashtable \<Rightarrow> zend_string \<Rightarrow> zval \<Rightarrow> hash_result" where
  "zend_symtable_add_new eg ht key pData = ZEND_HANDLE_NUMERIC key (\<lambda>idx. zend_hash_index_add_new eg ht idx pData)
      (zend_hash_add_new eg ht key pData)"

definition zend_symtable_update :: "exec_globals \<Rightarrow> hashtable \<Rightarrow> zend_string \<Rightarrow> zval \<Rightarrow> hash_result" where
  "zend_symtable_update eg ht key pData = ZEND_HANDLE_NUMERIC key (\<lambda>idx. zend_hash_index_update eg ht idx pData)
      (zend_hash_update eg ht key pData)"

definition zend_symtable_update_ind :: "exec_globals \<Rightarrow> hashtable \<Rightarrow> zend_string \<Rightarrow> zval \<Rightarrow> hash_result" where
  "zend_symtable_update_ind eg ht key pData = ZEND_HANDLE_NUMERIC key (\<lambda>idx. zend_hash_index_update eg ht idx pData)
      (zend_hash_update_ind eg ht key pData)"

definition zend_symtable_del :: "exec_globals \<Rightarrow> hashtable \<Rightarrow> zend_string \<Rightarrow> del_result" where
  "zend_symtable_del eg ht key = ZEND_HANDLE_NUMERIC key (\<lambda>idx. zend_hash_index_del eg ht idx)
      (zend_hash_del eg ht key)"

definition zend_symtable_del_ind :: "exec_globals \<Rightarrow> hashtable \<Rightarrow> zend_string \<Rightarrow> del_result" where
  "zend_symtable_del_ind eg ht key = ZEND_HANDLE_NUMERIC key (\<lambda>idx. zend_hash_index_del eg ht idx)
      (zend_hash_del_ind eg ht key)"

definition zend_symtable_find :: "hashtable \<Rightarrow> zend_string \<Rightarrow> loc option res" where
  "zend_symtable_find ht key = ZEND_HANDLE_NUMERIC key (\<lambda>idx. zend_hash_index_find ht idx)
      (zend_hash_find ht key)"

definition zend_symtable_find_ind :: "exec_globals \<Rightarrow> hashtable \<Rightarrow> zend_string \<Rightarrow> loc option res" where
  "zend_symtable_find_ind eg ht key = ZEND_HANDLE_NUMERIC key (\<lambda>idx. zend_hash_index_find ht idx)
      (zend_hash_find_ind eg ht key)"

definition zend_symtable_exists :: "hashtable \<Rightarrow> zend_string \<Rightarrow> bool res" where
  "zend_symtable_exists ht key = ZEND_HANDLE_NUMERIC key (\<lambda>idx. zend_hash_index_exists ht idx)
      (zend_hash_exists ht key)"

definition zend_symtable_exists_ind :: "exec_globals \<Rightarrow> hashtable \<Rightarrow> zend_string \<Rightarrow> bool res" where
  "zend_symtable_exists_ind eg ht key = ZEND_HANDLE_NUMERIC key (\<lambda>idx. zend_hash_index_exists ht idx)
      (zend_hash_exists_ind eg ht key)"

definition zend_symtable_str_update :: "exec_globals \<Rightarrow> hashtable \<Rightarrow> string \<Rightarrow> zval \<Rightarrow> hash_result" where
  "zend_symtable_str_update eg ht str pData = ZEND_HANDLE_NUMERIC_STR str (\<lambda>idx. zend_hash_index_update eg ht idx pData)
      (zend_hash_str_update eg ht str pData)"

definition zend_symtable_str_update_ind :: "exec_globals \<Rightarrow> hashtable \<Rightarrow> string \<Rightarrow> zval \<Rightarrow> hash_result" where
  "zend_symtable_str_update_ind eg ht str pData = ZEND_HANDLE_NUMERIC_STR str (\<lambda>idx. zend_hash_index_update eg ht idx pData)
      (zend_hash_str_update_ind eg ht str pData)"

definition zend_symtable_str_del :: "exec_globals \<Rightarrow> hashtable \<Rightarrow> string \<Rightarrow> del_result" where
  "zend_symtable_str_del eg ht str = ZEND_HANDLE_NUMERIC_STR str (\<lambda>idx. zend_hash_index_del eg ht idx)
      (zend_hash_str_del eg ht str)"

definition zend_symtable_str_del_ind :: "exec_globals \<Rightarrow> hashtable \<Rightarrow> string \<Rightarrow> del_result" where
  "zend_symtable_str_del_ind eg ht str = ZEND_HANDLE_NUMERIC_STR str (\<lambda>idx. zend_hash_index_del eg ht idx)
      (zend_hash_str_del_ind eg ht str)"

definition zend_symtable_str_find :: "hashtable \<Rightarrow> string \<Rightarrow> loc option res" where
  "zend_symtable_str_find ht str = ZEND_HANDLE_NUMERIC_STR str (\<lambda>idx. zend_hash_index_find ht idx)
      (zend_hash_str_find ht str)"

definition zend_symtable_str_exists :: "hashtable \<Rightarrow> string \<Rightarrow> bool res" where
  "zend_symtable_str_exists ht str = ZEND_HANDLE_NUMERIC_STR str (\<lambda>idx. zend_hash_index_exists ht idx)
      (zend_hash_str_exists ht str)"

section \<open>Pointers as values\<close>

text \<open>
  \<^verbatim>\<open>Z_PTR\<close> of the stored value.  The tables that use these functions hold only pointers; another value
  fails here.
\<close>

type_synonym ptr_result = "(nat option \<times> exec_globals \<times> hashtable) res"

definition Z_PTR :: "zval \<Rightarrow> nat res" where
  "Z_PTR v = (case v of IS_PTR p \<Rightarrow> Inr p | _ \<Rightarrow> Inl Null_Deref)"

definition found_ptr :: "exec_globals \<Rightarrow> hashtable \<Rightarrow> loc option res \<Rightarrow> nat option res" where
  "found_ptr eg ht r = res_bind r (\<lambda>zv. case zv of
       Some l \<Rightarrow> res_bind (Z_PTR (loc_val eg ht l)) (\<lambda>p. Inr (Some p))
     | None \<Rightarrow> Inr None)"

definition stored_ptr :: "hash_result \<Rightarrow> ptr_result" where
  "stored_ptr r = res_bind r (\<lambda>(zv, eg, ht). case zv of
       Some l \<Rightarrow> res_bind (Z_PTR (loc_val eg ht l)) (\<lambda>p. Inr (Some p, eg, ht))
     | None \<Rightarrow> Inr (None, eg, ht))"

definition zend_hash_add_ptr :: "exec_globals \<Rightarrow> hashtable \<Rightarrow> zend_string \<Rightarrow> nat \<Rightarrow> ptr_result" where
  "zend_hash_add_ptr eg ht key p = stored_ptr (zend_hash_add eg ht key (IS_PTR p))"

definition zend_hash_add_new_ptr :: "exec_globals \<Rightarrow> hashtable \<Rightarrow> zend_string \<Rightarrow> nat \<Rightarrow> ptr_result" where
  "zend_hash_add_new_ptr eg ht key p = stored_ptr (zend_hash_add_new eg ht key (IS_PTR p))"

definition zend_hash_str_add_ptr :: "exec_globals \<Rightarrow> hashtable \<Rightarrow> string \<Rightarrow> nat \<Rightarrow> ptr_result" where
  "zend_hash_str_add_ptr eg ht str p = stored_ptr (zend_hash_str_add eg ht str (IS_PTR p))"

definition zend_hash_str_add_new_ptr :: "exec_globals \<Rightarrow> hashtable \<Rightarrow> string \<Rightarrow> nat \<Rightarrow> ptr_result" where
  "zend_hash_str_add_new_ptr eg ht str p = stored_ptr (zend_hash_str_add_new eg ht str (IS_PTR p))"

definition zend_hash_update_ptr :: "exec_globals \<Rightarrow> hashtable \<Rightarrow> zend_string \<Rightarrow> nat \<Rightarrow> ptr_result" where
  "zend_hash_update_ptr eg ht key p = stored_ptr (zend_hash_update eg ht key (IS_PTR p))"

definition zend_hash_str_update_ptr :: "exec_globals \<Rightarrow> hashtable \<Rightarrow> string \<Rightarrow> nat \<Rightarrow> ptr_result" where
  "zend_hash_str_update_ptr eg ht str p = stored_ptr (zend_hash_str_update eg ht str (IS_PTR p))"

definition zend_hash_index_add_ptr :: "exec_globals \<Rightarrow> hashtable \<Rightarrow> u64 \<Rightarrow> nat \<Rightarrow> ptr_result" where
  "zend_hash_index_add_ptr eg ht h p = stored_ptr (zend_hash_index_add eg ht h (IS_PTR p))"

definition zend_hash_index_add_new_ptr :: "exec_globals \<Rightarrow> hashtable \<Rightarrow> u64 \<Rightarrow> nat \<Rightarrow> ptr_result" where
  "zend_hash_index_add_new_ptr eg ht h p = stored_ptr (zend_hash_index_add_new eg ht h (IS_PTR p))"

definition zend_hash_index_update_ptr :: "exec_globals \<Rightarrow> hashtable \<Rightarrow> u64 \<Rightarrow> nat \<Rightarrow> ptr_result" where
  "zend_hash_index_update_ptr eg ht h p = stored_ptr (zend_hash_index_update eg ht h (IS_PTR p))"

definition zend_hash_next_index_insert_ptr :: "exec_globals \<Rightarrow> hashtable \<Rightarrow> nat \<Rightarrow> ptr_result" where
  "zend_hash_next_index_insert_ptr eg ht p = stored_ptr (zend_hash_next_index_insert eg ht (IS_PTR p))"

definition zend_hash_find_ptr :: "exec_globals \<Rightarrow> hashtable \<Rightarrow> zend_string \<Rightarrow> nat option res" where
  "zend_hash_find_ptr eg ht key = found_ptr eg ht (zend_hash_find ht key)"

definition zend_hash_str_find_ptr :: "exec_globals \<Rightarrow> hashtable \<Rightarrow> string \<Rightarrow> nat option res" where
  "zend_hash_str_find_ptr eg ht str = found_ptr eg ht (zend_hash_str_find ht str)"

definition zend_hash_index_find_ptr :: "exec_globals \<Rightarrow> hashtable \<Rightarrow> u64 \<Rightarrow> nat option res" where
  "zend_hash_index_find_ptr eg ht h = found_ptr eg ht (zend_hash_index_find ht h)"

definition zend_hash_find_ex_ptr :: "exec_globals \<Rightarrow> hashtable \<Rightarrow> zend_string \<Rightarrow> bool \<Rightarrow> nat option res" where
  "zend_hash_find_ex_ptr eg ht key known_hash = found_ptr eg ht (zend_hash_find_ex ht key known_hash)"

definition zend_symtable_str_find_ptr :: "exec_globals \<Rightarrow> hashtable \<Rightarrow> string \<Rightarrow> nat option res" where
  "zend_symtable_str_find_ptr eg ht str = ZEND_HANDLE_NUMERIC_STR str (\<lambda>idx. zend_hash_index_find_ptr eg ht idx)
      (zend_hash_str_find_ptr eg ht str)"

definition zend_hash_get_current_data_ptr_ex :: "exec_globals \<Rightarrow> hashtable \<Rightarrow> nat \<Rightarrow> nat option res" where
  "zend_hash_get_current_data_ptr_ex eg ht pos = found_ptr eg ht (Inr (zend_hash_get_current_data_ex ht pos))"

text \<open>\<^verbatim>\<open>ZVAL_DEREF\<close>\<close>

definition ZVAL_DEREF :: "exec_globals \<Rightarrow> zval \<Rightarrow> zval" where
  "ZVAL_DEREF eg v = (case v of IS_REFERENCE r \<Rightarrow> snd (refs eg r) | _ \<Rightarrow> v)"

definition zend_hash_find_deref :: "exec_globals \<Rightarrow> hashtable \<Rightarrow> zend_string \<Rightarrow> zval option res" where
  "zend_hash_find_deref eg ht str = res_bind (zend_hash_find ht str) (\<lambda>zv. Inr (map_option (\<lambda>l. ZVAL_DEREF eg (loc_val eg ht l)) zv))"

definition zend_hash_str_find_deref :: "exec_globals \<Rightarrow> hashtable \<Rightarrow> string \<Rightarrow> zval option res" where
  "zend_hash_str_find_deref eg ht str = res_bind (zend_hash_str_find ht str) (\<lambda>zv. Inr (map_option (\<lambda>l. ZVAL_DEREF eg (loc_val eg ht l)) zv))"

definition zend_hash_index_find_deref :: "exec_globals \<Rightarrow> hashtable \<Rightarrow> u64 \<Rightarrow> zval option res" where
  "zend_hash_index_find_deref eg ht h = res_bind (zend_hash_index_find ht h) (\<lambda>zv. Inr (map_option (\<lambda>l. ZVAL_DEREF eg (loc_val eg ht l)) zv))"

section \<open>Lists\<close>

text \<open>The keys in the order of the loops; a string key or a gap ends the check.\<close>

fun list_keys_from :: "u64 \<Rightarrow> hkey list \<Rightarrow> bool" where
  "list_keys_from expected_idx [] = True"
| "list_keys_from expected_idx (k # ks) =
     (case k of StrKey _ \<Rightarrow> False | IntKey num_idx \<Rightarrow> num_idx = expected_idx \<and> list_keys_from (expected_idx + 1) ks)"

definition zend_array_is_list :: "hashtable \<Rightarrow> bool" where
  "zend_array_is_list array =
     (if nNumOfElements array = 0 then True
      else if ht_packed array \<and> HT_IS_WITHOUT_HOLES array then True
      else list_keys_from 0 (map bucket_key (filter live (ht_buckets array))))"

section \<open>Appending without a search\<close>

text \<open>The caller has made room and knows that the key is new.\<close>

definition zend_hash_append_ex :: "exec_globals \<Rightarrow> hashtable \<Rightarrow> zend_string \<Rightarrow> zval \<Rightarrow> bool \<Rightarrow> loc \<times> exec_globals \<times> hashtable" where
  "zend_hash_append_ex eg ht key zv key_guaranteed_interned =
     (let counted = (\<not> key_guaranteed_interned \<and> \<not> zs_interned key);
          eg = (if counted then zend_string_addref key eg else eg);
          ht' = (if counted then ht\<lparr>ht_static_keys := False\<rparr> else ht)
      in (LData (nNumUsed ht), eg, append_bucket zv (ZSTR_H key) (Some key) ht'))"

definition zend_hash_append :: "exec_globals \<Rightarrow> hashtable \<Rightarrow> zend_string \<Rightarrow> zval \<Rightarrow> loc \<times> exec_globals \<times> hashtable" where
  "zend_hash_append eg ht key zv = zend_hash_append_ex eg ht key zv False"

definition zend_hash_append_ptr_ex :: "exec_globals \<Rightarrow> hashtable \<Rightarrow> zend_string \<Rightarrow> nat \<Rightarrow> bool \<Rightarrow> loc \<times> exec_globals \<times> hashtable" where
  "zend_hash_append_ptr_ex eg ht key p key_guaranteed_interned = zend_hash_append_ex eg ht key (IS_PTR p) key_guaranteed_interned"

definition zend_hash_append_ptr :: "exec_globals \<Rightarrow> hashtable \<Rightarrow> zend_string \<Rightarrow> nat \<Rightarrow> loc \<times> exec_globals \<times> hashtable" where
  "zend_hash_append_ptr eg ht key p = zend_hash_append_ptr_ex eg ht key p False"

definition zend_hash_append_ind :: "exec_globals \<Rightarrow> hashtable \<Rightarrow> zend_string \<Rightarrow> nat \<Rightarrow> exec_globals \<times> hashtable" where
  "zend_hash_append_ind eg ht key a =
     (let eg = (if \<not> zs_interned key then zend_string_addref key eg else eg);
          ht' = (if \<not> zs_interned key then ht\<lparr>ht_static_keys := False\<rparr> else ht)
      in (eg, append_bucket (IS_INDIRECT a) (ZSTR_H key) (Some key) ht'))"


section \<open>Slots and references stay\<close>

lemma rehash_compact_iter_mem: "rehash_compact_iter is j p eg ht = Inr (eg', ht', j') \<Longrightarrow> same_mem eg eg'"
proof (induction "is" arbitrary: j p eg ht)
  case (Cons i "is")
  then show ?case
    using same_mem_trans same_mem_migrate by (auto simp: Let_def res_bind_Inr split: if_splits) blast+
qed simp

lemma rehash_holes_mem: "rehash_holes is eg ht = Inr (eg', ht') \<Longrightarrow> same_mem eg eg'"
  by (induction "is" arbitrary: ht) (auto simp: res_bind_Inr dest: rehash_compact_iter_mem split: if_splits prod.splits)

lemma rehash_mem: "zend_hash_rehash eg ht = Inr (eg', ht') \<Longrightarrow> same_mem eg eg'"
  unfolding zend_hash_rehash_def Let_def
  by (auto simp: res_bind_Inr zend_hash_iterators_update'_def dest: rehash_holes_mem intro: same_mem_trans split: if_splits)

lemma resize_mem: "zend_hash_do_resize eg ht = Inr (eg', ht') \<Longrightarrow> same_mem eg eg'"
  "ZEND_HASH_IF_FULL_DO_RESIZE eg ht = Inr (eg', ht') \<Longrightarrow> same_mem eg eg'"
  "zend_hash_packed_to_hash eg ht = Inr (eg', ht') \<Longrightarrow> same_mem eg eg'"
  by (auto simp: zend_hash_do_resize_def ZEND_HASH_IF_FULL_DO_RESIZE_def resize_mixed_def zend_hash_packed_to_hash_def Let_def
      dest: rehash_mem split: if_splits)

lemma same_mem_call_dtor [simp]: "same_mem eg (call_dtor ht v eg)"
  by (simp add: call_dtor_def)

lemma replace_value_mem: "replace_value l v eg ht = Inr (r, eg', ht') \<Longrightarrow> (\<And>a. l \<noteq> LInd a) \<Longrightarrow> same_mem eg eg'"
  by (cases l) (auto simp: replace_value_def store_def)

lemma add_to_hash_mem: "add_to_hash eg ht key v f = Inr (r, eg', ht') \<Longrightarrow> same_mem eg eg'"
  "index_add_to_hash eg ht h v f = Inr (r, eg', ht') \<Longrightarrow> same_mem eg eg'"
  "add_to_packed eg ht h v f = Inr (r, eg', ht') \<Longrightarrow> same_mem eg eg'"
  by (auto simp: add_to_hash_def index_add_to_hash_def add_to_packed_def Let_def)

lemma update_mem: "zend_hash_update eg ht key v = Inr (r, eg', ht') \<Longrightarrow> same_mem eg eg'"
  unfolding zend_hash_update_def zend_hash_add_or_update_i_def
  by (auto simp: res_bind_Inr update_found_plain no_flag_def split: if_splits option.splits
      dest!: add_to_hash_mem resize_mem replace_value_mem dest: same_mem_trans)

lemma index_update_mem: "zend_hash_index_update eg ht h v = Inr (r, eg', ht') \<Longrightarrow> same_mem eg eg'"
  unfolding zend_hash_index_update_def zend_hash_index_add_or_update_i_def Let_def
  by (auto simp: res_bind_Inr replace_index_def no_flag_def split: if_splits option.splits
      dest!: add_to_hash_mem resize_mem replace_value_mem dest: same_mem_trans)


section \<open>Symbol tables and property tables\<close>

text \<open>
  The result of a conversion: the same table with one more owner, or a new one.  The key that
  \<^verbatim>\<open>zend_long_to_str\<close> makes is an interned string for one digit; otherwise its first count is given back
  (\<^verbatim>\<open>zend_string_delref\<close>), so that the count the table adds is the only one.
\<close>

datatype converted = Same_Table | New_Table hashtable

definition long_key :: "u64 \<Rightarrow> exec_globals \<Rightarrow> zend_string \<times> exec_globals" where
  "long_key num eg =
     (if num \<le> 9 then (\<lparr>zs_addr = 0, zs_val = zend_long_to_str num, zs_interned = True\<rparr>, eg)
      else (case zend_string_init (zend_long_to_str num) eg of (s, eg) \<Rightarrow> (s, emit (Key_release s) eg)))"

text \<open>\<^verbatim>\<open>list_value\<close> is the same count and unwrapping as in \<^verbatim>\<open>zend_array_to_list\<close>.\<close>

fun proptable_loop :: "((u64 \<times> zend_string option) \<times> zval) list \<Rightarrow> exec_globals \<Rightarrow> hashtable \<Rightarrow> (exec_globals \<times> hashtable) res" where
  "proptable_loop [] eg new_ht = Inr (eg, new_ht)"
| "proptable_loop (((num_key, str_key), zv) # cs) eg new_ht =
     (case (case str_key of Some s \<Rightarrow> (s, eg) | None \<Rightarrow> long_key num_key eg) of (key, eg) \<Rightarrow>
      case list_value zv eg of (v, eg) \<Rightarrow>
        res_bind (zend_hash_update eg new_ht key v) (\<lambda>(r, eg, new_ht). proptable_loop cs eg new_ht))"

definition zend_symtable_to_proptable :: "nat \<Rightarrow> exec_globals \<Rightarrow> hashtable \<Rightarrow> (exec_globals \<times> converted) res" where
  "zend_symtable_to_proptable addr eg ht =
     (let cs = cells ht [0 ..< nNumUsed ht]
      in if \<not> ht_packed ht \<and> list_all (\<lambda>((num_key, str_key), zv). str_key \<noteq> None) cs then Inr (eg, Same_Table)
         else res_bind (zend_new_array addr (of_nat (nNumOfElements ht))) (\<lambda>new_ht.
                res_bind (proptable_loop cs eg new_ht) (\<lambda>(eg, new_ht). Inr (eg, New_Table new_ht))))"

fun symtable_loop :: "((u64 \<times> zend_string option) \<times> zval) list \<Rightarrow> exec_globals \<Rightarrow> hashtable \<Rightarrow> (exec_globals \<times> hashtable) res" where
  "symtable_loop [] eg new_ht = Inr (eg, new_ht)"
| "symtable_loop (((num_key, str_key), zv) # cs) eg new_ht =
     (let zv = deref_ind eg zv
      in if zv = IS_UNDEF then symtable_loop cs eg new_ht
         else (case list_value zv eg of (v, eg) \<Rightarrow>
           res_bind (case str_key of
               None \<Rightarrow> zend_hash_index_update eg new_ht num_key v
             | Some key \<Rightarrow> ZEND_HANDLE_NUMERIC key (\<lambda>num_key. zend_hash_index_update eg new_ht num_key v)
                 (zend_hash_update eg new_ht key v))
             (\<lambda>(r, eg, new_ht). symtable_loop cs eg new_ht)))"

fun has_numeric_key :: "((u64 \<times> zend_string option) \<times> zval) list \<Rightarrow> bool res" where
  "has_numeric_key [] = Inr False"
| "has_numeric_key (((num_key, str_key), zv) # cs) =
     (case str_key of
        None \<Rightarrow> has_numeric_key cs
      | Some key \<Rightarrow> ZEND_HANDLE_NUMERIC key (\<lambda>_. Inr True) (has_numeric_key cs))"

definition zend_proptable_to_symtable ::
  "nat \<Rightarrow> bool \<Rightarrow> exec_globals \<Rightarrow> hashtable \<Rightarrow> bool \<Rightarrow> (exec_globals \<times> converted) res" where
  "zend_proptable_to_symtable addr immutable eg ht always_duplicate =
     (let cs = cells ht [0 ..< nNumUsed ht]
      in res_bind (if \<not> ht_packed ht then has_numeric_key cs else Inr False) (\<lambda>convert.
           if convert
           then res_bind (zend_new_array addr (of_nat (nNumOfElements ht))) (\<lambda>new_ht.
                  res_bind (symtable_loop cs eg new_ht) (\<lambda>(eg, new_ht). Inr (eg, New_Table new_ht)))
           else if always_duplicate
           then res_bind (zend_array_dup addr immutable eg ht) (\<lambda>(eg, t). Inr (eg, New_Table t))
           else Inr (eg, Same_Table)))"

section \<open>Keys of symbol tables\<close>

text \<open>The key that a string means in a symbol table, and the string of a key in a property table.\<close>

definition sym_key :: "string \<Rightarrow> hkey" where
  "sym_key str = (case zend_handle_numeric_str str of Inr (Some n) \<Rightarrow> IntKey n | _ \<Rightarrow> StrKey str)"

fun norm_key :: "hkey \<Rightarrow> hkey" where
  "norm_key (IntKey n) = IntKey n"
| "norm_key (StrKey s) = sym_key s"

fun prop_key :: "hkey \<Rightarrow> hkey" where
  "prop_key (IntKey n) = StrKey (zend_long_to_str n)"
| "prop_key (StrKey s) = StrKey s"

lemma sym_key_cases:
  obtains n where "zend_handle_numeric_str str = Inr (Some n)" "sym_key str = IntKey n"
  | "zend_handle_numeric_str str = Inr None" "sym_key str = StrKey str"
proof -
  obtain r where "zend_handle_numeric_str str = Inr r" using handle_numeric_returns by blast
  then show thesis using that by (cases r) (auto simp: sym_key_def)
qed

lemma sym_key_long: "sym_key (zend_long_to_str n) = IntKey n"
proof -
  have "zend_handle_numeric_str (zend_long_to_str n) = Inr (Some n)" by (simp add: handle_numeric_iff)
  then show ?thesis by (simp add: sym_key_def)
qed

lemma norm_prop_key: "norm_key k = k \<Longrightarrow> norm_key (prop_key k) = k"
  by (cases k) (simp_all add: sym_key_long)

lemma sym_key_string: "sym_key s = StrKey t \<Longrightarrow> s = t"
  by (rule sym_key_cases [of s]) auto

lemma norm_norm_key [simp]: "norm_key (norm_key k) = norm_key k"
proof (cases k)
  case (StrKey s)
  then show ?thesis by (cases "sym_key s") (auto dest: sym_key_string)
qed simp

lemma handle_numeric_cases:
  "ZEND_HANDLE_NUMERIC_STR str f g = (case sym_key str of IntKey n \<Rightarrow> f n | StrKey _ \<Rightarrow> g)"
  by (rule sym_key_cases [of str]) (simp_all add: ZEND_HANDLE_NUMERIC_STR_def)

text \<open>The operations on a symbol table are those of the map at the key that the string means.\<close>

lemma symtable_find_ok:
  assumes "ht_inv ht"
  shows "\<exists>r. zend_symtable_find ht key = Inr r \<and> map_option (loc_val eg ht) r = map_of (ht_entries ht) (sym_key (zs_val key))"
    "\<exists>r. zend_symtable_str_find ht str = Inr r \<and> map_option (loc_val eg ht) r = map_of (ht_entries ht) (sym_key str)"
  using zend_hash_find_ok [OF assms, of _ eg]
  by (auto simp: zend_symtable_find_def zend_symtable_str_find_def ZEND_HANDLE_NUMERIC_def handle_numeric_cases
      split: hkey.splits dest: sym_key_string)

lemma symtable_update_ok:
  assumes "ht_inv ht" "has_room ht" "nTableSize ht < HT_MAX_SIZE" "v \<noteq> IS_UNDEF"
  shows "updates eg ht (sym_key (zs_val key)) v (zend_symtable_update eg ht key v)"
    "updates eg ht (sym_key str) v (zend_symtable_str_update eg ht str v)"
  using zend_hash_update_ok [OF assms(1,2,4), of eg key] zend_hash_str_update_ok [OF assms(1,2,4), of eg str]
    zend_hash_index_update_ok [OF assms(1,3,4)]
  by (auto simp: zend_symtable_update_def zend_symtable_str_update_def ZEND_HANDLE_NUMERIC_def handle_numeric_cases
      split: hkey.splits dest: sym_key_string)

lemma symtable_del_ok:
  assumes "ht_inv ht"
  shows "deletes ht (sym_key (zs_val key)) (zend_symtable_del eg ht key)"
    "deletes ht (sym_key str) (zend_symtable_str_del eg ht str)"
  using zend_hash_del_ok [OF assms, of key eg] zend_hash_str_del_ok [OF assms, of str eg] zend_hash_index_del_ok [OF assms]
  by (auto simp: zend_symtable_del_def zend_symtable_str_del_def ZEND_HANDLE_NUMERIC_def handle_numeric_cases
      split: hkey.splits dest: sym_key_string)


section \<open>Conversions\<close>

definition unwrap_single :: "exec_globals \<Rightarrow> zval \<Rightarrow> zval" where
  "unwrap_single eg v = (case v of IS_REFERENCE r \<Rightarrow> if fst (refs eg r) = 1 then snd (refs eg r) else v | _ \<Rightarrow> v)"

lemma list_value_eq: "\<exists>eg'. list_value v eg = (unwrap_single eg v, eg') \<and> same_mem eg eg'"
  by (auto simp: list_value_def unwrap_single_def Let_def)

lemma unwrap_single_mem: "same_mem eg eg' \<Longrightarrow> unwrap_single eg' = unwrap_single eg"
  by (intro ext) (auto simp: unwrap_single_def same_mem_def split: zval.splits)

lemma unwrap_single_defined: "refs_ok eg \<Longrightarrow> v \<noteq> IS_UNDEF \<Longrightarrow> unwrap_single eg v \<noteq> IS_UNDEF"
  by (auto simp: unwrap_single_def refs_ok_def split: zval.splits)

lemma long_key_ok: "\<exists>eg' s. long_key n eg = (s, eg') \<and> zs_val s = zend_long_to_str n \<and> same_mem eg eg'"
  by (auto simp: long_key_def zend_string_init_def same_mem_def emit_def)

lemma deref_ind_mem: "same_mem eg eg' \<Longrightarrow> deref_ind eg' = deref_ind eg"
  by (intro ext) (auto simp: deref_ind_def same_mem_def split: zval.splits)

text \<open>A table that is filled with new keys one after the other.\<close>

lemma update_new_key: "k \<notin> fst ` set es \<Longrightarrow> AList.update k v es = es @ [(k, v)]"
  by (induction es) auto

lemma filled_room:
  assumes "table_cap t < HT_MAX_SIZE" "table_cap t' \<le> max (table_cap t) (8 * n)" "8 * n < HT_MAX_SIZE"
  shows "table_cap t' < HT_MAX_SIZE"
  using assms by (auto simp: max_def split: if_splits)

lemma proptable_loop_ok:
  "ht_inv t \<Longrightarrow> table_cap t < HT_MAX_SIZE \<Longrightarrow> 8 * (length (ht_entries t) + length cs) < HT_MAX_SIZE \<Longrightarrow> refs_ok eg \<Longrightarrow>
   \<forall>(k, v) \<in> set cs. v \<noteq> IS_UNDEF \<Longrightarrow>
   distinct (map fst (ht_entries t) @ map (prop_key \<circ> raw_key \<circ> fst) cs) \<Longrightarrow>
   \<exists>eg' t'. proptable_loop cs eg t = Inr (eg', t') \<and> ht_inv t' \<and> same_mem eg eg' \<and>
     ht_entries t' = ht_entries t @ map (\<lambda>(k, v). (prop_key (raw_key k), unwrap_single eg v)) cs"
proof (induction cs arbitrary: eg t)
  case (Cons c cs)
  obtain h sk v where c: "c = ((h, sk), v)" by (metis prod.exhaust)
  obtain key eg1 where k: "(case sk of Some s \<Rightarrow> (s, eg) | None \<Rightarrow> long_key h eg) = (key, eg1)" "same_mem eg eg1"
    "StrKey (zs_val key) = prop_key (raw_key (h, sk))"
    using long_key_ok [of h eg] by (cases sk) (auto simp: raw_key_def)
  obtain eg2 where v: "list_value v eg1 = (unwrap_single eg v, eg2)" "same_mem eg1 eg2"
    using list_value_eq [of v eg1] unwrap_single_mem [OF k(2)] by auto
  have ud: "unwrap_single eg v \<noteq> IS_UNDEF" using unwrap_single_defined Cons.prems(4,5) c by auto
  have room: "has_room t" using cap_room [OF Cons.prems(2)] by simp
  obtain r eg3 t1 where u: "zend_hash_update eg2 t key (unwrap_single eg v) = Inr (r, eg3, t1)" "ht_inv t1"
    "ht_entries t1 = AList.update (prop_key (raw_key (h, sk))) (unwrap_single eg v) (ht_entries t)"
    "table_cap t1 \<le> max (table_cap t) (8 * length (ht_entries t1))"
    using zend_hash_update_ok [OF Cons.prems(1) room ud, of eg2 key] unfolding updates_def k(3) by blast
  have e1: "ht_entries t1 = ht_entries t @ [(prop_key (raw_key (h, sk)), unwrap_single eg v)]"
    unfolding u(3) using Cons.prems(6) c by (intro update_new_key) auto
  have m: "same_mem eg eg3" using k(2) v(2) update_mem [OF u(1)] same_mem_trans by blast
  have "table_cap t1 < HT_MAX_SIZE" using filled_room [OF Cons.prems(2) u(4)] Cons.prems(3) e1 by simp
  then obtain eg4 t2 where "proptable_loop cs eg3 t1 = Inr (eg4, t2)" "ht_inv t2" "same_mem eg3 eg4"
    "ht_entries t2 = ht_entries t1 @ map (\<lambda>(k, v). (prop_key (raw_key k), unwrap_single eg3 v)) cs"
    using Cons.IH [OF u(2), of eg3] Cons.prems(3-6) e1 c refs_ok_mem [OF m] by auto
  then show ?case using c k(1) v(1) u(1) e1 unwrap_single_mem [OF m] same_mem_trans [OF m] by auto
qed simp

lemma symtable_loop_ok:
  "ht_inv t \<Longrightarrow> table_cap t < HT_MAX_SIZE \<Longrightarrow> 8 * (length (ht_entries t) + length cs) < HT_MAX_SIZE \<Longrightarrow> refs_ok eg \<Longrightarrow>
   distinct (map fst (ht_entries t) @ map (norm_key \<circ> raw_key \<circ> fst) cs) \<Longrightarrow>
   \<exists>eg' t'. symtable_loop cs eg t = Inr (eg', t') \<and> ht_inv t' \<and> same_mem eg eg' \<and>
     ht_entries t' = ht_entries t @ map (\<lambda>(k, v). (norm_key (raw_key k), unwrap_single eg (deref_ind eg v)))
       (filter (\<lambda>(k, v). deref_ind eg v \<noteq> IS_UNDEF) cs)"
proof (induction cs arbitrary: eg t)
  case (Cons c cs)
  obtain h sk v where c: "c = ((h, sk), v)" by (metis prod.exhaust)
  show ?case
  proof (cases "deref_ind eg v = IS_UNDEF")
    case True
    then show ?thesis using Cons.IH [OF Cons.prems(1,2) _ Cons.prems(4)] Cons.prems(3,5) c by simp
  next
    case False
    let ?w = "unwrap_single eg (deref_ind eg v)" and ?k = "norm_key (raw_key (h, sk))"
    obtain eg2 where v: "list_value (deref_ind eg v) eg = (?w, eg2)" "same_mem eg eg2" using list_value_eq by blast
    have ud: "?w \<noteq> IS_UNDEF" using unwrap_single_defined Cons.prems(4) False by simp
    let ?s = "case sk of None \<Rightarrow> zend_hash_index_update eg2 t h ?w
             | Some key \<Rightarrow> ZEND_HANDLE_NUMERIC key (\<lambda>n. zend_hash_index_update eg2 t n ?w) (zend_hash_update eg2 t key ?w)"
    have room: "has_room t" "nTableSize t < HT_MAX_SIZE" using cap_room [OF Cons.prems(2)] by auto
    have "updates eg2 t ?k ?w ?s"
      using zend_hash_index_update_ok [OF Cons.prems(1) room(2) ud, of eg2] symtable_update_ok(1) [OF Cons.prems(1) room ud, of eg2]
      by (cases sk) (simp_all add: raw_key_def zend_symtable_update_def)
    then obtain r eg3 t1 where u: "?s = Inr (r, eg3, t1)" "ht_inv t1" "ht_entries t1 = AList.update ?k ?w (ht_entries t)"
      "table_cap t1 \<le> max (table_cap t) (8 * length (ht_entries t1))" unfolding updates_def by blast
    have e1: "ht_entries t1 = ht_entries t @ [(?k, ?w)]" unfolding u(3) using Cons.prems(5) c by (intro update_new_key) auto
    have "same_mem eg2 eg3" using u(1) update_mem index_update_mem
      by (auto simp: ZEND_HANDLE_NUMERIC_def handle_numeric_cases split: option.splits hkey.splits)
    then have m: "same_mem eg eg3" using v(2) same_mem_trans by blast
    have "table_cap t1 < HT_MAX_SIZE" using filled_room [OF Cons.prems(2) u(4)] Cons.prems(3) e1 by simp
    then obtain eg4 t2 where "symtable_loop cs eg3 t1 = Inr (eg4, t2)" "ht_inv t2" "same_mem eg3 eg4"
      "ht_entries t2 = ht_entries t1 @ map (\<lambda>(k, v). (norm_key (raw_key k), unwrap_single eg3 (deref_ind eg3 v)))
         (filter (\<lambda>(k, v). deref_ind eg3 v \<noteq> IS_UNDEF) cs)"
      using Cons.IH [OF u(2), of eg3] Cons.prems(3-5) e1 c refs_ok_mem [OF m] by auto
    then show ?thesis using c v(1) u(1) e1 False unwrap_single_mem [OF m] deref_ind_mem [OF m] same_mem_trans [OF m] by (simp add: Let_def)
  qed
qed simp

lemma new_array_ok:
  assumes "8 * n < HT_MAX_SIZE"
  shows "\<exists>t. zend_new_array addr (of_nat n) = Inr t \<and> ht_inv t \<and> ht_entries t = [] \<and> table_cap t < HT_MAX_SIZE"
proof -
  have u: "unat (of_nat n :: u32) = n" using assms by (simp add: unat_of_nat HT_MAX_SIZE_def)
  obtain t where t: "zend_new_array addr (of_nat n) = Inr t"
    using check_size_error [of "of_nat n"] u assms
    by (cases "zend_hash_check_size (of_nat n)") (auto simp: zend_new_array_def zend_hash_init_int_def)
  then have i: "zend_hash_init_int addr (of_nat n) True = Inr t" by (simp add: zend_new_array_def)
  note ok = zend_hash_init_int_ok [OF i]
  obtain m where m: "zend_hash_check_size (of_nat n) = Inr m" "nTableSize t = m"
    using i by (auto simp: zend_hash_init_int_def res_bind_Inr)
  have "2 * m < HT_MAX_SIZE" using check_size_ok(3) [OF m(1)] u assms by (auto simp: HT_MIN_SIZE_def HT_MAX_SIZE_def)
  then have "table_cap t < HT_MAX_SIZE" using m(2) by (simp add: table_cap_def)
  with t ok show ?thesis by blast
qed


text \<open>A conversion of a table, seen from outside: the table that its caller holds afterwards.\<close>

definition converted_table :: "hashtable \<Rightarrow> converted \<Rightarrow> hashtable" where
  "converted_table ht c = (case c of Same_Table \<Rightarrow> ht | New_Table t \<Rightarrow> t)"

lemma converted_table_simps [simp]: "converted_table ht Same_Table = ht" "converted_table ht (New_Table t) = t"
  by (simp_all add: converted_table_def)

definition symbol_keys :: "hashtable \<Rightarrow> bool" where
  "symbol_keys ht \<longleftrightarrow> list_all (\<lambda>(k, v). norm_key k = k) (ht_entries ht)"

fun is_string_key :: "hkey \<Rightarrow> bool" where
  "is_string_key (StrKey s) = True"
| "is_string_key (IntKey n) = False"

lemma prop_key_string [simp]: "is_string_key (prop_key k)"
  by (cases k) auto

lemma prop_key_id: "is_string_key k \<Longrightarrow> prop_key k = k"
  by (cases k) auto

lemma prop_key_inj: "norm_key k = k \<Longrightarrow> norm_key l = l \<Longrightarrow> prop_key k = prop_key l \<Longrightarrow> k = l"
  using norm_prop_key by metis

lemma norm_int_key: "\<not> is_string_key k \<Longrightarrow> norm_key k = k"
  by (cases k) auto

lemma distinct_keys_map:
  assumes "distinct (map fst es)" "\<And>e e'. e \<in> set es \<Longrightarrow> e' \<in> set es \<Longrightarrow> f (fst e) = f (fst e') \<Longrightarrow> fst e = fst e'"
  shows "distinct (map (f \<circ> fst) es)"
proof -
  have "inj_on f (fst ` set es)" using assms(2) by (auto simp: inj_on_def)
  then show ?thesis using assms(1) by (simp add: distinct_map comp_inj_on flip: map_map)
qed

lemma cells_defined: "\<forall>(k, v) \<in> set (cells ht is). v \<noteq> IS_UNDEF"
  by (auto simp: cells_def)

lemma entries_cells: "ht_inv ht \<Longrightarrow> cell_entries (cells ht [0 ..< nNumUsed ht]) = ht_entries ht"
  using ht_entries_cells by simp

lemma entries_distinct: "ht_inv ht \<Longrightarrow> distinct (map fst (ht_entries ht))"
  and entries_number: "ht_inv ht \<Longrightarrow> nNumOfElements ht = length (ht_entries ht)"
  using ht_inv_content by (auto simp: content_ok_def)

lemma packed_keys: "ht_packed ht \<Longrightarrow> e \<in> set (ht_entries ht) \<Longrightarrow> \<not> is_string_key (fst e)"
  by (auto simp: ht_entries_def entries_def ht_buckets_def bucket_key_def packed_bucket_def)

lemma keys_cells: "ht_inv ht \<Longrightarrow> map (f \<circ> raw_key \<circ> fst) (cells ht [0 ..< nNumUsed ht]) = map (f \<circ> fst) (ht_entries ht)"
  by (simp flip: entries_cells add: case_prod_beta comp_def)

lemma length_cells: "ht_inv ht \<Longrightarrow> length (cells ht [0 ..< nNumUsed ht]) = length (ht_entries ht)"
  by (simp flip: entries_cells)

lemma raw_key_string: "is_string_key (raw_key k) = (snd k \<noteq> None)"
  by (cases k) (auto simp: raw_key_def split: option.splits)

text \<open>A symbol table becomes a property table: the same order, every key as its string.\<close>

lemma to_proptable_ok:
  assumes inv: "ht_inv ht" and rf: "refs_ok eg" and sk: "symbol_keys ht" and n: "8 * length (ht_entries ht) < HT_MAX_SIZE"
  shows "\<exists>eg' c. zend_symtable_to_proptable addr eg ht = Inr (eg', c) \<and> same_mem eg eg' \<and> ht_inv (converted_table ht c) \<and>
    (case c of Same_Table \<Rightarrow> list_all (\<lambda>(k, v). is_string_key k) (ht_entries ht)
     | New_Table t \<Rightarrow> ht_entries t = map (\<lambda>(k, v). (prop_key k, unwrap_single eg v)) (ht_entries ht))"
proof (cases "\<not> ht_packed ht \<and> list_all (\<lambda>((num_key, str_key), zv). str_key \<noteq> None) (cells ht [0 ..< nNumUsed ht])")
  case True
  then have "list_all (\<lambda>(k, v). is_string_key k) (ht_entries ht)"
    by (auto simp: entries_cells [OF inv, symmetric] list_all_iff raw_key_string)
  then show ?thesis using True inv by (simp add: zend_symtable_to_proptable_def)
next
  case False
  let ?cs = "cells ht [0 ..< nNumUsed ht]"
  obtain t where t: "zend_new_array addr (of_nat (nNumOfElements ht)) = Inr t" "ht_inv t" "ht_entries t = []" "table_cap t < HT_MAX_SIZE"
    using new_array_ok [OF n, of addr] entries_number [OF inv] by auto
  have "distinct (map (prop_key \<circ> fst) (ht_entries ht))"
  proof (rule distinct_keys_map [OF entries_distinct [OF inv]])
    fix e e' assume "e \<in> set (ht_entries ht)" "e' \<in> set (ht_entries ht)" and p: "prop_key (fst e) = prop_key (fst e')"
    then have "norm_key (fst e) = fst e" "norm_key (fst e') = fst e'" using sk by (auto simp: symbol_keys_def list_all_iff)
    from prop_key_inj [OF this p] show "fst e = fst e'" .
  qed
  then have d: "distinct (map fst (ht_entries t) @ map (prop_key \<circ> raw_key \<circ> fst) ?cs)" unfolding keys_cells [OF inv] t(3) by simp
  obtain eg' t' where "proptable_loop ?cs eg t = Inr (eg', t')" "ht_inv t'" "same_mem eg eg'"
    "ht_entries t' = map (\<lambda>(k, v). (prop_key (raw_key k), unwrap_single eg v)) ?cs"
    using proptable_loop_ok [OF t(2,4) _ rf cells_defined d] n t(3) length_cells [OF inv] by auto
  moreover from this(4) have "ht_entries t' = map (\<lambda>(k, v). (prop_key k, unwrap_single eg v)) (ht_entries ht)"
    by (simp flip: entries_cells [OF inv] add: case_prod_beta comp_def)
  ultimately show ?thesis using False t(1) by (auto simp: zend_symtable_to_proptable_def Let_def)
qed

text \<open>A property table becomes a symbol table: integer strings become integers, empty slots are dropped.\<close>

lemma has_numeric_key_ok:
  "has_numeric_key cs = Inr (list_ex (\<lambda>(k, v). norm_key (raw_key k) \<noteq> raw_key k) cs)"
proof (induction cs rule: has_numeric_key.induct)
  case (2 num_key str_key zv cs)
  show ?case
  proof (cases str_key)
    case (Some s)
    then show ?thesis using "2.IH"(2) [OF Some]
      by (cases "sym_key (zs_val s)") (auto simp: ZEND_HANDLE_NUMERIC_def handle_numeric_cases raw_key_def dest: sym_key_string)
  qed (use "2.IH"(1) in \<open>simp add: raw_key_def\<close>)
qed simp

definition symbol_entries :: "exec_globals \<Rightarrow> (hkey \<times> zval) list \<Rightarrow> (hkey \<times> zval) list" where
  "symbol_entries eg es = map (\<lambda>(k, v). (norm_key k, unwrap_single eg (deref_ind eg v))) (filter (\<lambda>(k, v). deref_ind eg v \<noteq> IS_UNDEF) es)"

lemma to_symtable_ok:
  assumes inv: "ht_inv ht" and rf: "refs_ok eg" and d: "distinct (map (norm_key \<circ> fst) (ht_entries ht))"
    and n: "8 * length (ht_entries ht) < HT_MAX_SIZE"
  shows "\<exists>eg' c. zend_proptable_to_symtable addr immutable eg ht always_duplicate = Inr (eg', c) \<and> ht_inv (converted_table ht c) \<and>
    (if symbol_keys ht
     then ht_entries (converted_table ht c) = (if always_duplicate \<and> \<not> immutable then dup_entries eg ht else ht_entries ht)
     else ht_entries (converted_table ht c) = symbol_entries eg (ht_entries ht)) \<and>
    (c = Same_Table \<longleftrightarrow> symbol_keys ht \<and> \<not> always_duplicate)"
proof -
  let ?cs = "cells ht [0 ..< nNumUsed ht]"
  have sk: "symbol_keys ht = (\<not> list_ex (\<lambda>(k, v). norm_key (raw_key k) \<noteq> raw_key k) ?cs)"
    by (auto simp: symbol_keys_def entries_cells [OF inv, symmetric] list_all_iff list_ex_iff)
  have pk: "symbol_keys ht" if "ht_packed ht"
    using norm_int_key [OF packed_keys [OF that]] by (auto simp: symbol_keys_def list_all_iff)
  have c: "(if \<not> ht_packed ht then has_numeric_key ?cs else Inr False) = Inr (\<not> symbol_keys ht)"
    using sk pk by (simp add: has_numeric_key_ok)
  show ?thesis
  proof (cases "symbol_keys ht")
    case True
    then show ?thesis using c inv array_dup_ok [OF inv rf, of addr immutable]
      by (auto simp: zend_proptable_to_symtable_def)
  next
    case False
    obtain t where t: "zend_new_array addr (of_nat (nNumOfElements ht)) = Inr t" "ht_inv t" "ht_entries t = []" "table_cap t < HT_MAX_SIZE"
      using new_array_ok [OF n, of addr] entries_number [OF inv] by auto
    have d': "distinct (map fst (ht_entries t) @ map (norm_key \<circ> raw_key \<circ> fst) ?cs)" using d unfolding keys_cells [OF inv] t(3) by simp
    obtain eg' t' where l: "symtable_loop ?cs eg t = Inr (eg', t')" "ht_inv t'"
      "ht_entries t' = map (\<lambda>(k, v). (norm_key (raw_key k), unwrap_single eg (deref_ind eg v))) (filter (\<lambda>(k, v). deref_ind eg v \<noteq> IS_UNDEF) ?cs)"
      using symtable_loop_ok [OF t(2,4) _ rf d'] n t(3) length_cells [OF inv] by auto
    have "ht_entries t' = symbol_entries eg (ht_entries ht)" unfolding l(3) entries_cells [OF inv, symmetric] symbol_entries_def
      by (auto simp: filter_map comp_def intro!: map_cong filter_cong)
    then show ?thesis using False c t(1) l(1,2) by (simp add: zend_proptable_to_symtable_def)
  qed
qed

text \<open>
  There and back again.  The values are those of a symbol table: no indirect slots, and no reference to a
  reference or to a slot.
\<close>

fun settled :: "exec_globals \<Rightarrow> zval \<Rightarrow> bool" where
  "settled eg (IS_INDIRECT a) = False"
| "settled eg (IS_REFERENCE r) = (case snd (refs eg r) of IS_INDIRECT _ \<Rightarrow> False | IS_REFERENCE _ \<Rightarrow> False | IS_UNDEF \<Rightarrow> False | _ \<Rightarrow> True)"
| "settled eg IS_UNDEF = False"
| "settled eg _ = True"

lemma settled_unwrap:
  assumes "settled eg v"
  shows "deref_ind eg (unwrap_single eg v) = unwrap_single eg v" "unwrap_single eg (unwrap_single eg v) = unwrap_single eg v"
    "unwrap_single eg v \<noteq> IS_UNDEF"
  using assms by (cases v; auto simp: unwrap_single_def deref_ind_def split: zval.splits)+

lemma symbol_entries_prop:
  assumes "list_all (\<lambda>(k, v). norm_key k = k \<and> settled eg v) es"
  shows "symbol_entries eg (map (\<lambda>(k, v). (prop_key k, unwrap_single eg v)) es) = map (\<lambda>(k, v). (k, unwrap_single eg v)) es"
  using assms by (induction es) (auto simp: symbol_entries_def settled_unwrap norm_prop_key)

lemma symbol_entries_mem: "same_mem eg eg' \<Longrightarrow> symbol_entries eg' = symbol_entries eg"
  by (intro ext) (simp add: symbol_entries_def unwrap_single_mem deref_ind_mem)

lemma roundtrip_new:
  assumes inv: "ht_inv ht" and t: "ht_inv t" and rf: "refs_ok eg1" and m: "same_mem eg eg1" and n: "8 * length (ht_entries ht) < HT_MAX_SIZE"
    and es: "list_all (\<lambda>(k, v). norm_key k = k \<and> settled eg v) (ht_entries ht)"
    and e: "ht_entries t = map (\<lambda>(k, v). (prop_key k, unwrap_single eg v)) (ht_entries ht)"
  shows "\<exists>eg2 c2. zend_proptable_to_symtable addr immutable eg1 t False = Inr (eg2, c2) \<and> ht_inv (converted_table t c2) \<and>
    ht_entries (converted_table t c2) = map (\<lambda>(k, v). (k, unwrap_single eg v)) (ht_entries ht)"
proof -
  have k: "map (norm_key \<circ> fst) (ht_entries t) = map fst (ht_entries ht)" unfolding e using es norm_prop_key by (auto simp: list_all_iff)
  have se: "symbol_entries eg1 (ht_entries t) = map (\<lambda>(k, v). (k, unwrap_single eg v)) (ht_entries ht)"
    using symbol_entries_prop [OF es] e symbol_entries_mem [OF m] by simp
  have "distinct (map (norm_key \<circ> fst) (ht_entries t))" unfolding k using entries_distinct [OF inv] .
  from to_symtable_ok [OF t rf this, of addr immutable False] e n
  obtain eg2 c2 where c2: "zend_proptable_to_symtable addr immutable eg1 t False = Inr (eg2, c2)" "ht_inv (converted_table t c2)"
    "if symbol_keys t then ht_entries (converted_table t c2) = ht_entries t
      else ht_entries (converted_table t c2) = symbol_entries eg1 (ht_entries t)" by auto
  have "ht_entries t = symbol_entries eg1 (ht_entries t)" if "symbol_keys t"
  proof -
    have "prop_key k = k" if "(k, v) \<in> set (ht_entries ht)" for k v
    proof -
      have "norm_key (prop_key k) = prop_key k" "norm_key k = k"
        using \<open>symbol_keys t\<close> es that unfolding symbol_keys_def e by (auto simp: list_all_iff)
      then show ?thesis using norm_prop_key by simp
    qed
    then show ?thesis unfolding se unfolding e by auto
  qed
  then show ?thesis using c2 se by (auto split: if_splits)
qed

lemma proptable_roundtrip_ok:
  assumes inv: "ht_inv ht" and rf: "refs_ok eg" and n: "8 * length (ht_entries ht) < HT_MAX_SIZE"
    and es: "list_all (\<lambda>(k, v). norm_key k = k \<and> settled eg v) (ht_entries ht)"
  shows "\<exists>eg1 c1 eg2 c2. zend_symtable_to_proptable addr eg ht = Inr (eg1, c1) \<and>
    map fst (ht_entries (converted_table ht c1)) = map (prop_key \<circ> fst) (ht_entries ht) \<and>
    zend_proptable_to_symtable addr2 immutable eg1 (converted_table ht c1) False = Inr (eg2, c2) \<and>
    ht_inv (converted_table (converted_table ht c1) c2) \<and>
    ht_entries (converted_table (converted_table ht c1) c2) =
      (if c1 = Same_Table then ht_entries ht else map (\<lambda>(k, v). (k, unwrap_single eg v)) (ht_entries ht))"
proof -
  have sk: "symbol_keys ht" using es by (auto simp: symbol_keys_def list_all_iff)
  from to_proptable_ok [OF inv rf sk n, of addr] obtain eg1 c1 where p: "zend_symtable_to_proptable addr eg ht = Inr (eg1, c1)"
    and m: "same_mem eg eg1" and i1: "ht_inv (converted_table ht c1)"
    and c: "case c1 of Same_Table \<Rightarrow> list_all (\<lambda>(k, v). is_string_key k) (ht_entries ht)
     | New_Table t \<Rightarrow> ht_entries t = map (\<lambda>(k, v). (prop_key k, unwrap_single eg v)) (ht_entries ht)" by blast
  have r1: "refs_ok eg1" using refs_ok_mem [OF m] rf by simp
  show ?thesis
  proof (cases c1)
    case Same_Table
    have "distinct (map (norm_key \<circ> fst) (ht_entries ht))"
      using es by (intro distinct_keys_map [OF entries_distinct [OF inv]]) (metis (mono_tags, lifting) case_prod_beta list_all_iff)
    from to_symtable_ok [OF inv r1 this n, of addr2 immutable False] sk
    obtain eg2 where "zend_proptable_to_symtable addr2 immutable eg1 ht False = Inr (eg2, Same_Table)" by auto
    moreover have "map fst (ht_entries ht) = map (prop_key \<circ> fst) (ht_entries ht)"
      using c Same_Table prop_key_id by (auto simp: list_all_iff)
    ultimately show ?thesis using p Same_Table inv by auto
  next
    case (New_Table t)
    then have t: "ht_inv t" "ht_entries t = map (\<lambda>(k, v). (prop_key k, unwrap_single eg v)) (ht_entries ht)" using i1 c by simp_all
    have "map fst (ht_entries t) = map (prop_key \<circ> fst) (ht_entries ht)" unfolding t(2) by auto
    with roundtrip_new [OF inv t(1) r1 m n es t(2), of addr2 immutable] p New_Table show ?thesis by auto
  qed
qed

text \<open>The list test.\<close>

lemma list_keys_from_iff:
  "list_keys_from (of_nat n) ks \<longleftrightarrow> ks = map (IntKey \<circ> of_nat) [n ..< n + length ks]"
proof (induction ks arbitrary: n)
  case (Cons k ks)
  have "[n ..< n + length (k # ks)] = n # [Suc n ..< Suc n + length ks]" by (simp add: upt_rec)
  then show ?case using Cons.IH [of "Suc n"] by (cases k) (auto simp: add.commute)
qed simp

lemma is_list_iff:
  assumes inv: "ht_inv ht"
  shows "zend_array_is_list ht \<longleftrightarrow> map fst (ht_entries ht) = map (IntKey \<circ> of_nat) [0 ..< length (ht_entries ht)]"
proof -
  have k: "map fst (ht_entries ht) = map bucket_key (filter live (ht_buckets ht))" by (simp add: ht_entries_def entries_def)
  have l: "list_keys_from 0 (map fst (ht_entries ht)) \<longleftrightarrow> map fst (ht_entries ht) = map (IntKey \<circ> of_nat) [0 ..< length (ht_entries ht)]"
    using list_keys_from_iff [of 0 "map fst (ht_entries ht)"] by simp
  have nu: "length (ht_buckets ht) = nNumUsed ht" using length_buckets [OF inv] .
  have packed: "map fst (ht_entries ht) = map (IntKey \<circ> of_nat) [0 ..< length (ht_entries ht)]"
    if p: "ht_packed ht" and h: "HT_IS_WITHOUT_HOLES ht"
  proof -
    have n: "length (filter live (ht_buckets ht)) = length (ht_buckets ht)"
      using h nu entries_number [OF inv] by (simp add: HT_IS_WITHOUT_HOLES_def ht_entries_def entries_def)
    then have "filter live (ht_buckets ht) = ht_buckets ht"
      by (metis filter_True length_filter_less less_irrefl)
    then show ?thesis unfolding k using p n by (simp add: ht_buckets_def packed_bucket_def bucket_key_def ht_entries_def entries_def)
  qed
  show ?thesis
  proof (cases "nNumOfElements ht = 0")
    case False
    then show ?thesis using packed l k by (auto simp: zend_array_is_list_def)
  qed (use entries_number [OF inv] in \<open>simp add: zend_array_is_list_def\<close>)
qed


text \<open>Which key a string stands for in a symbol table, without the recogniser.\<close>

definition denotes :: "string \<Rightarrow> hkey \<Rightarrow> bool" where
  "denotes str k = (case k of IntKey n \<Rightarrow> str = zend_long_to_str n | StrKey t \<Rightarrow> t = str \<and> (\<forall>n. str \<noteq> zend_long_to_str n))"

lemma denotes_sym_key: "denotes str k \<Longrightarrow> sym_key str = k"
proof (cases k)
  case (StrKey t)
  assume "denotes str k"
  with StrKey show ?thesis
    by (rule_tac sym_key_cases [of str]) (auto simp: denotes_def handle_numeric_iff)
qed (simp add: denotes_def sym_key_long)

end
