(* ===== verification/Hash_Samples.thy ===== *)
theory Hash_Samples
  imports Hash_Resize
begin

text \<open>
  Two concrete tables, one of each layout and both with a hole, that satisfy the invariant.  The
  instances of the theorems at the end of the development use them.
\<close>

definition sample_globals :: exec_globals where
  "sample_globals = \<lparr>ht_iterators = [], ht_iterators_used = 0, iterators_count = (\<lambda>_. 0), indirect = (\<lambda>_. IS_NULL),
     refs = (\<lambda>_. (1, IS_NULL)), next_address = 100, events = []\<rparr>"

definition sample_key :: zend_string where
  "sample_key = \<lparr>zs_addr = 1, zs_val = ''a'', zs_interned = False\<rparr>"

definition sample_packed :: hashtable where
  "sample_packed = \<lparr>ht_addr = 1, ht_packed = True, ht_uninit = False, ht_static_keys = True, ht_empty_ind = False,
     nTableMask = HT_MIN_MASK, arHash = [HT_INVALID_IDX, HT_INVALID_IDX], arData = [],
     arPacked = [IS_LONG 5, IS_UNDEF, IS_TRUE, IS_NULL, IS_NULL, IS_NULL, IS_NULL, IS_NULL],
     nNumUsed = 3, nNumOfElements = 2, nTableSize = 8, nInternalPointer = 0, nNextFreeElement = 3, pDestructor = True\<rparr>"

definition sample_mixed :: hashtable where
  "sample_mixed = \<lparr>ht_addr = 2, ht_packed = False, ht_uninit = False, ht_static_keys = False, ht_empty_ind = False,
     nTableMask = HT_SIZE_TO_MASK 8,
     arHash = [HT_INVALID_IDX, HT_INVALID_IDX, HT_INVALID_IDX, HT_INVALID_IDX, HT_INVALID_IDX, HT_INVALID_IDX, 2, HT_INVALID_IDX, 
       HT_INVALID_IDX, HT_INVALID_IDX, HT_INVALID_IDX, HT_INVALID_IDX, HT_INVALID_IDX, HT_INVALID_IDX, HT_INVALID_IDX, HT_INVALID_IDX],
     arData = [\<lparr>b_val = IS_LONG 5, b_next = HT_INVALID_IDX, b_h = ZSTR_H sample_key, b_key = Some sample_key\<rparr>,
       \<lparr>b_val = IS_UNDEF, b_next = 0, b_h = 0, b_key = None\<rparr>,
       \<lparr>b_val = IS_TRUE, b_next = 0, b_h = 6, b_key = None\<rparr>, poison_bucket, poison_bucket, poison_bucket, poison_bucket, poison_bucket],
     arPacked = [], nNumUsed = 3, nNumOfElements = 2, nTableSize = 8, nInternalPointer = 0, nNextFreeElement = 7, pDestructor = True\<rparr>"

lemma sample_packed_inv: "ht_inv sample_packed"
  by (simp add: ht_inv_def packed_shape_def content_ok_def size_ok_def sample_packed_def ht_entries_def ht_buckets_def
      entries_def bucket_ok_def packed_bucket_def bucket_key_def ZEND_LONG_MAX_def upt_rec)

lemma sample_hash: "zend_inline_hash_func ''a'' = 9223372036854953478"
  by (simp add: zend_inline_hash_func_eq hash_portable_foldl hash_step_def schar_def)

lemma sample_slot: "slot_of sample_mixed h = unat h mod 16"
proof -
  have "HT_SIZE_TO_MASK 8 = - (2 ^ 4)" by (simp add: HT_SIZE_TO_MASK_def)
  moreover have "length (arHash sample_mixed) = 2 ^ 4" by (simp add: sample_mixed_def)
  moreover have "nTableMask sample_mixed = HT_SIZE_TO_MASK 8" by (simp add: sample_mixed_def)
  ultimately show ?thesis using hash_slot_eq [of 4 h] by (simp add: slot_of_def)
qed

lemma sample_chain:
  "chain_of (arData sample_mixed) 3 (slot_of sample_mixed) s = (if s = 6 then [2, 0] else [])"
proof -
  have "slot_of sample_mixed = (\<lambda>h. unat h mod 16)" by (rule ext) (rule sample_slot)
  then show ?thesis by (simp only:) (simp add: sample_hash sample_key_def sample_mixed_def chain_of_def upt_rec)
qed

lemma sample_mixed_inv: "ht_inv sample_mixed"
proof -
  have "mixed_shape sample_mixed"
    by (simp add: mixed_shape_def sample_mixed_def size_ok_def upt_rec)
  moreover have "content_ok sample_mixed"
    by (simp add: content_ok_def sample_mixed_def ht_entries_def ht_buckets_def entries_def bucket_ok_def bucket_key_def
      sample_key_def sample_hash ZEND_LONG_MAX_def take_Cons')
  moreover have "chains_ok sample_mixed (nNumUsed sample_mixed)"
  proof -
    have n: "nNumUsed sample_mixed = 3" "length (arHash sample_mixed) = 16" "arHash sample_mixed ! 6 = 2"
      "b_next (arData sample_mixed ! 2) = 0" "b_next (arData sample_mixed ! 0) = HT_INVALID_IDX" "length (arData sample_mixed) = 8"
      by (simp_all add: sample_mixed_def)
    have "arHash sample_mixed ! s = HT_INVALID_IDX" if "s < 16" "s \<noteq> 6" for s
      using that by (auto simp: sample_mixed_def nth_Cons' numeral_eq_Suc less_Suc_eq)
    then show ?thesis unfolding chains_ok_def n(1,2) sample_chain by (auto simp: n)
  qed
  ultimately show ?thesis by (auto intro: ht_inv_mixedI)
qed
lemma sample_mixed_entries: "ht_entries sample_mixed = [(StrKey ''a'', IS_LONG 5), (IntKey 6, IS_TRUE)]"
  by (simp add: sample_mixed_def ht_entries_def ht_buckets_def entries_def bucket_key_def sample_key_def take_Cons')

lemma sample_packed_entries: "ht_entries sample_packed = [(IntKey 0, IS_LONG 5), (IntKey 2, IS_TRUE)]"
  by (simp add: sample_packed_def ht_entries_def ht_buckets_def entries_def bucket_key_def packed_bucket_def upt_rec)

lemma sample_room: "has_room sample_mixed" "nTableSize sample_packed < HT_MAX_SIZE"
  by (simp_all add: has_room_def sample_mixed_def sample_packed_def HT_MAX_SIZE_def)


text \<open>The first table with the unused part filled with holes, and the packed one in the mixed layout.\<close>

lemma sample_full_inv:
  "ht_inv (sample_mixed\<lparr>nNumUsed := 8, arData := take 3 (arData sample_mixed) @
     replicate 5 \<lparr>b_val = IS_UNDEF, b_next = 0, b_h = 0, b_key = None\<rparr>\<rparr>)"
  (is "ht_inv ?t")
proof -
  let ?D = "take 3 (arData sample_mixed) @ replicate 5 \<lparr>b_val = IS_UNDEF, b_next = 0, b_h = 0, b_key = None\<rparr>"
  note b = ht_inv_mixedD [OF sample_mixed_inv]
  have np: "\<not> ht_packed sample_mixed" "\<not> ht_uninit sample_mixed" "nNumUsed sample_mixed = 3" "nTableSize sample_mixed = 8"
    "length (arData sample_mixed) = 8" by (simp_all add: sample_mixed_def)
  have 1: "mixed_shape ?t" using b(1) np by (simp add: mixed_shape_def)
  have e: "filter live (take 8 ?D) = filter live (take 3 (arData sample_mixed))" using np by simp
  have u: "take 8 ?D = take 3 (arData sample_mixed) @ replicate 5 \<lparr>b_val = IS_UNDEF, b_next = 0, b_h = 0, b_key = None\<rparr>" using np by simp
  have 2: "content_ok ?t"
    using b(3) np e u by (auto simp: content_ok_def ht_entries_def ht_buckets_def entries_def bucket_ok_def list_all_iff)
  have 3: "chains_ok ?t 8"
  proof -
    have s: "slot_of ?t = slot_of sample_mixed" by (rule ext) (simp add: slot_of_def)
    have d: "\<And>i. i < 3 \<Longrightarrow> ?D ! i = arData sample_mixed ! i" "\<And>i. 3 \<le> i \<Longrightarrow> i < 8 \<Longrightarrow> \<not> live (?D ! i)"
      using np by (auto simp: nth_append)
    have c: "chain_of ?D 8 (slot_of ?t) x = (if x = 6 then [2, 0] else [])" for x
    proof -
      have "[0 ..< 8] = [0 ..< 3] @ [3 ..< 8]" using upt_add_eq_append [of 0 3 5] by simp
      then have "chain_of ?D 8 (slot_of ?t) x = chain_of ?D 3 (slot_of ?t) x"
        using d(2) by (simp add: chain_of_def filter_empty_conv)
      also have "\<dots> = chain_of (arData sample_mixed) 3 (slot_of sample_mixed) x" unfolding s by (rule chain_of_cong) (simp add: d(1))
      finally show ?thesis by (simp add: sample_chain)
    qed
    have h: "linked (arData sample_mixed) (arHash sample_mixed ! x) (if x = 6 then [2, 0] else [])" if "x < length (arHash sample_mixed)" for x
      using b(2) np that unfolding chains_ok_def np(3) sample_chain by simp
    show ?thesis
    proof (unfold chains_ok_def, intro allI impI)
      fix x assume "x < length (arHash ?t)"
      then have "linked (arData sample_mixed) (arHash sample_mixed ! x) (if x = 6 then [2, 0] else [])" using h by simp
      moreover have "b_next (?D ! 0) = b_next (arData sample_mixed ! 0)" "b_next (?D ! 2) = b_next (arData sample_mixed ! 2)"
        using d(1) [of 0] d(1) [of 2] by simp_all
      ultimately have "linked ?D (arHash sample_mixed ! x) (if x = 6 then [2, 0] else [])" using np by (auto split: if_splits)
      then show "linked (arData ?t) (arHash ?t ! x) (chain_of (arData ?t) 8 (slot_of ?t) x)" using c [of x] by simp
    qed
  qed
  show ?thesis using 1 2 3 by (intro ht_inv_mixedI) simp_all
qed

definition sample_unpacked :: hashtable where
  "sample_unpacked = \<lparr>ht_addr = 3, ht_packed = False, ht_uninit = False, ht_static_keys = True, ht_empty_ind = False,
     nTableMask = HT_SIZE_TO_MASK 8, arHash = [0, HT_INVALID_IDX, 2] @ replicate 13 HT_INVALID_IDX,
     arData = [\<lparr>b_val = IS_LONG 5, b_next = HT_INVALID_IDX, b_h = 0, b_key = None\<rparr>,
       \<lparr>b_val = IS_UNDEF, b_next = 0, b_h = 1, b_key = None\<rparr>,
       \<lparr>b_val = IS_TRUE, b_next = HT_INVALID_IDX, b_h = 2, b_key = None\<rparr>] @ replicate 5 poison_bucket,
     arPacked = [], nNumUsed = 3, nNumOfElements = 2, nTableSize = 8, nInternalPointer = 0, nNextFreeElement = 3, pDestructor = True\<rparr>"

lemma sample_unpacked_entries: "ht_entries sample_unpacked = [(IntKey 0, IS_LONG 5), (IntKey 2, IS_TRUE)]"
  by (simp add: sample_unpacked_def ht_entries_def ht_buckets_def entries_def bucket_key_def)

lemma sample_unpacked_inv: "ht_inv sample_unpacked"
proof -
  have "HT_SIZE_TO_MASK 8 = - (2 ^ 4)" by (simp add: HT_SIZE_TO_MASK_def)
  moreover have "length (arHash sample_unpacked) = 2 ^ 4" "nTableMask sample_unpacked = HT_SIZE_TO_MASK 8"
    by (simp_all add: sample_unpacked_def)
  ultimately have s: "slot_of sample_unpacked = (\<lambda>h. unat h mod 16)"
    using hash_slot_eq [of 4] by (intro ext) (simp add: slot_of_def)
  have c: "chain_of (arData sample_unpacked) 3 (slot_of sample_unpacked) x = (if x = 0 then [0] else if x = 2 then [2] else [])" for x
    unfolding s by (simp add: sample_unpacked_def chain_of_def upt_rec)
  have n: "nNumUsed sample_unpacked = 3" "length (arHash sample_unpacked) = 16" "arHash sample_unpacked ! 0 = 0" "arHash sample_unpacked ! 2 = 2"
    "b_next (arData sample_unpacked ! 0) = HT_INVALID_IDX" "b_next (arData sample_unpacked ! 2) = HT_INVALID_IDX"
    "length (arData sample_unpacked) = 8" by (simp_all add: sample_unpacked_def)
  have "arHash sample_unpacked ! x = HT_INVALID_IDX" if "x < 16" "x \<noteq> 0" "x \<noteq> 2" for x
    using that by (auto simp: sample_unpacked_def nth_Cons' nth_append)
  then have "chains_ok sample_unpacked (nNumUsed sample_unpacked)" unfolding chains_ok_def n(1,2) c by (auto simp: n)
  moreover have "mixed_shape sample_unpacked" by (simp add: mixed_shape_def sample_unpacked_def size_ok_def upt_rec)
  moreover have "content_ok sample_unpacked"
    by (simp add: content_ok_def sample_unpacked_def ht_entries_def ht_buckets_def entries_def bucket_ok_def bucket_key_def ZEND_LONG_MAX_def)
  ultimately show ?thesis by (auto intro: ht_inv_mixedI)
qed

end
