(* ===== verification/Hash_Merge.thy ===== *)
theory Hash_Merge
  imports Hash_Symtable Hash_Samples
begin

text \<open>
  Copying and merging with any copy constructor, \<^verbatim>\<open>zval_add_ref\<close> among them.  The elements of the source are put
  into the target one after the other: \<open>merge_entry\<close> says what each of them does to the entries of the target, to
  the slots behind indirect values and to the references.  The destructors of overwritten values are entries of
  the log; what they do to the references is not part of the model.
\<close>

section \<open>The place an operation returns\<close>

text \<open>
  The constructor runs after the operation has stored the value, on the place it returned.  To store another
  value there is the same as to run the operation on that value; the operation itself leaves the slots and the
  references alone, and the place is in the table.
\<close>

definition stored_again :: "zval \<Rightarrow> hash_result \<Rightarrow> hash_result" where
  "stored_again v r = res_bind r (\<lambda>(t, eg, ht). case t of
       None \<Rightarrow> Inr (None, eg, ht)
     | Some l \<Rightarrow> (case store l v eg ht of (eg, ht) \<Rightarrow> Inr (Some l, eg, ht)))"

definition in_table :: "exec_globals \<Rightarrow> hash_result \<Rightarrow> bool" where
  "in_table eg r \<longleftrightarrow> (\<forall>t eg' ht'. r = Inr (t, eg', ht') \<longrightarrow> same_mem eg eg' \<and> (\<forall>a. t \<noteq> Some (LInd a)))"

definition at_place :: "exec_globals \<Rightarrow> (zval \<Rightarrow> hash_result) \<Rightarrow> bool" where
  "at_place eg op \<longleftrightarrow> (\<forall>v w. op w = stored_again w (op v)) \<and> (\<forall>v. in_table eg (op v))"

lemma at_place_refuse: "at_place eg (\<lambda>v. Inr (None, eg, ht))"
  by (simp add: at_place_def stored_again_def in_table_def)

lemma at_place_fail: "at_place eg (\<lambda>v. Inl e)"
  by (simp add: at_place_def stored_again_def in_table_def)

lemma at_place_if: "(c \<Longrightarrow> at_place eg f) \<Longrightarrow> (\<not> c \<Longrightarrow> at_place eg g) \<Longrightarrow> at_place eg (\<lambda>v. if c then f v else g v)"
  by (cases c) simp_all

lemma at_place_mem: "at_place eg' op \<Longrightarrow> same_mem eg eg' \<Longrightarrow> at_place eg op"
  unfolding at_place_def in_table_def by (blast intro: same_mem_trans)

lemma at_place_bind:
  assumes "\<And>x eg' ht'. m = Inr (eg', ht') \<Longrightarrow> same_mem eg eg' \<and> at_place eg' (\<lambda>v. f eg' ht' v)"
  shows "at_place eg (\<lambda>v. res_bind m (\<lambda>(eg, ht). f eg ht v))"
proof (cases m)
  case (Inl e)
  then show ?thesis by (simp add: at_place_fail)
next
  case (Inr x)
  then obtain eg' ht' where m: "m = Inr (eg', ht')" by (cases x) simp
  show ?thesis using at_place_mem [of eg' "f eg' ht'" eg] assms [OF m] by (simp add: m)
qed

lemma store_store: "(case store l v eg ht of (eg, ht) \<Rightarrow> store l w eg ht) = store l w eg ht"
proof (cases l)
  case (LData i)
  have "(xs[i := (xs ! i)\<lparr>b_val := v\<rparr>]) [i := ((xs[i := (xs ! i)\<lparr>b_val := v\<rparr>]) ! i)\<lparr>b_val := w\<rparr>] = xs[i := (xs ! i)\<lparr>b_val := w\<rparr>]" for xs :: "bucket list"
    by (cases "length xs \<le> i") (simp_all add: list_update_beyond)
  then show ?thesis using LData by (simp add: store_def)
qed (simp_all add: store_def)

lemma at_place_replace:
  assumes "\<And>a. l \<noteq> LInd a"
  shows "at_place eg (\<lambda>v. replace_value l v eg ht)"
proof -
  have "replace_value l w eg ht = stored_again w (replace_value l v eg ht)" for v w
    using store_store [where l = l and v = v and w = w and ht = ht and eg = "call_dtor ht (loc_val eg ht l) eg"] by (simp add: replace_value_def stored_again_def split: prod.splits)
  moreover have "in_table eg (replace_value l v eg ht)" for v
    using replace_value_mem assms by (auto simp: in_table_def) (auto simp: replace_value_def split: prod.splits)
  ultimately show ?thesis by (simp add: at_place_def)
qed

lemma store_append: "store (LData (nNumUsed ht)) w eg (append_bucket v h key ht) = (eg, append_bucket w h key ht)"
proof (cases "nNumUsed ht < length (arData ht)")
  case True
  have "p\<lparr>b_h := h, b_key := key, b_next := n, b_val := w\<rparr> = p\<lparr>b_val := w, b_h := h, b_key := key, b_next := n\<rparr>" for p :: bucket and n by simp
  note u = this
  show ?thesis using True by (simp only: store_def append_bucket_def link_bucket_def HT_HASH_SET_def HT_HASH_def Let_def loc.case) (simp add: u)
next
  case False
  then show ?thesis by (simp add: store_def append_bucket_def link_bucket_def HT_HASH_SET_def HT_HASH_def Let_def list_update_beyond)
qed

lemma stored_append:
  "stored_again w (Inr (Some (LData (nNumUsed ht)), eg, append_bucket v h key ht)) = Inr (Some (LData (nNumUsed ht)), eg, append_bucket w h key ht)"
  by (simp add: stored_again_def store_append)

lemma at_place_append:
  "n = nNumUsed ht \<Longrightarrow> same_mem eg eg' \<Longrightarrow> at_place eg (\<lambda>v. Inr (Some (LData n), eg', append_bucket v h key ht))"
  by (simp add: at_place_def stored_append in_table_def)

lemma at_place_add:
  assumes "\<not> HASH_LOOKUP flag"
  shows "at_place eg (\<lambda>v. add_to_hash eg ht key v flag)"
    "at_place eg (\<lambda>v. index_add_to_hash eg ht h v flag)"
    "at_place eg (\<lambda>v. add_to_packed eg ht h v flag)"
proof -
  show "at_place eg (\<lambda>v. add_to_hash eg ht key v flag)" "at_place eg (\<lambda>v. index_add_to_hash eg ht h v flag)"
    using assms by (auto simp: add_to_hash_def index_add_to_hash_def new_value_def Let_def intro!: at_place_append)
  show "at_place eg (\<lambda>v. add_to_packed eg ht h v flag)"
    using assms by (simp add: at_place_def stored_again_def in_table_def add_to_packed_def new_value_def Let_def store_def)
qed

text \<open>An indirect value is written through only with \<^verbatim>\<open>HASH_UPDATE_INDIRECT\<close>.\<close>

lemma at_place_found:
  assumes "\<not> HASH_LOOKUP flag" "HASH_UPDATE_INDIRECT flag \<Longrightarrow> \<forall>a. b_val (arData ht ! i) \<noteq> IS_INDIRECT a"
  shows "at_place eg (\<lambda>v. update_found eg ht i v flag)"
  using assms unfolding update_found_def
  by (cases "b_val (arData ht ! i)") (auto intro!: at_place_if at_place_refuse at_place_replace)

lemma at_place_string:
  assumes flag: "\<not> HASH_LOOKUP flag"
    and direct: "\<And>i a. HASH_UPDATE_INDIRECT flag \<Longrightarrow> \<not> ht_uninit ht \<Longrightarrow> \<not> ht_packed ht \<Longrightarrow> \<not> HASH_ADD_NEW flag \<Longrightarrow>
      zend_hash_find_bucket ht key = Inr (Some i) \<Longrightarrow> b_val (arData ht ! i) \<noteq> IS_INDIRECT a"
  shows "at_place eg (\<lambda>v. zend_hash_add_or_update_i eg ht key v flag)"
proof -
  note a = at_place_add(1) [OF flag]
  have full: "at_place eg (\<lambda>v. res_bind (ZEND_HASH_IF_FULL_DO_RESIZE eg ht) (\<lambda>(eg, ht). add_to_hash eg ht key v flag))" for eg ht
    by (rule at_place_bind) (use resize_mem(2) a in blast)
  have conv: "at_place eg (\<lambda>v. res_bind (zend_hash_packed_to_hash eg ht) (\<lambda>(eg, ht).
      res_bind (ZEND_HASH_IF_FULL_DO_RESIZE eg ht) (\<lambda>(eg, ht). add_to_hash eg ht key v flag)))"
    by (rule at_place_bind) (use resize_mem(3) full in blast)
  show ?thesis
  proof (cases "ht_uninit ht \<or> ht_packed ht")
    case True
    then show ?thesis unfolding zend_hash_add_or_update_i_def by (intro at_place_if a conv) auto
  next
    case False
    show ?thesis
    proof (cases "if \<not> HASH_ADD_NEW flag then zend_hash_find_bucket ht key else Inr None")
      case (Inl e)
      then show ?thesis using False by (simp add: zend_hash_add_or_update_i_def at_place_fail)
    next
      case (Inr p)
      show ?thesis
      proof (cases p)
        case None
        then show ?thesis using False Inr full by (simp add: zend_hash_add_or_update_i_def)
      next
        case (Some i)
        then have "\<not> HASH_ADD_NEW flag" "zend_hash_find_bucket ht key = Inr (Some i)" using Inr by (auto split: if_splits)
        then show ?thesis using at_place_found [OF flag, of ht i eg] direct False by (simp add: zend_hash_add_or_update_i_def)
      qed
    qed
  qed
qed

lemma at_place_index:
  assumes flag: "\<not> HASH_LOOKUP flag"
  shows "at_place eg (\<lambda>v. zend_hash_index_add_or_update_i eg ht h v flag)"
proof -
  note a = at_place_add(2,3) [OF flag]
  have r: "at_place eg (\<lambda>v. replace_index eg ht l v flag)" if "\<And>a. l \<noteq> LInd a" for l
    using flag that unfolding replace_index_def by (auto intro!: at_place_if at_place_refuse at_place_replace)
  have full: "at_place eg (\<lambda>v. res_bind (ZEND_HASH_IF_FULL_DO_RESIZE eg ht) (\<lambda>(eg, ht). index_add_to_hash eg ht k v flag))" for k
    by (rule at_place_bind) (use resize_mem(2) a in blast)
  have conv: "at_place eg (\<lambda>v. res_bind (zend_hash_packed_to_hash eg ht) (\<lambda>(eg, ht). index_add_to_hash eg ht k v flag))" for ht k
    by (rule at_place_bind) (use resize_mem(3) a in blast)
  have grow: "at_place eg (\<lambda>v. res_bind (zend_hash_packed_grow ht) (\<lambda>ht. add_to_packed eg ht k v flag))" for k
    by (cases "zend_hash_packed_grow ht") (simp_all add: at_place_fail a)
  have found: "at_place eg (\<lambda>v. res_bind (if \<not> HASH_ADD_NEW flag then zend_hash_index_find_bucket ht k else Inr None) (\<lambda>p. case p of
      Some i \<Rightarrow> replace_index eg ht (LData i) v flag
    | None \<Rightarrow> res_bind (ZEND_HASH_IF_FULL_DO_RESIZE eg ht) (\<lambda>(eg, ht). index_add_to_hash eg ht k v flag)))" for k
  proof (cases "if \<not> HASH_ADD_NEW flag then zend_hash_index_find_bucket ht k else Inr None")
    case (Inl e)
    then show ?thesis by (simp add: at_place_fail split del: if_split)
  next
    case (Inr p)
    have "at_place eg (\<lambda>v. case p of Some i \<Rightarrow> replace_index eg ht (LData i) v flag
      | None \<Rightarrow> res_bind (ZEND_HASH_IF_FULL_DO_RESIZE eg ht) (\<lambda>(eg, ht). index_add_to_hash eg ht k v flag))"
      using full r by (cases p) simp_all
    then show ?thesis unfolding Inr by simp
  qed
  show ?thesis unfolding zend_hash_index_add_or_update_i_def Let_def
    by (intro at_place_if a r conv grow found) simp_all
qed

section \<open>Copy constructors\<close>

text \<open>
  What a copy constructor does to the stored value and to the references, as a function of these; it leaves the
  slots behind indirect values alone.
\<close>

type_synonym ref_state = "nat \<Rightarrow> nat \<times> zval"

definition refs_defined :: "ref_state \<Rightarrow> bool" where
  "refs_defined rf \<longleftrightarrow> (\<forall>r. snd (rf r) \<noteq> IS_UNDEF)"

lemma refs_ok_defined: "refs_ok eg \<longleftrightarrow> refs_defined (refs eg)"
  by (simp add: refs_ok_def refs_defined_def)

definition constructs :: "copy_ctor \<Rightarrow> (zval \<Rightarrow> ref_state \<Rightarrow> zval \<times> ref_state) \<Rightarrow> bool" where
  "constructs ctor f \<longleftrightarrow>
     (\<forall>v rf. v \<noteq> IS_UNDEF \<and> refs_defined rf \<longrightarrow> fst (f v rf) \<noteq> IS_UNDEF \<and> refs_defined (snd (f v rf))) \<and>
     (case ctor of
        None \<Rightarrow> \<forall>v rf. f v rf = (v, rf)
      | Some c \<Rightarrow> \<forall>v eg. v \<noteq> IS_UNDEF \<and> refs_ok eg \<longrightarrow>
          fst (c v eg) = fst (f v (refs eg)) \<and> refs (snd (c v eg)) = snd (f v (refs eg)) \<and> indirect (snd (c v eg)) = indirect eg)"

text \<open>The effect of \<^verbatim>\<open>zval_add_ref\<close>, and of no constructor at all.\<close>

definition one_more_owner :: "zval \<Rightarrow> ref_state \<Rightarrow> ref_state" where
  "one_more_owner v rf = (case v of IS_REFERENCE r \<Rightarrow> rf(r := ((fst (rf r) + 1) mod 2 ^ 32, snd (rf r))) | _ \<Rightarrow> rf)"

definition add_ref_effect :: "zval \<Rightarrow> ref_state \<Rightarrow> zval \<times> ref_state" where
  "add_ref_effect v rf =
     (let w = (case v of IS_REFERENCE r \<Rightarrow> if fst (rf r) = 1 then snd (rf r) else v | _ \<Rightarrow> v) in (w, one_more_owner w rf))"

lemma constructs_none: "constructs None Pair"
  by (simp add: constructs_def)

lemma Z_ADDREF_effect [simp]: "refs (Z_ADDREF v eg) = one_more_owner v (refs eg)" "indirect (Z_ADDREF v eg) = indirect eg"
  by (auto simp: Z_ADDREF_def one_more_owner_def emit_def split: zval.splits)

lemma one_more_owner_uncounted: "\<not> Z_OPT_REFCOUNTED v \<Longrightarrow> one_more_owner v rf = rf"
  by (auto simp: Z_OPT_REFCOUNTED_def one_more_owner_def split: zval.splits)

lemma constructs_add_ref: "constructs (Some zval_add_ref) add_ref_effect"
proof -
  have "refs_defined (one_more_owner v rf)" if "refs_defined rf" for v rf
    using that by (auto simp: refs_defined_def one_more_owner_def split: zval.splits)
  then have "fst (add_ref_effect v rf) \<noteq> IS_UNDEF \<and> refs_defined (snd (add_ref_effect v rf))" if "v \<noteq> IS_UNDEF" "refs_defined rf" for v rf
    using that by (auto simp: add_ref_effect_def Let_def refs_defined_def split: zval.splits)
  moreover have "fst (zval_add_ref v eg) = fst (add_ref_effect v (refs eg)) \<and>
      refs (snd (zval_add_ref v eg)) = snd (add_ref_effect v (refs eg)) \<and> indirect (snd (zval_add_ref v eg)) = indirect eg" for v eg
  proof (cases "\<exists>r. v = IS_REFERENCE r")
    case True
    then show ?thesis by (auto simp: zval_add_ref_def add_ref_effect_def ZVAL_COPY_def Let_def Z_OPT_REFCOUNTED_def [of "IS_REFERENCE _"] one_more_owner_uncounted)
  next
    case False
    then have "add_ref_effect v (refs eg) = (v, one_more_owner v (refs eg))" by (cases v) (auto simp: add_ref_effect_def Let_def)
    moreover have "zval_add_ref v eg = (if Z_OPT_REFCOUNTED v then (v, Z_ADDREF v eg) else (v, eg))"
      using False by (cases v) (auto simp: zval_add_ref_def)
    ultimately show ?thesis by (simp add: one_more_owner_uncounted)
  qed
  ultimately show ?thesis by (simp add: constructs_def)
qed

lemma construct_stored:
  assumes op: "op v = Inr (Some l, eg1, t1)" "at_place eg op" "loc_val eg1 t1 l = v" and c: "constructs ctor f"
    and rf: "refs_ok eg" "v \<noteq> IS_UNDEF" and f: "f v (refs eg) = (v', rf')"
  shows "\<exists>eg2 eg3 t2. copy_construct ctor (Some l, eg1, t1) = (eg2, t2) \<and> op v' = Inr (Some l, eg3, t2) \<and>
    indirect eg2 = indirect eg \<and> refs eg2 = rf'"
proof -
  have i: "in_table eg (op v)" using op(2) by (simp add: at_place_def)
  have m: "same_mem eg eg1" and l: "l \<noteq> LInd a" for a using i unfolding op(1) in_table_def by blast+
  then have m': "refs eg1 = refs eg" "indirect eg1 = indirect eg" "refs_ok eg1" using rf(1) by (simp_all add: same_mem_def refs_ok_def)
  obtain T where T: "\<And>e. store l v' e t1 = (e, T)" using l by (cases l) (simp_all add: store_def, blast)
  have "op v' = stored_again v' (op v)" using op(2) unfolding at_place_def by blast
  then have op': "op v' = Inr (Some l, eg1, T)" using T by (simp add: op(1) stored_again_def)
  show ?thesis
  proof (cases ctor)
    case None
    then have "v' = v" "rf' = refs eg" using c f by (auto simp: constructs_def)
    then show ?thesis using op(1) m' None by (simp add: copy_construct_def)
  next
    case (Some c0)
    have "fst (c0 v eg1) = fst (f v (refs eg1)) \<and> refs (snd (c0 v eg1)) = snd (f v (refs eg1)) \<and> indirect (snd (c0 v eg1)) = indirect eg1"
      using c rf(2) m'(3) Some unfolding constructs_def by simp
    then obtain eg2 where e: "c0 v eg1 = (v', eg2)" "refs eg2 = rf'" "indirect eg2 = indirect eg"
      using m' f by (cases "c0 v eg1") simp
    then show ?thesis using op' op(3) T Some by (simp add: copy_construct_def)
  qed
qed

section \<open>One element\<close>

text \<open>
  The specification works on the entries of the target, the slots and the references.  The value of an entry of
  the source is that of its slot when it is indirect; without a value the entry is skipped.  With \<open>through\<close> an
  indirect value of the target under a string key is written through: only to fill an empty slot, unless values
  are overwritten.
\<close>

type_synonym merge_state = "(hkey \<times> zval) list \<times> (nat \<Rightarrow> zval) \<times> ref_state"

definition slot_value :: "(nat \<Rightarrow> zval) \<Rightarrow> bool \<Rightarrow> zval \<Rightarrow> zval" where
  "slot_value sl packed v = (if packed then v else case v of IS_INDIRECT a \<Rightarrow> sl a | _ \<Rightarrow> v)"

definition target_slot :: "bool \<Rightarrow> hkey \<Rightarrow> (hkey \<times> zval) list \<Rightarrow> nat option" where
  "target_slot through k es =
     (case (k, map_of es k) of (StrKey _, Some (IS_INDIRECT a)) \<Rightarrow> if through then Some a else None | _ \<Rightarrow> None)"

fun merge_entry :: "(zval \<Rightarrow> ref_state \<Rightarrow> zval \<times> ref_state) \<Rightarrow> bool \<Rightarrow> bool \<Rightarrow> bool \<Rightarrow> hkey \<times> zval \<Rightarrow> merge_state \<Rightarrow> merge_state" where
  "merge_entry f overwrite through packed (k, v) (es, sl, rf) =
     (let w = slot_value sl packed v; (w', rf') = f w rf
      in if w = IS_UNDEF then (es, sl, rf)
         else case target_slot through k es of
           Some a \<Rightarrow> (if overwrite \<or> sl a = IS_UNDEF then (es, sl(a := w'), rf') else (es, sl, rf))
         | None \<Rightarrow> (if overwrite \<or> map_of es k = None then (AList.update k w' es, sl, rf') else (es, sl, rf)))"

definition merges :: "exec_globals \<Rightarrow> hashtable \<Rightarrow> merge_state \<Rightarrow> (exec_globals \<times> hashtable) res \<Rightarrow> bool" where
  "merges eg ht s r \<longleftrightarrow> (\<exists>eg' ht'. r = Inr (eg', ht') \<and> ht_inv ht' \<and> refs_ok eg' \<and> (ht_entries ht', indirect eg', refs eg') = s \<and>
     table_cap ht' \<le> max (table_cap ht) (8 * length (ht_entries ht')))"

lemma merges_same: "ht_inv ht \<Longrightarrow> refs_ok eg \<Longrightarrow> merges eg ht (ht_entries ht, indirect eg, refs eg) (Inr (eg, ht))"
  by (simp add: merges_def)

lemma updates_merges:
  assumes u: "\<And>w. w \<noteq> IS_UNDEF \<Longrightarrow> updates eg ht k w (op w)" and op: "at_place eg op" and c: "constructs ctor f"
    and v: "refs_ok eg" "v \<noteq> IS_UNDEF" and f: "f v (refs eg) = (v', rf')"
  shows "merges eg ht (AList.update k v' (ht_entries ht), indirect eg, rf') (res_bind (op v) (\<lambda>r. Inr (copy_construct ctor r)))"
proof -
  have v': "v' \<noteq> IS_UNDEF" "refs_defined rf'" using c v f unfolding constructs_def refs_ok_defined by (metis fst_conv snd_conv)+
  obtain l eg1 t1 where 1: "op v = Inr (Some l, eg1, t1)" "loc_val eg1 t1 l = v" using u [OF v(2)] by (auto simp: updates_def)
  obtain eg2 eg3 t2 where 2: "copy_construct ctor (Some l, eg1, t1) = (eg2, t2)" "op v' = Inr (Some l, eg3, t2)"
    "indirect eg2 = indirect eg" "refs eg2 = rf'" using construct_stored [of op, OF 1(1) op 1(2) c v f] by blast
  have "ht_inv t2" "ht_entries t2 = AList.update k v' (ht_entries ht)" "table_cap t2 \<le> max (table_cap ht) (8 * length (ht_entries t2))"
    using u [OF v'(1)] 2(2) by (auto simp: updates_def)
  then show ?thesis using 1(1) 2 v'(2) by (simp add: merges_def refs_ok_defined)
qed

lemma adds_merges:
  assumes a: "\<And>w. w \<noteq> IS_UNDEF \<Longrightarrow> case map_of (ht_entries ht) k of None \<Rightarrow> inserts ht k w (op w) | Some _ \<Rightarrow> op w = Inr (None, eg, ht)"
    and op: "at_place eg op" and c: "constructs ctor f" and inv: "ht_inv ht"
    and v: "refs_ok eg" "v \<noteq> IS_UNDEF" and f: "f v (refs eg) = (v', rf')"
  shows "merges eg ht (if map_of (ht_entries ht) k = None then (AList.update k v' (ht_entries ht), indirect eg, rf')
      else (ht_entries ht, indirect eg, refs eg)) (res_bind (op v) (\<lambda>r. Inr (copy_construct ctor r)))"
proof (cases "map_of (ht_entries ht) k")
  case None
  have "updates eg ht k w (op w)" if "w \<noteq> IS_UNDEF" for w using a [OF that] None inserts_updates by (simp split: option.splits)
  from updates_merges [OF this op c v f] None show ?thesis by simp
next
  case (Some w)
  then show ?thesis using a [OF v(2)] merges_same [OF inv v(1)] by (simp add: copy_construct_def)
qed

lemma merge_index:
  assumes inv: "ht_inv ht" and room: "nTableSize ht < HT_MAX_SIZE" and c: "constructs ctor f"
    and v: "refs_ok eg" "slot_value (indirect eg) packed v0 = v" "v \<noteq> IS_UNDEF"
  shows "merges eg ht (merge_entry f overwrite through packed (IntKey h, v0) (ht_entries ht, indirect eg, refs eg))
    (res_bind (if overwrite then zend_hash_index_update eg ht h v else zend_hash_index_add eg ht h v) (\<lambda>r. Inr (copy_construct ctor r)))"
proof -
  obtain v' rf' where f: "f v (refs eg) = (v', rf')" by fastforce
  have op: "at_place eg (\<lambda>v. zend_hash_index_update eg ht h v)" "at_place eg (\<lambda>v. zend_hash_index_add eg ht h v)"
    by (simp_all add: zend_hash_index_update_def zend_hash_index_add_def at_place_index no_flag_def)
  have t: "target_slot through (IntKey h) es = None" for es by (simp add: target_slot_def)
  show ?thesis
    using updates_merges [OF zend_hash_index_update_ok [OF inv room] op(1) c v(1,3) f]
      adds_merges [OF zend_hash_index_add_ok [OF inv room] op(2) c inv v(1,3) f] v(2,3) f t
    by (cases overwrite) simp_all
qed

text \<open>The flags of \<^verbatim>\<open>zend_hash_merge\<close>, and of \<^verbatim>\<open>zend_hash_update\<close> for copying.\<close>

lemma merge_string_direct:
  assumes inv: "ht_inv ht" and room: "has_room ht" and c: "constructs ctor f"
    and v: "refs_ok eg" "slot_value (indirect eg) packed v0 = v" "v \<noteq> IS_UNDEF"
    and t: "target_slot True (StrKey (zs_val key)) (ht_entries ht) = None"
  shows "merges eg ht (merge_entry f overwrite True packed (StrKey (zs_val key), v0) (ht_entries ht, indirect eg, refs eg))
    (res_bind (zend_hash_add_or_update_i eg ht key v
      (if overwrite then no_flag\<lparr>HASH_UPDATE := True, HASH_UPDATE_INDIRECT := True\<rparr>
       else no_flag\<lparr>HASH_ADD := True, HASH_UPDATE_INDIRECT := True\<rparr>)) (\<lambda>r. Inr (copy_construct ctor r)))"
    (is "merges eg ht (merge_entry f overwrite True packed (?k, v0) _) (res_bind (?op v) _)")
proof -
  let ?f = "if overwrite then no_flag\<lparr>HASH_UPDATE := True, HASH_UPDATE_INDIRECT := True\<rparr>
       else no_flag\<lparr>HASH_ADD := True, HASH_UPDATE_INDIRECT := True\<rparr>"
  obtain v' rf' where f: "f v (refs eg) = (v', rf')" by fastforce
  have nf: "\<not> HASH_ADD_NEW ?f" "\<not> HASH_LOOKUP ?f" by (simp_all add: no_flag_def)
  have d: "w \<noteq> IS_INDIRECT a" if "map_of (ht_entries ht) ?k = Some w" for w a using t that by (auto simp: target_slot_def)
  have new: "inserts ht ?k w (?op w)" if "map_of (ht_entries ht) ?k = None" "w \<noteq> IS_UNDEF" for w
    using add_or_update_new [OF inv room _ that(1), of w ?f eg] that(2) by (cases overwrite) (simp_all add: new_value_def no_flag_def)
  have found: "if overwrite then updates eg ht ?k w (?op w) else ?op w = Inr (None, eg, ht)"
    if m: "map_of (ht_entries ht) ?k = Some x" and w: "w \<noteq> IS_UNDEF" for w x
  proof -
    obtain i where i: "?op w = update_found eg ht i w ?f"
      "i < data_used ht" "live (arData ht ! i)" "bucket_key (arData ht ! i) = ?k" "b_val (arData ht ! i) = x"
      by (rule add_or_update_found [OF inv m nf(1)])
    have "update_found eg ht i w ?f = (if overwrite then replace_value (LData i) w eg ht else Inr (None, eg, ht))"
      using i(5) d [OF m] by (auto simp: update_found_def no_flag_def split: zval.splits)
    then show ?thesis using replace_data_ok [OF inv i(2-5) m w, of eg] i(1) by (cases overwrite) simp_all
  qed
  have op: "at_place eg ?op"
  proof (rule at_place_string [OF nf(2)])
    fix i a assume r: "zend_hash_find_bucket ht key = Inr (Some i)" "\<not> ht_packed ht"
    obtain r' where r': "zend_hash_find_bucket ht key = Inr r'" "hit_key ?k ht r'" using find_bucket_ok(1) [OF inv, of key] by blast
    then have h: "hit_key ?k ht (Some i)" using r(1) by simp
    have "map_of (ht_entries ht) ?k = Some (b_val (arData ht ! i))" using hit_key_entries [OF inv r(2) h] by simp
    then show "b_val (arData ht ! i) \<noteq> IS_INDIRECT a" by (rule d)
  qed
  show ?thesis
  proof (cases overwrite)
    case True
    have "updates eg ht ?k w (?op w)" if "w \<noteq> IS_UNDEF" for w
      using found [OF _ that] new [OF _ that] inserts_updates True by (cases "map_of (ht_entries ht) ?k") auto
    from updates_merges [OF this op c v(1,3) f] show ?thesis using True v(2,3) f t by simp
  next
    case False
    have "case map_of (ht_entries ht) ?k of None \<Rightarrow> inserts ht ?k w (?op w) | Some _ \<Rightarrow> ?op w = Inr (None, eg, ht)" if "w \<noteq> IS_UNDEF" for w
      using found [OF _ that] new [OF _ that] False by (auto split: option.splits)
    from adds_merges [OF this op c inv v(1,3) f] show ?thesis using False v(2,3) f t by simp
  qed
qed

lemma merge_string_through:
  assumes inv: "ht_inv ht" and c: "constructs ctor f"
    and v: "refs_ok eg" "slot_value (indirect eg) packed v0 = v" "v \<noteq> IS_UNDEF"
    and t: "map_of (ht_entries ht) (StrKey (zs_val key)) = Some (IS_INDIRECT a)"
  shows "merges eg ht (merge_entry f overwrite True packed (StrKey (zs_val key), v0) (ht_entries ht, indirect eg, refs eg))
    (res_bind (zend_hash_add_or_update_i eg ht key v
      (if overwrite then no_flag\<lparr>HASH_UPDATE := True, HASH_UPDATE_INDIRECT := True\<rparr>
       else no_flag\<lparr>HASH_ADD := True, HASH_UPDATE_INDIRECT := True\<rparr>)) (\<lambda>r. Inr (copy_construct ctor r)))"
    (is "merges eg ht (merge_entry f overwrite True packed (?k, v0) _) (res_bind (zend_hash_add_or_update_i eg ht key v ?f) _)")
proof -
  obtain v' rf' where f: "f v (refs eg) = (v', rf')" by fastforce
  have nf: "\<not> HASH_ADD_NEW ?f" by (simp add: no_flag_def)
  have ts: "target_slot True ?k (ht_entries ht) = Some a" using t by (simp add: target_slot_def)
  obtain i where i: "zend_hash_add_or_update_i eg ht key v ?f = update_found eg ht i v ?f" "b_val (arData ht ! i) = IS_INDIRECT a"
    by (rule add_or_update_found [OF inv t nf])
  show ?thesis
  proof (cases "overwrite \<or> indirect eg a = IS_UNDEF")
    case False
    then have "zend_hash_add_or_update_i eg ht key v ?f = Inr (None, eg, ht)" using i by (simp add: update_found_def no_flag_def)
    then show ?thesis using merges_same [OF inv v(1)] False ts v(2,3) f by (simp add: copy_construct_def)
  next
    case True
    let ?eg1 = "(call_dtor ht (indirect eg a) eg)\<lparr>indirect := (indirect eg)(a := v)\<rparr>"
    have 1: "zend_hash_add_or_update_i eg ht key v ?f = Inr (Some (LInd a), ?eg1, ht)"
      using True i by (auto simp: update_found_def no_flag_def replace_value_def store_def loc_val_def call_dtor_def emit_def)
    have m: "refs ?eg1 = refs eg" "refs_ok ?eg1" using v(1) by (simp_all add: call_dtor_def emit_def refs_ok_def)
    have v': "v' \<noteq> IS_UNDEF" "refs_defined rf'" using c v f unfolding constructs_def refs_ok_defined by (metis fst_conv snd_conv)+
    have "\<exists>eg2. copy_construct ctor (Some (LInd a), ?eg1, ht) = (eg2, ht) \<and> indirect eg2 = (indirect eg)(a := v') \<and> refs eg2 = rf'"
    proof (cases ctor)
      case None
      then have "v' = v" "rf' = refs eg" using c f by (auto simp: constructs_def)
      then show ?thesis using None m(1) by (simp add: copy_construct_def)
    next
      case (Some c0)
      have "fst (c0 v ?eg1) = fst (f v (refs ?eg1)) \<and> refs (snd (c0 v ?eg1)) = snd (f v (refs ?eg1)) \<and> indirect (snd (c0 v ?eg1)) = indirect ?eg1"
        using c v(3) m(2) Some unfolding constructs_def by simp
      then obtain eg2 where e: "c0 v ?eg1 = (v', eg2)" "refs eg2 = rf'" "indirect eg2 = (indirect eg)(a := v)"
        using m f by (cases "c0 v ?eg1") simp
      then show ?thesis using Some by (simp add: copy_construct_def loc_val_def store_def)
    qed
    then obtain eg2 where 2: "copy_construct ctor (Some (LInd a), ?eg1, ht) = (eg2, ht)" "indirect eg2 = (indirect eg)(a := v')" "refs eg2 = rf'" by blast
    have "merge_entry f overwrite True packed (?k, v0) (ht_entries ht, indirect eg, refs eg) = (ht_entries ht, (indirect eg)(a := v'), rf')"
      using True ts v(2,3) f by auto
    then show ?thesis using 1 2 v'(2) inv by (simp add: merges_def refs_ok_defined)
  qed
qed

lemma copy_string:
  assumes inv: "ht_inv ht" and room: "has_room ht" and c: "constructs ctor f"
    and v: "refs_ok eg" "slot_value (indirect eg) packed v0 = v" "v \<noteq> IS_UNDEF"
  shows "merges eg ht (merge_entry f True False packed (StrKey (zs_val key), v0) (ht_entries ht, indirect eg, refs eg))
    (res_bind (zend_hash_update eg ht key v) (\<lambda>r. Inr (copy_construct ctor r)))"
proof -
  obtain v' rf' where f: "f v (refs eg) = (v', rf')" by fastforce
  have "at_place eg (\<lambda>v. zend_hash_update eg ht key v)"
    unfolding zend_hash_update_def by (rule at_place_string) (simp_all add: no_flag_def)
  from updates_merges [OF zend_hash_update_ok [OF inv room] this c v(1,3) f] show ?thesis
    using v(2,3) f by (simp add: target_slot_def split: option.splits zval.splits)
qed

lemma slot_value_deref: "deref_ind eg v = slot_value (indirect eg) False v" "slot_value sl True v = v"
  by (simp_all add: deref_ind_def slot_value_def split: zval.splits)

text \<open>A step of a loop does what the specification says for the cell, if there is a value in it.\<close>

definition step_ok :: "hashtable \<Rightarrow> (hkey \<times> zval \<Rightarrow> merge_state \<Rightarrow> merge_state) \<Rightarrow>
    (nat \<Rightarrow> exec_globals \<Rightarrow> hashtable \<Rightarrow> (exec_globals \<times> hashtable) res) \<Rightarrow> bool" where
  "step_ok src g step \<longleftrightarrow> (\<forall>i eg t. ht_inv t \<and> table_cap t < HT_MAX_SIZE \<and> refs_ok eg \<longrightarrow>
     (if cell_val src i = IS_UNDEF then step i eg t = Inr (eg, t)
      else merges eg t (g (raw_key (cell_key src i), cell_val src i) (ht_entries t, indirect eg, refs eg)) (step i eg t)))"

lemma merge_entry_undef: "slot_value sl packed v = IS_UNDEF \<Longrightarrow> merge_entry f overwrite through packed (k, v) (es, sl, rf) = (es, sl, rf)"
  by (simp split: prod.splits)

lemma copy_step_ok:
  assumes c: "constructs ctor f"
  shows "step_ok src (merge_entry f True False (ht_packed src)) (copy_step ctor src)"
  unfolding step_ok_def
proof (intro allI impI, elim conjE)
  fix i eg t assume inv: "ht_inv t" and cap: "table_cap t < HT_MAX_SIZE" and rf: "refs_ok eg"
  have room: "has_room t" "nTableSize t < HT_MAX_SIZE" using cap_room [OF cap] by simp_all
  let ?goal = "if cell_val src i = IS_UNDEF then copy_step ctor src i eg t = Inr (eg, t)
    else merges eg t (merge_entry f True False (ht_packed src) (raw_key (cell_key src i), cell_val src i) (ht_entries t, indirect eg, refs eg)) (copy_step ctor src i eg t)"
  show ?goal
  proof (cases "ht_packed src")
    case True
    then show ?thesis using merge_index [OF inv room(2) c rf slot_value_deref(2), where overwrite = True and through = False]
      by (simp add: copy_step_def cell_val_def cell_key_def raw_key_def del: merge_entry.simps)
  next
    case p: False
    let ?p = "arData src ! i" and ?v = "deref_ind eg (b_val (arData src ! i))"
    consider "\<not> live ?p" | "live ?p" "?v = IS_UNDEF" | "live ?p" "?v \<noteq> IS_UNDEF" by blast
    then show ?thesis
    proof cases
      case 1
      then show ?thesis using p by (simp add: copy_step_def cell_val_def Let_def)
    next
      case 2
      then show ?thesis using p merges_same [OF inv rf] merge_entry_undef
        by (simp add: copy_step_def cell_val_def Let_def slot_value_deref(1) del: merge_entry.simps)
    next
      case 3
      have "merges eg t (merge_entry f True False False (raw_key (b_h ?p, b_key ?p), b_val ?p) (ht_entries t, indirect eg, refs eg))
          (res_bind (case b_key ?p of Some key \<Rightarrow> zend_hash_update eg t key ?v | None \<Rightarrow> zend_hash_index_update eg t (b_h ?p) ?v)
            (\<lambda>r. Inr (copy_construct ctor r)))"
        using merge_index [OF inv room(2) c rf slot_value_deref(1) [symmetric] 3(2), where overwrite = True and through = False]
          copy_string [OF inv room(1) c rf slot_value_deref(1) [symmetric] 3(2)]
        by (cases "b_key ?p") (simp_all add: raw_key_def del: merge_entry.simps)
      then show ?thesis using p 3 by (simp add: copy_step_def cell_val_def cell_key_def Let_def del: merge_entry.simps)
    qed
  qed
qed

lemma merge_step_ok:
  assumes c: "constructs ctor f"
  shows "step_ok src (merge_entry f overwrite True (ht_packed src)) (merge_step ctor overwrite src)"
  unfolding step_ok_def
proof (intro allI impI, elim conjE)
  fix i eg t assume inv: "ht_inv t" and cap: "table_cap t < HT_MAX_SIZE" and rf: "refs_ok eg"
  have room: "has_room t" "nTableSize t < HT_MAX_SIZE" using cap_room [OF cap] by simp_all
  let ?goal = "if cell_val src i = IS_UNDEF then merge_step ctor overwrite src i eg t = Inr (eg, t)
    else merges eg t (merge_entry f overwrite True (ht_packed src) (raw_key (cell_key src i), cell_val src i) (ht_entries t, indirect eg, refs eg)) (merge_step ctor overwrite src i eg t)"
  show ?goal
  proof (cases "ht_packed src")
    case True
    then show ?thesis using merge_index [OF inv room(2) c rf slot_value_deref(2), where overwrite = overwrite and through = True]
      by (simp add: merge_step_def cell_val_def cell_key_def raw_key_def del: merge_entry.simps)
  next
    case p: False
    let ?p = "arData src ! i" and ?v = "deref_ind eg (b_val (arData src ! i))"
    consider "\<not> live ?p" | "live ?p" "?v = IS_UNDEF" | "live ?p" "?v \<noteq> IS_UNDEF" by blast
    then show ?thesis
    proof cases
      case 1
      then show ?thesis using p by (simp add: merge_step_def cell_val_def Let_def deref_ind_def)
    next
      case 2
      then show ?thesis using p merges_same [OF inv rf] merge_entry_undef
        by (simp add: merge_step_def cell_val_def Let_def slot_value_deref(1) del: merge_entry.simps)
    next
      case 3
      note sv = slot_value_deref(1) [symmetric]
      have st: "merges eg t (merge_entry f overwrite True False (StrKey (zs_val key), b_val ?p) (ht_entries t, indirect eg, refs eg))
          (res_bind (zend_hash_add_or_update_i eg t key ?v
            (if overwrite then no_flag\<lparr>HASH_UPDATE := True, HASH_UPDATE_INDIRECT := True\<rparr>
             else no_flag\<lparr>HASH_ADD := True, HASH_UPDATE_INDIRECT := True\<rparr>)) (\<lambda>r. Inr (copy_construct ctor r)))" for key
      proof (cases "target_slot True (StrKey (zs_val key)) (ht_entries t)")
        case None
        show ?thesis by (rule merge_string_direct [OF inv room(1) c rf sv 3(2) None])
      next
        case (Some a)
        then have "map_of (ht_entries t) (StrKey (zs_val key)) = Some (IS_INDIRECT a)"
          by (auto simp: target_slot_def split: option.splits zval.splits)
        then show ?thesis by (rule merge_string_through [OF inv c rf sv 3(2)])
      qed
      have "merges eg t (merge_entry f overwrite True False (raw_key (b_h ?p, b_key ?p), b_val ?p) (ht_entries t, indirect eg, refs eg))
          (res_bind (case b_key ?p of
              Some key \<Rightarrow> zend_hash_add_or_update_i eg t key ?v
                (if overwrite then no_flag\<lparr>HASH_UPDATE := True, HASH_UPDATE_INDIRECT := True\<rparr>
                 else no_flag\<lparr>HASH_ADD := True, HASH_UPDATE_INDIRECT := True\<rparr>)
            | None \<Rightarrow> (if overwrite then zend_hash_index_update eg t (b_h ?p) ?v else zend_hash_index_add eg t (b_h ?p) ?v))
            (\<lambda>r. Inr (copy_construct ctor r)))"
      proof (cases "b_key ?p")
        case None
        then show ?thesis using merge_index [OF inv room(2) c rf sv 3(2), where overwrite = overwrite and through = True]
          by (simp add: raw_key_def del: merge_entry.simps)
      next
        case (Some key)
        then show ?thesis using st [of key] by (simp add: raw_key_def del: merge_entry.simps)
      qed
      then show ?thesis using p 3 by (simp add: merge_step_def cell_val_def cell_key_def Let_def del: merge_entry.simps)
    qed
  qed
qed

section \<open>The loops\<close>

lemma for_cells_simps [simp]:
  "for_cells [] step eg t = Inr (eg, t)"
  "for_cells (i # is) step eg t = res_bind (step i eg t) (\<lambda>(eg, t). for_cells is step eg t)"
proof -
  have e: "foldl (\<lambda>r i. res_bind r (\<lambda>(eg, t). step i eg t)) (Inl x) is = Inl x" for x by (induction "is") auto
  show "for_cells [] step eg t = Inr (eg, t)" by (simp add: for_cells_def)
  show "for_cells (i # is) step eg t = res_bind (step i eg t) (\<lambda>(eg, t). for_cells is step eg t)"
    by (cases "step i eg t") (auto simp: for_cells_def e)
qed

lemma length_merge_entry: "length (fst (merge_entry f overwrite through packed e s)) \<le> Suc (length (fst s))"
proof -
  have u: "length (AList.update k v es) \<le> Suc (length es)" for k :: hkey and v :: zval and es by (induction es) auto
  show ?thesis using u by (cases e; cases s) (auto simp: Let_def split: option.splits prod.splits)
qed

lemma for_cells_merge:
  assumes step: "step_ok src g step" and len: "\<And>e s. length (fst (g e s)) \<le> Suc (length (fst s))"
  shows "ht_inv t \<Longrightarrow> refs_ok eg \<Longrightarrow> max (table_cap t) (8 * (length (ht_entries t) + length (cells src is))) < HT_MAX_SIZE \<Longrightarrow>
    \<exists>eg' t'. for_cells is step eg t = Inr (eg', t') \<and> ht_inv t' \<and> refs_ok eg' \<and>
      (ht_entries t', indirect eg', refs eg') = fold g (cell_entries (cells src is)) (ht_entries t, indirect eg, refs eg)"
proof (induction "is" arbitrary: eg t)
  case Nil
  then show ?case by simp
next
  case (Cons i "is")
  have s: "if cell_val src i = IS_UNDEF then step i eg t = Inr (eg, t)
    else merges eg t (g (raw_key (cell_key src i), cell_val src i) (ht_entries t, indirect eg, refs eg)) (step i eg t)"
    using step Cons.prems unfolding step_ok_def by simp
  show ?case
  proof (cases "cell_val src i = IS_UNDEF")
    case True
    then show ?thesis using s Cons.IH [OF Cons.prems(1,2)] Cons.prems(3) by simp
  next
    case False
    let ?s1 = "g (raw_key (cell_key src i), cell_val src i) (ht_entries t, indirect eg, refs eg)"
    obtain eg1 t1 where 1: "step i eg t = Inr (eg1, t1)" "ht_inv t1" "refs_ok eg1" "(ht_entries t1, indirect eg1, refs eg1) = ?s1"
      "table_cap t1 \<le> max (table_cap t) (8 * length (ht_entries t1))" using s False unfolding merges_def by auto
    have l: "length (ht_entries t1) \<le> Suc (length (ht_entries t))"
      using len [of "(raw_key (cell_key src i), cell_val src i)" "(ht_entries t, indirect eg, refs eg)"] by (simp flip: 1(4))
    have "max (table_cap t1) (8 * (length (ht_entries t1) + length (cells src is))) < HT_MAX_SIZE"
      using 1(5) l Cons.prems(3) False by (auto simp: max_def split: if_splits)
    from Cons.IH [OF 1(2,3) this] show ?thesis using False 1(1) by (simp add: 1(4))
  qed
qed

lemma whole_table:
  assumes src: "ht_inv src" and t: "ht_inv t" "refs_ok eg" and room: "max (table_cap t) (8 * (length (ht_entries t) + length (ht_entries src))) < HT_MAX_SIZE"
    and step: "step_ok src (merge_entry f overwrite through packed) step"
  shows "\<exists>eg' t'. for_cells [0 ..< nNumUsed src] step eg t = Inr (eg', t') \<and> ht_inv t' \<and> refs_ok eg' \<and>
    (ht_entries t', indirect eg', refs eg') = fold (merge_entry f overwrite through packed) (ht_entries src) (ht_entries t, indirect eg, refs eg)"
proof -
  note e = ht_entries_cells [OF src refl]
  show ?thesis unfolding e
    by (rule for_cells_merge [OF step length_merge_entry t]) (use room e in simp)
qed

lemma merge_ok:
  assumes "constructs ctor f" "ht_inv src" "ht_inv t" "refs_ok eg"
    "max (table_cap t) (8 * (length (ht_entries t) + length (ht_entries src))) < HT_MAX_SIZE"
  shows "\<exists>eg' t'. zend_hash_merge eg t src ctor overwrite = Inr (eg', t') \<and> ht_inv t' \<and> refs_ok eg' \<and>
      (ht_entries t', indirect eg', refs eg')
        = fold (merge_entry f overwrite True (ht_packed src)) (ht_entries src) (ht_entries t, indirect eg, refs eg)"
    "\<exists>eg' t'. zend_hash_copy eg t src ctor = Inr (eg', t') \<and> ht_inv t' \<and> refs_ok eg' \<and>
      (ht_entries t', indirect eg', refs eg')
        = fold (merge_entry f True False (ht_packed src)) (ht_entries src) (ht_entries t, indirect eg, refs eg)"
  unfolding zend_hash_merge_def zend_hash_copy_def
  using whole_table [OF assms(2-5) merge_step_ok [OF assms(1)]] whole_table [OF assms(2-5) copy_step_ok [OF assms(1)]] by blast+

section \<open>A sample\<close>

text \<open>Two values in a table; one of them may be a reference with a single owner or indirect.\<close>

definition sample_pair :: "zval \<Rightarrow> zval \<Rightarrow> hashtable" where
  "sample_pair v w = snd (store (LData 2) w sample_globals (snd (store (LData 0) v sample_globals sample_mixed)))"

text \<open>All references have one owner; slot 4 has a value.\<close>

definition sample_slots :: exec_globals where
  "sample_slots = sample_globals\<lparr>indirect := (\<lambda>_. IS_UNDEF)(4 := IS_FALSE), refs := \<lambda>_. (1, IS_LONG 7)\<rparr>"

lemma sample_pair_ok:
  assumes "v \<noteq> IS_UNDEF" "w \<noteq> IS_UNDEF"
  shows "ht_inv (sample_pair v w)" "ht_entries (sample_pair v w) = [(StrKey ''a'', v), (IntKey 6, w)]"
    "\<not> ht_packed (sample_pair v w)" "table_cap (sample_pair v w) = 8"
proof -
  let ?t = "snd (store (LData 0) v sample_globals sample_mixed)"
  have 0: "0 < data_used sample_mixed" "live (arData sample_mixed ! 0)" "bucket_key (arData sample_mixed ! 0) = StrKey ''a''"
    by (simp_all add: sample_mixed_def data_used_def bucket_key_def sample_key_def)
  note t = store_data_ok [OF sample_mixed_inv 0(1,2) assms(1), of sample_globals]
  have 2: "2 < data_used ?t" "live (arData ?t ! 2)" "bucket_key (arData ?t ! 2) = IntKey 6"
    by (simp_all add: sample_mixed_def data_used_def bucket_key_def store_def)
  note p = store_data_ok [OF t(1) 2(1,2) assms(2), of sample_globals]
  show "ht_inv (sample_pair v w)" using p(1) by (simp add: sample_pair_def)
  show "ht_entries (sample_pair v w) = [(StrKey ''a'', v), (IntKey 6, w)]"
    using p(2) unfolding t(2) 0(3) 2(3) sample_mixed_entries by (simp add: sample_pair_def)
  show "\<not> ht_packed (sample_pair v w)" "table_cap (sample_pair v w) = 8"
    by (simp_all add: sample_pair_def store_def table_cap_def sample_mixed_def)
qed

end
