(* ===== verification/Hash_Edge_Cases.thy ===== *)
theory Hash_Edge_Cases
  imports Hash_Samples Hash_Insert
begin

text \<open>
  Two behaviours of the code that the general theorems do not show: an iterator that a rehash leaves behind,
  and the next free index that an insertion into a packed table lowers.
\<close>

definition sample_gap :: hashtable where
  "sample_gap = sample_unpacked\<lparr>nNumUsed := 4, arData :=
      [\<lparr>b_val = IS_LONG 5, b_next = HT_INVALID_IDX, b_h = 0, b_key = None\<rparr>,
       \<lparr>b_val = IS_UNDEF, b_next = 0, b_h = 1, b_key = None\<rparr>, \<lparr>b_val = IS_UNDEF, b_next = 0, b_h = 1, b_key = None\<rparr>,
       \<lparr>b_val = IS_TRUE, b_next = HT_INVALID_IDX, b_h = 2, b_key = None\<rparr>] @ replicate 4 poison_bucket\<rparr>"

definition two_iterators :: exec_globals where
  "two_iterators = sample_globals\<lparr>ht_iterators := [\<lparr>it_ht = IT_HT 3, it_pos = 2, it_next_copy = 0\<rparr>, \<lparr>it_ht = IT_HT 3, it_pos = 3, it_next_copy = 1\<rparr>],
     ht_iterators_used := 2, iterators_count := (\<lambda>a. if a = 3 then 2 else 0)\<rparr>"

lemma link_bucket_parts:
  "nNumUsed (link_bucket i ht) = nNumUsed ht" "ht_addr (link_bucket i ht) = ht_addr ht" "nInternalPointer (link_bucket i ht) = nInternalPointer ht"
  "length (arData (link_bucket i ht)) = length (arData ht)"
  by (simp_all add: link_bucket_def HT_HASH_SET_def Let_def)

lemma link_bucket_cells:
  "b_val (arData (link_bucket i ht) ! k) = b_val (arData ht ! k)" "b_key (arData (link_bucket i ht) ! k) = b_key (arData ht ! k)"
  "b_h (arData (link_bucket i ht) ! k) = b_h (arData ht ! k)"
  using link_bucket_nth [of i ht k] by (simp_all add: core_eq_iff)

lemma rehash_leaves_iterator:
  "\<exists>eg' ht'. zend_hash_rehash two_iterators sample_gap = Inr (eg', ht') \<and> nNumUsed ht' = 2 \<and>
     b_h (arData sample_gap ! 3) = 2 \<and> b_h (arData ht' ! 1) = 2 \<and> map it_pos (ht_iterators eg') = [1, 3]"
  by (simp add: zend_hash_rehash_def two_iterators_def sample_gap_def sample_unpacked_def sample_globals_def upt_rec HT_IS_WITHOUT_HOLES_def
    HT_HASH_RESET_def link_bucket_parts link_bucket_cells HT_HAS_ITERATORS_def zend_hash_iterators_lower_pos_def migrate_iterators_def migrate_step_def 
    zend_hash_iterators_update_def zend_hash_iterators_update'_def for_iterators_def while_option_unfold move_bucket_def Let_def take_Cons')
lemma packed_insert_lowers_next_free:
  "\<exists>l eg' ht'. zend_hash_index_update sample_globals (sample_packed\<lparr>nNumUsed := 1, nNumOfElements := 1\<rparr>) 1 IS_NULL = Inr (l, eg', ht') \<and>
     nNextFreeElement sample_packed = 3 \<and> nNextFreeElement ht' = 2"
  by (simp add: zend_hash_index_update_def zend_hash_index_add_or_update_i_def sample_packed_def add_to_packed_def no_flag_def Let_def)


end
