(* ===== verification/Zend_Llist.thy ===== *)
theory Zend_Llist
  imports Zend_Sort "HOL-Library.Monad_Syntax"
begin

text \<open>
  Doubly linked lists (\<^verbatim>\<open>Zend/zend_llist.c\<close>, \<^verbatim>\<open>Zend/zend_llist.h\<close>) over an explicit heap of nodes.
\<close>

section \<open>Memory and lists\<close>

text \<open>
  An element is a node of a heap; a null pointer is \<open>None\<close>.  Reading or writing a node that was never
  allocated or has been freed is the result \<open>None\<close> of an operation.  \<^verbatim>\<open>pemalloc\<close> returns a new address, the
  destructor calls are logged in order.  Elements are copied by value (\<^verbatim>\<open>memcpy\<close> of \<^verbatim>\<open>size\<close> bytes).
\<close>

type_synonym ptr = "nat option"

record 'a zend_llist_element =
  el_next :: ptr
  el_prev :: ptr
  el_data :: 'a

record 'a zend_llist =
  ll_head :: ptr
  ll_tail :: ptr
  ll_count :: nat
  ll_dtor :: bool
  traverse_ptr :: ptr

record 'a ll_heap =
  nodes :: "nat \<rightharpoonup> 'a zend_llist_element"
  next_node :: nat
  destroyed :: "'a list"

type_synonym 'a ll_state = "'a zend_llist \<times> 'a ll_heap"

definition pemalloc :: "'a zend_llist_element \<Rightarrow> 'a ll_heap \<Rightarrow> nat \<times> 'a ll_heap" where
  "pemalloc e h = (next_node h, h\<lparr>nodes := (nodes h)(next_node h \<mapsto> e), next_node := next_node h + 1\<rparr>)"

definition pefree :: "nat \<Rightarrow> 'a ll_heap \<Rightarrow> 'a ll_heap" where
  "pefree p h = h\<lparr>nodes := (nodes h)(p := None)\<rparr>"

definition set_next :: "nat \<Rightarrow> ptr \<Rightarrow> 'a ll_heap \<Rightarrow> 'a ll_heap option" where
  "set_next p v h = map_option (\<lambda>e. h\<lparr>nodes := (nodes h)(p \<mapsto> e\<lparr>el_next := v\<rparr>)\<rparr>) (nodes h p)"

definition set_prev :: "nat \<Rightarrow> ptr \<Rightarrow> 'a ll_heap \<Rightarrow> 'a ll_heap option" where
  "set_prev p v h = map_option (\<lambda>e. h\<lparr>nodes := (nodes h)(p \<mapsto> e\<lparr>el_prev := v\<rparr>)\<rparr>) (nodes h p)"

definition set_data :: "nat \<Rightarrow> 'a \<Rightarrow> 'a ll_heap \<Rightarrow> 'a ll_heap option" where
  "set_data p v h = map_option (\<lambda>e. h\<lparr>nodes := (nodes h)(p \<mapsto> e\<lparr>el_data := v\<rparr>)\<rparr>) (nodes h p)"

definition ll_call_dtor :: "'a zend_llist \<Rightarrow> 'a \<Rightarrow> 'a ll_heap \<Rightarrow> 'a ll_heap" where
  "ll_call_dtor l x h = (if ll_dtor l then h\<lparr>destroyed := destroyed h @ [x]\<rparr> else h)"

section \<open>Operations\<close>

definition zend_llist_init :: "bool \<Rightarrow> ptr \<Rightarrow> 'a zend_llist" where
  "zend_llist_init has_dtor old_traverse_ptr =
     \<lparr>ll_head = None, ll_tail = None, ll_count = 0, ll_dtor = has_dtor, traverse_ptr = old_traverse_ptr\<rparr>"

definition zend_llist_add_element :: "'a zend_llist \<Rightarrow> 'a ll_heap \<Rightarrow> 'a \<Rightarrow> 'a ll_state option" where
  "zend_llist_add_element l h element =
     (case pemalloc \<lparr>el_next = None, el_prev = ll_tail l, el_data = element\<rparr> h of (tmp, h) \<Rightarrow> do {
        (l, h) \<leftarrow> (case ll_tail l of
            Some t \<Rightarrow> do { h \<leftarrow> set_next t (Some tmp) h; Some (l, h) }
          | None \<Rightarrow> Some (l\<lparr>ll_head := Some tmp\<rparr>, h));
        Some (l\<lparr>ll_tail := Some tmp, ll_count := ll_count l + 1\<rparr>, h) })"

definition zend_llist_prepend_element :: "'a zend_llist \<Rightarrow> 'a ll_heap \<Rightarrow> 'a \<Rightarrow> 'a ll_state option" where
  "zend_llist_prepend_element l h element =
     (case pemalloc \<lparr>el_next = ll_head l, el_prev = None, el_data = element\<rparr> h of (tmp, h) \<Rightarrow> do {
        (l, h) \<leftarrow> (case ll_head l of
            Some t \<Rightarrow> do { h \<leftarrow> set_prev t (Some tmp) h; Some (l, h) }
          | None \<Rightarrow> Some (l\<lparr>ll_tail := Some tmp\<rparr>, h));
        Some (l\<lparr>ll_head := Some tmp, ll_count := ll_count l + 1\<rparr>, h) })"

definition DEL_LLIST_ELEMENT :: "nat \<Rightarrow> 'a zend_llist \<Rightarrow> 'a ll_heap \<Rightarrow> 'a ll_state option" where
  "DEL_LLIST_ELEMENT current l h = do {
     e \<leftarrow> nodes h current;
     (l, h) \<leftarrow> (case el_prev e of
         Some p \<Rightarrow> do { h \<leftarrow> set_next p (el_next e) h; Some (l, h) }
       | None \<Rightarrow> Some (l\<lparr>ll_head := el_next e\<rparr>, h));
     (l, h) \<leftarrow> (case el_next e of
         Some n \<Rightarrow> do { h \<leftarrow> set_prev n (el_prev e) h; Some (l, h) }
       | None \<Rightarrow> Some (l\<lparr>ll_tail := el_prev e\<rparr>, h));
     Some (l\<lparr>ll_count := ll_count l - 1\<rparr>, pefree current (ll_call_dtor l (el_data e) h)) }"

partial_function (option) del_element_loop :: "('a \<Rightarrow> bool) \<Rightarrow> ptr \<Rightarrow> 'a zend_llist \<Rightarrow> 'a ll_heap \<Rightarrow> 'a ll_state option" where
  "del_element_loop matches current l h = (case current of
       None \<Rightarrow> Some (l, h)
     | Some c \<Rightarrow> do {
         e \<leftarrow> nodes h c;
         if matches (el_data e) then DEL_LLIST_ELEMENT c l h
         else del_element_loop matches (el_next e) l h })"

definition zend_llist_del_element :: "'a zend_llist \<Rightarrow> 'a ll_heap \<Rightarrow> 'b \<Rightarrow> ('a \<Rightarrow> 'b \<Rightarrow> bool) \<Rightarrow> 'a ll_state option" where
  "zend_llist_del_element l h element compare = del_element_loop (\<lambda>x. compare x element) (ll_head l) l h"

partial_function (option) destroy_loop :: "'a zend_llist \<Rightarrow> ptr \<Rightarrow> 'a ll_heap \<Rightarrow> 'a ll_heap option" where
  "destroy_loop l current h = (case current of
       None \<Rightarrow> Some h
     | Some c \<Rightarrow> do {
         e \<leftarrow> nodes h c;
         destroy_loop l (el_next e) (pefree c (ll_call_dtor l (el_data e) h)) })"

definition zend_llist_destroy :: "'a zend_llist \<Rightarrow> 'a ll_heap \<Rightarrow> 'a ll_state option" where
  "zend_llist_destroy l h = do {
     h \<leftarrow> destroy_loop l (ll_head l) h;
     Some (l\<lparr>ll_head := None, ll_tail := None, ll_count := 0\<rparr>, h) }"

definition zend_llist_clean :: "'a zend_llist \<Rightarrow> 'a ll_heap \<Rightarrow> 'a ll_state option" where
  "zend_llist_clean l h = zend_llist_destroy l h"

definition zend_llist_remove_tail :: "'a zend_llist \<Rightarrow> 'a ll_heap \<Rightarrow> 'a ll_state option" where
  "zend_llist_remove_tail l h = (case ll_tail l of
       None \<Rightarrow> Some (l, h)
     | Some old_tail \<Rightarrow> do {
         e \<leftarrow> nodes h old_tail;
         (l, h) \<leftarrow> (case el_prev e of
             Some p \<Rightarrow> do { h \<leftarrow> set_next p None h; Some (l, h) }
           | None \<Rightarrow> Some (l\<lparr>ll_head := None\<rparr>, h));
         Some (l\<lparr>ll_tail := el_prev e, ll_count := ll_count l - 1\<rparr>, pefree old_tail (ll_call_dtor l (el_data e) h)) })"

partial_function (option) copy_loop :: "ptr \<Rightarrow> 'a zend_llist \<Rightarrow> 'a ll_heap \<Rightarrow> 'a ll_state option" where
  "copy_loop ptr dst h = (case ptr of
       None \<Rightarrow> Some (dst, h)
     | Some p \<Rightarrow> do {
         e \<leftarrow> nodes h p;
         (dst, h) \<leftarrow> zend_llist_add_element dst h (el_data e);
         e \<leftarrow> nodes h p;
         copy_loop (el_next e) dst h })"

definition zend_llist_copy :: "ptr \<Rightarrow> 'a zend_llist \<Rightarrow> 'a ll_heap \<Rightarrow> 'a ll_state option" where
  "zend_llist_copy old_traverse_ptr src h = copy_loop (ll_head src) (zend_llist_init (ll_dtor src) old_traverse_ptr) h"

text \<open>A callback gets the data of an element, may change it in place and may change a state of its caller.\<close>

partial_function (option) apply_with_del_loop ::
  "('a \<Rightarrow> 's \<Rightarrow> bool \<times> 'a \<times> 's) \<Rightarrow> ptr \<Rightarrow> 's \<Rightarrow> 'a zend_llist \<Rightarrow> 'a ll_heap \<Rightarrow> ('s \<times> 'a ll_state) option" where
  "apply_with_del_loop func element s l h = (case element of
       None \<Rightarrow> Some (s, l, h)
     | Some p \<Rightarrow> do {
         e \<leftarrow> nodes h p;
         (case func (el_data e) s of (del, x, s) \<Rightarrow> do {
            h \<leftarrow> set_data p x h;
            (l, h) \<leftarrow> (if del then DEL_LLIST_ELEMENT p l h else Some (l, h));
            apply_with_del_loop func (el_next e) s l h }) })"

definition zend_llist_apply_with_del ::
  "'a zend_llist \<Rightarrow> 'a ll_heap \<Rightarrow> ('a \<Rightarrow> 's \<Rightarrow> bool \<times> 'a \<times> 's) \<Rightarrow> 's \<Rightarrow> ('s \<times> 'a ll_state) option" where
  "zend_llist_apply_with_del l h func s = apply_with_del_loop func (ll_head l) s l h"

partial_function (option) llist_apply_loop ::
  "('a \<Rightarrow> 's \<Rightarrow> 'a \<times> 's) \<Rightarrow> ptr \<Rightarrow> 's \<Rightarrow> 'a ll_heap \<Rightarrow> ('s \<times> 'a ll_heap) option" where
  "llist_apply_loop func element s h = (case element of
       None \<Rightarrow> Some (s, h)
     | Some p \<Rightarrow> do {
         e \<leftarrow> nodes h p;
         (case func (el_data e) s of (x, s) \<Rightarrow> do {
            h \<leftarrow> set_data p x h;
            e \<leftarrow> nodes h p;
            llist_apply_loop func (el_next e) s h }) })"

definition zend_llist_apply :: "'a zend_llist \<Rightarrow> 'a ll_heap \<Rightarrow> ('a \<Rightarrow> 's \<Rightarrow> 'a \<times> 's) \<Rightarrow> 's \<Rightarrow> ('s \<times> 'a ll_heap) option" where
  "zend_llist_apply l h func s = llist_apply_loop func (ll_head l) s h"

definition zend_llist_apply_with_argument ::
  "'a zend_llist \<Rightarrow> 'a ll_heap \<Rightarrow> ('a \<Rightarrow> 'arg \<Rightarrow> 's \<Rightarrow> 'a \<times> 's) \<Rightarrow> 'arg \<Rightarrow> 's \<Rightarrow> ('s \<times> 'a ll_heap) option" where
  "zend_llist_apply_with_argument l h func arg s = llist_apply_loop (\<lambda>data. func data arg) (ll_head l) s h"

definition zend_llist_apply_with_arguments ::
  "'a zend_llist \<Rightarrow> 'a ll_heap \<Rightarrow> ('a \<Rightarrow> nat \<Rightarrow> 'arg list \<Rightarrow> 's \<Rightarrow> 'a \<times> 's) \<Rightarrow> 'arg list \<Rightarrow> 's \<Rightarrow> ('s \<times> 'a ll_heap) option" where
  "zend_llist_apply_with_arguments l h func args s =
     llist_apply_loop (\<lambda>data. func data (length args) args) (ll_head l) s h"

section \<open>Sorting\<close>

partial_function (option) collect_loop :: "'a ll_heap \<Rightarrow> ptr \<Rightarrow> nat list option" where
  "collect_loop h element = (case element of
       None \<Rightarrow> Some []
     | Some p \<Rightarrow> do { e \<leftarrow> nodes h p; ps \<leftarrow> collect_loop h (el_next e); Some (p # ps) })"

text \<open>\<^verbatim>\<open>elements[i]->prev = elements[i-1]; elements[i-1]->next = elements[i];\<close> for the pairs of neighbours.\<close>

fun relink :: "nat list \<Rightarrow> 'a ll_heap \<Rightarrow> 'a ll_heap option" where
  "relink (a # b # ps) h = do { h \<leftarrow> set_prev b (Some a) h; h \<leftarrow> set_next a (Some b) h; relink (b # ps) h }"
| "relink ps h = Some h"

definition zend_llist_swap :: "nat swap_func" where
  "zend_llist_swap p q = (q, p)"

text \<open>The comparison gets the two elements; only their data can tell them apart.\<close>

definition element_compare :: "'a ll_heap \<Rightarrow> 'a compare_func \<Rightarrow> nat compare_func" where
  "element_compare h comp_func a b = comp_func (el_data (the (nodes h a))) (el_data (the (nodes h b)))"

definition zend_llist_sort :: "'a zend_llist \<Rightarrow> 'a ll_heap \<Rightarrow> 'a compare_func \<Rightarrow> 'a ll_state option" where
  "zend_llist_sort l h comp_func =
     (if ll_count l = 0 then Some (l, h)
      else do {
        elements \<leftarrow> collect_loop h (ll_head l);
        let elements = zend_sort (element_compare h comp_func) zend_llist_swap elements;
        h \<leftarrow> set_prev (hd elements) None h;
        h \<leftarrow> relink elements h;
        h \<leftarrow> set_next (last elements) None h;
        Some (l\<lparr>ll_head := Some (hd elements), ll_tail := Some (last elements)\<rparr>, h) })"

section \<open>Traversal\<close>

definition zend_llist_count :: "'a zend_llist \<Rightarrow> nat" where
  "zend_llist_count l = ll_count l"

text \<open>
  A position is a variable of the caller or, for a null pointer, the field \<^verbatim>\<open>traverse_ptr\<close> of the list.  The
  result is the data at the new position.
\<close>

definition get_position :: "'a zend_llist \<Rightarrow> ptr option \<Rightarrow> ptr" where
  "get_position l pos = (case pos of Some c \<Rightarrow> c | None \<Rightarrow> traverse_ptr l)"

definition set_position :: "ptr \<Rightarrow> 'a zend_llist \<Rightarrow> ptr option \<Rightarrow> 'a zend_llist \<times> ptr option" where
  "set_position c l pos = (case pos of Some _ \<Rightarrow> (l, Some c) | None \<Rightarrow> (l\<lparr>traverse_ptr := c\<rparr>, None))"

type_synonym 'a traversal = "('a option \<times> 'a zend_llist \<times> ptr option) option"

definition move_to :: "ptr \<Rightarrow> 'a zend_llist \<Rightarrow> 'a ll_heap \<Rightarrow> ptr option \<Rightarrow> 'a traversal" where
  "move_to c l h pos = (case c of
       None \<Rightarrow> Some (None, set_position c l pos)
     | Some p \<Rightarrow> do { e \<leftarrow> nodes h p; Some (Some (el_data e), set_position c l pos) })"

definition zend_llist_get_first_ex :: "'a zend_llist \<Rightarrow> 'a ll_heap \<Rightarrow> ptr option \<Rightarrow> 'a traversal" where
  "zend_llist_get_first_ex l h pos = move_to (ll_head l) l h pos"

definition zend_llist_get_last_ex :: "'a zend_llist \<Rightarrow> 'a ll_heap \<Rightarrow> ptr option \<Rightarrow> 'a traversal" where
  "zend_llist_get_last_ex l h pos = move_to (ll_tail l) l h pos"

definition zend_llist_get_next_ex :: "'a zend_llist \<Rightarrow> 'a ll_heap \<Rightarrow> ptr option \<Rightarrow> 'a traversal" where
  "zend_llist_get_next_ex l h pos = (case get_position l pos of
       None \<Rightarrow> Some (None, l, pos)
     | Some p \<Rightarrow> do { e \<leftarrow> nodes h p; move_to (el_next e) l h pos })"

definition zend_llist_get_prev_ex :: "'a zend_llist \<Rightarrow> 'a ll_heap \<Rightarrow> ptr option \<Rightarrow> 'a traversal" where
  "zend_llist_get_prev_ex l h pos = (case get_position l pos of
       None \<Rightarrow> Some (None, l, pos)
     | Some p \<Rightarrow> do { e \<leftarrow> nodes h p; move_to (el_prev e) l h pos })"

definition zend_llist_get_first :: "'a zend_llist \<Rightarrow> 'a ll_heap \<Rightarrow> 'a traversal" where
  "zend_llist_get_first l h = zend_llist_get_first_ex l h None"

definition zend_llist_get_last :: "'a zend_llist \<Rightarrow> 'a ll_heap \<Rightarrow> 'a traversal" where
  "zend_llist_get_last l h = zend_llist_get_last_ex l h None"

definition zend_llist_get_next :: "'a zend_llist \<Rightarrow> 'a ll_heap \<Rightarrow> 'a traversal" where
  "zend_llist_get_next l h = zend_llist_get_next_ex l h None"

definition zend_llist_get_prev :: "'a zend_llist \<Rightarrow> 'a ll_heap \<Rightarrow> 'a traversal" where
  "zend_llist_get_prev l h = zend_llist_get_prev_ex l h None"


end
