(* ===== verification/Zend_Llist_Laws.thy ===== *)
theory Zend_Llist_Laws
  imports Zend_Llist Hash_Sort_Laws
begin

text \<open>
  The operations on doubly linked lists implement operations on sequences: the links are right in both
  directions, no freed node is read, the destructor gets every removed element once, other nodes of the heap stay as
  they are.  The contract is stated once as a simulation, with every operation as a step.
\<close>

section \<open>Doubly linked segments\<close>

text \<open>
  The content of a list: the addresses of its elements with their data.  A segment between the pointers
  \<open>p\<close> and \<open>q\<close> has all links in both directions.
\<close>

definition first_of :: "(nat \<times> 'a) list \<Rightarrow> ptr \<Rightarrow> ptr" where
  "first_of ns q = (case ns of [] \<Rightarrow> q | n # _ \<Rightarrow> Some (fst n))"

definition last_of :: "(nat \<times> 'a) list \<Rightarrow> ptr \<Rightarrow> ptr" where
  "last_of ns p = (if ns = [] then p else Some (fst (last ns)))"

fun dseg :: "(nat \<rightharpoonup> 'a zend_llist_element) \<Rightarrow> ptr \<Rightarrow> (nat \<times> 'a) list \<Rightarrow> ptr \<Rightarrow> bool" where
  "dseg m p [] q = True"
| "dseg m p (n # ns) q = (m (fst n) = Some \<lparr>el_next = first_of ns q, el_prev = p, el_data = snd n\<rparr> \<and> dseg m (Some (fst n)) ns q)"

definition llist_inv :: "'a zend_llist \<Rightarrow> 'a ll_heap \<Rightarrow> (nat \<times> 'a) list \<Rightarrow> bool" where
  "llist_inv l h ns \<longleftrightarrow> dseg (nodes h) None ns None \<and> ll_head l = first_of ns None \<and> ll_tail l = last_of ns None \<and>
     ll_count l = length ns \<and> distinct (map fst ns) \<and> (\<forall>a. nodes h a \<noteq> None \<longrightarrow> a < next_node h)"

lemma first_of_simps [simp]: "first_of [] q = q" "first_of (n # ns) q = Some (fst n)"
  "first_of (xs @ ys) q = first_of xs (first_of ys q)"
  by (simp_all add: first_of_def split: list.splits)

lemma last_of_simps [simp]: "last_of [] q = q" "last_of (n # ns) q = last_of ns (Some (fst n))"
  "last_of (xs @ ys) q = last_of ys (last_of xs q)"
  by (simp_all add: last_of_def)

lemma last_of_any: "ns \<noteq> [] \<Longrightarrow> last_of ns p = last_of ns q"
  by (simp add: last_of_def)

lemma first_of_any: "ns \<noteq> [] \<Longrightarrow> first_of ns p = first_of ns q"
  by (cases ns) simp_all

lemma dseg_append [simp]: "dseg m p (xs @ ys) q \<longleftrightarrow> dseg m p xs (first_of ys q) \<and> dseg m (last_of xs p) ys q"
  by (induction xs arbitrary: p) auto

lemma dseg_frame: "a \<notin> fst ` set ns \<Longrightarrow> dseg (m(a := v)) p ns q = dseg m p ns q"
  by (induction ns arbitrary: p) auto

lemma dseg_transfer: "dseg m p ns q \<Longrightarrow> (\<And>a. a \<in> fst ` set ns \<Longrightarrow> m' a = m a) \<Longrightarrow> dseg m' p ns q"
  by (induction ns arbitrary: p) auto

lemma disjoint_keys: "distinct (map fst (xs @ ys)) \<Longrightarrow> a \<in> fst ` set ys \<Longrightarrow> a \<notin> fst ` set xs"
  by auto

lemma dseg_nodes: "dseg m p ns q \<Longrightarrow> a \<in> fst ` set ns \<Longrightarrow> m a \<noteq> None"
  by (induction ns arbitrary: p) auto

text \<open>The first and the last node of a segment, with the link that leaves it.\<close>

lemma dseg_set_next:
  assumes "dseg m p (ns @ [n]) q" "distinct (map fst (ns @ [n]))"
  shows "m (fst n) = Some \<lparr>el_next = q, el_prev = last_of ns p, el_data = snd n\<rparr>"
    "dseg (m(fst n \<mapsto> \<lparr>el_next = r, el_prev = last_of ns p, el_data = snd n\<rparr>)) p (ns @ [n]) r"
  using assms by (auto simp: dseg_frame)

lemma dseg_set_prev:
  assumes "dseg m p (n # ns) q" "distinct (map fst (n # ns))"
  shows "m (fst n) = Some \<lparr>el_next = first_of ns q, el_prev = p, el_data = snd n\<rparr>"
    "dseg (m(fst n \<mapsto> \<lparr>el_next = first_of ns q, el_prev = r, el_data = snd n\<rparr>)) r (n # ns) q"
  using assms by (auto simp: dseg_frame)

lemma llist_invD:
  assumes "llist_inv l h ns"
  shows "dseg (nodes h) None ns None" "ll_head l = first_of ns None" "ll_tail l = last_of ns None" "ll_count l = length ns"
    "distinct (map fst ns)" "\<And>a. nodes h a \<noteq> None \<Longrightarrow> a < next_node h"
  using assms by (simp_all add: llist_inv_def)

lemma fresh_node: "llist_inv l h ns \<Longrightarrow> next_node h \<notin> fst ` set ns"
  using dseg_nodes [OF llist_invD(1), of l h ns "next_node h"] llist_invD(6) [of l h ns "next_node h"] by auto

text \<open>What an operation on one list leaves alone: all nodes that belong to neither state of it.\<close>

definition ll_frame :: "(nat \<times> 'a) list \<Rightarrow> 'a ll_heap \<Rightarrow> 'a ll_heap \<Rightarrow> bool" where
  "ll_frame ns h h' \<longleftrightarrow> (\<forall>a < next_node h. a \<notin> fst ` set ns \<longrightarrow> nodes h' a = nodes h a) \<and> next_node h \<le> next_node h'"

section \<open>Adding and removing\<close>

lemma add_element_ok:
  assumes "llist_inv l h ns"
  shows "\<exists>l' h'. zend_llist_add_element l h x = Some (l', h') \<and> llist_inv l' h' (ns @ [(next_node h, x)]) \<and>
    destroyed h' = destroyed h \<and> ll_frame ns h h' \<and> ll_dtor l' = ll_dtor l"
proof (cases ns rule: rev_cases)
  case Nil
  then show ?thesis using llist_invD [OF assms]
    by (auto simp: zend_llist_add_element_def pemalloc_def llist_inv_def ll_frame_def less_Suc_eq split: if_splits)
next
  case (snoc ms n)
  note inv = llist_invD [OF assms] and f = fresh_node [OF assms]
  let ?m = "(nodes h)(next_node h \<mapsto> \<lparr>el_next = None, el_prev = Some (fst n), el_data = x\<rparr>)"
  have d: "dseg ?m None (ms @ [n]) None" using inv(1) f unfolding snoc by (subst dseg_frame) simp_all
  note u = dseg_set_next [OF d inv(5) [unfolded snoc]]
  show ?thesis using u(1) u(2) [of "Some (next_node h)"] inv f snoc
    by (auto simp: zend_llist_add_element_def pemalloc_def set_next_def llist_inv_def ll_frame_def less_Suc_eq split: if_splits)
qed

lemma prepend_element_ok:
  assumes "llist_inv l h ns"
  shows "\<exists>l' h'. zend_llist_prepend_element l h x = Some (l', h') \<and> llist_inv l' h' ((next_node h, x) # ns) \<and>
    destroyed h' = destroyed h \<and> ll_frame ns h h' \<and> ll_dtor l' = ll_dtor l"
proof (cases ns)
  case Nil
  then show ?thesis using llist_invD [OF assms]
    by (auto simp: zend_llist_prepend_element_def pemalloc_def llist_inv_def ll_frame_def less_Suc_eq split: if_splits)
next
  case (Cons n ms)
  note inv = llist_invD [OF assms] and f = fresh_node [OF assms]
  let ?m = "(nodes h)(next_node h \<mapsto> \<lparr>el_next = Some (fst n), el_prev = None, el_data = x\<rparr>)"
  have d: "dseg ?m None (n # ms) None" using inv(1) f unfolding Cons by (subst dseg_frame) simp_all
  note u = dseg_set_prev [OF d inv(5) [unfolded Cons]]
  show ?thesis using u(1) u(2) [of "Some (next_node h)"] inv f Cons
    by (auto simp: zend_llist_prepend_element_def pemalloc_def set_prev_def llist_inv_def ll_frame_def less_Suc_eq split: if_splits)
qed

text \<open>Taking a node out of the middle: the two neighbours, if there are any, are linked to each other.\<close>

lemma unlink_prev:
  assumes d: "dseg (nodes h) p (xs @ n # ys) q" and dd: "distinct (map fst (xs @ n # ys))" and "p = None"
  shows "\<exists>l' h'. (case last_of xs None of Some p \<Rightarrow> do { h \<leftarrow> set_next p (first_of ys q) h; Some (l, h) }
       | None \<Rightarrow> Some (l\<lparr>ll_head := first_of ys q\<rparr>, h)) = Some (l', h') \<and>
     l' = (if xs = [] then l\<lparr>ll_head := first_of ys q\<rparr> else l) \<and>
     h' = h\<lparr>nodes := nodes h'\<rparr> \<and> dseg (nodes h') p xs (first_of ys q) \<and> (\<forall>a. a \<notin> fst ` set xs \<longrightarrow> nodes h' a = nodes h a)"
proof (cases xs rule: rev_cases)
  case (snoc zs z)
  have "dseg (nodes h) p (zs @ [z]) (Some (fst n))" "distinct (map fst (zs @ [z]))" using d dd snoc by simp_all
  note u = dseg_set_next [OF this]
  show ?thesis using u(1) u(2) [of "first_of ys q"] snoc assms(3) by (auto simp: set_next_def)
qed simp

lemma unlink_next:
  assumes d: "dseg (nodes h) p (n # ys) q" and dd: "distinct (map fst (n # ys))" and "q = None"
  shows "\<exists>l' h'. (case first_of ys q of Some c \<Rightarrow> do { h \<leftarrow> set_prev c p h; Some (l, h) }
       | None \<Rightarrow> Some (l\<lparr>ll_tail := p\<rparr>, h)) = Some (l', h') \<and>
     l' = (if ys = [] then l\<lparr>ll_tail := p\<rparr> else l) \<and>
     h' = h\<lparr>nodes := nodes h'\<rparr> \<and> dseg (nodes h') p ys q \<and> (\<forall>a. a \<notin> fst ` set ys \<longrightarrow> nodes h' a = nodes h a)"
proof (cases ys)
  case (Cons y zs)
  have "dseg (nodes h) (Some (fst n)) (y # zs) q" "distinct (map fst (y # zs))" using d dd Cons by simp_all
  note u = dseg_set_prev [OF this]
  show ?thesis using u(1) u(2) [of p] Cons by (auto simp: set_prev_def)
qed (use assms in simp)

lemma DEL_ok:
  assumes "llist_inv l h (xs @ n # ys)"
  shows "\<exists>l' h'. DEL_LLIST_ELEMENT (fst n) l h = Some (l', h') \<and> llist_inv l' h' (xs @ ys) \<and>
    destroyed h' = destroyed h @ (if ll_dtor l then [snd n] else []) \<and> ll_frame (xs @ n # ys) h h' \<and>
    ll_dtor l' = ll_dtor l \<and> nodes h' (fst n) = None"
proof -
  note inv = llist_invD [OF assms]
  let ?e = "\<lparr>el_next = first_of ys None, el_prev = last_of xs None, el_data = snd n\<rparr>"
  have e: "nodes h (fst n) = Some ?e" using inv(1) by simp
  obtain l1 h1 where 1: "(case last_of xs None of Some p \<Rightarrow> do { h \<leftarrow> set_next p (first_of ys None) h; Some (l, h) }
       | None \<Rightarrow> Some (l\<lparr>ll_head := first_of ys None\<rparr>, h)) = Some (l1, h1)"
     "l1 = (if xs = [] then l\<lparr>ll_head := first_of ys None\<rparr> else l)" "h1 = h\<lparr>nodes := nodes h1\<rparr>"
     "dseg (nodes h1) None xs (first_of ys None)" "\<And>a. a \<notin> fst ` set xs \<Longrightarrow> nodes h1 a = nodes h a"
    using unlink_prev [OF inv(1,5) refl, of l] by blast
  have "dseg (nodes h) (last_of xs None) (n # ys) None" using inv(1) by simp
  from dseg_transfer [OF this 1(5) [OF disjoint_keys [OF inv(5)]]]
  have "dseg (nodes h1) (last_of xs None) (n # ys) None" .
  then obtain l2 h2 where 2: "(case first_of ys None of Some c \<Rightarrow> do { h \<leftarrow> set_prev c (last_of xs None) h1; Some (l1, h) }
       | None \<Rightarrow> Some (l1\<lparr>ll_tail := last_of xs None\<rparr>, h1)) = Some (l2, h2)"
     "l2 = (if ys = [] then l1\<lparr>ll_tail := last_of xs None\<rparr> else l1)" "h2 = h1\<lparr>nodes := nodes h2\<rparr>"
     "dseg (nodes h2) (last_of xs None) ys None" "\<And>a. a \<notin> fst ` set ys \<Longrightarrow> nodes h2 a = nodes h1 a"
    using unlink_next [of h1 "last_of xs None" n ys None l1] inv(5) by fastforce
  let ?h = "pefree (fst n) (ll_call_dtor l (snd n) h2)"
  have r: "DEL_LLIST_ELEMENT (fst n) l h = Some (l2\<lparr>ll_count := ll_count l2 - 1\<rparr>, ?h)"
    unfolding DEL_LLIST_ELEMENT_def e bind.simps zend_llist_element.simps 1(1) prod.case 2(1) using 1(2) 2(2) by (simp add: ll_call_dtor_def)
  have n: "nodes ?h = (nodes h2)(fst n := None)" "next_node ?h = next_node h"
    using arg_cong [OF 1(3), of next_node] arg_cong [OF 2(3), of next_node] by (simp_all add: pefree_def ll_call_dtor_def)
  have "\<And>a. a \<in> fst ` set xs \<Longrightarrow> a \<notin> fst ` set ys" using inv(5) by auto
  then have "dseg (nodes h2) None xs (first_of ys None)" by (intro dseg_transfer [OF 1(4)] 2(5))
  then have d: "dseg (nodes ?h) None (xs @ ys) None" using 2(4) inv(5) n(1) by (simp add: dseg_frame)
  have o: "nodes ?h a = (if a = fst n then None else nodes h a)" if "a \<notin> fst ` set (xs @ ys)" for a
    using that 1(5) [of a] 2(5) [of a] n(1) by (simp add: image_Un)
  have k: "a < next_node h" if "nodes ?h a \<noteq> None" for a
  proof (cases "a \<in> fst ` set (xs @ ys)")
    case True
    then show ?thesis using dseg_nodes [OF inv(1), of a] inv(6) [of a] by auto
  next
    case False
    then show ?thesis using that o [OF False] inv(6) [of a] by (auto split: if_splits)
  qed
  have i: "llist_inv (l2\<lparr>ll_count := ll_count l2 - 1\<rparr>) ?h (xs @ ys)"
    using d inv(2-5) 1(2) 2(2) k n(2) last_of_any [of ys] first_of_any [of xs] by (auto simp: llist_inv_def)
  have "destroyed h2 = destroyed h" using arg_cong [OF 1(3), of destroyed] arg_cong [OF 2(3), of destroyed] by simp
  moreover have "ll_frame (xs @ n # ys) h ?h" using o n(2) by (auto simp: ll_frame_def)
  moreover have "ll_dtor l2 = ll_dtor l" using 1(2) 2(2) by simp
  ultimately show ?thesis using r i n(1) by (auto simp: pefree_def ll_call_dtor_def)
qed


lemma ll_frame_refl [simp]: "ll_frame ns h h"
  by (simp add: ll_frame_def)

text \<open>\<open>zend_llist_del_element\<close> removes the first element that matches.\<close>

fun remove_first :: "('a \<Rightarrow> bool) \<Rightarrow> 'a list \<Rightarrow> 'a list" where
  "remove_first P [] = []"
| "remove_first P (x # xs) = (if P x then xs else x # remove_first P xs)"

lemma del_element_loop_ok:
  assumes "llist_inv l h (xs @ ys)"
  shows "\<exists>l' h'. del_element_loop P (first_of ys None) l h = Some (l', h') \<and> llist_inv l' h' (xs @ remove_first (P \<circ> snd) ys) \<and>
    destroyed h' = destroyed h @ (if ll_dtor l then take 1 (filter P (map snd ys)) else []) \<and> ll_frame (xs @ ys) h h' \<and> ll_dtor l' = ll_dtor l"
  using assms
proof (induction ys arbitrary: xs)
  case Nil
  then show ?case by (simp add: del_element_loop.simps [of P None])
next
  case (Cons n ys)
  have e: "nodes h (fst n) = Some \<lparr>el_next = first_of ys None, el_prev = last_of xs None, el_data = snd n\<rparr>"
    using llist_invD(1) [OF Cons.prems] by simp
  show ?case
  proof (cases "P (snd n)")
    case True
    then show ?thesis using DEL_ok [OF Cons.prems] e by (auto simp: del_element_loop.simps [of P "Some (fst n)"])
  next
    case False
    then have s: "del_element_loop P (Some (fst n)) l h = del_element_loop P (first_of ys None) l h"
      using e by (simp add: del_element_loop.simps [of P "Some (fst n)"])
    show ?thesis using Cons.IH [of "xs @ [n]"] Cons.prems False s by (auto split: if_splits)
  qed
qed

lemma destroy_loop_ok:
  assumes "dseg (nodes h) p ns None" "distinct (map fst ns)"
  shows "\<exists>h'. destroy_loop l (first_of ns None) h = Some h' \<and> next_node h' = next_node h \<and>
    nodes h' = (\<lambda>a. if a \<in> fst ` set ns then None else nodes h a) \<and>
    destroyed h' = destroyed h @ (if ll_dtor l then map snd ns else [])"
  using assms
proof (induction ns arbitrary: p h)
  case Nil
  then show ?case by (simp add: destroy_loop.simps [of l None])
next
  case (Cons n ns)
  let ?h = "pefree (fst n) (ll_call_dtor l (snd n) h)"
  have n: "nodes ?h = (nodes h)(fst n := None)" by (simp add: pefree_def ll_call_dtor_def)
  have "dseg (nodes ?h) (Some (fst n)) ns None" unfolding n using Cons.prems by (simp add: dseg_frame)
  from Cons.IH [OF this] Cons.prems obtain h' where "destroy_loop l (first_of ns None) ?h = Some h'"
    "nodes h' = (\<lambda>a. if a \<in> fst ` set ns then None else nodes ?h a)" "next_node h' = next_node ?h"
    "destroyed h' = destroyed ?h @ (if ll_dtor l then map snd ns else [])" by auto
  moreover from this(2) have "nodes h' = (\<lambda>a. if a \<in> fst ` set (n # ns) then None else nodes h a)" unfolding n by (auto intro!: ext)
  ultimately show ?case using Cons.prems by (auto simp: destroy_loop.simps [of l "Some (fst n)"] pefree_def ll_call_dtor_def)
qed

lemma llist_destroy_ok:
  assumes "llist_inv l h ns"
  shows "\<exists>l' h'. zend_llist_destroy l h = Some (l', h') \<and> llist_inv l' h' [] \<and>
    destroyed h' = destroyed h @ (if ll_dtor l then map snd ns else []) \<and> ll_frame ns h h' \<and> ll_dtor l' = ll_dtor l"
  using destroy_loop_ok [OF llist_invD(1,5) [OF assms], of l] llist_invD(2,6) [OF assms]
  by (auto simp: zend_llist_destroy_def llist_inv_def ll_frame_def)

lemma remove_tail_ok:
  assumes "llist_inv l h ns"
  shows "\<exists>l' h'. zend_llist_remove_tail l h = Some (l', h') \<and> llist_inv l' h' (butlast ns) \<and>
    destroyed h' = destroyed h @ (if ll_dtor l \<and> ns \<noteq> [] then [snd (last ns)] else []) \<and> ll_frame ns h h' \<and> ll_dtor l' = ll_dtor l"
proof (cases ns rule: rev_cases)
  case Nil
  then show ?thesis using assms llist_invD(3) [OF assms] by (simp add: zend_llist_remove_tail_def)
next
  case (snoc xs n)
  note inv = llist_invD [OF assms]
  have e: "nodes h (fst n) = Some \<lparr>el_next = None, el_prev = last_of xs None, el_data = snd n\<rparr>" using inv(1) snoc by simp
  have "DEL_LLIST_ELEMENT (fst n) l h = zend_llist_remove_tail l h"
    using e inv(3) snoc by (simp add: DEL_LLIST_ELEMENT_def zend_llist_remove_tail_def ll_call_dtor_def
        split: option.splits bind_splits) 
  then show ?thesis using DEL_ok [of l h xs n "[]"] assms snoc by auto
qed

text \<open>Copying: the new list has its own nodes, the source is not touched.\<close>

lemma copy_loop_ok:
  assumes "dseg (nodes h) p ys None" "llist_inv l h xs" "fst ` set xs \<inter> fst ` set ys = {}" "\<forall>a \<in> fst ` set xs \<union> fst ` set ys. a < next_node h"
  shows "\<exists>l' h' zs. copy_loop (first_of ys None) l h = Some (l', h') \<and> llist_inv l' h' (xs @ zs) \<and> map snd zs = map snd ys \<and>
    destroyed h' = destroyed h \<and> ll_frame xs h h' \<and> ll_dtor l' = ll_dtor l \<and> (\<forall>a \<in> fst ` set zs. next_node h \<le> a)"
  using assms
proof (induction ys arbitrary: p l h xs)
  case Nil
  then show ?case by (intro exI [of _ l] exI [of _ h] exI [of _ "[]"]) (simp add: copy_loop.simps [of None])
next
  case (Cons n ys)
  let ?e = "\<lparr>el_next = first_of ys None, el_prev = p, el_data = snd n\<rparr>"
  have e: "nodes h (fst n) = Some ?e" using Cons.prems(1) by simp
  obtain l1 h1 where a: "zend_llist_add_element l h (snd n) = Some (l1, h1)" "llist_inv l1 h1 (xs @ [(next_node h, snd n)])"
    "destroyed h1 = destroyed h" "ll_frame xs h h1" "ll_dtor l1 = ll_dtor l"
    using add_element_ok [OF Cons.prems(2), of "snd n"] by blast
  have k: "nodes h1 a = nodes h a" if "a \<in> fst ` set (n # ys)" for a
    using a(4) that Cons.prems(3,4) unfolding ll_frame_def by blast
  have n1: "next_node h < next_node h1"
    using dseg_nodes [OF llist_invD(1) [OF a(2)], of "next_node h"] llist_invD(6) [OF a(2), of "next_node h"] by simp
  have "dseg (nodes h) (Some (fst n)) ys None" using Cons.prems(1) by simp
  then have d: "dseg (nodes h1) (Some (fst n)) ys None" by (rule dseg_transfer) (simp add: k)
  have p3: "fst ` set (xs @ [(next_node h, snd n)]) \<inter> fst ` set ys = {}" using Cons.prems(3,4) by auto
  have p4: "\<forall>a \<in> fst ` set (xs @ [(next_node h, snd n)]) \<union> fst ` set ys. a < next_node h1" 
  proof
    fix c assume "c \<in> fst ` set (xs @ [(next_node h, snd n)]) \<union> fst ` set ys"
    then have "c = next_node h \<or> c < next_node h" using Cons.prems(4) by auto
    then show "c < next_node h1" using n1 by auto
  qed
  obtain l' h' zs where r: "copy_loop (first_of ys None) l1 h1 = Some (l', h')" "llist_inv l' h' ((xs @ [(next_node h, snd n)]) @ zs)"
    "map snd zs = map snd ys" "destroyed h' = destroyed h1" "ll_frame (xs @ [(next_node h, snd n)]) h1 h'" "ll_dtor l' = ll_dtor l1"
    "\<forall>a \<in> fst ` set zs. next_node h1 \<le> a"
    using Cons.IH [OF d a(2) p3 p4] by blast
  have "copy_loop (Some (fst n)) l h = Some (l', h')"
    using e a(1) r(1) k [of "fst n"] by (simp add: copy_loop.simps [of "Some (fst n)"])
  moreover have "ll_frame xs h h'" unfolding ll_frame_def
  proof (intro conjI allI impI)
    fix c assume c: "c < next_node h" "c \<notin> fst ` set xs"
    then have "c < next_node h1" "c \<notin> fst ` set (xs @ [(next_node h, snd n)])" using n1 by auto
    then have "nodes h' c = nodes h1 c" using r(5) unfolding ll_frame_def by blast
    then show "nodes h' c = nodes h c" using a(4) c unfolding ll_frame_def by simp
  qed (use r(5) n1 in \<open>simp add: ll_frame_def\<close>)
  ultimately show ?case using r a n1 by (intro exI [of _ l'] exI [of _ h'] exI [of _ "(next_node h, snd n) # zs"]) auto
qed

lemma llist_copy_ok:
  assumes "llist_inv l h ns"
  shows "\<exists>l' h' zs. zend_llist_copy t l h = Some (l', h') \<and> llist_inv l' h' zs \<and> map snd zs = map snd ns \<and> llist_inv l h' ns \<and>
    destroyed h' = destroyed h \<and> fst ` set zs \<inter> fst ` set ns = {}"
proof -
  note inv = llist_invD [OF assms]
  have b: "\<forall>a \<in> fst ` set [] \<union> fst ` set ns. a < next_node h" 
    using inv(6) [OF dseg_nodes [OF inv(1)]] by simp
  have e: "llist_inv (zend_llist_init (ll_dtor l) t) h []" using inv(6) by (simp add: llist_inv_def zend_llist_init_def)
  obtain l' h' zs where r: "copy_loop (first_of ns None) (zend_llist_init (ll_dtor l) t) h = Some (l', h')" "llist_inv l' h' ([] @ zs)"
    "map snd zs = map snd ns" "destroyed h' = destroyed h" "ll_frame [] h h'" "\<forall>a \<in> fst ` set zs. next_node h \<le> a"
    using copy_loop_ok [OF inv(1) e _ b] by (simp only: set_simps image_empty Int_empty_left) blast
  have "nodes h' a = nodes h a" if "a \<in> fst ` set ns" for a using r(5) b that by (auto simp: ll_frame_def)
  then have "dseg (nodes h') None ns None" using dseg_transfer [OF inv(1)] by blast
  moreover have "\<And>a. nodes h' a \<noteq> None \<Longrightarrow> a < next_node h'" using llist_invD(6) [OF r(2)] .
  ultimately have "llist_inv l h' ns" using inv(2-5) unfolding llist_inv_def by blast
  moreover have "fst ` set zs \<inter> fst ` set ns = {}" using r(6) b by (meson Un_iff disjoint_iff leD)
  ultimately show ?thesis using r(1-4) inv(2) by (auto simp: zend_llist_copy_def)
qed

section \<open>Callbacks\<close>

fun apply_data :: "('a \<Rightarrow> 's \<Rightarrow> 'a \<times> 's) \<Rightarrow> 's \<Rightarrow> 'a list \<Rightarrow> 'a list \<times> 's" where
  "apply_data f s [] = ([], s)"
| "apply_data f s (x # xs) = (case f x s of (y, s) \<Rightarrow> case apply_data f s xs of (ys, s) \<Rightarrow> (y # ys, s))"

fun apply_del_data :: "('a \<Rightarrow> 's \<Rightarrow> bool \<times> 'a \<times> 's) \<Rightarrow> 's \<Rightarrow> 'a list \<Rightarrow> 'a list \<times> 'a list \<times> 's" where
  "apply_del_data f s [] = ([], [], s)"
| "apply_del_data f s (x # xs) = (case f x s of (del, y, s) \<Rightarrow> case apply_del_data f s xs of (kept, dropped, s) \<Rightarrow>
      if del then (kept, y # dropped, s) else (y # kept, dropped, s))"

lemma set_data_ok:
  assumes "llist_inv l h (xs @ n # ys)"
  shows "\<exists>h'. set_data (fst n) x h = Some h' \<and> llist_inv l h' (xs @ (fst n, x) # ys) \<and> destroyed h' = destroyed h \<and>
    nodes h' (fst n) = Some \<lparr>el_next = first_of ys None, el_prev = last_of xs None, el_data = x\<rparr>"
  using assms by (auto simp: set_data_def llist_inv_def dseg_frame)

lemma llist_apply_loop_ok:
  assumes "llist_inv l h (xs @ ys)"
  shows "\<exists>h'. llist_apply_loop f (first_of ys None) s h = Some (snd (apply_data f s (map snd ys)), h') \<and>
    llist_inv l h' (xs @ zip (map fst ys) (fst (apply_data f s (map snd ys)))) \<and> destroyed h' = destroyed h"
  using assms
proof (induction ys arbitrary: xs s h)
  case Nil
  then show ?case by (simp add: llist_apply_loop.simps [of f None])
next
  case (Cons n ys)
  obtain x s' where f: "f (snd n) s = (x, s')" by fastforce
  have e: "nodes h (fst n) = Some \<lparr>el_next = first_of ys None, el_prev = last_of xs None, el_data = snd n\<rparr>"
    using llist_invD(1) [OF Cons.prems] by simp
  obtain h1 where h1: "set_data (fst n) x h = Some h1" "llist_inv l h1 ((xs @ [(fst n, x)]) @ ys)" "destroyed h1 = destroyed h"
    "nodes h1 (fst n) = Some \<lparr>el_next = first_of ys None, el_prev = last_of xs None, el_data = x\<rparr>"
    using set_data_ok [OF Cons.prems, of x] by auto
  from Cons.IH [OF h1(2), of s'] f h1 e show ?case
    by (auto simp: llist_apply_loop.simps [of f "Some (fst n)"] split: prod.splits)
qed

lemma apply_with_del_loop_ok:
  assumes "llist_inv l h (xs @ ys)"
  shows "\<exists>l' h' zs. apply_with_del_loop f (first_of ys None) s l h = Some (snd (snd (apply_del_data f s (map snd ys))), l', h') \<and>
    llist_inv l' h' (xs @ zs) \<and> map snd zs = fst (apply_del_data f s (map snd ys)) \<and>
    destroyed h' = destroyed h @ (if ll_dtor l then fst (snd (apply_del_data f s (map snd ys))) else []) \<and> ll_dtor l' = ll_dtor l"
  using assms
proof (induction ys arbitrary: xs s l h)
  case Nil
  then show ?case by (intro exI [of _ l] exI [of _ h] exI [of _ "[]"]) (simp add: apply_with_del_loop.simps [of f None])
next
  case (Cons n ys)
  obtain del x s' where f: "f (snd n) s = (del, x, s')" using prod_cases3 by blast
  obtain kept dropped s2 where a: "apply_del_data f s' (map snd ys) = (kept, dropped, s2)" using prod_cases3 by blast
  have e: "nodes h (fst n) = Some \<lparr>el_next = first_of ys None, el_prev = last_of xs None, el_data = snd n\<rparr>"
    using llist_invD(1) [OF Cons.prems] by simp
  obtain h1 where h1: "set_data (fst n) x h = Some h1" "llist_inv l h1 (xs @ (fst n, x) # ys)" "destroyed h1 = destroyed h"
    using set_data_ok [OF Cons.prems, of x] by auto
  note step = apply_with_del_loop.simps [of f "Some (fst n)" s l h]
  show ?case
  proof (cases del)
    case True
    obtain l1 h2 where d: "DEL_LLIST_ELEMENT (fst n) l h1 = Some (l1, h2)" "llist_inv l1 h2 (xs @ ys)"
      "destroyed h2 = destroyed h1 @ (if ll_dtor l then [x] else [])" "ll_dtor l1 = ll_dtor l"
      using DEL_ok [OF h1(2)] by auto
    from Cons.IH [OF d(2), of s'] show ?thesis using True f a e h1 d step by auto
  next
    case False
    have "llist_inv l h1 ((xs @ [(fst n, x)]) @ ys)" using h1(2) by simp
    from Cons.IH [OF this, of s'] obtain l' h' zs where r: "apply_with_del_loop f (first_of ys None) s' l h1 = Some (s2, l', h')"
      "llist_inv l' h' (xs @ (fst n, x) # zs)" "map snd zs = kept" "destroyed h' = destroyed h1 @ (if ll_dtor l then dropped else [])"
      "ll_dtor l' = ll_dtor l" using a by auto
    then show ?thesis using False f a e h1 step by (intro exI [of _ l'] exI [of _ h'] exI [of _ "(fst n, x) # zs"]) auto
  qed
qed


section \<open>Sorting\<close>

lemma collect_loop_ok: "dseg (nodes h) p ns None \<Longrightarrow> collect_loop h (first_of ns None) = Some (map fst ns)"
proof (induction ns arbitrary: p)
  case Nil
  then show ?case by (simp add: collect_loop.simps [of h None])
next
  case (Cons n ns)
  then show ?case by (auto simp: collect_loop.simps [of h "Some (fst n)"])
qed

lemma first_of_hd: "first_of ns None = (if ns = [] then None else Some (fst (hd ns)))"
  by (cases ns) simp_all

lemma dseg_data: "dseg m p ns q \<Longrightarrow> map (\<lambda>a. (a, el_data (the (m a)))) (map fst ns) = ns"
  by (induction ns arbitrary: p) auto

lemma relink_ok:
  assumes "distinct ps" "ps \<noteq> []" "\<And>a. a \<in> set ps \<Longrightarrow> \<exists>e. nodes h a = Some e \<and> el_data e = d a"
    "el_prev (the (nodes h (hd ps))) = p" "el_next (the (nodes h (last ps))) = q"
  shows "\<exists>h'. relink ps h = Some h' \<and> dseg (nodes h') p (map (\<lambda>a. (a, d a)) ps) q \<and>
    (\<forall>a. a \<notin> set ps \<longrightarrow> nodes h' a = nodes h a) \<and> next_node h' = next_node h \<and> destroyed h' = destroyed h"
  using assms
proof (induction ps h arbitrary: p rule: relink.induct [case_names link none single])
  case (link a b ps h)
  obtain ea eb where e: "nodes h a = Some ea" "nodes h b = Some eb" "el_data ea = d a" "el_data eb = d b"
    using link.prems(3) [of a] link.prems(3) [of b] by auto
  have ab: "a \<noteq> b" using link.prems(1) by simp
  let ?h1 = "h\<lparr>nodes := (nodes h)(b \<mapsto> eb\<lparr>el_prev := Some a\<rparr>)\<rparr>"
  let ?h2 = "?h1\<lparr>nodes := (nodes ?h1)(a \<mapsto> ea\<lparr>el_next := Some b\<rparr>)\<rparr>"
  have s: "set_prev b (Some a) h = Some ?h1" "set_next a (Some b) ?h1 = Some ?h2" using e ab by (simp_all add: set_prev_def set_next_def)
  have m: "nodes ?h2 c = (if c = a then Some (ea\<lparr>el_next := Some b\<rparr>) else if c = b then Some (eb\<lparr>el_prev := Some a\<rparr>) else nodes h c)" for c
    by simp
  have p3: "\<exists>e. nodes ?h2 c = Some e \<and> el_data e = d c" if "c \<in> set (b # ps)" for c
    using link.prems(1) link.prems(3) [of c] that e unfolding m by auto
  have p4: "el_prev (the (nodes ?h2 (hd (b # ps)))) = Some a" unfolding m using ab by simp
  have "last (b # ps) \<noteq> a" using link.prems(1) by (metis distinct.simps(2) last_in_set list.discI)
  then have p5: "el_next (the (nodes ?h2 (last (b # ps)))) = q" unfolding m using link.prems(5) e by auto
  have p1: "distinct (b # ps)" using link.prems(1) by simp
  obtain h' where h': "relink (b # ps) ?h2 = Some h'" "dseg (nodes h') (Some a) (map (\<lambda>a. (a, d a)) (b # ps)) q"
    "\<And>c. c \<notin> set (b # ps) \<Longrightarrow> nodes h' c = nodes ?h2 c" "next_node h' = next_node ?h2" "destroyed h' = destroyed ?h2"
    using link.IH [OF s p1 _ p3 p4 p5] by blast
  have "nodes h' a = Some (ea\<lparr>el_next := Some b\<rparr>)" using h'(3) [of a] link.prems(1) by simp
  moreover have "ea\<lparr>el_next := Some b\<rparr> = \<lparr>el_next = Some b, el_prev = p, el_data = d a\<rparr>"
    using link.prems(4) e by (cases ea) simp
  ultimately show ?case using s h' by auto
next
  case (single a h)
  then obtain e where "nodes h a = Some e" "el_data e = d a" by auto
  with single show ?case by (cases e) simp
qed simp

lemma relinked_ok:
  assumes "distinct ps" "ps \<noteq> []" "\<And>a. a \<in> set ps \<Longrightarrow> \<exists>e. nodes h a = Some e \<and> el_data e = d a"
  shows "\<exists>h'. do { h \<leftarrow> set_prev (hd ps) None h; h \<leftarrow> relink ps h; set_next (last ps) None h } = Some h' \<and>
    dseg (nodes h') None (map (\<lambda>a. (a, d a)) ps) None \<and>
    (\<forall>a. a \<notin> set ps \<longrightarrow> nodes h' a = nodes h a) \<and> next_node h' = next_node h \<and> destroyed h' = destroyed h"
proof -
  obtain e where e: "nodes h (hd ps) = Some e" "el_data e = d (hd ps)" using assms(2,3) hd_in_set by blast
  let ?h = "h\<lparr>nodes := (nodes h)(hd ps \<mapsto> e\<lparr>el_prev := None\<rparr>)\<rparr>"
  have s: "set_prev (hd ps) None h = Some ?h" using e by (simp add: set_prev_def)
  have n: "\<exists>e. nodes ?h a = Some e \<and> el_data e = d a" if "a \<in> set ps" for a using assms(3) [OF that] e by auto
  have p: "el_prev (the (nodes ?h (hd ps))) = None" by simp
  from relink_ok [OF assms(1,2) n p refl] obtain h1 where h1: "relink ps ?h = Some h1"
    "dseg (nodes h1) None (map (\<lambda>a. (a, d a)) ps) (el_next (the (nodes ?h (last ps))))"
    "\<And>a. a \<notin> set ps \<Longrightarrow> nodes h1 a = nodes ?h a" "next_node h1 = next_node ?h" "destroyed h1 = destroyed ?h" by blast
  obtain qs q where q: "ps = qs @ [q]" using assms(2) by (metis append_butlast_last_id)
  have "distinct (map fst (map (\<lambda>a. (a, d a)) qs @ [(q, d q)]))" using assms(1) q by (simp add: comp_def)
  note u = dseg_set_next [OF h1(2) [unfolded q map_append list.map] this]
  show ?thesis using s h1 u(1) u(2) [of None] q e by (auto simp: set_next_def hd_append)
qed

lemma llist_sort_ok:
  assumes inv: "llist_inv l h ns" and c: "consistent comp_func"
  shows "\<exists>l' h' ms. zend_llist_sort l h comp_func = Some (l', h') \<and> llist_inv l' h' ms \<and> mset ms = mset ns \<and>
    sorted_wrt (le comp_func) (map snd ms) \<and> destroyed h' = destroyed h \<and> ll_dtor l' = ll_dtor l"
proof (cases "ns = []")
  case True
  then show ?thesis using inv llist_invD(4) [OF inv] by (intro exI [of _ l] exI [of _ h] exI [of _ "[]"]) (simp add: zend_llist_sort_def)
next
  case False
  note i = llist_invD [OF inv]
  let ?c = "element_compare h comp_func" and ?d = "\<lambda>a. el_data (the (nodes h a))"
  let ?ps = "zend_sort ?c zend_llist_swap (map fst ns)"
  have x: "zend_llist_swap = exch" by (intro ext) (simp add: zend_llist_swap_def exch_def)
  have "consistent ?c" using consistent_image [OF c, of ?d] by (simp add: element_compare_def [abs_def])
  from zend_sort_ok [OF this, of "map fst ns"] have z: "sorted_wrt (le ?c) ?ps" "mset ?ps = mset (map fst ns)" unfolding x by auto
  have dat: "map (\<lambda>a. (a, ?d a)) (map fst ns) = ns" using dseg_data [OF i(1)] .
  have set: "set ?ps = fst ` set ns" using z(2) by (metis list.set_map set_mset_mset)
  have ne: "?ps \<noteq> []" using False z(2) by auto
  have di: "distinct ?ps" using z(2) i(5) by (metis distinct_count_atmost_1 count_mset mset_eq_imp_distinct_iff)
  have nd: "\<exists>e. nodes h a = Some e \<and> el_data e = ?d a" if "a \<in> set ?ps" for a
    using dseg_nodes [OF i(1), of a] that set by auto
  obtain h' where h': "do { h \<leftarrow> set_prev (hd ?ps) None h; h \<leftarrow> relink ?ps h; set_next (last ?ps) None h } = Some h'"
    "dseg (nodes h') None (map (\<lambda>a. (a, ?d a)) ?ps) None" "\<And>a. a \<notin> set ?ps \<Longrightarrow> nodes h' a = nodes h a"
    "next_node h' = next_node h" "destroyed h' = destroyed h"
    using relinked_ok [OF di ne nd] by blast
  let ?ms = "map (\<lambda>a. (a, ?d a)) ?ps" and ?l = "l\<lparr>ll_head := Some (hd ?ps), ll_tail := Some (last ?ps)\<rparr>"
  have "zend_llist_sort l h comp_func = Some (?l, h')"
    using False i(4) i(2) collect_loop_ok [OF i(1)] h'(1) by (auto simp: zend_llist_sort_def Let_def bind_eq_Some_conv)
  moreover have "mset ?ms = mset ns"
  proof -
    have "mset ?ms = mset (map (\<lambda>a. (a, ?d a)) (map fst ns))" unfolding mset_map z(2) ..
    then show ?thesis unfolding dat .
  qed
  moreover have "sorted_wrt (le comp_func) (map snd ?ms)"
    using z(1) by (simp add: sorted_wrt_map comp_def le_def [abs_def] element_compare_def)
  moreover have "llist_inv ?l h' ?ms"
  proof -
    have "a < next_node h" if "nodes h' a \<noteq> None" for a
      using that h'(3) [of a] i(6) [of a] dseg_nodes [OF i(1), of a] set by (cases "a \<in> set ?ps") auto
    moreover have "length ?ps = length ns" using z(2) by (metis length_map size_mset)
    moreover have "first_of ?ms None = Some (hd ?ps)" "last_of ?ms None = Some (last ?ps)"
      using ne hd_map [OF ne, of "\<lambda>a. (a, ?d a)"] by (simp_all add: first_of_hd last_of_def last_map)
    ultimately show ?thesis using h'(2,4) i(4) di by (simp add: llist_inv_def comp_def)
  qed
  ultimately show ?thesis using h'(5) by (intro exI [of _ ?l] exI [of _ h'] exI [of _ ?ms]) simp
qed

section \<open>Traversal\<close>

text \<open>The position after the first \<open>k\<close> elements, and the data there.\<close>

definition ll_position :: "(nat \<times> 'a) list \<Rightarrow> nat \<Rightarrow> ptr" where
  "ll_position ns k = (if k < length ns then Some (fst (ns ! k)) else None)"

definition ll_item :: "(nat \<times> 'a) list \<Rightarrow> nat \<Rightarrow> 'a option" where
  "ll_item ns k = (if k < length ns then Some (snd (ns ! k)) else None)"

lemma dseg_nth:
  assumes "dseg m None ns None" "k < length ns"
  shows "m (fst (ns ! k)) = Some \<lparr>el_next = ll_position ns (Suc k), el_prev = (if k = 0 then None else ll_position ns (k - 1)), el_data = snd (ns ! k)\<rparr>"
proof -
  let ?xs = "take k ns" and ?ys = "drop (Suc k) ns"
  have ns: "ns = ?xs @ ns ! k # ?ys" using id_take_nth_drop [OF assms(2)] .
  have "m (fst (ns ! k)) = Some \<lparr>el_next = first_of ?ys None, el_prev = last_of ?xs None, el_data = snd (ns ! k)\<rparr>"
    using assms(1) by (subst (asm) ns) simp
  moreover have "first_of ?ys None = ll_position ns (Suc k)"
    by (cases "Suc k < length ns") (simp_all add: ll_position_def flip: Cons_nth_drop_Suc)
  moreover have "last_of ?xs None = (if k = 0 then None else ll_position ns (k - 1))"
    using assms(2) by (cases k) (auto simp: last_of_def ll_position_def last_conv_nth)
  ultimately show ?thesis by simp
qed

lemma move_to_ok:
  assumes "llist_inv l h ns"
  shows "move_to (ll_position ns k) l h pos = Some (ll_item ns k, set_position (ll_position ns k) l pos)"
  using dseg_nth [OF llist_invD(1) [OF assms], of k] by (simp add: move_to_def ll_position_def ll_item_def)

lemma traversal_ok:
  assumes "llist_inv l h ns"
  shows "zend_llist_get_first_ex l h pos = Some (ll_item ns 0, set_position (ll_position ns 0) l pos)"
    "zend_llist_get_last_ex l h pos = (if ns = [] then Some (None, set_position None l pos)
       else Some (ll_item ns (length ns - 1), set_position (ll_position ns (length ns - 1)) l pos))"
    "k < length ns \<Longrightarrow> get_position l pos = ll_position ns k \<Longrightarrow>
      zend_llist_get_next_ex l h pos = Some (ll_item ns (Suc k), set_position (ll_position ns (Suc k)) l pos)"
    "k < length ns \<Longrightarrow> get_position l pos = ll_position ns k \<Longrightarrow>
      zend_llist_get_prev_ex l h pos = (if k = 0 then Some (None, set_position None l pos)
        else Some (ll_item ns (k - 1), set_position (ll_position ns (k - 1)) l pos))"
proof -
  note m = move_to_ok [OF assms] and i = llist_invD [OF assms]
  have "ll_head l = ll_position ns 0" using i(2) by (cases ns) (simp_all add: ll_position_def)
  then show "zend_llist_get_first_ex l h pos = Some (ll_item ns 0, set_position (ll_position ns 0) l pos)"
    using m by (simp add: zend_llist_get_first_ex_def)
  have "ll_tail l = (if ns = [] then None else ll_position ns (length ns - 1))"
    using i(3) by (simp add: last_of_def ll_position_def last_conv_nth)
  then show "zend_llist_get_last_ex l h pos = (if ns = [] then Some (None, set_position None l pos)
       else Some (ll_item ns (length ns - 1), set_position (ll_position ns (length ns - 1)) l pos))"
    using m [of "length ns - 1"] by (cases "ns = []") (simp_all add: zend_llist_get_last_ex_def move_to_def [of None])
  assume k: "k < length ns" "get_position l pos = ll_position ns k"
  then have g: "get_position l pos = Some (fst (ns ! k))" by (simp add: ll_position_def)
  show "zend_llist_get_next_ex l h pos = Some (ll_item ns (Suc k), set_position (ll_position ns (Suc k)) l pos)"
    using dseg_nth [OF i(1) k(1)] g m by (simp add: zend_llist_get_next_ex_def)
  show "zend_llist_get_prev_ex l h pos = (if k = 0 then Some (None, set_position None l pos)
        else Some (ll_item ns (k - 1), set_position (ll_position ns (k - 1)) l pos))"
    using dseg_nth [OF i(1) k(1)] g m by (cases k) (simp_all add: zend_llist_get_prev_ex_def move_to_def [of None])
qed

section \<open>Sequences of operations\<close>

text \<open>A machine whose steps never fail and follow a specification; then every run does.\<close>

locale simulation =
  fixes inv :: "'s \<Rightarrow> 'x \<Rightarrow> bool" and step :: "'op \<Rightarrow> 's \<Rightarrow> 's option" and spec :: "'op \<Rightarrow> 'x \<Rightarrow> 'x"
  assumes step_ok: "inv s x \<Longrightarrow> \<exists>s'. step op s = Some s' \<and> inv s' (spec op x)"
begin

lemma run_ok: "inv s x \<Longrightarrow> \<exists>s'. foldl (\<lambda>s op. Option.bind s (step op)) (Some s) ops = Some s' \<and> inv s' (fold spec ops x)"
proof (induction ops arbitrary: s x)
  case (Cons op ops)
  obtain s' where "step op s = Some s'" "inv s' (spec op x)" using step_ok [OF Cons.prems] by blast
  with Cons.IH show ?case by simp
qed simp

end

datatype 'a ll_op = Ll_add 'a | Ll_prepend 'a | Ll_del "'a \<Rightarrow> bool" | Ll_remove_tail | Ll_clean | Ll_filter "'a \<Rightarrow> bool \<times> 'a"

fun llist_step :: "'a ll_op \<Rightarrow> 'a ll_state \<Rightarrow> 'a ll_state option" where
  "llist_step (Ll_add x) (l, h) = zend_llist_add_element l h x"
| "llist_step (Ll_prepend x) (l, h) = zend_llist_prepend_element l h x"
| "llist_step (Ll_del P) (l, h) = zend_llist_del_element l h () (\<lambda>x _. P x)"
| "llist_step Ll_remove_tail (l, h) = zend_llist_remove_tail l h"
| "llist_step Ll_clean (l, h) = zend_llist_clean l h"
| "llist_step (Ll_filter f) (l, h) = map_option snd (zend_llist_apply_with_del l h (\<lambda>x s. case f x of (del, y) \<Rightarrow> (del, y, s)) ())"

text \<open>The content of a list and the data that its destructor has got.\<close>

fun llist_spec :: "'a ll_op \<Rightarrow> 'a list \<times> 'a list \<Rightarrow> 'a list \<times> 'a list" where
  "llist_spec (Ll_add x) (xs, ds) = (xs @ [x], ds)"
| "llist_spec (Ll_prepend x) (xs, ds) = (x # xs, ds)"
| "llist_spec (Ll_del P) (xs, ds) = (remove_first P xs, ds @ take 1 (filter P xs))"
| "llist_spec Ll_remove_tail (xs, ds) = (butlast xs, ds @ (if xs = [] then [] else [last xs]))"
| "llist_spec Ll_clean (xs, ds) = ([], ds @ xs)"
| "llist_spec (Ll_filter f) (xs, ds) =
     (map (snd \<circ> f) (filter (\<lambda>x. \<not> fst (f x)) xs), ds @ map (snd \<circ> f) (filter (\<lambda>x. fst (f x)) xs))"

definition llist_rel :: "'a ll_state \<Rightarrow> 'a list \<times> 'a list \<Rightarrow> bool" where
  "llist_rel s x \<longleftrightarrow> (\<exists>ns. llist_inv (fst s) (snd s) ns \<and> fst x = map snd ns \<and> ll_dtor (fst s) \<and> destroyed (snd s) = snd x)"

lemma apply_del_data_pure:
  "apply_del_data (\<lambda>x s. case f x of (del, y) \<Rightarrow> (del, y, s)) s xs =
     (map (snd \<circ> f) (filter (\<lambda>x. \<not> fst (f x)) xs), map (snd \<circ> f) (filter (\<lambda>x. fst (f x)) xs), s)"
  by (induction xs) (auto split: prod.splits)

lemma map_remove_first: "map snd (remove_first (P \<circ> snd) ns) = remove_first P (map snd ns)"
  by (induction ns) auto

lemma llist_step_ok: "llist_rel s x \<Longrightarrow> \<exists>s'. llist_step op s = Some s' \<and> llist_rel s' (llist_spec op x)"
proof -
  assume "llist_rel s x"
  then obtain l h xs ds ns where s: "s = (l, h)" "x = (xs, ds)" and inv: "llist_inv l h ns" and e: "xs = map snd ns" "ll_dtor l" "destroyed h = ds"
    by (cases s; cases x) (auto simp: llist_rel_def)
  have r: "\<exists>s'. r = Some s' \<and> llist_rel s' y"
    if "\<exists>l' h'. r = Some (l', h') \<and> llist_inv l' h' ms \<and> destroyed h' = snd y \<and> ll_dtor l'" "fst y = map snd ms" for ms r y
    using that by (auto simp: llist_rel_def)
  show ?thesis
  proof (cases op)
    case (Ll_add y)
    with add_element_ok [OF inv, of y] s e show ?thesis by (intro r [of _ "ns @ [(next_node h, y)]"]) auto
  next
    case (Ll_prepend y)
    with prepend_element_ok [OF inv, of y] s e show ?thesis by (intro r [of _ "(next_node h, y) # ns"]) auto
  next
    case (Ll_del P)
    with del_element_loop_ok [of l h "[]" ns P] inv llist_invD(2) [OF inv] s e show ?thesis
      by (intro r [of _ "remove_first (P \<circ> snd) ns"]) (auto simp: zend_llist_del_element_def map_remove_first)
  next
    case Ll_remove_tail
    with remove_tail_ok [OF inv] s e show ?thesis by (intro r [of _ "butlast ns"]) (auto simp: map_butlast last_map)
  next
    case Ll_clean
    with llist_destroy_ok [OF inv] s e show ?thesis by (intro r [of _ "[]"]) (auto simp: zend_llist_clean_def)
  next
    case (Ll_filter f)
    have "first_of ns None = ll_head l" using llist_invD(2) [OF inv] by simp
    then obtain l' h' zs where "zend_llist_apply_with_del l h (\<lambda>x s. case f x of (del, y) \<Rightarrow> (del, y, s)) () = Some ((), l', h')"
      "llist_inv l' h' zs" "map snd zs = map (snd \<circ> f) (filter (\<lambda>x. \<not> fst (f x)) xs)"
      "destroyed h' = ds @ map (snd \<circ> f) (filter (\<lambda>x. fst (f x)) xs)" "ll_dtor l'"
      using apply_with_del_loop_ok [of l h "[]" ns "\<lambda>x s. case f x of (del, y) \<Rightarrow> (del, y, s)" "()"] inv e
      unfolding apply_del_data_pure by (auto simp: zend_llist_apply_with_del_def)
    with Ll_filter s show ?thesis by (intro r [of _ zs]) auto
  qed
qed

interpretation llist: simulation llist_rel llist_step llist_spec
  by unfold_locales (rule llist_step_ok)


end
