(* ===== verification/Zend_Bytes.thy ===== *)
theory Zend_Bytes
  imports Prelude
begin

text \<open>
  Bytes of strings as integers, the bit operations of the codecs as arithmetic, and output buffers with checked access.
\<close>

section \<open>Bytes\<close>

text \<open>
  A byte of a string is a \<open>char\<close>; \<open>byte\<close> is its value as an unsigned char promoted to \<^verbatim>\<open>int\<close>, \<open>chr\<close> what an
  assignment to an unsigned char leaves of an \<^verbatim>\<open>int\<close>.
\<close>

definition byte :: "char \<Rightarrow> int" where
  "byte c = of_char c"

definition chr :: "int \<Rightarrow> char" where
  "chr v = char_of v"

lemma chr_byte [simp]: "chr (byte c) = c"
  by (simp add: chr_def byte_def)

lemma byte_chr: "byte (chr v) = v mod 256"
  by (simp add: chr_def byte_def)

lemma byte_chr_id [simp]: "0 \<le> v \<Longrightarrow> v < 256 \<Longrightarrow> byte (chr v) = v"
  by (simp add: byte_chr)

lemma byte_bounds [simp]: "0 \<le> byte c" "byte c < 256"
proof -
  have "byte c = byte c mod 256" using byte_chr [of "byte c"] by simp
  moreover have "0 \<le> byte c mod 256" "byte c mod 256 < 256" by simp_all
  ultimately show "0 \<le> byte c" "byte c < 256" by simp_all
qed

lemma byte_inject [simp]: "byte c = byte d \<longleftrightarrow> c = d"
  by (metis chr_byte)

lemma byte_of_nat: "byte c = int (of_char c)"
  using of_nat_of_char [of c, where 'a = int] by (simp add: byte_def)

lemma nat_byte [simp]: "nat (byte c) = of_char c"
  by (simp add: byte_of_nat)

text \<open>Two values with no bit in common: the bitwise or is the sum.\<close>

lemma or_low_bits:
  fixes a b :: int
  assumes "0 \<le> b" "b < 2 ^ n"
  shows "(a * 2 ^ n) OR b = a * 2 ^ n + b"
proof -
  have "take_bit n b = b" using assms by (simp add: take_bit_int_eq_self)
  then have "b OR push_bit n a = b + push_bit n a" using concat_bit_eq [of n b a] by (simp add: concat_bit_def)
  then show ?thesis by (simp add: push_bit_eq_mult or.commute add.commute)
qed

lemma and_low_bits:
  fixes a :: int
  shows "a AND 3 = a mod 4" "a AND 7 = a mod 8" "a AND 15 = a mod 16" "a AND 31 = a mod 32" "a AND 63 = a mod 64"
  using take_bit_eq_mask [of 2 a] take_bit_eq_mask [of 3 a] take_bit_eq_mask [of 4 a] take_bit_eq_mask [of 5 a] take_bit_eq_mask [of 6 a]
  by (simp_all add: take_bit_eq_mod mask_eq_exp_minus_1)

lemmas bits_arith = drop_bit_eq_div push_bit_eq_mult and_low_bits

lemma pack_bits:
  fixes x y n :: int
  assumes "0 \<le> y" "y < n"
  shows "(x * n + y) div n = x" "(x * n + y) mod n = y" "0 \<le> x \<Longrightarrow> x < m \<Longrightarrow> 0 \<le> x * n + y \<and> x * n + y < m * n"
proof -
  show "(x * n + y) div n = x" "(x * n + y) mod n = y" using assms by simp_all
  assume x: "0 \<le> x" "x < m"
  have "(x + 1) * n \<le> m * n" using x assms by (intro mult_right_mono) simp_all
  then show "0 \<le> x * n + y \<and> x * n + y < m * n" using x assms by (simp add: distrib_right)
qed

lemma byte_parts:
  "0 \<le> byte a div 4" "byte a div 4 < 64" "0 \<le> byte a mod 4" "byte a mod 4 < 4" "0 \<le> byte a div 16" "byte a div 16 < 16"
  "0 \<le> byte a mod 16" "byte a mod 16 < 16" "0 \<le> byte a div 64" "byte a div 64 < 4" "0 \<le> byte a mod 64" "byte a mod 64 < 64"
proof -
  have "x div 4 < 64" "x div 16 < 16" "x div 64 < 4" if "x < 256" for x :: int using that by presburger+
  then show "byte a div 4 < 64" "byte a div 16 < 16" "byte a div 64 < 4" using byte_bounds(2) by blast+
qed (simp_all add: pos_imp_zdiv_nonneg_iff)

section \<open>Output buffers\<close>

text \<open>A block of a fixed size; writing past its end or reading a cell that was never written is an error.\<close>

datatype mem_error = Out_of_bounds | Uninitialised

type_synonym buffer = "char cell list"
type_synonym 'a mem = "mem_error + 'a"

definition buf_set :: "buffer \<Rightarrow> nat \<Rightarrow> int \<Rightarrow> buffer mem" where
  "buf_set out j v = (if j < length out then Inr (out[j := Some (chr v)]) else Inl Out_of_bounds)"

definition buf_get :: "buffer \<Rightarrow> nat \<Rightarrow> char mem" where
  "buf_get out j = (if j < length out then (case out ! j of None \<Rightarrow> Inl Uninitialised | Some c \<Rightarrow> Inr c) else Inl Out_of_bounds)"

fun mem_bind :: "'a mem \<Rightarrow> ('a \<Rightarrow> 'b mem) \<Rightarrow> 'b mem" where
  "mem_bind (Inl e) f = Inl e"
| "mem_bind (Inr x) f = f x"

definition buf_or :: "buffer \<Rightarrow> nat \<Rightarrow> int \<Rightarrow> buffer mem" where
  "buf_or out j v = mem_bind (buf_get out j) (\<lambda>c. buf_set out j (byte c OR v))"

text \<open>The bytes of the first \<open>n\<close> cells, when all of them were written.\<close>

definition buf_string :: "buffer \<Rightarrow> nat \<Rightarrow> string option" where
  "buf_string out n = (if n \<le> length out then those (take n out) else None)"

lemma buf_set_ok [simp]: "j < length out \<Longrightarrow> buf_set out j v = Inr (out[j := Some (chr v)])"
  by (simp add: buf_set_def)

lemma buf_or_ok [simp]: "j < length out \<Longrightarrow> out ! j = Some (chr w) \<Longrightarrow> buf_or out j v = Inr (out[j := Some (chr (byte (chr w) OR v))])"
  by (simp add: buf_or_def buf_get_def)

lemma those_Somes [simp]: "those (map Some xs) = Some xs"
  by (induction xs) auto

text \<open>The string \<open>s\<close> has been written from \<open>d\<close> on.\<close>

definition written :: "nat \<Rightarrow> string \<Rightarrow> buffer \<Rightarrow> buffer \<Rightarrow> bool" where
  "written d s m m' \<longleftrightarrow> length m' = length m \<and> take (d + length s) m' = take d m @ map Some s"

lemma written_Cons: "written (Suc d) s (m[d := Some c]) m' \<Longrightarrow> d < length m \<Longrightarrow> written d (c # s) m m'"
  by (simp add: written_def take_Suc_conv_app_nth)

lemma written_append: "written d s m m1 \<Longrightarrow> written (d + length s) t m1 m2 \<Longrightarrow> written d (s @ t) m m2"
  by (simp add: written_def add.assoc)

lemma written_prefix:
  assumes "written d (s @ t) m m'" "d \<le> length m"
  shows "written d s m m'"
proof -
  have "take (d + length s) (take (d + length (s @ t)) m') = take (d + length s) (take d m @ map Some (s @ t))" using assms by (simp add: written_def)
  then show ?thesis using assms by (simp add: written_def min_def)
qed

lemma those_all: "\<forall>x \<in> set xs. x \<noteq> None \<Longrightarrow> those xs = Some (map the xs)"
  by (induction xs) auto

end
