(* ===== verification/Base64.thy ===== *)
theory Base64
  imports Zend_Bytes
begin

text \<open>
  Base64 (\<^verbatim>\<open>ext/standard/base64.c\<close>), the portable functions: what the encoder and the decoder compute, that they stay within
  their buffers, and that decoding undoes encoding.
\<close>

section \<open>Base64 encoding\<close>

definition base64_table :: string where
  "base64_table = ''ABCDEFGHIJKLMNOPQRSTUVWXYZabcdefghijklmnopqrstuvwxyz0123456789+/'' @ [chr 0]"

definition base64_pad :: char where
  "base64_pad = CHR ''=''"

definition base64_reverse_table :: "int list" where
  "base64_reverse_table =
    [-2, -2, -2, -2, -2, -2, -2, -2, -2, -1, -1, -2, -2, -1, -2, -2,
     -2, -2, -2, -2, -2, -2, -2, -2, -2, -2, -2, -2, -2, -2, -2, -2,
     -1, -2, -2, -2, -2, -2, -2, -2, -2, -2, -2, 62, -2, -2, -2, 63,
     52, 53, 54, 55, 56, 57, 58, 59, 60, 61, -2, -2, -2, -2, -2, -2,
     -2,  0,  1,  2,  3,  4,  5,  6,  7,  8,  9, 10, 11, 12, 13, 14,
     15, 16, 17, 18, 19, 20, 21, 22, 23, 24, 25, -2, -2, -2, -2, -2,
     -2, 26, 27, 28, 29, 30, 31, 32, 33, 34, 35, 36, 37, 38, 39, 40,
     41, 42, 43, 44, 45, 46, 47, 48, 49, 50, 51, -2, -2, -2, -2, -2] @ replicate 128 (-2)"

definition b64_char :: "int \<Rightarrow> char" where
  "b64_char v = base64_table ! nat v"

text \<open>The flag is the test of \<^verbatim>\<open>PHP_BASE64_NO_PADDING\<close>.\<close>

fun php_base64_encode_impl :: "bool \<Rightarrow> string \<Rightarrow> string" where
  "php_base64_encode_impl no_padding (a # b # c # inp) =
     [b64_char (drop_bit 2 (byte a)),
      b64_char (push_bit 4 (byte a AND 3) + drop_bit 4 (byte b)),
      b64_char (push_bit 2 (byte b AND 15) + drop_bit 6 (byte c)),
      b64_char (byte c AND 63)] @ php_base64_encode_impl no_padding inp"
| "php_base64_encode_impl no_padding [a, b] =
     [b64_char (drop_bit 2 (byte a)),
      b64_char (push_bit 4 (byte a AND 3) + drop_bit 4 (byte b)),
      b64_char (push_bit 2 (byte b AND 15))] @ (if no_padding then [] else [base64_pad])"
| "php_base64_encode_impl no_padding [a] =
     [b64_char (drop_bit 2 (byte a)),
      b64_char (push_bit 4 (byte a AND 3))] @ (if no_padding then [] else [base64_pad, base64_pad])"
| "php_base64_encode_impl no_padding [] = []"

text \<open>\<^verbatim>\<open>zend_string_safe_alloc((length + 2) / 3, 4, 0, 0)\<close> has a byte more for the terminating zero.\<close>

definition php_base64_encode_ex :: "string \<Rightarrow> bool \<Rightarrow> string mem" where
  "php_base64_encode_ex str no_padding =
     (let p = php_base64_encode_impl no_padding str
      in if length p \<le> (length str + 2) div 3 * 4 then Inr p else Inl Out_of_bounds)"

section \<open>Base64 decoding\<close>

fun base64_decode_loop :: "bool \<Rightarrow> string \<Rightarrow> nat \<Rightarrow> nat \<Rightarrow> nat \<Rightarrow> buffer \<Rightarrow> (nat \<times> nat \<times> nat \<times> buffer) option mem" where
  "base64_decode_loop strict [] i padding j out = Inr (Some (i, padding, j, out))"
| "base64_decode_loop strict (c # inp) i padding j out =
     (if c = base64_pad then base64_decode_loop strict inp i (padding + 1) j out
      else let ch = base64_reverse_table ! nat (byte c) in
        if \<not> strict \<and> ch < 0 then base64_decode_loop strict inp i padding j out
        else if strict \<and> ch = -1 then base64_decode_loop strict inp i padding j out
        else if strict \<and> (ch = -2 \<or> padding \<noteq> 0) then Inr None
        else if i mod 4 = 0 then
          mem_bind (buf_set out j (push_bit 2 ch)) (\<lambda>out. base64_decode_loop strict inp (i + 1) padding j out)
        else if i mod 4 = 1 then
          mem_bind (buf_or out j (drop_bit 4 ch)) (\<lambda>out.
          mem_bind (buf_set out (j + 1) (push_bit 4 (ch AND 15))) (\<lambda>out. base64_decode_loop strict inp (i + 1) padding (j + 1) out))
        else if i mod 4 = 2 then
          mem_bind (buf_or out j (drop_bit 2 ch)) (\<lambda>out.
          mem_bind (buf_set out (j + 1) (push_bit 6 (ch AND 3))) (\<lambda>out. base64_decode_loop strict inp (i + 1) padding (j + 1) out))
        else
          mem_bind (buf_or out j ch) (\<lambda>out. base64_decode_loop strict inp (i + 1) padding (j + 1) out))"

text \<open>The result \<open>None\<close> is the return value 0.  The first argument is the index from which the output is written.\<close>

definition php_base64_decode_impl :: "string \<Rightarrow> buffer \<Rightarrow> nat \<Rightarrow> bool \<Rightarrow> (nat \<times> buffer) option mem" where
  "php_base64_decode_impl inp out outl strict =
     mem_bind (base64_decode_loop strict inp 0 0 outl out) (\<lambda>r. case r of
         None \<Rightarrow> Inr None
       | Some (i, padding, j, out) \<Rightarrow>
           if strict \<and> i mod 4 = 1 then Inr None
           else if strict \<and> padding \<noteq> 0 \<and> (padding > 2 \<or> (i + padding) mod 4 \<noteq> 0) then Inr None
           else mem_bind (buf_set out j 0) (\<lambda>out. Inr (Some (j, out))))"

definition php_base64_decode_ex :: "string \<Rightarrow> bool \<Rightarrow> string option mem" where
  "php_base64_decode_ex str strict =
     mem_bind (php_base64_decode_impl str (replicate (length str + 1) None) 0 strict) (\<lambda>r. case r of
         None \<Rightarrow> Inr None
       | Some (outl, result) \<Rightarrow> (case buf_string result outl of None \<Rightarrow> Inl Uninitialised | Some s \<Rightarrow> Inr (Some s)))"

section \<open>What they compute\<close>

text \<open>The groups of six bits of a string, and the bytes of a sequence of such groups.\<close>

fun sextets :: "string \<Rightarrow> int list" where
  "sextets (a # b # c # s) = [byte a div 4, byte a mod 4 * 16 + byte b div 16, byte b mod 16 * 4 + byte c div 64, byte c mod 64] @ sextets s"
| "sextets [a, b] = [byte a div 4, byte a mod 4 * 16 + byte b div 16, byte b mod 16 * 4]"
| "sextets [a] = [byte a div 4, byte a mod 4 * 16]"
| "sextets [] = []"

fun sextet_bytes :: "int list \<Rightarrow> string" where
  "sextet_bytes (a # b # c # d # ds) = [chr (a * 4 + b div 16), chr (b mod 16 * 16 + c div 4), chr (c mod 4 * 64 + d)] @ sextet_bytes ds"
| "sextet_bytes [a, b, c] = [chr (a * 4 + b div 16), chr (b mod 16 * 16 + c div 4)]"
| "sextet_bytes [a, b] = [chr (a * 4 + b div 16)]"
| "sextet_bytes _ = []"

definition b64_val :: "char \<Rightarrow> int" where
  "b64_val c = base64_reverse_table ! nat (byte c)"

definition b64_data :: "string \<Rightarrow> int list" where
  "b64_data s = map b64_val (filter (\<lambda>c. c \<noteq> base64_pad \<and> b64_val c \<ge> 0) s)"

definition b64_pads :: "string \<Rightarrow> nat" where
  "b64_pads s = length (filter (\<lambda>c. c = base64_pad) s)"

text \<open>Only characters of the alphabet, white space and padding; no data after the padding; the right lengths.\<close>

fun b64_chars_ok :: "string \<Rightarrow> bool \<Rightarrow> bool" where
  "b64_chars_ok [] padded = True"
| "b64_chars_ok (c # s) padded =
     (if c = base64_pad then b64_chars_ok s True
      else b64_val c = -1 \<and> b64_chars_ok s padded \<or> b64_val c \<ge> 0 \<and> \<not> padded \<and> b64_chars_ok s padded)"

definition b64_strict :: "string \<Rightarrow> bool" where
  "b64_strict s \<longleftrightarrow> b64_chars_ok s False \<and> length (b64_data s) mod 4 \<noteq> 1 \<and>
     (b64_pads s = 0 \<or> b64_pads s \<le> 2 \<and> (length (b64_data s) + b64_pads s) mod 4 = 0)"

lemma base64_encode_sextets:
  "php_base64_encode_impl no_padding s = map b64_char (sextets s) @
     (if no_padding then [] else replicate ((3 - length s mod 3) mod 3) base64_pad)"
proof (induction no_padding s rule: php_base64_encode_impl.induct)
  case (1 no_padding a b c inp)
  have "length (a # b # c # inp) mod 3 = length inp mod 3" by simp
  then show ?case using 1 by (simp add: bits_arith)
qed (auto simp: bits_arith numeral_2_eq_2)


lemma reverse_table_values: "v \<in> set base64_reverse_table \<Longrightarrow> v = -2 \<or> v = -1 \<or> 0 \<le> v \<and> v < 64"
  by (auto simp: base64_reverse_table_def)

lemma reverse_table_length: "length base64_reverse_table = 256"
  by (simp add: base64_reverse_table_def)

lemma b64_val_cases: "b64_val c = -2 \<or> b64_val c = -1 \<or> 0 \<le> b64_val c \<and> b64_val c < 64"
  unfolding b64_val_def using byte_bounds(2) [of c] reverse_table_length by (intro reverse_table_values nth_mem) (simp add: byte_of_nat)

text \<open>The two tables are inverse to each other.\<close>

lemma b64_tables: "k < 64 \<Longrightarrow> base64_reverse_table ! of_char (base64_table ! k) = int k \<and> base64_table ! k \<noteq> base64_pad"
proof -
  have t: "map (\<lambda>c. base64_reverse_table ! of_char c) (take 64 base64_table) = map int [0 ..< 64]"
    by (simp add: base64_reverse_table_def base64_table_def upt_rec)
  have l: "length base64_table = 65" and n: "base64_pad \<notin> set (take 64 base64_table)"
    by (simp_all add: base64_table_def base64_pad_def)
  assume k: "k < 64"
  have "base64_table ! k \<in> set (take 64 base64_table)" using k l by (auto simp: in_set_conv_nth intro!: exI [of _ k])
  then show ?thesis using arg_cong [OF t, of "\<lambda>xs. xs ! k"] n k l by auto
qed

lemma b64_char: "0 \<le> v \<Longrightarrow> v < 64 \<Longrightarrow> b64_val (b64_char v) = v" "0 \<le> v \<Longrightarrow> v < 64 \<Longrightarrow> b64_char v \<noteq> base64_pad"
  using b64_tables [of "nat v"] by (auto simp: b64_val_def b64_char_def)

text \<open>The bytes that a decoder in phase \<open>m\<close> with the pending bits \<open>p\<close> still produces.\<close>

fun bytes_from :: "nat \<Rightarrow> int \<Rightarrow> int list \<Rightarrow> int list" where
  "bytes_from m p [] = []"
| "bytes_from m p (d # ds) =
     (if m = 0 then bytes_from 1 (d * 4) ds
      else if m = 1 then (p + d div 16) # bytes_from 2 (d mod 16 * 16) ds
      else if m = 2 then (p + d div 4) # bytes_from 3 (d mod 4 * 64) ds
      else (p + d) # bytes_from 0 0 ds)"

lemma bytes_from_groups: "map chr (bytes_from 0 p ds) = sextet_bytes ds"
  by (induction ds arbitrary: p rule: sextet_bytes.induct) auto

text \<open>What the pending byte looks like in each phase.\<close>

definition pending :: "nat \<Rightarrow> int \<Rightarrow> buffer \<Rightarrow> nat \<Rightarrow> bool" where
  "pending m p out j \<longleftrightarrow> m = 0 \<or> out ! j = Some (chr p) \<and> (\<exists>k. p = k * 2 ^ (2 * m) \<and> 0 \<le> k \<and> p < 256)"

lemma pending_or:
  assumes "pending m p out j" "m \<noteq> 0" "j < length out" "0 \<le> v" "v < 2 ^ (2 * m)"
  shows "buf_or out j v = Inr (out[j := Some (chr (p + v))])"
proof -
  obtain k where k: "p = k * 2 ^ (2 * m)" "0 \<le> k" "p < 256" "out ! j = Some (chr p)" using assms(1,2) by (auto simp: pending_def)
  then have "byte (chr p) = p" by simp
  then have "byte (chr p) OR v = p + v" using or_low_bits [OF assms(4,5), of k] k(1) by simp
  then show ?thesis using assms(3) k(4) by simp
qed


definition decoded :: "nat \<Rightarrow> int list \<Rightarrow> buffer \<Rightarrow> buffer \<Rightarrow> bool" where
  "decoded j bs out out' \<longleftrightarrow> length out' = length out \<and> take (j + length bs) out' = take j out @ map (Some \<circ> chr) bs"

lemma decoded_Cons:
  assumes "decoded (Suc j) bs (out[j := Some (chr b), Suc j := x]) out' \<or> decoded (Suc j) bs (out[j := Some (chr b)]) out'" "j < length out"
  shows "decoded j (b # bs) out out'"
  using assms by (auto simp: decoded_def take_Suc_conv_app_nth)

lemma pendingI:
  "j < length out \<Longrightarrow> 0 \<le> d \<Longrightarrow> d < 64 \<Longrightarrow> pending 1 (d * 4) (out[j := Some (chr (d * 4))]) j"
  "j < length out \<Longrightarrow> pending 2 (d mod 16 * 16) (out[j := Some (chr (d mod 16 * 16))]) j"
  "j < length out \<Longrightarrow> pending 3 (d mod 4 * 64) (out[j := Some (chr (d mod 4 * 64))]) j"
proof -
  have "d mod 16 * 16 < 256" "d mod 4 * 64 < 256" using pos_mod_bound [of 16 d] pos_mod_bound [of 4 d] by linarith+
  then show "j < length out \<Longrightarrow> 0 \<le> d \<Longrightarrow> d < 64 \<Longrightarrow> pending 1 (d * 4) (out[j := Some (chr (d * 4))]) j"
    "j < length out \<Longrightarrow> pending 2 (d mod 16 * 16) (out[j := Some (chr (d mod 16 * 16))]) j"
    "j < length out \<Longrightarrow> pending 3 (d mod 4 * 64) (out[j := Some (chr (d mod 4 * 64))]) j"
    unfolding pending_def by (auto intro: exI [of _ d] exI [of _ "d mod 16"] exI [of _ "d mod 4"])
qed

text \<open>One character of the alphabet.\<close>

definition b64_put :: "nat \<Rightarrow> int \<Rightarrow> nat \<Rightarrow> buffer \<Rightarrow> (nat \<times> buffer) mem" where
  "b64_put i ch j out =
    (if i mod 4 = 0 then mem_bind (buf_set out j (push_bit 2 ch)) (\<lambda>out. Inr (j, out))
     else if i mod 4 = 1 then mem_bind (buf_or out j (drop_bit 4 ch)) (\<lambda>out.
       mem_bind (buf_set out (j + 1) (push_bit 4 (ch AND 15))) (\<lambda>out. Inr (j + 1, out)))
     else if i mod 4 = 2 then mem_bind (buf_or out j (drop_bit 2 ch)) (\<lambda>out.
       mem_bind (buf_set out (j + 1) (push_bit 6 (ch AND 3))) (\<lambda>out. Inr (j + 1, out)))
     else mem_bind (buf_or out j ch) (\<lambda>out. Inr (j + 1, out)))"

lemma mem_bind_assoc: "mem_bind (mem_bind m f) g = mem_bind m (\<lambda>x. mem_bind (f x) g)"
  by (cases m) simp_all

lemma reverse_table_val: "base64_reverse_table ! of_char c = b64_val c"
  by (simp add: b64_val_def)

lemma base64_decode_loop_put:
  assumes "c \<noteq> base64_pad" "b64_val c \<ge> 0"
  shows "base64_decode_loop strict (c # inp) i padding j out = (if strict \<and> padding \<noteq> 0 then Inr None
     else mem_bind (b64_put i (b64_val c) j out) (\<lambda>(j, out). base64_decode_loop strict inp (i + 1) padding j out))"
proof -
  have "b64_val c \<noteq> -1" "b64_val c \<noteq> -2" "\<not> b64_val c < 0" using assms(2) by auto
  then show ?thesis unfolding base64_decode_loop.simps Let_def nat_byte reverse_table_val b64_put_def
    using assms(1) by (simp add: mem_bind_assoc)
qed

lemma base64_decode_loop_skip:
  assumes "c \<noteq> base64_pad" "b64_val c < 0"
  shows "base64_decode_loop strict (c # inp) i padding j out =
    (if strict \<and> b64_val c = -2 then Inr None else base64_decode_loop strict inp i padding j out)"
  unfolding base64_decode_loop.simps Let_def nat_byte reverse_table_val using assms b64_val_cases [of c] by auto

lemma mod4_Suc: "Suc i mod 4 = (if i mod 4 = 0 then 1 else if i mod 4 = 1 then 2 else if i mod 4 = 2 then 3 else 0)"
proof -
  have "i mod 4 < 4" by simp
  then show ?thesis by (auto simp: mod_Suc)
qed

lemma b64_put_ok:
  assumes pe: "pending (i mod 4) p out j" and room: "Suc j < length out" and ch: "0 \<le> ch" "ch < 64"
  obtains j' out' p' x where "b64_put i ch j out = Inr (j', out')" "pending (Suc i mod 4) p' out' j'" "length out' = length out"
    "j' = j + length x" "length x \<le> 1" "\<And>ds. bytes_from (i mod 4) p (ch # ds) = x @ bytes_from (Suc i mod 4) p' ds"
    "\<And>bs out''. decoded j' bs out' out'' \<Longrightarrow> decoded j (x @ bs) out out''"
proof -
  consider "i mod 4 = 0" | "i mod 4 = 1" | "i mod 4 = 2" | "i mod 4 = 3" by fastforce
  then show thesis
  proof cases
    case 1
    show thesis
    proof (rule that [of j "out[j := Some (chr (ch * 4))]" "ch * 4" "[]"])
      show "b64_put i ch j out = Inr (j, out[j := Some (chr (ch * 4))])" using 1 room by (simp add: b64_put_def bits_arith)
      show "pending (Suc i mod 4) (ch * 4) (out[j := Some (chr (ch * 4))]) j" using 1 pendingI(1) [of j out ch] room ch by (simp add: mod4_Suc)
    qed (use 1 in \<open>auto simp: mod4_Suc decoded_def\<close>)
  next
    case 2
    let ?o = "out[j := Some (chr (p + ch div 16)), Suc j := Some (chr (ch mod 16 * 16))]"
    have "ch div 16 < 4" using ch by simp
    then have o: "buf_or out j (ch div 16) = Inr (out[j := Some (chr (p + ch div 16))])" using pending_or [OF pe] 2 room ch by simp
    show thesis
    proof (rule that [of "Suc j" ?o "ch mod 16 * 16" "[p + ch div 16]"])
      show "b64_put i ch j out = Inr (Suc j, ?o)" using 2 o room by (simp add: b64_put_def bits_arith)
      show "pending (Suc i mod 4) (ch mod 16 * 16) ?o (Suc j)" using 2 pendingI(2) [of "Suc j" "out[j := Some (chr (p + ch div 16))]" ch] room by (simp add: mod4_Suc)
    qed (use 2 room in \<open>auto simp: mod4_Suc intro!: decoded_Cons\<close>)
  next
    case 3
    let ?o = "out[j := Some (chr (p + ch div 4)), Suc j := Some (chr (ch mod 4 * 64))]"
    have "ch div 4 < 16" using ch by simp
    then have o: "buf_or out j (ch div 4) = Inr (out[j := Some (chr (p + ch div 4))])" using pending_or [OF pe] 3 room ch by simp
    show thesis
    proof (rule that [of "Suc j" ?o "ch mod 4 * 64" "[p + ch div 4]"])
      show "b64_put i ch j out = Inr (Suc j, ?o)" using 3 o room by (simp add: b64_put_def bits_arith)
      show "pending (Suc i mod 4) (ch mod 4 * 64) ?o (Suc j)" using 3 pendingI(3) [of "Suc j" "out[j := Some (chr (p + ch div 4))]" ch] room by (simp add: mod4_Suc)
    qed (use 3 room in \<open>auto simp: mod4_Suc intro!: decoded_Cons\<close>)
  next
    case 4
    let ?o = "out[j := Some (chr (p + ch))]"
    have o: "buf_or out j ch = Inr ?o" using pending_or [OF pe] 4 room ch by simp
    show thesis
    proof (rule that [of "Suc j" ?o 0 "[p + ch]"])
      show "b64_put i ch j out = Inr (Suc j, ?o)" using 4 o room by (simp add: b64_put_def bits_arith)
      show "pending (Suc i mod 4) 0 ?o (Suc j)" using 4 by (simp add: mod4_Suc pending_def)
    qed (use 4 room in \<open>auto simp: mod4_Suc intro!: decoded_Cons\<close>)
  qed
qed

lemma base64_decode_loop_ok:
  assumes "j + length (b64_data inp) < length out" "pending (i mod 4) p out j"
  shows "\<exists>out'. base64_decode_loop strict inp i padding j out =
      (if strict \<and> \<not> b64_chars_ok inp (padding \<noteq> 0) then Inr None
       else Inr (Some (i + length (b64_data inp), padding + b64_pads inp, j + length (bytes_from (i mod 4) p (b64_data inp)), out'))) \<and>
    decoded j (bytes_from (i mod 4) p (b64_data inp)) out out'"
  using assms
proof (induction inp arbitrary: i p padding j out)
  case Nil
  then show ?case by (auto simp: b64_data_def b64_pads_def decoded_def)
next
  case (Cons c inp)
  consider "c = base64_pad" | "c \<noteq> base64_pad" "b64_val c = -2" | "c \<noteq> base64_pad" "b64_val c = -1"
    | "c \<noteq> base64_pad" "b64_val c \<ge> 0" "b64_val c < 64"
    using b64_val_cases [of c] by blast
  then show ?case
  proof cases
    case 1
    have "b64_data (c # inp) = b64_data inp" "b64_pads (c # inp) = Suc (b64_pads inp)" using 1 by (simp_all add: b64_data_def b64_pads_def)
    then show ?thesis using 1 Cons.IH [of j out i p "padding + 1"] Cons.prems by (auto split: if_splits)
  next
    case 2
    have "b64_data (c # inp) = b64_data inp" "b64_pads (c # inp) = b64_pads inp" using 2 by (simp_all add: b64_data_def b64_pads_def)
    then show ?thesis using 2 Cons.IH [of j out i p padding] Cons.prems
      by (cases strict) (auto simp: base64_decode_loop_skip simp del: base64_decode_loop.simps)
  next
    case 3
    have "b64_data (c # inp) = b64_data inp" "b64_pads (c # inp) = b64_pads inp" using 3 by (simp_all add: b64_data_def b64_pads_def)
    then show ?thesis using 3 Cons.IH [of j out i p padding] Cons.prems
      by (auto simp: base64_decode_loop_skip simp del: base64_decode_loop.simps split: if_splits)
  next
    case 4
    have d: "b64_data (c # inp) = b64_val c # b64_data inp" "b64_pads (c # inp) = b64_pads inp" using 4 by (simp_all add: b64_data_def b64_pads_def)
    have "Suc j < length out" using Cons.prems(1) d(1) by simp
    from b64_put_ok [OF Cons.prems(2) this 4(2,3)] obtain j' out' p' x where u: "b64_put i (b64_val c) j out = Inr (j', out')"
      "pending (Suc i mod 4) p' out' j'" "length out' = length out" "j' = j + length x" "length x \<le> 1"
      and b: "\<And>ds. bytes_from (i mod 4) p (b64_val c # ds) = x @ bytes_from (Suc i mod 4) p' ds"
      and o: "\<And>bs out''. decoded j' bs out' out'' \<Longrightarrow> decoded j (x @ bs) out out''" by metis
    have "j' + length (b64_data inp) < length out'" using u(3-5) Cons.prems(1) d(1) by simp
    from Cons.IH [OF this u(2), of padding] obtain out'' where r: "base64_decode_loop strict inp (Suc i) padding j' out' =
        (if strict \<and> \<not> b64_chars_ok inp (padding \<noteq> 0) then Inr None
         else Inr (Some (Suc i + length (b64_data inp), padding + b64_pads inp, j' + length (bytes_from (Suc i mod 4) p' (b64_data inp)), out'')))"
      "decoded j' (bytes_from (Suc i mod 4) p' (b64_data inp)) out' out''" by blast
    from o [OF r(2)] show ?thesis using r(1) u(1,4) 4 d b
      by (intro exI [of _ out'']) (auto simp: base64_decode_loop_put simp del: base64_decode_loop.simps)
  qed
qed

lemma base64_decode_ok:
  "php_base64_decode_ex str strict = Inr (if strict \<and> \<not> b64_strict str then None else Some (sextet_bytes (b64_data str)))"
proof -
  let ?out = "replicate (length str + 1) None :: buffer" and ?bs = "bytes_from 0 0 (b64_data str)"
  have "length (b64_data str) \<le> length str" by (simp add: b64_data_def)
  then have room: "0 + length (b64_data str) < length ?out" by simp
  have "pending (0 mod 4) 0 ?out 0" by (simp add: pending_def)
  from base64_decode_loop_ok [OF room this, of strict 0, unfolded add_0 mod_0] obtain out where r: "base64_decode_loop strict str 0 0 0 ?out =
      (if strict \<and> \<not> b64_chars_ok str False then Inr None
       else Inr (Some (length (b64_data str), b64_pads str, length ?bs, out)))" "decoded 0 ?bs ?out out" by auto
  have bb: "length (bytes_from m p ds) \<le> length ds" for m p ds by (induction m p ds rule: bytes_from.induct) auto
  have "length ?bs < length out" using r(2) bb [of 0 0 "b64_data str"] \<open>length (b64_data str) \<le> length str\<close> by (simp add: decoded_def)
  moreover from this have "buf_string (out[length ?bs := Some (chr 0)]) (length ?bs) = Some (map chr ?bs)"
    using r(2) by (simp add: buf_string_def decoded_def flip: map_map)
  ultimately show ?thesis using r(1)
    by (auto simp: php_base64_decode_ex_def php_base64_decode_impl_def b64_strict_def bytes_from_groups)
qed

section \<open>Round trip\<close>

lemma sextets_bounds: "list_all (\<lambda>v. 0 \<le> v \<and> v < 64) (sextets s)"
proof (induction s rule: sextets.induct)
  case (1 a b c s)
  then show ?case using pack_bits(3) [OF byte_parts(5,6) [of b] byte_parts(3,4) [of a]]
      pack_bits(3) [OF byte_parts(9,10) [of c] byte_parts(7,8) [of b]] byte_parts(1,2) [of a] byte_parts(11,12) [of c] by simp
next
  case (2 a b)
  then show ?case using byte_parts(1,2) [of a] byte_parts(7,8) [of b] pack_bits(3) [OF byte_parts(5,6) [of b] byte_parts(3,4) [of a]] by simp
next
  case (3 a)
  then show ?case using byte_parts(1-4) [of a] by simp
qed simp

lemma sextets_roundtrip: "sextet_bytes (sextets s) = s"
proof (induction s rule: sextets.induct)
  case (1 a b c s)
  note ab = pack_bits [OF byte_parts(5,6) [of b], of "byte a mod 4"] and bc = pack_bits [OF byte_parts(9,10) [of c], of "byte b mod 16"]
  have "chr (byte a div 4 * 4 + byte a mod 4) = a" "chr (byte b div 16 * 16 + byte b mod 16) = b" "chr (byte c div 64 * 64 + byte c mod 64) = c"
    unfolding div_mult_mod_eq by simp_all
  then show ?case unfolding sextets.simps append.simps sextet_bytes.simps ab(1,2) bc(1,2) 1 by simp
next
  case (2 a b)
  note ab = pack_bits [OF byte_parts(5,6) [of b], of "byte a mod 4"]
  have "chr (byte a div 4 * 4 + byte a mod 4) = a" "chr (byte b div 16 * 16 + byte b mod 16) = b" unfolding div_mult_mod_eq by simp_all
  then show ?case unfolding sextets.simps sextet_bytes.simps ab(1,2) by simp
next
  case (3 a)
  have "chr (byte a div 4 * 4 + byte a mod 4) = a" unfolding div_mult_mod_eq by simp
  then show ?case by simp
qed simp

lemma length_sextets: "length (sextets s) = (length s div 3) * 4 + (if length s mod 3 = 0 then 0 else length s mod 3 + 1)"
proof (induction s rule: sextets.induct)
  case (1 a b c s)
  have "length (a # b # c # s) div 3 = Suc (length s div 3)" "length (a # b # c # s) mod 3 = length s mod 3" by simp_all
  then show ?case using 1 by simp
qed simp_all

lemma base64_encode_data:
  assumes "list_all (\<lambda>v. 0 \<le> v \<and> v < 64) ds"
  shows "b64_data (map b64_char ds @ replicate n base64_pad) = ds" "b64_pads (map b64_char ds @ replicate n base64_pad) = n"
    "b64_chars_ok (map b64_char ds @ replicate n base64_pad) False"
proof -
  have p: "b64_chars_ok (replicate n base64_pad) b" for b by (induction n arbitrary: b) simp_all
  show "b64_data (map b64_char ds @ replicate n base64_pad) = ds" "b64_pads (map b64_char ds @ replicate n base64_pad) = n"
    "b64_chars_ok (map b64_char ds @ replicate n base64_pad) False"
    using assms p by (induction ds) (auto simp: b64_data_def b64_pads_def b64_char)
qed

lemma base64_encode_length: "length (php_base64_encode_impl no_padding s) \<le> (length s + 2) div 3 * 4"
proof -
  have "length (php_base64_encode_impl no_padding s) \<le> length (sextets s) + (3 - length s mod 3) mod 3" by (simp add: base64_encode_sextets)
  also have "\<dots> \<le> (length s + 2) div 3 * 4"
  proof -
    obtain q r where r: "length s = 3 * q + r" "r < 3" by (metis mult_div_mod_eq mod_less_divisor zero_less_numeral)
    then have "r = 0 \<or> r = 1 \<or> r = 2" by auto
    then show ?thesis unfolding length_sextets using r(1) by auto
  qed
  finally show ?thesis .
qed

lemma base64_roundtrip_ok:
  "\<exists>e. php_base64_encode_ex s no_padding = Inr e \<and> php_base64_decode_ex e strict = Inr (Some s)"
proof -
  let ?n = "if no_padding then 0 else (3 - length s mod 3) mod 3"
  let ?e = "map b64_char (sextets s) @ replicate ?n base64_pad"
  have e: "php_base64_encode_impl no_padding s = ?e" by (simp add: base64_encode_sextets)
  note d = base64_encode_data [OF sextets_bounds, of s ?n]
  have "b64_strict ?e"
  proof -
    obtain q r where r: "length s = 3 * q + r" "r < 3" by (metis mult_div_mod_eq mod_less_divisor zero_less_numeral)
    then have "r = 0 \<or> r = 1 \<or> r = 2" by auto
    then have "length (sextets s) mod 4 \<noteq> 1 \<and> (?n = 0 \<or> ?n \<le> 2 \<and> (length (sextets s) + ?n) mod 4 = 0)"
      unfolding length_sextets using r(1) by (auto; presburger)
    then show ?thesis unfolding b64_strict_def d(1,2) using d(3) by simp
  qed
  then have "php_base64_decode_ex ?e strict = Inr (Some s)" by (simp add: base64_decode_ok d(1) sextets_roundtrip)
  then show ?thesis using e base64_encode_length [of no_padding s] by (simp add: php_base64_encode_ex_def Let_def)
qed


end
