(* ===== verification/Uuencode.thy ===== *)
theory Uuencode
  imports Base64
begin

text \<open>
  Uuencoding (\<^verbatim>\<open>ext/standard/uuencode.c\<close>): the encoder produces lines of at most 45 bytes within its block, the decoder
  returns on every input without leaving its block, and decoding undoes encoding.
\<close>

section \<open>Encoding\<close>

definition PHP_UU_ENC :: "int \<Rightarrow> char" where
  "PHP_UU_ENC c = chr (if c \<noteq> 0 then (c AND 63) + 32 else 96)"

definition PHP_UU_ENC_C2 :: "int \<Rightarrow> int \<Rightarrow> char" where
  "PHP_UU_ENC_C2 c0 c1 = PHP_UU_ENC ((push_bit 4 c0 AND 48) OR (drop_bit 4 c1 AND 15))"

definition PHP_UU_ENC_C3 :: "int \<Rightarrow> int \<Rightarrow> char" where
  "PHP_UU_ENC_C3 c1 c2 = PHP_UU_ENC ((push_bit 2 c1 AND 60) OR (drop_bit 6 c2 AND 3))"

text \<open>The inner loop; the end of a line is always a multiple of three away.\<close>

fun uu_groups :: "string \<Rightarrow> string" where
  "uu_groups (a # b # c # s) =
     [PHP_UU_ENC (drop_bit 2 (byte a)), PHP_UU_ENC_C2 (byte a) (byte b), PHP_UU_ENC_C3 (byte b) (byte c), PHP_UU_ENC (byte c AND 63)] @ uu_groups s"
| "uu_groups _ = []"

text \<open>The outer loop returns the output, the rest of the input and the last value of \<^verbatim>\<open>len\<close>.\<close>

partial_function (option) uu_lines :: "string \<Rightarrow> nat \<Rightarrow> (string \<times> string \<times> nat) option" where
  "uu_lines s len =
     (if length s > 3
      then let n = (if len > length s then length s else len);
               ee = (if len > length s then length s div 3 * 3 else len)
           in Option.bind (uu_lines (drop ee s) n) (\<lambda>(p, s', len').
                Some (PHP_UU_ENC (int n) # uu_groups (take ee s) @ (if n = 45 then [chr 10] else []) @ p, s', len'))
      else Some ([], s, len))"

text \<open>A byte at the offset \<open>i\<close>; the byte after the last one is the terminating zero.\<close>

definition str_at :: "string \<Rightarrow> nat \<Rightarrow> char mem" where
  "str_at s i = (if i < length s then Inr (s ! i) else if i = length s then Inr (chr 0) else Inl Out_of_bounds)"

definition uu_tail :: "string \<Rightarrow> nat \<Rightarrow> string mem" where
  "uu_tail s len =
     mem_bind (str_at s 0) (\<lambda>a. mem_bind (str_at s 1) (\<lambda>b.
     mem_bind (if length s > 1 then mem_bind (str_at s 2) (\<lambda>c. Inr (PHP_UU_ENC_C3 (byte b) (byte c))) else Inr (PHP_UU_ENC 0)) (\<lambda>x.
     mem_bind (if length s > 2 then mem_bind (str_at s 2) (\<lambda>c. Inr (PHP_UU_ENC (byte c AND 63))) else Inr (PHP_UU_ENC 0)) (\<lambda>y.
       Inr ((if len = 45 then [PHP_UU_ENC (int (length s))] else []) @
         [PHP_UU_ENC (drop_bit 2 (byte a)), PHP_UU_ENC_C2 (byte a) (byte b), x, y])))))"

text \<open>\<open>None\<close> stands for a loop that does not end; the block has \<^verbatim>\<open>src_len/2 * 3 + 46\<close> bytes and one for the zero.\<close>

definition php_uuencode :: "string \<Rightarrow> string mem option" where
  "php_uuencode src =
     map_option (\<lambda>(p, s, len).
       mem_bind (if s \<noteq> [] then uu_tail s len else Inr []) (\<lambda>t.
         let len = (if s \<noteq> [] \<and> len = 45 then 0 else len);
             r = p @ t @ (if len < 45 then [chr 10] else []) @ [PHP_UU_ENC 0, chr 10]
         in if length r \<le> length src div 2 * 3 + 46 then Inr r else Inl Out_of_bounds))
       (uu_lines src 45)"

section \<open>Decoding\<close>

definition PHP_UU_DEC :: "char \<Rightarrow> int" where
  "PHP_UU_DEC c = (byte c - 32) AND 63"

definition uu_byte0 :: "char \<Rightarrow> char \<Rightarrow> int" where
  "uu_byte0 c0 c1 = push_bit 2 (PHP_UU_DEC c0) OR drop_bit 4 (PHP_UU_DEC c1)"

definition uu_byte1 :: "char \<Rightarrow> char \<Rightarrow> int" where
  "uu_byte1 c1 c2 = push_bit 4 (PHP_UU_DEC c1) OR drop_bit 2 (PHP_UU_DEC c2)"

definition uu_byte2 :: "char \<Rightarrow> char \<Rightarrow> int" where
  "uu_byte2 c2 c3 = push_bit 6 (PHP_UU_DEC c2) OR PHP_UU_DEC c3"

text \<open>The inner loop; the result \<open>None\<close> is the jump to \<^verbatim>\<open>err\<close>.\<close>

function uu_decode_line :: "string \<Rightarrow> nat \<Rightarrow> nat \<Rightarrow> nat \<Rightarrow> buffer \<Rightarrow> (nat \<times> nat \<times> buffer) option mem" where
  "uu_decode_line src s ee p out =
     (if s < ee then
        if s + 4 > length src then Inr None
        else mem_bind (str_at src s) (\<lambda>c0. mem_bind (str_at src (s + 1)) (\<lambda>c1. mem_bind (str_at src (s + 2)) (\<lambda>c2. mem_bind (str_at src (s + 3)) (\<lambda>c3.
             mem_bind (buf_set out p (uu_byte0 c0 c1)) (\<lambda>out.
             mem_bind (buf_set out (p + 1) (uu_byte1 c1 c2)) (\<lambda>out.
             mem_bind (buf_set out (p + 2) (uu_byte2 c2 c3)) (\<lambda>out. uu_decode_line src (s + 4) ee (p + 3) out)))))))
      else Inr (Some (s, p, out)))"
  by pat_completeness auto
termination
  by (relation "measure (\<lambda>(src, s, ee, p, out). ee - s)") auto

declare uu_decode_line.simps [simp del]

text \<open>\<^verbatim>\<open>(int) floor(len * 1.33)\<close> for a length below 64.\<close>

definition uu_line_end :: "nat \<Rightarrow> nat" where
  "uu_line_end len = (if len = 45 then 60 else len * 133 div 100)"

partial_function (option) uu_decode_loop :: "string \<Rightarrow> nat \<Rightarrow> nat \<Rightarrow> nat \<Rightarrow> buffer \<Rightarrow> (nat \<times> nat \<times> nat \<times> buffer) option mem option" where
  "uu_decode_loop src s p total_len out =
     (if s < length src then
        (case str_at src s of
           Inl e \<Rightarrow> Some (Inl e)
         | Inr c \<Rightarrow>
             let len = nat (PHP_UU_DEC c); s = s + 1
             in if len = 0 then Some (Inr (Some (s, p, total_len, out)))
                else if len > length src then Some (Inr None)
                else let ee = s + uu_line_end len
                  in if ee > length src then Some (Inr None)
                     else (case uu_decode_line src s ee p out of
                         Inl e \<Rightarrow> Some (Inl e)
                       | Inr None \<Rightarrow> Some (Inr None)
                       | Inr (Some (s, p, out)) \<Rightarrow>
                           if len < 45 then Some (Inr (Some (s, p, total_len + len, out)))
                           else uu_decode_loop src (s + 1) p (total_len + len) out))
      else Some (Inr (Some (s, p, total_len, out))))"

text \<open>The bytes that are still missing after the loop.\<close>

definition uu_decode_rest :: "string \<Rightarrow> nat \<Rightarrow> nat \<Rightarrow> nat \<Rightarrow> buffer \<Rightarrow> buffer mem" where
  "uu_decode_rest src s p total_len out =
     mem_bind (str_at src s) (\<lambda>c0. mem_bind (str_at src (s + 1)) (\<lambda>c1. mem_bind (buf_set out p (uu_byte0 c0 c1)) (\<lambda>out.
       if total_len > 1
       then mem_bind (str_at src (s + 2)) (\<lambda>c2. mem_bind (buf_set out (p + 1) (uu_byte1 c1 c2)) (\<lambda>out.
         if total_len > 2
         then mem_bind (str_at src (s + 3)) (\<lambda>c3. buf_set out (p + 2) (uu_byte2 c2 c3))
         else Inr out))
       else Inr out)))"

text \<open>The outer option is the end of the loop, the inner one the result; \<^verbatim>\<open>ceil(src_len * 0.75)\<close> bytes and the zero.\<close>

definition php_uudecode :: "string \<Rightarrow> string option mem option" where
  "php_uudecode src =
     (if src = [] then Some (Inr None)
      else map_option (\<lambda>r. mem_bind r (\<lambda>r. case r of
             None \<Rightarrow> Inr None
           | Some (s, p, total_len, out) \<Rightarrow>
               mem_bind (if total_len > p then uu_decode_rest src s p total_len out else Inr out) (\<lambda>out.
               mem_bind (buf_set out total_len 0) (\<lambda>out.
                 case buf_string out total_len of None \<Rightarrow> Inl Uninitialised | Some d \<Rightarrow> Inr (Some d)))))
        (uu_decode_loop src 0 0 0 (replicate ((length src * 3 + 3) div 4 + 1) None)))"


section \<open>What the encoder produces\<close>

definition pad3 :: "string \<Rightarrow> string" where
  "pad3 s = s @ replicate ((3 - length s mod 3) mod 3) (chr 0)"

definition uu_line :: "string \<Rightarrow> string" where
  "uu_line s = PHP_UU_ENC (int (length s)) # map PHP_UU_ENC (sextets (pad3 s)) @ [chr 10]"

function uu_text :: "string \<Rightarrow> string" where
  "uu_text s = (if s = [] then [PHP_UU_ENC 0, chr 10] else uu_line (take 45 s) @ uu_text (drop 45 s))"
  by pat_completeness auto
termination
  by (relation "measure length") auto

declare uu_text.simps [simp del]

lemma enc_bits:
  "PHP_UU_ENC (drop_bit 2 (byte a)) = PHP_UU_ENC (byte a div 4)"
  "PHP_UU_ENC_C2 (byte a) (byte b) = PHP_UU_ENC (byte a mod 4 * 16 + byte b div 16)"
  "PHP_UU_ENC_C3 (byte b) (byte c) = PHP_UU_ENC (byte b mod 16 * 4 + byte c div 64)"
  "PHP_UU_ENC (byte c AND 63) = PHP_UU_ENC (byte c mod 64)"
proof -
  have "push_bit 4 (byte a) AND 48 = push_bit 4 (byte a AND 3)" "push_bit 2 (byte b) AND 60 = push_bit 2 (byte b AND 15)"
    by (simp_all add: push_bit_and)
  moreover have "byte b div 16 mod 16 = byte b div 16" "byte c div 64 mod 4 = byte c div 64"
    using byte_parts(5,6) [of b] byte_parts(9,10) [of c] by simp_all
  moreover have "(byte a mod 4 * 16) OR (byte b div 16) = byte a mod 4 * 16 + byte b div 16"
    using or_low_bits [of "byte b div 16" 4 "byte a mod 4"] byte_parts(5,6) [of b] by simp
  moreover have "(byte b mod 16 * 4) OR (byte c div 64) = byte b mod 16 * 4 + byte c div 64"
    using or_low_bits [of "byte c div 64" 2 "byte b mod 16"] byte_parts(9,10) [of c] by simp
  ultimately show "PHP_UU_ENC_C2 (byte a) (byte b) = PHP_UU_ENC (byte a mod 4 * 16 + byte b div 16)"
    "PHP_UU_ENC_C3 (byte b) (byte c) = PHP_UU_ENC (byte b mod 16 * 4 + byte c div 64)"
    by (simp_all add: PHP_UU_ENC_C2_def PHP_UU_ENC_C3_def bits_arith)
qed (simp_all add: bits_arith)

lemma uu_groups_sextets: "length s mod 3 = 0 \<Longrightarrow> uu_groups s = map PHP_UU_ENC (sextets s)"
  by (induction s rule: uu_groups.induct) (simp_all add: enc_bits)

lemma sextets_append: "length s mod 3 = 0 \<Longrightarrow> sextets (s @ t) = sextets s @ sextets t"
  by (induction s rule: sextets.induct) simp_all

lemma short_cases: "length (s :: string) \<le> 3 \<Longrightarrow> s \<noteq> [] \<Longrightarrow> (\<exists>a. s = [a]) \<or> (\<exists>a b. s = [a, b]) \<or> (\<exists>a b c. s = [a, b, c])"
  by (cases s rule: sextets.cases) auto

lemma replicate_numeral_2: "replicate 2 x = [x, x]"
  by (simp add: numeral_2_eq_2)

lemma uu_tail_ok:
  assumes "length s \<le> 3" "s \<noteq> []"
  shows "uu_tail s len = Inr ((if len = 45 then [PHP_UU_ENC (int (length s))] else []) @ map PHP_UU_ENC (sextets (pad3 s)))"
proof -
  have z: "byte (chr 0) = 0" by simp
  note d = uu_tail_def str_at_def pad3_def enc_bits
  show ?thesis using short_cases [OF assms]
  proof (elim disjE exE)
    fix a assume "s = [a]"
    then show ?thesis using enc_bits(2) [of a "chr 0"] by (simp add: d z replicate_numeral_2)
  next
    fix a b assume "s = [a, b]"
    then show ?thesis using enc_bits(3) [of b "chr 0"] by (simp add: d z)
  next
    fix a b c assume "s = [a, b, c]"
    then show ?thesis by (simp add: d z)
  qed
qed

lemma pad3_split:
  assumes "length s mod 3 = 0"
  shows "pad3 (s @ t) = s @ pad3 t"
proof -
  have "(length s + length t) mod 3 = length t mod 3" using assms by (metis mod_add_left_eq add_0)
  then show ?thesis by (simp add: pad3_def)
qed

lemma uu_lines_short: "length s \<le> 3 \<Longrightarrow> uu_lines s len = Some ([], s, len)"
  by (simp add: uu_lines.simps [of s])

text \<open>The output without the last line.\<close>

definition uu_finish :: "string \<times> string \<times> nat \<Rightarrow> string mem" where
  "uu_finish = (\<lambda>(p, s, len). mem_bind (if s \<noteq> [] then uu_tail s len else Inr []) (\<lambda>t.
     Inr (p @ t @ (if (if s \<noteq> [] \<and> len = 45 then 0 else len) < 45 then [chr 10] else []) @ [PHP_UU_ENC 0, chr 10])))"

lemma uu_text_short: "s \<noteq> [] \<Longrightarrow> length s \<le> 45 \<Longrightarrow> uu_text s = uu_line s @ [PHP_UU_ENC 0, chr 10]"
  by (simp add: uu_text.simps [of s] uu_text.simps [of "[]"])

lemma uu_lines_ok: "\<exists>r. uu_lines s 45 = Some r \<and> uu_finish r = Inr (uu_text s)"
proof (induction s rule: length_induct)
  case (1 s)
  consider "length s \<le> 3" | "3 < length s" "length s < 45" | "45 \<le> length s" by linarith
  then show ?case
  proof cases
    case 1
    then show ?thesis using uu_lines_short [OF 1, of 45] uu_tail_ok [OF 1, of 45] uu_text_short [of s]
      by (cases "s = []") (auto simp: uu_finish_def uu_line_def uu_text.simps [of "[]"])
  next
    case 2
    let ?e = "length s div 3 * 3"
    have e: "?e \<le> length s" "length (drop ?e s) = length s mod 3" by (simp_all add: minus_div_mult_eq_mod)
    have r: "length (drop ?e s) \<le> 3" using e(2) by simp
    have t: "length (take ?e s) mod 3 = 0" using e(1) by simp
    have l: "uu_lines s 45 = Some (PHP_UU_ENC (int (length s)) # uu_groups (take ?e s), drop ?e s, length s)"
      using 2 uu_lines_short [OF r] by (simp add: uu_lines.simps [of s] Let_def)
    have "sextets (pad3 s) = sextets (take ?e s) @ sextets (pad3 (drop ?e s))"
      using pad3_split [OF t, of "drop ?e s"] sextets_append [OF t] by simp
    moreover have "uu_finish (PHP_UU_ENC (int (length s)) # uu_groups (take ?e s), drop ?e s, length s) =
        Inr (PHP_UU_ENC (int (length s)) # map PHP_UU_ENC (sextets (take ?e s)) @ map PHP_UU_ENC (sextets (pad3 (drop ?e s))) @ [chr 10, PHP_UU_ENC 0, chr 10])"
      using 2 uu_groups_sextets [OF t] uu_tail_ok [OF r, of "length s"]
      by (cases "drop ?e s = []") (simp_all add: uu_finish_def pad3_def)
    moreover have "uu_text s = uu_line s @ [PHP_UU_ENC 0, chr 10]" using 2 by (intro uu_text_short) auto
    ultimately show ?thesis using l by (simp add: uu_line_def)
  next
    case 3
    have "length (drop 45 s) < length s" using 3 by simp
    with 1 obtain p s' len where r: "uu_lines (drop 45 s) 45 = Some (p, s', len)" "uu_finish (p, s', len) = Inr (uu_text (drop 45 s))"
      by (metis prod_cases3)
    have t: "length (take 45 s) mod 3 = 0" using 3 by simp
    have "uu_lines s 45 = Some (PHP_UU_ENC 45 # uu_groups (take 45 s) @ [chr 10] @ p, s', len)"
      using 3 r(1) by (simp add: uu_lines.simps [of s] Let_def)
    moreover have "pad3 (take 45 s) = take 45 s" using 3 by (simp add: pad3_def)
    moreover have "uu_finish (PHP_UU_ENC 45 # uu_groups (take 45 s) @ [chr 10] @ p, s', len) = Inr (uu_line (take 45 s) @ uu_text (drop 45 s))"
      using r(2) uu_groups_sextets [OF t] 3 \<open>pad3 (take 45 s) = take 45 s\<close>
      by (cases "if s' \<noteq> [] then uu_tail s' len else Inr []") (auto simp: uu_finish_def uu_line_def)
    moreover have "uu_text s = uu_line (take 45 s) @ uu_text (drop 45 s)" using 3 by (subst uu_text.simps) auto
    ultimately show ?thesis by simp
  qed
qed

lemma pad3_length: "length (pad3 s) = (length s + 2) div 3 * 3"
proof -
  obtain q r where "length s = 3 * q + r" "r < 3" by (metis mult_div_mod_eq mod_less_divisor zero_less_numeral)
  moreover from this have "r = 0 \<or> r = 1 \<or> r = 2" by auto
  ultimately show ?thesis by (auto simp: pad3_def)
qed

lemma uu_line_length: "length (uu_line s) = 2 + (length s + 2) div 3 * 4"
  by (simp add: uu_line_def length_sextets pad3_length)

lemma uu_text_length: "length (uu_text s) \<le> length s div 2 * 3 + 46"
proof -
  have b: "45 * length (uu_text s) \<le> 62 * length s + 315"
  proof (induction s rule: uu_text.induct)
    case (1 s)
    have a: "45 * (2 + (n + 2) div 3 * 4) \<le> 62 * n + 225" if "n \<le> 45" for n :: nat
    proof -
      have "3 * ((n + 2) div 3) \<le> n + 2" by simp
      then have "60 * (3 * ((n + 2) div 3)) \<le> 60 * (n + 2)" by (rule mult_le_mono2)
      then show ?thesis by simp
    qed
    consider "s = []" | "s \<noteq> []" "length s \<le> 45" | "45 < length s" by linarith
    then show ?case
    proof cases
      case 2
      then show ?thesis using a [of "length s"] by (simp add: uu_text_short uu_line_length)
    next
      case 3
      then have "s \<noteq> []" by auto
      then show ?thesis using "1" 3 by (subst uu_text.simps) (simp add: uu_line_length min_absorb2)
    qed (simp add: uu_text.simps [of "[]"])
  qed
  obtain q r where "length s = 2 * q + r" "r < 2" by (metis mult_div_mod_eq mod_less_divisor zero_less_numeral)
  moreover from this have "length s div 2 = q" by simp
  ultimately show ?thesis using b by simp
qed

lemma uuencode_ok: "php_uuencode s = Some (Inr (uu_text s))"
proof -
  obtain p s' len where r: "uu_lines s 45 = Some (p, s', len)" "uu_finish (p, s', len) = Inr (uu_text s)"
    using uu_lines_ok [of s] by (metis prod_cases3)
  from r(2) obtain t where t: "(if s' \<noteq> [] then uu_tail s' len else Inr []) = Inr t"
    "p @ t @ (if (if s' \<noteq> [] \<and> len = 45 then 0 else len) < 45 then [chr 10] else []) @ [PHP_UU_ENC 0, chr 10] = uu_text s"
    by (cases "if s' \<noteq> [] then uu_tail s' len else Inr []") (auto simp: uu_finish_def)
  show ?thesis unfolding php_uuencode_def r(1) option.map prod.case t(1) mem_bind.simps Let_def t(2)
    using uu_text_length [of s] by simp
qed


section \<open>The decoder is safe on every input\<close>

text \<open>The state of the decoder between two groups: what has been written, and how far it can be.\<close>

definition uu_state :: "string \<Rightarrow> nat \<Rightarrow> nat \<Rightarrow> buffer \<Rightarrow> bool" where
  "uu_state src s p out \<longleftrightarrow> length out = (length src * 3 + 3) div 4 + 1 \<and> 4 * p \<le> 3 * min s (length src) \<and> (\<forall>i < p. out ! i \<noteq> None)"

lemma str_at_ok: "i < length s \<Longrightarrow> str_at s i = Inr (s ! i)"
  by (simp add: str_at_def)

lemma uu_state_step:
  assumes "uu_state src s p out" "s + 4 \<le> length src"
  shows "uu_state src (s + 4) (p + 3) (out[p := Some x, p + 1 := Some y, p + 2 := Some z])" "p + 2 < length out"
proof -
  have l: "length out = (length src * 3 + 3) div 4 + 1" "4 * p \<le> 3 * s" "\<forall>i < p. out ! i \<noteq> None" using assms by (simp_all add: uu_state_def)
  have "4 * (p + 3) \<le> 3 * length src" using l(2) assms(2) by simp
  then have "p + 3 \<le> (length src * 3 + 3) div 4" by (simp add: less_eq_div_iff_mult_less_eq)
  then show "p + 2 < length out" using l(1) by simp
  then have "out[p := Some x, p + 1 := Some y, p + 2 := Some z] ! i \<noteq> None" if "i < p + 3" for i
    using that l(3) by (cases "i < p"; cases "i = p"; cases "i = p + 1") (simp_all add: nth_list_update)
  moreover have "4 * (p + 3) \<le> 3 * min (s + 4) (length src)" using l(2) assms(2) by (simp add: min_def)
  ultimately show "uu_state src (s + 4) (p + 3) (out[p := Some x, p + 1 := Some y, p + 2 := Some z])"
    using l(1) by (simp add: uu_state_def)
qed

lemma uu_decode_line_safe:
  assumes "uu_state src s p out"
  shows "uu_decode_line src s ee p out = Inr None \<or>
    (\<exists>k out'. uu_decode_line src s ee p out = Inr (Some (s + 4 * k, p + 3 * k, out')) \<and> ee \<le> s + 4 * k \<and> uu_state src (s + 4 * k) (p + 3 * k) out')"
  using assms
proof (induction src s ee p out rule: uu_decode_line.induct)
  case (1 src s ee p out)
  consider "\<not> s < ee" | "s < ee" "s + 4 > length src" | "s < ee" "s + 4 \<le> length src" by linarith
  then show ?case
  proof cases
    case 1
    then show ?thesis using "1.prems" by (intro disjI2 exI [of _ 0] exI [of _ out]) (simp add: uu_decode_line.simps)
  next
    case 2
    then show ?thesis by (simp add: uu_decode_line.simps)
  next
    case 3
    let ?out = "out[p := Some (chr (uu_byte0 (src ! s) (src ! (s + 1)))), p + 1 := Some (chr (uu_byte1 (src ! (s + 1)) (src ! (s + 2)))),
      p + 2 := Some (chr (uu_byte2 (src ! (s + 2)) (src ! (s + 3))))]"
    note st = uu_state_step [OF "1.prems" 3(2)]
    have r: "str_at src s = Inr (src ! s)" "str_at src (s + 1) = Inr (src ! (s + 1))" "str_at src (s + 2) = Inr (src ! (s + 2))"
      "str_at src (s + 3) = Inr (src ! (s + 3))" using 3(2) by (simp_all add: str_at_ok)
    have e: "uu_decode_line src s ee p out = uu_decode_line src (s + 4) ee (p + 3) ?out"
      using 3 r st(2) by (subst uu_decode_line.simps) simp
    have "\<not> s + 4 > length src" using 3(2) by simp
    note IH = "1.IH" [OF 3(1) this st(1)]
    show ?thesis
    proof (cases "uu_decode_line src (s + 4) ee (p + 3) ?out = Inr None")
      case False
      with IH obtain k out' where k: "uu_decode_line src (s + 4) ee (p + 3) ?out = Inr (Some (s + 4 + 4 * k, p + 3 + 3 * k, out'))"
        "ee \<le> s + 4 + 4 * k" "uu_state src (s + 4 + 4 * k) (p + 3 + 3 * k) out'" by blast
      then show ?thesis using e by (intro disjI2 exI [of _ "Suc k"] exI [of _ out']) (simp add: add.assoc)
    qed (use e in simp)
  qed
qed


lemma uu_state_next: "uu_state src s p out \<Longrightarrow> uu_state src (Suc s) p out"
  by (simp add: uu_state_def min_def split: if_splits)

lemma uu_dec_bounds: "0 \<le> PHP_UU_DEC c" "PHP_UU_DEC c < 64"
  by (simp_all add: PHP_UU_DEC_def and_low_bits)

text \<open>The groups of a line hold all its bytes, so the code after the loop has nothing left to do.\<close>

lemma uu_line_end_enough:
  assumes "uu_line_end n \<le> 4 * k" "n < 64"
  shows "n \<le> 3 * k"
proof -
  have "133 * n < 100 * (4 * k + 1)" using assms by (auto simp: uu_line_end_def split: if_splits)
  then have "133 * int n < 400 * int k + 100" by simp
  then show ?thesis using assms(2) by simp
qed

definition uu_loop_state :: "string \<Rightarrow> (nat \<times> nat \<times> nat \<times> buffer) option \<Rightarrow> bool" where
  "uu_loop_state src r = (case r of None \<Rightarrow> True | Some (s, p, total_len, out) \<Rightarrow> uu_state src s p out \<and> total_len \<le> p)"

lemma uu_decode_loop_safe:
  assumes "uu_state src s p out" "total_len \<le> p"
  shows "\<exists>r. uu_decode_loop src s p total_len out = Some (Inr r) \<and> uu_loop_state src r"
  using assms
proof (induction "length src - s" arbitrary: s p total_len out rule: less_induct)
  case less
  show ?case
  proof (cases "s < length src")
    case False
    then show ?thesis using less.prems by (simp add: uu_decode_loop.simps [of src s] uu_loop_state_def)
  next
    case True
    define len where "len = nat (PHP_UU_DEC (src ! s))"
    have l64: "len < 64" using uu_dec_bounds [of "src ! s"] by (simp add: len_def)
    note st = uu_state_next [OF less.prems(1)]
    let ?ee = "Suc s + uu_line_end len"
    have step: "uu_decode_loop src s p total_len out =
      (if len = 0 then Some (Inr (Some (Suc s, p, total_len, out)))
       else if len > length src then Some (Inr None)
       else if ?ee > length src then Some (Inr None)
       else (case uu_decode_line src (Suc s) ?ee p out of
           Inl e \<Rightarrow> Some (Inl e)
         | Inr None \<Rightarrow> Some (Inr None)
         | Inr (Some (s, p, out)) \<Rightarrow>
             if len < 45 then Some (Inr (Some (s, p, total_len + len, out)))
             else uu_decode_loop src (s + 1) p (total_len + len) out))"
      unfolding len_def using True by (subst uu_decode_loop.simps) (simp add: str_at_ok Let_def)
    from uu_decode_line_safe [OF st, of ?ee] show ?thesis
    proof (elim disjE exE conjE)
      fix k out' assume k: "uu_decode_line src (Suc s) ?ee p out = Inr (Some (Suc s + 4 * k, p + 3 * k, out'))"
        "?ee \<le> Suc s + 4 * k" "uu_state src (Suc s + 4 * k) (p + 3 * k) out'"
      have t: "total_len + len \<le> p + 3 * k" using uu_line_end_enough [OF _ l64, of k] k(2) less.prems(2) by simp
      have "length src - (Suc s + 4 * k + 1) < length src - s" using True by simp
      from less.hyps [OF this _ t, of out'] uu_state_next [OF k(3)]
      have "\<exists>r. uu_decode_loop src (Suc s + 4 * k + 1) (p + 3 * k) (total_len + len) out' = Some (Inr r) \<and> uu_loop_state src r" by simp
      then show ?thesis unfolding step k(1) using k(3) t st less.prems(2) by (simp add: uu_loop_state_def)
    next
      assume "uu_decode_line src (Suc s) ?ee p out = Inr None"
      then show ?thesis unfolding step using st less.prems(2) by (simp add: uu_loop_state_def)
    qed
  qed
qed

lemma uu_state_string:
  assumes "uu_state src s p out" "n \<le> p"
  shows "n < length out" "\<exists>d. buf_string (out[n := x]) n = Some d \<and> length d = n"
proof -
  have l: "length out = (length src * 3 + 3) div 4 + 1" "4 * p \<le> 3 * length src" "\<forall>i < p. out ! i \<noteq> None"
    using assms(1) by (simp_all add: uu_state_def min_def split: if_splits)
  then have "p \<le> (length src * 3 + 3) div 4" by (simp add: less_eq_div_iff_mult_less_eq)
  then show n: "n < length out" using l(1) assms(2) by simp
  have "\<forall>x \<in> set (take n out). x \<noteq> None" using l(3) assms(2) n by (auto simp: in_set_conv_nth)
  from those_all [OF this] show "\<exists>d. buf_string (out[n := x]) n = Some d \<and> length d = n" using n by (simp add: buf_string_def)
qed

lemma uudecode_returns:
  "\<exists>r. php_uudecode src = Some (Inr r) \<and> (case r of None \<Rightarrow> True | Some d \<Rightarrow> 4 * length d \<le> 3 * length src)"
proof (cases "src = []")
  case False
  let ?out = "replicate ((length src * 3 + 3) div 4 + 1) None"
  have "uu_state src 0 0 ?out" by (simp add: uu_state_def)
  from uu_decode_loop_safe [OF this, of 0] obtain r
    where r: "uu_decode_loop src 0 0 0 ?out = Some (Inr r)" "uu_loop_state src r" by auto
  show ?thesis
  proof (cases r)
    case (Some a)
    obtain s p total_len out where a: "a = (s, p, total_len, out)" by (cases a) auto
    then have st: "uu_state src s p out" "total_len \<le> p" using r(2) Some by (simp_all add: uu_loop_state_def)
    obtain d where "buf_string (out[total_len := Some (chr 0)]) total_len = Some d" "length d = total_len"
      using uu_state_string(2) [OF st] by blast
    moreover have "4 * p \<le> 3 * length src" using st(1) by (simp add: uu_state_def min_def split: if_splits)
    ultimately show ?thesis using False r(1) Some a st(2) uu_state_string(1) [OF st] by (simp add: php_uudecode_def)
  qed (use False r(1) in \<open>simp add: php_uudecode_def\<close>)
qed (simp add: php_uudecode_def)


section \<open>Decoding gives the encoded string back\<close>

lemma uu_dec_enc: "0 \<le> v \<Longrightarrow> v < 64 \<Longrightarrow> PHP_UU_DEC (PHP_UU_ENC v) = v"
  by (auto simp: PHP_UU_DEC_def PHP_UU_ENC_def and_low_bits)

lemma chr_add_256: "chr (k * 256 + byte a) = a"
  by (simp add: byte_chr flip: byte_inject)

lemma uu_group_roundtrip:
  fixes a b c :: char
  defines "x0 \<equiv> PHP_UU_ENC (byte a div 4)" and "x1 \<equiv> PHP_UU_ENC (byte a mod 4 * 16 + byte b div 16)"
    and "x2 \<equiv> PHP_UU_ENC (byte b mod 16 * 4 + byte c div 64)" and "x3 \<equiv> PHP_UU_ENC (byte c mod 64)"
  shows "chr (uu_byte0 x0 x1) = a" "chr (uu_byte1 x1 x2) = b" "chr (uu_byte2 x2 x3) = c"
proof -
  note q1 = pack_bits [OF byte_parts(5,6) [of b], of "byte a mod 4"] and q2 = pack_bits [OF byte_parts(9,10) [of c], of "byte b mod 16"]
  have "PHP_UU_DEC x1 = byte a mod 4 * 16 + byte b div 16" unfolding x1_def
    using q1(3) [OF byte_parts(3,4)] by (intro uu_dec_enc) simp_all
  moreover have "PHP_UU_DEC x2 = byte b mod 16 * 4 + byte c div 64" unfolding x2_def
    using q2(3) [OF byte_parts(7,8)] by (intro uu_dec_enc) simp_all
  moreover have "PHP_UU_DEC x0 = byte a div 4" "PHP_UU_DEC x3 = byte c mod 64"
    unfolding x0_def x3_def by (intro uu_dec_enc byte_parts)+
  ultimately have d: "PHP_UU_DEC x0 = byte a div 4" "PHP_UU_DEC x1 = byte a mod 4 * 16 + byte b div 16"
    "PHP_UU_DEC x2 = byte b mod 16 * 4 + byte c div 64" "PHP_UU_DEC x3 = byte c mod 64" by blast+
  have o: "byte a div 4 * 4 OR byte a mod 4 = byte a" "(y * 16) OR (byte b mod 16) = y * 16 + byte b mod 16"
    "(y * 64) OR (byte c mod 64) = y * 64 + byte c mod 64" for y
    using or_low_bits [of "byte a mod 4" 2 "byte a div 4"] or_low_bits [of "byte b mod 16" 4 y] or_low_bits [of "byte c mod 64" 6 y]
      byte_parts(4) [of a] byte_parts(8) [of b] byte_parts(12) [of c]
    by simp_all
  have "uu_byte0 x0 x1 = byte a" using o(1) by (simp add: uu_byte0_def d bits_arith q1(1))
  then show "chr (uu_byte0 x0 x1) = a" by simp
  have "uu_byte1 x1 x2 = byte a mod 4 * 256 + byte b"
    using o(2) [of "byte a mod 4 * 16 + byte b div 16"] by (simp add: uu_byte1_def d bits_arith q2(1) distrib_right)
  then show "chr (uu_byte1 x1 x2) = b" by (simp add: chr_add_256)
  have "uu_byte2 x2 x3 = byte b mod 16 * 256 + byte c"
    using o(3) [of "byte b mod 16 * 4 + byte c div 64"] by (simp add: uu_byte2_def d bits_arith distrib_right)
  then show "chr (uu_byte2 x2 x3) = c" by (simp add: chr_add_256)
qed

lemma uu_decode_groups:
  assumes "src = pre @ map PHP_UU_ENC (sextets t) @ post" "length t mod 3 = 0" "s = length pre"
    "ee \<le> s + length (sextets t)" "s + length (sextets t) < ee + 4" "p + length t \<le> length out"
  shows "\<exists>out'. uu_decode_line src s ee p out = Inr (Some (s + length (sextets t), p + length t, out')) \<and> written p t out out'"
  using assms
proof (induction t arbitrary: pre s p out rule: sextets.induct)
  case (1 a b c t)
  let ?g = "map PHP_UU_ENC [byte a div 4, byte a mod 4 * 16 + byte b div 16, byte b mod 16 * 4 + byte c div 64, byte c mod 64]"
  let ?out = "out[p := Some a, p + 1 := Some b, p + 2 := Some c]"
  have src: "src = (pre @ ?g) @ map PHP_UU_ENC (sextets t) @ post" using "1.prems"(1) by simp
  have at: "src ! s = ?g ! 0" "src ! (s + 1) = ?g ! 1" "src ! (s + 2) = ?g ! 2" "src ! (s + 3) = ?g ! 3" "s + 4 \<le> length src"
    using "1.prems"(3) by (simp_all add: src nth_append)
  have "s < ee" using "1.prems"(5) by simp
  then have e: "uu_decode_line src s ee p out = uu_decode_line src (s + 4) ee (p + 3) ?out"
    using at "1.prems"(6) by (subst uu_decode_line.simps) (simp add: str_at_ok uu_group_roundtrip)
  obtain out' where "uu_decode_line src (s + 4) ee (p + 3) ?out = Inr (Some (s + 4 + length (sextets t), p + 3 + length t, out'))"
    "written (p + 3) t ?out out'"
    using "1.IH" [OF src, of "s + 4" "p + 3" ?out] "1.prems" by auto
  moreover have "written p [a, b, c] out ?out" using "1.prems"(6)
    by (auto simp: written_def take_Suc_conv_app_nth numeral_3_eq_3 nth_list_update)
  moreover from this and \<open>written (p + 3) t ?out out'\<close> have "written p ([a, b, c] @ t) out out'"
    by (intro written_append) (simp_all add: numeral_3_eq_3)
  ultimately show ?case using e by (simp add: add.assoc)
next
  case 4
  then show ?case by (simp add: uu_decode_line.simps written_def)
qed simp_all


lemma uu_line_end_groups:
  assumes "n \<le> 45"
  shows "uu_line_end n \<le> (n + 2) div 3 * 4" "(n + 2) div 3 * 4 < uu_line_end n + 4"
proof -
  define c e where "c = (n + 2) div 3" and "e = n * 133 div 100"
  have c: "3 * c \<le> n + 2" "n \<le> 3 * c" unfolding c_def by linarith+
  have e: "100 * e \<le> n * 133" "n * 133 < 100 * e + 100" unfolding e_def by linarith+
  have "e \<le> c * 4 \<and> c * 4 < e + 4" using c e assms by linarith
  then show "uu_line_end n \<le> (n + 2) div 3 * 4" "(n + 2) div 3 * 4 < uu_line_end n + 4"
    unfolding uu_line_end_def c_def [symmetric] e_def [symmetric] using c by (auto simp: c_def)
qed

lemma length_sextets_pad3: "length (sextets (pad3 t)) = (length t + 2) div 3 * 4"
  by (simp add: length_sextets pad3_length)

text \<open>One line: its length, its groups, its end.\<close>

lemma uu_decode_one_line:
  assumes "src = pre @ uu_line t @ post" "t \<noteq> []" "length t \<le> 45" "p + length (pad3 t) \<le> length out"
  shows "\<exists>out'. uu_decode_loop src (length pre) p total_len out =
      (if length t < 45 then Some (Inr (Some (length pre + length (uu_line t) - 1, p + length (pad3 t), total_len + length t, out')))
       else uu_decode_loop src (length pre + length (uu_line t)) (p + length (pad3 t)) (total_len + length t) out') \<and>
    written p (pad3 t) out out'"
proof -
  let ?c = "PHP_UU_ENC (int (length t))" and ?g = "map PHP_UU_ENC (sextets (pad3 t))"
  let ?s = "length pre + 1" and ?n = "length (sextets (pad3 t))"
  let ?ee = "?s + uu_line_end (length t)"
  have src: "src = (pre @ [?c]) @ ?g @ ([chr 10] @ post)" using assms(1) by (simp add: uu_line_def)
  have at: "str_at src (length pre) = Inr ?c" "length pre < length src" by (simp_all add: src str_at_def nth_append)
  have len: "nat (PHP_UU_DEC ?c) = length t" using uu_dec_enc [of "int (length t)"] assms(3) by simp
  note ends = uu_line_end_groups [OF assms(3)]
  have n: "?n = (length t + 2) div 3 * 4" by (rule length_sextets_pad3)
  have "length src = length pre + (?n + 2) + length post" by (simp add: src)
  moreover have "length t \<le> (length t + 2) div 3 * 4" by linarith
  ultimately have inside: "\<not> length t > length src" "\<not> ?ee > length src" using n ends(1) by linarith+
  have "length (pad3 t) mod 3 = 0" by (simp add: pad3_length)
  then obtain out' where o: "uu_decode_line src ?s ?ee p out = Inr (Some (?s + ?n, p + length (pad3 t), out'))" "written p (pad3 t) out out'"
    using uu_decode_groups [OF src, of ?s ?ee p out] n ends assms(4) by auto
  have l: "length (uu_line t) = Suc (Suc ?n)" by (simp add: uu_line_def)
  have "uu_decode_loop src (length pre) p total_len out =
      (if length t < 45 then Some (Inr (Some (length pre + length (uu_line t) - 1, p + length (pad3 t), total_len + length t, out')))
       else uu_decode_loop src (length pre + length (uu_line t)) (p + length (pad3 t)) (total_len + length t) out')"
    using at inside o(1) assms(2) by (subst uu_decode_loop.simps) (simp add: len l Let_def)
  with o(2) show ?thesis by blast
qed

lemma uu_decode_text:
  assumes "src = pre @ uu_text t" "4 * p + 3 * length (uu_text t) \<le> 4 * length out"
  shows "\<exists>s' p' out'. uu_decode_loop src (length pre) p p out = Some (Inr (Some (s', p', p + length t, out'))) \<and>
    p + length t \<le> p' \<and> p + length t < length out \<and> written p t out out'"
  using assms
proof (induction t arbitrary: pre p out rule: length_induct)
  case (1 t)
  have pad: "pad3 t = t @ replicate ((3 - length t mod 3) mod 3) (chr 0)" for t by (simp add: pad3_def)
  have room: "p + length (pad3 (take 45 t)) \<le> length out" if "uu_text t = uu_line (take 45 t) @ x" for x
    using "1.prems"(2) unfolding that by (simp add: uu_line_length pad3_length)
  consider "t = []" | "t \<noteq> []" "length t < 45" | "45 \<le> length t" by linarith
  then show ?case
  proof cases
    case 1
    then have "uu_text t = [PHP_UU_ENC 0, chr 10]" by (simp add: uu_text.simps [of "[]"])
    then show ?thesis using 1 "1.prems" uu_dec_enc [of 0]
      by (subst uu_decode_loop.simps) (simp add: str_at_def nth_append Let_def written_def)
  next
    case 2
    have tx: "uu_text t = uu_line (take 45 t) @ [PHP_UU_ENC 0, chr 10]" "take 45 t = t" using uu_text_short [of t] 2 by simp_all
    obtain out' where o: "uu_decode_loop src (length pre) p p out =
        Some (Inr (Some (length pre + length (uu_line t) - 1, p + length (pad3 t), p + length t, out')))" "written p (pad3 t) out out'"
      using uu_decode_one_line [of src pre t "[PHP_UU_ENC 0, chr 10]" p out p] "1.prems"(1) tx room [OF tx(1)] 2 by auto
    have "written p t out out'" using written_prefix [of p t] o(2) room [OF tx(1)] unfolding pad by simp
    moreover have "4 * p + 4 * length (pad3 t) < 4 * length out" using "1.prems"(2) unfolding tx(1,2)
      by (simp add: uu_line_length pad3_length)
    moreover have "length t \<le> length (pad3 t)" by (simp add: pad)
    ultimately show ?thesis using o(1) by auto
  next
    case 3
    let ?a = "take 45 t" and ?b = "drop 45 t"
    have "t \<noteq> []" using 3 by auto
    then have tx: "uu_text t = uu_line ?a @ uu_text ?b" by (subst uu_text.simps) simp
    have a: "?a \<noteq> []" "length ?a = 45" "pad3 ?a = ?a" using 3 by (auto simp: pad)
    obtain out1 where o1: "uu_decode_loop src (length pre) p p out = uu_decode_loop src (length (pre @ uu_line ?a)) (p + 45) (p + 45) out1"
      "written p ?a out out1"
      using uu_decode_one_line [of src pre ?a "uu_text ?b" p out p] "1.prems"(1) tx room [OF tx] a by auto
    have p: "src = (pre @ uu_line ?a) @ uu_text ?b" "length ?b < length t" "length out1 = length out"
      using "1.prems"(1) tx 3 o1(2) by (simp_all add: written_def)
    have "4 * (p + 45) + 3 * length (uu_text ?b) \<le> 4 * length out1"
      using "1.prems"(2) p(3) uu_line_length [of ?a] a(2) unfolding tx by simp
    then obtain s' p' out' where "uu_decode_loop src (length (pre @ uu_line ?a)) (p + 45) (p + 45) out1 = Some (Inr (Some (s', p', p + 45 + length ?b, out')))"
      "p + 45 + length ?b \<le> p'" "p + 45 + length ?b < length out1" and o2: "written (p + 45) ?b out1 out'"
      using "1.IH" p(1,2) by blast
    moreover have "written p (?a @ ?b) out out'" using written_append [OF o1(2), of ?b out'] o2 unfolding a(2) .
    moreover have "p + 45 + length ?b = p + length t" using 3 by simp
    ultimately show ?thesis using o1(1) p(3) by auto
  qed
qed

lemma uu_roundtrip_ok: "php_uudecode (uu_text s) = Some (Inr (Some s))"
proof -
  let ?src = "uu_text s" and ?out = "replicate ((length (uu_text s) * 3 + 3) div 4 + 1) None"
  have "?src \<noteq> []" by (subst uu_text.simps) (simp add: uu_line_def)
  have "4 * 0 + 3 * length ?src \<le> 4 * length ?out" by simp
  then obtain s' p' out' where "uu_decode_loop ?src 0 0 0 ?out = Some (Inr (Some (s', p', length s, out')))"
    "length s \<le> p'" "length s < length ?out" "written 0 s ?out out'"
    using uu_decode_text [of ?src "[]" s 0 ?out] by auto
  moreover from this have "length s < length out'" "take (length s) out' = map Some s" by (simp_all add: written_def)
  ultimately show ?thesis using \<open>?src \<noteq> []\<close> by (simp add: php_uudecode_def buf_string_def)
qed


end
