(* ===== verification/Url_Codec.thy ===== *)
theory Url_Codec
  imports Zend_Bytes
begin

text \<open>
  URL encoding and decoding (\<^verbatim>\<open>ext/standard/url.c\<close>) with the vector loop of the encoder and with decoding in place.
\<close>

section \<open>Encoding\<close>

definition hexchars :: string where
  "hexchars = ''0123456789ABCDEF''"

definition url_escape :: "char \<Rightarrow> string" where
  "url_escape c = [CHR ''%'', hexchars ! nat (drop_bit 4 (byte c)), hexchars ! nat (byte c AND 15)]"

text \<open>The condition of the loop for a byte that has to be escaped.\<close>

definition url_unsafe :: "bool \<Rightarrow> char \<Rightarrow> bool" where
  "url_unsafe raw c \<longleftrightarrow>
     byte c < byte (CHR ''0'') \<and> c \<noteq> CHR ''-'' \<and> c \<noteq> CHR ''.'' \<or>
     byte c < byte (CHR ''A'') \<and> byte c > byte (CHR ''9'') \<or>
     byte c > byte (CHR ''Z'') \<and> byte c < byte (CHR ''a'') \<and> c \<noteq> CHR ''_'' \<or>
     byte c > byte (CHR ''z'') \<and> (\<not> raw \<or> c \<noteq> CHR ''~'')"

fun url_encode_loop :: "bool \<Rightarrow> string \<Rightarrow> string" where
  "url_encode_loop raw [] = []"
| "url_encode_loop raw (c # s) =
     (if \<not> raw \<and> c = CHR '' '' then ''+''
      else if url_unsafe raw c then url_escape c
      else [c]) @ url_encode_loop raw s"

text \<open>
  The vector loop handles blocks of 16 bytes as long as more than 16 are left.  The comparisons are those of signed
  bytes; the blanks are replaced before the bytes are stored.
\<close>

definition sbyte :: "char \<Rightarrow> int" where
  "sbyte c = (if byte c \<ge> 128 then byte c - 256 else byte c)"

definition sse2_between :: "char \<Rightarrow> char \<Rightarrow> char \<Rightarrow> bool" where
  "sse2_between lo hi c \<longleftrightarrow> sbyte c > sbyte lo - 1 \<and> sbyte c < sbyte hi + 1"

definition sse2_blank :: "bool \<Rightarrow> char \<Rightarrow> char" where
  "sse2_blank raw c = (if \<not> raw \<and> c = CHR '' '' then CHR ''+'' else c)"

definition sse2_mask :: "bool \<Rightarrow> char \<Rightarrow> bool" where
  "sse2_mask raw c \<longleftrightarrow> sse2_between (CHR ''A'') (CHR ''Z'') c \<or> sse2_between (CHR ''a'') (CHR ''z'') c \<or>
     sse2_between (CHR ''0'') (CHR ''9'') c \<or> c = CHR ''.'' \<or> c = CHR ''-'' \<or> c = CHR ''_'' \<or>
     \<not> raw \<and> c = CHR '' '' \<or> raw \<and> sse2_blank raw c = CHR ''~''"

definition sse2_block :: "bool \<Rightarrow> string \<Rightarrow> string" where
  "sse2_block raw block =
     (let bits = map (sse2_mask raw) block; xmm = map (sse2_blank raw) block
      in if list_all id bits then xmm
         else concat (map2 (\<lambda>b x. if b then [x] else url_escape x) bits xmm))"

function url_encode_sse2 :: "bool \<Rightarrow> string \<Rightarrow> string" where
  "url_encode_sse2 raw s =
     (if length s > 16 then sse2_block raw (take 16 s) @ url_encode_sse2 raw (drop 16 s) else url_encode_loop raw s)"
  by pat_completeness auto
termination
  by (relation "measure (\<lambda>(raw, s). length s)") auto

declare url_encode_sse2.simps [simp del]

text \<open>\<open>xsse2\<close> tells whether the vector loop is compiled in.\<close>

definition php_url_encode_impl :: "bool \<Rightarrow> string \<Rightarrow> bool \<Rightarrow> string" where
  "php_url_encode_impl xsse2 s raw = (if xsse2 then url_encode_sse2 raw s else url_encode_loop raw s)"

text \<open>\<^verbatim>\<open>zend_string_safe_alloc(3, len, 0, false)\<close>; the terminating zero has a byte of its own.\<close>

definition php_url_encode_helper :: "bool \<Rightarrow> string \<Rightarrow> bool \<Rightarrow> string mem" where
  "php_url_encode_helper xsse2 s raw =
     (let r = php_url_encode_impl xsse2 s raw in if length r \<le> 3 * length s then Inr r else Inl Out_of_bounds)"

definition php_url_encode :: "bool \<Rightarrow> string \<Rightarrow> string mem" where
  "php_url_encode xsse2 s = php_url_encode_helper xsse2 s False"

definition php_raw_url_encode :: "bool \<Rightarrow> string \<Rightarrow> string mem" where
  "php_raw_url_encode xsse2 s = php_url_encode_helper xsse2 s True"

section \<open>Decoding\<close>

definition isxdigit :: "char \<Rightarrow> bool" where
  "isxdigit c \<longleftrightarrow> byte (CHR ''0'') \<le> byte c \<and> byte c \<le> byte (CHR ''9'') \<or>
     byte (CHR ''a'') \<le> byte c \<and> byte c \<le> byte (CHR ''f'') \<or> byte (CHR ''A'') \<le> byte c \<and> byte c \<le> byte (CHR ''F'')"

definition php_htoi_single :: "char \<Rightarrow> int" where
  "php_htoi_single x = 9 * drop_bit 6 (byte x) + (byte x AND 15)"

definition php_htoi :: "char \<Rightarrow> char \<Rightarrow> int" where
  "php_htoi c0 c1 = php_htoi_single c0 * 16 + php_htoi_single c1"

text \<open>
  Source and destination are two places of one block of memory, so that they may overlap.  The first argument
  tells whether a plus sign stands for a blank.
\<close>

fun url_decode_loop :: "bool \<Rightarrow> nat \<Rightarrow> buffer \<Rightarrow> nat \<Rightarrow> nat \<Rightarrow> (nat \<times> buffer) mem" where
  "url_decode_loop pl 0 m data dest = Inr (dest, m)"
| "url_decode_loop pl (Suc src_len) m data dest =
     mem_bind (buf_get m data) (\<lambda>c.
       let copy = mem_bind (buf_set m dest (byte c)) (\<lambda>m. url_decode_loop pl src_len m (data + 1) (dest + 1))
       in if pl \<and> c = CHR ''+'' then
            mem_bind (buf_set m dest 32) (\<lambda>m. url_decode_loop pl src_len m (data + 1) (dest + 1))
          else if c = CHR ''%'' \<and> src_len \<ge> 2 then
            mem_bind (buf_get m (data + 1)) (\<lambda>c1.
              if \<not> isxdigit c1 then copy
              else mem_bind (buf_get m (data + 2)) (\<lambda>c2.
                if \<not> isxdigit c2 then copy
                else mem_bind (buf_set m dest (php_htoi c1 c2)) (\<lambda>m. url_decode_loop pl (src_len - 2) m (data + 3) (dest + 1))))
          else copy)"

definition url_decode_at :: "bool \<Rightarrow> buffer \<Rightarrow> nat \<Rightarrow> nat \<Rightarrow> nat \<Rightarrow> (nat \<times> buffer) mem" where
  "url_decode_at pl m dest src src_len =
     mem_bind (url_decode_loop pl src_len m src dest) (\<lambda>(dest', m).
     mem_bind (buf_set m dest' 0) (\<lambda>m. Inr (dest' - dest, m)))"

definition php_url_decode_ex :: "buffer \<Rightarrow> nat \<Rightarrow> nat \<Rightarrow> nat \<Rightarrow> (nat \<times> buffer) mem" where
  "php_url_decode_ex m dest src src_len = url_decode_at True m dest src src_len"

definition php_raw_url_decode_ex :: "buffer \<Rightarrow> nat \<Rightarrow> nat \<Rightarrow> nat \<Rightarrow> (nat \<times> buffer) mem" where
  "php_raw_url_decode_ex m dest src src_len = url_decode_at False m dest src src_len"

definition php_url_decode :: "buffer \<Rightarrow> nat \<Rightarrow> nat \<Rightarrow> (nat \<times> buffer) mem" where
  "php_url_decode m str len = php_url_decode_ex m str str len"

definition php_raw_url_decode :: "buffer \<Rightarrow> nat \<Rightarrow> nat \<Rightarrow> (nat \<times> buffer) mem" where
  "php_raw_url_decode m str len = php_raw_url_decode_ex m str str len"

section \<open>The vector loop agrees with the scalar one\<close>

lemma byte_chars:
  "byte (CHR ''0'') = 48" "byte (CHR ''9'') = 57" "byte (CHR ''A'') = 65" "byte (CHR ''F'') = 70" "byte (CHR ''Z'') = 90" "byte (CHR ''a'') = 97"
  "byte (CHR ''f'') = 102" "byte (CHR ''z'') = 122" "byte (CHR ''-'') = 45" "byte (CHR ''.'') = 46" "byte (CHR ''_'') = 95" "byte (CHR ''~'') = 126"
  "byte (CHR '' '') = 32" "byte (CHR ''+'') = 43" "byte (CHR ''%'') = 37"
  by (simp_all add: byte_def)

lemma char_eq_byte: "c = d \<longleftrightarrow> byte c = byte d"
  by simp

lemma sse2_mask_safe: "sse2_mask raw c \<longleftrightarrow> \<not> raw \<and> c = CHR '' '' \<or> \<not> url_unsafe raw c"
proof -
  define b where "b = byte c"
  have "0 \<le> b" "b < 256" by (simp_all add: b_def)
  then show ?thesis
    unfolding sse2_mask_def sse2_between_def url_unsafe_def sbyte_def sse2_blank_def char_eq_byte byte_chars b_def [symmetric]
    by (cases raw) (auto simp: byte_chars b_def [symmetric] split: if_splits)
qed

lemma sse2_block_eq: "sse2_block raw block = url_encode_loop raw block"
proof -
  have e: "(if sse2_mask raw c then [sse2_blank raw c] else url_escape (sse2_blank raw c)) =
      (if \<not> raw \<and> c = CHR '' '' then ''+'' else if url_unsafe raw c then url_escape c else [c])" for c
    by (auto simp: sse2_mask_safe sse2_blank_def)
  have c: "concat (map2 (\<lambda>b x. if b then [x] else url_escape x) (map (sse2_mask raw) block) (map (sse2_blank raw) block)) = url_encode_loop raw block"
    by (induction block) (simp_all add: e)
  moreover have "map (sse2_blank raw) block = url_encode_loop raw block" if "list_all (sse2_mask raw) block"
    using that by (induction block) (auto simp: sse2_mask_safe sse2_blank_def)
  ultimately show ?thesis by (simp add: sse2_block_def Let_def list_all_length)
qed

lemma url_encode_append: "url_encode_loop raw (s @ t) = url_encode_loop raw s @ url_encode_loop raw t"
  by (induction s) simp_all

lemma url_encode_sse2_eq: "url_encode_sse2 raw s = url_encode_loop raw s"
proof (induction raw s rule: url_encode_sse2.induct)
  case (1 raw s)
  have "url_encode_loop raw s = url_encode_loop raw (take 16 s) @ url_encode_loop raw (drop 16 s)"
    unfolding url_encode_append [symmetric] by simp
  then show ?case using 1 unfolding url_encode_sse2.simps [of raw s] sse2_block_eq by (cases "length s > 16") simp_all
qed

lemma url_encode_length: "length (url_encode_loop raw s) \<le> 3 * length s"
  by (induction s) (auto simp: url_escape_def)

lemma url_encode_helper_ok: "php_url_encode_helper xsse2 s raw = Inr (url_encode_loop raw s)"
  using url_encode_length [of raw s] by (simp add: php_url_encode_helper_def php_url_encode_impl_def url_encode_sse2_eq)

section \<open>What the decoder computes\<close>

fun url_decoded :: "bool \<Rightarrow> string \<Rightarrow> string" where
  "url_decoded pl (c # c1 # c2 # s) =
     (if pl \<and> c = CHR ''+'' then CHR '' '' # url_decoded pl (c1 # c2 # s)
      else if c = CHR ''%'' \<and> isxdigit c1 \<and> isxdigit c2 then chr (php_htoi c1 c2) # url_decoded pl s
      else c # url_decoded pl (c1 # c2 # s))"
| "url_decoded pl (c # s) = (if pl \<and> c = CHR ''+'' then CHR '' '' else c) # url_decoded pl s"
| "url_decoded pl [] = []"

text \<open>The bytes \<open>s\<close> are in the memory from \<open>a\<close> on.\<close>

definition holds :: "buffer \<Rightarrow> nat \<Rightarrow> string \<Rightarrow> bool" where
  "holds m a s \<longleftrightarrow> a + length s \<le> length m \<and> (\<forall>i < length s. m ! (a + i) = Some (s ! i))"

lemma holds_Cons: "holds m a (c # s) \<longleftrightarrow> a < length m \<and> m ! a = Some c \<and> holds m (Suc a) s"
  by (auto simp: holds_def All_less_Suc2)

lemma holds_get: "holds m a (c # s) \<Longrightarrow> buf_get m a = Inr c"
  by (simp add: holds_Cons buf_get_def)

lemma holds_set: "holds m a s \<Longrightarrow> d < a \<or> a + length s \<le> d \<Longrightarrow> holds (m[d := v]) a s"
  by (auto simp: holds_def)

lemma url_decode_plus:
  "buf_get m data = Inr c \<Longrightarrow> pl \<and> c = CHR ''+'' \<Longrightarrow> dest < length m \<Longrightarrow>
   url_decode_loop pl (Suc n) m data dest = url_decode_loop pl n (m[dest := Some (CHR '' '')]) (Suc data) (Suc dest)"
  using chr_byte [of "CHR '' ''"] by (simp add: byte_chars)

lemma url_decode_hex:
  "buf_get m data = Inr (CHR ''%'') \<Longrightarrow> buf_get m (Suc data) = Inr c1 \<Longrightarrow> buf_get m (Suc (Suc data)) = Inr c2 \<Longrightarrow> isxdigit c1 \<Longrightarrow> isxdigit c2 \<Longrightarrow>
   dest < length m \<Longrightarrow> url_decode_loop pl (Suc (Suc (Suc n))) m data dest =
     url_decode_loop pl n (m[dest := Some (chr (php_htoi c1 c2))]) (Suc (Suc (Suc data))) (Suc dest)"
  by (simp add: eval_nat_numeral Let_def)

lemma url_decode_copy:
  assumes "buf_get m data = Inr c" "\<not> (pl \<and> c = CHR ''+'')" "dest < length m"
    "c = CHR ''%'' \<and> n \<ge> 2 \<Longrightarrow> \<exists>c1 c2. buf_get m (Suc data) = Inr c1 \<and> buf_get m (Suc (Suc data)) = Inr c2 \<and> \<not> (isxdigit c1 \<and> isxdigit c2)"
  shows "url_decode_loop pl (Suc n) m data dest = url_decode_loop pl n (m[dest := Some c]) (Suc data) (Suc dest)"
proof (cases "c = CHR ''%'' \<and> n \<ge> 2")
  case True
  from assms(4) [OF True] obtain c1 c2 where "buf_get m (Suc data) = Inr c1" "buf_get m (Suc (Suc data)) = Inr c2" "\<not> (isxdigit c1 \<and> isxdigit c2)" by blast
  then show ?thesis using assms(1-3) True by (auto simp: Let_def)
qed (use assms(1-3) in \<open>auto simp: Let_def\<close>)

declare url_decode_loop.simps(2) [simp del]

lemma url_decode_step:
  assumes "url_decode_loop pl n m data dest = url_decode_loop pl k (m[dest := Some x]) a (Suc dest)" "dest < length m"
    "\<exists>m'. url_decode_loop pl k (m[dest := Some x]) a (Suc dest) = Inr (Suc dest + length t, m') \<and> written (Suc dest) t (m[dest := Some x]) m'"
  shows "\<exists>m'. url_decode_loop pl n m data dest = Inr (dest + length (x # t), m') \<and> written dest (x # t) m m'"
  using assms written_Cons by fastforce

lemma url_decode_loop_ok:
  assumes "holds m data s" "dest + length s \<le> length m" "dest \<le> data \<or> data + length s \<le> dest"
  shows "\<exists>m'. url_decode_loop pl (length s) m data dest = Inr (dest + length (url_decoded pl s), m') \<and> written dest (url_decoded pl s) m m'"
  using assms
proof (induction pl s arbitrary: m data dest rule: url_decoded.induct [case_names more one two none])
  case (more pl c c1 c2 s)
  note get = holds_get [OF more.prems(1)]
  have h: "holds m (Suc data) (c1 # c2 # s)" "holds m (Suc (Suc data)) (c2 # s)" "holds m (Suc (Suc (Suc data))) s"
    using more.prems(1) by (simp_all add: holds_Cons)
  note get1 = holds_get [OF h(1)] and get2 = holds_get [OF h(2)]
  have d: "dest < length m" using more.prems(2) by simp
  have set: "holds (m[dest := v]) (Suc data) (c1 # c2 # s)" "holds (m[dest := v]) (Suc (Suc (Suc data))) s" for v
    using h more.prems(3) by (auto intro!: holds_set)
  have r: "Suc dest + length (c1 # c2 # s) \<le> length (m[dest := v])" "Suc dest \<le> Suc data \<or> Suc data + length (c1 # c2 # s) \<le> Suc dest"
    "Suc dest + length s \<le> length (m[dest := v])" "Suc dest \<le> Suc (Suc (Suc data)) \<or> Suc (Suc (Suc data)) + length s \<le> Suc dest" for v
    using more.prems(2,3) by auto
  show ?case
  proof (cases "pl \<and> c = CHR ''+''")
    case True
    have e: "url_decode_loop pl (length (c # c1 # c2 # s)) m data dest =
        url_decode_loop pl (length (c1 # c2 # s)) (m[dest := Some (CHR '' '')]) (Suc data) (Suc dest)"
      using url_decode_plus [OF get True d] by simp
    from url_decode_step [OF e d more.IH(1) [OF True set(1) r(1,2)]] True show ?thesis by simp
  next
    case False
    note F = this
    show ?thesis
    proof (cases "c = CHR ''%'' \<and> isxdigit c1 \<and> isxdigit c2")
      case True
      then have e: "url_decode_loop pl (length (c # c1 # c2 # s)) m data dest =
          url_decode_loop pl (length s) (m[dest := Some (chr (php_htoi c1 c2))]) (Suc (Suc (Suc data))) (Suc dest)"
        using url_decode_hex [OF _ get1 get2 _ _ d] get by simp
      from url_decode_step [OF e d more.IH(2) [OF F True set(2) r(3,4)]] True show ?thesis by simp
    next
      case False
      then have e: "url_decode_loop pl (length (c # c1 # c2 # s)) m data dest =
          url_decode_loop pl (length (c1 # c2 # s)) (m[dest := Some c]) (Suc data) (Suc dest)"
        using url_decode_copy [OF get F d, of "length (c1 # c2 # s)"] get1 get2 by simp
      from url_decode_step [OF e d more.IH(3) [OF F False set(1) r(1,2)]] False F show ?thesis by auto
    qed
  qed
next
  case (one pl c)
  have d: "dest < length m" using one(3) by simp
  note get = holds_get [OF one(2)]
  show ?case using url_decode_plus [OF get _ d, of pl 0] url_decode_copy [OF get _ d, of pl 0] d
    by (cases "pl \<and> c = CHR ''+''") (auto simp: written_def take_Suc_conv_app_nth)
next
  case (two pl c c1)
  have d: "dest < length m" using two(3) by simp
  note get = holds_get [OF two(2)]
  have s: "holds (m[dest := v]) (Suc data) [c1]" for v using two(2,4) by (auto simp: holds_Cons intro!: holds_set)
  have r: "Suc dest + length [c1] \<le> length (m[dest := v])" "Suc dest \<le> Suc data \<or> Suc data + length [c1] \<le> Suc dest" for v using two(3,4) by auto
  let ?x = "if pl \<and> c = CHR ''+'' then CHR '' '' else c"
  have "url_decode_loop pl (length [c, c1]) m data dest = url_decode_loop pl (length [c1]) (m[dest := Some ?x]) (Suc data) (Suc dest)"
    using url_decode_plus [OF get _ d, of pl 1] url_decode_copy [OF get _ d, of pl 1] by auto
  from url_decode_step [OF this d two(1) [OF s r]] show ?case by simp
next
  case (none pl)
  then show ?case by (simp add: written_def)
qed

lemma length_url_decoded: "length (url_decoded pl s) \<le> length s"
  by (induction pl s rule: url_decoded.induct) auto

lemma url_decode_at_ok:
  assumes "holds m src s" "dest + length s < length m" "dest \<le> src \<or> src + length s < dest"
  shows "\<exists>m'. url_decode_at pl m dest src (length s) = Inr (length (url_decoded pl s), m') \<and> written dest (url_decoded pl s @ [chr 0]) m m'"
proof -
  obtain m' where m': "url_decode_loop pl (length s) m src dest = Inr (dest + length (url_decoded pl s), m')" "written dest (url_decoded pl s) m m'"
    using url_decode_loop_ok [OF assms(1), of dest pl] assms(2,3) by auto
  have "dest + length (url_decoded pl s) < length m'" using m'(2) assms(2) length_url_decoded [of pl s] by (simp add: written_def)
  then show ?thesis using m' by (simp add: url_decode_at_def written_def take_Suc_conv_app_nth)
qed

lemma written_holds: "written d s m m' \<Longrightarrow> d + length s \<le> length m \<Longrightarrow> holds m' d s"
proof -
  assume w: "written d s m m'" and l: "d + length s \<le> length m"
  have "m' ! (d + i) = Some (s ! i)" if "i < length s" for i
  proof -
    have "m' ! (d + i) = take (d + length s) m' ! (d + i)" using that by simp
    also have "\<dots> = (take d m @ map Some s) ! (d + i)" using w by (simp add: written_def)
    finally show ?thesis using that l by (simp add: nth_append)
  qed
  then show ?thesis using w l by (simp add: holds_def written_def)
qed

lemma url_decode_in_place:
  assumes "holds m str (s @ [chr 0])"
  shows "\<exists>m'. url_decode_at pl m str str (length s) = Inr (length (url_decoded pl s), m') \<and> holds m' str (url_decoded pl s @ [chr 0])"
proof -
  have h: "holds m str s" "str + length s < length m" using assms by (auto simp: holds_def nth_append)
  from url_decode_at_ok [OF this, of pl] obtain m' where "url_decode_at pl m str str (length s) = Inr (length (url_decoded pl s), m')"
    "written str (url_decoded pl s @ [chr 0]) m m'" by auto
  moreover have "str + length (url_decoded pl s @ [chr 0]) \<le> length m" using h(2) length_url_decoded [of pl s] by simp
  ultimately show ?thesis using written_holds by blast
qed

section \<open>Round trip\<close>

lemma hexchars_ok: "0 \<le> k \<Longrightarrow> k < 16 \<Longrightarrow> isxdigit (hexchars ! nat k) \<and> php_htoi_single (hexchars ! nat k) = k"
proof -
  have "list_all (\<lambda>k. isxdigit (hexchars ! k) \<and> php_htoi_single (hexchars ! k) = int k) [0 ..< 16]"
    by (simp add: hexchars_def isxdigit_def php_htoi_single_def byte_def upt_rec)
  then show "0 \<le> k \<Longrightarrow> k < 16 \<Longrightarrow> isxdigit (hexchars ! nat k) \<and> php_htoi_single (hexchars ! nat k) = k" by (auto simp: list_all_iff)
qed

lemma url_escape_decode: "url_decoded pl (url_escape c @ s) = c # url_decoded pl s"
proof -
  note byte_parts(5-8) [of c]
  then have "isxdigit (hexchars ! nat (byte c div 16))" "isxdigit (hexchars ! nat (byte c mod 16))"
    "php_htoi (hexchars ! nat (byte c div 16)) (hexchars ! nat (byte c mod 16)) = byte c"
    using hexchars_ok by (simp_all add: php_htoi_def)
  then show ?thesis by (simp add: url_escape_def bits_arith)
qed

lemma url_decoded_plain: "c \<noteq> CHR ''%'' \<Longrightarrow> url_decoded pl (c # s) = (if pl \<and> c = CHR ''+'' then CHR '' '' else c) # url_decoded pl s"
  by (cases s rule: list.exhaust; cases "tl s") auto

lemma url_roundtrip_ok: "url_decoded (\<not> raw) (url_encode_loop raw s) = s"
proof (induction s)
  case (Cons c s)
  have "c \<noteq> CHR ''%''" "c \<noteq> CHR ''+''" if "\<not> url_unsafe raw c" using that by (auto simp: url_unsafe_def byte_chars)
  then show ?case using Cons by (auto simp: url_escape_decode url_decoded_plain)
qed simp


end
