(* ===== verification/Zend_Bitset.thy ===== *)
theory Zend_Bitset
  imports Zend_Bytes
begin

text \<open>
  Words and sets of bits (\<^verbatim>\<open>Zend/zend_bitset.h\<close>): counting zeros and ones by halving, the operations on sets of
  words as operations on sets of numbers, the least and the greatest element.
\<close>

unbundle bit_operations_syntax

section \<open>Words\<close>

type_synonym zend_bitset = "u64 list"

definition zend_ulong_ntz :: "u64 \<Rightarrow> nat" where
  "zend_ulong_ntz num =
     (if num = 0 then 64
      else let n = 1;
        (n, num) = (if num AND 0xffffffff = 0 then (n + 32, drop_bit 32 num) else (n, num));
        (n, num) = (if num AND 0x0000ffff = 0 then (n + 16, drop_bit 16 num) else (n, num));
        (n, num) = (if num AND 0x000000ff = 0 then (n + 8, drop_bit 8 num) else (n, num));
        (n, num) = (if num AND 0x0000000f = 0 then (n + 4, drop_bit 4 num) else (n, num));
        (n, num) = (if num AND 0x00000003 = 0 then (n + 2, drop_bit 2 num) else (n, num))
      in n - unat (num AND 1))"

definition zend_ulong_nlz :: "u64 \<Rightarrow> nat" where
  "zend_ulong_nlz num =
     (let n = 64;
        (n, num) = (let x = drop_bit 32 num in if x \<noteq> 0 then (n - 32, x) else (n, num));
        (n, num) = (let x = drop_bit 16 num in if x \<noteq> 0 then (n - 16, x) else (n, num));
        (n, num) = (let x = drop_bit 8 num in if x \<noteq> 0 then (n - 8, x) else (n, num));
        (n, num) = (let x = drop_bit 4 num in if x \<noteq> 0 then (n - 4, x) else (n, num));
        (n, num) = (let x = drop_bit 2 num in if x \<noteq> 0 then (n - 2, x) else (n, num));
        x = drop_bit 1 num
      in if x \<noteq> 0 then n - 2 else n - unat num)"

text \<open>Number of trailing ones, from the page allocator.\<close>

definition zend_mm_bitset_nts :: "u64 \<Rightarrow> nat" where
  "zend_mm_bitset_nts bitset =
     (if bitset = -1 then 64
      else let n = 0;
        (n, bitset) = (if bitset AND 0xffffffff = 0xffffffff then (n + 32, drop_bit 32 bitset) else (n, bitset));
        (n, bitset) = (if bitset AND 0x0000ffff = 0x0000ffff then (n + 16, drop_bit 16 bitset) else (n, bitset));
        (n, bitset) = (if bitset AND 0x000000ff = 0x000000ff then (n + 8, drop_bit 8 bitset) else (n, bitset));
        (n, bitset) = (if bitset AND 0x0000000f = 0x0000000f then (n + 4, drop_bit 4 bitset) else (n, bitset));
        (n, bitset) = (if bitset AND 0x00000003 = 0x00000003 then (n + 2, drop_bit 2 bitset) else (n, bitset))
      in n + unat (bitset AND 1))"

section \<open>Counting bits\<close>

text \<open>The least index of a predicate, and whether there is one below a bound.\<close>

definition least_at :: "(nat \<Rightarrow> bool) \<Rightarrow> nat \<Rightarrow> bool" where
  "least_at f r \<longleftrightarrow> f r \<and> (\<forall>k < r. \<not> f k)"

definition some_below :: "nat \<Rightarrow> (nat \<Rightarrow> bool) \<Rightarrow> bool" where
  "some_below w f \<longleftrightarrow> (\<exists>k < w. f k)"

lemma least_at_unique: "least_at f r \<Longrightarrow> least_at f s \<Longrightarrow> r = s"
  unfolding least_at_def by (meson linorder_neqE_nat)

lemma halve:
  assumes "some_below (2 * w) f"
  shows "some_below w f \<or> some_below w (\<lambda>k. f (w + k))"
proof -
  obtain k where k: "k < 2 * w" "f k" using assms by (auto simp: some_below_def)
  show ?thesis
  proof (cases "k < w")
    case False
    then have "k - w < w" "f (w + (k - w))" using k by simp_all
    then show ?thesis unfolding some_below_def by blast
  qed (use k in \<open>auto simp: some_below_def\<close>)
qed

lemma least_at_shift: "\<not> some_below w f \<Longrightarrow> least_at (\<lambda>k. f (w + k)) r \<Longrightarrow> least_at f (w + r)"
  unfolding least_at_def some_below_def by (metis add_diff_inverse_nat nat_add_left_cancel_less)

lemma least_at_pair: "some_below 2 f \<Longrightarrow> least_at f (if f 0 then 0 else 1)"
  by (auto simp: some_below_def least_at_def less_2_cases_iff)

lemma and_ones:
  fixes b :: u64
  shows "b AND 0xffffffff = take_bit 32 b" "b AND 0x0000ffff = take_bit 16 b" "b AND 0x000000ff = take_bit 8 b"
    "b AND 0x0000000f = take_bit 4 b" "b AND 0x00000003 = take_bit 2 b" "b AND 1 = take_bit 1 b"
  by (simp_all add: take_bit_eq_mask mask_eq_exp_minus_1)

lemma take_bit_zero: "w \<le> 64 \<Longrightarrow> take_bit w (b :: u64) = 0 \<longleftrightarrow> \<not> some_below w (bit b)"
  by (auto simp: bit_eq_iff bit_simps some_below_def)

lemma take_bit_ones: "w \<le> 64 \<Longrightarrow> take_bit w (b :: u64) = mask w \<longleftrightarrow> \<not> some_below w (\<lambda>k. \<not> bit b k)"
  by (auto simp: bit_eq_iff bit_simps some_below_def intro: less_le_trans)

lemma bit_drop: "bit (drop_bit w (b :: u64)) = (\<lambda>k. bit b (w + k))"
  by (auto simp: bit_simps)

lemma ones_mask: "(0xffffffff :: u64) = mask 32" "(0xffff :: u64) = mask 16" "(0xff :: u64) = mask 8" "(0xf :: u64) = mask 4" "(3 :: u64) = mask 2"
  by (simp_all add: mask_eq_exp_minus_1)

lemma low_bit: "unat ((b :: u64) AND 1) = (if bit b 0 then 1 else 0)"
  by (simp add: and_one_eq bit_0 odd_iff_mod_2_eq_one even_iff_mod_2_eq_zero)


lemma bit_step:
  assumes "some_below (2 * w) (g b)" "c \<longleftrightarrow> \<not> some_below w (g b)" "g (drop_bit w b) = (\<lambda>k. g b (w + k))"
    "(if c then (n + w, drop_bit w b) else (n, b)) = (n', b')"
  shows "some_below w (g b')" "n \<le> n'" "least_at (g b') r \<Longrightarrow> least_at (g b) (n' - n + r)"
  using assms halve [OF assms(1)] least_at_shift [of w "g b" r] by (auto split: if_splits)

lemma bit_search:
  fixes g :: "u64 \<Rightarrow> nat \<Rightarrow> bool" and n0 :: nat
  assumes g: "\<And>w b. g (drop_bit w b) = (\<lambda>k. g b (w + k))" and c: "\<And>w b. w \<le> 64 \<Longrightarrow> c w b \<longleftrightarrow> \<not> some_below w (g b)"
    and b: "some_below 64 (g b)"
    and 1: "(if c 32 b then (n0 + 32, drop_bit 32 b) else (n0, b)) = (n1, b1)"
    and 2: "(if c 16 b1 then (n1 + 16, drop_bit 16 b1) else (n1, b1)) = (n2, b2)"
    and 3: "(if c 8 b2 then (n2 + 8, drop_bit 8 b2) else (n2, b2)) = (n3, b3)"
    and 4: "(if c 4 b3 then (n3 + 4, drop_bit 4 b3) else (n3, b3)) = (n4, b4)"
    and 5: "(if c 2 b4 then (n4 + 2, drop_bit 2 b4) else (n4, b4)) = (n5, b5)"
  shows "least_at (g b) (n5 - n0 + (if g b5 0 then 0 else 1))" "n0 \<le> n5"
proof -
  note s1 = bit_step [OF _ c g 1, simplified, OF b]
  note s2 = bit_step [OF _ c g 2, simplified, OF s1(1)]
  note s3 = bit_step [OF _ c g 3, simplified, OF s2(1)]
  note s4 = bit_step [OF _ c g 4, simplified, OF s3(1)]
  note s5 = bit_step [OF _ c g 5, simplified, OF s4(1)]
  have "least_at (g b) (n1 - n0 + (n2 - n1 + (n3 - n2 + (n4 - n3 + (n5 - n4 + (if g b5 0 then 0 else 1))))))"
    by (intro s1(3) s2(3) s3(3) s4(3) s5(3) least_at_pair s5(1))
  moreover have "n1 - n0 + (n2 - n1 + (n3 - n2 + (n4 - n3 + (n5 - n4 + (if g b5 0 then 0 else 1))))) = n5 - n0 + (if g b5 0 then 0 else 1)"
    using s1(2) s2(2) s3(2) s4(2) s5(2) by simp
  ultimately show "least_at (g b) (n5 - n0 + (if g b5 0 then 0 else 1))" by simp
  show "n0 \<le> n5" using s1(2) s2(2) s3(2) s4(2) s5(2) by simp
qed

lemma ntz_least:
  assumes "num \<noteq> 0"
  shows "least_at (bit num) (zend_ulong_ntz num)"
proof -
  let ?c = "\<lambda>w b. take_bit w (b :: u64) = 0"
  obtain n1 b1 where 1: "(if ?c 32 num then (1 + 32, drop_bit 32 num) else (1 :: nat, num)) = (n1, b1)" by fastforce
  obtain n2 b2 where 2: "(if ?c 16 b1 then (n1 + 16, drop_bit 16 b1) else (n1, b1)) = (n2, b2)" by fastforce
  obtain n3 b3 where 3: "(if ?c 8 b2 then (n2 + 8, drop_bit 8 b2) else (n2, b2)) = (n3, b3)" by fastforce
  obtain n4 b4 where 4: "(if ?c 4 b3 then (n3 + 4, drop_bit 4 b3) else (n3, b3)) = (n4, b4)" by fastforce
  obtain n5 b5 where 5: "(if ?c 2 b4 then (n4 + 2, drop_bit 2 b4) else (n4, b4)) = (n5, b5)" by fastforce
  have b: "some_below 64 (bit num)" using assms take_bit_zero [of 64 num] by (simp add: take_bit_word_eq_self)
  have "zend_ulong_ntz num = n5 - unat (b5 AND 1)"
    using assms unfolding zend_ulong_ntz_def Let_def and_ones(1-5) 1 prod.case 2 3 4 5 by simp
  then show ?thesis using bit_search [OF bit_drop take_bit_zero b 1 2 3 4 5] unfolding low_bit by (auto split: if_splits)
qed

lemma nts_least:
  assumes "bitset \<noteq> -1"
  shows "least_at (\<lambda>k. \<not> bit bitset k) (zend_mm_bitset_nts bitset)"
proof -
  let ?c = "\<lambda>w b. take_bit w (b :: u64) = mask w"
  obtain n1 b1 where 1: "(if ?c 32 bitset then (0 + 32, drop_bit 32 bitset) else (0 :: nat, bitset)) = (n1, b1)" by fastforce
  obtain n2 b2 where 2: "(if ?c 16 b1 then (n1 + 16, drop_bit 16 b1) else (n1, b1)) = (n2, b2)" by fastforce
  obtain n3 b3 where 3: "(if ?c 8 b2 then (n2 + 8, drop_bit 8 b2) else (n2, b2)) = (n3, b3)" by fastforce
  obtain n4 b4 where 4: "(if ?c 4 b3 then (n3 + 4, drop_bit 4 b3) else (n3, b3)) = (n4, b4)" by fastforce
  obtain n5 b5 where 5: "(if ?c 2 b4 then (n4 + 2, drop_bit 2 b4) else (n4, b4)) = (n5, b5)" by fastforce
  have "bit bitset = (\<lambda>k. k < 64) \<Longrightarrow> bitset = -1" by (auto simp: bit_eq_iff bit_simps)
  then have b: "some_below 64 (\<lambda>k. \<not> bit bitset k)" using assms bit_imp_le_length [of bitset] by (force simp: some_below_def)
  have g: "(\<lambda>k. \<not> bit (drop_bit w b) k) = (\<lambda>k. \<not> bit b (w + k))" for w and b :: u64 by (simp add: bit_drop)
  have "zend_mm_bitset_nts bitset = n5 + unat (b5 AND 1)"
    using assms unfolding zend_mm_bitset_nts_def Let_def and_ones(1-5) unfolding ones_mask 1 prod.case 2 3 4 5 by simp
  then show ?thesis using bit_search [where g = "\<lambda>b k. \<not> bit b k", OF g take_bit_ones b 1 2 3 4 5] unfolding low_bit by (auto split: if_splits)
qed


definition greatest_at :: "(nat \<Rightarrow> bool) \<Rightarrow> nat \<Rightarrow> bool" where
  "greatest_at f h \<longleftrightarrow> f h \<and> (\<forall>k > h. \<not> f k)"

definition none_from :: "nat \<Rightarrow> (nat \<Rightarrow> bool) \<Rightarrow> bool" where
  "none_from w f \<longleftrightarrow> (\<forall>k \<ge> w. \<not> f k)"

lemma bit_bound: "bit (b :: u64) k \<Longrightarrow> k < 64"
  using bit_imp_le_length [of b k] by simp

lemma greatest_at_shift:
  assumes "greatest_at (\<lambda>k. f (w + k)) h"
  shows "greatest_at f (w + h)"
  unfolding greatest_at_def
proof (intro conjI allI impI)
  fix k assume "w + h < k"
  then have "h < k - w" "w + (k - w) = k" by simp_all
  then show "\<not> f k" using assms unfolding greatest_at_def by metis
qed (use assms in \<open>simp add: greatest_at_def\<close>)

lemma drop_bit_zero: "drop_bit w (b :: u64) = 0 \<longleftrightarrow> none_from w (bit b)"
proof
  assume "drop_bit w b = 0"
  then have "\<not> bit b (w + k)" for k by (metis bit_drop bit_0_eq bot_apply bot_bool_def)
  then show "none_from w (bit b)" unfolding none_from_def by (metis le_add_diff_inverse)
qed (auto simp: none_from_def bit_eq_iff bit_drop)

lemma nlz_step:
  assumes "none_from (2 * w) (bit b)" "b \<noteq> 0" "(if drop_bit w (b :: u64) \<noteq> 0 then (n - w, drop_bit w b) else (n, b)) = (n', b')" "2 * w \<le> n"
  shows "none_from w (bit b')" "b' \<noteq> 0" "w \<le> n'" "n' \<le> n" "greatest_at (bit b') h \<Longrightarrow> greatest_at (bit b) (n - n' + h)"
proof -
  have "none_from w (bit (drop_bit w b))" using assms(1) by (simp add: none_from_def bit_drop)
  then show "none_from w (bit b')" "b' \<noteq> 0" "w \<le> n'" "n' \<le> n" "greatest_at (bit b') h \<Longrightarrow> greatest_at (bit b) (n - n' + h)"
    using assms drop_bit_zero [of w b] greatest_at_shift [of "bit b" w h] by (auto simp: bit_drop split: if_splits)
qed

lemma nlz_greatest:
  assumes "num \<noteq> 0"
  shows "greatest_at (bit num) (63 - zend_ulong_nlz num)" "zend_ulong_nlz num < 64"
proof -
  obtain n1 b1 where 1: "(if drop_bit 32 num \<noteq> 0 then (64 - 32, drop_bit 32 num) else (64 :: nat, num)) = (n1, b1)" by fastforce
  obtain n2 b2 where 2: "(if drop_bit 16 b1 \<noteq> 0 then (n1 - 16, drop_bit 16 b1) else (n1, b1)) = (n2, b2)" by fastforce
  obtain n3 b3 where 3: "(if drop_bit 8 b2 \<noteq> 0 then (n2 - 8, drop_bit 8 b2) else (n2, b2)) = (n3, b3)" by fastforce
  obtain n4 b4 where 4: "(if drop_bit 4 b3 \<noteq> 0 then (n3 - 4, drop_bit 4 b3) else (n3, b3)) = (n4, b4)" by fastforce
  obtain n5 b5 where 5: "(if drop_bit 2 b4 \<noteq> 0 then (n4 - 2, drop_bit 2 b4) else (n4, b4)) = (n5, b5)" by fastforce
  have e: "zend_ulong_nlz num = (if drop_bit 1 b5 \<noteq> 0 then n5 - 2 else n5 - unat b5)"
    unfolding zend_ulong_nlz_def Let_def 1 prod.case 2 3 4 5 ..
  have w: "none_from 64 (bit num)" using bit_bound [of num] by (force simp: none_from_def)
  note s1 = nlz_step [OF _ assms 1, simplified, OF w]
  note s2 = nlz_step [OF _ s1(2) 2, simplified, OF s1(1,3)]
  note s3 = nlz_step [OF _ s2(2) 3, simplified, OF s2(1,3)]
  note s4 = nlz_step [OF _ s3(2) 4, simplified, OF s3(1,3)]
  note s5 = nlz_step [OF _ s4(2) 5, simplified, OF s4(1,3)]
  have n: "\<not> bit b5 k" if "2 \<le> k" for k using s5(1) that by (simp add: none_from_def)
  obtain k where k: "bit b5 k" using s5(2) by (auto simp: bit_eq_iff)
  have "k < 2" using n [of k] k by (meson not_le)
  then have k01: "bit b5 0 \<or> bit b5 1" using k by (auto simp: less_2_cases_iff)
  have top: "greatest_at (bit b5) (if bit b5 1 then 1 else 0)"
    unfolding greatest_at_def
  proof (intro conjI allI impI)
    fix j :: nat assume j: "(if bit b5 1 then 1 else 0) < j"
    show "\<not> bit b5 j"
    proof (cases "j = 1")
      case True
      then show ?thesis using j by (cases "bit b5 1") simp_all
    next
      case False
      then have "2 \<le> j" using j by (cases "bit b5 1") simp_all
      then show ?thesis by (rule n)
    qed
  qed (use k01 in auto)
  have "drop_bit 1 b5 \<noteq> 0 \<longleftrightarrow> bit b5 1"
  proof -
    have "j = 1" if "1 \<le> j" "bit b5 j" for j using n [of j] that by (cases "2 \<le> j") auto
    then show ?thesis unfolding drop_bit_zero none_from_def by blast
  qed
  moreover have "unat b5 = 1" if "\<not> bit b5 1"
  proof -
    have "bit b5 j \<longleftrightarrow> j = 0" for j
    proof
      assume "bit b5 j"
      then have "\<not> 2 \<le> j" "j \<noteq> 1" using n that by blast+
      then show "j = 0" by linarith
    qed (use k01 that in blast)
    then have "b5 = 1" by (simp add: bit_eq_iff bit_1_iff)
    then show ?thesis by simp
  qed
  ultimately have r: "zend_ulong_nlz num = (if bit b5 1 then n5 - 2 else n5 - 1)" unfolding e by auto
  have "greatest_at (bit num) (64 - n1 + (n1 - n2 + (n2 - n3 + (n3 - n4 + (n4 - n5 + (if bit b5 1 then 1 else 0))))))"
    by (intro s1(5) s2(5) s3(5) s4(5) s5(5) top)
  moreover have "64 - n1 + (n1 - n2 + (n2 - n3 + (n3 - n4 + (n4 - n5 + (if bit b5 1 then 1 else 0))))) = 63 - zend_ulong_nlz num"
    using s1(4) s2(4) s3(4) s4(4) s5(3,4) unfolding r by auto
  ultimately show "greatest_at (bit num) (63 - zend_ulong_nlz num)" by simp
  show "zend_ulong_nlz num < 64" using s1(4) s2(4) s3(4) s4(4) s5(3,4) unfolding r by auto
qed


section \<open>Bit sets\<close>

text \<open>An access outside the words of a set is an error.\<close>

definition word_at :: "zend_bitset \<Rightarrow> nat \<Rightarrow> u64 mem" where
  "word_at bs i = (if i < length bs then Inr (bs ! i) else Inl Out_of_bounds)"

definition word_set :: "zend_bitset \<Rightarrow> nat \<Rightarrow> u64 \<Rightarrow> zend_bitset mem" where
  "word_set bs i v = (if i < length bs then Inr (bs[i := v]) else Inl Out_of_bounds)"

definition ZEND_BITSET_ELM_NUM :: "nat \<Rightarrow> nat" where
  "ZEND_BITSET_ELM_NUM n = drop_bit 6 n"

definition ZEND_BITSET_BIT_NUM :: "nat \<Rightarrow> nat" where
  "ZEND_BITSET_BIT_NUM n = n AND 63"

definition ZEND_BIT_TEST :: "zend_bitset \<Rightarrow> nat \<Rightarrow> bool mem" where
  "ZEND_BIT_TEST bits n = mem_bind (word_at bits (n div 64)) (\<lambda>w. Inr (drop_bit (n AND 63) w AND 1 \<noteq> 0))"

definition zend_bitset_len :: "nat \<Rightarrow> nat" where
  "zend_bitset_len n = (n + 63) div 64"

definition zend_bitset_in :: "zend_bitset \<Rightarrow> nat \<Rightarrow> bool mem" where
  "zend_bitset_in bs n = ZEND_BIT_TEST bs n"

definition zend_bitset_incl :: "zend_bitset \<Rightarrow> nat \<Rightarrow> zend_bitset mem" where
  "zend_bitset_incl bs n = mem_bind (word_at bs (ZEND_BITSET_ELM_NUM n)) (\<lambda>w.
     word_set bs (ZEND_BITSET_ELM_NUM n) (w OR push_bit (ZEND_BITSET_BIT_NUM n) 1))"

definition zend_bitset_excl :: "zend_bitset \<Rightarrow> nat \<Rightarrow> zend_bitset mem" where
  "zend_bitset_excl bs n = mem_bind (word_at bs (ZEND_BITSET_ELM_NUM n)) (\<lambda>w.
     word_set bs (ZEND_BITSET_ELM_NUM n) (w AND NOT (push_bit (ZEND_BITSET_BIT_NUM n) 1)))"

text \<open>The loops over the first \<open>len\<close> words.\<close>

fun word_loop :: "nat \<Rightarrow> nat \<Rightarrow> (nat \<Rightarrow> zend_bitset \<Rightarrow> u64 mem) \<Rightarrow> zend_bitset \<Rightarrow> zend_bitset mem" where
  "word_loop i 0 f bs = Inr bs"
| "word_loop i (Suc n) f bs = mem_bind (f i bs) (\<lambda>w. mem_bind (word_set bs i w) (word_loop (Suc i) n f))"

definition zend_bitset_clear :: "zend_bitset \<Rightarrow> nat \<Rightarrow> zend_bitset mem" where
  "zend_bitset_clear bs len = word_loop 0 len (\<lambda>i bs. Inr 0) bs"

definition zend_bitset_fill :: "zend_bitset \<Rightarrow> nat \<Rightarrow> zend_bitset mem" where
  "zend_bitset_fill bs len = word_loop 0 len (\<lambda>i bs. Inr (-1)) bs"

definition zend_bitset_copy :: "zend_bitset \<Rightarrow> zend_bitset \<Rightarrow> nat \<Rightarrow> zend_bitset mem" where
  "zend_bitset_copy set1 set2 len = word_loop 0 len (\<lambda>i set1. word_at set2 i) set1"

definition zend_bitset_intersection :: "zend_bitset \<Rightarrow> zend_bitset \<Rightarrow> nat \<Rightarrow> zend_bitset mem" where
  "zend_bitset_intersection set1 set2 len =
     word_loop 0 len (\<lambda>i set1. mem_bind (word_at set1 i) (\<lambda>a. mem_bind (word_at set2 i) (\<lambda>b. Inr (a AND b)))) set1"

definition zend_bitset_union :: "zend_bitset \<Rightarrow> zend_bitset \<Rightarrow> nat \<Rightarrow> zend_bitset mem" where
  "zend_bitset_union set1 set2 len =
     word_loop 0 len (\<lambda>i set1. mem_bind (word_at set1 i) (\<lambda>a. mem_bind (word_at set2 i) (\<lambda>b. Inr (a OR b)))) set1"

definition zend_bitset_difference :: "zend_bitset \<Rightarrow> zend_bitset \<Rightarrow> nat \<Rightarrow> zend_bitset mem" where
  "zend_bitset_difference set1 set2 len =
     word_loop 0 len (\<lambda>i set1. mem_bind (word_at set1 i) (\<lambda>a. mem_bind (word_at set2 i) (\<lambda>b. Inr (a AND NOT b)))) set1"

definition zend_bitset_union_with_intersection :: "zend_bitset \<Rightarrow> zend_bitset \<Rightarrow> zend_bitset \<Rightarrow> zend_bitset \<Rightarrow> nat \<Rightarrow> zend_bitset mem" where
  "zend_bitset_union_with_intersection set1 set2 set3 set4 len =
     word_loop 0 len (\<lambda>i set1. mem_bind (word_at set2 i) (\<lambda>b. mem_bind (word_at set3 i) (\<lambda>c. mem_bind (word_at set4 i) (\<lambda>d. Inr (b OR (c AND d)))))) set1"

definition zend_bitset_union_with_difference :: "zend_bitset \<Rightarrow> zend_bitset \<Rightarrow> zend_bitset \<Rightarrow> zend_bitset \<Rightarrow> nat \<Rightarrow> zend_bitset mem" where
  "zend_bitset_union_with_difference set1 set2 set3 set4 len =
     word_loop 0 len (\<lambda>i set1. mem_bind (word_at set2 i) (\<lambda>b. mem_bind (word_at set3 i) (\<lambda>c. mem_bind (word_at set4 i) (\<lambda>d. Inr (b OR (c AND NOT d)))))) set1"

text \<open>The loops that look for a word and leave early.\<close>

fun word_test :: "nat \<Rightarrow> nat \<Rightarrow> (nat \<Rightarrow> bool mem) \<Rightarrow> bool mem" where
  "word_test i 0 f = Inr True"
| "word_test i (Suc n) f = mem_bind (f i) (\<lambda>b. if b then word_test (Suc i) n f else Inr False)"

definition zend_bitset_empty :: "zend_bitset \<Rightarrow> nat \<Rightarrow> bool mem" where
  "zend_bitset_empty bs len = word_test 0 len (\<lambda>i. mem_bind (word_at bs i) (\<lambda>w. Inr (\<not> w \<noteq> 0)))"

definition zend_bitset_equal :: "zend_bitset \<Rightarrow> zend_bitset \<Rightarrow> nat \<Rightarrow> bool mem" where
  "zend_bitset_equal set1 set2 len = word_test 0 len (\<lambda>i. mem_bind (word_at set1 i) (\<lambda>a. mem_bind (word_at set2 i) (\<lambda>b. Inr (a = b))))"

definition zend_bitset_subset :: "zend_bitset \<Rightarrow> zend_bitset \<Rightarrow> nat \<Rightarrow> bool mem" where
  "zend_bitset_subset set1 set2 len =
     word_test 0 len (\<lambda>i. mem_bind (word_at set1 i) (\<lambda>a. mem_bind (word_at set2 i) (\<lambda>b. Inr (\<not> a AND NOT b \<noteq> 0))))"

fun bitset_first_loop :: "zend_bitset \<Rightarrow> nat \<Rightarrow> nat \<Rightarrow> int mem" where
  "bitset_first_loop bs i 0 = Inr (-1)"
| "bitset_first_loop bs i (Suc n) = mem_bind (word_at bs i) (\<lambda>w. if w \<noteq> 0 then Inr (int (64 * i + zend_ulong_ntz w)) else bitset_first_loop bs (Suc i) n)"

definition zend_bitset_first :: "zend_bitset \<Rightarrow> nat \<Rightarrow> int mem" where
  "zend_bitset_first bs len = bitset_first_loop bs 0 len"

function last_bit_loop :: "u64 \<Rightarrow> int \<Rightarrow> int" where
  "last_bit_loop x j = (if x \<noteq> 0 then last_bit_loop (drop_bit 1 x) (j + 1) else j)"
  by pat_completeness auto
termination
proof (relation "measure (\<lambda>(x, j). unat x)", simp)
  fix x :: u64 and j :: int assume "x \<noteq> 0"
  then have "unat x div 2 < unat x" by (simp add: unat_gt_0)
  then show "((drop_bit 1 x, j + 1), (x, j)) \<in> measure (\<lambda>(x, j). unat x)" by (simp add: drop_bit_eq_div unat_div)
qed

declare last_bit_loop.simps [simp del]

fun zend_bitset_last :: "zend_bitset \<Rightarrow> nat \<Rightarrow> int mem" where
  "zend_bitset_last bs 0 = Inr (-1)"
| "zend_bitset_last bs (Suc i) = mem_bind (word_at bs i) (\<lambda>w. if w \<noteq> 0 then Inr (last_bit_loop w (int (64 * i) - 1)) else zend_bitset_last bs i)"

definition zend_bitset_pop_first :: "zend_bitset \<Rightarrow> nat \<Rightarrow> (int \<times> zend_bitset) mem" where
  "zend_bitset_pop_first bs len =
     mem_bind (zend_bitset_first bs len) (\<lambda>i. if i \<ge> 0 then mem_bind (zend_bitset_excl bs (nat i)) (\<lambda>bs. Inr (i, bs)) else Inr (i, bs))"

section \<open>Bit sets as sets\<close>

definition bits_of :: "zend_bitset \<Rightarrow> nat set" where
  "bits_of s = {n. n div 64 < length s \<and> bit (s ! (n div 64)) (n mod 64)}"

lemma nat_and_63: "n AND 63 = n mod (64 :: nat)"
proof -
  have "n AND mask 6 = take_bit 6 n" by (simp add: take_bit_eq_mask)
  then show ?thesis by (simp add: mask_eq_exp_minus_1 take_bit_eq_mod)
qed

lemma elm_num [simp]: "ZEND_BITSET_ELM_NUM n = n div 64" "ZEND_BITSET_BIT_NUM n = n mod 64"
  by (simp_all add: ZEND_BITSET_ELM_NUM_def ZEND_BITSET_BIT_NUM_def drop_bit_eq_div nat_and_63)

lemma word_at_ok [simp]: "i < length s \<Longrightarrow> word_at s i = Inr (s ! i)"
  by (simp add: word_at_def)

lemma word_set_ok [simp]: "i < length s \<Longrightarrow> word_set s i v = Inr (s[i := v])"
  by (simp add: word_set_def)

lemma test_bit: "drop_bit n (w :: u64) AND 1 \<noteq> 0 \<longleftrightarrow> bit w n"
  by (simp add: and_one_eq odd_iff_mod_2_eq_one [symmetric] bit_iff_odd_drop_bit) 

lemma bit_test_ok: "n div 64 < length s \<Longrightarrow> ZEND_BIT_TEST s n = Inr (n \<in> bits_of s)"
  by (simp add: ZEND_BIT_TEST_def nat_and_63 test_bit bits_of_def)

lemma div_mod_64_eq: "(n :: nat) div 64 = m div 64 \<Longrightarrow> n mod 64 = m mod 64 \<longleftrightarrow> n = m"
  by (metis div_mult_mod_eq)

lemma bits_of_update:
  "i < length s \<Longrightarrow> bits_of (s[i := w]) = {n \<in> bits_of s. n div 64 \<noteq> i} \<union> {n. n div 64 = i \<and> bit w (n mod 64)}"
  by (auto simp: bits_of_def nth_list_update)

lemma incl_ok:
  assumes "n div 64 < length s"
  shows "\<exists>s'. zend_bitset_incl s n = Inr s' \<and> bits_of s' = insert n (bits_of s) \<and> length s' = length s"
  using assms div_mod_64_eq by (auto simp: zend_bitset_incl_def bits_of_update) (auto simp: bits_of_def bit_simps)

lemma excl_ok:
  assumes "n div 64 < length s"
  shows "\<exists>s'. zend_bitset_excl s n = Inr s' \<and> bits_of s' = bits_of s - {n} \<and> length s' = length s"
  using assms div_mod_64_eq by (auto simp: zend_bitset_excl_def bits_of_update) (auto simp: bits_of_def bit_simps)


lemma word_loop_ok:
  assumes "i + n \<le> length s" "\<And>j t. i \<le> j \<Longrightarrow> j < i + n \<Longrightarrow> length t = length s \<Longrightarrow> t ! j = s ! j \<Longrightarrow> f j t = Inr (g j)"
  shows "\<exists>s'. word_loop i n f s = Inr s' \<and> length s' = length s \<and> (\<forall>k. s' ! k = (if i \<le> k \<and> k < i + n then g k else s ! k))"
  using assms
proof (induction n arbitrary: i s)
  case (Suc n)
  have "f i s = Inr (g i)" using Suc.prems(2) [of i s] by simp
  then have e: "word_loop i (Suc n) f s = word_loop (Suc i) n f (s[i := g i])" using Suc.prems(1) by simp
  have "f j t = Inr (g j)" if "Suc i \<le> j" "j < Suc i + n" "length t = length (s[i := g i])" "t ! j = s[i := g i] ! j" for j t
    using Suc.prems(2) [of j t] that by simp
  from Suc.IH [of "Suc i" "s[i := g i]", OF _ this] Suc.prems(1) obtain s' where
    "word_loop (Suc i) n f (s[i := g i]) = Inr s'" "length s' = length s"
    "\<forall>k. s' ! k = (if Suc i \<le> k \<and> k < Suc i + n then g k else s[i := g i] ! k)" by auto
  then show ?case unfolding e using Suc.prems(1) by (intro exI [of _ s'] conjI allI) (auto simp: nth_list_update le_eq_less_or_eq)
qed auto

text \<open>The operations of two and four sets compute bit by bit on the first \<open>len\<close> words.\<close>

definition on_words :: "nat \<Rightarrow> (nat \<Rightarrow> bool) \<Rightarrow> nat set \<Rightarrow> nat set" where
  "on_words len P A = {n. if n < 64 * len then P n else n \<in> A}"

lemma word_loop_bits:
  assumes "len \<le> length s" "\<And>j t. j < len \<Longrightarrow> length t = length s \<Longrightarrow> t ! j = s ! j \<Longrightarrow> f j t = Inr (g j)"
    "\<And>n. n < 64 * len \<Longrightarrow> bit (g (n div 64)) (n mod 64) \<longleftrightarrow> P n"
  shows "\<exists>s'. word_loop 0 len f s = Inr s' \<and> length s' = length s \<and> bits_of s' = on_words len P (bits_of s)"
proof -
  obtain s' where s': "word_loop 0 len f s = Inr s'" "length s' = length s" "\<And>k. s' ! k = (if k < len then g k else s ! k)"
    using word_loop_ok [of 0 len s f g] assms(1,2) by auto
  have "n \<in> bits_of s' \<longleftrightarrow> n \<in> on_words len P (bits_of s)" for n
  proof (cases "n < 64 * len")
    case True
    then have "n div 64 < len" by (simp add: div_less_iff_less_mult mult.commute)
    then show ?thesis using True assms(1) assms(3) [OF True] by (simp add: bits_of_def on_words_def s')
  next
    case False
    then have "\<not> n div 64 < len" by (simp add: div_less_iff_less_mult mult.commute)
    then show ?thesis using False by (simp add: bits_of_def on_words_def s')
  qed
  then show ?thesis using s' by blast
qed

lemma word_bits: "n < 64 * len \<Longrightarrow> len \<le> length s \<Longrightarrow> bit (s ! (n div 64)) (n mod 64) \<longleftrightarrow> n \<in> bits_of s"
  by (auto simp: bits_of_def)

lemma bitset_operations:
  assumes "len \<le> length s1" "len \<le> length s2"
  shows "\<exists>s. zend_bitset_intersection s1 s2 len = Inr s \<and> length s = length s1 \<and> bits_of s = on_words len (\<lambda>n. n \<in> bits_of s1 \<inter> bits_of s2) (bits_of s1)"
    "\<exists>s. zend_bitset_union s1 s2 len = Inr s \<and> length s = length s1 \<and> bits_of s = on_words len (\<lambda>n. n \<in> bits_of s1 \<union> bits_of s2) (bits_of s1)"
    "\<exists>s. zend_bitset_difference s1 s2 len = Inr s \<and> length s = length s1 \<and> bits_of s = on_words len (\<lambda>n. n \<in> bits_of s1 - bits_of s2) (bits_of s1)"
    "\<exists>s. zend_bitset_copy s1 s2 len = Inr s \<and> length s = length s1 \<and> bits_of s = on_words len (\<lambda>n. n \<in> bits_of s2) (bits_of s1)"
    "\<exists>s. zend_bitset_clear s1 len = Inr s \<and> length s = length s1 \<and> bits_of s = on_words len (\<lambda>n. False) (bits_of s1)"
    "\<exists>s. zend_bitset_fill s1 len = Inr s \<and> length s = length s1 \<and> bits_of s = on_words len (\<lambda>n. True) (bits_of s1)"
  unfolding zend_bitset_intersection_def zend_bitset_union_def zend_bitset_difference_def zend_bitset_copy_def zend_bitset_clear_def zend_bitset_fill_def
  using assms word_bits
  by (intro word_loop_bits [where g = "\<lambda>i. s1 ! i AND s2 ! i"] word_loop_bits [where g = "\<lambda>i. s1 ! i OR s2 ! i"]
      word_loop_bits [where g = "\<lambda>i. s1 ! i AND NOT (s2 ! i)"] word_loop_bits [where g = "\<lambda>i. s2 ! i"]
      word_loop_bits [where g = "\<lambda>i. 0"] word_loop_bits [where g = "\<lambda>i. -1"]; simp add: bit_simps)+

lemma bitset_combined_operations:
  assumes "len \<le> length s1" "len \<le> length s2" "len \<le> length s3" "len \<le> length s4"
  shows "\<exists>s. zend_bitset_union_with_intersection s1 s2 s3 s4 len = Inr s \<and> length s = length s1 \<and>
      bits_of s = on_words len (\<lambda>n. n \<in> bits_of s2 \<union> (bits_of s3 \<inter> bits_of s4)) (bits_of s1)"
    "\<exists>s. zend_bitset_union_with_difference s1 s2 s3 s4 len = Inr s \<and> length s = length s1 \<and>
      bits_of s = on_words len (\<lambda>n. n \<in> bits_of s2 \<union> (bits_of s3 - bits_of s4)) (bits_of s1)"
  unfolding zend_bitset_union_with_intersection_def zend_bitset_union_with_difference_def
  using assms word_bits
  by (intro word_loop_bits [where g = "\<lambda>i. s2 ! i OR (s3 ! i AND s4 ! i)"] word_loop_bits [where g = "\<lambda>i. s2 ! i OR (s3 ! i AND NOT (s4 ! i))"];
      simp add: bit_simps)+

lemma word_test_ok:
  assumes "\<And>j. i \<le> j \<Longrightarrow> j < i + n \<Longrightarrow> f j = Inr (P j)"
  shows "word_test i n f = Inr (\<forall>j. i \<le> j \<and> j < i + n \<longrightarrow> P j)"
  using assms
proof (induction n arbitrary: i)
  case (Suc n)
  have "f i = Inr (P i)" using Suc.prems by simp
  moreover have "word_test (Suc i) n f = Inr (\<forall>j. Suc i \<le> j \<and> j < Suc i + n \<longrightarrow> P j)" using Suc by simp
  moreover have "(\<forall>j. i \<le> j \<and> j < i + Suc n \<longrightarrow> P j) \<longleftrightarrow> P i \<and> (\<forall>j. Suc i \<le> j \<and> j < Suc i + n \<longrightarrow> P j)"
    by (auto simp: Suc_le_eq) (metis le_eq_less_or_eq)
  ultimately show ?case by simp
qed auto

lemma bits_below:
  assumes "len \<le> length s"
  shows "{n \<in> bits_of s. n < 64 * len} = {n. n < 64 * len \<and> bit (s ! (n div 64)) (n mod 64)}"
  using assms by (auto simp: bits_of_def)

lemma words_bits:
  assumes "\<And>n. n < 64 * len \<Longrightarrow> P n \<longleftrightarrow> bit (w (n div 64)) (n mod 64)"
  shows "(\<forall>n < 64 * len. \<not> P n) \<longleftrightarrow> (\<forall>j < len. w j = (0 :: u64))"
proof
  assume z: "\<forall>n < 64 * len. \<not> P n"
  show "\<forall>j < len. w j = 0"
  proof (intro allI impI bit_eqI)
    fix j k assume "j < len" "possible_bit TYPE(64 word) k"
    then have "k < 64" by simp
    with \<open>j < len\<close> have "64 * j + k < 64 * len" "(64 * j + k) div 64 = j" "(64 * j + k) mod 64 = k" by auto
    then show "bit (w j) k = bit 0 k" using z assms [of "64 * j + k"] by simp
  qed
qed (use assms in \<open>auto simp: div_less_iff_less_mult mult.commute\<close>)

lemma xor_zero: "(a :: u64) XOR b = 0 \<longleftrightarrow> a = b"
  by (auto simp: bit_eq_iff bit_simps)

lemma bitset_tests:
  assumes "len \<le> length s1" "len \<le> length s2"
  shows "zend_bitset_empty s1 len = Inr (\<forall>n < 64 * len. n \<notin> bits_of s1)"
    "zend_bitset_subset s1 s2 len = Inr (\<forall>n < 64 * len. n \<in> bits_of s1 \<longrightarrow> n \<in> bits_of s2)"
    "zend_bitset_equal s1 s2 len = Inr (\<forall>n < 64 * len. n \<in> bits_of s1 \<longleftrightarrow> n \<in> bits_of s2)"
proof -
  note b = word_bits [OF _ assms(1)] word_bits [OF _ assms(2)]
  have "zend_bitset_empty s1 len = Inr (\<forall>j < len. s1 ! j = 0)" using assms unfolding zend_bitset_empty_def
    by (subst word_test_ok [where P = "\<lambda>j. s1 ! j = 0"]) simp_all
  then show "zend_bitset_empty s1 len = Inr (\<forall>n < 64 * len. n \<notin> bits_of s1)"
    using words_bits [of len "\<lambda>n. n \<in> bits_of s1" "\<lambda>j. s1 ! j"] b by simp
  have "zend_bitset_subset s1 s2 len = Inr (\<forall>j < len. s1 ! j AND NOT (s2 ! j) = 0)" using assms unfolding zend_bitset_subset_def
    by (subst word_test_ok [where P = "\<lambda>j. s1 ! j AND NOT (s2 ! j) = 0"]) simp_all
  then show "zend_bitset_subset s1 s2 len = Inr (\<forall>n < 64 * len. n \<in> bits_of s1 \<longrightarrow> n \<in> bits_of s2)"
    using words_bits [of len "\<lambda>n. n \<in> bits_of s1 \<and> n \<notin> bits_of s2" "\<lambda>j. s1 ! j AND NOT (s2 ! j)"] b by (simp add: bit_simps)
  have "zend_bitset_equal s1 s2 len = Inr (\<forall>j < len. s1 ! j XOR s2 ! j = 0)" using assms unfolding zend_bitset_equal_def
    by (subst word_test_ok [where P = "\<lambda>j. s1 ! j XOR s2 ! j = 0"]) (simp_all add: xor_zero)
  then show "zend_bitset_equal s1 s2 len = Inr (\<forall>n < 64 * len. n \<in> bits_of s1 \<longleftrightarrow> n \<in> bits_of s2)"
    using words_bits [of len "\<lambda>n. (n \<in> bits_of s1) \<noteq> (n \<in> bits_of s2)" "\<lambda>j. s1 ! j XOR s2 ! j"] b by (simp add: bit_simps)
qed


text \<open>The least and the greatest element.\<close>

lemma first_loop_ok:
  assumes "i + n \<le> length s"
  shows "(bitset_first_loop s i n = Inr (-1) \<and> (\<forall>j. i \<le> j \<and> j < i + n \<longrightarrow> s ! j = 0)) \<or>
    (\<exists>k. i \<le> k \<and> k < i + n \<and> s ! k \<noteq> 0 \<and> (\<forall>j. i \<le> j \<and> j < k \<longrightarrow> s ! j = 0) \<and> bitset_first_loop s i n = Inr (int (64 * k + zend_ulong_ntz (s ! k))))"
  using assms
proof (induction n arbitrary: i)
  case (Suc n)
  show ?case
  proof (cases "s ! i = 0")
    case True
    have x: "s ! j = 0" if "\<forall>j. Suc i \<le> j \<and> j < b \<longrightarrow> s ! j = 0" "i \<le> j" "j < b" for j b using that True by (cases "j = i") auto
    show ?thesis using Suc.IH [of "Suc i"] Suc.prems True x by (auto 4 4 simp: Suc_le_eq)
  next
    case False
    then show ?thesis using Suc.prems by (intro disjI2 exI [of _ i]) auto
  qed
qed auto

lemma first_ok:
  assumes "len \<le> length s"
  shows "(zend_bitset_first s len = Inr (-1) \<and> (\<forall>n < 64 * len. n \<notin> bits_of s)) \<or>
    (\<exists>m. zend_bitset_first s len = Inr (int m) \<and> m < 64 * len \<and> least_at (\<lambda>n. n \<in> bits_of s) m)"
proof -
  have z: "n \<notin> bits_of s" if "s ! (n div 64) = 0" for n using that by (simp add: bits_of_def)
  have "0 + len \<le> length s" using assms by simp
  from first_loop_ok [OF this] show ?thesis
  proof (elim disjE exE conjE)
    assume "bitset_first_loop s 0 len = Inr (- 1)" "\<forall>j. 0 \<le> j \<and> j < 0 + len \<longrightarrow> s ! j = 0"
    then show ?thesis using z by (auto simp: zend_bitset_first_def div_less_iff_less_mult mult.commute)
  next
    fix k assume k: "k < 0 + len" "s ! k \<noteq> 0" "\<forall>j. 0 \<le> j \<and> j < k \<longrightarrow> s ! j = 0" "bitset_first_loop s 0 len = Inr (int (64 * k + zend_ulong_ntz (s ! k)))"
    let ?b = "zend_ulong_ntz (s ! k)"
    note l = ntz_least [OF k(2), unfolded least_at_def]
    have b: "?b < 64" using l bit_bound by blast
    have "n \<notin> bits_of s" if "n < 64 * k + ?b" for n
    proof (cases "n div 64 < k")
      case False
      moreover have "n = 64 * (n div 64) + n mod 64" by simp
      ultimately have "n div 64 = k" "n mod 64 < ?b" using that b by linarith+
      then show ?thesis using l by (simp add: bits_of_def)
    qed (use k(3) z in auto)
    moreover have "64 * k + ?b \<in> bits_of s" using l b k(1) assms by (simp add: bits_of_def)
    ultimately have "least_at (\<lambda>n. n \<in> bits_of s) (64 * k + ?b)" by (simp add: least_at_def)
    moreover have "64 * k + ?b < 64 * len" using k(1) b by simp
    ultimately show ?thesis using k(4) unfolding zend_bitset_first_def by blast
  qed
qed

lemma last_bit_loop_ok: "greatest_at (bit x) h \<Longrightarrow> last_bit_loop x j = j + 1 + int h"
proof (induction x j arbitrary: h rule: last_bit_loop.induct)
  case (1 x j)
  have x: "x \<noteq> 0" using "1.prems" by (auto simp: greatest_at_def)
  show ?case
  proof (cases h)
    case 0
    then have "drop_bit 1 x = 0" using "1.prems" by (simp add: drop_bit_zero none_from_def greatest_at_def)
    then show ?thesis using x 0 by (simp add: last_bit_loop.simps [of x] last_bit_loop.simps [of 0])
  next
    case (Suc g)
    then have "greatest_at (bit (drop_bit 1 x)) g" using "1.prems" by (simp add: greatest_at_def bit_drop)
    from "1.IH" [OF x this] show ?thesis using x Suc by (simp add: last_bit_loop.simps [of x])
  qed
qed

lemma last_ok:
  "len \<le> length s \<Longrightarrow> (zend_bitset_last s len = Inr (-1) \<and> (\<forall>n < 64 * len. n \<notin> bits_of s)) \<or>
    (\<exists>m. zend_bitset_last s len = Inr (int m) \<and> m < 64 * len \<and> m \<in> bits_of s \<and> (\<forall>n. m < n \<and> n < 64 * len \<longrightarrow> n \<notin> bits_of s))"
proof (induction len)
  case (Suc k)
  show ?case
  proof (cases "s ! k = 0")
    case True
    have "n \<notin> bits_of s" if "64 * k \<le> n" "n < 64 * Suc k" for n
    proof -
      have "n div 64 = k" using that by (auto intro: div_nat_eqI)
      then show ?thesis using True by (simp add: bits_of_def)
    qed
    then have up: "n < 64 * Suc k \<Longrightarrow> n \<in> bits_of s \<Longrightarrow> n < 64 * k" for n by (meson not_le)
    have e: "zend_bitset_last s (Suc k) = zend_bitset_last s k" using True Suc.prems by simp
    have "k \<le> length s" using Suc.prems by simp
    from Suc.IH [OF this] show ?thesis
    proof (elim disjE exE conjE)
      fix m assume m: "zend_bitset_last s k = Inr (int m)" "m < 64 * k" "m \<in> bits_of s" "\<forall>n. m < n \<and> n < 64 * k \<longrightarrow> n \<notin> bits_of s"
      have "m < 64 * Suc k" using m(2) by simp
      moreover have "\<forall>n. m < n \<and> n < 64 * Suc k \<longrightarrow> n \<notin> bits_of s"
      proof (intro allI impI notI)
        fix n assume n: "m < n \<and> n < 64 * Suc k" "n \<in> bits_of s"
        then show False using m(4) up [of n] by simp
      qed
      ultimately show ?thesis using m(1,3) e by (intro disjI2 exI [of _ m] conjI) simp_all
    next
      assume z: "zend_bitset_last s k = Inr (- 1)" "\<forall>n < 64 * k. n \<notin> bits_of s"
      have "n \<notin> bits_of s" if "n < 64 * Suc k" for n using z(2) up [OF that] by auto
      then show ?thesis using z(1) e by simp
    qed
  next
    case False
    obtain h where gr: "greatest_at (bit (s ! k)) h" "h < 64" using nlz_greatest [OF False] by (metis bit_bound greatest_at_def)
    note g = gr [unfolded greatest_at_def]
    have "n \<notin> bits_of s" if "64 * k + h < n" "n < 64 * Suc k" for n
    proof -
      have "n div 64 = k" using that by (auto intro: div_nat_eqI)
      moreover from this have "h < n mod 64" using that by (metis add_less_cancel_left mult_div_mod_eq)
      ultimately show ?thesis using g(1) by (simp add: bits_of_def)
    qed
    moreover have "64 * k + h \<in> bits_of s" using g Suc.prems by (simp add: bits_of_def)
    moreover have "zend_bitset_last s (Suc k) = Inr (int (64 * k + h))"
      using False Suc.prems last_bit_loop_ok [OF gr(1), of "int (64 * k) - 1"] by simp
    moreover have "64 * k + h < 64 * Suc k" using gr(2) by simp
    ultimately show ?thesis by (intro disjI2 exI [of _ "64 * k + h"] conjI) simp_all
  qed
qed simp

lemma pop_first_ok:
  assumes "len \<le> length s"
  shows "(zend_bitset_pop_first s len = Inr (-1, s) \<and> (\<forall>n < 64 * len. n \<notin> bits_of s)) \<or>
    (\<exists>m s'. zend_bitset_pop_first s len = Inr (int m, s') \<and> m < 64 * len \<and> least_at (\<lambda>n. n \<in> bits_of s) m \<and> bits_of s' = bits_of s - {m} \<and> length s' = length s)"
  using first_ok [OF assms]
proof (elim disjE exE conjE)
  fix m assume m: "zend_bitset_first s len = Inr (int m)" "m < 64 * len" "least_at (\<lambda>n. n \<in> bits_of s) m"
  have "m div 64 < length s" using m(2) assms by (metis div_less_iff_less_mult less_le_trans mult.commute zero_less_numeral)
  from excl_ok [OF this] m show ?thesis by (auto simp: zend_bitset_pop_first_def)
qed (simp add: zend_bitset_pop_first_def)


end
