(* ===== verification/Zend_Mm_Search.thy ===== *)
theory Zend_Mm_Search
  imports Zend_Bitset
begin

text \<open>
  Pages of a chunk (\<^verbatim>\<open>Zend/zend_alloc.c\<close>): setting, resetting and testing a range of bits, and the best-fit search for a run of
  free pages, which returns a smallest run that is long enough or finds that there is none.
\<close>

section \<open>Ranges of pages\<close>

definition zend_mm_bitset_is_set :: "zend_bitset \<Rightarrow> nat \<Rightarrow> bool mem" where
  "zend_mm_bitset_is_set bitset n = ZEND_BIT_TEST bitset n"

definition zend_mm_bitset_set_bit :: "zend_bitset \<Rightarrow> nat \<Rightarrow> zend_bitset mem" where
  "zend_mm_bitset_set_bit bitset n =
     mem_bind (word_at bitset (n div 64)) (\<lambda>w. word_set bitset (n div 64) (w OR push_bit (n AND 63) 1))"

definition zend_mm_bitset_reset_bit :: "zend_bitset \<Rightarrow> nat \<Rightarrow> zend_bitset mem" where
  "zend_mm_bitset_reset_bit bitset n =
     mem_bind (word_at bitset (n div 64)) (\<lambda>w. word_set bitset (n div 64) (w AND NOT (push_bit (n AND 63) 1)))"

text \<open>Writing the words strictly between the first and the last one; \<open>pos \<le> end\<close> at the start of the loop.\<close>

definition fill_words :: "u64 \<Rightarrow> nat \<Rightarrow> nat \<Rightarrow> zend_bitset \<Rightarrow> zend_bitset mem" where
  "fill_words v pos stop bitset = word_loop pos (stop - pos) (\<lambda>_ _. Inr v) bitset"

definition zend_mm_bitset_set_range :: "zend_bitset \<Rightarrow> nat \<Rightarrow> nat \<Rightarrow> zend_bitset mem" where
  "zend_mm_bitset_set_range bitset start len =
     (if len = 1 then zend_mm_bitset_set_bit bitset start
      else let pos = start div 64; stop = (start + len - 1) div 64; b = start AND 63
        in if pos \<noteq> stop
           then mem_bind (word_at bitset pos) (\<lambda>w. mem_bind (word_set bitset pos (w OR push_bit b (-1))) (\<lambda>bitset.
                mem_bind (fill_words (-1) (pos + 1) stop bitset) (\<lambda>bitset.
                  let e = (start + len - 1) AND 63
                  in mem_bind (word_at bitset stop) (\<lambda>w. word_set bitset stop (w OR drop_bit (63 - e) (-1))))))
           else let e = (start + len - 1) AND 63; tmp = push_bit b (-1) AND drop_bit (63 - e) (-1)
             in mem_bind (word_at bitset pos) (\<lambda>w. word_set bitset pos (w OR tmp)))"

definition zend_mm_bitset_reset_range :: "zend_bitset \<Rightarrow> nat \<Rightarrow> nat \<Rightarrow> zend_bitset mem" where
  "zend_mm_bitset_reset_range bitset start len =
     (if len = 1 then zend_mm_bitset_reset_bit bitset start
      else let pos = start div 64; stop = (start + len - 1) div 64; b = start AND 63
        in if pos \<noteq> stop
           then mem_bind (word_at bitset pos) (\<lambda>w. mem_bind (word_set bitset pos (w AND NOT (NOT (push_bit b 1 - 1)))) (\<lambda>bitset.
                mem_bind (fill_words 0 (pos + 1) stop bitset) (\<lambda>bitset.
                  let e = (start + len - 1) AND 63
                  in mem_bind (word_at bitset stop) (\<lambda>w. word_set bitset stop (w AND NOT (drop_bit (63 - e) (-1)))))))
           else let e = (start + len - 1) AND 63; tmp = push_bit b (-1) AND drop_bit (63 - e) (-1)
             in mem_bind (word_at bitset pos) (\<lambda>w. word_set bitset pos (w AND NOT tmp)))"

definition zend_mm_bitset_is_free_range :: "zend_bitset \<Rightarrow> nat \<Rightarrow> nat \<Rightarrow> bool mem" where
  "zend_mm_bitset_is_free_range bitset start len =
     (if len = 1 then mem_bind (zend_mm_bitset_is_set bitset start) (\<lambda>b. Inr (\<not> b))
      else let pos = start div 64; stop = (start + len - 1) div 64; b = start AND 63
        in if pos \<noteq> stop
           then mem_bind (word_at bitset pos) (\<lambda>w.
                if w AND push_bit b (-1) \<noteq> 0 then Inr False
                else mem_bind (word_test (pos + 1) (stop - (pos + 1)) (\<lambda>i. mem_bind (word_at bitset i) (\<lambda>w. Inr (\<not> w \<noteq> 0)))) (\<lambda>free.
                  if \<not> free then Inr False
                  else let e = (start + len - 1) AND 63
                    in mem_bind (word_at bitset stop) (\<lambda>w. Inr (w AND drop_bit (63 - e) (-1) = 0))))
           else let e = (start + len - 1) AND 63; tmp = push_bit b (-1) AND drop_bit (63 - e) (-1)
             in mem_bind (word_at bitset pos) (\<lambda>w. Inr (w AND tmp = 0)))"

text \<open>The bits that the two masks select.\<close>

lemma high_mask: "b < 64 \<Longrightarrow> k < 64 \<Longrightarrow> bit (push_bit b (-1) :: u64) k \<longleftrightarrow> b \<le> k"
  by (auto simp: bit_simps)

lemma low_mask: "e < 64 \<Longrightarrow> k < 64 \<Longrightarrow> bit (drop_bit (63 - e) (-1) :: u64) k \<longleftrightarrow> k \<le> e"
  by (auto simp: bit_simps)

lemma high_mask_alt: "b < 64 \<Longrightarrow> NOT (push_bit b 1 - 1) = (push_bit b (-1) :: u64)"
proof -
  assume "b < 64"
  have "push_bit b 1 - 1 = (mask b :: u64)" by (simp add: mask_eq_exp_minus_1 push_bit_eq_mult)
  then show ?thesis by (auto simp: bit_eq_iff bit_simps)
qed

lemma le_words: "(a :: nat) \<le> n \<longleftrightarrow> a div 64 < n div 64 \<or> a div 64 = n div 64 \<and> a mod 64 \<le> n mod 64"
proof -
  define p b q c where "p = a div 64" and "b = a mod 64" and "q = n div 64" and "c = n mod 64"
  have "a = 64 * p + b" "n = 64 * q + c" "b < 64" "c < 64" by (simp_all add: p_def b_def q_def c_def)
  then show ?thesis unfolding p_def [symmetric] b_def [symmetric] q_def [symmetric] c_def [symmetric] by linarith
qed

text \<open>A page of a range, word by word.\<close>

definition in_range :: "nat \<Rightarrow> nat \<Rightarrow> nat set" where
  "in_range start len = {start..<start + len}"

lemma in_range_words:
  assumes "0 < len"
  shows "n \<in> in_range start len \<longleftrightarrow>
    (start div 64 < n div 64 \<or> start div 64 = n div 64 \<and> start mod 64 \<le> n mod 64) \<and>
    (n div 64 < (start + len - 1) div 64 \<or> n div 64 = (start + len - 1) div 64 \<and> n mod 64 \<le> (start + len - 1) mod 64)"
proof -
  have "n \<in> in_range start len \<longleftrightarrow> start \<le> n \<and> n \<le> start + len - 1" using assms by (auto simp: in_range_def)
  then show ?thesis using le_words [of start n] le_words [of n "start + len - 1"] by simp
qed

lemma set_bit_ok:
  assumes "n div 64 < length s"
  shows "\<exists>s'. zend_mm_bitset_set_bit s n = Inr s' \<and> length s' = length s \<and> bits_of s' = insert n (bits_of s)"
  using incl_ok [OF assms] by (auto simp: zend_mm_bitset_set_bit_def zend_bitset_incl_def nat_and_63)

lemma reset_bit_ok:
  assumes "n div 64 < length s"
  shows "\<exists>s'. zend_mm_bitset_reset_bit s n = Inr s' \<and> length s' = length s \<and> bits_of s' = bits_of s - {n}"
  using excl_ok [OF assms] by (auto simp: zend_mm_bitset_reset_bit_def zend_bitset_excl_def nat_and_63)

lemma fill_words_ok:
  assumes "stop \<le> length s" "pos \<le> stop"
  shows "\<exists>s'. fill_words v pos stop s = Inr s' \<and> length s' = length s \<and> (\<forall>k. s' ! k = (if pos \<le> k \<and> k < stop then v else s ! k))"
  using word_loop_ok [of pos "stop - pos" s "\<lambda>_ _. Inr v" "\<lambda>_. v"] assms by (simp add: fill_words_def)

text \<open>The shape that setting and resetting share: the words of the range are changed by \<open>f\<close>, which gets the mask of the word.\<close>

definition range_mask :: "nat \<Rightarrow> nat \<Rightarrow> nat \<Rightarrow> u64" where
  "range_mask start len k =
     (if k < start div 64 \<or> (start + len - 1) div 64 < k then 0
      else (if k = start div 64 then push_bit (start mod 64) (-1) else -1) AND
        (if k = (start + len - 1) div 64 then drop_bit (63 - (start + len - 1) mod 64) (-1) else -1))"

lemma bit_range_mask:
  assumes "0 < len"
  shows "bit (range_mask start len (n div 64)) (n mod 64) \<longleftrightarrow> n \<in> in_range start len"
proof -
  have b: "bit (-1 :: u64) (n mod 64)" by (simp add: bit_simps)
  show ?thesis unfolding in_range_words [OF assms] range_mask_def
    using high_mask [of "start mod 64" "n mod 64"] low_mask [of "(start + len - 1) mod 64" "n mod 64"] b
    by (auto simp: bit_and_iff)
qed

lemma set_range_words:
  assumes "0 < len" "len \<noteq> 1" "(start + len - 1) div 64 < length s"
  shows "\<exists>s'. zend_mm_bitset_set_range s start len = Inr s' \<and> length s' = length s \<and> (\<forall>k. s' ! k = s ! k OR range_mask start len k)"
proof -
  let ?pos = "start div 64" and ?stop = "(start + len - 1) div 64"
  have le: "?pos \<le> ?stop" using assms(1) by (intro div_le_mono) simp
  show ?thesis
  proof (cases "?pos = ?stop")
    case True
    then show ?thesis using assms by (auto simp: zend_mm_bitset_set_range_def nat_and_63 range_mask_def nth_list_update Let_def)
  next
    case False
    let ?s1 = "s[?pos := s ! ?pos OR push_bit (start mod 64) (-1)]"
    obtain s2 where s2: "fill_words (-1) (?pos + 1) ?stop ?s1 = Inr s2" "length s2 = length s"
      "\<And>k. s2 ! k = (if ?pos + 1 \<le> k \<and> k < ?stop then -1 else ?s1 ! k)"
      using fill_words_ok [of ?stop ?s1 "?pos + 1" "-1"] assms(3) False le by auto
    have "zend_mm_bitset_set_range s start len = Inr (s2[?stop := s2 ! ?stop OR drop_bit (63 - (start + len - 1) mod 64) (-1)])"
      using False assms le s2(1,2) by (simp add: zend_mm_bitset_set_range_def nat_and_63 Let_def)
    moreover have "s2[?stop := s2 ! ?stop OR drop_bit (63 - (start + len - 1) mod 64) (-1)] ! k = s ! k OR range_mask start len k" for k
      using False le assms(3) s2(2) unfolding range_mask_def by (auto simp: nth_list_update s2(3))
    ultimately show ?thesis using s2(2) by auto
  qed
qed

lemma reset_range_words:
  assumes "0 < len" "len \<noteq> 1" "(start + len - 1) div 64 < length s"
  shows "\<exists>s'. zend_mm_bitset_reset_range s start len = Inr s' \<and> length s' = length s \<and> (\<forall>k. s' ! k = s ! k AND NOT (range_mask start len k))"
proof -
  let ?pos = "start div 64" and ?stop = "(start + len - 1) div 64"
  have le: "?pos \<le> ?stop" using assms(1) by (intro div_le_mono) simp
  show ?thesis
  proof (cases "?pos = ?stop")
    case True
    then show ?thesis using assms by (auto simp: zend_mm_bitset_reset_range_def nat_and_63 range_mask_def nth_list_update Let_def)
  next
    case False
    let ?s1 = "s[?pos := s ! ?pos AND NOT (push_bit (start mod 64) (-1))]"
    obtain s2 where s2: "fill_words 0 (?pos + 1) ?stop ?s1 = Inr s2" "length s2 = length s"
      "\<And>k. s2 ! k = (if ?pos + 1 \<le> k \<and> k < ?stop then 0 else ?s1 ! k)"
      using fill_words_ok [of ?stop ?s1 "?pos + 1" 0] assms(3) False le by auto
    have "zend_mm_bitset_reset_range s start len = Inr (s2[?stop := s2 ! ?stop AND NOT (drop_bit (63 - (start + len - 1) mod 64) (-1))])"
      using False assms le s2(1,2) by (simp add: zend_mm_bitset_reset_range_def nat_and_63 Let_def flip: mask_eq_exp_minus_1)
    moreover have "s2[?stop := s2 ! ?stop AND NOT (drop_bit (63 - (start + len - 1) mod 64) (-1))] ! k = s ! k AND NOT (range_mask start len k)" for k
      using False le assms(3) s2(2) unfolding range_mask_def by (auto simp: nth_list_update s2(3))
    ultimately show ?thesis using s2(2) by auto
  qed
qed


lemma bits_of_words:
  assumes "length s' = length s"
  shows "(\<forall>k. s' ! k = s ! k OR w k) \<Longrightarrow> bits_of s' = bits_of s \<union> {n. n div 64 < length s \<and> bit (w (n div 64)) (n mod 64)}"
    "(\<forall>k. s' ! k = s ! k AND NOT (w k)) \<Longrightarrow> bits_of s' = bits_of s - {n. bit (w (n div 64)) (n mod 64)}"
  using assms by (auto simp: bits_of_def bit_simps)

lemma in_range_bound:
  assumes "0 < len" "(start + len - 1) div 64 < length s" "n \<in> in_range start len"
  shows "n div 64 < length s"
proof -
  have "n \<le> start + len - 1" using assms by (auto simp: in_range_def)
  then show ?thesis using assms(2) by (meson div_le_mono le_less_trans)
qed

lemma set_range_ok:
  assumes "0 < len" "(start + len - 1) div 64 < length s"
  shows "\<exists>s'. zend_mm_bitset_set_range s start len = Inr s' \<and> length s' = length s \<and> bits_of s' = bits_of s \<union> in_range start len"
proof (cases "len = 1")
  case True
  then show ?thesis using set_bit_ok [of start s] assms(2) by (auto simp: zend_mm_bitset_set_range_def in_range_def)
next
  case False
  then obtain s' where s': "zend_mm_bitset_set_range s start len = Inr s'" "length s' = length s" "\<forall>k. s' ! k = s ! k OR range_mask start len k"
    using set_range_words [OF assms(1) _ assms(2)] by blast
  then show ?thesis using bits_of_words(1) [OF s'(2,3)] bit_range_mask [OF assms(1)] in_range_bound [OF assms] by auto
qed

lemma reset_range_ok:
  assumes "0 < len" "(start + len - 1) div 64 < length s"
  shows "\<exists>s'. zend_mm_bitset_reset_range s start len = Inr s' \<and> length s' = length s \<and> bits_of s' = bits_of s - in_range start len"
proof (cases "len = 1")
  case True
  then show ?thesis using reset_bit_ok [of start s] assms(2) by (auto simp: zend_mm_bitset_reset_range_def in_range_def)
next
  case False
  then obtain s' where s': "zend_mm_bitset_reset_range s start len = Inr s'" "length s' = length s" "\<forall>k. s' ! k = s ! k AND NOT (range_mask start len k)"
    using reset_range_words [OF assms(1) _ assms(2)] by blast
  then show ?thesis using bits_of_words(2) [OF s'(2,3)] bit_range_mask [OF assms(1)] by auto
qed

lemma free_range_words:
  assumes "0 < len" "len \<noteq> 1" "(start + len - 1) div 64 < length s"
  shows "zend_mm_bitset_is_free_range s start len = Inr (\<forall>k < length s. s ! k AND range_mask start len k = 0)"
proof -
  let ?pos = "start div 64" and ?stop = "(start + len - 1) div 64"
  let ?P = "\<lambda>k. s ! k AND range_mask start len k = 0"
  have le: "?pos \<le> ?stop" using assms(1) by (intro div_le_mono) simp
  have out: "?P k" if "k < ?pos \<or> ?stop < k" for k using that by (simp add: range_mask_def)
  have all: "(\<forall>k < length s. ?P k) \<longleftrightarrow> (\<forall>k. ?pos \<le> k \<and> k \<le> ?stop \<longrightarrow> ?P k)" 
  proof (intro iffI allI impI)
    fix k assume "\<forall>k. ?pos \<le> k \<and> k \<le> ?stop \<longrightarrow> ?P k"
    then show "?P k" using out [of k] by (cases "k < ?pos \<or> ?stop < k") (blast, simp)
  qed (use assms(3) in auto)
  show ?thesis
  proof (cases "?pos = ?stop")
    case True
    have "(\<forall>k. ?pos \<le> k \<and> k \<le> ?stop \<longrightarrow> ?P k) \<longleftrightarrow> ?P ?pos" using True by (metis le_antisym order_refl)
    then show ?thesis unfolding all using True assms by (simp add: zend_mm_bitset_is_free_range_def nat_and_63 range_mask_def Let_def)
  next
    case False
    have split: "(\<forall>k. ?pos \<le> k \<and> k \<le> ?stop \<longrightarrow> ?P k) \<longleftrightarrow> ?P ?pos \<and> (\<forall>k. ?pos + 1 \<le> k \<and> k < ?stop \<longrightarrow> ?P k) \<and> ?P ?stop"
    proof (intro iffI conjI allI impI)
      fix k assume a: "?P ?pos \<and> (\<forall>k. ?pos + 1 \<le> k \<and> k < ?stop \<longrightarrow> ?P k) \<and> ?P ?stop" "?pos \<le> k \<and> k \<le> ?stop"
      then consider "k = ?pos" | "?pos + 1 \<le> k \<and> k < ?stop" | "k = ?stop" by linarith
      then show "?P k" using a(1) by cases blast+
    qed (use le in auto)
    have "word_test (?pos + 1) (?stop - (?pos + 1)) (\<lambda>i. mem_bind (word_at s i) (\<lambda>w. Inr (\<not> w \<noteq> 0))) =
        Inr (\<forall>k. ?pos + 1 \<le> k \<and> k < ?pos + 1 + (?stop - (?pos + 1)) \<longrightarrow> s ! k = 0)"
      using assms(3) by (intro word_test_ok) simp
    moreover have "?pos + 1 + (?stop - (?pos + 1)) = ?stop" using False le by simp
    moreover have "?P k \<longleftrightarrow> s ! k = 0" if "?pos + 1 \<le> k \<and> k < ?stop" for k using that by (simp add: range_mask_def)
    ultimately have t: "word_test (?pos + 1) (?stop - (?pos + 1)) (\<lambda>i. mem_bind (word_at s i) (\<lambda>w. Inr (\<not> w \<noteq> 0))) =
        Inr (\<forall>k. ?pos + 1 \<le> k \<and> k < ?stop \<longrightarrow> ?P k)" by auto
    have "?P ?pos \<longleftrightarrow> s ! ?pos AND push_bit (start mod 64) (-1) = 0" "?P ?stop \<longleftrightarrow> s ! ?stop AND drop_bit (63 - (start + len - 1) mod 64) (-1) = 0"
      using False le by (simp_all add: range_mask_def)
    then show ?thesis unfolding all split using False le assms t
      by (simp add: zend_mm_bitset_is_free_range_def nat_and_63 Let_def del: word_test.simps)
  qed
qed

lemma free_range_ok:
  assumes "0 < len" "(start + len - 1) div 64 < length s"
  shows "zend_mm_bitset_is_free_range s start len = Inr (bits_of s \<inter> in_range start len = {})"
proof (cases "len = 1")
  case True
  then show ?thesis using bit_test_ok [of start s] assms(2)
    by (auto simp: zend_mm_bitset_is_free_range_def zend_mm_bitset_is_set_def in_range_def)
next
  case False
  have "n \<in> bits_of s \<and> n \<in> in_range start len \<longleftrightarrow> bit (s ! (n div 64) AND range_mask start len (n div 64)) (n mod 64)" if "n < 64 * length s" for n
    using that bit_range_mask [OF assms(1)] by (auto simp: bits_of_def bit_simps)
  from words_bits [OF this] have "(\<forall>n < 64 * length s. \<not> (n \<in> bits_of s \<and> n \<in> in_range start len)) \<longleftrightarrow> (\<forall>k < length s. s ! k AND range_mask start len k = 0)" .
  moreover have "(\<forall>n < 64 * length s. \<not> (n \<in> bits_of s \<and> n \<in> in_range start len)) \<longleftrightarrow> bits_of s \<inter> in_range start len = {}"
    by (auto simp: bits_of_def div_less_iff_less_mult mult.commute)
  ultimately show ?thesis using free_range_words [OF assms(1) False assms(2)] by simp
qed


section \<open>Searching free pages\<close>

definition ZEND_MM_PAGES :: nat where "ZEND_MM_PAGES = 512"
definition ZEND_MM_FIRST_PAGE :: nat where "ZEND_MM_FIRST_PAGE = 1"

text \<open>
  The two inner loops.  \<open>bitset\<close> is the index of the next word to read.  The result \<open>None\<close> is the exit from the search: no free page is
  left, or all pages from the current word on are free.
\<close>

function skip_allocated :: "zend_bitset \<Rightarrow> nat \<Rightarrow> nat \<Rightarrow> u64 \<Rightarrow> (nat \<times> nat \<times> u64) option mem" where
  "skip_allocated free_map bitset i tmp =
     (if tmp = -1
      then let i = i + 64
        in if i = ZEND_MM_PAGES then Inr None
           else if bitset < length free_map then skip_allocated free_map (bitset + 1) i (free_map ! bitset) else Inl Out_of_bounds
      else Inr (Some (bitset, i, tmp)))"
  by pat_completeness auto
termination
  by (relation "measure (\<lambda>(free_map, bitset, i, tmp). length free_map - bitset)") auto

function skip_free :: "zend_bitset \<Rightarrow> nat \<Rightarrow> nat \<Rightarrow> nat \<Rightarrow> u64 \<Rightarrow> (nat \<times> nat \<times> u64) option mem" where
  "skip_free free_map free_tail bitset i tmp =
     (if tmp = 0
      then let i = i + 64
        in if i \<ge> free_tail \<or> i = ZEND_MM_PAGES then Inr None
           else if bitset < length free_map then skip_free free_map free_tail (bitset + 1) i (free_map ! bitset) else Inl Out_of_bounds
      else Inr (Some (bitset, i, tmp)))"
  by pat_completeness auto
termination
  by (relation "measure (\<lambda>(free_map, free_tail, bitset, i, tmp). length free_map - bitset)") auto

declare skip_allocated.simps [simp del] skip_free.simps [simp del]

text \<open>The search returns the first page of the run, if there is one, and the new value of \<^verbatim>\<open>chunk->free_tail\<close>.\<close>

definition best_page :: "int \<Rightarrow> nat option" where
  "best_page best = (if best > 0 then Some (nat best) else None)"

partial_function (option) best_fit_loop ::
    "zend_bitset \<Rightarrow> nat \<Rightarrow> nat \<Rightarrow> int \<Rightarrow> nat \<Rightarrow> nat \<Rightarrow> nat \<Rightarrow> u64 \<Rightarrow> (nat option \<times> nat) mem option" where
  "best_fit_loop free_map pages_count free_tail best best_len bitset i tmp =
     (case skip_allocated free_map bitset i tmp of
        Inl e \<Rightarrow> Some (Inl e)
      | Inr None \<Rightarrow> Some (Inr (best_page best, free_tail))
      | Inr (Some (bitset, i, tmp)) \<Rightarrow>
          let page_num = i + zend_mm_bitset_nts tmp; tmp = tmp AND (tmp + 1)
          in (case skip_free free_map free_tail bitset i tmp of
                Inl e \<Rightarrow> Some (Inl e)
              | Inr None \<Rightarrow>
                  let len = ZEND_MM_PAGES - page_num
                  in if len \<ge> pages_count \<and> len < best_len then Some (Inr (Some page_num, page_num + pages_count))
                     else Some (Inr (best_page best, page_num))
              | Inr (Some (bitset, i, tmp)) \<Rightarrow>
                  let len = i + zend_ulong_ntz tmp - page_num
                  in if len = pages_count then Some (Inr (Some page_num, free_tail))
                     else let (best, best_len) = (if len \<ge> pages_count \<and> len < best_len then (int page_num, len) else (best, best_len))
                       in best_fit_loop free_map pages_count free_tail best best_len bitset i (tmp OR (tmp - 1))))"

definition best_fit :: "zend_bitset \<Rightarrow> nat \<Rightarrow> nat \<Rightarrow> (nat option \<times> nat) mem option" where
  "best_fit free_map free_tail pages_count =
     (case word_at free_map 0 of
        Inl e \<Rightarrow> Some (Inl e)
      | Inr tmp \<Rightarrow> best_fit_loop free_map pages_count free_tail (-1) ZEND_MM_PAGES 1 0 tmp)"

section \<open>Word tricks\<close>

text \<open>Adding one to a word with \<open>n\<close> trailing ones.\<close>

lemma clear_trailing_ones:
  fixes w :: u64
  assumes "least_at (\<lambda>k. \<not> bit w k) n" "n < 64"
  shows "bit (w AND (w + 1)) k \<longleftrightarrow> bit w k \<and> n \<le> k"
proof -
  have "take_bit n w = mask n" using assms by (intro bit_eqI) (auto simp: bit_simps least_at_def)
  then have "w + 1 = push_bit n (drop_bit n w) + (mask n + 1)" using bits_ident [of n w] by (metis add.assoc)
  also have "mask n + 1 = (2 ^ n :: u64)" by (simp add: mask_eq_exp_minus_1)
  finally have "w + 1 = push_bit n (drop_bit n w + 1)" by (simp add: push_bit_eq_mult distrib_right)
  moreover have "even (drop_bit n w)" using assms(1) by (simp add: least_at_def bit_iff_odd_drop_bit)
  ultimately have "w + 1 = push_bit n (drop_bit n w OR 1)" by (simp add: or_one_eq)
  moreover have "\<not> bit w n" using assms(1) by (simp add: least_at_def)
  ultimately show ?thesis using bit_bound [of w k] by (auto simp: bit_simps)
qed

lemma set_trailing_zeros:
  fixes w :: u64
  assumes "least_at (bit w) m" "m < 64" "k < 64"
  shows "bit (w OR (w - 1)) k \<longleftrightarrow> bit w k \<or> k < m"
proof -
  have l: "least_at (\<lambda>k. \<not> bit (NOT w) k) m" using assms(1,2) by (auto simp: least_at_def bit_simps)
  have c: "NOT w + 1 = NOT (w - 1)" by (metis minus_eq_not_minus_1 minus_eq_not_plus_1)
  have "w OR (w - 1) = NOT (NOT w AND (NOT w + 1))" unfolding c by simp
  then show ?thesis using clear_trailing_ones [OF l assms(2), of k] assms(3) by (auto simp: bit_simps)
qed

section \<open>The search is right\<close>

text \<open>A maximal run of free pages.\<close>

definition free_run :: "nat set \<Rightarrow> nat \<Rightarrow> nat \<Rightarrow> bool" where
  "free_run used a l \<longleftrightarrow> 0 < l \<and> a + l \<le> ZEND_MM_PAGES \<and> (\<forall>n. a \<le> n \<and> n < a + l \<longrightarrow> n \<notin> used) \<and>
     (0 < a \<longrightarrow> a - 1 \<in> used) \<and> (a + l < ZEND_MM_PAGES \<longrightarrow> a + l \<in> used)"

lemma next_run:
  assumes "q \<in> used" "\<And>n. q \<le> n \<Longrightarrow> n < p \<Longrightarrow> n \<in> used" "q \<le> p" "p < e" "\<And>n. p \<le> n \<Longrightarrow> n < e \<Longrightarrow> n \<notin> used" "e < ZEND_MM_PAGES \<Longrightarrow> e \<in> used" "e \<le> ZEND_MM_PAGES"
  shows "free_run used p (e - p)" "free_run used a l \<Longrightarrow> a + l \<le> e \<Longrightarrow> a + l \<le> q \<or> a = p \<and> l = e - p"
proof -
  have "q < p" using assms(1,3,4,5) by (metis le_neq_implies_less order_refl)
  then have "p - 1 \<in> used" using assms(2) [of "p - 1"] by simp
  then show "free_run used p (e - p)" using assms by (auto simp: free_run_def)
  assume r: "free_run used a l" "a + l \<le> e"
  show "a + l \<le> q \<or> a = p \<and> l = e - p"
  proof (cases "a \<le> q")
    case True
    then have "\<not> q < a + l" using r(1) assms(1) unfolding free_run_def by blast
    then show ?thesis by simp
  next
    case False
    have "a \<notin> used" using r(1) by (simp add: free_run_def)
    then have "p \<le> a" using assms(2) [of a] False by (meson not_le less_imp_le)
    moreover have "a < e" using r by (simp add: free_run_def)
    moreover have "\<not> p < a"
    proof
      assume "p < a"
      then have "a - 1 \<notin> used" using assms(5) [of "a - 1"] \<open>a < e\<close> by simp
      then show False using r(1) \<open>p < a\<close> by (simp add: free_run_def)
    qed
    ultimately have a: "a = p" by simp
    have "\<not> p + l < e"
    proof
      assume "p + l < e"
      then have "p + l \<notin> used" "p + l < ZEND_MM_PAGES" using assms(5) [of "p + l"] assms(7) by simp_all
      then show False using r(1) a by (simp add: free_run_def)
    qed
    then have "p + l = e" using a r(2) by simp
    then have "l = e - p" by auto
    then show ?thesis using a by simp
  qed
qed

text \<open>The word at hand: the pages before \<open>q\<close> count as allocated while the search skips allocated pages, and as free while it skips free ones.\<close>

definition view_used :: "nat set \<Rightarrow> nat \<Rightarrow> nat \<Rightarrow> u64 \<Rightarrow> bool" where
  "view_used used q j tmp \<longleftrightarrow> j < 8 \<and> q \<le> 64 * j + 64 \<and> (\<forall>b < 64. bit tmp b \<longleftrightarrow> 64 * j + b < q \<or> 64 * j + b \<in> used) \<and> (\<forall>n. q \<le> n \<and> n < 64 * j \<longrightarrow> n \<in> used)"

definition view_free :: "nat set \<Rightarrow> nat \<Rightarrow> nat \<Rightarrow> u64 \<Rightarrow> bool" where
  "view_free used p j tmp \<longleftrightarrow> j < 8 \<and> p < 64 * j + 64 \<and> (\<forall>b < 64. bit tmp b \<longleftrightarrow> p \<le> 64 * j + b \<and> 64 * j + b \<in> used) \<and> (\<forall>n. p \<le> n \<and> n < 64 * j \<longrightarrow> n \<notin> used)"

lemma in_word: "64 * j \<le> n \<Longrightarrow> n < 64 * j + 64 \<Longrightarrow> \<exists>b < 64. n = 64 * j + (b :: nat)"
  by (intro exI [of _ "n - 64 * j"]) simp

lemma bits_of_word: "j < length s \<Longrightarrow> b < 64 \<Longrightarrow> 64 * j + b \<in> bits_of s \<longleftrightarrow> bit (s ! j) b"
  by (simp add: bits_of_def)

lemma skip_allocated_ok:
  assumes "length s = 8" "view_used (bits_of s) q j tmp"
  shows "(skip_allocated s (j + 1) (64 * j) tmp = Inr None \<and> (\<forall>n. q \<le> n \<and> n < ZEND_MM_PAGES \<longrightarrow> n \<in> bits_of s)) \<or>
    (\<exists>j' tmp'. skip_allocated s (j + 1) (64 * j) tmp = Inr (Some (j' + 1, 64 * j', tmp')) \<and> tmp' \<noteq> -1 \<and> view_used (bits_of s) q j' tmp')"
  using assms(2)
proof (induction "8 - j" arbitrary: j tmp rule: less_induct)
  case less
  show ?case
  proof (cases "tmp = -1")
    case False
    then show ?thesis using less.prems by (subst skip_allocated.simps) auto
  next
    case True
    have j: "j < 8" "q \<le> 64 * j + 64" using less.prems by (simp_all add: view_used_def)
    have u: "n \<in> bits_of s" if n: "q \<le> n" "n < 64 * j + 64" for n
    proof (cases "n < 64 * j")
      case False
      then obtain b where b: "b < 64" "n = 64 * j + b" using in_word [of j n] n(2) by auto
      then have "bit tmp b" using True by (simp add: bit_simps)
      then show ?thesis using less.prems b n(1) by (auto simp: view_used_def)
    qed (use less.prems n in \<open>auto simp: view_used_def\<close>)
    show ?thesis
    proof (cases "j = 7")
      case True
      then show ?thesis using u \<open>tmp = -1\<close> by (subst skip_allocated.simps) (simp add: ZEND_MM_PAGES_def Let_def)
    next
      case False
      then have j7: "j + 1 < 8" using j by simp
      then have "view_used (bits_of s) q (j + 1) (s ! (j + 1))"
        using u j assms(1) bits_of_word [of "j + 1" s] unfolding view_used_def by (auto simp: add.assoc)
      from less.hyps [OF _ this] j7
      have IH: "(skip_allocated s (j + 1 + 1) (64 * (j + 1)) (s ! (j + 1)) = Inr None \<and> (\<forall>n. q \<le> n \<and> n < ZEND_MM_PAGES \<longrightarrow> n \<in> bits_of s)) \<or>
        (\<exists>j' tmp'. skip_allocated s (j + 1 + 1) (64 * (j + 1)) (s ! (j + 1)) = Inr (Some (j' + 1, 64 * j', tmp')) \<and> tmp' \<noteq> -1 \<and> view_used (bits_of s) q j' tmp')"
        by simp
      have "skip_allocated s (j + 1) (64 * j) tmp = skip_allocated s (j + 1 + 1) (64 * (j + 1)) (s ! (j + 1))"
        using \<open>tmp = -1\<close> j7 assms(1) by (subst skip_allocated.simps) (simp add: ZEND_MM_PAGES_def Let_def add.commute)
      with IH show ?thesis by simp
    qed
  qed
qed


text \<open>The pages from \<open>free_tail\<close> on are free.\<close>

definition tail_ok :: "nat set \<Rightarrow> nat \<Rightarrow> bool" where
  "tail_ok used free_tail \<longleftrightarrow> (\<forall>n. free_tail \<le> n \<and> n < ZEND_MM_PAGES \<longrightarrow> n \<notin> used)"

lemma skip_free_ok:
  assumes "length s = 8" "tail_ok (bits_of s) free_tail" "view_free (bits_of s) p j tmp"
  shows "(skip_free s free_tail (j + 1) (64 * j) tmp = Inr None \<and> (\<forall>n. p \<le> n \<and> n < ZEND_MM_PAGES \<longrightarrow> n \<notin> bits_of s)) \<or>
    (\<exists>j' tmp'. skip_free s free_tail (j + 1) (64 * j) tmp = Inr (Some (j' + 1, 64 * j', tmp')) \<and> tmp' \<noteq> 0 \<and> view_free (bits_of s) p j' tmp')"
  using assms(3)
proof (induction "8 - j" arbitrary: j tmp rule: less_induct)
  case less
  show ?case
  proof (cases "tmp = 0")
    case False
    then show ?thesis using less.prems by (subst skip_free.simps) auto
  next
    case True
    have j: "j < 8" "p < 64 * j + 64" using less.prems by (simp_all add: view_free_def)
    have u: "n \<notin> bits_of s" if n: "p \<le> n" "n < 64 * j + 64" for n
    proof (cases "n < 64 * j")
      case False
      then obtain b where b: "b < 64" "n = 64 * j + b" using in_word [of j n] n(2) by auto
      then have "\<not> bit tmp b" using True by simp
      then show ?thesis using less.prems b n(1) by (auto simp: view_free_def)
    qed (use less.prems n in \<open>auto simp: view_free_def\<close>)
    show ?thesis
    proof (cases "64 * j + 64 \<ge> free_tail \<or> 64 * j + 64 = ZEND_MM_PAGES")
      case True
      have "n \<notin> bits_of s" if "p \<le> n" "n < ZEND_MM_PAGES" for n
        using u [of n] that assms(2) True by (cases "n < 64 * j + 64") (auto simp: tail_ok_def)
      then show ?thesis using True \<open>tmp = 0\<close> by (subst skip_free.simps) (simp add: Let_def)
    next
      case False
      then have j7: "j + 1 < 8" using j by (simp add: ZEND_MM_PAGES_def)
      then have "view_free (bits_of s) p (j + 1) (s ! (j + 1))"
        using u j assms(1) bits_of_word [of "j + 1" s] unfolding view_free_def by (auto simp: add.assoc)
      from less.hyps [OF _ this] j7
      have IH: "(skip_free s free_tail (j + 1 + 1) (64 * (j + 1)) (s ! (j + 1)) = Inr None \<and> (\<forall>n. p \<le> n \<and> n < ZEND_MM_PAGES \<longrightarrow> n \<notin> bits_of s)) \<or>
        (\<exists>j' tmp'. skip_free s free_tail (j + 1 + 1) (64 * (j + 1)) (s ! (j + 1)) = Inr (Some (j' + 1, 64 * j', tmp')) \<and> tmp' \<noteq> 0 \<and> view_free (bits_of s) p j' tmp')"
        by simp
      have "skip_free s free_tail (j + 1) (64 * j) tmp = skip_free s free_tail (j + 1 + 1) (64 * (j + 1)) (s ! (j + 1))"
        using \<open>tmp = 0\<close> j7 assms(1) False by (subst skip_free.simps) (simp add: Let_def add.commute)
      with IH show ?thesis by simp
    qed
  qed
qed

text \<open>The first free page after \<open>q\<close>, and the first allocated page after \<open>p\<close>.\<close>

lemma find_free:
  assumes "view_used used q j tmp" "tmp \<noteq> -1"
  defines "p \<equiv> 64 * j + zend_mm_bitset_nts tmp"
  shows "q \<le> p" "p < ZEND_MM_PAGES" "p \<notin> used" "q \<le> n \<Longrightarrow> n < p \<Longrightarrow> n \<in> used" "view_free used p j (tmp AND (tmp + 1))"
proof -
  let ?b = "zend_mm_bitset_nts tmp"
  note l = nts_least [OF assms(2)]
  have v: "j < 8" "\<And>b. b < 64 \<Longrightarrow> bit tmp b \<longleftrightarrow> 64 * j + b < q \<or> 64 * j + b \<in> used" "\<And>n. q \<le> n \<Longrightarrow> n < 64 * j \<Longrightarrow> n \<in> used"
    using assms(1) by (auto simp: view_used_def)
  have "\<exists>b < 64. \<not> bit tmp b"
  proof (rule ccontr)
    assume "\<not> (\<exists>b < 64. \<not> bit tmp b)"
    then have "tmp = -1" by (intro bit_eqI) (simp add: bit_simps)
    then show False using assms(2) by simp
  qed
  then have b: "?b < 64" using l by (metis least_at_def le_less_trans not_le)
  have nb: "\<not> bit tmp ?b" using l by (simp add: least_at_def)
  show q: "q \<le> p" "p \<notin> used" using v(2) [OF b] nb by (auto simp: p_def)
  show "p < ZEND_MM_PAGES" using v(1) b by (simp add: p_def ZEND_MM_PAGES_def)
  show "q \<le> n \<Longrightarrow> n < p \<Longrightarrow> n \<in> used" for n
  proof (cases "n < 64 * j")
    case False
    assume n: "q \<le> n" "n < p"
    then obtain c where c: "c < 64" "n = 64 * j + c" using in_word [of j n] False b by (auto simp: p_def)
    then have "bit tmp c" using l n(2) by (simp add: least_at_def p_def)
    then show ?thesis using v(2) [OF c(1)] c(2) n(1) by simp
  qed (use v(3) in blast)
  show "view_free used p j (tmp AND (tmp + 1))"
    using v(1) b q clear_trailing_ones [OF l b] v(2) unfolding view_free_def by (auto simp: p_def)
qed

lemma find_used:
  assumes "view_free used p j tmp" "tmp \<noteq> 0" "p \<notin> used"
  defines "e \<equiv> 64 * j + zend_ulong_ntz tmp"
  shows "p < e" "e < ZEND_MM_PAGES" "e \<in> used" "p \<le> n \<Longrightarrow> n < e \<Longrightarrow> n \<notin> used" "view_used used e j (tmp OR (tmp - 1))"
proof -
  let ?b = "zend_ulong_ntz tmp"
  note l = ntz_least [OF assms(2)]
  have v: "j < 8" "\<And>b. b < 64 \<Longrightarrow> bit tmp b \<longleftrightarrow> p \<le> 64 * j + b \<and> 64 * j + b \<in> used" "\<And>n. p \<le> n \<Longrightarrow> n < 64 * j \<Longrightarrow> n \<notin> used"
    using assms(1) by (auto simp: view_free_def)
  have bb: "bit tmp ?b" using l by (simp add: least_at_def)
  then have b: "?b < 64" by (rule bit_bound)
  show e: "e \<in> used" "e < ZEND_MM_PAGES" using v(1) v(2) [OF b] bb b by (auto simp: e_def ZEND_MM_PAGES_def)
  have "p \<le> e" using v(2) [OF b] bb by (auto simp: e_def)
  then show p: "p < e" using e(1) assms(3) by (metis le_neq_implies_less)
  show free: "p \<le> n \<Longrightarrow> n < e \<Longrightarrow> n \<notin> used" for n
  proof (cases "n < 64 * j")
    case False
    assume n: "p \<le> n" "n < e"
    then obtain c where c: "c < 64" "n = 64 * j + c" using in_word [of j n] False b by (auto simp: e_def)
    then have "\<not> bit tmp c" using l n(2) by (simp add: least_at_def e_def)
    then show ?thesis using v(2) [OF c(1)] c(2) n(1) by simp
  qed (use v(3) in blast)
  have "bit (tmp OR (tmp - 1)) c \<longleftrightarrow> 64 * j + c < e \<or> 64 * j + c \<in> used" if "c < 64" for c
    using set_trailing_zeros [OF l b that] v(2) [OF that] p by (auto simp: e_def)
  then show "view_used used e j (tmp OR (tmp - 1))" using v(1) b by (auto simp: view_used_def e_def)
qed


text \<open>The best run among those that end at \<open>q\<close> or before.\<close>

definition best_ok :: "nat set \<Rightarrow> nat \<Rightarrow> nat \<Rightarrow> int \<Rightarrow> nat \<Rightarrow> bool" where
  "best_ok used pages_count q best best_len \<longleftrightarrow>
     (if best > 0
      then free_run used (nat best) best_len \<and> pages_count < best_len \<and> nat best + best_len \<le> q \<and>
        (\<forall>a l. free_run used a l \<and> a + l \<le> q \<and> pages_count \<le> l \<longrightarrow> best_len \<le> l)
      else best_len = ZEND_MM_PAGES \<and> (\<forall>a l. free_run used a l \<and> a + l \<le> q \<longrightarrow> l < pages_count))"

text \<open>What the search promises: a smallest run that is long enough, or that there is none; and a \<open>free_tail\<close> that is right after the allocation.\<close>

definition fit_ok :: "nat set \<Rightarrow> nat \<Rightarrow> nat option \<Rightarrow> nat \<Rightarrow> bool" where
  "fit_ok used pages_count r free_tail =
     (case r of
        None \<Rightarrow> (\<forall>a l. free_run used a l \<longrightarrow> l < pages_count) \<and> tail_ok used free_tail
      | Some a \<Rightarrow> (\<exists>l. free_run used a l \<and> pages_count \<le> l \<and> (\<forall>a' l'. free_run used a' l' \<and> pages_count \<le> l' \<longrightarrow> l \<le> l')) \<and>
          tail_ok (used \<union> in_range a pages_count) free_tail)"

lemma free_run_end: "free_run used a l \<Longrightarrow> a + l \<le> ZEND_MM_PAGES"
  by (simp add: free_run_def)

lemma free_run_short: "0 \<in> used \<Longrightarrow> free_run used a l \<Longrightarrow> 0 < a \<and> l < ZEND_MM_PAGES"
  by (cases "a = 0") (auto simp: free_run_def)

lemma best_fit_best:
  assumes "best_ok used pages_count q best best_len" "tail_ok used free_tail"
    "\<And>a l. free_run used a l \<Longrightarrow> a + l \<le> q \<or> \<not> (pages_count \<le> l \<and> l < best_len)" "best > 0 \<Longrightarrow> q \<le> free_tail" "0 \<in> used"
  shows "fit_ok used pages_count (best_page best) free_tail"
proof (cases "best > 0")
  case True
  have b: "free_run used (nat best) best_len" "pages_count < best_len" "nat best + best_len \<le> q"
    "\<And>a l. free_run used a l \<Longrightarrow> a + l \<le> q \<Longrightarrow> pages_count \<le> l \<Longrightarrow> best_len \<le> l" using assms(1) True by (auto simp: best_ok_def)
  have "best_len \<le> l" if "free_run used a l" "pages_count \<le> l" for a l
    using assms(3) [OF that(1)] b(4) [OF that(1)] that(2) by (meson not_le)
  moreover have "tail_ok (used \<union> in_range (nat best) pages_count) free_tail"
    using assms(2,4) True b(2,3) by (auto simp: tail_ok_def in_range_def)
  ultimately show ?thesis using True b(1,2) by (auto simp: fit_ok_def best_page_def intro: less_imp_le)
next
  case False
  then have b: "best_len = ZEND_MM_PAGES" "\<And>a l. free_run used a l \<Longrightarrow> a + l \<le> q \<Longrightarrow> l < pages_count" using assms(1) by (auto simp: best_ok_def)
  have "l < pages_count" if "free_run used a l" for a l
    using assms(3) [OF that] b(2) [OF that] free_run_short [OF assms(5) that] b(1) by (meson not_le)
  then show ?thesis using False assms(2) by (simp add: fit_ok_def best_page_def)
qed

lemma best_ok_before:
  assumes "best_ok used pages_count q best best_len" "free_run used a l" "a + l \<le> q" "pages_count \<le> l"
  shows "best_len \<le> l"
proof (cases "best > 0")
  case True
  then show ?thesis using assms unfolding best_ok_def by simp
next
  case False
  then have "l < pages_count" using assms unfolding best_ok_def by simp
  then show ?thesis using assms(4) by simp
qed

lemma best_ok_step:
  assumes "best_ok used pages_count q best best_len" "free_run used p (e - p)"
    "\<And>x l. free_run used x l \<Longrightarrow> x + l \<le> e \<Longrightarrow> x + l \<le> q \<or> x = p \<and> l = e - p"
    "0 < p \<and> q \<le> e \<and> p < e \<and> e - p < ZEND_MM_PAGES" "e - p \<noteq> pages_count"
    "(if pages_count \<le> e - p \<and> e - p < best_len then (int p, e - p) else (best, best_len)) = (best', best_len')"
  shows "best_ok used pages_count e best' best_len'"
proof (cases "pages_count \<le> e - p \<and> e - p < best_len")
  case True
  then have b': "best' = int p" "best_len' = e - p" using assms(6) by simp_all
  have "e - p \<le> l" if r: "free_run used x l" "x + l \<le> e" "pages_count \<le> l" for x l
  proof (cases "x + l \<le> q")
    case True
    then have "best_len \<le> l" using best_ok_before [OF assms(1) r(1) _ r(3)] by simp
    then show ?thesis using \<open>pages_count \<le> e - p \<and> e - p < best_len\<close> by simp
  next
    case False
    then show ?thesis using assms(3) [OF r(1,2)] by simp
  qed
  then show ?thesis using assms(2,4,5) True b' by (auto simp: best_ok_def)
next
  case False
  then have b': "best' = best" "best_len' = best_len" using assms(6) by (simp_all split: if_splits)
  show ?thesis
  proof (cases "best > 0")
    case True
    then have "best_len \<le> l" if "free_run used x l" "x + l \<le> e" "pages_count \<le> l" for x l
      using assms(1) assms(3) [OF that(1,2)] that False by (auto simp: best_ok_def)
    then show ?thesis using assms(1,4) True unfolding b' by (auto simp: best_ok_def)
  next
    case neg: False
    then have "l < pages_count" if "free_run used x l" "x + l \<le> e" for x l
      using assms(1,4) assms(3) [OF that] that False by (auto simp: best_ok_def)
    then show ?thesis using assms(1) neg unfolding b' by (auto simp: best_ok_def)
  qed
qed

lemma best_fit_loop_ok:
  assumes s: "length s = 8" "0 \<in> bits_of s" "tail_ok (bits_of s) free_tail" "0 < pages_count"
    and "view_used (bits_of s) q j tmp" "q \<in> bits_of s" "q < ZEND_MM_PAGES" "best_ok (bits_of s) pages_count q best best_len"
  shows "\<exists>r ft. best_fit_loop s pages_count free_tail best best_len (j + 1) (64 * j) tmp = Some (Inr (r, ft)) \<and> fit_ok (bits_of s) pages_count r ft"
  using assms(5-)
proof (induction "ZEND_MM_PAGES - q" arbitrary: q j tmp best best_len rule: less_induct)
  case less
  let ?u = "bits_of s"
  note unfold = best_fit_loop.simps [of s pages_count free_tail best best_len "j + 1" "64 * j" tmp]
  have ft: "q < free_tail" using s(3) less.prems(2,3) by (auto simp: tail_ok_def not_le [symmetric])
  from skip_allocated_ok [OF s(1) less.prems(1)] show ?case
  proof (elim disjE conjE exE)
    assume a: "skip_allocated s (j + 1) (64 * j) tmp = Inr None" "\<forall>n. q \<le> n \<and> n < ZEND_MM_PAGES \<longrightarrow> n \<in> ?u"
    have "x + l \<le> q" if r: "free_run ?u x l" for x l
    proof -
      have "x + l - 1 \<notin> ?u" "x + l - 1 < ZEND_MM_PAGES" using r by (auto simp: free_run_def)
      then have "\<not> q \<le> x + l - 1" using a(2) by blast
      then show ?thesis by simp
    qed
    then have "fit_ok ?u pages_count (best_page best) free_tail"
      using less.prems(4) s ft by (intro best_fit_best) auto
    then show ?thesis unfolding unfold a(1) by simp
  next
    fix j1 tmp1 assume a: "skip_allocated s (j + 1) (64 * j) tmp = Inr (Some (j1 + 1, 64 * j1, tmp1))" "tmp1 \<noteq> -1" "view_used ?u q j1 tmp1"
    define p where "p = 64 * j1 + zend_mm_bitset_nts tmp1"
    note p = find_free [OF a(3,2), folded p_def]
    from skip_free_ok [OF s(1,3) p(5)] show ?thesis
    proof (elim disjE conjE exE)
      assume f: "skip_free s free_tail (j1 + 1) (64 * j1) (tmp1 AND (tmp1 + 1)) = Inr None" "\<forall>n. p \<le> n \<and> n < ZEND_MM_PAGES \<longrightarrow> n \<notin> ?u"
      note run = next_run [OF less.prems(2) p(4) p(1,2)]
      have run: "free_run ?u p (ZEND_MM_PAGES - p)" "free_run ?u x l \<Longrightarrow> x + l \<le> q \<or> x = p \<and> l = ZEND_MM_PAGES - p" for x l
        using run(1) run(2) [of x l] f(2) free_run_end [of ?u x l] by auto
      show ?thesis
      proof (cases "pages_count \<le> ZEND_MM_PAGES - p \<and> ZEND_MM_PAGES - p < best_len")
        case True
        have "ZEND_MM_PAGES - p \<le> l" if r: "free_run ?u x l" "pages_count \<le> l" for x l
          using run(2) [OF r(1)] best_ok_before [OF less.prems(4) r(1) _ r(2)] True by auto
        moreover have "tail_ok (?u \<union> in_range p pages_count) (p + pages_count)"
          using f(2) by (auto simp: tail_ok_def in_range_def)
        ultimately have "fit_ok ?u pages_count (Some p) (p + pages_count)" using run(1) True by (auto simp: fit_ok_def)
        then show ?thesis using True unfolding unfold a(1) sum.case option.case prod.case Let_def p_def [symmetric] f(1) by simp
      next
        case False
        have "tail_ok ?u p" using f(2) by (simp add: tail_ok_def)
        then have "fit_ok ?u pages_count (best_page best) p"
          using less.prems(4) s(2) p(1) run(2) False by (intro best_fit_best) blast+
        then show ?thesis using False unfolding unfold a(1) sum.case option.case prod.case Let_def p_def [symmetric] f(1) by auto
      qed
    next
      fix j2 tmp2 assume f: "skip_free s free_tail (j1 + 1) (64 * j1) (tmp1 AND (tmp1 + 1)) = Inr (Some (j2 + 1, 64 * j2, tmp2))" "tmp2 \<noteq> 0" "view_free ?u p j2 tmp2"
      define e where "e = 64 * j2 + zend_ulong_ntz tmp2"
      note e = find_used [OF f(3,2) p(3), folded e_def]
      have run: "free_run ?u p (e - p)" "free_run ?u x l \<Longrightarrow> x + l \<le> e \<Longrightarrow> x + l \<le> q \<or> x = p \<and> l = e - p" for x l
        using next_run [OF less.prems(2) p(4) p(1) e(1) e(4)] e(2,3) by auto
      show ?thesis
      proof (cases "e - p = pages_count")
        case True
        have "e < free_tail" using s(3) e(2,3) by (auto simp: tail_ok_def not_le [symmetric])
        then have "tail_ok (?u \<union> in_range p pages_count) free_tail" using s(3) True e(1) by (auto simp: tail_ok_def in_range_def)
        then have "fit_ok ?u pages_count (Some p) free_tail" using run(1) True by (auto simp: fit_ok_def)
        then show ?thesis using True unfolding unfold a(1) sum.case option.case prod.case Let_def p_def [symmetric] f(1) e_def [symmetric] by simp
      next
        case False
        obtain best' best_len' where b': "(if pages_count \<le> e - p \<and> e - p < best_len then (int p, e - p) else (best, best_len)) = (best', best_len')" by fastforce
        have "best_ok ?u pages_count e best' best_len'" using best_ok_step [OF less.prems(4) run _ False b'] p(1) e(1) less.prems(2) s(2) free_run_short [OF s(2) run(1)] by simp
        moreover have "ZEND_MM_PAGES - e < ZEND_MM_PAGES - q" using e(1,2) p(1) by simp
        ultimately obtain r ft where "best_fit_loop s pages_count free_tail best' best_len' (j2 + 1) (64 * j2) (tmp2 OR (tmp2 - 1)) = Some (Inr (r, ft))"
          "fit_ok ?u pages_count r ft" using less.hyps e(2,3,5) by blast
        then show ?thesis using False unfolding unfold a(1) sum.case option.case prod.case Let_def p_def [symmetric] f(1) e_def [symmetric] b' by simp
      qed
    qed
  qed
qed


theorem best_fit_ok:
  assumes "length s = 8" "0 \<in> bits_of s" "tail_ok (bits_of s) free_tail" "0 < pages_count"
  shows "\<exists>r ft. best_fit s free_tail pages_count = Some (Inr (r, ft)) \<and> fit_ok (bits_of s) pages_count r ft"
proof -
  have "view_used (bits_of s) 0 0 (s ! 0)" using assms(1) bits_of_word [of 0 s] by (simp add: view_used_def)
  moreover have "best_ok (bits_of s) pages_count 0 (-1) ZEND_MM_PAGES" by (simp add: best_ok_def free_run_def)
  ultimately show ?thesis using best_fit_loop_ok [of s free_tail pages_count 0 0 "s ! 0" "-1" ZEND_MM_PAGES] assms
    by (simp add: best_fit_def ZEND_MM_PAGES_def)
qed


end
