(* ===== verification/Zend_Mm_Chunk.thy ===== *)
theory Zend_Mm_Chunk
  imports Zend_Mm_Search
begin

text \<open>
  Runs of pages in a chunk (\<^verbatim>\<open>Zend/zend_alloc.c\<close>): the header of a chunk, marking and freeing runs, the checks before a run is freed, and
  the invariant of the states that allocations and frees reach.
\<close>

section \<open>Page info\<close>

definition ZEND_MM_IS_LRUN :: u32 where "ZEND_MM_IS_LRUN = 0x40000000"
definition ZEND_MM_IS_SRUN :: u32 where "ZEND_MM_IS_SRUN = 0x80000000"

definition ZEND_MM_LRUN_PAGES :: "u32 \<Rightarrow> nat" where
  "ZEND_MM_LRUN_PAGES info = unat (info AND 0x000003ff)"

definition ZEND_MM_LRUN :: "nat \<Rightarrow> u32" where
  "ZEND_MM_LRUN n = ZEND_MM_IS_LRUN OR of_nat n"

definition ZEND_MM_PAGE_SIZE :: nat where "ZEND_MM_PAGE_SIZE = 4 * 1024"

text \<open>The members of a chunk header that describe its pages; the links between chunks and the heap are not part of it.\<close>

record zend_mm_chunk =
  free_pages :: nat
  free_tail :: nat
  free_map :: zend_bitset
  page_map :: "u32 list"

text \<open>A panic of the allocator, or an access outside the header.\<close>

datatype mm_error = Mm_Corrupted | Mm_Access

type_synonym 'a mm = "mm_error + 'a"

definition header :: "'a mem \<Rightarrow> 'a mm" where
  "header r = (case r of Inl e \<Rightarrow> Inl Mm_Access | Inr x \<Rightarrow> Inr x)"

definition set_page_info :: "zend_mm_chunk \<Rightarrow> nat \<Rightarrow> u32 \<Rightarrow> zend_mm_chunk mm" where
  "set_page_info chunk n info =
     (if n < length (page_map chunk) then Inr (chunk\<lparr>page_map := (page_map chunk)[n := info]\<rparr>) else Inl Mm_Access)"

section \<open>Chunks\<close>

definition zend_mm_chunk_init :: "zend_mm_chunk \<Rightarrow> zend_mm_chunk mm" where
  "zend_mm_chunk_init chunk =
     (let chunk = chunk\<lparr>free_pages := ZEND_MM_PAGES - ZEND_MM_FIRST_PAGE, free_tail := ZEND_MM_FIRST_PAGE\<rparr>
      in case word_set (free_map chunk) 0 (push_bit ZEND_MM_FIRST_PAGE 1 - 1) of
           Inl e \<Rightarrow> Inl Mm_Access
         | Inr m \<Rightarrow> set_page_info (chunk\<lparr>free_map := m\<rparr>) 0 (ZEND_MM_LRUN ZEND_MM_FIRST_PAGE))"

text \<open>The end of \<^verbatim>\<open>zend_mm_alloc_pages\<close> (label \<^verbatim>\<open>found\<close>): marking the run as allocated.\<close>

definition mark_run :: "zend_mm_chunk \<Rightarrow> nat \<Rightarrow> nat \<Rightarrow> zend_mm_chunk mm" where
  "mark_run chunk page_num pages_count =
     (let chunk = chunk\<lparr>free_pages := free_pages chunk - pages_count\<rparr>
      in case zend_mm_bitset_set_range (free_map chunk) page_num pages_count of
           Inl e \<Rightarrow> Inl Mm_Access
         | Inr m \<Rightarrow>
             (case set_page_info (chunk\<lparr>free_map := m\<rparr>) page_num (ZEND_MM_LRUN pages_count) of
                Inl e \<Rightarrow> Inl e
              | Inr chunk \<Rightarrow> Inr (if page_num = free_tail chunk then chunk\<lparr>free_tail := page_num + pages_count\<rparr> else chunk)))"

text \<open>One round of the loop over the chunks: \<open>None\<close> as the page is the jump to \<^verbatim>\<open>not_found\<close>.\<close>

definition chunk_alloc_pages :: "zend_mm_chunk \<Rightarrow> nat \<Rightarrow> (nat option \<times> zend_mm_chunk) mm option" where
  "chunk_alloc_pages chunk pages_count =
     (if free_pages chunk < pages_count then Some (Inr (None, chunk))
      else case best_fit (free_map chunk) (free_tail chunk) pages_count of
          None \<Rightarrow> None
        | Some (Inl e) \<Rightarrow> Some (Inl Mm_Access)
        | Some (Inr (None, ft)) \<Rightarrow> Some (Inr (None, chunk\<lparr>free_tail := ft\<rparr>))
        | Some (Inr (Some page_num, ft)) \<Rightarrow>
            Some (case mark_run (chunk\<lparr>free_tail := ft\<rparr>) page_num pages_count of Inl e \<Rightarrow> Inl e | Inr chunk \<Rightarrow> Inr (Some page_num, chunk)))"

definition zend_mm_free_pages_ex :: "zend_mm_chunk \<Rightarrow> nat \<Rightarrow> nat \<Rightarrow> zend_mm_chunk mm" where
  "zend_mm_free_pages_ex chunk page_num pages_count =
     (let chunk = chunk\<lparr>free_pages := free_pages chunk + pages_count\<rparr>
      in case zend_mm_bitset_reset_range (free_map chunk) page_num pages_count of
           Inl e \<Rightarrow> Inl Mm_Access
         | Inr m \<Rightarrow>
             (case set_page_info (chunk\<lparr>free_map := m\<rparr>) page_num 0 of
                Inl e \<Rightarrow> Inl e
              | Inr chunk \<Rightarrow> Inr (if free_tail chunk = page_num + pages_count then chunk\<lparr>free_tail := page_num\<rparr> else chunk)))"

text \<open>The branch of \<^verbatim>\<open>zend_mm_free_heap\<close> for large runs.\<close>

definition free_large_run :: "zend_mm_chunk \<Rightarrow> nat \<Rightarrow> zend_mm_chunk mm" where
  "free_large_run chunk page_offset =
     (let page_num = page_offset div ZEND_MM_PAGE_SIZE
      in if \<not> page_num < length (page_map chunk) then Inl Mm_Access
         else let info = page_map chunk ! page_num
           in if \<not> info AND ZEND_MM_IS_LRUN \<noteq> 0 then Inl Mm_Corrupted
              else let pages_count = ZEND_MM_LRUN_PAGES info
                in if \<not> page_offset mod ZEND_MM_PAGE_SIZE = 0 then Inl Mm_Corrupted
                   else zend_mm_free_pages_ex chunk page_num pages_count)"

text \<open>Allocations and frees on one chunk; the second component is the history: the runs that are allocated.\<close>

inductive chunk_reach :: "zend_mm_chunk \<Rightarrow> (nat \<rightharpoonup> nat) \<Rightarrow> bool" where
  init: "free_map fresh = replicate 8 0 \<Longrightarrow> page_map fresh = replicate 512 0 \<Longrightarrow> zend_mm_chunk_init fresh = Inr chunk \<Longrightarrow> chunk_reach chunk Map.empty"
| alloc: "chunk_reach chunk runs \<Longrightarrow> 0 < n \<Longrightarrow> chunk_alloc_pages chunk n = Some (Inr (Some p, chunk')) \<Longrightarrow> chunk_reach chunk' (runs(p \<mapsto> n))"
| full: "chunk_reach chunk runs \<Longrightarrow> 0 < n \<Longrightarrow> chunk_alloc_pages chunk n = Some (Inr (None, chunk')) \<Longrightarrow> chunk_reach chunk' runs"
| free: "chunk_reach chunk runs \<Longrightarrow> runs p = Some n \<Longrightarrow> free_large_run chunk (p * ZEND_MM_PAGE_SIZE) = Inr chunk' \<Longrightarrow> chunk_reach chunk' (runs(p := None))"

section \<open>The invariant\<close>

definition run_pages :: "(nat \<rightharpoonup> nat) \<Rightarrow> nat set" where
  "run_pages runs = {x. \<exists>p n. runs p = Some n \<and> x \<in> in_range p n}"

definition chunk_inv :: "zend_mm_chunk \<Rightarrow> (nat \<rightharpoonup> nat) \<Rightarrow> bool" where
  "chunk_inv chunk runs \<longleftrightarrow>
     length (free_map chunk) = 8 \<and> length (page_map chunk) = 512 \<and>
     (\<forall>p n. runs p = Some n \<longrightarrow> 0 < p \<and> 0 < n \<and> p + n \<le> ZEND_MM_PAGES) \<and>
     (\<forall>p n q m. runs p = Some n \<and> runs q = Some m \<and> p \<noteq> q \<longrightarrow> in_range p n \<inter> in_range q m = {}) \<and>
     bits_of (free_map chunk) = insert 0 (run_pages runs) \<and>
     free_pages chunk + card (bits_of (free_map chunk)) = ZEND_MM_PAGES \<and>
     tail_ok (bits_of (free_map chunk)) (free_tail chunk) \<and>
     (\<forall>p. 0 < p \<and> p < ZEND_MM_PAGES \<longrightarrow> page_map chunk ! p = (case runs p of None \<Rightarrow> 0 | Some n \<Rightarrow> ZEND_MM_LRUN n))"

lemma lrun_pages: "n < 1024 \<Longrightarrow> ZEND_MM_LRUN_PAGES (ZEND_MM_LRUN n) = n"
proof -
  assume n: "n < 1024"
  have m: "(0x3ff :: u32) = mask 10" by (simp add: mask_eq_exp_minus_1)
  have "ZEND_MM_LRUN n AND 0x3ff = take_bit 10 (of_nat n :: u32)"
    unfolding ZEND_MM_LRUN_def ZEND_MM_IS_LRUN_def m take_bit_eq_mask [symmetric] take_bit_or by (simp add: take_bit_eq_mod)
  moreover have "unat (take_bit 10 (of_nat n :: u32)) = n" unfolding take_bit_of_nat using n by (simp add: take_bit_eq_mod unat_of_nat)
  ultimately show ?thesis by (simp add: ZEND_MM_LRUN_PAGES_def)
qed

lemma lrun_flag: "n < 1024 \<Longrightarrow> ZEND_MM_LRUN n AND ZEND_MM_IS_LRUN \<noteq> 0" "0 AND ZEND_MM_IS_LRUN = 0"
proof -
  have "bit (ZEND_MM_LRUN n AND ZEND_MM_IS_LRUN) 30" by (simp add: ZEND_MM_LRUN_def ZEND_MM_IS_LRUN_def bit_and_iff bit_or_iff) 
  then show "ZEND_MM_LRUN n AND ZEND_MM_IS_LRUN \<noteq> 0" by auto
qed simp


lemma bits_bound: "n \<in> bits_of s \<Longrightarrow> length s = 8 \<Longrightarrow> n < ZEND_MM_PAGES"
  by (simp add: bits_of_def ZEND_MM_PAGES_def div_less_iff_less_mult)

lemma finite_bits [simp]: "length s = 8 \<Longrightarrow> finite (bits_of s)"
  using bits_bound [of _ s] by (meson finite_nat_set_iff_bounded)

lemma bits_of_first: "bits_of (1 # replicate 7 0) = {0}"
proof -
  have "bits_of ((replicate 8 0)[0 := 1 :: u64]) = {0}"
    by (subst bits_of_update) (auto simp: bits_of_def bit_1_iff)
  then show ?thesis by (simp add: numeral_eq_Suc)
qed

lemma chunk_init_inv:
  assumes "free_map fresh = replicate 8 0" "page_map fresh = replicate 512 0"
  shows "\<exists>chunk. zend_mm_chunk_init fresh = Inr chunk \<and> chunk_inv chunk Map.empty"
proof -
  have m: "(replicate 8 0)[0 := 1 :: u64] = 1 # replicate 7 0" by (simp add: numeral_eq_Suc)
  show ?thesis
    using assms bits_of_first
    by (auto simp: zend_mm_chunk_init_def set_page_info_def chunk_inv_def run_pages_def tail_ok_def ZEND_MM_FIRST_PAGE_def ZEND_MM_PAGES_def m word_set_def)
qed

lemma in_range_props:
  "in_range p n \<inter> A = {} \<Longrightarrow> finite A \<Longrightarrow> card (A \<union> in_range p n) = card A + n"
  by (subst card_Un_disjoint) (auto simp: in_range_def)

lemma run_pages_insert: "runs p = None \<Longrightarrow> run_pages (runs(p \<mapsto> n)) = run_pages runs \<union> in_range p n"
proof -
  assume "runs p = None"
  then have "(runs(p \<mapsto> n)) q = Some m \<longleftrightarrow> runs q = Some m \<or> q = p \<and> m = n" for q m by auto
  then show ?thesis unfolding run_pages_def by blast
qed

lemma run_in_pages: "runs q = Some m \<Longrightarrow> in_range q m \<subseteq> run_pages runs"
  unfolding run_pages_def by blast

lemma chunk_invD:
  assumes "chunk_inv chunk runs"
  shows "length (free_map chunk) = 8" "length (page_map chunk) = 512" "bits_of (free_map chunk) = insert 0 (run_pages runs)"
    "free_pages chunk + card (bits_of (free_map chunk)) = ZEND_MM_PAGES" "tail_ok (bits_of (free_map chunk)) (free_tail chunk)"
    "runs p = Some n \<Longrightarrow> 0 < p \<and> 0 < n \<and> p + n \<le> ZEND_MM_PAGES"
    "runs p = Some n \<Longrightarrow> runs q = Some m \<Longrightarrow> p \<noteq> q \<Longrightarrow> in_range p n \<inter> in_range q m = {}"
    "0 < p \<Longrightarrow> p < ZEND_MM_PAGES \<Longrightarrow> page_map chunk ! p = (case runs p of None \<Rightarrow> 0 | Some n \<Rightarrow> ZEND_MM_LRUN n)"
proof -
  note c = assms [unfolded chunk_inv_def]
  show "length (free_map chunk) = 8" "length (page_map chunk) = 512" "bits_of (free_map chunk) = insert 0 (run_pages runs)"
    "free_pages chunk + card (bits_of (free_map chunk)) = ZEND_MM_PAGES" "tail_ok (bits_of (free_map chunk)) (free_tail chunk)"
    using c by blast+
qed (use assms in \<open>simp_all add: chunk_inv_def\<close>)

lemma chunk_invI:
  assumes "length (free_map chunk) = 8" "length (page_map chunk) = 512" "bits_of (free_map chunk) = insert 0 (run_pages runs)"
    "free_pages chunk + card (bits_of (free_map chunk)) = ZEND_MM_PAGES" "tail_ok (bits_of (free_map chunk)) (free_tail chunk)"
    "\<And>p n. runs p = Some n \<Longrightarrow> 0 < p \<and> 0 < n \<and> p + n \<le> ZEND_MM_PAGES"
    "\<And>p n q m. runs p = Some n \<Longrightarrow> runs q = Some m \<Longrightarrow> p \<noteq> q \<Longrightarrow> in_range p n \<inter> in_range q m = {}"
    "\<And>p. 0 < p \<Longrightarrow> p < ZEND_MM_PAGES \<Longrightarrow> page_map chunk ! p = (case runs p of None \<Rightarrow> 0 | Some n \<Rightarrow> ZEND_MM_LRUN n)"
  shows "chunk_inv chunk runs"
  using assms unfolding chunk_inv_def by simp

lemma mark_run_ok:
  assumes inv: "chunk_inv chunk runs" and p: "0 < p" "0 < n" "p + n \<le> ZEND_MM_PAGES" and disj: "in_range p n \<inter> bits_of (free_map chunk) = {}"
    and tail: "tail_ok (bits_of (free_map chunk) \<union> in_range p n) ft"
  shows "\<exists>chunk'. mark_run (chunk\<lparr>free_tail := ft\<rparr>) p n = Inr chunk' \<and> chunk_inv chunk' (runs(p \<mapsto> n))"
proof -
  note inv' = chunk_invD [OF inv]
  have "(p + n - 1) div 64 < 8" using p by (simp add: ZEND_MM_PAGES_def div_less_iff_less_mult)
  then obtain m where m: "zend_mm_bitset_set_range (free_map chunk) p n = Inr m" "length m = 8" "bits_of m = bits_of (free_map chunk) \<union> in_range p n"
    using set_range_ok [of n p "free_map chunk"] p(2) inv'(1) by auto
  have new: "runs p = None"
  proof (cases "runs p")
    case (Some k)
    then have "p \<in> in_range p k" "p \<in> in_range p n" using inv'(6) [OF Some] p(2) by (simp_all add: in_range_def)
    then show ?thesis using run_in_pages [of runs, OF Some] disj inv'(3) by blast
  qed
  define c where "c = chunk\<lparr>free_tail := (if p = ft then p + n else ft), free_pages := free_pages chunk - n, free_map := m, page_map := (page_map chunk)[p := ZEND_MM_LRUN n]\<rparr>"
  have "mark_run (chunk\<lparr>free_tail := ft\<rparr>) p n = Inr c"
    using m(1) p inv'(2) by (simp add: mark_run_def set_page_info_def ZEND_MM_PAGES_def c_def)
  moreover have "chunk_inv c (runs(p \<mapsto> n))"
  proof (rule chunk_invI)
    have card: "card (bits_of m) = card (bits_of (free_map chunk)) + n" unfolding m(3) using disj inv'(1) by (intro in_range_props) auto
    have "card (bits_of m) \<le> ZEND_MM_PAGES" using bits_bound [OF _ m(2)] card_mono [of "{..<ZEND_MM_PAGES}" "bits_of m"] by auto
    then show "free_pages c + card (bits_of (free_map c)) = ZEND_MM_PAGES" using inv'(4) card by (simp add: c_def)
    show "bits_of (free_map c) = insert 0 (run_pages (runs(p \<mapsto> n)))" using m(3) inv'(3) run_pages_insert [of runs, OF new] by (simp add: c_def)
    show "tail_ok (bits_of (free_map c)) (free_tail c)" using tail m(3) by (auto simp: c_def tail_ok_def)
    have x: "in_range p n \<inter> in_range q i = {}" if "runs q = Some i" for q i using disj run_in_pages [of runs, OF that] inv'(3) by blast
    show "in_range a k \<inter> in_range b j = {}" if "(runs(p \<mapsto> n)) a = Some k" "(runs(p \<mapsto> n)) b = Some j" "a \<noteq> b" for a k b j
      using that x [of a k] x [of b j] inv'(7) [of a k b j] by (cases "a = p"; cases "b = p") auto
    show "0 < a \<and> 0 < k \<and> a + k \<le> ZEND_MM_PAGES" if "(runs(p \<mapsto> n)) a = Some k" for a k
      using that inv'(6) [of a k] p by (cases "a = p") auto
    show "page_map c ! q = (case (runs(p \<mapsto> n)) q of None \<Rightarrow> 0 | Some n \<Rightarrow> ZEND_MM_LRUN n)" if "0 < q" "q < ZEND_MM_PAGES" for q
      using inv'(8) [OF that] that inv'(2) by (cases "q = p") (auto simp: c_def ZEND_MM_PAGES_def)
  qed (use m(2) inv'(2) in \<open>simp_all add: c_def\<close>)
  ultimately show ?thesis by blast
qed

lemma chunk_tail_inv: "chunk_inv chunk runs \<Longrightarrow> tail_ok (bits_of (free_map chunk)) ft \<Longrightarrow> chunk_inv (chunk\<lparr>free_tail := ft\<rparr>) runs"
  unfolding chunk_inv_def by auto

lemma free_run_within:
  assumes "free_run used a l" "n \<le> l"
  shows "in_range a n \<inter> used = {}" "a + n \<le> ZEND_MM_PAGES"
  using assms unfolding free_run_def in_range_def by auto

text \<open>The number of free pages bounds the length of a run.\<close>

lemma free_run_count:
  assumes "chunk_inv chunk runs" "free_run (bits_of (free_map chunk)) a l"
  shows "l \<le> free_pages chunk"
proof -
  note inv' = chunk_invD [OF assms(1)]
  have "bits_of (free_map chunk) \<union> in_range a l \<subseteq> {..<ZEND_MM_PAGES}"
    using bits_bound [OF _ inv'(1)] free_run_within(2) [OF assms(2) order_refl] by (auto simp: in_range_def)
  then have "card (bits_of (free_map chunk) \<union> in_range a l) \<le> ZEND_MM_PAGES" using card_mono [of "{..<ZEND_MM_PAGES}"] by fastforce
  moreover have "card (bits_of (free_map chunk) \<union> in_range a l) = card (bits_of (free_map chunk)) + l"
    using free_run_within(1) [OF assms(2) order_refl] inv'(1) by (intro in_range_props) auto
  ultimately show ?thesis using inv'(4) by linarith
qed

lemma chunk_alloc_ok:
  assumes inv: "chunk_inv chunk runs" and n: "0 < n"
  shows "(\<exists>chunk'. chunk_alloc_pages chunk n = Some (Inr (None, chunk')) \<and> chunk_inv chunk' runs \<and>
      (\<forall>a l. free_run (bits_of (free_map chunk)) a l \<longrightarrow> l < n)) \<or>
    (\<exists>p l chunk'. chunk_alloc_pages chunk n = Some (Inr (Some p, chunk')) \<and> chunk_inv chunk' (runs(p \<mapsto> n)) \<and> runs p = None \<and>
      free_run (bits_of (free_map chunk)) p l \<and> n \<le> l \<and> (\<forall>a' l'. free_run (bits_of (free_map chunk)) a' l' \<and> n \<le> l' \<longrightarrow> l \<le> l'))"
proof (cases "free_pages chunk < n")
  case True
  then show ?thesis using inv free_run_count [OF inv] by (auto simp: chunk_alloc_pages_def intro: le_less_trans)
next
  case False
  note inv' = chunk_invD [OF inv]
  have z: "0 \<in> bits_of (free_map chunk)" using inv'(3) by simp
  obtain r ft where b: "best_fit (free_map chunk) (free_tail chunk) n = Some (Inr (r, ft))" "fit_ok (bits_of (free_map chunk)) n r ft"
    using best_fit_ok [OF inv'(1) z inv'(5) n] by blast
  show ?thesis
  proof (cases r)
    case None
    then have "chunk_inv (chunk\<lparr>free_tail := ft\<rparr>) runs" using b(2) by (intro chunk_tail_inv inv) (simp add: fit_ok_def)
    then show ?thesis using False None b by (simp add: chunk_alloc_pages_def fit_ok_def)
  next
    case (Some p)
    then obtain l where l: "free_run (bits_of (free_map chunk)) p l" "n \<le> l"
      "\<forall>a' l'. free_run (bits_of (free_map chunk)) a' l' \<and> n \<le> l' \<longrightarrow> l \<le> l'" "tail_ok (bits_of (free_map chunk) \<union> in_range p n) ft"
      using b(2) by (auto simp: fit_ok_def)
    note w = free_run_within [OF l(1,2)]
    have p: "0 < p" using free_run_short [OF z l(1)] by simp
    obtain chunk' where "mark_run (chunk\<lparr>free_tail := ft\<rparr>) p n = Inr chunk'" "chunk_inv chunk' (runs(p \<mapsto> n))"
      using mark_run_ok [OF inv p n w(2,1) l(4)] by blast
    moreover have "runs p = None"
    proof (cases "runs p")
      case (Some k)
      then have "p \<in> bits_of (free_map chunk)" using inv'(6) [OF Some] run_in_pages [of runs, OF Some] inv'(3) by (auto simp: in_range_def)
      moreover have "p \<in> in_range p n" using n by (simp add: in_range_def)
      ultimately show ?thesis using w(1) by blast
    qed
    ultimately show ?thesis using False Some b(1) l by (auto simp: chunk_alloc_pages_def)
  qed
qed


lemma run_pages_remove:
  assumes "chunk_inv chunk runs" "runs p = Some n"
  shows "run_pages (runs(p := None)) = run_pages runs - in_range p n"
proof -
  have "in_range q m \<inter> in_range p n = {}" if "runs q = Some m" "q \<noteq> p" for q m
    using chunk_invD(7) [OF assms(1) that(1) assms(2) that(2)] .
  moreover have "(runs(p := None)) q = Some m \<longleftrightarrow> runs q = Some m \<and> q \<noteq> p" for q m by auto
  ultimately show ?thesis using assms(2) unfolding run_pages_def by fastforce
qed

lemma free_large_ok:
  assumes inv: "chunk_inv chunk runs" and p: "runs p = Some n"
  shows "\<exists>chunk'. free_large_run chunk (p * ZEND_MM_PAGE_SIZE) = Inr chunk' \<and> chunk_inv chunk' (runs(p := None))"
proof -
  note inv' = chunk_invD [OF inv]
  have pn: "0 < p" "0 < n" "p + n \<le> ZEND_MM_PAGES" using inv'(6) [OF p] by auto
  have n: "n < 1024" "p < ZEND_MM_PAGES" using pn by (simp_all add: ZEND_MM_PAGES_def)
  have info: "page_map chunk ! p = ZEND_MM_LRUN n" using inv'(8) [OF pn(1) n(2)] p by simp
  have "(p + n - 1) div 64 < 8" using pn by (simp add: ZEND_MM_PAGES_def div_less_iff_less_mult)
  then obtain m where m: "zend_mm_bitset_reset_range (free_map chunk) p n = Inr m" "length m = 8" "bits_of m = bits_of (free_map chunk) - in_range p n"
    using reset_range_ok [of n p "free_map chunk"] pn(2) inv'(1) by auto
  define c where "c = chunk\<lparr>free_tail := (if free_tail chunk = p + n then p else free_tail chunk), free_pages := free_pages chunk + n,
    free_map := m, page_map := (page_map chunk)[p := 0]\<rparr>"
  have "free_large_run chunk (p * ZEND_MM_PAGE_SIZE) = Inr c"
    using m(1) n inv'(2) info lrun_flag(1) [OF n(1)] lrun_pages [OF n(1)]
    by (simp add: free_large_run_def zend_mm_free_pages_ex_def set_page_info_def ZEND_MM_PAGES_def ZEND_MM_PAGE_SIZE_def c_def)
  moreover have "chunk_inv c (runs(p := None))"
  proof (rule chunk_invI)
    have sub: "in_range p n \<subseteq> bits_of (free_map chunk)" using run_in_pages [of runs, OF p] inv'(3) by blast
    have "card (bits_of m) = card (bits_of (free_map chunk)) - card (in_range p n)" unfolding m(3) using sub inv'(1)
      by (intro card_Diff_subset) (auto simp: in_range_def)
    moreover have "card (in_range p n) = n" by (simp add: in_range_def)
    moreover have "card (in_range p n) \<le> card (bits_of (free_map chunk))" using sub inv'(1) by (intro card_mono) auto
    ultimately show "free_pages c + card (bits_of (free_map c)) = ZEND_MM_PAGES" using inv'(4) by (simp add: c_def)
    have "0 \<notin> in_range p n" using pn(1) by (simp add: in_range_def)
    then show "bits_of (free_map c) = insert 0 (run_pages (runs(p := None)))"
      using m(3) inv'(3) run_pages_remove [OF inv p] by (auto simp: c_def)
    show "tail_ok (bits_of (free_map c)) (free_tail c)"
      using inv'(5) m(3) by (auto simp: c_def tail_ok_def in_range_def) (meson not_le)
    show "in_range a k \<inter> in_range b j = {}" if "(runs(p := None)) a = Some k" "(runs(p := None)) b = Some j" "a \<noteq> b" for a k b j
      using that inv'(7) [of a k b j] by (cases "a = p"; cases "b = p") auto
    show "0 < a \<and> 0 < k \<and> a + k \<le> ZEND_MM_PAGES" if "(runs(p := None)) a = Some k" for a k
      using that inv'(6) [of a k] by (cases "a = p") auto
    show "page_map c ! q = (case (runs(p := None)) q of None \<Rightarrow> 0 | Some n \<Rightarrow> ZEND_MM_LRUN n)" if "0 < q" "q < ZEND_MM_PAGES" for q
      using inv'(8) [OF that] that inv'(2) by (cases "q = p") (auto simp: c_def ZEND_MM_PAGES_def)
  qed (use m(2) inv'(2) in \<open>simp_all add: c_def\<close>)
  ultimately show ?thesis by blast
qed

lemma free_large_rejects:
  assumes inv: "chunk_inv chunk runs" and p: "0 < page_offset div ZEND_MM_PAGE_SIZE" "page_offset div ZEND_MM_PAGE_SIZE < ZEND_MM_PAGES"
    and "page_offset mod ZEND_MM_PAGE_SIZE \<noteq> 0 \<or> runs (page_offset div ZEND_MM_PAGE_SIZE) = None"
  shows "free_large_run chunk page_offset = Inl Mm_Corrupted"
proof -
  note inv' = chunk_invD [OF inv]
  have l: "page_offset div ZEND_MM_PAGE_SIZE < length (page_map chunk)" using p(2) inv'(2) by (simp add: ZEND_MM_PAGES_def)
  show ?thesis
  proof (cases "runs (page_offset div ZEND_MM_PAGE_SIZE)")
    case None
    then have "page_map chunk ! (page_offset div ZEND_MM_PAGE_SIZE) = 0" using inv'(8) [OF p] by simp
    then show ?thesis using l by (simp add: free_large_run_def)
  next
    case (Some n)
    then have "page_offset mod ZEND_MM_PAGE_SIZE \<noteq> 0" using assms(4) by simp
    then show ?thesis using l by (simp add: free_large_run_def Let_def)
  qed
qed

lemma chunk_reach_inv: "chunk_reach chunk runs \<Longrightarrow> chunk_inv chunk runs"
proof (induction rule: chunk_reach.induct)
  case (init fresh chunk)
  then show ?case using chunk_init_inv [OF init(1,2)] by auto
next
  case (alloc chunk runs n p chunk')
  then show ?case using chunk_alloc_ok [OF alloc.IH alloc.hyps(2)] by (auto simp del: fun_upd_apply)
next
  case (full chunk runs n chunk')
  then show ?case using chunk_alloc_ok [OF full.IH full.hyps(2)] by auto
next
  case (free chunk runs p n chunk')
  then show ?case using free_large_ok [OF free.IH free.hyps(2)] by (auto simp del: fun_upd_apply)
qed


end
