(* ===== verification/Zend_Mm_Small.thy ===== *)
theory Zend_Mm_Small
  imports Zend_Mm_Chunk
begin

text \<open>
  Small blocks (\<^verbatim>\<open>Zend/zend_alloc.c\<close>, \<^verbatim>\<open>Zend/zend_alloc_sizes.h\<close>): the bin of a size, the free lists that run through the free slots with their
  encoded shadows, and the states that allocating and freeing the slots of a run reach.
\<close>

section \<open>Sizes of small blocks\<close>

definition ZEND_MM_BINS_INFO :: "(nat \<times> nat \<times> nat) list" where
  "ZEND_MM_BINS_INFO =
     [(8, 512, 1), (16, 256, 1), (24, 170, 1), (32, 128, 1), (40, 102, 1), (48, 85, 1), (56, 73, 1), (64, 64, 1), (80, 51, 1), (96, 42, 1),
      (112, 36, 1), (128, 32, 1), (160, 25, 1), (192, 21, 1), (224, 18, 1), (256, 16, 1), (320, 64, 5), (384, 32, 3), (448, 9, 1), (512, 8, 1),
      (640, 32, 5), (768, 16, 3), (896, 9, 2), (1024, 8, 2), (1280, 16, 5), (1536, 8, 3), (1792, 16, 7), (2048, 8, 4), (2560, 8, 5), (3072, 4, 3)]"

definition bin_data_size :: "nat list" where "bin_data_size = map fst ZEND_MM_BINS_INFO"
definition bin_elements :: "nat list" where "bin_elements = map (fst \<circ> snd) ZEND_MM_BINS_INFO"
definition bin_pages :: "nat list" where "bin_pages = map (snd \<circ> snd) ZEND_MM_BINS_INFO"

definition ZEND_MM_MAX_SMALL_SIZE :: nat where "ZEND_MM_MAX_SMALL_SIZE = 3072"
definition ZEND_MM_MIN_USEABLE_BIN_SIZE :: nat where "ZEND_MM_MIN_USEABLE_BIN_SIZE = 16"

definition zend_mm_small_size_to_bit :: "nat \<Rightarrow> nat" where
  "zend_mm_small_size_to_bit sz =
     (let n = 16;
        (n, sz) = (if sz \<le> 0x00ff then (n - 8, push_bit 8 sz) else (n, sz));
        (n, sz) = (if sz \<le> 0x0fff then (n - 4, push_bit 4 sz) else (n, sz));
        (n, sz) = (if sz \<le> 0x3fff then (n - 2, push_bit 2 sz) else (n, sz));
        n = (if sz \<le> 0x7fff then n - 1 else n)
      in n)"

definition zend_mm_small_size_to_bin :: "nat \<Rightarrow> nat" where
  "zend_mm_small_size_to_bin sz =
     (if sz \<le> 64 then drop_bit 3 (sz - (if sz \<noteq> 0 then 1 else 0))
      else let t1 = sz - 1; t2 = zend_mm_small_size_to_bit t1 - 3; t1 = drop_bit t2 t1; t2 = t2 - 3; t2 = push_bit 2 t2
        in t1 + t2)"

lemma size_to_bit_ok:
  assumes "2 ^ k \<le> t" "t < 2 ^ Suc k" "k \<in> {6, 7, 8, 9, 10, 11}"
  shows "zend_mm_small_size_to_bit t = Suc k"
  using assms by (auto simp: zend_mm_small_size_to_bit_def push_bit_eq_mult Let_def)

lemma size_to_bin_large:
  assumes "2 ^ k < sz" "sz \<le> 2 ^ Suc k" "k \<in> {6, 7, 8, 9, 10, 11}"
  shows "zend_mm_small_size_to_bin sz = (sz - 1) div 2 ^ (k - 2) + 4 * (k - 5)"
proof -
  have "zend_mm_small_size_to_bit (sz - 1) = Suc k" using assms by (intro size_to_bit_ok) auto
  moreover have "\<not> sz \<le> 64" using assms by auto
  ultimately show ?thesis using assms(3)
    by (auto simp: zend_mm_small_size_to_bin_def Let_def drop_bit_eq_div push_bit_eq_mult)
qed

lemma bin_sizes: "bin_data_size = [8, 16, 24, 32, 40, 48, 56, 64, 80, 96, 112, 128, 160, 192, 224, 256, 320, 384, 448, 512, 640, 768, 896, 1024,
  1280, 1536, 1792, 2048, 2560, 3072]"
  by (simp add: bin_data_size_def ZEND_MM_BINS_INFO_def)

text \<open>The bin of a size is the first one whose blocks are large enough.\<close>

definition bin_fits :: "nat \<Rightarrow> nat \<Rightarrow> bool" where
  "bin_fits sz b \<longleftrightarrow> b < length bin_data_size \<and> sz \<le> bin_data_size ! b \<and> (b = 0 \<or> bin_data_size ! (b - 1) < sz)"

lemma bin_fits_large:
  assumes "k \<in> {6, 7, 8, 9, 10, 11}" "2 ^ k < sz" "sz \<le> 2 ^ Suc k" "sz \<le> ZEND_MM_MAX_SMALL_SIZE"
  shows "bin_fits sz ((sz - 1) div 2 ^ (k - 2) + 4 * (k - 5))"
proof -
  define d where "d = (sz - 1) div 2 ^ (k - 2)"
  define w where "w = (2 :: nat) ^ (k - 2)"
  have "(sz - 1) mod w < w" by (simp add: w_def)
  moreover have "d * w + (sz - 1) mod w = sz - 1" unfolding d_def w_def by (rule div_mult_mod_eq)
  moreover have "0 < sz" using assms(2) by simp
  ultimately have "d * w < sz" "sz \<le> d * w + w" by linarith+
  then have d: "d * 2 ^ (k - 2) < sz" "sz \<le> d * 2 ^ (k - 2) + 2 ^ (k - 2)" by (simp_all add: w_def)
  have k: "(2 :: nat) ^ k = 4 * 2 ^ (k - 2)" "(2 :: nat) ^ Suc k = 8 * 2 ^ (k - 2)" using assms(1) by auto
  have "4 \<le> d" unfolding d_def using assms(2) k(1) by (simp add: less_eq_div_iff_mult_less_eq)
  moreover have "d < 8" unfolding d_def using assms(2,3) k(2) by (intro less_mult_imp_div_less) auto
  ultimately have "d = 4 \<or> d = 5 \<or> d = 6 \<or> d = 7" by linarith
  then show ?thesis unfolding d_def [symmetric] using assms d
    by (elim disjE insertE emptyE) (simp_all add: bin_fits_def bin_sizes ZEND_MM_MAX_SMALL_SIZE_def)
qed

lemma size_to_bin_ok:
  assumes "sz \<le> ZEND_MM_MAX_SMALL_SIZE"
  shows "bin_fits sz (zend_mm_small_size_to_bin sz)"
proof (cases "sz \<le> 64")
  case True
  define d where "d = (sz - (if sz \<noteq> 0 then 1 else 0)) div 8"
  have d: "d * 8 \<le> sz - (if sz \<noteq> 0 then 1 else 0)" "sz - (if sz \<noteq> 0 then 1 else 0) < d * 8 + 8" unfolding d_def by simp_all
  then have "d < 8" using True by (simp split: if_splits)
  then have "d = 0 \<or> d = 1 \<or> d = 2 \<or> d = 3 \<or> d = 4 \<or> d = 5 \<or> d = 6 \<or> d = 7" by linarith
  moreover have "zend_mm_small_size_to_bin sz = d" using True by (simp add: zend_mm_small_size_to_bin_def drop_bit_eq_div d_def)
  ultimately show ?thesis using d
    by (elim disjE) (auto simp: bin_fits_def bin_sizes split: if_splits)
next
  case False
  then have "\<exists>k \<in> {6, 7, 8, 9, 10, 11}. 2 ^ k < sz \<and> sz \<le> 2 ^ Suc k" using assms by (auto simp: ZEND_MM_MAX_SMALL_SIZE_def)
  then obtain k where "k \<in> {6, 7, 8, 9, 10, 11}" "2 ^ k < sz" "sz \<le> 2 ^ Suc k" by blast
  then show ?thesis using size_to_bin_large [of k sz] bin_fits_large [of k sz] assms by simp
qed

lemma bins_fill_pages:
  "list_all (\<lambda>(sz, n, pages). n * sz \<le> pages * ZEND_MM_PAGE_SIZE \<and> pages * ZEND_MM_PAGE_SIZE < (n + 1) * sz \<and> 4 \<le> n) ZEND_MM_BINS_INFO"
  by (simp add: ZEND_MM_BINS_INFO_def ZEND_MM_PAGE_SIZE_def)


section \<open>Free slots\<close>

definition ZEND_BYTES_SWAP64 :: "u64 \<Rightarrow> u64" where
  "ZEND_BYTES_SWAP64 u =
     drop_bit 56 (u AND 0xff00000000000000) OR drop_bit 40 (u AND 0x00ff000000000000) OR drop_bit 24 (u AND 0x0000ff0000000000) OR
     drop_bit 8 (u AND 0x000000ff00000000) OR push_bit 8 (u AND 0x00000000ff000000) OR push_bit 24 (u AND 0x0000000000ff0000) OR
     push_bit 40 (u AND 0x000000000000ff00) OR push_bit 56 (u AND 0x00000000000000ff)"

text \<open>The part of the heap that small blocks use, and the memory: the 8-byte word at an address.\<close>

record zend_mm_heap =
  shadow_key :: u64
  free_slot :: "u64 list"
  heap_size :: u64
  heap_peak :: u64
  memory :: "u64 \<Rightarrow> u64"

definition bin_size_word :: "nat \<Rightarrow> u64" where
  "bin_size_word bin_num = of_nat (bin_data_size ! bin_num)"

definition ZEND_MM_FREE_SLOT_PTR_SHADOW_ADDR :: "u64 \<Rightarrow> nat \<Rightarrow> u64" where
  "ZEND_MM_FREE_SLOT_PTR_SHADOW_ADDR slot bin_num = slot + bin_size_word bin_num - 8"

definition zend_mm_encode_free_slot :: "zend_mm_heap \<Rightarrow> u64 \<Rightarrow> u64 \<Rightarrow> u64" where
  "zend_mm_encode_free_slot heap holder nxt = ZEND_BYTES_SWAP64 nxt XOR shadow_key heap XOR holder"

definition zend_mm_decode_free_slot_key :: "u64 \<Rightarrow> u64 \<Rightarrow> u64 \<Rightarrow> u64" where
  "zend_mm_decode_free_slot_key key holder shadow = ZEND_BYTES_SWAP64 (shadow XOR key XOR holder)"

definition zend_mm_decode_free_slot :: "zend_mm_heap \<Rightarrow> u64 \<Rightarrow> u64 \<Rightarrow> u64" where
  "zend_mm_decode_free_slot heap holder shadow = zend_mm_decode_free_slot_key (shadow_key heap) holder shadow"

definition poke :: "u64 \<Rightarrow> u64 \<Rightarrow> zend_mm_heap \<Rightarrow> zend_mm_heap" where
  "poke a v heap = heap\<lparr>memory := (memory heap)(a := v)\<rparr>"

definition zend_mm_set_next_free_slot :: "zend_mm_heap \<Rightarrow> nat \<Rightarrow> u64 \<Rightarrow> u64 \<Rightarrow> zend_mm_heap" where
  "zend_mm_set_next_free_slot heap bin_num slot nxt =
     (let heap = poke slot nxt heap; shadow_addr = ZEND_MM_FREE_SLOT_PTR_SHADOW_ADDR slot bin_num
      in poke shadow_addr (zend_mm_encode_free_slot heap shadow_addr nxt) heap)"

definition zend_mm_get_next_free_slot :: "zend_mm_heap \<Rightarrow> nat \<Rightarrow> u64 \<Rightarrow> u64 mm" where
  "zend_mm_get_next_free_slot heap bin_num slot =
     (let nxt = memory heap slot
      in if nxt \<noteq> 0
         then let shadow_addr = ZEND_MM_FREE_SLOT_PTR_SHADOW_ADDR slot bin_num
           in if nxt \<noteq> zend_mm_decode_free_slot heap shadow_addr (memory heap shadow_addr) then Inl Mm_Corrupted else Inr nxt
         else Inr nxt)"

text \<open>The end of \<^verbatim>\<open>zend_mm_alloc_small_slow\<close>: linking the elements of a new run; \<open>None\<close> is a loop that does not end.\<close>

partial_function (option) link_slots :: "zend_mm_heap \<Rightarrow> nat \<Rightarrow> u64 \<Rightarrow> u64 \<Rightarrow> (u64 \<times> zend_mm_heap) option" where
  "link_slots heap bin_num p stop =
     (let heap = zend_mm_set_next_free_slot heap bin_num p (p + bin_size_word bin_num); p = p + bin_size_word bin_num
      in if p \<noteq> stop then link_slots heap bin_num p stop else Some (p, heap))"

definition init_bin :: "zend_mm_heap \<Rightarrow> nat \<Rightarrow> u64 \<Rightarrow> (u64 \<times> zend_mm_heap) option" where
  "init_bin heap bin_num bin =
     (let stop = bin + bin_size_word bin_num * of_nat (bin_elements ! bin_num - 1);
          p = bin + bin_size_word bin_num;
          heap = heap\<lparr>free_slot := (free_slot heap)[bin_num := p]\<rparr>
      in map_option (\<lambda>(p, heap). (bin, poke p 0 heap)) (link_slots heap bin_num p stop))"

text \<open>The result \<open>None\<close> is the call of \<^verbatim>\<open>zend_mm_alloc_small_slow\<close>.\<close>

definition zend_mm_alloc_small :: "zend_mm_heap \<Rightarrow> nat \<Rightarrow> (u64 option \<times> zend_mm_heap) mm" where
  "zend_mm_alloc_small heap bin_num =
     (let sz = heap_size heap + bin_size_word bin_num; peak = max (heap_peak heap) sz;
          heap = heap\<lparr>heap_size := sz, heap_peak := peak\<rparr>
      in if free_slot heap ! bin_num \<noteq> 0
         then let p = free_slot heap ! bin_num
           in (case zend_mm_get_next_free_slot heap bin_num p of
                 Inl e \<Rightarrow> Inl e
               | Inr nxt \<Rightarrow> Inr (Some p, heap\<lparr>free_slot := (free_slot heap)[bin_num := nxt]\<rparr>))
         else Inr (None, heap))"

definition zend_mm_free_small :: "zend_mm_heap \<Rightarrow> u64 \<Rightarrow> nat \<Rightarrow> zend_mm_heap mm" where
  "zend_mm_free_small heap p bin_num =
     (let heap = heap\<lparr>heap_size := heap_size heap - bin_size_word bin_num\<rparr>
      in if p = free_slot heap ! bin_num then Inl Mm_Corrupted
         else let heap = zend_mm_set_next_free_slot heap bin_num p (free_slot heap ! bin_num)
           in Inr (heap\<lparr>free_slot := (free_slot heap)[bin_num := p]\<rparr>))"

section \<open>Shadows\<close>

lemma byte_masks:
  "(0xff00000000000000 :: u64) = push_bit 56 (mask 8)" "(0x00ff000000000000 :: u64) = push_bit 48 (mask 8)"
  "(0x0000ff0000000000 :: u64) = push_bit 40 (mask 8)" "(0x000000ff00000000 :: u64) = push_bit 32 (mask 8)"
  "(0x00000000ff000000 :: u64) = push_bit 24 (mask 8)" "(0x0000000000ff0000 :: u64) = push_bit 16 (mask 8)"
  "(0x000000000000ff00 :: u64) = push_bit 8 (mask 8)" "(0x00000000000000ff :: u64) = mask 8"
  by (simp_all add: mask_eq_exp_minus_1 push_bit_eq_mult)

lemma bit_down: "bit (drop_bit a (u AND push_bit b (mask 8 :: u64))) k \<longleftrightarrow> b \<le> a + k \<and> a + k < b + 8 \<and> bit u (a + k)"
  using bit_bound [of u "a + k"] by (auto simp: bit_simps)

lemma bit_up: "bit (push_bit a (u AND push_bit b (mask 8 :: u64))) k \<longleftrightarrow> a + b \<le> k \<and> k < a + b + 8 \<and> k < 64 \<and> bit u (k - a)"
  using bit_bound [of u "k - a"] by (auto simp: bit_simps)

lemma bit_up_0: "bit (push_bit a (u AND (mask 8 :: u64))) k \<longleftrightarrow> a \<le> k \<and> k < a + 8 \<and> k < 64 \<and> bit u (k - a)"
  using bit_up [of a u 0 k] by simp

lemma bit_swap:
  "bit (ZEND_BYTES_SWAP64 u) k \<longleftrightarrow> k < 64 \<and> bit u (56 - 8 * (k div 8) + k mod 8)"
proof -
  have s: "bit (ZEND_BYTES_SWAP64 u) k \<longleftrightarrow>
    k < 8 \<and> bit u (56 + k) \<or> 8 \<le> k \<and> k < 16 \<and> bit u (40 + k) \<or> 16 \<le> k \<and> k < 24 \<and> bit u (24 + k) \<or> 24 \<le> k \<and> k < 32 \<and> bit u (8 + k) \<or>
    32 \<le> k \<and> k < 40 \<and> bit u (k - 8) \<or> 40 \<le> k \<and> k < 48 \<and> bit u (k - 24) \<or> 48 \<le> k \<and> k < 56 \<and> bit u (k - 40) \<or> 56 \<le> k \<and> k < 64 \<and> bit u (k - 56)"
    unfolding ZEND_BYTES_SWAP64_def byte_masks bit_or_iff bit_down bit_up bit_up_0 by (intro iffI; elim disjE conjE; simp)
  define q r where "q = k div 8" and "r = k mod 8"
  have k: "k = 8 * q + r" "r < 8" by (simp_all add: q_def r_def)
  show ?thesis
  proof (cases "q < 8")
    case True
    then have "q = 0 \<or> q = 1 \<or> q = 2 \<or> q = 3 \<or> q = 4 \<or> q = 5 \<or> q = 6 \<or> q = 7" by linarith
    then show ?thesis unfolding s unfolding q_def [symmetric] r_def [symmetric] unfolding k(1) using k(2) by (elim disjE) (simp_all add: add.commute)
  next
    case False
    then show ?thesis unfolding s using k by auto
  qed
qed

lemma swap_swap: "ZEND_BYTES_SWAP64 (ZEND_BYTES_SWAP64 u) = u"
proof (rule bit_eqI)
  fix k assume "possible_bit TYPE(64 word) k"
  then have k: "k < 64" by simp
  define q r where "q = k div 8" and "r = k mod 8"
  have e: "k = 8 * q + r" "r < 8" "q < 8" using k by (simp_all add: q_def r_def)
  then have j: "56 - 8 * q + r = 8 * (7 - q) + r" by simp
  have "(8 * (7 - q) + r) div 8 = 7 - q" "(8 * (7 - q) + r) mod 8 = r" using e(2) by simp_all
  moreover have "56 - 8 * (7 - q) + r = 8 * q + r" "8 * (7 - q) + r < 64" using e(2,3) by simp_all
  ultimately show "bit (ZEND_BYTES_SWAP64 (ZEND_BYTES_SWAP64 u)) k \<longleftrightarrow> bit u k"
    using e(1) k unfolding bit_swap q_def [symmetric] r_def [symmetric] j by simp
qed

lemma decode_encode: "zend_mm_decode_free_slot heap holder (zend_mm_encode_free_slot heap holder nxt) = nxt"
  by (simp add: zend_mm_decode_free_slot_def zend_mm_decode_free_slot_key_def zend_mm_encode_free_slot_def xor.assoc swap_swap)


section \<open>The slots of a run\<close>

definition run_ok :: "nat \<Rightarrow> u64 \<Rightarrow> bool" where
  "run_ok b base \<longleftrightarrow> 0 < b \<and> b < 30 \<and> base \<noteq> 0 \<and> unat base + bin_elements ! b * bin_data_size ! b < 2 ^ 64"

definition slot :: "nat \<Rightarrow> u64 \<Rightarrow> nat \<Rightarrow> u64" where
  "slot b base i = base + bin_size_word b * of_nat i"

abbreviation shadow_of :: "nat \<Rightarrow> u64 \<Rightarrow> u64" where
  "shadow_of b a \<equiv> ZEND_MM_FREE_SLOT_PTR_SHADOW_ADDR a b"

lemma length_bins: "length bin_data_size = 30" "length bin_elements = 30"
  by (simp_all add: bin_data_size_def bin_elements_def ZEND_MM_BINS_INFO_def)

lemma bin_bounds:
  assumes "0 < b" "b < 30"
  shows "16 \<le> bin_data_size ! b" "bin_data_size ! b \<le> 3072" "4 \<le> bin_elements ! b"
proof -
  have "list_all (\<lambda>s. 16 \<le> s \<and> s \<le> 3072) (tl bin_data_size)" "list_all (\<lambda>n. 4 \<le> n) bin_elements"
    by (simp_all add: bin_data_size_def bin_elements_def ZEND_MM_BINS_INFO_def)
  moreover have "bin_data_size ! b = tl bin_data_size ! (b - 1)" using assms length_bins by (simp add: nth_tl)
  ultimately show "16 \<le> bin_data_size ! b" "bin_data_size ! b \<le> 3072" "4 \<le> bin_elements ! b"
    using assms length_bins by (simp_all add: list_all_length)
qed

lemma unat_slot:
  assumes "run_ok b base" "i \<le> bin_elements ! b"
  shows "unat (slot b base i) = unat base + bin_data_size ! b * i"
proof -
  have "bin_data_size ! b * i \<le> bin_elements ! b * bin_data_size ! b" using assms(2) by simp
  then have "unat base + bin_data_size ! b * i < 2 ^ 64" using assms(1) unfolding run_ok_def by linarith
  moreover have "slot b base i = of_nat (unat base + bin_data_size ! b * i)" by (simp add: slot_def bin_size_word_def)
  ultimately show ?thesis by (simp only: unat_of_nat) simp
qed

lemma unat_shadow:
  assumes "run_ok b base" "i < bin_elements ! b"
  shows "unat (shadow_of b (slot b base i)) + 8 = unat base + bin_data_size ! b * Suc i"
proof -
  have e: "shadow_of b (slot b base i) = slot b base (Suc i) - 8"
    by (simp add: ZEND_MM_FREE_SLOT_PTR_SHADOW_ADDR_def slot_def algebra_simps)
  have u: "unat (slot b base (Suc i)) = unat base + bin_data_size ! b * Suc i" using unat_slot [of b base "Suc i"] assms by simp
  have "16 \<le> bin_data_size ! b * Suc i" using bin_bounds(1) [of b] assms(1) by (simp add: run_ok_def)
  then have "(8 :: u64) \<le> slot b base (Suc i)" unfolding word_le_nat_alt u by simp
  then have "unat (slot b base (Suc i) - 8) = unat (slot b base (Suc i)) - unat (8 :: u64)" by (rule unat_sub)
  then show ?thesis unfolding e using u \<open>16 \<le> bin_data_size ! b * Suc i\<close> by simp
qed

text \<open>The two words of a slot are distinct from those of every other slot.\<close>

lemma mult_separate: "16 \<le> (s :: nat) \<Longrightarrow> s * i + 8 \<noteq> s * Suc j"
proof
  assume s: "16 \<le> s" "s * i + 8 = s * Suc j"
  show False
  proof (cases "i \<le> j")
    case True
    then have "s * i \<le> s * j" by (rule mult_le_mono2)
    then show False using s unfolding mult_Suc_right by linarith
  next
    case False
    then have "s * Suc j \<le> s * i" by (intro mult_le_mono2) simp
    then show False using s by linarith
  qed
qed

lemma slots_separate:
  assumes r: "run_ok b base" and i: "i < bin_elements ! b" and j: "j < bin_elements ! b"
  shows "slot b base i = slot b base j \<longleftrightarrow> i = j" "shadow_of b (slot b base i) = shadow_of b (slot b base j) \<longleftrightarrow> i = j"
    "slot b base i \<noteq> shadow_of b (slot b base j)" "slot b base i \<noteq> 0"
proof -
  have s: "16 \<le> bin_data_size ! b" using bin_bounds(1) [of b] r by (simp add: run_ok_def)
  have u: "unat (slot b base i) = unat base + bin_data_size ! b * i" "unat (slot b base j) = unat base + bin_data_size ! b * j"
    using unat_slot [OF r, of i] unat_slot [OF r, of j] i j by simp_all
  have v: "unat (shadow_of b (slot b base i)) + 8 = unat base + bin_data_size ! b * Suc i"
    "unat (shadow_of b (slot b base j)) + 8 = unat base + bin_data_size ! b * Suc j"
    using unat_shadow [OF r i] unat_shadow [OF r j] .
  have "i = j" if "slot b base i = slot b base j"
  proof -
    have "bin_data_size ! b * i = bin_data_size ! b * j" using u that by (metis add_left_cancel)
    then show ?thesis using s by (simp only: mult_cancel1) auto
  qed
  then show "slot b base i = slot b base j \<longleftrightarrow> i = j" by auto
  have "i = j" if "shadow_of b (slot b base i) = shadow_of b (slot b base j)"
  proof -
    have "bin_data_size ! b * Suc i = bin_data_size ! b * Suc j" using v that by (metis add_left_cancel)
    then show ?thesis using s by (simp only: mult_cancel1) auto
  qed
  then show "shadow_of b (slot b base i) = shadow_of b (slot b base j) \<longleftrightarrow> i = j" by auto
  show "slot b base i \<noteq> shadow_of b (slot b base j)"
  proof
    assume "slot b base i = shadow_of b (slot b base j)"
    then have "bin_data_size ! b * i + 8 = bin_data_size ! b * Suc j" using u(1) v(2) by simp
    then show False using mult_separate [OF s] by blast
  qed
  have "0 < unat base" using r by (simp add: run_ok_def unat_gt_0)
  then show "slot b base i \<noteq> 0" using u(1) by auto
qed

section \<open>Free lists\<close>

fun slot_list :: "zend_mm_heap \<Rightarrow> nat \<Rightarrow> u64 \<Rightarrow> u64 list \<Rightarrow> bool" where
  "slot_list heap b p [] \<longleftrightarrow> p = 0"
| "slot_list heap b p (a # as) \<longleftrightarrow> p = a \<and> a \<noteq> 0 \<and> (\<exists>nxt. zend_mm_get_next_free_slot heap b a = Inr nxt \<and> slot_list heap b nxt as)"

lemma get_next_cong:
  "shadow_key h' = shadow_key h \<Longrightarrow> memory h' a = memory h a \<Longrightarrow> memory h' (shadow_of b a) = memory h (shadow_of b a) \<Longrightarrow>
    zend_mm_get_next_free_slot h' b a = zend_mm_get_next_free_slot h b a"
  by (simp add: zend_mm_get_next_free_slot_def zend_mm_decode_free_slot_def Let_def)

lemma slot_list_cong:
  assumes "shadow_key h' = shadow_key h" "\<And>a. a \<in> set as \<Longrightarrow> memory h' a = memory h a \<and> memory h' (shadow_of b a) = memory h (shadow_of b a)"
  shows "slot_list h' b p as \<longleftrightarrow> slot_list h b p as"
  using assms(2)
proof (induction as arbitrary: p)
  case (Cons a as)
  have "zend_mm_get_next_free_slot h' b a = zend_mm_get_next_free_slot h b a" using Cons.prems assms(1) by (intro get_next_cong) auto
  then show ?case using Cons by auto
qed simp

lemma set_next_memory:
  "memory (zend_mm_set_next_free_slot h b p nxt) a =
    (if a = shadow_of b p then zend_mm_encode_free_slot h (shadow_of b p) nxt else if a = p then nxt else memory h a)"
  by (simp add: zend_mm_set_next_free_slot_def poke_def Let_def zend_mm_encode_free_slot_def)

lemma set_next_fields [simp]:
  "shadow_key (zend_mm_set_next_free_slot h b p nxt) = shadow_key h" "free_slot (zend_mm_set_next_free_slot h b p nxt) = free_slot h"
  "heap_size (zend_mm_set_next_free_slot h b p nxt) = heap_size h" "heap_peak (zend_mm_set_next_free_slot h b p nxt) = heap_peak h"
  by (simp_all add: zend_mm_set_next_free_slot_def poke_def Let_def)

lemma get_set_next: "p \<noteq> shadow_of b p \<Longrightarrow> zend_mm_get_next_free_slot (zend_mm_set_next_free_slot h b p nxt) b p = Inr nxt"
proof -
  assume p: "p \<noteq> shadow_of b p"
  have "zend_mm_decode_free_slot (zend_mm_set_next_free_slot h b p nxt) (shadow_of b p) (zend_mm_encode_free_slot h (shadow_of b p) nxt) = nxt"
    using decode_encode [of h "shadow_of b p" nxt] by (simp add: zend_mm_decode_free_slot_def)
  then show ?thesis using p by (simp add: zend_mm_get_next_free_slot_def set_next_memory Let_def)
qed


text \<open>A bin whose slots all come from one run: the free ones in the order of the list, the allocated ones as a set.\<close>

definition bin_state :: "zend_mm_heap \<Rightarrow> nat \<Rightarrow> u64 \<Rightarrow> nat list \<Rightarrow> nat set \<Rightarrow> bool" where
  "bin_state heap b base fs used \<longleftrightarrow>
     length (free_slot heap) = 30 \<and> slot_list heap b (free_slot heap ! b) (map (slot b base) fs) \<and>
     distinct fs \<and> set fs \<inter> used = {} \<and> set fs \<union> used = {..<bin_elements ! b}"

lemma write_slot_frame:
  assumes r: "run_ok b base" and i: "i < bin_elements ! b" and fs: "set fs \<subseteq> {..<bin_elements ! b}" "i \<notin> set fs"
    and h': "shadow_key h' = shadow_key h" "\<And>a. a \<noteq> slot b base i \<Longrightarrow> a \<noteq> shadow_of b (slot b base i) \<Longrightarrow> memory h' a = memory h a"
  shows "slot_list h' b p (map (slot b base) fs) \<longleftrightarrow> slot_list h b p (map (slot b base) fs)"
proof (rule slot_list_cong [OF h'(1)])
  fix a assume "a \<in> set (map (slot b base) fs)"
  then obtain j where j: "a = slot b base j" "j < bin_elements ! b" "j \<noteq> i" using fs by auto
  note s = slots_separate [OF r j(2) i] slots_separate [OF r i j(2)]
  show "memory h' a = memory h a \<and> memory h' (shadow_of b a) = memory h (shadow_of b a)"
    using s j h'(2) [of a] h'(2) [of "shadow_of b a"] by auto
qed

lemma alloc_small_ok:
  assumes r: "run_ok b base" and st: "bin_state heap b base (i # fs) used"
  shows "\<exists>heap'. zend_mm_alloc_small heap b = Inr (Some (slot b base i), heap') \<and> bin_state heap' b base fs (insert i used)"
proof -
  have b: "b < 30" using r by (simp add: run_ok_def)
  have f: "free_slot heap ! b = slot b base i" "slot b base i \<noteq> 0" "length (free_slot heap) = 30" using st by (auto simp: bin_state_def)
  obtain nxt where n: "zend_mm_get_next_free_slot heap b (slot b base i) = Inr nxt" "slot_list heap b nxt (map (slot b base) fs)"
    using st by (auto simp: bin_state_def)
  define h1 where "h1 = heap\<lparr>heap_size := heap_size heap + bin_size_word b, heap_peak := max (heap_peak heap) (heap_size heap + bin_size_word b)\<rparr>"
  have "zend_mm_get_next_free_slot h1 b (slot b base i) = Inr nxt" using n(1) get_next_cong [of h1 heap "slot b base i" b] by (simp add: h1_def)
  then have "zend_mm_alloc_small heap b = Inr (Some (slot b base i), h1\<lparr>free_slot := (free_slot h1)[b := nxt]\<rparr>)"
    using f unfolding zend_mm_alloc_small_def Let_def h1_def [symmetric] by (simp add: h1_def)
  moreover have "bin_state (h1\<lparr>free_slot := (free_slot h1)[b := nxt]\<rparr>) b base fs (insert i used)"
    using st f(3) n(2) b slot_list_cong [of "h1\<lparr>free_slot := (free_slot h1)[b := nxt]\<rparr>" heap "map (slot b base) fs" b nxt]
    by (auto simp: bin_state_def h1_def)
  ultimately show ?thesis by blast
qed

lemma alloc_small_empty:
  "bin_state heap b base [] used \<Longrightarrow> \<exists>heap'. zend_mm_alloc_small heap b = Inr (None, heap')"
  by (simp add: bin_state_def zend_mm_alloc_small_def Let_def)

lemma free_small_ok:
  assumes r: "run_ok b base" and st: "bin_state heap b base fs used" and i: "i \<in> used"
  shows "\<exists>heap'. zend_mm_free_small heap (slot b base i) b = Inr heap' \<and> bin_state heap' b base (i # fs) (used - {i})"
proof -
  have b: "b < 30" using r by (simp add: run_ok_def)
  have l: "length (free_slot heap) = 30" "i < bin_elements ! b" "i \<notin> set fs" "set fs \<subseteq> {..<bin_elements ! b}"
    and sl: "slot_list heap b (free_slot heap ! b) (map (slot b base) fs)" using st i by (auto simp: bin_state_def)
  note own = slots_separate [OF r l(2,2)]
  have head: "slot b base i \<noteq> free_slot heap ! b"
  proof (cases fs)
    case Nil
    then show ?thesis using sl own(4) by simp
  next
    case (Cons j js)
    then have "free_slot heap ! b = slot b base j" "j < bin_elements ! b" "j \<noteq> i" using sl l by auto
    then show ?thesis using slots_separate(1) [OF r l(2), of j] by auto
  qed
  define h1 where "h1 = heap\<lparr>heap_size := heap_size heap - bin_size_word b\<rparr>"
  define h2 where "h2 = zend_mm_set_next_free_slot h1 b (slot b base i) (free_slot heap ! b)"
  define h3 where "h3 = h2\<lparr>free_slot := (free_slot h2)[b := slot b base i]\<rparr>"
  have "zend_mm_free_small heap (slot b base i) b = Inr h3"
    using head by (simp add: zend_mm_free_small_def Let_def h3_def h2_def h1_def)
  moreover have "bin_state h3 b base (i # fs) (used - {i})"
  proof -
    have f3: "free_slot h3 = (free_slot heap)[b := slot b base i]" "shadow_key h3 = shadow_key heap" by (simp_all add: h3_def h2_def h1_def)
    have m3: "memory h3 a = memory heap a" if "a \<noteq> slot b base i" "a \<noteq> shadow_of b (slot b base i)" for a
      using that by (simp add: h3_def h2_def h1_def set_next_memory)
    have "zend_mm_get_next_free_slot h3 b (slot b base i) = zend_mm_get_next_free_slot h2 b (slot b base i)"
      by (rule get_next_cong) (simp_all add: h3_def)
    also have "\<dots> = Inr (free_slot heap ! b)" unfolding h2_def using own(3) by (rule get_set_next)
    finally have g: "zend_mm_get_next_free_slot h3 b (slot b base i) = Inr (free_slot heap ! b)" .
    have "slot_list h3 b (free_slot heap ! b) (map (slot b base) fs)"
      using write_slot_frame [OF r l(2) l(4,3) f3(2) m3] sl by simp
    then show ?thesis using g own(4) st i b l(1) f3(1) by (auto simp: bin_state_def)
  qed
  ultimately show ?thesis by blast
qed

text \<open>Overwriting the link of a free slot is detected when the slot is allocated.\<close>

lemma corruption_detected:
  assumes r: "run_ok b base" and st: "bin_state heap b base (i # j # fs) used" and v: "v \<noteq> 0" "v \<noteq> slot b base j"
  shows "zend_mm_alloc_small (poke (slot b base i) v heap) b = Inl Mm_Corrupted"
proof -
  have l: "i < bin_elements ! b" "j < bin_elements ! b" using st by (auto simp: bin_state_def)
  note own = slots_separate [OF r l(1,1)] slots_separate [OF r l(2,2)]
  obtain nxt where "zend_mm_get_next_free_slot heap b (slot b base i) = Inr nxt" "nxt = slot b base j" "free_slot heap ! b = slot b base i"
    using st by (auto simp: bin_state_def)
  then have "zend_mm_decode_free_slot heap (shadow_of b (slot b base i)) (memory heap (shadow_of b (slot b base i))) = slot b base j"
    using own(8) by (simp add: zend_mm_get_next_free_slot_def Let_def split: if_splits)
  moreover have "shadow_of b (slot b base i) \<noteq> slot b base i" using own(3) by metis
  ultimately show ?thesis using v own(4) \<open>free_slot heap ! b = slot b base i\<close>
    by (simp add: zend_mm_alloc_small_def zend_mm_get_next_free_slot_def poke_def Let_def zend_mm_decode_free_slot_def)
qed

section \<open>A new run\<close>

lemma slot_next: "slot b base i + bin_size_word b = slot b base (Suc i)"
  by (simp add: slot_def algebra_simps)

lemma link_slots_ok:
  assumes r: "run_ok b base" and "i < n" "n < bin_elements ! b"
  shows "\<exists>h'. link_slots h b (slot b base i) (slot b base n) = Some (slot b base n, h') \<and> shadow_key h' = shadow_key h \<and> free_slot h' = free_slot h \<and>
    (\<forall>k. i \<le> k \<and> k < n \<longrightarrow> zend_mm_get_next_free_slot h' b (slot b base k) = Inr (slot b base (Suc k))) \<and>
    (\<forall>a. (\<forall>k. i \<le> k \<and> k < n \<longrightarrow> a \<noteq> slot b base k \<and> a \<noteq> shadow_of b (slot b base k)) \<longrightarrow> memory h' a = memory h a)"
  using assms(2)
proof (induction "n - i" arbitrary: i h)
  case (Suc d)
  let ?h1 = "zend_mm_set_next_free_slot h b (slot b base i) (slot b base (Suc i))"
  have i: "i < bin_elements ! b" "Suc i < bin_elements ! b" using Suc.prems assms(3) by simp_all
  note own = slots_separate [OF r i(1,1)]
  have g1: "zend_mm_get_next_free_slot ?h1 b (slot b base i) = Inr (slot b base (Suc i))" using own(3) by (rule get_set_next)
  have e: "link_slots h b (slot b base i) (slot b base n) =
      (if Suc i \<noteq> n then link_slots ?h1 b (slot b base (Suc i)) (slot b base n) else Some (slot b base (Suc i), ?h1))"
    using slots_separate(1) [OF r i(2) assms(3)] by (subst link_slots.simps) (simp add: slot_next Let_def)
  show ?case
  proof (cases "Suc i = n")
    case True
    have "zend_mm_get_next_free_slot ?h1 b (slot b base k) = Inr (slot b base (Suc k))" if "i \<le> k \<and> k < n" for k
    proof -
      have "k = i" using that True by simp
      then show ?thesis using g1 by simp
    qed
    then show ?thesis unfolding e using True by (auto simp: set_next_memory)
  next
    case False
    then have d: "d = n - Suc i" "Suc i < n" using Suc.hyps(2) Suc.prems by simp_all
    from Suc.hyps(1) [OF d, of ?h1] obtain h' where h'': "link_slots ?h1 b (slot b base (Suc i)) (slot b base n) = Some (slot b base n, h')"
      "shadow_key h' = shadow_key ?h1" "free_slot h' = free_slot ?h1"
      "\<forall>k. Suc i \<le> k \<and> k < n \<longrightarrow> zend_mm_get_next_free_slot h' b (slot b base k) = Inr (slot b base (Suc k))"
      "\<forall>a. (\<forall>k. Suc i \<le> k \<and> k < n \<longrightarrow> a \<noteq> slot b base k \<and> a \<noteq> shadow_of b (slot b base k)) \<longrightarrow> memory h' a = memory ?h1 a"
      by blast
    have h': "link_slots ?h1 b (slot b base (Suc i)) (slot b base n) = Some (slot b base n, h')" "shadow_key h' = shadow_key h" "free_slot h' = free_slot h"
      "\<And>k. Suc i \<le> k \<Longrightarrow> k < n \<Longrightarrow> zend_mm_get_next_free_slot h' b (slot b base k) = Inr (slot b base (Suc k))"
      "\<And>a. (\<And>k. Suc i \<le> k \<Longrightarrow> k < n \<Longrightarrow> a \<noteq> slot b base k \<and> a \<noteq> shadow_of b (slot b base k)) \<Longrightarrow> memory h' a = memory ?h1 a"
      using h'' by simp_all
    have other: "slot b base i \<noteq> slot b base k \<and> slot b base i \<noteq> shadow_of b (slot b base k)"
        "shadow_of b (slot b base i) \<noteq> slot b base k \<and> shadow_of b (slot b base i) \<noteq> shadow_of b (slot b base k)"
      if "Suc i \<le> k" "k < n" for k
    proof -
      have k: "k < bin_elements ! b" "i \<noteq> k" using that assms(3) by simp_all
      note s1 = slots_separate [OF r i(1) k(1)] and s2 = slots_separate(3) [OF r k(1) i(1)]
      show "slot b base i \<noteq> slot b base k \<and> slot b base i \<noteq> shadow_of b (slot b base k)"
        "shadow_of b (slot b base i) \<noteq> slot b base k \<and> shadow_of b (slot b base i) \<noteq> shadow_of b (slot b base k)"
        using s1(1,2,3) s2 k(2) by metis+
    qed
    have keep: "memory h' (slot b base i) = memory ?h1 (slot b base i)" "memory h' (shadow_of b (slot b base i)) = memory ?h1 (shadow_of b (slot b base i))"
      using h'(5) [OF other(1)] h'(5) [OF other(2)] by blast+
    have "zend_mm_get_next_free_slot h' b (slot b base i) = Inr (slot b base (Suc i))"
      using get_next_cong [of h' ?h1 "slot b base i" b] keep h'(2) g1 by simp
    then have "zend_mm_get_next_free_slot h' b (slot b base k) = Inr (slot b base (Suc k))" if "i \<le> k" "k < n" for k
      using h'(4) [of k] that by (cases "k = i") auto
    moreover have "memory h' a = memory h a" if a: "\<forall>k. i \<le> k \<and> k < n \<longrightarrow> a \<noteq> slot b base k \<and> a \<noteq> shadow_of b (slot b base k)" for a
    proof -
      have "memory h' a = memory ?h1 a" using a by (intro h'(5)) auto
      also have "\<dots> = memory h a" using a Suc.prems by (simp add: set_next_memory)
      finally show ?thesis .
    qed
    ultimately show ?thesis unfolding e using False h'(1,2,3) by auto
  qed
qed simp


lemma chain_slot_list:
  assumes "run_ok b base" "i < bin_elements ! b"
    "\<And>k. i \<le> k \<Longrightarrow> Suc k < bin_elements ! b \<Longrightarrow> zend_mm_get_next_free_slot h b (slot b base k) = Inr (slot b base (Suc k))"
    "zend_mm_get_next_free_slot h b (slot b base (bin_elements ! b - 1)) = Inr 0"
  shows "slot_list h b (slot b base i) (map (slot b base) [i..<bin_elements ! b])"
  using assms(2,3)
proof (induction "bin_elements ! b - i" arbitrary: i)
  case (Suc d)
  have nz: "slot b base i \<noteq> 0" using slots_separate(4) [OF assms(1) Suc.prems(1) Suc.prems(1)] .
  have u: "[i..<bin_elements ! b] = i # [Suc i..<bin_elements ! b]" using Suc.prems(1) by (simp add: upt_conv_Cons)
  show ?case
  proof (cases "Suc i < bin_elements ! b")
    case True
    have "slot_list h b (slot b base (Suc i)) (map (slot b base) [Suc i..<bin_elements ! b])"
      using Suc.hyps True Suc.prems(2) by simp
    then show ?thesis using u nz Suc.prems(2) [of i] True by simp
  next
    case False
    then have "i = bin_elements ! b - 1" using Suc.prems(1) by simp
    then show ?thesis using u nz assms(4) False by simp
  qed
qed simp

lemma init_bin_ok:
  assumes r: "run_ok b base" and l: "length (free_slot heap) = 30"
  shows "\<exists>heap'. init_bin heap b base = Some (base, heap') \<and> bin_state heap' b base [1..<bin_elements ! b] {0}"
proof -
  have b: "0 < b" "b < 30" using r by (simp_all add: run_ok_def)
  have n: "4 \<le> bin_elements ! b" using bin_bounds(3) [OF b] .
  let ?m = "bin_elements ! b - 1"
  let ?h = "heap\<lparr>free_slot := (free_slot heap)[b := slot b base 1]\<rparr>"
  have m1: "1 < ?m" and m: "?m < bin_elements ! b" using n by simp_all
  from link_slots_ok [OF r m1 m, of ?h] obtain h' where "link_slots ?h b (slot b base 1) (slot b base ?m) = Some (slot b base ?m, h')"
    "shadow_key h' = shadow_key ?h" "free_slot h' = free_slot ?h"
    "\<forall>k. 1 \<le> k \<and> k < ?m \<longrightarrow> zend_mm_get_next_free_slot h' b (slot b base k) = Inr (slot b base (Suc k))" by blast
  then have h': "link_slots ?h b (slot b base 1) (slot b base ?m) = Some (slot b base ?m, h')" "shadow_key h' = shadow_key heap"
    "free_slot h' = (free_slot heap)[b := slot b base 1]"
    "\<And>k. 1 \<le> k \<Longrightarrow> k < ?m \<Longrightarrow> zend_mm_get_next_free_slot h' b (slot b base k) = Inr (slot b base (Suc k))" by simp_all
  let ?h2 = "poke (slot b base ?m) 0 h'"
  have "slot b base 1 = base + bin_size_word b" by (simp add: slot_def)
  then have e: "init_bin heap b base = Some (base, ?h2)" using h'(1) by (simp add: init_bin_def Let_def slot_def mult.commute)
  have "zend_mm_get_next_free_slot ?h2 b (slot b base k) = Inr (slot b base (Suc k))" if k: "1 \<le> k" "Suc k < bin_elements ! b" for k
  proof -
    have k': "k < bin_elements ! b" "k < ?m" "k \<noteq> ?m" using k by auto
    have "zend_mm_get_next_free_slot ?h2 b (slot b base k) = zend_mm_get_next_free_slot h' b (slot b base k)"
      using slots_separate [OF r k'(1) m] slots_separate [OF r m k'(1)] k'(3) by (intro get_next_cong) (auto simp: poke_def)
    then show ?thesis using h'(4) k(1) k'(2) by simp
  qed
  moreover have "zend_mm_get_next_free_slot ?h2 b (slot b base ?m) = Inr 0" by (simp add: zend_mm_get_next_free_slot_def poke_def Let_def)
  ultimately have "slot_list ?h2 b (slot b base 1) (map (slot b base) [1..<bin_elements ! b])"
    using n by (intro chain_slot_list [OF r]) auto
  moreover have "free_slot ?h2 ! b = slot b base 1" "length (free_slot ?h2) = 30" using h'(3) l b by (simp_all add: poke_def)
  ultimately have "bin_state ?h2 b base [1..<bin_elements ! b] {0}" using n by (auto simp: bin_state_def)
  then show ?thesis using e by blast
qed

text \<open>Allocating and freeing small blocks of one run.\<close>

inductive bin_reach :: "nat \<Rightarrow> u64 \<Rightarrow> zend_mm_heap \<Rightarrow> u64 set \<Rightarrow> bool" for b base where
  init: "length (free_slot heap) = 30 \<Longrightarrow> init_bin heap b base = Some (p, heap') \<Longrightarrow> bin_reach b base heap' {p}"
| alloc: "bin_reach b base heap blocks \<Longrightarrow> zend_mm_alloc_small heap b = Inr (Some p, heap') \<Longrightarrow> bin_reach b base heap' (insert p blocks)"
| free: "bin_reach b base heap blocks \<Longrightarrow> p \<in> blocks \<Longrightarrow> zend_mm_free_small heap p b = Inr heap' \<Longrightarrow> bin_reach b base heap' (blocks - {p})"

lemma bin_reach_state:
  assumes r: "run_ok b base" and "bin_reach b base heap blocks"
  shows "\<exists>fs used. bin_state heap b base fs used \<and> blocks = slot b base ` used"
  using assms(2)
proof (induction rule: bin_reach.induct)
  case (init heap p heap')
  then obtain h where "init_bin heap b base = Some (base, h)" "bin_state h b base [1..<bin_elements ! b] {0}" using init_bin_ok [OF r] by blast
  then show ?case using init by (intro exI [of _ "[1..<bin_elements ! b]"] exI [of _ "{0}"]) (simp add: slot_def)
next
  case (alloc heap blocks p heap')
  then obtain fs used where st: "bin_state heap b base fs used" "blocks = slot b base ` used" by blast
  show ?case
  proof (cases fs)
    case Nil
    then show ?thesis using alloc_small_empty [of heap b base used] st alloc.hyps by auto
  next
    case (Cons i js)
    then show ?thesis using alloc_small_ok [OF r, of heap i js used] st alloc.hyps by (metis (no_types, lifting) Inr_inject image_insert option.inject prod.inject)
  qed
next
  case (free heap blocks p heap')
  then obtain fs used where st: "bin_state heap b base fs used" "blocks = slot b base ` used" by blast
  with free.hyps obtain i where i: "i \<in> used" "p = slot b base i" by auto
  have used: "used \<subseteq> {..<bin_elements ! b}" using st(1) by (auto simp: bin_state_def)
  then have "inj_on (slot b base) used" using slots_separate(1) [OF r] by (auto simp: inj_on_def)
  then have "slot b base ` (used - {i}) = blocks - {p}" using st(2) i by (auto simp: inj_on_def)
  moreover have "\<exists>fs'. bin_state heap' b base fs' (used - {i})" using free_small_ok [OF r st(1) i(1)] free.hyps i(2) by auto
  ultimately show ?case by metis
qed


section \<open>What the callers see\<close>

lemma blocks_apart:
  assumes r: "run_ok b base" and "i < bin_elements ! b" "j < bin_elements ! b" "i < j"
  shows "unat (slot b base i) + bin_data_size ! b \<le> unat (slot b base j)"
proof -
  have "bin_data_size ! b * Suc i \<le> bin_data_size ! b * j" using assms(4) by (intro mult_le_mono2) simp
  then show ?thesis using unat_slot [OF r, of i] unat_slot [OF r, of j] assms(2,3) by simp
qed

lemma bin_blocks:
  assumes r: "run_ok b base" and reach: "bin_reach b base heap blocks"
  shows "blocks \<subseteq> slot b base ` {..<bin_elements ! b}"
    "p \<in> blocks \<Longrightarrow> q \<in> blocks \<Longrightarrow> p \<noteq> q \<Longrightarrow> unat p + bin_data_size ! b \<le> unat q \<or> unat q + bin_data_size ! b \<le> unat p"
proof -
  obtain fs used where st: "bin_state heap b base fs used" "blocks = slot b base ` used" using bin_reach_state [OF r reach] by blast
  then have used: "used \<subseteq> {..<bin_elements ! b}" by (auto simp: bin_state_def)
  then show "blocks \<subseteq> slot b base ` {..<bin_elements ! b}" using st(2) by blast
  assume "p \<in> blocks" "q \<in> blocks" "p \<noteq> q"
  then obtain i j where ij: "p = slot b base i" "q = slot b base j" "i < bin_elements ! b" "j < bin_elements ! b" "i \<noteq> j" using st(2) used by blast
  then show "unat p + bin_data_size ! b \<le> unat q \<or> unat q + bin_data_size ! b \<le> unat p"
    using blocks_apart [OF r ij(3,4)] blocks_apart [OF r ij(4,3)] by (cases "i < j") auto
qed

lemma bin_alloc_blocks:
  assumes r: "run_ok b base" and reach: "bin_reach b base heap blocks"
  shows "(\<exists>heap'. zend_mm_alloc_small heap b = Inr (None, heap') \<and> blocks = slot b base ` {..<bin_elements ! b}) \<or>
    (\<exists>p heap'. zend_mm_alloc_small heap b = Inr (Some p, heap') \<and> p \<in> slot b base ` {..<bin_elements ! b} - blocks)"
proof -
  obtain fs used where st: "bin_state heap b base fs used" "blocks = slot b base ` used" using bin_reach_state [OF r reach] by blast
  show ?thesis
  proof (cases fs)
    case Nil
    then show ?thesis using alloc_small_empty [of heap b base used] st by (auto simp: bin_state_def)
  next
    case (Cons i js)
    have i: "i < bin_elements ! b" "i \<notin> used" "used \<subseteq> {..<bin_elements ! b}" using st(1) Cons by (auto simp: bin_state_def)
    have "slot b base i \<notin> blocks"
    proof
      assume "slot b base i \<in> blocks"
      then obtain j where "j \<in> used" "slot b base i = slot b base j" using st(2) by blast
      then show False using slots_separate(1) [OF r i(1), of j] i by blast
    qed
    then show ?thesis using alloc_small_ok [OF r, of heap i js used] st(1) Cons i(1) by blast
  qed
qed

lemma bin_free_blocks:
  assumes r: "run_ok b base" and reach: "bin_reach b base heap blocks" and p: "p \<in> blocks"
  shows "\<exists>heap'. zend_mm_free_small heap p b = Inr heap' \<and> zend_mm_free_small heap' p b = Inl Mm_Corrupted \<and>
    (\<exists>heap''. zend_mm_alloc_small heap' b = Inr (Some p, heap''))"
proof -
  obtain fs used where st: "bin_state heap b base fs used" "blocks = slot b base ` used" using bin_reach_state [OF r reach] by blast
  then obtain i where i: "i \<in> used" "p = slot b base i" using p by blast
  obtain heap' where h: "zend_mm_free_small heap p b = Inr heap'" "bin_state heap' b base (i # fs) (used - {i})"
    using free_small_ok [OF r st(1) i(1)] i(2) by blast
  then have "free_slot heap' ! b = p" using i(2) by (simp add: bin_state_def)
  then have "zend_mm_free_small heap' p b = Inl Mm_Corrupted" by (simp add: zend_mm_free_small_def Let_def)
  then show ?thesis using h alloc_small_ok [OF r h(2)] i(2) by blast
qed


end
