(* ===== verification/Zend_Objects.thy ===== *)
theory Zend_Objects
  imports Zend_Bytes
begin

text \<open>
The object store (\<^verbatim>\<open>Zend/zend_objects_API.c\<close>, \<^verbatim>\<open>Zend/zend_objects_API.h\<close>): the table from handles to objects, with the free handles linked
  through its buckets.  A bucket is a machine word, as in the source: the lowest bit tells a pointer from a link of the free list.  The handlers of
  the objects and the collector are parameters.  The functions that call handlers are composed of the parts between the calls.  Reference counts
  are 32 bits wide and wrap.  The lemmas give the invariant of the store and what each part does to it.
\<close>

section \<open>Buckets\<close>

text \<open>A bucket is a pointer, whose lowest bit is clear, or a word with the lowest bit set: a pointer to an object that is being freed, or the
  next free handle.\<close>

definition OBJ_BUCKET_INVALID :: u64 where "OBJ_BUCKET_INVALID = 1"

definition IS_OBJ_VALID :: "u64 \<Rightarrow> bool" where
  "IS_OBJ_VALID bucket \<longleftrightarrow> \<not> bucket AND OBJ_BUCKET_INVALID \<noteq> 0"

definition SET_OBJ_INVALID :: "u64 \<Rightarrow> u64" where
  "SET_OBJ_INVALID bucket = bucket OR OBJ_BUCKET_INVALID"

text \<open>The shift is arithmetic, and the result is stored in an \<^verbatim>\<open>int\<close>.\<close>

definition GET_OBJ_BUCKET_NUMBER :: "u64 \<Rightarrow> int" where
  "GET_OBJ_BUCKET_NUMBER bucket = signed_take_bit 31 (sint (signed_drop_bit 1 bucket))"

definition SET_OBJ_BUCKET_NUMBER :: "int \<Rightarrow> u64" where
  "SET_OBJ_BUCKET_NUMBER n = push_bit 1 (word_of_int n) OR OBJ_BUCKET_INVALID"

lemma sint_word_of_int_64: "- (2 ^ 63) \<le> z \<Longrightarrow> z < 2 ^ 63 \<Longrightarrow> sint (word_of_int z :: u64) = z"
  by (simp add: sint_sbintrunc' signed_take_bit_int_eq_self)

lemma bucket_number: "-1 \<le> n \<Longrightarrow> n < 2 ^ 31 \<Longrightarrow> GET_OBJ_BUCKET_NUMBER (SET_OBJ_BUCKET_NUMBER n) = n"
proof -
  assume n: "-1 \<le> n" "n < 2 ^ 31"
  have "push_bit 1 (word_of_int n :: u64) = 2 * word_of_int n" by (simp add: push_bit_eq_mult)
  moreover have "even (2 * word_of_int n :: u64)" by simp
  ultimately have "SET_OBJ_BUCKET_NUMBER n = 2 * word_of_int n + 1"
    by (simp add: SET_OBJ_BUCKET_NUMBER_def OBJ_BUCKET_INVALID_def or_one_eq)
  then have "SET_OBJ_BUCKET_NUMBER n = word_of_int (2 * n + 1)" by simp
  moreover have "sint (word_of_int (2 * n + 1) :: u64) = 2 * n + 1"
    by (rule sint_word_of_int_64) (use n in auto)
  ultimately have "sint (signed_drop_bit 1 (SET_OBJ_BUCKET_NUMBER n)) = drop_bit 1 (2 * n + 1)" by (simp add: sint_signed_drop_bit_eq)
  also have "\<dots> = n" by (simp add: drop_bit_eq_div)
  finally show ?thesis using n by (simp add: GET_OBJ_BUCKET_NUMBER_def signed_take_bit_int_eq_self)
qed

lemma invalid_buckets: "\<not> IS_OBJ_VALID (SET_OBJ_INVALID a)" "\<not> IS_OBJ_VALID (SET_OBJ_BUCKET_NUMBER n)"
proof -
  have "bit (a OR 1) 0" "bit (push_bit 1 (word_of_int n) OR 1 :: u64) 0" by (simp_all add: bit_or_iff)
  then show "\<not> IS_OBJ_VALID (SET_OBJ_INVALID a)" "\<not> IS_OBJ_VALID (SET_OBJ_BUCKET_NUMBER n)"
    unfolding IS_OBJ_VALID_def SET_OBJ_INVALID_def SET_OBJ_BUCKET_NUMBER_def OBJ_BUCKET_INVALID_def
    by (simp_all add: and_one_eq bit_0 odd_iff_mod_2_eq_one)
qed

section \<open>Objects and the store\<close>

text \<open>The members of an object that the store reads, with its flags and what it tests of its handlers and class.\<close>

record zend_object =
  obj_handle :: nat
  obj_refcount :: u32
  obj_is_null :: bool
  destructor_called :: bool
  free_called :: bool
  weakly_referenced :: bool
  std_dtor_obj :: bool
  ce_destructor :: bool
  std_free_obj :: bool

text \<open>What happens to the objects: one is stored, and whether it needs its destructor; its destructor is called; the destructor is given up (the
  constructor failed, or all objects are marked); its contents are freed, or left to the end of the process; its memory is released.\<close>

datatype obj_event = New_Obj u64 bool | Dtor_Obj u64 | Mark_Obj u64 | Free_Obj u64 | Skip_Obj u64 | Efree_Obj u64

text \<open>The store, the flag of the executor, and the memory of the objects with the calls of the handlers.\<close>

record objects_store =
  object_buckets :: "u64 cell list"
  store_top :: nat
  store_size :: nat
  free_list_head :: int
  no_reuse :: bool
  objects :: "u64 \<rightharpoonup> zend_object"
  obj_log :: "obj_event list"

datatype obj_error = Obj_Assertion | Obj_Access

type_synonym 'a obj = "obj_error + 'a"

fun obj_bind :: "'a obj \<Rightarrow> ('a \<Rightarrow> 'b obj) \<Rightarrow> 'b obj" where
  "obj_bind (Inl e) f = Inl e"
| "obj_bind (Inr x) f = f x"

definition get_bucket :: "objects_store \<Rightarrow> nat \<Rightarrow> u64 obj" where
  "get_bucket w h = (if h < length (object_buckets w) then (case object_buckets w ! h of None \<Rightarrow> Inl Obj_Access | Some b \<Rightarrow> Inr b) else Inl Obj_Access)"

definition set_bucket :: "objects_store \<Rightarrow> nat \<Rightarrow> u64 \<Rightarrow> objects_store obj" where
  "set_bucket w h b = (if h < length (object_buckets w) then Inr (w\<lparr>object_buckets := (object_buckets w)[h := Some b]\<rparr>) else Inl Obj_Access)"

definition get_object :: "objects_store \<Rightarrow> u64 \<Rightarrow> zend_object obj" where
  "get_object w a = (case objects w a of None \<Rightarrow> Inl Obj_Access | Some ob \<Rightarrow> Inr ob)"

definition upd_object :: "(zend_object \<Rightarrow> zend_object) \<Rightarrow> u64 \<Rightarrow> objects_store \<Rightarrow> objects_store obj" where
  "upd_object f a w = obj_bind (get_object w a) (\<lambda>ob. Inr (w\<lparr>objects := (objects w)(a \<mapsto> f ob)\<rparr>))"

definition log_event :: "obj_event \<Rightarrow> objects_store \<Rightarrow> objects_store" where
  "log_event e w = w\<lparr>obj_log := obj_log w @ [e]\<rparr>"

type_synonym handler = "u64 \<Rightarrow> objects_store \<Rightarrow> objects_store"

text \<open>The calls \<^verbatim>\<open>obj->handlers->dtor_obj(obj)\<close> and \<^verbatim>\<open>obj->handlers->free_obj(obj)\<close>, which the log records.\<close>

definition call_dtor_obj :: "handler \<Rightarrow> handler" where
  "call_dtor_obj dtor_obj a w = dtor_obj a (log_event (Dtor_Obj a) w)"

definition call_free_obj :: "handler \<Rightarrow> handler" where
  "call_free_obj free_obj a w = free_obj a (log_event (Free_Obj a) w)"

section \<open>Operations\<close>

definition zend_objects_store_init :: "objects_store \<Rightarrow> nat \<Rightarrow> objects_store" where
  "zend_objects_store_init w init_size =
     w\<lparr>object_buckets := (replicate init_size None)[0 := Some 0], store_top := 1, store_size := init_size, free_list_head := -1\<rparr>"

definition zend_objects_store_destroy :: "objects_store \<Rightarrow> objects_store" where
  "zend_objects_store_destroy w = w\<lparr>object_buckets := []\<rparr>"

definition take_handle :: "u64 \<Rightarrow> nat \<Rightarrow> objects_store \<Rightarrow> objects_store obj" where
  "take_handle a handle w = obj_bind (upd_object (\<lambda>ob. ob\<lparr>obj_handle := handle\<rparr>) a w) (\<lambda>w. set_bucket w handle a)"

definition zend_objects_store_put_cold :: "u64 \<Rightarrow> objects_store \<Rightarrow> objects_store obj" where
  "zend_objects_store_put_cold a w =
     (let new_size = 2 * store_size w mod 2 ^ 32;
          w = w\<lparr>object_buckets := grow_to new_size (object_buckets w)\<rparr>;
          w = w\<lparr>store_size := new_size\<rparr>;
          handle = store_top w;
          w = w\<lparr>store_top := handle + 1\<rparr>
      in take_handle a handle w)"

definition zend_objects_store_put :: "u64 \<Rightarrow> objects_store \<Rightarrow> objects_store obj" where
  "zend_objects_store_put a w =
     (if free_list_head w \<noteq> -1 \<and> \<not> no_reuse w
      then let handle = nat (free_list_head w)
        in obj_bind (get_bucket w handle) (\<lambda>b. take_handle a handle (w\<lparr>free_list_head := GET_OBJ_BUCKET_NUMBER b\<rparr>))
      else if store_top w = store_size w then zend_objects_store_put_cold a w
      else let handle = store_top w in take_handle a handle (w\<lparr>store_top := handle + 1\<rparr>))"

definition ZEND_OBJECTS_STORE_ADD_TO_FREE_LIST :: "nat \<Rightarrow> objects_store \<Rightarrow> objects_store obj" where
  "ZEND_OBJECTS_STORE_ADD_TO_FREE_LIST h w =
     obj_bind (set_bucket w h (SET_OBJ_BUCKET_NUMBER (free_list_head w))) (\<lambda>w. Inr (w\<lparr>free_list_head := int h\<rparr>))"

text \<open>The parts of \<^verbatim>\<open>zend_objects_store_del\<close> between the calls of the handlers. Before the destructor the flag is set and a reference is
  held; the result tells whether the handler is called.\<close>

definition needs_dtor :: "zend_object \<Rightarrow> bool" where
  "needs_dtor ob \<longleftrightarrow> \<not> std_dtor_obj ob \<or> ce_destructor ob"

definition dtor_enter :: "u64 \<Rightarrow> objects_store \<Rightarrow> (objects_store \<times> bool) obj" where
  "dtor_enter a w =
     obj_bind (get_object w a) (\<lambda>ob.
       if destructor_called ob then Inr (w, False)
       else obj_bind (upd_object (\<lambda>ob. ob\<lparr>destructor_called := True\<rparr>) a w) (\<lambda>w.
         if needs_dtor ob
         then obj_bind (upd_object (\<lambda>ob. ob\<lparr>obj_refcount := 1\<rparr>) a w) (\<lambda>w. Inr (w, True))
         else Inr (w, False)))"

definition GC_DELREF :: "u64 \<Rightarrow> objects_store \<Rightarrow> objects_store obj" where
  "GC_DELREF a w =
     obj_bind (get_object w a) (\<lambda>ob.
       if obj_refcount ob = 0 then Inl Obj_Assertion else upd_object (\<lambda>ob. ob\<lparr>obj_refcount := obj_refcount ob - 1\<rparr>) a w)"

definition GC_ADDREF :: "u64 \<Rightarrow> objects_store \<Rightarrow> objects_store obj" where
  "GC_ADDREF = upd_object (\<lambda>ob. ob\<lparr>obj_refcount := obj_refcount ob + 1\<rparr>)"

definition free_enter :: "u64 \<Rightarrow> nat \<Rightarrow> objects_store \<Rightarrow> (objects_store \<times> bool) obj" where
  "free_enter a handle w =
     obj_bind (get_bucket w handle) (\<lambda>b.
       if \<not> IS_OBJ_VALID b then Inl Obj_Assertion
       else obj_bind (set_bucket w handle (SET_OBJ_INVALID a)) (\<lambda>w.
         obj_bind (get_object w a) (\<lambda>ob.
           if free_called ob then Inr (w, False)
           else obj_bind (upd_object (\<lambda>ob. ob\<lparr>free_called := True, obj_refcount := 1\<rparr>) a w) (\<lambda>w. Inr (w, True)))))"

definition efree_object :: "u64 \<Rightarrow> objects_store \<Rightarrow> objects_store obj" where
  "efree_object a w = obj_bind (get_object w a) (\<lambda>ob. Inr (log_event (Efree_Obj a) (w\<lparr>objects := (objects w)(a := None)\<rparr>)))"

definition free_leave :: "u64 \<Rightarrow> nat \<Rightarrow> objects_store \<Rightarrow> objects_store obj" where
  "free_leave a handle w = obj_bind (efree_object a w) (ZEND_OBJECTS_STORE_ADD_TO_FREE_LIST handle)"

definition zend_objects_store_del :: "handler \<Rightarrow> handler \<Rightarrow> u64 \<Rightarrow> objects_store \<Rightarrow> objects_store obj" where
  "zend_objects_store_del dtor_obj free_obj a w =
     obj_bind (get_object w a) (\<lambda>ob.
       if obj_refcount ob \<noteq> 0 then Inl Obj_Assertion
       else if obj_is_null ob then Inr w
       else obj_bind (dtor_enter a w) (\<lambda>(w, called).
         obj_bind (if called then GC_DELREF a (call_dtor_obj dtor_obj a w) else Inr w) (\<lambda>w.
           obj_bind (get_object w a) (\<lambda>ob.
             if obj_refcount ob = 0
             then let handle = obj_handle ob
               in obj_bind (free_enter a handle w) (\<lambda>(w, called). free_leave a handle (if called then call_free_obj free_obj a w else w))
             else Inr w))))"

text \<open>One turn of the loop of \<^verbatim>\<open>zend_objects_store_call_destructors\<close>, before the handler.\<close>

definition call_enter :: "u64 \<Rightarrow> objects_store \<Rightarrow> (objects_store \<times> bool) obj" where
  "call_enter a w =
     obj_bind (get_object w a) (\<lambda>ob.
       if destructor_called ob then Inr (w, False)
       else obj_bind (upd_object (\<lambda>ob. ob\<lparr>destructor_called := True\<rparr>) a w) (\<lambda>w.
         if needs_dtor ob
         then obj_bind (GC_ADDREF a w) (\<lambda>w. Inr (w, True))
         else Inr (w, False)))"

definition call_destructor :: "handler \<Rightarrow> nat \<Rightarrow> objects_store \<Rightarrow> objects_store obj" where
  "call_destructor dtor_obj i w =
     obj_bind (get_bucket w i) (\<lambda>a.
       if IS_OBJ_VALID a
       then obj_bind (call_enter a w) (\<lambda>(w, called). if called then GC_DELREF a (call_dtor_obj dtor_obj a w) else Inr w)
       else Inr w)"

partial_function (option) call_destructors_loop :: "handler \<Rightarrow> nat \<Rightarrow> objects_store \<Rightarrow> objects_store obj option" where
  "call_destructors_loop dtor_obj i w =
     (if i < store_top w then
        (case call_destructor dtor_obj i w of
           Inl e \<Rightarrow> Some (Inl e)
         | Inr w \<Rightarrow> call_destructors_loop dtor_obj (i + 1) w)
      else Some (Inr w))"

definition zend_objects_store_call_destructors :: "handler \<Rightarrow> objects_store \<Rightarrow> objects_store obj option" where
  "zend_objects_store_call_destructors dtor_obj w =
     (let w = w\<lparr>no_reuse := True\<rparr>
      in if store_top w > 1 then call_destructors_loop dtor_obj 1 w else Some (Inr w))"

definition mark_turn :: "u64 \<Rightarrow> objects_store \<Rightarrow> objects_store obj" where
  "mark_turn a w =
     (if IS_OBJ_VALID a then upd_object (\<lambda>ob. ob\<lparr>destructor_called := True\<rparr>) a (log_event (Mark_Obj a) w) else Inr w)"

fun mark_destructed_loop :: "nat \<Rightarrow> nat \<Rightarrow> objects_store \<Rightarrow> objects_store obj" where
  "mark_destructed_loop i 0 w = Inr w"
| "mark_destructed_loop i (Suc n) w =
     obj_bind (obj_bind (get_bucket w i) (\<lambda>a. mark_turn a w)) (mark_destructed_loop (Suc i) n)"

definition zend_objects_store_mark_destructed :: "objects_store \<Rightarrow> objects_store obj" where
  "zend_objects_store_mark_destructed w =
     (if object_buckets w \<noteq> [] \<and> store_top w > 1 then mark_destructed_loop 1 (store_top w - 1) w else Inr w)"

text \<open>A turn of the loops of \<^verbatim>\<open>zend_objects_store_free_object_storage\<close>, which differ in the test before the handler, up to the call of the handler
  and as a whole. The reference that is added is not given back. The loop runs down from the last handle.\<close>

definition storage_enter :: "bool \<Rightarrow> u64 \<Rightarrow> objects_store \<Rightarrow> (objects_store \<times> bool) obj" where
  "storage_enter fast a w =
     obj_bind (get_object w a) (\<lambda>ob.
       if \<not> free_called ob
       then obj_bind (upd_object (\<lambda>ob. ob\<lparr>free_called := True\<rparr>) a w) (\<lambda>w.
         if \<not> fast \<or> \<not> std_free_obj ob \<or> weakly_referenced ob
         then obj_bind (GC_ADDREF a w) (\<lambda>w. Inr (w, True))
         else Inr (log_event (Skip_Obj a) w, False))
       else Inr (w, False))"

definition free_storage_turn :: "handler \<Rightarrow> bool \<Rightarrow> u64 \<Rightarrow> objects_store \<Rightarrow> objects_store obj" where
  "free_storage_turn free_obj fast a w =
     (if IS_OBJ_VALID a
      then obj_bind (storage_enter fast a w) (\<lambda>(w, called). Inr (if called then call_free_obj free_obj a w else w))
      else Inr w)"

fun free_storage_loop :: "handler \<Rightarrow> bool \<Rightarrow> nat \<Rightarrow> objects_store \<Rightarrow> objects_store obj" where
  "free_storage_loop free_obj fast 0 w = Inr w"
| "free_storage_loop free_obj fast (Suc i) w =
     obj_bind (obj_bind (get_bucket w (Suc i)) (\<lambda>a. free_storage_turn free_obj fast a w)) (free_storage_loop free_obj fast i)"

definition zend_objects_store_free_object_storage :: "handler \<Rightarrow> objects_store \<Rightarrow> bool \<Rightarrow> objects_store obj" where
  "zend_objects_store_free_object_storage free_obj w fast_shutdown =
     (if store_top w \<le> 1 then Inr w else free_storage_loop free_obj fast_shutdown (store_top w - 1) w)"

definition zend_object_store_ctor_failed :: "u64 \<Rightarrow> objects_store \<Rightarrow> objects_store obj" where
  "zend_object_store_ctor_failed a w = upd_object (\<lambda>ob. ob\<lparr>destructor_called := True\<rparr>) a (log_event (Mark_Obj a) w)"

text \<open>The candidate roots of the collector are its own state: what is done with the object when references to it are left is a parameter.\<close>

definition zend_object_release :: "handler \<Rightarrow> handler \<Rightarrow> handler \<Rightarrow> u64 \<Rightarrow> objects_store \<Rightarrow> objects_store obj" where
  "zend_object_release dtor_obj free_obj possible_root a w =
     obj_bind (GC_DELREF a w) (\<lambda>w.
       obj_bind (get_object w a) (\<lambda>ob. if obj_refcount ob = 0 then zend_objects_store_del dtor_obj free_obj a w else Inr (possible_root a w)))"


section \<open>What the parts do\<close>

lemma get_object_iff: "get_object w a = Inr ob \<longleftrightarrow> objects w a = Some ob"
  by (auto simp: get_object_def split: option.splits)

lemma get_object_Some: "objects w a = Some ob \<Longrightarrow> get_object w a = Inr ob"
  by (simp add: get_object_iff)

lemma upd_object_Some: "objects w a = Some ob \<Longrightarrow> upd_object f a w = Inr (w\<lparr>objects := (objects w)(a \<mapsto> f ob)\<rparr>)"
  by (simp add: upd_object_def get_object_Some)

lemma get_bucket_Some: "h < length (object_buckets w) \<Longrightarrow> object_buckets w ! h = Some b \<Longrightarrow> get_bucket w h = Inr b"
  by (simp add: get_bucket_def)

lemmas obj_run = get_object_Some upd_object_Some get_bucket_Some set_bucket_def obj_bind.simps

lemma dtor_enter_run:
  assumes "objects w a = Some ob"
  shows "dtor_enter a w =
    (if destructor_called ob then Inr (w, False)
     else if needs_dtor ob
     then Inr (w\<lparr>objects := (objects w)(a \<mapsto> ob\<lparr>destructor_called := True, obj_refcount := 1\<rparr>)\<rparr>, True)
     else Inr (w\<lparr>objects := (objects w)(a \<mapsto> ob\<lparr>destructor_called := True\<rparr>)\<rparr>, False))"
  using assms by (simp add: dtor_enter_def obj_run)

lemma call_enter_run:
  assumes "objects w a = Some ob"
  shows "call_enter a w =
    (if destructor_called ob then Inr (w, False)
     else if needs_dtor ob
     then Inr (w\<lparr>objects := (objects w)(a \<mapsto> ob\<lparr>destructor_called := True, obj_refcount := obj_refcount ob + 1\<rparr>)\<rparr>, True)
     else Inr (w\<lparr>objects := (objects w)(a \<mapsto> ob\<lparr>destructor_called := True\<rparr>)\<rparr>, False))"
  using assms by (simp add: call_enter_def GC_ADDREF_def obj_run)

lemma free_enter_run:
  assumes "objects w a = Some ob" "h < length (object_buckets w)" "object_buckets w ! h = Some b" "IS_OBJ_VALID b"
  shows "free_enter a h w =
    (let w' = w\<lparr>object_buckets := (object_buckets w)[h := Some (SET_OBJ_INVALID a)]\<rparr>
     in if free_called ob then Inr (w', False)
        else Inr (w'\<lparr>objects := (objects w)(a \<mapsto> ob\<lparr>free_called := True, obj_refcount := 1\<rparr>)\<rparr>, True))"
  using assms by (simp add: free_enter_def obj_run Let_def)

lemma free_leave_run:
  assumes "objects w a = Some ob" "h < length (object_buckets w)"
  shows "free_leave a h w = Inr (w\<lparr>object_buckets := (object_buckets w)[h := Some (SET_OBJ_BUCKET_NUMBER (free_list_head w))],
    free_list_head := int h, objects := (objects w)(a := None), obj_log := obj_log w @ [Efree_Obj a]\<rparr>)"
  using assms by (simp add: free_leave_def efree_object_def obj_run ZEND_OBJECTS_STORE_ADD_TO_FREE_LIST_def log_event_def)

lemma storage_enter_run:
  assumes "objects w a = Some ob"
  shows "storage_enter fast a w =
    (if free_called ob then Inr (w, False)
     else if \<not> fast \<or> \<not> std_free_obj ob \<or> weakly_referenced ob
     then Inr (w\<lparr>objects := (objects w)(a \<mapsto> ob\<lparr>free_called := True, obj_refcount := obj_refcount ob + 1\<rparr>)\<rparr>, True)
     else Inr (log_event (Skip_Obj a) (w\<lparr>objects := (objects w)(a \<mapsto> ob\<lparr>free_called := True\<rparr>)\<rparr>), False))"
  using assms by (simp add: storage_enter_def GC_ADDREF_def obj_run)

section \<open>The store\<close>

text \<open>The free handles, as the chain of the buckets lists them.\<close>

fun free_chain :: "u64 cell list \<Rightarrow> int \<Rightarrow> nat list \<Rightarrow> bool" where
  "free_chain bs head [] \<longleftrightarrow> head = -1"
| "free_chain bs head (h # hs) \<longleftrightarrow> head = int h \<and> h < length bs \<and> (\<exists>n. -1 \<le> n \<and> n < 2 ^ 31 \<and> bs ! h = Some (SET_OBJ_BUCKET_NUMBER n) \<and> free_chain bs n hs)"

lemma free_chain_update: "i \<notin> set hs \<Longrightarrow> free_chain (bs[i := b]) head hs \<longleftrightarrow> free_chain bs head hs"
  by (induction hs arbitrary: head) auto

lemma free_chain_mono: "free_chain bs head hs \<Longrightarrow> \<forall>h\<in>set hs. h < length bs' \<and> bs' ! h = bs ! h \<Longrightarrow> free_chain bs' head hs"
  by (induction hs arbitrary: head) auto

lemma free_chain_head: "free_chain bs head hs \<Longrightarrow> -1 \<le> head"
  by (cases hs) auto

text \<open>The invariant of the store: \<open>D\<close> are the objects whose storage is being freed, \<open>fl\<close> the free handles.\<close>

definition stored :: "u64 set \<Rightarrow> objects_store \<Rightarrow> u64 \<Rightarrow> zend_object \<Rightarrow> bool" where
  "stored D w a ob \<longleftrightarrow> IS_OBJ_VALID a \<and> 1 \<le> obj_handle ob \<and> obj_handle ob < store_top w
     \<and> object_buckets w ! obj_handle ob = Some (if a \<in> D then SET_OBJ_INVALID a else a)"

definition store_sizes :: "objects_store \<Rightarrow> bool" where
  "store_sizes w \<longleftrightarrow> 1 \<le> store_top w \<and> store_top w \<le> store_size w \<and> store_size w = length (object_buckets w) \<and> store_size w \<le> 2 ^ 31"

definition store_free :: "objects_store \<Rightarrow> nat list \<Rightarrow> bool" where
  "store_free w fl \<longleftrightarrow> free_chain (object_buckets w) (free_list_head w) fl \<and> distinct fl \<and> (\<forall>h\<in>set fl. 1 \<le> h \<and> h < store_top w)"

definition store_ok :: "u64 set \<Rightarrow> objects_store \<Rightarrow> nat list \<Rightarrow> bool" where
  "store_ok D w fl \<longleftrightarrow> store_sizes w \<and> store_free w fl
     \<and> (\<forall>a ob. objects w a = Some ob \<longrightarrow> stored D w a ob \<and> obj_handle ob \<notin> set fl)
     \<and> (\<forall>h. 1 \<le> h \<and> h < store_top w \<longrightarrow> h \<in> set fl \<or> (\<exists>a ob. objects w a = Some ob \<and> obj_handle ob = h))"


lemma SET_OBJ_INVALID_inj: "IS_OBJ_VALID a \<Longrightarrow> IS_OBJ_VALID b \<Longrightarrow> SET_OBJ_INVALID a = SET_OBJ_INVALID b \<Longrightarrow> a = b"
proof -
  assume v: "IS_OBJ_VALID a" "IS_OBJ_VALID b" and eq: "SET_OBJ_INVALID a = SET_OBJ_INVALID b"
  have "x OR 1 = x + 1" if "IS_OBJ_VALID x" for x :: u64
  proof -
    have "even x" using that by (simp add: IS_OBJ_VALID_def OBJ_BUCKET_INVALID_def and_one_eq even_iff_mod_2_eq_zero)
    then show ?thesis by (simp add: or_one_eq)
  qed
  then show ?thesis using v eq by (simp add: SET_OBJ_INVALID_def OBJ_BUCKET_INVALID_def)
qed

lemma store_okD:
  assumes "store_ok D w fl"
  shows "store_sizes w" "store_free w fl" "objects w a = Some ob \<Longrightarrow> stored D w a ob" "objects w a = Some ob \<Longrightarrow> obj_handle ob \<notin> set fl"
  using assms unfolding store_ok_def by blast+

lemma store_ok_handles:
  assumes "store_ok D w fl" "objects w a = Some x" "objects w b = Some y" "obj_handle x = obj_handle y"
  shows "a = b"
proof -
  have "stored D w a x" "stored D w b y" using store_okD(3) [OF assms(1)] assms(2,3) by blast+
  then have v: "IS_OBJ_VALID a" "IS_OBJ_VALID b"
    and eq: "(if a \<in> D then SET_OBJ_INVALID a else a) = (if b \<in> D then SET_OBJ_INVALID b else b)"
    using assms(4) unfolding stored_def by simp_all
  then show ?thesis using SET_OBJ_INVALID_inj invalid_buckets(1) by (metis (full_types))
qed

text \<open>Writing the flags and the count of an object, or the log, does not concern the store.\<close>

lemma store_ok_upd:
  assumes ok: "store_ok D w fl" and a: "objects w a = Some ob" and h: "obj_handle ob' = obj_handle ob"
    and w': "objects w' = (objects w)(a \<mapsto> ob')" "object_buckets w' = object_buckets w" "store_top w' = store_top w"
      "store_size w' = store_size w" "free_list_head w' = free_list_head w"
  shows "store_ok D w' fl"
  unfolding store_ok_def
proof (intro conjI allI impI)
  show "store_sizes w'" "store_free w' fl" using store_okD [OF ok] w' by (simp_all add: store_sizes_def store_free_def)
next
  fix b x assume "objects w' b = Some x"
  then obtain y where y: "objects w b = Some y" "obj_handle x = obj_handle y" using w' a h by (cases "b = a") auto
  have "stored D w b y" "obj_handle y \<notin> set fl" using store_okD(3,4) [OF ok y(1)] by blast+
  then show "stored D w' b x" "obj_handle x \<notin> set fl" using w' y(2) by (simp_all add: stored_def)
next
  fix i assume "1 \<le> i \<and> i < store_top w'"
  then consider "i \<in> set fl" | b y where "objects w b = Some y" "obj_handle y = i" using ok w' unfolding store_ok_def by metis
  then show "i \<in> set fl \<or> (\<exists>b x. objects w' b = Some x \<and> obj_handle x = i)"
  proof cases
    case 2
    have "objects w' b = Some (if b = a then ob' else y) \<and> obj_handle (if b = a then ob' else y) = i" using 2 w' a h by auto
    then show ?thesis by blast
  qed blast
qed

lemma store_ok_free_enter:
  assumes ok: "store_ok D w fl" and a: "objects w a = Some ob" "a \<notin> D"
  shows "store_ok (insert a D) (w\<lparr>object_buckets := (object_buckets w)[obj_handle ob := Some (SET_OBJ_INVALID a)]\<rparr>) fl"
    (is "store_ok _ ?w fl")
proof -
  note s = store_okD(3,4) [OF ok a(1)]
  have h: "obj_handle ob < length (object_buckets w)" using s(1) store_okD(1) [OF ok] by (simp add: stored_def store_sizes_def)
  have st: "stored (insert a D) ?w b x" if b: "objects w b = Some x" for b x
  proof (cases "b = a")
    case True
    then show ?thesis using s h a b by (simp add: stored_def)
  next
    case False
    have "obj_handle x \<noteq> obj_handle ob" using store_ok_handles [OF ok b a(1)] False by blast
    then show ?thesis using store_okD(3) [OF ok b] False by (simp add: stored_def)
  qed
  have "store_sizes ?w" using store_okD(1) [OF ok] by (simp add: store_sizes_def)
  moreover have "store_free ?w fl" using store_okD(2) [OF ok] s(2) by (simp add: store_free_def free_chain_update)
  ultimately show ?thesis using ok st unfolding store_ok_def by simp
qed

lemma store_ok_free_leave:
  assumes ok: "store_ok D w fl" and a: "objects w a = Some ob" "a \<in> D"
  shows "store_ok (D - {a}) (w\<lparr>object_buckets := (object_buckets w)[obj_handle ob := Some (SET_OBJ_BUCKET_NUMBER (free_list_head w))],
    free_list_head := int (obj_handle ob), objects := (objects w)(a := None), obj_log := lg\<rparr>) (obj_handle ob # fl)"
    (is "store_ok _ ?w ?fl")
proof -
  note s = store_okD(3,4) [OF ok a(1)] and sz = store_okD(1) [OF ok] and fr = store_okD(2) [OF ok]
  have h: "obj_handle ob < length (object_buckets w)" using s(1) sz by (simp add: stored_def store_sizes_def)
  have hd: "-1 \<le> free_list_head w" using fr free_chain_head unfolding store_free_def by blast
  have hd2: "free_list_head w < 2 ^ 31"
  proof (cases fl)
    case (Cons x xs)
    then have "free_list_head w = int x" "x < length (object_buckets w)" using fr by (simp_all add: store_free_def)
    then show ?thesis using sz by (simp add: store_sizes_def)
  qed (use fr in \<open>simp add: store_free_def\<close>)
  have "stored (D - {a}) ?w b x \<and> obj_handle x \<notin> set ?fl" if b: "objects ?w b = Some x" for b x
  proof -
    have b': "objects w b = Some x" "b \<noteq> a" using b by (auto split: if_splits)
    then have "obj_handle x \<noteq> obj_handle ob" using store_ok_handles [OF ok b'(1) a(1)] by blast
    then show ?thesis using store_okD(3,4) [OF ok b'(1)] b'(2) by (simp add: stored_def)
  qed
  moreover have "store_sizes ?w" using sz by (simp add: store_sizes_def)
  moreover have "store_free ?w ?fl" using fr s h hd hd2 by (auto simp: store_free_def free_chain_update stored_def)
  moreover have "i \<in> set ?fl \<or> (\<exists>b x. objects ?w b = Some x \<and> obj_handle x = i)" if i: "1 \<le> i \<and> i < store_top ?w" for i
  proof -
    consider "i \<in> set fl" | b y where "objects w b = Some y" "obj_handle y = i" using ok i unfolding store_ok_def by auto
    then show ?thesis
    proof cases
      case 2
      then show ?thesis using a by (cases "b = a") auto
    qed simp
  qed
  ultimately show ?thesis unfolding store_ok_def by blast
qed


definition new_object :: "u64 \<Rightarrow> zend_object \<Rightarrow> objects_store \<Rightarrow> objects_store" where
  "new_object a ob w = log_event (New_Obj a (needs_dtor ob)) (w\<lparr>objects := (objects w)(a \<mapsto> ob)\<rparr>)"

definition reuses :: "objects_store \<Rightarrow> bool" where
  "reuses w \<longleftrightarrow> free_list_head w \<noteq> -1 \<and> \<not> no_reuse w"

definition put_handle :: "objects_store \<Rightarrow> nat" where
  "put_handle w = (if reuses w then nat (free_list_head w) else store_top w)"

lemma store_ok_take:
  assumes ok: "store_ok D w fl" and sz: "store_sizes w'" and fr: "store_free w' fl'"
    and a: "IS_OBJ_VALID a" "a \<notin> D" "objects w' = (objects w)(a \<mapsto> ob)" "objects w a = None"
    and h: "1 \<le> obj_handle ob" "obj_handle ob < store_top w'" "obj_handle ob \<notin> set fl'" "object_buckets w' ! obj_handle ob = Some a"
    and keep: "\<And>b y. objects w b = Some y \<Longrightarrow> obj_handle y \<noteq> obj_handle ob \<and> object_buckets w' ! obj_handle y = object_buckets w ! obj_handle y"
    and top: "store_top w \<le> store_top w'" and fl: "set fl' \<subseteq> set fl"
    and cover: "\<And>i. 1 \<le> i \<Longrightarrow> i < store_top w' \<Longrightarrow> i = obj_handle ob \<or> i < store_top w \<and> (i \<in> set fl \<longrightarrow> i \<in> set fl')"
  shows "store_ok D w' fl'"
proof -
  have "stored D w' b x \<and> obj_handle x \<notin> set fl'" if b: "objects w' b = Some x" for b x
  proof (cases "b = a")
    case True
    then show ?thesis using a h b by (simp add: stored_def)
  next
    case False
    then have b': "objects w b = Some x" using a b by simp
    then show ?thesis using store_okD(3,4) [OF ok b'] keep [OF b'] top fl by (auto simp: stored_def)
  qed
  moreover have "i \<in> set fl' \<or> (\<exists>b x. objects w' b = Some x \<and> obj_handle x = i)" if i: "1 \<le> i \<and> i < store_top w'" for i
  proof -
    have "(\<exists>b x. objects w' b = Some x \<and> obj_handle x = i)" if "objects w b = Some y" "obj_handle y = i" for b y
      using that a by (intro exI [of _ b] exI [of _ y]) auto
    moreover have "(\<exists>b x. objects w' b = Some x \<and> obj_handle x = i)" if "i = obj_handle ob" using that a by auto
    ultimately show ?thesis using ok i cover [of i] unfolding store_ok_def by metis
  qed
  ultimately show ?thesis using sz fr unfolding store_ok_def by blast
qed

lemma take_handle_run:
  assumes "objects w a = Some ob" "h < length (object_buckets w)"
  shows "take_handle a h w = Inr (w\<lparr>objects := (objects w)(a \<mapsto> ob\<lparr>obj_handle := h\<rparr>), object_buckets := (object_buckets w)[h := Some a]\<rparr>)"
  using assms by (simp add: take_handle_def obj_run)

text \<open>Storing an object: the handle is the head of the free list, or the next one.\<close>

lemma put_reuse:
  assumes ok: "store_ok D w fl" and a: "objects w a = None" "IS_OBJ_VALID a" "a \<notin> D" and r: "reuses w"
  shows "\<exists>w'. zend_objects_store_put a (new_object a ob w) = Inr w' \<and> store_ok D w' (tl fl)
    \<and> objects w' = (objects w)(a \<mapsto> ob\<lparr>obj_handle := put_handle w\<rparr>) \<and> store_top w' = store_top w
    \<and> no_reuse w' = no_reuse w \<and> obj_log w' = obj_log w @ [New_Obj a (needs_dtor ob)]"
proof -
  note sz = store_okD(1) [OF ok] and fr = store_okD(2) [OF ok]
  obtain h hs where fl: "fl = h # hs" using fr r unfolding store_free_def reuses_def by (cases fl) auto
  obtain n where n: "free_list_head w = int h" "h < length (object_buckets w)" "-1 \<le> n" "n < 2 ^ 31"
    "object_buckets w ! h = Some (SET_OBJ_BUCKET_NUMBER n)" "free_chain (object_buckets w) n hs"
    using fr unfolding store_free_def fl by auto
  have hs: "h \<notin> set hs" "distinct hs" "1 \<le> h" "h < store_top w" "\<forall>i\<in>set hs. 1 \<le> i \<and> i < store_top w"
    using fr unfolding store_free_def fl by auto
  have ph: "put_handle w = h" using r n(1) by (simp add: put_handle_def)
  define w' where "w' = w\<lparr>free_list_head := n, objects := (objects w)(a \<mapsto> ob\<lparr>obj_handle := h\<rparr>),
    object_buckets := (object_buckets w)[h := Some a], obj_log := obj_log w @ [New_Obj a (needs_dtor ob)]\<rparr>"
  have "zend_objects_store_put a (new_object a ob w) = Inr w'"
    using n r by (simp add: zend_objects_store_put_def new_object_def log_event_def reuses_def get_bucket_Some bucket_number
        take_handle_run w'_def del: of_nat_eq_iff)
  moreover have "store_ok D w' hs"
  proof (rule store_ok_take [OF ok, where a = a and ob = "ob\<lparr>obj_handle := h\<rparr>"])
    show "store_sizes w'" using sz by (simp add: w'_def store_sizes_def)
    show "store_free w' hs" using n hs by (simp add: store_free_def w'_def free_chain_update)
    fix b y assume b: "objects w b = Some y"
    have "obj_handle y \<noteq> h" using store_okD(4) [OF ok b] fl by auto
    then show "obj_handle y \<noteq> obj_handle (ob\<lparr>obj_handle := h\<rparr>) \<and> object_buckets w' ! obj_handle y = object_buckets w ! obj_handle y"
      by (simp add: w'_def)
  qed (use a n hs fl in \<open>auto simp: w'_def\<close>)
  ultimately show ?thesis using fl ph by (intro exI [of _ w']) (simp add: w'_def)
qed


end
