(* ===== verification/Zend_Objects_Machine.thy ===== *)
theory Zend_Objects_Machine
  imports Zend_Objects
begin

text \<open>
Programs around the object store.  Destructors and free handlers are code of the program and use the store again while a deletion is under
  way; a machine with a control stack describes every interleaving, as an inductive step relation.  The shutdown of the executor, which destructs or
  marks all objects and then frees their contents, is part of it; the deletions of the cycle collector are not.  Its invariant gives that an object
  is destructed and freed at most once and in order, that handles stay unique, and that reference counts are the references there are.
\<close>

text \<open>The next handle, with the block as it is or twice as long.\<close>

lemma put_next:
  assumes ok: "store_ok D w fl" and a: "objects w a = None" "IS_OBJ_VALID a" "a \<notin> D" and r: "\<not> reuses w" and limit: "store_size w \<le> 2 ^ 30"
  shows "\<exists>w'. zend_objects_store_put a (new_object a ob w) = Inr w' \<and> store_ok D w' fl
    \<and> objects w' = (objects w)(a \<mapsto> ob\<lparr>obj_handle := put_handle w\<rparr>) \<and> store_top w' = store_top w + 1
    \<and> no_reuse w' = no_reuse w \<and> obj_log w' = obj_log w @ [New_Obj a (needs_dtor ob)]"
proof -
  note sz = store_okD(1) [OF ok, unfolded store_sizes_def] and fr = store_okD(2) [OF ok]
  define t where "t = store_top w"
  define m where "m = (if store_top w = store_size w then 2 * store_size w else store_size w)"
  define bs where "bs = (if store_top w = store_size w then grow_to m (object_buckets w) else object_buckets w)"
  have len: "length bs = m" "t < m" "m \<le> 2 ^ 31" using sz limit by (auto simp: bs_def m_def t_def)
  have pre: "bs ! i = object_buckets w ! i" if "i < t" for i
    using that sz len by (auto simp: bs_def t_def nth_grow_to)
  have m2: "2 * store_size w mod 2 ^ 32 = 2 * store_size w" using limit by simp
  define w' where "w' = w\<lparr>store_size := m, store_top := t + 1, objects := (objects w)(a \<mapsto> ob\<lparr>obj_handle := t\<rparr>),
    object_buckets := bs[t := Some a], obj_log := obj_log w @ [New_Obj a (needs_dtor ob)]\<rparr>"
  have nr: "\<not> (free_list_head w \<noteq> - 1 \<and> \<not> no_reuse w)" using r by (simp add: reuses_def)
  have "zend_objects_store_put a (new_object a ob w) = Inr w'"
  proof (cases "store_top w = store_size w")
    case True
    have "t < length (grow_to m (object_buckets w))" using len by simp
    then show ?thesis using nr True m2 unfolding zend_objects_store_put_def zend_objects_store_put_cold_def Let_def
      by (auto simp: new_object_def log_event_def take_handle_run w'_def bs_def m_def t_def)
  next
    case False
    have "t < length (object_buckets w)" using len sz False by (simp add: m_def)
    then show ?thesis using nr False unfolding zend_objects_store_put_def Let_def
      by (auto simp: new_object_def log_event_def take_handle_run w'_def bs_def m_def t_def)
  qed
  moreover have "store_ok D w' fl"
  proof (rule store_ok_take [OF ok, where a = a and ob = "ob\<lparr>obj_handle := t\<rparr>"])
    show "store_sizes w'" using len by (simp add: w'_def store_sizes_def)
    have fl: "\<forall>h\<in>set fl. 1 \<le> h \<and> h < t" using fr by (simp add: store_free_def t_def)
    have "free_chain (bs[t := Some a]) (free_list_head w) fl"
      by (rule free_chain_mono [of "object_buckets w"]) (use fr fl len pre in \<open>auto simp: store_free_def\<close>)
    then show "store_free w' fl" using fr fl by (auto simp: store_free_def w'_def)
    show "obj_handle (ob\<lparr>obj_handle := t\<rparr>) \<notin> set fl" using fl by auto
    fix b y assume b: "objects w b = Some y"
    have "obj_handle y < t" using store_okD(3) [OF ok b] by (simp add: stored_def t_def)
    then show "obj_handle y \<noteq> obj_handle (ob\<lparr>obj_handle := t\<rparr>) \<and> object_buckets w' ! obj_handle y = object_buckets w ! obj_handle y"
      using pre by (simp add: w'_def)
  qed (use a len sz in \<open>auto simp: w'_def t_def\<close>)
  moreover have "put_handle w = t" using r by (simp add: put_handle_def t_def)
  ultimately show ?thesis by (intro exI [of _ w']) (simp add: w'_def t_def)
qed

lemma put_run:
  assumes ok: "store_ok D w fl" and a: "objects w a = None" "IS_OBJ_VALID a" "a \<notin> D" and limit: "store_size w \<le> 2 ^ 30"
  obtains w' fl' where "zend_objects_store_put a (new_object a ob w) = Inr w'" "store_ok D w' fl'"
    "objects w' = (objects w)(a \<mapsto> ob\<lparr>obj_handle := put_handle w\<rparr>)" "store_top w \<le> store_top w'"
    "no_reuse w' = no_reuse w" "obj_log w' = obj_log w @ [New_Obj a (needs_dtor ob)]"
proof (cases "reuses w")
  case True
  then show ?thesis using that put_reuse [OF ok a True, of ob] by auto
next
  case False
  then show ?thesis using that put_next [OF ok a False limit, of ob] by auto
qed

lemma put_handle_unused: "store_ok D w fl \<Longrightarrow> objects w b = Some y \<Longrightarrow> obj_handle y \<noteq> put_handle w"
proof -
  assume ok: "store_ok D w fl" and b: "objects w b = Some y"
  show ?thesis
  proof (cases "reuses w")
    case True
    then have "put_handle w \<in> set fl" using store_okD(2) [OF ok] unfolding store_free_def put_handle_def reuses_def by (cases fl) auto
    then show ?thesis using store_okD(4) [OF ok b] by metis
  next
    case False
    then show ?thesis using store_okD(3) [OF ok b] by (simp add: put_handle_def stored_def)
  qed
qed

section \<open>The lives of the objects\<close>

text \<open>What the sequence of the events has made of an object. \<open>Alive d\<close> is an object whose destructor is still due if \<open>d\<close>. Everything else than the
  order of a life is an error: allocated; destructed, or given up, once if that is needed and not otherwise; then its contents freed, or left, once;
  then its memory released.\<close>

datatype life = Absent | Alive bool | Destructed | Freed | Misused

fun live_on :: "u64 \<Rightarrow> obj_event \<Rightarrow> life \<Rightarrow> life" where
  "live_on a (New_Obj b d) l = (if b = a then if l = Absent then Alive d else Misused else l)"
| "live_on a (Dtor_Obj b) l = (if b = a then if l = Alive True then Destructed else Misused else l)"
| "live_on a (Mark_Obj b) l =
     (if b = a then (case l of Alive d \<Rightarrow> Alive False | Destructed \<Rightarrow> Destructed | Freed \<Rightarrow> Freed | _ \<Rightarrow> Misused) else l)"
| "live_on a (Free_Obj b) l = (if b = a then if l = Alive False \<or> l = Destructed then Freed else Misused else l)"
| "live_on a (Skip_Obj b) l = (if b = a then if l = Alive False \<or> l = Destructed then Freed else Misused else l)"
| "live_on a (Efree_Obj b) l = (if b = a then if l = Freed then Absent else Misused else l)"

definition life_of :: "u64 \<Rightarrow> obj_event list \<Rightarrow> life" where
  "life_of a es = fold (live_on a) es Absent"

lemma life_of_simps [simp]: "life_of a [] = Absent" "life_of a (es @ [e]) = live_on a e (life_of a es)"
  by (simp_all add: life_of_def)

section \<open>The program around the store\<close>

text \<open>The handlers run code of the program, which uses the store again. The program is a machine: its control stack holds, for each call of a
  handler that is under way, where the store goes on, and \<open>owned\<close> counts the references to an object that variables hold.\<close>

datatype frame = In_Dtor u64 | Check u64 | In_Free u64 nat | In_Call u64 | In_Storage u64

fun frame_obj :: "frame \<Rightarrow> u64" where
  "frame_obj (In_Dtor a) = a" | "frame_obj (Check a) = a" | "frame_obj (In_Free a h) = a" | "frame_obj (In_Call a) = a"
| "frame_obj (In_Storage a) = a"

fun is_check :: "frame \<Rightarrow> bool" where
  "is_check (Check a) = True" | "is_check _ = False"

record obj_machine =
  mstore :: objects_store
  mframes :: "frame list"
  mowned :: "u64 \<Rightarrow> nat"

definition freeing :: "frame list \<Rightarrow> u64 set" where
  "freeing fs = {a. \<exists>h. In_Free a h \<in> set fs}"

definition user_turn :: "frame list \<Rightarrow> bool" where
  "user_turn fs \<longleftrightarrow> fs = [] \<or> \<not> is_check (hd fs)"

definition fresh_object :: "zend_object \<Rightarrow> bool" where
  "fresh_object ob \<longleftrightarrow> obj_refcount ob = 1 \<and> \<not> obj_is_null ob \<and> \<not> destructor_called ob \<and> \<not> free_called ob"

text \<open>The program allocates objects, copies and drops references, marks an object whose constructor failed, and starts the loops of the shutdown, whose
  turns are \<open>call\<close>, \<open>mark\<close> and \<open>storage\<close>; the store does the rest.  The references that variables hold to one object are kept to $2^{32} - 2$, so
  that the count holds one more.  An object may be referred to again while it is being freed, but not beyond that.  The contents of the objects are
  freed by the executor when no handler runs, and after the destructors have been called or given up.\<close>

inductive obj_step :: "obj_machine \<Rightarrow> obj_machine \<Rightarrow> bool" where
  allocate: "user_turn fs \<Longrightarrow> objects w a = None \<Longrightarrow> IS_OBJ_VALID a \<Longrightarrow> fresh_object ob \<Longrightarrow> store_size w \<le> 2 ^ 30
    \<Longrightarrow> zend_objects_store_put a (new_object a ob w) = Inr w'
    \<Longrightarrow> obj_step \<lparr>mstore = w, mframes = fs, mowned = own\<rparr> \<lparr>mstore = w', mframes = fs, mowned = own(a := 1)\<rparr>"
| addref: "user_turn fs \<Longrightarrow> own a + 2 < 2 ^ 32 \<Longrightarrow> GC_ADDREF a w = Inr w'
    \<Longrightarrow> obj_step \<lparr>mstore = w, mframes = fs, mowned = own\<rparr> \<lparr>mstore = w', mframes = fs, mowned = own(a := own a + 1)\<rparr>"
| ctor_failed: "user_turn fs \<Longrightarrow> own a > 0 \<Longrightarrow> zend_object_store_ctor_failed a w = Inr w'
    \<Longrightarrow> obj_step \<lparr>mstore = w, mframes = fs, mowned = own\<rparr> \<lparr>mstore = w', mframes = fs, mowned = own\<rparr>"
| release: "user_turn fs \<Longrightarrow> own a > 0 \<Longrightarrow> GC_DELREF a w = Inr w' \<Longrightarrow> objects w' a = Some ob \<Longrightarrow> obj_refcount ob > 0
    \<Longrightarrow> obj_step \<lparr>mstore = w, mframes = fs, mowned = own\<rparr> \<lparr>mstore = w', mframes = fs, mowned = own(a := own a - 1)\<rparr>"
| release_last: "user_turn fs \<Longrightarrow> own a > 0 \<Longrightarrow> GC_DELREF a w = Inr w1 \<Longrightarrow> objects w1 a = Some ob \<Longrightarrow> obj_refcount ob = 0
    \<Longrightarrow> dtor_enter a w1 = Inr (w', called)
    \<Longrightarrow> obj_step \<lparr>mstore = w, mframes = fs, mowned = own\<rparr>
          \<lparr>mstore = if called then log_event (Dtor_Obj a) w' else w', mframes = (if called then In_Dtor a else Check a) # fs, mowned = own(a := own a - 1)\<rparr>"
| dtor_return: "GC_DELREF a w = Inr w' \<Longrightarrow> obj_step \<lparr>mstore = w, mframes = In_Dtor a # fs, mowned = own\<rparr> \<lparr>mstore = w', mframes = Check a # fs, mowned = own\<rparr>"
| resurrected: "objects w a = Some ob \<Longrightarrow> obj_refcount ob > 0
    \<Longrightarrow> obj_step \<lparr>mstore = w, mframes = Check a # fs, mowned = own\<rparr> \<lparr>mstore = w, mframes = fs, mowned = own\<rparr>"
| free_call: "objects w a = Some ob \<Longrightarrow> obj_refcount ob = 0 \<Longrightarrow> free_enter a (obj_handle ob) w = Inr (w', True)
    \<Longrightarrow> obj_step \<lparr>mstore = w, mframes = Check a # fs, mowned = own\<rparr>
          \<lparr>mstore = log_event (Free_Obj a) w', mframes = In_Free a (obj_handle ob) # fs, mowned = own\<rparr>"
| free_skip: "objects w a = Some ob \<Longrightarrow> obj_refcount ob = 0 \<Longrightarrow> free_enter a (obj_handle ob) w = Inr (w1, False)
    \<Longrightarrow> free_leave a (obj_handle ob) w1 = Inr w'
    \<Longrightarrow> obj_step \<lparr>mstore = w, mframes = Check a # fs, mowned = own\<rparr> \<lparr>mstore = w', mframes = fs, mowned = own\<rparr>"
| free_return: "own a = 0 \<Longrightarrow> free_leave a h w = Inr w'
    \<Longrightarrow> obj_step \<lparr>mstore = w, mframes = In_Free a h # fs, mowned = own\<rparr> \<lparr>mstore = w', mframes = fs, mowned = own\<rparr>"
| shutdown: "obj_step \<lparr>mstore = w, mframes = fs, mowned = own\<rparr> \<lparr>mstore = w\<lparr>no_reuse := True\<rparr>, mframes = fs, mowned = own\<rparr>"
| call: "user_turn fs \<Longrightarrow> objects w a \<noteq> None \<Longrightarrow> a \<notin> freeing fs \<Longrightarrow> call_enter a w = Inr (w', called)
    \<Longrightarrow> obj_step \<lparr>mstore = w, mframes = fs, mowned = own\<rparr>
          \<lparr>mstore = if called then log_event (Dtor_Obj a) w' else w', mframes = (if called then In_Call a # fs else fs), mowned = own\<rparr>"
| call_return: "GC_DELREF a w = Inr w' \<Longrightarrow> obj_step \<lparr>mstore = w, mframes = In_Call a # fs, mowned = own\<rparr> \<lparr>mstore = w', mframes = fs, mowned = own\<rparr>"
| mark: "user_turn fs \<Longrightarrow> objects w a \<noteq> None \<Longrightarrow> a \<notin> freeing fs \<Longrightarrow> mark_turn a w = Inr w'
    \<Longrightarrow> obj_step \<lparr>mstore = w, mframes = fs, mowned = own\<rparr> \<lparr>mstore = w', mframes = fs, mowned = own\<rparr>"
| storage: "objects w a = Some ob \<Longrightarrow> destructor_called ob \<Longrightarrow> storage_enter fast a w = Inr (w', called)
    \<Longrightarrow> obj_step \<lparr>mstore = w, mframes = [], mowned = own\<rparr>
          \<lparr>mstore = if called then log_event (Free_Obj a) w' else w', mframes = if called then [In_Storage a] else [], mowned = own\<rparr>"
| storage_return: "obj_step \<lparr>mstore = w, mframes = In_Storage a # fs, mowned = own\<rparr> \<lparr>mstore = w, mframes = fs, mowned = own(a := own a + 1)\<rparr>"


section \<open>The invariant of the machine\<close>

definition held :: "frame list \<Rightarrow> u64 \<Rightarrow> frame list" where
  "held fs a = filter (\<lambda>f. frame_obj f = a) fs"

lemma held_simps [simp]: "held [] a = []" "held (f # fs) a = (if frame_obj f = a then f # held fs a else held fs a)"
  by (simp_all add: held_def)

text \<open>At most one call of a handler is under way for an object. The count of the references is what variables hold and one for a handler that runs.\<close>

fun frames_ok :: "frame list \<Rightarrow> nat \<Rightarrow> zend_object \<Rightarrow> bool" where
  "frames_ok [] n ob \<longleftrightarrow> unat (obj_refcount ob) = n"
| "frames_ok [In_Dtor a] n ob \<longleftrightarrow> unat (obj_refcount ob) = n + 1 \<and> destructor_called ob"
| "frames_ok [Check a] n ob \<longleftrightarrow> unat (obj_refcount ob) = n \<and> destructor_called ob"
| "frames_ok [In_Free a h] n ob \<longleftrightarrow> unat (obj_refcount ob) = n + 1 \<and> h = obj_handle ob \<and> destructor_called ob \<and> free_called ob"
| "frames_ok [In_Call a] n ob \<longleftrightarrow> unat (obj_refcount ob) = n + 1 \<and> destructor_called ob"
| "frames_ok [In_Storage a] n ob \<longleftrightarrow> unat (obj_refcount ob) = n + 1 \<and> destructor_called ob \<and> free_called ob"
| "frames_ok (f # g # fs) n ob \<longleftrightarrow> False"

fun life_ok :: "life \<Rightarrow> zend_object \<Rightarrow> bool" where
  "life_ok (Alive d) ob \<longleftrightarrow> \<not> free_called ob \<and> (d \<longleftrightarrow> needs_dtor ob \<and> \<not> destructor_called ob)"
| "life_ok Destructed ob \<longleftrightarrow> \<not> free_called ob \<and> destructor_called ob"
| "life_ok Freed ob \<longleftrightarrow> free_called ob \<and> destructor_called ob"
| "life_ok _ ob \<longleftrightarrow> False"

definition object_ok :: "frame list \<Rightarrow> nat \<Rightarrow> life \<Rightarrow> zend_object option \<Rightarrow> bool" where
  "object_ok fs n l x = (case x of None \<Rightarrow> fs = [] \<and> n = 0 \<and> l = Absent | Some ob \<Rightarrow> \<not> obj_is_null ob \<and> frames_ok fs n ob \<and> life_ok l ob
     \<and> (free_called ob \<or> n + 1 < 2 ^ 32))"

definition machine_ok :: "obj_machine \<Rightarrow> bool" where
  "machine_ok m \<longleftrightarrow> (\<exists>fl. store_ok (freeing (mframes m)) (mstore m) fl)
     \<and> (\<forall>a. object_ok (held (mframes m) a) (mowned m a) (life_of a (obj_log (mstore m))) (objects (mstore m) a))"

lemma freeing_simps [simp]:
  "freeing [] = {}" "freeing (In_Dtor a # fs) = freeing fs" "freeing (Check a # fs) = freeing fs" "freeing (In_Call a # fs) = freeing fs"
  "freeing (In_Storage a # fs) = freeing fs" "freeing (In_Free a h # fs) = insert a (freeing fs)"
  by (auto simp: freeing_def)

lemma freeing_held: "a \<in> freeing fs \<longleftrightarrow> (\<exists>b h. In_Free b h \<in> set (held fs a))"
  by (force simp: freeing_def held_def)

lemma object_okD:
  assumes "object_ok fs n l (Some ob)"
  shows "\<not> obj_is_null ob" "frames_ok fs n ob" "life_ok l ob" "free_called ob \<or> n + 1 < 2 ^ 32"
  using assms by (simp_all add: object_ok_def)

lemma needs_dtor_upd [simp]:
  "needs_dtor (ob\<lparr>obj_refcount := n\<rparr>) = needs_dtor ob" "needs_dtor (ob\<lparr>destructor_called := b\<rparr>) = needs_dtor ob"
  "needs_dtor (ob\<lparr>free_called := b\<rparr>) = needs_dtor ob" "needs_dtor (ob\<lparr>obj_handle := h\<rparr>) = needs_dtor ob"
  by (simp_all add: needs_dtor_def)

lemma life_ok_same:
  "life_ok l ob \<Longrightarrow> life_ok l (ob\<lparr>obj_refcount := n\<rparr>)"
  by (cases l) simp_all

lemma life_ok_due: "life_ok l ob \<Longrightarrow> \<not> destructor_called ob \<Longrightarrow> l = Alive (needs_dtor ob) \<and> \<not> free_called ob"
  by (cases l) auto

lemma frames_ok_cases:
  assumes "frames_ok fs n ob"
  obtains "fs = []" | f where "fs = [f]"
  using assms by (cases fs rule: list.exhaust) (auto elim: frames_ok.elims)

lemma machine_ok_objects:
  assumes "machine_ok m"
  shows "object_ok (held (mframes m) a) (mowned m a) (life_of a (obj_log (mstore m))) (objects (mstore m) a)"
  using assms by (simp add: machine_ok_def)

text \<open>A step concerns one object: the others are as they were.\<close>

lemma machine_ok_step:
  assumes ok: "machine_ok \<lparr>mstore = w, mframes = fs, mowned = own\<rparr>"
    and st: "store_ok (freeing fs') w' fl'"
    and other: "\<And>b. b \<noteq> a \<Longrightarrow> held fs' b = held fs b \<and> own' b = own b \<and> objects w' b = objects w b \<and> life_of b (obj_log w') = life_of b (obj_log w)"
    and self: "object_ok (held fs' a) (own' a) (life_of a (obj_log w')) (objects w' a)"
  shows "machine_ok \<lparr>mstore = w', mframes = fs', mowned = own'\<rparr>"
proof -
  have "object_ok (held fs' b) (own' b) (life_of b (obj_log w')) (objects w' b)" for b
    using machine_ok_objects [OF ok, of b] other [of b] self by (cases "b = a") simp_all
  then show ?thesis using st by (auto simp: machine_ok_def)
qed


lemma GC_DELREF_iff:
  "GC_DELREF a w = Inr w' \<longleftrightarrow> (\<exists>ob. objects w a = Some ob \<and> obj_refcount ob > 0
     \<and> w' = w\<lparr>objects := (objects w)(a \<mapsto> ob\<lparr>obj_refcount := obj_refcount ob - 1\<rparr>)\<rparr>)"
  by (auto simp: GC_DELREF_def upd_object_def get_object_def word_neq_0_conv split: option.splits if_splits)

lemma upd_object_iff:
  "upd_object f a w = Inr w' \<longleftrightarrow> (\<exists>ob. objects w a = Some ob \<and> w' = w\<lparr>objects := (objects w)(a \<mapsto> f ob)\<rparr>)"
  by (auto simp: upd_object_def get_object_def split: option.splits)

text \<open>Counting up and down without wrapping.\<close>

lemma count_inc: "unat x + 1 < 2 ^ 32 \<Longrightarrow> unat (x + 1 :: u32) = unat x + 1"
  by (simp add: unat_word_ariths)

lemma count_dec: "0 < x \<Longrightarrow> unat (x - 1 :: u32) = unat x - 1"
  by (metis unat_minus_one word_neq_0_conv)

lemma count_positive: "0 < (x :: u32) \<longleftrightarrow> 0 < unat x"
  by (simp add: unat_gt_0 word_neq_0_conv)

text \<open>Steps that write the flags and the count of one object.\<close>

lemma machine_ok_upd:
  assumes ok: "machine_ok \<lparr>mstore = w, mframes = fs, mowned = own\<rparr>"
    and a: "objects w a = Some ob" and h: "obj_handle ob' = obj_handle ob"
    and D: "freeing fs' = freeing fs"
    and other: "\<And>b. b \<noteq> a \<Longrightarrow> held fs' b = held fs b" "\<And>b. b \<noteq> a \<Longrightarrow> own' b = own b" "\<And>b l. b \<noteq> a \<Longrightarrow> fold (live_on b) es l = l"
    and self: "object_ok (held fs' a) (own' a) (fold (live_on a) es (life_of a (obj_log w))) (Some ob')"
    and w': "w' = w\<lparr>objects := (objects w)(a \<mapsto> ob'), obj_log := obj_log w @ es\<rparr>"
  shows "machine_ok \<lparr>mstore = w', mframes = fs', mowned = own'\<rparr>"
proof -
  obtain fl where "store_ok (freeing fs) w fl" using ok unfolding machine_ok_def by auto
  then have "store_ok (freeing fs') w' fl" unfolding D by (rule store_ok_upd [OF _ a h]) (simp_all add: w')
  then show ?thesis by (rule machine_ok_step [OF ok, where a = a]) (use other self in \<open>auto simp: w' life_of_def\<close>)
qed

lemma ok_addref:
  assumes "machine_ok \<lparr>mstore = w, mframes = fs, mowned = own\<rparr>" "own a + 2 < 2 ^ 32" "GC_ADDREF a w = Inr w'"
  shows "machine_ok \<lparr>mstore = w', mframes = fs, mowned = own(a := own a + 1)\<rparr>"
proof -
  obtain ob where a: "objects w a = Some ob" and w': "w' = w\<lparr>objects := (objects w)(a \<mapsto> ob\<lparr>obj_refcount := obj_refcount ob + 1\<rparr>)\<rparr>"
    using assms(3) by (auto simp: GC_ADDREF_def upd_object_iff)
  have o: "object_ok (held fs a) (own a) (life_of a (obj_log w)) (Some ob)" using machine_ok_objects [OF assms(1), of a] a by simp
  have "unat (obj_refcount ob) \<le> own a + 1" using object_okD(2) [OF o] by (auto elim!: frames_ok.elims)
  then have "unat (obj_refcount ob + 1) = unat (obj_refcount ob) + 1" using assms(2) by (intro count_inc) simp
  then have "frames_ok (held fs a) (own a + 1) (ob\<lparr>obj_refcount := obj_refcount ob + 1\<rparr>)"
    using object_okD(2) [OF o] by (auto elim!: frames_ok.elims)
  then show ?thesis using o assms(2)
    by (intro machine_ok_upd [OF assms(1) a, where es = "[]"]) (simp_all add: w' object_ok_def life_ok_same)
qed

lemma give_up_run:
  assumes "upd_object (\<lambda>ob. ob\<lparr>destructor_called := True\<rparr>) a (log_event (Mark_Obj a) w) = Inr w'"
  obtains ob where "objects w a = Some ob" "w' = log_event (Mark_Obj a) (w\<lparr>objects := (objects w)(a \<mapsto> ob\<lparr>destructor_called := True\<rparr>)\<rparr>)"
proof -
  obtain ob where "objects w a = Some ob" "w' = (log_event (Mark_Obj a) w)\<lparr>objects := (objects w)(a \<mapsto> ob\<lparr>destructor_called := True\<rparr>)\<rparr>"
    using assms by (auto simp: upd_object_iff log_event_def)
  then show ?thesis using that by (simp add: log_event_def)
qed

lemma ok_give_up:
  assumes ok: "machine_ok \<lparr>mstore = w, mframes = fs, mowned = own\<rparr>" and a: "objects w a = Some ob"
    and w': "w' = log_event (Mark_Obj a) (w\<lparr>objects := (objects w)(a \<mapsto> ob\<lparr>destructor_called := True\<rparr>)\<rparr>)"
  shows "machine_ok \<lparr>mstore = w', mframes = fs, mowned = own\<rparr>"
proof -
  have o: "object_ok (held fs a) (own a) (life_of a (obj_log w)) (Some ob)" using machine_ok_objects [OF ok, of a] a by simp
  have "frames_ok (held fs a) (own a) (ob\<lparr>destructor_called := True\<rparr>)" using object_okD(2) [OF o] by (rule frames_ok.elims) auto
  moreover have "life_ok (live_on a (Mark_Obj a) (life_of a (obj_log w))) (ob\<lparr>destructor_called := True\<rparr>)"
    using object_okD(3) [OF o] by (cases "life_of a (obj_log w)") (auto simp: needs_dtor_def)
  ultimately show ?thesis using o
    by (intro machine_ok_upd [OF ok a, where es = "[Mark_Obj a]"]) (simp_all add: w' log_event_def object_ok_def)
qed

lemma ok_ctor_failed:
  assumes "machine_ok \<lparr>mstore = w, mframes = fs, mowned = own\<rparr>" "zend_object_store_ctor_failed a w = Inr w'"
  shows "machine_ok \<lparr>mstore = w', mframes = fs, mowned = own\<rparr>"
  using assms(2) give_up_run ok_give_up [OF assms(1)] unfolding zend_object_store_ctor_failed_def by blast

lemma ok_mark:
  assumes "machine_ok \<lparr>mstore = w, mframes = fs, mowned = own\<rparr>" "mark_turn a w = Inr w'"
  shows "machine_ok \<lparr>mstore = w', mframes = fs, mowned = own\<rparr>"
  using assms give_up_run ok_give_up [OF assms(1)] unfolding mark_turn_def by (metis sum.inject(2))

lemma ok_delref:
  assumes "machine_ok \<lparr>mstore = w, mframes = fs, mowned = own\<rparr>" "own a > 0" "GC_DELREF a w = Inr w'"
  shows "machine_ok \<lparr>mstore = w', mframes = fs, mowned = own(a := own a - 1)\<rparr>"
proof -
  obtain ob where a: "objects w a = Some ob" "obj_refcount ob > 0"
    and w': "w' = w\<lparr>objects := (objects w)(a \<mapsto> ob\<lparr>obj_refcount := obj_refcount ob - 1\<rparr>)\<rparr>"
    using assms(3) by (auto simp: GC_DELREF_iff)
  have o: "object_ok (held fs a) (own a) (life_of a (obj_log w)) (Some ob)" using machine_ok_objects [OF assms(1), of a] a by simp
  have "frames_ok (held fs a) (own a - 1) (ob\<lparr>obj_refcount := obj_refcount ob - 1\<rparr>)"
    using object_okD(2) [OF o] assms(2) count_dec [OF a(2)] by (auto elim!: frames_ok.elims)
  then show ?thesis using o by (intro machine_ok_upd [OF assms(1) a(1), where es = "[]"]) (auto simp: w' object_ok_def life_ok_same)
qed

lemma ok_dtor_enter:
  assumes ok: "machine_ok \<lparr>mstore = w, mframes = fs, mowned = own\<rparr>" and a: "objects w a = Some ob" "obj_refcount ob = 0"
    and w': "dtor_enter a w = Inr (w', called)" and u: "held fs a = []"
  shows "machine_ok \<lparr>mstore = if called then log_event (Dtor_Obj a) w' else w', mframes = (if called then In_Dtor a else Check a) # fs, mowned = own\<rparr>"
proof -
  have o: "object_ok (held fs a) (own a) (life_of a (obj_log w)) (Some ob)" using machine_ok_objects [OF ok, of a] a by simp
  have n: "own a = 0" using object_okD(2) [OF o] u a by simp
  note l = object_okD(3) [OF o]
  consider (already) "destructor_called ob" "w' = w" "\<not> called"
    | (needed) "\<not> destructor_called ob" "called" "needs_dtor ob"
       "w' = w\<lparr>objects := (objects w)(a \<mapsto> ob\<lparr>destructor_called := True, obj_refcount := 1\<rparr>)\<rparr>"
    | (std) "\<not> destructor_called ob" "\<not> called" "\<not> needs_dtor ob" "w' = w\<lparr>objects := (objects w)(a \<mapsto> ob\<lparr>destructor_called := True\<rparr>)\<rparr>"
    using w' dtor_enter_run [OF a(1)] by (auto split: if_splits)
  then show ?thesis
  proof cases
    case already
    then show ?thesis using a o u n
      by (intro machine_ok_upd [OF ok a(1), where es = "[]" and ob' = ob]) (simp_all add: object_ok_def fun_upd_idem)
  next
    case needed
    then show ?thesis using a o u n life_ok_due [OF l]
      by (intro machine_ok_upd [OF ok a(1), where es = "[Dtor_Obj a]"]) (auto simp: object_ok_def log_event_def)
  next
    case std
    then show ?thesis using a o u n life_ok_due [OF l]
      by (intro machine_ok_upd [OF ok a(1), where es = "[]"]) (auto simp: object_ok_def)
  qed
qed

lemma frames_ok_top:
  assumes "frames_ok (f # fs) n ob"
  shows "fs = []"
  using assms by (cases fs) auto

lemma top_object:
  assumes "machine_ok \<lparr>mstore = w, mframes = f # fs, mowned = own\<rparr>" "frame_obj f = a"
  obtains ob where "objects w a = Some ob" "\<not> obj_is_null ob" "frames_ok [f] (own a) ob" "life_ok (life_of a (obj_log w)) ob" "held fs a = []"
    "free_called ob \<or> own a + 1 < 2 ^ 32"
proof -
  have o: "object_ok (f # held fs a) (own a) (life_of a (obj_log w)) (objects w a)"
    using machine_ok_objects [OF assms(1), of a] assms(2) by simp
  then obtain ob where ob: "objects w a = Some ob" by (auto simp: object_ok_def split: option.splits)
  then have "held fs a = []" using o frames_ok_top unfolding object_ok_def by auto
  then show ?thesis using that o ob by (simp add: object_ok_def)
qed

lemma ok_return:
  assumes ok: "machine_ok \<lparr>mstore = w, mframes = f # fs, mowned = own\<rparr>" and w': "GC_DELREF a w = Inr w'"
    and f: "f = In_Dtor a \<and> fs' = Check a # fs \<or> f = In_Call a \<and> fs' = fs"
  shows "machine_ok \<lparr>mstore = w', mframes = fs', mowned = own\<rparr>"
proof -
  have fa: "frame_obj f = a" using f by auto
  obtain ob where ob: "objects w a = Some ob" "\<not> obj_is_null ob" "frames_ok [f] (own a) ob" "life_ok (life_of a (obj_log w)) ob" "held fs a = []"
    "free_called ob \<or> own a + 1 < 2 ^ 32"
    using top_object [OF ok fa] .
  have w: "w' = w\<lparr>objects := (objects w)(a \<mapsto> ob\<lparr>obj_refcount := obj_refcount ob - 1\<rparr>)\<rparr>" "0 < obj_refcount ob"
    using w' ob(1) by (auto simp: GC_DELREF_iff)
  show ?thesis using ob f count_dec [OF w(2)]
    by (intro machine_ok_upd [OF ok ob(1), where es = "[]"]) (auto simp: w(1) object_ok_def life_ok_same)
qed

lemma ok_resurrected:
  assumes ok: "machine_ok \<lparr>mstore = w, mframes = Check a # fs, mowned = own\<rparr>"
  shows "machine_ok \<lparr>mstore = w, mframes = fs, mowned = own\<rparr>"
proof -
  have fa: "frame_obj (Check a) = a" by simp
  obtain ob where ob: "objects w a = Some ob" "\<not> obj_is_null ob" "frames_ok [Check a] (own a) ob" "life_ok (life_of a (obj_log w)) ob" "held fs a = []"
    "free_called ob \<or> own a + 1 < 2 ^ 32"
    using top_object [OF ok fa] .
  then show ?thesis by (intro machine_ok_upd [OF ok ob(1), where es = "[]" and ob' = ob]) (simp_all add: object_ok_def fun_upd_idem)
qed

lemma ok_storage_return:
  assumes ok: "machine_ok \<lparr>mstore = w, mframes = In_Storage a # fs, mowned = own\<rparr>"
  shows "machine_ok \<lparr>mstore = w, mframes = fs, mowned = own(a := own a + 1)\<rparr>"
proof -
  have fa: "frame_obj (In_Storage a) = a" by simp
  obtain ob where ob: "objects w a = Some ob" "\<not> obj_is_null ob" "frames_ok [In_Storage a] (own a) ob" "life_ok (life_of a (obj_log w)) ob"
    "held fs a = []" "free_called ob \<or> own a + 1 < 2 ^ 32"
    using top_object [OF ok fa] .
  then show ?thesis by (intro machine_ok_upd [OF ok ob(1), where es = "[]" and ob' = ob]) (simp_all add: object_ok_def fun_upd_idem)
qed

text \<open>The contents of an object are freed once: the handler is called if the flag was clear.\<close>

lemma free_enter_ok:
  assumes ok: "machine_ok \<lparr>mstore = w, mframes = Check a # fs, mowned = own\<rparr>" and a: "objects w a = Some ob"
  shows "\<exists>w1 fl. free_enter a (obj_handle ob) w = Inr (w1, \<not> free_called ob) \<and> store_ok (insert a (freeing fs)) w1 fl
    \<and> objects w1 = (objects w)(a \<mapsto> if free_called ob then ob else ob\<lparr>free_called := True, obj_refcount := 1\<rparr>)
    \<and> obj_log w1 = obj_log w \<and> a \<notin> freeing fs"
proof -
  have fa: "frame_obj (Check a) = a" by simp
  have u: "held fs a = []" using top_object [OF ok fa] by metis
  obtain fl where st: "store_ok (freeing fs) w fl" using ok unfolding machine_ok_def by auto
  have nf: "a \<notin> freeing fs" using u by (simp add: freeing_held)
  have s: "stored (freeing fs) w a ob" using store_okD(3) [OF st a] .
  then have h: "obj_handle ob < length (object_buckets w)" "object_buckets w ! obj_handle ob = Some a" "IS_OBJ_VALID a"
    using store_okD(1) [OF st] nf by (simp_all add: stored_def store_sizes_def)
  define w1 where "w1 = w\<lparr>object_buckets := (object_buckets w)[obj_handle ob := Some (SET_OBJ_INVALID a)]\<rparr>"
  define ob' where "ob' = (if free_called ob then ob else ob\<lparr>free_called := True, obj_refcount := 1\<rparr>)"
  define w2 where "w2 = w1\<lparr>objects := (objects w)(a \<mapsto> ob')\<rparr>"
  have run: "free_enter a (obj_handle ob) w = Inr (w2, \<not> free_called ob)"
    using free_enter_run [OF a h] a by (auto simp: Let_def w2_def w1_def ob'_def fun_upd_idem)
  have "store_ok (insert a (freeing fs)) w1 fl" using store_ok_free_enter [OF st a nf] by (simp add: w1_def)
  then have "store_ok (insert a (freeing fs)) w2 fl"
    by (rule store_ok_upd [of _ _ _ a ob ob']) (simp_all add: w2_def w1_def ob'_def a)
  then show ?thesis using run nf by (intro exI [of _ w2] exI [of _ fl]) (simp add: w2_def w1_def ob'_def)
qed

lemma free_leave_ok:
  assumes st: "store_ok (insert a D) w fl" and ob: "objects w a = Some ob" "h = obj_handle ob" and nf: "a \<notin> D"
  shows "\<exists>w'. free_leave a h w = Inr w' \<and> store_ok D w' (h # fl) \<and> objects w' = (objects w)(a := None)
    \<and> obj_log w' = obj_log w @ [Efree_Obj a]"
proof -
  have hl: "h < length (object_buckets w)" using store_okD(1) [OF st] store_okD(3) [OF st ob(1)] ob(2) by (simp add: stored_def store_sizes_def)
  define w' where "w' = w\<lparr>object_buckets := (object_buckets w)[h := Some (SET_OBJ_BUCKET_NUMBER (free_list_head w))],
    free_list_head := int h, objects := (objects w)(a := None), obj_log := obj_log w @ [Efree_Obj a]\<rparr>"
  have "free_leave a h w = Inr w'" using free_leave_run [OF ob(1) hl] by (simp add: w'_def)
  moreover have "store_ok (insert a D - {a}) w' (h # fl)" unfolding w'_def ob(2) by (rule store_ok_free_leave [OF st ob(1)]) simp
  then have "store_ok D w' (h # fl)" using nf by simp
  ultimately show ?thesis by (auto simp: w'_def)
qed

lemma ok_free_call:
  assumes ok: "machine_ok \<lparr>mstore = w, mframes = Check a # fs, mowned = own\<rparr>" and a: "objects w a = Some ob" "obj_refcount ob = 0"
    and f: "\<not> free_called ob"
  shows "\<exists>w'. free_enter a (obj_handle ob) w = Inr (w', True)
    \<and> machine_ok \<lparr>mstore = log_event (Free_Obj a) w', mframes = In_Free a (obj_handle ob) # fs, mowned = own\<rparr>"
proof -
  have fa: "frame_obj (Check a) = a" by simp
  obtain x where "objects w a = Some x" "\<not> obj_is_null x" "frames_ok [Check a] (own a) x" "life_ok (life_of a (obj_log w)) x" "held fs a = []"
    using top_object [OF ok fa] .
  then have ob: "\<not> obj_is_null ob" "destructor_called ob" "own a = 0" "life_ok (life_of a (obj_log w)) ob" "held fs a = []" using a by auto
  have l: "life_of a (obj_log w) = Alive False \<or> life_of a (obj_log w) = Destructed"
    using ob(2,4) f by (cases "life_of a (obj_log w)") auto
  obtain w1 fl where w1: "free_enter a (obj_handle ob) w = Inr (w1, True)" "store_ok (insert a (freeing fs)) w1 fl"
    "objects w1 = (objects w)(a \<mapsto> ob\<lparr>free_called := True, obj_refcount := 1\<rparr>)" "obj_log w1 = obj_log w"
    using free_enter_ok [OF ok a(1)] f by auto
  have "store_ok (insert a (freeing fs)) (log_event (Free_Obj a) w1) fl"
    by (rule store_ok_upd [OF w1(2), of a "ob\<lparr>free_called := True, obj_refcount := 1\<rparr>" "ob\<lparr>free_called := True, obj_refcount := 1\<rparr>"])
      (simp_all add: w1(3) log_event_def)
  then have "machine_ok \<lparr>mstore = log_event (Free_Obj a) w1, mframes = In_Free a (obj_handle ob) # fs, mowned = own\<rparr>"
    using l ob by (intro machine_ok_step [OF ok, where a = a and fl' = fl]) (auto simp: w1(3,4) object_ok_def log_event_def)
  then show ?thesis using w1(1) by blast
qed

lemma ok_free_skip:
  assumes ok: "machine_ok \<lparr>mstore = w, mframes = Check a # fs, mowned = own\<rparr>" and a: "objects w a = Some ob" "obj_refcount ob = 0"
    and f: "free_called ob"
  shows "\<exists>w1 w'. free_enter a (obj_handle ob) w = Inr (w1, False) \<and> free_leave a (obj_handle ob) w1 = Inr w'
    \<and> machine_ok \<lparr>mstore = w', mframes = fs, mowned = own\<rparr>"
proof -
  have fa: "frame_obj (Check a) = a" by simp
  obtain x where "objects w a = Some x" "frames_ok [Check a] (own a) x" "life_ok (life_of a (obj_log w)) x" "held fs a = []"
    using top_object [OF ok fa] .
  then have ob: "own a = 0" "life_of a (obj_log w) = Freed" "held fs a = []" using a f by (cases "life_of a (obj_log w)"; auto)+
  obtain w1 fl where w1: "free_enter a (obj_handle ob) w = Inr (w1, False)" "store_ok (insert a (freeing fs)) w1 fl"
    "objects w1 = (objects w)(a \<mapsto> ob)" "obj_log w1 = obj_log w" "a \<notin> freeing fs"
    using free_enter_ok [OF ok a(1)] f by auto
  obtain w' where w': "free_leave a (obj_handle ob) w1 = Inr w'" "store_ok (freeing fs) w' (obj_handle ob # fl)"
    "objects w' = (objects w1)(a := None)" "obj_log w' = obj_log w1 @ [Efree_Obj a]"
    using free_leave_ok [OF w1(2) _ refl w1(5), of ob] w1(3) by auto
  have "machine_ok \<lparr>mstore = w', mframes = fs, mowned = own\<rparr>"
    by (rule machine_ok_step [OF ok w'(2), where a = a]) (use ob in \<open>auto simp: w'(3,4) w1(3,4) object_ok_def\<close>)
  then show ?thesis using w1(1) w'(1) by blast
qed

lemma ok_free_return:
  assumes ok: "machine_ok \<lparr>mstore = w, mframes = In_Free a h # fs, mowned = own\<rparr>" and own: "own a = 0"
  shows "\<exists>w'. free_leave a h w = Inr w' \<and> machine_ok \<lparr>mstore = w', mframes = fs, mowned = own\<rparr>"
proof -
  have fa: "frame_obj (In_Free a h) = a" by simp
  obtain ob where ob: "objects w a = Some ob" "\<not> obj_is_null ob" "frames_ok [In_Free a h] (own a) ob" "life_ok (life_of a (obj_log w)) ob" "held fs a = []"
    using top_object [OF ok fa] .
  obtain fl where st: "store_ok (insert a (freeing fs)) w fl" using ok unfolding machine_ok_def by auto
  have h: "h = obj_handle ob" "life_of a (obj_log w) = Freed" using ob(3,4) by (cases "life_of a (obj_log w)"; simp)+
  have nf: "a \<notin> freeing fs" using ob(5) by (simp add: freeing_held)
  obtain w' where w': "free_leave a h w = Inr w'" "store_ok (freeing fs) w' (h # fl)" "objects w' = (objects w)(a := None)"
    "obj_log w' = obj_log w @ [Efree_Obj a]" using free_leave_ok [OF st ob(1) h(1) nf] by blast
  have "machine_ok \<lparr>mstore = w', mframes = fs, mowned = own\<rparr>"
    by (rule machine_ok_step [OF ok w'(2), where a = a]) (use ob own h in \<open>auto simp: w'(3,4) object_ok_def\<close>)
  then show ?thesis using w'(1) by blast
qed

text \<open>The executor frees the contents of an object at the shutdown.\<close>

lemma ok_storage:
  assumes ok: "machine_ok \<lparr>mstore = w, mframes = [], mowned = own\<rparr>" and a: "objects w a = Some ob" "destructor_called ob"
    and w': "storage_enter fast a w = Inr (w', called)"
  shows "machine_ok \<lparr>mstore = if called then log_event (Free_Obj a) w' else w', mframes = if called then [In_Storage a] else [], mowned = own\<rparr>"
proof -
  have o: "object_ok [] (own a) (life_of a (obj_log w)) (Some ob)" using machine_ok_objects [OF ok, of a] a by simp
  consider (already) "w' = w" "\<not> called"
    | (handler) "\<not> free_called ob" "called"
      "w' = w\<lparr>objects := (objects w)(a \<mapsto> ob\<lparr>free_called := True, obj_refcount := obj_refcount ob + 1\<rparr>)\<rparr>"
    | (left) "\<not> free_called ob" "\<not> called"
      "w' = log_event (Skip_Obj a) (w\<lparr>objects := (objects w)(a \<mapsto> ob\<lparr>free_called := True\<rparr>)\<rparr>)"
    using w' storage_enter_run [OF a(1), of fast] by (auto split: if_splits)
  then show ?thesis
  proof cases
    case already
    then show ?thesis using ok by simp
  next
    case handler
    have n: "unat (obj_refcount ob) = own a" "own a + 1 < 2 ^ 32" using object_okD [OF o] handler(1) by auto
    then have "unat (obj_refcount ob + 1) = own a + 1" using count_inc [of "obj_refcount ob"] by simp
    moreover have "life_of a (obj_log w) = Alive False \<or> life_of a (obj_log w) = Destructed"
      using object_okD(3) [OF o] handler(1) a(2) by (cases "life_of a (obj_log w)") auto
    ultimately show ?thesis using handler o a(2)
      by (intro machine_ok_upd [OF ok a(1), where es = "[Free_Obj a]"]) (auto simp: object_ok_def log_event_def)
  next
    case left
    moreover have "life_of a (obj_log w) = Alive False \<or> life_of a (obj_log w) = Destructed"
      using object_okD(3) [OF o] left(1) a(2) by (cases "life_of a (obj_log w)") auto
    ultimately show ?thesis using o a(2)
      by (intro machine_ok_upd [OF ok a(1), where es = "[Skip_Obj a]"]) (auto simp: object_ok_def log_event_def)
  qed
qed

lemma ok_shutdown:
  assumes ok: "machine_ok \<lparr>mstore = w, mframes = fs, mowned = own\<rparr>"
  shows "machine_ok \<lparr>mstore = w\<lparr>no_reuse := True\<rparr>, mframes = fs, mowned = own\<rparr>"
proof -
  have "store_ok D (w\<lparr>no_reuse := True\<rparr>) fl = store_ok D w fl" for D fl
    by (simp add: store_ok_def store_sizes_def store_free_def stored_def)
  then show ?thesis using ok by (simp add: machine_ok_def)
qed

lemma ok_call:
  assumes ok: "machine_ok \<lparr>mstore = w, mframes = fs, mowned = own\<rparr>" and a: "objects w a = Some ob" "a \<notin> freeing fs"
    and w': "call_enter a w = Inr (w', called)"
  shows "machine_ok \<lparr>mstore = if called then log_event (Dtor_Obj a) w' else w', mframes = (if called then In_Call a # fs else fs), mowned = own\<rparr>"
proof -
  have o: "object_ok (held fs a) (own a) (life_of a (obj_log w)) (Some ob)" using machine_ok_objects [OF ok, of a] a by simp
  note l = object_okD(3) [OF o]
  consider (already) "w' = w" "\<not> called"
    | (needed) "\<not> destructor_called ob" "called" "needs_dtor ob"
       "w' = w\<lparr>objects := (objects w)(a \<mapsto> ob\<lparr>destructor_called := True, obj_refcount := obj_refcount ob + 1\<rparr>)\<rparr>"
    | (std) "\<not> destructor_called ob" "\<not> called" "\<not> needs_dtor ob" "w' = w\<lparr>objects := (objects w)(a \<mapsto> ob\<lparr>destructor_called := True\<rparr>)\<rparr>"
    using w' call_enter_run [OF a(1)] by (auto split: if_splits)
  then show ?thesis
  proof cases
    case already
    then show ?thesis using ok by simp
  next
    case needed
    have h: "held fs a = []" using object_okD(2) [OF o] needed(1) by (auto elim!: frames_ok.elims)
    then have "unat (obj_refcount ob) = own a" "own a + 1 < 2 ^ 32" using object_okD [OF o] life_ok_due [OF l needed(1)] by auto
    then have "unat (obj_refcount ob + 1) = own a + 1" using count_inc [of "obj_refcount ob"] by simp
    then show ?thesis using needed o h life_ok_due [OF l]
      by (intro machine_ok_upd [OF ok a(1), where es = "[Dtor_Obj a]"]) (auto simp: object_ok_def log_event_def)
  next
    case std
    have "held fs a = []" using object_okD(2) [OF o] std(1) by (auto elim!: frames_ok.elims)
    then show ?thesis using std o life_ok_due [OF l]
      by (intro machine_ok_upd [OF ok a(1), where es = "[]"]) (auto simp: object_ok_def)
  qed
qed

lemma ok_allocate:
  assumes ok: "machine_ok \<lparr>mstore = w, mframes = fs, mowned = own\<rparr>" and a: "objects w a = None" "IS_OBJ_VALID a"
    and ob: "fresh_object ob" and limit: "store_size w \<le> 2 ^ 30"
  shows "\<exists>w'. zend_objects_store_put a (new_object a ob w) = Inr w' \<and> machine_ok \<lparr>mstore = w', mframes = fs, mowned = own(a := 1)\<rparr>"
proof -
  obtain fl where st: "store_ok (freeing fs) w fl" using ok unfolding machine_ok_def by auto
  have o: "held fs a = []" "own a = 0" "life_of a (obj_log w) = Absent"
    using machine_ok_objects [OF ok, of a] a by (simp_all add: object_ok_def)
  have nf: "a \<notin> freeing fs" using o(1) by (simp add: freeing_held)
  obtain w' fl' where w': "zend_objects_store_put a (new_object a ob w) = Inr w'" "store_ok (freeing fs) w' fl'"
    "objects w' = (objects w)(a \<mapsto> ob\<lparr>obj_handle := put_handle w\<rparr>)" "obj_log w' = obj_log w @ [New_Obj a (needs_dtor ob)]"
    using put_run [OF st a nf limit] by metis
  have "machine_ok \<lparr>mstore = w', mframes = fs, mowned = own(a := 1)\<rparr>"
    using w'(2) by (rule machine_ok_step [OF ok, where a = a]) (use w' o ob in \<open>auto simp: object_ok_def fresh_object_def\<close>)
  then show ?thesis using w'(1) by blast
qed

text \<open>The test after a destructor is at the top of the stack.\<close>

definition stack_ok :: "frame list \<Rightarrow> bool" where
  "stack_ok fs \<longleftrightarrow> (\<forall>f\<in>set (tl fs). \<not> is_check f)"

lemma stack_ok_simps: "stack_ok (f # fs) \<Longrightarrow> stack_ok fs" "stack_ok (f # fs) \<longleftrightarrow> stack_ok (g # fs)"
  by (cases fs) (auto simp: stack_ok_def)

lemma stack_ok_single: "stack_ok [f]" "stack_ok []"
  by (simp_all add: stack_ok_def)

lemma stack_ok_push: "stack_ok fs \<Longrightarrow> user_turn fs \<Longrightarrow> stack_ok (f # fs)"
  by (cases fs) (auto simp: stack_ok_def user_turn_def)

lemma obj_step_stack: "obj_step m m' \<Longrightarrow> stack_ok (mframes m) \<Longrightarrow> stack_ok (mframes m')"
  by (induction rule: obj_step.induct) (auto intro: stack_ok_push stack_ok_simps(1) stack_ok_simps(2) [THEN iffD1] simp: stack_ok_single)

lemma user_turn_no_check: "stack_ok fs \<Longrightarrow> user_turn fs \<Longrightarrow> f \<in> set (held fs a) \<Longrightarrow> \<not> is_check f"
  by (cases fs) (auto simp: stack_ok_def user_turn_def held_def split: if_splits)

lemma ok_release_last:
  assumes ok: "machine_ok \<lparr>mstore = w, mframes = fs, mowned = own\<rparr>" and own: "own a > 0" and w1: "GC_DELREF a w = Inr w1"
    and turn: "stack_ok fs" "user_turn fs" and ob: "objects w1 a = Some ob" "obj_refcount ob = 0" and w': "dtor_enter a w1 = Inr (w', called)"
  shows "machine_ok \<lparr>mstore = if called then log_event (Dtor_Obj a) w' else w', mframes = (if called then In_Dtor a else Check a) # fs,
    mowned = own(a := own a - 1)\<rparr>"
proof -
  have ok1: "machine_ok \<lparr>mstore = w1, mframes = fs, mowned = own(a := own a - 1)\<rparr>" using ok_delref [OF ok own w1] .
  have f: "frames_ok (held fs a) (own a - 1) ob" using machine_ok_objects [OF ok1, of a] ob by (simp add: object_ok_def)
  have "\<not> is_check g" if "g \<in> set (held fs a)" for g using user_turn_no_check [OF turn that] .
  then have "held fs a = []" using f ob(2) by (auto elim!: frames_ok.elims)
  then show ?thesis using ok_dtor_enter [OF ok1 ob w'] by blast
qed

lemma obj_step_ok: "obj_step m m' \<Longrightarrow> machine_ok m \<Longrightarrow> stack_ok (mframes m) \<Longrightarrow> machine_ok m'"
proof (induction rule: obj_step.induct)
  case (allocate fs w a ob w' own)
  then show ?case using ok_allocate [of w fs own a ob] by auto
next
  case (call fs w a w' called own)
  then show ?case using ok_call by blast
next
  case (free_call w a ob w' fs own)
  then have "\<not> free_called ob" using free_enter_ok [of w a fs own ob] by auto
  then show ?case using ok_free_call [of w a fs own ob] free_call by auto
next
  case (free_skip w a ob w1 w' fs own)
  then have "free_called ob" using free_enter_ok [of w a fs own ob] by auto
  then show ?case using ok_free_skip [of w a fs own ob] free_skip by auto
next
  case (free_return own a h w w' fs)
  then show ?case using ok_free_return by fastforce
next
  case (release_last fs own a w w1 ob w' called)
  then show ?case using ok_release_last by simp
next
  case (dtor_return a w w' fs own)
  then show ?case using ok_return by blast
next
  case (call_return a w w' fs own)
  then show ?case using ok_return by blast
qed (blast intro: ok_addref ok_ctor_failed ok_mark ok_delref ok_resurrected ok_shutdown ok_storage ok_storage_return)+

definition machine_inv :: "obj_machine \<Rightarrow> bool" where
  "machine_inv m \<longleftrightarrow> machine_ok m \<and> stack_ok (mframes m)"

lemma obj_steps_inv: "obj_step\<^sup>*\<^sup>* m m' \<Longrightarrow> machine_inv m \<Longrightarrow> machine_inv m'"
  by (induction rule: rtranclp_induct) (auto simp: machine_inv_def intro: obj_step_ok obj_step_stack)

text \<open>The program starts with an empty store.\<close>

definition machine_start :: "nat \<Rightarrow> obj_machine" where
  "machine_start n = \<lparr>mstore = zend_objects_store_init \<lparr>object_buckets = [], store_top = 0, store_size = 0, free_list_head = 0, no_reuse = False,
     objects = Map.empty, obj_log = []\<rparr> n, mframes = [], mowned = (\<lambda>_. 0)\<rparr>"

definition machine_reach :: "nat \<Rightarrow> obj_machine \<Rightarrow> bool" where
  "machine_reach n m \<longleftrightarrow> obj_step\<^sup>*\<^sup>* (machine_start n) m"

lemma machine_start_ok: "1 \<le> n \<Longrightarrow> n \<le> 2 ^ 31 \<Longrightarrow> machine_ok (machine_start n)"
proof -
  assume n: "1 \<le> n" "n \<le> 2 ^ 31"
  have "store_ok {} (mstore (machine_start n)) []"
    using n by (simp add: machine_start_def zend_objects_store_init_def store_ok_def store_sizes_def store_free_def)
  then have "\<exists>fl. store_ok (freeing (mframes (machine_start n))) (mstore (machine_start n)) fl" by (auto simp: machine_start_def)
  then show ?thesis unfolding machine_ok_def by (simp add: machine_start_def object_ok_def zend_objects_store_init_def)
qed

lemma machine_reach_inv: "machine_reach n m \<Longrightarrow> 1 \<le> n \<Longrightarrow> n \<le> 2 ^ 31 \<Longrightarrow> machine_inv m"
  unfolding machine_reach_def by (erule obj_steps_inv) (simp add: machine_inv_def machine_start_ok, simp add: machine_start_def stack_ok_def)

lemma machine_reach_steps: "machine_reach n m \<Longrightarrow> obj_step\<^sup>*\<^sup>* m m' \<Longrightarrow> machine_reach n m'"
  unfolding machine_reach_def by (rule rtranclp_trans)


end
