(* ===== verification/Zend_Objects_Run.thy ===== *)
theory Zend_Objects_Run
  imports Zend_Objects_Machine
begin

text \<open>
The code of the object store runs on the machine: the release of the last reference and the loops of the shutdown return, without a failed
  assertion or a wrong access, and are steps of the machine, for every handler that consists of such steps.  The loops reach every object.
\<close>

section \<open>The code runs on the machine\<close>

text \<open>A handler is code of the program: what it does are steps of the machine above its frame.\<close>

definition dtor_behaves :: "handler \<Rightarrow> bool" where
  "dtor_behaves dtor_obj \<longleftrightarrow> (\<forall>a f w fs own. (f = In_Dtor a \<or> f = In_Call a) \<and> machine_inv \<lparr>mstore = w, mframes = f # fs, mowned = own\<rparr> \<longrightarrow>
     (\<exists>own'. obj_step\<^sup>*\<^sup>* \<lparr>mstore = w, mframes = f # fs, mowned = own\<rparr> \<lparr>mstore = dtor_obj a w, mframes = f # fs, mowned = own'\<rparr>))"

text \<open>A free handler may take references to the object whose contents it frees, and drops them again.\<close>

definition free_behaves :: "handler \<Rightarrow> bool" where
  "free_behaves free_obj \<longleftrightarrow> (\<forall>a h w fs own. machine_inv \<lparr>mstore = w, mframes = In_Free a h # fs, mowned = own\<rparr> \<and> own a = 0 \<longrightarrow>
     (\<exists>own'. own' a = 0 \<and> obj_step\<^sup>*\<^sup>* \<lparr>mstore = w, mframes = In_Free a h # fs, mowned = own\<rparr> \<lparr>mstore = free_obj a w, mframes = In_Free a h # fs, mowned = own'\<rparr>))"

lemma dtor_behavesD:
  assumes "dtor_behaves dtor_obj" "f = In_Dtor a \<or> f = In_Call a" "machine_inv \<lparr>mstore = w, mframes = f # fs, mowned = own\<rparr>"
  obtains own' where "obj_step\<^sup>*\<^sup>* \<lparr>mstore = w, mframes = f # fs, mowned = own\<rparr> \<lparr>mstore = dtor_obj a w, mframes = f # fs, mowned = own'\<rparr>"
  using assms unfolding dtor_behaves_def by blast

lemma free_behavesD:
  assumes "free_behaves free_obj" "machine_inv \<lparr>mstore = w, mframes = In_Free a h # fs, mowned = own\<rparr>" "own a = 0"
  obtains own' where "own' a = 0" "obj_step\<^sup>*\<^sup>* \<lparr>mstore = w, mframes = In_Free a h # fs, mowned = own\<rparr> \<lparr>mstore = free_obj a w, mframes = In_Free a h # fs, mowned = own'\<rparr>"
  using assms unfolding free_behaves_def by blast

text \<open>After a handler that holds a reference, the count can be lowered.\<close>

lemma delref_returns:
  assumes "machine_inv \<lparr>mstore = w, mframes = f # fs, mowned = own\<rparr>" "f = In_Dtor a \<or> f = In_Call a"
  obtains w' where "GC_DELREF a w = Inr w'"
proof -
  have "frame_obj f = a" using assms(2) by auto
  then obtain ob where "objects w a = Some ob" "frames_ok [f] (own a) ob" using top_object assms(1) unfolding machine_inv_def by metis
  then have "objects w a = Some ob" "0 < unat (obj_refcount ob)" using assms(2) by auto
  then have "objects w a = Some ob \<and> obj_refcount ob > 0" using count_positive [of "obj_refcount ob"] by blast
  then show ?thesis using that GC_DELREF_iff by blast
qed

lemma free_leave_gone: "free_leave a h w = Inr w' \<Longrightarrow> objects w' a = None"
  by (auto simp: free_leave_def efree_object_def ZEND_OBJECTS_STORE_ADD_TO_FREE_LIST_def get_object_def set_bucket_def log_event_def
      split: if_splits option.splits)

lemma free_phase_runs:
  assumes inv: "machine_inv \<lparr>mstore = w, mframes = Check a # fs, mowned = own\<rparr>" and ob: "objects w a = Some ob" "obj_refcount ob = 0"
    and free: "free_behaves free_obj"
  shows "\<exists>w' own'. obj_bind (free_enter a (obj_handle ob) w) (\<lambda>(w, called). free_leave a (obj_handle ob) (if called then call_free_obj free_obj a w else w)) = Inr w'
    \<and> obj_step\<^sup>*\<^sup>* \<lparr>mstore = w, mframes = Check a # fs, mowned = own\<rparr> \<lparr>mstore = w', mframes = fs, mowned = own'\<rparr> \<and> objects w' a = None"
proof (cases "free_called ob")
  case True
  then obtain w1 w' where w1: "free_enter a (obj_handle ob) w = Inr (w1, False)" and w': "free_leave a (obj_handle ob) w1 = Inr w'"
    using ok_free_skip [OF _ ob] inv unfolding machine_inv_def by blast
  have "obj_step\<^sup>*\<^sup>* \<lparr>mstore = w, mframes = Check a # fs, mowned = own\<rparr> \<lparr>mstore = w', mframes = fs, mowned = own\<rparr>"
    using free_skip [OF ob w1 w'] by blast
  then show ?thesis using w1 w' free_leave_gone [OF w'] by auto
next
  case False
  let ?f = "In_Free a (obj_handle ob)"
  obtain w1 where w1: "free_enter a (obj_handle ob) w = Inr (w1, True)"
    using ok_free_call [OF _ ob False] inv unfolding machine_inv_def by blast
  have own: "own a = 0" using top_object [of w "Check a" fs own a] inv ob unfolding machine_inv_def by auto
  have s1: "obj_step\<^sup>*\<^sup>* \<lparr>mstore = w, mframes = Check a # fs, mowned = own\<rparr> \<lparr>mstore = log_event (Free_Obj a) w1, mframes = ?f # fs, mowned = own\<rparr>"
    using free_call [OF ob w1] by blast
  have i1: "machine_inv \<lparr>mstore = log_event (Free_Obj a) w1, mframes = ?f # fs, mowned = own\<rparr>" using obj_steps_inv [OF s1 inv] .
  define w2 where "w2 = call_free_obj free_obj a w1"
  obtain own' where own': "own' a = 0" "obj_step\<^sup>*\<^sup>* \<lparr>mstore = log_event (Free_Obj a) w1, mframes = ?f # fs, mowned = own\<rparr> \<lparr>mstore = w2, mframes = ?f # fs, mowned = own'\<rparr>"
    using free_behavesD [OF free i1 own] unfolding w2_def call_free_obj_def .
  have i2: "machine_inv \<lparr>mstore = w2, mframes = ?f # fs, mowned = own'\<rparr>" using obj_steps_inv [OF own'(2) i1] .
  obtain w' where w': "free_leave a (obj_handle ob) w2 = Inr w'" using ok_free_return own'(1) i2 unfolding machine_inv_def by blast
  have "obj_step\<^sup>*\<^sup>* \<lparr>mstore = w, mframes = Check a # fs, mowned = own\<rparr> \<lparr>mstore = w', mframes = fs, mowned = own'\<rparr>"
    using s1 own'(2) free_return [where own = own', OF own'(1) w'] by (meson rtranclp.rtrancl_into_rtrancl rtranclp_trans)
  then show ?thesis using w1 w' free_leave_gone [OF w'] by (auto simp: w2_def)
qed

text \<open>After the release of the last reference the object is gone, or its destructor has stored a reference to it.\<close>

definition gone_or_kept :: "u64 \<Rightarrow> (u64 \<Rightarrow> nat) \<Rightarrow> objects_store \<Rightarrow> bool" where
  "gone_or_kept a own w \<longleftrightarrow> objects w a = None \<or> (\<exists>ob. objects w a = Some ob \<and> destructor_called ob \<and> unat (obj_refcount ob) = own a \<and> own a > 0)"

lemma check_runs:
  assumes inv: "machine_inv \<lparr>mstore = w, mframes = Check a # fs, mowned = own\<rparr>" and free: "free_behaves free_obj"
  shows "\<exists>w' own'. obj_bind (get_object w a) (\<lambda>ob. if obj_refcount ob = 0
      then let handle = obj_handle ob in obj_bind (free_enter a handle w) (\<lambda>(w, called). free_leave a handle (if called then call_free_obj free_obj a w else w))
      else Inr w) = Inr w'
    \<and> obj_step\<^sup>*\<^sup>* \<lparr>mstore = w, mframes = Check a # fs, mowned = own\<rparr> \<lparr>mstore = w', mframes = fs, mowned = own'\<rparr> \<and> gone_or_kept a own' w'"
proof -
  obtain ob where ob: "objects w a = Some ob" and f: "frames_ok [Check a] (own a) ob"
    using top_object [of w "Check a" fs own a] inv unfolding machine_inv_def by auto
  show ?thesis
  proof (cases "obj_refcount ob = 0")
    case True
    then show ?thesis using free_phase_runs [OF inv ob True free] by (auto simp: get_object_Some [OF ob] Let_def gone_or_kept_def)
  next
    case False
    then have pos: "0 < obj_refcount ob" by (simp add: word_neq_0_conv)
    then have "gone_or_kept a own w" using f ob by (simp add: gone_or_kept_def count_positive)
    then show ?thesis using resurrected [OF ob pos] False by (auto simp: get_object_Some [OF ob] intro!: r_into_rtranclp exI [of _ own])
  qed
qed

lemma dtor_enter_returns:
  assumes "objects w a = Some ob"
  obtains w' called where "dtor_enter a w = Inr (w', called)"
  using that dtor_enter_run [OF assms] by (cases "destructor_called ob"; cases "needs_dtor ob") auto

lemma dtor_phase_runs:
  assumes inv: "machine_inv \<lparr>mstore = if called then log_event (Dtor_Obj a) w else w, mframes = (if called then In_Dtor a else Check a) # fs, mowned = own\<rparr>"
    and dtor: "dtor_behaves dtor_obj"
  obtains w' own' where "(if called then GC_DELREF a (call_dtor_obj dtor_obj a w) else Inr w) = Inr w'"
    "obj_step\<^sup>*\<^sup>* \<lparr>mstore = if called then log_event (Dtor_Obj a) w else w, mframes = (if called then In_Dtor a else Check a) # fs, mowned = own\<rparr> \<lparr>mstore = w', mframes = Check a # fs, mowned = own'\<rparr>"
proof (cases called)
  case True
  then have i: "machine_inv \<lparr>mstore = log_event (Dtor_Obj a) w, mframes = In_Dtor a # fs, mowned = own\<rparr>" using inv by simp
  obtain own' where o: "obj_step\<^sup>*\<^sup>* \<lparr>mstore = log_event (Dtor_Obj a) w, mframes = In_Dtor a # fs, mowned = own\<rparr>
      \<lparr>mstore = call_dtor_obj dtor_obj a w, mframes = In_Dtor a # fs, mowned = own'\<rparr>"
    using dtor_behavesD [OF dtor _ i] unfolding call_dtor_obj_def by blast
  obtain w' where w': "GC_DELREF a (call_dtor_obj dtor_obj a w) = Inr w'" using delref_returns [OF obj_steps_inv [OF o i]] by blast
  show ?thesis using that [of w' own'] o w' True dtor_return [OF w'] by (auto intro: rtranclp.rtrancl_into_rtrancl)
next
  case False
  then show ?thesis using that [of w own] by simp
qed

lemma release_runs:
  assumes inv: "machine_inv \<lparr>mstore = w, mframes = fs, mowned = own\<rparr>" and turn: "user_turn fs"
    and own: "own a > 0" "objects w a = Some ob" "obj_refcount ob = 1"
    and dtor: "dtor_behaves dtor_obj" and free: "free_behaves free_obj"
  shows "\<exists>w' own'. zend_object_release dtor_obj free_obj root a w = Inr w'
    \<and> obj_step\<^sup>*\<^sup>* \<lparr>mstore = w, mframes = fs, mowned = own\<rparr> \<lparr>mstore = w', mframes = fs, mowned = own'\<rparr> \<and> gone_or_kept a own' w'"
proof -
  define w1 where "w1 = w\<lparr>objects := (objects w)(a \<mapsto> ob\<lparr>obj_refcount := 0\<rparr>)\<rparr>"
  have w1: "GC_DELREF a w = Inr w1" "objects w1 a = Some (ob\<lparr>obj_refcount := 0\<rparr>)" using own by (simp_all add: GC_DELREF_iff w1_def word_neq_0_conv)
  have nn: "\<not> obj_is_null ob" using inv own(2) machine_ok_objects [of _ a] unfolding machine_inv_def by (force simp: object_ok_def)
  obtain w2 called where w2: "dtor_enter a w1 = Inr (w2, called)" using dtor_enter_returns [OF w1(2)] .
  define f where "f = (if called then In_Dtor a else Check a)"
  define v where "v = (if called then log_event (Dtor_Obj a) w2 else w2)"
  define own1 where "own1 = own(a := own a - 1)"
  have s2: "obj_step\<^sup>*\<^sup>* \<lparr>mstore = w, mframes = fs, mowned = own\<rparr> \<lparr>mstore = v, mframes = f # fs, mowned = own1\<rparr>"
    unfolding f_def own1_def v_def using release_last [of fs own a, OF turn own(1) w1 _ w2] by auto
  have i2: "machine_inv \<lparr>mstore = v, mframes = f # fs, mowned = own1\<rparr>" using obj_steps_inv [OF s2 inv] .
  obtain w3 own3 where w3: "(if called then GC_DELREF a (call_dtor_obj dtor_obj a w2) else Inr w2) = Inr w3"
    and s3: "obj_step\<^sup>*\<^sup>* \<lparr>mstore = v, mframes = f # fs, mowned = own1\<rparr> \<lparr>mstore = w3, mframes = Check a # fs, mowned = own3\<rparr>"
    using dtor_phase_runs [OF i2 [unfolded f_def v_def] dtor] unfolding f_def v_def .
  have i3: "machine_inv \<lparr>mstore = w3, mframes = Check a # fs, mowned = own3\<rparr>" using obj_steps_inv [OF s3 i2] .
  obtain w' own' where w': "obj_bind (get_object w3 a) (\<lambda>ob. if obj_refcount ob = 0
      then let handle = obj_handle ob in obj_bind (free_enter a handle w3) (\<lambda>(w, called). free_leave a handle (if called then call_free_obj free_obj a w else w))
      else Inr w3) = Inr w'"
    and s4: "obj_step\<^sup>*\<^sup>* \<lparr>mstore = w3, mframes = Check a # fs, mowned = own3\<rparr> \<lparr>mstore = w', mframes = fs, mowned = own'\<rparr>" "gone_or_kept a own' w'"
    using check_runs [OF i3 free] by blast
  have "zend_object_release dtor_obj free_obj root a w = Inr w'"
    using w' by (simp add: zend_object_release_def zend_objects_store_del_def w1 get_object_Some [OF w1(2)] nn w2 w3)
  then show ?thesis using rtranclp_trans [OF rtranclp_trans [OF s2 s3] s4(1)] s4(2) by blast
qed


section \<open>Shutdown\<close>

text \<open>What a step does to the objects once handles are not used again.\<close>

definition outlives :: "zend_object \<Rightarrow> zend_object \<Rightarrow> bool" where
  "outlives ob ob' \<longleftrightarrow> obj_handle ob' = obj_handle ob \<and> (destructor_called ob \<longrightarrow> destructor_called ob') \<and> (free_called ob \<longrightarrow> free_called ob')"

definition evolves :: "objects_store \<Rightarrow> objects_store \<Rightarrow> bool" where
  "evolves w w' \<longleftrightarrow> (no_reuse w \<longrightarrow> no_reuse w' \<and> store_top w \<le> store_top w'
     \<and> (\<forall>a ob'. objects w' a = Some ob' \<longrightarrow> store_top w \<le> obj_handle ob' \<or> (\<exists>ob. objects w a = Some ob \<and> outlives ob ob')))"

lemma outlives_trans: "outlives x y \<Longrightarrow> outlives y z \<Longrightarrow> outlives x z"
  by (simp add: outlives_def)

lemma evolves_refl: "evolves w w"
  by (auto simp: evolves_def outlives_def)

lemma evolvesD:
  assumes "evolves w w'" "no_reuse w"
  shows "no_reuse w'" "store_top w \<le> store_top w'"
    "objects w' a = Some ob' \<Longrightarrow> store_top w \<le> obj_handle ob' \<or> (\<exists>ob. objects w a = Some ob \<and> outlives ob ob')"
  using assms unfolding evolves_def by simp_all

lemma evolves_trans:
  assumes 1: "evolves w w'" and 2: "evolves w' w''"
  shows "evolves w w''"
  unfolding evolves_def
proof (intro impI conjI allI)
  assume r: "no_reuse w"
  note r' = evolvesD(1) [OF 1 r]
  show "no_reuse w''" "store_top w \<le> store_top w''" using evolvesD(1,2) [OF 2 r'] evolvesD(2) [OF 1 r] by simp_all
  fix a ob'' assume a: "objects w'' a = Some ob''"
  show "store_top w \<le> obj_handle ob'' \<or> (\<exists>ob. objects w a = Some ob \<and> outlives ob ob'')"
    using evolvesD(3) [OF 2 r' a]
  proof (elim disjE exE conjE)
    fix ob' assume ob': "objects w' a = Some ob'" "outlives ob' ob''"
    then show ?thesis using evolvesD(3) [OF 1 r ob'(1)] outlives_trans by (auto simp: outlives_def)
  qed (use evolvesD(2) [OF 1 r] in simp)
qed

lemma evolves_log_event: "evolves w w' \<Longrightarrow> evolves w (log_event e w')"
  by (simp add: evolves_def log_event_def)

lemma evolves_delref: "GC_DELREF a w = Inr w' \<Longrightarrow> evolves w w'"
  by (auto simp: GC_DELREF_iff evolves_def outlives_def split: if_splits)

lemma evolves_dtor_enter: "objects w a = Some ob \<Longrightarrow> dtor_enter a w = Inr (w', called) \<Longrightarrow> evolves w w'"
  by (auto simp: dtor_enter_run log_event_def evolves_def outlives_def split: if_splits)

lemma evolves_call_enter: "objects w a = Some ob \<Longrightarrow> call_enter a w = Inr (w', called) \<Longrightarrow> evolves w w'"
  by (auto simp: call_enter_run log_event_def evolves_def outlives_def split: if_splits)

lemma evolves_storage_enter: "objects w a = Some ob \<Longrightarrow> storage_enter fast a w = Inr (w', called) \<Longrightarrow> evolves w w'"
  by (auto simp: storage_enter_run log_event_def evolves_def outlives_def split: if_splits)

lemma evolves_give_up:
  assumes "upd_object (\<lambda>ob. ob\<lparr>destructor_called := True\<rparr>) a (log_event (Mark_Obj a) w) = Inr w'"
  shows "evolves w w'"
  using assms by (rule give_up_run) (auto simp: log_event_def evolves_def outlives_def split: if_splits)

lemma evolves_mark: "mark_turn a w = Inr w' \<Longrightarrow> evolves w w'"
  using evolves_give_up evolves_refl by (auto simp: mark_turn_def split: if_splits)

lemma evolves_free_enter: "free_enter a h w = Inr (w', called) \<Longrightarrow> evolves w w'"
  by (auto simp: evolves_def outlives_def free_enter_def get_object_def get_bucket_def set_bucket_def upd_object_def log_event_def
      split: if_splits option.splits)

lemma evolves_free_leave: "free_leave a h w = Inr w' \<Longrightarrow> evolves w w'"
  by (auto simp: evolves_def outlives_def free_leave_def efree_object_def ZEND_OBJECTS_STORE_ADD_TO_FREE_LIST_def get_object_def set_bucket_def log_event_def
      split: if_splits option.splits)

lemma evolves_put:
  assumes ok: "store_ok D w fl" and a: "objects w a = None" "IS_OBJ_VALID a" "a \<notin> D" and limit: "store_size w \<le> 2 ^ 30"
    and p: "zend_objects_store_put a (new_object a ob w) = Inr w'"
  shows "evolves w w'"
proof -
  have "objects w' = (objects w)(a \<mapsto> ob\<lparr>obj_handle := put_handle w\<rparr>)" "store_top w \<le> store_top w'" "no_reuse w' = no_reuse w"
    using put_run [OF ok a limit] p by (metis sum.inject(2))+
  then show ?thesis using a by (auto simp: evolves_def outlives_def put_handle_def reuses_def split: if_splits)
qed

lemma obj_step_evolves: "obj_step m m' \<Longrightarrow> machine_inv m \<Longrightarrow> evolves (mstore m) (mstore m')"
proof (induction rule: obj_step.induct)
  case (allocate fs w a ob w' own)
  obtain fl where ok: "store_ok (freeing fs) w fl" using allocate unfolding machine_inv_def machine_ok_def by auto
  have "held fs a = []" using machine_ok_objects [of "\<lparr>mstore = w, mframes = fs, mowned = own\<rparr>" a] allocate
    by (simp add: object_ok_def machine_inv_def)
  then have "a \<notin> freeing fs" by (simp add: freeing_held)
  then show ?case using evolves_put [OF ok] allocate by simp
next
  case (addref fs own a w w')
  then show ?case by (auto simp: GC_ADDREF_def upd_object_iff evolves_def outlives_def split: if_splits)
next
  case (ctor_failed fs own a w w')
  then show ?case using evolves_give_up by (simp add: zend_object_store_ctor_failed_def)
next
  case (release_last fs own a w w1 ob w' called)
  then have "evolves w w'" using evolves_trans [OF evolves_delref evolves_dtor_enter] by blast
  then show ?case using evolves_log_event by simp
next
  case (free_skip w a ob w1 w' fs own)
  then show ?case using evolves_trans [OF evolves_free_enter evolves_free_leave] by simp
next
  case (shutdown w fs own)
  then show ?case by (auto simp: evolves_def outlives_def)
qed (auto intro: evolves_delref evolves_refl evolves_free_enter evolves_free_leave evolves_call_enter evolves_mark evolves_storage_enter evolves_log_event)

lemma obj_steps_evolve: "obj_step\<^sup>*\<^sup>* m m' \<Longrightarrow> machine_inv m \<Longrightarrow> evolves (mstore m) (mstore m')"
proof (induction rule: rtranclp_induct)
  case base
  show ?case by (rule evolves_refl)
next
  case (step y z)
  then show ?case using evolves_trans obj_step_evolves obj_steps_inv by blast
qed


lemma free_chain_bucket: "free_chain bs head hs \<Longrightarrow> h \<in> set hs \<Longrightarrow> \<exists>n. h < length bs \<and> bs ! h = Some (SET_OBJ_BUCKET_NUMBER n)"
  by (induction hs arbitrary: head) auto

lemma bucket_cases:
  assumes ok: "store_ok D w fl" and i: "1 \<le> i" "i < store_top w"
  obtains (object) a ob where "get_bucket w i = Inr a" "IS_OBJ_VALID a" "objects w a = Some ob" "obj_handle ob = i" "a \<notin> D"
  | (other) b where "get_bucket w i = Inr b" "\<not> IS_OBJ_VALID b" "\<And>a ob. objects w a = Some ob \<Longrightarrow> obj_handle ob = i \<Longrightarrow> a \<in> D"
proof -
  have l: "i < length (object_buckets w)" using store_okD(1) [OF ok] i by (simp add: store_sizes_def)
  consider "i \<in> set fl" | a ob where "objects w a = Some ob" "obj_handle ob = i" using ok i unfolding store_ok_def by metis
  then show ?thesis
  proof cases
    case 1
    then obtain n where n: "object_buckets w ! i = Some (SET_OBJ_BUCKET_NUMBER n)"
      using store_okD(2) [OF ok] free_chain_bucket unfolding store_free_def by blast
    show ?thesis
    proof (rule other [OF get_bucket_Some [OF l n] invalid_buckets(2)])
      fix a ob assume "objects w a = Some ob" "obj_handle ob = i"
      then show "a \<in> D" using store_okD(4) [OF ok, of a ob] 1 by simp
    qed
  next
    case 2
    then have s: "IS_OBJ_VALID a" "object_buckets w ! i = Some (if a \<in> D then SET_OBJ_INVALID a else a)"
      using store_okD(3) [OF ok 2(1)] by (simp_all add: stored_def)
    show ?thesis
    proof (cases "a \<in> D")
      case True
      then have b: "get_bucket w i = Inr (SET_OBJ_INVALID a)" using get_bucket_Some [OF l] s by simp
      show ?thesis
      proof (rule other [OF b invalid_buckets(1)])
        fix b x assume "objects w b = Some x" "obj_handle x = i"
        then show "b \<in> D" using store_ok_handles [OF ok 2(1), of b x] 2(2) True by simp
      qed
    next
      case False
      then show ?thesis using object [of a ob] get_bucket_Some [OF l] s 2 by simp
    qed
  qed
qed

definition called_below :: "nat \<Rightarrow> objects_store \<Rightarrow> bool" where
  "called_below i w \<longleftrightarrow> (\<forall>a ob. objects w a = Some ob \<and> obj_handle ob < i \<longrightarrow> destructor_called ob)"

lemma called_below_evolves:
  assumes e: "evolves w w'" "no_reuse w" and below: "called_below i w" and i: "i \<le> store_top w"
  shows "called_below i w'"
  unfolding called_below_def
proof (intro allI impI, elim conjE)
  fix a ob assume a: "objects w' a = Some ob" and h: "obj_handle ob < i"
  then obtain x where "objects w a = Some x" "obj_handle ob = obj_handle x" "destructor_called x \<longrightarrow> destructor_called ob"
    using evolvesD(3) [OF e a] i by (auto simp: outlives_def)
  then show "destructor_called ob" using below h unfolding called_below_def by auto
qed

lemma freeing_called:
  assumes "machine_inv \<lparr>mstore = w, mframes = fs, mowned = own\<rparr>" "a \<in> freeing fs" "objects w a = Some ob"
  shows "destructor_called ob"
proof -
  have "frames_ok (held fs a) (own a) ob" using assms machine_ok_objects [of "\<lparr>mstore = w, mframes = fs, mowned = own\<rparr>" a]
    unfolding machine_inv_def by (simp add: object_ok_def)
  then show ?thesis using assms(2) unfolding freeing_held by (auto elim!: frames_ok.elims)
qed

lemma call_enter_returns:
  assumes "objects w a = Some ob"
  obtains w' called ob' where "call_enter a w = Inr (w', called)" "objects w' a = Some ob'" "destructor_called ob'" "obj_handle ob' = obj_handle ob"
    "store_top w' = store_top w"
  using that call_enter_run [OF assms] assms by (cases "destructor_called ob"; cases "needs_dtor ob") (auto simp: log_event_def)

lemma delref_top: "GC_DELREF a w = Inr w' \<Longrightarrow> store_top w' = store_top w"
  by (auto simp: GC_DELREF_iff)

lemma call_phase_runs:
  assumes inv: "machine_inv \<lparr>mstore = if called then log_event (Dtor_Obj a) w else w, mframes = if called then In_Call a # fs else fs, mowned = own\<rparr>"
    and dtor: "dtor_behaves dtor_obj"
    and bound: "\<And>a w. store_top w \<le> N \<Longrightarrow> store_top (dtor_obj a w) \<le> N" and N: "store_top w \<le> N"
  obtains w' own' where "(if called then GC_DELREF a (call_dtor_obj dtor_obj a w) else Inr w) = Inr w'" "store_top w' \<le> N"
    "obj_step\<^sup>*\<^sup>* \<lparr>mstore = if called then log_event (Dtor_Obj a) w else w, mframes = if called then In_Call a # fs else fs, mowned = own\<rparr> \<lparr>mstore = w', mframes = fs, mowned = own'\<rparr>"
proof (cases called)
  case True
  then have i: "machine_inv \<lparr>mstore = log_event (Dtor_Obj a) w, mframes = In_Call a # fs, mowned = own\<rparr>" using inv by simp
  obtain own' where o: "obj_step\<^sup>*\<^sup>* \<lparr>mstore = log_event (Dtor_Obj a) w, mframes = In_Call a # fs, mowned = own\<rparr>
      \<lparr>mstore = call_dtor_obj dtor_obj a w, mframes = In_Call a # fs, mowned = own'\<rparr>"
    using dtor_behavesD [OF dtor _ i] unfolding call_dtor_obj_def by blast
  obtain w' where w': "GC_DELREF a (call_dtor_obj dtor_obj a w) = Inr w'" using delref_returns [OF obj_steps_inv [OF o i]] by blast
  have "store_top (log_event (Dtor_Obj a) w) \<le> N" using N by (simp add: log_event_def)
  then have "store_top w' \<le> N" using bound delref_top [OF w'] by (simp add: call_dtor_obj_def)
  then show ?thesis using that [of w' own'] o w' True call_return [OF w'] by (auto intro: rtranclp.rtrancl_into_rtrancl)
next
  case False
  then show ?thesis using that [of w own] N by simp
qed

text \<open>A turn of the loop leaves the object of the handle with its destructor called.\<close>

lemma call_destructor_runs:
  assumes inv: "machine_inv \<lparr>mstore = w, mframes = fs, mowned = own\<rparr>" and turn: "user_turn fs" and i: "1 \<le> i" "i < store_top w"
    and dtor: "dtor_behaves dtor_obj" and bound: "\<And>a w. store_top w \<le> N \<Longrightarrow> store_top (dtor_obj a w) \<le> N" and N: "store_top w \<le> N"
    and r: "no_reuse w" and below: "called_below i w"
  shows "\<exists>w' own'. call_destructor dtor_obj i w = Inr w' \<and> obj_step\<^sup>*\<^sup>* \<lparr>mstore = w, mframes = fs, mowned = own\<rparr> \<lparr>mstore = w', mframes = fs, mowned = own'\<rparr>
    \<and> store_top w' \<le> N \<and> no_reuse w' \<and> called_below (Suc i) w' \<and> Suc i \<le> store_top w'"
proof -
  let ?m = "\<lparr>mstore = w, mframes = fs, mowned = own\<rparr>"
  obtain fl where ok: "store_ok (freeing fs) w fl" using inv unfolding machine_inv_def machine_ok_def by auto
  from ok i show ?thesis
  proof (cases rule: bucket_cases)
    case (object a ob)
    obtain w1 called ob' where w1: "call_enter a w = Inr (w1, called)" "objects w1 a = Some ob'" "destructor_called ob'" "obj_handle ob' = obj_handle ob"
      "store_top w1 = store_top w" using call_enter_returns [OF object(3)] .
    let ?fs = "if called then In_Call a # fs else fs"
    define v where "v = (if called then log_event (Dtor_Obj a) w1 else w1)"
    have v: "objects v = objects w1" "store_top v = store_top w1" by (simp_all add: v_def log_event_def)
    have s1: "obj_step\<^sup>*\<^sup>* ?m \<lparr>mstore = v, mframes = ?fs, mowned = own\<rparr>"
      unfolding v_def using call [OF turn _ object(5) w1(1)] object(3) by auto
    have i1: "machine_inv \<lparr>mstore = v, mframes = ?fs, mowned = own\<rparr>" using obj_steps_inv [OF s1 inv] .
    obtain fl1 where ok1: "store_ok (freeing ?fs) v fl1" using i1 unfolding machine_inv_def machine_ok_def by auto
    have e1: "evolves w v" using evolves_call_enter [OF object(3) w1(1)] evolves_log_event by (simp add: v_def)
    have r1: "no_reuse v" using evolvesD(1) [OF e1 r] .
    have "called_below i v" using called_below_evolves [OF e1 r below] i by simp
    moreover have "destructor_called x" if "objects v b = Some x" "obj_handle x = i" for b x
      using store_ok_handles [OF ok1 that(1), of a ob'] that w1 object(4) v by simp
    ultimately have c1: "called_below (Suc i) v" unfolding called_below_def less_Suc_eq by blast
    obtain w' own' where w': "(if called then GC_DELREF a (call_dtor_obj dtor_obj a w1) else Inr w1) = Inr w'" "store_top w' \<le> N"
      and s2: "obj_step\<^sup>*\<^sup>* \<lparr>mstore = v, mframes = ?fs, mowned = own\<rparr> \<lparr>mstore = w', mframes = fs, mowned = own'\<rparr>"
      using call_phase_runs [OF i1 [unfolded v_def] dtor bound] N w1(5) unfolding v_def by metis
    have e2: "evolves v w'" using obj_steps_evolve [OF s2 i1] by simp
    have "called_below (Suc i) w'" "no_reuse w'" "Suc i \<le> store_top w'"
      using called_below_evolves [OF e2 r1 c1] evolvesD(1,2) [OF e2 r1] w1(5) v(2) i by simp_all
    moreover have "call_destructor dtor_obj i w = Inr w'" using object w1(1) w'(1) by (simp add: call_destructor_def)
    ultimately show ?thesis using w'(2) rtranclp_trans [OF s1 s2] by blast
  next
    case (other b)
    then have "call_destructor dtor_obj i w = Inr w" by (simp add: call_destructor_def)
    moreover have "called_below (Suc i) w"
      using below other(3) freeing_called [OF inv] unfolding called_below_def less_Suc_eq by blast
    ultimately show ?thesis using N r i by (intro exI [of _ w] exI [of _ own]) auto
  qed
qed


lemma call_destructors_loop_runs:
  assumes dtor: "dtor_behaves dtor_obj" and bound: "\<And>a w. store_top w \<le> N \<Longrightarrow> store_top (dtor_obj a w) \<le> N" and turn: "user_turn fs"
  shows "machine_inv \<lparr>mstore = w, mframes = fs, mowned = own\<rparr> \<Longrightarrow> 1 \<le> i \<Longrightarrow> i \<le> store_top w \<Longrightarrow> store_top w \<le> N \<Longrightarrow> no_reuse w \<Longrightarrow> called_below i w
    \<Longrightarrow> \<exists>w' own'. call_destructors_loop dtor_obj i w = Some (Inr w')
      \<and> obj_step\<^sup>*\<^sup>* \<lparr>mstore = w, mframes = fs, mowned = own\<rparr> \<lparr>mstore = w', mframes = fs, mowned = own'\<rparr> \<and> called_below (store_top w') w'"
proof (induction "N - i" arbitrary: i w own rule: less_induct)
  case less
  note inv = less.prems(1) and N = less.prems(4) and r = less.prems(5) and below = less.prems(6)
  show ?case
  proof (cases "i < store_top w")
    case False
    then have "i = store_top w" using less.prems(3) by simp
    then show ?thesis using below False call_destructors_loop.simps [of dtor_obj i w] by auto
  next
    case True
    obtain w1 own1 where w1: "call_destructor dtor_obj i w = Inr w1" "store_top w1 \<le> N" "no_reuse w1" "called_below (Suc i) w1" "Suc i \<le> store_top w1"
      and s1: "obj_step\<^sup>*\<^sup>* \<lparr>mstore = w, mframes = fs, mowned = own\<rparr> \<lparr>mstore = w1, mframes = fs, mowned = own1\<rparr>"
      using call_destructor_runs [OF inv turn less.prems(2) True dtor bound N r below] by blast
    have lt: "N - Suc i < N - i" using True N by linarith
    obtain w' own' where w': "call_destructors_loop dtor_obj (Suc i) w1 = Some (Inr w')" "called_below (store_top w') w'"
      and s2: "obj_step\<^sup>*\<^sup>* \<lparr>mstore = w1, mframes = fs, mowned = own1\<rparr> \<lparr>mstore = w', mframes = fs, mowned = own'\<rparr>"
      using less.hyps [OF lt, of w1 own1] obj_steps_inv [OF s1 inv] w1 True N by auto
    have "call_destructors_loop dtor_obj i w = Some (Inr w')" using call_destructors_loop.simps [of dtor_obj i w] True w1(1) w'(1) by simp
    then show ?thesis using w'(2) rtranclp_trans [OF s1 s2] by blast
  qed
qed

lemma call_destructors_runs:
  assumes inv: "machine_inv \<lparr>mstore = w, mframes = fs, mowned = own\<rparr>" and turn: "user_turn fs"
    and dtor: "dtor_behaves dtor_obj" and bound: "\<And>a w. store_top w \<le> N \<Longrightarrow> store_top (dtor_obj a w) \<le> N" and N: "store_top w \<le> N"
  shows "\<exists>w' own'. zend_objects_store_call_destructors dtor_obj w = Some (Inr w')
    \<and> obj_step\<^sup>*\<^sup>* \<lparr>mstore = w, mframes = fs, mowned = own\<rparr> \<lparr>mstore = w', mframes = fs, mowned = own'\<rparr>
    \<and> (\<forall>a ob. objects w' a = Some ob \<longrightarrow> destructor_called ob)"
proof -
  define w0 where "w0 = w\<lparr>no_reuse := True\<rparr>"
  have s0: "obj_step\<^sup>*\<^sup>* \<lparr>mstore = w, mframes = fs, mowned = own\<rparr> \<lparr>mstore = w0, mframes = fs, mowned = own\<rparr>"
    unfolding w0_def using shutdown by blast
  have i0: "machine_inv \<lparr>mstore = w0, mframes = fs, mowned = own\<rparr>" using obj_steps_inv [OF s0 inv] .
  obtain fl where ok: "store_ok (freeing fs) w0 fl" using i0 unfolding machine_inv_def machine_ok_def by auto
  have h: "1 \<le> obj_handle ob" if "objects w0 a = Some ob" for a ob using store_okD(3) [OF ok that] by (simp add: stored_def)
  have top: "1 \<le> store_top w0" using store_okD(1) [OF ok] by (simp add: store_sizes_def)
  have c: "called_below 1 w0" using h unfolding called_below_def by fastforce
  obtain w' own' where w': "call_destructors_loop dtor_obj 1 w0 = Some (Inr w')" "called_below (store_top w') w'"
    and s1: "obj_step\<^sup>*\<^sup>* \<lparr>mstore = w0, mframes = fs, mowned = own\<rparr> \<lparr>mstore = w', mframes = fs, mowned = own'\<rparr>"
    using call_destructors_loop_runs [OF dtor bound turn i0 _ top _ _ c] N by (auto simp: w0_def)
  have "zend_objects_store_call_destructors dtor_obj w = Some (Inr w')"
    using w'(1) top call_destructors_loop.simps [of dtor_obj 1 w0] unfolding zend_objects_store_call_destructors_def Let_def w0_def [symmetric]
    by (cases "store_top w0 > 1") auto
  moreover obtain fl' where ok': "store_ok (freeing fs) w' fl'" using obj_steps_inv [OF s1 i0] unfolding machine_inv_def machine_ok_def by auto
  then have "destructor_called ob" if "objects w' a = Some ob" for a ob
    using w'(2) that store_okD(3) [OF ok' that] unfolding called_below_def stored_def by blast
  ultimately show ?thesis using rtranclp_trans [OF s0 s1] by blast
qed


text \<open>The destructors that were due have been called, or given up by a handler, and no others.\<close>

definition log_grows :: "objects_store \<Rightarrow> objects_store \<Rightarrow> bool" where
  "log_grows w w' \<longleftrightarrow> (\<exists>es. obj_log w' = obj_log w @ es)"

lemma log_growsI: "obj_log w' = obj_log w \<Longrightarrow> log_grows w w'" "obj_log w' = obj_log w @ es \<Longrightarrow> log_grows w w'"
  by (simp_all add: log_grows_def)

lemma log_grows_trans: "log_grows w w' \<Longrightarrow> log_grows w' w'' \<Longrightarrow> log_grows w w''"
  by (auto simp: log_grows_def)

lemma put_log: "zend_objects_store_put a w = Inr w' \<Longrightarrow> obj_log w' = obj_log w"
  by (auto simp: zend_objects_store_put_def zend_objects_store_put_cold_def take_handle_def upd_object_def get_object_def set_bucket_def get_bucket_def
      Let_def split: if_splits option.splits)

lemma parts_log:
  "GC_ADDREF a w = Inr w' \<Longrightarrow> log_grows w w'" "GC_DELREF a w = Inr w' \<Longrightarrow> log_grows w w'"
  "zend_object_store_ctor_failed a w = Inr w' \<Longrightarrow> log_grows w w'" "mark_turn a w = Inr w' \<Longrightarrow> log_grows w w'"
  "dtor_enter a w = Inr (w', called) \<Longrightarrow> log_grows w w'" "call_enter a w = Inr (w', called) \<Longrightarrow> log_grows w w'"
  "storage_enter fast a w = Inr (w', called) \<Longrightarrow> log_grows w w'" "free_enter a h w = Inr (w', called) \<Longrightarrow> log_grows w w'"
  "free_leave a h w = Inr w' \<Longrightarrow> log_grows w w'"
  by (auto simp: GC_ADDREF_def GC_DELREF_iff zend_object_store_ctor_failed_def mark_turn_def dtor_enter_def call_enter_def storage_enter_def
      free_enter_def free_leave_def efree_object_def ZEND_OBJECTS_STORE_ADD_TO_FREE_LIST_def upd_object_def get_object_def set_bucket_def
      get_bucket_def log_event_def log_grows_def split: if_splits option.splits)

lemma log_grows_event: "log_grows w w' \<Longrightarrow> log_grows w (log_event e w')"
  by (auto simp: log_grows_def log_event_def)

lemma obj_step_log: "obj_step m m' \<Longrightarrow> log_grows (mstore m) (mstore m')"
proof (induction rule: obj_step.induct)
  case (allocate fs w a ob w' own)
  then have "obj_log w' = obj_log w @ [New_Obj a (needs_dtor ob)]" using put_log by (fastforce simp: new_object_def log_event_def)
  then show ?case by (auto intro: log_growsI)
next
  case (release_last fs own a w w1 ob w' called)
  then have "log_grows w w'" using log_grows_trans [OF parts_log(2) parts_log(5)] by blast
  then show ?case using log_grows_event by simp
next
  case (free_skip w a ob w1 w' fs own)
  then show ?case using log_grows_trans [OF parts_log(8) parts_log(9)] by simp
qed (auto intro: parts_log log_growsI(1) log_grows_event)

lemma obj_steps_log: "obj_step\<^sup>*\<^sup>* m m' \<Longrightarrow> log_grows (mstore m) (mstore m')"
  by (induction rule: rtranclp_induct) (auto intro: log_growsI(1) log_grows_trans obj_step_log)

lemma life_misused: "fold (live_on a) es Misused = Misused"
proof (induction es)
  case (Cons e es)
  have "live_on a e Misused = Misused" by (cases e) auto
  then show ?case using Cons by simp
qed simp

lemma life_due: "fold (live_on a) es (Alive True) \<noteq> Alive True \<Longrightarrow> fold (live_on a) es (Alive True) \<noteq> Misused
  \<Longrightarrow> Dtor_Obj a \<in> set es \<or> Mark_Obj a \<in> set es"
proof (induction es)
  case (Cons e es)
  have "live_on a e (Alive True) = Alive True \<or> live_on a e (Alive True) = Misused \<or> e = Dtor_Obj a \<or> e = Mark_Obj a" by (cases e) auto
  then show ?case using Cons life_misused [of a es] by auto
qed simp

lemma life_not_due: "fold (live_on a) es l \<noteq> Misused \<Longrightarrow> l = Alive False \<or> l = Freed \<Longrightarrow> Dtor_Obj a \<notin> set (takeWhile (\<lambda>e. e \<noteq> Efree_Obj a) es)"
proof (induction es arbitrary: l)
  case (Cons e es)
  have "e = Efree_Obj a \<or> live_on a e l = Misused \<or> (e \<noteq> Dtor_Obj a \<and> (live_on a e l = Alive False \<or> live_on a e l = Freed))"
    using Cons.prems(2) by (cases e) auto
  then show ?case using Cons.prems(1) Cons.IH [of "live_on a e l"] life_misused [of a es] by auto
qed simp

definition destructed_in :: "u64 \<Rightarrow> zend_object \<Rightarrow> obj_event list \<Rightarrow> bool" where
  "destructed_in a ob es \<longleftrightarrow> (if needs_dtor ob then Dtor_Obj a \<in> set es \<or> Mark_Obj a \<in> set es
     else Dtor_Obj a \<notin> set (takeWhile (\<lambda>e. e \<noteq> Efree_Obj a) es))"

lemma machine_inv_object:
  assumes "machine_inv \<lparr>mstore = w, mframes = fs, mowned = own\<rparr>"
  shows "object_ok (held fs a) (own a) (life_of a (obj_log w)) (objects w a)"
  using assms machine_ok_objects [of "\<lparr>mstore = w, mframes = fs, mowned = own\<rparr>" a] by (simp add: machine_inv_def)

lemma destructors_not_due:
  assumes "machine_inv \<lparr>mstore = w, mframes = fs, mowned = own\<rparr>" and "\<forall>a ob. objects w a = Some ob \<longrightarrow> destructor_called ob"
  shows "life_of a (obj_log w) \<noteq> Alive True \<and> life_of a (obj_log w) \<noteq> Misused"
  using machine_inv_object [OF assms(1), of a] assms(2) by (cases "objects w a") (auto simp: object_ok_def)

lemma destructors_called:
  assumes inv: "machine_inv \<lparr>mstore = w, mframes = fs, mowned = own\<rparr>" "machine_inv \<lparr>mstore = w', mframes = fs', mowned = own'\<rparr>"
    and all: "\<forall>a ob. objects w' a = Some ob \<longrightarrow> destructor_called ob" and log: "obj_log w' = obj_log w @ es"
    and ob: "objects w a = Some ob" "\<not> destructor_called ob"
  shows "destructed_in a ob es"
proof -
  have "life_ok (life_of a (obj_log w)) ob" using machine_inv_object [OF inv(1), of a] ob(1) by (simp add: object_ok_def)
  then have "life_of a (obj_log w) = Alive (needs_dtor ob)" using life_ok_due ob(2) by blast
  moreover have "life_of a (obj_log w') = fold (live_on a) es (life_of a (obj_log w))" by (simp add: log life_of_def)
  ultimately show ?thesis
    using destructors_not_due [OF inv(2) all, of a] life_due [of a es] life_not_due [of a es "Alive False"]
    by (cases "needs_dtor ob") (auto simp: destructed_in_def)
qed

section \<open>The loops without destructors\<close>

text \<open>Marking every object keeps it from being destructed.\<close>

lemma mark_turn_runs:
  assumes inv: "machine_inv \<lparr>mstore = w, mframes = fs, mowned = own\<rparr>" and turn: "user_turn fs" and i: "1 \<le> i" "i < store_top w" and below: "called_below i w"
  shows "\<exists>w'. obj_bind (get_bucket w i) (\<lambda>a. mark_turn a w) = Inr w'
    \<and> obj_step\<^sup>*\<^sup>* \<lparr>mstore = w, mframes = fs, mowned = own\<rparr> \<lparr>mstore = w', mframes = fs, mowned = own\<rparr> \<and> called_below (Suc i) w' \<and> store_top w' = store_top w"
proof -
  obtain fl where ok: "store_ok (freeing fs) w fl" using inv unfolding machine_inv_def machine_ok_def by auto
  from ok i show ?thesis
  proof (cases rule: bucket_cases)
    case (object a ob)
    define w' where "w' = (log_event (Mark_Obj a) w)\<lparr>objects := (objects w)(a \<mapsto> ob\<lparr>destructor_called := True\<rparr>)\<rparr>"
    have run: "mark_turn a w = Inr w'" using object(2,3) by (simp add: mark_turn_def upd_object_Some log_event_def w'_def)
    have "obj_step\<^sup>*\<^sup>* \<lparr>mstore = w, mframes = fs, mowned = own\<rparr> \<lparr>mstore = w', mframes = fs, mowned = own\<rparr>"
      using mark [OF turn _ object(5) run, of own] object(3) by blast
    moreover have "called_below (Suc i) w'"
      unfolding called_below_def
    proof (intro allI impI, elim conjE)
      fix b x assume b: "objects w' b = Some x" "obj_handle x < Suc i"
      show "destructor_called x"
      proof (cases "b = a")
        case False
        then have b': "objects w b = Some x" using b(1) by (simp add: w'_def log_event_def)
        then have "obj_handle x \<noteq> i" using store_ok_handles [OF ok b' object(3)] object(4) False by metis
        then show ?thesis using below b(2) b' unfolding called_below_def by auto
      qed (use b in \<open>auto simp: w'_def\<close>)
    qed
    ultimately show ?thesis using object(1) run by (intro exI [of _ w']) (simp add: w'_def log_event_def)
  next
    case (other b)
    then have "called_below (Suc i) w" using below freeing_called [OF inv] unfolding called_below_def less_Suc_eq by blast
    then show ?thesis using other by (intro exI [of _ w]) (simp add: mark_turn_def)
  qed
qed

lemma mark_destructed_loop_runs:
  assumes turn: "user_turn fs"
  shows "machine_inv \<lparr>mstore = w, mframes = fs, mowned = own\<rparr> \<Longrightarrow> 1 \<le> i \<Longrightarrow> i + n = store_top w \<Longrightarrow> called_below i w \<Longrightarrow>
    \<exists>w'. mark_destructed_loop i n w = Inr w' \<and> obj_step\<^sup>*\<^sup>* \<lparr>mstore = w, mframes = fs, mowned = own\<rparr> \<lparr>mstore = w', mframes = fs, mowned = own\<rparr>
      \<and> called_below (store_top w') w'"
proof (induction n arbitrary: i w)
  case 0
  then show ?case by auto
next
  case (Suc n)
  have i: "i < store_top w" using Suc.prems(3) by simp
  obtain w1 where w1: "obj_bind (get_bucket w i) (\<lambda>a. mark_turn a w) = Inr w1" "called_below (Suc i) w1" "store_top w1 = store_top w"
    and s1: "obj_step\<^sup>*\<^sup>* \<lparr>mstore = w, mframes = fs, mowned = own\<rparr> \<lparr>mstore = w1, mframes = fs, mowned = own\<rparr>"
    using mark_turn_runs [OF Suc.prems(1) turn Suc.prems(2) i Suc.prems(4)] by blast
  obtain w' where "mark_destructed_loop (Suc i) n w1 = Inr w'" "called_below (store_top w') w'"
    and s2: "obj_step\<^sup>*\<^sup>* \<lparr>mstore = w1, mframes = fs, mowned = own\<rparr> \<lparr>mstore = w', mframes = fs, mowned = own\<rparr>"
    using Suc.IH [OF obj_steps_inv [OF s1 Suc.prems(1)], of "Suc i"] Suc.prems(3) w1(2,3) by auto
  then show ?case using w1(1) rtranclp_trans [OF s1 s2] by auto
qed

lemma called_below_all:
  assumes "machine_inv \<lparr>mstore = w, mframes = fs, mowned = own\<rparr>" "called_below (store_top w) w"
  shows "\<forall>a ob. objects w a = Some ob \<longrightarrow> destructor_called ob"
proof -
  obtain fl where ok: "store_ok (freeing fs) w fl" using assms(1) unfolding machine_inv_def machine_ok_def by auto
  show ?thesis using store_okD(3) [OF ok] assms(2) unfolding called_below_def stored_def by blast
qed

lemma called_below_start: "machine_inv \<lparr>mstore = w, mframes = fs, mowned = own\<rparr> \<Longrightarrow> called_below 1 w \<and> 1 \<le> store_top w \<and> object_buckets w \<noteq> []"
proof -
  assume "machine_inv \<lparr>mstore = w, mframes = fs, mowned = own\<rparr>"
  then obtain fl where ok: "store_ok (freeing fs) w fl" unfolding machine_inv_def machine_ok_def by auto
  have "1 \<le> obj_handle ob" if "objects w a = Some ob" for a ob using store_okD(3) [OF ok that] by (simp add: stored_def)
  then show ?thesis using store_okD(1) [OF ok] unfolding called_below_def store_sizes_def by fastforce
qed

lemma mark_destructed_runs:
  assumes inv: "machine_inv \<lparr>mstore = w, mframes = fs, mowned = own\<rparr>" and turn: "user_turn fs"
  shows "\<exists>w'. zend_objects_store_mark_destructed w = Inr w' \<and> obj_step\<^sup>*\<^sup>* \<lparr>mstore = w, mframes = fs, mowned = own\<rparr> \<lparr>mstore = w', mframes = fs, mowned = own\<rparr>
    \<and> (\<forall>a ob. objects w' a = Some ob \<longrightarrow> destructor_called ob)"
proof -
  note c = called_below_start [OF inv]
  obtain w' where w': "mark_destructed_loop 1 (store_top w - 1) w = Inr w'" "called_below (store_top w') w'"
    and s: "obj_step\<^sup>*\<^sup>* \<lparr>mstore = w, mframes = fs, mowned = own\<rparr> \<lparr>mstore = w', mframes = fs, mowned = own\<rparr>"
    using mark_destructed_loop_runs [OF turn inv, of 1 "store_top w - 1"] c by auto
  have "zend_objects_store_mark_destructed w = Inr w'"
    using w'(1) c by (cases "store_top w > 1") (auto simp: zend_objects_store_mark_destructed_def)
  then show ?thesis using s called_below_all [OF obj_steps_inv [OF s inv] w'(2)] by blast
qed

text \<open>Freeing the contents of all objects at the end; a free handler is code of the program here too.\<close>

definition storage_behaves :: "handler \<Rightarrow> bool" where
  "storage_behaves free_obj \<longleftrightarrow> (\<forall>a w own. machine_inv \<lparr>mstore = w, mframes = [In_Storage a], mowned = own\<rparr> \<longrightarrow>
     (\<exists>own'. obj_step\<^sup>*\<^sup>* \<lparr>mstore = w, mframes = [In_Storage a], mowned = own\<rparr> \<lparr>mstore = free_obj a w, mframes = [In_Storage a], mowned = own'\<rparr>))"

definition freed_between :: "nat \<Rightarrow> nat \<Rightarrow> objects_store \<Rightarrow> bool" where
  "freed_between i N w \<longleftrightarrow> (\<forall>a ob. objects w a = Some ob \<and> i \<le> obj_handle ob \<and> obj_handle ob < N \<longrightarrow> free_called ob)"

lemma freed_between_evolves:
  assumes "evolves w w'" "no_reuse w" "freed_between i N w" "N \<le> store_top w"
  shows "freed_between i N w'"
  unfolding freed_between_def
proof (intro allI impI, elim conjE)
  fix a ob assume a: "objects w' a = Some ob" "i \<le> obj_handle ob" "obj_handle ob < N"
  then obtain x where "objects w a = Some x" "outlives x ob" using evolvesD(3) [OF assms(1,2) a(1)] assms(4) by auto
  then show "free_called ob" using assms(3) a(2,3) unfolding freed_between_def outlives_def by metis
qed

lemma storage_phase_runs:
  assumes inv: "machine_inv \<lparr>mstore = if called then log_event (Free_Obj a) w else w, mframes = if called then [In_Storage a] else [], mowned = own\<rparr>"
    and free: "storage_behaves free_obj"
  shows "\<exists>own'. obj_step\<^sup>*\<^sup>* \<lparr>mstore = if called then log_event (Free_Obj a) w else w, mframes = if called then [In_Storage a] else [], mowned = own\<rparr>
    \<lparr>mstore = (if called then call_free_obj free_obj a w else w), mframes = [], mowned = own'\<rparr>"
proof (cases called)
  case True
  then have "machine_inv \<lparr>mstore = log_event (Free_Obj a) w, mframes = [In_Storage a], mowned = own\<rparr>" using inv by simp
  then obtain own' where "obj_step\<^sup>*\<^sup>* \<lparr>mstore = log_event (Free_Obj a) w, mframes = [In_Storage a], mowned = own\<rparr>
      \<lparr>mstore = call_free_obj free_obj a w, mframes = [In_Storage a], mowned = own'\<rparr>"
    using free unfolding storage_behaves_def call_free_obj_def by blast
  moreover have "obj_step \<lparr>mstore = call_free_obj free_obj a w, mframes = [In_Storage a], mowned = own'\<rparr>
      \<lparr>mstore = call_free_obj free_obj a w, mframes = [], mowned = own'(a := own' a + 1)\<rparr>" by (rule storage_return)
  ultimately show ?thesis using True by (auto intro: rtranclp.rtrancl_into_rtrancl)
qed auto

lemma storage_turn_runs:
  assumes inv: "machine_inv \<lparr>mstore = w, mframes = [], mowned = own\<rparr>" and i: "1 \<le> i" "i < N" and N: "N \<le> store_top w" and free: "storage_behaves free_obj"
    and r: "no_reuse w" and freed: "freed_between (Suc i) N w" and called: "called_below N w"
  shows "\<exists>w' own'. obj_bind (get_bucket w i) (\<lambda>a. free_storage_turn free_obj fast a w) = Inr w'
    \<and> obj_step\<^sup>*\<^sup>* \<lparr>mstore = w, mframes = [], mowned = own\<rparr> \<lparr>mstore = w', mframes = [], mowned = own'\<rparr>
    \<and> freed_between i N w' \<and> no_reuse w' \<and> called_below N w' \<and> N \<le> store_top w'"
proof -
  obtain fl where ok: "store_ok (freeing []) w fl" using inv unfolding machine_inv_def machine_ok_def by auto
  have it: "i < store_top w" using i N by simp
  from ok i(1) it show ?thesis
  proof (cases rule: bucket_cases)
    case (object a ob)
    have dc: "destructor_called ob" using called object(3,4) i unfolding called_below_def by blast
    obtain w1 c where w1: "storage_enter fast a w = Inr (w1, c)" using storage_enter_run [OF object(3), of fast] by (auto split: if_splits)
    let ?fs = "if c then [In_Storage a] else []"
    define v where "v = (if c then log_event (Free_Obj a) w1 else w1)"
    have v: "objects v = objects w1" by (simp add: v_def log_event_def)
    have s1: "obj_step\<^sup>*\<^sup>* \<lparr>mstore = w, mframes = [], mowned = own\<rparr> \<lparr>mstore = v, mframes = ?fs, mowned = own\<rparr>"
      unfolding v_def using storage [OF object(3) dc w1] by blast
    have i1: "machine_inv \<lparr>mstore = v, mframes = ?fs, mowned = own\<rparr>" using obj_steps_inv [OF s1 inv] .
    define w' where "w' = (if c then call_free_obj free_obj a w1 else w1)"
    obtain own' where s2: "obj_step\<^sup>*\<^sup>* \<lparr>mstore = v, mframes = ?fs, mowned = own\<rparr> \<lparr>mstore = w', mframes = [], mowned = own'\<rparr>"
      using storage_phase_runs [OF i1 [unfolded v_def] free] unfolding w'_def v_def by blast
    have e1: "evolves w v" using evolves_storage_enter [OF object(3) w1] evolves_log_event by (simp add: v_def)
    have e2: "evolves v w'" using obj_steps_evolve [OF s2 i1] by simp
    note r1 = evolvesD(1,2) [OF e1 r] and r2 = evolvesD(1,2) [OF e2 evolvesD(1) [OF e1 r]]
    have "freed_between i N v"
      unfolding freed_between_def v
    proof (intro allI impI, elim conjE)
      fix b x assume b: "objects w1 b = Some x" "i \<le> obj_handle x" "obj_handle x < N"
      show "free_called x"
      proof (cases "b = a")
        case True
        then show ?thesis using b(1) w1 storage_enter_run [OF object(3), of fast] object(3) by (auto simp: log_event_def split: if_splits)
      next
        case False
        then have b': "objects w b = Some x" using b(1) w1 storage_enter_run [OF object(3), of fast] by (auto simp: log_event_def split: if_splits)
        then have "obj_handle x \<noteq> i" using store_ok_handles [OF ok b' object(3)] object(4) False by metis
        then show ?thesis using freed b' b(2,3) unfolding freed_between_def by auto
      qed
    qed
    then have "freed_between i N w'" using freed_between_evolves [OF e2 r1(1)] r1(2) N by simp
    moreover have "called_below N w'" using called_below_evolves [OF evolves_trans [OF e1 e2] r called N] .
    moreover have "obj_bind (get_bucket w i) (\<lambda>a. free_storage_turn free_obj fast a w) = Inr w'"
      using object(1,2) w1 by (simp add: free_storage_turn_def w'_def)
    ultimately show ?thesis using rtranclp_trans [OF s1 s2] r1 r2 N by (intro exI [of _ w'] exI [of _ own']) simp
  next
    case (other b)
    have "freed_between i N w" using freed other(3) unfolding freed_between_def by (metis Suc_le_eq empty_iff freeing_simps(1) le_eq_less_or_eq)
    then show ?thesis using other r called N by (intro exI [of _ w] exI [of _ own]) (simp add: free_storage_turn_def)
  qed
qed

lemma storage_loop_runs:
  assumes free: "storage_behaves free_obj"
  shows "machine_inv \<lparr>mstore = w, mframes = [], mowned = own\<rparr> \<Longrightarrow> i < N \<Longrightarrow> N \<le> store_top w \<Longrightarrow> no_reuse w \<Longrightarrow> freed_between (Suc i) N w
    \<Longrightarrow> called_below N w \<Longrightarrow> \<exists>w' own'. free_storage_loop free_obj fast i w = Inr w'
      \<and> obj_step\<^sup>*\<^sup>* \<lparr>mstore = w, mframes = [], mowned = own\<rparr> \<lparr>mstore = w', mframes = [], mowned = own'\<rparr> \<and> freed_between 1 N w'"
proof (induction i arbitrary: w own)
  case 0
  then show ?case by auto
next
  case (Suc i)
  obtain w1 own1 where w1: "obj_bind (get_bucket w (Suc i)) (\<lambda>a. free_storage_turn free_obj fast a w) = Inr w1"
      "freed_between (Suc i) N w1" "no_reuse w1" "called_below N w1" "N \<le> store_top w1"
    and s1: "obj_step\<^sup>*\<^sup>* \<lparr>mstore = w, mframes = [], mowned = own\<rparr> \<lparr>mstore = w1, mframes = [], mowned = own1\<rparr>"
    using storage_turn_runs [OF Suc.prems(1) _ Suc.prems(2,3) free Suc.prems(4-6), of fast] by auto
  obtain w' own' where w': "free_storage_loop free_obj fast i w1 = Inr w'" "freed_between 1 N w'"
    and s2: "obj_step\<^sup>*\<^sup>* \<lparr>mstore = w1, mframes = [], mowned = own1\<rparr> \<lparr>mstore = w', mframes = [], mowned = own'\<rparr>"
    using Suc.IH [OF obj_steps_inv [OF s1 Suc.prems(1)] _ w1(5,3,2,4)] Suc.prems(2) by auto
  then show ?case using w1(1) rtranclp_trans [OF s1 s2] by auto
qed

lemma free_object_storage_runs:
  assumes inv: "machine_inv \<lparr>mstore = w, mframes = [], mowned = own\<rparr>" and r: "no_reuse w"
    and called: "\<forall>a ob. objects w a = Some ob \<longrightarrow> destructor_called ob" and free: "storage_behaves free_obj"
  shows "\<exists>w' own'. zend_objects_store_free_object_storage free_obj w fast = Inr w'
    \<and> obj_step\<^sup>*\<^sup>* \<lparr>mstore = w, mframes = [], mowned = own\<rparr> \<lparr>mstore = w', mframes = [], mowned = own'\<rparr> \<and> freed_between 1 (store_top w) w'"
proof (cases "store_top w \<le> 1")
  case True
  then have "freed_between 1 (store_top w) w" by (auto simp: freed_between_def)
  then show ?thesis using True by (intro exI [of _ w] exI [of _ own]) (simp add: zend_objects_store_free_object_storage_def)
next
  case False
  have "freed_between (Suc (store_top w - 1)) (store_top w) w" "called_below (store_top w) w"
    using called by (auto simp: freed_between_def called_below_def)
  then show ?thesis using storage_loop_runs [OF free inv, of "store_top w - 1" "store_top w" fast] False r
    by (simp add: zend_objects_store_free_object_storage_def)
qed

section \<open>What a reachable state has\<close>

lemma machine_reach_store:
  assumes "machine_reach n m" "1 \<le> n" "n \<le> 2 ^ 31"
  obtains fl where "store_ok (freeing (mframes m)) (mstore m) fl"
  using machine_reach_inv [OF assms] unfolding machine_inv_def machine_ok_def by blast

lemma machine_reach_life:
  assumes "machine_reach n m" "1 \<le> n" "n \<le> 2 ^ 31"
  shows "life_of a (obj_log (mstore m)) \<noteq> Misused"
    "life_of a (obj_log (mstore m)) = Absent \<longleftrightarrow> objects (mstore m) a = None"
    "objects (mstore m) a = Some ob \<Longrightarrow> free_called ob \<longleftrightarrow> life_of a (obj_log (mstore m)) = Freed"
proof -
  have "machine_ok m" using machine_reach_inv [OF assms] by (simp add: machine_inv_def)
  from machine_ok_objects [OF this, of a]
  show "life_of a (obj_log (mstore m)) \<noteq> Misused" "life_of a (obj_log (mstore m)) = Absent \<longleftrightarrow> objects (mstore m) a = None"
    "objects (mstore m) a = Some ob \<Longrightarrow> free_called ob \<longleftrightarrow> life_of a (obj_log (mstore m)) = Freed"
    by (auto simp: object_ok_def elim!: life_ok.elims split: option.splits)
qed

text \<open>The references the machine knows of: those that variables hold, and one for each call of a handler that is under way.\<close>

definition guard_refs :: "frame list \<Rightarrow> u64 \<Rightarrow> nat" where
  "guard_refs fs a = length (filter (\<lambda>f. \<not> is_check f) (held fs a))"

lemma machine_reach_count:
  assumes "machine_reach n m" "1 \<le> n" "n \<le> 2 ^ 31" "objects (mstore m) a = Some ob"
  shows "unat (obj_refcount ob) = mowned m a + guard_refs (mframes m) a"
proof -
  have "machine_ok m" using machine_reach_inv [OF assms(1-3)] by (simp add: machine_inv_def)
  from machine_ok_objects [OF this, of a] have "frames_ok (held (mframes m) a) (mowned m a) ob" using assms(4) by (simp add: object_ok_def)
  then show ?thesis unfolding guard_refs_def by (rule frames_ok.elims) simp_all
qed

text \<open>A handler that does nothing, and a destructor that stores a reference to its object.\<close>

definition keep_reference :: handler where
  "keep_reference a w =
     (case objects w a of
        None \<Rightarrow> w
      | Some ob \<Rightarrow> if unat (obj_refcount ob) + 1 < 2 ^ 32 then w\<lparr>objects := (objects w)(a \<mapsto> ob\<lparr>obj_refcount := obj_refcount ob + 1\<rparr>)\<rparr> else w)"

lemma idle_behaves: "free_behaves (\<lambda>a w. w)" "dtor_behaves (\<lambda>a w. w)"
  unfolding free_behaves_def dtor_behaves_def by blast+

lemma keep_reference_behaves: "dtor_behaves keep_reference"
  unfolding dtor_behaves_def
proof (intro allI impI, elim conjE)
  fix a f w fs own
  assume f: "f = In_Dtor a \<or> f = In_Call a" and inv: "machine_inv \<lparr>mstore = w, mframes = f # fs, mowned = own\<rparr>"
  have "frame_obj f = a" using f by auto
  then obtain ob where ob: "objects w a = Some ob" "frames_ok [f] (own a) ob" using top_object inv unfolding machine_inv_def by metis
  show "\<exists>own'. obj_step\<^sup>*\<^sup>* \<lparr>mstore = w, mframes = f # fs, mowned = own\<rparr> \<lparr>mstore = keep_reference a w, mframes = f # fs, mowned = own'\<rparr>"
  proof (cases "unat (obj_refcount ob) + 1 < 2 ^ 32")
    case True
    then have run: "GC_ADDREF a w = Inr (keep_reference a w)" using ob(1) by (simp add: keep_reference_def GC_ADDREF_def upd_object_Some)
    have "user_turn (f # fs)" "own a + 2 < 2 ^ 32" using f ob(2) True by (auto simp: user_turn_def)
    from addref [where a = a and own = own, OF this run] show ?thesis by blast
  next
    case False
    then have "keep_reference a w = w" using ob(1) by (simp add: keep_reference_def)
    then show ?thesis by auto
  qed
qed


definition sample_object :: zend_object where
  "sample_object = \<lparr>obj_handle = 0, obj_refcount = 1, obj_is_null = False, destructor_called = False, free_called = False, weakly_referenced = False,
     std_dtor_obj = False, ce_destructor = True, std_free_obj = True\<rparr>"

text \<open>A program that has created one object.\<close>

lemma sample_reach:
  "\<exists>w own ob. machine_reach 2 \<lparr>mstore = w, mframes = [], mowned = own\<rparr> \<and> own 16 = 1 \<and> objects w 32 = None \<and> store_size w = 2 \<and> store_top w = 2
    \<and> objects w 16 = Some ob \<and> obj_refcount ob = 1 \<and> \<not> destructor_called ob \<and> \<not> free_called ob \<and> needs_dtor ob"
proof -
  define w0 where "w0 = mstore (machine_start 2)"
  have w0: "w0 = \<lparr>object_buckets = [Some 0, None], store_top = 1, store_size = 2, free_list_head = -1, no_reuse = False, objects = Map.empty, obj_log = []\<rparr>"
    by (simp add: w0_def machine_start_def zend_objects_store_init_def numeral_2_eq_2)
  define w where "w = w0\<lparr>store_top := 2, objects := [16 \<mapsto> sample_object\<lparr>obj_handle := 1\<rparr>], object_buckets := [Some 0, Some 16], obj_log := [New_Obj 16 True]\<rparr>"
  have put: "zend_objects_store_put 16 (new_object 16 sample_object w0) = Inr w"
    by (simp add: zend_objects_store_put_def w0 w_def new_object_def log_event_def take_handle_def obj_run needs_dtor_def sample_object_def)
  have "IS_OBJ_VALID 16" by (simp add: IS_OBJ_VALID_def OBJ_BUCKET_INVALID_def)
  then have "obj_step \<lparr>mstore = w0, mframes = [], mowned = \<lambda>_. 0\<rparr> \<lparr>mstore = w, mframes = [], mowned = (\<lambda>_. 0)(16 := 1)\<rparr>"
    by (intro allocate [OF _ _ _ _ _ put]) (simp_all add: user_turn_def w0 fresh_object_def sample_object_def)
  moreover have "machine_start 2 = \<lparr>mstore = w0, mframes = [], mowned = \<lambda>_. 0\<rparr>" by (simp add: w0_def machine_start_def)
  ultimately have "machine_reach 2 \<lparr>mstore = w, mframes = [], mowned = (\<lambda>_. 0)(16 := 1)\<rparr>" by (simp add: machine_reach_def r_into_rtranclp)
  then show ?thesis by (intro exI [of _ w] exI [of _ "(\<lambda>_. 0)(16 := 1)"] exI [of _ "sample_object\<lparr>obj_handle := 1\<rparr>"])
    (simp add: w_def w0 sample_object_def needs_dtor_def)
qed

text \<open>A program whose object has had its contents freed at the shutdown.\<close>

lemma sample_shutdown:
  "\<exists>m ob. machine_reach 2 m \<and> objects (mstore m) 16 = Some ob \<and> free_called ob \<and> mframes m = [] \<and> mowned m 16 = 2"
proof -
  obtain w own ob where m: "machine_reach 2 \<lparr>mstore = w, mframes = [], mowned = own\<rparr>" "own 16 = 1" "objects w 16 = Some ob" "\<not> free_called ob"
    using sample_reach by blast
  define w1 where "w1 = (log_event (Mark_Obj 16) w)\<lparr>objects := (objects w)(16 \<mapsto> ob\<lparr>destructor_called := True\<rparr>)\<rparr>"
  have "mark_turn 16 w = Inr w1" using m(3) by (simp add: mark_turn_def IS_OBJ_VALID_def OBJ_BUCKET_INVALID_def upd_object_Some log_event_def w1_def)
  then have s1: "obj_step \<lparr>mstore = w, mframes = [], mowned = own\<rparr> \<lparr>mstore = w1, mframes = [], mowned = own\<rparr>"
    by (intro mark [of _ _ 16]) (simp_all add: user_turn_def m(3))
  have o1: "objects w1 16 = Some (ob\<lparr>destructor_called := True\<rparr>)" by (simp add: w1_def)
  obtain w3 where w3: "storage_enter False 16 w1 = Inr (w3, True)"
      "objects w3 16 = Some (ob\<lparr>destructor_called := True, free_called := True, obj_refcount := obj_refcount ob + 1\<rparr>)"
    using storage_enter_run [OF o1, of False] m(4) by simp
  define w2 where "w2 = log_event (Free_Obj 16) w3"
  have w2: "objects w2 16 = objects w3 16" by (simp add: w2_def log_event_def)
  have "obj_step \<lparr>mstore = w1, mframes = [], mowned = own\<rparr>
      \<lparr>mstore = if True then log_event (Free_Obj 16) w3 else w3, mframes = if True then [In_Storage 16] else [], mowned = own\<rparr>"
    by (rule storage [OF o1 _ w3(1)]) simp
  then have s2: "obj_step \<lparr>mstore = w1, mframes = [], mowned = own\<rparr> \<lparr>mstore = w2, mframes = [In_Storage 16], mowned = own\<rparr>" by (simp add: w2_def)
  have "obj_step\<^sup>*\<^sup>* \<lparr>mstore = w, mframes = [], mowned = own\<rparr> \<lparr>mstore = w2, mframes = [], mowned = own(16 := own 16 + 1)\<rparr>"
    using s1 s2 storage_return [of w2 16 "[]" own] by (meson converse_rtranclp_into_rtranclp r_into_rtranclp)
  then show ?thesis using machine_reach_steps [OF m(1)] w3(2) w2 m(2)
    by (intro exI [of _ "\<lparr>mstore = w2, mframes = [], mowned = own(16 := own 16 + 1)\<rparr>"]) auto
qed

lemma machine_reach_absent:
  assumes "machine_reach n m" "1 \<le> n" "n \<le> 2 ^ 31" "objects (mstore m) a = None"
  shows "a \<notin> freeing (mframes m)"
proof -
  have "machine_ok m" using machine_reach_inv [OF assms(1-3)] by (simp add: machine_inv_def)
  from machine_ok_objects [OF this, of a] show ?thesis using assms(4) by (simp add: object_ok_def freeing_held)
qed


end
