(* ===== verification/Zend_Gc_Buffer.thy ===== *)
theory Zend_Gc_Buffer
  imports Zend_Bytes
begin

text \<open>
The root buffer of the cycle collector (\<^verbatim>\<open>Zend/zend_gc.c\<close>): the information word of a node with its colour and its position in the buffer, the
  tagged entries of the buffer with the list of unused ones, adding and removing candidate roots, growing the buffer, the threshold, and the
  compaction with two fingers.  The memory of the nodes is a map from addresses; time measurement and tracing are left out.
\<close>

section \<open>Nodes\<close>

text \<open>The information word of a counted value holds the position in the root buffer and the colour.\<close>

definition GC_ADDRESS :: u32 where "GC_ADDRESS = 0x0fffff"
definition GC_COLOR :: u32 where "GC_COLOR = 0x300000"
definition GC_BLACK :: u32 where "GC_BLACK = 0"
definition GC_WHITE :: u32 where "GC_WHITE = 0x100000"
definition GC_GREY :: u32 where "GC_GREY = 0x200000"
definition GC_PURPLE :: u32 where "GC_PURPLE = 0x300000"

text \<open>What the collector sees of a value: a counted value that can be part of a cycle, another value, or a pointer to the slot of a value.\<close>

datatype gc_zval = Not_Collectable | Collectable u64 | To_Slot gc_zval

text \<open>An object with its flag for freed contents, whether a destructor has to run, the table and the values that its \<^verbatim>\<open>get_gc\<close> handler returns;
  an array, packed or not, with its slots; a reference.\<close>

datatype gc_data =
    Gc_Object bool bool "u64 option" "gc_zval list"
  | Gc_Array bool "gc_zval list"
  | Gc_Reference gc_zval
  | Gc_Other

record gc_node =
  gc_refcount :: nat
  gc_info :: u32
  gc_data :: gc_data

definition GC_REF_ADDRESS :: "gc_node \<Rightarrow> nat" where
  "GC_REF_ADDRESS x = unat (gc_info x AND GC_ADDRESS)"

definition GC_REF_COLOR :: "gc_node \<Rightarrow> u32" where
  "GC_REF_COLOR x = gc_info x AND GC_COLOR"

definition GC_REF_CHECK_COLOR :: "gc_node \<Rightarrow> u32 \<Rightarrow> bool" where
  "GC_REF_CHECK_COLOR x c \<longleftrightarrow> gc_info x AND GC_COLOR = c"

definition GC_REF_SET_INFO :: "u32 \<Rightarrow> gc_node \<Rightarrow> gc_node" where
  "GC_REF_SET_INFO i x = x\<lparr>gc_info := i\<rparr>"

definition GC_REF_SET_COLOR :: "u32 \<Rightarrow> gc_node \<Rightarrow> gc_node" where
  "GC_REF_SET_COLOR c x = x\<lparr>gc_info := (gc_info x AND NOT GC_COLOR) OR c\<rparr>"

definition GC_REF_SET_BLACK :: "gc_node \<Rightarrow> gc_node" where
  "GC_REF_SET_BLACK x = x\<lparr>gc_info := gc_info x AND NOT GC_COLOR\<rparr>"

section \<open>Entries of the root buffer\<close>

definition GC_BITS :: u64 where "GC_BITS = 3"
definition GC_ROOT :: u64 where "GC_ROOT = 0"
definition GC_UNUSED :: u64 where "GC_UNUSED = 1"
definition GC_GARBAGE :: u64 where "GC_GARBAGE = 2"
definition GC_DTOR_GARBAGE :: u64 where "GC_DTOR_GARBAGE = 3"

definition GC_GET_PTR :: "u64 \<Rightarrow> u64" where "GC_GET_PTR p = p AND NOT GC_BITS"
definition GC_IS_ROOT :: "u64 \<Rightarrow> bool" where "GC_IS_ROOT p \<longleftrightarrow> p AND GC_BITS = GC_ROOT"
definition GC_IS_UNUSED :: "u64 \<Rightarrow> bool" where "GC_IS_UNUSED p \<longleftrightarrow> p AND GC_BITS = GC_UNUSED"
definition GC_IS_GARBAGE :: "u64 \<Rightarrow> bool" where "GC_IS_GARBAGE p \<longleftrightarrow> p AND GC_BITS = GC_GARBAGE"
definition GC_MAKE_GARBAGE :: "u64 \<Rightarrow> u64" where "GC_MAKE_GARBAGE p = p OR GC_GARBAGE"

text \<open>Indices are 32 bits wide. An entry of the list of unused entries holds the index of the next one; reading it cuts it to 32 bits before the
  division.\<close>

definition GC_IDX2LIST :: "nat \<Rightarrow> u64" where
  "GC_IDX2LIST idx = word_of_nat (idx * 8) OR GC_UNUSED"

definition GC_LIST2IDX :: "u64 \<Rightarrow> nat" where
  "GC_LIST2IDX l = unat (ucast l :: u32) div 8"

definition GC_INVALID :: nat where "GC_INVALID = 0"
definition GC_FIRST_ROOT :: nat where "GC_FIRST_ROOT = 1"
definition GC_DEFAULT_BUF_SIZE :: nat where "GC_DEFAULT_BUF_SIZE = 16 * 1024"
definition GC_BUF_GROW_STEP :: nat where "GC_BUF_GROW_STEP = 128 * 1024"
definition GC_MAX_UNCOMPRESSED :: nat where "GC_MAX_UNCOMPRESSED = 512 * 1024"
definition GC_MAX_BUF_SIZE :: nat where "GC_MAX_BUF_SIZE = 0x40000000"
definition GC_THRESHOLD_DEFAULT :: nat where "GC_THRESHOLD_DEFAULT = 10000 + GC_FIRST_ROOT"
definition GC_THRESHOLD_STEP :: nat where "GC_THRESHOLD_STEP = 10000"
definition GC_THRESHOLD_MAX :: nat where "GC_THRESHOLD_MAX = 1000000000"
definition GC_THRESHOLD_TRIGGER :: int where "GC_THRESHOLD_TRIGGER = 100"

section \<open>The state\<close>

text \<open>The globals of the collector and the memory of the nodes.\<close>

record zend_gc_globals =
  gc_buf :: "u64 cell list"
  gc_enabled_flag :: bool
  gc_active :: bool
  gc_protected_flag :: bool
  gc_full :: bool
  gc_unused :: nat
  first_unused :: nat
  gc_threshold :: nat
  buf_size :: nat
  num_roots :: nat
  gc_runs :: nat
  gc_collected :: nat
  nodes_of :: "u64 \<rightharpoonup> gc_node"

datatype gc_error = Gc_Assertion | Gc_Access

type_synonym 'a gc = "gc_error + 'a"

fun gc_bind :: "'a gc \<Rightarrow> ('a \<Rightarrow> 'b gc) \<Rightarrow> 'b gc" where
  "gc_bind (Inl e) f = Inl e"
| "gc_bind (Inr x) f = f x"

definition gc_node_at :: "zend_gc_globals \<Rightarrow> u64 \<Rightarrow> gc_node gc" where
  "gc_node_at w p = (case nodes_of w p of None \<Rightarrow> Inl Gc_Access | Some x \<Rightarrow> Inr x)"

definition gc_upd :: "(gc_node \<Rightarrow> gc_node) \<Rightarrow> u64 \<Rightarrow> zend_gc_globals \<Rightarrow> zend_gc_globals gc" where
  "gc_upd f p w = gc_bind (gc_node_at w p) (\<lambda>x. Inr (w\<lparr>nodes_of := (nodes_of w)(p \<mapsto> f x)\<rparr>))"

definition gc_entry :: "zend_gc_globals \<Rightarrow> nat \<Rightarrow> u64 gc" where
  "gc_entry w i = (if i < length (gc_buf w) then (case gc_buf w ! i of None \<Rightarrow> Inl Gc_Access | Some e \<Rightarrow> Inr e) else Inl Gc_Access)"

definition gc_set_entry :: "nat \<Rightarrow> u64 \<Rightarrow> zend_gc_globals \<Rightarrow> zend_gc_globals gc" where
  "gc_set_entry i e w = (if i < length (gc_buf w) then Inr (w\<lparr>gc_buf := (gc_buf w)[i := Some e]\<rparr>) else Inl Gc_Access)"

section \<open>Operations on the buffer\<close>

definition gc_compress :: "nat \<Rightarrow> nat" where
  "gc_compress idx = (if idx < GC_MAX_UNCOMPRESSED then idx else (idx mod GC_MAX_UNCOMPRESSED) OR GC_MAX_UNCOMPRESSED)"

function decompress_loop :: "zend_gc_globals \<Rightarrow> u64 \<Rightarrow> nat \<Rightarrow> nat gc" where
  "decompress_loop w ref idx =
     (let idx = idx + GC_MAX_UNCOMPRESSED
      in if \<not> idx < first_unused w then Inl Gc_Assertion
         else gc_bind (gc_entry w idx) (\<lambda>e. if GC_GET_PTR e = ref then Inr idx else decompress_loop w ref idx))"
  by auto
termination
  by (relation "measure (\<lambda>(w, ref, idx). first_unused w - idx)") (auto simp: GC_MAX_UNCOMPRESSED_def)

definition gc_decompress :: "zend_gc_globals \<Rightarrow> u64 \<Rightarrow> nat \<Rightarrow> nat gc" where
  "gc_decompress w ref idx = gc_bind (gc_entry w idx) (\<lambda>e. if GC_GET_PTR e = ref then Inr idx else decompress_loop w ref idx)"

definition GC_HAS_UNUSED :: "zend_gc_globals \<Rightarrow> bool" where
  "GC_HAS_UNUSED w \<longleftrightarrow> gc_unused w \<noteq> GC_INVALID"

definition GC_HAS_NEXT_UNUSED_UNDER_THRESHOLD :: "zend_gc_globals \<Rightarrow> bool" where
  "GC_HAS_NEXT_UNUSED_UNDER_THRESHOLD w \<longleftrightarrow> first_unused w < gc_threshold w"

definition GC_HAS_NEXT_UNUSED :: "zend_gc_globals \<Rightarrow> bool" where
  "GC_HAS_NEXT_UNUSED w \<longleftrightarrow> first_unused w \<noteq> buf_size w"

definition gc_fetch_unused :: "zend_gc_globals \<Rightarrow> (nat \<times> zend_gc_globals) gc" where
  "gc_fetch_unused w =
     (if \<not> GC_HAS_UNUSED w then Inl Gc_Assertion
      else let idx = gc_unused w
        in gc_bind (gc_entry w idx) (\<lambda>e. if \<not> GC_IS_UNUSED e then Inl Gc_Assertion else Inr (idx, w\<lparr>gc_unused := GC_LIST2IDX e\<rparr>)))"

definition gc_link_unused :: "nat \<Rightarrow> zend_gc_globals \<Rightarrow> zend_gc_globals gc" where
  "gc_link_unused i w = gc_bind (gc_set_entry i (GC_IDX2LIST (gc_unused w)) w) (\<lambda>w. Inr (w\<lparr>gc_unused := i\<rparr>))"

definition gc_fetch_next_unused :: "zend_gc_globals \<Rightarrow> (nat \<times> zend_gc_globals) gc" where
  "gc_fetch_next_unused w = (if \<not> GC_HAS_NEXT_UNUSED w then Inl Gc_Assertion else Inr (first_unused w, w\<lparr>first_unused := first_unused w + 1\<rparr>))"

definition gc_remove_from_roots :: "nat \<Rightarrow> zend_gc_globals \<Rightarrow> zend_gc_globals gc" where
  "gc_remove_from_roots i w = gc_bind (gc_link_unused i w) (\<lambda>w. Inr (w\<lparr>num_roots := num_roots w - 1\<rparr>))"

definition root_buffer_dtor :: "zend_gc_globals \<Rightarrow> zend_gc_globals" where
  "root_buffer_dtor w = (if gc_buf w \<noteq> [] then w\<lparr>gc_buf := []\<rparr> else w)"

definition gc_globals_ctor_ex :: "zend_gc_globals \<Rightarrow> zend_gc_globals" where
  "gc_globals_ctor_ex w = w\<lparr>gc_enabled_flag := False, gc_active := False, gc_protected_flag := True, gc_full := False, gc_buf := [],
     gc_unused := GC_INVALID, first_unused := GC_INVALID, gc_threshold := GC_INVALID, buf_size := GC_INVALID, num_roots := 0, gc_runs := 0, gc_collected := 0\<rparr>"

definition gc_reset :: "zend_gc_globals \<Rightarrow> zend_gc_globals" where
  "gc_reset w = (if gc_buf w \<noteq> []
     then w\<lparr>gc_active := False, gc_protected_flag := False, gc_full := False, gc_unused := GC_INVALID, first_unused := GC_FIRST_ROOT,
       num_roots := 0, gc_runs := 0, gc_collected := 0\<rparr> else w)"

definition gc_enable :: "bool \<Rightarrow> zend_gc_globals \<Rightarrow> bool \<times> zend_gc_globals" where
  "gc_enable enable w =
     (let old_enabled = gc_enabled_flag w;
          w = w\<lparr>gc_enabled_flag := enable\<rparr>
      in (old_enabled,
          if enable \<and> \<not> old_enabled \<and> gc_buf w = []
          then gc_reset (w\<lparr>gc_buf := Some 0 # replicate (GC_DEFAULT_BUF_SIZE - 1) None, buf_size := GC_DEFAULT_BUF_SIZE, gc_threshold := GC_THRESHOLD_DEFAULT\<rparr>)
          else w))"

definition gc_enabled :: "zend_gc_globals \<Rightarrow> bool" where "gc_enabled w = gc_enabled_flag w"

definition gc_protect :: "bool \<Rightarrow> zend_gc_globals \<Rightarrow> bool \<times> zend_gc_globals" where
  "gc_protect b w = (gc_protected_flag w, w\<lparr>gc_protected_flag := b\<rparr>)"

definition gc_protected :: "zend_gc_globals \<Rightarrow> bool" where "gc_protected w = gc_protected_flag w"

definition gc_grow_root_buffer :: "zend_gc_globals \<Rightarrow> zend_gc_globals" where
  "gc_grow_root_buffer w =
     (if buf_size w \<ge> GC_MAX_BUF_SIZE \<and> \<not> gc_full w then w\<lparr>gc_active := True, gc_protected_flag := True, gc_full := True\<rparr>
      else let new_size = (if buf_size w < GC_BUF_GROW_STEP then buf_size w * 2 else buf_size w + GC_BUF_GROW_STEP);
               new_size = (if new_size > GC_MAX_BUF_SIZE then GC_MAX_BUF_SIZE else new_size)
        in w\<lparr>gc_buf := grow_to new_size (gc_buf w), buf_size := new_size\<rparr>)"

definition gc_adjust_threshold :: "int \<Rightarrow> zend_gc_globals \<Rightarrow> zend_gc_globals" where
  "gc_adjust_threshold n w =
     (if n < GC_THRESHOLD_TRIGGER \<or> num_roots w \<ge> gc_threshold w
      then if gc_threshold w < GC_THRESHOLD_MAX
        then let new_threshold = gc_threshold w + GC_THRESHOLD_STEP;
                 new_threshold = (if new_threshold > GC_THRESHOLD_MAX then GC_THRESHOLD_MAX else new_threshold);
                 w = (if new_threshold > buf_size w then gc_grow_root_buffer w else w)
          in if new_threshold \<le> buf_size w then w\<lparr>gc_threshold := new_threshold\<rparr> else w
        else w
      else if gc_threshold w > GC_THRESHOLD_DEFAULT
      then let new_threshold = gc_threshold w - GC_THRESHOLD_STEP;
               new_threshold = (if new_threshold < GC_THRESHOLD_DEFAULT then GC_THRESHOLD_DEFAULT else new_threshold)
        in w\<lparr>gc_threshold := new_threshold\<rparr>
      else w)"


text \<open>Finding room for a root: an unused entry, the next one that was never used, or one of a larger buffer.\<close>

definition gc_some_room :: "(nat \<times> zend_gc_globals) gc \<Rightarrow> (nat option \<times> zend_gc_globals) gc" where
  "gc_some_room r = gc_bind r (\<lambda>(idx, w). Inr (Some idx, w))"

definition gc_fetch_room :: "zend_gc_globals \<Rightarrow> (nat option \<times> zend_gc_globals) gc" where
  "gc_fetch_room w =
     (if GC_HAS_UNUSED w then gc_some_room (gc_fetch_unused w)
      else if GC_HAS_NEXT_UNUSED w then gc_some_room (gc_fetch_next_unused w)
      else let w = gc_grow_root_buffer w
        in if \<not> GC_HAS_NEXT_UNUSED w then Inr (None, w) else gc_some_room (gc_fetch_next_unused w))"

definition gc_is_container :: "gc_node \<Rightarrow> bool" where
  "gc_is_container x = (case gc_data x of Gc_Object _ _ _ _ \<Rightarrow> True | Gc_Array _ _ \<Rightarrow> True | _ \<Rightarrow> False)"

text \<open>Writing the entry and the information of the node.\<close>

definition gc_store_root :: "u64 \<Rightarrow> u32 \<Rightarrow> u64 \<Rightarrow> nat \<Rightarrow> zend_gc_globals \<Rightarrow> zend_gc_globals gc" where
  "gc_store_root e c ref idx w =
     gc_bind (gc_set_entry idx e w) (\<lambda>w.
       gc_bind (gc_upd (GC_REF_SET_INFO (word_of_nat (gc_compress idx) OR c)) ref w) (\<lambda>w.
         Inr (w\<lparr>num_roots := num_roots w + 1\<rparr>)))"

text \<open>The collector and the destructor of values are parameters: \<^verbatim>\<open>gc_collect_cycles\<close> is a function pointer.  The run of the collector tells
  whether the node is still to be added.\<close>

definition gc_run_when_full ::
    "(zend_gc_globals \<Rightarrow> int \<times> zend_gc_globals) \<Rightarrow> (u64 \<Rightarrow> zend_gc_globals \<Rightarrow> zend_gc_globals) \<Rightarrow> u64 \<Rightarrow> zend_gc_globals \<Rightarrow> (zend_gc_globals \<times> bool) gc" where
  "gc_run_when_full gc_collect_cycles rc_dtor_func ref w =
     gc_bind (gc_upd (\<lambda>x. x\<lparr>gc_refcount := gc_refcount x + 1\<rparr>) ref w) (\<lambda>w.
       let (n, w) = gc_collect_cycles w;
           w = gc_adjust_threshold n w
       in gc_bind (gc_node_at w ref) (\<lambda>x.
            if gc_refcount x = 0 then Inl Gc_Assertion
            else gc_bind (gc_upd (\<lambda>x. x\<lparr>gc_refcount := gc_refcount x - 1\<rparr>) ref w) (\<lambda>w.
              if gc_refcount x = 1 then Inr (rc_dtor_func ref w, False)
              else if gc_info x \<noteq> 0 then Inr (w, False)
              else Inr (w, True))))"

definition gc_possible_root_when_full ::
    "(zend_gc_globals \<Rightarrow> int \<times> zend_gc_globals) \<Rightarrow> (u64 \<Rightarrow> zend_gc_globals \<Rightarrow> zend_gc_globals) \<Rightarrow> u64 \<Rightarrow> zend_gc_globals \<Rightarrow> zend_gc_globals gc" where
  "gc_possible_root_when_full gc_collect_cycles rc_dtor_func ref w =
     gc_bind (gc_node_at w ref) (\<lambda>x.
       if \<not> gc_is_container x \<or> gc_info x \<noteq> 0 then Inl Gc_Assertion
       else gc_bind (if gc_enabled_flag w \<and> \<not> gc_active w then gc_run_when_full gc_collect_cycles rc_dtor_func ref w else Inr (w, True)) (\<lambda>(w, go_on).
         if \<not> go_on then Inr w
         else gc_bind (gc_fetch_room w) (\<lambda>(r, w). case r of None \<Rightarrow> Inr w | Some idx \<Rightarrow> gc_store_root ref GC_PURPLE ref idx w)))"

definition gc_possible_root ::
    "(zend_gc_globals \<Rightarrow> int \<times> zend_gc_globals) \<Rightarrow> (u64 \<Rightarrow> zend_gc_globals \<Rightarrow> zend_gc_globals) \<Rightarrow> u64 \<Rightarrow> zend_gc_globals \<Rightarrow> zend_gc_globals gc" where
  "gc_possible_root gc_collect_cycles rc_dtor_func ref w =
     (if gc_protected_flag w then Inr w
      else if GC_HAS_UNUSED w \<or> GC_HAS_NEXT_UNUSED_UNDER_THRESHOLD w
      then gc_bind (if GC_HAS_UNUSED w then gc_fetch_unused w else gc_fetch_next_unused w) (\<lambda>(idx, w).
           gc_bind (gc_node_at w ref) (\<lambda>x.
             if \<not> gc_is_container x \<or> gc_info x \<noteq> 0 then Inl Gc_Assertion else gc_store_root ref GC_PURPLE ref idx w))
      else gc_possible_root_when_full gc_collect_cycles rc_dtor_func ref w)"

definition gc_extra_root :: "u64 \<Rightarrow> zend_gc_globals \<Rightarrow> zend_gc_globals gc" where
  "gc_extra_root ref w =
     gc_bind (gc_fetch_room w) (\<lambda>(r, w). case r of None \<Rightarrow> Inr w
       | Some idx \<Rightarrow> gc_bind (gc_node_at w ref) (\<lambda>x.
           if \<not> gc_is_container x \<or> GC_REF_ADDRESS x \<noteq> 0 then Inl Gc_Assertion else gc_store_root ref (GC_REF_COLOR x) ref idx w))"

definition gc_remove_compressed :: "u64 \<Rightarrow> nat \<Rightarrow> zend_gc_globals \<Rightarrow> zend_gc_globals gc" where
  "gc_remove_compressed ref idx w = gc_bind (gc_decompress w ref idx) (\<lambda>i. gc_remove_from_roots i w)"

definition gc_remove_from_buffer :: "u64 \<Rightarrow> zend_gc_globals \<Rightarrow> zend_gc_globals gc" where
  "gc_remove_from_buffer ref w =
     gc_bind (gc_node_at w ref) (\<lambda>x.
       let idx = GC_REF_ADDRESS x
       in gc_bind (gc_upd (GC_REF_SET_INFO 0) ref w) (\<lambda>w.
            if first_unused w \<ge> GC_MAX_UNCOMPRESSED then gc_remove_compressed ref idx w
            else if idx = 0 then Inl Gc_Assertion
            else gc_remove_from_roots idx w))"

definition gc_add_garbage :: "u64 \<Rightarrow> zend_gc_globals \<Rightarrow> zend_gc_globals gc" where
  "gc_add_garbage ref w =
     gc_bind (gc_fetch_room w) (\<lambda>(r, w). case r of None \<Rightarrow> Inr w | Some idx \<Rightarrow> gc_store_root (GC_MAKE_GARBAGE ref) GC_BLACK ref idx w)"

section \<open>Compaction\<close>

text \<open>The two fingers: from below to an unused entry, from above to a used one.\<close>

function skip_used :: "zend_gc_globals \<Rightarrow> nat \<Rightarrow> nat gc" where
  "skip_used w i =
     (if i < length (gc_buf w)
      then case gc_buf w ! i of None \<Rightarrow> Inl Gc_Access | Some e \<Rightarrow> if \<not> GC_IS_UNUSED e then skip_used w (i + 1) else Inr i
      else Inl Gc_Access)"
  by auto
termination by (relation "measure (\<lambda>(w, i). length (gc_buf w) - i)") auto

fun skip_unused :: "zend_gc_globals \<Rightarrow> nat \<Rightarrow> nat gc" where
  "skip_unused w i =
     gc_bind (gc_entry w i) (\<lambda>e. if GC_IS_UNUSED e then (case i of 0 \<Rightarrow> Inl Gc_Access | Suc j \<Rightarrow> skip_unused w j) else Inr i)"

declare skip_used.simps [simp del] skip_unused.simps [simp del]

lemma skip_used_ge: "skip_used w i = Inr j \<Longrightarrow> i \<le> j"
proof (induction w i rule: skip_used.induct)
  case (1 w i)
  from 1 show ?case by (subst (asm) (2) skip_used.simps) (auto split: if_splits option.splits)
qed

lemma skip_unused_le: "skip_unused w i = Inr j \<Longrightarrow> j \<le> i"
proof (induction i arbitrary: j)
  case 0
  then show ?case by (subst (asm) skip_unused.simps) (auto simp: gc_entry_def split: if_splits option.splits)
next
  case (Suc i)
  from Suc.prems Suc.IH [of j] show ?case by (subst (asm) skip_unused.simps) (auto simp: gc_entry_def split: if_splits option.splits)
qed

text \<open>Moving the entry of the upper finger to the lower one.\<close>

definition compact_move :: "nat \<Rightarrow> nat \<Rightarrow> zend_gc_globals \<Rightarrow> zend_gc_globals gc" where
  "compact_move free scan w =
     gc_bind (gc_entry w scan) (\<lambda>e.
       gc_bind (gc_set_entry free e w) (\<lambda>w.
         let p = GC_GET_PTR e
         in gc_bind (gc_node_at w p) (\<lambda>x. gc_upd (GC_REF_SET_INFO (word_of_nat (gc_compress free) OR GC_REF_COLOR x)) p w)))"

function compact_loop :: "nat \<Rightarrow> nat \<Rightarrow> nat \<Rightarrow> zend_gc_globals \<Rightarrow> zend_gc_globals gc" where
  "compact_loop fin free scan w =
     (if free < scan
      then case skip_used w free of Inl e \<Rightarrow> Inl e | Inr free' \<Rightarrow>
        (case skip_unused w scan of Inl e \<Rightarrow> Inl e | Inr scan' \<Rightarrow>
          if scan' > free'
          then gc_bind (compact_move free' scan' w) (\<lambda>w.
               if scan' - 1 \<le> fin then Inr w else compact_loop fin (free' + 1) (scan' - 1) w)
          else Inr w)
      else Inr w)"
  by pat_completeness auto
termination
proof (relation "measure (\<lambda>(fin, free, scan, w). scan - free)", goal_cases)
  case (2 fin free scan w free' scan' w')
  then show ?case using skip_used_ge [of w free free'] skip_unused_le [of w scan scan'] by auto
qed simp

definition gc_compact :: "zend_gc_globals \<Rightarrow> zend_gc_globals gc" where
  "gc_compact w =
     (if num_roots w + GC_FIRST_ROOT \<noteq> first_unused w
      then gc_bind (if num_roots w \<noteq> 0 then compact_loop (num_roots w) GC_FIRST_ROOT (first_unused w - 1) w else Inr w) (\<lambda>w.
        Inr (w\<lparr>gc_unused := GC_INVALID, first_unused := num_roots w + GC_FIRST_ROOT\<rparr>))
      else Inr w)"


end
