(* ===== verification/Zend_Gc_Trace.thy ===== *)
theory Zend_Gc_Trace
  imports Zend_Gc_Buffer
begin

text \<open>
The tracing phases of the cycle collector (\<^verbatim>\<open>Zend/zend_gc.c\<close>): the four traversals \<^verbatim>\<open>gc_mark_grey\<close>,
  \<^verbatim>\<open>gc_scan_black\<close>, \<^verbatim>\<open>gc_scan\<close> and \<^verbatim>\<open>gc_collect_white\<close>, the loops over the root buffer that start them, and the first part of
  \<^verbatim>\<open>zend_gc_collect_cycles\<close>.  The stack of a traversal is a list instead of a chain of segments.  What \<^verbatim>\<open>get_gc\<close> returns for an object
  is data of its node; the branches for weak maps are left out.
\<close>

section \<open>The values in a node\<close>

fun counted :: "gc_zval \<Rightarrow> u64 option" where
  "counted (Collectable p) = Some p"
| "counted _ = None"

fun bucket_zval :: "gc_zval \<Rightarrow> gc_zval" where
  "bucket_zval (To_Slot z) = z"
| "bucket_zval z = z"

definition zval_refs :: "gc_zval list \<Rightarrow> u64 list" where
  "zval_refs zs = List.map_filter counted zs"

definition array_refs :: "bool \<Rightarrow> gc_zval list \<Rightarrow> u64 list" where
  "array_refs packed zs = zval_refs (if packed then zs else map bucket_zval zs)"

section \<open>Visiting a value\<close>

text \<open>What the four traversals do with a value they find: the result tells whether its node is to be visited.\<close>

definition ref_add :: "u64 \<Rightarrow> zend_gc_globals \<Rightarrow> zend_gc_globals gc" where
  "ref_add = gc_upd (\<lambda>x. x\<lparr>gc_refcount := gc_refcount x + 1\<rparr>)"

definition ref_del :: "u64 \<Rightarrow> zend_gc_globals \<Rightarrow> zend_gc_globals gc" where
  "ref_del p w = gc_bind (gc_node_at w p) (\<lambda>x. if gc_refcount x = 0 then Inl Gc_Assertion else gc_upd (\<lambda>x. x\<lparr>gc_refcount := gc_refcount x - 1\<rparr>) p w)"

definition recolor :: "(gc_node \<Rightarrow> bool) \<Rightarrow> (gc_node \<Rightarrow> gc_node) \<Rightarrow> u64 \<Rightarrow> zend_gc_globals \<Rightarrow> (zend_gc_globals \<times> bool) gc" where
  "recolor P f p w = gc_bind (gc_node_at w p) (\<lambda>x. if P x then gc_bind (gc_upd f p w) (\<lambda>w. Inr (w, True)) else Inr (w, False))"

definition touch_grey :: "u64 \<Rightarrow> zend_gc_globals \<Rightarrow> (zend_gc_globals \<times> bool) gc" where
  "touch_grey p w = gc_bind (ref_del p w) (recolor (\<lambda>x. \<not> GC_REF_CHECK_COLOR x GC_GREY) (GC_REF_SET_COLOR GC_GREY) p)"

definition touch_black :: "u64 \<Rightarrow> zend_gc_globals \<Rightarrow> (zend_gc_globals \<times> bool) gc" where
  "touch_black p w = gc_bind (ref_add p w) (recolor (\<lambda>x. \<not> GC_REF_CHECK_COLOR x GC_BLACK) GC_REF_SET_BLACK p)"

definition touch_white :: "u64 \<Rightarrow> zend_gc_globals \<Rightarrow> (zend_gc_globals \<times> bool) gc" where
  "touch_white = recolor (\<lambda>x. GC_REF_CHECK_COLOR x GC_GREY) (GC_REF_SET_COLOR GC_WHITE)"

definition touch_collect :: "u64 \<Rightarrow> zend_gc_globals \<Rightarrow> (zend_gc_globals \<times> bool) gc" where
  "touch_collect p w = gc_bind (ref_add p w) (recolor (\<lambda>x. GC_REF_CHECK_COLOR x GC_WHITE) GC_REF_SET_BLACK p)"

text \<open>The values of a node one after the other, with those whose nodes are to be visited.\<close>

type_synonym touch = "u64 \<Rightarrow> zend_gc_globals \<Rightarrow> (zend_gc_globals \<times> bool) gc"

fun touch_all :: "touch \<Rightarrow> u64 list \<Rightarrow> zend_gc_globals \<Rightarrow> (zend_gc_globals \<times> u64 list) gc" where
  "touch_all touch [] w = Inr (w, [])"
| "touch_all touch (p # ps) w =
     gc_bind (touch p w) (\<lambda>(w, new). gc_bind (touch_all touch ps w) (\<lambda>(w, ns). Inr (w, if new then p # ns else ns)))"

text \<open>The first one is visited next (the jump to \<^verbatim>\<open>tail_call\<close>), the others are pushed on the stack in order; with all pushed in order the last one is
  visited first.\<close>

definition tail_call :: "u64 list \<Rightarrow> u64 list \<Rightarrow> u64 list" where
  "tail_call new stack = (case new of [] \<Rightarrow> stack | p # ps \<Rightarrow> p # rev ps @ stack)"

definition push_all_refs :: "u64 list \<Rightarrow> u64 list \<Rightarrow> u64 list" where
  "push_all_refs new stack = rev new @ stack"

definition touch_tail :: "touch \<Rightarrow> u64 list \<Rightarrow> u64 list \<Rightarrow> zend_gc_globals \<Rightarrow> (zend_gc_globals \<times> u64 list) gc" where
  "touch_tail touch ps stack w = gc_bind (touch_all touch ps w) (\<lambda>(w, new). Inr (w, tail_call new stack))"

text \<open>The elements of the table of an object are visited at once when the table is new; \<open>gc_scan\<close> pushes the table too.\<close>

definition visit_table :: "touch \<Rightarrow> bool \<Rightarrow> u64 \<Rightarrow> gc_zval list \<Rightarrow> u64 list \<Rightarrow> zend_gc_globals \<Rightarrow> (zend_gc_globals \<times> u64 list) gc" where
  "visit_table touch push_table t zs stack w =
     gc_bind (touch_all touch (zval_refs zs) w) (\<lambda>(w, new).
       gc_bind (gc_node_at w t) (\<lambda>x. case gc_data x of
           Gc_Array packed es \<Rightarrow> touch_tail touch (array_refs packed es) (push_all_refs new (if push_table then t # stack else stack)) w
         | _ \<Rightarrow> Inl Gc_Access))"

definition visit_node :: "touch \<Rightarrow> bool \<Rightarrow> u64 \<Rightarrow> u64 list \<Rightarrow> zend_gc_globals \<Rightarrow> (zend_gc_globals \<times> u64 list) gc" where
  "visit_node touch push_table ref stack w =
     gc_bind (gc_node_at w ref) (\<lambda>x. case gc_data x of
         Gc_Object freed dtor t zs \<Rightarrow>
           if freed then Inr (w, stack)
           else (case t of None \<Rightarrow> touch_tail touch (zval_refs zs) stack w
             | Some t \<Rightarrow> gc_bind (touch t w) (\<lambda>(w, new). if new then visit_table touch push_table t zs stack w else touch_tail touch (zval_refs zs) stack w))
       | Gc_Array packed zs \<Rightarrow> touch_tail touch (array_refs packed zs) stack w
       | Gc_Reference z \<Rightarrow> touch_tail touch (zval_refs [z]) stack w
       | Gc_Other \<Rightarrow> Inr (w, stack))"

section \<open>The traversals\<close>

text \<open>A traversal takes a node from the stack, does what it does with every node, and visits its values. The second part of the state are the local
  variables of the traversal.\<close>

partial_function (option) traverse ::
    "(u64 \<Rightarrow> zend_gc_globals \<times> 'a \<Rightarrow> ((zend_gc_globals \<times> 'a) \<times> bool) gc option) \<Rightarrow> touch \<Rightarrow> bool \<Rightarrow> u64 list \<Rightarrow> zend_gc_globals \<times> 'a
      \<Rightarrow> (zend_gc_globals \<times> 'a) gc option" where
  "traverse enter touch push_table stack s =
     (case stack of [] \<Rightarrow> Some (Inr s)
      | ref # stack \<Rightarrow>
        (case enter ref s of None \<Rightarrow> None
         | Some (Inl e) \<Rightarrow> Some (Inl e)
         | Some (Inr ((w, a), go_on)) \<Rightarrow>
           if go_on
           then (case visit_node touch push_table ref stack w of Inl e \<Rightarrow> Some (Inl e)
              | Inr (w, stack) \<Rightarrow> traverse enter touch push_table stack (w, a))
           else traverse enter touch push_table stack (w, a)))"

definition always_enter :: "u64 \<Rightarrow> zend_gc_globals \<times> unit \<Rightarrow> ((zend_gc_globals \<times> unit) \<times> bool) gc option" where
  "always_enter ref s = Some (Inr (s, True))"

definition plain_result :: "(zend_gc_globals \<times> unit) gc option \<Rightarrow> zend_gc_globals gc option" where
  "plain_result r = map_option (\<lambda>r. gc_bind r (\<lambda>(w, _). Inr w)) r"

definition gc_mark_grey :: "u64 \<Rightarrow> zend_gc_globals \<Rightarrow> zend_gc_globals gc option" where
  "gc_mark_grey ref w = plain_result (traverse always_enter touch_grey False [ref] (w, ()))"

definition gc_scan_black :: "u64 \<Rightarrow> zend_gc_globals \<Rightarrow> zend_gc_globals gc option" where
  "gc_scan_black ref w = plain_result (traverse always_enter touch_black False [ref] (w, ()))"

definition scan_enter :: "u64 \<Rightarrow> zend_gc_globals \<times> unit \<Rightarrow> ((zend_gc_globals \<times> unit) \<times> bool) gc option" where
  "scan_enter ref s =
     (case gc_node_at (fst s) ref of Inl e \<Rightarrow> Some (Inl e)
      | Inr x \<Rightarrow>
        if \<not> GC_REF_CHECK_COLOR x GC_WHITE then Some (Inr (s, False))
        else if gc_refcount x > 0
        then (case gc_upd GC_REF_SET_BLACK ref (fst s) of Inl e \<Rightarrow> Some (Inl e)
              | Inr w \<Rightarrow> map_option (\<lambda>r. gc_bind r (\<lambda>w. Inr ((w, ()), False))) (gc_scan_black ref w))
        else Some (Inr (s, True)))"

definition gc_scan :: "u64 \<Rightarrow> zend_gc_globals \<Rightarrow> zend_gc_globals gc option" where
  "gc_scan ref w = plain_result (traverse scan_enter touch_white True [ref] (w, ()))"

text \<open>The count of the nodes and whether one of them has a destructor.\<close>

definition collect_enter :: "u64 \<Rightarrow> zend_gc_globals \<times> (nat \<times> bool) \<Rightarrow> ((zend_gc_globals \<times> (nat \<times> bool)) \<times> bool) gc option" where
  "collect_enter ref s = Some
     (let (w, n, flags) = s
      in gc_bind (gc_node_at w ref) (\<lambda>x. case gc_data x of
           Gc_Reference z \<Rightarrow> Inr ((w, n, flags), True)
         | Gc_Object freed dtor t zs \<Rightarrow>
             if freed then Inr ((w, n + 1, flags), True)
             else gc_bind (if gc_info x = 0 then gc_add_garbage ref w else Inr w) (\<lambda>w. Inr ((w, n + 1, flags \<or> dtor), True))
         | Gc_Array packed zs \<Rightarrow> gc_bind (if gc_info x = 0 then gc_add_garbage ref w else Inr w) (\<lambda>w. Inr ((w, n + 1, flags), True))
         | Gc_Other \<Rightarrow> Inr ((w, n + 1, flags), True)))"

definition gc_collect_white :: "u64 \<Rightarrow> bool \<Rightarrow> zend_gc_globals \<Rightarrow> (zend_gc_globals \<times> (nat \<times> bool)) gc option" where
  "gc_collect_white ref flags w = traverse collect_enter touch_collect False [ref] (w, 0, flags)"

section \<open>The roots\<close>

text \<open>A step for every entry of the buffer, from the first root.\<close>

fun each_entry :: "(nat \<Rightarrow> u64 \<Rightarrow> zend_gc_globals \<times> 'a \<Rightarrow> (zend_gc_globals \<times> 'a) gc option) \<Rightarrow> nat list \<Rightarrow> zend_gc_globals \<times> 'a
    \<Rightarrow> (zend_gc_globals \<times> 'a) gc option" where
  "each_entry step [] s = Some (Inr s)"
| "each_entry step (i # is) s =
     (case gc_entry (fst s) i of Inl e \<Rightarrow> Some (Inl e)
      | Inr e \<Rightarrow> (case step i e s of None \<Rightarrow> None | Some (Inl e) \<Rightarrow> Some (Inl e) | Some (Inr s) \<Rightarrow> each_entry step is s))"

definition gc_then :: "'a gc option \<Rightarrow> ('a \<Rightarrow> 'b gc option) \<Rightarrow> 'b gc option" where
  "gc_then r f = (case r of None \<Rightarrow> None | Some (Inl e) \<Rightarrow> Some (Inl e) | Some (Inr x) \<Rightarrow> f x)"

text \<open>A root of one colour gets another one and is traversed.\<close>

definition trace_root :: "u32 \<Rightarrow> u32 \<Rightarrow> (u64 \<Rightarrow> zend_gc_globals \<Rightarrow> zend_gc_globals gc option) \<Rightarrow> nat \<Rightarrow> u64
    \<Rightarrow> zend_gc_globals \<times> unit \<Rightarrow> (zend_gc_globals \<times> unit) gc option" where
  "trace_root old new trace i e s =
     (if \<not> GC_IS_ROOT e then Some (Inr s)
      else gc_then (Some (gc_node_at (fst s) e)) (\<lambda>x.
        if GC_REF_CHECK_COLOR x old
        then gc_then (Some (gc_upd (GC_REF_SET_COLOR new) e (fst s))) (\<lambda>w. gc_then (trace e w) (\<lambda>w. Some (Inr (w, ()))))
        else Some (Inr s)))"

definition gc_mark_roots :: "zend_gc_globals \<Rightarrow> zend_gc_globals gc option" where
  "gc_mark_roots w =
     gc_then (Some (gc_compact w)) (\<lambda>w.
       plain_result (each_entry (trace_root GC_PURPLE GC_GREY gc_mark_grey) [GC_FIRST_ROOT ..< first_unused w] (w, ())))"

text \<open>The second loop of \<open>gc_scan_roots\<close> runs until the end of the buffer, wherever it is then.\<close>

partial_function (option) scan_extra_roots :: "nat \<Rightarrow> zend_gc_globals \<Rightarrow> zend_gc_globals gc option" where
  "scan_extra_roots idx w =
     (if idx = first_unused w then Some (Inr w)
      else case gc_entry w idx of Inl e \<Rightarrow> Some (Inl e)
        | Inr e \<Rightarrow> (case trace_root GC_GREY GC_WHITE gc_scan idx e (w, ()) of None \<Rightarrow> None
           | Some (Inl e) \<Rightarrow> Some (Inl e)
           | Some (Inr (w, u)) \<Rightarrow> scan_extra_roots (idx + 1) w))"

definition gc_scan_roots :: "zend_gc_globals \<Rightarrow> zend_gc_globals gc option" where
  "gc_scan_roots w =
     (let last_root = first_unused w
      in gc_then (plain_result (each_entry (trace_root GC_GREY GC_WHITE gc_scan) [GC_FIRST_ROOT ..< last_root] (w, ()))) (\<lambda>w.
        scan_extra_roots last_root w))"

definition remove_black_root :: "nat \<Rightarrow> u64 \<Rightarrow> zend_gc_globals \<times> unit \<Rightarrow> (zend_gc_globals \<times> unit) gc option" where
  "remove_black_root i e s = Some
     (if \<not> GC_IS_ROOT e then Inr s
      else gc_bind (gc_node_at (fst s) e) (\<lambda>x.
        if GC_REF_CHECK_COLOR x GC_BLACK
        then gc_bind (gc_upd (GC_REF_SET_INFO 0) e (fst s)) (\<lambda>w. gc_bind (gc_remove_from_roots i w) (\<lambda>w. Inr (w, ())))
        else Inr s))"

definition collect_root :: "nat \<Rightarrow> u64 \<Rightarrow> zend_gc_globals \<times> (nat \<times> bool) \<Rightarrow> (zend_gc_globals \<times> (nat \<times> bool)) gc option" where
  "collect_root i e s =
     (let (w, n, flags) = s
      in if \<not> GC_IS_ROOT e then Some (Inl Gc_Assertion)
         else gc_then (Some (gc_set_entry i (GC_MAKE_GARBAGE e) w)) (\<lambda>w.
           gc_then (Some (gc_node_at w e)) (\<lambda>x.
             if GC_REF_CHECK_COLOR x GC_WHITE
             then gc_then (Some (gc_upd GC_REF_SET_BLACK e w)) (\<lambda>w.
                  gc_then (gc_collect_white e flags w) (\<lambda>(w, k, flags). Some (Inr (w, n + k, flags))))
             else Some (Inr (w, n, flags)))))"

definition gc_collect_roots :: "bool \<Rightarrow> zend_gc_globals \<Rightarrow> (zend_gc_globals \<times> (nat \<times> bool)) gc option" where
  "gc_collect_roots flags w =
     gc_then (plain_result (each_entry remove_black_root [GC_FIRST_ROOT ..< first_unused w] (w, ()))) (\<lambda>w.
       gc_then (Some (gc_compact w)) (\<lambda>w.
         each_entry collect_root [GC_FIRST_ROOT ..< first_unused w] (w, 0, flags)))"

text \<open>The first part of a run of \<open>zend_gc_collect_cycles\<close>: the search for the garbage, with the count of the nodes and whether there are
  destructors to run.\<close>

definition collect_cycles_trace :: "zend_gc_globals \<Rightarrow> (zend_gc_globals \<times> (nat \<times> bool)) gc option" where
  "collect_cycles_trace w =
     (if num_roots w = 0 \<or> gc_active w then Some (Inr (w, 0, False))
      else gc_then (gc_mark_roots (w\<lparr>gc_runs := gc_runs w + 1, gc_active := True\<rparr>)) (\<lambda>w.
        gc_then (gc_scan_roots w) (\<lambda>w.
          gc_then (gc_collect_roots False w) (\<lambda>(w, n, flags).
            Some (Inr (if num_roots w = 0 then w\<lparr>gc_active := False\<rparr> else w, n, flags))))))"


end
