(* ===== verification/Zend_Gc_Buffer_Laws.thy ===== *)
theory Zend_Gc_Buffer_Laws
  imports Zend_Gc_Buffer
begin

text \<open>
Laws of the root buffer: it represents a finite map from positions to nodes, and hence a set of nodes; every operation does to the set what it
  should, positions can be found again from their compressed form, and the compaction keeps the nodes.
\<close>

section \<open>Tags, colours, positions\<close>

definition aligned :: "u64 \<Rightarrow> bool" where
  "aligned p \<longleftrightarrow> p AND GC_BITS = 0"

lemma and_or_distrib: "(x OR y) AND z = (x AND z) OR (y AND z)" for x y z :: "'a::len word"
  by (simp add: bit.conj_disj_distrib2)

lemma aligned_ptr: "aligned p \<Longrightarrow> p AND NOT GC_BITS = p"
proof -
  assume "aligned p"
  then have "p = (p AND GC_BITS) OR (p AND NOT GC_BITS)" by (simp add: bit.conj_disj_distrib [symmetric])
  then show ?thesis using \<open>aligned p\<close> by (simp add: aligned_def)
qed

lemma aligned_tags:
  assumes "aligned p"
  shows "GC_GET_PTR p = p" "GC_IS_ROOT p" "\<not> GC_IS_UNUSED p" "\<not> GC_IS_GARBAGE p"
    "GC_GET_PTR (GC_MAKE_GARBAGE p) = p" "\<not> GC_IS_ROOT (GC_MAKE_GARBAGE p)" "\<not> GC_IS_UNUSED (GC_MAKE_GARBAGE p)" "GC_IS_GARBAGE (GC_MAKE_GARBAGE p)"
proof -
  have p: "p AND 3 = 0" using assms by (simp add: aligned_def GC_BITS_def)
  show "GC_GET_PTR p = p" using aligned_ptr [OF assms] by (simp add: GC_GET_PTR_def)
  show "GC_GET_PTR (GC_MAKE_GARBAGE p) = p" using aligned_ptr [OF assms]
    by (simp add: GC_GET_PTR_def GC_MAKE_GARBAGE_def and_or_distrib) (simp add: GC_GARBAGE_def GC_BITS_def)
  show "GC_IS_ROOT p" "\<not> GC_IS_UNUSED p" "\<not> GC_IS_GARBAGE p" "\<not> GC_IS_ROOT (GC_MAKE_GARBAGE p)" "\<not> GC_IS_UNUSED (GC_MAKE_GARBAGE p)"
    "GC_IS_GARBAGE (GC_MAKE_GARBAGE p)"
    using p by (simp_all add: GC_IS_ROOT_def GC_IS_UNUSED_def GC_IS_GARBAGE_def GC_MAKE_GARBAGE_def GC_BITS_def GC_ROOT_def GC_UNUSED_def GC_GARBAGE_def and_or_distrib)
qed

lemma word_multiple: "j mod 4 = 0 \<Longrightarrow> (word_of_nat j :: u64) AND 3 = 0"
proof -
  assume j: "j mod 4 = 0"
  have "(word_of_nat j :: u64) AND 3 = take_bit 2 (word_of_nat j)"
    using take_bit_eq_mask [of 2 "word_of_nat j :: u64"] by (simp add: mask_eq_exp_minus_1)
  also have "\<dots> = word_of_nat (take_bit 2 j)" by (simp add: take_bit_of_nat)
  also have "take_bit 2 j = j mod 4" by (simp add: take_bit_eq_mod)
  finally show ?thesis using j by simp
qed

lemma list_entry_unused: "GC_IS_UNUSED (GC_IDX2LIST i)"
proof -
  define j where "j = i * 8"
  have "j mod 4 = 0" by (simp add: j_def)
  from word_multiple [OF this] show ?thesis
    unfolding GC_IS_UNUSED_def GC_IDX2LIST_def j_def [symmetric] by (simp add: GC_BITS_def GC_UNUSED_def and_or_distrib)
qed

lemma list_entry_index: "GC_LIST2IDX (GC_IDX2LIST i) = i mod 2 ^ 29"
proof -
  define j where "j = i * 8"
  have "(ucast (word_of_nat j :: u64) :: u32) = word_of_nat j"
    by (simp add: unsigned_of_nat word_of_nat_eq_iff take_bit_take_bit)
  then have "(ucast (GC_IDX2LIST i) :: u32) = (word_of_nat j :: u32) OR 1"
    unfolding GC_IDX2LIST_def j_def [symmetric] by (simp add: GC_UNUSED_def unsigned_or_eq)
  also have "\<dots> = word_of_nat (j + 1)"
  proof -
    have "even (word_of_nat j :: u32)" by (simp add: j_def)
    then show ?thesis by (simp add: or_one_eq)
  qed
  finally have "GC_LIST2IDX (GC_IDX2LIST i) = (j + 1) mod 2 ^ 32 div 8" unfolding GC_LIST2IDX_def by (simp only: unat_of_nat take_bit_eq_mod) simp
  also have "\<dots> = i mod 2 ^ 29"
  proof -
    have "(j + 1) mod (8 * 2 ^ 29) = 8 * (((j + 1) div 8) mod 2 ^ 29) + (j + 1) mod 8" by (rule mod_mult2_eq)
    moreover have "(j + 1) div 8 = i" "(j + 1) mod 8 = 1" unfolding j_def by presburger+
    ultimately show ?thesis by simp
  qed
  finally show ?thesis .
qed

definition is_color :: "u32 \<Rightarrow> bool" where
  "is_color c \<longleftrightarrow> c AND GC_COLOR = c"

lemma is_color: "is_color GC_BLACK" "is_color GC_WHITE" "is_color GC_GREY" "is_color GC_PURPLE" "is_color (GC_REF_COLOR x)"
  by (simp_all add: is_color_def GC_BLACK_def GC_WHITE_def GC_GREY_def GC_PURPLE_def GC_COLOR_def GC_REF_COLOR_def and.assoc)

lemma is_color_address: "is_color c \<Longrightarrow> c AND GC_ADDRESS = 0"
proof -
  assume "is_color c"
  then have "c AND GC_ADDRESS = c AND (GC_COLOR AND GC_ADDRESS)" by (simp add: is_color_def and.assoc [symmetric])
  then show ?thesis by (simp add: GC_COLOR_def GC_ADDRESS_def)
qed

lemma index_parts:
  assumes "i < 2 ^ 20"
  shows "(word_of_nat i :: u32) AND GC_ADDRESS = word_of_nat i" "(word_of_nat i :: u32) AND GC_COLOR = 0"
proof -
  have "(word_of_nat i :: u32) AND GC_ADDRESS = take_bit 20 (word_of_nat i)"
    using take_bit_eq_mask [of 20 "word_of_nat i :: u32"] by (simp add: mask_eq_exp_minus_1 GC_ADDRESS_def)
  also have "\<dots> = word_of_nat i" using assms by (simp add: take_bit_of_nat take_bit_nat_eq_self)
  finally show a: "(word_of_nat i :: u32) AND GC_ADDRESS = word_of_nat i" .
  have "(word_of_nat i :: u32) AND GC_COLOR = (word_of_nat i AND GC_ADDRESS) AND GC_COLOR" by (simp only: a)
  also have "\<dots> = word_of_nat i AND (GC_ADDRESS AND GC_COLOR)" by (simp add: and.assoc)
  finally show "(word_of_nat i :: u32) AND GC_COLOR = 0" by (simp add: GC_COLOR_def GC_ADDRESS_def)
qed

lemma info_parts:
  assumes "i < 2 ^ 20" "is_color c"
  shows "GC_REF_ADDRESS (GC_REF_SET_INFO (word_of_nat i OR c) x) = i" "GC_REF_COLOR (GC_REF_SET_INFO (word_of_nat i OR c) x) = c"
proof -
  have "unat (word_of_nat i :: u32) = i" using assms(1) by (simp add: unat_of_nat take_bit_eq_mod)
  then show "GC_REF_ADDRESS (GC_REF_SET_INFO (word_of_nat i OR c) x) = i"
    using index_parts(1) [OF assms(1)] is_color_address [OF assms(2)] by (simp add: GC_REF_ADDRESS_def GC_REF_SET_INFO_def and_or_distrib)
  show "GC_REF_COLOR (GC_REF_SET_INFO (word_of_nat i OR c) x) = c"
    using index_parts(2) [OF assms(1)] assms(2) by (simp add: GC_REF_COLOR_def GC_REF_SET_INFO_def and_or_distrib is_color_def)
qed

lemma set_color_parts:
  assumes "is_color c"
  shows "GC_REF_ADDRESS (GC_REF_SET_COLOR c x) = GC_REF_ADDRESS x" "GC_REF_COLOR (GC_REF_SET_COLOR c x) = c"
    "GC_REF_ADDRESS (GC_REF_SET_BLACK x) = GC_REF_ADDRESS x" "GC_REF_COLOR (GC_REF_SET_BLACK x) = GC_BLACK"
proof -
  have n: "(i AND NOT GC_COLOR) AND GC_ADDRESS = i AND GC_ADDRESS" "(i AND NOT GC_COLOR) AND GC_COLOR = 0" for i
    by (simp_all add: and.assoc) (simp add: GC_COLOR_def GC_ADDRESS_def)
  show "GC_REF_ADDRESS (GC_REF_SET_COLOR c x) = GC_REF_ADDRESS x" "GC_REF_COLOR (GC_REF_SET_COLOR c x) = c"
    using assms is_color_address [OF assms] by (simp_all add: GC_REF_ADDRESS_def GC_REF_COLOR_def GC_REF_SET_COLOR_def and_or_distrib n is_color_def)
  show "GC_REF_ADDRESS (GC_REF_SET_BLACK x) = GC_REF_ADDRESS x" "GC_REF_COLOR (GC_REF_SET_BLACK x) = GC_BLACK"
    by (simp_all add: GC_REF_ADDRESS_def GC_REF_COLOR_def GC_REF_SET_BLACK_def n GC_BLACK_def)
qed

text \<open>The information word has no other bits.\<close>

definition info_ok :: "gc_node \<Rightarrow> bool" where
  "info_ok x \<longleftrightarrow> gc_info x AND NOT (GC_ADDRESS OR GC_COLOR) = 0"

lemma info_ok_set: "i < 2 ^ 20 \<Longrightarrow> is_color c \<Longrightarrow> info_ok (GC_REF_SET_INFO (word_of_nat i OR c) x)"
proof -
  assume i: "i < 2 ^ 20" and c: "is_color c"
  have "word_of_nat i AND NOT (GC_ADDRESS OR GC_COLOR) = (word_of_nat i AND GC_ADDRESS) AND NOT (GC_ADDRESS OR GC_COLOR)" using index_parts(1) [OF i] by simp
  also have "\<dots> = 0" by (simp add: and.assoc) (simp add: GC_ADDRESS_def GC_COLOR_def)
  finally have 1: "word_of_nat i AND NOT (GC_ADDRESS OR GC_COLOR) = 0" .
  have "c AND NOT (GC_ADDRESS OR GC_COLOR) = (c AND GC_COLOR) AND NOT (GC_ADDRESS OR GC_COLOR)" using c by (simp add: is_color_def)
  also have "\<dots> = 0" by (simp add: and.assoc) (simp add: GC_ADDRESS_def GC_COLOR_def)
  finally have 2: "c AND NOT (GC_ADDRESS OR GC_COLOR) = 0" .
  have "(word_of_nat i OR c) AND NOT (GC_ADDRESS OR GC_COLOR) = (word_of_nat i AND NOT (GC_ADDRESS OR GC_COLOR)) OR (c AND NOT (GC_ADDRESS OR GC_COLOR))"
    by (rule and_or_distrib)
  then show ?thesis unfolding info_ok_def GC_REF_SET_INFO_def using 1 2 by simp
qed

lemma info_ok_color:
  assumes "info_ok x" "is_color c"
  shows "info_ok (GC_REF_SET_COLOR c x)" "info_ok (GC_REF_SET_BLACK x)"
proof -
  let ?n = "NOT (GC_ADDRESS OR GC_COLOR)"
  have x: "gc_info x AND ?n = 0" using assms(1) by (simp add: info_ok_def)
  have "(gc_info x AND NOT GC_COLOR) AND ?n = (gc_info x AND ?n) AND NOT GC_COLOR" by (simp only: ac_simps)
  then have b: "(gc_info x AND NOT GC_COLOR) AND ?n = 0" using x by simp
  have "c AND ?n = (c AND GC_COLOR) AND ?n" using assms(2) by (simp add: is_color_def)
  also have "\<dots> = 0" by (simp add: and.assoc) (simp add: GC_ADDRESS_def GC_COLOR_def)
  finally have c: "c AND ?n = 0" .
  have "((gc_info x AND NOT GC_COLOR) OR c) AND ?n = ((gc_info x AND NOT GC_COLOR) AND ?n) OR (c AND ?n)" by (rule and_or_distrib)
  then show "info_ok (GC_REF_SET_COLOR c x)" unfolding info_ok_def GC_REF_SET_COLOR_def using b c by simp
  show "info_ok (GC_REF_SET_BLACK x)" unfolding info_ok_def GC_REF_SET_BLACK_def using b by simp
qed

lemma info_ok_zero: "info_ok x \<Longrightarrow> GC_REF_ADDRESS x = 0 \<Longrightarrow> GC_REF_COLOR x = GC_BLACK \<Longrightarrow> gc_info x = 0"
proof -
  assume x: "info_ok x" "GC_REF_ADDRESS x = 0" "GC_REF_COLOR x = GC_BLACK"
  have "gc_info x = gc_info x AND ((GC_ADDRESS OR GC_COLOR) OR NOT (GC_ADDRESS OR GC_COLOR))"
    by (simp only: bit.disj_cancel_right and.right_neutral)
  also have "\<dots> = (gc_info x AND GC_ADDRESS) OR (gc_info x AND GC_COLOR) OR (gc_info x AND NOT (GC_ADDRESS OR GC_COLOR))"
    by (simp only: bit.conj_disj_distrib or.assoc)
  finally have "gc_info x = (gc_info x AND GC_ADDRESS) OR (gc_info x AND GC_COLOR) OR (gc_info x AND NOT (GC_ADDRESS OR GC_COLOR))" .
  moreover have "gc_info x AND GC_ADDRESS = 0" using x(2) unfolding GC_REF_ADDRESS_def by (simp add: unat_eq_0)
  moreover have "gc_info x AND GC_COLOR = 0" "gc_info x AND NOT (GC_ADDRESS OR GC_COLOR) = 0" using x(1,3) unfolding info_ok_def GC_REF_COLOR_def GC_BLACK_def by blast+
  ultimately show ?thesis by simp
qed

lemma check_color: "GC_REF_CHECK_COLOR x c \<longleftrightarrow> GC_REF_COLOR x = c"
  by (simp add: GC_REF_CHECK_COLOR_def GC_REF_COLOR_def)

lemma colors_distinct: "GC_BLACK \<noteq> GC_WHITE" "GC_BLACK \<noteq> GC_GREY" "GC_BLACK \<noteq> GC_PURPLE" "GC_WHITE \<noteq> GC_GREY" "GC_WHITE \<noteq> GC_PURPLE" "GC_GREY \<noteq> GC_PURPLE"
  by (simp_all add: GC_BLACK_def GC_WHITE_def GC_GREY_def GC_PURPLE_def)

text \<open>A compressed position fits into its bits and tells the position up to multiples of $2^{19}$.\<close>

lemma or_flag: "a < 2 ^ 19 \<Longrightarrow> a OR 2 ^ 19 = a + 2 ^ 19" for a :: nat
proof -
  assume a: "a < 2 ^ 19"
  have "(1 * 2 ^ 19) OR int a = 1 * 2 ^ 19 + int a" using a by (intro or_low_bits) simp_all
  then have "int (a OR 2 ^ 19) = int (a + 2 ^ 19)" by (simp add: of_nat_or_eq or.commute)
  then show ?thesis by linarith
qed

lemma compress_eq: "gc_compress i = (if i < 2 ^ 19 then i else i mod 2 ^ 19 + 2 ^ 19)"
  using or_flag [of "i mod 2 ^ 19"] by (simp add: gc_compress_def GC_MAX_UNCOMPRESSED_def)

lemma compress_bounds: "gc_compress i < 2 ^ 20" "i \<noteq> 0 \<Longrightarrow> gc_compress i \<noteq> 0"
proof -
  have "i mod 2 ^ 19 < 2 ^ 19" by (rule mod_less_divisor) simp
  then show "gc_compress i < 2 ^ 20" "i \<noteq> 0 \<Longrightarrow> gc_compress i \<noteq> 0" by (auto simp: compress_eq)
qed


section \<open>The invariant of the buffer\<close>

fun unused_chain :: "u64 cell list \<Rightarrow> nat \<Rightarrow> nat list \<Rightarrow> bool" where
  "unused_chain b head [] \<longleftrightarrow> head = 0"
| "unused_chain b head (i # is) \<longleftrightarrow> head = i \<and> i < length b \<and> (\<exists>n. n < 2 ^ 29 \<and> b ! i = Some (GC_IDX2LIST n) \<and> unused_chain b n is)"

lemma unused_chain_update: "i \<notin> set is \<Longrightarrow> unused_chain (b[i := e]) head is \<longleftrightarrow> unused_chain b head is"
  by (induction "is" arbitrary: head) auto

lemma unused_chain_mono: "unused_chain b head is \<Longrightarrow> \<forall>i\<in>set is. i < length b' \<and> b' ! i = b ! i \<Longrightarrow> unused_chain b' head is"
  by (induction "is" arbitrary: head) auto

text \<open>The roots as a map from positions to entries, and how the nodes refer to it.\<close>

type_synonym root_map = "nat \<rightharpoonup> u64"

definition roots_ok :: "(u64 \<rightharpoonup> gc_node) \<Rightarrow> root_map \<Rightarrow> bool" where
  "roots_ok ns R \<longleftrightarrow>
     (\<forall>i e. R i = Some e \<longrightarrow> \<not> GC_IS_UNUSED e \<and> (\<exists>x. ns (GC_GET_PTR e) = Some x \<and> GC_REF_ADDRESS x = gc_compress i)) \<and>
     (\<forall>i j e f. R i = Some e \<and> R j = Some f \<and> GC_GET_PTR e = GC_GET_PTR f \<longrightarrow> i = j) \<and>
     (\<forall>p x. ns p = Some x \<and> GC_REF_ADDRESS x \<noteq> 0 \<longrightarrow> (\<exists>i e. R i = Some e \<and> GC_GET_PTR e = p))"

lemma roots_okD:
  assumes "roots_ok ns R" "R i = Some e"
  obtains x where "\<not> GC_IS_UNUSED e" "ns (GC_GET_PTR e) = Some x" "GC_REF_ADDRESS x = gc_compress i"
  using assms unfolding roots_ok_def by blast

lemma roots_ok_inj: "roots_ok ns R \<Longrightarrow> R i = Some e \<Longrightarrow> R j = Some f \<Longrightarrow> GC_GET_PTR e = GC_GET_PTR f \<Longrightarrow> i = j"
  unfolding roots_ok_def by blast

lemma roots_ok_cover:
  assumes "roots_ok ns R" "ns p = Some x" "GC_REF_ADDRESS x \<noteq> 0"
  obtains i e where "R i = Some e" "GC_GET_PTR e = p"
  using assms unfolding roots_ok_def by blast

lemma roots_ok_store:
  assumes ok: "roots_ok ns R" and i: "R i = None" and x: "ns (GC_GET_PTR e) = Some x" "GC_REF_ADDRESS x = 0"
    and e: "\<not> GC_IS_UNUSED e" and y: "GC_REF_ADDRESS y = gc_compress i" and pos: "\<forall>i e. R i = Some e \<longrightarrow> i \<noteq> 0"
  shows "roots_ok (ns(GC_GET_PTR e \<mapsto> y)) (R(i \<mapsto> e))"
proof -
  have fresh: "GC_GET_PTR f \<noteq> GC_GET_PTR e" if f: "R j = Some f" for j f
  proof
    assume eq: "GC_GET_PTR f = GC_GET_PTR e"
    obtain z where "ns (GC_GET_PTR f) = Some z" "GC_REF_ADDRESS z = gc_compress j" using roots_okD [OF ok f] by blast
    then have "gc_compress j = 0" using x eq by simp
    then show False using compress_bounds(2) [of j] pos f by blast
  qed
  show ?thesis
    unfolding roots_ok_def
  proof (intro conjI allI impI)
    fix j f assume j: "(R(i \<mapsto> e)) j = Some f"
    show "\<not> GC_IS_UNUSED f"
    proof (cases "j = i")
      case False
      then have f: "R j = Some f" using j by simp
      show ?thesis using roots_okD [OF ok f] by blast
    qed (use j e in simp)
    show "\<exists>z. (ns(GC_GET_PTR e \<mapsto> y)) (GC_GET_PTR f) = Some z \<and> GC_REF_ADDRESS z = gc_compress j"
    proof (cases "j = i")
      case True
      then show ?thesis using j y by simp
    next
      case False
      then have f: "R j = Some f" using j by simp
      obtain z where "ns (GC_GET_PTR f) = Some z" "GC_REF_ADDRESS z = gc_compress j" using roots_okD [OF ok f] by blast
      then show ?thesis using fresh [OF f] by simp
    qed
  next
    fix j k f g assume "(R(i \<mapsto> e)) j = Some f \<and> (R(i \<mapsto> e)) k = Some g \<and> GC_GET_PTR f = GC_GET_PTR g"
    then show "j = k" using roots_ok_inj [OF ok, of j f k g] fresh [of j f] fresh [of k g] by (auto split: if_splits)
  next
    fix p z assume z: "(ns(GC_GET_PTR e \<mapsto> y)) p = Some z \<and> GC_REF_ADDRESS z \<noteq> 0"
    show "\<exists>j f. (R(i \<mapsto> e)) j = Some f \<and> GC_GET_PTR f = p"
    proof (cases "p = GC_GET_PTR e")
      case True
      then show ?thesis by (intro exI [of _ i] exI [of _ e]) simp
    next
      case False
      then obtain j f where "R j = Some f" "GC_GET_PTR f = p" using z roots_ok_cover [OF ok, of p z] by auto
      then show ?thesis using i by (intro exI [of _ j] exI [of _ f]) auto
    qed
  qed
qed

lemma roots_ok_remove:
  assumes ok: "roots_ok ns R" and i: "R i = Some e" and y: "GC_REF_ADDRESS y = 0"
  shows "roots_ok (ns(GC_GET_PTR e \<mapsto> y)) (R(i := None))"
proof -
  have other: "GC_GET_PTR f \<noteq> GC_GET_PTR e" if "R j = Some f" "j \<noteq> i" for j f using roots_ok_inj [OF ok that(1) i] that(2) by blast
  show ?thesis
    unfolding roots_ok_def
  proof (intro conjI allI impI)
    fix j f assume "(R(i := None)) j = Some f"
    then have f: "R j = Some f" "j \<noteq> i" by (auto split: if_splits)
    obtain z where "\<not> GC_IS_UNUSED f" "ns (GC_GET_PTR f) = Some z" "GC_REF_ADDRESS z = gc_compress j" using roots_okD [OF ok f(1)] .
    then show "\<not> GC_IS_UNUSED f" "\<exists>z. (ns(GC_GET_PTR e \<mapsto> y)) (GC_GET_PTR f) = Some z \<and> GC_REF_ADDRESS z = gc_compress j"
      using other [OF f] by simp_all
  next
    fix j k f g assume "(R(i := None)) j = Some f \<and> (R(i := None)) k = Some g \<and> GC_GET_PTR f = GC_GET_PTR g"
    then show "j = k" using roots_ok_inj [OF ok] by (auto split: if_splits)
  next
    fix p z assume z: "(ns(GC_GET_PTR e \<mapsto> y)) p = Some z \<and> GC_REF_ADDRESS z \<noteq> 0"
    then have p: "p \<noteq> GC_GET_PTR e" using y by auto
    then obtain j f where j: "R j = Some f" "GC_GET_PTR f = p" using z roots_ok_cover [OF ok, of p z] by auto
    then have "j \<noteq> i" using p i by auto
    then show "\<exists>j f. (R(i := None)) j = Some f \<and> GC_GET_PTR f = p" using j by (intro exI [of _ j] exI [of _ f]) simp
  qed
qed

text \<open>The buffer represents the roots \<open>R\<close>, with the unused positions \<open>ul\<close> and the positions \<open>X\<close> that are taken but not written yet.\<close>

definition gc_sizes :: "zend_gc_globals \<Rightarrow> bool" where
  "gc_sizes w \<longleftrightarrow> length (gc_buf w) = buf_size w \<and> 1 \<le> first_unused w \<and> first_unused w \<le> buf_size w \<and> buf_size w \<le> 2 ^ 29"

definition gc_free_list :: "zend_gc_globals \<Rightarrow> nat list \<Rightarrow> bool" where
  "gc_free_list w ul \<longleftrightarrow> unused_chain (gc_buf w) (gc_unused w) ul \<and> distinct ul \<and> (\<forall>i\<in>set ul. 1 \<le> i \<and> i < first_unused w)"

definition gc_holds :: "nat set \<Rightarrow> zend_gc_globals \<Rightarrow> nat list \<Rightarrow> root_map \<Rightarrow> bool" where
  "gc_holds X w ul R \<longleftrightarrow> dom R = {i. 1 \<le> i \<and> i < first_unused w \<and> i \<notin> set ul \<and> i \<notin> X} \<and> (\<forall>i e. R i = Some e \<longrightarrow> gc_buf w ! i = Some e)"

definition gc_view :: "nat set \<Rightarrow> zend_gc_globals \<Rightarrow> nat list \<Rightarrow> root_map \<Rightarrow> bool" where
  "gc_view X w ul R \<longleftrightarrow> gc_sizes w \<and> gc_free_list w ul \<and> gc_holds X w ul R
     \<and> num_roots w + length ul + card X + 1 = first_unused w \<and> (\<forall>i\<in>X. 1 \<le> i \<and> i < first_unused w \<and> i \<notin> set ul)
     \<and> roots_ok (nodes_of w) R \<and> (\<forall>p\<in>dom (nodes_of w). aligned p)"

lemma gc_viewD:
  assumes "gc_view X w ul R"
  shows "gc_sizes w" "gc_free_list w ul" "gc_holds X w ul R" "roots_ok (nodes_of w) R" "num_roots w + length ul + card X + 1 = first_unused w"
    "i \<in> X \<Longrightarrow> 1 \<le> i \<and> i < first_unused w \<and> i \<notin> set ul" "nodes_of w p = Some x \<Longrightarrow> aligned p"
    "R i = Some e \<Longrightarrow> 1 \<le> i \<and> i < first_unused w \<and> i < length (gc_buf w) \<and> gc_buf w ! i = Some e \<and> i \<notin> set ul \<and> i \<notin> X"
proof -
  show "gc_sizes w" "gc_free_list w ul" "gc_holds X w ul R" "roots_ok (nodes_of w) R" "num_roots w + length ul + card X + 1 = first_unused w"
    "i \<in> X \<Longrightarrow> 1 \<le> i \<and> i < first_unused w \<and> i \<notin> set ul" "nodes_of w p = Some x \<Longrightarrow> aligned p"
    using assms unfolding gc_view_def by auto
  assume e: "R i = Some e"
  then have "i \<in> dom R" by auto
  then have "1 \<le> i \<and> i < first_unused w \<and> i \<notin> set ul \<and> i \<notin> X" using assms unfolding gc_view_def gc_holds_def by auto
  then show "1 \<le> i \<and> i < first_unused w \<and> i < length (gc_buf w) \<and> gc_buf w ! i = Some e \<and> i \<notin> set ul \<and> i \<notin> X"
    using assms e unfolding gc_view_def gc_holds_def gc_sizes_def by auto
qed


section \<open>Taking and giving back entries\<close>

lemma gc_node_at_Some: "nodes_of w p = Some x \<Longrightarrow> gc_node_at w p = Inr x"
  by (simp add: gc_node_at_def)

lemma gc_upd_Some: "nodes_of w p = Some x \<Longrightarrow> gc_upd f p w = Inr (w\<lparr>nodes_of := (nodes_of w)(p \<mapsto> f x)\<rparr>)"
  by (simp add: gc_upd_def gc_node_at_Some)

lemma gc_entry_Some: "i < length (gc_buf w) \<Longrightarrow> gc_buf w ! i = Some e \<Longrightarrow> gc_entry w i = Inr e"
  by (simp add: gc_entry_def)

lemmas gc_run = gc_node_at_Some gc_upd_Some gc_entry_Some gc_set_entry_def gc_bind.simps

lemma gc_view_pos: "gc_view X w ul R \<Longrightarrow> \<forall>i e. R i = Some e \<longrightarrow> i \<noteq> 0"
  using gc_viewD(8) by fastforce

lemma gc_view_cong:
  assumes "gc_view X w ul R" "gc_buf w' = gc_buf w" "gc_unused w' = gc_unused w" "first_unused w' = first_unused w" "buf_size w' = buf_size w"
    "num_roots w' = num_roots w" "nodes_of w' = nodes_of w"
  shows "gc_view X w' ul R"
  using assms by (simp add: gc_view_def gc_sizes_def gc_free_list_def gc_holds_def)

lemma fetch_unused_run:
  assumes v: "gc_view {} w (i # us) R"
  shows "\<exists>n. gc_fetch_unused w = Inr (i, w\<lparr>gc_unused := n\<rparr>) \<and> gc_view {i} (w\<lparr>gc_unused := n\<rparr>) us R"
proof -
  note fr = gc_viewD(2) [OF v, unfolded gc_free_list_def]
  obtain n where n: "gc_unused w = i" "i < length (gc_buf w)" "n < 2 ^ 29" "gc_buf w ! i = Some (GC_IDX2LIST n)" "unused_chain (gc_buf w) n us" using fr by auto
  have i: "1 \<le> i" "i < first_unused w" "i \<notin> set us" "distinct us" "\<forall>j\<in>set us. 1 \<le> j \<and> j < first_unused w" using fr by auto
  have "gc_fetch_unused w = Inr (i, w\<lparr>gc_unused := n\<rparr>)"
    using n i list_entry_index [of n] by (simp add: gc_fetch_unused_def GC_HAS_UNUSED_def GC_INVALID_def gc_entry_Some list_entry_unused)
  moreover have "gc_view {i} (w\<lparr>gc_unused := n\<rparr>) us R"
    using v n i unfolding gc_view_def gc_sizes_def gc_free_list_def gc_holds_def by auto
  ultimately show ?thesis by blast
qed

lemma fetch_next_run:
  assumes v: "gc_view {} w ul R" and room: "first_unused w < buf_size w"
  shows "gc_fetch_next_unused w = Inr (first_unused w, w\<lparr>first_unused := first_unused w + 1\<rparr>)"
    "gc_view {first_unused w} (w\<lparr>first_unused := first_unused w + 1\<rparr>) ul R"
proof -
  show "gc_fetch_next_unused w = Inr (first_unused w, w\<lparr>first_unused := first_unused w + 1\<rparr>)"
    using room by (simp add: gc_fetch_next_unused_def GC_HAS_NEXT_UNUSED_def)
  have "\<forall>i\<in>set ul. 1 \<le> i \<and> i < first_unused w" using gc_viewD(2) [OF v] by (simp add: gc_free_list_def)
  moreover have "dom R = {i. 1 \<le> i \<and> i < first_unused w \<and> i \<notin> set ul}" using gc_viewD(3) [OF v] by (simp add: gc_holds_def)
  ultimately show "gc_view {first_unused w} (w\<lparr>first_unused := first_unused w + 1\<rparr>) ul R"
    using v room unfolding gc_view_def gc_sizes_def gc_free_list_def gc_holds_def by auto
qed

lemma grow_run:
  assumes v: "gc_view X w ul R" and limit: "buf_size w + GC_BUF_GROW_STEP \<le> 2 ^ 29"
  shows "gc_view X (gc_grow_root_buffer w) ul R" "buf_size w < buf_size (gc_grow_root_buffer w)" "first_unused (gc_grow_root_buffer w) = first_unused w"
    "nodes_of (gc_grow_root_buffer w) = nodes_of w" "num_roots (gc_grow_root_buffer w) = num_roots w" "gc_threshold (gc_grow_root_buffer w) = gc_threshold w"
proof -
  note sz = gc_viewD(1) [OF v, unfolded gc_sizes_def]
  define m where "m = (if buf_size w < GC_BUF_GROW_STEP then buf_size w * 2 else buf_size w + GC_BUF_GROW_STEP)"
  have m: "buf_size w < m" "m \<le> 2 ^ 29" using sz limit by (auto simp: m_def GC_BUF_GROW_STEP_def)
  have g: "gc_grow_root_buffer w = w\<lparr>gc_buf := grow_to m (gc_buf w), buf_size := m\<rparr>"
    using limit m unfolding gc_grow_root_buffer_def Let_def m_def [symmetric] by (simp add: GC_MAX_BUF_SIZE_def GC_BUF_GROW_STEP_def)
  have pre: "grow_to m (gc_buf w) ! i = gc_buf w ! i" if "i < first_unused w" for i using that sz m by (simp add: nth_grow_to)
  have "unused_chain (grow_to m (gc_buf w)) (gc_unused w) ul"
    by (rule unused_chain_mono [of "gc_buf w"]) (use gc_viewD(2) [OF v] pre sz m in \<open>auto simp: gc_free_list_def\<close>)
  moreover have "gc_holds X (gc_grow_root_buffer w) ul R" using gc_viewD(3) [OF v] gc_viewD(8) [OF v] pre by (simp add: g gc_holds_def)
  ultimately show "gc_view X (gc_grow_root_buffer w) ul R" using v m unfolding gc_view_def g by (auto simp: gc_sizes_def gc_free_list_def)
  show "buf_size w < buf_size (gc_grow_root_buffer w)" "first_unused (gc_grow_root_buffer w) = first_unused w"
    "nodes_of (gc_grow_root_buffer w) = nodes_of w" "num_roots (gc_grow_root_buffer w) = num_roots w"
    "gc_threshold (gc_grow_root_buffer w) = gc_threshold w" using m by (simp_all add: g)
qed

lemma fetch_room_full:
  assumes v: "gc_view {} w ul R" and full: "ul = [] \<and> first_unused w = buf_size w \<longrightarrow> buf_size w + GC_BUF_GROW_STEP \<le> 2 ^ 29"
  obtains i w' ul' where "gc_fetch_room w = Inr (Some i, w')" "gc_view {i} w' ul' R" "nodes_of w' = nodes_of w"
    "gc_threshold w' = gc_threshold w" "buf_size w \<le> buf_size w'"
proof (cases ul)
  case (Cons i us)
  obtain n where n: "gc_fetch_unused w = Inr (i, w\<lparr>gc_unused := n\<rparr>)" "gc_view {i} (w\<lparr>gc_unused := n\<rparr>) us R"
    using fetch_unused_run [OF v [unfolded Cons]] by blast
  have "GC_HAS_UNUSED w" using gc_viewD(2) [OF v] Cons by (auto simp: gc_free_list_def GC_HAS_UNUSED_def GC_INVALID_def)
  then show ?thesis using that [of i "w\<lparr>gc_unused := n\<rparr>" us] n by (simp add: gc_fetch_room_def gc_some_room_def)
next
  case Nil
  then have u: "\<not> GC_HAS_UNUSED w" using gc_viewD(2) [OF v] by (simp add: gc_free_list_def GC_HAS_UNUSED_def GC_INVALID_def)
  have le: "first_unused w \<le> buf_size w" using gc_viewD(1) [OF v] by (simp add: gc_sizes_def)
  show ?thesis
  proof (cases "first_unused w < buf_size w")
    case True
    then show ?thesis using that fetch_next_run [OF v True] u by (simp add: gc_fetch_room_def gc_some_room_def GC_HAS_NEXT_UNUSED_def)
  next
    case False
    have limit: "buf_size w + GC_BUF_GROW_STEP \<le> 2 ^ 29" using full Nil False le by simp
    note g = grow_run [OF v limit]
    have lt: "first_unused (gc_grow_root_buffer w) < buf_size (gc_grow_root_buffer w)" using g(2,3) False le by simp
    show ?thesis using that fetch_next_run [OF g(1) lt] u False le g(2,3,4,6) lt
      by (simp add: gc_fetch_room_def gc_some_room_def GC_HAS_NEXT_UNUSED_def Let_def)
  qed
qed

lemma fetch_room_run:
  assumes v: "gc_view {} w ul R" and limit: "buf_size w + GC_BUF_GROW_STEP \<le> 2 ^ 29"
  obtains i w' ul' where "gc_fetch_room w = Inr (Some i, w')" "gc_view {i} w' ul' R" "nodes_of w' = nodes_of w"
    "gc_threshold w' = gc_threshold w" "buf_size w \<le> buf_size w'"
  using fetch_room_full [OF v impI [OF limit] that] .

lemma store_root_run:
  assumes v: "gc_view {i} w ul R" and x: "nodes_of w ref = Some x" "GC_REF_ADDRESS x = 0" and e: "GC_GET_PTR e = ref" "\<not> GC_IS_UNUSED e"
    and c: "is_color c"
  shows "\<exists>w'. gc_store_root e c ref i w = Inr w' \<and> gc_view {} w' ul (R(i \<mapsto> e))
    \<and> nodes_of w' = (nodes_of w)(ref \<mapsto> GC_REF_SET_INFO (word_of_nat (gc_compress i) OR c) x)"
proof -
  let ?y = "GC_REF_SET_INFO (word_of_nat (gc_compress i) OR c) x"
  have i: "1 \<le> i" "i < first_unused w" "i \<notin> set ul" using gc_viewD(6) [OF v, of i] by simp_all
  have l: "i < length (gc_buf w)" using i gc_viewD(1) [OF v] by (simp add: gc_sizes_def)
  have h: "dom R = {j. 1 \<le> j \<and> j < first_unused w \<and> j \<notin> set ul \<and> j \<noteq> i}" using gc_viewD(3) [OF v] by (simp add: gc_holds_def)
  have Ri: "R i = None" using h by auto
  define w' where "w' = w\<lparr>gc_buf := (gc_buf w)[i := Some e], nodes_of := (nodes_of w)(ref \<mapsto> ?y), num_roots := num_roots w + 1\<rparr>"
  have run: "gc_store_root e c ref i w = Inr w'" using l x by (simp add: gc_store_root_def gc_run w'_def)
  have "GC_REF_ADDRESS ?y = gc_compress i" using info_parts(1) [OF compress_bounds(1) c] .
  then have "roots_ok (nodes_of w') (R(i \<mapsto> e))"
    using roots_ok_store [OF gc_viewD(4) [OF v] Ri _ x(2) e(2) _ gc_view_pos [OF v]] x(1) e(1) by (simp add: w'_def)
  moreover have "gc_holds {} w' ul (R(i \<mapsto> e))"
    using h i l gc_viewD(8) [OF v] by (auto simp: gc_holds_def w'_def nth_list_update)
  moreover have "gc_free_list w' ul" using gc_viewD(2) [OF v] i by (simp add: gc_free_list_def w'_def unused_chain_update)
  ultimately have "gc_view {} w' ul (R(i \<mapsto> e))"
    using gc_viewD(1,5) [OF v] gc_viewD(7) [OF v] x(1) by (auto simp: gc_view_def gc_sizes_def w'_def)
  then show ?thesis using run by (simp add: w'_def)
qed


text \<open>Removing an entry puts its position on the list of unused ones.\<close>

lemma remove_entry_run:
  assumes v: "gc_view {} w ul R" and i: "R i = Some e" and y: "GC_REF_ADDRESS y = 0" and ptr: "GC_GET_PTR e = ref"
  defines "w1 \<equiv> w\<lparr>nodes_of := (nodes_of w)(ref \<mapsto> y)\<rparr>"
  shows "\<exists>w'. gc_remove_from_roots i w1 = Inr w' \<and> gc_view {} w' (i # ul) (R(i := None)) \<and> nodes_of w' = (nodes_of w)(ref \<mapsto> y)"
proof -
  note e = gc_viewD(8) [OF v i] and fr = gc_viewD(2) [OF v, unfolded gc_free_list_def] and sz = gc_viewD(1) [OF v, unfolded gc_sizes_def]
  define w' where "w' = w1\<lparr>gc_buf := (gc_buf w)[i := Some (GC_IDX2LIST (gc_unused w))], gc_unused := i, num_roots := num_roots w - 1\<rparr>"
  have run: "gc_remove_from_roots i w1 = Inr w'" using e by (simp add: gc_remove_from_roots_def gc_link_unused_def gc_set_entry_def w'_def w1_def)
  have "gc_unused w < 2 ^ 29"
  proof (cases ul)
    case (Cons j js)
    then have "gc_unused w < first_unused w" using fr by auto
    then show ?thesis using sz by linarith
  qed (use fr in simp)
  then have "gc_free_list w' (i # ul)" using fr e by (auto simp: gc_free_list_def w'_def w1_def unused_chain_update)
  moreover have dom: "dom R = {j. 1 \<le> j \<and> j < first_unused w \<and> j \<notin> set ul}" using gc_viewD(3) [OF v] by (simp add: gc_holds_def)
  have "gc_holds {} w' (i # ul) (R(i := None))"
    unfolding gc_holds_def
  proof (intro conjI allI impI)
    show "dom (R(i := None)) = {j. 1 \<le> j \<and> j < first_unused w' \<and> j \<notin> set (i # ul) \<and> j \<notin> {}}" using dom by (auto simp: w'_def w1_def)
    fix j f assume "(R(i := None)) j = Some f"
    then have "R j = Some f" "j \<noteq> i" by (auto split: if_splits)
    then show "gc_buf w' ! j = Some f" using gc_viewD(8) [OF v, of j f] by (simp add: w'_def)
  qed
  moreover have "roots_ok (nodes_of w') (R(i := None))" using roots_ok_remove [OF gc_viewD(4) [OF v] i y] ptr by (simp add: w'_def w1_def)
  moreover have "num_roots w > 0"
  proof -
    have "i \<in> {1..<first_unused w} - set ul" using e by auto
    moreover have "card ({1..<first_unused w} - set ul) = first_unused w - 1 - length ul"
      using fr by (subst card_Diff_subset) (auto simp: distinct_card)
    ultimately have "first_unused w - 1 - length ul > 0" by (metis card_gt_0_iff empty_iff finite_Diff finite_atLeastLessThan)
    then show ?thesis using gc_viewD(5) [OF v] by simp
  qed
  moreover obtain x where "nodes_of w ref = Some x" using roots_okD [OF gc_viewD(4) [OF v] i] ptr by auto
  ultimately have "gc_view {} w' (i # ul) (R(i := None))"
    using gc_viewD(5) [OF v] gc_viewD(7) [OF v] sz unfolding gc_view_def by (auto simp: gc_sizes_def w'_def w1_def)
  then show ?thesis using run by (simp add: w'_def w1_def)
qed

section \<open>Compressed positions\<close>

lemma list_entry_ptr: "GC_GET_PTR (GC_IDX2LIST n) = word_of_nat (n * 8)"
proof -
  define j where "j = n * 8"
  have "j mod 4 = 0" by (simp add: j_def)
  then have "aligned (word_of_nat j)" using word_multiple by (simp add: aligned_def GC_BITS_def)
  then have "word_of_nat j AND NOT GC_BITS = (word_of_nat j :: u64)" by (rule aligned_ptr)
  then show ?thesis unfolding GC_GET_PTR_def GC_IDX2LIST_def j_def [symmetric] by (simp only: and_or_distrib) (simp add: GC_UNUSED_def GC_BITS_def)
qed

text \<open>Every entry below the first position that was never used is written; only the one of the node has its address, as long as the node is not among
  the first 4 GiB, where a link of the list of unused entries can look like its address.\<close>

lemma entry_cases:
  assumes v: "gc_view {} w ul R" and j: "1 \<le> j" "j < first_unused w" and i: "R i = Some e" "GC_GET_PTR e = ref" "j \<noteq> i" and high: "2 ^ 32 \<le> unat ref"
  obtains f where "gc_entry w j = Inr f" "GC_GET_PTR f \<noteq> ref"
proof (cases "j \<in> set ul")
  case True
  have "\<exists>n. n < 2 ^ 29 \<and> b ! j = Some (GC_IDX2LIST n)" if "unused_chain b h us" "j \<in> set us" for b h us
    using that by (induction us arbitrary: h) auto
  then obtain n where n: "n < 2 ^ 29" "gc_buf w ! j = Some (GC_IDX2LIST n)" using gc_viewD(2) [OF v] True unfolding gc_free_list_def by blast
  have "unat (word_of_nat (n * 8) :: u64) = n * 8" using n(1) by (simp add: unat_of_nat take_bit_nat_eq_self del: of_nat_mult)
  then have "GC_GET_PTR (GC_IDX2LIST n) \<noteq> ref" using high n(1) unfolding list_entry_ptr by auto
  then show ?thesis using that [of "GC_IDX2LIST n"] n(2) j gc_viewD(1) [OF v] by (simp add: gc_entry_Some gc_sizes_def)
next
  case False
  then have "j \<in> dom R" using gc_viewD(3) [OF v] j by (simp add: gc_holds_def)
  then obtain f where f: "R j = Some f" by auto
  then have "gc_entry w j = Inr f" using gc_viewD(8) [OF v f] by (simp add: gc_entry_Some)
  then show ?thesis using that [of f] roots_ok_inj [OF gc_viewD(4) [OF v] f i(1)] i(2,3) by auto
qed

lemma decompress_loop_run:
  assumes v: "gc_view {} w ul R" and i: "R i = Some e" "GC_GET_PTR e = ref" and high: "2 ^ 32 \<le> unat ref"
  shows "i = j + Suc k * 2 ^ 19 \<Longrightarrow> decompress_loop w ref j = Inr i"
proof (induction k arbitrary: j)
  case 0
  then show ?case using gc_viewD(8) [OF v i(1)] i(2) by (simp add: GC_MAX_UNCOMPRESSED_def gc_entry_Some)
next
  case (Suc k)
  define j' where "j' = j + 2 ^ 19"
  have j': "1 \<le> j'" "j' < first_unused w" "j' \<noteq> i" using Suc.prems gc_viewD(8) [OF v i(1)] by (auto simp: j'_def)
  obtain f where f: "gc_entry w j' = Inr f" "GC_GET_PTR f \<noteq> ref" using entry_cases [OF v j'(1,2) i(1,2) j'(3) high] .
  have "decompress_loop w ref j = decompress_loop w ref j'"
    using f j' by (subst decompress_loop.simps) (simp add: GC_MAX_UNCOMPRESSED_def j'_def Let_def del: decompress_loop.simps)
  then show ?case using Suc.IH [of j'] Suc.prems by (simp add: j'_def)
qed

declare decompress_loop.simps [simp del]

lemma decompress_run:
  assumes v: "gc_view {} w ul R" and i: "R i = Some e" "GC_GET_PTR e = ref" and high: "2 ^ 32 \<le> unat ref"
  shows "gc_decompress w ref (gc_compress i) = Inr i"
proof (cases "gc_compress i = i")
  case True
  then show ?thesis using gc_viewD(8) [OF v i(1)] i(2) by (simp add: gc_decompress_def gc_entry_Some)
next
  case False
  then have big: "\<not> i < 2 ^ 19" and c: "gc_compress i = i mod 2 ^ 19 + 2 ^ 19" by (auto simp: compress_eq)
  have dm: "i = i mod 2 ^ 19 + i div 2 ^ 19 * 2 ^ 19" by (rule mod_div_mult_eq [symmetric])
  have "i div 2 ^ 19 \<noteq> 0" using big by (simp add: div_eq_0_iff)
  moreover have "i div 2 ^ 19 \<noteq> 1"
  proof
    assume "i div 2 ^ 19 = 1"
    then have "i = i mod 2 ^ 19 + 2 ^ 19" using dm by (metis mult_1)
    then show False using False c by simp
  qed
  ultimately obtain k where k: "i div 2 ^ 19 = Suc (Suc k)" using not0_implies_Suc by (metis One_nat_def)
  have ik: "i = gc_compress i + Suc k * 2 ^ 19" using dm unfolding c k by simp
  have j: "1 \<le> gc_compress i" "gc_compress i < first_unused w" using ik gc_viewD(8) [OF v i(1)] c by auto
  obtain f where "gc_entry w (gc_compress i) = Inr f" "GC_GET_PTR f \<noteq> ref" using entry_cases [OF v j i False high] .
  then show ?thesis using decompress_loop_run [OF v i high ik] by (simp add: gc_decompress_def)
qed


section \<open>The buffer as a set of nodes\<close>

definition root_set :: "root_map \<Rightarrow> u64 set" where
  "root_set R = {GC_GET_PTR e |i e. R i = Some e}"

lemma root_set_mem: "p \<in> root_set R \<longleftrightarrow> (\<exists>i e. R i = Some e \<and> GC_GET_PTR e = p)"
  by (auto simp: root_set_def)

lemma root_set_store: "R i = None \<Longrightarrow> root_set (R(i \<mapsto> e)) = insert (GC_GET_PTR e) (root_set R)"
  unfolding root_set_def by (auto split: if_splits) (metis option.distinct(1))+

lemma root_set_remove:
  assumes ok: "roots_ok ns R" and i: "R i = Some e"
  shows "root_set (R(i := None)) = root_set R - {GC_GET_PTR e}"
proof (rule set_eqI)
  fix p
  have "p \<in> root_set (R(i := None)) \<longleftrightarrow> (\<exists>j f. j \<noteq> i \<and> R j = Some f \<and> GC_GET_PTR f = p)" by (auto simp: root_set_def split: if_splits)
  also have "\<dots> \<longleftrightarrow> (\<exists>j f. R j = Some f \<and> GC_GET_PTR f = p \<and> p \<noteq> GC_GET_PTR e)"
    using roots_ok_inj [OF ok i] i by (metis option.inject)
  finally show "p \<in> root_set (R(i := None)) \<longleftrightarrow> p \<in> root_set R - {GC_GET_PTR e}" unfolding Diff_iff root_set_mem by blast
qed

text \<open>A node is in the buffer exactly when its information has a position.\<close>

lemma root_set_iff: "gc_view X w ul R \<Longrightarrow> nodes_of w p = Some x \<Longrightarrow> p \<in> root_set R \<longleftrightarrow> GC_REF_ADDRESS x \<noteq> 0"
proof
  assume v: "gc_view X w ul R" and x: "nodes_of w p = Some x" and p: "p \<in> root_set R"
  from p obtain i e where e: "R i = Some e" "GC_GET_PTR e = p" by (auto simp: root_set_def)
  then obtain y where "nodes_of w p = Some y" "GC_REF_ADDRESS y = gc_compress i" using roots_okD [OF gc_viewD(4) [OF v] e(1)] by blast
  moreover have "i \<noteq> 0" using gc_viewD(8) [OF v e(1)] by simp
  ultimately show "GC_REF_ADDRESS x \<noteq> 0" using x compress_bounds(2) by simp
next
  assume v: "gc_view X w ul R" and x: "nodes_of w p = Some x" "GC_REF_ADDRESS x \<noteq> 0"
  then obtain i e where "R i = Some e" "GC_GET_PTR e = p" using roots_ok_cover [OF gc_viewD(4) [OF v] x] by blast
  then show "p \<in> root_set R" by (auto simp: root_set_def)
qed

text \<open>The buffer with the set of the nodes in it.\<close>

definition gc_ok :: "zend_gc_globals \<Rightarrow> u64 set \<Rightarrow> bool" where
  "gc_ok w S \<longleftrightarrow> (\<exists>ul R. gc_view {} w ul R \<and> root_set R = S) \<and> gc_threshold w \<le> buf_size w"

lemma view_hole: "gc_view {i} w ul R \<Longrightarrow> R i = None"
  using gc_viewD(3) by (force simp: gc_holds_def)

lemma zero_info: "gc_info x = 0 \<Longrightarrow> GC_REF_ADDRESS x = 0"
  by (simp add: GC_REF_ADDRESS_def)

definition purple_root :: "nat \<Rightarrow> gc_node \<Rightarrow> gc_node" where
  "purple_root i x = GC_REF_SET_INFO (word_of_nat (gc_compress i) OR GC_PURPLE) x"

lemma store_purple:
  assumes v: "gc_view {i} w ul R" and x: "nodes_of w ref = Some x" "gc_info x = 0"
  shows "\<exists>w'. gc_store_root ref GC_PURPLE ref i w = Inr w' \<and> gc_view {} w' ul (R(i \<mapsto> ref))
    \<and> root_set (R(i \<mapsto> ref)) = insert ref (root_set R) \<and> nodes_of w' = (nodes_of w)(ref \<mapsto> purple_root i x)"
proof -
  have al: "aligned ref" using gc_viewD(7) [OF v x(1)] .
  show ?thesis using store_root_run [OF v x(1) zero_info [OF x(2)] aligned_tags(1,3) [OF al] is_color(4)]
      root_set_store [of R i ref, OF view_hole [OF v]] aligned_tags(1) [OF al] by (simp add: purple_root_def)
qed

lemma store_root_fields:
  "gc_store_root e c ref i w = Inr w' \<Longrightarrow> gc_threshold w' = gc_threshold w \<and> buf_size w' = buf_size w"
  by (auto simp: gc_store_root_def gc_set_entry_def gc_upd_def gc_node_at_def split: if_splits option.splits)

section \<open>Adding and removing nodes\<close>

text \<open>Adding a node, when the collector is not run.\<close>

lemma possible_root_fast:
  assumes v: "gc_view {} w ul R" and t: "gc_threshold w \<le> buf_size w" and fast: "GC_HAS_UNUSED w \<or> GC_HAS_NEXT_UNUSED_UNDER_THRESHOLD w"
  shows "\<exists>i w' ul'. (if GC_HAS_UNUSED w then gc_fetch_unused w else gc_fetch_next_unused w) = Inr (i, w')
    \<and> gc_view {i} w' ul' R \<and> nodes_of w' = nodes_of w \<and> gc_threshold w' \<le> buf_size w'"
proof (cases ul)
  case (Cons i us)
  have "GC_HAS_UNUSED w" using gc_viewD(2) [OF v] Cons by (auto simp: gc_free_list_def GC_HAS_UNUSED_def GC_INVALID_def)
  then show ?thesis using fetch_unused_run [OF v [unfolded Cons]] t by auto
next
  case Nil
  then have u: "\<not> GC_HAS_UNUSED w" using gc_viewD(2) [OF v] by (simp add: gc_free_list_def GC_HAS_UNUSED_def GC_INVALID_def)
  then have lt: "first_unused w < buf_size w" using fast t by (simp add: GC_HAS_NEXT_UNUSED_UNDER_THRESHOLD_def)
  show ?thesis using fetch_next_run [OF v lt] u t
    by (intro exI [of _ "first_unused w"] exI [of _ "w\<lparr>first_unused := first_unused w + 1\<rparr>"] exI [of _ ul]) simp
qed

lemma gc_okI: "gc_view {} w ul R \<Longrightarrow> root_set R = S \<Longrightarrow> gc_threshold w \<le> buf_size w \<Longrightarrow> gc_ok w S"
  unfolding gc_ok_def by blast

lemma possible_root_run:
  assumes ok: "gc_ok w S" and x: "nodes_of w ref = Some x" "gc_is_container x" "gc_info x = 0" and limit: "buf_size w + GC_BUF_GROW_STEP \<le> 2 ^ 29"
    and on: "\<not> gc_protected_flag w" and quiet: "GC_HAS_UNUSED w \<or> GC_HAS_NEXT_UNUSED_UNDER_THRESHOLD w \<or> gc_active w \<or> \<not> gc_enabled_flag w"
  shows "\<exists>i w'. gc_possible_root collect rc_dtor ref w = Inr w' \<and> gc_ok w' (insert ref S) \<and> nodes_of w' = (nodes_of w)(ref \<mapsto> purple_root i x)"
proof -
  obtain ul R where v: "gc_view {} w ul R" and S: "root_set R = S" and t: "gc_threshold w \<le> buf_size w" using ok unfolding gc_ok_def by blast
  show ?thesis
  proof (cases "GC_HAS_UNUSED w \<or> GC_HAS_NEXT_UNUSED_UNDER_THRESHOLD w")
    case True
    obtain i w1 ul' where f: "(if GC_HAS_UNUSED w then gc_fetch_unused w else gc_fetch_next_unused w) = Inr (i, w1)"
      and v1: "gc_view {i} w1 ul' R" "nodes_of w1 = nodes_of w" "gc_threshold w1 \<le> buf_size w1" using possible_root_fast [OF v t True] by blast
    obtain w' where w': "gc_store_root ref GC_PURPLE ref i w1 = Inr w'" "gc_view {} w' ul' (R(i \<mapsto> ref))" "root_set (R(i \<mapsto> ref)) = insert ref S"
      "nodes_of w' = (nodes_of w)(ref \<mapsto> purple_root i x)" using store_purple [OF v1(1), of ref x] x v1(2) S by auto
    have "gc_possible_root collect rc_dtor ref w = Inr w'"
      unfolding gc_possible_root_def f using on True x v1(2) w'(1) by (simp add: gc_node_at_def)
    moreover have "gc_ok w' (insert ref S)" using gc_okI [OF w'(2,3)] store_root_fields [OF w'(1)] v1(3) by simp
    ultimately show ?thesis using w'(4) by blast
  next
    case False
    obtain i w1 ul' where f: "gc_fetch_room w = Inr (Some i, w1)" and v1: "gc_view {i} w1 ul' R" "nodes_of w1 = nodes_of w"
      "gc_threshold w1 = gc_threshold w" "buf_size w \<le> buf_size w1" using fetch_room_run [OF v limit] by blast
    obtain w' where w': "gc_store_root ref GC_PURPLE ref i w1 = Inr w'" "gc_view {} w' ul' (R(i \<mapsto> ref))" "root_set (R(i \<mapsto> ref)) = insert ref S"
      "nodes_of w' = (nodes_of w)(ref \<mapsto> purple_root i x)" using store_purple [OF v1(1), of ref x] x v1(2) S by auto
    have "gc_possible_root collect rc_dtor ref w = Inr w'"
      using on False quiet x f w'(1) by (auto simp: gc_possible_root_def gc_possible_root_when_full_def gc_node_at_def)
    moreover have "gc_ok w' (insert ref S)" using gc_okI [OF w'(2,3)] store_root_fields [OF w'(1)] v1(3,4) t by simp
    ultimately show ?thesis using w'(4) by blast
  qed
qed

lemma remove_fields: "gc_remove_from_roots i w = Inr w' \<Longrightarrow> gc_threshold w' = gc_threshold w \<and> buf_size w' = buf_size w"
  by (auto simp: gc_remove_from_roots_def gc_link_unused_def gc_set_entry_def split: if_splits)

lemma decompress_loop_nodes: "decompress_loop (w\<lparr>nodes_of := ns\<rparr>) ref j = decompress_loop w ref j"
proof (induction w ref j rule: decompress_loop.induct)
  case (1 w ref j)
  have "gc_entry (w\<lparr>nodes_of := ns\<rparr>) i = gc_entry w i" for i by (simp add: gc_entry_def)
  then show ?case using 1 by (subst (1 2) decompress_loop.simps) (auto simp: Let_def gc_entry_def split: option.splits)
qed

lemma remove_from_buffer_run:
  assumes ok: "gc_ok w S" and x: "nodes_of w ref = Some x" "ref \<in> S" and high: "GC_MAX_UNCOMPRESSED \<le> first_unused w \<Longrightarrow> 2 ^ 32 \<le> unat ref"
  shows "\<exists>w'. gc_remove_from_buffer ref w = Inr w' \<and> gc_ok w' (S - {ref}) \<and> nodes_of w' = (nodes_of w)(ref \<mapsto> x\<lparr>gc_info := 0\<rparr>)"
proof -
  obtain ul R where v: "gc_view {} w ul R" and S: "root_set R = S" and t: "gc_threshold w \<le> buf_size w" using ok unfolding gc_ok_def by blast
  obtain i e where e: "R i = Some e" "GC_GET_PTR e = ref" using x(2) unfolding S [symmetric] root_set_def by blast
  have ad: "GC_REF_ADDRESS x = gc_compress i" using roots_okD [OF gc_viewD(4) [OF v] e(1)] x(1) e(2) by force
  define w1 where "w1 = w\<lparr>nodes_of := (nodes_of w)(ref \<mapsto> x\<lparr>gc_info := 0\<rparr>)\<rparr>"
  have upd: "gc_upd (GC_REF_SET_INFO 0) ref w = Inr w1" using x(1) by (simp add: gc_upd_Some w1_def GC_REF_SET_INFO_def)
  obtain w' where w': "gc_remove_from_roots i w1 = Inr w'" "gc_view {} w' (i # ul) (R(i := None))" "nodes_of w' = (nodes_of w)(ref \<mapsto> x\<lparr>gc_info := 0\<rparr>)"
    using remove_entry_run [OF v e(1) _ e(2), of "x\<lparr>gc_info := 0\<rparr>"] unfolding w1_def by (auto simp: zero_info)
  have "gc_remove_from_buffer ref w = gc_remove_from_roots i w1"
  proof (cases "GC_MAX_UNCOMPRESSED \<le> first_unused w")
    case True
    have "gc_decompress w1 ref (gc_compress i) = gc_decompress w ref (gc_compress i)"
      unfolding gc_decompress_def w1_def decompress_loop_nodes by (simp add: gc_entry_def)
    then show ?thesis using True x(1) upd ad decompress_run [OF v e high [OF True]]
      by (simp add: gc_remove_from_buffer_def gc_node_at_Some gc_remove_compressed_def Let_def w1_def)
  next
    case False
    have lt: "i < 2 ^ 19" "i \<noteq> 0" using False gc_viewD(8) [OF v e(1)] by (auto simp: GC_MAX_UNCOMPRESSED_def)
    then have "gc_compress i = i" by (simp add: compress_eq)
    then show ?thesis using False x(1) upd ad lt by (simp add: gc_remove_from_buffer_def gc_node_at_Some Let_def w1_def)
  qed
  moreover have "gc_ok w' (S - {ref})"
    using gc_okI [OF w'(2)] root_set_remove [OF gc_viewD(4) [OF v] e(1)] S e(2) remove_fields [OF w'(1)] t by (simp add: w1_def)
  ultimately show ?thesis using w'(1,3) by simp
qed


section \<open>Compaction\<close>

lemma skip_used_run:
  "i \<le> j \<Longrightarrow> j < length (gc_buf w) \<Longrightarrow> (\<And>k. i \<le> k \<Longrightarrow> k < j \<Longrightarrow> \<exists>e. gc_buf w ! k = Some e \<and> \<not> GC_IS_UNUSED e)
    \<Longrightarrow> gc_buf w ! j = Some f \<Longrightarrow> GC_IS_UNUSED f \<Longrightarrow> skip_used w i = Inr j"
proof (induction "j - i" arbitrary: i)
  case 0
  then have "i = j" by simp
  then show ?case using 0 by (subst skip_used.simps) simp
next
  case (Suc n)
  then have lt: "i < j" by simp
  obtain e where "gc_buf w ! i = Some e" "\<not> GC_IS_UNUSED e" using Suc.prems(3) [of i] lt by auto
  then have "skip_used w i = skip_used w (i + 1)" using lt Suc.prems(2) by (subst skip_used.simps) simp
  moreover have "skip_used w (i + 1) = Inr j" using Suc.hyps(2) lt Suc.prems by (intro Suc.hyps(1)) auto
  ultimately show ?case by simp
qed

lemma skip_unused_run:
  "j \<le> i \<Longrightarrow> i < length (gc_buf w) \<Longrightarrow> (\<And>k. j < k \<Longrightarrow> k \<le> i \<Longrightarrow> \<exists>e. gc_buf w ! k = Some e \<and> GC_IS_UNUSED e)
    \<Longrightarrow> gc_buf w ! j = Some f \<Longrightarrow> \<not> GC_IS_UNUSED f \<Longrightarrow> skip_unused w i = Inr j"
proof (induction "i - j" arbitrary: i)
  case 0
  then have "i = j" by simp
  then show ?case using 0 by (subst skip_unused.simps) (simp add: gc_entry_Some)
next
  case (Suc n)
  then obtain k where k: "i = Suc k" by (cases i) auto
  obtain e where "gc_buf w ! i = Some e" "GC_IS_UNUSED e" using Suc.prems(3) [of i] Suc.hyps(2) k by fastforce
  then have "skip_unused w i = skip_unused w k" using k Suc.prems(2) by (subst skip_unused.simps) (simp add: gc_entry_Some)
  moreover have "skip_unused w k = Inr j" using Suc.hyps(2) Suc.prems k by (intro Suc.hyps(1)) auto
  ultimately show ?case by simp
qed

text \<open>The nodes up to their positions in the buffer.\<close>

definition same_node :: "gc_node \<Rightarrow> gc_node \<Rightarrow> bool" where
  "same_node x y \<longleftrightarrow> gc_refcount x = gc_refcount y \<and> gc_data x = gc_data y \<and> GC_REF_COLOR x = GC_REF_COLOR y \<and> (GC_REF_ADDRESS x = 0 \<longleftrightarrow> GC_REF_ADDRESS y = 0)
     \<and> (info_ok x \<longrightarrow> info_ok y)"

definition same_nodes :: "(u64 \<rightharpoonup> gc_node) \<Rightarrow> (u64 \<rightharpoonup> gc_node) \<Rightarrow> bool" where
  "same_nodes m n \<longleftrightarrow> (\<forall>p. rel_option same_node (m p) (n p))"

lemma same_nodes_refl: "same_nodes m m"
  by (simp add: same_nodes_def same_node_def option.rel_refl)

lemma same_nodes_trans: "same_nodes l m \<Longrightarrow> same_nodes m n \<Longrightarrow> same_nodes l n"
  unfolding same_nodes_def
proof
  fix p assume "\<forall>p. rel_option same_node (l p) (m p)" "\<forall>p. rel_option same_node (m p) (n p)"
  then have "rel_option same_node (l p) (m p)" "rel_option same_node (m p) (n p)" by blast+
  then show "rel_option same_node (l p) (n p)" by (cases "l p"; cases "m p"; cases "n p") (simp_all add: same_node_def)
qed

text \<open>The part of the buffer up to the upper finger represents the roots; below the lower finger all positions are used.\<close>

definition compacting :: "nat \<Rightarrow> nat \<Rightarrow> zend_gc_globals \<Rightarrow> root_map \<Rightarrow> bool" where
  "compacting free scan w R \<longleftrightarrow> scan < length (gc_buf w) \<and> dom R \<subseteq> {1..scan} \<and> {1..<free} \<subseteq> dom R \<and> 1 \<le> free
     \<and> (\<forall>i. 1 \<le> i \<and> i \<le> scan \<longrightarrow> (\<exists>e. gc_buf w ! i = Some e \<and> R i = (if GC_IS_UNUSED e then None else Some e)))
     \<and> roots_ok (nodes_of w) R \<and> (\<forall>p\<in>dom (nodes_of w). aligned p)"

lemma compacting_entry:
  assumes "compacting free scan w R" "1 \<le> i" "i \<le> scan"
  obtains e where "gc_buf w ! i = Some e" "i \<in> dom R \<longleftrightarrow> \<not> GC_IS_UNUSED e" "i \<in> dom R \<longrightarrow> R i = Some e" "i < length (gc_buf w)"
proof -
  obtain e where e: "gc_buf w ! i = Some e" "R i = (if GC_IS_UNUSED e then None else Some e)" "scan < length (gc_buf w)"
    using assms unfolding compacting_def by blast
  show ?thesis by (rule that [of e]) (use e assms(3) in \<open>auto split: if_splits\<close>)
qed

lemma compacting_used: "compacting free scan w R \<Longrightarrow> 1 \<le> i \<Longrightarrow> i \<le> scan \<Longrightarrow> i \<in> dom R \<Longrightarrow> \<exists>e. gc_buf w ! i = Some e \<and> \<not> GC_IS_UNUSED e"
  by (erule compacting_entry) auto

lemma compacting_free: "compacting free scan w R \<Longrightarrow> 1 \<le> i \<Longrightarrow> i \<le> scan \<Longrightarrow> i \<notin> dom R \<Longrightarrow> \<exists>e. gc_buf w ! i = Some e \<and> GC_IS_UNUSED e"
  by (erule compacting_entry) auto

text \<open>The fingers stop at the first hole and at the last root.\<close>

lemma compact_fingers:
  assumes c: "compacting free scan w R" and N: "card (dom R) = N" "0 < N" "N < scan" and lt: "free < scan"
  obtains f s where "skip_used w free = Inr f" "skip_unused w scan = Inr s" "free \<le> f" "f \<le> scan" "s \<le> scan" "1 \<le> s" "f \<notin> dom R" "s \<in> dom R"
    "{1..<f} \<subseteq> dom R" "dom R \<subseteq> {1..s}"
proof -
  have sub: "dom R \<subseteq> {1..scan}" "{1..<free} \<subseteq> dom R" "1 \<le> free" using c by (simp_all add: compacting_def)
  have fin: "finite (dom R)" using sub(1) finite_subset by blast
  have "{1..scan} \<noteq> dom R" using N card_atLeastAtMost [of 1 scan] by (metis diff_Suc_1 less_irrefl One_nat_def)
  then obtain h where h: "h \<in> {1..scan}" "h \<notin> dom R" using sub(1) by blast
  have h1: "free \<le> h"
  proof (rule ccontr)
    assume "\<not> free \<le> h"
    then have "h \<in> {1..<free}" using h(1) by auto
    then show False using subsetD [OF sub(2)] h(2) by blast
  qed
  define f where "f = (LEAST i. free \<le> i \<and> i \<notin> dom R)"
  have f: "free \<le> f" "f \<notin> dom R" "f \<le> h" using LeastI [of "\<lambda>i. free \<le> i \<and> i \<notin> dom R" h] Least_le [of "\<lambda>i. free \<le> i \<and> i \<notin> dom R" h] h h1 by (simp_all add: f_def)
  have below: "i \<in> dom R" if "free \<le> i" "i < f" for i using not_less_Least [of i "\<lambda>i. free \<le> i \<and> i \<notin> dom R"] that by (simp add: f_def)
  have fs: "f \<le> scan" "1 \<le> f" using f h sub(3) by auto
  define s where "s = Max (dom R)"
  have ne: "dom R \<noteq> {}" using N by auto
  have s: "s \<in> dom R" "\<And>i. i \<in> dom R \<Longrightarrow> i \<le> s" using Max_in [OF fin ne] Max_ge [OF fin] by (auto simp: s_def)
  have ss: "1 \<le> s" "s \<le> scan" using s(1) sub(1) by auto
  have "skip_used w free = Inr f"
  proof -
    obtain e where "gc_buf w ! f = Some e" "f \<in> dom R \<longleftrightarrow> \<not> GC_IS_UNUSED e" "f \<in> dom R \<longrightarrow> R f = Some e" "f < length (gc_buf w)"
      using compacting_entry [OF c fs(2,1)] .
    then have e: "gc_buf w ! f = Some e" "GC_IS_UNUSED e" "f < length (gc_buf w)" using f(2) by simp_all
    show ?thesis
    proof (rule skip_used_run [OF f(1) e(3) _ e(1,2)])
      fix k assume k: "free \<le> k" "k < f"
      show "\<exists>e. gc_buf w ! k = Some e \<and> \<not> GC_IS_UNUSED e" by (rule compacting_used [OF c _ _ below [OF k]]) (use k sub(3) fs in auto)
    qed
  qed
  moreover have "skip_unused w scan = Inr s"
  proof -
    obtain e where "gc_buf w ! s = Some e" "s \<in> dom R \<longleftrightarrow> \<not> GC_IS_UNUSED e" "s \<in> dom R \<longrightarrow> R s = Some e" "s < length (gc_buf w)"
      using compacting_entry [OF c ss] .
    then have e: "gc_buf w ! s = Some e" "\<not> GC_IS_UNUSED e" using s(1) by simp_all
    have l: "scan < length (gc_buf w)" using c by (simp add: compacting_def)
    show ?thesis
    proof (rule skip_unused_run [OF ss(2) l _ e])
      fix k assume k: "s < k" "k \<le> scan"
      then have "k \<notin> dom R" using s(2) [of k] by auto
      then show "\<exists>e. gc_buf w ! k = Some e \<and> GC_IS_UNUSED e" using compacting_free [OF c _ k(2)] k by simp
    qed
  qed
  moreover have "{1..<f} \<subseteq> dom R"
  proof
    fix i assume "i \<in> {1..<f}"
    then show "i \<in> dom R" using below [of i] subsetD [OF sub(2), of i] by (cases "free \<le> i") auto
  qed
  moreover have "dom R \<subseteq> {1..s}" using s(2) sub(1) by (meson atLeastAtMost_iff subset_iff)
  ultimately show ?thesis using that [of f s] f s ss fs by blast
qed


text \<open>Moving a root to a free position.\<close>

lemma roots_ok_move:
  assumes ok: "roots_ok ns R" and s: "R s = Some e" and f: "R f = None" and x: "ns (GC_GET_PTR e) = Some x" and y: "GC_REF_ADDRESS y = gc_compress f"
  shows "roots_ok (ns(GC_GET_PTR e \<mapsto> y)) (R(s := None, f \<mapsto> e))"
proof -
  have other: "GC_GET_PTR g \<noteq> GC_GET_PTR e" if "R j = Some g" "j \<noteq> s" for j g using roots_ok_inj [OF ok that(1) s] that(2) by blast
  have cases: "j = f \<and> g = e \<or> j \<noteq> f \<and> j \<noteq> s \<and> R j = Some g" if "(R(s := None, f \<mapsto> e)) j = Some g" for j g using that by (auto split: if_splits)
  show ?thesis
    unfolding roots_ok_def
  proof (intro conjI allI impI)
    fix j g assume "(R(s := None, f \<mapsto> e)) j = Some g"
    from cases [OF this] consider "j = f" "g = e" | "j \<noteq> f" "j \<noteq> s" "R j = Some g" by blast
    then have "\<not> GC_IS_UNUSED g \<and> (\<exists>z. (ns(GC_GET_PTR e \<mapsto> y)) (GC_GET_PTR g) = Some z \<and> GC_REF_ADDRESS z = gc_compress j)"
    proof cases
      case 1
      then show ?thesis using roots_okD [OF ok s] y by auto
    next
      case 2
      obtain z where "\<not> GC_IS_UNUSED g" "ns (GC_GET_PTR g) = Some z" "GC_REF_ADDRESS z = gc_compress j" using roots_okD [OF ok 2(3)] .
      then show ?thesis using other [OF 2(3,2)] by simp
    qed
    then show "\<not> GC_IS_UNUSED g" "\<exists>z. (ns(GC_GET_PTR e \<mapsto> y)) (GC_GET_PTR g) = Some z \<and> GC_REF_ADDRESS z = gc_compress j" by blast+
  next
    fix j k g h assume *: "(R(s := None, f \<mapsto> e)) j = Some g \<and> (R(s := None, f \<mapsto> e)) k = Some h \<and> GC_GET_PTR g = GC_GET_PTR h"
    then have "j = f \<and> g = e \<or> j \<noteq> f \<and> j \<noteq> s \<and> R j = Some g" "k = f \<and> h = e \<or> k \<noteq> f \<and> k \<noteq> s \<and> R k = Some h"
      using cases [of j g] cases [of k h] by blast+
    then show "j = k" using * roots_ok_inj [OF ok, of j g k h] other [of j g] other [of k h] by auto
  next
    fix p z assume z: "(ns(GC_GET_PTR e \<mapsto> y)) p = Some z \<and> GC_REF_ADDRESS z \<noteq> 0"
    show "\<exists>j g. (R(s := None, f \<mapsto> e)) j = Some g \<and> GC_GET_PTR g = p"
    proof (cases "p = GC_GET_PTR e")
      case True
      then show ?thesis by (intro exI [of _ f] exI [of _ e]) simp
    next
      case False
      then obtain j g where j: "R j = Some g" "GC_GET_PTR g = p" using z roots_ok_cover [OF ok, of p z] by auto
      then have "j \<noteq> s" "j \<noteq> f" using s f False by auto
      then show ?thesis using j by (intro exI [of _ j] exI [of _ g]) simp
    qed
  qed
qed

lemma same_nodes_upd: "m p = Some x \<Longrightarrow> same_node x y \<Longrightarrow> same_nodes m (m(p \<mapsto> y))"
  unfolding same_nodes_def by (auto simp: same_node_def option.rel_refl)

lemma ran_move: "R s = Some e \<Longrightarrow> R f = None \<Longrightarrow> ran (R(s := None, f \<mapsto> e)) = ran R"
proof (rule set_eqI)
  fix z assume R: "R s = Some e" "R f = None"
  have "z \<in> ran (R(s := None, f \<mapsto> e)) \<longleftrightarrow> z = e \<or> (\<exists>j. j \<noteq> s \<and> j \<noteq> f \<and> R j = Some z)" by (auto simp: ran_def)
  also have "\<dots> \<longleftrightarrow> (\<exists>j. R j = Some z)" using R by (metis option.distinct(1) option.inject)
  finally show "z \<in> ran (R(s := None, f \<mapsto> e)) \<longleftrightarrow> z \<in> ran R" by (simp add: ran_def)
qed

lemma compact_move_run:
  assumes c: "compacting free scan w R" and f: "1 \<le> f" "f \<notin> dom R" "{1..<f} \<subseteq> dom R" and s: "s \<in> dom R" "f < s" "dom R \<subseteq> {1..s}" "s \<le> scan"
  shows "\<exists>w' R'. compact_move f s w = Inr w' \<and> compacting (f + 1) (s - 1) w' R' \<and> card (dom R') = card (dom R) \<and> ran R' = ran R
    \<and> same_nodes (nodes_of w) (nodes_of w') \<and> gc_buf w' = (gc_buf w)[f := gc_buf w ! s] \<and> num_roots w' = num_roots w \<and> buf_size w' = buf_size w
    \<and> first_unused w' = first_unused w \<and> gc_threshold w' = gc_threshold w"
proof -
  have c': "scan < length (gc_buf w)" "roots_ok (nodes_of w) R" "\<forall>p\<in>dom (nodes_of w). aligned p" using c by (simp_all add: compacting_def)
  have s1: "1 \<le> s" using f s by simp
  obtain e where "gc_buf w ! s = Some e" "s \<in> dom R \<longleftrightarrow> \<not> GC_IS_UNUSED e" "s \<in> dom R \<longrightarrow> R s = Some e" "s < length (gc_buf w)"
    using compacting_entry [OF c s1 s(4)] .
  then have e: "gc_buf w ! s = Some e" "R s = Some e" using s(1) by simp_all
  obtain x where x: "\<not> GC_IS_UNUSED e" "nodes_of w (GC_GET_PTR e) = Some x" "GC_REF_ADDRESS x = gc_compress s" using roots_okD [OF c'(2) e(2)] .
  define y where "y = GC_REF_SET_INFO (word_of_nat (gc_compress f) OR GC_REF_COLOR x) x"
  have y: "GC_REF_ADDRESS y = gc_compress f" "GC_REF_COLOR y = GC_REF_COLOR x"
    using info_parts [OF compress_bounds(1) is_color(5)] by (simp_all add: y_def)
  define w' where "w' = w\<lparr>gc_buf := (gc_buf w)[f := Some e], nodes_of := (nodes_of w)(GC_GET_PTR e \<mapsto> y)\<rparr>"
  define R' where "R' = R(s := None, f \<mapsto> e)"
  have Rf: "R f = None" using f(2) by auto
  have run: "compact_move f s w = Inr w'" using e x(2) s f c'(1) by (simp add: compact_move_def gc_run Let_def w'_def y_def)
  have dom': "dom R' = insert f (dom R - {s})" using s by (auto simp: R'_def)
  have "finite (dom R)" using s(3) finite_subset by blast
  then have "card (dom R') = card (dom R)" unfolding dom' using f(2) card_Suc_Diff1 [OF _ s(1)] by simp
  moreover have "same_nodes (nodes_of w) (nodes_of w')" unfolding w'_def
    using same_nodes_upd [of "nodes_of w" "GC_GET_PTR e" x y, OF x(2)] x(3) y compress_bounds(2) [of f] compress_bounds(2) [of s] f(1) s(2)
    using info_ok_set [OF compress_bounds(1) is_color(5), of f x x] by (simp add: same_node_def y_def GC_REF_SET_INFO_def)
  moreover have "compacting (f + 1) (s - 1) w' R'"
    unfolding compacting_def
  proof (intro conjI allI impI)
    show "s - 1 < length (gc_buf w')" using c'(1) s by (simp add: w'_def)
    show "dom R' \<subseteq> {1..s - 1}"
    proof
      fix i assume "i \<in> dom R'"
      then have "i = f \<or> i \<in> dom R \<and> i \<noteq> s" unfolding dom' by blast
      then have "1 \<le> i \<and> i < s"
      proof
        assume "i \<in> dom R \<and> i \<noteq> s"
        then show ?thesis using subsetD [OF s(3), of i] by simp
      qed (use f(1) s(2) in simp)
      then show "i \<in> {1..s - 1}" by auto
    qed
    show "{1..<f + 1} \<subseteq> dom R'"
    proof
      fix i assume "i \<in> {1..<f + 1}"
      then show "i \<in> dom R'" unfolding dom' using subsetD [OF f(3), of i] s(2) by (cases "i = f") auto
    qed
    show "1 \<le> f + 1" by simp
    show "roots_ok (nodes_of w') R'" using roots_ok_move [OF c'(2) e(2) Rf x(2) y(1)] by (simp add: w'_def R'_def)
    show "\<forall>p\<in>dom (nodes_of w'). aligned p" using c'(3) x(2) by (auto simp: w'_def)
    fix i assume i: "1 \<le> i \<and> i \<le> s - 1"
    show "\<exists>e. gc_buf w' ! i = Some e \<and> R' i = (if GC_IS_UNUSED e then None else Some e)"
    proof (cases "i = f")
      case True
      then show ?thesis using x(1) c'(1) s by (simp add: w'_def R'_def)
    next
      case False
      then have "gc_buf w' ! i = gc_buf w ! i" "R' i = R i" using i s(2) by (auto simp: w'_def R'_def)
      moreover have "i \<le> scan" using i s(2,4) by linarith
      ultimately show ?thesis using c i unfolding compacting_def by metis
    qed
  qed
  ultimately show ?thesis using run ran_move [of R s e f, OF e(2) Rf] e(1) by (intro exI [of _ w'] exI [of _ R']) (simp add: w'_def R'_def)
qed

text \<open>The result: the roots are at the first positions, the nodes are the same but for their positions.\<close>

definition compacted :: "nat \<Rightarrow> zend_gc_globals \<Rightarrow> root_map \<Rightarrow> zend_gc_globals \<Rightarrow> root_map \<Rightarrow> bool" where
  "compacted N w R w' R' \<longleftrightarrow> dom R' = {1..N} \<and> ran R' = ran R \<and> same_nodes (nodes_of w) (nodes_of w')
     \<and> (\<forall>i e. R' i = Some e \<longrightarrow> gc_buf w' ! i = Some e) \<and> roots_ok (nodes_of w') R' \<and> (\<forall>p\<in>dom (nodes_of w'). aligned p)
     \<and> length (gc_buf w') = length (gc_buf w) \<and> num_roots w' = num_roots w \<and> buf_size w' = buf_size w \<and> first_unused w' = first_unused w
     \<and> gc_threshold w' = gc_threshold w"

lemma compacted_here:
  assumes c: "compacting free scan w R" and d: "dom R = {1..N}"
  shows "compacted N w R w R"
proof -
  have "gc_buf w ! i = Some e" if R: "R i = Some e" for i e
  proof -
    have i: "1 \<le> i" "i \<le> scan" using c domI [of R i e] R by (auto simp: compacting_def)
    obtain f where "gc_buf w ! i = Some f" "i \<in> dom R \<longleftrightarrow> \<not> GC_IS_UNUSED f" "i \<in> dom R \<longrightarrow> R i = Some f" "i < length (gc_buf w)"
      using compacting_entry [OF c i] .
    then show ?thesis using R by auto
  qed
  then show ?thesis using c d by (simp add: compacted_def compacting_def same_nodes_refl)
qed

lemma compacted_step:
  assumes "compacted N w1 R1 w' R'" "same_nodes (nodes_of w) (nodes_of w1)" "ran R1 = ran R" "length (gc_buf w1) = length (gc_buf w)"
    "num_roots w1 = num_roots w" "buf_size w1 = buf_size w" "first_unused w1 = first_unused w" "gc_threshold w1 = gc_threshold w"
  shows "compacted N w R w' R'"
  using assms same_nodes_trans by (simp add: compacted_def)

lemma initial_segment: "{1..<f} \<subseteq> A \<Longrightarrow> A \<subseteq> {1..s} \<Longrightarrow> s < f \<Longrightarrow> card A = N \<Longrightarrow> A = {1..N}" for f s :: nat
proof -
  assume "{1..<f} \<subseteq> A" and A: "A \<subseteq> {1..s}" and sf: "s < f" and N: "card A = N"
  have "{1..s} \<subseteq> {1..<f}" using sf by auto
  then have "A = {1..s}" using \<open>{1..<f} \<subseteq> A\<close> A by blast
  then show ?thesis using N by simp
qed

lemma compact_loop_run:
  "compacting free scan w R \<Longrightarrow> card (dom R) = N \<Longrightarrow> 0 < N \<Longrightarrow> N < scan \<Longrightarrow> \<exists>w' R'. compact_loop N free scan w = Inr w' \<and> compacted N w R w' R'"
proof (induction "scan - free" arbitrary: free scan w R rule: less_induct)
  case less
  note c = less.prems(1) and N = less.prems(2-4)
  have sub: "{1..<free} \<subseteq> dom R" "dom R \<subseteq> {1..scan}" "1 \<le> free" using c by (simp_all add: compacting_def)
  have fin: "finite (dom R)" using sub(2) finite_subset by blast
  show ?case
  proof (cases "free < scan")
    case False
    then have run: "compact_loop N free scan w = Inr w" by (subst compact_loop.simps) simp
    have "card {1..<free} \<le> N" using card_mono [OF fin sub(1)] N(1) by simp
    then have "free - 1 = N" using False N(3) by simp
    then have "{1..<free} = {1..N}" using sub(3) by auto
    then have "dom R = {1..N}" using card_subset_eq [OF fin sub(1)] N(1) \<open>free - 1 = N\<close> by simp
    then show ?thesis using run compacted_here [OF c] by blast
  next
    case True
    obtain f s where fs: "skip_used w free = Inr f" "skip_unused w scan = Inr s" "free \<le> f" "f \<le> scan" "s \<le> scan" "1 \<le> s" "f \<notin> dom R" "s \<in> dom R"
      "{1..<f} \<subseteq> dom R" "dom R \<subseteq> {1..s}" using compact_fingers [OF c N True] .
    show ?thesis
    proof (cases "f < s")
      case False
      have "s \<noteq> f" using fs(7,8) by blast
      then have "dom R = {1..N}" using initial_segment [OF fs(9,10) _ N(1)] False by simp
      moreover have "compact_loop N free scan w = Inr w" using True False fs(1,2) by (subst compact_loop.simps) simp
      ultimately show ?thesis using compacted_here [OF c] by blast
    next
      case True
      note lt = True
      have "1 \<le> f" using fs(3) sub(3) by simp
      from compact_move_run [OF c this fs(7,9,8) lt fs(10,5)]
      obtain w1 R1 where w1: "compact_move f s w = Inr w1" "compacting (f + 1) (s - 1) w1 R1" "card (dom R1) = N" "ran R1 = ran R"
        "same_nodes (nodes_of w) (nodes_of w1)" "length (gc_buf w1) = length (gc_buf w)" "num_roots w1 = num_roots w" "buf_size w1 = buf_size w"
        "first_unused w1 = first_unused w" "gc_threshold w1 = gc_threshold w" using N(1) by auto
      note whole = compacted_step [OF _ w1(5,4,6-10)]
      have run: "compact_loop N free scan w = (if s - 1 \<le> N then Inr w1 else compact_loop N (f + 1) (s - 1) w1)"
        using \<open>free < scan\<close> lt fs(1,2) w1(1) by (subst compact_loop.simps) simp
      show ?thesis
      proof (cases "s - 1 \<le> N")
        case True
        have sub1: "dom R1 \<subseteq> {1..s - 1}" using w1(2) by (simp add: compacting_def)
        have "card {1..s - 1} \<le> card (dom R1)" using True w1(3) by simp
        then have "dom R1 = {1..s - 1}" using card_subset_eq [OF _ sub1] card_mono [OF _ sub1] by fastforce
        then have "dom R1 = {1..N}" using w1(3) by simp
        then show ?thesis using run True whole [OF compacted_here [OF w1(2)]] by auto
      next
        case False
        have "s - 1 - (f + 1) < scan - free" using fs(3,5) lt by linarith
        from less.hyps [OF this w1(2,3) N(2)] show ?thesis using run False whole by fastforce
      qed
    qed
  qed
qed

lemma view_compacting:
  assumes v: "gc_view {} w ul R" and h: "1 < first_unused w"
  shows "compacting 1 (first_unused w - 1) w R" "card (dom R) = num_roots w"
proof -
  note sz = gc_viewD(1) [OF v, unfolded gc_sizes_def] and fr = gc_viewD(2) [OF v, unfolded gc_free_list_def]
  have dom: "dom R = {1..<first_unused w} - set ul" using gc_viewD(3) [OF v] by (auto simp: gc_holds_def)
  have "set ul \<subseteq> {1..<first_unused w}" using fr by auto
  then have "card (dom R) = first_unused w - 1 - length ul" unfolding dom using fr by (subst card_Diff_subset) (auto simp: distinct_card)
  then show "card (dom R) = num_roots w" using gc_viewD(5) [OF v] by simp
  have un: "\<exists>n. b ! j = Some (GC_IDX2LIST n)" if "unused_chain b hd us" "j \<in> set us" for b hd us j
    using that by (induction us arbitrary: hd) auto
  have ent: "\<exists>e. gc_buf w ! i = Some e \<and> R i = (if GC_IS_UNUSED e then None else Some e)" if i: "1 \<le> i" "i \<le> first_unused w - 1" for i
  proof (cases "i \<in> set ul")
    case True
    then have "R i = None" using dom by auto
    then show ?thesis using un [OF _ True] fr list_entry_unused by force
  next
    case False
    then have "i \<in> dom R" using dom i h by auto
    then obtain e where e: "R i = Some e" by auto
    moreover have "\<not> GC_IS_UNUSED e" using roots_okD [OF gc_viewD(4) [OF v] e] by blast
    ultimately show ?thesis using gc_viewD(8) [OF v e] by auto
  qed
  show "compacting 1 (first_unused w - 1) w R"
    unfolding compacting_def using ent dom sz h gc_viewD(4,7) [OF v] by auto
qed


lemma compact_run:
  assumes v: "gc_view {} w ul R"
  shows "\<exists>w' R'. gc_compact w = Inr w' \<and> gc_view {} w' [] R' \<and> ran R' = ran R \<and> same_nodes (nodes_of w) (nodes_of w')
    \<and> num_roots w' = num_roots w \<and> first_unused w' = num_roots w + 1 \<and> gc_threshold w' = gc_threshold w \<and> buf_size w' = buf_size w"
proof (cases "num_roots w + 1 = first_unused w")
  case True
  then have "length ul = 0" using gc_viewD(5) [OF v, unfolded card.empty] by linarith
  then have "ul = []" by simp
  then show ?thesis using v True by (intro exI [of _ w] exI [of _ R]) (simp add: gc_compact_def GC_FIRST_ROOT_def same_nodes_refl)
next
  case False
  then have lt: "num_roots w < first_unused w - 1" "1 < first_unused w" using gc_viewD(5) [OF v] by simp_all
  note sz = gc_viewD(1) [OF v, unfolded gc_sizes_def] and c = view_compacting [OF v lt(2)]
  have "\<exists>w' R'. (if num_roots w \<noteq> 0 then compact_loop (num_roots w) GC_FIRST_ROOT (first_unused w - 1) w else Inr w) = Inr w' \<and> compacted (num_roots w) w R w' R'"
  proof (cases "num_roots w = 0")
    case True
    have "finite (dom R)" using c(1) finite_subset unfolding compacting_def by blast
    then have "dom R = {1..num_roots w}" using c(2) True by simp
    then have "compacted (num_roots w) w R w R" by (rule compacted_here [OF c(1)])
    then show ?thesis using True by auto
  next
    case False
    then show ?thesis using compact_loop_run [OF c] lt(1) by (simp add: GC_FIRST_ROOT_def)
  qed
  then obtain w1 R1 where w1: "(if num_roots w \<noteq> 0 then compact_loop (num_roots w) GC_FIRST_ROOT (first_unused w - 1) w else Inr w) = Inr w1"
    and k: "compacted (num_roots w) w R w1 R1" by blast
  define w' where "w' = w1\<lparr>gc_unused := GC_INVALID, first_unused := num_roots w1 + GC_FIRST_ROOT\<rparr>"
  have run: "gc_compact w = Inr w'" using False w1 unfolding gc_compact_def w'_def by (simp add: GC_FIRST_ROOT_def)
  have "{1..num_roots w} = {i. 1 \<le> i \<and> i < num_roots w + 1}" by auto
  moreover have "num_roots w + 1 \<le> buf_size w" using sz lt by linarith
  ultimately have "gc_view {} w' [] R1"
    using k sz unfolding gc_view_def compacted_def gc_sizes_def gc_free_list_def gc_holds_def w'_def
    by (simp add: GC_INVALID_def GC_FIRST_ROOT_def)
  then show ?thesis using run k by (intro exI [of _ w'] exI [of _ R1]) (simp add: w'_def compacted_def GC_FIRST_ROOT_def)
qed

text \<open>Adjusting the threshold keeps it within the buffer.\<close>

lemma adjust_threshold_bounds:
  assumes "GC_THRESHOLD_DEFAULT \<le> gc_threshold w" "gc_threshold w \<le> buf_size w" "gc_threshold w \<le> GC_THRESHOLD_MAX"
  shows "GC_THRESHOLD_DEFAULT \<le> gc_threshold (gc_adjust_threshold n w)" "gc_threshold (gc_adjust_threshold n w) \<le> buf_size (gc_adjust_threshold n w)"
    "gc_threshold (gc_adjust_threshold n w) \<le> GC_THRESHOLD_MAX" "min (buf_size w) GC_MAX_BUF_SIZE \<le> buf_size (gc_adjust_threshold n w)"
  using assms
  by (auto simp: gc_adjust_threshold_def Let_def gc_grow_root_buffer_def GC_THRESHOLD_DEFAULT_def GC_THRESHOLD_STEP_def GC_THRESHOLD_MAX_def
      GC_FIRST_ROOT_def GC_MAX_BUF_SIZE_def GC_BUF_GROW_STEP_def)

lemma enable_ok:
  assumes "\<forall>p\<in>dom (nodes_of w). aligned p" "\<forall>p x. nodes_of w p = Some x \<longrightarrow> GC_REF_ADDRESS x = 0" "gc_buf w = []" "\<not> gc_enabled_flag w"
  shows "gc_ok (snd (gc_enable True w)) {}" "\<not> gc_protected_flag (snd (gc_enable True w))" "gc_enabled_flag (snd (gc_enable True w))"
    "nodes_of (snd (gc_enable True w)) = nodes_of w" "buf_size (snd (gc_enable True w)) = GC_DEFAULT_BUF_SIZE"
proof -
  define w' where "w' = snd (gc_enable True w)"
  have e: "w' = gc_reset (w\<lparr>gc_enabled_flag := True, gc_buf := Some 0 # replicate (GC_DEFAULT_BUF_SIZE - 1) None, buf_size := GC_DEFAULT_BUF_SIZE,
      gc_threshold := GC_THRESHOLD_DEFAULT\<rparr>)" using assms(3,4) by (simp add: w'_def gc_enable_def Let_def)
  have "gc_view {} w' [] Map.empty"
    using assms(1,2) unfolding e by (auto simp: gc_reset_def gc_view_def gc_sizes_def gc_free_list_def gc_holds_def roots_ok_def GC_DEFAULT_BUF_SIZE_def GC_INVALID_def GC_FIRST_ROOT_def)
  then have "gc_ok w' {}" by (rule gc_okI) (simp_all add: e gc_reset_def root_set_def GC_DEFAULT_BUF_SIZE_def GC_THRESHOLD_DEFAULT_def GC_FIRST_ROOT_def)
  then show "gc_ok (snd (gc_enable True w)) {}" by (simp add: w'_def)
  show "\<not> gc_protected_flag (snd (gc_enable True w))" "gc_enabled_flag (snd (gc_enable True w))" "nodes_of (snd (gc_enable True w)) = nodes_of w"
    "buf_size (snd (gc_enable True w)) = GC_DEFAULT_BUF_SIZE"
    unfolding w'_def [symmetric] e by (simp_all add: gc_reset_def)
qed


end
