(* ===== verification/Zend_Gc_Traversal.thy ===== *)
theory Zend_Gc_Traversal
  imports Zend_Gc_Trace Zend_Gc_Buffer_Laws
begin

text \<open>
A traversal from a root visits exactly the nodes that can be reached from it through nodes it has not marked yet, and changes the count of a node
  by as much as there are references to it in the visited nodes.  The law is proved once in a locale and interpreted for the four traversals.
\<close>

section \<open>The graph\<close>

definition refs_of :: "gc_data \<Rightarrow> u64 list" where
  "refs_of d = (case d of
       Gc_Object freed dtor t zs \<Rightarrow> if freed then [] else (case t of None \<Rightarrow> [] | Some t \<Rightarrow> [t]) @ zval_refs zs
     | Gc_Array packed zs \<Rightarrow> array_refs packed zs
     | Gc_Reference z \<Rightarrow> zval_refs [z]
     | Gc_Other \<Rightarrow> [])"

definition edges :: "(u64 \<rightharpoonup> gc_node) \<Rightarrow> u64 \<Rightarrow> u64 list" where
  "edges ns p = (case ns p of None \<Rightarrow> [] | Some x \<Rightarrow> refs_of (gc_data x))"

text \<open>All pointers lead to nodes, and the table of an object is an array.\<close>

fun table_of :: "gc_data \<Rightarrow> u64 option" where
  "table_of (Gc_Object freed dtor t zs) = (if freed then None else t)"
| "table_of _ = None"

definition closed_heap :: "(u64 \<rightharpoonup> gc_node) \<Rightarrow> bool" where
  "closed_heap ns \<longleftrightarrow> finite (dom ns) \<and> (\<forall>p q. q \<in> set (edges ns p) \<longrightarrow> q \<in> dom ns)
     \<and> (\<forall>p x t. ns p = Some x \<and> table_of (gc_data x) = Some t \<longrightarrow> (\<exists>y packed es. ns t = Some y \<and> gc_data y = Gc_Array packed es))"

section \<open>Traversals\<close>

text \<open>The state of a traversal, compared with the state before it: the nodes of \<open>N\<close> have got the colour \<open>m\<close>, and \<open>T\<close> tells how often a
  node was found, each time changing its count by \<open>d\<close>.\<close>

definition traversed :: "u32 \<Rightarrow> int \<Rightarrow> (u64 \<rightharpoonup> gc_node) \<Rightarrow> (u64 \<rightharpoonup> gc_node) \<Rightarrow> u64 set \<Rightarrow> (u64 \<Rightarrow> nat) \<Rightarrow> bool" where
  "traversed m d ns0 ns N T \<longleftrightarrow> dom ns = dom ns0 \<and> (\<forall>q x0 x. ns0 q = Some x0 \<and> ns q = Some x \<longrightarrow>
     gc_data x = gc_data x0 \<and> GC_REF_COLOR x = (if q \<in> N then m else GC_REF_COLOR x0) \<and> int (gc_refcount x) = int (gc_refcount x0) + d * int (T q))"

lemma traversedD:
  assumes "traversed m d ns0 ns N T" "ns0 q = Some x0"
  obtains x where "ns q = Some x" "gc_data x = gc_data x0" "GC_REF_COLOR x = (if q \<in> N then m else GC_REF_COLOR x0)"
    "int (gc_refcount x) = int (gc_refcount x0) + d * int (T q)"
proof -
  have "q \<in> dom ns" using assms unfolding traversed_def by blast
  then obtain x where "ns q = Some x" by blast
  then show ?thesis using that assms unfolding traversed_def by blast
qed

lemma traversed_start: "traversed m d ns ns {} (\<lambda>_. 0)"
  by (auto simp: traversed_def)

lemma traversed_edges: "traversed m d ns0 ns N T \<Longrightarrow> edges ns = edges ns0"
proof
  fix p assume t: "traversed m d ns0 ns N T"
  show "edges ns p = edges ns0 p"
  proof (cases "ns0 p")
    case None
    then have "ns p = None" using t unfolding traversed_def by auto
    then show ?thesis using None by (simp add: edges_def)
  next
    case (Some x0)
    then obtain x where "ns p = Some x" "gc_data x = gc_data x0" using traversedD [OF t] by blast
    then show ?thesis using Some by (simp add: edges_def)
  qed
qed

text \<open>The nodes that are still to be found.\<close>

definition fresh_in :: "(u32 \<Rightarrow> bool) \<Rightarrow> (u64 \<rightharpoonup> gc_node) \<Rightarrow> u64 set" where
  "fresh_in marked ns = {p. \<exists>x. ns p = Some x \<and> \<not> marked (GC_REF_COLOR x)}"

text \<open>What a state keeps besides: the rest of the globals, and the positions of the nodes.\<close>

definition only_nodes :: "zend_gc_globals \<Rightarrow> zend_gc_globals \<Rightarrow> bool" where
  "only_nodes w w' \<longleftrightarrow> w' = w\<lparr>nodes_of := nodes_of w'\<rparr> \<and> dom (nodes_of w') = dom (nodes_of w)
     \<and> (\<forall>p x y. nodes_of w p = Some x \<and> nodes_of w' p = Some y \<longrightarrow>
         gc_data y = gc_data x \<and> GC_REF_ADDRESS y = GC_REF_ADDRESS x \<and> (info_ok x \<longrightarrow> info_ok y))"

lemma only_nodes_refl: "only_nodes w w"
  by (auto simp: only_nodes_def)

lemma only_nodes_trans: "only_nodes u v \<Longrightarrow> only_nodes v w \<Longrightarrow> only_nodes u w"
  unfolding only_nodes_def
proof (elim conjE, intro conjI allI impI)
  assume 1: "v = u\<lparr>nodes_of := nodes_of v\<rparr>" "w = v\<lparr>nodes_of := nodes_of w\<rparr>"
  show "w = u\<lparr>nodes_of := nodes_of w\<rparr>" by (subst 1(2), subst 1(1)) simp
qed (auto, (metis domD domI)+)

locale traversal =
  fixes touch :: touch and marked :: "u32 \<Rightarrow> bool" and m :: u32 and d :: int
  assumes marked_m: "marked m"
    and touch_run: "nodes_of w p = Some x \<Longrightarrow> 0 \<le> int (gc_refcount x) + d \<Longrightarrow>
      \<exists>y. touch p w = Inr (w\<lparr>nodes_of := (nodes_of w)(p \<mapsto> y)\<rparr>, \<not> marked (GC_REF_COLOR x)) \<and> gc_data y = gc_data x \<and> GC_REF_ADDRESS y = GC_REF_ADDRESS x \<and> (info_ok x \<longrightarrow> info_ok y)
        \<and> GC_REF_COLOR y = (if marked (GC_REF_COLOR x) then GC_REF_COLOR x else m) \<and> int (gc_refcount y) = int (gc_refcount x) + d"
begin

lemma touch_ok:
  assumes t: "traversed m d ns0 (nodes_of w) N T" and x0: "ns0 p = Some x0" and r: "0 \<le> int (gc_refcount x0) + d * (int (T p) + 1)"
  shows "\<exists>w'. touch p w = Inr (w', p \<in> fresh_in marked ns0 - N) \<and> only_nodes w w'
    \<and> traversed m d ns0 (nodes_of w') (N \<union> ({p} \<inter> fresh_in marked ns0)) (T(p := T p + 1))"
proof -
  obtain x where x: "nodes_of w p = Some x" "gc_data x = gc_data x0" "GC_REF_COLOR x = (if p \<in> N then m else GC_REF_COLOR x0)"
    "int (gc_refcount x) = int (gc_refcount x0) + d * int (T p)" using traversedD [OF t x0] .
  have "0 \<le> int (gc_refcount x) + d" using r x(4) by (simp add: algebra_simps)
  from touch_run [OF x(1) this] obtain y where y: "touch p w = Inr (w\<lparr>nodes_of := (nodes_of w)(p \<mapsto> y)\<rparr>, \<not> marked (GC_REF_COLOR x))"
    "gc_data y = gc_data x" "GC_REF_ADDRESS y = GC_REF_ADDRESS x" "GC_REF_COLOR y = (if marked (GC_REF_COLOR x) then GC_REF_COLOR x else m)"
    "int (gc_refcount y) = int (gc_refcount x) + d" "info_ok x \<longrightarrow> info_ok y" by blast
  define w' where "w' = w\<lparr>nodes_of := (nodes_of w)(p \<mapsto> y)\<rparr>"
  have new: "(\<not> marked (GC_REF_COLOR x)) = (p \<in> fresh_in marked ns0 - N)" using x0 x(3) marked_m by (auto simp: fresh_in_def)
  have "only_nodes w w'" using x(1) y(2,3,6) by (auto simp: only_nodes_def w'_def)
  moreover have "traversed m d ns0 (nodes_of w') (N \<union> ({p} \<inter> fresh_in marked ns0)) (T(p := T p + 1))"
    unfolding traversed_def
  proof (intro conjI allI impI)
    show "dom (nodes_of w') = dom ns0" using t x0 unfolding traversed_def w'_def by auto
    fix q z0 z assume z: "ns0 q = Some z0 \<and> nodes_of w' q = Some z"
    show "gc_data z = gc_data z0" "GC_REF_COLOR z = (if q \<in> N \<union> ({p} \<inter> fresh_in marked ns0) then m else GC_REF_COLOR z0)"
      "int (gc_refcount z) = int (gc_refcount z0) + d * int ((T(p := T p + 1)) q)"
    proof (atomize(full), cases "q = p")
      case True
      then have "z = y" "z0 = x0" using z x0 by (auto simp: w'_def)
      then show "gc_data z = gc_data z0 \<and> GC_REF_COLOR z = (if q \<in> N \<union> ({p} \<inter> fresh_in marked ns0) then m else GC_REF_COLOR z0)
          \<and> int (gc_refcount z) = int (gc_refcount z0) + d * int ((T(p := T p + 1)) q)"
        using True y x x0 marked_m by (auto simp: fresh_in_def algebra_simps)
    next
      case False
      then show "gc_data z = gc_data z0 \<and> GC_REF_COLOR z = (if q \<in> N \<union> ({p} \<inter> fresh_in marked ns0) then m else GC_REF_COLOR z0)
          \<and> int (gc_refcount z) = int (gc_refcount z0) + d * int ((T(p := T p + 1)) q)"
        using t z unfolding traversed_def w'_def by auto
    qed
  qed
  ultimately show ?thesis using y(1) new by (auto simp: w'_def)
qed

end


text \<open>There are references enough to be taken away.\<close>

definition enough :: "int \<Rightarrow> (u64 \<rightharpoonup> gc_node) \<Rightarrow> (u64 \<Rightarrow> nat) \<Rightarrow> bool" where
  "enough d ns T \<longleftrightarrow> (\<forall>q x. ns q = Some x \<longrightarrow> 0 \<le> int (gc_refcount x) + d * int (T q))"

lemma enough_mono: "enough d ns T \<Longrightarrow> (\<And>q. T' q \<le> T q) \<Longrightarrow> enough d ns T'"
  unfolding enough_def
proof (intro allI impI)
  fix q x assume e: "\<forall>q x. ns q = Some x \<longrightarrow> 0 \<le> int (gc_refcount x) + d * int (T q)" and le: "\<And>q. T' q \<le> T q" and x: "ns q = Some x"
  have 0: "0 \<le> int (gc_refcount x) + d * int (T q)" using e x by blast
  show "0 \<le> int (gc_refcount x) + d * int (T' q)"
  proof (cases "0 \<le> d")
    case False
    then have "d * int (T q) \<le> d * int (T' q)" using le [of q] by (intro mult_left_mono_neg) simp_all
    then show ?thesis using 0 by linarith
  qed simp
qed

context traversal
begin

lemma touch_all_ok:
  "traversed m d ns0 (nodes_of w) N T \<Longrightarrow> set ps \<subseteq> dom ns0 \<Longrightarrow> enough d ns0 (\<lambda>q. T q + count_list ps q) \<Longrightarrow>
    \<exists>w' new. touch_all touch ps w = Inr (w', new) \<and> only_nodes w w' \<and> distinct new \<and> set new = set ps \<inter> fresh_in marked ns0 - N
      \<and> traversed m d ns0 (nodes_of w') (N \<union> (set ps \<inter> fresh_in marked ns0)) (\<lambda>q. T q + count_list ps q)"
proof (induction ps arbitrary: w N T)
  case Nil
  then show ?case by (simp add: only_nodes_refl)
next
  case (Cons p ps)
  let ?F = "fresh_in marked ns0"
  obtain x0 where x0: "ns0 p = Some x0" using Cons.prems(2) by auto
  have "enough d ns0 (T(p := T p + 1))" by (rule enough_mono [OF Cons.prems(3)]) simp
  then have "0 \<le> int (gc_refcount x0) + d * int ((T(p := T p + 1)) p)" using x0 unfolding enough_def by blast
  then have "0 \<le> int (gc_refcount x0) + d * (int (T p) + 1)" by (simp add: add.commute)
  from touch_ok [OF Cons.prems(1) x0 this]
  obtain w1 where w1: "touch p w = Inr (w1, p \<in> ?F - N)" "only_nodes w w1"
    "traversed m d ns0 (nodes_of w1) (N \<union> ({p} \<inter> ?F)) (T(p := T p + 1))" by blast
  have en: "enough d ns0 (\<lambda>q. (T(p := T p + 1)) q + count_list ps q)" by (rule enough_mono [OF Cons.prems(3)]) simp
  have sub: "set ps \<subseteq> dom ns0" using Cons.prems(2) by simp
  obtain w' new where w': "touch_all touch ps w1 = Inr (w', new)" "only_nodes w1 w'" "distinct new"
    "set new = set ps \<inter> ?F - (N \<union> ({p} \<inter> ?F))"
    "traversed m d ns0 (nodes_of w') (N \<union> ({p} \<inter> ?F) \<union> (set ps \<inter> ?F)) (\<lambda>q. (T(p := T p + 1)) q + count_list ps q)"
    using Cons.IH [OF w1(3) sub en] by blast
  have "(\<lambda>q. (T(p := T p + 1)) q + count_list ps q) = (\<lambda>q. T q + count_list (p # ps) q)" by (rule ext) simp
  moreover have "N \<union> ({p} \<inter> ?F) \<union> (set ps \<inter> ?F) = N \<union> (set (p # ps) \<inter> ?F)" by auto
  ultimately have "traversed m d ns0 (nodes_of w') (N \<union> (set (p # ps) \<inter> ?F)) (\<lambda>q. T q + count_list (p # ps) q)" using w'(5) by simp
  moreover have "distinct (if p \<in> ?F - N then p # new else new)" using w'(3,4) by auto
  moreover have "set (if p \<in> ?F - N then p # new else new) = set (p # ps) \<inter> ?F - N" using w'(4) by auto
  ultimately show ?case using w1(1) w'(1) only_nodes_trans [OF w1(2) w'(2)]
    by (intro exI [of _ w'] exI [of _ "if p \<in> ?F - N then p # new else new"]) simp
qed

end


lemma mset_tail_call: "mset (tail_call new st) = mset new + mset st"
  by (cases new) (simp_all add: tail_call_def)

lemma edges_Some: "ns p = Some x \<Longrightarrow> edges ns p = refs_of (gc_data x)"
  by (simp add: edges_def)

context traversal
begin

lemma touch_tail_ok:
  assumes t: "traversed m d ns0 (nodes_of w) N T" and ps: "set ps \<subseteq> dom ns0" and en: "enough d ns0 (\<lambda>q. T q + count_list ps q)"
  shows "\<exists>w' A new. touch_tail touch ps st w = Inr (w', A) \<and> only_nodes w w' \<and> distinct new \<and> set new = set ps \<inter> fresh_in marked ns0 - N
    \<and> mset A = mset new + mset st \<and> traversed m d ns0 (nodes_of w') (N \<union> (set ps \<inter> fresh_in marked ns0)) (\<lambda>q. T q + count_list ps q)"
  using touch_all_ok [OF t ps en] by (auto simp: touch_tail_def mset_tail_call)

lemma visit_table_ok:
  assumes t: "traversed m d ns0 (nodes_of w) N T" and zs: "set (zval_refs zs) \<subseteq> dom ns0" and y: "ns0 tb = Some y" "gc_data y = Gc_Array packed es"
    and es: "set (edges ns0 tb) \<subseteq> dom ns0" and en: "enough d ns0 (\<lambda>q. T q + count_list (zval_refs zs @ edges ns0 tb) q)"
  shows "\<exists>w' A new. visit_table touch pt tb zs st w = Inr (w', A) \<and> only_nodes w w' \<and> distinct new \<and> set new = set (zval_refs zs @ edges ns0 tb) \<inter> fresh_in marked ns0 - N
    \<and> mset A = mset new + (if pt then {#tb#} else {#}) + mset st
    \<and> traversed m d ns0 (nodes_of w') (N \<union> (set (zval_refs zs @ edges ns0 tb) \<inter> fresh_in marked ns0)) (\<lambda>q. T q + count_list (zval_refs zs @ edges ns0 tb) q)"
proof -
  let ?F = "fresh_in marked ns0" and ?z = "zval_refs zs" and ?e = "edges ns0 tb"
  have "enough d ns0 (\<lambda>q. T q + count_list ?z q)" by (rule enough_mono [OF en]) (simp add: count_list_append)
  from touch_all_ok [OF t zs this] obtain w1 n1 where w1: "touch_all touch ?z w = Inr (w1, n1)" "only_nodes w w1" "distinct n1" "set n1 = set ?z \<inter> ?F - N"
    "traversed m d ns0 (nodes_of w1) (N \<union> (set ?z \<inter> ?F)) (\<lambda>q. T q + count_list ?z q)" by blast
  obtain x where x: "nodes_of w1 tb = Some x" "gc_data x = Gc_Array packed es" using traversedD [OF w1(5) y(1)] y(2) by metis
  have e: "?e = array_refs packed es" using y by (simp add: edges_Some refs_of_def)
  have "enough d ns0 (\<lambda>q. T q + count_list ?z q + count_list ?e q)" by (rule enough_mono [OF en]) (simp add: count_list_append)
  from touch_tail_ok [OF w1(5) es this, of "push_all_refs n1 (if pt then tb # st else st)"]
  obtain w' A n2 where w': "touch_tail touch ?e (push_all_refs n1 (if pt then tb # st else st)) w1 = Inr (w', A)" "only_nodes w1 w'" "distinct n2"
    "set n2 = set ?e \<inter> ?F - (N \<union> (set ?z \<inter> ?F))" "mset A = mset n2 + mset (push_all_refs n1 (if pt then tb # st else st))"
    "traversed m d ns0 (nodes_of w') (N \<union> (set ?z \<inter> ?F) \<union> (set ?e \<inter> ?F)) (\<lambda>q. T q + count_list ?z q + count_list ?e q)" by blast
  have run: "visit_table touch pt tb zs st w = Inr (w', A)" using w1(1) x w'(1) e by (simp add: visit_table_def gc_node_at_Some)
  have "distinct (n1 @ n2)" using w1(3,4) w'(3,4) by auto
  moreover have "set (n1 @ n2) = set (?z @ ?e) \<inter> ?F - N" using w1(4) w'(4) by auto
  moreover have "mset A = mset (n1 @ n2) + (if pt then {#tb#} else {#}) + mset st" using w'(5) by (simp add: push_all_refs_def)
  moreover have "N \<union> (set ?z \<inter> ?F) \<union> (set ?e \<inter> ?F) = N \<union> (set (?z @ ?e) \<inter> ?F)" by auto
  ultimately show ?thesis using run only_nodes_trans [OF w1(2) w'(2)] w'(6)
    by (intro exI [of _ w'] exI [of _ A] exI [of _ "n1 @ n2"]) (simp add: count_list_append add.assoc)
qed

end

text \<open>The values that a visit finds, and the nodes it is done with: with a new table, those of the table too.\<close>

definition found_table :: "(u64 \<rightharpoonup> gc_node) \<Rightarrow> u64 set \<Rightarrow> u64 \<Rightarrow> u64 list" where
  "found_table ns U p = (case ns p of None \<Rightarrow> [] | Some x \<Rightarrow> (case table_of (gc_data x) of None \<Rightarrow> [] | Some t \<Rightarrow> if t \<in> U then [t] else []))"

definition found :: "(u64 \<rightharpoonup> gc_node) \<Rightarrow> u64 set \<Rightarrow> u64 \<Rightarrow> u64 list" where
  "found ns U p = edges ns p @ concat (map (edges ns) (found_table ns U p))"

lemma closed_heapD:
  assumes "closed_heap ns"
  shows "finite (dom ns)" "set (edges ns p) \<subseteq> dom ns" "ns p = Some x \<Longrightarrow> table_of (gc_data x) = Some t \<Longrightarrow> \<exists>y packed es. ns t = Some y \<and> gc_data y = Gc_Array packed es"
  using assms unfolding closed_heap_def by blast+

lemma found_dom: "closed_heap ns \<Longrightarrow> set (found ns U p) \<subseteq> dom ns"
  using closed_heapD(2) by (fastforce simp: found_def)


context traversal
begin

lemma visit_object_ok:
  assumes t: "traversed m d ns0 (nodes_of w) N T" and cl: "closed_heap ns0" and x0: "ns0 ref = Some x0" "gc_data x0 = Gc_Object False dtor (Some tb) zs"
    and en: "enough d ns0 (\<lambda>q. T q + count_list (found ns0 (fresh_in marked ns0 - N) ref) q)"
  shows "\<exists>w' A new. visit_node touch pt ref st w = Inr (w', A) \<and> only_nodes w w' \<and> distinct new
    \<and> set new = set (found ns0 (fresh_in marked ns0 - N) ref) \<inter> fresh_in marked ns0 - N
    \<and> mset A + (if pt then {#} else mset (found_table ns0 (fresh_in marked ns0 - N) ref)) = mset new + mset st
    \<and> traversed m d ns0 (nodes_of w') (N \<union> (set (found ns0 (fresh_in marked ns0 - N) ref) \<inter> fresh_in marked ns0))
        (\<lambda>q. T q + count_list (found ns0 (fresh_in marked ns0 - N) ref) q)"
proof -
  let ?F = "fresh_in marked ns0"
  obtain x where x: "nodes_of w ref = Some x" "gc_data x = Gc_Object False dtor (Some tb) zs" using traversedD [OF t x0(1)] x0(2) by metis
  obtain y packed es where y: "ns0 tb = Some y" "gc_data y = Gc_Array packed es" using closed_heapD(3) [OF cl x0(1)] x0(2) by auto
  have ed: "edges ns0 ref = tb # zval_refs zs" using x0 by (simp add: edges_Some refs_of_def)
  have zs: "set (zval_refs zs) \<subseteq> dom ns0" using closed_heapD(2) [OF cl, of ref] ed by auto
  have tt: "found_table ns0 U ref = (if tb \<in> U then [tb] else [])" for U using x0 by (simp add: found_table_def)
  have "enough d ns0 (T(tb := T tb + 1))" by (rule enough_mono [OF en]) (simp add: found_def ed)
  then have "0 \<le> int (gc_refcount y) + d * int ((T(tb := T tb + 1)) tb)" using y(1) unfolding enough_def by blast
  then have "0 \<le> int (gc_refcount y) + d * (int (T tb) + 1)" by (simp add: add.commute)
  from touch_ok [OF t y(1) this] obtain w1 where w1: "touch tb w = Inr (w1, tb \<in> ?F - N)" "only_nodes w w1"
    "traversed m d ns0 (nodes_of w1) (N \<union> ({tb} \<inter> ?F)) (T(tb := T tb + 1))" by blast
  show ?thesis
  proof (cases "tb \<in> ?F - N")
    case True
    let ?f = "zval_refs zs @ edges ns0 tb"
    have f: "found ns0 (?F - N) ref = tb # ?f" "found_table ns0 (?F - N) ref = [tb]" using True tt by (simp_all add: found_def ed)
    have "enough d ns0 (\<lambda>q. (T(tb := T tb + 1)) q + count_list ?f q)" by (rule enough_mono [OF en]) (simp add: f)
    from visit_table_ok [OF w1(3) zs y closed_heapD(2) [OF cl] this, of pt st]
    obtain w' A new where w': "visit_table touch pt tb zs st w1 = Inr (w', A)" "only_nodes w1 w'" "distinct new"
      "set new = set ?f \<inter> ?F - (N \<union> ({tb} \<inter> ?F))" "mset A = mset new + (if pt then {#tb#} else {#}) + mset st"
      "traversed m d ns0 (nodes_of w') (N \<union> ({tb} \<inter> ?F) \<union> (set ?f \<inter> ?F)) (\<lambda>q. (T(tb := T tb + 1)) q + count_list ?f q)" by blast
    have "visit_node touch pt ref st w = Inr (w', A)" using x w1(1) True w'(1) by (simp add: visit_node_def gc_node_at_Some)
    moreover have "(\<lambda>q. (T(tb := T tb + 1)) q + count_list ?f q) = (\<lambda>q. T q + count_list (tb # ?f) q)" by (rule ext) simp
    moreover have "N \<union> ({tb} \<inter> ?F) \<union> (set ?f \<inter> ?F) = N \<union> (set (tb # ?f) \<inter> ?F)" by auto
    moreover have "distinct (tb # new)" "set (tb # new) = set (tb # ?f) \<inter> ?F - N" using w'(3,4) True by auto
    ultimately show ?thesis unfolding f using w'(5,6) only_nodes_trans [OF w1(2) w'(2)]
      by (intro exI [of _ w'] exI [of _ A] exI [of _ "tb # new"]) simp
  next
    case False
    have f: "found ns0 (?F - N) ref = tb # zval_refs zs" "found_table ns0 (?F - N) ref = []" using False tt by (auto simp: found_def ed)
    have N: "N \<union> ({tb} \<inter> ?F) = N" using False by auto
    have "enough d ns0 (\<lambda>q. (T(tb := T tb + 1)) q + count_list (zval_refs zs) q)" by (rule enough_mono [OF en]) (simp add: f)
    from touch_tail_ok [OF w1(3) zs this, of st]
    obtain w' A new where w': "touch_tail touch (zval_refs zs) st w1 = Inr (w', A)" "only_nodes w1 w'" "distinct new"
      "set new = set (zval_refs zs) \<inter> ?F - N" "mset A = mset new + mset st"
      "traversed m d ns0 (nodes_of w') (N \<union> (set (zval_refs zs) \<inter> ?F)) (\<lambda>q. (T(tb := T tb + 1)) q + count_list (zval_refs zs) q)"
      unfolding N by blast
    have "visit_node touch pt ref st w = Inr (w', A)" using x w1(1) False w'(1) by (auto simp: visit_node_def gc_node_at_Some)
    moreover have "(\<lambda>q. (T(tb := T tb + 1)) q + count_list (zval_refs zs) q) = (\<lambda>q. T q + count_list (tb # zval_refs zs) q)" by (rule ext) simp
    moreover have "N \<union> (set (zval_refs zs) \<inter> ?F) = N \<union> (set (tb # zval_refs zs) \<inter> ?F)" "set new = set (tb # zval_refs zs) \<inter> ?F - N" using w'(4) False by auto
    ultimately show ?thesis unfolding f using w'(3,5,6) only_nodes_trans [OF w1(2) w'(2)]
      by (intro exI [of _ w'] exI [of _ A] exI [of _ new]) simp
  qed
qed

lemma visit_ok:
  assumes t: "traversed m d ns0 (nodes_of w) N T" and cl: "closed_heap ns0" and x0: "ns0 ref = Some x0"
    and en: "enough d ns0 (\<lambda>q. T q + count_list (found ns0 (fresh_in marked ns0 - N) ref) q)"
  shows "\<exists>w' A new. visit_node touch pt ref st w = Inr (w', A) \<and> only_nodes w w' \<and> distinct new
    \<and> set new = set (found ns0 (fresh_in marked ns0 - N) ref) \<inter> fresh_in marked ns0 - N
    \<and> mset A + (if pt then {#} else mset (found_table ns0 (fresh_in marked ns0 - N) ref)) = mset new + mset st
    \<and> traversed m d ns0 (nodes_of w') (N \<union> (set (found ns0 (fresh_in marked ns0 - N) ref) \<inter> fresh_in marked ns0))
        (\<lambda>q. T q + count_list (found ns0 (fresh_in marked ns0 - N) ref) q)"
proof (cases "table_of (gc_data x0)")
  case (Some tb)
  then obtain dtor zs where "gc_data x0 = Gc_Object False dtor (Some tb) zs" by (cases "gc_data x0") (auto split: if_splits)
  then show ?thesis using visit_object_ok [OF t cl x0 _ en] by blast
next
  case None
  let ?F = "fresh_in marked ns0"
  obtain x where x: "nodes_of w ref = Some x" "gc_data x = gc_data x0" using traversedD [OF t x0] by metis
  have f: "found_table ns0 (?F - N) ref = []" "found ns0 (?F - N) ref = edges ns0 ref" using None x0 by (simp_all add: found_table_def found_def)
  have run: "visit_node touch pt ref st w = touch_tail touch (edges ns0 ref) st w"
  proof (cases "gc_data x0")
    case (Gc_Object freed dtor tb zs)
    then show ?thesis using None x x0
      by (cases freed) (auto simp: visit_node_def gc_node_at_Some edges_Some refs_of_def touch_tail_def tail_call_def)
  qed (use x x0 in \<open>auto simp: visit_node_def gc_node_at_Some edges_Some refs_of_def touch_tail_def tail_call_def\<close>)
  show ?thesis unfolding run f using touch_tail_ok [OF t closed_heapD(2) [OF cl] en [unfolded f]] by simp
qed

end


text \<open>How often a node is found from the nodes of a set.\<close>

definition indegree :: "(u64 \<Rightarrow> u64 list) \<Rightarrow> u64 set \<Rightarrow> u64 \<Rightarrow> nat" where
  "indegree E D q = (\<Sum>p\<in>D. count_list (E p) q)"

lemma indegree_insert: "finite D \<Longrightarrow> p \<notin> D \<Longrightarrow> indegree E (insert p D) q = indegree E D q + count_list (E p) q"
  by (simp add: indegree_def)

lemma indegree_mono: "finite C \<Longrightarrow> D \<subseteq> C \<Longrightarrow> indegree E D q \<le> indegree E C q"
  unfolding indegree_def by (rule sum_mono2) auto

lemma indegree_union: "finite C \<Longrightarrow> finite D \<Longrightarrow> C \<inter> D = {} \<Longrightarrow> indegree E (C \<union> D) q = indegree E C q + indegree E D q"
  unfolding indegree_def by (rule sum.union_disjoint)

lemma indegree_empty [simp]: "indegree E {} q = 0"
  by (simp add: indegree_def)

text \<open>What can be reached from a set of nodes within another one.\<close>

definition reach :: "(u64 \<Rightarrow> u64 list) \<Rightarrow> u64 set \<Rightarrow> u64 set \<Rightarrow> u64 set" where
  "reach E F S = {q. \<exists>p\<in>S. (p, q) \<in> {(a, b). b \<in> set (E a) \<and> b \<in> F}\<^sup>*}"

lemma reach_refl: "p \<in> S \<Longrightarrow> p \<in> reach E F S"
  by (auto simp: reach_def)

lemma reach_step: "p \<in> reach E F S \<Longrightarrow> q \<in> set (E p) \<Longrightarrow> q \<in> F \<Longrightarrow> q \<in> reach E F S"
proof -
  assume "p \<in> reach E F S" and q: "q \<in> set (E p)" "q \<in> F"
  then obtain r where r: "r \<in> S" "(r, p) \<in> {(a, b). b \<in> set (E a) \<and> b \<in> F}\<^sup>*" by (auto simp: reach_def)
  then have "(r, q) \<in> {(a, b). b \<in> set (E a) \<and> b \<in> F}\<^sup>*" using q by (intro rtrancl_into_rtrancl [OF r(2)]) simp
  then show "q \<in> reach E F S" using r(1) by (auto simp: reach_def)
qed

lemma reach_closed:
  assumes "S \<subseteq> N" "\<And>p q. p \<in> N \<Longrightarrow> q \<in> set (E p) \<Longrightarrow> q \<in> F \<Longrightarrow> q \<in> N"
  shows "reach E F S \<subseteq> N"
proof
  fix q assume "q \<in> reach E F S"
  then obtain p where p: "p \<in> S" "(p, q) \<in> {(a, b). b \<in> set (E a) \<and> b \<in> F}\<^sup>*" by (auto simp: reach_def)
  from p(2) show "q \<in> N" by (induction rule: rtrancl_induct) (use p(1) assms in auto)
qed

lemma found_table_cases:
  obtains "found_table ns U p = []"
  | t x where "ns p = Some x" "table_of (gc_data x) = Some t" "t \<in> U" "found_table ns U p = [t]"
proof (cases "ns p")
  case None
  then show thesis using that(1) by (simp add: found_table_def)
next
  case (Some x)
  show thesis
  proof (cases "table_of (gc_data x)")
    case None
    then show thesis using that(1) Some by (simp add: found_table_def)
  next
    case (Some t)
    then show thesis using that \<open>ns p = Some x\<close> by (cases "t \<in> U") (simp_all add: found_table_def)
  qed
qed

lemma table_of_refs: "table_of d = Some t \<Longrightarrow> t \<in> set (refs_of d)"
  by (cases d) (auto simp: refs_of_def split: if_splits)

lemma found_indegree:
  assumes "finite D" "ref \<notin> D" "set (found_table ns U ref) \<inter> insert ref D = {}"
  shows "indegree (edges ns) (D \<union> insert ref (set (found_table ns U ref))) q = indegree (edges ns) D q + count_list (found ns U ref) q"
proof -
  show ?thesis
  proof (cases rule: found_table_cases [of ns U ref])
    case 1
    then show ?thesis using assms by (simp add: found_def indegree_insert)
  next
    case (2 t x)
    then have "t \<notin> insert ref D" using assms by auto
    moreover have "D \<union> insert ref {t} = insert t (insert ref D)" by auto
    ultimately show ?thesis using assms 2 by (simp add: found_def indegree_insert count_list_append)
  qed
qed

lemma found_table_fresh: "set (found_table ns U ref) \<subseteq> U" "set (found_table ns U ref) \<subseteq> set (edges ns ref)" "distinct (found_table ns U ref)"
  by (cases rule: found_table_cases [of ns U ref]; auto simp: edges_Some table_of_refs)+

text \<open>The nodes that are tables of objects.\<close>

definition tables :: "(u64 \<rightharpoonup> gc_node) \<Rightarrow> u64 set" where
  "tables ns = {t. \<exists>p x. ns p = Some x \<and> table_of (gc_data x) = Some t}"

lemma found_table_tables: "set (found_table ns U ref) \<subseteq> tables ns"
  by (cases rule: found_table_cases [of ns U ref]) (auto simp: tables_def)

context traversal
begin

definition traversing :: "(u64 \<rightharpoonup> gc_node) \<Rightarrow> (u64 \<rightharpoonup> gc_node) \<Rightarrow> u64 list \<Rightarrow> u64 set \<Rightarrow> u64 set \<Rightarrow> bool" where
  "traversing ns0 ns A N D \<longleftrightarrow> traversed m d ns0 ns N (indegree (edges ns0) D) \<and> distinct A \<and> set A \<inter> D = {} \<and> set A \<union> D = N \<and> N \<subseteq> fresh_in marked ns0
     \<and> (\<forall>p\<in>D. set (edges ns0 p) \<inter> fresh_in marked ns0 \<subseteq> N)"

lemma visit_traversing:
  assumes tr: "traversing ns0 (nodes_of w) (ref # st) N D" and cl: "closed_heap ns0"
    and en: "enough d ns0 (indegree (edges ns0) (fresh_in marked ns0))"
  shows "\<exists>w' A N' D'. visit_node touch False ref st w = Inr (w', A) \<and> only_nodes w w' \<and> traversing ns0 (nodes_of w') A N' D'
    \<and> D \<union> {ref} \<subseteq> D' \<and> N \<subseteq> N' \<and> N' - N \<subseteq> set (edges ns0 ref) \<union> \<Union> (set ` edges ns0 ` (set (edges ns0 ref) \<inter> (fresh_in marked ns0 - N)))
    \<and> D' \<subseteq> D \<union> {ref} \<union> tables ns0"
proof -
  let ?F = "fresh_in marked ns0"
  let ?f = "found ns0 (?F - N) ref" and ?t = "found_table ns0 (?F - N) ref"
  have t: "traversed m d ns0 (nodes_of w) N (indegree (edges ns0) D)" and st: "distinct (ref # st)" "set (ref # st) \<inter> D = {}" "set (ref # st) \<union> D = N" "N \<subseteq> ?F"
    and done_: "\<And>p. p \<in> D \<Longrightarrow> set (edges ns0 p) \<inter> ?F \<subseteq> N" using tr unfolding traversing_def by blast+
  have fin: "finite ?F" by (rule finite_subset [OF _ closed_heapD(1) [OF cl]]) (auto simp: fresh_in_def)
  then have finD: "finite D" using st(3,4) finite_subset by blast
  obtain x0 where x0: "ns0 ref = Some x0" using st(3,4) by (auto simp: fresh_in_def)
  define D' where "D' = D \<union> insert ref (set ?t)"
  have new_t: "set ?t \<inter> N = {}" "set ?t \<subseteq> ?F" "set ?t \<subseteq> set (edges ns0 ref)" using found_table_fresh [of ns0 "?F - N" ref] by auto
  have deg: "indegree (edges ns0) D' q = indegree (edges ns0) D q + count_list ?f q" for q
    unfolding D'_def by (rule found_indegree) (use finD st new_t in auto)
  have "D' \<subseteq> ?F" using st(3,4) new_t unfolding D'_def by auto
  then have "enough d ns0 (\<lambda>q. indegree (edges ns0) D q + count_list ?f q)"
    unfolding deg [symmetric] by (intro enough_mono [OF en] indegree_mono [OF fin])
  from visit_ok [OF t cl x0 this, of False st] obtain w' A new where v: "visit_node touch False ref st w = Inr (w', A)" "only_nodes w w'" "distinct new"
    "set new = set ?f \<inter> ?F - N" "mset A + mset ?t = mset new + mset st"
    "traversed m d ns0 (nodes_of w') (N \<union> (set ?f \<inter> ?F)) (\<lambda>q. indegree (edges ns0) D q + count_list ?f q)" by auto
  define N' where "N' = N \<union> (set ?f \<inter> ?F)"
  have sub: "set ?t \<subseteq> set new" using new_t v(4) by (auto simp: found_def)
  have d2: "distinct (new @ st)" using v(3,4) st by auto
  have "mset (new @ st) = mset (A @ ?t)" using v(5) by simp
  then have d3: "distinct (A @ ?t)" "set (A @ ?t) = set (new @ st)" using d2 mset_eq_imp_distinct_iff [of "new @ st" "A @ ?t"] mset_eq_setD [of "new @ st" "A @ ?t"] by auto
  have setA: "set A = set new \<union> set st - set ?t" using d3 by auto
  have "traversing ns0 (nodes_of w') A N' D'"
    unfolding traversing_def
  proof (intro conjI ballI)
    show "traversed m d ns0 (nodes_of w') N' (indegree (edges ns0) D')" 
    proof -
      have "indegree (edges ns0) D' = (\<lambda>q. indegree (edges ns0) D q + count_list ?f q)" by (rule ext) (rule deg)
      then show ?thesis using v(6) by (simp add: N'_def)
    qed
    show "distinct A" using d3 by simp
    show "set A \<inter> D' = {}" unfolding D'_def setA using v(4) st by auto
    show "set A \<union> D' = N'" unfolding D'_def N'_def setA using v(4) st sub by auto
    show "N' \<subseteq> ?F" using st(4) by (auto simp: N'_def)
    fix p assume "p \<in> D'"
    then consider "p \<in> D" | "p = ref" | "p \<in> set ?t" by (auto simp: D'_def)
    then show "set (edges ns0 p) \<inter> ?F \<subseteq> N'"
      by cases (use done_ in \<open>auto simp: N'_def found_def\<close>)
  qed
  moreover have "N' - N \<subseteq> set (edges ns0 ref) \<union> \<Union> (set ` edges ns0 ` (set (edges ns0 ref) \<inter> (?F - N)))"
    using found_table_fresh [of ns0 "?F - N" ref] by (auto simp: N'_def found_def)
  moreover have "D' \<subseteq> D \<union> {ref} \<union> tables ns0" using found_table_tables [of ns0 "?F - N" ref] by (auto simp: D'_def)
  moreover have "D \<union> {ref} \<subseteq> D'" "N \<subseteq> N'" by (auto simp: D'_def N'_def)
  ultimately show ?thesis using v(1,2) by blast
qed

end


text \<open>Nodes up to their positions.\<close>

definition alike_node :: "gc_node \<Rightarrow> gc_node \<Rightarrow> bool" where
  "alike_node x y \<longleftrightarrow> gc_refcount x = gc_refcount y \<and> gc_data x = gc_data y \<and> GC_REF_COLOR x = GC_REF_COLOR y"

definition alike :: "(u64 \<rightharpoonup> gc_node) \<Rightarrow> (u64 \<rightharpoonup> gc_node) \<Rightarrow> bool" where
  "alike m n \<longleftrightarrow> (\<forall>p. rel_option alike_node (m p) (n p))"

lemma alike_refl: "alike m m"
  by (simp add: alike_def alike_node_def option.rel_refl)

lemma alikeD:
  assumes "alike m n"
  shows "dom n = dom m" "m p = Some x \<Longrightarrow> n p = Some y \<Longrightarrow> alike_node x y"
proof -
  have r: "rel_option alike_node (m q) (n q)" for q using assms by (simp add: alike_def)
  show "m p = Some x \<Longrightarrow> n p = Some y \<Longrightarrow> alike_node x y" using r [of p] by simp
  have "n q = None \<longleftrightarrow> m q = None" for q using r [of q] by (cases "m q"; cases "n q") simp_all
  then show "dom n = dom m" by (auto simp: dom_def)
qed

lemma same_alike: "same_nodes m n \<Longrightarrow> alike m n"
  unfolding same_nodes_def alike_def
proof
  fix p assume "\<forall>p. rel_option same_node (m p) (n p)"
  then have "rel_option same_node (m p) (n p)" by blast
  then show "rel_option alike_node (m p) (n p)" by (cases "m p"; cases "n p") (simp_all add: same_node_def alike_node_def)
qed

lemma traversed_same:
  assumes t: "traversed m d ns0 ns N T" and s: "alike ns ns'"
  shows "traversed m d ns0 ns' N T"
  unfolding traversed_def
proof (intro conjI allI impI)
  have dm: "dom ns' = dom ns" using alikeD(1) [OF s] .
  show "dom ns' = dom ns0" using t dm by (simp add: traversed_def)
  fix q x0 x assume q: "ns0 q = Some x0 \<and> ns' q = Some x"
  then obtain y where y: "ns q = Some y" using dm by (metis domD domI)
  then have a: "alike_node y x" using alikeD(2) [OF s] q by blast
  obtain z where "ns q = Some z" "gc_data z = gc_data x0" "GC_REF_COLOR z = (if q \<in> N then m else GC_REF_COLOR x0)"
    "int (gc_refcount z) = int (gc_refcount x0) + d * int (T q)" using traversedD [OF t conjunct1 [OF q]] .
  then show "gc_data x = gc_data x0" "GC_REF_COLOR x = (if q \<in> N then m else GC_REF_COLOR x0)" "int (gc_refcount x) = int (gc_refcount x0) + d * int (T q)"
    using a y by (simp_all add: alike_node_def)
qed

context traversal
begin

lemma traversing_same: "traversing ns0 ns A N D \<Longrightarrow> alike ns ns' \<Longrightarrow> traversing ns0 ns' A N D"
  unfolding traversing_def using traversed_same by blast

lemma traverse_run:
  assumes cl: "closed_heap ns0" and en: "enough d ns0 (indegree (edges ns0) (fresh_in marked ns0))"
    and enter: "\<And>ref s V x. J V s \<Longrightarrow> nodes_of (fst s) ref = Some x \<Longrightarrow> GC_REF_COLOR x = m \<Longrightarrow> ref \<in> fresh_in marked ns0 \<Longrightarrow> ref \<notin> V \<Longrightarrow>
      \<exists>s'. enter ref s = Some (Inr (s', True)) \<and> J (insert ref V) s' \<and> alike (nodes_of (fst s)) (nodes_of (fst s'))"
    and keep: "\<And>w w' a V. J V (w, a) \<Longrightarrow> only_nodes w w' \<Longrightarrow> J V (w', a)"
  shows "traversing ns0 (nodes_of w) A N D \<Longrightarrow> J V (w, a) \<Longrightarrow> D \<subseteq> V \<union> tables ns0 \<Longrightarrow> V \<subseteq> D \<Longrightarrow>
    \<exists>w' a' N' V'. traverse enter touch False A (w, a) = Some (Inr (w', a')) \<and> traversing ns0 (nodes_of w') [] N' N' \<and> N \<subseteq> N'
      \<and> N' \<subseteq> reach (edges ns0) (fresh_in marked ns0) N \<and> J V' (w', a') \<and> N' \<subseteq> V' \<union> tables ns0 \<and> V' \<subseteq> N'"
proof (induction "card (fresh_in marked ns0 - D)" arbitrary: w a A N D V rule: less_induct)
  case less
  let ?F = "fresh_in marked ns0"
  note tr = less.prems(1)
  have sub: "set A \<union> D = N" "N \<subseteq> ?F" and dis: "set A \<inter> D = {}" using tr unfolding traversing_def by blast+
  show ?case
  proof (cases A)
    case Nil
    then have "D = N" using sub by simp
    then show ?thesis using Nil less.prems reach_refl [of _ N] by (subst traverse.simps) auto
  next
    case (Cons ref st)
    have t: "traversed m d ns0 (nodes_of w) N (indegree (edges ns0) D)" using tr unfolding traversing_def by blast
    have ref: "ref \<in> ?F" "ref \<in> N" "ref \<notin> D" using sub dis Cons by auto
    then obtain x0 where "ns0 ref = Some x0" by (auto simp: fresh_in_def)
    then obtain x where x: "nodes_of w ref = Some x" "GC_REF_COLOR x = m" using traversedD [OF t] ref(2) by metis
    have "ref \<notin> V" using ref(3) less.prems(4) by blast
    then obtain s1 where s1: "enter ref (w, a) = Some (Inr (s1, True))" "J (insert ref V) s1" "alike (nodes_of w) (nodes_of (fst s1))"
      using enter [OF less.prems(2), of ref x] x ref(1) by auto
    obtain w1 a1 where s1w: "s1 = (w1, a1)" by (cases s1)
    have tr1: "traversing ns0 (nodes_of w1) (ref # st) N D" using traversing_same [OF tr s1(3)] Cons s1w by simp
    obtain w2 A2 N2 D2 where v: "visit_node touch False ref st w1 = Inr (w2, A2)" "only_nodes w1 w2" "traversing ns0 (nodes_of w2) A2 N2 D2"
      "D \<union> {ref} \<subseteq> D2" "N \<subseteq> N2" "N2 - N \<subseteq> set (edges ns0 ref) \<union> \<Union> (set ` edges ns0 ` (set (edges ns0 ref) \<inter> (?F - N)))" "D2 \<subseteq> D \<union> {ref} \<union> tables ns0"
      using visit_traversing [OF tr1 cl en] by blast
    have N2: "N2 \<subseteq> ?F" "D2 \<subseteq> ?F" using v(3) unfolding traversing_def by blast+
    have fin: "finite ?F" by (rule finite_subset [OF _ closed_heapD(1) [OF cl]]) (auto simp: fresh_in_def)
    have c: "card (?F - D2) < card (?F - D)" by (rule psubset_card_mono) (use fin v(4) ref in auto)
    have j: "J (insert ref V) (w2, a1)" using keep [OF s1(2) [unfolded s1w] v(2)] .
    have dd: "D2 \<subseteq> insert ref V \<union> tables ns0" "insert ref V \<subseteq> D2" using v(4,7) less.prems(3,4) by auto
    obtain w' a' N' V' where r: "traverse enter touch False A2 (w2, a1) = Some (Inr (w', a'))" "traversing ns0 (nodes_of w') [] N' N'" "N2 \<subseteq> N'"
      "N' \<subseteq> reach (edges ns0) ?F N2" "J V' (w', a')" "N' \<subseteq> V' \<union> tables ns0" "V' \<subseteq> N'" using less.hyps [OF c v(3) j dd] by blast
    have "reach (edges ns0) ?F N2 \<subseteq> reach (edges ns0) ?F N"
    proof (rule reach_closed)
      show "N2 \<subseteq> reach (edges ns0) ?F N"
      proof
        fix q assume q: "q \<in> N2"
        show "q \<in> reach (edges ns0) ?F N"
        proof (cases "q \<in> N")
          case False
          have rr: "ref \<in> reach (edges ns0) ?F N" using ref(2) by (rule reach_refl)
          consider "q \<in> set (edges ns0 ref)" | t where "t \<in> set (edges ns0 ref)" "t \<in> ?F" "q \<in> set (edges ns0 t)" using v(6) q False by auto
          then show ?thesis
          proof cases
            case 1
            then show ?thesis using reach_step [OF rr] q N2(1) by blast
          next
            case 2
            then show ?thesis using reach_step [OF reach_step [OF rr]] q N2(1) by blast
          qed
        qed (rule reach_refl)
      qed
    qed (rule reach_step)
    then have "N' \<subseteq> reach (edges ns0) ?F N" using r(4) by blast
    moreover have "traverse enter touch False A (w, a) = Some (Inr (w', a'))" using Cons s1(1) v(1) r(1) s1w by (subst traverse.simps) simp
    ultimately show ?thesis using r v(5) by blast
  qed
qed

end


definition painted :: "u32 \<Rightarrow> gc_node \<Rightarrow> gc_node \<Rightarrow> bool" where
  "painted c x y \<longleftrightarrow> gc_data y = gc_data x \<and> gc_refcount y = gc_refcount x \<and> GC_REF_COLOR y = c"

context traversal
begin

lemma from_root:
  assumes cl: "closed_heap ns0" and en: "enough d ns0 (indegree (edges ns0) (fresh_in marked ns0))"
    and enter: "\<And>ref s V x. J V s \<Longrightarrow> nodes_of (fst s) ref = Some x \<Longrightarrow> GC_REF_COLOR x = m \<Longrightarrow> ref \<in> fresh_in marked ns0 \<Longrightarrow> ref \<notin> V \<Longrightarrow>
      \<exists>s'. enter ref s = Some (Inr (s', True)) \<and> J (insert ref V) s' \<and> alike (nodes_of (fst s)) (nodes_of (fst s'))"
    and keep: "\<And>w w' a V. J V (w, a) \<Longrightarrow> only_nodes w w' \<Longrightarrow> J V (w', a)"
    and root: "ns0 root = Some x" "\<not> marked (GC_REF_COLOR x)" and w: "nodes_of w = ns0(root \<mapsto> y)" "painted m x y" and j: "J {} (w, a)"
  defines "N \<equiv> reach (edges ns0) (fresh_in marked ns0) {root}"
  shows "\<exists>w' a' V'. traverse enter touch False [root] (w, a) = Some (Inr (w', a')) \<and> traversed m d ns0 (nodes_of w') N (indegree (edges ns0) N)
    \<and> J V' (w', a') \<and> N \<subseteq> V' \<union> tables ns0 \<and> V' \<subseteq> N \<and> N \<subseteq> fresh_in marked ns0"
proof -
  let ?F = "fresh_in marked ns0"
  have rF: "root \<in> ?F" using root by (simp add: fresh_in_def)
  have "traversed m d ns0 (nodes_of w) {root} (indegree (edges ns0) {})"
    using root w by (auto simp: traversed_def painted_def)
  then have t0: "traversing ns0 (nodes_of w) [root] {root} {}" using rF by (simp add: traversing_def)
  have "\<exists>w' a' N' V'. traverse enter touch False [root] (w, a) = Some (Inr (w', a')) \<and> traversing ns0 (nodes_of w') [] N' N' \<and> {root} \<subseteq> N'
      \<and> N' \<subseteq> reach (edges ns0) ?F {root} \<and> J V' (w', a') \<and> N' \<subseteq> V' \<union> tables ns0 \<and> V' \<subseteq> N'"
    by (rule traverse_run [where J = J and enter = enter and V = "{}", OF cl en _ _ t0 j]) (fact enter, fact keep, simp_all)
  then obtain w' a' N' V' where r: "traverse enter touch False [root] (w, a) = Some (Inr (w', a'))" "traversing ns0 (nodes_of w') [] N' N'" "{root} \<subseteq> N'"
    "N' \<subseteq> N" "J V' (w', a')" "N' \<subseteq> V' \<union> tables ns0" "V' \<subseteq> N'" unfolding N_def by blast
  have t: "traversed m d ns0 (nodes_of w') N' (indegree (edges ns0) N')" and clN: "\<And>p. p \<in> N' \<Longrightarrow> set (edges ns0 p) \<inter> ?F \<subseteq> N'" and sub: "N' \<subseteq> ?F"
    using r(2) by (simp_all add: traversing_def)
  have "N \<subseteq> N'" unfolding N_def by (rule reach_closed) (use r(3) clN in auto)
  then have "N' = N" using r(4) by blast
  then show ?thesis using r(1,5,6,7) t sub by (intro exI [of _ w'] exI [of _ a'] exI [of _ V']) simp
qed

lemma plain_from_root:
  assumes cl: "closed_heap ns0" and en: "enough d ns0 (indegree (edges ns0) (fresh_in marked ns0))"
    and root: "ns0 root = Some x" "\<not> marked (GC_REF_COLOR x)" and w: "nodes_of w = ns0(root \<mapsto> y)" "painted m x y"
  defines "N \<equiv> reach (edges ns0) (fresh_in marked ns0) {root}"
  shows "\<exists>w'. plain_result (traverse always_enter touch False [root] (w, ())) = Some (Inr w') \<and> only_nodes w w'
    \<and> traversed m d ns0 (nodes_of w') N (indegree (edges ns0) N) \<and> N \<subseteq> fresh_in marked ns0"
proof -
  define J where "J = (\<lambda>(V :: u64 set) (s :: zend_gc_globals \<times> unit). only_nodes w (fst s))"
  have "\<exists>w' a' V'. traverse always_enter touch False [root] (w, ()) = Some (Inr (w', a')) \<and> traversed m d ns0 (nodes_of w') N (indegree (edges ns0) N)
    \<and> J V' (w', a') \<and> N \<subseteq> V' \<union> tables ns0 \<and> V' \<subseteq> N \<and> N \<subseteq> fresh_in marked ns0"
    unfolding N_def
  proof (rule from_root [OF cl en _ _ root w])
    show "\<exists>s'. always_enter ref s = Some (Inr (s', True)) \<and> J (insert ref V) s' \<and> alike (nodes_of (fst s)) (nodes_of (fst s'))" if "J V s" for ref s V
      using that by (simp add: always_enter_def J_def alike_refl)
    show "J V (w', a)" if "J V (v, a)" "only_nodes v w'" for v w' a V
      using that only_nodes_trans by (simp add: J_def)
    show "J {} (w, ())" by (simp add: J_def only_nodes_refl)
  qed
  then show ?thesis unfolding J_def by (auto simp: plain_result_def)
qed

end

section \<open>The four traversals\<close>

lemmas touch_defs = touch_grey_def touch_black_def touch_white_def touch_collect_def ref_del_def ref_add_def recolor_def check_color

lemma upd_address [simp]: "GC_REF_ADDRESS (x\<lparr>gc_refcount := r\<rparr>) = GC_REF_ADDRESS x" "GC_REF_COLOR (x\<lparr>gc_refcount := r\<rparr>) = GC_REF_COLOR x"
  "info_ok (x\<lparr>gc_refcount := r\<rparr>) = info_ok x"
  by (simp_all add: GC_REF_ADDRESS_def GC_REF_COLOR_def info_ok_def)

lemma set_color_fields [simp]:
  "gc_refcount (GC_REF_SET_COLOR c x) = gc_refcount x" "gc_data (GC_REF_SET_COLOR c x) = gc_data x"
  "gc_refcount (GC_REF_SET_BLACK x) = gc_refcount x" "gc_data (GC_REF_SET_BLACK x) = gc_data x"
  by (simp_all add: GC_REF_SET_COLOR_def GC_REF_SET_BLACK_def)

interpretation grey: traversal touch_grey "\<lambda>c. c = GC_GREY" GC_GREY "-1"
proof
  fix w :: zend_gc_globals and p x assume x: "nodes_of w p = Some x" "0 \<le> int (gc_refcount x) + - 1"
  let ?r = "x\<lparr>gc_refcount := gc_refcount x - 1\<rparr>"
  let ?y = "if GC_REF_COLOR x = GC_GREY then ?r else GC_REF_SET_COLOR GC_GREY ?r"
  show "\<exists>y. touch_grey p w = Inr (w\<lparr>nodes_of := (nodes_of w)(p \<mapsto> y)\<rparr>, GC_REF_COLOR x \<noteq> GC_GREY) \<and> gc_data y = gc_data x \<and> GC_REF_ADDRESS y = GC_REF_ADDRESS x \<and> (info_ok x \<longrightarrow> info_ok y)
      \<and> GC_REF_COLOR y = (if GC_REF_COLOR x = GC_GREY then GC_REF_COLOR x else GC_GREY) \<and> int (gc_refcount y) = int (gc_refcount x) + - 1"
    using x by (intro exI [of _ ?y]) (simp add: touch_defs gc_run set_color_parts is_color info_ok_color of_nat_diff)
qed simp

interpretation black: traversal touch_black "\<lambda>c. c = GC_BLACK" GC_BLACK 1
proof
  fix w :: zend_gc_globals and p x assume x: "nodes_of w p = Some x"
  let ?r = "x\<lparr>gc_refcount := gc_refcount x + 1\<rparr>"
  let ?y = "if GC_REF_COLOR x = GC_BLACK then ?r else GC_REF_SET_BLACK ?r"
  show "\<exists>y. touch_black p w = Inr (w\<lparr>nodes_of := (nodes_of w)(p \<mapsto> y)\<rparr>, GC_REF_COLOR x \<noteq> GC_BLACK) \<and> gc_data y = gc_data x \<and> GC_REF_ADDRESS y = GC_REF_ADDRESS x \<and> (info_ok x \<longrightarrow> info_ok y)
      \<and> GC_REF_COLOR y = (if GC_REF_COLOR x = GC_BLACK then GC_REF_COLOR x else GC_BLACK) \<and> int (gc_refcount y) = int (gc_refcount x) + 1"
    using x by (intro exI [of _ ?y]) (simp add: touch_defs gc_run set_color_parts [OF is_color(1)] info_ok_color(2) [OF _ is_color(1)])
qed simp

interpretation white: traversal touch_white "\<lambda>c. c \<noteq> GC_GREY" GC_WHITE 0
proof
  fix w :: zend_gc_globals and p x assume x: "nodes_of w p = Some x"
  let ?y = "if GC_REF_COLOR x = GC_GREY then GC_REF_SET_COLOR GC_WHITE x else x"
  show "\<exists>y. touch_white p w = Inr (w\<lparr>nodes_of := (nodes_of w)(p \<mapsto> y)\<rparr>, \<not> GC_REF_COLOR x \<noteq> GC_GREY) \<and> gc_data y = gc_data x \<and> GC_REF_ADDRESS y = GC_REF_ADDRESS x \<and> (info_ok x \<longrightarrow> info_ok y)
      \<and> GC_REF_COLOR y = (if GC_REF_COLOR x \<noteq> GC_GREY then GC_REF_COLOR x else GC_WHITE) \<and> int (gc_refcount y) = int (gc_refcount x) + 0"
    using x by (intro exI [of _ ?y]) (simp add: touch_defs gc_run set_color_parts is_color info_ok_color map_upd_triv)
qed (simp add: colors_distinct)

interpretation collect: traversal touch_collect "\<lambda>c. c \<noteq> GC_WHITE" GC_BLACK 1
proof
  fix w :: zend_gc_globals and p x assume x: "nodes_of w p = Some x"
  let ?r = "x\<lparr>gc_refcount := gc_refcount x + 1\<rparr>"
  let ?y = "if GC_REF_COLOR x = GC_WHITE then GC_REF_SET_BLACK ?r else ?r"
  show "\<exists>y. touch_collect p w = Inr (w\<lparr>nodes_of := (nodes_of w)(p \<mapsto> y)\<rparr>, \<not> GC_REF_COLOR x \<noteq> GC_WHITE) \<and> gc_data y = gc_data x \<and> GC_REF_ADDRESS y = GC_REF_ADDRESS x \<and> (info_ok x \<longrightarrow> info_ok y)
      \<and> GC_REF_COLOR y = (if GC_REF_COLOR x \<noteq> GC_WHITE then GC_REF_COLOR x else GC_BLACK) \<and> int (gc_refcount y) = int (gc_refcount x) + 1"
    using x by (intro exI [of _ ?y]) (simp add: touch_defs gc_run set_color_parts [OF is_color(1)] info_ok_color(2) [OF _ is_color(1)])
qed (simp add: colors_distinct)


end
