(* ===== verification/Zend_Gc_Marking.thy ===== *)
theory Zend_Gc_Marking
  imports Zend_Gc_Traversal
begin

text \<open>
Marking and scanning the roots: after the marking the nodes that can be reached from candidates are grey and counted without the references among
  them; after the scanning those of them that nothing outside can reach are white, and all others are as they were.
\<close>

section \<open>Marking\<close>

lemma dom_Some: "dom m = dom n \<Longrightarrow> m p = Some x \<Longrightarrow> \<exists>y. n p = Some y"
  by blast

lemma traversed_at:
  assumes "traversed m d ns0 ns N T" "ns0 q = Some x0" "ns q = Some x"
  shows "gc_data x = gc_data x0" "GC_REF_COLOR x = (if q \<in> N then m else GC_REF_COLOR x0)" "int (gc_refcount x) = int (gc_refcount x0) + d * int (T q)"
  using assms unfolding traversed_def by blast+

lemma traversed_dom: "traversed m d ns0 ns N T \<Longrightarrow> dom ns = dom ns0"
  by (simp add: traversed_def)

lemma only_nodesD:
  assumes "only_nodes w w'"
  shows "gc_buf w' = gc_buf w" "gc_unused w' = gc_unused w" "first_unused w' = first_unused w" "buf_size w' = buf_size w" "num_roots w' = num_roots w"
    "dom (nodes_of w') = dom (nodes_of w)" "gc_entry w' i = gc_entry w i"
proof -
  define n where "n = nodes_of w'"
  have w': "w' = w\<lparr>nodes_of := n\<rparr>" using assms unfolding only_nodes_def n_def by blast
  show "gc_buf w' = gc_buf w" "gc_unused w' = gc_unused w" "first_unused w' = first_unused w" "buf_size w' = buf_size w" "num_roots w' = num_roots w"
    "gc_entry w' i = gc_entry w i" unfolding w' by (simp_all add: gc_entry_def)
  show "dom (nodes_of w') = dom (nodes_of w)" using assms unfolding only_nodes_def by blast
qed

lemma only_nodes_upd:
  assumes "nodes_of w p = Some x" "gc_data y = gc_data x" "GC_REF_ADDRESS y = GC_REF_ADDRESS x" "info_ok x \<Longrightarrow> info_ok y"
  shows "only_nodes w (w\<lparr>nodes_of := (nodes_of w)(p \<mapsto> y)\<rparr>)"
  using assms by (auto simp: only_nodes_def)

lemma roots_ok_cong:
  assumes ok: "roots_ok ns R" and d: "dom ns' = dom ns" and a: "\<And>p x y. ns p = Some x \<Longrightarrow> ns' p = Some y \<Longrightarrow> GC_REF_ADDRESS y = GC_REF_ADDRESS x"
  shows "roots_ok ns' R"
  unfolding roots_ok_def
proof (intro conjI allI impI)
  fix i e assume i: "R i = Some e"
  obtain x where x: "\<not> GC_IS_UNUSED e" "ns (GC_GET_PTR e) = Some x" "GC_REF_ADDRESS x = gc_compress i" using roots_okD [OF ok i] .
  then show "\<not> GC_IS_UNUSED e" by blast
  obtain y where "ns' (GC_GET_PTR e) = Some y" using dom_Some [OF d [symmetric] x(2)] by blast
  then show "\<exists>x. ns' (GC_GET_PTR e) = Some x \<and> GC_REF_ADDRESS x = gc_compress i" using a [OF x(2)] x(3) by auto
next
  fix i j e f assume "R i = Some e \<and> R j = Some f \<and> GC_GET_PTR e = GC_GET_PTR f"
  then show "i = j" using roots_ok_inj [OF ok] by blast
next
  fix p y assume y: "ns' p = Some y \<and> GC_REF_ADDRESS y \<noteq> 0"
  then obtain x where x: "ns p = Some x" using dom_Some [OF d conjunct1 [OF y]] by blast
  then have "GC_REF_ADDRESS x \<noteq> 0" using a [OF x] y by auto
  from roots_ok_cover [OF ok x this] show "\<exists>i e. R i = Some e \<and> GC_GET_PTR e = p" by blast
qed

lemma only_nodes_view:
  assumes v: "gc_view X w ul R" and o: "only_nodes w w'"
  shows "gc_view X w' ul R"
proof -
  have r: "roots_ok (nodes_of w') R"
    by (rule roots_ok_cong [OF gc_viewD(4) [OF v] only_nodesD(6) [OF o]]) (use o in \<open>auto simp: only_nodes_def\<close>)
  show ?thesis using v r only_nodesD [OF o] by (simp add: gc_view_def gc_sizes_def gc_free_list_def gc_holds_def)
qed

lemma traversed_trans:
  assumes t: "traversed m d ns0 ns N T" and u: "traversed m d ns ns' N' T'"
  shows "traversed m d ns0 ns' (N \<union> N') (\<lambda>q. T q + T' q)"
  unfolding traversed_def
proof (intro conjI allI impI)
  show "dom ns' = dom ns0" using t u by (simp add: traversed_def)
  fix q x0 x' assume q: "ns0 q = Some x0 \<and> ns' q = Some x'"
  obtain x where x: "ns q = Some x" "gc_data x = gc_data x0" "GC_REF_COLOR x = (if q \<in> N then m else GC_REF_COLOR x0)"
    "int (gc_refcount x) = int (gc_refcount x0) + d * int (T q)" using traversedD [OF t conjunct1 [OF q]] .
  obtain y where y: "ns' q = Some y" "gc_data y = gc_data x" "GC_REF_COLOR y = (if q \<in> N' then m else GC_REF_COLOR x)"
    "int (gc_refcount y) = int (gc_refcount x) + d * int (T' q)" using traversedD [OF u x(1)] .
  have "x' = y" using q y(1) by simp
  then show "gc_data x' = gc_data x0" "GC_REF_COLOR x' = (if q \<in> N \<union> N' then m else GC_REF_COLOR x0)"
    "int (gc_refcount x') = int (gc_refcount x0) + d * int (T q + T' q)" using x y by (simp_all add: algebra_simps)
qed

text \<open>The counts are at least the numbers of the references in the nodes.\<close>

definition counts_ok :: "(u64 \<rightharpoonup> gc_node) \<Rightarrow> bool" where
  "counts_ok ns \<longleftrightarrow> (\<forall>q x. ns q = Some x \<longrightarrow> indegree (edges ns) (dom ns) q \<le> gc_refcount x)"

definition closed_under :: "(u64 \<Rightarrow> u64 list) \<Rightarrow> u64 set \<Rightarrow> bool" where
  "closed_under E G \<longleftrightarrow> (\<forall>p\<in>G. set (E p) \<subseteq> G)"

text \<open>The nodes of a set are grey, and what they refer to is counted without them.\<close>

definition greyed :: "(u64 \<rightharpoonup> gc_node) \<Rightarrow> (u64 \<rightharpoonup> gc_node) \<Rightarrow> u64 set \<Rightarrow> bool" where
  "greyed ns0 ns G \<longleftrightarrow> traversed GC_GREY (-1) ns0 ns G (indegree (edges ns0) G) \<and> closed_under (edges ns0) G \<and> G \<subseteq> dom ns0"

lemma traversed_closed_heap:
  assumes cl: "closed_heap ns0" and t: "traversed m d ns0 ns N T"
  shows "closed_heap ns"
  unfolding closed_heap_def
proof (intro conjI allI impI)
  have dm: "dom ns = dom ns0" using t by (simp add: traversed_def)
  show "finite (dom ns)" using closed_heapD(1) [OF cl] dm by simp
  show "q \<in> dom ns" if "q \<in> set (edges ns p)" for p q using that closed_heapD(2) [OF cl, of p] traversed_edges [OF t] dm by auto
  fix p x tb assume p: "ns p = Some x \<and> table_of (gc_data x) = Some tb"
  then obtain x0 where x0: "ns0 p = Some x0" using dom_Some [OF dm conjunct1 [OF p]] by blast
  then have "gc_data x = gc_data x0" using traversed_at(1) [OF t x0] p by blast
  then obtain y pk es where y: "ns0 tb = Some y" "gc_data y = Gc_Array pk es" using closed_heapD(3) [OF cl x0] p by auto
  then show "\<exists>y pk es. ns tb = Some y \<and> gc_data y = Gc_Array pk es" using traversed_dom [OF t] traversed_at(1) [OF t y(1)] by (metis domD domI)
qed

lemma grey_enough:
  assumes cl: "closed_heap ns0" and co: "counts_ok ns0" and g: "greyed ns0 ns G"
  shows "enough (-1) ns (indegree (edges ns) (fresh_in (\<lambda>c. c = GC_GREY) ns))"
  unfolding enough_def
proof (intro allI impI)
  fix q x assume q: "ns q = Some x"
  let ?F = "fresh_in (\<lambda>c. c = GC_GREY) ns" and ?E = "edges ns0"
  have t: "traversed GC_GREY (-1) ns0 ns G (indegree ?E G)" and G: "G \<subseteq> dom ns0" using g by (simp_all add: greyed_def)
  have dm: "dom ns = dom ns0" using t by (simp add: traversed_def)
  obtain x0 where x0: "ns0 q = Some x0" using dom_Some [OF dm q] by blast
  have fin: "finite (dom ns0)" using closed_heapD(1) [OF cl] .
  have "?F \<subseteq> dom ns0 - G"
  proof
    fix p assume "p \<in> ?F"
    then obtain y where y: "ns p = Some y" "GC_REF_COLOR y \<noteq> GC_GREY" by (auto simp: fresh_in_def)
    then obtain y0 where y0: "ns0 p = Some y0" using dom_Some [OF dm y(1)] by blast
    then have "p \<notin> G" using traversed_at(2) [OF t y0 y(1)] y(2) by auto
    then show "p \<in> dom ns0 - G" using y0 by blast
  qed
  then have FG: "?F \<inter> G = {}" "?F \<union> G \<subseteq> dom ns0" using G by blast+
  then have "finite ?F" "finite G" using finite_subset [OF _ fin] by blast+
  then have "indegree ?E ?F q + indegree ?E G q = indegree ?E (?F \<union> G) q" using indegree_union FG(1) by metis
  also have "\<dots> \<le> indegree ?E (dom ns0) q" by (rule indegree_mono [OF fin FG(2)])
  also have "\<dots> \<le> gc_refcount x0" using co x0 unfolding counts_ok_def by blast
  finally have "indegree ?E ?F q + indegree ?E G q \<le> gc_refcount x0" .
  moreover have "int (gc_refcount x) = int (gc_refcount x0) + (-1) * int (indegree ?E G q)" using traversed_at(3) [OF t x0 q] .
  ultimately show "0 \<le> int (gc_refcount x) + (-1) * int (indegree (edges ns) ?F q)" unfolding traversed_edges [OF t] by linarith
qed


lemma reach_mono: "F \<subseteq> F' \<Longrightarrow> S \<subseteq> S' \<Longrightarrow> reach E F S \<subseteq> reach E F' S'"
proof (rule reach_closed)
  show "S \<subseteq> S' \<Longrightarrow> S \<subseteq> reach E F' S'" using reach_refl by blast
  show "q \<in> reach E F' S'" if "F \<subseteq> F'" "p \<in> reach E F' S'" "q \<in> set (E p)" "q \<in> F" for p q using reach_step [OF that(2,3)] that(1,4) by blast
qed

lemma painted_color: "is_color c \<Longrightarrow> painted c x (GC_REF_SET_COLOR c x)" "painted GC_BLACK x (GC_REF_SET_BLACK x)"
  using set_color_parts [of c x] set_color_parts [OF is_color(1), of x] by (simp_all add: painted_def)

text \<open>Between the runs of the collector all nodes are black, or purple when they are candidates.\<close>

definition gc_settled :: "(u64 \<rightharpoonup> gc_node) \<Rightarrow> bool" where
  "gc_settled ns \<longleftrightarrow> (\<forall>p x. ns p = Some x \<longrightarrow> GC_REF_COLOR x = GC_BLACK \<or> GC_REF_COLOR x = GC_PURPLE)"

lemma mark_grey_step:
  assumes se: "gc_settled ns0" and cl: "closed_heap ns0" and co: "counts_ok ns0" and g: "greyed ns0 (nodes_of w) G" and r: "nodes_of w r = Some x" "GC_REF_COLOR x \<noteq> GC_GREY"
  shows "\<exists>w' G'. gc_mark_grey r (w\<lparr>nodes_of := (nodes_of w)(r \<mapsto> GC_REF_SET_COLOR GC_GREY x)\<rparr>) = Some (Inr w') \<and> only_nodes w w' \<and> greyed ns0 (nodes_of w') G'
    \<and> G \<subseteq> G' \<and> r \<in> G' \<and> G' \<subseteq> G \<union> reach (edges ns0) UNIV {r}"
proof -
  let ?ns = "nodes_of w" and ?E = "edges ns0"
  let ?F = "fresh_in (\<lambda>c. c = GC_GREY) ?ns" and ?w1 = "w\<lparr>nodes_of := (nodes_of w)(r \<mapsto> GC_REF_SET_COLOR GC_GREY x)\<rparr>"
  have t: "traversed GC_GREY (-1) ns0 ?ns G (indegree ?E G)" and clG: "closed_under ?E G" and G: "G \<subseteq> dom ns0" using g by (simp_all add: greyed_def)
  have E: "edges ?ns = ?E" using traversed_edges [OF t] .
  have F: "?F = dom ns0 - {p \<in> dom ns0. \<exists>y. ?ns p = Some y \<and> GC_REF_COLOR y = GC_GREY}" using traversed_dom [OF t] by (auto simp: fresh_in_def)
  define N where "N = reach ?E ?F {r}"
  have w1: "nodes_of ?w1 = ?ns(r \<mapsto> GC_REF_SET_COLOR GC_GREY x)" by simp
  obtain w' where w': "gc_mark_grey r ?w1 = Some (Inr w')" "only_nodes ?w1 w'" "traversed GC_GREY (-1) ?ns (nodes_of w') N (indegree ?E N)" "N \<subseteq> ?F"
    using grey.plain_from_root [OF traversed_closed_heap [OF cl t] grey_enough [OF cl co g] r w1 painted_color(1) [OF is_color(3)]]
    unfolding gc_mark_grey_def [symmetric] E N_def [symmetric] by blast
  have on: "only_nodes w w'" using only_nodes_trans [OF only_nodes_upd [OF r(1)] w'(2)] set_color_parts [OF is_color(3)] info_ok_color(1) [OF _ is_color(3)] by simp
  have dis: "G \<inter> ?F = {}"
  proof (rule ccontr)
    assume "G \<inter> ?F \<noteq> {}"
    then obtain p y where p: "p \<in> G" "?ns p = Some y" "GC_REF_COLOR y \<noteq> GC_GREY" by (auto simp: fresh_in_def)
    then obtain y0 where "ns0 p = Some y0" using G by blast
    then show False using traversed_at(2) [OF t _ p(2)] p by auto
  qed
  have fin: "finite (dom ns0)" using closed_heapD(1) [OF cl] .
  have Nd: "N \<subseteq> dom ns0" using w'(4) unfolding F by blast
  have "(\<lambda>q. indegree ?E G q + indegree ?E N q) = indegree ?E (G \<union> N)"
    by (rule ext, rule indegree_union [symmetric]) (use finite_subset [OF G fin] finite_subset [OF Nd fin] dis w'(4) in auto)
  then have tr: "traversed GC_GREY (-1) ns0 (nodes_of w') (G \<union> N) (indegree ?E (G \<union> N))" using traversed_trans [OF t w'(3)] by simp
  have "set (?E p) \<subseteq> G \<union> N" if p: "p \<in> N" for p
  proof
    fix q assume q: "q \<in> set (?E p)"
    then have qd: "q \<in> dom ns0" using closed_heapD(2) [OF cl] by blast
    show "q \<in> G \<union> N"
    proof (cases "q \<in> ?F")
      case True
      then show ?thesis using reach_step [of p ?E ?F "{r}" q] p q by (simp add: N_def)
    next
      case False
      then obtain y y0 where y: "?ns q = Some y" "GC_REF_COLOR y = GC_GREY" "ns0 q = Some y0" using qd unfolding F by blast
      show ?thesis
      proof (rule ccontr)
        assume "q \<notin> G \<union> N"
        then have "GC_REF_COLOR y0 = GC_GREY" using traversed_at(2) [OF t y(3,1)] y(2) by simp
        moreover have "GC_REF_COLOR y0 = GC_BLACK \<or> GC_REF_COLOR y0 = GC_PURPLE" using se y(3) unfolding gc_settled_def by blast
        ultimately show False using colors_distinct by metis
      qed
    qed
  qed
  then have "closed_under ?E (G \<union> N)" using clG unfolding closed_under_def by blast
  moreover have "N \<subseteq> reach ?E UNIV {r}" unfolding N_def by (rule reach_mono) auto
  moreover have "r \<in> N" unfolding N_def by (rule reach_refl) simp
  ultimately show ?thesis using w'(1) on tr G Nd by (intro exI [of _ w'] exI [of _ "G \<union> N"]) (auto simp: greyed_def)
qed

definition purple :: "(u64 \<rightharpoonup> gc_node) \<Rightarrow> u64 set" where
  "purple ns = {p. \<exists>x. ns p = Some x \<and> GC_REF_COLOR x = GC_PURPLE}"

lemma reach_trans: "S' \<subseteq> reach E F S \<Longrightarrow> reach E F S' \<subseteq> reach E F S"
  by (rule reach_closed) (auto intro: reach_step)

lemma trace_root_skip: "\<not> GC_IS_ROOT e \<Longrightarrow> trace_root old new tr i e s = Some (Inr s)"
  "GC_IS_ROOT e \<Longrightarrow> nodes_of (fst s) e = Some x \<Longrightarrow> GC_REF_COLOR x \<noteq> old \<Longrightarrow> trace_root old new tr i e s = Some (Inr s)"
  by (simp_all add: trace_root_def gc_then_def gc_node_at_Some check_color)

lemma trace_root_go:
  "GC_IS_ROOT e \<Longrightarrow> nodes_of w e = Some x \<Longrightarrow> GC_REF_COLOR x = old \<Longrightarrow> tr e (w\<lparr>nodes_of := (nodes_of w)(e \<mapsto> GC_REF_SET_COLOR new x)\<rparr>) = Some (Inr w') \<Longrightarrow>
    trace_root old new tr i e (w, u) = Some (Inr (w', ()))"
  by (simp add: trace_root_def gc_then_def gc_node_at_Some gc_upd_Some check_color)

text \<open>The entries at some positions are the nodes of a list, or tagged.\<close>

definition entries_at :: "zend_gc_globals \<Rightarrow> nat list \<Rightarrow> u64 set \<Rightarrow> bool" where
  "entries_at w is S \<longleftrightarrow> (\<forall>i\<in>set is. \<exists>e. gc_entry w i = Inr e \<and> (GC_IS_ROOT e \<longrightarrow> e \<in> dom (nodes_of w))) \<and> S \<subseteq> {e. GC_IS_ROOT e \<and> (\<exists>i\<in>set is. gc_entry w i = Inr e)}"

lemma mark_loop_run:
  assumes se: "gc_settled ns0" and cl: "closed_heap ns0" and co: "counts_ok ns0"
  shows "entries_at w is S \<Longrightarrow> greyed ns0 (nodes_of w) G \<Longrightarrow>
    \<exists>w' G'. each_entry (trace_root GC_PURPLE GC_GREY gc_mark_grey) is (w, ()) = Some (Inr (w', ())) \<and> only_nodes w w' \<and> greyed ns0 (nodes_of w') G'
      \<and> G \<subseteq> G' \<and> S \<inter> purple ns0 \<subseteq> G' \<and> G' \<subseteq> G \<union> reach (edges ns0) UNIV (purple ns0)"
proof (induction "is" arbitrary: w G S)
  case Nil
  then have "S = {}" by (simp add: entries_at_def)
  then show ?case using Nil by (auto intro: only_nodes_refl)
next
  case (Cons i "is")
  let ?E = "edges ns0" and ?tr = "trace_root GC_PURPLE GC_GREY gc_mark_grey"
  obtain e where e: "gc_entry w i = Inr e" "GC_IS_ROOT e \<Longrightarrow> e \<in> dom (nodes_of w)" using Cons.prems(1) by (auto simp: entries_at_def)
  have tr: "traversed GC_GREY (-1) ns0 (nodes_of w) G (indegree ?E G)" using Cons.prems(2) by (simp add: greyed_def)
  then have dm: "dom (nodes_of w) = dom ns0" by (rule traversed_dom)
  have "\<exists>w1 G1. ?tr i e (w, ()) = Some (Inr (w1, ())) \<and> only_nodes w w1 \<and> greyed ns0 (nodes_of w1) G1 \<and> G \<subseteq> G1 \<and> (GC_IS_ROOT e \<longrightarrow> {e} \<inter> purple ns0 \<subseteq> G1)
      \<and> G1 \<subseteq> G \<union> reach ?E UNIV (purple ns0)"
  proof (cases "GC_IS_ROOT e \<and> e \<in> purple ns0 - G")
    case True
    then obtain x0 x where x: "ns0 e = Some x0" "GC_REF_COLOR x0 = GC_PURPLE" "nodes_of w e = Some x" using e(2) by (auto simp: purple_def)
    then have col: "GC_REF_COLOR x = GC_PURPLE" using traversed_at(2) [OF tr x(1,3)] True by simp
    then have "GC_REF_COLOR x \<noteq> GC_GREY" using colors_distinct by metis
    from mark_grey_step [OF se cl co Cons.prems(2) x(3) this] obtain w1 G1 where w1:
      "gc_mark_grey e (w\<lparr>nodes_of := (nodes_of w)(e \<mapsto> GC_REF_SET_COLOR GC_GREY x)\<rparr>) = Some (Inr w1)" "only_nodes w w1" "greyed ns0 (nodes_of w1) G1"
      "G \<subseteq> G1" "e \<in> G1" "G1 \<subseteq> G \<union> reach ?E UNIV {e}" by blast
    have "reach ?E UNIV {e} \<subseteq> reach ?E UNIV (purple ns0)" using True by (intro reach_mono) auto
    then have "G1 \<subseteq> G \<union> reach ?E UNIV (purple ns0)" using w1(6) by blast
    then show ?thesis using trace_root_go [where tr = gc_mark_grey and new = GC_GREY, OF conjunct1 [OF True] x(3) col w1(1)] w1(2-5) by blast
  next
    case False
    have "?tr i e (w, ()) = Some (Inr (w, ()))"
    proof (cases "GC_IS_ROOT e")
      case root: True
      then obtain x where x: "nodes_of w e = Some x" using e(2) by blast
      then obtain x0 where x0: "ns0 e = Some x0" using dom_Some [OF dm] by blast
      have "GC_REF_COLOR x \<noteq> GC_PURPLE"
      proof (cases "e \<in> G")
        case True
        then show ?thesis using traversed_at(2) [OF tr x0 x] colors_distinct by simp
      next
        case no: False
        then have "e \<notin> purple ns0" using root False by blast
        then show ?thesis using traversed_at(2) [OF tr x0 x] no x0 by (simp add: purple_def)
      qed
      then show ?thesis using trace_root_skip(2) [OF root] x by simp
    qed (rule trace_root_skip(1))
    moreover have "GC_IS_ROOT e \<longrightarrow> {e} \<inter> purple ns0 \<subseteq> G" using False by blast
    ultimately show ?thesis using Cons.prems(2) only_nodes_refl by blast
  qed
  then obtain w1 G1 where w1: "?tr i e (w, ()) = Some (Inr (w1, ()))" "only_nodes w w1" "greyed ns0 (nodes_of w1) G1" "G \<subseteq> G1"
    "GC_IS_ROOT e \<longrightarrow> {e} \<inter> purple ns0 \<subseteq> G1" "G1 \<subseteq> G \<union> reach ?E UNIV (purple ns0)" by blast
  have S: "entries_at w1 is {p. GC_IS_ROOT p \<and> (\<exists>i\<in>set is. gc_entry w1 i = Inr p)}"
    using Cons.prems(1) only_nodesD(6,7) [OF w1(2)] by (simp add: entries_at_def)
  obtain w' G' where r: "each_entry ?tr is (w1, ()) = Some (Inr (w', ()))" "only_nodes w1 w'" "greyed ns0 (nodes_of w') G'" "G1 \<subseteq> G'"
    "{p. GC_IS_ROOT p \<and> (\<exists>i\<in>set is. gc_entry w1 i = Inr p)} \<inter> purple ns0 \<subseteq> G'" "G' \<subseteq> G1 \<union> reach ?E UNIV (purple ns0)" using Cons.IH [OF S w1(3)] by blast
  have "S \<inter> purple ns0 \<subseteq> G'"
  proof
    fix p assume p: "p \<in> S \<inter> purple ns0"
    then have "GC_IS_ROOT p" and "p = e \<or> (\<exists>i\<in>set is. gc_entry w1 i = Inr p)" using Cons.prems(1) e(1) only_nodesD(7) [OF w1(2)] by (auto simp: entries_at_def)
    then show "p \<in> G'" using p w1(5) r(4,5) by blast
  qed
  moreover have "each_entry ?tr (i # is) (w, ()) = Some (Inr (w', ()))" using e(1) w1(1) r(1) by simp
  moreover have "G' \<subseteq> G \<union> reach ?E UNIV (purple ns0)" "G \<subseteq> G'" using r(4,6) w1(4,6) by blast+
  ultimately show ?case using only_nodes_trans [OF w1(2) r(2)] r(3) by blast
qed


lemma alike_edges: "alike m n \<Longrightarrow> edges n = edges m"
proof
  fix p assume a: "alike m n"
  then have r: "rel_option alike_node (m p) (n p)" by (simp add: alike_def)
  show "edges n p = edges m p" using r by (cases "m p"; cases "n p") (simp_all add: edges_def alike_node_def)
qed

lemma alike_at:
  assumes "alike m n" "n p = Some y"
  obtains x where "m p = Some x" "gc_data y = gc_data x" "gc_refcount y = gc_refcount x" "GC_REF_COLOR y = GC_REF_COLOR x"
proof -
  have "rel_option alike_node (m p) (n p)" using assms(1) by (simp add: alike_def)
  then show thesis using that assms(2) by (cases "m p") (simp_all add: alike_node_def)
qed

lemma alike_sym: "alike m n \<Longrightarrow> alike n m"
  unfolding alike_def
proof
  fix p assume "\<forall>p. rel_option alike_node (m p) (n p)"
  then have "rel_option alike_node (m p) (n p)" by blast
  then show "rel_option alike_node (n p) (m p)" by (cases "m p"; cases "n p") (simp_all add: alike_node_def)
qed

text \<open>The heap that the collector is run on.\<close>

definition heap_ok :: "(u64 \<rightharpoonup> gc_node) \<Rightarrow> bool" where
  "heap_ok ns \<longleftrightarrow> gc_settled ns \<and> closed_heap ns \<and> counts_ok ns"

lemma alike_heap:
  assumes a: "alike m n" and h: "heap_ok m"
  shows "heap_ok n" "purple n = purple m"
proof -
  have s: "gc_settled m" "closed_heap m" "counts_ok m" using h by (simp_all add: heap_ok_def)
  have "gc_settled n" unfolding gc_settled_def using s(1) alike_at [OF a] unfolding gc_settled_def by metis
  moreover have "counts_ok n" unfolding counts_ok_def alike_edges [OF a] alikeD(1) [OF a]
  proof (intro allI impI)
    fix q y assume "n q = Some y"
    then obtain x where "m q = Some x" "gc_refcount y = gc_refcount x" using alike_at [OF a] by metis
    then show "indegree (edges m) (dom m) q \<le> gc_refcount y" using s(3) unfolding counts_ok_def by simp
  qed
  moreover have "closed_heap n" unfolding closed_heap_def
  proof (intro conjI allI impI)
    show "finite (dom n)" using closed_heapD(1) [OF s(2)] alikeD(1) [OF a] by simp
    show "q \<in> dom n" if "q \<in> set (edges n p)" for p q using that closed_heapD(2) [OF s(2), of p] alikeD(1) [OF a] alike_edges [OF a] by auto
    fix p y t assume y: "n p = Some y \<and> table_of (gc_data y) = Some t"
    obtain x where x: "m p = Some x" "gc_data y = gc_data x" "gc_refcount y = gc_refcount x" "GC_REF_COLOR y = GC_REF_COLOR x" using alike_at [OF a conjunct1 [OF y]] .
    then have "table_of (gc_data x) = Some t" using y by simp
    from closed_heapD(3) [OF s(2) x(1) this] obtain z pk es where z: "m t = Some z" "gc_data z = Gc_Array pk es" by blast
    obtain z' where "n t = Some z'" "gc_data z = gc_data z'" "gc_refcount z = gc_refcount z'" "GC_REF_COLOR z = GC_REF_COLOR z'"
      using alike_at [OF alike_sym [OF a] z(1)] .
    then show "\<exists>z pk es. n t = Some z \<and> gc_data z = Gc_Array pk es" using z(2) by (intro exI [of _ z'] exI [of _ pk] exI [of _ es]) simp
  qed
  ultimately show "heap_ok n" by (simp add: heap_ok_def)
  have sub: "purple b \<subseteq> purple c" if bc: "alike c b" for b c
  proof
    fix p assume "p \<in> purple b"
    then obtain y where y: "b p = Some y" "GC_REF_COLOR y = GC_PURPLE" by (auto simp: purple_def)
    obtain x where "c p = Some x" "gc_data y = gc_data x" "gc_refcount y = gc_refcount x" "GC_REF_COLOR y = GC_REF_COLOR x" using alike_at [OF bc y(1)] .
    then show "p \<in> purple c" using y(2) by (simp add: purple_def)
  qed
  show "purple n = purple m" using sub [OF a] sub [OF alike_sym [OF a]] by blast
qed

lemma is_root_aligned: "GC_IS_ROOT e \<longleftrightarrow> aligned e"
  by (simp add: GC_IS_ROOT_def aligned_def GC_ROOT_def)

lemma root_ptr: "GC_IS_ROOT e \<Longrightarrow> GC_GET_PTR e = e"
  using aligned_tags(1) by (simp add: is_root_aligned)

lemma view_entry: "gc_view X w ul R \<Longrightarrow> R i = Some e \<Longrightarrow> gc_entry w i = Inr e"
  using gc_viewD(8) gc_entry_Some by blast

lemma view_positions: "gc_view {} w [] R \<Longrightarrow> dom R = set [GC_FIRST_ROOT ..< first_unused w]"
  using gc_viewD(3) [of "{}" w "[]" R] by (auto simp: gc_holds_def GC_FIRST_ROOT_def)

lemma view_entries:
  assumes v: "gc_view {} w [] R" and S: "S \<subseteq> root_set R" and r: "\<forall>e\<in>ran R. GC_IS_ROOT e"
  shows "entries_at w [GC_FIRST_ROOT ..< first_unused w] S"
proof -
  have at: "\<exists>e. gc_entry w i = Inr e \<and> (GC_IS_ROOT e \<longrightarrow> e \<in> dom (nodes_of w))" if i: "i \<in> dom R" for i
  proof -
    obtain e where e: "R i = Some e" using i by blast
    then obtain x where "nodes_of w (GC_GET_PTR e) = Some x" using roots_okD [OF gc_viewD(4) [OF v]] by metis
    moreover have "GC_GET_PTR e = e" using r e root_ptr by (auto simp: ran_def)
    ultimately show ?thesis using view_entry [OF v e] by auto
  qed
  have rt: "\<exists>i\<in>dom R. gc_entry w i = Inr p \<and> GC_IS_ROOT p" if p: "p \<in> S" for p
  proof -
    have "p \<in> root_set R" using p S by blast
    then obtain i e where e: "R i = Some e" "GC_GET_PTR e = p" by (auto simp: root_set_mem)
    moreover have "GC_GET_PTR e = e" "GC_IS_ROOT e" using r e root_ptr by (auto simp: ran_def)
    ultimately show ?thesis using view_entry [OF v e(1)] by auto
  qed
  show ?thesis unfolding entries_at_def view_positions [OF v, symmetric]
  proof (intro conjI ballI subsetI)
    show "p \<in> {e. GC_IS_ROOT e \<and> (\<exists>i\<in>dom R. gc_entry w i = Inr e)}" if "p \<in> S" for p using rt [OF that] by blast
  qed (rule at)
qed

lemma root_set_ran: "root_set R = GC_GET_PTR ` ran R"
  by (auto simp: root_set_def ran_def)

lemma greyed_start: "greyed ns ns {}"
  by (auto simp: greyed_def closed_under_def traversed_def)

lemma greyed_reach:
  assumes "greyed ns0 ns G" "S \<subseteq> G" "G \<subseteq> reach (edges ns0) UNIV S"
  shows "G = reach (edges ns0) UNIV S"
proof -
  have "reach (edges ns0) UNIV S \<subseteq> G" by (rule reach_closed) (use assms in \<open>auto simp: greyed_def closed_under_def\<close>)
  then show ?thesis using assms(3) by blast
qed

definition infos :: "(u64 \<rightharpoonup> gc_node) \<Rightarrow> bool" where
  "infos ns \<longleftrightarrow> (\<forall>p x. ns p = Some x \<longrightarrow> info_ok x)"

lemma infos_only_nodes: "infos (nodes_of w) \<Longrightarrow> only_nodes w w' \<Longrightarrow> infos (nodes_of w')"
  unfolding infos_def
proof (intro allI impI)
  fix p y assume i: "\<forall>p x. nodes_of w p = Some x \<longrightarrow> info_ok x" and o: "only_nodes w w'" and y: "nodes_of w' p = Some y"
  obtain x where "nodes_of w p = Some x" using dom_Some [OF only_nodesD(6) [OF o] y] by blast
  then show "info_ok y" using i o y unfolding only_nodes_def by blast
qed

lemma infos_same: "infos m \<Longrightarrow> same_nodes m n \<Longrightarrow> infos n"
  unfolding infos_def
proof (intro allI impI)
  fix p y assume i: "\<forall>p x. m p = Some x \<longrightarrow> info_ok x" and s: "same_nodes m n" and y: "n p = Some y"
  have "rel_option same_node (m p) (n p)" using s by (simp add: same_nodes_def)
  then show "info_ok y" using i y by (cases "m p") (auto simp: same_node_def)
qed

lemma infos_upd: "infos m \<Longrightarrow> info_ok y \<Longrightarrow> infos (m(p \<mapsto> y))"
  by (simp add: infos_def)

lemma mark_roots_run:
  assumes v: "gc_view {} w ul R" and h: "heap_ok (nodes_of w)" and r: "\<forall>e\<in>ran R. GC_IS_ROOT e" and p: "purple (nodes_of w) \<subseteq> root_set R"
    and inf: "infos (nodes_of w)"
  shows "\<exists>w' R' ns. gc_mark_roots w = Some (Inr w') \<and> gc_view {} w' [] R' \<and> ran R' = ran R \<and> alike (nodes_of w) ns
    \<and> greyed ns (nodes_of w') (reach (edges (nodes_of w)) UNIV (purple (nodes_of w))) \<and> infos (nodes_of w')"
proof -
  obtain w1 R1 where w1: "gc_compact w = Inr w1" "gc_view {} w1 [] R1" "ran R1 = ran R" "same_nodes (nodes_of w) (nodes_of w1)" using compact_run [OF v] by blast
  have al: "alike (nodes_of w) (nodes_of w1)" using same_alike [OF w1(4)] .
  note h1 = alike_heap [OF al h]
  have s: "gc_settled (nodes_of w1)" "closed_heap (nodes_of w1)" "counts_ok (nodes_of w1)" using h1 by (simp_all add: heap_ok_def)
  have "purple (nodes_of w1) \<subseteq> root_set R1" using p h1(2) w1(3) by (simp add: root_set_ran)
  then have en: "entries_at w1 [GC_FIRST_ROOT ..< first_unused w1] (purple (nodes_of w1))" using view_entries [OF w1(2)] r w1(3) by metis
  from mark_loop_run [OF s en greyed_start]
  obtain w' G where w': "each_entry (trace_root GC_PURPLE GC_GREY gc_mark_grey) [GC_FIRST_ROOT ..< first_unused w1] (w1, ()) = Some (Inr (w', ()))" "only_nodes w1 w'"
    "greyed (nodes_of w1) (nodes_of w') G" "purple (nodes_of w1) \<subseteq> G" "G \<subseteq> reach (edges (nodes_of w1)) UNIV (purple (nodes_of w1))" by auto
  have "G = reach (edges (nodes_of w)) UNIV (purple (nodes_of w))" using greyed_reach [OF w'(3-5)] h1(2) alike_edges [OF al] by simp
  moreover have "gc_mark_roots w = Some (Inr w')" using w1(1) w'(1) by (simp add: gc_mark_roots_def gc_then_def plain_result_def)
  ultimately show ?thesis using only_nodes_view [OF w1(2) w'(2)] w1(3) w'(3) al infos_only_nodes [OF infos_same [OF inf w1(4)] w'(2)] by auto
qed


section \<open>Scanning\<close>

definition shade :: "(u64 \<rightharpoonup> gc_node) \<Rightarrow> u64 set \<Rightarrow> u64 set \<Rightarrow> bool" where
  "shade ns W H \<longleftrightarrow> (\<forall>p x. ns p = Some x \<longrightarrow> GC_REF_COLOR x = (if p \<in> W then GC_WHITE else if p \<in> H then GC_GREY else GC_BLACK))"

text \<open>The references from the nodes of a set are not counted.\<close>

definition owed :: "(u64 \<rightharpoonup> gc_node) \<Rightarrow> (u64 \<rightharpoonup> gc_node) \<Rightarrow> u64 set \<Rightarrow> bool" where
  "owed ns0 ns Y \<longleftrightarrow> dom ns = dom ns0 \<and> (\<forall>q x0 x. ns0 q = Some x0 \<and> ns q = Some x \<longrightarrow>
     gc_data x = gc_data x0 \<and> int (gc_refcount x) = int (gc_refcount x0) - int (indegree (edges ns0) Y q))"

definition all_from :: "(u64 \<rightharpoonup> gc_node) \<Rightarrow> u64 set \<Rightarrow> u64 \<Rightarrow> bool" where
  "all_from ns Y q \<longleftrightarrow> (\<exists>x. ns q = Some x \<and> gc_refcount x = indegree (edges ns) Y q)"

text \<open>The nodes that are referred to from outside a set.\<close>

definition outside_refs :: "(u64 \<rightharpoonup> gc_node) \<Rightarrow> u64 set \<Rightarrow> u64 set" where
  "outside_refs ns G = {q \<in> G. \<exists>x. ns q = Some x \<and> indegree (edges ns) G q < gc_refcount x}"

definition scanning :: "(u64 \<rightharpoonup> gc_node) \<Rightarrow> u64 set \<Rightarrow> (u64 \<rightharpoonup> gc_node) \<Rightarrow> u64 set \<Rightarrow> u64 set \<Rightarrow> u64 set \<Rightarrow> bool" where
  "scanning ns0 G ns A W H \<longleftrightarrow> shade ns W H \<and> W \<inter> H = {} \<and> owed ns0 ns (W \<union> H) \<and> W \<union> H \<subseteq> G \<and> G \<subseteq> dom ns0 \<and> closed_under (edges ns0) G
     \<and> (\<forall>p\<in>G - (W \<union> H). set (edges ns0 p) \<inter> (W \<union> H) = {})
     \<and> (\<forall>p\<in>W - A. all_from ns0 (W \<union> H) p \<and> set (edges ns0 p) \<inter> H = {})
     \<and> A \<subseteq> G \<and> G - (W \<union> H) \<subseteq> reach (edges ns0) UNIV (outside_refs ns0 G)"

lemma scanningD:
  assumes "scanning ns0 G ns A W H"
  shows "shade ns W H" "W \<inter> H = {}" "owed ns0 ns (W \<union> H)" "W \<union> H \<subseteq> G" "G \<subseteq> dom ns0" "closed_under (edges ns0) G"
    "\<And>p. p \<in> G - (W \<union> H) \<Longrightarrow> set (edges ns0 p) \<inter> (W \<union> H) = {}"
    "\<And>p. p \<in> W - A \<Longrightarrow> all_from ns0 (W \<union> H) p \<and> set (edges ns0 p) \<inter> H = {}"
    "A \<subseteq> G" "G - (W \<union> H) \<subseteq> reach (edges ns0) UNIV (outside_refs ns0 G)"
  using assms unfolding scanning_def by blast+

lemma owedD:
  assumes "owed ns0 ns Y"
  shows "dom ns = dom ns0" "ns0 q = Some x0 \<Longrightarrow> ns q = Some x \<Longrightarrow> gc_data x = gc_data x0"
    "ns0 q = Some x0 \<Longrightarrow> ns q = Some x \<Longrightarrow> int (gc_refcount x) = int (gc_refcount x0) - int (indegree (edges ns0) Y q)"
  using assms unfolding owed_def by blast+

lemma owed_edges: "owed ns0 ns Y \<Longrightarrow> edges ns = edges ns0"
proof
  fix p assume o: "owed ns0 ns Y"
  show "edges ns p = edges ns0 p"
  proof (cases "ns0 p")
    case None
    then have "ns p = None" using owedD(1) [OF o] by auto
    then show ?thesis using None by (simp add: edges_def)
  next
    case (Some x0)
    then obtain x where "ns p = Some x" using dom_Some [OF owedD(1) [OF o, symmetric]] by blast
    then show ?thesis using Some owedD(2) [OF o Some] by (simp add: edges_def)
  qed
qed

lemma owed_closed_heap:
  assumes cl: "closed_heap ns0" and o: "owed ns0 ns Y"
  shows "closed_heap ns"
  unfolding closed_heap_def
proof (intro conjI allI impI)
  show "finite (dom ns)" using closed_heapD(1) [OF cl] owedD(1) [OF o] by simp
  show "q \<in> dom ns" if "q \<in> set (edges ns p)" for p q using that closed_heapD(2) [OF cl, of p] owed_edges [OF o] owedD(1) [OF o] by auto
  fix p x tb assume p: "ns p = Some x \<and> table_of (gc_data x) = Some tb"
  then obtain x0 where x0: "ns0 p = Some x0" using dom_Some [OF owedD(1) [OF o] conjunct1 [OF p]] by blast
  then have "table_of (gc_data x0) = Some tb" using owedD(2) [OF o x0] p by simp
  from closed_heapD(3) [OF cl x0 this] obtain y pk es where y: "ns0 tb = Some y" "gc_data y = Gc_Array pk es" by blast
  then obtain z where "ns tb = Some z" using dom_Some [OF owedD(1) [OF o, symmetric]] by blast
  then show "\<exists>y pk es. ns tb = Some y \<and> gc_data y = Gc_Array pk es" using owedD(2) [OF o y(1)] y(2) by auto
qed

lemma shade_fresh:
  assumes s: "shade ns W H" and d: "W \<union> H \<subseteq> dom ns"
  shows "fresh_in (\<lambda>c. c = GC_BLACK) ns = W \<union> H" "W \<inter> H = {} \<Longrightarrow> fresh_in (\<lambda>c. c \<noteq> GC_GREY) ns = H" "fresh_in (\<lambda>c. c \<noteq> GC_WHITE) ns = W"
proof -
  have c: "GC_REF_COLOR x = (if p \<in> W then GC_WHITE else if p \<in> H then GC_GREY else GC_BLACK)" if "ns p = Some x" for p x
    using s that unfolding shade_def by blast
  have f: "fresh_in M ns = {p \<in> dom ns. \<not> M (if p \<in> W then GC_WHITE else if p \<in> H then GC_GREY else GC_BLACK)}" for M
  proof (rule set_eqI)
    show "p \<in> fresh_in M ns \<longleftrightarrow> p \<in> {p \<in> dom ns. \<not> M (if p \<in> W then GC_WHITE else if p \<in> H then GC_GREY else GC_BLACK)}" for p
      using c [of p] by (cases "ns p") (auto simp: fresh_in_def)
  qed
  note n = colors_distinct not_sym [OF colors_distinct(1)] not_sym [OF colors_distinct(2)] not_sym [OF colors_distinct(4)]
  show "fresh_in (\<lambda>c. c = GC_BLACK) ns = W \<union> H"
    unfolding f
  proof (rule set_eqI)
    show "p \<in> {p \<in> dom ns. \<not> (if p \<in> W then GC_WHITE else if p \<in> H then GC_GREY else GC_BLACK) = GC_BLACK} \<longleftrightarrow> p \<in> W \<union> H" for p
      using d n by (cases "p \<in> W"; cases "p \<in> H") auto
  qed
  show "fresh_in (\<lambda>c. c \<noteq> GC_GREY) ns = H" if "W \<inter> H = {}"
    unfolding f
  proof (rule set_eqI)
    show "p \<in> {p \<in> dom ns. \<not> (if p \<in> W then GC_WHITE else if p \<in> H then GC_GREY else GC_BLACK) \<noteq> GC_GREY} \<longleftrightarrow> p \<in> H" for p
      using d n that by (cases "p \<in> W"; cases "p \<in> H") auto
  qed
  show "fresh_in (\<lambda>c. c \<noteq> GC_WHITE) ns = W"
    unfolding f
  proof (rule set_eqI)
    show "p \<in> {p \<in> dom ns. \<not> (if p \<in> W then GC_WHITE else if p \<in> H then GC_GREY else GC_BLACK) \<noteq> GC_WHITE} \<longleftrightarrow> p \<in> W" for p
      using d n by (cases "p \<in> W"; cases "p \<in> H") auto
  qed
qed

lemma indegree_diff: "finite Y \<Longrightarrow> N \<subseteq> Y \<Longrightarrow> indegree E Y q = indegree E (Y - N) q + indegree E N q"
  unfolding indegree_def by (rule sum.subset_diff)

text \<open>What a traversal does to colours and counts.\<close>

lemma shade_black:
  assumes s: "shade ns W H" and t: "traversed GC_BLACK d ns ns' N T" and N: "N \<subseteq> W \<union> H"
  shows "shade ns' (W - N) (H - N)"
  unfolding shade_def
proof (intro allI impI)
  fix p y assume y: "ns' p = Some y"
  then obtain z where z: "ns p = Some z" using dom_Some [OF traversed_dom [OF t]] by blast
  have "GC_REF_COLOR z = (if p \<in> W then GC_WHITE else if p \<in> H then GC_GREY else GC_BLACK)" using s z unfolding shade_def by blast
  then show "GC_REF_COLOR y = (if p \<in> W - N then GC_WHITE else if p \<in> H - N then GC_GREY else GC_BLACK)"
    using traversed_at(2) [OF t z y] N by auto
qed

lemma shade_white:
  assumes s: "shade ns W H" and t: "traversed GC_WHITE d ns ns' (F \<inter> H) T"
  shows "shade ns' (W \<union> (F \<inter> H)) (H - F)"
  unfolding shade_def
proof (intro allI impI)
  fix p y assume y: "ns' p = Some y"
  then obtain z where z: "ns p = Some z" using dom_Some [OF traversed_dom [OF t]] by blast
  have "GC_REF_COLOR z = (if p \<in> W then GC_WHITE else if p \<in> H then GC_GREY else GC_BLACK)" using s z unfolding shade_def by blast
  then show "GC_REF_COLOR y = (if p \<in> W \<union> (F \<inter> H) then GC_WHITE else if p \<in> H - F then GC_GREY else GC_BLACK)"
    using traversed_at(2) [OF t z y] by auto
qed

lemma owed_traversed:
  assumes o: "owed ns0 ns Y" and t: "traversed m d ns ns' N T" and deg: "\<And>q. d * int (T q) = int (indegree (edges ns0) Y q) - int (indegree (edges ns0) Y' q)"
  shows "owed ns0 ns' Y'"
  unfolding owed_def
proof (intro conjI allI impI)
  show "dom ns' = dom ns0" using traversed_dom [OF t] owedD(1) [OF o] by simp
  fix q x0 y assume q: "ns0 q = Some x0 \<and> ns' q = Some y"
  then obtain z where z: "ns q = Some z" using dom_Some [OF traversed_dom [OF t]] by blast
  show "gc_data y = gc_data x0" using traversed_at(1) [OF t z] owedD(2) [OF o _ z] q by simp
  show "int (gc_refcount y) = int (gc_refcount x0) - int (indegree (edges ns0) Y' q)"
    using traversed_at(3) [OF t z] owedD(3) [OF o _ z] q deg [of q] by simp
qed

lemma indegree_zero: "(\<And>p. p \<in> D \<Longrightarrow> q \<notin> set (E p)) \<Longrightarrow> indegree E D q = 0"
  by (simp add: indegree_def count_list_0_iff)

text \<open>A white node that still has references is referred to from outside.\<close>

lemma scanning_held:
  assumes cl: "closed_heap ns0" and s: "scanning ns0 G ns A W H" and r: "r \<in> W" "ns r = Some x" "gc_refcount x > 0"
  shows "r \<in> outside_refs ns0 G"
proof -
  note s = scanningD [OF s]
  let ?E = "edges ns0" and ?Y = "W \<union> H"
  obtain x0 where x0: "ns0 r = Some x0" using r(1) s(4,5) by blast
  have lt: "indegree ?E ?Y r < gc_refcount x0" using owedD(3) [OF s(3) x0 r(2)] r(3) by linarith
  have "indegree ?E (G - ?Y) r = 0" using s(7) r(1) by (intro indegree_zero) blast
  moreover have "indegree ?E G r = indegree ?E (G - ?Y) r + indegree ?E ?Y r"
    by (rule indegree_diff) (use finite_subset [OF s(5) closed_heapD(1) [OF cl]] s(4) in auto)
  ultimately show ?thesis using lt x0 r(1) s(4) by (auto simp: outside_refs_def)
qed

text \<open>The nodes that are reached from it become black, with their references counted again.\<close>

lemma scanning_black:
  assumes cl: "closed_heap ns0" and s: "scanning ns0 G ns (insert r A) W H" and r: "r \<in> outside_refs ns0 G" "r \<in> N" "N = reach (edges ns0) (W \<union> H) {r}" "N \<subseteq> W \<union> H"
    and t: "traversed GC_BLACK 1 ns ns' N (indegree (edges ns0) N)"
  shows "scanning ns0 G ns' A (W - N) (H - N)"
proof -
  note s = scanningD [OF s]
  let ?E = "edges ns0" and ?Y = "W \<union> H"
  have clN: "set (?E p) \<inter> ?Y \<subseteq> N" if "p \<in> N" for p using reach_step [of p ?E ?Y "{r}"] that unfolding r(3) by blast
  have Y': "(W - N) \<union> (H - N) = ?Y - N" by blast
  have fin: "finite ?Y" using finite_subset [OF _ closed_heapD(1) [OF cl]] s(4,5) by blast
  have deg: "indegree ?E ?Y q = indegree ?E (?Y - N) q + indegree ?E N q" for q by (rule indegree_diff [OF fin r(4)])
  have none: "indegree ?E N q = 0" if "q \<in> ?Y - N" for q using clN that by (intro indegree_zero) blast
  have "N \<subseteq> reach ?E UNIV (outside_refs ns0 G)" unfolding r(3) using r(1) by (intro reach_mono) auto
  then have "G - (?Y - N) \<subseteq> reach ?E UNIV (outside_refs ns0 G)" using s(10) by blast
  moreover have "shade ns' (W - N) (H - N)" by (rule shade_black [OF s(1) t r(4)])
  moreover have "owed ns0 ns' (?Y - N)" by (rule owed_traversed [OF s(3) t]) (use deg in simp)
  moreover have "(W - N) \<inter> (H - N) = {}" "?Y - N \<subseteq> G" using s(2,4) by blast+
  moreover have "\<forall>p\<in>G - (?Y - N). set (?E p) \<inter> (?Y - N) = {}" using s(7) clN by blast
  moreover have "\<forall>p\<in>W - N - A. all_from ns0 (?Y - N) p \<and> set (?E p) \<inter> (H - N) = {}"
  proof
    fix p assume "p \<in> W - N - A"
    then have p: "p \<in> W - insert r A" "p \<in> ?Y - N" using r(2) by blast+
    show "all_from ns0 (?Y - N) p \<and> set (?E p) \<inter> (H - N) = {}" using s(8) [OF p(1)] deg [of p] none [OF p(2)] unfolding all_from_def by auto
  qed
  ultimately show ?thesis using s(5,6,9) unfolding scanning_def Y' by blast
qed

lemma scan_black_run:
  assumes cl: "closed_heap ns0" and sn: "scanning ns0 G (nodes_of w) (insert r A) W H" and r: "r \<in> W" "nodes_of w r = Some x" "gc_refcount x > 0"
  shows "\<exists>w' W' H'. gc_scan_black r (w\<lparr>nodes_of := (nodes_of w)(r \<mapsto> GC_REF_SET_BLACK x)\<rparr>) = Some (Inr w') \<and> only_nodes w w'
    \<and> scanning ns0 G (nodes_of w') A W' H' \<and> W' \<subseteq> W \<and> H' \<subseteq> H"
proof -
  note s = scanningD [OF sn]
  let ?ns = "nodes_of w" and ?E = "edges ns0" and ?Y = "W \<union> H" and ?w1 = "w\<lparr>nodes_of := (nodes_of w)(r \<mapsto> GC_REF_SET_BLACK x)\<rparr>"
  have E: "edges ?ns = ?E" using owed_edges [OF s(3)] .
  have Yd: "?Y \<subseteq> dom ?ns" using s(4,5) owedD(1) [OF s(3)] by blast
  have F: "fresh_in (\<lambda>c. c = GC_BLACK) ?ns = ?Y" using shade_fresh(1) [OF s(1) Yd] .
  have col: "GC_REF_COLOR x = GC_WHITE" using s(1) r unfolding shade_def by simp
  then have nb: "GC_REF_COLOR x \<noteq> GC_BLACK" using colors_distinct by metis
  have en: "enough 1 ?ns (indegree (edges ?ns) (fresh_in (\<lambda>c. c = GC_BLACK) ?ns))" by (simp add: enough_def)
  define N where "N = reach ?E ?Y {r}"
  have w1: "nodes_of ?w1 = ?ns(r \<mapsto> GC_REF_SET_BLACK x)" by simp
  obtain w' where w': "gc_scan_black r ?w1 = Some (Inr w')" "only_nodes ?w1 w'" "traversed GC_BLACK 1 ?ns (nodes_of w') N (indegree ?E N)" "N \<subseteq> ?Y"
    using black.plain_from_root [OF owed_closed_heap [OF cl s(3)] en r(2) nb w1 painted_color(2)]
    unfolding gc_scan_black_def [symmetric] E F N_def [symmetric] by blast
  have on: "only_nodes w w'" using only_nodes_trans [OF only_nodes_upd [OF r(2)] w'(2)] set_color_parts [OF is_color(1)] info_ok_color(2) [OF _ is_color(1)] by simp
  have rN: "r \<in> N" unfolding N_def by (rule reach_refl) simp
  have "scanning ns0 G (nodes_of w') A (W - N) (H - N)"
    by (rule scanning_black [OF cl sn scanning_held [OF cl sn r] rN N_def w'(4,3)])
  then show ?thesis using w'(1) on by blast
qed


lemma scan_visit_run:
  assumes cl: "closed_heap ns0" and s: "scanning ns0 G (nodes_of w) (set (r # A)) W H" and r: "r \<in> W" "nodes_of w r = Some x" "gc_refcount x = 0"
  shows "\<exists>w' A' W' H'. visit_node touch_white True r A w = Inr (w', A') \<and> only_nodes w w' \<and> scanning ns0 G (nodes_of w') (set A') W' H'
    \<and> W \<subseteq> W' \<and> H' \<subseteq> H \<and> W' \<union> H' \<subseteq> W \<union> H \<and> 2 * card H' + length A' < 2 * card H + length (r # A)"
proof -
  note s = scanningD [OF s]
  let ?ns = "nodes_of w" and ?E = "edges ns0" and ?Y = "W \<union> H"
  have E: "edges ?ns = ?E" using owed_edges [OF s(3)] .
  have Yd: "?Y \<subseteq> dom ?ns" using s(4,5) owedD(1) [OF s(3)] by blast
  have F: "fresh_in (\<lambda>c. c \<noteq> GC_GREY) ?ns = H" using shade_fresh(2) [OF s(1) Yd s(2)] .
  define f where "f = found ?ns (H - {}) r"
  have "enough 0 ?ns (\<lambda>q. 0 + count_list f q)" by (simp add: enough_def)
  then have en: "enough 0 ?ns (\<lambda>q. (\<lambda>_. 0) q + count_list (found ?ns (fresh_in (\<lambda>c. c \<noteq> GC_GREY) ?ns - {}) r) q)" by (simp add: enough_def)
  obtain w' A' new where v: "visit_node touch_white True r A w = Inr (w', A')" "only_nodes w w'" "distinct new" "set new = set f \<inter> H" "mset A' = mset new + mset A"
    "traversed GC_WHITE 0 ?ns (nodes_of w') (set f \<inter> H) (\<lambda>q. count_list f q)"
    using white.visit_ok [OF traversed_start owed_closed_heap [OF cl s(3)] r(2) en, of True A] unfolding F f_def by auto
  define W' where "W' = W \<union> (set f \<inter> H)"
  define H' where "H' = H - set f"
  have Y': "W' \<union> H' = ?Y" by (auto simp: W'_def H'_def)
  have setA: "set A' = set new \<union> set A" using v(5) by (metis set_mset_mset set_mset_union)
  have fin: "finite H" using finite_subset [OF _ closed_heapD(1) [OF cl]] s(4,5) by blast
  have "length A' = length new + length A" using v(5) by (metis size_mset size_union)
  moreover have "card H = card H' + length new"
  proof -
    have "card H = card (H' \<union> set new)" by (rule arg_cong [of _ _ card]) (auto simp: H'_def v(4))
    also have "\<dots> = card H' + card (set new)" by (rule card_Un_disjoint) (use fin in \<open>auto simp: H'_def v(4)\<close>)
    finally show ?thesis using distinct_card [OF v(3)] by simp
  qed
  ultimately have m: "2 * card H' + length A' < 2 * card H + length (r # A)" by simp
  have sub: "set (?E r) \<subseteq> set f" using E by (simp add: f_def found_def)
  have "scanning ns0 G (nodes_of w') (set A') W' H'"
    unfolding scanning_def Y'
  proof (intro conjI ballI)
    show "shade (nodes_of w') W' H'" unfolding W'_def H'_def by (rule shade_white [OF s(1) v(6)])
    show "owed ns0 (nodes_of w') ?Y" by (rule owed_traversed [OF s(3) v(6)]) simp
    show "W' \<inter> H' = {}" "?Y \<subseteq> G" "G \<subseteq> dom ns0" "closed_under ?E G" using s(2,4,5,6) by (auto simp: W'_def H'_def)
    show "set A' \<subseteq> G" using s(4,9) v(4) unfolding setA by auto
    show "G - ?Y \<subseteq> reach ?E UNIV (outside_refs ns0 G)" using s(10) .
    show "set (?E p) \<inter> ?Y = {}" if "p \<in> G - ?Y" for p using s(7) [OF that] .
    fix p assume p: "p \<in> W' - set A'"
    then have pW: "p \<in> W" "p \<notin> set A" using v(4) setA by (auto simp: W'_def)
    have "all_from ns0 ?Y p \<and> set (?E p) \<inter> H' = {}"
    proof (cases "p = r")
      case True
      obtain x0 where x0: "ns0 r = Some x0" using r(1) s(4,5) by blast
      have "gc_refcount x0 = indegree ?E ?Y r" using owedD(3) [OF s(3) x0 r(2)] r(3) by simp
      then show ?thesis using True x0 sub by (auto simp: all_from_def H'_def)
    next
      case False
      then show ?thesis using s(8) [of p] pW by (auto simp: H'_def)
    qed
    then show "all_from ns0 ?Y p" "set (?E p) \<inter> H' = {}" by blast+
  qed
  then show ?thesis using v(1,2) m Y'
    by (intro exI [of _ w'] exI [of _ A'] exI [of _ W'] exI [of _ H']) (auto simp: W'_def H'_def)
qed

lemma scan_run:
  assumes cl: "closed_heap ns0"
  shows "scanning ns0 G (nodes_of w) (set A) W H \<Longrightarrow>
    \<exists>w' W' H'. traverse scan_enter touch_white True A (w, ()) = Some (Inr (w', ())) \<and> only_nodes w w' \<and> scanning ns0 G (nodes_of w') {} W' H' \<and> H' \<subseteq> H"
proof (induction "2 * card H + length A" arbitrary: w A W H rule: less_induct)
  case less
  note s = scanningD [OF less.prems]
  have fin: "finite H" using finite_subset [OF _ closed_heapD(1) [OF cl]] s(4,5) by blast
  show ?case
  proof (cases A)
    case Nil
    then show ?thesis using less.prems by (subst traverse.simps) (auto intro: only_nodes_refl)
  next
    case (Cons r st)
    then have "r \<in> dom (nodes_of w)" using s(5,9) owedD(1) [OF s(3)] by auto
    then obtain x where x: "nodes_of w r = Some x" by blast
    have col: "GC_REF_COLOR x = GC_WHITE \<longleftrightarrow> r \<in> W" using s(1) x colors_distinct unfolding shade_def by (metis (full_types))
    note sc = less.prems [unfolded Cons]
    show ?thesis
    proof (cases "r \<in> W")
      case False
      have "scanning ns0 G (nodes_of w) (set st) W H" using sc False unfolding scanning_def by (auto simp del: Un_iff)
      then have "\<exists>w' W' H'. traverse scan_enter touch_white True st (w, ()) = Some (Inr (w', ())) \<and> only_nodes w w' \<and> scanning ns0 G (nodes_of w') {} W' H' \<and> H' \<subseteq> H"
        using Cons by (intro less.hyps) simp
      moreover have "scan_enter r (w, ()) = Some (Inr ((w, ()), False))" using x col False by (simp add: scan_enter_def gc_node_at_Some check_color)
      ultimately show ?thesis using Cons by (subst traverse.simps) simp
    next
      case rW: True
      show ?thesis
      proof (cases "gc_refcount x = 0")
        case True
        from scan_visit_run [OF cl sc rW x True] obtain w1 A1 W1 H1 where v: "visit_node touch_white True r st w = Inr (w1, A1)" "only_nodes w w1"
          "scanning ns0 G (nodes_of w1) (set A1) W1 H1" "H1 \<subseteq> H" "2 * card H1 + length A1 < 2 * card H + length (r # st)" by blast
        from less.hyps [OF _ v(3)] v(5) Cons obtain w' W' H' where r: "traverse scan_enter touch_white True A1 (w1, ()) = Some (Inr (w', ()))" "only_nodes w1 w'"
          "scanning ns0 G (nodes_of w') {} W' H'" "H' \<subseteq> H1" by blast
        have "scan_enter r (w, ()) = Some (Inr ((w, ()), True))" using x col rW True by (simp add: scan_enter_def gc_node_at_Some check_color)
        then have "traverse scan_enter touch_white True A (w, ()) = Some (Inr (w', ()))" using Cons v(1) r(1) by (subst traverse.simps) simp
        moreover have "H' \<subseteq> H" using r(4) v(4) by blast
        ultimately show ?thesis using only_nodes_trans [OF v(2) r(2)] r(3) by blast
      next
        case False
        have sc': "scanning ns0 G (nodes_of w) (insert r (set st)) W H" using sc by simp
        from scan_black_run [OF cl sc' rW x] False obtain w1 W1 H1 where
          b: "gc_scan_black r (w\<lparr>nodes_of := (nodes_of w)(r \<mapsto> GC_REF_SET_BLACK x)\<rparr>) = Some (Inr w1)" "only_nodes w w1"
          "scanning ns0 G (nodes_of w1) (set st) W1 H1" "H1 \<subseteq> H" by blast
        have "2 * card H1 + length st < 2 * card H + length A" using card_mono [OF fin b(4)] Cons by simp
        from less.hyps [OF this b(3)] obtain w' W' H' where r: "traverse scan_enter touch_white True st (w1, ()) = Some (Inr (w', ()))" "only_nodes w1 w'"
          "scanning ns0 G (nodes_of w') {} W' H'" "H' \<subseteq> H1" by blast
        have "scan_enter r (w, ()) = Some (Inr ((w1, ()), False))" using x col rW False b(1) by (simp add: scan_enter_def gc_node_at_Some gc_upd_Some check_color)
        then have "traverse scan_enter touch_white True A (w, ()) = Some (Inr (w', ()))" using Cons r(1) by (subst traverse.simps) simp
        moreover have "H' \<subseteq> H" using r(4) b(4) by blast
        ultimately show ?thesis using only_nodes_trans [OF b(2) r(2)] r(3) by blast
      qed
    qed
  qed
qed


lemma scanning_start:
  assumes se: "gc_settled ns0" and g: "greyed ns0 ns G" and p: "purple ns0 \<subseteq> G"
  shows "scanning ns0 G ns {} {} G"
proof -
  have t: "traversed GC_GREY (-1) ns0 ns G (indegree (edges ns0) G)" and c: "closed_under (edges ns0) G" "G \<subseteq> dom ns0" using g by (simp_all add: greyed_def)
  have "shade ns {} G" unfolding shade_def
  proof (intro allI impI)
    fix q x assume x: "ns q = Some x"
    then obtain x0 where x0: "ns0 q = Some x0" using dom_Some [OF traversed_dom [OF t]] by blast
    then have "q \<notin> G \<Longrightarrow> GC_REF_COLOR x0 = GC_BLACK" using se p unfolding gc_settled_def purple_def by blast
    then show "GC_REF_COLOR x = (if q \<in> {} then GC_WHITE else if q \<in> G then GC_GREY else GC_BLACK)" using traversed_at(2) [OF t x0 x] by simp
  qed
  moreover have "owed ns0 ns ({} \<union> G)" using t by (simp add: owed_def traversed_def)
  ultimately show ?thesis using c by (simp add: scanning_def)
qed

lemma scan_root_run:
  assumes cl: "closed_heap ns0" and s: "scanning ns0 G (nodes_of w) {} W H" and e: "e \<in> H" "nodes_of w e = Some x"
  shows "\<exists>w' W' H'. gc_scan e (w\<lparr>nodes_of := (nodes_of w)(e \<mapsto> GC_REF_SET_COLOR GC_WHITE x)\<rparr>) = Some (Inr w') \<and> only_nodes w w'
    \<and> scanning ns0 G (nodes_of w') {} W' H' \<and> H' \<subseteq> H - {e}"
proof -
  note sc = scanningD [OF s]
  let ?w1 = "w\<lparr>nodes_of := (nodes_of w)(e \<mapsto> GC_REF_SET_COLOR GC_WHITE x)\<rparr>"
  have Y: "insert e W \<union> (H - {e}) = W \<union> H" using e(1) by blast
  have on: "only_nodes w ?w1" using only_nodes_upd [OF e(2)] set_color_parts [OF is_color(2)] info_ok_color(1) [OF _ is_color(2)] by simp
  have "scanning ns0 G (nodes_of ?w1) (set [e]) (insert e W) (H - {e})"
    unfolding scanning_def Y
  proof (intro conjI ballI)
    show "shade (nodes_of ?w1) (insert e W) (H - {e})" using sc(1) set_color_parts [OF is_color(2)] by (auto simp: shade_def)
    show "owed ns0 (nodes_of ?w1) (W \<union> H)" using sc(3) e(2) by (auto simp: owed_def)
    show "insert e W \<inter> (H - {e}) = {}" "W \<union> H \<subseteq> G" "G \<subseteq> dom ns0" "closed_under (edges ns0) G" "set [e] \<subseteq> G"
      "G - (W \<union> H) \<subseteq> reach (edges ns0) UNIV (outside_refs ns0 G)" using sc(2,4,5,6,10) e(1) by auto
    show "set (edges ns0 p) \<inter> (W \<union> H) = {}" if "p \<in> G - (W \<union> H)" for p using sc(7) [OF that] .
    show "all_from ns0 (W \<union> H) p" "set (edges ns0 p) \<inter> (H - {e}) = {}" if "p \<in> insert e W - set [e]" for p using sc(8) [of p] that by auto
  qed
  from scan_run [OF cl this] obtain w' W' H' where r: "traverse scan_enter touch_white True [e] (?w1, ()) = Some (Inr (w', ()))" "only_nodes ?w1 w'"
    "scanning ns0 G (nodes_of w') {} W' H'" "H' \<subseteq> H - {e}" by blast
  then show ?thesis using only_nodes_trans [OF on r(2)] by (auto simp: gc_scan_def plain_result_def)
qed

lemma scan_loop_run:
  assumes cl: "closed_heap ns0"
  shows "entries_at w is S \<Longrightarrow> scanning ns0 G (nodes_of w) {} W H \<Longrightarrow>
    \<exists>w' W' H'. each_entry (trace_root GC_GREY GC_WHITE gc_scan) is (w, ()) = Some (Inr (w', ())) \<and> only_nodes w w'
      \<and> scanning ns0 G (nodes_of w') {} W' H' \<and> H' \<subseteq> H - S"
proof (induction "is" arbitrary: w W H S)
  case Nil
  then have "S = {}" by (simp add: entries_at_def)
  then show ?case using Nil by (auto intro: only_nodes_refl)
next
  case (Cons i "is")
  let ?tr = "trace_root GC_GREY GC_WHITE gc_scan"
  note sc = scanningD [OF Cons.prems(2)]
  obtain e where e: "gc_entry w i = Inr e" "GC_IS_ROOT e \<Longrightarrow> e \<in> dom (nodes_of w)" using Cons.prems(1) by (auto simp: entries_at_def)
  have "\<exists>w1 W1 H1. ?tr i e (w, ()) = Some (Inr (w1, ())) \<and> only_nodes w w1 \<and> scanning ns0 G (nodes_of w1) {} W1 H1 \<and> H1 \<subseteq> H \<and> (GC_IS_ROOT e \<longrightarrow> e \<notin> H1)"
  proof (cases "GC_IS_ROOT e \<and> e \<in> H")
    case True
    then obtain x where x: "nodes_of w e = Some x" using e(2) by blast
    then have col: "GC_REF_COLOR x = GC_GREY" using sc(1,2) True unfolding shade_def by auto
    obtain w1 W1 H1 where w1: "gc_scan e (w\<lparr>nodes_of := (nodes_of w)(e \<mapsto> GC_REF_SET_COLOR GC_WHITE x)\<rparr>) = Some (Inr w1)" "only_nodes w w1"
      "scanning ns0 G (nodes_of w1) {} W1 H1" "H1 \<subseteq> H - {e}" using scan_root_run [OF cl Cons.prems(2) conjunct2 [OF True] x] by blast
    have "?tr i e (w, ()) = Some (Inr (w1, ()))" using trace_root_go [where tr = gc_scan and new = GC_WHITE, OF conjunct1 [OF True] x col w1(1)] .
    then show ?thesis using w1(2-4) by blast
  next
    case False
    have "?tr i e (w, ()) = Some (Inr (w, ()))"
    proof (cases "GC_IS_ROOT e")
      case root: True
      then obtain x where x: "nodes_of w e = Some x" using e(2) by blast
      then have "GC_REF_COLOR x = (if e \<in> W then GC_WHITE else GC_BLACK)" using sc(1) root False unfolding shade_def by auto
      then have "GC_REF_COLOR x \<noteq> GC_GREY" using colors_distinct by (auto split: if_splits)
      then show ?thesis using trace_root_skip(2) [OF root] x by simp
    qed (rule trace_root_skip(1))
    then show ?thesis using Cons.prems(2) only_nodes_refl False by blast
  qed
  then obtain w1 W1 H1 where w1: "?tr i e (w, ()) = Some (Inr (w1, ()))" "only_nodes w w1" "scanning ns0 G (nodes_of w1) {} W1 H1" "H1 \<subseteq> H" "GC_IS_ROOT e \<longrightarrow> e \<notin> H1" by blast
  let ?S = "{p. GC_IS_ROOT p \<and> (\<exists>i\<in>set is. gc_entry w1 i = Inr p)}"
  have S: "entries_at w1 is ?S" using Cons.prems(1) only_nodesD(6,7) [OF w1(2)] by (simp add: entries_at_def)
  obtain w' W' H' where r: "each_entry ?tr is (w1, ()) = Some (Inr (w', ()))" "only_nodes w1 w'" "scanning ns0 G (nodes_of w') {} W' H'" "H' \<subseteq> H1 - ?S"
    using Cons.IH [OF S w1(3)] by blast
  have "p \<notin> H'" if p: "p \<in> S" for p
  proof -
    have "GC_IS_ROOT p" and "p = e \<or> (\<exists>i\<in>set is. gc_entry w1 i = Inr p)" using p Cons.prems(1) e(1) only_nodesD(7) [OF w1(2)] by (auto simp: entries_at_def)
    then show ?thesis using w1(5) r(4) by blast
  qed
  then have "H' \<subseteq> H - S" using r(4) w1(4) by blast
  moreover have "each_entry ?tr (i # is) (w, ()) = Some (Inr (w', ()))" using e(1) w1(1) r(1) by simp
  ultimately show ?case using only_nodes_trans [OF w1(2) r(2)] r(3) by blast
qed

text \<open>At the end the white nodes are those that nothing outside can reach.\<close>

lemma scanned:
  assumes cl: "closed_heap ns0" and s: "scanning ns0 G ns {} W H" and G: "G = reach (edges ns0) UNIV P" and P: "P \<inter> H = {}"
  shows "H = {}" "W = G - reach (edges ns0) UNIV (outside_refs ns0 G)"
proof -
  note sc = scanningD [OF s]
  let ?E = "edges ns0"
  have "reach ?E UNIV P \<subseteq> G - H"
  proof (rule reach_closed)
    show "P \<subseteq> G - H" using P reach_refl [of _ P ?E UNIV] unfolding G by blast
    fix p q assume p: "p \<in> G - H" "q \<in> set (?E p)"
    have "q \<in> G" using sc(6) p unfolding closed_under_def by blast
    moreover have "q \<notin> H" using sc(7) [of p] sc(8) [of p] p by (cases "p \<in> W") auto
    ultimately show "q \<in> G - H" by blast
  qed
  then show H: "H = {}" using sc(4) G by blast
  have "reach ?E UNIV (outside_refs ns0 G) \<subseteq> G - W"
  proof (rule reach_closed)
    show "outside_refs ns0 G \<subseteq> G - W"
    proof
      fix q assume q: "q \<in> outside_refs ns0 G"
      have "q \<notin> W"
      proof
        assume "q \<in> W"
        then obtain x where "ns0 q = Some x" "gc_refcount x = indegree ?E W q" using sc(8) [of q] H by (auto simp: all_from_def)
        moreover have "indegree ?E W q \<le> indegree ?E G q"
          by (rule indegree_mono) (use finite_subset [OF sc(5) closed_heapD(1) [OF cl]] sc(4) in auto)
        ultimately show False using q by (auto simp: outside_refs_def)
      qed
      then show "q \<in> G - W" using q by (auto simp: outside_refs_def)
    qed
    fix p q assume p: "p \<in> G - W" "q \<in> set (?E p)"
    then show "q \<in> G - W" using sc(6) sc(7) [of p] H unfolding closed_under_def by auto
  qed
  then show "W = G - reach ?E UNIV (outside_refs ns0 G)" using sc(4,10) H by auto
qed

lemma scan_roots_run:
  assumes v: "gc_view {} w [] R" and r: "\<forall>e\<in>ran R. GC_IS_ROOT e" and h: "heap_ok ns0" and p: "purple ns0 \<subseteq> root_set R"
    and g: "greyed ns0 (nodes_of w) G" and G: "G = reach (edges ns0) UNIV (purple ns0)"
  shows "\<exists>w'. gc_scan_roots w = Some (Inr w') \<and> only_nodes w w' \<and> scanning ns0 G (nodes_of w') {} (G - reach (edges ns0) UNIV (outside_refs ns0 G)) {}"
proof -
  have cl: "closed_heap ns0" and se: "gc_settled ns0" using h by (simp_all add: heap_ok_def)
  have "purple ns0 \<subseteq> G" unfolding G using reach_refl by blast
  then have s0: "scanning ns0 G (nodes_of w) {} {} G" by (rule scanning_start [OF se g])
  obtain w' W H where w': "each_entry (trace_root GC_GREY GC_WHITE gc_scan) [GC_FIRST_ROOT ..< first_unused w] (w, ()) = Some (Inr (w', ()))" "only_nodes w w'"
    "scanning ns0 G (nodes_of w') {} W H" "H \<subseteq> G - purple ns0" using scan_loop_run [OF cl view_entries [OF v p r] s0] by blast
  have "purple ns0 \<inter> H = {}" using w'(4) by blast
  note e = scanned [OF cl w'(3) G this]
  have "scan_extra_roots (first_unused w) w' = Some (Inr w')" using only_nodesD(3) [OF w'(2)] by (subst scan_extra_roots.simps) simp
  then have "gc_scan_roots w = Some (Inr w')" using w'(1) by (simp add: gc_scan_roots_def plain_result_def gc_then_def)
  then show ?thesis using w'(2,3) e by auto
qed


end
