(* ===== verification/Zend_Gc_Collecting.thy ===== *)
theory Zend_Gc_Collecting
  imports Zend_Gc_Marking
begin

text \<open>
Collecting the white nodes restores their counts and puts them into the root buffer; with the phases before it, a run of the collector finds exactly the
  garbage among what can be reached from the candidates.
\<close>

section \<open>Collecting\<close>

lemma alike_trans: "alike l m \<Longrightarrow> alike m n \<Longrightarrow> alike l n"
  unfolding alike_def
proof
  fix p assume "\<forall>p. rel_option alike_node (l p) (m p)" "\<forall>p. rel_option alike_node (m p) (n p)"
  then have "rel_option alike_node (l p) (m p)" "rel_option alike_node (m p) (n p)" by blast+
  then show "rel_option alike_node (l p) (n p)" by (cases "l p"; cases "m p"; cases "n p") (simp_all add: alike_node_def)
qed

lemma alike_upd: "m p = Some x \<Longrightarrow> alike_node x y \<Longrightarrow> alike m (m(p \<mapsto> y))"
  unfolding alike_def by (auto simp: alike_node_def option.rel_refl)

definition black_node :: "(u64 \<rightharpoonup> gc_node) \<Rightarrow> u64 \<Rightarrow> bool" where
  "black_node ns p \<longleftrightarrow> (\<exists>x. ns p = Some x \<and> GC_REF_COLOR x = GC_BLACK)"

lemma black_alike: "alike m n \<Longrightarrow> black_node n p = black_node m p"
proof -
  assume "alike m n"
  then have "rel_option alike_node (m p) (n p)" by (simp add: alike_def)
  then show ?thesis by (cases "m p"; cases "n p") (simp_all add: black_node_def alike_node_def)
qed

lemma zero_info_parts: "GC_REF_ADDRESS (GC_REF_SET_INFO 0 x) = 0" "GC_REF_COLOR (GC_REF_SET_INFO 0 x) = GC_BLACK" "info_ok (GC_REF_SET_INFO 0 x)"
  by (simp_all add: GC_REF_ADDRESS_def GC_REF_COLOR_def GC_REF_SET_INFO_def GC_BLACK_def info_ok_def)

lemma remove_step_run:
  assumes v: "gc_view {} w ul R" and i: "R i = Some e" and root: "GC_IS_ROOT e" and inf: "infos (nodes_of w)"
  shows "\<exists>w' ul'. remove_black_root i e (w, ()) = Some (Inr (w', ())) \<and> gc_view {} w' ul' (if black_node (nodes_of w) e then R(i := None) else R)
    \<and> alike (nodes_of w) (nodes_of w') \<and> infos (nodes_of w') \<and> buf_size w' = buf_size w \<and> gc_active w' = gc_active w"
proof -
  have ptr: "GC_GET_PTR e = e" using root_ptr [OF root] .
  obtain x where x: "nodes_of w e = Some x" using roots_okD [OF gc_viewD(4) [OF v] i] ptr by metis
  show ?thesis
  proof (cases "GC_REF_COLOR x = GC_BLACK")
    case True
    let ?y = "GC_REF_SET_INFO 0 x"
    obtain w' where w': "gc_remove_from_roots i (w\<lparr>nodes_of := (nodes_of w)(e \<mapsto> ?y)\<rparr>) = Inr w'" "gc_view {} w' (i # ul) (R(i := None))"
      "nodes_of w' = (nodes_of w)(e \<mapsto> ?y)" using remove_entry_run [OF v i zero_info_parts(1) ptr] by blast
    have "alike_node x ?y" using zero_info_parts(2) True by (simp add: alike_node_def GC_REF_SET_INFO_def)
    then have "alike (nodes_of w) (nodes_of w')" using alike_upd x w'(3) by simp
    moreover have "infos (nodes_of w')" using infos_upd [OF inf zero_info_parts(3)] w'(3) by simp
    moreover have "remove_black_root i e (w, ()) = Some (Inr (w', ()))" using root x True w'(1) by (simp add: remove_black_root_def gc_run check_color)
    moreover have "buf_size w' = buf_size w" "gc_active w' = gc_active w" using w'(1) by (auto simp: gc_remove_from_roots_def gc_link_unused_def gc_set_entry_def split: if_splits)
    moreover have "black_node (nodes_of w) e" using x True by (simp add: black_node_def)
    ultimately show ?thesis using w'(2) by auto
  next
    case False
    then have "remove_black_root i e (w, ()) = Some (Inr (w, ()))" using root x by (simp add: remove_black_root_def gc_run check_color)
    moreover have "\<not> black_node (nodes_of w) e" using x False by (simp add: black_node_def)
    ultimately show ?thesis using v inf alike_refl by auto
  qed
qed

text \<open>The roots without the black ones.\<close>

definition without_black :: "(u64 \<rightharpoonup> gc_node) \<Rightarrow> nat set \<Rightarrow> root_map \<Rightarrow> root_map" where
  "without_black ns I R = (\<lambda>i. case R i of None \<Rightarrow> None | Some e \<Rightarrow> if i \<in> I \<and> black_node ns e then None else Some e)"

lemma remove_loop_run:
  "gc_view {} w ul R \<Longrightarrow> distinct is \<Longrightarrow> set is \<subseteq> dom R \<Longrightarrow> \<forall>e\<in>ran R. GC_IS_ROOT e \<Longrightarrow> infos (nodes_of w) \<Longrightarrow>
    \<exists>w' ul'. each_entry remove_black_root is (w, ()) = Some (Inr (w', ())) \<and> gc_view {} w' ul' (without_black (nodes_of w) (set is) R)
    \<and> alike (nodes_of w) (nodes_of w') \<and> infos (nodes_of w') \<and> buf_size w' = buf_size w \<and> gc_active w' = gc_active w"
proof (induction "is" arbitrary: w ul R)
  case Nil
  have "without_black (nodes_of w) {} R = R" by (rule ext) (simp add: without_black_def split: option.split)
  then show ?case using Nil alike_refl by auto
next
  case (Cons i "is")
  obtain e where e: "R i = Some e" using Cons.prems(3) by auto
  have root: "GC_IS_ROOT e" using Cons.prems(4) e by (auto simp: ran_def)
  let ?R = "if black_node (nodes_of w) e then R(i := None) else R"
  obtain w1 ul1 where w1: "remove_black_root i e (w, ()) = Some (Inr (w1, ()))" "gc_view {} w1 ul1 ?R" "alike (nodes_of w) (nodes_of w1)" "infos (nodes_of w1)"
    "buf_size w1 = buf_size w" "gc_active w1 = gc_active w" using remove_step_run [OF Cons.prems(1) e root Cons.prems(5)] by blast
  have sub: "set is \<subseteq> dom ?R" using Cons.prems(2,3) by auto
  have rr: "\<forall>e\<in>ran ?R. GC_IS_ROOT e" using Cons.prems(4) by (auto simp: ran_def split: if_splits)
  have ds: "distinct is" using Cons.prems(2) by simp
  obtain w' ul' where w': "each_entry remove_black_root is (w1, ()) = Some (Inr (w', ()))" "gc_view {} w' ul' (without_black (nodes_of w1) (set is) ?R)"
    "alike (nodes_of w1) (nodes_of w')" "infos (nodes_of w')" "buf_size w' = buf_size w1" "gc_active w' = gc_active w1"
    using Cons.IH [OF w1(2) ds sub rr w1(4)] by blast
  have "without_black (nodes_of w1) (set is) ?R = without_black (nodes_of w) (set (i # is)) R"
  proof
    fix j
    show "without_black (nodes_of w1) (set is) ?R j = without_black (nodes_of w) (set (i # is)) R j"
      using e Cons.prems(2) black_alike [OF w1(3)] by (cases "j = i") (auto simp: without_black_def split: option.split)
  qed
  moreover have "each_entry remove_black_root (i # is) (w, ()) = Some (Inr (w', ()))"
    using view_entry [OF Cons.prems(1) e] w1(1) w'(1) by simp
  ultimately show ?case using w'(2,4,5,6) w1(5,6) alike_trans [OF w1(3) w'(3)] by auto
qed


lemma view_card:
  assumes v: "gc_view {} w ul R" and fin: "finite (dom (nodes_of w))"
  shows "num_roots w \<le> card (dom (nodes_of w))"
proof -
  have d: "dom R = {1..<first_unused w} - set ul" using gc_viewD(3) [OF v] by (auto simp: gc_holds_def)
  have u: "distinct ul" "set ul \<subseteq> {1..<first_unused w}" using gc_viewD(2) [OF v] by (auto simp: gc_free_list_def)
  have "card (dom R) = first_unused w - 1 - length ul" unfolding d using u by (simp add: card_Diff_subset distinct_card)
  then have n: "card (dom R) = num_roots w" using gc_viewD(5) [OF v] by simp
  define g where "g = (\<lambda>i. GC_GET_PTR (the (R i)))"
  have "inj_on g (dom R)"
  proof (rule inj_onI)
    fix i j assume "i \<in> dom R" "j \<in> dom R" "g i = g j"
    then show "i = j" using roots_ok_inj [OF gc_viewD(4) [OF v]] by (auto simp: g_def)
  qed
  moreover have "g ` dom R \<subseteq> dom (nodes_of w)"
  proof
    fix p assume "p \<in> g ` dom R"
    then obtain i e where "R i = Some e" "p = GC_GET_PTR e" by (auto simp: g_def)
    then show "p \<in> dom (nodes_of w)" using roots_okD [OF gc_viewD(4) [OF v]] by (metis domI)
  qed
  ultimately show ?thesis using card_inj_on_le [OF _ _ fin] n by metis
qed

definition few :: "(u64 \<rightharpoonup> gc_node) \<Rightarrow> bool" where
  "few ns \<longleftrightarrow> finite (dom ns) \<and> card (dom ns) + 1 + GC_BUF_GROW_STEP \<le> 2 ^ 29"

lemma add_garbage_run:
  assumes v: "gc_view {} w ul R" and few: "few (nodes_of w)" and x: "nodes_of w p = Some x" "GC_REF_ADDRESS x = 0"
  shows "\<exists>w' ul' i y. gc_add_garbage p w = Inr w' \<and> R i = None \<and> gc_view {} w' ul' (R(i \<mapsto> GC_MAKE_GARBAGE p))
    \<and> nodes_of w' = (nodes_of w)(p \<mapsto> y) \<and> gc_data y = gc_data x \<and> gc_refcount y = gc_refcount x \<and> GC_REF_COLOR y = GC_BLACK \<and> info_ok y"
proof -
  have fin: "finite (dom (nodes_of w))" using few by (simp add: few_def)
  have full: "ul = [] \<and> first_unused w = buf_size w \<longrightarrow> buf_size w + GC_BUF_GROW_STEP \<le> 2 ^ 29"
  proof
    assume "ul = [] \<and> first_unused w = buf_size w"
    then have "buf_size w = num_roots w + 1" using gc_viewD(5) [OF v] by simp
    then show "buf_size w + GC_BUF_GROW_STEP \<le> 2 ^ 29" using view_card [OF v fin] few by (simp add: few_def)
  qed
  obtain i w1 ul1 where w1: "gc_fetch_room w = Inr (Some i, w1)" "gc_view {i} w1 ul1 R" "nodes_of w1 = nodes_of w"
    "gc_threshold w1 = gc_threshold w" "buf_size w \<le> buf_size w1" using fetch_room_full [OF v full] .
  have al: "aligned p" using gc_viewD(7) [OF v x(1)] .
  let ?y = "GC_REF_SET_INFO (word_of_nat (gc_compress i) OR GC_BLACK) x"
  have x1: "nodes_of w1 p = Some x" using x(1) w1(3) by simp
  obtain w' where w': "gc_store_root (GC_MAKE_GARBAGE p) GC_BLACK p i w1 = Inr w'" "gc_view {} w' ul1 (R(i \<mapsto> GC_MAKE_GARBAGE p))" "nodes_of w' = (nodes_of w1)(p \<mapsto> ?y)"
    using store_root_run [OF w1(2) x1 x(2) aligned_tags(5,7) [OF al] is_color(1)] by blast
  have "GC_REF_COLOR ?y = GC_BLACK" "info_ok ?y" using info_parts(2) [OF compress_bounds(1) is_color(1)] info_ok_set [OF compress_bounds(1) is_color(1)] by blast+
  moreover have "gc_data ?y = gc_data x" "gc_refcount ?y = gc_refcount x" by (simp_all add: GC_REF_SET_INFO_def)
  moreover have "gc_add_garbage p w = Inr w'" using w1(1) w'(1) by (simp add: gc_add_garbage_def)
  ultimately show ?thesis using w'(2,3) w1(3) view_hole [OF w1(2)]
    by (intro exI [of _ w'] exI [of _ ul1] exI [of _ i] exI [of _ ?y]) simp
qed

fun garbage_kind :: "gc_data \<Rightarrow> bool" where
  "garbage_kind (Gc_Object freed _ _ _) = (\<not> freed)"
| "garbage_kind (Gc_Array _ _) = True"
| "garbage_kind _ = False"

fun has_dtor :: "gc_data \<Rightarrow> bool" where
  "has_dtor (Gc_Object freed dtor _ _) = (\<not> freed \<and> dtor)"
| "has_dtor _ = False"

definition node_is :: "(gc_data \<Rightarrow> bool) \<Rightarrow> (u64 \<rightharpoonup> gc_node) \<Rightarrow> u64 \<Rightarrow> bool" where
  "node_is P ns p \<longleftrightarrow> (\<exists>x. ns p = Some x \<and> P (gc_data x))"

lemma node_is_alike: "alike m n \<Longrightarrow> node_is P n = node_is P m"
proof
  fix p assume "alike m n"
  then have "rel_option alike_node (m p) (n p)" by (simp add: alike_def)
  then show "node_is P n p = node_is P m p" by (cases "m p"; cases "n p") (simp_all add: node_is_def alike_node_def)
qed

lemma node_is_only_nodes: "only_nodes w w' \<Longrightarrow> node_is P (nodes_of w') = node_is P (nodes_of w)"
proof
  fix p assume o: "only_nodes w w'"
  show "node_is P (nodes_of w') p = node_is P (nodes_of w) p"
  proof (cases "nodes_of w p")
    case None
    then have "nodes_of w' p = None" using only_nodesD(6) [OF o] by auto
    then show ?thesis using None by (simp add: node_is_def)
  next
    case (Some x)
    then obtain y where y: "nodes_of w' p = Some y" using dom_Some [OF only_nodesD(6) [OF o, symmetric]] by blast
    then have "gc_data y = gc_data x" using o Some unfolding only_nodes_def by blast
    then show ?thesis using Some y by (simp add: node_is_def)
  qed
qed

text \<open>The buffer during the collection: the positions of \<open>I\<close> still hold the roots \<open>R0\<close>, all others hold garbage.\<close>

definition garbage_buf :: "nat set \<Rightarrow> root_map \<Rightarrow> u64 set \<Rightarrow> u64 set \<Rightarrow> bool \<Rightarrow> zend_gc_globals \<Rightarrow> bool" where
  "garbage_buf I R0 W D f w \<longleftrightarrow> (\<exists>ul R. gc_view {} w ul R \<and> (\<forall>j\<in>I. R j = R0 j) \<and> (\<forall>j e. R j = Some e \<and> j \<notin> I \<longrightarrow> GC_IS_GARBAGE e) \<and> root_set R \<subseteq> W
     \<and> (\<forall>p\<in>D. node_is garbage_kind (nodes_of w) p \<longrightarrow> p \<in> root_set R)) \<and> (f \<longleftrightarrow> (\<exists>p\<in>D. node_is has_dtor (nodes_of w) p)) \<and> infos (nodes_of w) \<and> few (nodes_of w)"

lemma garbage_bufI:
  assumes "gc_view {} w ul R" "\<forall>j\<in>I. R j = R0 j" "\<forall>j e. R j = Some e \<and> j \<notin> I \<longrightarrow> GC_IS_GARBAGE e" "root_set R \<subseteq> W"
    "\<forall>p\<in>D. node_is garbage_kind (nodes_of w) p \<longrightarrow> p \<in> root_set R" "f \<longleftrightarrow> (\<exists>p\<in>D. node_is has_dtor (nodes_of w) p)" "infos (nodes_of w)" "few (nodes_of w)"
  shows "garbage_buf I R0 W D f w"
  unfolding garbage_buf_def by (intro conjI exI [of _ ul] exI [of _ R]) (fact assms)+

lemma few_dom: "few m \<Longrightarrow> dom n = dom m \<Longrightarrow> few n"
  by (simp add: few_def)

lemma garbage_buf_only_nodes:
  assumes g: "garbage_buf I R0 W D f w" and o: "only_nodes w w'"
  shows "garbage_buf I R0 W D f w'"
proof -
  obtain ul R where R: "gc_view {} w ul R" "\<forall>j\<in>I. R j = R0 j" "\<forall>j e. R j = Some e \<and> j \<notin> I \<longrightarrow> GC_IS_GARBAGE e" "root_set R \<subseteq> W"
    "\<forall>p\<in>D. node_is garbage_kind (nodes_of w) p \<longrightarrow> p \<in> root_set R" using g unfolding garbage_buf_def by blast
  have f: "f \<longleftrightarrow> (\<exists>p\<in>D. node_is has_dtor (nodes_of w) p)" and i: "infos (nodes_of w)" "few (nodes_of w)" using g unfolding garbage_buf_def by blast+
  show ?thesis
    by (rule garbage_bufI [OF only_nodes_view [OF R(1) o] R(2-4) _ _ infos_only_nodes [OF i(1) o] few_dom [OF i(2) only_nodesD(6) [OF o]]])
      (unfold node_is_only_nodes [OF o], fact R(5), fact f)
qed

lemma add_if_run:
  assumes g: "garbage_buf I R0 W D f w" and x: "nodes_of w p = Some x" "GC_REF_COLOR x = GC_BLACK" "garbage_kind (gc_data x)" and p: "p \<in> W"
    and I: "\<forall>j\<in>I. j \<in> dom R0"
  shows "\<exists>w'. (if gc_info x = 0 then gc_add_garbage p w else Inr w) = Inr w' \<and> garbage_buf I R0 W (insert p D) (f \<or> has_dtor (gc_data x)) w'
    \<and> alike (nodes_of w) (nodes_of w')"
proof -
  obtain ul R where R: "gc_view {} w ul R" "\<forall>j\<in>I. R j = R0 j" "\<forall>j e. R j = Some e \<and> j \<notin> I \<longrightarrow> GC_IS_GARBAGE e" "root_set R \<subseteq> W"
    "\<forall>p\<in>D. node_is garbage_kind (nodes_of w) p \<longrightarrow> p \<in> root_set R" using g unfolding garbage_buf_def by blast
  have f: "f \<longleftrightarrow> (\<exists>p\<in>D. node_is has_dtor (nodes_of w) p)" and inf: "infos (nodes_of w)" and few: "few (nodes_of w)" using g unfolding garbage_buf_def by blast+
  have f': "(f \<or> has_dtor (gc_data x)) \<longleftrightarrow> (\<exists>q\<in>insert p D. node_is has_dtor (nodes_of w) q)" using f x(1) by (auto simp: node_is_def)
  have ix: "info_ok x" using inf x(1) unfolding infos_def by blast
  show ?thesis
  proof (cases "GC_REF_ADDRESS x = 0")
    case True
    then have z: "gc_info x = 0" using info_ok_zero [OF ix True x(2)] by blast
    obtain w' ul' i y where w': "gc_add_garbage p w = Inr w'" "R i = None" "gc_view {} w' ul' (R(i \<mapsto> GC_MAKE_GARBAGE p))"
      "nodes_of w' = (nodes_of w)(p \<mapsto> y)" "gc_data y = gc_data x" "gc_refcount y = gc_refcount x" "GC_REF_COLOR y = GC_BLACK" "info_ok y"
      using add_garbage_run [OF R(1) few x(1) True] by blast
    have al: "alike (nodes_of w) (nodes_of w')" using alike_upd [of "nodes_of w" p x y, OF x(1)] w'(4-7) x(2) by (simp add: alike_node_def)
    have ap: "aligned p" using gc_viewD(7) [OF R(1) x(1)] .
    let ?R = "R(i \<mapsto> GC_MAKE_GARBAGE p)"
    have rs: "root_set ?R = insert p (root_set R)" using root_set_store [of R i "GC_MAKE_GARBAGE p", OF w'(2)] aligned_tags(5) [OF ap] by simp
    have "i \<notin> I" using I R(2) w'(2) by force
    then have r1: "\<forall>j\<in>I. ?R j = R0 j" using R(2) by auto
    have r2: "\<forall>j e. ?R j = Some e \<and> j \<notin> I \<longrightarrow> GC_IS_GARBAGE e" using R(3) aligned_tags(8) [OF ap] by auto
    have r3: "root_set ?R \<subseteq> W" "\<forall>q\<in>insert p D. node_is garbage_kind (nodes_of w) q \<longrightarrow> q \<in> root_set ?R" using R(4,5) p unfolding rs by auto
    have r4: "infos (nodes_of w')" using infos_upd [OF inf w'(8)] w'(4) by simp
    have r5: "few (nodes_of w')" using few_dom [OF few alikeD(1) [OF al]] .
    have "garbage_buf I R0 W (insert p D) (f \<or> has_dtor (gc_data x)) w'"
      by (rule garbage_bufI [OF w'(3) r1 r2 r3(1) _ _ r4 r5]) (unfold node_is_alike [OF al], fact r3(2), fact f')
    then show ?thesis using w'(1) z al by simp
  next
    case False
    then have "gc_info x \<noteq> 0" using zero_info [of x] by metis
    moreover have "p \<in> root_set R" using root_set_iff [OF R(1) x(1)] False by simp
    then have "\<forall>q\<in>insert p D. node_is garbage_kind (nodes_of w) q \<longrightarrow> q \<in> root_set R" using R(5) by blast
    from garbage_bufI [OF R(1-4) this f' inf few] have "garbage_buf I R0 W (insert p D) (f \<or> has_dtor (gc_data x)) w" .
    ultimately show ?thesis using alike_refl by auto
  qed
qed

lemma skip_enter_run:
  assumes g: "garbage_buf I R0 W D f w" and x: "nodes_of w p = Some x" "\<not> garbage_kind (gc_data x)"
  shows "garbage_buf I R0 W (insert p D) f w"
proof -
  have "\<not> has_dtor (gc_data x)" using x(2) by (cases "gc_data x") auto
  then have "\<not> node_is has_dtor (nodes_of w) p" "\<not> node_is garbage_kind (nodes_of w) p" using x by (simp_all add: node_is_def)
  then show ?thesis using g unfolding garbage_buf_def by auto
qed

lemma collect_enter_run:
  assumes g: "garbage_buf I R0 W D f w" and x: "nodes_of w p = Some x" "GC_REF_COLOR x = GC_BLACK" and p: "p \<in> W" and I: "\<forall>j\<in>I. j \<in> dom R0"
  shows "\<exists>w' n' f'. collect_enter p (w, n, f) = Some (Inr ((w', n', f'), True)) \<and> garbage_buf I R0 W (insert p D) f' w' \<and> alike (nodes_of w) (nodes_of w')"
proof (cases "garbage_kind (gc_data x)")
  case True
  obtain w' where w': "(if gc_info x = 0 then gc_add_garbage p w else Inr w) = Inr w'" "garbage_buf I R0 W (insert p D) (f \<or> has_dtor (gc_data x)) w'"
    "alike (nodes_of w) (nodes_of w')" using add_if_run [OF g x True p I] by blast
  have "collect_enter p (w, n, f) = Some (Inr ((w', n + 1, f \<or> has_dtor (gc_data x)), True))"
    using True x(1) w'(1) by (cases "gc_data x") (simp_all add: collect_enter_def gc_node_at_Some)
  then show ?thesis using w'(2,3) by blast
next
  case False
  then have "\<exists>n'. collect_enter p (w, n, f) = Some (Inr ((w, n', f), True))"
    using x(1) by (cases "gc_data x") (simp_all add: collect_enter_def gc_node_at_Some)
  then show ?thesis using skip_enter_run [OF g x(1) False] alike_refl by blast
qed


lemma owed_tables: "owed ns0 ns Y \<Longrightarrow> tables ns = tables ns0"
proof -
  assume o: "owed ns0 ns Y"
  have "tables ns \<subseteq> tables ns0"
  proof
    fix t assume "t \<in> tables ns"
    then obtain p x where p: "ns p = Some x" "table_of (gc_data x) = Some t" by (auto simp: tables_def)
    obtain x0 where "ns0 p = Some x0" using dom_Some [OF owedD(1) [OF o] p(1)] by blast
    then show "t \<in> tables ns0" using owedD(2) [OF o _ p(1)] p(2) by (force simp: tables_def)
  qed
  moreover have "tables ns0 \<subseteq> tables ns"
  proof
    fix t assume "t \<in> tables ns0"
    then obtain p x where p: "ns0 p = Some x" "table_of (gc_data x) = Some t" by (auto simp: tables_def)
    obtain x1 where "ns p = Some x1" using dom_Some [OF owedD(1) [OF o, symmetric] p(1)] by blast
    then show "t \<in> tables ns" using owedD(2) [OF o p(1)] p(2) by (force simp: tables_def)
  qed
  ultimately show ?thesis by blast
qed

text \<open>The nodes of \<open>W\<close> are still white; the others of the garbage \<open>W0\<close> are black again, and so is what they refer to.\<close>

definition collecting :: "(u64 \<rightharpoonup> gc_node) \<Rightarrow> u64 set \<Rightarrow> (u64 \<rightharpoonup> gc_node) \<Rightarrow> u64 set \<Rightarrow> bool" where
  "collecting ns0 W0 ns W \<longleftrightarrow> shade ns W {} \<and> owed ns0 ns W \<and> W \<subseteq> W0 \<and> W0 \<subseteq> dom ns0 \<and> (\<forall>p\<in>W0 - W. set (edges ns0 p) \<inter> W = {})"

definition gathered :: "(u64 \<rightharpoonup> gc_node) \<Rightarrow> u64 set \<Rightarrow> u64 set \<Rightarrow> nat set \<Rightarrow> root_map \<Rightarrow> bool \<Rightarrow> zend_gc_globals \<Rightarrow> bool" where
  "gathered ns0 W0 W I R0 f w \<longleftrightarrow> (\<exists>D. garbage_buf I R0 W0 D f w \<and> D \<subseteq> W0 - W \<and> W0 - W \<subseteq> D \<union> tables ns0)"

lemma collecting_traversed:
  assumes cl: "closed_heap ns0" and c: "collecting ns0 W0 ns W" and t: "traversed GC_BLACK 1 ns ns' N (indegree (edges ns0) N)" and N: "N \<subseteq> W"
    and cN: "\<And>p. p \<in> N \<Longrightarrow> set (edges ns0 p) \<inter> W \<subseteq> N"
  shows "collecting ns0 W0 ns' (W - N)"
proof -
  let ?E = "edges ns0"
  have c': "shade ns W {}" "owed ns0 ns W" "W \<subseteq> W0" "W0 \<subseteq> dom ns0" "\<And>p. p \<in> W0 - W \<Longrightarrow> set (?E p) \<inter> W = {}" using c by (simp_all add: collecting_def)
  have fin: "finite W" using finite_subset [OF _ closed_heapD(1) [OF cl]] c'(3,4) by blast
  have "shade ns' (W - N) ({} - N)" by (rule shade_black [OF c'(1) t]) (use N in blast)
  moreover have "owed ns0 ns' (W - N)" by (rule owed_traversed [OF c'(2) t]) (use indegree_diff [OF fin N, of ?E] in simp)
  moreover have "W - N \<subseteq> W0" "\<forall>p\<in>W0 - (W - N). set (?E p) \<inter> (W - N) = {}" using c'(3,5) cN by blast+
  ultimately show ?thesis using c'(4) unfolding collecting_def by simp
qed

lemma collect_white_run:
  assumes cl: "closed_heap ns0" and c: "collecting ns0 W0 (nodes_of w) W" and e: "e \<in> W" "nodes_of w e = Some x"
    and g: "gathered ns0 W0 W I R0 f w" and I: "\<forall>j\<in>I. j \<in> dom R0"
  shows "\<exists>w' k f' W'. gc_collect_white e f (w\<lparr>nodes_of := (nodes_of w)(e \<mapsto> GC_REF_SET_BLACK x)\<rparr>) = Some (Inr (w', k, f'))
    \<and> collecting ns0 W0 (nodes_of w') W' \<and> gathered ns0 W0 W' I R0 f' w' \<and> W' \<subseteq> W - {e}"
proof -
  let ?ns = "nodes_of w" and ?E = "edges ns0" and ?w1 = "w\<lparr>nodes_of := (nodes_of w)(e \<mapsto> GC_REF_SET_BLACK x)\<rparr>"
  have c': "shade ?ns W {}" "owed ns0 ?ns W" "W \<subseteq> W0" "W0 \<subseteq> dom ns0" "\<And>p. p \<in> W0 - W \<Longrightarrow> set (?E p) \<inter> W = {}" using c by (simp_all add: collecting_def)
  obtain D where D: "garbage_buf I R0 W0 D f w" "D \<subseteq> W0 - W" "W0 - W \<subseteq> D \<union> tables ns0" using g by (auto simp: gathered_def)
  have E: "edges ?ns = ?E" and T: "tables ?ns = tables ns0" using owed_edges [OF c'(2)] owed_tables [OF c'(2)] by simp_all
  have dm: "dom ?ns = dom ns0" using owedD(1) [OF c'(2)] .
  have "W \<union> {} \<subseteq> dom ?ns" using c'(3,4) dm by blast
  then have F: "fresh_in (\<lambda>c. c \<noteq> GC_WHITE) ?ns = W" using shade_fresh(3) [OF c'(1)] by blast
  have col: "\<not> GC_REF_COLOR x \<noteq> GC_WHITE" using c'(1) e unfolding shade_def by simp
  have on: "only_nodes w ?w1" using only_nodes_upd [OF e(2)] set_color_parts [OF is_color(1)] info_ok_color(2) [OF _ is_color(1)] by simp
  define J where "J = (\<lambda>(V :: u64 set) (s :: zend_gc_globals \<times> (nat \<times> bool)). garbage_buf I R0 W0 (D \<union> V) (snd (snd s)) (fst s))"
  define N where "N = reach ?E W {e}"
  have en: "enough 1 ?ns (indegree (edges ?ns) (fresh_in (\<lambda>c. c \<noteq> GC_WHITE) ?ns))" by (simp add: enough_def)
  have w1: "nodes_of ?w1 = ?ns(e \<mapsto> GC_REF_SET_BLACK x)" by simp
  have j0: "J {} (?w1, 0, f)" using garbage_buf_only_nodes [OF D(1) on] by (simp add: J_def)
  have "\<exists>w' a' V'. traverse collect_enter touch_collect False [e] (?w1, 0, f) = Some (Inr (w', a'))
    \<and> traversed GC_BLACK 1 ?ns (nodes_of w') (reach (edges ?ns) (fresh_in (\<lambda>c. c \<noteq> GC_WHITE) ?ns) {e}) (indegree (edges ?ns) (reach (edges ?ns) (fresh_in (\<lambda>c. c \<noteq> GC_WHITE) ?ns) {e}))
    \<and> J V' (w', a') \<and> reach (edges ?ns) (fresh_in (\<lambda>c. c \<noteq> GC_WHITE) ?ns) {e} \<subseteq> V' \<union> tables ?ns \<and> V' \<subseteq> reach (edges ?ns) (fresh_in (\<lambda>c. c \<noteq> GC_WHITE) ?ns) {e}
    \<and> reach (edges ?ns) (fresh_in (\<lambda>c. c \<noteq> GC_WHITE) ?ns) {e} \<subseteq> fresh_in (\<lambda>c. c \<noteq> GC_WHITE) ?ns"
  proof (rule collect.from_root [where J = J and enter = collect_enter, OF owed_closed_heap [OF cl c'(2)] en _ _ e(2) col w1 painted_color(2) j0])
    fix ref s V y assume a: "J V s" "nodes_of (fst s) ref = Some y" "GC_REF_COLOR y = GC_BLACK" "ref \<in> fresh_in (\<lambda>c. c \<noteq> GC_WHITE) ?ns"
    obtain v n f1 where s: "s = (v, n, f1)" by (cases s)
    have "garbage_buf I R0 W0 (D \<union> V) f1 v" "nodes_of v ref = Some y" "ref \<in> W0" using a F c'(3) s by (auto simp: J_def)
    from collect_enter_run [OF this(1,2) a(3) this(3) I, of n]
    show "\<exists>s'. collect_enter ref s = Some (Inr (s', True)) \<and> J (insert ref V) s' \<and> alike (nodes_of (fst s)) (nodes_of (fst s'))"
      unfolding s J_def by fastforce
  next
    fix v v' a V assume "J V (v, a)" "only_nodes v v'"
    then show "J V (v', a)" using garbage_buf_only_nodes by (simp add: J_def)
  qed
  then obtain w' k f' V' where w': "gc_collect_white e f ?w1 = Some (Inr (w', k, f'))" "traversed GC_BLACK 1 ?ns (nodes_of w') N (indegree ?E N)"
    "J V' (w', k, f')" "N \<subseteq> V' \<union> tables ns0" "V' \<subseteq> N" "N \<subseteq> W" unfolding E F T N_def [symmetric] gc_collect_white_def by auto
  define W' where "W' = W - N"
  have eN: "e \<in> N" unfolding N_def by (rule reach_refl) simp
  have clN: "set (?E p) \<inter> W \<subseteq> N" if "p \<in> N" for p using reach_step [of p ?E W "{e}"] that by (auto simp: N_def)
  have "collecting ns0 W0 (nodes_of w') W'" unfolding W'_def by (rule collecting_traversed [OF cl c w'(2,6) clN])
  moreover have "gathered ns0 W0 W' I R0 f' w'" unfolding gathered_def
  proof (intro exI [of _ "D \<union> V'"] conjI)
    show "garbage_buf I R0 W0 (D \<union> V') f' w'" using w'(3) by (simp add: J_def)
    show "D \<union> V' \<subseteq> W0 - W'" "W0 - W' \<subseteq> D \<union> V' \<union> tables ns0" using D(2,3) w'(4-6) c'(3) by (auto simp: W'_def)
  qed
  moreover have "W' \<subseteq> W - {e}" using eN by (auto simp: W'_def)
  ultimately show ?thesis using w'(1) by blast
qed


lemma retag_run:
  assumes v: "gc_view {} w ul R" and i: "R i = Some e" and root: "GC_IS_ROOT e"
  defines "w1 \<equiv> w\<lparr>gc_buf := (gc_buf w)[i := Some (GC_MAKE_GARBAGE e)]\<rparr>"
  shows "gc_set_entry i (GC_MAKE_GARBAGE e) w = Inr w1" "gc_view {} w1 ul (R(i \<mapsto> GC_MAKE_GARBAGE e))" "root_set (R(i \<mapsto> GC_MAKE_GARBAGE e)) = root_set R"
proof -
  note p = gc_viewD(8) [OF v i]
  have al: "aligned e" using root by (simp add: is_root_aligned)
  note tags = aligned_tags [OF al]
  show "gc_set_entry i (GC_MAKE_GARBAGE e) w = Inr w1" using p by (simp add: gc_set_entry_def w1_def)
  let ?R = "R(i \<mapsto> GC_MAKE_GARBAGE e)"
  have at: "\<exists>e'. R j = Some e' \<and> GC_GET_PTR e' = GC_GET_PTR f \<and> (GC_IS_UNUSED f \<longrightarrow> GC_IS_UNUSED e')" if "?R j = Some f" for j f
    using that i tags by (cases "j = i") auto
  show rs: "root_set ?R = root_set R"
  proof (rule set_eqI, unfold root_set_mem)
    fix q
    show "(\<exists>j f. ?R j = Some f \<and> GC_GET_PTR f = q) \<longleftrightarrow> (\<exists>j f. R j = Some f \<and> GC_GET_PTR f = q)"
    proof
      assume "\<exists>j f. R j = Some f \<and> GC_GET_PTR f = q"
      then obtain j f where f: "R j = Some f" "GC_GET_PTR f = q" by blast
      then show "\<exists>j f. ?R j = Some f \<and> GC_GET_PTR f = q" using i tags(1,5) by (cases "j = i") (auto intro: exI [of _ j])
    qed (use at in blast)
  qed
  have ok: "roots_ok (nodes_of w) ?R"
    unfolding roots_ok_def
  proof (intro conjI allI impI)
    fix j f assume f: "?R j = Some f"
    then obtain e' where e': "R j = Some e'" "GC_GET_PTR e' = GC_GET_PTR f" "GC_IS_UNUSED f \<longrightarrow> GC_IS_UNUSED e'" using at by blast
    obtain x where x: "\<not> GC_IS_UNUSED e'" "nodes_of w (GC_GET_PTR e') = Some x" "GC_REF_ADDRESS x = gc_compress j" using roots_okD [OF gc_viewD(4) [OF v] e'(1)] .
    show "\<not> GC_IS_UNUSED f" "\<exists>x. nodes_of w (GC_GET_PTR f) = Some x \<and> GC_REF_ADDRESS x = gc_compress j" using x e'(2,3) by auto
  next
    fix j k f g assume "?R j = Some f \<and> ?R k = Some g \<and> GC_GET_PTR f = GC_GET_PTR g"
    then show "j = k" using at [of j f] at [of k g] roots_ok_inj [OF gc_viewD(4) [OF v]] by metis
  next
    fix q x assume q: "nodes_of w q = Some x \<and> GC_REF_ADDRESS x \<noteq> 0"
    then have "q \<in> root_set R" using root_set_iff [OF v] by blast
    then show "\<exists>j f. ?R j = Some f \<and> GC_GET_PTR f = q" unfolding rs [symmetric] root_set_mem .
  qed
  have "unused_chain (gc_buf w1) (gc_unused w) ul" using gc_viewD(2) [OF v] unused_chain_update p by (simp add: gc_free_list_def w1_def)
  moreover have "gc_holds {} w1 ul ?R" using gc_viewD(3) [OF v] i p by (auto simp: gc_holds_def w1_def nth_list_update)
  ultimately show "gc_view {} w1 ul ?R" using v ok by (simp add: gc_view_def gc_sizes_def gc_free_list_def w1_def)
qed

lemma gathered_retag:
  assumes g: "gathered ns0 W0 W (set (i # is)) R0 f w" and i: "R0 i = Some e" "GC_IS_ROOT e" and ds: "i \<notin> set is"
  shows "\<exists>w1. gc_entry w i = Inr e \<and> gc_set_entry i (GC_MAKE_GARBAGE e) w = Inr w1 \<and> nodes_of w1 = nodes_of w \<and> gathered ns0 W0 W (set is) R0 f w1 \<and> e \<in> W0 \<and> e \<in> dom (nodes_of w)"
proof -
  obtain D where D: "garbage_buf (set (i # is)) R0 W0 D f w" "D \<subseteq> W0 - W" "W0 - W \<subseteq> D \<union> tables ns0" using g by (auto simp: gathered_def)
  obtain ul R where R: "gc_view {} w ul R" "\<forall>j\<in>set (i # is). R j = R0 j" "\<forall>j e. R j = Some e \<and> j \<notin> set (i # is) \<longrightarrow> GC_IS_GARBAGE e" "root_set R \<subseteq> W0"
    "\<forall>p\<in>D. node_is garbage_kind (nodes_of w) p \<longrightarrow> p \<in> root_set R" using D(1) unfolding garbage_buf_def by blast
  have f: "f \<longleftrightarrow> (\<exists>p\<in>D. node_is has_dtor (nodes_of w) p)" and inf: "infos (nodes_of w)" and few: "few (nodes_of w)" using D(1) unfolding garbage_buf_def by blast+
  have Ri: "R i = Some e" using R(2) i(1) by simp
  define w1 where "w1 = w\<lparr>gc_buf := (gc_buf w)[i := Some (GC_MAKE_GARBAGE e)]\<rparr>"
  let ?R = "R(i \<mapsto> GC_MAKE_GARBAGE e)"
  note t = retag_run [OF R(1) Ri i(2), folded w1_def]
  have n: "nodes_of w1 = nodes_of w" by (simp add: w1_def)
  have r1: "\<forall>j\<in>set is. ?R j = R0 j" using R(2) ds by auto
  have r2: "\<forall>j e. ?R j = Some e \<and> j \<notin> set is \<longrightarrow> GC_IS_GARBAGE e" using R(3) aligned_tags(8) [of e] i(2) by (auto simp: is_root_aligned)
  have "garbage_buf (set is) R0 W0 D f w1"
    by (rule garbage_bufI [OF t(2) r1 r2]) (unfold n t(3), fact R(4), fact R(5), fact f, fact inf, fact few)
  then have "gathered ns0 W0 W (set is) R0 f w1" using D(2,3) by (auto simp: gathered_def)
  moreover have "e \<in> root_set R" using Ri root_ptr [OF i(2)] by (auto simp: root_set_mem)
  then have "e \<in> W0" using R(4) by blast
  moreover obtain x where "nodes_of w e = Some x" using roots_okD [OF gc_viewD(4) [OF R(1)] Ri] root_ptr [OF i(2)] by metis
  ultimately show ?thesis using t(1) n view_entry [OF R(1) Ri] by auto
qed

lemma collect_loop_run:
  assumes cl: "closed_heap ns0" and r: "\<forall>e\<in>ran R0. GC_IS_ROOT e"
  shows "collecting ns0 W0 (nodes_of w) W \<Longrightarrow> gathered ns0 W0 W (set is) R0 f w \<Longrightarrow> distinct is \<Longrightarrow> set is \<subseteq> dom R0 \<Longrightarrow>
    \<exists>w' k f' W'. each_entry collect_root is (w, n, f) = Some (Inr (w', k, f')) \<and> collecting ns0 W0 (nodes_of w') W' \<and> gathered ns0 W0 W' {} R0 f' w'
      \<and> W' \<subseteq> W \<and> (\<forall>i\<in>set is. \<forall>e. R0 i = Some e \<longrightarrow> e \<notin> W')"
proof (induction "is" arbitrary: w n f W)
  case Nil
  then show ?case by auto
next
  case (Cons i "is")
  obtain e where e: "R0 i = Some e" using Cons.prems(4) by auto
  then have root: "GC_IS_ROOT e" using r by (auto simp: ran_def)
  have ds: "i \<notin> set is" "distinct is" and sub: "set is \<subseteq> dom R0" using Cons.prems(3,4) by auto
  obtain w1 where w1: "gc_entry w i = Inr e" "gc_set_entry i (GC_MAKE_GARBAGE e) w = Inr w1" "nodes_of w1 = nodes_of w" "gathered ns0 W0 W (set is) R0 f w1"
    "e \<in> W0" "e \<in> dom (nodes_of w)" using gathered_retag [OF Cons.prems(2) e root ds(1)] by blast
  obtain x where x: "nodes_of w1 e = Some x" using w1(3,6) by auto
  have c1: "collecting ns0 W0 (nodes_of w1) W" using Cons.prems(1) w1(3) by simp
  then have col: "GC_REF_COLOR x = (if e \<in> W then GC_WHITE else GC_BLACK)" using x by (simp add: collecting_def shade_def)
  have "\<exists>w2 k f2 W2. collect_root i e (w, n, f) = Some (Inr (w2, k, f2)) \<and> collecting ns0 W0 (nodes_of w2) W2 \<and> gathered ns0 W0 W2 (set is) R0 f2 w2 \<and> W2 \<subseteq> W - {e}"
  proof (cases "e \<in> W")
    case True
    obtain w2 k f2 W2 where w2: "gc_collect_white e f (w1\<lparr>nodes_of := (nodes_of w1)(e \<mapsto> GC_REF_SET_BLACK x)\<rparr>) = Some (Inr (w2, k, f2))"
      "collecting ns0 W0 (nodes_of w2) W2" "gathered ns0 W0 W2 (set is) R0 f2 w2" "W2 \<subseteq> W - {e}"
      using collect_white_run [OF cl c1 True x w1(4)] sub by blast
    have "collect_root i e (w, n, f) = Some (Inr (w2, n + k, f2))"
      using root w1(2) x col True w2(1) by (simp add: collect_root_def gc_then_def gc_node_at_Some gc_upd_Some check_color)
    then show ?thesis using w2(2-4) by blast
  next
    case False
    then have "GC_REF_COLOR x \<noteq> GC_WHITE" using col colors_distinct by simp
    then have "collect_root i e (w, n, f) = Some (Inr (w1, n, f))"
      using root w1(2) x by (simp add: collect_root_def gc_then_def gc_node_at_Some check_color)
    then show ?thesis using c1 w1(4) False by blast
  qed
  then obtain w2 k f2 W2 where w2: "collect_root i e (w, n, f) = Some (Inr (w2, k, f2))" "collecting ns0 W0 (nodes_of w2) W2" "gathered ns0 W0 W2 (set is) R0 f2 w2"
    "W2 \<subseteq> W - {e}" by blast
  obtain w' k' f' W' where w': "each_entry collect_root is (w2, k, f2) = Some (Inr (w', k', f'))" "collecting ns0 W0 (nodes_of w') W'" "gathered ns0 W0 W' {} R0 f' w'"
    "W' \<subseteq> W2" "\<forall>i\<in>set is. \<forall>e. R0 i = Some e \<longrightarrow> e \<notin> W'" using Cons.IH [OF w2(2,3) ds(2) sub] by blast
  have "each_entry collect_root (i # is) (w, n, f) = Some (Inr (w', k', f'))" using w1(1) w2(1) w'(1) by simp
  moreover have "W' \<subseteq> W" "\<forall>i\<in>set (i # is). \<forall>e. R0 i = Some e \<longrightarrow> e \<notin> W'" using w'(4,5) w2(4) e by auto
  ultimately show ?case using w'(2,3) by blast
qed


lemma shade_alike: "alike m n \<Longrightarrow> shade m W H \<Longrightarrow> shade n W H"
  unfolding shade_def
proof (intro allI impI)
  fix p y assume a: "alike m n" and s: "\<forall>p x. m p = Some x \<longrightarrow> GC_REF_COLOR x = (if p \<in> W then GC_WHITE else if p \<in> H then GC_GREY else GC_BLACK)" and y: "n p = Some y"
  obtain x where "m p = Some x" "gc_data y = gc_data x" "gc_refcount y = gc_refcount x" "GC_REF_COLOR y = GC_REF_COLOR x" using alike_at [OF a y] .
  then show "GC_REF_COLOR y = (if p \<in> W then GC_WHITE else if p \<in> H then GC_GREY else GC_BLACK)" using s by simp
qed

lemma owed_alike: "alike m n \<Longrightarrow> owed ns0 m Y \<Longrightarrow> owed ns0 n Y"
  unfolding owed_def
proof (elim conjE, intro conjI allI impI)
  assume a: "alike m n" and d: "dom m = dom ns0"
  show "dom n = dom ns0" using alikeD(1) [OF a] d by simp
  fix q x0 y
  assume o: "\<forall>q x0 x. ns0 q = Some x0 \<and> m q = Some x \<longrightarrow> gc_data x = gc_data x0 \<and> int (gc_refcount x) = int (gc_refcount x0) - int (indegree (edges ns0) Y q)"
    and q: "ns0 q = Some x0 \<and> n q = Some y"
  obtain x where x: "m q = Some x" "gc_data y = gc_data x" "gc_refcount y = gc_refcount x" "GC_REF_COLOR y = GC_REF_COLOR x" using alike_at [OF a conjunct2 [OF q]] .
  then show "gc_data y = gc_data x0" "int (gc_refcount y) = int (gc_refcount x0) - int (indegree (edges ns0) Y q)" using o q by auto
qed

lemma without_black_ran:
  assumes s: "shade ns W {}" and d: "\<forall>e\<in>ran R. e \<in> dom ns" and I: "dom R \<subseteq> I"
  shows "ran (without_black ns I R) = ran R \<inter> W"
proof -
  have b: "black_node ns e \<longleftrightarrow> e \<notin> W" if e: "e \<in> ran R" for e
  proof -
    obtain x where "ns e = Some x" using d e by blast
    then show ?thesis using s colors_distinct(1) by (auto simp: black_node_def shade_def)
  qed
  have "without_black ns I R i = Some e \<longleftrightarrow> R i = Some e \<and> e \<in> W" for i e
    using b [of e] I by (auto simp: without_black_def ran_def split: option.splits)
  then show ?thesis by (auto simp: ran_def)
qed

lemma white_reach:
  assumes s: "scanning ns0 G ns {} W {}" and G: "G = reach (edges ns0) UNIV P"
  shows "W \<subseteq> reach (edges ns0) W (P \<inter> W)"
proof -
  note sc = scanningD [OF s]
  let ?E = "edges ns0"
  have "reach ?E UNIV P \<subseteq> (G - W) \<union> reach ?E W (P \<inter> W)"
  proof (rule reach_closed)
    show "P \<subseteq> (G - W) \<union> reach ?E W (P \<inter> W)" using reach_refl [of _ P ?E UNIV] reach_refl [of _ "P \<inter> W" ?E W] unfolding G by blast
    fix p q assume p: "p \<in> (G - W) \<union> reach ?E W (P \<inter> W)" "q \<in> set (?E p)"
    have "reach ?E W (P \<inter> W) \<subseteq> G" by (rule reach_closed) (use sc(4) in auto)
    then have qG: "q \<in> G" using p sc(6) unfolding closed_under_def by blast
    show "q \<in> (G - W) \<union> reach ?E W (P \<inter> W)"
    proof (cases "q \<in> W")
      case True
      then have "p \<notin> G - W" using sc(7) [of p] p(2) by auto
      then show ?thesis using p reach_step [of p ?E W "P \<inter> W" q] True by blast
    qed (use qG in blast)
  qed
  then show ?thesis using sc(4) G by blast
qed

definition garbage_found :: "(u64 \<rightharpoonup> gc_node) \<Rightarrow> u64 set \<Rightarrow> bool \<Rightarrow> zend_gc_globals \<Rightarrow> bool" where
  "garbage_found ns0 W f w \<longleftrightarrow> shade (nodes_of w) {} {} \<and> owed ns0 (nodes_of w) {}
     \<and> (\<exists>ul R. gc_view {} w ul R \<and> (\<forall>e\<in>ran R. GC_IS_GARBAGE e) \<and> root_set R \<subseteq> W \<and> (\<forall>p\<in>W - tables ns0. node_is garbage_kind ns0 p \<longrightarrow> p \<in> root_set R))
     \<and> (f \<longleftrightarrow> (\<exists>p\<in>W. node_is has_dtor ns0 p))"

lemma owed_node_is: "owed ns0 ns Y \<Longrightarrow> node_is P ns p = node_is P ns0 p"
proof -
  assume o: "owed ns0 ns Y"
  show ?thesis
  proof (cases "ns0 p")
    case None
    then have "ns p = None" using owedD(1) [OF o] by auto
    then show ?thesis using None by (simp add: node_is_def)
  next
    case (Some x0)
    then obtain x where "ns p = Some x" using dom_Some [OF owedD(1) [OF o, symmetric]] by blast
    then show ?thesis using Some owedD(2) [OF o Some] by (simp add: node_is_def)
  qed
qed

lemma tables_no_dtor: "closed_heap ns \<Longrightarrow> t \<in> tables ns \<Longrightarrow> \<not> node_is has_dtor ns t"
proof -
  assume cl: "closed_heap ns" and "t \<in> tables ns"
  then obtain p x where p: "ns p = Some x" "table_of (gc_data x) = Some t" by (auto simp: tables_def)
  from closed_heapD(3) [OF cl p] obtain y pk es where "ns t = Some y" "gc_data y = Gc_Array pk es" by blast
  then show ?thesis by (simp add: node_is_def)
qed

lemma gathered_found:
  assumes cl: "closed_heap ns0" and c: "collecting ns0 W (nodes_of w) {}" and g: "gathered ns0 W {} {} R0 f w"
  shows "garbage_found ns0 W f w"
proof -
  obtain D where D: "garbage_buf {} R0 W D f w" "D \<subseteq> W" "W \<subseteq> D \<union> tables ns0" using g by (auto simp: gathered_def)
  obtain ul R where R: "gc_view {} w ul R" "\<forall>j e. R j = Some e \<and> j \<notin> {} \<longrightarrow> GC_IS_GARBAGE e" "root_set R \<subseteq> W"
    "\<forall>p\<in>D. node_is garbage_kind (nodes_of w) p \<longrightarrow> p \<in> root_set R" using D(1) unfolding garbage_buf_def by blast
  have f: "f \<longleftrightarrow> (\<exists>p\<in>D. node_is has_dtor (nodes_of w) p)" using D(1) unfolding garbage_buf_def by blast
  have o: "owed ns0 (nodes_of w) {}" "shade (nodes_of w) {} {}" using c by (simp_all add: collecting_def)
  note is0 = owed_node_is [OF o(1)]
  have "\<forall>e\<in>ran R. GC_IS_GARBAGE e" using R(2) by (auto simp: ran_def)
  moreover have "\<forall>p\<in>W - tables ns0. node_is garbage_kind ns0 p \<longrightarrow> p \<in> root_set R" using R(4) D(3) unfolding is0 by blast
  moreover have "f \<longleftrightarrow> (\<exists>p\<in>W. node_is has_dtor ns0 p)" using f D(2,3) tables_no_dtor [OF cl] unfolding is0 by blast
  ultimately show ?thesis unfolding garbage_found_def using o R(1,3) by blast
qed

lemma collect_roots_run:
  assumes v: "gc_view {} w [] R" and r: "\<forall>e\<in>ran R. GC_IS_ROOT e" and cl: "closed_heap ns0" and p: "purple ns0 \<subseteq> root_set R"
    and s: "scanning ns0 G (nodes_of w) {} W {}" and G: "G = reach (edges ns0) UNIV (purple ns0)" and inf: "infos (nodes_of w)" and few: "few (nodes_of w)"
  shows "\<exists>w' n f. gc_collect_roots False w = Some (Inr (w', n, f)) \<and> garbage_found ns0 W f w'"
proof -
  note sc = scanningD [OF s]
  let ?I = "[GC_FIRST_ROOT ..< first_unused w]" and ?R = "without_black (nodes_of w) (set [GC_FIRST_ROOT ..< first_unused w]) R"
  have I: "set ?I = dom R" using view_positions [OF v] by simp
  obtain w1 ul1 where w1: "each_entry remove_black_root ?I (w, ()) = Some (Inr (w1, ()))" "gc_view {} w1 ul1 ?R" "alike (nodes_of w) (nodes_of w1)" "infos (nodes_of w1)"
    using remove_loop_run [OF v distinct_upt equalityD1 [OF I] r inf] by blast
  obtain w2 R2 where w2: "gc_compact w1 = Inr w2" "gc_view {} w2 [] R2" "ran R2 = ran ?R" "same_nodes (nodes_of w1) (nodes_of w2)" using compact_run [OF w1(2)] by blast
  have al: "alike (nodes_of w) (nodes_of w2)" using alike_trans [OF w1(3) same_alike [OF w2(4)]] .
  have dR: "\<forall>e\<in>ran R. e \<in> dom (nodes_of w)"
  proof
    fix e assume "e \<in> ran R"
    then obtain i where "R i = Some e" "GC_GET_PTR e = e" using r root_ptr by (auto simp: ran_def)
    then show "e \<in> dom (nodes_of w)" using roots_okD [OF gc_viewD(4) [OF v]] by (metis domI)
  qed
  have rR: "ran R2 = ran R \<inter> W" using without_black_ran [OF sc(1) dR, of "set ?I"] I w2(3) by simp
  have r2: "\<forall>e\<in>ran R2. GC_IS_ROOT e" using rR r by blast
  have rs: "root_set R2 = ran R \<inter> W" unfolding root_set_ran rR using r root_ptr by force
  have shd: "shade (nodes_of w2) W {}" and owe: "owed ns0 (nodes_of w2) W" using shade_alike [OF al sc(1)] owed_alike [OF al sc(3)] by simp_all
  have c2: "collecting ns0 W (nodes_of w2) W" using shd owe sc(4,5) by (auto simp: collecting_def)
  have "garbage_buf (dom R2) R2 W {} False w2"
    by (rule garbage_bufI [OF w2(2)]) (use rs infos_same [OF w1(4) w2(4)] few_dom [OF few alikeD(1) [OF al]] in auto)
  then have g2: "gathered ns0 W W (set [GC_FIRST_ROOT ..< first_unused w2]) R2 False w2" unfolding view_positions [OF w2(2), symmetric] by (auto simp: gathered_def)
  obtain w' k f W' where w': "each_entry collect_root [GC_FIRST_ROOT ..< first_unused w2] (w2, 0, False) = Some (Inr (w', k, f))" "collecting ns0 W (nodes_of w') W'"
    "gathered ns0 W W' {} R2 f w'" "\<forall>i\<in>set [GC_FIRST_ROOT ..< first_unused w2]. \<forall>e. R2 i = Some e \<longrightarrow> e \<notin> W'"
    using collect_loop_run [OF cl r2 c2 g2 distinct_upt] view_positions [OF w2(2)] by blast
  have "\<forall>e\<in>ran R2. e \<notin> W'" using w'(4) view_positions [OF w2(2)] by (auto simp: ran_def)
  moreover have "purple ns0 \<inter> W \<subseteq> ran R2"
  proof
    fix q assume q: "q \<in> purple ns0 \<inter> W"
    then obtain i e where e: "R i = Some e" "GC_GET_PTR e = q" using p root_set_mem by blast
    then have "GC_GET_PTR e = e" using r root_ptr ranI by metis
    then have "q \<in> ran R" using e ranI by metis
    then show "q \<in> ran R2" using q rR by blast
  qed
  ultimately have start: "purple ns0 \<inter> W \<subseteq> W - W'" by blast
  have "reach (edges ns0) W (purple ns0 \<inter> W) \<subseteq> W - W'"
  proof (rule reach_closed [OF start])
    fix a b assume "a \<in> W - W'" "b \<in> set (edges ns0 a)" "b \<in> W"
    then show "b \<in> W - W'" using w'(2) unfolding collecting_def by blast
  qed
  then have W': "W' = {}" using white_reach [OF s G] w'(2) by (auto simp: collecting_def)
  have "gc_collect_roots False w = Some (Inr (w', k, f))"
    using w1(1) w2(1) w'(1) by (simp add: gc_collect_roots_def gc_then_def plain_result_def)
  moreover have "garbage_found ns0 W f w'" using gathered_found [OF cl] w'(2,3) unfolding W' by blast
  ultimately show ?thesis by blast
qed


section \<open>The search for garbage\<close>

text \<open>Specification: the suspects are what can be reached from the candidates. A suspect is garbage unless it can be reached from a node with a
  reference that is not in a node, or from a node that is no suspect.\<close>

definition suspects :: "(u64 \<rightharpoonup> gc_node) \<Rightarrow> u64 set" where
  "suspects ns = reach (edges ns) UNIV (purple ns)"

definition anchors :: "(u64 \<rightharpoonup> gc_node) \<Rightarrow> u64 set" where
  "anchors ns = {p. \<exists>x. ns p = Some x \<and> indegree (edges ns) (dom ns) p < gc_refcount x} \<union> (dom ns - suspects ns)"

definition garbage :: "(u64 \<rightharpoonup> gc_node) \<Rightarrow> u64 set" where
  "garbage ns = suspects ns - reach (edges ns) UNIV (anchors ns)"

lemma closed_reach: "p \<in> reach E UNIV S \<Longrightarrow> q \<in> set (E p) \<Longrightarrow> q \<in> reach E UNIV S"
  by (rule reach_step) auto

lemma suspects_dom: "closed_heap ns \<Longrightarrow> suspects ns \<subseteq> dom ns"
  unfolding suspects_def by (rule reach_closed) (auto simp: purple_def dest: closed_heapD(2))

lemma indegree_pos: "finite D \<Longrightarrow> p \<in> D \<Longrightarrow> q \<in> set (E p) \<Longrightarrow> 0 < indegree E D q"
proof -
  assume a: "finite D" "p \<in> D" "q \<in> set (E p)"
  have "0 < count_list (E p) q" using a(3) by (simp add: count_list_0_iff neq0_conv [symmetric])
  also have "\<dots> \<le> indegree E D q" unfolding indegree_def by (rule member_le_sum) (use a in auto)
  finally show ?thesis .
qed

lemma garbage_live:
  assumes cl: "closed_heap ns" and co: "counts_ok ns"
  shows "suspects ns - reach (edges ns) UNIV (outside_refs ns (suspects ns)) = garbage ns"
proof -
  let ?E = "edges ns" and ?G = "suspects ns"
  have fin: "finite (dom ns)" using closed_heapD(1) [OF cl] .
  have Gd: "?G \<subseteq> dom ns" using suspects_dom [OF cl] .
  have deg: "indegree ?E (dom ns) q = indegree ?E (dom ns - ?G) q + indegree ?E ?G q" for q by (rule indegree_diff [OF fin Gd])
  have "reach ?E UNIV (outside_refs ns ?G) \<subseteq> reach ?E UNIV (anchors ns)"
  proof (rule reach_trans, rule subsetI)
    fix q assume "q \<in> outside_refs ns ?G"
    then obtain x where x: "ns q = Some x" "indegree ?E ?G q < gc_refcount x" by (auto simp: outside_refs_def)
    show "q \<in> reach ?E UNIV (anchors ns)"
    proof (cases "indegree ?E (dom ns - ?G) q = 0")
      case True
      then have "q \<in> anchors ns" using x deg [of q] by (auto simp: anchors_def)
      then show ?thesis by (rule reach_refl)
    next
      case False
      then obtain p where "p \<in> dom ns - ?G" "count_list (?E p) q \<noteq> 0" unfolding indegree_def by (metis (mono_tags, lifting) sum.neutral)
      then have "p \<in> anchors ns" "q \<in> set (?E p)" by (auto simp: anchors_def count_list_0_iff)
      then show ?thesis using closed_reach [OF reach_refl] by metis
    qed
  qed
  moreover have "reach ?E UNIV (anchors ns) \<subseteq> (dom ns - ?G) \<union> reach ?E UNIV (outside_refs ns ?G)"
  proof (rule reach_closed)
    show "anchors ns \<subseteq> (dom ns - ?G) \<union> reach ?E UNIV (outside_refs ns ?G)"
    proof
      fix q assume q: "q \<in> anchors ns"
      show "q \<in> (dom ns - ?G) \<union> reach ?E UNIV (outside_refs ns ?G)"
      proof (cases "q \<in> ?G")
        case True
        then have "q \<in> outside_refs ns ?G" using q deg [of q] by (auto simp: anchors_def outside_refs_def)
        then show ?thesis using reach_refl by blast
      qed (use q in \<open>auto simp: anchors_def\<close>)
    qed
    fix p q assume p: "p \<in> (dom ns - ?G) \<union> reach ?E UNIV (outside_refs ns ?G)" "q \<in> set (?E p)"
    have qd: "q \<in> dom ns" using closed_heapD(2) [OF cl] p(2) by blast
    show "q \<in> (dom ns - ?G) \<union> reach ?E UNIV (outside_refs ns ?G)"
    proof (cases "q \<in> ?G \<and> p \<in> dom ns - ?G")
      case True
      obtain x where x: "ns q = Some x" using qd by blast
      have "0 < indegree ?E (dom ns - ?G) q" by (rule indegree_pos [of _ p]) (use fin True p(2) in auto)
      moreover have "indegree ?E (dom ns) q \<le> gc_refcount x" using co x unfolding counts_ok_def by blast
      ultimately have "q \<in> outside_refs ns ?G" using deg [of q] x True by (auto simp: outside_refs_def)
      then show ?thesis using reach_refl by blast
    qed (use p closed_reach qd in blast)
  qed
  ultimately show ?thesis unfolding garbage_def by blast
qed

definition collector_ready :: "zend_gc_globals \<Rightarrow> bool" where
  "collector_ready w \<longleftrightarrow> (\<exists>ul R. gc_view {} w ul R \<and> (\<forall>e\<in>ran R. GC_IS_ROOT e) \<and> purple (nodes_of w) \<subseteq> root_set R)
     \<and> heap_ok (nodes_of w) \<and> infos (nodes_of w) \<and> few (nodes_of w)"

lemma mark_roots_nodes:
  assumes g: "greyed ns (nodes_of w') G" and a: "alike (nodes_of w) ns"
  shows "dom (nodes_of w') = dom (nodes_of w)"
  using traversed_dom g alikeD(1) [OF a] unfolding greyed_def by metis

lemma garbage_found_alike:
  assumes a: "alike m n" and g: "garbage_found n W f w"
  shows "garbage_found m W f w"
proof -
  have t: "tables n = tables m"
  proof -
    have "tables b \<subseteq> tables c" if bc: "alike c b" for b c
    proof
      fix t assume "t \<in> tables b"
      then obtain p y where p: "b p = Some y" "table_of (gc_data y) = Some t" by (auto simp: tables_def)
      obtain x where "c p = Some x" "gc_data y = gc_data x" "gc_refcount y = gc_refcount x" "GC_REF_COLOR y = GC_REF_COLOR x" using alike_at [OF bc p(1)] .
      then show "t \<in> tables c" using p(2) by (auto simp: tables_def)
    qed
    then show ?thesis using a alike_sym [OF a] by blast
  qed
  have "owed m (nodes_of w) {}"
    unfolding owed_def
  proof (intro conjI allI impI)
    have o: "owed n (nodes_of w) {}" using g by (simp add: garbage_found_def)
    show "dom (nodes_of w) = dom m" using owedD(1) [OF o] alikeD(1) [OF a] by simp
    fix q x y assume q: "m q = Some x \<and> nodes_of w q = Some y"
    obtain z where z: "n q = Some z" "gc_data x = gc_data z" "gc_refcount x = gc_refcount z" "GC_REF_COLOR x = GC_REF_COLOR z"
      using alike_at [OF alike_sym [OF a] conjunct1 [OF q]] .
    show "gc_data y = gc_data x" "int (gc_refcount y) = int (gc_refcount x) - int (indegree (edges m) {} q)"
      using owedD(2,3) [OF o z(1)] q z(2,3) by auto
  qed
  then show ?thesis using g unfolding garbage_found_def t node_is_alike [OF a] by blast
qed

lemma garbage_alike: "alike m n \<Longrightarrow> heap_ok m \<Longrightarrow> garbage n = garbage m"
proof -
  assume a: "alike m n" and h: "heap_ok m"
  have s: "suspects n = suspects m" unfolding suspects_def alike_edges [OF a] alike_heap(2) [OF a h] by blast
  have "anchors n = anchors m" unfolding anchors_def s alike_edges [OF a] alikeD(1) [OF a]
  proof -
    have "{p. \<exists>x. b p = Some x \<and> k p < gc_refcount x} \<subseteq> {p. \<exists>x. c p = Some x \<and> k p < gc_refcount x}" if bc: "alike c b" for b c k
    proof
      fix p assume "p \<in> {p. \<exists>x. b p = Some x \<and> k p < gc_refcount x}"
      then obtain y where y: "b p = Some y" "k p < gc_refcount y" by blast
      obtain x where "c p = Some x" "gc_data y = gc_data x" "gc_refcount y = gc_refcount x" "GC_REF_COLOR y = GC_REF_COLOR x" using alike_at [OF bc y(1)] .
      then show "p \<in> {p. \<exists>x. c p = Some x \<and> k p < gc_refcount x}" using y(2) by simp
    qed
    from this [OF a] this [OF alike_sym [OF a]]
    show "{p. \<exists>x. n p = Some x \<and> indegree (edges m) (dom m) p < gc_refcount x} \<union> (dom m - suspects m)
        = {p. \<exists>x. m p = Some x \<and> indegree (edges m) (dom m) p < gc_refcount x} \<union> (dom m - suspects m)" by blast
  qed
  then show ?thesis unfolding garbage_def s alike_edges [OF a] by simp
qed

lemma collect_cycles_trace_run:
  assumes rd: "collector_ready w" and n: "num_roots w \<noteq> 0" "\<not> gc_active w"
  shows "\<exists>w' n f. collect_cycles_trace w = Some (Inr (w', n, f)) \<and> garbage_found (nodes_of w) (garbage (nodes_of w)) f w'"
proof -
  obtain ul R where R: "gc_view {} w ul R" "\<forall>e\<in>ran R. GC_IS_ROOT e" "purple (nodes_of w) \<subseteq> root_set R"
    and h: "heap_ok (nodes_of w)" and inf: "infos (nodes_of w)" and few: "few (nodes_of w)" using rd unfolding collector_ready_def by blast
  define w0 where "w0 = w\<lparr>gc_runs := gc_runs w + 1, gc_active := True\<rparr>"
  have n0: "nodes_of w0 = nodes_of w" by (simp add: w0_def)
  have v0: "gc_view {} w0 ul R" by (rule gc_view_cong [OF R(1)]) (simp_all add: w0_def)
  obtain w1 R1 ns where w1: "gc_mark_roots w0 = Some (Inr w1)" "gc_view {} w1 [] R1" "ran R1 = ran R" "alike (nodes_of w) ns"
    "greyed ns (nodes_of w1) (suspects (nodes_of w))" "infos (nodes_of w1)"
    using mark_roots_run [OF v0, unfolded n0, OF h R(2,3) inf] unfolding suspects_def by blast
  note h1 = alike_heap [OF w1(4) h]
  have cl: "closed_heap ns" and co: "counts_ok ns" using h1(1) by (simp_all add: heap_ok_def)
  have r1: "\<forall>e\<in>ran R1. GC_IS_ROOT e" and p1: "purple ns \<subseteq> root_set R1" using R(2,3) w1(3) h1(2) by (simp_all add: root_set_ran)
  have G: "suspects (nodes_of w) = reach (edges ns) UNIV (purple ns)" unfolding suspects_def alike_edges [OF w1(4)] h1(2) by blast
  then have Gs: "suspects (nodes_of w) = suspects ns" by (simp add: suspects_def)
  obtain w2 where w2: "gc_scan_roots w1 = Some (Inr w2)" "only_nodes w1 w2"
    "scanning ns (suspects ns) (nodes_of w2) {} (suspects ns - reach (edges ns) UNIV (outside_refs ns (suspects ns))) {}"
    using scan_roots_run [OF w1(2) r1 h1(1) p1 w1(5) G] unfolding Gs by blast
  have d2: "dom (nodes_of w2) = dom (nodes_of w)" using only_nodesD(6) [OF w2(2)] mark_roots_nodes [OF w1(5,4)] by simp
  have W: "suspects ns - reach (edges ns) UNIV (outside_refs ns (suspects ns)) = garbage (nodes_of w)"
    using garbage_live [OF cl co] garbage_alike [OF w1(4) h] by simp
  obtain w3 k f where w3: "gc_collect_roots False w2 = Some (Inr (w3, k, f))" "garbage_found ns (garbage (nodes_of w)) f w3"
    using collect_roots_run [OF only_nodes_view [OF w1(2) w2(2)] r1 cl p1 w2(3) _ infos_only_nodes [OF w1(6) w2(2)] few_dom [OF few d2]] G unfolding Gs W by blast
  let ?w' = "if num_roots w3 = 0 then w3\<lparr>gc_active := False\<rparr> else w3"
  have "garbage_found (nodes_of w) (garbage (nodes_of w)) f w3" by (rule garbage_found_alike [OF w1(4) w3(2)])
  moreover have "gc_view {} ?w' ul' R'" if "gc_view {} w3 ul' R'" for ul' R' by (rule gc_view_cong [OF that]) simp_all
  moreover have "nodes_of ?w' = nodes_of w3" by simp
  ultimately have "garbage_found (nodes_of w) (garbage (nodes_of w)) f ?w'" unfolding garbage_found_def by metis
  moreover have "collect_cycles_trace w = Some (Inr (?w', k, f))"
    using n w1(1) w2(1) w3(1) by (simp add: collect_cycles_trace_def gc_then_def w0_def)
  ultimately show ?thesis by blast
qed


lemma edge_dom: "q \<in> set (edges ns p) \<Longrightarrow> p \<in> dom ns"
  by (cases "ns p") (auto simp: edges_def)

text \<open>All references to garbage come from garbage.\<close>

lemma garbage_refs:
  assumes cl: "closed_heap ns" and co: "counts_ok ns" and q: "q \<in> garbage ns"
  shows "q \<in> set (edges ns p) \<Longrightarrow> p \<in> garbage ns" "\<exists>x. ns q = Some x \<and> gc_refcount x = indegree (edges ns) (garbage ns) q"
proof -
  let ?E = "edges ns"
  have back_ref: "p \<in> garbage ns" if e: "q \<in> set (?E p)" for p
  proof (rule ccontr)
    assume n: "p \<notin> garbage ns"
    have "p \<in> dom ns" using e by (rule edge_dom)
    then have "p \<in> reach ?E UNIV (anchors ns)" using n reach_refl [of p "anchors ns" ?E UNIV] by (auto simp: garbage_def anchors_def)
    then show False using closed_reach [of p ?E "anchors ns" q] e q by (auto simp: garbage_def)
  qed
  show "q \<in> set (edges ns p) \<Longrightarrow> p \<in> garbage ns" by (rule back_ref)
  have sub: "garbage ns \<subseteq> dom ns" using suspects_dom [OF cl] by (auto simp: garbage_def)
  obtain x where x: "ns q = Some x" using q sub by blast
  have "q \<notin> anchors ns" using q reach_refl by (auto simp: garbage_def)
  then have "gc_refcount x = indegree ?E (dom ns) q" using x co unfolding anchors_def counts_ok_def by force
  also have "\<dots> = indegree ?E (dom ns - garbage ns) q + indegree ?E (garbage ns) q" by (rule indegree_diff [OF closed_heapD(1) [OF cl] sub])
  also have "indegree ?E (dom ns - garbage ns) q = 0" using back_ref by (intro indegree_zero) blast
  finally show "\<exists>x. ns q = Some x \<and> gc_refcount x = indegree ?E (garbage ns) q" using x by simp
qed

text \<open>Nodes that only have references from each other are garbage when they can be reached from candidates.\<close>

lemma island_garbage:
  assumes cl: "closed_heap ns" and co: "counts_ok ns" and S: "S \<subseteq> suspects ns" and c: "\<forall>q\<in>S. \<exists>x. ns q = Some x \<and> gc_refcount x = indegree (edges ns) S q"
  shows "S \<subseteq> garbage ns"
proof -
  let ?E = "edges ns"
  have fin: "finite (dom ns)" using closed_heapD(1) [OF cl] .
  have sub: "S \<subseteq> dom ns" using S suspects_dom [OF cl] by blast
  have le: "indegree ?E (dom ns) q = indegree ?E S q" if q: "q \<in> S" for q
  proof -
    obtain x where "ns q = Some x" "gc_refcount x = indegree ?E S q" using c q by blast
    then show ?thesis using co indegree_mono [OF fin sub, of ?E q] unfolding counts_ok_def by fastforce
  qed
  have "reach ?E UNIV (anchors ns) \<subseteq> - S"
  proof (rule reach_closed)
    show "anchors ns \<subseteq> - S"
    proof
      fix q assume q: "q \<in> anchors ns"
      show "q \<in> - S"
      proof
        assume "q \<in> S"
        then obtain x where "ns q = Some x" "gc_refcount x = indegree ?E (dom ns) q" using c le by fastforce
        then show False using q S \<open>q \<in> S\<close> by (auto simp: anchors_def)
      qed
    qed
    fix p q assume p: "p \<in> - S" "q \<in> set (?E p)"
    show "q \<in> - S"
    proof
      assume q: "q \<in> S"
      have "p \<in> dom ns - S" using p edge_dom [OF p(2)] by blast
      then have "0 < indegree ?E (dom ns - S) q" using p(2) fin by (intro indegree_pos [of _ p]) auto
      then show False using indegree_diff [OF fin sub, of ?E q] le [OF q] by simp
    qed
  qed
  then show ?thesis using S by (auto simp: garbage_def)
qed

section \<open>A ring of two arrays\<close>

definition ring_node :: "u32 \<Rightarrow> u64 \<Rightarrow> gc_node" where
  "ring_node info p = \<lparr>gc_refcount = 1, gc_info = info, gc_data = Gc_Array True [Not_Collectable, Collectable p]\<rparr>"

definition ring :: zend_gc_globals where
  "ring = \<lparr>gc_buf = [Some 0, Some 8, None, None], gc_enabled_flag = True, gc_active = False, gc_protected_flag = False, gc_full = False, gc_unused = 0,
     first_unused = 2, gc_threshold = 4, buf_size = 4, num_roots = 1, gc_runs = 0, gc_collected = 0,
     nodes_of = [8 \<mapsto> ring_node 0x300001 16, 16 \<mapsto> ring_node 0 8]\<rparr>"

lemma ring_edges: "edges (nodes_of ring) p = (if p = 8 then [16] else if p = 16 then [8] else [])"
  by (simp add: edges_def ring_def ring_node_def refs_of_def array_refs_def zval_refs_def map_filter_def)

lemma ring_dom: "dom (nodes_of ring) = {8, 16}"
  by (auto simp: ring_def)

lemma ring_indegree: "q \<in> {8, 16} \<Longrightarrow> indegree (edges (nodes_of ring)) {8, 16} q = 1"
  by (auto simp: indegree_def ring_edges)

lemma ring_colors: "GC_REF_COLOR (ring_node 0x300001 p) = GC_PURPLE" "GC_REF_COLOR (ring_node 0 p) = GC_BLACK"
  "GC_REF_ADDRESS (ring_node 0x300001 p) = 1" "GC_REF_ADDRESS (ring_node 0 p) = 0" "info_ok (ring_node 0x300001 p)" "info_ok (ring_node 0 p)"
  by (simp_all add: GC_REF_COLOR_def GC_REF_ADDRESS_def info_ok_def ring_node_def GC_COLOR_def GC_PURPLE_def GC_BLACK_def GC_ADDRESS_def)

lemma ring_heap: "heap_ok (nodes_of ring)"
proof -
  have "gc_settled (nodes_of ring)" by (simp add: gc_settled_def ring_def ring_colors)
  moreover have "counts_ok (nodes_of ring)"
    unfolding counts_ok_def ring_dom using ring_indegree by (auto simp: ring_def ring_node_def split: if_splits)
  moreover have "closed_heap (nodes_of ring)"
    unfolding closed_heap_def ring_dom ring_edges by (auto simp: ring_def ring_node_def split: if_splits)
  ultimately show ?thesis by (simp add: heap_ok_def)
qed

lemma ring_view: "gc_view {} ring [] [1 \<mapsto> 8]"
proof -
  have al: "aligned 8" "aligned 16" by (simp_all add: aligned_def GC_BITS_def)
  have "roots_ok (nodes_of ring) [1 \<mapsto> 8]"
    unfolding roots_ok_def using aligned_tags(1,3) [OF al(1)] ring_colors
    by (auto simp: ring_def compress_eq split: if_splits)
  moreover have "gc_sizes ring" "gc_free_list ring []" by (simp_all add: gc_sizes_def gc_free_list_def ring_def)
  moreover have "gc_holds {} ring [] [1 \<mapsto> 8]" by (auto simp: gc_holds_def ring_def)
  moreover have "\<forall>p\<in>dom (nodes_of ring). aligned p" using al unfolding ring_dom by blast
  ultimately show ?thesis by (simp add: gc_view_def) (simp add: ring_def)
qed

lemma ring_ready: "collector_ready ring" "num_roots ring \<noteq> 0" "\<not> gc_active ring"
proof -
  have al: "aligned 8" by (simp add: aligned_def GC_BITS_def)
  have "purple (nodes_of ring) \<subseteq> root_set [1 \<mapsto> 8]"
  proof -
    have "purple (nodes_of ring) = {8}" by (auto simp: purple_def ring_def ring_colors colors_distinct split: if_splits)
    moreover have "8 \<in> root_set [1 \<mapsto> 8]" using aligned_tags(1) [OF al] by (auto simp: root_set_mem)
    ultimately show ?thesis by simp
  qed
  moreover have "\<forall>e\<in>ran [1 \<mapsto> 8]. GC_IS_ROOT e" using aligned_tags(2) [OF al] by simp
  moreover have "infos (nodes_of ring)" by (simp add: infos_def ring_def ring_colors)
  moreover have "few (nodes_of ring)" unfolding few_def ring_dom by (simp add: GC_BUF_GROW_STEP_def)
  ultimately show "collector_ready ring" using ring_view ring_heap unfolding collector_ready_def by blast
qed (simp_all add: ring_def)

lemma ring_suspects: "suspects (nodes_of ring) = {8, 16}"
proof -
  have p: "purple (nodes_of ring) = {8}" by (auto simp: purple_def ring_def ring_colors colors_distinct split: if_splits)
  have "8 \<in> suspects (nodes_of ring)" unfolding suspects_def p by (rule reach_refl) simp
  then have "{8, 16} \<subseteq> suspects (nodes_of ring)" using closed_reach [of 8 "edges (nodes_of ring)" "purple (nodes_of ring)" 16] by (simp add: suspects_def ring_edges)
  moreover have "suspects (nodes_of ring) \<subseteq> {8, 16}" using suspects_dom ring_heap ring_dom unfolding heap_ok_def by metis
  ultimately show ?thesis by blast
qed

lemma ring_counts: "\<forall>q\<in>{8, 16}. \<exists>x. nodes_of ring q = Some x \<and> gc_refcount x = indegree (edges (nodes_of ring)) {8, 16} q"
  using ring_indegree by (auto simp: ring_def ring_node_def)

lemma ring_no_tables: "tables (nodes_of ring) = {}"
  by (auto simp: tables_def ring_def ring_node_def split: if_splits)

lemma ring_kinds: "node_is garbage_kind (nodes_of ring) 8" "node_is garbage_kind (nodes_of ring) 16"
  by (simp_all add: node_is_def ring_def ring_node_def)


end
