(* ===== verification/Spec2Isabelle.thy ===== *)
theory Spec2Isabelle
  imports Zend_Stack Hash_Map Hash_Dup_Laws Hash_Sort_Laws Hash_Compare Hash_Destroy Hash_Merge Hash_Symtable Hash_Edge_Cases Zend_Llist_Laws Uuencode Url_Codec Zend_Mm_Small Zend_Objects_Run Zend_Gc_Collecting
begin

text \<open>
  This development verifies the data structures, the memory management and the codecs at the core of php-nano, a runtime for a subset of
  PHP written in C.  The engine (\<^verbatim>\<open>src/Zend\<close>) keeps arrays, symbol tables, property tables and constant
  tables in one data structure, the hash table of \<^verbatim>\<open>zend_hash.c\<close>; the compiler and the executor keep their
  working data on the stacks and linked lists of \<^verbatim>\<open>zend_stack.c\<close>, \<^verbatim>\<open>zend_ptr_stack.c\<close> and
  \<^verbatim>\<open>zend_llist.c\<close>; the array functions of \<^verbatim>\<open>ext/standard\<close> sort tables with \<^verbatim>\<open>zend_sort.c\<close>.  The string
  functions of \<^verbatim>\<open>ext/standard\<close> are independent of these and work on bytes.

  \<^bold>\<open>How the code is modelled.\<close>  A structure is a record with the names of its members, a C integer is a word of its
  width, or a natural number or an integer where the code asserts that it cannot overflow or the model checks that it does not: the members of a stack are
  of type \<^verbatim>\<open>int\<close>, whose overflow is undefined, and an operation that leaves its range has no result.  A function that writes through a
  pointer takes the record and returns it changed.  A table is passed together with the executor globals, which hold the
  list of \<^verbatim>\<open>foreach\<close> iterators, the slots that indirect values point to, and the log of destroyed values and
  released keys.  An error (a fatal error of the memory manager, a failed assertion, an access outside a block or to a
  byte that was never written) is a value \<open>Inl e\<close> of a sum type, a result that may be absent is an option.  Loops are
  recursive functions with a termination proof; the loops whose end depends on the data (chains of a table,
  links of a list, lines of an encoded text) are partial functions into \<open>option\<close> or \<open>while_option\<close>, for which not returning
  is a value, and the theorems state that they return.  Code that is passed in as a function pointer (destructors, comparison functions, callbacks) is a
  parameter.

  \<^bold>\<open>The hash table.\<close>
  \<^item> \<open>Zend_Types\<close>: strings with their cached hash, values, buckets, the string hash (\<^verbatim>\<open>zend_types.h\<close>,
    \<^verbatim>\<open>zend_string.h\<close>); the two variants of the hash, both unrolled, are the byte-wise one.
  \<^item> \<open>Hash_Table\<close>, \<open>Hash_Chains\<close>, \<open>Hash_Find\<close>: the record of a table in its packed and its mixed layout, sizes,
    initialisation, the invariant \<open>ht_inv\<close> and the abstraction \<open>ht_entries\<close> (the association list of the live buckets in
    order), collision chains as lists, and the proof that every search returns what the association list has.
  \<^item> \<open>Hash_Globals\<close>: the iterator list of the executor and the functions \<^verbatim>\<open>zend_hash_iterator_*\<close>.
  \<^item> \<open>Hash_Rehash\<close>, \<open>Hash_Inv\<close>, \<open>Hash_Resize\<close>: \<^verbatim>\<open>zend_hash_rehash\<close>, \<^verbatim>\<open>zend_hash_do_resize\<close>, \<^verbatim>\<open>zend_hash_extend\<close>,
    \<^verbatim>\<open>zend_hash_discard\<close> and the conversions between the layouts; each keeps the invariant and the entries.
  \<^item> \<open>Hash_Update\<close>, \<open>Hash_Insert\<close>, \<open>Hash_Delete\<close>: the add-or-update functions for string, byte and integer keys
    with all their callers, and deletion; each refines the operation on association lists and calls the destructor
    exactly for the value it replaces or removes.
  \<^item> \<open>Hash_Map\<close>: the locale \<open>ordered_map\<close>, the contract the callers rely on, runs of operations proved in it, and its
    interpretation on the table.
  \<^item> \<open>Hash_Traverse\<close>: positions and moves; \<open>Hash_Bulk\<close> with \<open>Hash_Destroy\<close>, \<open>Hash_Apply\<close>, \<open>Hash_Merge\<close>: destruction,
    the apply family, copying and merging with the copy constructor \<^verbatim>\<open>zval_add_ref\<close> (\<^verbatim>\<open>zend_variables.c\<close>) or any other; \<open>Hash_Dup\<close>, \<open>Hash_Dup_Laws\<close>: \<^verbatim>\<open>zend_array_dup\<close> and \<^verbatim>\<open>zend_array_to_list\<close>.
  \<^item> \<open>Hash_Sort\<close>, \<open>Hash_Sort_Laws\<close>, \<open>Hash_Compare\<close>: \<^verbatim>\<open>zend_hash_sort_internal\<close> with every caller, its stability
    (locale \<open>ticket_sorter\<close>), and \<^verbatim>\<open>zend_hash_compare\<close>.
  \<^item> \<open>Hash_Symtable\<close>: the functions of \<^verbatim>\<open>zend_hash.h\<close> for symbol tables, indirect values and pointers, and the
    conversions \<^verbatim>\<open>zend_symtable_to_proptable\<close> and back.
  \<^item> \<open>Hash_Samples\<close>: concrete tables for the instances of the theorems; \<open>Hash_Edge_Cases\<close>: two evaluated runs that show
    where iterators and the next free index do not behave as the rest of the code suggests.

  \<^bold>\<open>Sorting, integers, stacks, lists.\<close>
  \<^item> \<open>Zend_Sort\<close>: \<^verbatim>\<open>zend_sort\<close> and \<^verbatim>\<open>zend_insert_sort\<close> with the small sorting networks, the binary insertion and the
    choice of the pivot; both interpret the locale \<open>sorter\<close>.
  \<^item> \<open>Zend_Numeric\<close>: \<^verbatim>\<open>zend_print_long_to_buf\<close>, \<^verbatim>\<open>_zend_handle_numeric_str_ex\<close> and the round trip between
    integers and the strings that stand for them as keys.
  \<^item> \<open>Zend_Stack\<close>: both stack types, interpretations of the locale \<open>lifo\<close>; pushing works as long as sizes and offsets stay below
    \<^verbatim>\<open>INT_MAX\<close>, which the contract asks for.
  \<^item> \<open>Zend_Llist\<close>, \<open>Zend_Llist_Laws\<close>: doubly linked lists over a store of nodes; the locale \<open>simulation\<close> and its
    interpretation carry the refinement from single operations to runs of them.

  \<^bold>\<open>Codecs.\<close>
  \<^item> \<open>Zend_Bytes\<close>: bytes as integers, bit operations as arithmetic, blocks of memory with checked access.
  \<^item> \<open>Base64\<close> (\<^verbatim>\<open>ext/standard/base64.c\<close>) and \<open>Url_Codec\<close> (\<^verbatim>\<open>ext/standard/url.c\<close>): the encoders stay within their
    blocks, the decoders return on every input, decoding gives the encoded string back.
  \<^item> \<open>Uuencode\<close> (\<^verbatim>\<open>ext/standard/uuencode.c\<close>): the decoder ends on every input within its blocks, and gives back what the
    encoder encoded.

  \<^bold>\<open>Memory manager.\<close>
  \<^item> \<open>Zend_Bitset\<close>: the bit sets of \<^verbatim>\<open>zend_bitset.h\<close> as sets of numbers.
  \<^item> \<open>Zend_Mm_Search\<close>, \<open>Zend_Mm_Chunk\<close> (\<^verbatim>\<open>zend_alloc.c\<close>): the page map of a chunk, the operations on ranges of pages, the best-fit
    search of \<^verbatim>\<open>zend_mm_alloc_pages\<close> on one chunk; the inductive predicate \<open>chunk_reach\<close> gives the states that allocations and frees of
    runs lead to, and its invariant says that runs are disjoint.
  \<^item> \<open>Zend_Mm_Small\<close>: the bins, the lists of free slots with their shadow pointers, allocation and release of small blocks, with
    \<open>bin_reach\<close> for the states of one run of a bin.

  \<^bold>\<open>Object store.\<close>
  \<^item> \<open>Zend_Objects\<close> (\<^verbatim>\<open>zend_objects_API.c\<close>): the table of the objects with its free list, storing, deleting, and the loops of the
    shutdown; the handlers of an object are parameters.
  \<^item> \<open>Zend_Objects_Machine\<close>: destructors are code of the program and use the store while an object is being deleted; the step relation
    \<open>obj_step\<close> with a stack of the calls under way describes every interleaving, and its invariant the life of every object.  The turns of the
    three loops of the shutdown - calling the destructors, marking all objects as destructed, freeing their contents - are steps too, so that an object
    whose contents are freed can still be released.  Reference counts are 32 bits wide and wrap; the steps of the program keep the references that variables
    hold to one object to \<open>2 ^ 32 - 2\<close>, and the invariant says that the count then is exact.  A deletion by the cycle collector is no step of the
    machine, so that the test of \<^verbatim>\<open>zend_objects_store_del\<close> for an object that the collector has released never succeeds in it, and
    \<^verbatim>\<open>GC_REMOVE_FROM_BUFFER\<close> is left to the collector's own model.
  \<^item> \<open>Zend_Objects_Run\<close>: the functions of the store are runs of this machine and return, for all handlers that are.

  \<^bold>\<open>Cycle collector.\<close>
  \<^item> \<open>Zend_Gc_Buffer\<close>, \<open>Zend_Gc_Buffer_Laws\<close> (\<^verbatim>\<open>zend_gc.c\<close>): the root buffer with its list of unused entries, compressed positions, growth,
    threshold and compaction; it represents a set of nodes (\<open>gc_ok\<close>).  The nodes are a map from addresses to a count, the information word and what
    they refer to.
  \<^item> \<open>Zend_Gc_Trace\<close>: the traversals \<^verbatim>\<open>gc_mark_grey\<close>, \<^verbatim>\<open>gc_scan\<close>, \<^verbatim>\<open>gc_scan_black\<close> and \<^verbatim>\<open>gc_collect_white\<close>, and the loops over the
    roots up to the point in \<^verbatim>\<open>zend_gc_collect_cycles\<close> where the garbage is known.
  \<^item> \<open>Zend_Gc_Traversal\<close>: the locale \<open>traversal\<close>, what one traversal does to counts and colours, with an interpretation for each of the four;
    \<open>Zend_Gc_Marking\<close>, \<open>Zend_Gc_Collecting\<close>: the invariants of the phases and their composition, which finds exactly the set \<open>garbage\<close>.

  \<^bold>\<open>Bounds and fuel.\<close>  Table sizes are those of a 64-bit build: at most \<open>2 ^ 30\<close> buckets, integers of 64 bits, hash slots of
  32 bits.  A search follows a chain with \<open>while_option\<close>; a chain of a well-formed table has no more buckets than the table, so it ends,
  and \<open>find_correct\<close> states that it returns.  The theorem on runs of operations asks for eight times the number of entries and operations to
  stay below the maximal size, since each operation at most doubles a table that is full.  No definition carries fuel: the loops of the
  lists, of the decoder of \<open>Uuencode\<close>, of the page search, of the traversals of the collector, and of the calls of the destructors are partial functions into \<open>option\<close> with a proof
  that they return; for the last one the destructors must not create objects without end.  The object store is taken to hold at most
  \<open>2 ^ 31\<close> handles, the range of its free list, and the root buffer at most \<open>2 ^ 29\<close> entries, the range of the links between its unused ones.

  \<^bold>\<open>Not modelled.\<close>  The virtual machine and the compiler (generated handlers over the whole engine state); of the memory
  manager the list of the chunks, huge blocks, reallocation, the collection of empty runs and the debug heap (in the other components allocation
  is assumed to succeed; the limits that the callers test are modelled); of the cycle collector weak maps and weakly referenced objects, the destructors of the
  garbage and its freeing, and the temporaries of the executor; classes, inheritance and property access; floating
  point conversion, streams, the server interfaces, the output layer, and the vendored libraries (pcre, lexbor, timelib) with the bindings to
  them.  Of the string functions the vectorised variants of base64 for particular processors and the wrappers that parse arguments are left out,
  with \<^verbatim>\<open>php_url_encode_to_smart_str\<close>, which appends to a growing string; of \<^verbatim>\<open>zend_hash.c\<close> the function \<^verbatim>\<open>zend_hash_set_bucket_key\<close>, which changes
  the key of a bucket in place.  Of \<^verbatim>\<open>zend_mm_alloc_small_slow\<close> only the linking of the new slots is modelled, and of \<^verbatim>\<open>zend_mm_free_heap\<close> the freeing of large runs of one chunk and of small blocks.
  Destructors and callbacks of a table do not re-enter the table they are called for; what they do to reference counts is not modelled, only the
  calls that release a value.  The counts of references (\<^verbatim>\<open>zend_reference\<close>) are part of the globals, since copying
  depends on them; \<^verbatim>\<open>zval_add_ref\<close> increments them, while duplication only logs the increment.
\<close>



section \<open>The hash table as an ordered map\<close>

text \<open>
  C1. Any sequence of insertions, updates and deletions by byte or integer key on a well-formed table
  runs to the end without an error, as long as the size of the table and eight times the number of
  entries and operations stay below \<open>HT_MAX_SIZE\<close>; it keeps the invariant, and the entries in
  insertion order are those of the same sequence on an association list.
\<close>

theorem table_runs:
  assumes "ht_inv ht" "table_cap ht < HT_MAX_SIZE" "8 * (length (ht_entries ht) + length ops) < HT_MAX_SIZE"
    "list_all (op_ok (\<lambda>v. v \<noteq> IS_UNDEF)) ops"
  shows "\<exists>eg' ht'. run_ops table_put table_unset ops (eg, ht) = Some (eg', ht') \<and> ht_inv ht' \<and>
    ht_entries ht' = spec_run ops (ht_entries ht)"
  using hash_map.run_ops_ok [of "(eg, ht)" ops] assms by auto

theorem table_runs_witness:
  "\<exists>eg' ht'. run_ops table_put table_unset [Put (StrKey ''b'') IS_NULL, Unset (IntKey 6), Put (StrKey ''a'') IS_TRUE]
      (sample_globals, sample_mixed) = Some (eg', ht') \<and> ht_inv ht' \<and>
    ht_entries ht' = [(StrKey ''a'', IS_TRUE), (StrKey ''b'', IS_NULL)]"
proof -
  have "table_cap sample_mixed < HT_MAX_SIZE" by (simp add: table_cap_def sample_mixed_def HT_MAX_SIZE_def)
  then show ?thesis
    using table_runs [OF sample_mixed_inv, of "[Put (StrKey ''b'') IS_NULL, Unset (IntKey 6), Put (StrKey ''a'') IS_TRUE]" sample_globals]
    by (simp add: sample_mixed_entries HT_MAX_SIZE_def spec_run_def)
qed

text \<open>
  C2. The find functions return for every key of the table a place that holds its value and nothing
  for other keys, in every layout; the walk along the collision chain always ends.
\<close>

theorem find_correct:
  assumes "ht_inv ht"
  shows "(\<exists>r. zend_hash_find ht key = Inr r \<and> map_option (loc_val eg ht) r = map_of (ht_entries ht) (StrKey (zs_val key))) \<and>
    (\<exists>r. zend_hash_str_find ht str = Inr r \<and> map_option (loc_val eg ht) r = map_of (ht_entries ht) (StrKey str)) \<and>
    (\<exists>r. zend_hash_index_find ht h = Inr r \<and> map_option (loc_val eg ht) r = map_of (ht_entries ht) (IntKey h))"
  using zend_hash_find_ok [OF assms] by blast

theorem find_correct_witness:
  "(\<exists>r. zend_hash_find sample_mixed sample_key = Inr r \<and> map_option (loc_val sample_globals sample_mixed) r = Some (IS_LONG 5)) \<and>
   (\<exists>r. zend_hash_index_find sample_packed 1 = Inr r \<and> map_option (loc_val sample_globals sample_packed) r = None)"
  using find_correct [OF sample_mixed_inv, where key = sample_key and str = "''a''" and h = 6 and eg = sample_globals]
    find_correct [OF sample_packed_inv, where key = sample_key and str = "''a''" and h = 1 and eg = sample_globals]
  by (simp add: sample_mixed_entries sample_packed_entries sample_key_def)

text \<open>
  C3. \<^verbatim>\<open>zend_hash_update\<close> on a table with room returns a place that holds the new value; the entries
  change as an update of an association list, the old value (if any) is destroyed exactly once, and the
  invariant holds afterwards.
\<close>

theorem update_correct:
  assumes "ht_inv ht" "has_room ht" "v \<noteq> IS_UNDEF"
  shows "\<exists>l eg' ht'. zend_hash_update eg ht key v = Inr (Some l, eg', ht') \<and> ht_inv ht' \<and>
    ht_entries ht' = AList.update (StrKey (zs_val key)) v (ht_entries ht) \<and> loc_val eg' ht' l = v \<and>
    (case map_of (ht_entries ht) (StrKey (zs_val key)) of None \<Rightarrow> True | Some w \<Rightarrow> eg' = call_dtor ht w eg)"
  using zend_hash_update_ok [OF assms, of eg key] unfolding updates_def by blast

theorem update_correct_witness:
  "\<exists>l eg' ht'. zend_hash_update sample_globals sample_mixed sample_key IS_NULL = Inr (Some l, eg', ht') \<and>
    ht_entries ht' = [(StrKey ''a'', IS_NULL), (IntKey 6, IS_TRUE)] \<and> eg' = call_dtor sample_mixed (IS_LONG 5) sample_globals"
  using update_correct [OF sample_mixed_inv sample_room(1), of IS_NULL sample_globals sample_key]
  by (auto simp: sample_mixed_entries sample_key_def)

text \<open>
  C4. \<^verbatim>\<open>zend_hash_index_update\<close> has the effect of an association list update in every layout: it writes a packed
  cell, grows the packed block, or converts the table to the mixed layout to keep the order.
\<close>

theorem index_update_correct:
  assumes "ht_inv ht" "nTableSize ht < HT_MAX_SIZE" "v \<noteq> IS_UNDEF"
  shows "\<exists>l eg' ht'. zend_hash_index_update eg ht h v = Inr (Some l, eg', ht') \<and> ht_inv ht' \<and>
    ht_entries ht' = AList.update (IntKey h) v (ht_entries ht) \<and> loc_val eg' ht' l = v \<and>
    (case map_of (ht_entries ht) (IntKey h) of None \<Rightarrow> True | Some w \<Rightarrow> eg' = call_dtor ht w eg)"
  using zend_hash_index_update_ok [OF assms, of eg h] unfolding updates_def by blast

theorem index_update_correct_witness:
  "\<exists>l eg' ht'. zend_hash_index_update sample_globals sample_packed 1 IS_NULL = Inr (Some l, eg', ht') \<and> ht_inv ht' \<and>
    ht_entries ht' = [(IntKey 0, IS_LONG 5), (IntKey 2, IS_TRUE), (IntKey 1, IS_NULL)]"
  using index_update_correct [OF sample_packed_inv sample_room(2), of IS_NULL sample_globals 1]
  by (auto simp: sample_packed_entries)

text \<open>
  C5. \<^verbatim>\<open>zend_hash_del\<close>, \<^verbatim>\<open>zend_hash_str_del\<close> and \<^verbatim>\<open>zend_hash_index_del\<close> always return, succeed exactly when the key is in the
  table, remove its entry and keep the others in order.
\<close>

theorem delete_correct:
  assumes "ht_inv ht"
  shows "(\<exists>eg' ht'. zend_hash_del eg ht key = Inr (map_of (ht_entries ht) (StrKey (zs_val key)) \<noteq> None, eg', ht') \<and>
      ht_inv ht' \<and> ht_entries ht' = AList.delete (StrKey (zs_val key)) (ht_entries ht)) \<and>
    (\<exists>eg' ht'. zend_hash_str_del eg ht str = Inr (map_of (ht_entries ht) (StrKey str) \<noteq> None, eg', ht') \<and>
      ht_inv ht' \<and> ht_entries ht' = AList.delete (StrKey str) (ht_entries ht)) \<and>
    (\<exists>eg' ht'. zend_hash_index_del eg ht h = Inr (map_of (ht_entries ht) (IntKey h) \<noteq> None, eg', ht') \<and>
      ht_inv ht' \<and> ht_entries ht' = AList.delete (IntKey h) (ht_entries ht))"
  using zend_hash_del_ok [OF assms, of key eg] zend_hash_str_del_ok [OF assms, of str eg]
    zend_hash_index_del_ok [OF assms, of h eg] unfolding deletes_def by blast

theorem delete_correct_witness:
  "(\<exists>eg' ht'. zend_hash_del sample_globals sample_mixed sample_key = Inr (True, eg', ht') \<and> ht_entries ht' = [(IntKey 6, IS_TRUE)]) \<and>
   (\<exists>eg' ht'. zend_hash_index_del sample_globals sample_packed 1 = Inr (False, eg', ht') \<and> ht_entries ht' = ht_entries sample_packed)"
  using delete_correct [OF sample_mixed_inv, where key = sample_key and str = "''a''" and h = 6 and eg = sample_globals]
    delete_correct [OF sample_packed_inv, where key = sample_key and str = "''a''" and h = 1 and eg = sample_globals]
  by (auto simp: sample_mixed_entries sample_packed_entries sample_key_def)

section \<open>Cycle collector\<close>

text \<open>
  C6. The phases of a collector run that search for garbage - marking, scanning and collecting the roots - return without a failed assertion.  Afterwards all
  nodes have the values and the counts they had, and all are black, the candidates, which were purple, too.  Every entry of the root buffer is tagged as garbage and leads to a garbage node, and every
  garbage array and every garbage object that is not freed yet is in the buffer, except the tables of objects, which go with their objects;
  references get no entry either.  The flag for destructors is set
  exactly when a garbage object has one to run.  Garbage is what the candidates reach and what can be reached neither from a node that is referred to
  from outside of the nodes nor from a node that the candidates do not reach.
\<close>

theorem gc_trace_correct:
  assumes "collector_ready w" "num_roots w \<noteq> 0" "\<not> gc_active w"
  shows "\<exists>w' n flags. collect_cycles_trace w = Some (Inr (w', n, flags)) \<and>
    dom (nodes_of w') = dom (nodes_of w) \<and>
    (\<forall>p x y. nodes_of w p = Some x \<and> nodes_of w' p = Some y \<longrightarrow> gc_data y = gc_data x \<and> gc_refcount y = gc_refcount x \<and> GC_REF_COLOR y = GC_BLACK) \<and>
    (\<exists>ul R. gc_view {} w' ul R \<and> (\<forall>e\<in>ran R. GC_IS_GARBAGE e) \<and> root_set R \<subseteq> garbage (nodes_of w) \<and>
      (\<forall>p\<in>garbage (nodes_of w) - tables (nodes_of w). node_is garbage_kind (nodes_of w) p \<longrightarrow> p \<in> root_set R)) \<and>
    (flags \<longleftrightarrow> (\<exists>p\<in>garbage (nodes_of w). node_is has_dtor (nodes_of w) p))"
proof -
  obtain w' n f where r: "collect_cycles_trace w = Some (Inr (w', n, f))" "garbage_found (nodes_of w) (garbage (nodes_of w)) f w'"
    using collect_cycles_trace_run [OF assms] by blast
  have o: "owed (nodes_of w) (nodes_of w') {}" and s: "shade (nodes_of w') {} {}" using r(2) by (simp_all add: garbage_found_def)
  have "gc_data y = gc_data x \<and> gc_refcount y = gc_refcount x \<and> GC_REF_COLOR y = GC_BLACK" if "nodes_of w p = Some x \<and> nodes_of w' p = Some y" for p x y
    using owedD(2,3) [OF o, of p x y] s that by (auto simp: shade_def)
  then show ?thesis using r owedD(1) [OF o] unfolding garbage_found_def by blast
qed

theorem gc_trace_correct_witness:
  "\<exists>w' n flags ul R. collect_cycles_trace ring = Some (Inr (w', n, flags)) \<and> gc_view {} w' ul R \<and> \<not> flags \<and> root_set R = {8, 16} \<and>
    (\<forall>e\<in>ran R. GC_IS_GARBAGE e)"
proof -
  have g: "garbage (nodes_of ring) = {8, 16}" using island_garbage [OF _ _ _ ring_counts] ring_heap ring_suspects by (auto simp: heap_ok_def garbage_def)
  have d: "\<not> node_is has_dtor (nodes_of ring) p" for p by (auto simp: node_is_def ring_def ring_node_def split: if_splits)
  show ?thesis using gc_trace_correct [OF ring_ready] unfolding g ring_no_tables using d ring_kinds by blast
qed

text \<open>
  C7. What the search leaves in the root buffer is not in use: all references to it are in nodes that are garbage too, as many as its count tells, and no
  node that is not garbage refers to it.
\<close>

theorem gc_trace_safe:
  assumes "collector_ready w" "num_roots w \<noteq> 0" "\<not> gc_active w"
  shows "\<exists>w' n flags ul R. collect_cycles_trace w = Some (Inr (w', n, flags)) \<and> gc_view {} w' ul R \<and>
    (\<forall>q\<in>root_set R. (\<exists>x. nodes_of w q = Some x \<and> gc_refcount x = indegree (edges (nodes_of w)) (garbage (nodes_of w)) q) \<and>
      (\<forall>p. q \<in> set (edges (nodes_of w) p) \<longrightarrow> p \<in> garbage (nodes_of w)))"
proof -
  have h: "closed_heap (nodes_of w)" "counts_ok (nodes_of w)" using assms(1) by (simp_all add: collector_ready_def heap_ok_def)
  obtain w' n f ul R where r: "collect_cycles_trace w = Some (Inr (w', n, f))" "gc_view {} w' ul R" "root_set R \<subseteq> garbage (nodes_of w)"
    using collect_cycles_trace_run [OF assms] unfolding garbage_found_def by blast
  show ?thesis
  proof (intro exI conjI ballI allI impI)
    show "collect_cycles_trace w = Some (Inr (w', n, f))" "gc_view {} w' ul R" using r by blast+
    fix q assume "q \<in> root_set R"
    then have q: "q \<in> garbage (nodes_of w)" using r(3) by blast
    obtain x where "nodes_of w q = Some x" "gc_refcount x = indegree (edges (nodes_of w)) (garbage (nodes_of w)) q" using garbage_refs(2) [OF h q] by blast
    then show "nodes_of w q = Some (the (nodes_of w q))" "gc_refcount (the (nodes_of w q)) = indegree (edges (nodes_of w)) (garbage (nodes_of w)) q" by simp_all
    show "p \<in> garbage (nodes_of w)" if "q \<in> set (edges (nodes_of w) p)" for p using garbage_refs(1) [OF h q that] .
  qed
qed

theorem gc_trace_safe_witness:
  "\<exists>w' n flags ul R. collect_cycles_trace ring = Some (Inr (w', n, flags)) \<and> gc_view {} w' ul R \<and>
    (\<forall>q\<in>root_set R. \<forall>p. q \<in> set (edges (nodes_of ring) p) \<longrightarrow> p \<in> garbage (nodes_of ring))"
  using gc_trace_safe [OF ring_ready] by blast

text \<open>
  C8. A run finds every cycle that a candidate reaches: when the nodes of a set have no references but those from the set, and candidates reach them, then
  after the search its arrays and objects with contents are in the root buffer, tagged as garbage.
\<close>

theorem gc_trace_complete:
  assumes "collector_ready w" "num_roots w \<noteq> 0" "\<not> gc_active w" and "S \<subseteq> suspects (nodes_of w)"
    and "\<forall>q\<in>S. \<exists>x. nodes_of w q = Some x \<and> gc_refcount x = indegree (edges (nodes_of w)) S q"
  shows "\<exists>w' n flags ul R. collect_cycles_trace w = Some (Inr (w', n, flags)) \<and> gc_view {} w' ul R \<and>
    (\<forall>p\<in>S - tables (nodes_of w). node_is garbage_kind (nodes_of w) p \<longrightarrow> (\<exists>i e. R i = Some e \<and> GC_GET_PTR e = p \<and> GC_IS_GARBAGE e))"
proof -
  have h: "closed_heap (nodes_of w)" "counts_ok (nodes_of w)" using assms(1) by (simp_all add: collector_ready_def heap_ok_def)
  have S: "S \<subseteq> garbage (nodes_of w)" by (rule island_garbage [OF h assms(4,5)])
  obtain w' n f ul R where r: "collect_cycles_trace w = Some (Inr (w', n, f))" "gc_view {} w' ul R" "\<forall>e\<in>ran R. GC_IS_GARBAGE e"
    "\<forall>p\<in>garbage (nodes_of w) - tables (nodes_of w). node_is garbage_kind (nodes_of w) p \<longrightarrow> p \<in> root_set R"
    using collect_cycles_trace_run [OF assms(1-3)] unfolding garbage_found_def by blast
  have "\<exists>i e. R i = Some e \<and> GC_GET_PTR e = p \<and> GC_IS_GARBAGE e" if p: "p \<in> S - tables (nodes_of w)" "node_is garbage_kind (nodes_of w) p" for p
  proof -
    have "p \<in> root_set R" using r(4) p S by blast
    then show ?thesis using r(3) ranI [of R] unfolding root_set_mem by blast
  qed
  then show ?thesis using r(1,2) by blast
qed

theorem gc_trace_complete_witness:
  "\<exists>w' n flags ul R. collect_cycles_trace ring = Some (Inr (w', n, flags)) \<and> gc_view {} w' ul R \<and>
    (\<exists>i e. R i = Some e \<and> GC_GET_PTR e = 16 \<and> GC_IS_GARBAGE e)"
  using gc_trace_complete [OF ring_ready _ ring_counts] ring_suspects ring_no_tables ring_kinds by blast

text \<open>
  C9. The root buffer represents a set of nodes.  Adding a candidate, when no run of the collector is due, inserts it and paints it purple; removing a node
  takes it out and clears its information, although the position in the node may be compressed; compaction keeps the set and leaves no unused
  entries.  Every time the list of unused entries, the counters and the positions in the nodes fit the buffer again.
\<close>

theorem root_buffer_correct:
  assumes ok: "gc_ok w S" and limit: "buf_size w + GC_BUF_GROW_STEP \<le> 2 ^ 29"
  shows "(\<forall>p x. nodes_of w p = Some x \<and> gc_is_container x \<and> gc_info x = 0 \<and> \<not> gc_protected_flag w \<and>
        (GC_HAS_UNUSED w \<or> GC_HAS_NEXT_UNUSED_UNDER_THRESHOLD w \<or> gc_active w \<or> \<not> gc_enabled_flag w) \<longrightarrow>
      (\<exists>w' y. gc_possible_root collect rc_dtor p w = Inr w' \<and> gc_ok w' (insert p S) \<and> nodes_of w' = (nodes_of w)(p \<mapsto> y) \<and>
        GC_REF_COLOR y = GC_PURPLE \<and> gc_refcount y = gc_refcount x \<and> gc_data y = gc_data x)) \<and>
    (\<forall>p x. nodes_of w p = Some x \<and> p \<in> S \<and> (GC_MAX_UNCOMPRESSED \<le> first_unused w \<longrightarrow> 2 ^ 32 \<le> unat p) \<longrightarrow>
      (\<exists>w'. gc_remove_from_buffer p w = Inr w' \<and> gc_ok w' (S - {p}) \<and> nodes_of w' = (nodes_of w)(p \<mapsto> x\<lparr>gc_info := 0\<rparr>))) \<and>
    (\<exists>w'. gc_compact w = Inr w' \<and> gc_ok w' S \<and> first_unused w' = num_roots w' + 1 \<and> num_roots w' = num_roots w \<and> same_nodes (nodes_of w) (nodes_of w'))"
proof (intro conjI allI impI)
  fix p x assume a: "nodes_of w p = Some x \<and> gc_is_container x \<and> gc_info x = 0 \<and> \<not> gc_protected_flag w \<and>
    (GC_HAS_UNUSED w \<or> GC_HAS_NEXT_UNUSED_UNDER_THRESHOLD w \<or> gc_active w \<or> \<not> gc_enabled_flag w)"
  then obtain i w' where r: "gc_possible_root collect rc_dtor p w = Inr w'" "gc_ok w' (insert p S)" "nodes_of w' = (nodes_of w)(p \<mapsto> purple_root i x)"
    using possible_root_run [OF ok _ _ _ limit, of p x] by blast
  have "GC_REF_COLOR (purple_root i x) = GC_PURPLE" using info_parts(2) [OF compress_bounds(1) is_color(4)] by (simp add: purple_root_def)
  then show "\<exists>w' y. gc_possible_root collect rc_dtor p w = Inr w' \<and> gc_ok w' (insert p S) \<and> nodes_of w' = (nodes_of w)(p \<mapsto> y) \<and>
      GC_REF_COLOR y = GC_PURPLE \<and> gc_refcount y = gc_refcount x \<and> gc_data y = gc_data x"
    using r by (intro exI [of _ w'] exI [of _ "purple_root i x"]) (simp add: purple_root_def GC_REF_SET_INFO_def)
next
  fix p x assume a: "nodes_of w p = Some x \<and> p \<in> S \<and> (GC_MAX_UNCOMPRESSED \<le> first_unused w \<longrightarrow> 2 ^ 32 \<le> unat p)"
  then show "\<exists>w'. gc_remove_from_buffer p w = Inr w' \<and> gc_ok w' (S - {p}) \<and> nodes_of w' = (nodes_of w)(p \<mapsto> x\<lparr>gc_info := 0\<rparr>)"
    using remove_from_buffer_run [OF ok, of p x] by blast
next
  obtain ul R where v: "gc_view {} w ul R" "root_set R = S" and t: "gc_threshold w \<le> buf_size w" using ok unfolding gc_ok_def by blast
  obtain w' R' where r: "gc_compact w = Inr w'" "gc_view {} w' [] R'" "ran R' = ran R" "same_nodes (nodes_of w) (nodes_of w')"
    "num_roots w' = num_roots w" "first_unused w' = num_roots w + 1" "gc_threshold w' = gc_threshold w" "buf_size w' = buf_size w" using compact_run [OF v(1)] by blast
  have "gc_ok w' S" using gc_okI [OF r(2)] v(2) r(3,7,8) t by (simp add: root_set_ran)
  then show "\<exists>w'. gc_compact w = Inr w' \<and> gc_ok w' S \<and> first_unused w' = num_roots w' + 1 \<and> num_roots w' = num_roots w \<and> same_nodes (nodes_of w) (nodes_of w')"
    using r by auto
qed

theorem root_buffer_correct_witness:
  "(\<exists>w'. gc_possible_root (\<lambda>w. (0, w)) (\<lambda>p w. w) 16 ring = Inr w' \<and> gc_ok w' {8, 16}) \<and>
    (\<exists>w'. gc_remove_from_buffer 8 ring = Inr w' \<and> gc_ok w' {}) \<and> (\<exists>w'. gc_compact ring = Inr w' \<and> gc_ok w' {8})"
proof -
  have "root_set [1 \<mapsto> 8] = {8}" using aligned_tags(1) [of 8] by (auto simp: root_set_def aligned_def GC_BITS_def split: if_splits)
  then have ok: "gc_ok ring {8}" by (rule gc_okI [OF ring_view]) (simp add: ring_def)
  have l: "buf_size ring + GC_BUF_GROW_STEP \<le> 2 ^ 29" by (simp add: ring_def GC_BUF_GROW_STEP_def)
  note c = root_buffer_correct [OF ok l, of "\<lambda>w. (0, w)" "\<lambda>p w. w"]
  have "nodes_of ring 16 = Some (ring_node 0 8) \<and> gc_is_container (ring_node 0 8) \<and> gc_info (ring_node 0 8) = 0 \<and> \<not> gc_protected_flag ring \<and>
      (GC_HAS_UNUSED ring \<or> GC_HAS_NEXT_UNUSED_UNDER_THRESHOLD ring \<or> gc_active ring \<or> \<not> gc_enabled_flag ring)"
    by (simp add: ring_def ring_node_def gc_is_container_def GC_HAS_NEXT_UNUSED_UNDER_THRESHOLD_def)
  then have 1: "\<exists>w'. gc_possible_root (\<lambda>w. (0, w)) (\<lambda>p w. w) 16 ring = Inr w' \<and> gc_ok w' (insert 16 {8})" using c by blast
  have "nodes_of ring 8 = Some (ring_node 0x300001 16) \<and> 8 \<in> {8} \<and> (GC_MAX_UNCOMPRESSED \<le> first_unused ring \<longrightarrow> 2 ^ 32 \<le> unat (8 :: u64))"
    by (simp add: ring_def GC_MAX_UNCOMPRESSED_def)
  then have "\<exists>w'. gc_remove_from_buffer 8 ring = Inr w' \<and> gc_ok w' ({8} - {8})" using c by blast
  then show ?thesis using 1 c by (simp add: insert_commute) blast
qed

section \<open>Object store\<close>

text \<open>
  C10. Whatever the program and its handlers do, the loops of the shutdown included, in every state they reach: the events of every object are a life in
  order, in which a destructor is called at most once, only if one is due, and before the contents are freed, the contents are freed (or left, by a fast
  shutdown) at most once, and the memory is released once and only after that; an object is known exactly while its memory is allocated; its reference
  count is the number of references variables hold and of the handlers that run for it; its handle is in the table and no other object has it; the bucket
  of the handle points to the object, marked while it is being freed; and every handle given out belongs to an object or is free, but not both.  The
  steps of the machine keep the references that variables hold to one object to $2^{32} - 2$; the deletions of the cycle collector are not among them.
\<close>

theorem object_store_safe:
  assumes "1 \<le> n" "n \<le> 2 ^ 31" and reach: "machine_reach n m"
  shows "life_of a (obj_log (mstore m)) \<noteq> Misused \<and>
    (life_of a (obj_log (mstore m)) = Absent \<longleftrightarrow> objects (mstore m) a = None) \<and>
    (\<forall>ob. objects (mstore m) a = Some ob \<longrightarrow> unat (obj_refcount ob) = mowned m a + guard_refs (mframes m) a \<and>
      (free_called ob \<longleftrightarrow> life_of a (obj_log (mstore m)) = Freed)) \<and>
    (\<exists>free. free_chain (object_buckets (mstore m)) (free_list_head (mstore m)) free \<and> distinct free \<and>
      (\<forall>ob. objects (mstore m) a = Some ob \<longrightarrow> stored (freeing (mframes m)) (mstore m) a ob \<and> obj_handle ob \<notin> set free \<and>
        (\<forall>b y. objects (mstore m) b = Some y \<and> obj_handle y = obj_handle ob \<longrightarrow> b = a)) \<and>
      (\<forall>h. 1 \<le> h \<and> h < store_top (mstore m) \<longrightarrow> h \<in> set free \<or> (\<exists>b y. objects (mstore m) b = Some y \<and> obj_handle y = h)))"
proof -
  obtain fl where ok: "store_ok (freeing (mframes m)) (mstore m) fl" using machine_reach_store [OF reach assms(1,2)] .
  have "b = a" if "objects (mstore m) a = Some ob" "objects (mstore m) b = Some y" "obj_handle y = obj_handle ob" for b ob y
    using store_ok_handles [OF ok that(2,1,3)] .
  then show ?thesis using machine_reach_life [OF reach assms(1,2), of a] machine_reach_count [OF reach assms(1,2), of a] ok
    unfolding store_ok_def store_free_def by blast
qed

theorem object_store_safe_witness:
  "\<exists>m ob. machine_reach 2 m \<and> objects (mstore m) 16 = Some ob \<and> free_called ob \<and> life_of 16 (obj_log (mstore m)) = Freed \<and> unat (obj_refcount ob) = 2"
proof -
  obtain m ob where m: "machine_reach 2 m" "objects (mstore m) 16 = Some ob" "free_called ob" "mframes m = []" "mowned m 16 = 2"
    using sample_shutdown by blast
  have "guard_refs (mframes m) 16 = 0" using m(4) by (simp add: guard_refs_def)
  then show ?thesis using object_store_safe [OF _ _ m(1), of 16] m by (intro exI [of _ m] exI [of _ ob]) simp
qed

text \<open>
  C11. Releasing the last reference to an object returns, without a failed assertion and without reading or writing memory that is not there, although
  the destructor and the free handler use the store; what it does are steps of the machine.  Afterwards the object is gone, or its destructor was
  called and has stored a reference to it.
\<close>

theorem object_release_correct:
  assumes "1 \<le> n" "n \<le> 2 ^ 31" and reach: "machine_reach n \<lparr>mstore = w, mframes = fs, mowned = own\<rparr>" and "user_turn fs"
    and "own a > 0" "objects w a = Some ob" "obj_refcount ob = 1" and "dtor_behaves dtor_obj" "free_behaves free_obj"
  shows "\<exists>w' own'. zend_object_release dtor_obj free_obj possible_root a w = Inr w' \<and>
    machine_reach n \<lparr>mstore = w', mframes = fs, mowned = own'\<rparr> \<and> gone_or_kept a own' w'"
  using release_runs [OF machine_reach_inv [OF reach assms(1,2)] assms(4-9), of possible_root] machine_reach_steps [OF reach] by blast

theorem object_release_correct_witness:
  "\<exists>w w' own'. machine_reach 2 \<lparr>mstore = w', mframes = [], mowned = own'\<rparr> \<and>
    zend_object_release keep_reference (\<lambda>a w. w) (\<lambda>a w. w) 16 w = Inr w' \<and> gone_or_kept 16 own' w'"
proof -
  obtain w own ob where m: "machine_reach 2 \<lparr>mstore = w, mframes = [], mowned = own\<rparr>" "objects w 16 = Some ob" "obj_refcount ob = 1" "own 16 > 0"
    using sample_reach by auto
  have t: "user_turn []" by (simp add: user_turn_def)
  show ?thesis
    using object_release_correct [where n = 2 and fs = "[]" and a = 16 and possible_root = "\<lambda>a w. w",
        OF _ _ m(1) t m(4) m(2,3) keep_reference_behaves idle_behaves(1)] by auto
qed

text \<open>
  C12. Storing a new object succeeds and gives it a handle that no other object has; once the shutdown has begun it is a handle that was never used.  The
  bucket of the handle points to the object and the other objects are as before, also when the table is doubled.
\<close>

theorem object_put_correct:
  assumes "1 \<le> n" "n \<le> 2 ^ 31" and reach: "machine_reach n m" and "objects (mstore m) a = None" "IS_OBJ_VALID a" and limit: "store_size (mstore m) \<le> 2 ^ 30"
  shows "\<exists>w' h. zend_objects_store_put a (new_object a ob (mstore m)) = Inr w' \<and> objects w' = (objects (mstore m))(a \<mapsto> ob\<lparr>obj_handle := h\<rparr>) \<and>
    object_buckets w' ! h = Some a \<and> 1 \<le> h \<and> h < store_top w' \<and> (no_reuse (mstore m) \<longrightarrow> h = store_top (mstore m)) \<and>
    (\<forall>b y. objects (mstore m) b = Some y \<longrightarrow> obj_handle y \<noteq> h)"
proof -
  obtain fl where ok: "store_ok (freeing (mframes m)) (mstore m) fl" using machine_reach_store [OF reach assms(1,2)] .
  have nf: "a \<notin> freeing (mframes m)" using machine_reach_absent [OF reach assms(1,2,4)] .
  obtain w' fl' where w': "zend_objects_store_put a (new_object a ob (mstore m)) = Inr w'" "store_ok (freeing (mframes m)) w' fl'"
    "objects w' = (objects (mstore m))(a \<mapsto> ob\<lparr>obj_handle := put_handle (mstore m)\<rparr>)"
    using put_run [OF ok assms(4,5) nf limit] by metis
  have "stored (freeing (mframes m)) w' a (ob\<lparr>obj_handle := put_handle (mstore m)\<rparr>)" using store_okD(3) [OF w'(2), of a] w'(3) by simp
  then show ?thesis using w' nf put_handle_unused [OF ok]
    by (intro exI [of _ w'] exI [of _ "put_handle (mstore m)"]) (auto simp: stored_def put_handle_def reuses_def)
qed

theorem object_put_correct_witness:
  "\<exists>m w' h. machine_reach 2 m \<and> objects (mstore m) 16 \<noteq> None \<and> store_top (mstore m) = 2 \<and>
    zend_objects_store_put 32 (new_object 32 sample_object (mstore m)) = Inr w' \<and> object_buckets w' ! h = Some 32 \<and> h < store_top w'"
proof -
  obtain w own where m: "machine_reach 2 \<lparr>mstore = w, mframes = [], mowned = own\<rparr>" "objects w 16 \<noteq> None" "objects w 32 = None" "store_size w = 2" "store_top w = 2"
    using sample_reach by auto
  have v: "IS_OBJ_VALID 32" by (simp add: IS_OBJ_VALID_def OBJ_BUCKET_INVALID_def)
  show ?thesis using object_put_correct [OF _ _ m(1) _ v, of sample_object] m by force
qed

text \<open>
  C13. \<^verbatim>\<open>zend_objects_store_call_destructors\<close> comes to an end, when the destructors do not create objects without end.  Then the destructor of every
  object that needs one and had not had it called has been called, or a handler has given it up (by the failure of a constructor or by marking all objects);
  of an object that needs none, no destructor has been called while it lived; and every object that is left, also one created by a destructor meanwhile, is
  marked as destructed and has no destructor due.
\<close>

theorem shutdown_destructs_all:
  assumes "1 \<le> n" "n \<le> 2 ^ 31" and reach: "machine_reach n \<lparr>mstore = w, mframes = fs, mowned = own\<rparr>" and "user_turn fs" and "dtor_behaves dtor_obj"
    and "\<forall>a w. store_top w \<le> bound \<longrightarrow> store_top (dtor_obj a w) \<le> bound" and "store_top w \<le> bound"
  shows "\<exists>w' own' es. zend_objects_store_call_destructors dtor_obj w = Some (Inr w') \<and> machine_reach n \<lparr>mstore = w', mframes = fs, mowned = own'\<rparr> \<and>
    obj_log w' = obj_log w @ es \<and>
    (\<forall>a ob. objects w a = Some ob \<and> \<not> destructor_called ob \<longrightarrow>
      (if needs_dtor ob then Dtor_Obj a \<in> set es \<or> Mark_Obj a \<in> set es else Dtor_Obj a \<notin> set (takeWhile (\<lambda>e. e \<noteq> Efree_Obj a) es))) \<and>
    (\<forall>a ob. objects w' a = Some ob \<longrightarrow> destructor_called ob) \<and>
    (\<forall>a. life_of a (obj_log w') \<noteq> Alive True \<and> life_of a (obj_log w') \<noteq> Misused)"
proof -
  note inv = machine_reach_inv [OF reach assms(1,2)]
  obtain w' own' where w': "zend_objects_store_call_destructors dtor_obj w = Some (Inr w')" "\<forall>a ob. objects w' a = Some ob \<longrightarrow> destructor_called ob"
    and s: "obj_step\<^sup>*\<^sup>* \<lparr>mstore = w, mframes = fs, mowned = own\<rparr> \<lparr>mstore = w', mframes = fs, mowned = own'\<rparr>"
    using call_destructors_runs [OF inv assms(4,5) _ assms(7)] assms(6) by blast
  note inv' = obj_steps_inv [OF s inv]
  obtain es where es: "obj_log w' = obj_log w @ es" using obj_steps_log [OF s] by (auto simp: log_grows_def)
  show ?thesis
    using w' es machine_reach_steps [OF reach s] destructors_called [OF inv inv' w'(2) es] destructors_not_due [OF inv' w'(2)]
    unfolding destructed_in_def by (intro exI [of _ w'] exI [of _ own'] exI [of _ es]) blast
qed

theorem shutdown_destructs_all_witness:
  "\<exists>w w' es. zend_objects_store_call_destructors keep_reference w = Some (Inr w') \<and> (\<exists>ob. objects w 16 = Some ob \<and> needs_dtor ob \<and> \<not> destructor_called ob) \<and>
    obj_log w' = obj_log w @ es \<and> (Dtor_Obj 16 \<in> set es \<or> Mark_Obj 16 \<in> set es) \<and> (\<forall>a ob. objects w' a = Some ob \<longrightarrow> destructor_called ob)"
proof -
  obtain w own ob where m: "machine_reach 2 \<lparr>mstore = w, mframes = [], mowned = own\<rparr>" "objects w 16 = Some ob" "\<not> destructor_called ob" "store_top w = 2"
    "needs_dtor ob" using sample_reach by auto
  have t: "user_turn []" by (simp add: user_turn_def)
  have b: "\<forall>a w. store_top w \<le> 2 \<longrightarrow> store_top (keep_reference a w) \<le> 2" by (simp add: keep_reference_def split: option.splits)
  have "store_top w \<le> 2" using m(4) by simp
  from shutdown_destructs_all [OF _ _ m(1) t keep_reference_behaves b this]
  obtain w' es where "zend_objects_store_call_destructors keep_reference w = Some (Inr w')" "obj_log w' = obj_log w @ es"
      "\<forall>a ob. objects w' a = Some ob \<longrightarrow> destructor_called ob"
      "\<forall>a ob. objects w a = Some ob \<and> \<not> destructor_called ob \<longrightarrow>
        (if needs_dtor ob then Dtor_Obj a \<in> set es \<or> Mark_Obj a \<in> set es else Dtor_Obj a \<notin> set (takeWhile (\<lambda>e. e \<noteq> Efree_Obj a) es))" by auto
  then show ?thesis using m(2,3,5) by metis
qed

section \<open>Sizes, rehashing and conversion\<close>

text \<open>
  C14. \<^verbatim>\<open>zend_hash_rehash\<close> needs neither correct chains nor a dense table: on any mixed table with well-formed content it
  returns, whatever iterators exist, and the result satisfies the invariant, has the same entries in the
  same order and no holes.
\<close>

theorem rehash_correct:
  assumes "mixed_shape ht" "content_ok ht"
  shows "\<exists>eg' ht'. zend_hash_rehash eg ht = Inr (eg', ht') \<and> ht_inv ht' \<and> ht_entries ht' = ht_entries ht \<and>
    nNumUsed ht' = nNumOfElements ht' \<and> nNumOfElements ht' = nNumOfElements ht \<and> nTableSize ht' = nTableSize ht"
  using rehash_rebuilds [OF assms, of eg] unfolding rebuilds_def by auto

theorem rehash_correct_witness:
  "\<exists>eg' ht'. zend_hash_rehash sample_globals sample_mixed = Inr (eg', ht') \<and> nNumUsed ht' = 2 \<and>
    ht_entries ht' = [(StrKey ''a'', IS_LONG 5), (IntKey 6, IS_TRUE)]"
proof -
  have "mixed_shape sample_mixed" using ht_inv_mixedD(1) [OF sample_mixed_inv] by (simp add: sample_mixed_def)
  moreover have "nNumOfElements sample_mixed = 2" by (simp add: sample_mixed_def)
  ultimately show ?thesis using rehash_correct [of sample_mixed sample_globals] ht_inv_content [OF sample_mixed_inv]
    by (auto simp: sample_mixed_entries)
qed

text \<open>
  C15. \<^verbatim>\<open>zend_hash_do_resize\<close> on a full table either compacts it or doubles it: there is room for another bucket, the
  entries are the same and the invariant holds; only a table of maximal size without enough holes is an
  error.
\<close>

theorem resize_correct:
  assumes "ht_inv ht" "mixed_shape ht" "nNumUsed ht = nTableSize ht"
  shows "if nTableSize ht < HT_MAX_SIZE \<or> nNumOfElements ht + nNumOfElements ht div 32 < nNumUsed ht
    then \<exists>eg' ht'. zend_hash_do_resize eg ht = Inr (eg', ht') \<and> ht_inv ht' \<and> ht_entries ht' = ht_entries ht \<and>
      nNumUsed ht' < nTableSize ht'
    else zend_hash_do_resize eg ht = Inl Memory_Overflow"
  using do_resize_ok [OF assms(2) ht_inv_content [OF assms(1)] assms(3), of eg] do_resize_overflow [of ht eg]
  unfolding rebuilds_def by (auto simp: not_less)

theorem resize_correct_witness:
  "\<exists>ht. ht_inv ht \<and> mixed_shape ht \<and> nNumUsed ht = nTableSize ht \<and>
    (\<exists>eg' ht'. zend_hash_do_resize sample_globals ht = Inr (eg', ht') \<and> ht_inv ht' \<and> ht_entries ht' = ht_entries ht \<and>
      nNumUsed ht' < nTableSize ht')"
proof -
  define ht where "ht = sample_mixed\<lparr>nNumUsed := 8, arData := take 3 (arData sample_mixed) @
    replicate 5 \<lparr>b_val = IS_UNDEF, b_next = 0, b_h = 0, b_key = None\<rparr>\<rparr>"
  have i: "ht_inv ht" unfolding ht_def by (rule sample_full_inv)
  moreover have m: "mixed_shape ht" using ht_inv_mixedD(1) [OF i] by (simp add: ht_def sample_mixed_def)
  moreover have "nNumUsed ht = nTableSize ht" "nTableSize ht < HT_MAX_SIZE" by (simp_all add: ht_def sample_mixed_def HT_MAX_SIZE_def)
  ultimately show ?thesis using resize_correct [OF i m, of sample_globals] by (intro exI [of _ ht]) auto
qed

section \<open>Traversal\<close>

text \<open>
  C16. Moving forward from the reset position until the end, reading key and data at each position, visits the entries
  of the table once each and in order.
\<close>

theorem walk_correct:
  assumes "ht_inv ht"
  shows "map (\<lambda>(k, l). (key_zval k, loc_val eg ht (the l))) (walk ht (zend_hash_internal_pointer_reset_ex ht)) = ht_entries ht"
  using walk_table [OF assms] .

theorem walk_correct_witness:
  "map (\<lambda>(k, l). (key_zval k, loc_val sample_globals sample_packed (the l)))
     (walk sample_packed (zend_hash_internal_pointer_reset_ex sample_packed)) = [(IntKey 0, IS_LONG 5), (IntKey 2, IS_TRUE)]"
  using walk_correct [OF sample_packed_inv, of sample_globals] by (simp add: sample_packed_entries)

section \<open>Operations on whole tables\<close>

text \<open>
  C17. Cleaning and destroying a table run the destructor on every live value exactly once, in order, and release every counted
  key exactly once, in every variant of the loops; a cleaned table is well-formed and empty, and indices start anew.
\<close>

theorem destroy_correct:
  assumes "ht_inv ht"
  shows "events (zend_hash_destroy eg ht) = events eg @ destroy_events (pDestructor ht) ht \<and>
    (pDestructor ht \<longrightarrow> events (zend_array_destroy eg False ht) = events eg @ destroy_events True ht) \<and>
    (\<exists>ht'. zend_hash_clean eg ht = (emits (destroy_events (pDestructor ht) ht) eg, ht') \<and> ht_inv ht' \<and> ht_entries ht' = [] \<and>
      nNextFreeElement ht' = ZEND_LONG_MIN)"
  using destroy_events_ok [OF assms, of eg] array_destroy_ok [OF assms, of False eg] clean_ok [OF assms, of eg] by auto

theorem destroy_correct_witness:
  "events (zend_hash_destroy sample_globals sample_mixed) = [Dtor (IS_LONG 5), Key_release sample_key, Dtor IS_TRUE]"
proof -
  have "destroy_events (pDestructor sample_mixed) sample_mixed = [Dtor (IS_LONG 5), Key_release sample_key, Dtor IS_TRUE]"
    by (simp add: destroy_events_def bucket_events_def sample_mixed_def ht_buckets_def sample_key_def take_Cons')
  with destroy_correct [OF sample_mixed_inv, of sample_globals] show ?thesis by (simp add: sample_globals_def)
qed

text \<open>
  C18. \<^verbatim>\<open>zend_hash_apply_with_arguments\<close> calls the callback on every live element in order until it asks to stop; the resulting
  entries are the ones the callback kept, with the values it left, followed by the elements it was not called on.  Removing
  elements on the way does not make it skip or repeat any.
\<close>

theorem apply_correct:
  assumes "ht_inv ht" "keeps_values f"
  shows "\<exists>eg' ht'. zend_hash_apply_with_arguments f s eg ht = Inr (fst (apply_cells f s (cells ht [0 ..< nNumUsed ht])), eg', ht') \<and>
    ht_inv ht' \<and> ht_entries ht' = snd (apply_cells f s (cells ht [0 ..< nNumUsed ht]))"
  using apply_with_arguments_ok [OF assms] .

theorem apply_correct_witness:
  "\<exists>eg' ht'. zend_hash_apply_with_arguments (\<lambda>n k v. (n + 1, IS_NULL, v = IS_TRUE, False)) (0 :: nat) sample_globals sample_mixed = Inr (2, eg', ht') \<and>
    ht_entries ht' = [(StrKey ''a'', IS_NULL)]"
proof -
  have k: "keeps_values (\<lambda>n k v. (n + 1 :: nat, IS_NULL, v = IS_TRUE, False))" by (simp add: keeps_values_def)
  have n: "nNumUsed sample_mixed = 3" by (simp add: sample_mixed_def)
  have "cells sample_mixed [0 ..< 3] = [((ZSTR_H sample_key, Some sample_key), IS_LONG 5), ((6, None), IS_TRUE)]"
    by (simp add: upt_rec cell_val_def cell_key_def sample_mixed_def)
  with apply_correct [OF sample_mixed_inv k, of 0 sample_globals] show ?thesis
    unfolding n by (auto simp: raw_key_def sample_key_def)
qed

text \<open>
  C19. \<^verbatim>\<open>zend_hash_copy\<close> and \<^verbatim>\<open>zend_hash_merge\<close> put the entries of the source one after the other into the target, as \<^verbatim>\<open>merge_entry\<close> says: an
  existing key keeps its place and gets the new value, or keeps its value when nothing is to be overwritten; new keys go to the end.  An indirect value
  of a mixed source stands for the value in its slot, and is skipped when that is empty; merging writes through an indirect value of the target that
  is under a string key.  The effect of the copy constructor is applied to each value that was stored, in its place, and to nothing else.  It is any constructor whose
  effect on the value and the references is a function of both, such as \<^verbatim>\<open>zval_add_ref\<close>: a reference with a single owner gives way to its value, other
  references are counted once more.  The source and the target may have any layout, and there must be room for the entries of both.  The destructors of
  overwritten values are entries of the log; what they do to references is not part of the model.
\<close>

theorem merge_correct:
  assumes "ht_inv src" "ht_inv t" "refs_ok eg" "constructs ctor f"
    "max (table_cap t) (8 * (length (ht_entries t) + length (ht_entries src))) < HT_MAX_SIZE"
  shows "constructs (Some zval_add_ref) add_ref_effect \<and> constructs None Pair \<and>
    (\<exists>eg' t'. zend_hash_merge eg t src ctor overwrite = Inr (eg', t') \<and> ht_inv t' \<and> refs_ok eg' \<and>
      (ht_entries t', indirect eg', refs eg')
        = fold (merge_entry f overwrite True (ht_packed src)) (ht_entries src) (ht_entries t, indirect eg, refs eg)) \<and>
    (\<exists>eg' t'. zend_hash_copy eg t src ctor = Inr (eg', t') \<and> ht_inv t' \<and> refs_ok eg' \<and>
      (ht_entries t', indirect eg', refs eg')
        = fold (merge_entry f True False (ht_packed src)) (ht_entries src) (ht_entries t, indirect eg, refs eg))"
  using merge_ok [OF assms(4,1-3,5)] constructs_add_ref constructs_none by blast

theorem merge_correct_witness:
  "(\<exists>eg' t'. zend_hash_merge sample_slots (sample_pair (IS_INDIRECT 9) IS_TRUE) (sample_pair (IS_REFERENCE 3) (IS_INDIRECT 4)) (Some zval_add_ref) False = Inr (eg', t') \<and>
      ht_entries t' = [(StrKey ''a'', IS_INDIRECT 9), (IntKey 6, IS_TRUE)] \<and> indirect eg' 9 = IS_LONG 7) \<and>
    (\<exists>eg' t'. zend_hash_copy sample_slots (sample_pair (IS_INDIRECT 9) IS_TRUE) (sample_pair (IS_REFERENCE 3) (IS_INDIRECT 4)) (Some zval_add_ref) = Inr (eg', t') \<and>
      ht_entries t' = [(StrKey ''a'', IS_LONG 7), (IntKey 6, IS_FALSE)])"
proof -
  let ?t = "sample_pair (IS_INDIRECT 9) IS_TRUE" and ?s = "sample_pair (IS_REFERENCE 3) (IS_INDIRECT 4)"
  have r: "refs_ok sample_slots" by (simp add: refs_ok_def sample_slots_def)
  have p: "ht_inv ?s" "ht_inv ?t" by (simp_all add: sample_pair_ok(1))
  have l: "max (table_cap ?t) (8 * (length (ht_entries ?t) + length (ht_entries ?s))) < HT_MAX_SIZE" by (simp add: sample_pair_ok HT_MAX_SIZE_def)
  have e: "fst (fold (merge_entry add_ref_effect False True (ht_packed ?s)) (ht_entries ?s) (ht_entries ?t, indirect sample_slots, refs sample_slots))
      = [(StrKey ''a'', IS_INDIRECT 9), (IntKey 6, IS_TRUE)]"
    "fst (snd (fold (merge_entry add_ref_effect False True (ht_packed ?s)) (ht_entries ?s) (ht_entries ?t, indirect sample_slots, refs sample_slots))) 9 = IS_LONG 7"
    "fst (fold (merge_entry add_ref_effect True False (ht_packed ?s)) (ht_entries ?s) (ht_entries ?t, indirect sample_slots, refs sample_slots))
      = [(StrKey ''a'', IS_LONG 7), (IntKey 6, IS_FALSE)]"
    by (simp_all add: sample_pair_ok sample_slots_def target_slot_def slot_value_def add_ref_effect_def one_more_owner_def Let_def)
  show ?thesis using merge_correct [OF p r constructs_add_ref l, of False] e by (metis fst_conv snd_conv)
qed

text \<open>
  C20. \<^verbatim>\<open>zend_array_dup\<close> returns a well-formed table at the new address with the keys of the source in order.  Values behind an
  indirection are read, empty slots are dropped, references with a single owner give way to their value, all others are kept;
  an immutable array is copied as it is.  It terminates for any iterators on either table.
\<close>

theorem array_dup_correct:
  assumes "ht_inv source" "refs_ok eg"
  shows "\<exists>eg' t. zend_array_dup addr immutable eg source = Inr (eg', t) \<and> ht_inv t \<and> ht_addr t = addr \<and>
    nNextFreeElement t = nNextFreeElement source \<and>
    ht_entries t = (if immutable then ht_entries source else dup_entries eg source)"
  using array_dup_ok [OF assms] .

theorem array_dup_correct_witness:
  "\<exists>eg' t. zend_array_dup 9 False sample_globals sample_mixed = Inr (eg', t) \<and> ht_addr t = 9 \<and>
    ht_entries t = [(StrKey ''a'', IS_LONG 5), (IntKey 6, IS_TRUE)]"
proof -
  have "dup_entries sample_globals sample_mixed = [(StrKey ''a'', IS_LONG 5), (IntKey 6, IS_TRUE)]"
    by (simp add: dup_entries_def sample_mixed_entries dup_val_def deref_ind_def Z_OPT_REFCOUNTED_def Let_def List.map_filter_def)
  moreover have "refs_ok sample_globals" by (simp add: refs_ok_def sample_globals_def)
  ultimately show ?thesis using array_dup_correct [OF sample_mixed_inv, of sample_globals 9 False] by auto
qed

section \<open>Symbol tables and property tables\<close>

text \<open>
  C21. The symbol table functions on a string act at the key that the string denotes: the integer \<open>n\<close> when the string is the decimal
  notation of \<open>n\<close>, the string itself otherwise.  There they find, replace or append, and delete as the functions of the map do.
\<close>

theorem symtable_correct:
  assumes "ht_inv ht" "has_room ht" "nTableSize ht < HT_MAX_SIZE" "v \<noteq> IS_UNDEF" "denotes str k"
  shows "(\<exists>r. zend_symtable_str_find ht str = Inr r \<and> map_option (loc_val eg ht) r = map_of (ht_entries ht) k) \<and>
    (\<exists>l eg' ht'. zend_symtable_str_update eg ht str v = Inr (Some l, eg', ht') \<and> ht_inv ht' \<and>
      ht_entries ht' = AList.update k v (ht_entries ht) \<and> loc_val eg' ht' l = v) \<and>
    (\<exists>eg' ht'. zend_symtable_str_del eg ht str = Inr (map_of (ht_entries ht) k \<noteq> None, eg', ht') \<and> ht_inv ht' \<and>
      ht_entries ht' = AList.delete k (ht_entries ht))"
  using symtable_find_ok(2) [OF assms(1), of str eg] symtable_update_ok(2) [OF assms(1-4), of eg str]
    symtable_del_ok(2) [OF assms(1), of str eg] denotes_sym_key [OF assms(5)]
  unfolding updates_def deletes_def by blast

theorem symtable_correct_witness:
  "\<exists>l eg' ht'. zend_symtable_str_update sample_globals sample_mixed (zend_long_to_str 6) IS_NULL = Inr (Some l, eg', ht') \<and>
    ht_entries ht' = [(StrKey ''a'', IS_LONG 5), (IntKey 6, IS_NULL)]"
proof -
  have "denotes (zend_long_to_str 6) (IntKey 6)" "nTableSize sample_mixed < HT_MAX_SIZE"
    by (simp_all add: denotes_def sample_mixed_def HT_MAX_SIZE_def)
  from symtable_correct [OF sample_mixed_inv sample_room(1) this(2) _ this(1), of IS_NULL sample_globals] show ?thesis
    by (auto simp: sample_mixed_entries)
qed

text \<open>
  C22. A symbol table converted to a property table and back: both conversions return, the property table has the string of every key in
  the same order, and the last table has the keys of the first one in order again.  The only change of a value is that a reference
  with a single owner gives way to the value it refers to, and this only when a new table was made.
\<close>

theorem proptable_roundtrip:
  assumes "ht_inv ht" "refs_ok eg" "8 * length (ht_entries ht) < HT_MAX_SIZE"
    "list_all (\<lambda>(k, v). norm_key k = k \<and> settled eg v) (ht_entries ht)"
  shows "\<exists>eg1 c1 eg2 c2. zend_symtable_to_proptable a1 eg ht = Inr (eg1, c1) \<and>
    map fst (ht_entries (converted_table ht c1)) = map (prop_key \<circ> fst) (ht_entries ht) \<and>
    zend_proptable_to_symtable a2 immutable eg1 (converted_table ht c1) False = Inr (eg2, c2) \<and>
    ht_inv (converted_table (converted_table ht c1) c2) \<and>
    ht_entries (converted_table (converted_table ht c1) c2) =
      (if c1 = Same_Table then ht_entries ht else map (\<lambda>(k, v). (k, unwrap_single eg v)) (ht_entries ht))"
  using proptable_roundtrip_ok [OF assms] by blast

theorem proptable_roundtrip_witness:
  "\<exists>eg1 c1 eg2 c2. zend_symtable_to_proptable 7 sample_globals sample_packed = Inr (eg1, c1) \<and>
    map fst (ht_entries (converted_table sample_packed c1)) = [StrKey (zend_long_to_str 0), StrKey (zend_long_to_str 2)] \<and>
    zend_proptable_to_symtable 8 False eg1 (converted_table sample_packed c1) False = Inr (eg2, c2) \<and>
    ht_entries (converted_table (converted_table sample_packed c1) c2) = [(IntKey 0, IS_LONG 5), (IntKey 2, IS_TRUE)]"
proof -
  have "refs_ok sample_globals" by (simp add: refs_ok_def sample_globals_def)
  from proptable_roundtrip [OF sample_packed_inv this, of 7 8 False] show ?thesis
    by (auto simp: sample_packed_entries HT_MAX_SIZE_def unwrap_single_def if_distrib cong: if_cong)
qed

section \<open>Sorting\<close>

text \<open>
  C23. For every comparison that is a total preorder and a swap function that exchanges two elements, \<^verbatim>\<open>zend_sort\<close> and
  \<^verbatim>\<open>zend_insert_sort\<close> terminate with a sorted permutation of the input.
\<close>

theorem sort_correct:
  assumes "consistent cmp"
  shows "sorted_wrt (le cmp) (zend_sort cmp exch xs) \<and> mset (zend_sort cmp exch xs) = mset xs \<and>
    sorted_wrt (le cmp) (zend_insert_sort cmp exch xs) \<and> mset (zend_insert_sort cmp exch xs) = mset xs"
  using zend_sort_ok [OF assms, of xs] insert_sort_ok [OF assms, of xs] by blast

theorem sort_correct_witness:
  "sorted_wrt (le (\<lambda>a b. a - b)) (zend_sort (\<lambda>a b. a - b) exch [3, 1, 2 :: int]) \<and>
   mset (zend_sort (\<lambda>a b. a - b) exch [3, 1, 2 :: int]) = {#1, 2, 3#}"
proof -
  have "consistent (\<lambda>a b :: int. a - b)" by (auto simp: consistent_def)
  from sort_correct [OF this, of "[3, 1, 2]"] show ?thesis by (simp add: add_mset_commute)
qed

text \<open>
  C24. Sorting a table with a comparison wrapped by \<^verbatim>\<open>RETURN_STABLE_SORT\<close>, keys kept: whatever the layout, with holes or without,
  both sort functions leave a well-formed table whose entries are the stable sort of the entries before.
\<close>

theorem hash_sort_stable:
  assumes "ht_inv ht" "builtin_sort srt" "consistent c" "antisym_compare c"
  shows "\<exists>eg' ht'. zend_hash_sort_ex srt (RETURN_STABLE_SORT (\<lambda>a b. c (entry_of a) (entry_of b))) False eg ht = Inr (eg', ht') \<and>
    ht_inv ht' \<and> ht_entries ht' = stable_sort c (ht_entries ht) \<and> nNextFreeElement ht' = nNextFreeElement ht"
  using sort_internal_stable [OF assms] by (simp add: zend_hash_sort_ex_def)

theorem hash_sort_stable_witness:
  "\<exists>eg' ht'. zend_hash_sort_ex ZEND_SORT (RETURN_STABLE_SORT (\<lambda>a b.
      (\<lambda>e f. (case fst e of StrKey _ \<Rightarrow> 1 | IntKey _ \<Rightarrow> 0) - (case fst f of StrKey _ \<Rightarrow> 1 | IntKey _ \<Rightarrow> 0)) (entry_of a) (entry_of b)))
      False sample_globals sample_mixed = Inr (eg', ht') \<and> ht_entries ht' = [(IntKey 6, IS_TRUE), (StrKey ''a'', IS_LONG 5)]"
proof -
  let ?c = "\<lambda>(e :: hkey \<times> zval) (f :: hkey \<times> zval). ((case fst e of StrKey _ \<Rightarrow> 1 | IntKey _ \<Rightarrow> 0) - (case fst f of StrKey _ \<Rightarrow> 1 | IntKey _ \<Rightarrow> 0)) :: int"
  have c: "consistent ?c" "antisym_compare ?c" by (auto simp: consistent_def antisym_compare_def)
  have "builtin_sort ZEND_SORT" by (simp add: builtin_sort_def)
  from hash_sort_stable [OF sample_mixed_inv this c, of sample_globals] show ?thesis
    by (auto simp: sample_mixed_entries stable_sort_def)
qed

text \<open>
  C25. Sorting a table that is not empty with renumbering: the values are sorted stably, the keys become \<open>0, 1, 2, \<dots>\<close>, the
  next free index is the number of elements, and the result is a packed table.
\<close>

theorem hash_sort_renumber:
  assumes "ht_inv ht" "builtin_sort srt" "consistent c" "antisym_compare c" "ht_entries ht \<noteq> []"
  shows "\<exists>eg' ht'. zend_hash_sort_ex srt (RETURN_STABLE_SORT (\<lambda>a b. c (b_val a) (b_val b))) True eg ht = Inr (eg', ht') \<and>
    ht_inv ht' \<and> ht_packed ht' \<and> nNextFreeElement ht' = of_nat (length (ht_entries ht)) \<and>
    ht_entries ht' = zip (map (IntKey \<circ> of_nat) [0 ..< length (ht_entries ht)]) (stable_sort c (map snd (ht_entries ht)))"
proof -
  have "nNumOfElements ht \<noteq> 0" using assms(5) ht_inv_content [OF assms(1)] by (simp add: content_ok_def)
  from sort_internal_renumber [OF assms(1-4) this] show ?thesis by (simp add: zend_hash_sort_ex_def)
qed

theorem hash_sort_renumber_witness:
  "\<exists>eg' ht'. zend_hash_sort_ex ZEND_INSERT_SORT (RETURN_STABLE_SORT (\<lambda>a b.
      (\<lambda>v w. (if v = IS_TRUE then 0 else 1) - (if w = IS_TRUE then 0 else 1)) (b_val a) (b_val b)))
      True sample_globals sample_packed = Inr (eg', ht') \<and> ht_entries ht' = [(IntKey 0, IS_TRUE), (IntKey 1, IS_LONG 5)]"
proof -
  let ?c = "\<lambda>v w. (if v = IS_TRUE then 0 else 1) - (if w = IS_TRUE then 0 else 1) :: int"
  have c: "consistent ?c" "antisym_compare ?c" by (auto simp: consistent_def antisym_compare_def)
  have s: "builtin_sort ZEND_INSERT_SORT" "ht_entries sample_packed \<noteq> []" by (simp_all add: builtin_sort_def sample_packed_entries)
  from hash_sort_renumber [OF sample_packed_inv s(1) c s(2), of sample_globals] show ?thesis
    by (auto simp: sample_packed_entries stable_sort_def)
qed

text \<open>
  C26. Comparing two well-formed tables of any layout: tables of different sizes compare by size; otherwise the ordered
  comparison goes through the entries in order, keys first, and the other one looks every key of the first table up in
  the second.  It always returns: the assertion in the ordered loop holds.
\<close>

theorem hash_compare_correct:
  assumes "ht_inv ht1" "ht_inv ht2"
  shows "zend_hash_compare_impl eg ht1 ht2 compar ordered = Inr
    (if length (ht_entries ht1) \<noteq> length (ht_entries ht2) then compare_order (length (ht_entries ht1)) (length (ht_entries ht2))
     else if ordered then ordered_compare (compare_values eg compar) (ht_entries ht1) (ht_entries ht2)
     else unordered_compare (compare_values eg compar) (ht_entries ht1) (ht_entries ht2))"
  using compare_impl_ok [OF assms] .

theorem hash_compare_correct_witness:
  "zend_hash_compare_impl sample_globals sample_packed sample_unpacked (\<lambda>v w. if v = w then 0 else 1) True = Inr 0"
proof -
  have "ordered_compare (compare_values sample_globals (\<lambda>v w. if v = w then 0 else 1))
      (ht_entries sample_packed) (ht_entries sample_unpacked) = 0"
    unfolding sample_packed_entries sample_unpacked_entries
    by (simp add: key_order_eq_0 compare_values_def deref_ind_def Let_def)
  then show ?thesis unfolding hash_compare_correct [OF sample_packed_inv sample_unpacked_inv]
    by (simp add: sample_packed_entries sample_unpacked_entries)
qed

section \<open>Strings and integer keys\<close>

text \<open>
  C27. The hash by multiplication (eight bytes per round) is the one that the portable variant computes byte by byte, in an unrolled
  loop with a switch for the rest, and it is never 0, the mark for a hash that has not been computed yet.
\<close>

theorem hash_variants_agree:
  "zend_inline_hash_func str = zend_inline_hash_func_portable str \<and> zend_inline_hash_func str \<noteq> 0"
  by (intro conjI zend_inline_hash_func_eq zend_hash_not_zero)

text \<open>
  C28. A string is taken for the integer key \<open>n\<close> exactly when it is the string that \<^verbatim>\<open>zend_long_to_str\<close> produces for \<open>n\<close>:
  no leading zeros, no plus sign, no minus zero, no overflow.  The test always returns without reading
  past the end of the string.
\<close>

theorem numeric_key_correct:
  "(zend_handle_numeric_str key = Inr (Some n)) = (key = zend_long_to_str n) \<and> (\<exists>r. zend_handle_numeric_str key = Inr r)"
  by (intro conjI handle_numeric_iff handle_numeric_returns)

text \<open>
  C29. \<^verbatim>\<open>zend_long_to_str\<close> produces the canonical decimal notation of the signed value, and at most
  \<open>MAX_LENGTH_OF_LONG\<close> characters, for which its buffer has room.
\<close>

theorem long_to_str_correct:
  "zend_long_to_str n = int_str (sint n) \<and> length (zend_long_to_str n) \<le> MAX_LENGTH_OF_LONG"
  by (intro conjI zend_long_to_str_eq zend_long_to_str_length)

section \<open>Memory manager\<close>

text \<open>
  C30. Whatever page allocations and frees led to the state of a chunk, the allocated runs lie between the header page and the end and are
  disjoint; an allocation returns the first page of a smallest maximal run of free pages that is long enough, and fails only when no run is;
  an allocated run can be freed; an address that is not the start of an allocated run is rejected, so that a run is not freed twice.
\<close>

theorem page_runs_correct:
  assumes "chunk_reach chunk runs"
  shows "(\<forall>p n. runs p = Some n \<longrightarrow> 0 < p \<and> 0 < n \<and> p + n \<le> ZEND_MM_PAGES) \<and>
    (\<forall>p n q m. runs p = Some n \<and> runs q = Some m \<and> p \<noteq> q \<longrightarrow> in_range p n \<inter> in_range q m = {}) \<and>
    (0 < n \<longrightarrow>
      (\<exists>chunk'. chunk_alloc_pages chunk n = Some (Inr (None, chunk')) \<and> (\<forall>a l. free_run (insert 0 (run_pages runs)) a l \<longrightarrow> l < n)) \<or>
      (\<exists>p l chunk'. chunk_alloc_pages chunk n = Some (Inr (Some p, chunk')) \<and> free_run (insert 0 (run_pages runs)) p l \<and> n \<le> l \<and>
        (\<forall>a' l'. free_run (insert 0 (run_pages runs)) a' l' \<and> n \<le> l' \<longrightarrow> l \<le> l'))) \<and>
    (runs p = Some m \<longrightarrow> (\<exists>chunk'. free_large_run chunk (p * ZEND_MM_PAGE_SIZE) = Inr chunk')) \<and>
    (0 < off div ZEND_MM_PAGE_SIZE \<and> off div ZEND_MM_PAGE_SIZE < ZEND_MM_PAGES \<and>
       (off mod ZEND_MM_PAGE_SIZE \<noteq> 0 \<or> runs (off div ZEND_MM_PAGE_SIZE) = None) \<longrightarrow> free_large_run chunk off = Inl Mm_Corrupted)"
proof (intro conjI impI)
  note inv = chunk_reach_inv [OF assms]
  show "\<forall>p n. runs p = Some n \<longrightarrow> 0 < p \<and> 0 < n \<and> p + n \<le> ZEND_MM_PAGES"
    "\<forall>p n q m. runs p = Some n \<and> runs q = Some m \<and> p \<noteq> q \<longrightarrow> in_range p n \<inter> in_range q m = {}"
    using chunk_invD(6,7) [OF inv] by blast+
  show "(\<exists>chunk'. chunk_alloc_pages chunk n = Some (Inr (None, chunk')) \<and> (\<forall>a l. free_run (insert 0 (run_pages runs)) a l \<longrightarrow> l < n)) \<or>
      (\<exists>p l chunk'. chunk_alloc_pages chunk n = Some (Inr (Some p, chunk')) \<and> free_run (insert 0 (run_pages runs)) p l \<and> n \<le> l \<and>
        (\<forall>a' l'. free_run (insert 0 (run_pages runs)) a' l' \<and> n \<le> l' \<longrightarrow> l \<le> l'))" if "0 < n"
    using chunk_alloc_ok [OF inv that] unfolding chunk_invD(3) [OF inv] by blast
  show "\<exists>chunk'. free_large_run chunk (p * ZEND_MM_PAGE_SIZE) = Inr chunk'" if "runs p = Some m" using free_large_ok [OF inv that] by blast
  show "free_large_run chunk off = Inl Mm_Corrupted" if "0 < off div ZEND_MM_PAGE_SIZE \<and> off div ZEND_MM_PAGE_SIZE < ZEND_MM_PAGES \<and>
       (off mod ZEND_MM_PAGE_SIZE \<noteq> 0 \<or> runs (off div ZEND_MM_PAGE_SIZE) = None)" using free_large_rejects [OF inv] that by blast
qed

theorem page_runs_correct_witness:
  "\<exists>chunk p chunk'. chunk_reach chunk Map.empty \<and> chunk_alloc_pages chunk 3 = Some (Inr (Some p, chunk')) \<and> chunk_reach chunk' (Map.empty(p \<mapsto> 3)) \<and>
     free_large_run chunk 8192 = Inl Mm_Corrupted"
proof -
  define fresh where "fresh = \<lparr>free_pages = 0, free_tail = 0, free_map = replicate 8 0, page_map = replicate 512 0\<rparr>"
  obtain chunk where c: "zend_mm_chunk_init fresh = Inr chunk" using chunk_init_inv [of fresh] by (auto simp: fresh_def)
  have r: "chunk_reach chunk Map.empty" by (rule chunk_reach.init [OF _ _ c]) (simp_all add: fresh_def)
  have "free_run (insert 0 (run_pages Map.empty)) 1 511" by (simp add: free_run_def run_pages_def ZEND_MM_PAGES_def)
  moreover have "\<not> (511 :: nat) < 3" by simp
  ultimately obtain p chunk' where a: "chunk_alloc_pages chunk 3 = Some (Inr (Some p, chunk'))"
    using page_runs_correct [OF r, where n = 3 and off = 0] by (metis zero_less_numeral)
  moreover have "free_large_run chunk 8192 = Inl Mm_Corrupted"
    using page_runs_correct [OF r, where n = 3 and off = 8192] by (simp add: ZEND_MM_PAGE_SIZE_def ZEND_MM_PAGES_def)
  moreover have "chunk_reach chunk' (Map.empty(p \<mapsto> 3))" using chunk_reach.alloc [OF r _ a] by simp
  ultimately show ?thesis using r by blast
qed

text \<open>
  C31. Whatever allocations and frees led to the state of a bin, the blocks in use are slots of the run and do not overlap; an allocation returns a slot that is
  not in use, and turns to a new run only when all slots are; a block in use can be freed, the next allocation returns it, and freeing it twice in
  a row is detected.
\<close>

theorem small_blocks_correct:
  assumes "run_ok b base" "bin_reach b base heap blocks"
  shows "blocks \<subseteq> slot b base ` {..<bin_elements ! b} \<and>
    (\<forall>p \<in> blocks. \<forall>q \<in> blocks. p \<noteq> q \<longrightarrow> unat p + bin_data_size ! b \<le> unat q \<or> unat q + bin_data_size ! b \<le> unat p) \<and>
    ((\<exists>heap'. zend_mm_alloc_small heap b = Inr (None, heap') \<and> blocks = slot b base ` {..<bin_elements ! b}) \<or>
     (\<exists>p heap'. zend_mm_alloc_small heap b = Inr (Some p, heap') \<and> p \<in> slot b base ` {..<bin_elements ! b} - blocks)) \<and>
    (\<forall>p \<in> blocks. \<exists>heap'. zend_mm_free_small heap p b = Inr heap' \<and> zend_mm_free_small heap' p b = Inl Mm_Corrupted \<and>
      (\<exists>heap''. zend_mm_alloc_small heap' b = Inr (Some p, heap'')))"
  using bin_blocks [OF assms] bin_alloc_blocks [OF assms] bin_free_blocks [OF assms] by blast

theorem small_blocks_correct_witness:
  "\<exists>heap p heap'. bin_reach 3 4096 heap {4096} \<and> zend_mm_alloc_small heap 3 = Inr (Some p, heap') \<and> p \<in> slot 3 4096 ` {..<128} - {4096}"
proof -
  define h where "h = \<lparr>shadow_key = 77, free_slot = replicate 30 0, heap_size = 0, heap_peak = 0, memory = (\<lambda>_. 0)\<rparr>"
  have n: "bin_elements ! 3 = 128" "bin_data_size ! 3 = 32" by (simp_all add: bin_elements_def bin_data_size_def ZEND_MM_BINS_INFO_def)
  have r: "run_ok 3 4096" using n by (simp add: run_ok_def)
  obtain h' where i: "init_bin h 3 4096 = Some (4096, h')" using init_bin_ok [OF r, of h] by (auto simp: h_def)
  have reach: "bin_reach 3 4096 h' {4096}" by (rule bin_reach.init [OF _ i]) (simp add: h_def)
  have "slot 3 4096 1 \<in> slot 3 4096 ` {..<128}" by simp
  moreover have "slot 3 4096 1 \<noteq> 4096" by (simp add: slot_def bin_size_word_def n)
  ultimately have ne: "{4096} \<noteq> slot 3 4096 ` {..<128}" by blast
  have "(\<exists>heap'. zend_mm_alloc_small h' 3 = Inr (None, heap') \<and> {4096} = slot 3 4096 ` {..<128}) \<or>
     (\<exists>p heap'. zend_mm_alloc_small h' 3 = Inr (Some p, heap') \<and> p \<in> slot 3 4096 ` {..<128} - {4096})"
    using small_blocks_correct [OF r reach] unfolding n by (elim conjE)
  then obtain p heap' where "zend_mm_alloc_small h' 3 = Inr (Some p, heap')" "p \<in> slot 3 4096 ` {..<128} - {4096}" using ne by (elim disjE exE conjE) simp_all
  then show ?thesis using reach by (intro exI conjI)
qed

text \<open>
  C32. When the first free slot of a bin is linked to another one and the link is overwritten with a different address, the next allocation from
  the bin panics, whatever the key of the heap is: the shadow at the end of the slot decodes to the old link.
\<close>

theorem free_slot_corruption_detected:
  assumes "run_ok b base" "bin_state heap b base (i # j # fs) used" "v \<noteq> 0" "v \<noteq> slot b base j"
  shows "zend_mm_alloc_small (poke (slot b base i) v heap) b = Inl Mm_Corrupted"
  using corruption_detected [OF assms] .

theorem free_slot_corruption_detected_witness:
  "\<exists>heap. zend_mm_alloc_small (poke (slot 3 4096 1) 5 heap) 3 = Inl Mm_Corrupted \<and> (\<exists>heap'. zend_mm_alloc_small heap 3 = Inr (Some (slot 3 4096 1), heap'))"
proof -
  define h where "h = \<lparr>shadow_key = 77, free_slot = replicate 30 0, heap_size = 0, heap_peak = 0, memory = (\<lambda>_. 0)\<rparr>"
  have n: "bin_elements ! 3 = 128" "bin_data_size ! 3 = 32" by (simp_all add: bin_elements_def bin_data_size_def ZEND_MM_BINS_INFO_def)
  have r: "run_ok 3 4096" using n by (simp add: run_ok_def)
  obtain h' where "bin_state h' 3 4096 [1..<128] {0}" using init_bin_ok [OF r, of h] n by (auto simp: h_def)
  moreover have "[1..<128] = 1 # 2 # [3..<128]" by (simp add: upt_rec)
  ultimately have st: "bin_state h' 3 4096 (1 # 2 # [3..<128]) {0}" by simp
  have "5 \<noteq> slot 3 4096 2" by (simp add: slot_def bin_size_word_def n)
  then have "zend_mm_alloc_small (poke (slot 3 4096 1) 5 h') 3 = Inl Mm_Corrupted"
    by (intro free_slot_corruption_detected [OF r st]) simp_all
  then show ?thesis using alloc_small_ok [OF r st] by blast
qed

section \<open>Codecs\<close>

text \<open>
  C33. Base64 decoding of any string stays within its buffer and reads no byte that was not written.  In strict mode it fails exactly for a
  string with a foreign character, with data after the padding, with a last group of one character or with the wrong amount of padding;
  otherwise it returns the bytes that the characters of the alphabet stand for.
\<close>

theorem base64_decode_correct:
  "php_base64_decode_ex str strict = Inr (if strict \<and> \<not> b64_strict str then None else Some (sextet_bytes (b64_data str)))"
  by (rule base64_decode_ok)

text \<open>
  C34. Base64 encoding fits into its buffer, and decoding the result gives the string back, with or without padding, in both modes.
\<close>

theorem base64_roundtrip:
  "\<exists>e. php_base64_encode_ex s no_padding = Inr e \<and> php_base64_decode_ex e strict = Inr (Some s)"
  by (rule base64_roundtrip_ok)

text \<open>
  C35. The encoder with the vector loop for blocks of 16 bytes and the one without give the same result, and it fits into the buffer.
\<close>

theorem url_encode_variants_agree:
  "php_url_encode_helper True s raw = php_url_encode_helper False s raw \<and> (\<exists>e. php_url_encode_helper True s raw = Inr e \<and> length e \<le> 3 * length s)"
  using url_encode_length by (simp add: url_encode_helper_ok)

text \<open>
  C36. Decoding the encoded string in place gives the string back, for both pairs of functions, although the destination overlaps the source.
\<close>

theorem url_roundtrip:
  "\<exists>e r. php_url_encode xsse2 s = Inr e \<and> php_raw_url_encode xsse2 s = Inr r \<and>
    (\<forall>m str. holds m str (e @ [chr 0]) \<longrightarrow> (\<exists>m'. php_url_decode m str (length e) = Inr (length s, m') \<and> holds m' str (s @ [chr 0]))) \<and>
    (\<forall>m str. holds m str (r @ [chr 0]) \<longrightarrow> (\<exists>m'. php_raw_url_decode m str (length r) = Inr (length s, m') \<and> holds m' str (s @ [chr 0])))"
  using url_decode_in_place [of _ _ "url_encode_loop False s" True] url_decode_in_place [of _ _ "url_encode_loop True s" False]
    url_roundtrip_ok [of False s] url_roundtrip_ok [of True s]
  by (simp add: url_encode_helper_ok php_url_encode_def php_raw_url_encode_def php_url_decode_def php_raw_url_decode_def
      php_url_decode_ex_def php_raw_url_decode_ex_def)

theorem url_roundtrip_witness:
  "\<exists>e. php_url_encode False ''a b'' = Inr e \<and>
    (\<exists>m'. php_url_decode (map Some (e @ [chr 0])) 0 (length e) = Inr (3, m') \<and> holds m' 0 (''a b'' @ [chr 0]))"
proof -
  have own: "holds (map Some t) 0 t" for t by (simp add: holds_def)
  have three: "length ''a b'' = 3" by simp
  from url_roundtrip [of False "''a b''"] obtain e where e: "php_url_encode False ''a b'' = Inr e"
    and d: "holds m str (e @ [chr 0]) \<Longrightarrow> \<exists>m'. php_url_decode m str (length e) = Inr (length ''a b'', m') \<and> holds m' str (''a b'' @ [chr 0])" for m str
    by blast
  from e d [OF own] show ?thesis unfolding three by blast
qed

text \<open>
  C37. \<^verbatim>\<open>php_uudecode\<close> returns on every input, with a string or with NULL: the loop over the lines ends, no byte is read after the
  terminating zero of the source, none is written outside the block of \<^verbatim>\<open>ceil(src_len * 0.75)\<close> bytes, and every byte of the result has
  been written.  A string it returns is not longer than the block.
\<close>

theorem uudecode_total:
  "\<exists>r. php_uudecode src = Some (Inr r) \<and> (case r of None \<Rightarrow> True | Some d \<Rightarrow> 4 * length d \<le> 3 * length src)"
  using uudecode_returns [of src] .

text \<open>
  C38. \<^verbatim>\<open>php_uuencode\<close> returns within its block on every string, and \<^verbatim>\<open>php_uudecode\<close> gives the string back, whatever the
  length of the last line.
\<close>

theorem uuencode_roundtrip:
  "\<exists>e. php_uuencode s = Some (Inr e) \<and> php_uudecode e = Some (Inr (Some s))"
  by (simp add: uuencode_ok uu_roundtrip_ok)

section \<open>Linked lists\<close>

text \<open>
  C39. Any sequence of appending, prepending, deleting by a predicate, removing the tail, cleaning and filtering with a callback, started on a new
  list, reads and writes only nodes that are allocated, leaves a list whose links are right in both directions, and has the effect of the
  same operations on a sequence; the destructor has got exactly the removed elements, in order.
\<close>

theorem llist_runs:
  "\<exists>l h ns. foldl (\<lambda>s op. Option.bind s (llist_step op)) (Some (zend_llist_init True t, \<lparr>nodes = Map.empty, next_node = n, destroyed = []\<rparr>)) ops = Some (l, h) \<and>
    llist_inv l h ns \<and> (map snd ns, destroyed h) = fold llist_spec ops ([], [])"
proof -
  have "llist_rel (zend_llist_init True t, \<lparr>nodes = Map.empty, next_node = n, destroyed = []\<rparr>) ([], [])"
    by (simp add: llist_rel_def llist_inv_def zend_llist_init_def)
  from llist.run_ok [OF this, of ops] show ?thesis by (auto simp: llist_rel_def prod_eq_iff)
qed

section \<open>Stacks\<close>

text \<open>
  C40. Pushing values on a well-formed stack and popping as many returns them in reverse order and leaves the contents as before, whatever
  reallocation happens in between.  The members of a stack are of type \<^verbatim>\<open>int\<close>, whose overflow is undefined: there must be room below
  \<^verbatim>\<open>INT_MAX\<close> for the offset \<^verbatim>\<open>size * top\<close> after the pushes and for the block to grow once more, and then no operation on
  \<^verbatim>\<open>int\<close> overflows.
\<close>

theorem stack_roundtrip:
  assumes "stack_inv s" and "stk_size s * (stk_top s + int (length xs)) \<le> INT_MAX" and "stk_top s + int (length xs) + STACK_BLOCK_SIZE \<le> INT_MAX"
  shows "\<exists>s1 s2. zs.push_all s xs = Some s1 \<and> zs.pop_n (length xs) s1 = Some (rev xs, s2) \<and>
    stack_inv s2 \<and> stack_contents s2 = stack_contents s"
  using zs.push_pop_roundtrip [OF assms(1)] assms(2,3) unfolding stack_room_def by blast

theorem stack_roundtrip_witness:
  "\<exists>s1 s2. zs.push_all (zend_stack_init 4) [1, 2 :: int] = Some s1 \<and> zs.pop_n 2 s1 = Some ([2, 1], s2) \<and> stack_contents s2 = []"
proof -
  have b: "stk_size (zend_stack_init 4 :: int zend_stack) * (stk_top (zend_stack_init 4 :: int zend_stack) + int (length [1, 2 :: int])) \<le> INT_MAX"
    "stk_top (zend_stack_init 4 :: int zend_stack) + int (length [1, 2 :: int]) + STACK_BLOCK_SIZE \<le> INT_MAX"
    by (simp_all add: zend_stack_init_def INT_MAX_def STACK_BLOCK_SIZE_def)
  show ?thesis using stack_roundtrip [OF stack_inv_init(1) b] unfolding stack_inv_init(2)
    by (auto simp del: zs.push_all.simps zs.pop_n.simps simp flip: numeral_2_eq_2)
qed

end
